(* ===== verification/LugPrelude.thy ===== *)
theory LugPrelude
  imports Complex_Main "HOL-Library.List_Lexorder" "HOL-Library.Char_ord" "HOL-Library.Sublist"
begin

text \<open>
  What every component shares: the fixed-width unsigned integers of the Rust sources with the
  three arithmetics the code uses on them (wrapping, checked, saturating), the error monad on
  sums, and \<open>BTreeMap\<close> and \<open>BTreeSet\<close> of the standard library as key-sorted association
  lists.

  Strings are \<open>string\<close>, that is, the list of their UTF-8 bytes: Rust compares and measures
  strings by bytes, and the library order on \<open>char list\<close> is that order.
\<close>

named_theorems inv_intros \<open>facts that an operation keeps a component's invariant\<close>
named_theorems u64_simps \<open>definitions of the fixed-width operations\<close>

section \<open>Unsigned integers\<close>

text \<open>
  A \<open>u64\<close> is a natural number below \<open>2^64\<close>. Values are kept in that range by the type
  invariants of the components; each operation says what it does at the top.
\<close>

type_synonym version = nat

definition u64_max :: nat where
  "u64_max = 18446744073709551615"

definition u32_max :: nat where
  "u32_max = 4294967295"

definition u64_wrapping_add :: "nat \<Rightarrow> nat \<Rightarrow> nat" where
  "u64_wrapping_add a b = (a + b) mod 18446744073709551616"

definition u64_checked_add :: "nat \<Rightarrow> nat \<Rightarrow> nat option" where
  "u64_checked_add a b = (if a + b \<le> u64_max then Some (a + b) else None)"

definition u64_saturating_add :: "nat \<Rightarrow> nat \<Rightarrow> nat" where
  "u64_saturating_add a b = min (a + b) u64_max"

definition u32_saturating_add :: "nat \<Rightarrow> nat \<Rightarrow> nat" where
  "u32_saturating_add a b = min (a + b) u32_max"

definition u64_checked_sub :: "nat \<Rightarrow> nat \<Rightarrow> nat option" where
  "u64_checked_sub a b = (if b \<le> a then Some (a - b) else None)"

definition u64_checked_mul :: "nat \<Rightarrow> nat \<Rightarrow> nat option" where
  "u64_checked_mul a b = (if a * b \<le> u64_max then Some (a * b) else None)"

text \<open>Unsigned subtraction that may wrap, as a release build computes \<open>a - b\<close>.\<close>

definition u64_wrapping_sub :: "nat \<Rightarrow> nat \<Rightarrow> nat" where
  "u64_wrapping_sub a b = (a + (18446744073709551616 - b)) mod 18446744073709551616"

lemmas u64_defs [u64_simps] =
  u64_wrapping_add_def u64_checked_add_def u64_saturating_add_def u64_checked_sub_def
  u64_checked_mul_def u64_wrapping_sub_def

lemma u64_max_pos [simp]: "0 < u64_max" "u64_max \<noteq> 0" "Suc 0 \<le> u64_max"
  by (simp_all add: u64_max_def)

lemma u64_modulus: "18446744073709551616 = Suc u64_max"
  by (simp add: u64_max_def)

lemma u64_wrapping_add_exact [simp]:
  "a + b \<le> u64_max \<Longrightarrow> u64_wrapping_add a b = a + b"
  by (simp add: u64_wrapping_add_def u64_max_def)

lemma u64_wrapping_sub_exact [simp]:
  assumes "b \<le> a" "a \<le> u64_max" shows "u64_wrapping_sub a b = a - b"
proof -
  have "a + (18446744073709551616 - b) = (a - b) + 18446744073709551616"
    using assms by (simp add: u64_max_def)
  moreover have "(a - b) mod 18446744073709551616 = a - b"
    using assms by (simp add: u64_max_def)
  ultimately show ?thesis by (simp add: u64_wrapping_sub_def)
qed

lemma u64_checked_add_Some_iff:
  "u64_checked_add a b = Some c \<longleftrightarrow> a + b \<le> u64_max \<and> c = a + b"
  by (auto simp: u64_checked_add_def)

lemma u64_checked_add_None_iff: "u64_checked_add a b = None \<longleftrightarrow> u64_max < a + b"
  by (auto simp: u64_checked_add_def)

lemma u64_checked_sub_Some_iff:
  "u64_checked_sub a b = Some c \<longleftrightarrow> b \<le> a \<and> c = a - b"
  by (auto simp: u64_checked_sub_def)

section \<open>Results\<close>

text \<open>
  \<open>Result<T, E>\<close> is \<open>'e + 't\<close> with the error on the left. \<open>rbind\<close> is the \<open>?\<close>
  operator, \<open>ok_or\<close> and \<open>map_err\<close> are the methods of the same name.
\<close>

definition rbind :: "'e + 'a \<Rightarrow> ('a \<Rightarrow> 'e + 'b) \<Rightarrow> 'e + 'b" where
  "rbind r k = (case r of Inl e \<Rightarrow> Inl e | Inr a \<Rightarrow> k a)"

definition ok_or :: "'a option \<Rightarrow> 'e \<Rightarrow> 'e + 'a" where
  "ok_or x e = (case x of None \<Rightarrow> Inl e | Some a \<Rightarrow> Inr a)"

definition map_err :: "('e \<Rightarrow> 'f) \<Rightarrow> 'e + 'a \<Rightarrow> 'f + 'a" where
  "map_err f r = (case r of Inl e \<Rightarrow> Inl (f e) | Inr a \<Rightarrow> Inr a)"

lemma rbind_simps [simp]:
  "rbind (Inl e) k = Inl e" "rbind (Inr a) k = k a"
  by (simp_all add: rbind_def)

lemma map_err_simps [simp]: "map_err f (Inl e) = Inl (f e)" "map_err f (Inr a) = Inr a"
  by (simp_all add: map_err_def)

lemma ok_or_simps [simp]: "ok_or None e = Inl e" "ok_or (Some a) e = Inr a"
  by (simp_all add: ok_or_def)

lemma rbind_Inr_iff: "rbind r k = Inr b \<longleftrightarrow> (\<exists>a. r = Inr a \<and> k a = Inr b)"
  by (cases r) simp_all

lemma rbind_cong [fundef_cong]:
  "r = r' \<Longrightarrow> (\<And>a. r' = Inr a \<Longrightarrow> k a = k' a) \<Longrightarrow> rbind r k = rbind r' k'"
  by (cases r') simp_all

lemma map_err_Inr_iff [simp]: "map_err f r = Inr a \<longleftrightarrow> r = Inr a"
  by (cases r) simp_all

lemma ok_or_Inr_iff [simp]: "ok_or x e = Inr a \<longleftrightarrow> x = Some a"
  by (cases x) simp_all

section \<open>Ordered maps of the standard library\<close>

text \<open>
  \<open>std::collections::BTreeMap\<close>, taken as what its iterator shows: the entries in strictly
  increasing key order. \<open>bt_insert\<close> replaces the value of a key that is present.
\<close>

type_synonym ('k, 'v) btree_map = "('k \<times> 'v) list"

definition bt_wf :: "('k::linorder, 'v) btree_map \<Rightarrow> bool" where
  "bt_wf m \<longleftrightarrow> sorted_wrt (<) (map fst m)"

fun bt_insert :: "'k::linorder \<Rightarrow> 'v \<Rightarrow> ('k, 'v) btree_map \<Rightarrow> ('k, 'v) btree_map" where
  "bt_insert k v [] = [(k, v)]"
| "bt_insert k v ((k', v') # m) =
     (if k < k' then (k, v) # (k', v') # m
      else if k = k' then (k, v) # m
      else (k', v') # bt_insert k v m)"

definition bt_get :: "('k, 'v) btree_map \<Rightarrow> 'k \<Rightarrow> 'v option" where
  "bt_get m k = map_of m k"

definition bt_keys :: "('k, 'v) btree_map \<Rightarrow> 'k list" where
  "bt_keys m = map fst m"

definition bt_remove :: "'k \<Rightarrow> ('k, 'v) btree_map \<Rightarrow> ('k, 'v) btree_map" where
  "bt_remove k m = filter (\<lambda>p. fst p \<noteq> k) m"

definition bt_extend ::
    "('k::linorder, 'v) btree_map \<Rightarrow> ('k, 'v) btree_map \<Rightarrow> ('k, 'v) btree_map" where
  "bt_extend m m' = fold (\<lambda>(k, v) acc. bt_insert k v acc) m' m"

lemma set_keys_bt_insert [simp]: "fst ` set (bt_insert k v m) = insert k (fst ` set m)"
  by (induction k v m rule: bt_insert.induct) auto

lemma bt_insert_wf [inv_intros, simp]: "bt_wf m \<Longrightarrow> bt_wf (bt_insert k v m)"
  unfolding bt_wf_def
proof (induction k v m rule: bt_insert.induct)
  case (2 k v k' v' m)
  have "\<forall>x \<in> set (map fst (bt_insert k v m)). x = k \<or> x \<in> set (map fst m)"
    using set_keys_bt_insert [of k v m] by (metis image_set insert_iff)
  with 2 show ?case by (auto intro: less_trans)
qed simp

lemma map_of_bt_insert [simp]: "map_of (bt_insert k v m) = (map_of m)(k \<mapsto> v)"
  by (induction k v m rule: bt_insert.induct) (auto simp: fun_eq_iff)

lemma bt_get_insert [simp]: "bt_get (bt_insert k v m) k' = (if k' = k then Some v else bt_get m k')"
  by (simp add: bt_get_def)

lemma bt_wf_remove [inv_intros, simp]: "bt_wf m \<Longrightarrow> bt_wf (bt_remove k m)"
proof -
  have "map fst (filter (\<lambda>p. fst p \<noteq> k) m) = filter (\<lambda>x. x \<noteq> k) (map fst m)"
    by (induction m) auto
  then show "bt_wf m \<Longrightarrow> ?thesis" by (simp add: bt_wf_def bt_remove_def sorted_wrt_filter)
qed

lemma bt_get_remove [simp]: "bt_get (bt_remove k m) k' = (if k' = k then None else bt_get m k')"
  by (induction m) (auto simp: bt_get_def bt_remove_def)

lemma bt_remove_absent: "k \<notin> fst ` set m \<Longrightarrow> bt_remove k m = m"
  by (force simp: bt_remove_def intro!: filter_True)

lemma bt_remove_append [simp]: "bt_remove k (xs @ ys) = bt_remove k xs @ bt_remove k ys"
  by (simp add: bt_remove_def)

text \<open>How an insertion splits at an entry of a sorted map.\<close>

lemma bt_insert_append_less:
  "k < a \<Longrightarrow> bt_insert k v (xs @ (a, b) # ys) = bt_insert k v xs @ (a, b) # ys"
  by (induction xs) auto

lemma bt_insert_append_geq:
  "\<forall>x \<in> fst ` set xs. x < k \<Longrightarrow> bt_insert k v (xs @ ys) = xs @ bt_insert k v ys"
  by (induction xs) auto

lemma bt_wf_append:
  "bt_wf (xs @ ys) \<longleftrightarrow> bt_wf xs \<and> bt_wf ys \<and> (\<forall>x \<in> fst ` set xs. \<forall>y \<in> fst ` set ys. x < y)"
  by (simp add: bt_wf_def sorted_wrt_append)

lemma bt_wf_Nil [simp]: "bt_wf []"
  by (simp add: bt_wf_def)

lemma bt_wf_Cons:
  "bt_wf ((k, v) # m) \<longleftrightarrow> bt_wf m \<and> (\<forall>k' \<in> fst ` set m. k < k')"
  by (auto simp: bt_wf_def)

lemma bt_wf_distinct: "bt_wf m \<Longrightarrow> distinct (map fst m)"
  by (auto simp: bt_wf_def strict_sorted_iff)

lemma bt_get_eq_None_iff: "bt_get m k = None \<longleftrightarrow> k \<notin> fst ` set m"
  by (auto simp: bt_get_def map_of_eq_None_iff)

lemma bt_get_Some_iff: "bt_wf m \<Longrightarrow> bt_get m k = Some v \<longleftrightarrow> (k, v) \<in> set m"
  by (simp add: bt_get_def bt_wf_distinct)

lemma bt_extend_simps [simp]:
  "bt_extend m [] = m" "bt_extend m ((k, v) # m') = bt_extend (bt_insert k v m) m'"
  by (simp_all add: bt_extend_def)

lemma bt_extend_wf [inv_intros, simp]: "bt_wf m \<Longrightarrow> bt_wf (bt_extend m m')"
  by (induction m' arbitrary: m) auto

lemma map_of_bt_extend:
  "distinct (map fst m') \<Longrightarrow> map_of (bt_extend m m') = map_of m ++ map_of m'"
proof (induction m' arbitrary: m)
  case (Cons p m')
  obtain k v where p: "p = (k, v)" by (cases p)
  have k: "k \<notin> dom (map_of m')" using Cons.prems p by (auto simp: dom_map_of_conv_image_fst)
  have "map_of (bt_extend m (p # m')) = (map_of m)(k \<mapsto> v) ++ map_of m'"
    using Cons p by simp
  also have "\<dots> = map_of m ++ map_of (p # m')"
    using k p by (auto simp: map_add_def fun_eq_iff split: option.splits)
  finally show ?case .
qed simp

lemma set_keys_bt_extend [simp]: "fst ` set (bt_extend m m') = fst ` set m \<union> fst ` set m'"
proof (induction m' arbitrary: m)
  case (Cons p m')
  then show ?case by (cases p) simp
qed simp

text \<open>
  Two sorted maps with the same lookups are the same list: the sorted form is canonical.
\<close>

lemma bt_wf_ext:
  "bt_wf m \<Longrightarrow> bt_wf m' \<Longrightarrow> map_of m = map_of m' \<Longrightarrow> m = m'"
proof (induction m arbitrary: m')
  case Nil
  then show ?case by (cases m') (auto simp: fun_eq_iff split: if_splits)
next
  case (Cons p m)
  obtain k v where p: "p = (k, v)" by (cases p)
  have "map_of m' k = Some v" using fun_cong [OF Cons.prems(3), of k] by (simp add: p)
  then obtain k' v' t' where m': "m' = (k', v') # t'" by (cases m') auto
  have above: "bt_wf m" "\<forall>x \<in> fst ` set m. k < x" "bt_wf t'" "\<forall>x \<in> fst ` set t'. k' < x"
    using Cons.prems(1,2) by (simp_all add: p m' bt_wf_Cons)
  have "dom (map_of (p # m)) = dom (map_of m')" by (simp only: Cons.prems(3))
  then have doms: "insert k (fst ` set m) = insert k' (fst ` set t')"
    by (simp add: p m' dom_map_of_conv_image_fst)
  have kk: "k = k'" using doms above by (metis insertE insertI1 less_asym)
  have none: "map_of m k = None" "map_of t' k = None"
    using above kk by (auto simp: map_of_eq_None_iff)
  have "v = v'" using fun_cong [OF Cons.prems(3), of k] by (simp add: p m' kk)
  moreover have "map_of m x = map_of t' x" for x
    using fun_cong [OF Cons.prems(3), of x] none by (cases "x = k") (simp_all add: p m' kk)
  then have "m = t'" using Cons.IH above by blast
  ultimately show ?case by (simp add: p m' kk)
qed

end
