(* ===== verification/Avl.thy ===== *)
theory Avl
  imports LugPrelude
begin

text \<open>
  \<open>crates/cavlc/src/avl.rs\<close>: the immutable ordered map with path-copying AVL updates, its
  explicit-stack iterator, and the contract \<open>ordered_map\<close> the value layer relies on.

  A \<open>Link\<close> is \<open>Option<Arc<Node>>\<close>: \<open>Tip\<close> is \<open>None\<close>, \<open>Nd\<close> carries the entry, the two
  links and the cached height and size. Sharing of nodes has no effect on what a reader sees;
  the one observable use of it, \<open>ptr_eq\<close>, is treated where it is used (CavlcPatch).
\<close>

section \<open>Nodes and rotations\<close>

datatype ('k, 'v) avl = Tip | Nd 'k 'v "('k, 'v) avl" "('k, 'v) avl" nat nat

fun avl_height :: "('k, 'v) avl \<Rightarrow> nat" where
  "avl_height Tip = 0"
| "avl_height (Nd k v l r h s) = h"

fun avl_size :: "('k, 'v) avl \<Rightarrow> nat" where
  "avl_size Tip = 0"
| "avl_size (Nd k v l r h s) = s"

definition node :: "'k \<Rightarrow> 'v \<Rightarrow> ('k, 'v) avl \<Rightarrow> ('k, 'v) avl \<Rightarrow> ('k, 'v) avl" where
  "node k v l r =
     Nd k v l r (1 + max (avl_height l) (avl_height r)) (1 + avl_size l + avl_size r)"

text \<open>\<open>None\<close> is the panic of \<open>expect\<close> on a missing child.\<close>

fun rotate_left :: "('k, 'v) avl \<Rightarrow> ('k, 'v) avl option" where
  "rotate_left (Nd k v l (Nd rk rv rl rr rh rs) h s) = Some (node rk rv (node k v l rl) rr)"
| "rotate_left _ = None"

fun rotate_right :: "('k, 'v) avl \<Rightarrow> ('k, 'v) avl option" where
  "rotate_right (Nd k v (Nd lk lv ll lr lh ls) r h s) = Some (node lk lv ll (node k v lr r))"
| "rotate_right _ = None"

fun balance_checked :: "('k, 'v) avl \<Rightarrow> ('k, 'v) avl option" where
  "balance_checked Tip = None"
| "balance_checked (Nd k v l r h s) =
     (if avl_height l > avl_height r + 1 then
        (case l of
           Tip \<Rightarrow> None
         | Nd lk lv ll lr lh ls \<Rightarrow>
             if avl_height lr > avl_height ll
             then Option.bind (rotate_left l) (\<lambda>l'. rotate_right (node k v l' r))
             else rotate_right (Nd k v l r h s))
      else if avl_height r > avl_height l + 1 then
        (case r of
           Tip \<Rightarrow> None
         | Nd rk rv rl rr rh rs \<Rightarrow>
             if avl_height rl > avl_height rr
             then Option.bind (rotate_right r) (\<lambda>r'. rotate_left (node k v l r'))
             else rotate_left (Nd k v l r h s))
      else Some (Nd k v l r h s))"

text \<open>
  \<open>balance\<close> panics on no node (\<open>balance_never_panics\<close> below), so it is a total function; the
  \<open>None\<close> branch is there only to make the definition total.
\<close>

definition balance :: "('k, 'v) avl \<Rightarrow> ('k, 'v) avl" where
  "balance n = (case balance_checked n of Some m \<Rightarrow> m | None \<Rightarrow> n)"

section \<open>Insertion, removal, lookup\<close>

fun avl_insert :: "('k::linorder, 'v) avl \<Rightarrow> 'k \<Rightarrow> 'v \<Rightarrow> ('k, 'v) avl" where
  "avl_insert Tip key val = node key val Tip Tip"
| "avl_insert (Nd k v l r h s) key val =
     (if key < k then balance (node k v (avl_insert l key val) r)
      else if key > k then balance (node k v l (avl_insert r key val))
      else node key val l r)"

fun remove_min :: "('k, 'v) avl \<Rightarrow> ('k, 'v) avl" where
  "remove_min Tip = Tip"
| "remove_min (Nd k v l r h s) =
     (case l of Tip \<Rightarrow> r | _ \<Rightarrow> balance (node k v (remove_min l) r))"

fun leftmost :: "('k, 'v) avl \<Rightarrow> ('k \<times> 'v) option" where
  "leftmost Tip = None"
| "leftmost (Nd k v l r h s) = (case l of Tip \<Rightarrow> Some (k, v) | _ \<Rightarrow> leftmost l)"

fun avl_remove :: "('k::linorder, 'v) avl \<Rightarrow> 'k \<Rightarrow> ('k, 'v) avl \<times> bool" where
  "avl_remove Tip key = (Tip, False)"
| "avl_remove (Nd k v l r h s) key =
     (if key < k then
        (let (l', found) = avl_remove l key
         in if \<not> found then (Nd k v l r h s, False) else (balance (node k v l' r), True))
      else if key > k then
        (let (r', found) = avl_remove r key
         in if \<not> found then (Nd k v l r h s, False) else (balance (node k v l r'), True))
      else
        (case l of
           Tip \<Rightarrow> (r, True)
         | _ \<Rightarrow>
             (case leftmost r of
                None \<Rightarrow> (l, True)
              | Some (sk, sv) \<Rightarrow> (balance (node sk sv l (remove_min r)), True))))"

definition avlmap_remove :: "('k::linorder, 'v) avl \<Rightarrow> 'k \<Rightarrow> ('k, 'v) avl" where
  "avlmap_remove m key = fst (avl_remove m key)"

fun avl_get :: "('k::linorder, 'v) avl \<Rightarrow> 'k \<Rightarrow> 'v option" where
  "avl_get Tip key = None"
| "avl_get (Nd k v l r h s) key =
     (if key < k then avl_get l key else if key > k then avl_get r key else Some v)"

definition avl_is_empty :: "('k, 'v) avl \<Rightarrow> bool" where
  "avl_is_empty m = (case m of Tip \<Rightarrow> True | _ \<Rightarrow> False)"

section \<open>The iterator\<close>

text \<open>\<open>Iter\<close> holds a stack of nodes; the top of the \<open>Vec\<close> is the head of the list.\<close>

fun push_left :: "('k, 'v) avl \<Rightarrow> ('k, 'v) avl list \<Rightarrow> ('k, 'v) avl list" where
  "push_left Tip stack = stack"
| "push_left (Nd k v l r h s) stack = push_left l (Nd k v l r h s # stack)"

fun iter_next :: "('k, 'v) avl list \<Rightarrow> ('k \<times> 'v) option \<times> ('k, 'v) avl list" where
  "iter_next (Nd k v l r h s # stack) = (Some (k, v), push_left r stack)"
| "iter_next stack = (None, stack)"

definition avl_iter :: "('k, 'v) avl \<Rightarrow> ('k, 'v) avl list" where
  "avl_iter m = push_left m []"

text \<open>Running an iterator until it is exhausted, with a bound on the number of \<open>next\<close> calls.\<close>

fun iter_collect :: "nat \<Rightarrow> ('k, 'v) avl list \<Rightarrow> ('k \<times> 'v) list option" where
  "iter_collect 0 stack = None"
| "iter_collect (Suc fuel) stack =
     (case iter_next stack of
        (None, _) \<Rightarrow> Some []
      | (Some e, stack') \<Rightarrow> map_option (\<lambda>es. e # es) (iter_collect fuel stack'))"

section \<open>The in-order list and the invariant\<close>

fun entries :: "('k, 'v) avl \<Rightarrow> ('k \<times> 'v) list" where
  "entries Tip = []"
| "entries (Nd k v l r h s) = entries l @ (k, v) # entries r"

text \<open>What \<open>check\<close> of the test module asserts of every node.\<close>

fun balanced :: "('k, 'v) avl \<Rightarrow> bool" where
  "balanced Tip = True"
| "balanced (Nd k v l r h s) \<longleftrightarrow>
     balanced l \<and> balanced r \<and>
     avl_height l \<le> avl_height r + 1 \<and> avl_height r \<le> avl_height l + 1 \<and>
     h = 1 + max (avl_height l) (avl_height r) \<and> s = 1 + avl_size l + avl_size r"

definition avl_wf :: "('k::linorder, 'v) avl \<Rightarrow> bool" where
  "avl_wf m \<longleftrightarrow> balanced m \<and> bt_wf (entries m)"

subsection \<open>Rotations and balance\<close>

lemma avl_height_node [simp]: "avl_height (node k v l r) = 1 + max (avl_height l) (avl_height r)"
  by (simp add: node_def)

lemma avl_size_node [simp]: "avl_size (node k v l r) = 1 + avl_size l + avl_size r"
  by (simp add: node_def)

lemma entries_node [simp]: "entries (node k v l r) = entries l @ (k, v) # entries r"
  by (simp add: node_def)

lemma node_not_Tip [simp]: "node k v l r \<noteq> Tip"
  by (simp add: node_def)

lemma balanced_node [simp]:
  "balanced (node k v l r) \<longleftrightarrow>
     balanced l \<and> balanced r \<and>
     avl_height l \<le> avl_height r + 1 \<and> avl_height r \<le> avl_height l + 1"
  by (auto simp: node_def)

lemma height_pos_not_Tip: "n < avl_height t \<Longrightarrow> t \<noteq> Tip"
  by auto

lemma rotate_left_ok:
  "r \<noteq> Tip \<Longrightarrow> \<exists>m. rotate_left (Nd k v l r h s) = Some m \<and> m \<noteq> Tip \<and>
     entries m = entries l @ (k, v) # entries r"
  by (cases r) auto

lemma rotate_right_ok:
  "l \<noteq> Tip \<Longrightarrow> \<exists>m. rotate_right (Nd k v l r h s) = Some m \<and> m \<noteq> Tip \<and>
     entries m = entries l @ (k, v) # entries r"
  by (cases l) auto

text \<open>
  Whatever the cached heights say, the guards of \<open>balance\<close> imply that every child it unwraps
  is there, and rotating keeps the in-order list.
\<close>

lemma balance_checked_ok:
  assumes "n \<noteq> Tip"
  shows "\<exists>m. balance_checked n = Some m \<and> entries m = entries n"
proof -
  obtain k v l r h s where n: "n = Nd k v l r h s" using assms by (cases n) auto
  consider (left) "avl_height l > avl_height r + 1"
    | (right) "\<not> avl_height l > avl_height r + 1" "avl_height r > avl_height l + 1"
    | (even) "\<not> avl_height l > avl_height r + 1" "\<not> avl_height r > avl_height l + 1"
    by blast
  then show ?thesis
  proof cases
    case left
    then obtain lk lv ll lr lh ls where l: "l = Nd lk lv ll lr lh ls" by (cases l) auto
    show ?thesis
    proof (cases "avl_height lr > avl_height ll")
      case True
      from rotate_left_ok [OF height_pos_not_Tip [OF True], of lk lv ll lh ls]
      obtain l' where l': "rotate_left l = Some l'" "l' \<noteq> Tip" "entries l' = entries l"
        by (auto simp: l)
      from rotate_right_ok [OF l'(2), of k v r] l' left True show ?thesis
        by (auto simp: n l node_def)
    next
      case False
      with rotate_right_ok [of l k v r h s] left show ?thesis by (auto simp: n l)
    qed
  next
    case right
    then obtain rk rv rl rr rh rs where r: "r = Nd rk rv rl rr rh rs" by (cases r) auto
    show ?thesis
    proof (cases "avl_height rl > avl_height rr")
      case True
      from rotate_right_ok [OF height_pos_not_Tip [OF True], of rk rv rr rh rs]
      obtain r' where r': "rotate_right r = Some r'" "r' \<noteq> Tip" "entries r' = entries r"
        by (auto simp: r)
      from rotate_left_ok [OF r'(2), of k v l] r' right True show ?thesis
        by (auto simp: n r node_def)
    next
      case False
      with rotate_left_ok [of r k v l h s] right show ?thesis by (auto simp: n r)
    qed
  next
    case even
    then show ?thesis by (simp add: n)
  qed
qed

lemma entries_balance [simp]: "entries (balance n) = entries n"
  using balance_checked_ok [of n] by (cases "n = Tip") (auto simp: balance_def)

lemma balance_id:
  "avl_height l \<le> avl_height r + 1 \<Longrightarrow> avl_height r \<le> avl_height l + 1 \<Longrightarrow>
   balance (node k v l r) = node k v l r"
  by (simp add: balance_def node_def)

text \<open>
  A node whose sides differ by two is repaired; its height is that of the taller side or one
  more. The two mirror cases, then the three together.
\<close>

lemma balance_left_heavy:
  assumes "balanced l" "balanced r" "avl_height l = avl_height r + 2"
  shows "balanced (balance (node k v l r)) \<and>
     avl_height (balance (node k v l r)) \<in> {avl_height l, avl_height l + 1}"
proof -
  obtain lk lv ll lr lh ls where l: "l = Nd lk lv ll lr lh ls"
    using assms(3) by (cases l) auto
  show ?thesis
  proof (cases "avl_height lr > avl_height ll")
    case True
    then obtain mk mv ml mr mh ms where "lr = Nd mk mv ml mr mh ms" by (cases lr) auto
    with True assms l show ?thesis by (auto simp: balance_def node_def)
  next
    case False
    with assms l show ?thesis by (auto simp: balance_def node_def)
  qed
qed

lemma balance_right_heavy:
  assumes "balanced l" "balanced r" "avl_height r = avl_height l + 2"
  shows "balanced (balance (node k v l r)) \<and>
     avl_height (balance (node k v l r)) \<in> {avl_height r, avl_height r + 1}"
proof -
  obtain rk rv rl rr rh rs where r: "r = Nd rk rv rl rr rh rs"
    using assms(3) by (cases r) auto
  show ?thesis
  proof (cases "avl_height rl > avl_height rr")
    case True
    then obtain mk mv ml mr mh ms where "rl = Nd mk mv ml mr mh ms" by (cases rl) auto
    with True assms r show ?thesis by (auto simp: balance_def node_def)
  next
    case False
    with assms r show ?thesis by (auto simp: balance_def node_def)
  qed
qed

lemma balanced_balance:
  assumes "balanced l" "balanced r"
    and "avl_height l \<le> avl_height r + 2" "avl_height r \<le> avl_height l + 2"
  shows "balanced (balance (node k v l r))"
    and "max (avl_height l) (avl_height r) \<le> avl_height (balance (node k v l r))"
    and "avl_height (balance (node k v l r)) \<le> 1 + max (avl_height l) (avl_height r)"
    and "avl_height l \<le> avl_height r + 1 \<Longrightarrow> avl_height r \<le> avl_height l + 1 \<Longrightarrow>
      avl_height (balance (node k v l r)) = 1 + max (avl_height l) (avl_height r)"
proof -
  consider "avl_height l = avl_height r + 2" | "avl_height r = avl_height l + 2"
    | "avl_height l \<le> avl_height r + 1" "avl_height r \<le> avl_height l + 1"
    using assms(3,4) by linarith
  note three_cases = this
  show "balanced (balance (node k v l r))"
    using three_cases assms balance_left_heavy [of l r k v] balance_right_heavy [of l r k v]
    by cases (auto simp: balance_id)
  show "max (avl_height l) (avl_height r) \<le> avl_height (balance (node k v l r))"
    using three_cases assms balance_left_heavy [of l r k v] balance_right_heavy [of l r k v]
    by cases (auto simp: balance_id)
  show "avl_height (balance (node k v l r)) \<le> 1 + max (avl_height l) (avl_height r)"
    using three_cases assms balance_left_heavy [of l r k v] balance_right_heavy [of l r k v]
    by cases (auto simp: balance_id)
qed (simp add: balance_id)

text \<open>
  Rebuilding a balanced node after one of its sides changed height by at most one: upwards for
  an insertion, downwards for a removal. Both are arithmetic over \<open>balanced_balance\<close>.
\<close>

lemma balanced_rebuild:
  assumes bal: "balanced (Nd k v l r h s)" "balanced l'" "balanced r'"
    and near: "avl_height l' \<le> avl_height l + 1" "avl_height l \<le> avl_height l' + 1"
      "avl_height r' \<le> avl_height r + 1" "avl_height r \<le> avl_height r' + 1"
    and one: "l' = l \<or> r' = r"
  shows "balanced (balance (node k' v' l' r'))"
    and "avl_height l \<le> avl_height l' \<Longrightarrow> avl_height r \<le> avl_height r' \<Longrightarrow>
      h \<le> avl_height (balance (node k' v' l' r')) \<and>
      avl_height (balance (node k' v' l' r')) \<le> h + 1"
    and "avl_height l' \<le> avl_height l \<Longrightarrow> avl_height r' \<le> avl_height r \<Longrightarrow>
      avl_height (balance (node k' v' l' r')) \<le> h \<and>
      h \<le> avl_height (balance (node k' v' l' r')) + 1"
proof -
  have sides: "avl_height l \<le> avl_height r + 1" "avl_height r \<le> avl_height l + 1"
    and h: "h = 1 + max (avl_height l) (avl_height r)" using bal(1) by simp_all
  have one': "avl_height l' = avl_height l \<or> avl_height r' = avl_height r" using one by auto
  have diff: "avl_height l' \<le> avl_height r' + 2" "avl_height r' \<le> avl_height l' + 2"
    using sides near one' by auto
  define B where "B = avl_height (balance (node k' v' l' r'))"
  note B = balanced_balance [OF bal(2,3) diff, of k' v', folded B_def]
  show "balanced (balance (node k' v' l' r'))" by (rule B(1))
  have even: "1 + max (avl_height l') (avl_height r') = B \<or> avl_height l' = avl_height r' + 2 \<or>
      avl_height r' = avl_height l' + 2"
    using B(4) diff by linarith
  show "h \<le> avl_height (balance (node k' v' l' r')) \<and>
      avl_height (balance (node k' v' l' r')) \<le> h + 1"
    if up: "avl_height l \<le> avl_height l'" "avl_height r \<le> avl_height r'"
    using even B(2,3) sides near one' up unfolding B_def [symmetric] h
    by (elim disjE) (simp_all add: max_def split: if_splits)
  show "avl_height (balance (node k' v' l' r')) \<le> h \<and>
      h \<le> avl_height (balance (node k' v' l' r')) + 1"
    if down: "avl_height l' \<le> avl_height l" "avl_height r' \<le> avl_height r"
    using even B(2,3) sides near one' down unfolding B_def [symmetric] h
    by (elim disjE) (simp_all add: max_def split: if_splits)
qed

subsection \<open>Insertion\<close>

lemma balanced_insert:
  "balanced t \<Longrightarrow> balanced (avl_insert t k v) \<and>
     avl_height t \<le> avl_height (avl_insert t k v) \<and>
     avl_height (avl_insert t k v) \<le> avl_height t + 1"
proof (induction t k v rule: avl_insert.induct)
  case (2 k v l r h s key val)
  note bal = "2.prems"
  then have sides: "balanced l" "balanced r" by simp_all
  consider (lt) "key < k" | (gt) "\<not> key < k" "key > k" | (eq) "key = k" by fastforce
  then show ?case
  proof cases
    case lt
    note IH = "2.IH"(1) [OF lt sides(1)]
    from IH balanced_rebuild [OF bal, of "avl_insert l key val" r k v] sides lt
    show ?thesis by simp
  next
    case gt
    note IH = "2.IH"(2) [OF gt sides(2)]
    from IH balanced_rebuild [OF bal, of l "avl_insert r key val" k v] sides gt
    show ?thesis by simp
  next
    case eq
    with bal show ?thesis by (auto simp: max_def)
  qed
qed simp

lemma entries_insert:
  "bt_wf (entries t) \<Longrightarrow> entries (avl_insert t k v) = bt_insert k v (entries t)"
proof (induction t k v rule: avl_insert.induct)
  case (2 k v l r h s key val)
  then have keys: "bt_wf (entries l)" "bt_wf (entries r)" "\<forall>x \<in> fst ` set (entries l). x < k"
    by (auto simp: bt_wf_append bt_wf_Cons)
  consider "key < k" | "key > k" | "key = k" by fastforce
  then show ?case
  proof cases
    case 1
    with 2 keys show ?thesis by (simp add: bt_insert_append_less)
  next
    case case2: 2
    then have "\<not> key < k" "key \<noteq> k" by auto
    moreover have "\<forall>x \<in> fst ` set (entries l). x < key" using keys(3) case2 by (meson less_trans)
    ultimately show ?thesis using "2.IH"(2) keys case2 by (simp add: bt_insert_append_geq)
  next
    case 3
    with keys show ?thesis by (simp add: bt_insert_append_geq)
  qed
qed simp

subsection \<open>Removal\<close>

lemma entries_remove_min:
  "t \<noteq> Tip \<Longrightarrow> \<exists>e. leftmost t = Some e \<and> entries t = e # entries (remove_min t)"
proof (induction t)
  case (Nd k v l r h s)
  show ?case
  proof (cases l)
    case Tip
    then show ?thesis by simp
  next
    case (Nd lk lv ll lr lh ls)
    with Nd.IH(1) show ?thesis by auto
  qed
qed simp

lemma balanced_remove_min:
  "balanced t \<Longrightarrow> t \<noteq> Tip \<Longrightarrow> balanced (remove_min t) \<and>
     avl_height (remove_min t) \<le> avl_height t \<and> avl_height t \<le> avl_height (remove_min t) + 1"
proof (induction t)
  case (Nd k v l r h s)
  note bal = Nd.prems(1)
  show ?case
  proof (cases "l = Tip")
    case True
    with bal show ?thesis by auto
  next
    case False
    have step: "remove_min (Nd k v l r h s) = balance (node k v (remove_min l) r)"
      using False by (cases l) simp_all
    show ?thesis unfolding step
      using Nd.IH(1) False bal balanced_rebuild(1,3) [OF bal, of "remove_min l" r k v] by simp
  qed
qed simp

lemma balanced_remove:
  "balanced t \<Longrightarrow> balanced (fst (avl_remove t key)) \<and>
     avl_height (fst (avl_remove t key)) \<le> avl_height t \<and>
     avl_height t \<le> avl_height (fst (avl_remove t key)) + 1"
proof (induction t key rule: avl_remove.induct)
  case (2 k v l r h s key)
  note bal = "2.prems"
  then have sides: "balanced l" "balanced r" by simp_all
  consider (lt) "key < k" | (gt) "\<not> key < k" "key > k" | (eq) "key = k" by fastforce
  then show ?case
  proof cases
    case lt
    note IH = "2.IH"(1) [OF lt sides(1)]
    from IH balanced_rebuild(1,3) [OF bal, of "fst (avl_remove l key)" r k v] sides lt bal
    show ?thesis by (simp add: case_prod_beta Let_def)
  next
    case gt
    note IH = "2.IH"(2) [OF gt sides(2)]
    from IH balanced_rebuild(1,3) [OF bal, of l "fst (avl_remove r key)" k v] sides gt bal
    show ?thesis by (simp add: case_prod_beta Let_def)
  next
    case eq
    show ?thesis
    proof (cases "l = Tip \<or> r = Tip")
      case True
      with eq bal show ?thesis by (cases l; cases r) auto
    next
      case False
      note rm = balanced_remove_min [of r]
      obtain sk sv where lm: "leftmost r = Some (sk, sv)"
        using entries_remove_min [of r] False by force
      obtain lk lv ll lr lh ls where l: "l = Nd lk lv ll lr lh ls" using False by (cases l) auto
      have step: "avl_remove (Nd k v l r h s) key = (balance (node sk sv l (remove_min r)), True)"
        using eq lm by (simp add: l)
      show ?thesis unfolding step
        using rm balanced_rebuild(1,3) [OF bal, of l "remove_min r" sk sv] sides False by simp
    qed
  qed
qed simp

lemma avl_remove_absent:
  "bt_wf (entries t) \<Longrightarrow> key \<notin> fst ` set (entries t) \<Longrightarrow> avl_remove t key = (t, False)"
proof (induction t key rule: avl_remove.induct)
  case (2 k v l r h s key)
  then have keys: "bt_wf (entries l)" "bt_wf (entries r)"
    "key \<notin> fst ` set (entries l)" "key \<notin> fst ` set (entries r)" "key \<noteq> k"
    by (auto simp: bt_wf_append bt_wf_Cons image_Un)
  consider "key < k" | "\<not> key < k" "key > k" using keys(5) by fastforce
  then show ?case by cases (use "2.IH" keys in simp_all)
qed simp

lemma avl_remove_present:
  "bt_wf (entries t) \<Longrightarrow> key \<in> fst ` set (entries t) \<Longrightarrow>
   snd (avl_remove t key) \<and> entries (fst (avl_remove t key)) = bt_remove key (entries t)"
proof (induction t key rule: avl_remove.induct)
  case (2 k v l r h s key)
  then have keys: "bt_wf (entries l)" "bt_wf (entries r)"
    "\<forall>x \<in> fst ` set (entries l). x < k" "\<forall>x \<in> fst ` set (entries r). k < x"
    by (auto simp: bt_wf_append bt_wf_Cons)
  have here: "bt_remove key ((k, v) # es) = (if k = key then [] else [(k, v)]) @ bt_remove key es"
    for es by (simp add: bt_remove_def)
  consider (lt) "key < k" | (gt) "\<not> key < k" "key > k" | (eq) "key = k" by fastforce
  then show ?case
  proof cases
    case lt
    then have kr: "key \<notin> fst ` set (entries r)" using keys(4) by (metis less_asym)
    with lt "2.prems"(2) have "key \<in> fst ` set (entries l)" by auto
    with "2.IH"(1) [OF lt keys(1)] lt kr show ?thesis
      by (simp add: case_prod_beta Let_def bt_remove_absent here less_imp_neq [symmetric])
  next
    case gt
    then have kl: "key \<notin> fst ` set (entries l)" using keys(3) by (metis less_asym)
    with gt "2.prems"(2) have "key \<in> fst ` set (entries r)" by auto
    with "2.IH"(2) [OF gt keys(2)] gt kl show ?thesis
      by (simp add: case_prod_beta Let_def bt_remove_absent here less_imp_neq)
  next
    case eq
    then have "bt_remove key (entries l) = entries l" "bt_remove key (entries r) = entries r"
      using keys(3,4) by (metis bt_remove_absent less_irrefl)+
    then have all: "bt_remove key (entries (Nd k v l r h s)) = entries l @ entries r"
      unfolding entries.simps bt_remove_append here using eq by simp
    show ?thesis
    proof (cases "l = Tip \<or> r = Tip")
      case True
      with eq all show ?thesis by (cases l; cases r) auto
    next
      case False
      then obtain sk sv where "leftmost r = Some (sk, sv)" "entries r = (sk, sv) # entries (remove_min r)"
        using entries_remove_min [of r] by force
      with False eq all show ?thesis by (auto split: avl.splits)
    qed
  qed
qed simp

lemma entries_avlmap_remove:
  "bt_wf (entries t) \<Longrightarrow> entries (avlmap_remove t key) = bt_remove key (entries t)"
  using avl_remove_present [of t key] avl_remove_absent [of t key]
  by (cases "key \<in> fst ` set (entries t)") (auto simp: avlmap_remove_def bt_remove_absent)

lemma balanced_avlmap_remove: "balanced t \<Longrightarrow> balanced (avlmap_remove t key)"
  using balanced_remove [of t key] by (simp add: avlmap_remove_def)

subsection \<open>Lookup, length, height\<close>

lemma avl_get_entries: "bt_wf (entries t) \<Longrightarrow> avl_get t key = bt_get (entries t) key"
proof (induction t key rule: avl_get.induct)
  case (2 k v l r h s key)
  then have keys: "bt_wf (entries l)" "bt_wf (entries r)"
    "\<forall>x \<in> fst ` set (entries l). x < k" "\<forall>x \<in> fst ` set (entries r). k < x"
    by (auto simp: bt_wf_append bt_wf_Cons)
  consider (lt) "key < k" | (gt) "key > k" | (eq) "key = k" by fastforce
  then show ?case
  proof cases
    case lt
    then have "bt_get (entries r) key = None"
      using keys(4) by (metis bt_get_eq_None_iff less_asym)
    with lt 2 keys show ?thesis by (auto simp: bt_get_def map_add_def split: option.splits)
  next
    case gt
    then have "bt_get (entries l) key = None"
      using keys(3) by (metis bt_get_eq_None_iff less_asym)
    with gt 2 keys show ?thesis by (auto simp: bt_get_def map_add_def split: option.splits)
  next
    case eq
    then have "map_of (entries l) k = None"
      using keys(3) by (metis less_irrefl map_of_eq_None_iff)
    with eq show ?thesis by (simp add: bt_get_def map_add_def)
  qed
qed (simp add: bt_get_def)

lemma avl_size_entries: "balanced t \<Longrightarrow> avl_size t = length (entries t)"
  by (induction t) auto

lemma avl_height_bound: "balanced t \<Longrightarrow> 2 ^ (avl_height t div 2) \<le> avl_size t + 1"
proof (induction t)
  case (Nd k v l r h s)
  have IH: "2 ^ (avl_height l div 2) \<le> avl_size l + 1" "2 ^ (avl_height r div 2) \<le> avl_size r + 1"
    using Nd by simp_all
  have low: "h \<le> min (avl_height l) (avl_height r) + 2" using Nd.prems by auto
  let ?m = "min (avl_height l) (avl_height r)"
  have "2 ^ (h div 2) \<le> (2::nat) ^ (?m div 2 + 1)"
    using low by (intro power_increasing) auto
  also have "\<dots> \<le> 2 ^ (avl_height l div 2) + 2 ^ (avl_height r div 2)"
  proof -
    have "?m div 2 \<le> avl_height l div 2" "?m div 2 \<le> avl_height r div 2"
      by (intro div_le_mono; simp)+
    then have "(2::nat) ^ (?m div 2) + 2 ^ (?m div 2) \<le> 2 ^ (avl_height l div 2) + 2 ^ (avl_height r div 2)"
      by (intro add_mono power_increasing) simp_all
    then show ?thesis by (simp only: power_add power_one_right mult_2_right)
  qed
  also have "\<dots> \<le> s + 1" using IH Nd.prems by simp
  finally show ?case by simp
qed simp

subsection \<open>The iterator visits the in-order list\<close>

text \<open>What a stack still has to visit.\<close>

fun stack_entries :: "('k, 'v) avl list \<Rightarrow> ('k \<times> 'v) list" where
  "stack_entries [] = []"
| "stack_entries (Tip # stack) = stack_entries stack"
| "stack_entries (Nd k v l r h s # stack) = (k, v) # entries r @ stack_entries stack"

lemma stack_entries_push_left: "stack_entries (push_left t stack) = entries t @ stack_entries stack"
  by (induction t stack rule: push_left.induct) auto

lemma push_left_no_Tip: "Tip \<notin> set stack \<Longrightarrow> Tip \<notin> set (push_left t stack)"
  by (induction t stack rule: push_left.induct) auto

lemma iter_next_spec:
  assumes "Tip \<notin> set stack"
  shows "case stack_entries stack of
      [] \<Rightarrow> iter_next stack = (None, stack)
    | e # es \<Rightarrow> fst (iter_next stack) = Some e \<and> stack_entries (snd (iter_next stack)) = es
        \<and> Tip \<notin> set (snd (iter_next stack))"
  using assms
  by (cases stack rule: iter_next.cases) (auto simp: stack_entries_push_left push_left_no_Tip)

lemma iter_collect_stack:
  "Tip \<notin> set stack \<Longrightarrow> length (stack_entries stack) < fuel \<Longrightarrow>
   iter_collect fuel stack = Some (stack_entries stack)"
proof (induction fuel arbitrary: stack)
  case (Suc fuel)
  obtain e stack' where step: "iter_next stack = (e, stack')" by (cases "iter_next stack")
  from iter_next_spec [OF Suc.prems(1)] step Suc show ?case
    by (cases "stack_entries stack") auto
qed simp

section \<open>The contract of an ordered map\<close>

text \<open>
  What the value and patch layers use of \<open>AvlMap\<close>: its content is the sorted entry list its
  iterator yields, and every operation acts on that list as \<open>BTreeMap\<close>'s does.
\<close>

locale ordered_map =
  fixes empty :: "'m"
    and get :: "'m \<Rightarrow> 'k::linorder \<Rightarrow> 'v option"
    and insert :: "'m \<Rightarrow> 'k \<Rightarrow> 'v \<Rightarrow> 'm"
    and remove :: "'m \<Rightarrow> 'k \<Rightarrow> 'm"
    and content :: "'m \<Rightarrow> ('k \<times> 'v) list"
    and wf :: "'m \<Rightarrow> bool"
  assumes wf_empty: "wf empty"
    and wf_insert: "wf m \<Longrightarrow> wf (insert m k v)"
    and wf_remove: "wf m \<Longrightarrow> wf (remove m k)"
    and content_sorted: "wf m \<Longrightarrow> bt_wf (content m)"
    and content_empty: "content empty = []"
    and content_insert: "wf m \<Longrightarrow> content (insert m k v) = bt_insert k v (content m)"
    and content_remove: "wf m \<Longrightarrow> content (remove m k) = bt_remove k (content m)"
    and get_content: "wf m \<Longrightarrow> get m k = bt_get (content m) k"
begin

lemma get_empty: "get empty k = None"
  using get_content [OF wf_empty] by (simp add: content_empty bt_get_def)

lemma get_insert: "wf m \<Longrightarrow> get (insert m k v) k' = (if k' = k then Some v else get m k')"
  by (simp add: get_content wf_insert content_insert)

lemma get_remove: "wf m \<Longrightarrow> get (remove m k) k' = (if k' = k then None else get m k')"
  by (simp add: get_content wf_remove content_remove)

lemma get_Some_iff: "wf m \<Longrightarrow> get m k = Some v \<longleftrightarrow> (k, v) \<in> set (content m)"
  by (simp add: get_content content_sorted bt_get_Some_iff)

lemma content_eqI:
  assumes "wf m" "wf m'" "\<And>k. get m k = get m' k"
  shows "content m = content m'"
proof (rule bt_wf_ext)
  show "map_of (content m) = map_of (content m')"
    using assms by (auto simp: get_content bt_get_def fun_eq_iff)
qed (use assms content_sorted in auto)

lemma insert_all_wf: "wf m \<Longrightarrow> wf (fold (\<lambda>(k, v) m. insert m k v) kvs m)"
  by (induction kvs arbitrary: m) (auto simp: wf_insert)

lemma insert_all_content:
  "wf m \<Longrightarrow> content (fold (\<lambda>(k, v) m. insert m k v) kvs m) = bt_extend (content m) kvs"
  by (induction kvs arbitrary: m) (auto simp: wf_insert content_insert)

end

interpretation am: ordered_map Tip avl_get avl_insert avlmap_remove entries avl_wf
  by unfold_locales
    (auto simp: avl_wf_def balanced_insert entries_insert entries_avlmap_remove
      avl_get_entries balanced_avlmap_remove)

interpretation bt: ordered_map "[]" bt_get "\<lambda>m k v. bt_insert k v m" "\<lambda>m k. bt_remove k m"
    "\<lambda>m. m" bt_wf
  by unfold_locales auto

section \<open>Properties\<close>

text \<open>
  C28: On a well-formed map, \<open>insert\<close> and \<open>remove\<close> keep the AVL and search-tree invariant
  (with its cached heights and sizes) and change the in-order list exactly as \<open>BTreeMap\<close>
  would; \<open>get\<close> agrees with that list and \<open>len\<close> is its length; \<open>remove\<close> reports whether the
  key was there and hands back the very same tree when it was not.
\<close>

theorem avlmap_refines_btreemap:
  assumes "avl_wf m"
  shows "avl_wf (avl_insert m k v) \<and> entries (avl_insert m k v) = bt_insert k v (entries m)
    \<and> avl_wf (avlmap_remove m k) \<and> entries (avlmap_remove m k) = bt_remove k (entries m)
    \<and> avl_get m k = bt_get (entries m) k \<and> avl_size m = length (entries m)
    \<and> snd (avl_remove m k) = (avl_get m k \<noteq> None)
    \<and> (if avl_get m k = None then avlmap_remove m k = m else avlmap_remove m k \<noteq> m)"
proof -
  have wf: "balanced m" "bt_wf (entries m)" using assms by (simp_all add: avl_wf_def)
  have found: "snd (avl_remove m k) = (avl_get m k \<noteq> None)"
    using avl_remove_absent [OF wf(2), of k] avl_remove_present [OF wf(2), of k]
    by (cases "k \<in> fst ` set (entries m)")
      (simp_all add: am.get_content assms bt_get_eq_None_iff del: not_None_eq)
  have changed: "avlmap_remove m k \<noteq> m" if "avl_get m k \<noteq> None"
    using am.get_remove [OF assms, of k k] that by auto
  have same: "avlmap_remove m k = m" if "avl_get m k = None"
    using that avl_remove_absent [OF wf(2), of k]
    by (simp add: avlmap_remove_def am.get_content assms bt_get_eq_None_iff)
  show ?thesis
    using found changed same
    by (simp add: am.wf_insert am.wf_remove am.content_insert am.content_remove assms
        avl_size_entries [OF wf(1)]) (simp add: am.get_content assms)
qed

theorem avlmap_refines_btreemap_witness:
  "entries (avl_insert (avl_insert Tip (2::nat) ''b'') 1 ''a'') = [(1, ''a''), (2, ''b'')]"
  using avlmap_refines_btreemap [of "avl_insert Tip (2::nat) ''b''" 1 "''a''"]
  by (simp add: avl_wf_def node_def bt_wf_def)

text \<open>
  C29: \<open>balance\<close> unwraps no missing child, on any node whatever its cached heights; on the
  trees the map builds the height is at most twice the binary logarithm of the size plus one,
  which bounds the recursion of every operation.
\<close>

theorem avl_balance_total_and_shallow:
  assumes "n \<noteq> Tip" "avl_wf m"
  shows "(\<exists>n'. balance_checked n = Some n' \<and> entries n' = entries n)
    \<and> 2 ^ (avl_height m div 2) \<le> avl_size m + 1"
  using balance_checked_ok [OF assms(1)] avl_height_bound [of m] assms(2)
  by (simp add: avl_wf_def)

theorem avl_balance_total_and_shallow_witness:
  "\<exists>n'. balance_checked (Nd (1::nat) ''a'' Tip (Nd 2 ''b'' Tip (Nd 3 ''c'' Tip Tip 1 1) 2 2) 3 3)
     = Some n' \<and> map fst (entries n') = [1, 2, 3]"
  using avl_balance_total_and_shallow
    [of "Nd (1::nat) ''a'' Tip (Nd 2 ''b'' Tip (Nd 3 ''c'' Tip Tip 1 1) 2 2) 3 3"
      "Tip :: (nat, string) avl"]
  by (auto simp: avl_wf_def)

text \<open>
  The explicit-stack iterator of a map yields exactly its in-order entry list, in \<open>len + 1\<close>
  calls of \<open>next\<close>, the last of which says \<open>None\<close>.
\<close>

theorem avl_iter_in_order:
  assumes "avl_wf m"
  shows "iter_collect (avl_size m + 1) (avl_iter m) = Some (entries m) \<and> sorted_wrt (<) (map fst (entries m))"
proof -
  have "stack_entries (avl_iter m) = entries m"
    by (simp add: avl_iter_def stack_entries_push_left)
  moreover have "Tip \<notin> set (avl_iter m)" by (simp add: avl_iter_def push_left_no_Tip)
  ultimately show ?thesis
    using iter_collect_stack [of "avl_iter m" "avl_size m + 1"] assms
    by (simp add: avl_wf_def avl_size_entries bt_wf_def del: iter_collect.simps)
qed

theorem avl_iter_in_order_witness:
  "iter_collect 3 (avl_iter (avl_insert (avl_insert Tip (2::nat) ''b'') 1 ''a''))
     = Some [(1, ''a''), (2, ''b'')]"
  using avl_iter_in_order [of "avl_insert (avl_insert Tip (2::nat) ''b'') 1 ''a''"]
  by (simp add: avl_wf_def node_def bt_wf_def balance_def eval_nat_numeral)

end
