(* ===== verification/Json.thy ===== *)
theory Json
  imports LugPrelude
begin

text \<open>
  \<open>serde_json::Value\<close> as the crates use it: a tree they match on, build and compare. An object
  is a \<open>serde_json::Map\<close>, which without the \<open>preserve_order\<close> feature is a \<open>BTreeMap\<close>, so its
  entries are a key-sorted list. A \<open>Number\<close> is an integer or a finite float; the latter is the
  rational it denotes, which is what its \<open>==\<close> compares. Text and bytes of JSON are serde's
  business and stay outside.
\<close>

datatype json =
    JNull
  | JBool bool
  | JInt int
  | JFloat rat
  | JString string
  | JArray "json list"
  | JObject "(string \<times> json) list"

fun is_object :: "json \<Rightarrow> bool" where
  "is_object (JObject _) = True"
| "is_object _ = False"

text \<open>What every \<open>serde_json::Value\<close> satisfies by its types: object keys strictly increase.\<close>

fun json_wf :: "json \<Rightarrow> bool" where
  "json_wf (JArray js) \<longleftrightarrow> (\<forall>j \<in> set js. json_wf j)"
| "json_wf (JObject kvs) \<longleftrightarrow> bt_wf kvs \<and> (\<forall>kv \<in> set kvs. json_wf (snd kv))"
| "json_wf _ = True"

text \<open>\<open>json["key"]\<close>, \<open>as_str\<close>, \<open>as_u64\<close>, as the clients of \<open>Value\<close> read fields.\<close>

fun json_field :: "json \<Rightarrow> string \<Rightarrow> json" where
  "json_field (JObject kvs) key = (case bt_get kvs key of Some j \<Rightarrow> j | None \<Rightarrow> JNull)"
| "json_field _ key = JNull"

fun json_str :: "json \<Rightarrow> string option" where
  "json_str (JString s) = Some s"
| "json_str _ = None"

fun json_u64 :: "json \<Rightarrow> nat option" where
  "json_u64 (JInt i) = (if 0 \<le> i \<and> i \<le> int u64_max then Some (nat i) else None)"
| "json_u64 _ = None"

lemma size_assoc_mem [termination_simp]: "(k, v) \<in> set kvs \<Longrightarrow> size v < Suc (size_list (size_prod (\<lambda>_. 0) size) kvs)"
  by (induction kvs) auto

lemma size_assoc_snd_mem [termination_simp]:
  "kv \<in> set kvs \<Longrightarrow> size (snd kv) < Suc (size_list (size_prod (\<lambda>_. 0) size) kvs)"
  by (induction kvs) (auto simp: size_prod_def split: prod.splits)

lemma bt_wf_map_snd [simp]: "bt_wf (map (\<lambda>(k, v). (k, f v)) m) = bt_wf m"
  by (simp add: bt_wf_def comp_def case_prod_beta)

lemma bt_get_map_snd: "bt_get (map (\<lambda>(k, v). (k, f v)) m) k = map_option f (bt_get m k)"
  by (induction m) (auto simp: bt_get_def)

text \<open>Collecting the entries of a sorted map into a fresh one changes nothing.\<close>

lemma bt_extend_append: "bt_wf (m @ m') \<Longrightarrow> bt_extend m m' = m @ m'"
proof (induction m' arbitrary: m)
  case (Cons kv m')
  obtain k v where kv: "kv = (k, v)" by (cases kv)
  have below: "\<forall>x \<in> fst ` set m. x < k" using Cons.prems kv by (auto simp: bt_wf_append)
  have "bt_insert k v m = m @ [(k, v)]" using bt_insert_append_geq [OF below, of v "[]"] by simp
  then show ?case using Cons.IH [of "m @ [(k, v)]"] Cons.prems by (simp add: kv)
qed simp

lemma bt_extend_collect [simp]: "bt_wf m \<Longrightarrow> bt_extend [] m = m"
  using bt_extend_append [of "[]" m] by simp

end
