(* ===== verification/CavlcValue.thy ===== *)
theory CavlcValue
  imports Avl Json
begin

text \<open>
  \<open>crates/cavlc/src/value.rs\<close>: immutable JSON whose objects are AVL maps. \<open>value_eq\<close> is the
  crate's \<open>PartialEq\<close> (its pointer shortcuts only skip work, as the comparison is reflexive),
  \<open>to_json\<close> and \<open>value_of_json\<close> are the conversions, and \<open>value_wf\<close> is the type invariant: maps
  are well-formed and an atom is never an object.
\<close>

datatype cavlc_value = VObject "(string, cavlc_value) avl" | VAtom json

definition value_default :: cavlc_value where
  "value_default = VObject Tip"

fun as_object :: "cavlc_value \<Rightarrow> (string, cavlc_value) avl option" where
  "as_object (VObject m) = Some m"
| "as_object (VAtom _) = None"

fun as_atom :: "cavlc_value \<Rightarrow> json option" where
  "as_atom (VAtom j) = Some j"
| "as_atom (VObject _) = None"

definition value_get :: "cavlc_value \<Rightarrow> string \<Rightarrow> cavlc_value option" where
  "value_get v key = Option.bind (as_object v) (\<lambda>m. avl_get m key)"

fun value_at :: "cavlc_value \<Rightarrow> string list \<Rightarrow> cavlc_value option" where
  "value_at v [] = Some v"
| "value_at v (key # path) =
     (case value_get v key of None \<Rightarrow> None | Some v' \<Rightarrow> value_at v' path)"

lemma size_entries_mem [termination_simp]:
  "(k, v) \<in> set (entries m) \<Longrightarrow> size v < Suc (size_avl (\<lambda>_. 0) size m)"
  by (induction m) auto

lemma size_entries_snd_mem [termination_simp]:
  "kv \<in> set (entries m) \<Longrightarrow> size (snd kv) < Suc (size_avl (\<lambda>_. 0) size m)"
  by (cases kv) (simp add: size_entries_mem)

fun to_json :: "cavlc_value \<Rightarrow> json" where
  "to_json (VObject m) = JObject (bt_extend [] (map (\<lambda>kv. (fst kv, to_json (snd kv))) (entries m)))"
| "to_json (VAtom j) = j"

fun value_eq :: "cavlc_value \<Rightarrow> cavlc_value \<Rightarrow> bool" where
  "value_eq (VAtom a) (VAtom b) = (a = b)"
| "value_eq (VObject a) (VObject b) =
     (avl_size a = avl_size b \<and>
      list_all2 (\<lambda>x y. fst x = fst y \<and> value_eq (snd x) (snd y)) (entries a) (entries b))"
| "value_eq _ _ = False"

fun value_of_json :: "json \<Rightarrow> cavlc_value" where
  "value_of_json (JObject kvs) =
     VObject (fold (\<lambda>(k, v) m. avl_insert m k v) (map (\<lambda>kv. (fst kv, value_of_json (snd kv))) kvs) Tip)"
| "value_of_json j = VAtom j"

fun value_wf :: "cavlc_value \<Rightarrow> bool" where
  "value_wf (VObject m) \<longleftrightarrow> avl_wf m \<and> (\<forall>kv \<in> set (entries m). value_wf (snd kv))"
| "value_wf (VAtom j) \<longleftrightarrow> \<not> is_object j \<and> json_wf j"

section \<open>Conversions\<close>

lemma bt_wf_map_fst: "map fst m' = map fst m \<Longrightarrow> bt_wf m' = bt_wf m"
  by (simp add: bt_wf_def)

lemma to_json_object:
  "avl_wf m \<Longrightarrow> to_json (VObject m) = JObject (map (\<lambda>(k, v). (k, to_json v)) (entries m))"
  using bt_wf_map_fst [of "map (\<lambda>kv. (fst kv, to_json (snd kv))) (entries m)" "entries m"]
  by (simp add: avl_wf_def case_prod_beta comp_def)

lemma is_object_to_json [simp]: "value_wf v \<Longrightarrow> is_object (to_json v) \<longleftrightarrow> as_object v \<noteq> None"
  by (cases v) auto

lemma as_object_wf: "value_wf v \<Longrightarrow> as_object v = Some m \<Longrightarrow> avl_wf m"
  by (cases v) auto

lemma value_wf_get: "value_wf (VObject m) \<Longrightarrow> avl_get m k = Some v \<Longrightarrow> value_wf v"
  by (force simp: am.get_Some_iff)

lemma value_wf_default [simp]: "value_wf value_default"
  by (simp add: value_default_def avl_wf_def)

lemma value_wf_insert [inv_intros]:
  assumes "value_wf (VObject m)" "value_wf v"
  shows "value_wf (VObject (avl_insert m k v))"
proof -
  have wf: "avl_wf m" using assms(1) by simp
  have "value_wf (snd kv)" if kv: "kv \<in> set (entries (avl_insert m k v))" for kv
  proof -
    have "avl_get (avl_insert m k v) (fst kv) = Some (snd kv)"
      using kv wf by (simp add: am.get_Some_iff am.wf_insert)
    then have "(fst kv = k \<and> snd kv = v) \<or> avl_get m (fst kv) = Some (snd kv)"
      using wf by (auto simp: am.get_insert split: if_splits)
    then show ?thesis using assms value_wf_get by auto
  qed
  then show ?thesis using wf by (simp add: am.wf_insert)
qed

lemma value_wf_remove [inv_intros]:
  assumes "value_wf (VObject m)" shows "value_wf (VObject (avlmap_remove m k))"
proof -
  have wf: "avl_wf m" using assms by simp
  then show ?thesis using assms
    by (auto simp: am.wf_remove am.content_remove bt_remove_def)
qed

lemma json_wf_to_json: "value_wf v \<Longrightarrow> json_wf (to_json v)"
proof (induction v rule: to_json.induct)
  case (1 m)
  then have wf: "avl_wf m" by simp
  show ?case unfolding to_json_object [OF wf]
    using 1 wf by (auto simp: avl_wf_def)
qed simp

lemma list_all2_entries_eq:
  assumes "\<And>x y. x \<in> set xs \<Longrightarrow> y \<in> set ys \<Longrightarrow> P (snd x) (snd y) \<longleftrightarrow> f (snd x) = f (snd y)"
  shows "list_all2 (\<lambda>x y. fst x = fst y \<and> P (snd x) (snd y)) xs ys \<longleftrightarrow>
         map (\<lambda>(k, v). (k, f v)) xs = map (\<lambda>(k, v). (k, f v)) ys"
proof -
  have "list_all2 (\<lambda>x y. fst x = fst y \<and> P (snd x) (snd y)) xs ys \<longleftrightarrow>
        list_all2 (\<lambda>x y. fst x = fst y \<and> f (snd x) = f (snd y)) xs ys"
    using assms by (intro list.rel_cong) simp_all
  also have "\<dots> \<longleftrightarrow> map (\<lambda>(k, v). (k, f v)) xs = map (\<lambda>(k, v). (k, f v)) ys"
    by (induction xs ys rule: list_induct2') (auto simp: case_prod_beta)
  finally show ?thesis .
qed

lemma value_eq_to_json:
  "value_wf a \<Longrightarrow> value_wf b \<Longrightarrow> value_eq a b \<longleftrightarrow> to_json a = to_json b"
proof (induction a b rule: value_eq.induct)
  case (2 a b)
  then have wf: "avl_wf a" "avl_wf b" by simp_all
  have "list_all2 (\<lambda>x y. fst x = fst y \<and> value_eq (snd x) (snd y)) (entries a) (entries b) \<longleftrightarrow>
      map (\<lambda>(k, v). (k, to_json v)) (entries a) = map (\<lambda>(k, v). (k, to_json v)) (entries b)"
    using 2 by (intro list_all2_entries_eq) auto
  then show ?case unfolding value_eq.simps to_json_object [OF wf(1)] to_json_object [OF wf(2)]
    using wf by (auto simp: avl_wf_def avl_size_entries dest: map_eq_imp_length_eq)
qed auto

lemma value_of_json_wf: "json_wf j \<Longrightarrow> value_wf (value_of_json j)"
proof (induction j rule: value_of_json.induct)
  case (1 kvs)
  have step: "value_wf (VObject (fold (\<lambda>(k, v) m. avl_insert m k v) kvs' m))"
    if "\<forall>kv \<in> set kvs'. value_wf (snd kv)" "value_wf (VObject m)" for kvs' m
    using that
  proof (induction kvs' arbitrary: m)
    case (Cons kv kvs')
    have "value_wf (VObject (avl_insert m (fst kv) (snd kv)))"
      using Cons.prems by (intro value_wf_insert) simp_all
    then show ?case using Cons.IH [of "avl_insert m (fst kv) (snd kv)"] Cons.prems
      by (simp add: case_prod_beta)
  qed simp
  show ?case unfolding value_of_json.simps
    using 1 by (intro step) (auto simp: avl_wf_def)
qed simp_all

lemma to_json_of_json: "json_wf j \<Longrightarrow> to_json (value_of_json j) = j"
proof (induction j rule: value_of_json.induct)
  case (1 kvs)
  let ?kvs = "map (\<lambda>kv. (fst kv, value_of_json (snd kv))) kvs"
  let ?m = "fold (\<lambda>(k, v) m. avl_insert m k v) ?kvs Tip"
  have sorted: "bt_wf ?kvs" using 1 by (simp add: bt_wf_def comp_def)
  have wf: "avl_wf ?m" by (rule am.insert_all_wf) (rule am.wf_empty)
  have content: "entries ?m = ?kvs"
    using am.insert_all_content [OF am.wf_empty, of ?kvs] sorted by simp
  have "map (\<lambda>(k, v). (k, to_json v)) ?kvs = kvs"
    using 1 by (auto simp: case_prod_beta intro: map_idI)
  then show ?case unfolding value_of_json.simps to_json_object [OF wf] content by simp
qed simp_all

section \<open>Properties\<close>

text \<open>
  C30: The conversions between \<open>serde_json::Value\<close> and the persistent value are inverse: every
  JSON value comes back unchanged through \<open>From\<close> and \<open>to_json\<close>, with a well-formed value in
  between, and a value comes back equal, in the sense of its own \<open>==\<close>, which holds
  exactly when the two values have the same JSON form, whatever the shapes of their trees.
\<close>

theorem value_json_roundtrip:
  assumes "json_wf j" "value_wf a" "value_wf b"
  shows "value_wf (value_of_json j) \<and> to_json (value_of_json j) = j
    \<and> value_eq (value_of_json (to_json a)) a
    \<and> (value_eq a b \<longleftrightarrow> to_json a = to_json b)"
  using assms
  by (simp add: value_of_json_wf to_json_of_json value_eq_to_json json_wf_to_json)

theorem value_json_roundtrip_witness:
  "to_json (value_of_json (JObject [(''a'', JInt 1), (''b'', JObject [(''c'', JNull)])]))
     = JObject [(''a'', JInt 1), (''b'', JObject [(''c'', JNull)])]"
  using value_json_roundtrip
    [of "JObject [(''a'', JInt 1), (''b'', JObject [(''c'', JNull)])]" value_default value_default]
  by (simp add: bt_wf_def del: to_json.simps value_of_json.simps)

end
