(* ===== verification/CavlcPatch.thy ===== *)
theory CavlcPatch
  imports CavlcValue
begin

text \<open>
  \<open>crates/cavlc/src/patch.rs\<close> and \<open>error.rs\<close>: the three-part object patch, its validation, the
  merge of independent patches, its application to a value, and its JSON form.

  A path is the list of keys from the root; the code pushes and pops one shared vector, the
  model passes the extended list. The reason text of \<open>InvalidPatch\<close> is kept as which of the
  format calls made it. \<open>apply_at\<close> ends by comparing map roots by pointer: the model returns,
  beside the value, whether its pointer is a new one. Every insertion and every removal of a
  present key builds a fresh root, and the old root is part of no later map, so the pointers
  differ exactly when one of them happened, except that two empty maps always compare equal.
\<close>

section \<open>Errors and patches\<close>

datatype patch_fault =
    UnknownOperation string
  | MultipleOperations string
  | NeedsNested string
  | BadField string "patch_fault option"
  | EmptyBatch
  | IdentityPatch

datatype cavlc_error =
    InvalidPatch patch_fault
  | Precondition "string list" string
  | Conflict version version
  | MergeConflict "string list"
  | ForeignBatch
  | RootMustBeObject
  | InvalidVersion version version
  | VersionOverflow

datatype patch =
    Patch (p_create: "(string \<times> cavlc_value) list") (p_update: "(string \<times> update) list")
      (p_delete: "string list")
  and update = UObject patch | UValue cavlc_value

definition patch_default :: patch where
  "patch_default = Patch [] [] []"

definition patch_is_empty :: "patch \<Rightarrow> bool" where
  "patch_is_empty p \<longleftrightarrow> p_create p = [] \<and> p_update p = [] \<and> p_delete p = []"

text \<open>\<open>create.keys().chain(update.keys()).chain(delete.iter())\<close>\<close>

definition op_keys :: "patch \<Rightarrow> string list" where
  "op_keys p = bt_keys (p_create p) @ bt_keys (p_update p) @ p_delete p"

section \<open>Validation\<close>

fun check_keys :: "string list \<Rightarrow> string list \<Rightarrow> cavlc_error + unit" where
  "check_keys seen [] = Inr ()"
| "check_keys seen (key # ks) =
     (if key \<in> set seen then Inl (InvalidPatch (MultipleOperations key))
      else check_keys (key # seen) ks)"

lemma size_update_mem [termination_simp]:
  "(k, u) \<in> set us \<Longrightarrow> size u \<le> size_list (size_prod (\<lambda>_. 0) size) us"
  by (induction us) auto

fun validate :: "patch \<Rightarrow> cavlc_error + unit"
  and validate_updates :: "(string \<times> update) list \<Rightarrow> cavlc_error + unit" where
  "validate (Patch c u d) =
     rbind (check_keys [] (op_keys (Patch c u d))) (\<lambda>_. validate_updates u)"
| "validate_updates [] = Inr ()"
| "validate_updates ((key, UObject p) # us) = rbind (validate p) (\<lambda>_. validate_updates us)"
| "validate_updates ((key, UValue v) # us) =
     (if as_object v \<noteq> None then Inl (InvalidPatch (NeedsNested key)) else validate_updates us)"

section \<open>Merging\<close>

definition with_update :: "patch \<Rightarrow> string \<Rightarrow> update \<Rightarrow> patch" where
  "with_update p key u = Patch (p_create p) (bt_insert key u (p_update p)) (p_delete p)"

definition extend_patch :: "patch \<Rightarrow> patch \<Rightarrow> patch" where
  "extend_patch p q =
     Patch (bt_extend (p_create p) (p_create q)) (bt_extend (p_update p) (p_update q))
       (sort (p_delete p @ p_delete q))"

lemma size_bt_get_update:
  "bt_get us k = Some u \<Longrightarrow> size u \<le> size_list (size_prod (\<lambda>_. 0) size) us"
  by (auto simp: bt_get_def dest!: map_of_SomeD size_update_mem)

lemma size_p_update:
  "bt_get (p_update p) k = Some (UObject a) \<Longrightarrow> size a < size p"
  by (cases p) (auto dest!: size_bt_get_update)

lemma size_nested:
  "(k, UObject a) \<in> set (p_update p) \<Longrightarrow> size a < size p"
  by (cases p) (auto dest!: size_update_mem)

function (sequential) merge_at :: "patch \<Rightarrow> patch \<Rightarrow> string list \<Rightarrow> cavlc_error + patch"
  and merge_keys :: "patch \<Rightarrow> patch \<Rightarrow> string list \<Rightarrow> string list \<Rightarrow> patch \<Rightarrow> cavlc_error + patch"
where
  "merge_at p q path =
     (if patch_is_empty p then Inr q
      else if patch_is_empty q then Inr p
      else merge_keys p q path (op_keys q) (extend_patch p q))"
| "merge_keys p q path [] merged = Inr merged"
| "merge_keys p q path (key # ks) merged =
     (if key \<notin> set (op_keys p) then merge_keys p q path ks merged
      else case bt_get (p_update p) key of
          Some (UObject a) \<Rightarrow>
            (case bt_get (p_update q) key of
               Some (UObject b) \<Rightarrow>
                 rbind (merge_at a b (path @ [key]))
                   (\<lambda>m. merge_keys p q path ks (with_update merged key (UObject m)))
             | _ \<Rightarrow> Inl (MergeConflict (path @ [key])))
        | _ \<Rightarrow> Inl (MergeConflict (path @ [key])))"
  by pat_completeness auto
termination
  by (relation "inv_image (less_than <*lex*> less_than)
        (\<lambda>x. case x of Inl (p, q, path) \<Rightarrow> (size p, Suc (length (op_keys q)))
           | Inr (p, q, path, ks, merged) \<Rightarrow> (size p, length ks))")
    (auto simp: size_p_update)

definition merge :: "patch \<Rightarrow> patch \<Rightarrow> cavlc_error + patch" where
  "merge p q = rbind (validate p) (\<lambda>_. rbind (validate q) (\<lambda>_. merge_at p q []))"

section \<open>Application\<close>

type_synonym vmap = "(string, cavlc_value) avl"

fun apply_creates :: "(string \<times> cavlc_value) list \<Rightarrow> vmap \<Rightarrow> string list \<Rightarrow> cavlc_error + vmap" where
  "apply_creates [] m path = Inr m"
| "apply_creates ((key, child) # cs) m path =
     (if avl_get m key \<noteq> None
      then Inl (Precondition (path @ [key]) ''Create requires an absent key'')
      else apply_creates cs (avl_insert m key child) path)"

fun apply_deletes :: "string list \<Rightarrow> vmap \<Rightarrow> string list \<Rightarrow> cavlc_error + vmap" where
  "apply_deletes [] m path = Inr m"
| "apply_deletes (key # ks) m path =
     (if avl_get m key = None
      then Inl (Precondition (path @ [key]) ''Delete requires an existing key'')
      else apply_deletes ks (avlmap_remove m key) path)"

text \<open>
  The flag beside a value says that its pointer differs from the input's; the flag of
  \<open>apply_updates\<close> says that an insertion happened.
\<close>

fun apply_at :: "patch \<Rightarrow> cavlc_value \<Rightarrow> string list \<Rightarrow> cavlc_error + (cavlc_value \<times> bool)"
  and apply_updates ::
    "(string \<times> update) list \<Rightarrow> vmap \<Rightarrow> bool \<Rightarrow> string list \<Rightarrow> cavlc_error + (vmap \<times> bool)"
  and apply_update :: "update \<Rightarrow> cavlc_value \<Rightarrow> string list \<Rightarrow> cavlc_error + (cavlc_value \<times> bool)"
where
  "apply_at (Patch c u d) v path =
     (case as_object v of
        None \<Rightarrow> Inl (Precondition path ''expected an object'')
      | Some original \<Rightarrow>
          rbind (apply_creates c original path) (\<lambda>m1.
          rbind (apply_updates u m1 (c \<noteq> []) path) (\<lambda>(m2, inserted).
          rbind (apply_deletes d m2 path) (\<lambda>m3.
            if avl_is_empty m3 \<and> avl_is_empty original \<or> \<not> inserted \<and> d = []
            then Inr (v, False) else Inr (VObject m3, True)))))"
| "apply_updates [] m inserted path = Inr (m, inserted)"
| "apply_updates ((key, u) # us) m inserted path =
     (case avl_get m key of
        None \<Rightarrow> Inl (Precondition (path @ [key])
          ''Update requires an existing key; use Create first'')
      | Some current \<Rightarrow>
          rbind (apply_update u current (path @ [key])) (\<lambda>(nxt, fresh).
            if fresh then apply_updates us (avl_insert m key nxt) True path
            else apply_updates us m inserted path))"
| "apply_update (UObject p) current path = apply_at p current path"
| "apply_update (UValue child) current path =
     (if as_object current \<noteq> None
      then Inl (Precondition path ''cannot replace an object; Delete it before Create'')
      else if value_eq child current then Inr (current, False) else Inr (child, True))"

definition patch_apply :: "patch \<Rightarrow> cavlc_value \<Rightarrow> cavlc_error + (cavlc_value \<times> bool)" where
  "patch_apply p v = rbind (validate p) (\<lambda>_. apply_at p v [])"

section \<open>The reference application\<close>

text \<open>
  What a patch means, key by key on plain JSON: \<open>jstep p k old\<close> is the entry of \<open>k\<close> after the
  patch when \<open>old\<close> was the one before, and \<open>None\<close> when a precondition fails there. A patch
  applies when it applies at every key.
\<close>

fun japply :: "patch \<Rightarrow> json \<Rightarrow> json option"
  and jupdate :: "update \<Rightarrow> json \<Rightarrow> json option"
where
  "japply (Patch c u d) (JObject kvs) =
     (let step = (\<lambda>k old.
        case bt_get c k of
          Some v \<Rightarrow> (if old = None then Some (Some (to_json v)) else None)
        | None \<Rightarrow>
            (case map_of (map (\<lambda>ku. (fst ku, jupdate (snd ku))) u) k of
               Some f \<Rightarrow> (case old of None \<Rightarrow> None | Some j \<Rightarrow> map_option Some (f j))
             | None \<Rightarrow> if k \<in> set d then (if old = None then None else Some None) else Some old));
        keys = map fst kvs @ op_keys (Patch c u d)
      in if \<forall>k \<in> set keys. step k (bt_get kvs k) \<noteq> None
         then Some (JObject (bt_extend [] (List.map_filter
                (\<lambda>k. map_option (Pair k) (the (step k (bt_get kvs k)))) keys)))
         else None)"
| "japply _ _ = None"
| "jupdate (UObject p) j = japply p j"
| "jupdate (UValue v) j = (if is_object j then None else Some (to_json v))"

definition jstep :: "patch \<Rightarrow> string \<Rightarrow> json option \<Rightarrow> json option option" where
  "jstep p k old =
     (case bt_get (p_create p) k of
        Some v \<Rightarrow> (if old = None then Some (Some (to_json v)) else None)
      | None \<Rightarrow>
          (case bt_get (p_update p) k of
             Some u \<Rightarrow> (case old of None \<Rightarrow> None | Some j \<Rightarrow> map_option Some (jupdate u j))
           | None \<Rightarrow>
               if k \<in> set (p_delete p) then (if old = None then None else Some None)
               else Some old))"

lemma jstep_inner:
  "map_of (map (\<lambda>ku. (fst ku, f (snd ku))) us) k = map_option f (bt_get us k)"
  by (induction us) (auto simp: bt_get_def)

lemma jstep_untouched: "k \<notin> set (op_keys p) \<Longrightarrow> jstep p k old = Some old"
  by (auto simp: jstep_def op_keys_def bt_keys_def bt_get_eq_None_iff [THEN iffD2])

lemma bt_get_extend_filter:
  "bt_get (bt_extend m (List.map_filter (\<lambda>k. map_option (Pair k) (f k)) ks)) k =
     (if k \<in> set ks \<and> f k \<noteq> None then f k else bt_get m k)"
  by (induction ks arbitrary: m) (auto simp: List.map_filter_simps split: option.splits)

text \<open>The characterisation every proof uses.\<close>

lemma japply_object_eq:
  "japply p (JObject kvs) =
     (let keys = map fst kvs @ op_keys p
      in if \<forall>k \<in> set keys. jstep p k (bt_get kvs k) \<noteq> None
         then Some (JObject (bt_extend [] (List.map_filter
                (\<lambda>k. map_option (Pair k) (the (jstep p k (bt_get kvs k)))) keys)))
         else None)"
proof (cases p)
  case (Patch c u d)
  show ?thesis unfolding Patch japply.simps jstep_inner
    by (simp add: jstep_def Let_def option.case_distrib option.map_sel split: option.split cong: option.case_cong)
qed

lemma japply_SomeD:
  assumes "japply p (JObject kvs) = Some j"
  shows "\<exists>kvs'. j = JObject kvs' \<and> bt_wf kvs' \<and> (\<forall>k. jstep p k (bt_get kvs k) = Some (bt_get kvs' k))"
proof -
  let ?keys = "map fst kvs @ op_keys p"
  let ?f = "\<lambda>k. the (jstep p k (bt_get kvs k))"
  let ?kvs' = "bt_extend [] (List.map_filter (\<lambda>k. map_option (Pair k) (?f k)) ?keys)"
  have ok: "\<forall>k \<in> set ?keys. jstep p k (bt_get kvs k) \<noteq> None" and j: "j = JObject ?kvs'"
    using assms by (simp_all add: japply_object_eq Let_def split: if_splits)
  have "jstep p k (bt_get kvs k) = Some (bt_get ?kvs' k)" for k
  proof (cases "k \<in> set ?keys")
    case True
    then obtain x where "jstep p k (bt_get kvs k) = Some x" using ok by blast
    with True show ?thesis unfolding bt_get_extend_filter by (simp add: bt_get_def)
  next
    case False
    then have "bt_get kvs k = None" by (auto simp: bt_get_eq_None_iff)
    with False show ?thesis unfolding bt_get_extend_filter
      by (simp add: jstep_untouched) (simp add: bt_get_def)
  qed
  moreover have "bt_wf ?kvs'" by (intro bt_extend_wf bt_wf_Nil)
  ultimately show ?thesis using j by blast
qed

lemma japply_Some_iff:
  assumes "bt_wf kvs'"
  shows "japply p (JObject kvs) = Some (JObject kvs') \<longleftrightarrow>
         (\<forall>k. jstep p k (bt_get kvs k) = Some (bt_get kvs' k))"
proof
  assume all: "\<forall>k. jstep p k (bt_get kvs k) = Some (bt_get kvs' k)"
  then obtain j where j: "japply p (JObject kvs) = Some j" by (simp add: japply_object_eq Let_def)
  from japply_SomeD [OF this] obtain kvs'' where kvs'': "j = JObject kvs''" "bt_wf kvs''"
    "\<forall>k. jstep p k (bt_get kvs k) = Some (bt_get kvs'' k)" by blast
  have "map_of kvs'' = map_of kvs'" using all kvs''(3) by (simp add: fun_eq_iff bt_get_def)
  with bt_wf_ext assms kvs''(2) have "kvs'' = kvs'" by blast
  with j kvs''(1) show "japply p (JObject kvs) = Some (JObject kvs')" by simp
next
  assume "japply p (JObject kvs) = Some (JObject kvs')"
  from japply_SomeD [OF this] show "\<forall>k. jstep p k (bt_get kvs k) = Some (bt_get kvs' k)" by auto
qed

lemma japply_None_iff:
  "japply p (JObject kvs) = None \<longleftrightarrow> (\<exists>k. jstep p k (bt_get kvs k) = None)"
proof -
  have "jstep p k (bt_get kvs k) \<noteq> None" if "k \<notin> set (map fst kvs @ op_keys p)" for k
    using that by (simp add: jstep_untouched)
  then show ?thesis by (auto simp: japply_object_eq Let_def)
qed

lemma japply_non_object: "\<not> is_object j \<Longrightarrow> japply p j = None"
  by (cases p; cases j) auto

section \<open>Validation and well-formedness\<close>

text \<open>\<open>BTreeMap\<close> fields are sorted and hold well-formed values.\<close>

fun patch_wf :: "patch \<Rightarrow> bool" and update_wf :: "update \<Rightarrow> bool" where
  "patch_wf (Patch c u d) \<longleftrightarrow>
     bt_wf c \<and> (\<forall>kv \<in> set c. value_wf (snd kv)) \<and> bt_wf u \<and> (\<forall>ku \<in> set u. update_wf (snd ku))"
| "update_wf (UObject p) = patch_wf p"
| "update_wf (UValue v) = value_wf v"

abbreviation valid :: "patch \<Rightarrow> bool" where
  "valid p \<equiv> validate p = Inr ()"

fun valid_update :: "update \<Rightarrow> bool" where
  "valid_update (UObject p) = valid p"
| "valid_update (UValue v) \<longleftrightarrow> as_object v = None"

lemma check_keys_ok: "check_keys seen ks = Inr () \<longleftrightarrow> distinct ks \<and> set ks \<inter> set seen = {}"
  by (induction seen ks rule: check_keys.induct) auto

lemma unit_rbind_ok [simp]: "rbind r (\<lambda>_. k) = Inr x \<longleftrightarrow> (\<exists>a. r = Inr a) \<and> k = Inr x"
  by (cases r) auto

lemma valid_updates_iff: "validate_updates us = Inr () \<longleftrightarrow> (\<forall>ku \<in> set us. valid_update (snd ku))"
proof (induction us)
  case (Cons ku us)
  obtain k u where "ku = (k, u)" by (cases ku)
  with Cons show ?case by (cases u) auto
qed simp

lemma valid_iff:
  "valid p \<longleftrightarrow> distinct (op_keys p) \<and> (\<forall>ku \<in> set (p_update p). valid_update (snd ku))"
  by (cases p) (simp add: check_keys_ok valid_updates_iff)

lemma patch_wf_iff:
  "patch_wf p \<longleftrightarrow> bt_wf (p_create p) \<and> (\<forall>kv \<in> set (p_create p). value_wf (snd kv)) \<and>
     bt_wf (p_update p) \<and> (\<forall>ku \<in> set (p_update p). update_wf (snd ku))"
  by (cases p) simp

section \<open>The loops of \<open>apply_at\<close>\<close>

lemma apply_creates_spec:
  assumes "value_wf (VObject m)" "distinct (map fst c)" "\<forall>kv \<in> set c. value_wf (snd kv)"
  shows "case apply_creates c m path of
      Inl e \<Rightarrow> (\<exists>k \<in> fst ` set c. avl_get m k \<noteq> None)
    | Inr m' \<Rightarrow> value_wf (VObject m') \<and> (\<forall>k \<in> fst ` set c. avl_get m k = None) \<and>
        (\<forall>k. avl_get m' k = (case bt_get c k of Some v \<Rightarrow> Some v | None \<Rightarrow> avl_get m k))"
  using assms
proof (induction c m path rule: apply_creates.induct)
  case (1 m path)
  then show ?case by (simp add: bt_get_def)
next
  case (2 key child cs m path)
  show ?case
  proof (cases "avl_get m key")
    case None
    have wf: "avl_wf m" using "2.prems" by simp
    have wf': "value_wf (VObject (avl_insert m key child))"
      using "2.prems" by (intro value_wf_insert) auto
    have get: "avl_get (avl_insert m key child) k = (if k = key then Some child else avl_get m k)" for k
      using wf by (rule am.get_insert)
    have out: "key \<notin> fst ` set cs" using "2.prems"(2) by simp
    then have same: "avl_get (avl_insert m key child) k = avl_get m k" if "k \<in> fst ` set cs" for k
      using that get by auto
    have IH: "case apply_creates cs (avl_insert m key child) path of
        Inl e \<Rightarrow> (\<exists>k \<in> fst ` set cs. avl_get m k \<noteq> None)
      | Inr m' \<Rightarrow> value_wf (VObject m') \<and> (\<forall>k \<in> fst ` set cs. avl_get m k = None) \<and>
          (\<forall>k. avl_get m' k = (case bt_get cs k of Some v \<Rightarrow> Some v
             | None \<Rightarrow> if k = key then Some child else avl_get m k))"
      using "2.IH" [OF _ wf'] None "2.prems" unfolding get [symmetric]
      by (simp only: same cong: ball_cong bex_cong) simp
    have "bt_get cs key = None" using out by (simp add: bt_get_eq_None_iff)
    then show ?thesis using IH None
      by (auto simp: bt_get_def split: sum.splits option.splits)
  qed (simp)
qed

lemma apply_deletes_spec:
  assumes "value_wf (VObject m)" "distinct ks"
  shows "case apply_deletes ks m path of
      Inl e \<Rightarrow> (\<exists>k \<in> set ks. avl_get m k = None)
    | Inr m' \<Rightarrow> value_wf (VObject m') \<and> (\<forall>k \<in> set ks. avl_get m k \<noteq> None) \<and>
        (\<forall>k. avl_get m' k = (if k \<in> set ks then None else avl_get m k))"
  using assms
proof (induction ks m path rule: apply_deletes.induct)
  case (2 key ks m path)
  show ?case
  proof (cases "avl_get m key")
    case (Some v)
    have wf: "avl_wf m" using "2.prems" by simp
    have wf': "value_wf (VObject (avlmap_remove m key))"
      using "2.prems" by (intro value_wf_remove)
    have get: "avl_get (avlmap_remove m key) k = (if k = key then None else avl_get m k)" for k
      using wf by (rule am.get_remove)
    have same: "avl_get (avlmap_remove m key) k = avl_get m k" if "k \<in> set ks" for k
      using that get "2.prems"(2) by auto
    have "case apply_deletes ks (avlmap_remove m key) path of
        Inl e \<Rightarrow> (\<exists>k \<in> set ks. avl_get m k = None)
      | Inr m' \<Rightarrow> value_wf (VObject m') \<and> (\<forall>k \<in> set ks. avl_get m k \<noteq> None) \<and>
          (\<forall>k. avl_get m' k = (if k \<in> set ks then None else if k = key then None else avl_get m k))"
      using "2.IH" [OF _ wf'] Some "2.prems" unfolding get [symmetric]
      by (simp only: same cong: ball_cong bex_cong) simp
    then show ?thesis using Some by (auto split: sum.splits)
  qed simp
qed simp

text \<open>What \<open>apply_update\<close> promises of one update, given that of the patches inside.\<close>

definition update_ok :: "update \<Rightarrow> cavlc_value \<Rightarrow> string list \<Rightarrow> bool" where
  "update_ok u v path \<longleftrightarrow>
     (case apply_update u v path of
        Inl e \<Rightarrow> jupdate u (to_json v) = None
      | Inr (v', fresh) \<Rightarrow> value_wf v' \<and> jupdate u (to_json v) = Some (to_json v') \<and>
          fresh = (to_json v' \<noteq> to_json v))"

lemma apply_updates_spec:
  assumes "value_wf (VObject m)" "distinct (map fst us)"
    "\<forall>ku \<in> set us. \<forall>v path. value_wf v \<longrightarrow> update_ok (snd ku) v path"
  shows "case apply_updates us m inserted path of
      Inl e \<Rightarrow> (\<exists>(k, u) \<in> set us. case avl_get m k of None \<Rightarrow> True
                | Some v \<Rightarrow> jupdate u (to_json v) = None)
    | Inr (m', inserted') \<Rightarrow> value_wf (VObject m') \<and>
        (\<forall>(k, u) \<in> set us. \<exists>v v'. avl_get m k = Some v \<and> avl_get m' k = Some v' \<and>
           jupdate u (to_json v) = Some (to_json v')) \<and>
        (\<forall>k. k \<notin> fst ` set us \<longrightarrow> avl_get m' k = avl_get m k) \<and>
        inserted' = (inserted \<or> (\<exists>k. map_option to_json (avl_get m' k) \<noteq> map_option to_json (avl_get m k)))"
  using assms
proof (induction us arbitrary: m inserted)
  case (Cons ku us)
  obtain key u where ku: "ku = (key, u)" by (cases ku)
  have wf: "avl_wf m" and out: "key \<notin> fst ` set us" using Cons.prems by (auto simp: ku)
  show ?case
  proof (cases "avl_get m key")
    case (Some v)
    have v: "value_wf v" using Some Cons.prems(1) by (rule value_wf_get [rotated])
    then have ok: "update_ok u v (path @ [key])" using Cons.prems(3) by (simp add: ku)
    show ?thesis
    proof (cases "apply_update u v (path @ [key])")
      case (Inl e)
      with ok Some show ?thesis by (simp add: ku update_ok_def)
    next
      case (Inr r)
      obtain v' fresh where r: "r = (v', fresh)" by (cases r)
      have v': "value_wf v'" "jupdate u (to_json v) = Some (to_json v')"
        "fresh = (to_json v' \<noteq> to_json v)"
        using ok by (simp_all add: update_ok_def Inr r)
      define m1 where "m1 = (if fresh then avl_insert m key v' else m)"
      have step: "apply_updates (ku # us) m inserted path = apply_updates us m1 (inserted \<or> fresh) path"
        by (simp add: ku Some Inr r m1_def)
      have wf1: "value_wf (VObject m1)"
        using Cons.prems(1) v'(1) value_wf_insert unfolding m1_def by presburger
      have get1: "avl_get m1 k = (if k = key \<and> fresh then Some v' else avl_get m k)" for k
        by (simp add: m1_def am.get_insert [OF wf])
      have key1: "\<exists>v1. avl_get m1 key = Some v1 \<and> to_json v1 = to_json v'"
        using get1 [of key] v'(3) Some by auto
      have IH: "case apply_updates us m1 (inserted \<or> fresh) path of
          Inl e \<Rightarrow> (\<exists>(k, u) \<in> set us. case avl_get m1 k of None \<Rightarrow> True
                | Some v \<Rightarrow> jupdate u (to_json v) = None)
        | Inr (m', inserted') \<Rightarrow> value_wf (VObject m') \<and>
            (\<forall>(k, u) \<in> set us. \<exists>v v'. avl_get m1 k = Some v \<and> avl_get m' k = Some v' \<and>
               jupdate u (to_json v) = Some (to_json v')) \<and>
            (\<forall>k. k \<notin> fst ` set us \<longrightarrow> avl_get m' k = avl_get m1 k) \<and>
            inserted' = ((inserted \<or> fresh) \<or>
              (\<exists>k. map_option to_json (avl_get m' k) \<noteq> map_option to_json (avl_get m1 k)))"
        using Cons.prems wf1 by (intro Cons.IH) auto
      have same: "(k, u') \<in> set us \<Longrightarrow> avl_get m1 k = avl_get m k" for k u'
        using out get1 by force
      show ?thesis
      proof (cases "apply_updates us m1 (inserted \<or> fresh) path")
        case (Inl e)
        then obtain k u' where bad: "(k, u') \<in> set us"
          "case avl_get m1 k of None \<Rightarrow> True | Some v \<Rightarrow> jupdate u' (to_json v) = None"
          using IH by auto
        show ?thesis unfolding step Inl sum.case
          using bad by (intro bexI [of _ "(k, u')"]) (simp_all add: same [OF bad(1)])
      next
        case (Inr q)
        obtain m' inserted' where q: "q = (m', inserted')" by (cases q)
        have wf': "value_wf (VObject m')"
          and upd: "\<And>k u'. (k, u') \<in> set us \<Longrightarrow> \<exists>v v'. avl_get m1 k = Some v \<and>
            avl_get m' k = Some v' \<and> jupdate u' (to_json v) = Some (to_json v')"
          and rest: "\<And>k. k \<notin> fst ` set us \<Longrightarrow> avl_get m' k = avl_get m1 k"
          and ins: "inserted' = ((inserted \<or> fresh) \<or>
              (\<exists>k. map_option to_json (avl_get m' k) \<noteq> map_option to_json (avl_get m1 k)))"
          using IH unfolding Inr q by (simp_all del: value_wf.simps) blast
        obtain v1 where v1: "avl_get m' key = Some v1" "to_json v1 = to_json v'"
          using rest [OF out] key1 by auto
        have "inserted' = (inserted \<or> (\<exists>k. map_option to_json (avl_get m' k) \<noteq> map_option to_json (avl_get m k)))"
        proof (cases fresh)
          case True
          then have "map_option to_json (avl_get m' key) \<noteq> map_option to_json (avl_get m key)"
            using v1 v'(3) Some by simp
          with True ins show ?thesis by blast
        next
          case False
          then have "m1 = m" by (simp add: m1_def)
          with False ins show ?thesis by simp
        qed
        moreover have "\<exists>v v'. avl_get m k = Some v \<and> avl_get m' k = Some v' \<and>
            jupdate u' (to_json v) = Some (to_json v')" if "(k, u') \<in> set (ku # us)" for k u'
        proof (cases "(k, u') = ku")
          case True
          then show ?thesis using Some v1 v'(2) by (simp add: ku)
        next
          case False
          then have mem: "(k, u') \<in> set us" using that by simp
          show ?thesis using upd [OF mem] same [OF mem] by simp
        qed
        moreover have "avl_get m' k = avl_get m k" if "k \<notin> fst ` set (ku # us)" for k
          using rest [of k] get1 [of k] that by (simp add: ku)
        ultimately show ?thesis
          using wf' unfolding step Inr q by (auto simp del: value_wf.simps)
      qed
    qed
  qed (simp add: ku)
qed simp

section \<open>Application refines the reference\<close>

lemma bt_get_entries_json:
  assumes "avl_wf m"
  shows "bt_get (map (\<lambda>(k, v). (k, to_json v)) (entries m)) k = map_option to_json (avl_get m k)"
  using assms by (simp add: bt_get_map_snd am.get_content)

lemma to_json_object_eqI:
  assumes "avl_wf m" "avl_wf m'" "\<And>k. map_option to_json (avl_get m k) = map_option to_json (avl_get m' k)"
  shows "to_json (VObject m) = to_json (VObject m')"
  unfolding to_json_object [OF assms(1)] to_json_object [OF assms(2)]
  by (simp, rule bt_wf_ext)
    (use assms in \<open>simp_all add: avl_wf_def bt_get_def [symmetric] fun_eq_iff bt_get_entries_json\<close>)

lemma to_json_object_get:
  assumes "avl_wf m" "avl_wf m'" "to_json (VObject m) = to_json (VObject m')"
  shows "map_option to_json (avl_get m k) = map_option to_json (avl_get m' k)"
  using assms(3) unfolding to_json_object [OF assms(1)] to_json_object [OF assms(2)]
    bt_get_entries_json [OF assms(1), symmetric] bt_get_entries_json [OF assms(2), symmetric]
  by simp

text \<open>The step at a key, by which of the three operations names it.\<close>

lemma jstep_create:
  "bt_get (p_create p) k = Some v \<Longrightarrow> jstep p k old = (if old = None then Some (Some (to_json v)) else None)"
  by (simp add: jstep_def)

lemma jstep_update:
  assumes "distinct (op_keys p)" "bt_get (p_update p) k = Some u"
  shows "jstep p k old = (case old of None \<Rightarrow> None | Some j \<Rightarrow> map_option Some (jupdate u j))"
proof -
  have "k \<in> fst ` set (p_update p)" using assms(2) by (metis bt_get_eq_None_iff option.distinct(1))
  then have "bt_get (p_create p) k = None"
    using assms(1) by (auto simp: op_keys_def bt_keys_def bt_get_eq_None_iff)
  then show ?thesis using assms(2) by (simp add: jstep_def)
qed

lemma jstep_delete:
  assumes "distinct (op_keys p)" "k \<in> set (p_delete p)"
  shows "jstep p k old = (if old = None then None else Some None)"
proof -
  have "bt_get (p_create p) k = None" "bt_get (p_update p) k = None"
    using assms by (auto simp: op_keys_def bt_keys_def bt_get_eq_None_iff)
  then show ?thesis using assms(2) by (simp add: jstep_def)
qed

text \<open>The three loops together, at one object.\<close>

lemma apply_object:
  assumes m: "value_wf (VObject m)"
    and p: "bt_wf c" "\<forall>kv \<in> set c. value_wf (snd kv)" "bt_wf u"
    and dist: "distinct (op_keys (Patch c u d))"
    and u: "\<forall>ku \<in> set u. \<forall>v path. value_wf v \<longrightarrow> update_ok (snd ku) v path"
  shows "update_ok (UObject (Patch c u d)) (VObject m) path"
proof -
  let ?p = "Patch c u d" and ?kvs = "map (\<lambda>(k, v). (k, to_json v)) (entries m)"
  have wf: "avl_wf m" using m by simp
  have sep: "distinct (map fst c)" "distinct (map fst u)" "distinct d"
    "\<And>k. k \<in> fst ` set c \<Longrightarrow> k \<notin> fst ` set u" "\<And>k. k \<in> set d \<Longrightarrow> k \<notin> fst ` set c \<and> k \<notin> fst ` set u"
    using dist by (auto simp: op_keys_def bt_keys_def)
  note json = to_json_object [OF wf]
  note get = bt_get_entries_json [OF wf]
  have failed: "update_ok (UObject ?p) (VObject m) path"
    if "apply_at ?p (VObject m) path = Inl e" "jstep ?p k (map_option to_json (avl_get m k)) = None" for e k
    using that unfolding update_ok_def by (auto simp: json japply_None_iff get simp del: to_json.simps japply.simps)
  show ?thesis
  proof (cases "apply_creates c m path")
    case (Inl e)
    with apply_creates_spec [OF m sep(1) p(2), of path]
    obtain k where "k \<in> fst ` set c" "avl_get m k \<noteq> None" by auto
    then show ?thesis using Inl jstep_create [of ?p k]
      by (intro failed [of e k]) (auto simp: bt_get_Some_iff p(1))
  next
    case creates: (Inr m1)
    have m1: "value_wf (VObject m1)" "\<And>k. k \<in> fst ` set c \<Longrightarrow> avl_get m k = None"
      "\<And>k. avl_get m1 k = (case bt_get c k of Some v \<Rightarrow> Some v | None \<Rightarrow> avl_get m k)"
      using apply_creates_spec [OF m sep(1) p(2), of path] creates by (auto simp del: value_wf.simps)
    have get1: "avl_get m1 k = avl_get m k" if "k \<notin> fst ` set c" for k
      using that m1(3) by (simp add: bt_get_eq_None_iff [THEN iffD2])
    show ?thesis
    proof (cases "apply_updates u m1 (c \<noteq> []) path")
      case (Inl e)
      then obtain k v where bad: "(k, v) \<in> set u"
        "case avl_get m1 k of None \<Rightarrow> True | Some j \<Rightarrow> jupdate v (to_json j) = None"
        using apply_updates_spec [OF m1(1) sep(2) u, of "c \<noteq> []" path] by auto
      then have "k \<notin> fst ` set c" using sep(4) by force
      then have "jstep ?p k (map_option to_json (avl_get m k)) = None"
        using jstep_update [OF dist, of k v] bad get1 [of k] p(3)
        by (auto simp: bt_get_Some_iff split: option.splits)
      then show ?thesis using creates Inl by (intro failed [of e k]) simp_all
    next
      case updates: (Inr r)
      obtain m2 ins where r: "r = (m2, ins)" by (cases r)
      have m2: "value_wf (VObject m2)"
        "\<And>k v. (k, v) \<in> set u \<Longrightarrow> \<exists>j j'. avl_get m1 k = Some j \<and> avl_get m2 k = Some j' \<and>
           jupdate v (to_json j) = Some (to_json j')"
        "\<And>k. k \<notin> fst ` set u \<Longrightarrow> avl_get m2 k = avl_get m1 k"
        "ins = (c \<noteq> [] \<or> (\<exists>k. map_option to_json (avl_get m2 k) \<noteq> map_option to_json (avl_get m1 k)))"
        using apply_updates_spec [OF m1(1) sep(2) u, of "c \<noteq> []" path] unfolding updates r
        by (simp_all del: value_wf.simps) blast
      show ?thesis
      proof (cases "apply_deletes d m2 path")
        case (Inl e)
        then obtain k where bad: "k \<in> set d" "avl_get m2 k = None"
          using apply_deletes_spec [OF m2(1) sep(3), of path] by auto
        then have "avl_get m k = None" using sep(5) get1 m2(3) by simp
        then show ?thesis using creates updates r Inl jstep_delete [OF dist, of k] bad(1)
          by (intro failed [of e k]) simp_all
      next
        case deletes: (Inr m3)
        have m3: "value_wf (VObject m3)" "\<And>k. k \<in> set d \<Longrightarrow> avl_get m2 k \<noteq> None"
          "\<And>k. avl_get m3 k = (if k \<in> set d then None else avl_get m2 k)"
          using apply_deletes_spec [OF m2(1) sep(3), of path] deletes by (simp_all del: value_wf.simps)
        have step: "jstep ?p k (map_option to_json (avl_get m k)) = Some (map_option to_json (avl_get m3 k))" for k
        proof -
          consider (c) v where "bt_get c k = Some v" | (u) v where "bt_get u k = Some v"
            | (d) "k \<in> set d" | (none) "k \<notin> set (op_keys ?p)"
            by (cases "bt_get c k"; cases "bt_get u k")
              (auto simp: op_keys_def bt_keys_def bt_get_eq_None_iff)
          then show ?thesis
          proof cases
            case c
            then have k: "k \<in> fst ` set c" by (metis bt_get_eq_None_iff option.distinct(1))
            then have "k \<notin> set d" "k \<notin> fst ` set u" using sep(4,5) by blast+
            then have "avl_get m k = None" "avl_get m3 k = Some v"
              using m1(2,3) m2(3) m3(3) c k by simp_all
            then show ?thesis using jstep_create [of ?p k v] c by simp
          next
            case u
            then have mem: "(k, v) \<in> set u" using p(3) by (simp add: bt_get_Some_iff)
            then have k: "k \<in> fst ` set u" by force
            obtain j j' where j: "avl_get m1 k = Some j" "avl_get m2 k = Some j'"
              "jupdate v (to_json j) = Some (to_json j')" using m2(2) [OF mem] by blast
            have "k \<notin> set d" "k \<notin> fst ` set c" using k sep(4,5) by blast+
            then have "avl_get m k = Some j" "avl_get m3 k = Some j'"
              using j(1,2) get1 [of k] m3(3) [of k] by simp_all
            then show ?thesis using jstep_update [OF dist, of k v] u j(3) by simp
          next
            case d
            then have "avl_get m k = avl_get m2 k" "avl_get m3 k = None"
              using sep(5) get1 m2(3) m3(3) by simp_all
            then show ?thesis using jstep_delete [OF dist, of k] d m3(2) by simp
          next
            case none
            then have "avl_get m3 k = avl_get m k"
              using m3(3) m2(3) get1 by (simp add: op_keys_def bt_keys_def)
            then show ?thesis using jstep_untouched [OF none] by simp
          qed
        qed
        have wf3: "avl_wf m3" using m3(1) by simp
        have japply: "japply ?p (to_json (VObject m)) = Some (to_json (VObject m3))"
          unfolding json to_json_object [OF wf3]
          by (subst japply_Some_iff)
            (use wf3 step in \<open>simp_all add: avl_wf_def [of m3] get bt_get_entries_json [OF wf3]\<close>)
        have same: "to_json (VObject m3) = to_json (VObject m)" if "\<not> ins" "d = []"
        proof (rule to_json_object_eqI [OF wf3 wf])
          fix k
          have "c = []" using that m2(4) by simp
          then have "avl_get m1 k = avl_get m k" using get1 by simp
          then show "map_option to_json (avl_get m3 k) = map_option to_json (avl_get m k)"
            using that m2(4) m3(3) by auto
        qed
        have differ: "\<exists>k. map_option to_json (avl_get m3 k) \<noteq> map_option to_json (avl_get m k)"
          if "ins \<or> d \<noteq> []"
        proof -
          consider (d) k where "k \<in> set d" | (c) k v where "bt_get c k = Some v"
            | (u) k where "map_option to_json (avl_get m2 k) \<noteq> map_option to_json (avl_get m1 k)"
            using \<open>ins \<or> d \<noteq> []\<close> m2(4) by (cases d; cases c) (auto simp: bt_get_def, metis)
          then show ?thesis
          proof cases
            case d
            then have "avl_get m k \<noteq> None" "avl_get m3 k = None"
              using sep(5) get1 m2(3) m3(2,3) by auto
            then show ?thesis by (intro exI [of _ k]) simp
          next
            case c
            then have k: "k \<in> fst ` set c" by (metis bt_get_eq_None_iff option.distinct(1))
            then have "k \<notin> set d" "k \<notin> fst ` set u" using sep(4,5) by blast+
            then have "avl_get m k = None" "avl_get m3 k = Some v"
              using m1(2,3) m2(3) m3(3) c k by simp_all
            then show ?thesis by (intro exI [of _ k]) simp
          next
            case u
            then have k: "k \<in> fst ` set u" using m2(3) [of k] by metis
            then have "k \<notin> set d" "k \<notin> fst ` set c" using sep(4,5) by blast+
            then have "avl_get m3 k = avl_get m2 k" "avl_get m1 k = avl_get m k"
              using m3(3) get1 by simp_all
            then show ?thesis using u by (intro exI [of _ k]) simp
          qed
        qed
        define still where "still \<longleftrightarrow> avl_is_empty m3 \<and> avl_is_empty m \<or> \<not> ins \<and> d = []"
        have result: "apply_at ?p (VObject m) path = Inr (if still then (VObject m, False) else (VObject m3, True))"
          using creates updates r deletes by (simp add: still_def)
        have "still \<Longrightarrow> to_json (VObject m3) = to_json (VObject m)"
          using same by (auto simp: still_def avl_is_empty_def split: avl.splits)
        moreover have "\<not> still \<Longrightarrow> to_json (VObject m3) \<noteq> to_json (VObject m)"
          using differ to_json_object_get [OF wf3 wf] by (auto simp: still_def)
        ultimately show ?thesis
          using m m3(1) unfolding update_ok_def apply_update.simps jupdate.simps result japply
          by (simp del: to_json.simps value_wf.simps)
      qed
    qed
  qed
qed

text \<open>The refinement, by induction over the patch.\<close>

lemma update_ok_leaf:
  assumes "value_wf child" "value_wf v" "as_object child = None"
  shows "update_ok (UValue child) v path"
  using assms value_eq_to_json [OF assms(1,2)]
  by (auto simp: update_ok_def)

lemma apply_ok:
  "valid p \<Longrightarrow> patch_wf p \<Longrightarrow> value_wf v \<Longrightarrow> update_ok (UObject p) v path"
proof (induction p arbitrary: v path rule: measure_induct_rule [of size])
  case (less p)
  obtain c u d where p: "p = Patch c u d" by (cases p)
  have wf: "bt_wf c" "\<forall>kv \<in> set c. value_wf (snd kv)" "bt_wf u" "distinct (op_keys (Patch c u d))"
    using less.prems valid_iff [of p] by (simp_all add: p patch_wf_iff del: validate.simps)
  have "update_ok (snd ku) v path" if ku: "ku \<in> set u" and v: "value_wf v" for ku v path
  proof (cases "snd ku")
    case (UObject q)
    have "(fst ku, UObject q) \<in> set u" using ku UObject by (metis prod.collapse)
    then have "size q < size p" using size_update_mem [of "fst ku" "UObject q" u] by (simp add: p)
    moreover have "valid q" "patch_wf q"
      using less.prems ku UObject unfolding valid_iff [of p] patch_wf_iff [of p] by (auto simp: p)
    ultimately show ?thesis unfolding UObject using v by (intro less.IH)
  next
    case (UValue child)
    have "value_wf child" "as_object child = None"
      using less.prems ku UValue unfolding valid_iff [of p] patch_wf_iff [of p] by (auto simp: p)
    then show ?thesis unfolding UValue using v by (intro update_ok_leaf)
  qed
  then show ?case unfolding p
    using apply_object [OF _ wf] less.prems(3) by (cases v) (auto simp: update_ok_def japply_non_object)
qed

section \<open>Properties\<close>

lemma patch_apply_refines_aux:
  assumes "patch_wf p" "value_wf v"
  shows "case patch_apply p v of
      Inl e \<Rightarrow> \<not> valid p \<or> japply p (to_json v) = None
    | Inr (v', fresh) \<Rightarrow> valid p \<and> value_wf v' \<and> japply p (to_json v) = Some (to_json v') \<and>
        (fresh \<longleftrightarrow> \<not> value_eq v' v)"
proof (cases "validate p")
  case (Inl e)
  then show ?thesis by (simp add: patch_apply_def)
next
  case (Inr u)
  then have ok: "update_ok (UObject p) v []" using assms by (intro apply_ok) simp_all
  show ?thesis
  proof (cases "apply_at p v []")
    case err: (Inl e)
    with ok Inr show ?thesis by (simp add: patch_apply_def update_ok_def)
  next
    case res: (Inr r)
    obtain v' fresh where r: "r = (v', fresh)" by (cases r)
    have "value_wf v' \<and> japply p (to_json v) = Some (to_json v') \<and> fresh = (to_json v' \<noteq> to_json v)"
      using ok by (simp add: update_ok_def res r)
    then show ?thesis using Inr value_eq_to_json [of v' v] assms(2)
      by (simp add: patch_apply_def res r)
  qed
qed

text \<open>
  C31: \<open>Patch::apply\<close> implements the key-by-key meaning of a patch: it fails exactly when the
  patch is malformed or some precondition fails at some key (an absent or present key, a leaf
  against an object, at any depth), whatever the order its loops visit the keys in, and
  otherwise yields a well-formed value with the meant content. The result keeps the pointer
  of the input exactly when the two are equal.
\<close>

theorem patch_apply_refines:
  assumes "patch_wf p" "value_wf v"
  shows "case patch_apply p v of
      Inl e \<Rightarrow> \<not> valid p \<or> japply p (to_json v) = None
    | Inr (v', fresh) \<Rightarrow> valid p \<and> value_wf v' \<and> japply p (to_json v) = Some (to_json v') \<and>
        (fresh \<longleftrightarrow> \<not> value_eq v' v)"
  by (rule patch_apply_refines_aux [OF assms])

theorem patch_apply_refines_witness:
  "case patch_apply (Patch [(''a'', VAtom (JInt 1))] [] [''b'']) (value_of_json (JObject [(''b'', JNull)]))
   of Inl e \<Rightarrow> False | Inr (v', fresh) \<Rightarrow> to_json v' = JObject [(''a'', JInt 1)] \<and> fresh"
proof -
  let ?p = "Patch [(''a'', VAtom (JInt 1))] [] [''b'']"
  let ?v = "value_of_json (JObject [(''b'', JNull)])"
  have run: "patch_apply ?p ?v = Inr (VObject (avlmap_remove (avl_insert (avl_insert Tip ''b'' (VAtom JNull)) ''a'' (VAtom (JInt 1))) ''b''), True)"
    by code_simp
  have ref: "japply ?p (to_json ?v) = Some (JObject [(''a'', JInt 1)])" by code_simp
  have "patch_wf ?p" "value_wf ?v" by code_simp+
  from patch_apply_refines [OF this] show ?thesis
    unfolding run ref sum.case prod.case by (simp del: to_json.simps)
qed

end
