(* ===== verification/CavlcMerge.thy ===== *)
theory CavlcMerge
  imports CavlcPatch
begin

text \<open>
  \<open>Patch::merge\<close> of \<open>crates/cavlc/src/patch.rs\<close>: what a successful merge has, key by key, and
  that applying it is applying the two patches one after the other, in either order.
\<close>

declare merge_at.simps [simp del]

text \<open>At a key both patches name, both update an object there, and the merge holds theirs.\<close>

definition merged_at :: "patch \<Rightarrow> patch \<Rightarrow> patch \<Rightarrow> string \<Rightarrow> bool" where
  "merged_at p q r k \<longleftrightarrow> (\<exists>a b m path. bt_get (p_update p) k = Some (UObject a) \<and>
     bt_get (p_update q) k = Some (UObject b) \<and> merge_at a b path = Inr m \<and>
     bt_get (p_update r) k = Some (UObject m))"

lemma merge_keys_spec:
  "merge_keys p q path ks merged = Inr r \<Longrightarrow>
   p_create r = p_create merged \<and> p_delete r = p_delete merged \<and>
   (bt_wf (p_update merged) \<longrightarrow> bt_wf (p_update r)) \<and>
   (\<forall>k. if k \<in> set ks \<and> k \<in> set (op_keys p) then merged_at p q r k
        else bt_get (p_update r) k = bt_get (p_update merged) k)"
proof (induction ks arbitrary: merged)
  case (Cons key ks)
  show ?case
  proof (cases "key \<in> set (op_keys p)")
    case False
    then have rest: "merge_keys p q path ks merged = Inr r" using Cons.prems by simp
    then show ?thesis using Cons.IH [OF rest] False by (metis set_ConsD list.set_intros(2))
  next
    case True
    then obtain a b m where both: "bt_get (p_update p) key = Some (UObject a)"
      "bt_get (p_update q) key = Some (UObject b)" "merge_at a b (path @ [key]) = Inr m"
      and rest: "merge_keys p q path ks (with_update merged key (UObject m)) = Inr r"
      using Cons.prems
      by (auto simp: rbind_Inr_iff split: option.splits update.splits)
    note IH = Cons.IH [OF rest]
    have here: "merged_at p q r key"
    proof (cases "key \<in> set ks")
      case False
      then have "bt_get (p_update r) key = Some (UObject m)" using IH by (simp add: with_update_def)
      then show ?thesis using both by (auto simp: merged_at_def)
    qed (use IH True in simp)
    have "if k \<in> set (key # ks) \<and> k \<in> set (op_keys p) then merged_at p q r k
        else bt_get (p_update r) k = bt_get (p_update merged) k" for k
      using IH here True by (cases "k = key") (simp_all add: with_update_def)
    then show ?thesis using IH by (simp add: with_update_def)
  qed
qed simp

text \<open>A non-trivial merge, key by key.\<close>

lemma merge_at_spec:
  assumes m: "merge_at p q path = Inr r" and ne: "\<not> patch_is_empty p" "\<not> patch_is_empty q"
    and wf: "patch_wf p" "patch_wf q"
  shows "bt_get (p_create r) k = (case bt_get (p_create q) k of Some v \<Rightarrow> Some v | None \<Rightarrow> bt_get (p_create p) k)"
    and "p_delete r = sort (p_delete p @ p_delete q)"
    and "bt_wf (p_create r)" "bt_wf (p_update r)"
    and "k \<in> set (op_keys p) \<Longrightarrow> k \<in> set (op_keys q) \<Longrightarrow>
       merged_at p q r k"
    and "\<not> (k \<in> set (op_keys p) \<and> k \<in> set (op_keys q)) \<Longrightarrow>
       bt_get (p_update r) k = (case bt_get (p_update q) k of Some u \<Rightarrow> Some u | None \<Rightarrow> bt_get (p_update p) k)"
proof -
  have keys: "merge_keys p q path (op_keys q) (extend_patch p q) = Inr r"
    using m ne by (simp add: merge_at.simps)
  note spec = merge_keys_spec [OF keys]
  have sorted: "bt_wf (p_create p)" "bt_wf (p_update p)" "bt_wf (p_create q)" "bt_wf (p_update q)"
    using wf by (simp_all add: patch_wf_iff)
  have ext: "bt_get (bt_extend c c') k = (case bt_get c' k of Some v \<Rightarrow> Some v | None \<Rightarrow> bt_get c k)"
    if "bt_wf c'" for c c' :: "(string \<times> 'x) list" and k
    unfolding bt_get_def map_of_bt_extend [OF bt_wf_distinct [OF that]] map_add_def ..
  show "bt_get (p_create r) k = (case bt_get (p_create q) k of Some v \<Rightarrow> Some v | None \<Rightarrow> bt_get (p_create p) k)"
    using spec ext [OF sorted(3)] by (simp add: extend_patch_def)
  show "p_delete r = sort (p_delete p @ p_delete q)" using spec by (simp add: extend_patch_def)
  show "bt_wf (p_create r)" "bt_wf (p_update r)" using spec sorted by (simp_all add: extend_patch_def)
  show "k \<in> set (op_keys p) \<Longrightarrow> k \<in> set (op_keys q) \<Longrightarrow>
       merged_at p q r k"
    using spec by auto
  show "\<not> (k \<in> set (op_keys p) \<and> k \<in> set (op_keys q)) \<Longrightarrow>
       bt_get (p_update r) k = (case bt_get (p_update q) k of Some u \<Rightarrow> Some u | None \<Rightarrow> bt_get (p_update p) k)"
  proof -
    assume "\<not> (k \<in> set (op_keys p) \<and> k \<in> set (op_keys q))"
    then have "bt_get (p_update r) k = bt_get (p_update (extend_patch p q)) k" using spec by metis
    then show ?thesis using ext [OF sorted(4)] by (simp add: extend_patch_def)
  qed
qed

lemma op_keys_iff:
  "k \<in> set (op_keys p) \<longleftrightarrow>
     bt_get (p_create p) k \<noteq> None \<or> bt_get (p_update p) k \<noteq> None \<or> k \<in> set (p_delete p)"
  by (auto simp: op_keys_def bt_keys_def bt_get_eq_None_iff)

lemma distinct_op_keys_iff:
  assumes "bt_wf (p_create p)" "bt_wf (p_update p)"
  shows "distinct (op_keys p) \<longleftrightarrow> distinct (p_delete p) \<and>
     (\<forall>k. \<not> (bt_get (p_create p) k \<noteq> None \<and> bt_get (p_update p) k \<noteq> None)) \<and>
     (\<forall>k \<in> set (p_delete p). bt_get (p_create p) k = None \<and> bt_get (p_update p) k = None)"
  using assms
  by (simp add: op_keys_def bt_keys_def bt_wf_distinct bt_get_eq_None_iff) blast

lemma update_exclusive:
  assumes "distinct (op_keys p)" "bt_get (p_update p) k = Some u"
  shows "bt_get (p_create p) k = None" "k \<notin> set (p_delete p)"
proof -
  have "k \<in> fst ` set (p_update p)" using assms(2) by (metis bt_get_eq_None_iff option.distinct(1))
  then show "bt_get (p_create p) k = None" "k \<notin> set (p_delete p)"
    using assms(1) by (auto simp: op_keys_def bt_keys_def bt_get_eq_None_iff)
qed

lemma valid_nested:
  assumes "valid p" "patch_wf p" "bt_get (p_update p) k = Some (UObject a)"
  shows "valid a \<and> patch_wf a"
proof -
  have "(k, UObject a) \<in> set (p_update p)" using assms(3) by (auto simp: bt_get_def dest: map_of_SomeD)
  then show ?thesis using assms(1,2) unfolding valid_iff [of p] patch_wf_iff [of p] by fastforce
qed

text \<open>Applying a patch keeps a JSON value canonical.\<close>

lemma japply_wf:
  "patch_wf p \<Longrightarrow> json_wf j \<Longrightarrow> japply p j = Some j' \<Longrightarrow> json_wf j'"
proof (induction p arbitrary: j j' rule: measure_induct_rule [of size])
  case (less p)
  obtain kvs where j: "j = JObject kvs" using less.prems(3) japply_non_object [of j p] by (cases j) auto
  from japply_SomeD [OF less.prems(3) [unfolded j]] obtain kvs' where kvs': "j' = JObject kvs'"
    "bt_wf kvs'" "\<forall>k. jstep p k (bt_get kvs k) = Some (bt_get kvs' k)" by blast
  have old: "json_wf x" if "bt_get kvs k = Some x" for k x
    using less.prems(2) that by (force simp: j bt_get_Some_iff)
  have "json_wf x" if kx: "(k, x) \<in> set kvs'" for k x
  proof -
    have step: "jstep p k (bt_get kvs k) = Some (Some x)"
      using kx kvs'(2,3) by (simp add: bt_get_Some_iff)
    have upd: "json_wf x" if u: "bt_get (p_update p) k = Some u" and y: "bt_get kvs k = Some y"
      and x: "jupdate u y = Some x" for u y
    proof (cases u)
      case (UObject a)
      have "(k, UObject a) \<in> set (p_update p)" using u UObject by (auto simp: bt_get_def dest: map_of_SomeD)
      then have "patch_wf a" using less.prems(1) unfolding patch_wf_iff [of p] by fastforce
      then show ?thesis using less.IH [of a y x] size_p_update [of p k a] u y x old UObject by simp
    next
      case (UValue v)
      have "(k, UValue v) \<in> set (p_update p)" using u UValue by (auto simp: bt_get_def dest: map_of_SomeD)
      then have "value_wf v" using less.prems(1) unfolding patch_wf_iff [of p] by fastforce
      then show ?thesis using x UValue json_wf_to_json by (auto split: if_splits)
    qed
    show ?thesis
    proof (cases "bt_get (p_create p) k")
      case (Some v)
      then have "(k, v) \<in> set (p_create p)" by (auto simp: bt_get_def dest: map_of_SomeD)
      then have "value_wf v" using less.prems(1) unfolding patch_wf_iff [of p] by fastforce
      then show ?thesis using step Some json_wf_to_json by (auto simp: jstep_def split: if_splits)
    next
      case None
      then show ?thesis using step upd old
        by (auto simp: jstep_def split: option.splits if_splits)
    qed
  qed
  then show ?case using kvs'(2) by (auto simp: kvs'(1))
qed

text \<open>From keys to objects.\<close>

lemma japply_bind:
  assumes step: "\<And>k old. (\<And>j. old = Some j \<Longrightarrow> json_wf j) \<Longrightarrow>
      jstep r k old = Option.bind (jstep p k old) (jstep q k)"
    and j: "json_wf j"
  shows "japply r j = Option.bind (japply p j) (japply q)"
proof (cases "is_object j")
  case False
  then show ?thesis by (simp add: japply_non_object)
next
  case True
  then obtain kvs where kvs: "j = JObject kvs" by (cases j) auto
  have old: "json_wf x" if "bt_get kvs k = Some x" for k x
    using j that by (force simp: kvs bt_get_Some_iff)
  have step': "jstep r k (bt_get kvs k) = Option.bind (jstep p k (bt_get kvs k)) (jstep q k)" for k
    using step old by blast
  show ?thesis
  proof (cases "japply p j")
    case None
    then obtain k where "jstep p k (bt_get kvs k) = None" unfolding kvs japply_None_iff by blast
    then have "jstep r k (bt_get kvs k) = None" using step' [of k] by simp
    then have "japply r j = None" unfolding kvs japply_None_iff by blast
    then show ?thesis using None by simp
  next
    case (Some j1)
    from japply_SomeD [OF Some [unfolded kvs]] obtain kvs1 where kvs1: "j1 = JObject kvs1"
      "\<And>k. jstep p k (bt_get kvs k) = Some (bt_get kvs1 k)" by blast
    have eq: "jstep r k (bt_get kvs k) = jstep q k (bt_get kvs1 k)" for k
      using step' [of k] kvs1(2) [of k] by simp
    show ?thesis
    proof (cases "japply q j1")
      case None
      then have "japply r j = None" using eq unfolding kvs kvs1(1) japply_None_iff by simp
      then show ?thesis using None Some by simp
    next
      case j2: (Some j2)
      from japply_SomeD [OF j2 [unfolded kvs1(1)]] obtain kvs2 where kvs2: "j2 = JObject kvs2"
        "bt_wf kvs2" "\<And>k. jstep q k (bt_get kvs1 k) = Some (bt_get kvs2 k)" by blast
      then have "japply r (JObject kvs) = Some (JObject kvs2)" using eq by (simp add: japply_Some_iff)
      then show ?thesis using Some j2 by (simp add: kvs kvs2(1))
    qed
  qed
qed

text \<open>Two patches of which one is empty.\<close>

lemma jstep_empty: "patch_is_empty p \<Longrightarrow> jstep p k = Some"
  by (intro ext jstep_untouched) (simp add: patch_is_empty_def op_keys_def bt_keys_def)

lemma jstep_id: "k \<notin> set (op_keys p) \<Longrightarrow> jstep p k = Some"
  by (intro ext jstep_untouched)

text \<open>The step of a merge is the two steps in sequence, whichever comes first.\<close>

definition composes :: "patch \<Rightarrow> patch \<Rightarrow> patch \<Rightarrow> bool" where
  "composes p q r \<longleftrightarrow> (\<forall>k old. (\<forall>j. old = Some j \<longrightarrow> json_wf j) \<longrightarrow>
     jstep r k old = Option.bind (jstep p k old) (jstep q k))"

lemma composes_japply: "composes p q r \<Longrightarrow> json_wf j \<Longrightarrow> japply r j = Option.bind (japply p j) (japply q)"
  by (rule japply_bind) (auto simp: composes_def)

lemma jstep_cong:
  "bt_get (p_create p) k = bt_get (p_create q) k \<Longrightarrow> bt_get (p_update p) k = bt_get (p_update q) k \<Longrightarrow>
   (k \<in> set (p_delete p) \<longleftrightarrow> k \<in> set (p_delete q)) \<Longrightarrow> jstep p k = jstep q k"
  unfolding jstep_def by (simp only:)

lemma jstep_nested:
  assumes "distinct (op_keys p)" "distinct (op_keys q)" "distinct (op_keys r)"
    and "bt_get (p_update p) k = Some (UObject a)" "bt_get (p_update q) k = Some (UObject b)"
      "bt_get (p_update r) k = Some (UObject m)"
    and "composes a b m" "\<And>j. old = Some j \<Longrightarrow> json_wf j"
  shows "jstep r k old = Option.bind (jstep p k old) (jstep q k)"
proof (cases old)
  case None
  then show ?thesis using assms by (simp add: jstep_update)
next
  case (Some j)
  have "japply m j = Option.bind (japply a j) (japply b)"
    using assms(7,8) Some by (intro composes_japply) simp_all
  then show ?thesis using Some
    by (cases "japply a j")
      (simp_all add: jstep_update [OF assms(1,4)] jstep_update [OF assms(2,5)] jstep_update [OF assms(3,6)])
qed

lemma merge_at_composes:
  "merge_at p q path = Inr r \<Longrightarrow> valid p \<Longrightarrow> patch_wf p \<Longrightarrow> valid q \<Longrightarrow> patch_wf q \<Longrightarrow>
   valid r \<and> patch_wf r \<and> set (op_keys r) = set (op_keys p) \<union> set (op_keys q) \<and>
   composes p q r \<and> composes q p r"
proof (induction p arbitrary: q path r rule: measure_induct_rule [of size])
  case (less p)
  consider (p) "patch_is_empty p" | (q) "\<not> patch_is_empty p" "patch_is_empty q"
    | (both) "\<not> patch_is_empty p" "\<not> patch_is_empty q" by blast
  then show ?case
  proof cases
    case p
    then have "r = q" using less.prems(1) by (simp add: merge_at.simps)
    then show ?thesis using p less.prems
      by (auto simp: composes_def jstep_empty op_keys_iff bt_get_def patch_is_empty_def)
  next
    case q
    then have "r = p" using less.prems(1) by (simp add: merge_at.simps)
    then show ?thesis using q less.prems
      by (auto simp: composes_def jstep_empty op_keys_iff bt_get_def patch_is_empty_def)
  next
    case both
    note spec = merge_at_spec [OF less.prems(1) both less.prems(3,5)]
    have dist: "distinct (op_keys p)" "distinct (op_keys q)" using less.prems(2,4) by (simp_all add: valid_iff)
    have shared: "\<exists>a b m path. bt_get (p_update p) k = Some (UObject a) \<and>
        bt_get (p_update q) k = Some (UObject b) \<and> bt_get (p_update r) k = Some (UObject m) \<and>
        valid m \<and> patch_wf m \<and> composes a b m \<and> composes b a m"
      if k: "k \<in> set (op_keys p)" "k \<in> set (op_keys q)" for k
    proof -
      obtain a b m path where abm: "bt_get (p_update p) k = Some (UObject a)"
        "bt_get (p_update q) k = Some (UObject b)" "merge_at a b path = Inr m"
        "bt_get (p_update r) k = Some (UObject m)"
        using spec(5) [OF k] unfolding merged_at_def by blast
      have "valid a \<and> patch_wf a" "valid b \<and> patch_wf b"
        using valid_nested less.prems abm(1,2) by blast+
      then show ?thesis using less.IH [OF size_p_update [OF abm(1)] abm(3)] abm by blast
    qed
    have keys: "set (op_keys r) = set (op_keys p) \<union> set (op_keys q)"
    proof (intro set_eqI)
      fix k
      show "k \<in> set (op_keys r) \<longleftrightarrow> k \<in> set (op_keys p) \<union> set (op_keys q)"
      proof (cases "k \<in> set (op_keys p) \<and> k \<in> set (op_keys q)")
        case True
        then have "bt_get (p_update r) k \<noteq> None" using shared [of k] by auto
        with True show ?thesis by (simp add: op_keys_iff)
      next
        case False
        show ?thesis using False spec(1) [of k] spec(2) spec(6) [OF False]
          by (auto simp: op_keys_iff split: option.splits)
      qed
    qed
    have alone: "bt_get (p_create r) k = bt_get (p_create p) k"
      "bt_get (p_update r) k = bt_get (p_update p) k" "k \<in> set (p_delete r) \<longleftrightarrow> k \<in> set (p_delete p)"
      if "k \<notin> set (op_keys q)" for k
      using that spec(1) [of k] spec(2) spec(6) [of k] by (auto simp: op_keys_iff)
    have alone': "bt_get (p_create r) k = bt_get (p_create q) k"
      "bt_get (p_update r) k = bt_get (p_update q) k" "k \<in> set (p_delete r) \<longleftrightarrow> k \<in> set (p_delete q)"
      if "k \<notin> set (op_keys p)" for k
      using that spec(1) [of k] spec(2) spec(6) [of k] by (auto simp: op_keys_iff split: option.splits)
    have shared': "bt_get (p_create r) k = None" "k \<notin> set (p_delete r)"
      if k: "k \<in> set (op_keys p)" "k \<in> set (op_keys q)" for k
    proof -
      obtain a b where ab: "bt_get (p_update p) k = Some (UObject a)" "bt_get (p_update q) k = Some (UObject b)"
        using spec(5) [OF k] unfolding merged_at_def by blast
      show "bt_get (p_create r) k = None" "k \<notin> set (p_delete r)"
        using update_exclusive [OF dist(1) ab(1)] update_exclusive [OF dist(2) ab(2)] spec(1) [of k] spec(2)
        by simp_all
    qed
    have sets: "k \<in> set (op_keys p) \<and> k \<in> set (op_keys q) \<or> k \<notin> set (op_keys q) \<or> k \<notin> set (op_keys p)" for k
      by blast
    have dist_r: "distinct (op_keys r)"
    proof (subst distinct_op_keys_iff [OF spec(3,4)], intro conjI allI ballI)
      have "set (p_delete p) \<inter> set (p_delete q) = {}"
        using shared'(2) spec(2) by (auto simp: op_keys_def)
      moreover have "distinct (p_delete p)" "distinct (p_delete q)" using dist by (simp_all add: op_keys_def)
      ultimately show "distinct (p_delete r)" by (simp add: spec(2))
    next
      fix k
      have "\<not> (bt_get (p_create p) k \<noteq> None \<and> bt_get (p_update p) k \<noteq> None)"
        "\<not> (bt_get (p_create q) k \<noteq> None \<and> bt_get (p_update q) k \<noteq> None)"
        using update_exclusive(1) [OF dist(1)] update_exclusive(1) [OF dist(2)] by auto
      then show "\<not> (bt_get (p_create r) k \<noteq> None \<and> bt_get (p_update r) k \<noteq> None)"
        using sets [of k] shared'(1) [of k] alone(1,2) [of k] alone'(1,2) [of k] by metis
    next
      fix k assume k: "k \<in> set (p_delete r)"
      have each: "bt_get (p_create x) k = None \<and> bt_get (p_update x) k = None"
        if "distinct (op_keys x)" "k \<in> set (p_delete x)" for x
        using that by (auto simp: op_keys_def bt_keys_def bt_get_eq_None_iff)
      show "bt_get (p_create r) k = None"
        using sets [of k] shared'(2) [of k] alone [of k] alone' [of k] each [OF dist(1)] each [OF dist(2)] k
        by metis
      show "bt_get (p_update r) k = None"
        using sets [of k] shared'(2) [of k] alone [of k] alone' [of k] each [OF dist(1)] each [OF dist(2)] k
        by metis
    qed
    have creates: "value_wf v" if "(k, v) \<in> set (p_create r)" for k v
    proof -
      have "bt_get (p_create r) k = Some v" using that spec(3) by (simp add: bt_get_Some_iff)
      then have "bt_get (p_create p) k = Some v \<or> bt_get (p_create q) k = Some v"
        using spec(1) [of k] by (auto split: option.splits)
      then show ?thesis using less.prems(3,5) unfolding patch_wf_iff [of p] patch_wf_iff [of q]
        by (force simp: bt_get_Some_iff)
    qed
    have updates: "valid_update u \<and> update_wf u" if "(k, u) \<in> set (p_update r)" for k u
    proof -
      have u: "bt_get (p_update r) k = Some u" using that spec(4) by (simp add: bt_get_Some_iff)
      have from_input: "valid_update u \<and> update_wf u"
        if "bt_get (p_update x) k = Some u" "valid x" "patch_wf x" for x
      proof -
        have "(k, u) \<in> set (p_update x)" using that(1) by (auto simp: bt_get_def dest: map_of_SomeD)
        then show ?thesis using that(2,3) unfolding valid_iff [of x] patch_wf_iff [of x] by fastforce
      qed
      show ?thesis
        using sets [of k] shared [of k] alone(2) [of k] alone'(2) [of k] u from_input less.prems(2-5)
        by (metis option.inject update_wf.simps(1) valid_update.simps(1))
    qed
    have "valid r" using dist_r updates unfolding valid_iff [of r] by auto
    moreover have "patch_wf r" using spec(3,4) creates updates unfolding patch_wf_iff [of r] by auto
    moreover have "composes p q r \<and> composes q p r" unfolding composes_def
    proof (intro conjI allI impI)
      fix k old assume old: "\<forall>j. old = Some j \<longrightarrow> json_wf j"
      show "jstep r k old = Option.bind (jstep p k old) (jstep q k)"
        using sets [of k] shared [of k] jstep_nested [OF dist dist_r] old
          jstep_cong [OF alone [of k]] jstep_cong [OF alone' [of k]]
          jstep_id [of k p] jstep_id [of k q]
        by (elim disjE) (metis, simp_all)
      show "jstep r k old = Option.bind (jstep q k old) (jstep p k)"
        using sets [of k] shared [of k] jstep_nested [OF dist(2,1) dist_r] old
          jstep_cong [OF alone [of k]] jstep_cong [OF alone' [of k]]
          jstep_id [of k p] jstep_id [of k q]
        by (elim disjE) (metis, simp_all)
    qed
    ultimately show ?thesis using keys by blast
  qed
qed

section \<open>Properties\<close>

text \<open>The value a patch makes of another, if it applies.\<close>

definition applied :: "patch \<Rightarrow> cavlc_value \<Rightarrow> cavlc_value option" where
  "applied p v = (case patch_apply p v of Inl e \<Rightarrow> None | Inr (v', fresh) \<Rightarrow> Some v')"

lemma applied_json:
  assumes "patch_wf p" "valid p" "value_wf v"
  shows "map_option to_json (applied p v) = japply p (to_json v)"
    and "applied p v = Some v' \<Longrightarrow> value_wf v'"
  using patch_apply_refines_aux [OF assms(1,3)] assms(2)
  by (auto simp: applied_def split: sum.splits prod.splits)

text \<open>
  C32: A successful \<open>merge\<close> of two patches is a valid patch on the union of their keys, and
  applying it to any value is applying the first and then the second, and equally the second
  and then the first: same success, same content. So independent edits commute, and \<open>merge\<close>
  loses none of them.
\<close>

theorem merge_is_either_order:
  assumes "merge p q = Inr r" "patch_wf p" "patch_wf q" "value_wf v"
  shows "valid r \<and> patch_wf r \<and> set (op_keys r) = set (op_keys p) \<union> set (op_keys q)
    \<and> map_option to_json (applied r v) = map_option to_json (Option.bind (applied p v) (applied q))
    \<and> map_option to_json (applied r v) = map_option to_json (Option.bind (applied q v) (applied p))"
proof -
  have ok: "valid p" "valid q" "merge_at p q [] = Inr r"
    using assms(1) by (auto simp: merge_def)
  note m = merge_at_composes [OF ok(3,1) assms(2) ok(2) assms(3)]
  have seq: "map_option to_json (Option.bind (applied a v) (applied b)) =
      Option.bind (japply a (to_json v)) (japply b)"
    if "patch_wf a" "valid a" "patch_wf b" "valid b" for a b
    using applied_json(2) [OF that(1,2) assms(4)] applied_json(1) [OF that(3,4)]
    unfolding applied_json(1) [OF that(1,2) assms(4), symmetric]
    by (cases "applied a v") simp_all
  have "map_option to_json (applied r v) = japply r (to_json v)"
    using m assms(4) applied_json(1) [of r v] by blast
  then show ?thesis
    using m seq [OF assms(2) ok(1) assms(3) ok(2)] seq [OF assms(3) ok(2) assms(2) ok(1)]
      composes_japply [of p q r] composes_japply [of q p r] json_wf_to_json [OF assms(4)]
    by simp
qed

theorem merge_is_either_order_witness:
  "map_option to_json (Option.bind (applied (Patch [(''a'', VAtom JNull)] [] []) value_default)
     (applied (Patch [(''b'', VAtom JNull)] [] []))) = Some (JObject [(''a'', JNull), (''b'', JNull)])"
proof -
  let ?p = "Patch [(''a'', VAtom JNull)] [] []" and ?q = "Patch [(''b'', VAtom JNull)] [] []"
  let ?r = "Patch [(''a'', VAtom JNull), (''b'', VAtom JNull)] [] []"
  have "merge ?p ?q = Inr ?r" "patch_wf ?p" "patch_wf ?q" by code_simp+
  note m = merge_is_either_order [OF this value_wf_default]
  have "map_option to_json (applied ?r value_default) = Some (JObject [(''a'', JNull), (''b'', JNull)])"
    by code_simp
  with m show ?thesis by argo
qed

end
