(* ===== verification/CavlcPatchJson.thy ===== *)
theory CavlcPatchJson
  imports CavlcPatch
begin

text \<open>
  The wire form of a patch (\<open>crates/cavlc/src/patch.rs\<close>): the untagged \<open>Update\<close>, the
  \<open>Create\<close>/\<open>Update\<close>/\<open>Delete\<close> object with its empty parts skipped, and the checked conversion
  back. What the derived \<open>Serialize\<close> writes is taken as the tree it denotes. An error that serde
  raises on a field of the wrong shape is \<open>BadField key None\<close>; one raised by a nested
  patch is \<open>BadField key (Some fault)\<close>.
\<close>

definition patch_parts :: "(string \<times> json) list \<Rightarrow> (string \<times> json) list \<Rightarrow> string list \<Rightarrow> (string \<times> json) list" where
  "patch_parts c u d = bt_extend []
     ((if c = [] then [] else [(''Create'', JObject c)]) @
      (if u = [] then [] else [(''Update'', JObject u)]) @
      (if d = [] then [] else [(''Delete'', JArray (map JString d))]))"

fun patch_to_fields :: "patch \<Rightarrow> (string \<times> json) list"
  and update_to_json :: "update \<Rightarrow> json" where
  "patch_to_fields (Patch c u d) =
     patch_parts (map (\<lambda>kv. (fst kv, to_json (snd kv))) c)
       (map (\<lambda>ku. (fst ku, update_to_json (snd ku))) u) d"
| "update_to_json (UObject p) = JObject (patch_to_fields p)"
| "update_to_json (UValue v) = to_json v"

definition patch_to_json :: "patch \<Rightarrow> json" where
  "patch_to_json p = JObject (patch_to_fields p)"

fun check_ops :: "string list \<Rightarrow> cavlc_error + unit" where
  "check_ops [] = Inr ()"
| "check_ops (key # keys) =
     (if key \<in> {''Create'', ''Update'', ''Delete''} then check_ops keys
      else Inl (InvalidPatch (UnknownOperation key)))"

fun as_strings :: "json list \<Rightarrow> string list option" where
  "as_strings [] = Some []"
| "as_strings (JString s # js) = map_option (\<lambda>ss. s # ss) (as_strings js)"
| "as_strings _ = None"

fun take_create :: "json option \<Rightarrow> cavlc_error + (string \<times> cavlc_value) list" where
  "take_create None = Inr []"
| "take_create (Some (JObject fields)) = Inr (map (\<lambda>kv. (fst kv, value_of_json (snd kv))) fields)"
| "take_create _ = Inl (InvalidPatch (BadField ''Create'' None))"

fun take_delete :: "json option \<Rightarrow> cavlc_error + string list" where
  "take_delete None = Inr []"
| "take_delete (Some (JArray js)) =
     ok_or (as_strings js) (InvalidPatch (BadField ''Delete'' None))"
| "take_delete _ = Inl (InvalidPatch (BadField ''Delete'' None))"

fun fault_of :: "cavlc_error \<Rightarrow> patch_fault option" where
  "fault_of (InvalidPatch f) = Some f"
| "fault_of _ = None"

definition in_update :: "cavlc_error \<Rightarrow> cavlc_error" where
  "in_update e = InvalidPatch (BadField ''Update'' (fault_of e))"

lemma size_bt_get_json [termination_simp]:
  "bt_get fields k = Some (JObject us) \<Longrightarrow>
   size_list (size_prod (\<lambda>_. 0) size) us < size_list (size_prod (\<lambda>_. 0) size) fields"
  by (induction fields) (auto simp: bt_get_def split: if_splits)

function (sequential) patch_of_fields :: "(string \<times> json) list \<Rightarrow> cavlc_error + patch"
  and updates_of_fields :: "(string \<times> json) list \<Rightarrow> cavlc_error + (string \<times> update) list"
  and update_of_json :: "json \<Rightarrow> cavlc_error + update" where
  "patch_of_fields fields =
     rbind (check_ops (bt_keys fields)) (\<lambda>_.
     rbind (take_create (bt_get fields ''Create'')) (\<lambda>c.
     rbind (case bt_get fields ''Update'' of
              None \<Rightarrow> Inr []
            | Some (JObject us) \<Rightarrow> map_err in_update (updates_of_fields us)
            | Some _ \<Rightarrow> Inl (InvalidPatch (BadField ''Update'' None))) (\<lambda>u.
     rbind (take_delete (bt_get fields ''Delete'')) (\<lambda>d.
     rbind (validate (Patch c u d)) (\<lambda>_. Inr (Patch c u d))))))"
| "updates_of_fields [] = Inr []"
| "updates_of_fields ((key, j) # fields) =
     rbind (update_of_json j) (\<lambda>u.
     rbind (updates_of_fields fields) (\<lambda>us. Inr ((key, u) # us)))"
| "update_of_json (JObject fields) = rbind (patch_of_fields fields) (\<lambda>p. Inr (UObject p))"
| "update_of_json j = Inr (UValue (value_of_json j))"
  by pat_completeness auto
termination
  by (relation "measure (\<lambda>x. case x of
        Inl fields \<Rightarrow> 3 * size_list (size_prod (\<lambda>_. 0) size) fields
      | Inr (Inl fields) \<Rightarrow> 3 * size_list (size_prod (\<lambda>_. 0) size) fields + 1
      | Inr (Inr j) \<Rightarrow> 3 * size j)")
    (auto dest!: size_bt_get_json)

definition patch_of_json :: "json \<Rightarrow> cavlc_error + patch" where
  "patch_of_json j =
     (case j of JObject fields \<Rightarrow> patch_of_fields fields
      | _ \<Rightarrow> Inl (InvalidPatch (BadField [] None)))"

text \<open>The derived \<open>PartialEq\<close>.\<close>

fun patch_eq :: "patch \<Rightarrow> patch \<Rightarrow> bool" and update_eq :: "update \<Rightarrow> update \<Rightarrow> bool" where
  "patch_eq (Patch c u d) (Patch c' u' d') \<longleftrightarrow>
     list_all2 (\<lambda>x y. fst x = fst y \<and> value_eq (snd x) (snd y)) c c' \<and>
     list_all2 (\<lambda>x y. fst x = fst y \<and> update_eq (snd x) (snd y)) u u' \<and> d = d'"
| "update_eq (UObject p) (UObject q) = patch_eq p q"
| "update_eq (UValue v) (UValue w) = value_eq v w"
| "update_eq _ _ = False"

section \<open>Round trip\<close>

declare patch_of_fields.simps [simp del] validate.simps [simp del]

lemma patch_parts_get:
  "bt_get (patch_parts c u d) ''Create'' = (if c = [] then None else Some (JObject c))"
  "bt_get (patch_parts c u d) ''Update'' = (if u = [] then None else Some (JObject u))"
  "bt_get (patch_parts c u d) ''Delete'' = (if d = [] then None else Some (JArray (map JString d)))"
  by (simp_all add: patch_parts_def bt_get_def map_of_bt_extend map_add_def)

lemma check_ops_ok: "check_ops keys = Inr () \<longleftrightarrow> set keys \<subseteq> {''Create'', ''Update'', ''Delete''}"
  by (induction keys) auto

lemma patch_parts_ops: "check_ops (bt_keys (patch_parts c u d)) = Inr ()"
  unfolding check_ops_ok bt_keys_def set_map patch_parts_def set_keys_bt_extend by auto

lemma as_strings_JString [simp]: "as_strings (map JString ss) = Some ss"
  by (induction ss) auto

lemma update_of_json_leaf: "\<not> is_object j \<Longrightarrow> update_of_json j = Inr (UValue (value_of_json j))"
  by (cases j) auto

definition update_trip :: "update \<Rightarrow> bool" where
  "update_trip u \<longleftrightarrow> (\<exists>u'. update_of_json (update_to_json u) = Inr u' \<and> update_eq u' u \<and>
     valid_update u' \<and> update_wf u')"

lemma updates_trip:
  "\<forall>ku \<in> set us. update_trip (snd ku) \<Longrightarrow>
   \<exists>us'. updates_of_fields (map (\<lambda>ku. (fst ku, update_to_json (snd ku))) us) = Inr us' \<and>
     map fst us' = map fst us \<and> list_all2 (\<lambda>x y. fst x = fst y \<and> update_eq (snd x) (snd y)) us' us \<and>
     (\<forall>ku \<in> set us'. valid_update (snd ku) \<and> update_wf (snd ku))"
proof (induction us)
  case (Cons ku us)
  obtain k u where ku: "ku = (k, u)" by (cases ku)
  obtain u' where u': "update_of_json (update_to_json u) = Inr u'" "update_eq u' u" "valid_update u'"
    "update_wf u'" using Cons.prems by (auto simp: ku update_trip_def)
  obtain us' where us': "updates_of_fields (map (\<lambda>ku. (fst ku, update_to_json (snd ku))) us) = Inr us'"
    "map fst us' = map fst us" "list_all2 (\<lambda>x y. fst x = fst y \<and> update_eq (snd x) (snd y)) us' us"
    "\<forall>ku \<in> set us'. valid_update (snd ku) \<and> update_wf (snd ku)"
    using Cons.IH Cons.prems by auto
  show ?case by (rule exI [of _ "(k, u') # us'"]) (simp add: ku u' us')
qed simp

lemma update_trip_leaf:
  assumes "value_wf v" "as_object v = None"
  shows "update_trip (UValue v)"
proof -
  have leaf: "\<not> is_object (to_json v)" using assms by simp
  have wf: "value_wf (value_of_json (to_json v))" using assms(1) by (intro value_of_json_wf json_wf_to_json)
  have "to_json (value_of_json (to_json v)) = to_json v"
    using assms(1) by (intro to_json_of_json json_wf_to_json)
  then have "value_eq (value_of_json (to_json v)) v" using value_eq_to_json [OF wf assms(1)] by simp
  moreover have "as_object (value_of_json (to_json v)) = None" using leaf by (cases "to_json v") auto
  ultimately show ?thesis unfolding update_trip_def
    using wf leaf by (simp add: update_of_json_leaf)
qed

lemma patch_trip:
  "valid p \<Longrightarrow> patch_wf p \<Longrightarrow> \<exists>p'. patch_of_fields (patch_to_fields p) = Inr p' \<and> patch_eq p' p \<and>
     valid p' \<and> patch_wf p'"
proof (induction p rule: measure_induct_rule [of size])
  case (less p)
  obtain c u d where p: "p = Patch c u d" by (cases p)
  note wf = less.prems(2) [unfolded patch_wf_iff p, simplified]
  have "update_trip (snd ku)" if ku: "ku \<in> set u" for ku
  proof (cases "snd ku")
    case (UObject q)
    have "(fst ku, UObject q) \<in> set u" using ku UObject by (metis prod.collapse)
    then have "size q < size p" using size_update_mem [of "fst ku" "UObject q" u] by (simp add: p)
    moreover have "valid q" "patch_wf q"
      using less.prems ku UObject unfolding valid_iff [of p] patch_wf_iff [of p] by (auto simp: p)
    ultimately show ?thesis using less.IH [of q] by (auto simp: UObject update_trip_def)
  next
    case (UValue v)
    have "value_wf v" "as_object v = None"
      using less.prems ku UValue unfolding valid_iff [of p] patch_wf_iff [of p] by (auto simp: p)
    then show ?thesis unfolding UValue by (rule update_trip_leaf)
  qed
  then obtain u' where u': "updates_of_fields (map (\<lambda>ku. (fst ku, update_to_json (snd ku))) u) = Inr u'"
    "map fst u' = map fst u" "list_all2 (\<lambda>x y. fst x = fst y \<and> update_eq (snd x) (snd y)) u' u"
    "\<forall>ku \<in> set u'. valid_update (snd ku) \<and> update_wf (snd ku)"
    using updates_trip [of u] by blast
  let ?c = "map (\<lambda>kv. (fst kv, value_of_json (to_json (snd kv)))) c"
  have keys: "op_keys (Patch ?c u' d) = op_keys p"
    by (simp add: op_keys_def bt_keys_def p u'(2) comp_def)
  have valid: "valid (Patch ?c u' d)"
    using less.prems(1) u'(4) unfolding valid_iff keys by simp
  have "value_wf (value_of_json (to_json (snd kv))) \<and> value_eq (value_of_json (to_json (snd kv))) (snd kv)"
    if "kv \<in> set c" for kv
    using wf that by (simp add: value_of_json_wf json_wf_to_json value_eq_to_json to_json_of_json)
  moreover have "bt_wf ?c = bt_wf c" "bt_wf u' = bt_wf u"
    by (rule bt_wf_map_fst, simp add: comp_def) (rule bt_wf_map_fst, rule u'(2))
  ultimately have "patch_wf (Patch ?c u' d)" "patch_eq (Patch ?c u' d) p"
    using wf u'(3,4) by (auto simp: patch_wf_iff p list_all2_map1 list_all2_same)
  moreover have "patch_of_fields (patch_to_fields p) = Inr (Patch ?c u' d)"
    unfolding patch_of_fields.simps
    using u'(1) valid by (cases "u = []") (auto simp: p patch_parts_get patch_parts_ops comp_def)
  ultimately show ?case using valid by blast
qed

section \<open>Equal patches do the same\<close>

lemma list_all2_get:
  assumes "list_all2 (\<lambda>x y. fst x = fst y \<and> P (snd x) (snd y)) xs ys"
  shows "case bt_get xs k of None \<Rightarrow> bt_get ys k = None
    | Some x \<Rightarrow> \<exists>y. bt_get ys k = Some y \<and> P x y \<and> (k, x) \<in> set xs \<and> (k, y) \<in> set ys"
  using assms by (induction rule: list_all2_induct) (auto simp: bt_get_def split: option.splits)

lemma list_all2_ball:
  "list_all2 R xs ys \<Longrightarrow> (\<And>x y. x \<in> set xs \<Longrightarrow> R x y \<Longrightarrow> P x \<longleftrightarrow> Q y) \<Longrightarrow>
   (\<forall>x \<in> set xs. P x) \<longleftrightarrow> (\<forall>y \<in> set ys. Q y)"
  by (induction rule: list_all2_induct) auto

lemma list_all2_keys:
  "list_all2 (\<lambda>x y. fst x = fst y \<and> P (snd x) (snd y)) xs ys \<Longrightarrow> map fst xs = map fst ys"
  by (induction rule: list_all2_induct) auto

lemma patch_eq_iff:
  "patch_eq p q \<longleftrightarrow>
     list_all2 (\<lambda>x y. fst x = fst y \<and> value_eq (snd x) (snd y)) (p_create p) (p_create q) \<and>
     list_all2 (\<lambda>x y. fst x = fst y \<and> update_eq (snd x) (snd y)) (p_update p) (p_update q) \<and>
     p_delete p = p_delete q"
  by (cases p; cases q) simp

lemma patch_eq_keys: "patch_eq p q \<Longrightarrow> op_keys p = op_keys q"
  by (auto simp: patch_eq_iff op_keys_def bt_keys_def dest!: list_all2_keys)

lemma value_eq_object: "value_eq v w \<Longrightarrow> as_object v = None \<longleftrightarrow> as_object w = None"
  by (cases v; cases w) auto

lemma patch_eq_valid: "patch_eq p q \<Longrightarrow> valid p \<longleftrightarrow> valid q"
proof (induction p arbitrary: q rule: measure_induct_rule [of size])
  case (less p)
  have upd: "valid_update (snd x) \<longleftrightarrow> valid_update (snd y)"
    if x: "x \<in> set (p_update p)" and eq: "update_eq (snd x) (snd y)" for x y
  proof (cases "snd x")
    case (UObject a)
    then obtain b where b: "snd y = UObject b" "patch_eq a b" using eq by (cases "snd y") auto
    have "(fst x, UObject a) \<in> set (p_update p)" using x UObject by (metis prod.collapse)
    then have "size a < size p" by (rule size_nested)
    then show ?thesis using less.IH b UObject by simp
  next
    case (UValue v)
    then show ?thesis using eq value_eq_object by (cases "snd y") auto
  qed
  have all: "list_all2 (\<lambda>x y. fst x = fst y \<and> update_eq (snd x) (snd y)) (p_update p) (p_update q)"
    using less.prems by (simp add: patch_eq_iff)
  have "(\<forall>x \<in> set (p_update p). valid_update (snd x)) \<longleftrightarrow> (\<forall>y \<in> set (p_update q). valid_update (snd y))"
    by (rule list_all2_ball [OF all]) (use upd in blast)
  then show ?case using patch_eq_keys [OF less.prems] by (simp add: valid_iff)
qed

lemma patch_eq_japply: "patch_eq p q \<Longrightarrow> patch_wf p \<Longrightarrow> patch_wf q \<Longrightarrow> japply p j = japply q j"
proof (induction p arbitrary: q j rule: measure_induct_rule [of size])
  case (less p)
  note eq = less.prems(1) [unfolded patch_eq_iff]
  note wf = less.prems(2) [unfolded patch_wf_iff] less.prems(3) [unfolded patch_wf_iff]
  have upd: "jupdate u x = jupdate w x"
    if mem: "(k, u) \<in> set (p_update p)" "(k, w) \<in> set (p_update q)" "update_eq u w" for k u w x
  proof (cases u)
    case (UObject a)
    then obtain b where b: "w = UObject b" "patch_eq a b" using mem(3) by (cases w) auto
    have "size a < size p" using mem(1) UObject by (auto intro: size_nested)
    moreover have "patch_wf a" "patch_wf b" using wf mem(1,2) UObject b(1) by fastforce+
    ultimately show ?thesis using less.IH b UObject by simp
  next
    case (UValue v)
    then obtain v' where v': "w = UValue v'" "value_eq v v'" using mem(3) by (cases w) auto
    have "value_wf v" "value_wf v'" using wf mem(1,2) UValue v'(1) by fastforce+
    then show ?thesis using UValue v' value_eq_to_json by simp
  qed
  have "jstep p k old = jstep q k old" for k old
  proof -
    have c: "map_option to_json (bt_get (p_create p) k) = map_option to_json (bt_get (p_create q) k)"
    proof (cases "bt_get (p_create p) k")
      case None
      then show ?thesis using list_all2_get [of value_eq "p_create p" "p_create q" k] eq by simp
    next
      case (Some v)
      then obtain v' where v': "bt_get (p_create q) k = Some v'" "value_eq v v'"
        "(k, v) \<in> set (p_create p)" "(k, v') \<in> set (p_create q)"
        using list_all2_get [of value_eq "p_create p" "p_create q" k] eq by auto
      have "value_wf v" "value_wf v'" using wf v'(3,4) by fastforce+
      then show ?thesis using Some v' value_eq_to_json by simp
    qed
    have u: "map_option jupdate (bt_get (p_update p) k) = map_option jupdate (bt_get (p_update q) k)"
    proof (cases "bt_get (p_update p) k")
      case None
      then show ?thesis using list_all2_get [of update_eq "p_update p" "p_update q" k] eq by simp
    next
      case (Some v)
      then obtain v' where v': "bt_get (p_update q) k = Some v'" "update_eq v v'"
        "(k, v) \<in> set (p_update p)" "(k, v') \<in> set (p_update q)"
        using list_all2_get [of update_eq "p_update p" "p_update q" k] eq by auto
      then show ?thesis using Some upd [OF v'(3,4,2)] by (simp add: fun_eq_iff)
    qed
    show ?thesis using c u eq unfolding jstep_def
      by (cases "bt_get (p_create p) k"; cases "bt_get (p_create q) k";
          cases "bt_get (p_update p) k"; cases "bt_get (p_update q) k") (simp_all split: option.split)
  qed
  then show ?case using patch_eq_keys [OF less.prems(1)]
    by (cases j) (simp_all add: japply_object_eq japply_non_object)
qed

section \<open>Properties\<close>

text \<open>
  C33: A valid patch survives its wire form: what it serializes to parses back to a valid patch
  equal to it, nested patches and omitted empty parts included. And whatever JSON the parser
  accepts is a valid patch, so an unvalidated one never enters through the wire.
\<close>

theorem patch_json_roundtrip:
  assumes "valid p" "patch_wf p" "patch_of_json j = Inr q"
  shows "(\<exists>p'. patch_of_json (patch_to_json p) = Inr p' \<and> patch_eq p' p \<and> valid p' \<and> patch_wf p')
    \<and> valid q"
proof -
  have "valid q" using assms(3)
    by (auto simp: patch_of_json_def patch_of_fields.simps rbind_Inr_iff split: json.splits)
  then show ?thesis using patch_trip [OF assms(1,2)] by (simp add: patch_of_json_def patch_to_json_def)
qed

theorem patch_json_roundtrip_witness:
  "patch_to_json (Patch [] [(''a'', UValue (VAtom (JInt 2)))] [''b''])
     = JObject [(''Delete'', JArray [JString ''b'']), (''Update'', JObject [(''a'', JInt 2)])]
   \<and> (\<exists>p'. patch_of_json (patch_to_json (Patch [] [(''a'', UValue (VAtom (JInt 2)))] [''b''])) = Inr p')"
proof -
  let ?p = "Patch [] [(''a'', UValue (VAtom (JInt 2)))] [''b'']"
  have "valid ?p" "patch_wf ?p" "patch_of_json (JObject []) = Inr patch_default" by code_simp+
  moreover have "patch_to_json ?p =
      JObject [(''Delete'', JArray [JString ''b'']), (''Update'', JObject [(''a'', JInt 2)])]" by code_simp
  ultimately show ?thesis using patch_json_roundtrip by blast
qed

end
