(* ===== verification/CavlcStore.thy ===== *)
theory CavlcStore
  imports CavlcPatch
begin

text \<open>
  \<open>crates/cavlc/src/mvcc.rs\<close>: snapshots, private batches and the single-writer store with its
  in-memory history. \<open>Arc::new(())\<close>, the identity of a store, is a number its creator picks.
  Every operation returns the new store; an error leaves the old one in place.
\<close>

section \<open>State\<close>

record snapshot =
  snap_version :: version
  snap_root :: cavlc_value

record commit =
  commit_version :: version
  commit_patches :: "patch list"

record batch =
  batch_owner :: nat
  batch_base :: snapshot
  batch_working :: cavlc_value
  batch_patches :: "patch list"

record store =
  store_owner :: nat
  store_base :: version
  store_snapshots :: "snapshot list"
  store_log :: "commit list"

record apply_result =
  res_snapshot :: snapshot
  res_record :: "commit option"

definition snapshot_new :: "version \<Rightarrow> cavlc_value \<Rightarrow> cavlc_error + snapshot" where
  "snapshot_new version v =
     (if as_object v = None then Inl RootMustBeObject
      else Inr \<lparr>snap_version = version, snap_root = v\<rparr>)"

section \<open>Batches\<close>

definition batch_apply :: "batch \<Rightarrow> patch \<Rightarrow> cavlc_error + batch" where
  "batch_apply b p =
     rbind (patch_apply p (batch_working b)) (\<lambda>(next_value, fresh).
       if fresh
       then Inr (b\<lparr>batch_patches := batch_patches b @ [p], batch_working := next_value\<rparr>)
       else Inr b)"

section \<open>The store\<close>

definition from_value :: "nat \<Rightarrow> cavlc_value \<Rightarrow> cavlc_error + store" where
  "from_value owner v =
     (if as_object v = None then Inl RootMustBeObject
      else Inr \<lparr>store_owner = owner, store_base = 0,
        store_snapshots = [\<lparr>snap_version = 0, snap_root = v\<rparr>], store_log = []\<rparr>)"

definition store_new :: "nat \<Rightarrow> store" where
  "store_new owner = \<lparr>store_owner = owner, store_base = 0,
     store_snapshots = [\<lparr>snap_version = 0, snap_root = value_default\<rparr>], store_log = []\<rparr>"

definition store_snapshot :: "store \<Rightarrow> snapshot" where
  "store_snapshot s = last (store_snapshots s)"

definition snapshot_at :: "store \<Rightarrow> version \<Rightarrow> snapshot option" where
  "snapshot_at s version =
     (case u64_checked_sub version (store_base s) of
        None \<Rightarrow> None
      | Some index \<Rightarrow>
          if index < length (store_snapshots s) then Some (store_snapshots s ! index) else None)"

definition patches_between :: "store \<Rightarrow> version \<Rightarrow> version \<Rightarrow> commit list option" where
  "patches_between s after through =
     (if after > through \<or> after < store_base s then None
      else case u64_checked_sub through (store_base s) of
          None \<Rightarrow> None
        | Some end_ix \<Rightarrow>
            let start = after - store_base s
            in if start \<le> end_ix \<and> end_ix \<le> length (store_log s)
               then Some (take (end_ix - start) (drop start (store_log s))) else None)"

definition store_truncate :: "store \<Rightarrow> version \<Rightarrow> store" where
  "store_truncate s version =
     (case u64_checked_sub version (store_base s) of
        None \<Rightarrow> s
      | Some keep \<Rightarrow>
          if keep + 1 \<ge> length (store_snapshots s) then s
          else s\<lparr>store_snapshots := take (keep + 1) (store_snapshots s),
                 store_log := take keep (store_log s)\<rparr>)"

definition store_resume :: "nat \<Rightarrow> snapshot \<Rightarrow> store" where
  "store_resume owner snap = \<lparr>store_owner = owner, store_base = snap_version snap,
     store_snapshots = [snap], store_log = []\<rparr>"

definition begin_batch :: "store \<Rightarrow> batch" where
  "begin_batch s =
     (let base = store_snapshot s
      in \<lparr>batch_owner = store_owner s, batch_base = base, batch_working = snap_root base,
          batch_patches = []\<rparr>)"

definition apply_batch :: "store \<Rightarrow> batch \<Rightarrow> cavlc_error + (store \<times> apply_result)" where
  "apply_batch s b =
     (if store_owner s \<noteq> batch_owner b then Inl ForeignBatch
      else
        let current = store_snapshot s
        in if snap_version current \<noteq> snap_version (batch_base b)
           then Inl (Conflict (snap_version (batch_base b)) (snap_version current))
           else if batch_patches b = [] then Inr (s, \<lparr>res_snapshot = current, res_record = None\<rparr>)
           else
             rbind (ok_or (u64_checked_add (snap_version current) 1) VersionOverflow) (\<lambda>version.
               let record = \<lparr>commit_version = version, commit_patches = batch_patches b\<rparr>;
                   snap = \<lparr>snap_version = version, snap_root = batch_working b\<rparr>
               in Inr (s\<lparr>store_log := store_log s @ [record],
                         store_snapshots := store_snapshots s @ [snap]\<rparr>,
                       \<lparr>res_snapshot = snap, res_record = Some record\<rparr>)))"

definition store_apply :: "store \<Rightarrow> patch \<Rightarrow> cavlc_error + (store \<times> apply_result)" where
  "store_apply s p = rbind (batch_apply (begin_batch s) p) (apply_batch s)"

fun replay_patches :: "batch \<Rightarrow> patch list \<Rightarrow> cavlc_error + batch" where
  "replay_patches b [] = Inr b"
| "replay_patches b (p # ps) =
     rbind (batch_apply b p) (\<lambda>b'.
       if length (batch_patches b') = length (batch_patches b)
       then Inl (InvalidPatch IdentityPatch)
       else replay_patches b' ps)"

fun replay_records :: "store \<Rightarrow> commit list \<Rightarrow> cavlc_error + store" where
  "replay_records s [] = Inr s"
| "replay_records s (record # records) =
     rbind (ok_or (u64_checked_add (snap_version (store_snapshot s)) 1) VersionOverflow) (\<lambda>expected.
       if commit_version record \<noteq> expected
       then Inl (InvalidVersion expected (commit_version record))
       else if commit_patches record = [] then Inl (InvalidPatch EmptyBatch)
       else rbind (replay_patches (begin_batch s) (commit_patches record)) (\<lambda>b.
            rbind (apply_batch s b) (\<lambda>(s', _). replay_records s' records)))"

definition replay :: "nat \<Rightarrow> cavlc_value \<Rightarrow> commit list \<Rightarrow> cavlc_error + store" where
  "replay owner initial records =
     rbind (from_value owner initial) (\<lambda>s. replay_records s records)"

section \<open>Invariants\<close>

text \<open>
  Applying a list of patches in order, each of which must change the value: what a commit
  record says happened between two snapshots.
\<close>

fun run_patches :: "cavlc_value \<Rightarrow> patch list \<Rightarrow> cavlc_value option" where
  "run_patches v [] = Some v"
| "run_patches v (p # ps) =
     (case patch_apply p v of Inr (v', True) \<Rightarrow> run_patches v' ps | _ \<Rightarrow> None)"

text \<open>Every batch reaches its working value from its base by the patches it holds.\<close>

definition batch_wf :: "batch \<Rightarrow> bool" where
  "batch_wf b \<longleftrightarrow> run_patches (snap_root (batch_base b)) (batch_patches b) = Some (batch_working b)"

definition step_ok :: "snapshot \<Rightarrow> commit \<Rightarrow> snapshot \<Rightarrow> bool" where
  "step_ok x c y \<longleftrightarrow>
     snap_version y = snap_version x + 1 \<and> snap_version y \<le> u64_max \<and>
     commit_version c = snap_version y \<and> commit_patches c \<noteq> [] \<and>
     run_patches (snap_root x) (commit_patches c) = Some (snap_root y)"

fun history_ok :: "snapshot list \<Rightarrow> commit list \<Rightarrow> bool" where
  "history_ok [x] [] = True"
| "history_ok (x # y # xs) (c # cs) \<longleftrightarrow> step_ok x c y \<and> history_ok (y # xs) cs"
| "history_ok _ _ = False"

text \<open>
  The snapshots are consecutive versions from the base, and each record takes one snapshot to
  the next.
\<close>

definition store_wf :: "store \<Rightarrow> bool" where
  "store_wf s \<longleftrightarrow> history_ok (store_snapshots s) (store_log s) \<and>
     snap_version (hd (store_snapshots s)) = store_base s \<and>
     store_base s \<le> u64_max \<and>
     as_object (snap_root (hd (store_snapshots s))) \<noteq> None"

subsection \<open>Histories\<close>

lemma history_length: "history_ok xs cs \<Longrightarrow> length xs = Suc (length cs)"
  by (induction xs cs rule: history_ok.induct) auto

lemma history_nonempty [simp]: "history_ok xs cs \<Longrightarrow> xs \<noteq> []"
  by (auto dest: history_length)

lemma history_snoc:
  "history_ok xs cs \<Longrightarrow> history_ok (xs @ [y]) (cs @ [c]) \<longleftrightarrow> step_ok (last xs) c y"
  by (induction xs cs rule: history_ok.induct) auto

lemma history_nth:
  "history_ok xs cs \<Longrightarrow> i < length cs \<Longrightarrow> step_ok (xs ! i) (cs ! i) (xs ! Suc i)"
proof (induction xs cs arbitrary: i rule: history_ok.induct)
  case (2 x y xs c cs)
  then show ?case by (cases i) auto
qed auto

lemma history_version:
  "history_ok xs cs \<Longrightarrow> i < length xs \<Longrightarrow> snap_version (xs ! i) = snap_version (hd xs) + i"
proof (induction xs cs arbitrary: i rule: history_ok.induct)
  case (2 x y xs c cs)
  then show ?case by (cases i) (auto simp: step_ok_def)
qed auto

lemma history_take:
  "history_ok xs cs \<Longrightarrow> n \<le> length cs \<Longrightarrow> history_ok (take (Suc n) xs) (take n cs)"
proof (induction xs cs arbitrary: n rule: history_ok.induct)
  case (2 x y xs c cs)
  then show ?case by (cases n) auto
qed auto

lemma history_last_version:
  "history_ok xs cs \<Longrightarrow> snap_version (last xs) = snap_version (hd xs) + length cs"
  using history_version [of xs cs "length cs"] by (simp add: history_length last_conv_nth)

lemma run_patches_append:
  "run_patches v (ps @ qs) = Option.bind (run_patches v ps) (\<lambda>v'. run_patches v' qs)"
  by (induction v ps rule: run_patches.induct) (auto split: sum.splits prod.splits bool.splits)

subsection \<open>Every operation keeps the invariants\<close>

lemma batch_apply_wf [inv_intros]:
  "batch_wf b \<Longrightarrow> batch_apply b p = Inr b' \<Longrightarrow> batch_wf b' \<and> batch_base b' = batch_base b \<and>
   batch_owner b' = batch_owner b"
  by (auto simp: batch_apply_def batch_wf_def rbind_Inr_iff run_patches_append split: if_splits)

lemma begin_batch_wf [inv_intros]: "batch_wf (begin_batch s)"
  by (simp add: begin_batch_def batch_wf_def Let_def)

lemma begin_batch_base [simp]:
  "batch_base (begin_batch s) = store_snapshot s" "batch_owner (begin_batch s) = store_owner s"
  "batch_patches (begin_batch s) = []" "batch_working (begin_batch s) = snap_root (store_snapshot s)"
  by (simp_all add: begin_batch_def Let_def)

lemma apply_batch_cases:
  "apply_batch s b = Inr (s', r) \<Longrightarrow>
   (batch_patches b = [] \<and> s' = s \<and> r = \<lparr>res_snapshot = store_snapshot s, res_record = None\<rparr>) \<or>
   (batch_patches b \<noteq> [] \<and> snap_version (store_snapshot s) < u64_max \<and>
    (let record = \<lparr>commit_version = snap_version (store_snapshot s) + 1, commit_patches = batch_patches b\<rparr>;
         snap = \<lparr>snap_version = snap_version (store_snapshot s) + 1, snap_root = batch_working b\<rparr>
     in s' = s\<lparr>store_log := store_log s @ [record], store_snapshots := store_snapshots s @ [snap]\<rparr> \<and>
        r = \<lparr>res_snapshot = snap, res_record = Some record\<rparr>))"
  by (auto simp: apply_batch_def Let_def rbind_Inr_iff u64_checked_add_Some_iff split: if_splits)

lemma apply_batch_wf [inv_intros]:
  assumes "store_wf s" "batch_wf b" "batch_base b = store_snapshot s" "apply_batch s b = Inr (s', r)"
  shows "store_wf s'"
  using apply_batch_cases [OF assms(4)]
proof (elim disjE conjE)
  assume s': "let record = \<lparr>commit_version = snap_version (store_snapshot s) + 1, commit_patches = batch_patches b\<rparr>;
         snap = \<lparr>snap_version = snap_version (store_snapshot s) + 1, snap_root = batch_working b\<rparr>
     in s' = s\<lparr>store_log := store_log s @ [record], store_snapshots := store_snapshots s @ [snap]\<rparr> \<and>
        r = \<lparr>res_snapshot = snap, res_record = Some record\<rparr>"
    and "batch_patches b \<noteq> []" "snap_version (store_snapshot s) < u64_max"
  have hist: "history_ok (store_snapshots s) (store_log s)" using assms(1) by (simp add: store_wf_def)
  show ?thesis
    using s' assms hist \<open>batch_patches b \<noteq> []\<close> \<open>snap_version (store_snapshot s) < u64_max\<close>
    by (simp add: store_wf_def history_snoc Let_def step_ok_def store_snapshot_def batch_wf_def)
qed (use assms in simp)

lemma store_apply_wf [inv_intros]:
  assumes "store_wf s" "store_apply s p = Inr (s', r)" shows "store_wf s'"
proof -
  obtain b where b: "batch_apply (begin_batch s) p = Inr b" "apply_batch s b = Inr (s', r)"
    using assms(2) by (auto simp: store_apply_def rbind_Inr_iff)
  then show ?thesis
    using batch_apply_wf [OF begin_batch_wf b(1)] apply_batch_wf [OF assms(1) _ _ b(2)] by simp
qed

lemma from_value_wf [inv_intros]: "from_value owner v = Inr s \<Longrightarrow> store_wf s"
  by (auto simp: from_value_def store_wf_def split: if_splits)

lemma store_new_wf [inv_intros]: "store_wf (store_new owner)"
  by (simp add: store_new_def store_wf_def value_default_def)

lemma store_resume_wf [inv_intros]:
  "snap_version x \<le> u64_max \<Longrightarrow> as_object (snap_root x) \<noteq> None \<Longrightarrow> store_wf (store_resume owner x)"
  by (simp add: store_resume_def store_wf_def)

lemma store_truncate_wf [inv_intros]:
  assumes "store_wf s" shows "store_wf (store_truncate s version)"
proof -
  have hist: "history_ok (store_snapshots s) (store_log s)" using assms by (simp add: store_wf_def)
  then have "history_ok (take (keep + 1) (store_snapshots s)) (take keep (store_log s))"
    if "keep + 1 < length (store_snapshots s)" for keep
    using that history_take history_length [OF hist] by simp
  then show ?thesis using assms hist
    by (auto simp: store_truncate_def store_wf_def split: option.splits)
qed

subsection \<open>Replay\<close>

lemma replay_patches_run:
  "run_patches (batch_working b) ps = Some w \<Longrightarrow>
   replay_patches b ps = Inr (b\<lparr>batch_patches := batch_patches b @ ps, batch_working := w\<rparr>)"
proof (induction ps arbitrary: b)
  case (Cons p ps)
  then obtain v' where v': "patch_apply p (batch_working b) = Inr (v', True)" "run_patches v' ps = Some w"
    by (auto split: sum.splits prod.splits bool.splits)
  let ?b = "b\<lparr>batch_patches := batch_patches b @ [p], batch_working := v'\<rparr>"
  have "replay_patches ?b ps = Inr (?b\<lparr>batch_patches := batch_patches ?b @ ps, batch_working := w\<rparr>)"
    using v'(2) by (intro Cons.IH) simp
  then show ?case using v'(1) by (simp add: batch_apply_def)
qed simp

lemma replay_records_history:
  "history_ok (store_snapshot s # xs) cs \<Longrightarrow> store_snapshots s \<noteq> [] \<Longrightarrow>
   replay_records s cs = Inr (s\<lparr>store_log := store_log s @ cs, store_snapshots := store_snapshots s @ xs\<rparr>)"
proof (induction cs arbitrary: s xs)
  case Nil
  then have "xs = []" by (cases xs) auto
  then show ?case by simp
next
  case (Cons c cs)
  obtain y ys where xs: "xs = y # ys" using Cons.prems by (cases xs) auto
  let ?x = "store_snapshot s"
  have step: "step_ok ?x c y" and rest: "history_ok (y # ys) cs" using Cons.prems xs by simp_all
  let ?b = "(begin_batch s)\<lparr>batch_patches := commit_patches c, batch_working := snap_root y\<rparr>"
  let ?s = "s\<lparr>store_log := store_log s @ [c], store_snapshots := store_snapshots s @ [y]\<rparr>"
  have "replay_patches (begin_batch s) (commit_patches c) = Inr ?b"
    using replay_patches_run [of "begin_batch s" "commit_patches c" "snap_root y"] step
    by (simp add: step_ok_def)
  moreover have "u64_checked_add (snap_version ?x) 1 = Some (snap_version y)"
    using step by (simp add: step_ok_def u64_checked_add_Some_iff)
  moreover have "apply_batch s ?b = Inr (?s, \<lparr>res_snapshot = y, res_record = Some c\<rparr>)"
    using step by (auto simp: apply_batch_def step_ok_def u64_checked_add_def Let_def)
  moreover have "replay_records ?s cs = Inr (?s\<lparr>store_log := store_log ?s @ cs, store_snapshots := store_snapshots ?s @ ys\<rparr>)"
    using rest by (intro Cons.IH) (simp_all add: store_snapshot_def)
  ultimately show ?case using step by (simp add: step_ok_def xs)
qed

section \<open>Writers sharing a store\<close>

text \<open>
  The store and the batches its clients hold. A batch is consumed by its publication whether
  it succeeds or not; \<open>Drop\<close> is a client dropping one. Truncation may happen between any two
  steps, but here only when no held batch is based on a version it discards; what happens
  otherwise is the last theorem below.
\<close>

inductive mvcc_step :: "store \<times> batch list \<Rightarrow> store \<times> batch list \<Rightarrow> bool" where
  Begin: "mvcc_step (s, bs) (s, begin_batch s # bs)"
| Edit: "batch_apply b p = Inr b' \<Longrightarrow> mvcc_step (s, bs1 @ b # bs2) (s, bs1 @ b' # bs2)"
| Publish: "apply_batch s b = Inr (s', r) \<Longrightarrow> mvcc_step (s, bs1 @ b # bs2) (s', bs1 @ bs2)"
| Reject: "apply_batch s b = Inl e \<Longrightarrow> mvcc_step (s, bs1 @ b # bs2) (s, bs1 @ bs2)"
| Drop: "mvcc_step (s, bs1 @ b # bs2) (s, bs1 @ bs2)"
| Truncate: "\<forall>b \<in> set bs. snap_version (batch_base b) \<le> v \<Longrightarrow>
    mvcc_step (s, bs) (store_truncate s v, bs)"

inductive_cases mvcc_stepE: "mvcc_step st st'"

definition mvcc_reachable :: "store \<Rightarrow> store \<times> batch list \<Rightarrow> bool" where
  "mvcc_reachable s st \<longleftrightarrow> mvcc_step\<^sup>*\<^sup>* (s, []) st"

definition mvcc_inv :: "store \<times> batch list \<Rightarrow> bool" where
  "mvcc_inv st \<longleftrightarrow> store_wf (fst st) \<and>
     (\<forall>b \<in> set (snd st). batch_wf b \<and> batch_base b \<in> set (store_snapshots (fst st)))"

lemma snapshot_in_history:
  assumes "store_wf s" "x \<in> set (store_snapshots s)"
  obtains i where "i < length (store_snapshots s)" "x = store_snapshots s ! i"
    "snap_version x = store_base s + i"
proof -
  obtain i where "i < length (store_snapshots s)" "x = store_snapshots s ! i"
    using assms(2) by (auto simp: in_set_conv_nth)
  moreover have "snap_version (store_snapshots s ! i) = store_base s + i"
    using assms(1) calculation(1) history_version [of "store_snapshots s" "store_log s" i]
    by (simp add: store_wf_def)
  ultimately show ?thesis using that by blast
qed

lemma store_snapshot_version:
  assumes "store_wf s"
  shows "snap_version (store_snapshot s) = store_base s + length (store_log s)"
  using assms history_last_version [of "store_snapshots s" "store_log s"]
  by (simp add: store_wf_def store_snapshot_def)

lemma current_by_version:
  assumes "store_wf s" "x \<in> set (store_snapshots s)" "snap_version x = snap_version (store_snapshot s)"
  shows "x = store_snapshot s"
proof -
  obtain i where i: "i < length (store_snapshots s)" "x = store_snapshots s ! i"
    "snap_version x = store_base s + i" using snapshot_in_history assms(1,2) .
  have len: "length (store_snapshots s) = Suc (length (store_log s))"
    using assms(1) by (simp add: store_wf_def history_length)
  then have "i = length (store_log s)"
    using i(3) assms(3) store_snapshot_version [OF assms(1)] by simp
  moreover have "store_snapshots s \<noteq> []" using len by auto
  ultimately show ?thesis using i(2) len by (simp add: store_snapshot_def last_conv_nth)
qed

lemma store_snapshot_in: "store_wf s \<Longrightarrow> store_snapshot s \<in> set (store_snapshots s)"
  by (auto simp: store_snapshot_def store_wf_def)

lemma apply_batch_grows:
  "apply_batch s b = Inr (s', r) \<Longrightarrow> set (store_snapshots s) \<subseteq> set (store_snapshots s')"
  by (drule apply_batch_cases) (auto simp: Let_def)

lemma truncate_keeps:
  assumes "store_wf s" "x \<in> set (store_snapshots s)" "snap_version x \<le> v"
  shows "x \<in> set (store_snapshots (store_truncate s v))"
proof -
  obtain i where i: "i < length (store_snapshots s)" "x = store_snapshots s ! i"
    "snap_version x = store_base s + i" using snapshot_in_history assms(1,2) .
  then have "x = take (v - store_base s + 1) (store_snapshots s) ! i"
    "i < length (take (v - store_base s + 1) (store_snapshots s))" using assms(3) by auto
  then show ?thesis using assms(2)
    by (auto simp: store_truncate_def u64_checked_sub_def in_set_conv_nth split: option.splits)
qed

lemma mvcc_step_inv: "mvcc_step st st' \<Longrightarrow> mvcc_inv st \<Longrightarrow> mvcc_inv st'"
proof (induction rule: mvcc_step.induct)
  case (Begin s bs)
  then show ?case by (auto simp: mvcc_inv_def begin_batch_wf store_snapshot_in)
next
  case (Edit b p b' s bs1 bs2)
  then show ?case using batch_apply_wf [OF _ Edit(1)] by (auto simp: mvcc_inv_def)
next
  case (Publish s b s' r bs1 bs2)
  then have wf: "store_wf s" "batch_wf b" "batch_base b \<in> set (store_snapshots s)"
    by (simp_all add: mvcc_inv_def)
  have "snap_version (batch_base b) = snap_version (store_snapshot s)"
    using Publish(1) by (auto simp: apply_batch_def Let_def split: if_splits)
  then have "batch_base b = store_snapshot s" using current_by_version wf(1,3) by blast
  then show ?case using Publish wf apply_batch_wf apply_batch_grows [OF Publish(1)]
    by (fastforce simp: mvcc_inv_def)
next
  case (Truncate bs v s)
  then show ?case using truncate_keeps by (auto simp: mvcc_inv_def store_truncate_wf)
qed (auto simp: mvcc_inv_def)

lemma mvcc_reachable_inv:
  assumes "store_wf s" "mvcc_reachable s st" shows "mvcc_inv st"
  using assms(2) unfolding mvcc_reachable_def
proof (induction rule: rtranclp_induct)
  case base
  then show ?case using assms(1) by (simp add: mvcc_inv_def)
next
  case (step y z)
  then show ?case using mvcc_step_inv by blast
qed

section \<open>Reading history\<close>

fun run_commits :: "cavlc_value \<Rightarrow> commit list \<Rightarrow> cavlc_value option" where
  "run_commits v [] = Some v"
| "run_commits v (c # cs) = Option.bind (run_patches v (commit_patches c)) (\<lambda>v'. run_commits v' cs)"

lemma history_drop: "history_ok xs cs \<Longrightarrow> n \<le> length cs \<Longrightarrow> history_ok (drop n xs) (drop n cs)"
proof (induction xs cs arbitrary: n rule: history_ok.induct)
  case (2 x y xs c cs)
  then show ?case by (cases n) auto
qed auto

lemma run_commits_history: "history_ok xs cs \<Longrightarrow> run_commits (snap_root (hd xs)) cs = Some (snap_root (last xs))"
  by (induction xs cs rule: history_ok.induct) (auto simp: step_ok_def)

lemma history_commit_versions:
  "history_ok xs cs \<Longrightarrow> map commit_version cs = map (\<lambda>i. snap_version (hd xs) + Suc i) [0..<length cs]"
proof (rule nth_equalityI)
  fix i assume h: "history_ok xs cs" and "i < length (map commit_version cs)"
  then have i: "i < length cs" "Suc i < length xs" by (simp_all add: history_length)
  then show "map commit_version cs ! i = map (\<lambda>i. snap_version (hd xs) + Suc i) [0..<length cs] ! i"
    using history_nth [OF h i(1)] history_version [OF h i(2)] by (simp add: step_ok_def)
qed simp

lemma range_history:
  assumes "store_wf s" "store_base s \<le> a" "a \<le> b" "b \<le> snap_version (store_snapshot s)"
  shows "history_ok (take (Suc (b - a)) (drop (a - store_base s) (store_snapshots s)))
           (take (b - a) (drop (a - store_base s) (store_log s)))"
    and "a - store_base s \<le> length (store_log s)" "b - store_base s \<le> length (store_log s)"
proof -
  have hist: "history_ok (store_snapshots s) (store_log s)" using assms(1) by (simp add: store_wf_def)
  show le: "a - store_base s \<le> length (store_log s)" "b - store_base s \<le> length (store_log s)"
    using assms store_snapshot_version [OF assms(1)] by simp_all
  show "history_ok (take (Suc (b - a)) (drop (a - store_base s) (store_snapshots s)))
           (take (b - a) (drop (a - store_base s) (store_log s)))"
    by (intro history_take history_drop hist) (use le assms in simp_all)
qed

lemma replay_records_wf:
  "replay_records s cs = Inr s' \<Longrightarrow> store_wf s \<Longrightarrow>
   store_wf s' \<and> store_log s' = store_log s @ cs \<and>
   run_commits (snap_root (store_snapshot s)) cs = Some (snap_root (store_snapshot s'))"
proof (induction cs arbitrary: s)
  case (Cons c cs)
  obtain b s1 r where step: "commit_version c = snap_version (store_snapshot s) + 1"
    "commit_patches c \<noteq> []" "replay_patches (begin_batch s) (commit_patches c) = Inr b"
    "apply_batch s b = Inr (s1, r)" "replay_records s1 cs = Inr s'"
    using Cons.prems(1) by (auto simp: rbind_Inr_iff u64_checked_add_Some_iff split: if_splits)
  have patches: "batch_patches b = batch_patches b0 @ ps \<and> batch_base b = batch_base b0 \<and>
      run_patches (batch_working b0) ps = Some (batch_working b)"
    if "replay_patches b0 ps = Inr b" for b0 ps
    using that
  proof (induction ps arbitrary: b0)
    case (Cons p ps)
    then obtain b1 where b1: "batch_apply b0 p = Inr b1"
      "length (batch_patches b1) \<noteq> length (batch_patches b0)" "replay_patches b1 ps = Inr b"
      by (auto simp: rbind_Inr_iff split: if_splits)
    then have "patch_apply p (batch_working b0) = Inr (batch_working b1, True)"
      "batch_patches b1 = batch_patches b0 @ [p]" "batch_base b1 = batch_base b0"
      by (auto simp: batch_apply_def rbind_Inr_iff split: if_splits)
    then show ?case using Cons.IH [OF b1(3)] by simp
  qed simp
  note b = patches [OF step(3), simplified]
  have "batch_wf b" using b by (simp add: batch_wf_def)
  then have wf1: "store_wf s1" using apply_batch_wf [OF Cons.prems(2) _ _ step(4)] b by simp
  have s1: "store_log s1 = store_log s @ [c]" "snap_root (store_snapshot s1) = batch_working b"
    using apply_batch_cases [OF step(4)] step(1,2) b
    by (auto simp: Let_def store_snapshot_def intro: commit.equality)
  show ?case using Cons.IH [OF step(5) wf1] s1 b by simp
qed simp

section \<open>Properties\<close>


text \<open>A writer that begins, sets a field and publishes.\<close>

definition wit_insert :: patch where
  "wit_insert = Patch [(''a'', VAtom JNull)] [] []"

lemma wit_edit:
  "batch_apply (begin_batch (store_new 7)) wit_insert =
     Inr ((begin_batch (store_new 7))\<lparr>batch_patches := [wit_insert], batch_working := VObject (avl_insert Tip ''a'' (VAtom JNull))\<rparr>)"
  by (simp add: batch_apply_def begin_batch_def store_new_def store_snapshot_def wit_insert_def patch_apply_def op_keys_def
      bt_keys_def value_default_def avl_is_empty_def node_def Let_def)


text \<open>
  First writer wins. Once a batch based on the current snapshot has published a record, any
  other batch based on that snapshot is refused with \<open>Conflict\<close>, naming both versions, and the
  store it was offered to is unchanged; a batch of another store is refused as \<open>ForeignBatch\<close>;
  a batch that changed nothing publishes no record and leaves the store as it was.
\<close>

theorem first_writer_wins:
  assumes "apply_batch s b1 = Inr (s', r)" "batch_base b2 = batch_base b1"
    "batch_owner b2 = batch_owner b1"
  shows "(batch_patches b1 = [] \<longrightarrow> s' = s \<and> res_record r = None)
    \<and> (batch_patches b1 \<noteq> [] \<longrightarrow>
         snap_version (store_snapshot s') = snap_version (store_snapshot s) + 1 \<and>
         res_snapshot r = store_snapshot s' \<and> snap_root (store_snapshot s') = batch_working b1 \<and>
         apply_batch s' b2 =
           Inl (Conflict (snap_version (store_snapshot s)) (snap_version (store_snapshot s) + 1)))
    \<and> apply_batch (s\<lparr>store_owner := Suc (store_owner s)\<rparr>) b2 = Inl ForeignBatch"
proof -
  have same: "store_owner s = batch_owner b1" "snap_version (batch_base b1) = snap_version (store_snapshot s)"
    using assms(1) by (auto simp: apply_batch_def Let_def split: if_splits)
  show ?thesis using apply_batch_cases [OF assms(1)] same assms(2,3)
    by (auto simp: Let_def store_snapshot_def apply_batch_def)
qed

theorem first_writer_wins_witness:
  "apply_batch (store_new 7) (begin_batch (store_new 7))
     = Inr (store_new 7, \<lparr>res_snapshot = store_snapshot (store_new 7), res_record = None\<rparr>)"
proof -
  let ?s = "store_new 7"
  have run: "apply_batch ?s (begin_batch ?s) = Inr (?s, \<lparr>res_snapshot = store_snapshot ?s, res_record = None\<rparr>)"
    by (simp add: apply_batch_def Let_def)
  from first_writer_wins [OF this refl refl] show ?thesis using run by simp
qed

text \<open>
  Reading history. Between any two retained versions \<open>patches_between\<close> is the list of
  exactly the records of the half-open range, in version order, and applying them to the
  snapshot at its start gives the snapshot at its end.
\<close>

theorem patches_between_exact:
  assumes "store_wf s" "store_base s \<le> a" "a \<le> b" "b \<le> snap_version (store_snapshot s)"
  shows "\<exists>x y cs. snapshot_at s a = Some x \<and> snapshot_at s b = Some y \<and>
     snap_version x = a \<and> snap_version y = b \<and>
     patches_between s a b = Some cs \<and> map commit_version cs = [Suc a..<Suc b] \<and>
     run_commits (snap_root x) cs = Some (snap_root y)"
proof -
  let ?i = "a - store_base s" and ?j = "b - store_base s"
  let ?xs = "take (Suc (b - a)) (drop ?i (store_snapshots s))"
  let ?cs = "take (b - a) (drop ?i (store_log s))"
  have hist: "history_ok (store_snapshots s) (store_log s)" using assms(1) by (simp add: store_wf_def)
  note range = range_history [OF assms]
  have len: "length (store_snapshots s) = Suc (length (store_log s))" using hist by (rule history_length)
  have hd: "hd ?xs = store_snapshots s ! ?i" using range(2) len by (simp add: hd_drop_conv_nth)
  have cs_len: "length ?cs = b - a" using range(2,3) assms(2,3) by simp
  have ij: "?i + (b - a) = ?j" using assms(2,3) by simp
  have "last ?xs = ?xs ! (b - a)" using history_length [OF range(1)] cs_len
    by (subst last_conv_nth) auto
  then have last: "last ?xs = store_snapshots s ! ?j" using range(3) len ij by simp
  have versions: "snap_version (store_snapshots s ! ?i) = a" "snap_version (store_snapshots s ! ?j) = b"
    using history_version [OF hist, of ?i] history_version [OF hist, of ?j] range(2,3) len assms(1-3)
    by (simp_all add: store_wf_def)
  have "map commit_version ?cs = [Suc a..<Suc b]"
    unfolding history_commit_versions [OF range(1)] cs_len hd versions
    by (rule nth_equalityI) (use assms(3) in \<open>simp_all del: upt_Suc\<close>)
  moreover have "run_commits (snap_root (store_snapshots s ! ?i)) ?cs = Some (snap_root (store_snapshots s ! ?j))"
    using run_commits_history [OF range(1)] hd last by simp
  moreover have "patches_between s a b = Some ?cs"
    using assms range(2,3) by (simp add: patches_between_def u64_checked_sub_def Let_def)
  moreover have "snapshot_at s a = Some (store_snapshots s ! ?i)" "snapshot_at s b = Some (store_snapshots s ! ?j)"
    using assms range(2,3) len by (simp_all add: snapshot_at_def u64_checked_sub_def)
  ultimately show ?thesis using versions by blast
qed

theorem patches_between_exact_witness:
  "\<exists>x v cs. snapshot_at (store_new 7) 0 = Some x \<and> patches_between (store_new 7) 0 0 = Some cs \<and>
     run_commits (snap_root x) cs = Some v"
proof -
  have "store_base (store_new 7) \<le> 0" by (simp add: store_new_def)
  from patches_between_exact [OF store_new_wf this le_refl le0] show ?thesis by blast
qed

text \<open>
  C40: Replay is the inverse of logging. The log of any well-formed store whose history still starts at
  version 0, replayed over its initial value, succeeds and rebuilds that store, snapshots and all,
  under the owner that replays it; and a replay of any records over any value that succeeds leaves a
  well-formed store with exactly those records as its log, ending at the value they make of the
  initial one.
\<close>

theorem replay_rebuilds:
  assumes "store_wf s" "store_base s = 0" "replay owner v cs = Inr s'"
  shows "replay keeper (snap_root (hd (store_snapshots s))) (store_log s) = Inr (s\<lparr>store_owner := keeper\<rparr>)
    \<and> store_wf s' \<and> store_log s' = cs \<and> run_commits v cs = Some (snap_root (store_snapshot s'))"
proof -
  have hist: "history_ok (store_snapshots s) (store_log s)" and ver: "snap_version (hd (store_snapshots s)) = 0"
    and obj: "as_object (snap_root (hd (store_snapshots s))) \<noteq> None"
    using assms(1,2) by (simp_all add: store_wf_def)
  obtain x xs where xs: "store_snapshots s = x # xs" using history_nonempty [OF hist] by (cases "store_snapshots s") auto
  let ?s0 = "\<lparr>store_owner = keeper, store_base = 0, store_snapshots = [x], store_log = []\<rparr>"
  have x: "x = \<lparr>snap_version = 0, snap_root = snap_root x\<rparr>" using ver xs by simp
  have "from_value keeper (snap_root x) = Inr ?s0" using obj xs x by (simp add: from_value_def)
  moreover have "replay_records ?s0 (store_log s) = Inr (?s0\<lparr>store_log := store_log s, store_snapshots := x # xs\<rparr>)"
    using replay_records_history [of ?s0 xs "store_log s"] hist xs by (simp add: store_snapshot_def)
  ultimately have "replay keeper (snap_root (hd (store_snapshots s))) (store_log s) = Inr (s\<lparr>store_owner := keeper\<rparr>)"
    using xs assms(2) by (simp add: replay_def)
  moreover obtain s1 where s1: "from_value owner v = Inr s1" "replay_records s1 cs = Inr s'"
    using assms(3) by (auto simp: replay_def rbind_Inr_iff)
  ultimately show ?thesis using replay_records_wf [OF s1(2) from_value_wf [OF s1(1)]]  s1(1)
    by (auto simp: from_value_def store_snapshot_def split: if_splits)
qed

theorem replay_rebuilds_witness:
  "\<exists>s. replay 7 value_default [\<lparr>commit_version = 1, commit_patches = [wit_insert]\<rparr>] = Inr s \<and>
     snap_version (store_snapshot s) = 1 \<and> replay 3 value_default (store_log s) = Inr (s\<lparr>store_owner := 3\<rparr>)"
proof -
  let ?c = "\<lparr>commit_version = 1, commit_patches = [wit_insert]\<rparr>"
  have made: "from_value 7 value_default = Inr (store_new 7)" by (simp add: from_value_def store_new_def value_default_def)
  obtain s r where pub: "apply_batch (store_new 7) ((begin_batch (store_new 7))\<lparr>batch_patches := [wit_insert],
      batch_working := VObject (node ''a'' (VAtom JNull) Tip Tip)\<rparr>) = Inr (s, r)"
    and s: "snap_version (store_snapshot s) = 1" "store_base s = 0" "snap_root (hd (store_snapshots s)) = value_default"
    by (simp add: apply_batch_def begin_batch_def store_new_def store_snapshot_def u64_checked_add_def u64_max_def Let_def)
  have "batch_patches (begin_batch (store_new 7)) = []" by (simp add: begin_batch_def Let_def)
  then have replay_patches: "replay_patches (begin_batch (store_new 7)) [wit_insert] = Inr ((begin_batch (store_new 7))\<lparr>
      batch_patches := [wit_insert], batch_working := VObject (node ''a'' (VAtom JNull) Tip Tip)\<rparr>)"
    by (simp add: wit_edit)
  have "snap_version (store_snapshot (store_new 7)) = 0" by (simp add: store_new_def store_snapshot_def)
  then have run: "replay 7 value_default [?c] = Inr s"
    by (simp add: replay_def made replay_patches pub u64_checked_add_def u64_max_def del: replay_patches.simps)
  have "store_base (store_new 7) = 0" by (simp add: store_new_def)
  from replay_rebuilds [OF store_new_wf this run] have "store_wf s" by blast
  from replay_rebuilds [OF this s(2) run, of 3] show ?thesis using run s by auto
qed

text \<open>
  A version number is not an identity. After a truncation and a new commit that reaches the
  same number, a batch based on the discarded snapshot passes the version check: its
  publication is accepted, the commit in between is lost from the state while its record
  stays, and the log no longer explains the snapshots.
\<close>

theorem stale_batch_after_truncate:
  "rbind (store_apply (store_new 0) (Patch [(''a'', VAtom JNull)] [] [])) (\<lambda>(s1, _).
   rbind (batch_apply (begin_batch s1) (Patch [(''b'', VAtom JNull)] [] [])) (\<lambda>stale.
   rbind (store_apply (store_truncate s1 0) (Patch [(''c'', VAtom JNull)] [] [])) (\<lambda>(s2, _).
   rbind (apply_batch s2 stale) (\<lambda>(s3, _).
     Inr (store_wf s2, to_json (snap_root (store_snapshot s2)),
          to_json (snap_root (store_snapshot s3)), store_wf s3)))))
   = Inr (True, JObject [(''c'', JNull)], JObject [(''a'', JNull), (''b'', JNull)], False)"
  by (simp add: store_apply_def begin_batch_def batch_apply_def apply_batch_def store_new_def
      store_snapshot_def store_truncate_def u64_checked_add_def u64_checked_sub_def u64_max_def
      patch_apply_def op_keys_def bt_keys_def value_default_def avl_is_empty_def node_def
      balance_def store_wf_def step_ok_def Let_def)

end
