(* ===== verification/LugCore.thy ===== *)
theory LugCore
  imports CavlcStore CavlcPatchJson "HOL-Library.Word"
begin

text \<open>
  \<open>crates/lug-core/src/{lib,reducible,storage,cavlc_impl}.rs\<close>: the two traits every other crate
  hangs off, as records of their methods, the implementations of \<open>Reducible\<close> (\<open>Noop\<close> and
  \<open>cavlc::Store\<close>) and of \<open>Storage\<close> (\<open>Discard\<close>), and the contract \<open>reducible\<close> that the log
  relies on, interpreted on both implementations.

  A method taking \<open>&mut self\<close> returns the new state beside its result, so that what an error
  leaves behind is visible.
\<close>

type_synonym bytes = "8 word list"

section \<open>The traits\<close>

record ('d, 'p, 'v, 'st, 'e) reducible_ops =
  r_stage :: "'d \<Rightarrow> 'st"
  r_stage_patch :: "'d \<Rightarrow> 'st \<Rightarrow> 'p \<Rightarrow> 'e + 'st"
  r_commit :: "'d \<Rightarrow> 'st \<Rightarrow> 'd \<times> ('e + 'v option)"
  r_view :: "'d \<Rightarrow> 'v"
  r_view_at :: "'d \<Rightarrow> version \<Rightarrow> 'v option"
  r_truncate :: "'d \<Rightarrow> version \<Rightarrow> 'd \<times> ('e + unit)"
  r_resume :: "'v \<Rightarrow> 'e + 'd"
  v_version :: "'v \<Rightarrow> version"
  v_state :: "'v \<Rightarrow> json"

definition r_version :: "('d, 'p, 'v, 'st, 'e) reducible_ops \<Rightarrow> 'd \<Rightarrow> version" where
  "r_version R d = v_version R (r_view R d)"

definition r_apply ::
    "('d, 'p, 'v, 'st, 'e) reducible_ops \<Rightarrow> 'd \<Rightarrow> 'p \<Rightarrow> 'd \<times> ('e + 'v option)" where
  "r_apply R d p =
     (case r_stage_patch R d (r_stage R d) p of
        Inl e \<Rightarrow> (d, Inl e)
      | Inr staged \<Rightarrow> r_commit R d staged)"

record log_record =
  rec_version :: version
  rec_patch :: bytes

record 'v recovered =
  rcv_header :: "'v option"
  rcv_tail :: "log_record list"

definition recovered_default :: "'v recovered" where
  "recovered_default = \<lparr>rcv_header = None, rcv_tail = []\<rparr>"

record ('s, 'v, 'e) storage_ops =
  s_append :: "'s \<Rightarrow> log_record list \<Rightarrow> 's \<times> ('e + unit)"
  s_write_header :: "'s \<Rightarrow> 'v \<Rightarrow> 's \<times> ('e + unit)"
  s_sync :: "'s \<Rightarrow> 's \<times> ('e + unit)"
  s_load :: "'s \<Rightarrow> 's \<times> ('e + 'v recovered)"
  s_read_after :: "'s \<Rightarrow> version \<Rightarrow> nat \<Rightarrow> 'e + log_record list"
  s_oldest :: "'s \<Rightarrow> version"

datatype ('de, 'se, 'je) lug_error =
    DataError 'de
  | StorageError 'se
  | CodecError 'je
  | VersionError version version

section \<open>Implementations\<close>

subsection \<open>\<open>Noop\<close>\<close>

datatype overflow = Overflow

record noop =
  noop_version :: version

definition noop_commit :: "noop \<Rightarrow> nat \<Rightarrow> noop \<times> (overflow + version option)" where
  "noop_commit d staged =
     (if staged = 0 then (d, Inr None)
      else case u64_checked_add (noop_version d) 1 of
          None \<Rightarrow> (d, Inl Overflow)
        | Some n \<Rightarrow> (d\<lparr>noop_version := n\<rparr>, Inr (Some n)))"

definition noop_ops :: "(noop, json, version, nat, overflow) reducible_ops" where
  "noop_ops = \<lparr>
     r_stage = (\<lambda>d. 0),
     r_stage_patch = (\<lambda>d staged p. Inr (staged + 1)),
     r_commit = noop_commit,
     r_view = (\<lambda>d. noop_version d),
     r_view_at = (\<lambda>d n. if n \<le> noop_version d then Some n else None),
     r_truncate = (\<lambda>d n. (d\<lparr>noop_version := min (noop_version d) n\<rparr>, Inr ())),
     r_resume = (\<lambda>n. Inr \<lparr>noop_version = n\<rparr>),
     v_version = (\<lambda>n. n),
     v_state = (\<lambda>n. JNull)\<rparr>"

subsection \<open>\<open>cavlc::Store\<close>\<close>

definition cavlc_commit :: "store \<Rightarrow> batch \<Rightarrow> store \<times> (cavlc_error + snapshot option)" where
  "cavlc_commit s staged =
     (case apply_batch s staged of
        Inl e \<Rightarrow> (s, Inl e)
      | Inr (s', applied) \<Rightarrow>
          (s', Inr (if res_record applied \<noteq> None then Some (res_snapshot applied) else None)))"

definition cavlc_ops :: "nat \<Rightarrow> (store, patch, snapshot, batch, cavlc_error) reducible_ops" where
  "cavlc_ops owner = \<lparr>
     r_stage = begin_batch,
     r_stage_patch = (\<lambda>d staged p. batch_apply staged p),
     r_commit = cavlc_commit,
     r_view = store_snapshot,
     r_view_at = snapshot_at,
     r_truncate = (\<lambda>d n. (store_truncate d n, Inr ())),
     r_resume = (\<lambda>v. Inr (store_resume owner v)),
     v_version = snap_version,
     v_state = (\<lambda>v. to_json (snap_root v))\<rparr>"

subsection \<open>\<open>Discard\<close>\<close>

definition discard_ops :: "(unit, 'v, 'e) storage_ops" where
  "discard_ops = \<lparr>
     s_append = (\<lambda>s rs. (s, Inr ())),
     s_write_header = (\<lambda>s v. (s, Inr ())),
     s_sync = (\<lambda>s. (s, Inr ())),
     s_load = (\<lambda>s. (s, Inr recovered_default)),
     s_read_after = (\<lambda>s after limit. Inr []),
     s_oldest = (\<lambda>s. 0)\<rparr>"

section \<open>The contract of a reducible\<close>

text \<open>
  What the log needs: a patch that applies mints exactly the next version and leaves every
  older one readable, one that does not leaves the structure alone, truncation brings an
  older pointer back, a pointer can be resumed from, and what a patch does depends only on
  what a pointer shows (its version and its JSON state) and on the patch up to its equality.
\<close>

definition obs :: "('d, 'p, 'v, 'st, 'e) reducible_ops \<Rightarrow> 'v \<Rightarrow> version \<times> json" where
  "obs R v = (v_version R v, v_state R v)"

locale reducible =
  fixes R :: "('d, 'p, 'v, 'st, 'e) reducible_ops"
    and wf :: "'d \<Rightarrow> bool" and vwf :: "'v \<Rightarrow> bool" and pwf :: "'p \<Rightarrow> bool"
    and peq :: "'p \<Rightarrow> 'p \<Rightarrow> bool"
  assumes view_wf: "wf d \<Longrightarrow> vwf (r_view R d)"
    and version_bound: "wf d \<Longrightarrow> r_version R d \<le> u64_max"
    and apply_some: "wf d \<Longrightarrow> pwf p \<Longrightarrow> r_apply R d p = (d', Inr (Some v)) \<Longrightarrow>
        wf d' \<and> r_view R d' = v \<and> v_version R v = Suc (r_version R d) \<and>
        (\<forall>n \<le> r_version R d. r_view_at R d' n = r_view_at R d n)"
    and apply_none: "wf d \<Longrightarrow> pwf p \<Longrightarrow> r_apply R d p = (d', Inr None) \<Longrightarrow> d' = d"
    and apply_err: "wf d \<Longrightarrow> pwf p \<Longrightarrow> r_apply R d p = (d', Inl e) \<Longrightarrow> d' = d"
    and view_at_current: "wf d \<Longrightarrow> r_view_at R d (r_version R d) = Some (r_view R d)"
    and truncate_back: "wf d \<Longrightarrow> n \<le> r_version R d \<Longrightarrow> r_view_at R d n = Some v \<Longrightarrow>
        \<exists>d'. r_truncate R d n = (d', Inr ()) \<and> wf d' \<and> r_view R d' = v \<and>
          (\<forall>m \<le> n. r_view_at R d' m = r_view_at R d m)"
    and resume_ok: "vwf v \<Longrightarrow> \<exists>d. r_resume R v = Inr d \<and> wf d \<and> r_view R d = v"
    and apply_cong: "wf d \<Longrightarrow> wf d2 \<Longrightarrow> obs R (r_view R d2) = obs R (r_view R d) \<Longrightarrow>
        pwf p \<Longrightarrow> pwf p2 \<Longrightarrow> peq p2 p \<Longrightarrow> r_apply R d p = (d', Inr (Some v)) \<Longrightarrow>
        \<exists>d2' v2. r_apply R d2 p2 = (d2', Inr (Some v2)) \<and> obs R v2 = obs R v"

subsection \<open>\<open>Noop\<close> satisfies it\<close>

lemma noop_sel [simp]:
  "r_view noop_ops d = noop_version d" "v_version noop_ops n = n" "v_state noop_ops n = JNull"
  "r_version noop_ops d = noop_version d" "obs noop_ops n = (n, JNull)"
  "r_view_at noop_ops d n = (if n \<le> noop_version d then Some n else None)"
  "r_truncate noop_ops d n = (d\<lparr>noop_version := min (noop_version d) n\<rparr>, Inr ())"
  "r_resume noop_ops n = Inr \<lparr>noop_version = n\<rparr>"
  by (simp_all add: noop_ops_def r_version_def obs_def)

lemma noop_apply:
  "r_apply noop_ops d p =
     (if noop_version d < u64_max then (d\<lparr>noop_version := Suc (noop_version d)\<rparr>, Inr (Some (Suc (noop_version d))))
      else (d, Inl Overflow))"
  by (auto simp: r_apply_def noop_ops_def noop_commit_def u64_checked_add_def)

abbreviation noop_wf :: "noop \<Rightarrow> bool" where
  "noop_wf d \<equiv> noop_version d \<le> u64_max"

interpretation noop_red: reducible noop_ops noop_wf "\<lambda>n. n \<le> u64_max" "\<lambda>_. True" "(=)"
  by unfold_locales (auto simp: noop_apply split: if_splits)

subsection \<open>So does \<open>cavlc::Store\<close>\<close>

definition snapshot_wf :: "snapshot \<Rightarrow> bool" where
  "snapshot_wf x \<longleftrightarrow> snap_version x \<le> u64_max \<and> value_wf (snap_root x) \<and> as_object (snap_root x) \<noteq> None"

definition cavlc_wf :: "store \<Rightarrow> bool" where
  "cavlc_wf s \<longleftrightarrow> store_wf s \<and> (\<forall>x \<in> set (store_snapshots s). snapshot_wf x)"

lemma cavlc_sel [simp]:
  "r_view (cavlc_ops own) s = store_snapshot s" "v_version (cavlc_ops own) x = snap_version x"
  "v_state (cavlc_ops own) x = to_json (snap_root x)"
  "r_version (cavlc_ops own) s = snap_version (store_snapshot s)"
  "obs (cavlc_ops own) x = (snap_version x, to_json (snap_root x))"
  "r_view_at (cavlc_ops own) s n = snapshot_at s n"
  "r_truncate (cavlc_ops own) s n = (store_truncate s n, Inr ())"
  "r_resume (cavlc_ops own) x = Inr (store_resume own x)"
  by (simp_all add: cavlc_ops_def r_version_def obs_def)

text \<open>One patch through stage, stage_patch and commit.\<close>

lemma cavlc_apply:
  "r_apply (cavlc_ops own) s p =
     (case patch_apply p (snap_root (store_snapshot s)) of
        Inl e \<Rightarrow> (s, Inl e)
      | Inr (v, fresh) \<Rightarrow>
          if \<not> fresh then (s, Inr None)
          else if snap_version (store_snapshot s) < u64_max
          then let snap = \<lparr>snap_version = Suc (snap_version (store_snapshot s)), snap_root = v\<rparr>
               in (s\<lparr>store_log := store_log s @ [\<lparr>commit_version = snap_version snap, commit_patches = [p]\<rparr>],
                     store_snapshots := store_snapshots s @ [snap]\<rparr>, Inr (Some snap))
          else (s, Inl VersionOverflow))"
  by (auto simp: r_apply_def cavlc_ops_def cavlc_commit_def batch_apply_def apply_batch_def
      u64_checked_add_def Let_def split: sum.splits)

lemma cavlc_wf_view: "cavlc_wf s \<Longrightarrow> snapshot_wf (store_snapshot s)"
  using store_snapshot_in by (auto simp: cavlc_wf_def)

lemma patch_apply_object:
  assumes "patch_wf p" "value_wf v" "patch_apply p v = Inr (v', fresh)"
  shows "value_wf v' \<and> as_object v' \<noteq> None \<and> japply p (to_json v) = Some (to_json v') \<and>
    valid p \<and> (fresh \<longleftrightarrow> to_json v' \<noteq> to_json v)"
proof -
  have ok: "valid p" "value_wf v'" "japply p (to_json v) = Some (to_json v')" "fresh \<longleftrightarrow> \<not> value_eq v' v"
    using patch_apply_refines_aux [OF assms(1,2)] assms(3) by simp_all
  have "is_object (to_json v)" using ok(3) japply_non_object by fastforce
  then obtain kvs where "to_json v = JObject kvs" by (cases "to_json v") auto
  then have "is_object (to_json v')" using japply_SomeD [of p kvs] ok(3) by auto
  then show ?thesis using ok value_eq_to_json [OF ok(2) assms(2)] by simp
qed

lemma cavlc_apply_some:
  assumes "cavlc_wf s" "patch_wf p" "r_apply (cavlc_ops own) s p = (s', Inr (Some x))"
  shows "cavlc_wf s' \<and> store_snapshot s' = x \<and> snap_version x = Suc (snap_version (store_snapshot s)) \<and>
    (\<forall>n \<le> snap_version (store_snapshot s). snapshot_at s' n = snapshot_at s n)"
proof -
  let ?x = "store_snapshot s"
  have wf: "store_wf s" "snapshot_wf ?x" using assms(1) cavlc_wf_view by (simp_all add: cavlc_wf_def)
  obtain v where v: "patch_apply p (snap_root ?x) = Inr (v, True)" "snap_version ?x < u64_max"
    "x = \<lparr>snap_version = Suc (snap_version ?x), snap_root = v\<rparr>"
    "s' = s\<lparr>store_log := store_log s @ [\<lparr>commit_version = snap_version x, commit_patches = [p]\<rparr>],
            store_snapshots := store_snapshots s @ [x]\<rparr>"
    using assms(3) by (auto simp: cavlc_apply Let_def split: sum.splits if_splits)
  have obj: "value_wf v \<and> as_object v \<noteq> None"
    using patch_apply_object [OF assms(2) _ v(1)] wf(2) by (simp add: snapshot_wf_def)
  have hist: "history_ok (store_snapshots s) (store_log s)" using wf(1) by (simp add: store_wf_def)
  have "store_wf s'" using wf(1) hist v
    by (simp add: store_wf_def history_snoc step_ok_def store_snapshot_def)
  moreover have "snapshot_wf x" using v(2,3) obj by (simp add: snapshot_wf_def)
  moreover have "snapshot_at s' n = snapshot_at s n" if "n \<le> snap_version ?x" for n
    using that store_snapshot_version [OF wf(1)] history_length [OF hist]
    by (auto simp: snapshot_at_def v(4) u64_checked_sub_def nth_append)
  ultimately show ?thesis using assms(1) v by (auto simp: cavlc_wf_def store_snapshot_def)
qed

lemma snapshot_at_current: "store_wf s \<Longrightarrow> snapshot_at s (snap_version (store_snapshot s)) = Some (store_snapshot s)"
  using store_snapshot_version [of s] history_length [of "store_snapshots s" "store_log s"]
  by (auto simp: snapshot_at_def u64_checked_sub_def store_wf_def store_snapshot_def last_conv_nth)

lemma cavlc_truncate_back:
  assumes "cavlc_wf s" "n \<le> snap_version (store_snapshot s)" "snapshot_at s n = Some x"
  shows "cavlc_wf (store_truncate s n) \<and> store_snapshot (store_truncate s n) = x \<and>
    (\<forall>m \<le> n. snapshot_at (store_truncate s n) m = snapshot_at s m)"
proof -
  have wf: "store_wf s" using assms(1) by (simp add: cavlc_wf_def)
  have hist: "history_ok (store_snapshots s) (store_log s)" using wf by (simp add: store_wf_def)
  note len = history_length [OF hist] and ver = store_snapshot_version [OF wf]
  let ?i = "n - store_base s"
  have i: "store_base s \<le> n" "?i < length (store_snapshots s)" "x = store_snapshots s ! ?i"
    using assms(3) by (auto simp: snapshot_at_def u64_checked_sub_def split: option.splits if_splits)
  have sub: "set (store_snapshots (store_truncate s n)) \<subseteq> set (store_snapshots s)"
    by (auto simp: store_truncate_def split: option.splits dest: in_set_takeD)
  have "store_snapshot (store_truncate s n) = x"
  proof (cases "?i + 1 < length (store_snapshots s)")
    case True
    then have "last (take (?i + 1) (store_snapshots s)) = store_snapshots s ! ?i"
      by (subst last_conv_nth) auto
    then show ?thesis using i True
      by (simp add: store_truncate_def u64_checked_sub_def store_snapshot_def)
  next
    case False
    then have "last (store_snapshots s) = store_snapshots s ! ?i"
      using i(2) len by (subst last_conv_nth) (auto intro: arg_cong [where f = "(!) (store_snapshots s)"])
    then show ?thesis using i False
      by (simp add: store_truncate_def u64_checked_sub_def store_snapshot_def)
  qed
  moreover have "snapshot_at (store_truncate s n) m = snapshot_at s m" if "m \<le> n" for m
    using that i len by (auto simp: store_truncate_def snapshot_at_def u64_checked_sub_def)
  ultimately show ?thesis using assms(1) sub store_truncate_wf [OF wf] by (auto simp: cavlc_wf_def)
qed

lemma cavlc_apply_cong:
  assumes "cavlc_wf s" "cavlc_wf s2"
    and same: "snap_version (store_snapshot s2) = snap_version (store_snapshot s)"
      "to_json (snap_root (store_snapshot s2)) = to_json (snap_root (store_snapshot s))"
    and p: "patch_wf p" "patch_wf p2" "patch_eq p2 p"
    and run: "r_apply (cavlc_ops own) s p = (s', Inr (Some x))"
  shows "\<exists>s2' x2. r_apply (cavlc_ops own) s2 p2 = (s2', Inr (Some x2)) \<and>
    snap_version x2 = snap_version x \<and> to_json (snap_root x2) = to_json (snap_root x)"
proof -
  let ?v = "snap_root (store_snapshot s)" and ?v2 = "snap_root (store_snapshot s2)"
  have wf: "value_wf ?v" "value_wf ?v2" using assms(1,2) cavlc_wf_view by (simp_all add: snapshot_wf_def)
  obtain v where v: "patch_apply p ?v = Inr (v, True)" "snap_version (store_snapshot s) < u64_max"
    "x = \<lparr>snap_version = Suc (snap_version (store_snapshot s)), snap_root = v\<rparr>"
    using run by (auto simp: cavlc_apply Let_def split: sum.splits if_splits)
  note ok = patch_apply_object [OF p(1) wf(1) v(1)]
  have valid: "valid p2" using ok patch_eq_valid [OF p(3)] by blast
  have ref: "japply p2 (to_json ?v2) = Some (to_json v)"
    using ok patch_eq_japply [OF p(3,2,1)] same(2) by simp
  obtain v2 fresh where v2: "patch_apply p2 ?v2 = Inr (v2, fresh)"
    using patch_apply_refines_aux [OF p(2) wf(2)] valid ref by (cases "patch_apply p2 ?v2") auto
  note ok2 = patch_apply_object [OF p(2) wf(2) v2]
  have "to_json v2 = to_json v" using ok2 ref by simp
  moreover have "fresh" using ok ok2 ref same(2) by simp
  ultimately show ?thesis using v2 v(2,3) same(1) by (simp add: cavlc_apply Let_def)
qed

interpretation cavlc_red: reducible "cavlc_ops own" cavlc_wf snapshot_wf patch_wf patch_eq for own
proof unfold_locales
  fix d :: store and d' p v
  assume "cavlc_wf d" "patch_wf p" "r_apply (cavlc_ops own) d p = (d', Inr (Some v))"
  from cavlc_apply_some [OF this] show "cavlc_wf d' \<and> r_view (cavlc_ops own) d' = v \<and>
      v_version (cavlc_ops own) v = Suc (r_version (cavlc_ops own) d) \<and>
      (\<forall>n \<le> r_version (cavlc_ops own) d. r_view_at (cavlc_ops own) d' n = r_view_at (cavlc_ops own) d n)"
    by simp
next
  fix d d2 :: store and p p2 d' v
  assume "cavlc_wf d" "cavlc_wf d2" "obs (cavlc_ops own) (r_view (cavlc_ops own) d2) = obs (cavlc_ops own) (r_view (cavlc_ops own) d)"
    "patch_wf p" "patch_wf p2" "patch_eq p2 p" "r_apply (cavlc_ops own) d p = (d', Inr (Some v))"
  then show "\<exists>d2' v2. r_apply (cavlc_ops own) d2 p2 = (d2', Inr (Some v2)) \<and> obs (cavlc_ops own) v2 = obs (cavlc_ops own) v"
    using cavlc_apply_cong [of d d2 p p2 own d' v] by simp
next
  fix d :: store and n v
  assume "cavlc_wf d" "n \<le> r_version (cavlc_ops own) d" "r_view_at (cavlc_ops own) d n = Some v"
  then show "\<exists>d'. r_truncate (cavlc_ops own) d n = (d', Inr ()) \<and> cavlc_wf d' \<and> r_view (cavlc_ops own) d' = v \<and>
      (\<forall>m \<le> n. r_view_at (cavlc_ops own) d' m = r_view_at (cavlc_ops own) d m)"
    using cavlc_truncate_back [of d n v] by simp
next
  fix v assume "snapshot_wf v"
  then show "\<exists>d. r_resume (cavlc_ops own) v = Inr d \<and> cavlc_wf d \<and> r_view (cavlc_ops own) d = v"
    using store_resume_wf [of v own]
    by (auto simp: snapshot_wf_def cavlc_wf_def store_resume_def store_snapshot_def)
next
  fix d :: store
  assume "cavlc_wf d"
  then show "r_version (cavlc_ops own) d \<le> u64_max"
    using cavlc_wf_view [of d] by (simp add: snapshot_wf_def)
qed (auto simp: cavlc_wf_view snapshot_at_current cavlc_wf_def cavlc_apply Let_def
    split: sum.splits if_splits)

end
