(* ===== verification/WalFormat.thy ===== *)
theory WalFormat
  imports LugCore
begin

text \<open>
  \<open>crates/lug-wal/src/format.rs\<close> and \<open>segment.rs\<close>: the bytes of a segment and of a header
  file, and the scan that reads records back. The checksum \<open>crc\<close> (crc32fast) is an argument of
  what uses it; nothing is assumed of it.
\<close>

section \<open>Integers and names\<close>

fun le_bytes :: "nat \<Rightarrow> nat \<Rightarrow> bytes" where
  "le_bytes 0 v = []"
| "le_bytes (Suc n) v = word_of_nat v # le_bytes n (v div 256)"

fun of_le_bytes :: "bytes \<Rightarrow> nat" where
  "of_le_bytes [] = 0"
| "of_le_bytes (b # bs) = unat b + 256 * of_le_bytes bs"

definition seg_magic :: bytes where
  "seg_magic = [76, 85, 71, 83, 69, 71, 0, 1]"

definition hdr_magic :: bytes where
  "hdr_magic = [76, 85, 71, 72, 68, 82, 0, 1]"

definition seg_prologue :: nat where "seg_prologue = 16"
definition rec_prefix :: nat where "rec_prefix = 16"
definition max_payload :: nat where "max_payload = 67108864"

text \<open>Decimal digits without padding, as \<open>Display\<close> prints them.\<close>

fun dec_digits :: "nat \<Rightarrow> string" where
  "dec_digits n = (if n < 10 then [char_of (48 + n)] else dec_digits (n div 10) @ [char_of (48 + n mod 10)])"

declare dec_digits.simps [simp del]

definition segment_name :: "version \<Rightarrow> string" where
  "segment_name n =
     (let digits = dec_digits n in replicate (18 - length digits) (CHR ''0'') @ digits @ ''.seg'')"

definition is_ascii_digit :: "char \<Rightarrow> bool" where
  "is_ascii_digit c \<longleftrightarrow> 48 \<le> (of_char c :: nat) \<and> (of_char c :: nat) \<le> 57"

definition digits_value :: "string \<Rightarrow> nat" where
  "digits_value s = foldl (\<lambda>a c. a * 10 + (of_char c - 48)) 0 s"

text \<open>\<open>str::parse::<u64>\<close> of a non-empty string of digits: an error only on overflow.\<close>

definition parse_u64_digits :: "string \<Rightarrow> nat option" where
  "parse_u64_digits s = (if digits_value s \<le> u64_max then Some (digits_value s) else None)"

definition strip_suffix :: "string \<Rightarrow> string \<Rightarrow> string option" where
  "strip_suffix suf s =
     (if length suf \<le> length s \<and> drop (length s - length suf) s = suf
      then Some (take (length s - length suf) s) else None)"

definition parse_segment_name :: "string \<Rightarrow> version option" where
  "parse_segment_name name =
     (case strip_suffix ''.seg'' name of
        None \<Rightarrow> None
      | Some digits \<Rightarrow>
          if \<not> (18 \<le> length digits \<and> length digits \<le> 20) \<or> \<not> list_all is_ascii_digit digits
          then None
          else parse_u64_digits digits)"

section \<open>Records and headers\<close>

type_synonym crc = "bytes \<Rightarrow> 32 word"

definition checksum :: "crc \<Rightarrow> version \<Rightarrow> bytes \<Rightarrow> nat" where
  "checksum crc version payload = unat (crc (le_bytes 8 version @ payload))"

definition record_prefix :: "crc \<Rightarrow> version \<Rightarrow> bytes \<Rightarrow> bytes" where
  "record_prefix crc version payload =
     le_bytes 4 (length payload) @ le_bytes 4 (checksum crc version payload) @ le_bytes 8 version"

definition split_prefix :: "bytes \<Rightarrow> nat \<times> nat \<times> version" where
  "split_prefix pre =
     (of_le_bytes (take 4 pre), of_le_bytes (take 4 (drop 4 pre)), of_le_bytes (take 8 (drop 8 pre)))"

definition segment_prologue :: bytes where
  "segment_prologue = seg_magic @ replicate 8 0"

definition header_bytes :: "crc \<Rightarrow> bytes \<Rightarrow> bytes" where
  "header_bytes crc json = hdr_magic @ le_bytes 4 (unat (crc json)) @ le_bytes 4 (length json) @ json"

section \<open>Scanning a segment\<close>

record scan =
  scan_end :: nat
  scan_file_len :: nat
  scan_torn :: bool

text \<open>
  The record loop over what is left of the file. A visitor takes its state along and says
  whether to stop; its error aborts the scan. \<open>fill\<close> hands over a prefix shorter than asked
  for only at the end of the file.
\<close>

function scan_loop ::
    "crc \<Rightarrow> (version \<Rightarrow> bytes \<Rightarrow> 'st \<Rightarrow> 'e + 'st \<times> bool) \<Rightarrow> nat \<Rightarrow> nat \<Rightarrow> bytes \<Rightarrow> 'st \<Rightarrow> 'e + scan \<times> 'st" where
  "scan_loop crc visit file_len pos rest st =
     (let done = (\<lambda>e torn. \<lparr>scan_end = e, scan_file_len = file_len, scan_torn = torn\<rparr>);
          pre = take rec_prefix rest
      in if length pre = 0 then Inr (done pos False, st)
         else if length pre \<noteq> rec_prefix then Inr (done pos True, st)
         else
           let (len, crc_found, version) = split_prefix pre in
           if len = 0 then Inr (done pos False, st)
           else
             let room = file_len - (pos + rec_prefix) in
             if max_payload < len \<or> room < len then Inr (done pos True, st)
             else
               let payload = take len (drop rec_prefix rest) in
               if length payload \<noteq> len then Inr (done pos True, st)
               else if checksum crc version payload \<noteq> crc_found then Inr (done pos True, st)
               else
                 let pos' = pos + rec_prefix + length payload in
                 case visit version payload st of
                   Inl e \<Rightarrow> Inl e
                 | Inr (st', stop) \<Rightarrow>
                     if stop then Inr (done pos' False, st')
                     else scan_loop crc visit file_len pos' (drop len (drop rec_prefix rest)) st')"
  by pat_completeness auto

termination
  by (relation "measure (\<lambda>(crc, visit, file_len, pos, rest, st). length rest)") (auto simp: rec_prefix_def)

declare scan_loop.simps [simp del]

text \<open>\<open>bad\<close> is the error for a file without the magic.\<close>

definition scan_bytes ::
    "crc \<Rightarrow> 'e \<Rightarrow> (version \<Rightarrow> bytes \<Rightarrow> 'st \<Rightarrow> 'e + 'st \<times> bool) \<Rightarrow> bytes \<Rightarrow> 'st \<Rightarrow> 'e + scan \<times> 'st" where
  "scan_bytes crc bad visit data st =
     (let prologue = take seg_prologue data in
      if length prologue \<noteq> seg_prologue \<or> take 8 prologue \<noteq> seg_magic then Inl bad
      else scan_loop crc visit (length data) seg_prologue (drop seg_prologue data) st)"

section \<open>The encodings are inverse to the decodings\<close>

lemma length_le_bytes [simp]: "length (le_bytes n v) = n"
  by (induction n arbitrary: v) auto

lemma of_le_bytes_le_bytes [simp]: "of_le_bytes (le_bytes n v) = v mod 256 ^ n"
proof (induction n arbitrary: v)
  case (Suc n)
  have "v mod (256 * 256 ^ n) = 256 * (v div 256 mod 256 ^ n) + v mod 256" by (simp add: mod_mult2_eq)
  then show ?case by (simp add: Suc unat_word_ariths unsigned_of_nat take_bit_eq_mod)
qed simp

lemma of_le_bytes_bound: "of_le_bytes bs < 256 ^ length bs"
proof (induction bs)
  case (Cons b bs)
  have "unat b < 256" using unsigned_less [of b] by simp
  then have "unat b + 256 * of_le_bytes bs < 256 + 256 * (256 ^ length bs - 1)" using Cons
    by (smt (verit, best) add_less_le_mono less_eq_nat.simps Suc_diff_1 less_Suc_eq_le mult_le_mono2 zero_less_numeral zero_less_power)
  then show ?case by (simp add: diff_mult_distrib2)
qed simp

lemma of_le_bytes_replicate_zero [simp]: "of_le_bytes (replicate n 0) = 0"
  by (induction n) auto

definition encode_record :: "crc \<Rightarrow> log_record \<Rightarrow> bytes" where
  "encode_record crc r = record_prefix crc (rec_version r) (rec_patch r) @ rec_patch r"

definition encode_records :: "crc \<Rightarrow> log_record list \<Rightarrow> bytes" where
  "encode_records crc rs = concat (map (encode_record crc) rs)"

definition segment_bytes :: "crc \<Rightarrow> log_record list \<Rightarrow> bytes" where
  "segment_bytes crc rs = segment_prologue @ encode_records crc rs"

text \<open>What \<open>append\<close> lets through.\<close>

definition storable :: "log_record \<Rightarrow> bool" where
  "storable r \<longleftrightarrow> rec_patch r \<noteq> [] \<and> length (rec_patch r) \<le> max_payload \<and> rec_version r < u64_max"

lemma length_record_prefix [simp]: "length (record_prefix crc v p) = rec_prefix"
  by (simp add: record_prefix_def rec_prefix_def)

lemma length_prologue [simp]: "length segment_prologue = seg_prologue"
  by (simp add: segment_prologue_def seg_magic_def seg_prologue_def)

lemma split_record_prefix:
  "length p \<le> max_payload \<Longrightarrow> v \<le> u64_max \<Longrightarrow>
   split_prefix (record_prefix crc v p) = (length p, checksum crc v p, v)"
proof -
  assume "length p \<le> max_payload" "v \<le> u64_max"
  then have "length p mod 4294967296 = length p" "v mod 18446744073709551616 = v"
    by (simp_all add: max_payload_def u64_max_def)
  moreover have "checksum crc v p mod 4294967296 = checksum crc v p"
    using unsigned_less [of "crc (le_bytes 8 v @ p)", where 'a=nat] by (simp add: checksum_def)
  ultimately show ?thesis by (simp add: split_prefix_def record_prefix_def)
qed

text \<open>What a scan does over records that are there: visit them in order until a stop.\<close>

fun visit_records ::
    "(version \<Rightarrow> bytes \<Rightarrow> 'st \<Rightarrow> 'e + 'st \<times> bool) \<Rightarrow> log_record list \<Rightarrow> nat \<Rightarrow> 'st \<Rightarrow> 'e + nat \<times> 'st \<times> bool" where
  "visit_records visit [] pos st = Inr (pos, st, False)"
| "visit_records visit (r # rs) pos st =
     (case visit (rec_version r) (rec_patch r) st of
        Inl e \<Rightarrow> Inl e
      | Inr (st', stop) \<Rightarrow>
          let pos' = pos + rec_prefix + length (rec_patch r)
          in if stop then Inr (pos', st', True) else visit_records visit rs pos' st')"

lemma encode_records_simps [simp]:
  "encode_records crc [] = []" "encode_records crc (r # rs) = encode_record crc r @ encode_records crc rs"
  "encode_records crc (xs @ ys) = encode_records crc xs @ encode_records crc ys"
  by (simp_all add: encode_records_def)

lemma length_encode_record [simp]: "length (encode_record crc r) = rec_prefix + length (rec_patch r)"
  by (simp add: encode_record_def)

lemma scan_loop_record:
  assumes "storable r" "file_len = pos + length (encode_record crc r @ rest)"
  shows "scan_loop crc visit file_len pos (encode_record crc r @ rest) st =
    (case visit (rec_version r) (rec_patch r) st of
       Inl e \<Rightarrow> Inl e
     | Inr (st', stop) \<Rightarrow>
         let pos' = pos + rec_prefix + length (rec_patch r)
         in if stop then Inr (\<lparr>scan_end = pos', scan_file_len = file_len, scan_torn = False\<rparr>, st')
            else scan_loop crc visit file_len pos' rest st')"
proof -
  let ?p = "record_prefix crc (rec_version r) (rec_patch r)"
  have pre: "take rec_prefix (encode_record crc r @ rest) = ?p"
    "drop rec_prefix (encode_record crc r @ rest) = rec_patch r @ rest"
    by (simp_all add: encode_record_def)
  have split: "split_prefix ?p = (length (rec_patch r), checksum crc (rec_version r) (rec_patch r), rec_version r)"
    using assms(1) by (intro split_record_prefix) (auto simp: storable_def)
  have nz: "rec_prefix \<noteq> 0" by (simp add: rec_prefix_def)
  show ?thesis
    unfolding scan_loop.simps [of crc visit file_len pos "encode_record crc r @ rest" st] pre Let_def
    using assms nz by (auto simp: split storable_def split: sum.splits prod.splits)
qed

lemma scan_loop_records:
  assumes "\<forall>r \<in> set rs. storable r" "file_len = pos + length (encode_records crc rs @ rest)"
  shows "scan_loop crc visit file_len pos (encode_records crc rs @ rest) st =
    (case visit_records visit rs pos st of
       Inl e \<Rightarrow> Inl e
     | Inr (pos', st', stopped) \<Rightarrow>
         if stopped then Inr (\<lparr>scan_end = pos', scan_file_len = file_len, scan_torn = False\<rparr>, st')
         else scan_loop crc visit file_len pos' rest st')"
  using assms
proof (induction rs arbitrary: pos st)
  case (Cons r rs)
  have "encode_records crc (r # rs) @ rest = encode_record crc r @ (encode_records crc rs @ rest)" by simp
  then show ?case using Cons.prems Cons.IH
    by (auto simp: scan_loop_record Let_def split: sum.splits prod.splits)
qed simp

lemma scan_loop_zeros:
  "scan_loop crc visit file_len pos (replicate z 0) st =
     Inr (\<lparr>scan_end = pos, scan_file_len = file_len, scan_torn = (0 < z \<and> z < rec_prefix)\<rparr>, st)"
proof -
  have "split_prefix (replicate rec_prefix 0) = (0, 0, 0)" by (simp add: split_prefix_def rec_prefix_def)
  then show ?thesis
    by (subst scan_loop.simps) (auto simp: Let_def min_def split: if_splits)
qed

lemma scan_bytes_segment:
  "scan_bytes crc bad visit (segment_bytes crc rs @ rest) st =
     scan_loop crc visit (length (segment_bytes crc rs @ rest)) seg_prologue (encode_records crc rs @ rest) st"
proof -
  have "take seg_prologue (segment_bytes crc rs @ rest) = segment_prologue"
    "drop seg_prologue (segment_bytes crc rs @ rest) = encode_records crc rs @ rest"
    by (simp_all add: segment_bytes_def)
  then show ?thesis unfolding scan_bytes_def Let_def by (simp add: segment_prologue_def seg_magic_def seg_prologue_def)
qed

text \<open>A scan that collects everything.\<close>

definition collect_all :: "version \<Rightarrow> bytes \<Rightarrow> log_record list \<Rightarrow> 'e + log_record list \<times> bool" where
  "collect_all version payload out = Inr (out @ [\<lparr>rec_version = version, rec_patch = payload\<rparr>], False)"

definition seg_records :: "crc \<Rightarrow> bytes \<Rightarrow> log_record list" where
  "seg_records crc data =
     (case scan_bytes crc () collect_all data [] of Inl _ \<Rightarrow> [] | Inr (_, rs) \<Rightarrow> rs)"

lemma visit_collect_all [simp]:
  "visit_records collect_all rs pos out = Inr (pos + (\<Sum>r\<leftarrow>rs. rec_prefix + length (rec_patch r)), out @ rs, False)"
  by (induction rs arbitrary: pos out) (auto simp: collect_all_def)

lemma le_bytes_of_le_bytes [simp]: "length bs = n \<Longrightarrow> le_bytes n (of_le_bytes bs) = bs"
proof (induction bs arbitrary: n)
  case (Cons b bs)
  have b: "unat b < 256" using unsigned_less [of b, where 'a=nat] by simp
  have "word_of_nat (unat b + 256 * of_le_bytes bs) = b"
  proof -
    have "word_of_nat (256 * of_le_bytes bs) = (0 :: 8 word)" by (simp only: word_of_nat_eq_0_iff) simp
    then show ?thesis by (simp only: of_nat_add of_nat_unat ucast_id) simp
  qed
  moreover have "(unat b + 256 * of_le_bytes bs) div 256 = of_le_bytes bs" using b by simp
  ultimately show ?case using Cons by auto
qed simp

lemma split_prefix_sound:
  assumes "split_prefix pre = (length payload, checksum crc v payload, v)" "length pre = rec_prefix"
  shows "pre = record_prefix crc v payload"
proof -
  have "pre = take 4 pre @ take 4 (drop 4 pre) @ take 8 (drop 8 pre)"
    using assms(2) by (intro nth_equalityI) (auto simp: rec_prefix_def nth_append)
  also have "take 4 pre = le_bytes 4 (length payload)"
    using assms le_bytes_of_le_bytes [of "take 4 pre" 4] by (simp add: split_prefix_def rec_prefix_def)
  also have "take 4 (drop 4 pre) = le_bytes 4 (checksum crc v payload)"
    using assms le_bytes_of_le_bytes [of "take 4 (drop 4 pre)" 4] by (simp add: split_prefix_def rec_prefix_def)
  also have "take 8 (drop 8 pre) = le_bytes 8 v"
    using assms le_bytes_of_le_bytes [of "take 8 (drop 8 pre)" 8] by (simp add: split_prefix_def rec_prefix_def)
  finally show ?thesis by (simp add: record_prefix_def)
qed

text \<open>Every record a scan hands over stands in the file, checksum and all, in order.\<close>

lemma scan_loop_sound:
  "scan_loop crc visit file_len pos rest st = Inr (sc, st') \<Longrightarrow>
   \<exists>rs rest' stopped. rest = encode_records crc rs @ rest' \<and>
     visit_records visit rs pos st = Inr (scan_end sc, st', stopped) \<and> scan_file_len sc = file_len"
proof (induction "length rest" arbitrary: pos rest st rule: less_induct)
  case less
  let ?pre = "take rec_prefix rest"
  obtain len found version where split: "split_prefix ?pre = (len, found, version)" by (cases "split_prefix ?pre") auto
  let ?payload = "take len (drop rec_prefix rest)"
  let ?rest = "drop len (drop rec_prefix rest)"
  show ?case
  proof (cases "length ?pre = rec_prefix \<and> len \<noteq> 0 \<and> \<not> (max_payload < len \<or> file_len - (pos + rec_prefix) < len)
      \<and> length ?payload = len \<and> checksum crc version ?payload = found")
    case False
    then have "scan_end sc = pos \<and> scan_file_len sc = file_len \<and> st' = st" using less.prems split
      by (subst (asm) scan_loop.simps) (auto simp: Let_def split: if_splits)
    then show ?thesis by (intro exI [of _ "[]"] exI [of _ rest] exI [of _ False]) simp
  next
    case True
    then have nz: "length ?pre \<noteq> 0" by (simp add: rec_prefix_def)
    let ?r = "\<lparr>rec_version = version, rec_patch = ?payload\<rparr>"
    have "?pre = record_prefix crc version ?payload" using True split by (intro split_prefix_sound) auto
    then have r: "encode_record crc ?r @ ?rest = rest"
      unfolding encode_record_def log_record.simps by (metis append.assoc append_take_drop_id)
    have step: "scan_loop crc visit file_len pos rest st =
      (case visit version ?payload st of Inl e \<Rightarrow> Inl e
       | Inr (st1, stop) \<Rightarrow> if stop then Inr (\<lparr>scan_end = pos + rec_prefix + length ?payload,
             scan_file_len = file_len, scan_torn = False\<rparr>, st1)
           else scan_loop crc visit file_len (pos + rec_prefix + length ?payload) ?rest st1)"
    proof -
      have len: "length ?payload = len" using True by blast
      show ?thesis unfolding len using True split nz
        by (subst scan_loop.simps) (simp only: Let_def split prod.case if_False if_True simp_thms len)
    qed
    obtain st1 stop where v: "visit version ?payload st = Inr (st1, stop)"
      using less.prems step by (auto split: sum.splits)
    show ?thesis
    proof (cases stop)
      case True
      then show ?thesis using less.prems step v r
        by (intro exI [of _ "[?r]"] exI [of _ ?rest] exI [of _ True]) auto
    next
      case False
      have "scan_loop crc visit file_len (pos + rec_prefix + length ?payload) ?rest st1 = Inr (sc, st')"
        using less.prems step v False by simp
      moreover have "length ?rest < length rest" using nz by (auto simp: rec_prefix_def)
      ultimately obtain rs rest' stopped where "?rest = encode_records crc rs @ rest'"
        "visit_records visit rs (pos + rec_prefix + length ?payload) st1 = Inr (scan_end sc, st', stopped)"
        "scan_file_len sc = file_len" using less.hyps by blast
      then show ?thesis using v False r
        by (intro exI [of _ "?r # rs"] exI [of _ rest'] exI [of _ stopped]) (auto simp: Let_def)
    qed
  qed
qed

lemma length_encode_records [simp]:
  "length (encode_records crc rs) = (\<Sum>r\<leftarrow>rs. rec_prefix + length (rec_patch r))"
  by (induction rs) auto

lemma length_segment_bytes: "length (segment_bytes crc rs) = seg_prologue + length (encode_records crc rs)"
  by (simp add: segment_bytes_def)

lemma scan_segment:
  assumes "\<forall>r \<in> set rs. storable r"
  shows "scan_bytes crc bad visit (segment_bytes crc rs @ rest) st =
    (case visit_records visit rs seg_prologue st of
       Inl e \<Rightarrow> Inl e
     | Inr (pos', st', stopped) \<Rightarrow>
         if stopped then Inr (\<lparr>scan_end = pos', scan_file_len = length (segment_bytes crc rs @ rest), scan_torn = False\<rparr>, st')
         else scan_loop crc visit (length (segment_bytes crc rs @ rest)) pos' rest st')"
  unfolding scan_bytes_segment
  by (rule scan_loop_records) (use assms in \<open>simp_all add: length_segment_bytes\<close>)

lemma seg_records_segment:
  assumes "\<forall>r \<in> set rs. storable r"
  shows "seg_records crc (segment_bytes crc rs @ replicate z 0) = rs"
  using assms by (simp add: seg_records_def scan_segment scan_loop_zeros)

lemma scan_loop_total:
  "\<exists>sc out'. scan_loop crc collect_all file_len pos rest out = (Inr (sc, out') :: 'e + scan \<times> log_record list)"
proof (induction "length rest" arbitrary: pos rest out rule: less_induct)
  case less
  show ?case
  proof (cases "length rest < rec_prefix")
    case True
    then show ?thesis by (subst scan_loop.simps) (simp add: Let_def)
  next
    case False
    then have "\<And>len pos out. \<exists>sc out'. scan_loop crc collect_all file_len pos (drop len (drop rec_prefix rest)) out
        = (Inr (sc, out') :: 'e + scan \<times> log_record list)"
      by (intro less) (auto simp: rec_prefix_def)
    then show ?thesis
      by (subst scan_loop.simps) (simp add: Let_def collect_all_def split: prod.split)
  qed
qed

lemma visit_collect_all_Inr:
  "visit_records collect_all rs pos out = (Inr (e, out', b) :: 'e + nat \<times> log_record list \<times> bool) \<Longrightarrow> out' = out @ rs"
  by (simp add: visit_collect_all)

section \<open>Segment names\<close>

lemma char_digit: "n < 10 \<Longrightarrow> of_char (char_of (48 + n) :: char) = (48 + n :: nat)"
  by simp

lemma digits_value_snoc [simp]: "digits_value (s @ [c]) = digits_value s * 10 + (of_char c - 48)"
  by (simp add: digits_value_def)

lemma dec_digits_value [simp]: "digits_value (dec_digits n) = n"
proof (induction n rule: dec_digits.induct)
  case (1 n)
  show ?case
  proof (cases "n < 10")
    case True
    then show ?thesis by (subst dec_digits.simps) (simp add: digits_value_def char_digit)
  next
    case False
    then show ?thesis using 1 by (subst dec_digits.simps) (simp add: char_digit)
  qed
qed

lemma is_ascii_digit_char: "(n :: nat) < 10 \<Longrightarrow> is_ascii_digit (char_of (48 + n))"
  by (simp add: is_ascii_digit_def char_digit)

lemma dec_digits_ascii: "list_all is_ascii_digit (dec_digits n)"
proof (induction n rule: dec_digits.induct)
  case (1 n)
  then show ?case
    by (cases "n < 10"; subst dec_digits.simps) (simp_all add: is_ascii_digit_char)
qed

lemma length_dec_digits: "n < 10 ^ k \<Longrightarrow> 0 < k \<Longrightarrow> length (dec_digits n) \<le> k"
proof (induction n arbitrary: k rule: dec_digits.induct)
  case (1 n)
  show ?case
  proof (cases "n < 10")
    case True
    then show ?thesis using "1.prems" by (subst dec_digits.simps) simp
  next
    case False
    obtain k' where k: "k = Suc k'" using "1.prems" by (cases k) auto
    have "0 < k'" using "1.prems" False k by (cases k') auto
    note k = k this
    have "n div 10 < 10 ^ k'" using "1.prems" k by (simp add: div_less_iff_less_mult mult.commute)
    then show ?thesis using 1 False k by (subst dec_digits.simps) auto
  qed
qed

lemma digits_value_zeros: "digits_value (replicate k (CHR ''0'') @ s) = digits_value s"
  by (induction k) (simp_all add: digits_value_def)

lemma segment_name_parses [simp]: "n \<le> u64_max \<Longrightarrow> parse_segment_name (segment_name n) = Some n"
proof -
  assume n: "n \<le> u64_max"
  let ?d = "replicate (18 - length (dec_digits n)) (CHR ''0'') @ dec_digits n"
  have "length (dec_digits n) \<le> 20" using n by (intro length_dec_digits) (auto simp: u64_max_def)
  then have len: "18 \<le> length ?d" "length ?d \<le> 20" by auto
  have digits: "list_all is_ascii_digit ?d" using dec_digits_ascii [of n]
    by (auto simp: list_all_iff is_ascii_digit_def)
  have "strip_suffix ''.seg'' (segment_name n) = Some ?d"
    by (simp add: strip_suffix_def segment_name_def Let_def)
  then show ?thesis using len digits n
    by (simp add: parse_segment_name_def parse_u64_digits_def digits_value_zeros)
qed

lemma segment_name_inject: "n \<le> u64_max \<Longrightarrow> m \<le> u64_max \<Longrightarrow> segment_name n = segment_name m \<longleftrightarrow> n = m"
  by (metis segment_name_parses option.inject)

section \<open>Properties\<close>

text \<open>
  A segment's name names its first version: every 64-bit version prints to a name that
  parses back to it, different versions get different names, and a name that parses is
  \<open>.seg\<close> after 18 to 20 digits whose value fits in 64 bits.
\<close>

theorem segment_name_roundtrip:
  "(\<forall>n. n \<le> u64_max \<longrightarrow> parse_segment_name (segment_name n) = Some n) \<and>
   inj_on segment_name {n. n \<le> u64_max} \<and>
   (\<forall>name n. parse_segment_name name = Some n \<longrightarrow> n \<le> u64_max \<and>
      (\<exists>digits. name = digits @ ''.seg'' \<and> 18 \<le> length digits \<and> length digits \<le> 20 \<and> digits_value digits = n))"
proof (intro conjI allI impI)
  show "inj_on segment_name {n. n \<le> u64_max}" by (auto intro!: inj_onI simp: segment_name_inject)
  fix name n
  assume p: "parse_segment_name name = Some n"
  then obtain digits where d: "strip_suffix ''.seg'' name = Some digits" "18 \<le> length digits"
    "length digits \<le> 20" "parse_u64_digits digits = Some n"
    by (auto simp: parse_segment_name_def split: option.splits if_splits)
  have "name = digits @ ''.seg''" using d(1)
    by (metis append_take_drop_id option.distinct(1) option.inject strip_suffix_def)
  then show "n \<le> u64_max" "\<exists>digits. name = digits @ ''.seg'' \<and> 18 \<le> length digits \<and> length digits \<le> 20 \<and> digits_value digits = n"
    using d by (auto simp: parse_u64_digits_def split: if_splits)
qed simp

theorem segment_name_roundtrip_witness:
  "parse_segment_name ''000000000000000042.seg'' = Some 42"
proof -
  have "segment_name 42 = ''000000000000000042.seg''"
  proof -
    have "(of_char (char_of (52 :: nat) :: char) :: nat) = of_char (CHR ''4'')"
      "(of_char (char_of (50 :: nat) :: char) :: nat) = of_char (CHR ''2'')" by simp_all
    then have "(char_of (52 :: nat) :: char) = CHR ''4''" "(char_of (50 :: nat) :: char) = CHR ''2''"
      by (simp_all only: of_char_eq_iff)
    moreover from this have "dec_digits 4 = ''4''" by (subst dec_digits.simps) simp
    ultimately have "dec_digits 42 = ''42''" by (subst dec_digits.simps) simp
    then show ?thesis by (simp add: segment_name_def Let_def numeral_eq_Suc)
  qed
  then show ?thesis using segment_name_roundtrip [THEN conjunct1, rule_format, of 42] by (simp add: u64_max_def)
qed

text \<open>
  A scan finds what was appended. Over a segment holding \<open>rs\<close> and nothing but zeros
  above them (preallocation, or a failed append cleaned up) it hands over exactly \<open>rs\<close> and
  ends right after them, whatever the checksum function. Whatever else a crash left above
  them, it still hands over \<open>rs\<close> first, and then only records that stand in the file.
\<close>

theorem scan_finds_the_records:
  assumes "\<forall>r \<in> set rs. storable r"
  shows "scan_bytes crc bad collect_all (segment_bytes crc rs @ replicate z 0) [] =
      Inr (\<lparr>scan_end = length (segment_bytes crc rs), scan_file_len = length (segment_bytes crc rs) + z,
            scan_torn = (0 < z \<and> z < 16)\<rparr>, rs)
    \<and> (\<forall>junk. \<exists>sc more rest. scan_bytes crc bad collect_all (segment_bytes crc rs @ junk) [] = Inr (sc, rs @ more)
        \<and> junk = encode_records crc more @ rest)"
proof (intro conjI allI)
  show "scan_bytes crc bad collect_all (segment_bytes crc rs @ replicate z 0) [] =
      Inr (\<lparr>scan_end = length (segment_bytes crc rs), scan_file_len = length (segment_bytes crc rs) + z,
            scan_torn = (0 < z \<and> z < 16)\<rparr>, rs)"
    using assms by (simp add: scan_segment scan_loop_zeros length_segment_bytes rec_prefix_def)
next
  fix junk
  let ?n = "length (segment_bytes crc rs @ junk)" and ?pos = "seg_prologue + length (encode_records crc rs)"
  obtain sc out where loop: "scan_loop crc collect_all ?n ?pos junk rs = (Inr (sc, out) :: 'a + _)"
    using scan_loop_total by blast
  then obtain more rest stopped where "junk = encode_records crc more @ rest"
    "visit_records collect_all more ?pos rs = (Inr (scan_end sc, out, stopped) :: 'a + _)"
    using scan_loop_sound [OF loop] by blast
  moreover have "scan_bytes crc bad collect_all (segment_bytes crc rs @ junk) [] = Inr (sc, out)"
    using assms loop by (simp add: scan_segment)
  ultimately show "\<exists>sc more rest. scan_bytes crc bad collect_all (segment_bytes crc rs @ junk) [] = Inr (sc, rs @ more)
        \<and> junk = encode_records crc more @ rest"
    using visit_collect_all_Inr by blast
qed

theorem scan_finds_the_records_witness:
  "scan_bytes (\<lambda>_. 7) () collect_all (segment_bytes (\<lambda>_. 7) [\<lparr>rec_version = 1, rec_patch = [9]\<rparr>] @ replicate 3 0) []
    = Inr (\<lparr>scan_end = 33, scan_file_len = 36, scan_torn = True\<rparr>, [\<lparr>rec_version = 1, rec_patch = [9]\<rparr>])"
proof -
  have "\<forall>r \<in> set [\<lparr>rec_version = 1, rec_patch = [9]\<rparr>]. storable r"
    by (simp add: storable_def max_payload_def u64_max_def)
  from scan_finds_the_records [OF this, of "\<lambda>_. 7" "()" 3, THEN conjunct1] show ?thesis
    by (simp add: length_segment_bytes seg_prologue_def rec_prefix_def)
qed

end
