(* ===== verification/WalSys.thy ===== *)
theory WalSys
  imports WalFormat
begin

text \<open>
  \<open>crates/lug-wal/src/sys.rs\<close> over a model of the log directory. A file is its content and the
  content that has reached the disk. What the kernel answers to the calls that change something
  is read from a list of faults, one per call: an error number, a short write, or success,
  which is also what an exhausted list means. Calls that only read fail for missing files
  only, and directory entries are durable as soon as they are made.
\<close>

section \<open>Files and faults\<close>

datatype io_error = Os nat | WriteZero | NotFound

datatype fault = FOk | FErr nat | FShort nat

record disk_file =
  f_data :: bytes
  f_stable :: bytes

record fs =
  fs_files :: "(string, disk_file) btree_map"
  fs_faults :: "fault list"
  fs_locked :: bool

definition eintr :: nat where "eintr = 4"
definition enosys :: nat where "enosys = 38"
definition eopnotsupp :: nat where "eopnotsupp = 95"

text \<open>One call, and a call that is repeated while it is interrupted.\<close>

fun sys_call :: "fault list \<Rightarrow> fault list \<times> (io_error + unit)" where
  "sys_call [] = ([], Inr ())"
| "sys_call (FErr n # fl) = (fl, Inl (Os n))"
| "sys_call (_ # fl) = (fl, Inr ())"

fun sys_retry :: "fault list \<Rightarrow> fault list \<times> (io_error + unit)" where
  "sys_retry [] = ([], Inr ())"
| "sys_retry (FErr n # fl) = (if n = eintr then sys_retry fl else (fl, Inl (Os n)))"
| "sys_retry (_ # fl) = (fl, Inr ())"

section \<open>Writing\<close>

definition write_at :: "nat \<Rightarrow> bytes \<Rightarrow> bytes \<Rightarrow> bytes" where
  "write_at off bs data =
     take off data @ replicate (off - length data) 0 @ bs @ drop (off + length bs) data"

definition resize :: "nat \<Rightarrow> bytes \<Rightarrow> bytes" where
  "resize n data = take n data @ replicate (n - length data) 0"

text \<open>\<open>IoSlice::advance_slices\<close>: drop whole buffers, then the front of the next one.\<close>

fun advance_slices :: "nat \<Rightarrow> bytes list \<Rightarrow> bytes list" where
  "advance_slices n [] = []"
| "advance_slices n (b # bs) = (if length b \<le> n then advance_slices (n - length b) bs else drop n b # bs)"

definition iov_max :: nat where "iov_max = 1024"

lemma concat_advance_slices [simp]: "concat (advance_slices n bufs) = drop n (concat bufs)"
  by (induction n bufs rule: advance_slices.induct) auto

text \<open>
  The call itself: how many bytes of the chunk went out. \<open>None\<close> stands for an interrupt.
\<close>

definition pwritev_call :: "fault list \<Rightarrow> nat \<Rightarrow> fault list \<times> (io_error + nat) option" where
  "pwritev_call fl total_len =
     (case fl of
        [] \<Rightarrow> ([], Some (Inr total_len))
      | FOk # fl' \<Rightarrow> (fl', Some (Inr total_len))
      | FShort n # fl' \<Rightarrow> (fl', Some (Inr (min n total_len)))
      | FErr n # fl' \<Rightarrow> (fl', if n = eintr then None else Some (Inl (Os n))))"

lemma pwritev_call_faults:
  "pwritev_call fl total_len = (fl', r) \<Longrightarrow> length fl' \<le> length fl \<and> (r = None \<longrightarrow> length fl' < length fl)"
  by (auto simp: pwritev_call_def split: list.splits fault.splits if_splits)

lemma pwritev_call_written:
  "pwritev_call fl total_len = (fl', Some (Inr n)) \<Longrightarrow> n \<le> total_len"
  by (auto simp: pwritev_call_def split: list.splits fault.splits if_splits)

lemma length_concat_take: "length (concat (take n bufs)) \<le> length (concat bufs)"
  by (metis append_take_drop_id concat_append length_append le_add1)

lemma pwritev_call_progress:
  assumes "pwritev_call fl (length (concat (take iov_max bufs))) = (fl', Some (Inr n))" "0 < n"
  shows "length fl' + (length (concat bufs) - n) < length fl + length (concat bufs)"
  using pwritev_call_faults [OF assms(1)] pwritev_call_written [OF assms(1)] assms(2)
    length_concat_take [of iov_max bufs] by simp

function pwritev_all ::
    "bytes list \<Rightarrow> nat \<Rightarrow> fault list \<Rightarrow> bytes \<Rightarrow> fault list \<times> bytes \<times> (io_error + unit)" where
  "pwritev_all bufs off fl data =
     (if bufs = [] then (fl, data, Inr ())
      else
        let chunk = concat (take iov_max bufs) in
        case pwritev_call fl (length chunk) of
          (fl', None) \<Rightarrow> pwritev_all bufs off fl' data
        | (fl', Some (Inl e)) \<Rightarrow> (fl', data, Inl e)
        | (fl', Some (Inr written)) \<Rightarrow>
            if written = 0 then (fl', data, Inl WriteZero)
            else pwritev_all (advance_slices written bufs) (off + written) fl'
                   (write_at off (take written chunk) data))"
  by pat_completeness auto

termination
  by (relation "measure (\<lambda>(bufs, off, fl, data). length fl + length (concat bufs))")
    (auto dest: pwritev_call_faults [OF sym] pwritev_call_progress [OF sym] simp del: length_concat)

declare pwritev_all.simps [simp del]

function zero_loop ::
    "nat \<Rightarrow> nat \<Rightarrow> nat \<Rightarrow> fault list \<Rightarrow> bytes \<Rightarrow> fault list \<times> bytes \<times> (io_error + unit)" where
  "zero_loop off len done fl data =
     (if done < len
      then let span = min (len - done) 65536 in
           case pwritev_all [replicate span 0] (off + done) fl data of
             (fl', data', Inl e) \<Rightarrow> (fl', data', Inl e)
           | (fl', data', Inr _) \<Rightarrow> zero_loop off len (done + span) fl' data'
      else (fl, data, Inr ()))"
  by pat_completeness auto

termination
  by (relation "measure (\<lambda>(off, len, done, fl, data). len - done)") auto

declare zero_loop.simps [simp del]

definition zero_range :: "nat \<Rightarrow> nat \<Rightarrow> fault list \<Rightarrow> bytes \<Rightarrow> fault list \<times> bytes \<times> (io_error + unit)" where
  "zero_range off len fl data = zero_loop off len 0 fl data"

text \<open>
  \<open>fallocate\<close> never shrinks; where it is not supported \<open>set_len\<close> takes its place, which does.
\<close>

definition preallocate :: "nat \<Rightarrow> fault list \<Rightarrow> bytes \<Rightarrow> fault list \<times> bytes \<times> (io_error + unit)" where
  "preallocate len fl data =
     (case sys_call fl of
        (fl', Inr _) \<Rightarrow> (fl', if length data < len then resize len data else data, Inr ())
      | (fl', Inl e) \<Rightarrow>
          if e = Os eopnotsupp \<or> e = Os enosys
          then (case sys_retry fl' of
                  (fl'', Inr _) \<Rightarrow> (fl'', resize len data, Inr ())
                | (fl'', Inl e') \<Rightarrow> (fl'', data, Inl e'))
          else (fl', data, Inl e))"

section \<open>The directory\<close>

text \<open>An operation on the content of one open file.\<close>

definition fs_write ::
    "string \<Rightarrow> (fault list \<Rightarrow> bytes \<Rightarrow> fault list \<times> bytes \<times> (io_error + unit)) \<Rightarrow> fs \<Rightarrow> fs \<times> (io_error + unit)" where
  "fs_write name op fs =
     (case bt_get (fs_files fs) name of
        None \<Rightarrow> (fs, Inl NotFound)
      | Some f \<Rightarrow>
          (case op (fs_faults fs) (f_data f) of
             (fl, data, res) \<Rightarrow>
               (fs\<lparr>fs_files := bt_insert name (f\<lparr>f_data := data\<rparr>) (fs_files fs), fs_faults := fl\<rparr>, res)))"

definition fs_set_len :: "string \<Rightarrow> nat \<Rightarrow> fs \<Rightarrow> fs \<times> (io_error + unit)" where
  "fs_set_len name len =
     fs_write name (\<lambda>fl data. case sys_retry fl of
         (fl', Inr _) \<Rightarrow> (fl', resize len data, Inr ())
       | (fl', Inl e) \<Rightarrow> (fl', data, Inl e))"

definition fs_flush :: "string \<Rightarrow> fs \<Rightarrow> fs \<times> (io_error + unit)" where
  "fs_flush name fs =
     (case sys_retry (fs_faults fs) of
        (fl, Inl e) \<Rightarrow> (fs\<lparr>fs_faults := fl\<rparr>, Inl e)
      | (fl, Inr _) \<Rightarrow>
          (case bt_get (fs_files fs) name of
             None \<Rightarrow> (fs\<lparr>fs_faults := fl\<rparr>, Inl NotFound)
           | Some f \<Rightarrow>
               (fs\<lparr>fs_files := bt_insert name (f\<lparr>f_stable := f_data f\<rparr>) (fs_files fs), fs_faults := fl\<rparr>, Inr ())))"

definition fs_fdatasync :: "string \<Rightarrow> fs \<Rightarrow> fs \<times> (io_error + unit)" where
  "fs_fdatasync name fs = fs_flush name fs"

definition fs_fsync :: "string \<Rightarrow> fs \<Rightarrow> fs \<times> (io_error + unit)" where
  "fs_fsync name fs = fs_flush name fs"

text \<open>Flushing the directory handle, and taking its lock.\<close>

definition fs_sync_dir :: "fs \<Rightarrow> fs \<times> (io_error + unit)" where
  "fs_sync_dir fs = (case sys_retry (fs_faults fs) of (fl, r) \<Rightarrow> (fs\<lparr>fs_faults := fl\<rparr>, r))"

definition try_lock_dir :: "fs \<Rightarrow> fs \<times> (io_error + bool)" where
  "try_lock_dir fs =
     (case sys_call (fs_faults fs) of
        (fl, Inl e) \<Rightarrow> (fs\<lparr>fs_faults := fl\<rparr>, Inl e)
      | (fl, Inr _) \<Rightarrow>
          if fs_locked fs then (fs\<lparr>fs_faults := fl\<rparr>, Inr False)
          else (fs\<lparr>fs_faults := fl, fs_locked := True\<rparr>, Inr True))"

definition empty_file :: disk_file where
  "empty_file = \<lparr>f_data = [], f_stable = []\<rparr>"

text \<open>\<open>open\<close> with \<open>create\<close> and without \<open>truncate\<close>; \<open>File::create\<close> truncates.\<close>

definition fs_open_rw :: "string \<Rightarrow> fs \<Rightarrow> fs \<times> (io_error + unit)" where
  "fs_open_rw name fs =
     (case sys_retry (fs_faults fs) of
        (fl, Inl e) \<Rightarrow> (fs\<lparr>fs_faults := fl\<rparr>, Inl e)
      | (fl, Inr _) \<Rightarrow>
          (case bt_get (fs_files fs) name of
             Some f \<Rightarrow> (fs\<lparr>fs_faults := fl\<rparr>, Inr ())
           | None \<Rightarrow> (fs\<lparr>fs_files := bt_insert name empty_file (fs_files fs), fs_faults := fl\<rparr>, Inr ())))"

definition fs_create :: "string \<Rightarrow> fs \<Rightarrow> fs \<times> (io_error + unit)" where
  "fs_create name fs =
     (case sys_retry (fs_faults fs) of
        (fl, Inl e) \<Rightarrow> (fs\<lparr>fs_faults := fl\<rparr>, Inl e)
      | (fl, Inr _) \<Rightarrow>
          (fs\<lparr>fs_files := bt_insert name
               (case bt_get (fs_files fs) name of Some f \<Rightarrow> f\<lparr>f_data := []\<rparr> | None \<Rightarrow> empty_file) (fs_files fs),
             fs_faults := fl\<rparr>, Inr ()))"

definition fs_write_all :: "string \<Rightarrow> bytes \<Rightarrow> fs \<Rightarrow> fs \<times> (io_error + unit)" where
  "fs_write_all name bs = fs_write name (pwritev_all [bs] 0)"

definition rename_at :: "string \<Rightarrow> string \<Rightarrow> fs \<Rightarrow> fs \<times> (io_error + unit)" where
  "rename_at from_name to_name fs =
     (case sys_call (fs_faults fs) of
        (fl, Inl e) \<Rightarrow> (fs\<lparr>fs_faults := fl\<rparr>, Inl e)
      | (fl, Inr _) \<Rightarrow>
          (case bt_get (fs_files fs) from_name of
             None \<Rightarrow> (fs\<lparr>fs_faults := fl\<rparr>, Inl NotFound)
           | Some f \<Rightarrow>
               (fs\<lparr>fs_files := bt_insert to_name f (bt_remove from_name (fs_files fs)), fs_faults := fl\<rparr>, Inr ())))"

definition fs_unlink :: "string \<Rightarrow> fs \<Rightarrow> fs \<times> (io_error + unit)" where
  "fs_unlink name fs =
     (case sys_call (fs_faults fs) of
        (fl, Inl e) \<Rightarrow> (fs\<lparr>fs_faults := fl\<rparr>, Inl e)
      | (fl, Inr _) \<Rightarrow>
          (case bt_get (fs_files fs) name of
             None \<Rightarrow> (fs\<lparr>fs_faults := fl\<rparr>, Inl NotFound)
           | Some f \<Rightarrow> (fs\<lparr>fs_files := bt_remove name (fs_files fs), fs_faults := fl\<rparr>, Inr ())))"

section \<open>What a vectored write leaves behind\<close>

lemma write_at_Nil: "off \<le> length data \<Longrightarrow> write_at off [] data = data"
  by (simp add: write_at_def)

lemma length_write_at [simp]: "length (write_at off bs data) = max (length data) (off + length bs)"
  by (auto simp: write_at_def)

lemma write_at_append:
  "off \<le> length data \<Longrightarrow>
   write_at (off + length xs) ys (write_at off xs data) = write_at off (xs @ ys) data"
  by (cases "length data = off") (auto simp: write_at_def min_def ac_simps)

text \<open>
  Whatever the kernel answers, a vectored write leaves a prefix of its bytes at its offset, and
  all of them when it succeeds.
\<close>

lemma pwritev_all_prefix:
  assumes "off \<le> length data" "pwritev_all bufs off fl data = (fl', data', res)"
  shows "\<exists>n \<le> length (concat bufs). data' = write_at off (take n (concat bufs)) data \<and>
    (res = Inr () \<longrightarrow> n = length (concat bufs))"
  using assms
proof (induction bufs off fl data rule: pwritev_all.induct)
  case (1 bufs off fl data)
  let ?chunk = "concat (take iov_max bufs)"
  show ?case
  proof (cases "bufs = []")
    case True
    then show ?thesis using "1.prems" by (subst (asm) pwritev_all.simps) (simp add: write_at_Nil)
  next
    case False
    obtain fl1 r where call: "pwritev_call fl (length ?chunk) = (fl1, r)" by (cases "pwritev_call fl (length ?chunk)")
    show ?thesis
    proof (cases r)
      case None
      then have "pwritev_all bufs off fl1 data = (fl', data', res)"
        using "1.prems"(2) False call by (subst (asm) pwritev_all.simps) (simp add: Let_def)
      then show ?thesis using "1.IH"(1) [OF False refl call [symmetric] None "1.prems"(1)] by simp
    next
      case (Some w)
      show ?thesis
      proof (cases "w = Inr 0 \<or> (\<exists>e. w = Inl e)")
        case True
        then have "data' = data \<and> res \<noteq> Inr ()"
          using "1.prems"(2) False call Some by (subst (asm) pwritev_all.simps) (auto simp: Let_def)
        then show ?thesis using "1.prems"(1) by (intro exI [of _ 0]) (simp add: write_at_Nil)
      next
        case False': False
        then obtain k where k: "w = Inr k" "k \<noteq> 0" by (cases w) auto
        have len: "k \<le> length ?chunk" using call Some k pwritev_call_written by blast
        then have short: "take k ?chunk = take k (concat bufs)"
          by (metis append_take_drop_id concat_append take_append diff_is_0_eq' take0 append_Nil2)
        have total_len: "k \<le> length (concat bufs)" using len length_concat_take [of iov_max bufs] by simp
        let ?data = "write_at off (take k ?chunk) data"
        have step: "pwritev_all (advance_slices k bufs) (off + k) fl1 ?data = (fl', data', res)"
          using "1.prems"(2) False call Some k by (subst (asm) pwritev_all.simps) (simp add: Let_def)
        have "off + k \<le> length ?data" using len by simp
        from "1.IH"(2) [OF False refl call [symmetric] Some k this step]
        obtain n where n: "n \<le> length (concat bufs) - k"
          "data' = write_at (off + k) (take n (drop k (concat bufs))) ?data"
          "res = Inr () \<longrightarrow> n = length (concat bufs) - k" by auto
        have "data' = write_at off (take k (concat bufs) @ take n (drop k (concat bufs))) data"
          using write_at_append [OF "1.prems"(1), of "take k (concat bufs)"] n(2) total_len unfolding short by simp
        also have "take k (concat bufs) @ take n (drop k (concat bufs)) = take (k + n) (concat bufs)"
          by (simp add: take_add)
        finally show ?thesis using n total_len by (intro exI [of _ "k + n"]) auto
      qed
    qed
  qed
qed

lemma write_at_zeros:
  "n \<le> length bs \<Longrightarrow>
   write_at (length base) (take n bs) (base @ replicate z 0) = base @ take n bs @ replicate (z - n) 0"
  by (simp add: write_at_def min_def)

lemma zero_loop_ok:
  "off + done \<le> length data \<Longrightarrow> done \<le> len \<Longrightarrow> zero_loop off len done fl data = (fl', data', Inr ()) \<Longrightarrow>
   data' = write_at (off + done) (replicate (len - done) 0) data"
proof (induction off len "done" fl data rule: zero_loop.induct)
  case (1 off len "done" fl data)
  show ?case
  proof (cases "done < len")
    case False
    then show ?thesis using "1.prems" by (subst (asm) zero_loop.simps) (simp add: write_at_Nil)
  next
    case True
    let ?span = "min (len - done) 65536"
    obtain fl1 data1 res where w: "pwritev_all [replicate ?span 0] (off + done) fl data = (fl1, data1, res)"
      by (cases "pwritev_all [replicate ?span 0] (off + done) fl data")
    have res: "res = Inr ()" and next1: "zero_loop off len (done + ?span) fl1 data1 = (fl', data', Inr ())"
      using "1.prems"(3) True w by (subst (asm) zero_loop.simps; auto simp: Let_def split: sum.splits)+
    have d1: "data1 = write_at (off + done) (replicate ?span 0) data"
      using pwritev_all_prefix [OF "1.prems"(1) w] res by auto
    have "off + (done + ?span) \<le> length data1" using d1 by simp
    from "1.IH" [OF True refl w [symmetric] refl res this _ next1]
    have "data' = write_at (off + done + ?span) (replicate (len - done - ?span) 0) data1"
      using True by (simp add: add.assoc)
    also have "\<dots> = write_at (off + done) (replicate ?span 0 @ replicate (len - done - ?span) 0) data"
      using write_at_append [OF "1.prems"(1), of "replicate ?span 0"] by (simp add: d1)
    also have "replicate ?span (0 :: 8 word) @ replicate (len - done - ?span) 0 = replicate (len - done) 0"
      by (simp flip: replicate_add)
    finally show ?thesis .
  qed
qed

lemma zero_range_ok:
  "off \<le> length data \<Longrightarrow> zero_range off len fl data = (fl', data', Inr ()) \<Longrightarrow>
   data' = write_at off (replicate len 0) data"
  using zero_loop_ok [of off 0 data len fl fl' data'] by (simp add: zero_range_def)

lemma preallocate_zeros:
  assumes "preallocate len fl (base @ replicate z 0) = (fl', data', res)" "length base \<le> len"
  shows "\<exists>z'. data' = base @ replicate z' 0"
proof -
  obtain z' where "resize len (base @ replicate z 0) = base @ replicate z' 0"
    using assms(2) by (auto simp: resize_def min_def simp flip: replicate_add)
  then show ?thesis using assms(1)
    by (simp add: preallocate_def split: prod.splits sum.splits if_splits) metis+
qed

section \<open>The contents of the directory\<close>

text \<open>
  Reading depends on the contents only; this is what each call does to them. Names are
  unique because the directory is sorted.
\<close>

definition fs_wf :: "fs \<Rightarrow> bool" where
  "fs_wf fs \<longleftrightarrow> bt_wf (fs_files fs)"

definition contents :: "fs \<Rightarrow> string \<Rightarrow> bytes option" where
  "contents fs name = map_option f_data (bt_get (fs_files fs) name)"

named_theorems fs_simps \<open>effect of the calls on the contents\<close>

lemma contents_insert: "contents (fs\<lparr>fs_files := bt_insert name f (fs_files fs), fs_faults := fl\<rparr>) =
    (contents fs)(name \<mapsto> f_data f)"
  "contents (fs\<lparr>fs_faults := fl\<rparr>) = contents fs"
  by (auto simp: contents_def fun_eq_iff)

lemma fs_write_contents [fs_simps]:
  assumes "fs_write name op fs = (fs', res)" "contents fs name = Some data" "op (fs_faults fs) data = (fl, data', r)"
  shows "contents fs' = (contents fs)(name \<mapsto> data') \<and> res = r \<and> (fs_wf fs \<longrightarrow> fs_wf fs')"
  using assms by (auto simp: fs_write_def contents_def fs_wf_def fun_eq_iff split: option.splits)

lemma fs_set_len_contents [fs_simps]:
  assumes "fs_set_len name len fs = (fs', res)" "contents fs name = Some data"
  shows "contents fs' = (case res of Inl _ \<Rightarrow> contents fs | Inr _ \<Rightarrow> (contents fs)(name \<mapsto> resize len data))
    \<and> (fs_wf fs \<longrightarrow> fs_wf fs')"
  using assms
  by (auto simp: fs_set_len_def fs_write_def contents_def fs_wf_def fun_eq_iff split: option.splits prod.splits sum.splits)

lemma fs_flush_contents [fs_simps]:
  "fs_flush name fs = (fs', res) \<Longrightarrow> contents fs' = contents fs \<and> (fs_wf fs \<longrightarrow> fs_wf fs')"
  by (auto simp: fs_flush_def contents_def fs_wf_def fun_eq_iff split: option.splits prod.splits sum.splits)

lemma fs_fdatasync_contents [fs_simps]:
  "fs_fdatasync name fs = (fs', res) \<Longrightarrow> contents fs' = contents fs \<and> (fs_wf fs \<longrightarrow> fs_wf fs')"
  "fs_fsync name fs = (fs', res) \<Longrightarrow> contents fs' = contents fs \<and> (fs_wf fs \<longrightarrow> fs_wf fs')"
  by (simp_all add: fs_fdatasync_def fs_fsync_def fs_flush_contents)

lemma fs_sync_dir_contents [fs_simps]:
  "fs_sync_dir fs = (fs', res) \<Longrightarrow> contents fs' = contents fs \<and> (fs_wf fs \<longrightarrow> fs_wf fs')"
  by (auto simp: fs_sync_dir_def contents_def fs_wf_def split: prod.splits)

lemma fs_open_rw_contents [fs_simps]:
  "fs_open_rw name fs = (fs', res) \<Longrightarrow>
   (contents fs' = contents fs \<or> contents fs name = None \<and> contents fs' = (contents fs)(name \<mapsto> [])) \<and>
   (res = Inr () \<longrightarrow> contents fs' name \<noteq> None) \<and> (fs_wf fs \<longrightarrow> fs_wf fs')"
  by (auto simp: fs_open_rw_def contents_def fs_wf_def fun_eq_iff empty_file_def
      split: option.splits prod.splits sum.splits)

lemma fs_create_contents [fs_simps]:
  "fs_create name fs = (fs', res) \<Longrightarrow>
   contents fs' = (case res of Inl _ \<Rightarrow> contents fs | Inr _ \<Rightarrow> (contents fs)(name \<mapsto> [])) \<and> (fs_wf fs \<longrightarrow> fs_wf fs')"
  by (auto simp: fs_create_def contents_def fs_wf_def fun_eq_iff empty_file_def
      split: option.splits prod.splits sum.splits)

lemma rename_at_contents [fs_simps]:
  "rename_at a b fs = (fs', res) \<Longrightarrow>
   contents fs' = (case res of Inl _ \<Rightarrow> contents fs | Inr _ \<Rightarrow> (contents fs)(a := None, b := contents fs a)) \<and>
   (fs_wf fs \<longrightarrow> fs_wf fs')"
  by (auto simp: rename_at_def contents_def fs_wf_def fun_eq_iff split: option.splits prod.splits sum.splits)

lemma fs_unlink_contents [fs_simps]:
  "fs_unlink name fs = (fs', res) \<Longrightarrow>
   contents fs' = (case res of Inl _ \<Rightarrow> contents fs | Inr _ \<Rightarrow> (contents fs)(name := None)) \<and> (fs_wf fs \<longrightarrow> fs_wf fs')"
  by (auto simp: fs_unlink_def contents_def fs_wf_def fun_eq_iff split: option.splits prod.splits sum.splits)

lemma fs_write_all_contents [fs_simps]:
  assumes "fs_write_all name bs fs = (fs', res)" "contents fs name = Some []"
  shows "\<exists>data. contents fs' = (contents fs)(name \<mapsto> data) \<and> (res = Inr () \<longrightarrow> data = bs) \<and> (fs_wf fs \<longrightarrow> fs_wf fs')"
proof -
  obtain fl data r where w: "pwritev_all [bs] 0 (fs_faults fs) [] = (fl, data, r)"
    by (cases "pwritev_all [bs] 0 (fs_faults fs) []")
  have "r = Inr () \<longrightarrow> data = bs" using pwritev_all_prefix [OF _ w] by (auto simp: write_at_def)
  then show ?thesis using fs_write_contents [OF assms(1) [unfolded fs_write_all_def] assms(2) w] by blast
qed

lemma dom_contents: "dom (contents fs) = set (map fst (fs_files fs))"
  by (auto simp: contents_def dom_def bt_get_def map_of_eq_None_iff)

end
