(* ===== verification/WalStore.thy ===== *)
theory WalStore
  imports WalSys
begin

text \<open>
  \<open>crates/lug-wal/src/lib.rs\<close>: a storage made of segment files. Paths are file names in the
  log's directory. The store owns its directory, so the directory is part of its state. The
  checksum and the JSON codec of the header are arguments.
\<close>

section \<open>State\<close>

datatype 'je wal_error =
    Io string io_error
  | Bare io_error
  | NotASegment string
  | NotAHeader
  | HeaderChecksum nat nat nat
  | ShortHeader nat
  | HeaderDisagrees version version
  | HeaderAhead version version
  | JsonError 'je
  | Gap string version version
  | Misnamed string version version
  | TornMidLog string
  | OutOfOrder version version
  | Oversized version nat
  | Reclaimed version version
  | EmptyPayload version
  | CleanupFailed string nat io_error
  | Poisoned string nat
  | Locked
  | Exhausted version

record segment =
  seg_first :: version
  seg_path :: string
  seg_end :: nat
  seg_last :: version

record wal =
  wal_fs :: fs
  wal_segments :: "segment list"
  wal_active :: "string option"
  wal_capacity :: nat
  wal_header_version :: version
  wal_rotate_bytes :: nat
  wal_recovered :: bool
  wal_poison :: "(string \<times> nat) option"

definition default_rotate_bytes :: nat where "default_rotate_bytes = 67108864"
definition header_name :: string where "header_name = ''header''"
definition header_tmp :: string where "header_tmp = ''header.tmp''"
definition dir_path :: string where "dir_path = ''.''"

text \<open>Sequencing of steps that change the state and may fail: the question mark operator.\<close>

definition sbind :: "'s \<times> ('e + 'a) \<Rightarrow> ('a \<Rightarrow> 's \<Rightarrow> 's \<times> ('e + 'b)) \<Rightarrow> 's \<times> ('e + 'b)" where
  "sbind m k = (case m of (s, Inl e) \<Rightarrow> (s, Inl e) | (s, Inr a) \<Rightarrow> k a s)"

text \<open>A system call on the store's directory, its error wrapped with a path.\<close>

definition wal_at :: "string \<Rightarrow> (fs \<Rightarrow> fs \<times> (io_error + 'a)) \<Rightarrow> wal \<Rightarrow> wal \<times> ('je wal_error + 'a)" where
  "wal_at path op w = (case op (wal_fs w) of (fs, r) \<Rightarrow> (w\<lparr>wal_fs := fs\<rparr>, map_err (Io path) r))"

section \<open>Reading the directory\<close>

definition next_version :: "wal \<Rightarrow> version" where
  "next_version w =
     u64_wrapping_add (if wal_segments w = [] then wal_header_version w else seg_last (last (wal_segments w))) 1"

definition listed_segment :: "string \<Rightarrow> segment option" where
  "listed_segment name =
     map_option (\<lambda>first. \<lparr>seg_first = first, seg_path = name, seg_end = 0, seg_last = first - 1\<rparr>)
       (parse_segment_name name)"

definition list_segments :: "fs \<Rightarrow> segment list" where
  "list_segments fs = sort_key seg_first (List.map_filter listed_segment (map fst (fs_files fs)))"

definition read_header ::
    "crc \<Rightarrow> (bytes \<Rightarrow> 'je + version \<times> 'v) \<Rightarrow> ('v \<Rightarrow> version) \<Rightarrow> fs \<Rightarrow> 'je wal_error + (version \<times> 'v) option" where
  "read_header crc hdec vver fs =
     (case bt_get (fs_files fs) header_name of
        None \<Rightarrow> Inr None
      | Some f \<Rightarrow>
          let bs = f_data f in
          if length bs < 16 then Inl (ShortHeader (length bs))
          else if take 8 bs \<noteq> hdr_magic then Inl NotAHeader
          else
            let found = of_le_bytes (take 4 (drop 8 bs));
                len = of_le_bytes (take 4 (drop 12 bs))
            in if length bs < 16 + len then Inl (ShortHeader (length bs))
               else
                 let json = take len (drop 16 bs);
                     computed = unat (crc json)
                 in if computed \<noteq> found then Inl (HeaderChecksum found computed len)
                    else rbind (map_err JsonError (hdec json)) (\<lambda>(version, view).
                      if version \<noteq> vver view then Inl (HeaderDisagrees version (vver view))
                      else Inr (Some (version, view))))"

definition scan_path ::
    "crc \<Rightarrow> string \<Rightarrow> (version \<Rightarrow> bytes \<Rightarrow> 'st \<Rightarrow> 'je wal_error + 'st \<times> bool) \<Rightarrow> fs \<Rightarrow> 'st \<Rightarrow>
     'je wal_error + scan \<times> 'st" where
  "scan_path crc path visit fs st =
     (case bt_get (fs_files fs) path of
        None \<Rightarrow> Inl (Io path NotFound)
      | Some f \<Rightarrow> scan_bytes crc (NotASegment path) visit (f_data f) st)"

section \<open>Recovery\<close>

definition truncate_file :: "string \<Rightarrow> nat \<Rightarrow> fs \<Rightarrow> fs \<times> ('je wal_error + unit)" where
  "truncate_file path len fs =
     (let wrap = (\<lambda>(s, r). (s, map_err (Io path) r)) in
      sbind (wrap (fs_open_rw path fs)) (\<lambda>_ fs.
      sbind (wrap (fs_set_len path len fs)) (\<lambda>_ fs.
      wrap (fs_fsync path fs))))"

text \<open>What recovery does with a record: check its number, count on, keep it if asked.\<close>

definition recover_visit ::
    "string \<Rightarrow> version \<Rightarrow> version \<Rightarrow> bool \<Rightarrow> version \<Rightarrow> bytes \<Rightarrow> version option \<times> log_record list \<Rightarrow>
     'je wal_error + (version option \<times> log_record list) \<times> bool" where
  "recover_visit path first header_version collect version payload st =
     (let (expect, tail) = st;
          go = Inr ((Some (u64_wrapping_add version 1),
                     if collect \<and> header_version < version
                     then tail @ [\<lparr>rec_version = version, rec_patch = payload\<rparr>] else tail), False)
      in case expect of
           Some e \<Rightarrow> if version \<noteq> e then Inl (Gap path e version) else go
         | None \<Rightarrow> if version \<noteq> first then Inl (Misnamed path first version) else go)"

text \<open>
  The segment loop: \<open>settled\<close> segments have been scanned. The segments it returns are the ones
  the store is left with, also after an error.
\<close>

fun recover_loop ::
    "crc \<Rightarrow> version \<Rightarrow> bool \<Rightarrow> segment list \<Rightarrow> segment list \<Rightarrow> version option \<times> log_record list \<Rightarrow> fs \<Rightarrow>
     fs \<times> segment list \<times> ('je wal_error + version option \<times> log_record list)" where
  "recover_loop crc hv collect settled [] st fs = (fs, settled, Inr st)"
| "recover_loop crc hv collect settled (s # rest) st fs =
     (case scan_path crc (seg_path s) (recover_visit (seg_path s) (seg_first s) hv collect) fs st of
        Inl e \<Rightarrow> (fs, settled @ s # rest, Inl e)
      | Inr (sc, expect, tail) \<Rightarrow>
          if scan_torn sc \<and> rest \<noteq> [] then (fs, settled @ s # rest, Inl (TornMidLog (seg_path s)))
          else
            case (if scan_end sc < scan_file_len sc then truncate_file (seg_path s) (scan_end sc) fs
                  else (fs, Inr ())) of
              (fs', Inl e) \<Rightarrow> (fs', settled @ s # rest, Inl e)
            | (fs', Inr _) \<Rightarrow>
                let s' = s\<lparr>seg_end := scan_end sc,
                           seg_last := (case expect of None \<Rightarrow> seg_first s - 1 | Some e \<Rightarrow> u64_wrapping_sub e 1)\<rparr>
                in recover_loop crc hv collect (settled @ [s']) rest (expect, tail) fs')"

definition reopen_last :: "wal \<Rightarrow> wal \<times> ('je wal_error + unit)" where
  "reopen_last w =
     (if wal_segments w = [] then (w, Inr ())
      else
        let s = last (wal_segments w) in
        if seg_last s < wal_header_version w then (w, Inl (HeaderAhead (wal_header_version w) (seg_last s)))
        else
          sbind (wal_at (seg_path s) (fs_open_rw (seg_path s)) w) (\<lambda>_ w.
          let w' = w\<lparr>wal_capacity := max (seg_end s) (wal_rotate_bytes w)\<rparr> in
          sbind (wal_at (seg_path s) (fs_write (seg_path s) (preallocate (wal_capacity w'))) w') (\<lambda>_ w.
          (w\<lparr>wal_active := Some (seg_path s)\<rparr>, Inr ()))))"

definition recover :: "crc \<Rightarrow> bool \<Rightarrow> wal \<Rightarrow> wal \<times> ('je wal_error + log_record list)" where
  "recover crc collect w =
     (case recover_loop crc (wal_header_version w) collect [] (wal_segments w) (None, []) (wal_fs w) of
        (fs, segs, Inl e) \<Rightarrow> (w\<lparr>wal_fs := fs, wal_segments := segs\<rparr>, Inl e)
      | (fs, segs, Inr (expect, tail)) \<Rightarrow>
          sbind (reopen_last (w\<lparr>wal_fs := fs, wal_segments := segs\<rparr>)) (\<lambda>_ w.
          let hv1 = u64_wrapping_add (wal_header_version w) 1 in
          if tail \<noteq> [] \<and> rec_version (hd tail) \<noteq> hv1
          then (w, Inl (Gap header_name hv1 (rec_version (hd tail))))
          else (w\<lparr>wal_recovered := True, wal_poison := None\<rparr>, Inr tail)))"

definition ensure_recovered :: "crc \<Rightarrow> wal \<Rightarrow> wal \<times> ('je wal_error + unit)" where
  "ensure_recovered crc w =
     (if \<not> wal_recovered w then sbind (recover crc False w) (\<lambda>_ w. (w, Inr ())) else (w, Inr ()))"

definition wal_open_with ::
    "crc \<Rightarrow> (bytes \<Rightarrow> 'je + version \<times> 'v) \<Rightarrow> ('v \<Rightarrow> version) \<Rightarrow> nat \<Rightarrow> fs \<Rightarrow> fs \<times> ('je wal_error + wal)" where
  "wal_open_with crc hdec vver rotate_bytes fs =
     (case try_lock_dir fs of
        (fs', Inl e) \<Rightarrow> (fs', Inl (Io dir_path e))
      | (fs', Inr False) \<Rightarrow> (fs', Inl Locked)
      | (fs', Inr True) \<Rightarrow>
          let w = \<lparr>wal_fs = fs', wal_segments = list_segments fs', wal_active = None, wal_capacity = 0,
                   wal_header_version = 0, wal_rotate_bytes = max rotate_bytes (seg_prologue + rec_prefix),
                   wal_recovered = False, wal_poison = None\<rparr>
          in case read_header crc hdec vver fs' of
               Inl e \<Rightarrow> (fs'\<lparr>fs_locked := False\<rparr>, Inl e)
             | Inr h \<Rightarrow> (fs', Inr (w\<lparr>wal_header_version := (case h of None \<Rightarrow> 0 | Some (v, _) \<Rightarrow> v)\<rparr>)))"

section \<open>Rotation and reclaim\<close>

definition wal_sync_dir :: "wal \<Rightarrow> wal \<times> ('je wal_error + unit)" where
  "wal_sync_dir w = wal_at dir_path fs_sync_dir w"

definition close_active :: "wal \<Rightarrow> wal \<times> ('je wal_error + unit)" where
  "close_active w =
     (let w' = w\<lparr>wal_active := None\<rparr> in
      case wal_active w of
        None \<Rightarrow> (w', Inr ())
      | Some handle \<Rightarrow>
          if wal_segments w = [] then (w', Inr ())
          else
            let s = last (wal_segments w) in
            sbind (wal_at (seg_path s) (fs_set_len handle (seg_end s)) w') (\<lambda>_ w.
            wal_at (seg_path s) (fs_fdatasync handle) w))"

text \<open>The new segment of \<open>rotate\<close>, and \<open>rotate\<close> itself.\<close>

definition new_segment :: "version \<Rightarrow> wal \<Rightarrow> wal \<times> ('je wal_error + unit)" where
  "new_segment first w =
     (let path = segment_name first in
      sbind (wal_at path (fs_open_rw path) w) (\<lambda>_ w.
      sbind (wal_at path (fs_write path (preallocate (wal_rotate_bytes w))) w) (\<lambda>_ w.
      sbind (wal_at path (fs_write path (pwritev_all [segment_prologue] 0)) w) (\<lambda>_ w.
      sbind (wal_at path (fs_fsync path) w) (\<lambda>_ w.
      sbind (wal_sync_dir w) (\<lambda>_ w.
        (w\<lparr>wal_segments := wal_segments w @
             [\<lparr>seg_first = first, seg_path = path, seg_end = length segment_prologue,
               seg_last = u64_wrapping_sub first 1\<rparr>],
           wal_capacity := wal_rotate_bytes w, wal_active := Some path\<rparr>, Inr ())))))))"

definition rotate :: "version \<Rightarrow> wal \<Rightarrow> wal \<times> ('je wal_error + unit)" where
  "rotate first w = sbind (close_active w) (\<lambda>_ w. new_segment first w)"

text \<open>A segment leaves the list before its file is removed.\<close>

fun reclaim_loop ::
    "version \<Rightarrow> segment list \<Rightarrow> bool \<Rightarrow> fs \<Rightarrow> fs \<times> segment list \<times> ('je wal_error + bool)" where
  "reclaim_loop hv (s0 # s1 # rest) removed fs =
     (if seg_first s1 \<le> u64_wrapping_add hv 1
      then case fs_unlink (seg_path s0) fs of
          (fs', Inl e) \<Rightarrow> (fs', s1 # rest, Inl (Io (seg_path s0) e))
        | (fs', Inr _) \<Rightarrow> reclaim_loop hv (s1 # rest) True fs'
      else (fs, s0 # s1 # rest, Inr removed))"
| "reclaim_loop hv segs removed fs = (fs, segs, Inr removed)"

definition reclaim :: "wal \<Rightarrow> wal \<times> ('je wal_error + unit)" where
  "reclaim w =
     (case reclaim_loop (wal_header_version w) (wal_segments w) False (wal_fs w) of
        (fs, segs, Inl e) \<Rightarrow> (w\<lparr>wal_fs := fs, wal_segments := segs\<rparr>, Inl e)
      | (fs, segs, Inr removed) \<Rightarrow>
          let w' = w\<lparr>wal_fs := fs, wal_segments := segs\<rparr>
          in if removed then wal_sync_dir w' else (w', Inr ()))"

definition segment_for :: "segment list \<Rightarrow> version \<Rightarrow> nat option" where
  "segment_for segs version =
     (case filter (\<lambda>i. seg_first (segs ! i) \<le> version) [0..<length segs] of
        [] \<Rightarrow> None
      | is \<Rightarrow> Some (last is))"

section \<open>The storage operations\<close>

fun check_records :: "version \<Rightarrow> log_record list \<Rightarrow> 'je wal_error + unit" where
  "check_records expected [] = Inr ()"
| "check_records expected (r # rs) =
     (if rec_version r \<noteq> expected then Inl (OutOfOrder expected (rec_version r))
      else if rec_patch r = [] then Inl (EmptyPayload (rec_version r))
      else if max_payload < length (rec_patch r) then Inl (Oversized (rec_version r) (length (rec_patch r)))
      else case u64_checked_add expected 1 of
          None \<Rightarrow> Inl (Exhausted (rec_version r))
        | Some e \<Rightarrow> check_records e rs)"

definition next_multiple_of :: "nat \<Rightarrow> nat \<Rightarrow> nat" where
  "next_multiple_of x m = (x + (m - 1)) div m * m"

definition record_bufs :: "crc \<Rightarrow> log_record list \<Rightarrow> bytes list" where
  "record_bufs crc rs = concat (map (\<lambda>r. [record_prefix crc (rec_version r) (rec_patch r), rec_patch r]) rs)"

definition batch_len :: "log_record list \<Rightarrow> nat" where
  "batch_len rs = (\<Sum>r\<leftarrow>rs. rec_prefix + length (rec_patch r))"

text \<open>The write itself, into the active segment, and its cleanup.\<close>

definition write_batch :: "crc \<Rightarrow> log_record list \<Rightarrow> wal \<Rightarrow> wal \<times> ('je wal_error + unit)" where
  "write_batch crc rs w =
     (let s = last (wal_segments w);
          handle = the (wal_active w);
          len = batch_len rs
      in sbind (if wal_capacity w < seg_end s + len
                then let want = next_multiple_of (seg_end s + len) (wal_rotate_bytes w)
                     in sbind (wal_at (seg_path s) (fs_write handle (preallocate want)) w) (\<lambda>_ w.
                          (w\<lparr>wal_capacity := want\<rparr>, Inr ()))
                else (w, Inr ())) (\<lambda>_ w.
         case fs_write handle (pwritev_all (record_bufs crc rs) (seg_end s)) (wal_fs w) of
           (fs, Inl source) \<Rightarrow>
             (case sbind (fs_write handle (zero_range (seg_end s) len) fs) (\<lambda>_ fs. fs_fdatasync handle fs) of
                (fs', Inr _) \<Rightarrow> (w\<lparr>wal_fs := fs'\<rparr>, Inl (Io (seg_path s) source))
              | (fs', Inl cleanup) \<Rightarrow>
                  (w\<lparr>wal_fs := fs', wal_poison := Some (seg_path s, seg_end s)\<rparr>,
                   Inl (CleanupFailed (seg_path s) (seg_end s) cleanup)))
         | (fs, Inr _) \<Rightarrow>
             (w\<lparr>wal_fs := fs,
                wal_segments := butlast (wal_segments w) @
                  [s\<lparr>seg_end := seg_end s + len, seg_last := rec_version (last rs)\<rparr>]\<rparr>, Inr ())))"

definition wal_append :: "crc \<Rightarrow> wal \<Rightarrow> log_record list \<Rightarrow> wal \<times> ('je wal_error + unit)" where
  "wal_append crc w rs =
     (if rs = [] then (w, Inr ())
      else case wal_poison w of
          Some (path, offset) \<Rightarrow> (w, Inl (Poisoned path offset))
        | None \<Rightarrow>
            sbind (ensure_recovered crc w) (\<lambda>_ w.
            case check_records (next_version w) rs of
              Inl e \<Rightarrow> (w, Inl e)
            | Inr _ \<Rightarrow>
                let rotating = (wal_segments w = [] \<or> wal_rotate_bytes w \<le> seg_end (last (wal_segments w)))
                in sbind (if rotating \<or> wal_active w = None then rotate (rec_version (hd rs)) w
                          else (w, Inr ())) (\<lambda>_ w.
                   write_batch crc rs w)))"

definition wal_sync :: "wal \<Rightarrow> wal \<times> ('je wal_error + unit)" where
  "wal_sync w =
     (case wal_active w of
        None \<Rightarrow> (w, Inr ())
      | Some handle \<Rightarrow>
          if wal_segments w = [] then (w, Inr ())
          else wal_at (seg_path (last (wal_segments w))) (fs_fdatasync handle) w)"

definition wal_write_header ::
    "crc \<Rightarrow> (version \<times> 'v \<Rightarrow> 'je + bytes) \<Rightarrow> ('v \<Rightarrow> version) \<Rightarrow> wal \<Rightarrow> 'v \<Rightarrow> wal \<times> ('je wal_error + unit)" where
  "wal_write_header crc henc vver w view =
     sbind (wal_sync w) (\<lambda>_ w.
     let version = vver view in
     case henc (version, view) of
       Inl je \<Rightarrow> (w, Inl (JsonError je))
     | Inr json \<Rightarrow>
         sbind (wal_at header_tmp (fs_create header_tmp) w) (\<lambda>_ w.
         sbind (wal_at header_tmp (fs_write_all header_tmp (header_bytes crc json)) w) (\<lambda>_ w.
         sbind (wal_at header_tmp (fs_fsync header_tmp) w) (\<lambda>_ w.
         sbind (wal_at dir_path (rename_at header_tmp header_name) w) (\<lambda>_ w.
         sbind (wal_sync_dir w) (\<lambda>_ w.
         reclaim (w\<lparr>wal_header_version := version\<rparr>)))))))"

definition wal_load ::
    "crc \<Rightarrow> (bytes \<Rightarrow> 'je + version \<times> 'v) \<Rightarrow> ('v \<Rightarrow> version) \<Rightarrow> wal \<Rightarrow> wal \<times> ('je wal_error + 'v recovered)" where
  "wal_load crc hdec vver w =
     (let w1 = w\<lparr>wal_active := None, wal_segments := list_segments (wal_fs w)\<rparr> in
      case read_header crc hdec vver (wal_fs w1) of
        Inl e \<Rightarrow> (w1, Inl e)
      | Inr header \<Rightarrow>
          sbind (recover crc True
            (w1\<lparr>wal_header_version := (case header of None \<Rightarrow> 0 | Some (v, _) \<Rightarrow> v)\<rparr>)) (\<lambda>tail w.
          (w, Inr \<lparr>rcv_header = map_option snd header, rcv_tail = tail\<rparr>)))"

definition wal_oldest :: "wal \<Rightarrow> version" where
  "wal_oldest w =
     (case wal_segments w of [] \<Rightarrow> u64_saturating_add (wal_header_version w) 1 | s # _ \<Rightarrow> seg_first s)"

definition read_visit :: "version \<Rightarrow> nat \<Rightarrow> version \<Rightarrow> bytes \<Rightarrow> log_record list \<Rightarrow> 'je wal_error + log_record list \<times> bool" where
  "read_visit start limit version payload out =
     (let out' = (if start \<le> version then out @ [\<lparr>rec_version = version, rec_patch = payload\<rparr>] else out)
      in Inr (out', limit \<le> length out'))"

fun read_loop ::
    "crc \<Rightarrow> version \<Rightarrow> nat \<Rightarrow> fs \<Rightarrow> segment list \<Rightarrow> log_record list \<Rightarrow> 'je wal_error + log_record list" where
  "read_loop crc start limit fs [] out = Inr out"
| "read_loop crc start limit fs (s # rest) out =
     rbind (scan_path crc (seg_path s) (read_visit start limit) fs out) (\<lambda>(sc, out').
       if limit \<le> length out' then Inr out' else read_loop crc start limit fs rest out')"

definition wal_read_after :: "crc \<Rightarrow> wal \<Rightarrow> version \<Rightarrow> nat \<Rightarrow> 'je wal_error + log_record list" where
  "wal_read_after crc w after limit =
     (let start = u64_saturating_add after 1 in
      if start < wal_oldest w then Inl (Reclaimed start (wal_oldest w))
      else if limit = 0 then Inr []
      else case segment_for (wal_segments w) start of
          None \<Rightarrow> Inr []
        | Some i \<Rightarrow> read_loop crc start limit (wal_fs w) (drop i (wal_segments w)) [])"

definition wal_ops ::
    "crc \<Rightarrow> (version \<times> 'v \<Rightarrow> 'je + bytes) \<Rightarrow> (bytes \<Rightarrow> 'je + version \<times> 'v) \<Rightarrow> ('v \<Rightarrow> version) \<Rightarrow>
     (wal, 'v, 'je wal_error) storage_ops" where
  "wal_ops crc henc hdec vver = \<lparr>
     s_append = wal_append crc,
     s_write_header = wal_write_header crc henc vver,
     s_sync = wal_sync,
     s_load = wal_load crc hdec vver,
     s_read_after = wal_read_after crc,
     s_oldest = wal_oldest\<rparr>"

end
