(* ===== verification/LugLog.thy ===== *)
theory LugLog
  imports LugCore
begin

text \<open>
  \<open>crates/lug-core/src/log.rs\<close>: a reducible made durable by a storage. The operations take the
  two dictionaries and the codec \<open>enc\<close>/\<open>dec\<close> (serde_json, which may fail) as arguments; each
  returns the log it leaves behind, also when it fails.
\<close>

section \<open>State and operations\<close>

datatype durability = Memory | Written | Durable

record ('d, 's) lug_log =
  log_data :: 'd
  log_storage :: 's
  log_watermark :: version
  log_synced :: version

record 'v log_view =
  lv_view :: 'v
  lv_synced :: version

definition durability_default :: durability where
  "durability_default = Written"

fun log_replay ::
    "('d, 'p, 'v, 'st, 'e) reducible_ops \<Rightarrow> (bytes \<Rightarrow> 'je + 'p) \<Rightarrow> 'd \<Rightarrow> log_record list \<Rightarrow>
     ('e, 'se, 'je) lug_error + 'd" where
  "log_replay R dec d [] = Inr d"
| "log_replay R dec d (record # records) =
     (if rec_version record \<le> r_version R d then log_replay R dec d records
      else
        rbind (map_err CodecError (dec (rec_patch record))) (\<lambda>p.
        rbind (map_err DataError (r_stage_patch R d (r_stage R d) p)) (\<lambda>staged.
          case r_commit R d staged of
            (d', Inl e) \<Rightarrow> Inl (DataError e)
          | (d', Inr view) \<Rightarrow>
              let minted = (case view of None \<Rightarrow> 0 | Some v \<Rightarrow> v_version R v)
              in if minted \<noteq> rec_version record then Inl (VersionError (rec_version record) minted)
                 else log_replay R dec d' records)))"

definition log_open ::
    "('d, 'p, 'v, 'st, 'e) reducible_ops \<Rightarrow> ('s, 'v, 'se) storage_ops \<Rightarrow> (bytes \<Rightarrow> 'je + 'p) \<Rightarrow>
     'd \<Rightarrow> 's \<Rightarrow> ('e, 'se, 'je) lug_error + ('d, 's) lug_log" where
  "log_open R S dec zero storage =
     (case s_load S storage of
        (storage', Inl e) \<Rightarrow> Inl (StorageError e)
      | (storage', Inr recovered) \<Rightarrow>
          rbind (case rcv_header recovered of
                   Some v \<Rightarrow> map_err DataError (r_resume R v)
                 | None \<Rightarrow> Inr zero) (\<lambda>data.
          rbind (log_replay R dec data (rcv_tail recovered)) (\<lambda>data'.
            Inr \<lparr>log_data = data', log_storage = storage', log_watermark = r_version R data',
                 log_synced = r_version R data'\<rparr>)))"

definition log_view :: "('d, 'p, 'v, 'st, 'e) reducible_ops \<Rightarrow> ('d, 's) lug_log \<Rightarrow> 'v log_view" where
  "log_view R l = \<lparr>lv_view = r_view R (log_data l), lv_synced = log_synced l\<rparr>"

definition log_view_at ::
    "('d, 'p, 'v, 'st, 'e) reducible_ops \<Rightarrow> ('d, 's) lug_log \<Rightarrow> version \<Rightarrow> 'v log_view option" where
  "log_view_at R l n =
     (if n \<le> log_watermark l
      then map_option (\<lambda>v. \<lparr>lv_view = v, lv_synced = log_synced l\<rparr>) (r_view_at R (log_data l) n)
      else None)"

definition log_read_after ::
    "('s, 'v, 'se) storage_ops \<Rightarrow> ('d, 's) lug_log \<Rightarrow> version \<Rightarrow> nat \<Rightarrow>
     ('e, 'se, 'je) lug_error + log_record list" where
  "log_read_after S l after limit = map_err StorageError (s_read_after S (log_storage l) after limit)"

definition log_oldest :: "('s, 'v, 'se) storage_ops \<Rightarrow> ('d, 's) lug_log \<Rightarrow> version" where
  "log_oldest S l = s_oldest S (log_storage l)"

text \<open>\<open>unwind\<close> drops the result of the truncation.\<close>

definition log_unwind ::
    "('d, 'p, 'v, 'st, 'e) reducible_ops \<Rightarrow> ('d, 's) lug_log \<Rightarrow> version \<Rightarrow> ('d, 's) lug_log" where
  "log_unwind R l base = l\<lparr>log_data := fst (r_truncate R (log_data l) base)\<rparr>"

text \<open>
  The fold of \<open>append\<close> over the patches: the structure, the records and the views so far, or
  the log to return with an error. A codec error returns from the middle of the loop; a
  rejected patch unwinds first.
\<close>

fun append_fold ::
    "('d, 'p, 'v, 'st, 'e) reducible_ops \<Rightarrow> ('p \<Rightarrow> 'je + bytes) \<Rightarrow> ('d, 's) lug_log \<Rightarrow> 'p list \<Rightarrow>
     log_record list \<Rightarrow> 'v list \<Rightarrow>
     (('d, 's) lug_log \<times> ('e, 'se, 'je) lug_error) + (('d, 's) lug_log \<times> log_record list \<times> 'v list)"
where
  "append_fold R enc l [] records views = Inr (l, records, views)"
| "append_fold R enc l (p # ps) records views =
     (case enc p of
        Inl je \<Rightarrow> Inl (l, CodecError je)
      | Inr encoded \<Rightarrow>
          (case r_stage_patch R (log_data l) (r_stage R (log_data l)) p of
             Inl e \<Rightarrow> Inl (log_unwind R l (log_watermark l), DataError e)
           | Inr staged \<Rightarrow>
               (case r_commit R (log_data l) staged of
                  (d', Inl e) \<Rightarrow>
                    Inl (log_unwind R (l\<lparr>log_data := d'\<rparr>) (log_watermark l), DataError e)
                | (d', Inr (Some v)) \<Rightarrow>
                    append_fold R enc (l\<lparr>log_data := d'\<rparr>) ps
                      (records @ [\<lparr>rec_version = v_version R v, rec_patch = encoded\<rparr>]) (views @ [v])
                | (d', Inr None) \<Rightarrow>
                    append_fold R enc (l\<lparr>log_data := d'\<rparr>) ps records (views @ [r_view R d']))))"

definition log_append ::
    "('d, 'p, 'v, 'st, 'e) reducible_ops \<Rightarrow> ('s, 'v, 'se) storage_ops \<Rightarrow> ('p \<Rightarrow> 'je + bytes) \<Rightarrow>
     ('d, 's) lug_log \<Rightarrow> 'p list \<Rightarrow> durability \<Rightarrow>
     ('d, 's) lug_log \<times> (('e, 'se, 'je) lug_error + 'v list)" where
  "log_append R S enc l patches durability =
     (if patches = [] then (l, Inr [])
      else case append_fold R enc l patches [] [] of
          Inl (l', e) \<Rightarrow> (l', Inl e)
        | Inr (l1, records, views) \<Rightarrow>
            if records = [] then (l1, Inr views)
            else case s_append S (log_storage l1) records of
                (st, Inl e) \<Rightarrow>
                  (log_unwind R (l1\<lparr>log_storage := st\<rparr>) (log_watermark l), Inl (StorageError e))
              | (st, Inr _) \<Rightarrow>
                  let top = rec_version (last records);
                      l2 = l1\<lparr>log_storage := st, log_watermark := top\<rparr>
                  in if durability = Durable
                     then case s_sync S st of
                         (st', Inl e) \<Rightarrow> (l2\<lparr>log_storage := st'\<rparr>, Inl (StorageError e))
                       | (st', Inr _) \<Rightarrow> (l2\<lparr>log_storage := st', log_synced := top\<rparr>, Inr views)
                     else (l2, Inr views))"

definition log_sync ::
    "('s, 'v, 'se) storage_ops \<Rightarrow> ('d, 's) lug_log \<Rightarrow>
     ('d, 's) lug_log \<times> (('e, 'se, 'je) lug_error + unit)" where
  "log_sync S l =
     (case s_sync S (log_storage l) of
        (st, Inl e) \<Rightarrow> (l\<lparr>log_storage := st\<rparr>, Inl (StorageError e))
      | (st, Inr _) \<Rightarrow> (l\<lparr>log_storage := st, log_synced := log_watermark l\<rparr>, Inr ()))"

definition log_checkpoint ::
    "('d, 'p, 'v, 'st, 'e) reducible_ops \<Rightarrow> ('s, 'v, 'se) storage_ops \<Rightarrow> ('d, 's) lug_log \<Rightarrow>
     ('d, 's) lug_log \<times> (('e, 'se, 'je) lug_error + unit)" where
  "log_checkpoint R S l =
     (case s_write_header S (log_storage l) (r_view R (log_data l)) of
        (st, Inl e) \<Rightarrow> (l\<lparr>log_storage := st\<rparr>, Inl (StorageError e))
      | (st, Inr _) \<Rightarrow> log_sync S (l\<lparr>log_storage := st\<rparr>))"

text \<open>What a client may do with an open log, one operation after the other.\<close>

datatype 'p log_op = DoAppend "'p list" durability | DoSync | DoCheckpoint

fun log_step ::
    "('d, 'p, 'v, 'st, 'e) reducible_ops \<Rightarrow> ('s, 'v, 'se) storage_ops \<Rightarrow> ('p \<Rightarrow> 'je + bytes) \<Rightarrow>
     'p log_op \<Rightarrow> ('d, 's) lug_log \<Rightarrow> ('d, 's) lug_log" where
  "log_step R S enc (DoAppend ps dur) l = fst (log_append R S enc l ps dur)"
| "log_step R S enc DoSync l = fst (log_sync S l :: _ \<times> (('e, 'se, 'je) lug_error + unit))"
| "log_step R S enc DoCheckpoint l = fst (log_checkpoint R S l :: _ \<times> (('e, 'se, 'je) lug_error + unit))"

fun log_op_ok :: "('p \<Rightarrow> bool) \<Rightarrow> 'p log_op \<Rightarrow> bool" where
  "log_op_ok pwf (DoAppend ps dur) \<longleftrightarrow> (\<forall>p \<in> set ps. pwf p)"
| "log_op_ok pwf _ = True"

section \<open>The contract of a storage\<close>

text \<open>
  \<open>abs s\<close> is what a cold start would find, the checkpoint and the records above it, and
  \<open>top s\<close> the version the store is at. An append that fails leaves both as they were. A
  checkpoint that fails may or may not have been published. A store can become \<open>tainted\<close>
  (poisoned by a failed cleanup, or having dropped records no checkpoint covers); it says so
  for good, and nothing is promised of a cold start over it. \<open>obsv\<close> is what of a view survives
  its serialization: the version and the JSON state.
\<close>

definition above :: "version \<Rightarrow> log_record list \<Rightarrow> log_record list" where
  "above n rs = filter (\<lambda>r. n < rec_version r) rs"

definition checkpointed ::
    "('v \<Rightarrow> bool) \<Rightarrow> ('v \<Rightarrow> version \<times> json) \<Rightarrow> 'v \<Rightarrow> 'v option \<times> log_record list \<Rightarrow> 'v option \<times> log_record list \<Rightarrow> bool" where
  "checkpointed vok obsv v ht ht' \<longleftrightarrow>
     (\<exists>v'. vok v' \<and> obsv v' = obsv v \<and> ht' = (Some v', above (fst (obsv v)) (snd ht)))"

text \<open>Consecutive versions from just above \<open>n\<close>, and the version a storage is at.\<close>

definition consec :: "version \<Rightarrow> log_record list \<Rightarrow> bool" where
  "consec n rs \<longleftrightarrow> map rec_version rs = [Suc n..<Suc (n + length rs)]"

definition hdr_version :: "('v \<Rightarrow> version \<times> json) \<Rightarrow> 'v option \<Rightarrow> version" where
  "hdr_version obsv h = (case h of None \<Rightarrow> 0 | Some v \<Rightarrow> fst (obsv v))"

definition top :: "('v \<Rightarrow> version \<times> json) \<Rightarrow> 'v option \<times> log_record list \<Rightarrow> version" where
  "top obsv ht = hdr_version obsv (fst ht) + length (snd ht)"

lemma consec_Nil [simp]: "consec n []"
  by (simp add: consec_def)

lemma consec_Cons: "consec n (r # rs) \<longleftrightarrow> rec_version r = Suc n \<and> consec (Suc n) rs"
  by (auto simp: consec_def upt_conv_Cons simp del: upt_Suc)

lemma consec_append: "consec n (xs @ ys) \<longleftrightarrow> consec n xs \<and> consec (n + length xs) ys"
  by (induction xs arbitrary: n) (auto simp: consec_Cons)

lemma consec_last: "consec n rs \<Longrightarrow> rs \<noteq> [] \<Longrightarrow> rec_version (last rs) = n + length rs"
  by (induction rs arbitrary: n) (auto simp: consec_Cons)

lemma consec_mem: "consec n rs \<Longrightarrow> r \<in> set rs \<Longrightarrow> n < rec_version r \<and> rec_version r \<le> n + length rs"
  by (induction rs arbitrary: n) (force simp: consec_Cons)+

lemma above_consec: "consec n rs \<Longrightarrow> above (n + length rs) rs = []"
  by (auto simp: above_def filter_empty_conv dest: consec_mem)

lemma above_drop: "consec m rs \<Longrightarrow> above n rs = drop (n - m) rs"
proof (induction rs arbitrary: m)
  case (Cons r rs)
  show ?case
  proof (cases "n \<le> m")
    case True
    then have "above n (r # rs) = r # rs" using Cons.prems consec_mem [OF Cons.prems]
      by (fastforce simp: above_def intro!: filter_True)
    then show ?thesis using True by simp
  next
    case False
    then obtain k where k: "n - m = Suc k" by (cases "n - m") auto
    have "above n rs = drop (n - Suc m) rs" using Cons.IH [of "Suc m"] Cons.prems by (simp add: consec_Cons)
    moreover have "n - Suc m = k" using k by simp
    ultimately show ?thesis using Cons.prems False k by (simp add: above_def consec_Cons)
  qed
qed (simp add: above_def)

lemma above_all: "consec n rs \<Longrightarrow> m \<le> n \<Longrightarrow> above m rs = rs"
  by (auto simp: above_def dest: consec_mem intro!: filter_True)

locale storage =
  fixes S :: "('s, 'v, 'se) storage_ops"
    and abs :: "'s \<Rightarrow> 'v option \<times> log_record list"
    and swf :: "'s \<Rightarrow> bool" and tainted :: "'s \<Rightarrow> bool"
    and vwf :: "'v \<Rightarrow> bool" and obsv :: "'v \<Rightarrow> version \<times> json"
  assumes shape: "swf s \<Longrightarrow> \<not> tainted s \<Longrightarrow>
        consec (hdr_version obsv (fst (abs s))) (snd (abs s)) \<and> (\<forall>v. fst (abs s) = Some v \<longrightarrow> vwf v)"
    and append_ok: "swf s \<Longrightarrow> rs \<noteq> [] \<Longrightarrow> tainted s \<or> consec (top obsv (abs s)) rs \<Longrightarrow>
        \<forall>r \<in> set rs. 0 < rec_version r \<and> rec_version r \<le> u64_max \<Longrightarrow>
        s_append S s rs = (s', Inr u) \<Longrightarrow>
        swf s' \<and> (tainted s \<longrightarrow> tainted s') \<and>
        (\<not> tainted s' \<longrightarrow> abs s' = (fst (abs s), snd (abs s) @ rs))"
    and append_err: "swf s \<Longrightarrow> rs \<noteq> [] \<Longrightarrow> tainted s \<or> consec (top obsv (abs s)) rs \<Longrightarrow>
        \<forall>r \<in> set rs. 0 < rec_version r \<and> rec_version r \<le> u64_max \<Longrightarrow>
        s_append S s rs = (s', Inl e) \<Longrightarrow>
        swf s' \<and> (tainted s \<longrightarrow> tainted s') \<and> (\<not> tainted s' \<longrightarrow> abs s' = abs s)"
    and header_ok: "swf s \<Longrightarrow> vwf v \<Longrightarrow> tainted s \<or> fst (obsv v) = top obsv (abs s) \<Longrightarrow>
        s_write_header S s v = (s', Inr u) \<Longrightarrow>
        swf s' \<and> (tainted s \<longrightarrow> tainted s') \<and>
        (\<not> tainted s' \<longrightarrow> checkpointed vwf obsv v (abs s) (abs s'))"
    and header_err: "swf s \<Longrightarrow> vwf v \<Longrightarrow> tainted s \<or> fst (obsv v) = top obsv (abs s) \<Longrightarrow>
        s_write_header S s v = (s', Inl e) \<Longrightarrow>
        swf s' \<and> (tainted s \<longrightarrow> tainted s') \<and>
        (\<not> tainted s' \<longrightarrow> abs s' = abs s \<or> checkpointed vwf obsv v (abs s) (abs s'))"
    and sync_abs: "swf s \<Longrightarrow> s_sync S s = (s', res) \<Longrightarrow>
        swf s' \<and> (tainted s \<longrightarrow> tainted s') \<and> (\<not> tainted s' \<longrightarrow> abs s' = abs s)"
    and load_ok: "swf s \<Longrightarrow> \<not> tainted s \<Longrightarrow> s_load S s = (s', Inr r) \<Longrightarrow>
        swf s' \<and> \<not> tainted s' \<and> abs s' = abs s \<and> fst (abs s) = rcv_header r \<and>
        snd (abs s) = above (hdr_version obsv (rcv_header r)) (rcv_tail r)"
begin

lemma checkpoint_top:
  assumes "swf s" "\<not> tainted s" "fst (obsv v) = top obsv (abs s)"
    "abs s' = abs s \<or> checkpointed vwf obsv v (abs s) (abs s')"
  shows "top obsv (abs s') = top obsv (abs s)"
  using assms shape [OF assms(1,2)] above_consec
  by (auto simp: checkpointed_def top_def hdr_version_def)

end

section \<open>A log over both contracts\<close>

text \<open>The structure a cold start replays the tail over.\<close>

definition log_base ::
    "('d, 'p, 'v, 'st, 'e) reducible_ops \<Rightarrow> 'd \<Rightarrow> 'v option \<Rightarrow> ('e, 'se, 'je) lug_error + 'd" where
  "log_base R zero header =
     (case header of Some v \<Rightarrow> map_err DataError (r_resume R v) | None \<Rightarrow> Inr zero)"

text \<open>A cold start over \<open>(header, tail)\<close> gets to a structure that shows what \<open>v\<close> shows.\<close>

definition recovers ::
    "('d, 'p, 'v, 'st, 'e) reducible_ops \<Rightarrow> (bytes \<Rightarrow> 'je + 'p) \<Rightarrow> ('d \<Rightarrow> bool) \<Rightarrow> 'se itself \<Rightarrow> 'd \<Rightarrow>
     'v option \<times> log_record list \<Rightarrow> 'v \<Rightarrow> bool" where
  "recovers R dec dwf se zero ht v \<longleftrightarrow>
     (\<exists>d0 d1. log_base R zero (fst ht) = (Inr d0 :: ('e, 'se, 'je) lug_error + 'd) \<and> dwf d0 \<and>
        log_replay R dec d0 (snd ht) = (Inr d1 :: ('e, 'se, 'je) lug_error + 'd) \<and> dwf d1 \<and>
        obs R (r_view R d1) = obs R v)"

text \<open>
  The invariant of a log: memory and watermark agree, and, unless the storage is tainted, a
  cold start over what the storage holds rebuilds exactly what the log shows.
\<close>

definition log_inv ::
    "('d, 'p, 'v, 'st, 'e) reducible_ops \<Rightarrow> (bytes \<Rightarrow> 'je + 'p) \<Rightarrow> ('d \<Rightarrow> bool) \<Rightarrow> 'se itself \<Rightarrow>
     ('s \<Rightarrow> 'v option \<times> log_record list) \<Rightarrow> ('s \<Rightarrow> bool) \<Rightarrow> ('s \<Rightarrow> bool) \<Rightarrow>
     'd \<Rightarrow> ('d, 's) lug_log \<Rightarrow> bool" where
  "log_inv R dec dwf se sabs sok staint zero l \<longleftrightarrow>
     dwf (log_data l) \<and> sok (log_storage l) \<and> log_watermark l = r_version R (log_data l) \<and>
     log_synced l \<le> log_watermark l \<and>
     (\<not> staint (log_storage l) \<longrightarrow> top (obs R) (sabs (log_storage l)) = log_watermark l \<and>
        recovers R dec dwf se zero (sabs (log_storage l)) (r_view R (log_data l)))"

lemma log_replay_append:
  "log_replay R dec d (xs @ ys) = rbind (log_replay R dec d xs) (\<lambda>d'. log_replay R dec d' ys)"
proof (induction xs arbitrary: d)
  case (Cons r xs)
  show ?case
    by (cases "dec (rec_patch r)") (auto simp: Cons.IH Let_def rbind_def split: sum.splits prod.splits)
qed simp

lemma log_replay_Cons:
  assumes "\<not> rec_version r \<le> r_version R d"
  shows "log_replay R dec d (r # rs) = (Inr d' :: ('e, 'se, 'je) lug_error + 'd) \<longleftrightarrow>
    (\<exists>p dd v. dec (rec_patch r) = Inr p \<and> r_apply R d p = (dd, Inr (Some v)) \<and>
       v_version R v = rec_version r \<and> log_replay R dec dd rs = (Inr d' :: ('e, 'se, 'je) lug_error + 'd))"
proof (cases "dec (rec_patch r)")
  case dec: (Inr p)
  show ?thesis
  proof (cases "r_stage_patch R d (r_stage R d) p")
    case stage: (Inr staged)
    obtain dd res where commit: "r_commit R d staged = (dd, res)" by (cases "r_commit R d staged")
    show ?thesis
    proof (cases res)
      case (Inr view)
      show ?thesis using assms dec stage commit Inr
        by (cases view) (auto simp: r_apply_def Let_def split: if_splits)
    qed (use assms dec stage commit in \<open>simp add: r_apply_def\<close>)
  qed (use assms dec in \<open>simp add: r_apply_def\<close>)
qed (use assms in simp)

lemma log_replay_one:
  assumes "r_version R d < rec_version record" "dec (rec_patch record) = Inr p"
    "r_apply R d p = (d', Inr (Some v))" "v_version R v = rec_version record"
  shows "log_replay R dec d [record] = Inr d'"
  using assms by (auto simp: r_apply_def Let_def split: sum.splits)

text \<open>
  From any structure that shows what \<open>v0\<close> shows, the records rebuild one showing what \<open>v\<close> does.
  The error is fixed to a storage type to keep the statement closed.
\<close>

definition replays ::
    "('d, 'p, 'v, 'st, 'e) reducible_ops \<Rightarrow> (bytes \<Rightarrow> 'je + 'p) \<Rightarrow> ('d \<Rightarrow> bool) \<Rightarrow> 'se itself \<Rightarrow>
     log_record list \<Rightarrow> 'v \<Rightarrow> 'v \<Rightarrow> bool" where
  "replays R dec dwf se records v0 v \<longleftrightarrow>
     (\<forall>d1. dwf d1 \<and> obs R (r_view R d1) = obs R v0 \<longrightarrow>
        (\<exists>d2. log_replay R dec d1 records = (Inr d2 :: ('e, 'se, 'je) lug_error + 'd) \<and> dwf d2 \<and>
          obs R (r_view R d2) = obs R v))"

text \<open>
  What the log relies on of the codec, for the patches its clients use: what was written reads
  back equal, and nothing ill-formed is ever read.
\<close>

definition codec_ok ::
    "('p \<Rightarrow> 'je + bytes) \<Rightarrow> (bytes \<Rightarrow> 'je + 'p) \<Rightarrow> ('p \<Rightarrow> bool) \<Rightarrow> ('p \<Rightarrow> bool) \<Rightarrow> ('p \<Rightarrow> 'p \<Rightarrow> bool) \<Rightarrow> bool" where
  "codec_ok enc dec used pwf peq \<longleftrightarrow>
     (\<forall>p b. used p \<and> enc p = Inr b \<longrightarrow> (\<exists>p'. dec b = Inr p' \<and> peq p' p)) \<and>
     (\<forall>b p. dec b = Inr p \<longrightarrow> pwf p)"

locale durable_log =
  reducible R wf vwf pwf peq + storage S abs swf tainted vwf "obs R"
  for R :: "('d, 'p, 'v, 'st, 'e) reducible_ops" and wf vwf pwf peq
    and S :: "('s, 'v, 'se) storage_ops" and abs swf tainted
begin

text \<open>What a run of the fold does to the structure.\<close>

lemma apply_views:
  assumes "wf d" "pwf p" "r_apply R d p = (d', Inr (Some v))" "n \<le> r_version R d"
  shows "r_view_at R d' n = r_view_at R d n"
  using apply_some [OF assms(1-3)] assms(4) by blast

lemma apply_version:
  assumes "wf d" "pwf p" "r_apply R d p = (d', Inr (Some v))"
  shows "r_version R d' = Suc (r_version R d)" "wf d'" "r_view R d' = v" "v_version R v = Suc (r_version R d)"
  using apply_some [OF assms] by (simp_all add: r_version_def)

lemma unwind_ok:
  assumes "wf d" "n \<le> r_version R d" "r_view_at R d n = Some v"
  shows "wf (fst (r_truncate R d n)) \<and> r_view R (fst (r_truncate R d n)) = v"
  using truncate_back [OF assms] by auto

lemma append_fold_spec:
  fixes enc :: "'p \<Rightarrow> 'je + bytes" and dec :: "bytes \<Rightarrow> 'je + 'p"
  assumes "wf (log_data l0)" "\<forall>p \<in> set ps. pwf p \<and> used p" "codec_ok enc dec used pwf peq"
    and "wf (log_data l)" "log_storage l = log_storage l0" "log_watermark l = log_watermark l0"
      "log_synced l = log_synced l0" "log_watermark l0 = r_version R (log_data l0)"
      "log_watermark l0 \<le> r_version R (log_data l)"
      "r_view_at R (log_data l) (log_watermark l0) = Some (r_view R (log_data l0))"
    and "records = [] \<longrightarrow> log_data l = log_data l0"
      "consec (log_watermark l0) records" "r_version R (log_data l) = log_watermark l0 + length records"
    and "replays R dec wf TYPE('se) records (r_view R (log_data l0)) (r_view R (log_data l))"
  shows "case (append_fold R enc l ps records views
      :: (('d, 's) lug_log \<times> ('e, 'se, 'je) lug_error) + (('d, 's) lug_log \<times> log_record list \<times> 'v list)) of
      Inl (l', CodecError je) \<Rightarrow> True
    | Inl (l', e) \<Rightarrow> wf (log_data l') \<and> r_view R (log_data l') = r_view R (log_data l0) \<and>
        log_storage l' = log_storage l0 \<and> log_watermark l' = log_watermark l0 \<and> log_synced l' = log_synced l0
    | Inr (l', records', views') \<Rightarrow> wf (log_data l') \<and>
        log_storage l' = log_storage l0 \<and> log_watermark l' = log_watermark l0 \<and> log_synced l' = log_synced l0 \<and>
        log_watermark l0 \<le> r_version R (log_data l') \<and>
        r_view_at R (log_data l') (log_watermark l0) = Some (r_view R (log_data l0)) \<and>
        (records' = [] \<longrightarrow> log_data l' = log_data l0) \<and>
        consec (log_watermark l0) records' \<and> r_version R (log_data l') = log_watermark l0 + length records' \<and>
        length views' = length views + length ps \<and>
        replays R dec wf TYPE('se) records' (r_view R (log_data l0)) (r_view R (log_data l'))"
  using assms
proof (induction ps arbitrary: l records views)
  case Nil
  then show ?case by simp
next
  case (Cons p ps)
  show ?case
  proof (cases "enc p")
    case (Inl je)
    then show ?thesis by simp
  next
    case (Inr encoded)
    let ?d = "log_data l"
    have wf: "wf ?d" and p: "pwf p" "used p" using Cons.prems by simp_all
    note unwound = unwind_ok [OF wf Cons.prems(9,10)]
    show ?thesis
    proof (cases "r_stage_patch R ?d (r_stage R ?d) p")
      case err: (Inl e)
      then show ?thesis using Inr unwound Cons.prems(5-7) by (simp add: log_unwind_def)
    next
      case staged: (Inr staged)
      obtain d' res where commit: "r_commit R ?d staged = (d', res)" by (cases "r_commit R ?d staged")
      then have ap: "r_apply R ?d p = (d', res)" using staged by (simp add: r_apply_def)
      show ?thesis
      proof (cases res)
        case err: (Inl e)
        then have "d' = ?d" using apply_err wf p(1) ap by simp
        then show ?thesis using Inr staged commit err unwound Cons.prems(5-7) by (simp add: log_unwind_def)
      next
        case ok: (Inr view)
        show ?thesis
        proof (cases view)
          case None
          then have same: "d' = ?d" using apply_none wf p(1) ap ok by simp
          let ?l = "l\<lparr>log_data := d'\<rparr>"
          have "?l = l" using same by simp
          then have step: "append_fold R enc l (p # ps) records views
              = append_fold R enc l ps records (views @ [r_view R d'])"
            using Inr staged commit ok None by simp
          show ?thesis unfolding step
            using Cons.IH [OF Cons.prems(1) _ Cons.prems(3-14), of "views @ [r_view R d']"] Cons.prems(2)
            by (simp split: sum.splits prod.splits lug_error.splits)
        next
          case (Some v)
          have ap': "r_apply R ?d p = (d', Inr (Some v))" using ap ok Some by simp
          note ver = apply_version [OF wf p(1) ap']
          let ?l = "l\<lparr>log_data := d'\<rparr>"
          let ?r = "\<lparr>rec_version = v_version R v, rec_patch = encoded\<rparr>"
          have step: "append_fold R enc l (p # ps) records views
              = append_fold R enc ?l ps (records @ [?r]) (views @ [v])"
            using Inr staged commit ok Some by simp
          obtain p' where p': "dec encoded = Inr p'" "pwf p'" "peq p' p"
            using Cons.prems(3) p(2) Inr unfolding codec_ok_def by blast
          have "\<exists>d2. log_replay R dec d1 (records @ [?r]) = (Inr d2 :: ('e, 'se, 'je) lug_error + 'd) \<and> wf d2 \<and>
              obs R (r_view R d2) = obs R (r_view R d')"
            if d1: "wf d1" "obs R (r_view R d1) = obs R (r_view R (log_data l0))" for d1
          proof -
            obtain d2 where d2: "log_replay R dec d1 records = (Inr d2 :: ('e, 'se, 'je) lug_error + 'd)" "wf d2"
              "obs R (r_view R d2) = obs R (r_view R ?d)"
              using Cons.prems(14) d1 unfolding replays_def by blast
            obtain d3 v3 where d3: "r_apply R d2 p' = (d3, Inr (Some v3))" "obs R v3 = obs R v"
              using apply_cong [OF wf d2(2,3) p(1) p'(2,3) ap'] by blast
            note ver3 = apply_version [OF d2(2) p'(2) d3(1)]
            have "r_version R d2 < v_version R v" "v_version R v3 = v_version R v"
              using d2(3) d3(2) ver(4) by (simp_all add: obs_def r_version_def)
            then have "log_replay R dec d2 [?r] = Inr d3"
              using log_replay_one [of R d2 ?r dec p' d3 v3] p'(1) d3(1) by simp
            then have "log_replay R dec d1 (records @ [?r]) = (Inr d3 :: ('e, 'se, 'je) lug_error + 'd)"
              by (simp only: log_replay_append d2(1) rbind_simps)
            then show ?thesis using ver3 ver(3) d3(2) by blast
          qed
          then have replay: "replays R dec wf TYPE('se) (records @ [?r]) (r_view R (log_data l0)) (r_view R d')"
            unfolding replays_def by blast
          have "r_view_at R d' (log_watermark l0) = Some (r_view R (log_data l0))"
            using apply_views [OF wf p(1) ap' Cons.prems(9)] Cons.prems(10) by simp
          then show ?thesis unfolding step
            using Cons.IH [of ?l "records @ [?r]" "views @ [v]"] Cons.prems(1-9,12,13) ver replay
              consec_append [of "log_watermark l0" records "[?r]"] consec_Cons
            by (simp split: sum.splits prod.splits lug_error.splits)
        qed
      qed
    qed
  qed
qed

lemma replay_grows:
  fixes enc :: "'p \<Rightarrow> 'je + bytes" and dec :: "bytes \<Rightarrow> 'je + 'p"
  assumes "codec_ok enc dec used pwf peq"
  shows "wf d \<Longrightarrow> log_replay R dec d rs = (Inr d' :: ('e, 'se, 'je) lug_error + 'd) \<Longrightarrow>
    wf d' \<and> r_version R d \<le> r_version R d' \<and> (\<forall>r \<in> set rs. rec_version r \<le> r_version R d')"
proof (induction rs arbitrary: d)
  case (Cons r rs)
  show ?case
  proof (cases "rec_version r \<le> r_version R d")
    case True
    then show ?thesis using Cons.IH [of d] Cons.prems by force
  next
    case False
    then obtain p dd v where step: "dec (rec_patch r) = Inr p" "r_apply R d p = (dd, Inr (Some v))"
      "v_version R v = rec_version r" "log_replay R dec dd rs = (Inr d' :: ('e, 'se, 'je) lug_error + 'd)"
      using Cons.prems(2) unfolding log_replay_Cons [OF False] by blast
    have p: "pwf p" using assms step(1) by (auto simp: codec_ok_def)
    note ver = apply_version [OF Cons.prems(1) p step(2)]
    show ?thesis using Cons.IH [OF ver(2) step(4)] ver step(3) by auto
  qed
qed simp

lemma replay_above:
  fixes enc :: "'p \<Rightarrow> 'je + bytes" and dec :: "bytes \<Rightarrow> 'je + 'p"
  assumes "codec_ok enc dec used pwf peq"
  shows "wf d \<Longrightarrow> n \<le> r_version R d \<Longrightarrow>
    log_replay R dec d (above n rs) = (Inr d' :: ('e, 'se, 'je) lug_error + 'd) \<longleftrightarrow>
    log_replay R dec d rs = (Inr d' :: ('e, 'se, 'je) lug_error + 'd)"
proof (induction rs arbitrary: d)
  case (Cons r rs)
  show ?case
  proof (cases "rec_version r \<le> r_version R d")
    case True
    then show ?thesis using Cons.IH [OF Cons.prems] by (auto simp: above_def)
  next
    case False
    then have ab: "above n (r # rs) = r # above n rs" using Cons.prems(2) by (simp add: above_def)
    have go: "log_replay R dec dd (above n rs) = (Inr d' :: ('e, 'se, 'je) lug_error + 'd) \<longleftrightarrow>
        log_replay R dec dd rs = (Inr d' :: ('e, 'se, 'je) lug_error + 'd)"
      if step: "dec (rec_patch r) = Inr p" "r_apply R d p = (dd, Inr (Some v))" for p dd v
    proof -
      have p: "pwf p" using assms step(1) by (auto simp: codec_ok_def)
      note ver = apply_version [OF Cons.prems(1) p step(2)]
      show ?thesis using ver Cons.prems(2) by (intro Cons.IH) simp_all
    qed
    show ?thesis unfolding ab log_replay_Cons [OF False] using go by metis
  qed
qed (simp add: above_def)

lemma recovers_extend:
  fixes dec :: "bytes \<Rightarrow> 'je + 'p"
  assumes "recovers R dec wf TYPE('se) zero (h, tail) v0" "replays R dec wf TYPE('se) records v0 v"
  shows "recovers R dec wf TYPE('se) zero (h, tail @ records) v"
  using assms unfolding recovers_def replays_def by (fastforce simp: log_replay_append)

lemma recovers_obs:
  "recovers R dec wf se zero ht v \<Longrightarrow> obs R v' = obs R v \<Longrightarrow> recovers R dec wf se zero ht v'"
  by (simp add: recovers_def)

lemma recovers_checkpoint:
  fixes enc :: "'p \<Rightarrow> 'je + bytes" and dec :: "bytes \<Rightarrow> 'je + 'p"
  assumes "codec_ok enc dec used pwf peq" "recovers R dec wf TYPE('se) zero (h, tail) v"
    "vwf v'" "obs R v' = obs R v"
  shows "recovers R dec wf TYPE('se) zero (Some v', above (fst (obs R v)) tail) v"
proof -
  obtain d0 d1 where d: "wf d0" "log_replay R dec d0 tail = (Inr d1 :: ('e, 'se, 'je) lug_error + 'd)"
    "obs R (r_view R d1) = obs R v" using assms(2) by (auto simp: recovers_def)
  have "rec_version r \<le> fst (obs R v)" if "r \<in> set tail" for r
    using replay_grows [OF assms(1) d(1,2)] that d(3) by (auto simp: obs_def r_version_def)
  then have none: "above (fst (obs R v)) tail = []" by (fastforce simp: above_def filter_empty_conv)
  obtain d' where "r_resume R v' = Inr d'" "wf d'" "r_view R d' = v'" using resume_ok [OF assms(3)] by blast
  then show ?thesis using assms(4) by (simp add: recovers_def log_base_def none)
qed

theorem append_inv:
  fixes enc :: "'p \<Rightarrow> 'je + bytes" and dec :: "bytes \<Rightarrow> 'je + 'p"
  assumes inv: "log_inv R dec wf TYPE('se) abs swf tainted zero l" and ps: "\<forall>p \<in> set ps. pwf p \<and> used p" and codec: "codec_ok enc dec used pwf peq"
    and run: "log_append R S enc l ps dur = (l', res)" and no_codec: "\<forall>je. res \<noteq> Inl (CodecError je)"
  shows "log_inv R dec wf TYPE('se) abs swf tainted zero l' \<and> log_watermark l \<le> log_watermark l' \<and>
    (log_watermark l' = log_watermark l \<longrightarrow> r_view R (log_data l') = r_view R (log_data l)) \<and>
    (case res of Inr views \<Rightarrow> length views = length ps \<and> (dur = Durable \<and> log_watermark l' \<noteq> log_watermark l \<longrightarrow>
         log_synced l' = log_watermark l')
     | Inl e \<Rightarrow> log_watermark l' = log_watermark l \<or> (dur = Durable \<and> log_synced l' = log_synced l))"
proof (cases "ps = []")
  case True
  then show ?thesis using inv run by (auto simp: log_append_def)
next
  case False
  have wf: "wf (log_data l)" "swf (log_storage l)" "log_watermark l = r_version R (log_data l)"
    "log_synced l \<le> log_watermark l" using inv by (simp_all add: log_inv_def)
  have start: "replays R dec wf TYPE('se) [] (r_view R (log_data l)) (r_view R (log_data l))"
    by (simp add: replays_def)
  note fold = append_fold_spec [where l0 = l and l = l and records = "[]" and views = "[]", OF wf(1) ps codec wf(1)
      refl refl refl wf(3) _ _ _ _ _ start]
  have cur: "log_watermark l \<le> r_version R (log_data l)"
    "r_view_at R (log_data l) (log_watermark l) = Some (r_view R (log_data l))"
    using wf(3) view_at_current [OF wf(1)] by simp_all
  note fold = fold [OF cur, simplified, OF wf(3) [symmetric]]
  show ?thesis
  proof (cases "append_fold R enc l ps [] [] ::
      (('d, 's) lug_log \<times> ('e, 'se, 'je) lug_error) + (('d, 's) lug_log \<times> log_record list \<times> 'v list)")
    case (Inl q)
    obtain l1 e where q: "q = (l1, e)" by (cases q)
    then have "l' = l1" "res = Inl e" using run False Inl by (auto simp: log_append_def)
    then show ?thesis using fold inv no_codec
      by (cases e) (auto simp: Inl q log_inv_def r_version_def)
  next
    case (Inr q)
    obtain l1 records views where q: "q = (l1, records, views)" by (cases q)
    have l1: "wf (log_data l1)" "log_storage l1 = log_storage l" "log_watermark l1 = log_watermark l"
      "log_synced l1 = log_synced l" "log_watermark l \<le> r_version R (log_data l1)"
      "r_view_at R (log_data l1) (log_watermark l) = Some (r_view R (log_data l))"
      "records = [] \<longrightarrow> log_data l1 = log_data l"
      "consec (log_watermark l) records" "r_version R (log_data l1) = log_watermark l + length records"
      "length views = length ps"
      "replays R dec wf TYPE('se) records (r_view R (log_data l)) (r_view R (log_data l1))"
      using fold by (simp_all add: Inr q)
    note unwound = unwind_ok [OF l1(1,5,6)]
    have rec: "\<not> tainted (log_storage l) \<longrightarrow> top (obs R) (abs (log_storage l)) = log_watermark l \<and>
        recovers R dec wf TYPE('se) zero (abs (log_storage l)) (r_view R (log_data l))"
      using inv by (simp add: log_inv_def)
    show ?thesis
    proof (cases "records = []")
      case True
      then show ?thesis using run \<open>ps \<noteq> []\<close> Inr q l1 inv by (auto simp: log_append_def log_inv_def)
    next
      case recs: False
      have nxt: "tainted (log_storage l) \<or> consec (top (obs R) (abs (log_storage l))) records"
        using rec l1(8) by metis
      have pos: "\<forall>r \<in> set records. 0 < rec_version r \<and> rec_version r \<le> u64_max"
        using consec_mem [OF l1(8)] version_bound [OF l1(1)] l1(9) by fastforce
      obtain st ares where ap: "s_append S (log_storage l) records = (st, ares)"
        by (cases "s_append S (log_storage l) records")
      show ?thesis
      proof (cases ares)
        case err: (Inl e)
        have l': "l' = log_unwind R (l1\<lparr>log_storage := st\<rparr>) (log_watermark l)" "res = Inl (StorageError e)"
          using run \<open>ps \<noteq> []\<close> Inr q l1(2) recs ap err by (simp_all add: log_append_def)
        note st = append_err [OF wf(2) recs nxt pos ap [unfolded err]]
        have "\<not> tainted st \<longrightarrow> top (obs R) (abs st) = log_watermark l \<and>
            recovers R dec wf TYPE('se) zero (abs st) (r_view R (log_data l'))"
          using st rec unwound by (auto simp: l'(1) log_unwind_def)
        then show ?thesis using st unwound wf(3,4) l1(3,4)
          by (simp add: l' log_inv_def log_unwind_def r_version_def)
      next
        case ok: (Inr u)
        note st = append_ok [OF wf(2) recs nxt pos ap [unfolded ok]]
        have "\<not> tainted st \<longrightarrow> recovers R dec wf TYPE('se) zero (abs st) (r_view R (log_data l1))"
          using recovers_extend [OF _ l1(11), of zero "fst (abs (log_storage l))" "snd (abs (log_storage l))"]
            rec st by auto
        then have two: "wf (log_data l1)" "r_version R (log_data l1) = rec_version (last records)"
          "\<not> tainted st \<longrightarrow> top (obs R) (abs st) = rec_version (last records) \<and>
             recovers R dec wf TYPE('se) zero (abs st) (r_view R (log_data l1))"
          using l1 recs st rec consec_last [OF l1(8) recs] by (auto simp: top_def)
        obtain st' sres where sync: "s_sync S st = (st', sres)" by (cases "s_sync S st")
        have st': "swf st' \<and> (tainted st \<longrightarrow> tainted st') \<and> (\<not> tainted st' \<longrightarrow> abs st' = abs st)"
          using sync_abs [OF _ sync] st by blast
        have same_view: "r_view R (log_data l1) = r_view R (log_data l)"
          if "log_watermark l = r_version R (log_data l1)"
          using l1(6) view_at_current [OF l1(1)] that by simp
        define l2 where "l2 = l1\<lparr>log_storage := st, log_watermark := rec_version (last records)\<rparr>"
        have l2: "log_inv R dec wf TYPE('se) abs swf tainted zero l2"
          "log_inv R dec wf TYPE('se) abs swf tainted zero (l2\<lparr>log_storage := st'\<rparr>)"
          "log_inv R dec wf TYPE('se) abs swf tainted zero
             (l2\<lparr>log_storage := st', log_synced := log_watermark l2\<rparr>)"
          "log_watermark l \<le> log_watermark l2" "log_synced l2 = log_synced l"
          "log_watermark l2 = log_watermark l \<longrightarrow> r_view R (log_data l2) = r_view R (log_data l)"
          using two st st' l1(4,5) wf(4) same_view by (auto simp: l2_def log_inv_def)
        have run': "(l', res) = (if dur = Durable
            then case sres of Inl e \<Rightarrow> (l2\<lparr>log_storage := st'\<rparr>, Inl (StorageError e))
              | Inr _ \<Rightarrow> (l2\<lparr>log_storage := st', log_synced := log_watermark l2\<rparr>, Inr views)
            else (l2, Inr views))"
          using run \<open>ps \<noteq> []\<close> Inr q l1(2) recs ap ok sync
          by (cases "dur = Durable"; cases sres) (auto simp: log_append_def Let_def l2_def)
        show ?thesis using run' l2 l1(10) by (cases sres) (auto split: if_splits)
      qed
    qed
  qed
qed

lemma sync_inv:
  fixes dec :: "bytes \<Rightarrow> 'je + 'p"
  assumes inv: "log_inv R dec wf TYPE('se) abs swf tainted zero l" and run: "log_sync S l = (l', res)"
  shows "log_inv R dec wf TYPE('se) abs swf tainted zero l' \<and> log_watermark l' = log_watermark l \<and>
    log_data l' = log_data l \<and>
    (case res of Inr _ \<Rightarrow> log_synced l' = log_watermark l' | Inl _ \<Rightarrow> log_synced l' = log_synced l)"
proof -
  obtain st sres where sync: "s_sync S (log_storage l) = (st, sres)" by (cases "s_sync S (log_storage l)")
  have "swf (log_storage l)" using inv by (simp add: log_inv_def)
  from sync_abs [OF this sync] show ?thesis
    using inv run sync by (cases sres) (auto simp: log_sync_def log_inv_def)
qed

lemma checkpoint_inv:
  fixes enc :: "'p \<Rightarrow> 'je + bytes" and dec :: "bytes \<Rightarrow> 'je + 'p"
  assumes inv: "log_inv R dec wf TYPE('se) abs swf tainted zero l" and codec: "codec_ok enc dec used pwf peq"
    and run: "log_checkpoint R S l = (l', res)"
  shows "log_inv R dec wf TYPE('se) abs swf tainted zero l' \<and> log_watermark l' = log_watermark l \<and>
    log_data l' = log_data l"
proof -
  let ?v = "r_view R (log_data l)"
  obtain st hres where header: "s_write_header S (log_storage l) ?v = (st, hres)"
    by (cases "s_write_header S (log_storage l) ?v")
  have wf: "swf (log_storage l)" "vwf ?v" using inv view_wf by (simp_all add: log_inv_def)
  have rec: "\<not> tainted (log_storage l) \<longrightarrow> recovers R dec wf TYPE('se) zero (abs (log_storage l)) ?v"
    and at_top: "tainted (log_storage l) \<or> fst (obs R ?v) = top (obs R) (abs (log_storage l))"
    using inv by (auto simp: log_inv_def obs_def r_version_def)
  have ok: "swf st \<and> (tainted (log_storage l) \<longrightarrow> tainted st) \<and> (\<not> tainted st \<longrightarrow>
      (abs st = abs (log_storage l) \<or> checkpointed vwf (obs R) ?v (abs (log_storage l)) (abs st)))"
    using header_ok [OF wf at_top] header_err [OF wf at_top] header by (cases hres) auto
  have "recovers R dec wf TYPE('se) zero (abs st) ?v" if "\<not> tainted st"
    using ok rec that recovers_checkpoint [OF codec, of zero "fst (abs (log_storage l))" "snd (abs (log_storage l))"]
    by (auto simp: checkpointed_def)
  moreover have "top (obs R) (abs st) = top (obs R) (abs (log_storage l))" if "\<not> tainted st"
    using ok that at_top by (intro checkpoint_top [OF wf(1)]) blast+
  ultimately have inv': "log_inv R dec wf TYPE('se) abs swf tainted zero (l\<lparr>log_storage := st\<rparr>)"
    using inv ok by (auto simp: log_inv_def)
  show ?thesis
  proof (cases hres)
    case (Inl e)
    then show ?thesis using run header inv' by (auto simp: log_checkpoint_def)
  next
    case (Inr u)
    then have "log_sync S (l\<lparr>log_storage := st\<rparr>) = (l', res)" using run header by (simp add: log_checkpoint_def)
    from sync_inv [OF inv' this] show ?thesis by simp
  qed
qed

text \<open>Any sequence of operations, whichever of them fail, when every patch has an encoding.\<close>

lemma append_fold_no_codec:
  "\<forall>p \<in> set ps. \<exists>b. enc p = Inr b \<Longrightarrow> append_fold R enc l ps records views \<noteq> Inl (l', CodecError je)"
  by (induction ps arbitrary: l records views)
    (auto simp: log_unwind_def split: sum.splits prod.splits option.splits)

lemma append_no_codec:
  "\<forall>p \<in> set ps. \<exists>b. enc p = Inr b \<Longrightarrow> snd (log_append R S enc l ps dur) \<noteq> Inl (CodecError je)"
  using append_fold_no_codec [where ps = ps and enc = enc and l = l and records = "[]" and views = "[]"]
  by (auto simp: log_append_def Let_def split: sum.splits prod.splits if_splits)

lemma run_inv:
  fixes enc :: "'p \<Rightarrow> 'je + bytes" and dec :: "bytes \<Rightarrow> 'je + 'p"
  assumes codec: "codec_ok enc dec used pwf peq" "\<forall>p. used p \<longrightarrow> (\<exists>b. enc p = Inr b)"
  shows "log_inv R dec wf TYPE('se) abs swf tainted zero l \<Longrightarrow> \<forall>op \<in> set ops. log_op_ok (\<lambda>p. pwf p \<and> used p) op \<Longrightarrow>
    log_inv R dec wf TYPE('se) abs swf tainted zero (fold (log_step R S enc) ops l) \<and>
    log_watermark l \<le> log_watermark (fold (log_step R S enc) ops l)"
proof (induction ops arbitrary: l)
  case (Cons op ops)
  have "log_inv R dec wf TYPE('se) abs swf tainted zero (log_step R S enc op l) \<and>
      log_watermark l \<le> log_watermark (log_step R S enc op l)"
  proof (cases op)
    case (DoAppend ps dur)
    obtain l' res where run: "log_append R S enc l ps dur = (l', res)" by (cases "log_append R S enc l ps dur")
    have ps: "\<forall>p \<in> set ps. pwf p \<and> used p" using Cons.prems(2) DoAppend by simp
    then have "\<forall>je. res \<noteq> Inl (CodecError je)"
      using append_no_codec [of ps enc] codec(2) run by (metis snd_conv)
    from append_inv [OF Cons.prems(1) ps codec(1) run this] show ?thesis by (simp add: DoAppend run)
  next
    case DoSync
    obtain l' and res :: "('e, 'se, 'je) lug_error + unit" where run: "log_sync S l = (l', res)"
      by (cases "log_sync S l :: ('d, 's) lug_log \<times> (('e, 'se, 'je) lug_error + unit)")
    then show ?thesis using sync_inv [OF Cons.prems(1) run] by (simp add: DoSync run)
  next
    case DoCheckpoint
    obtain l' and res :: "('e, 'se, 'je) lug_error + unit" where run: "log_checkpoint R S l = (l', res)"
      by (cases "log_checkpoint R S l :: ('d, 's) lug_log \<times> (('e, 'se, 'je) lug_error + unit)")
    then show ?thesis using checkpoint_inv [OF Cons.prems(1) codec(1) run] by (simp add: DoCheckpoint run)
  qed
  then show ?case using Cons.IH [of "log_step R S enc op l"] Cons.prems(2) by auto
qed simp

text \<open>A cold start, from any storage and from one that holds what a log had.\<close>

lemma base_ok:
  fixes dec :: "bytes \<Rightarrow> 'je + 'p"
  assumes "log_base R zero h = (Inr d :: ('e, 'se, 'je) lug_error + 'd)" "wf zero" "\<forall>v. h = Some v \<longrightarrow> vwf v"
  shows "wf d \<and> (\<forall>v. h = Some v \<longrightarrow> r_version R d = fst (obs R v))"
  using assms resume_ok by (cases h) (force simp: log_base_def obs_def r_version_def)+

lemma replay_version:
  fixes dec :: "bytes \<Rightarrow> 'je + 'p"
  assumes "codec_ok enc dec used pwf peq"
  shows "wf d \<Longrightarrow> consec (r_version R d) rs \<Longrightarrow>
    log_replay R dec d rs = (Inr d' :: ('e, 'se, 'je) lug_error + 'd) \<Longrightarrow> r_version R d' = r_version R d + length rs"
proof (induction rs arbitrary: d)
  case (Cons r rs)
  have new: "\<not> rec_version r \<le> r_version R d" using Cons.prems(2) by (simp add: consec_Cons)
  then obtain p dd v where step: "dec (rec_patch r) = Inr p" "r_apply R d p = (dd, Inr (Some v))"
    "log_replay R dec dd rs = (Inr d' :: ('e, 'se, 'je) lug_error + 'd)"
    using Cons.prems(3) unfolding log_replay_Cons [OF new] by blast
  have p: "pwf p" using assms step(1) by (auto simp: codec_ok_def)
  note ver = apply_version [OF Cons.prems(1) p step(2)]
  show ?case using Cons.IH [OF ver(2) _ step(3)] ver(1) Cons.prems(2) by (simp add: consec_Cons)
qed simp

lemma open_inv:
  fixes enc :: "'p \<Rightarrow> 'je + bytes" and dec :: "bytes \<Rightarrow> 'je + 'p"
  assumes codec: "codec_ok enc dec used pwf peq" and zero: "wf zero" "r_version R zero = 0"
    and sto: "swf s" "\<not> tainted s"
    and run: "log_open R S dec zero s = (Inr l :: ('e, 'se, 'je) lug_error + ('d, 's) lug_log)"
  shows "log_inv R dec wf TYPE('se) abs swf tainted zero l \<and> log_synced l = log_watermark l"
proof -
  obtain s' r d0 d1 where opened: "s_load S s = (s', Inr r)"
    "log_base R zero (rcv_header r) = (Inr d0 :: ('e, 'se, 'je) lug_error + 'd)"
    "log_replay R dec d0 (rcv_tail r) = (Inr d1 :: ('e, 'se, 'je) lug_error + 'd)"
    "l = \<lparr>log_data = d1, log_storage = s', log_watermark = r_version R d1, log_synced = r_version R d1\<rparr>"
    using run by (auto simp: log_open_def log_base_def rbind_Inr_iff split: prod.splits sum.splits)
  note load = load_ok [OF sto opened(1)] and sh = shape [OF sto]
  have d0: "wf d0 \<and> (\<forall>v. rcv_header r = Some v \<longrightarrow> r_version R d0 = fst (obs R v))"
    using load sh by (intro base_ok [OF opened(2) zero(1)]) auto
  have hdr: "hdr_version (obs R) (rcv_header r) = r_version R d0"
    using d0 opened(2) zero(2) by (cases "rcv_header r") (auto simp: hdr_version_def log_base_def)
  have d1: "wf d1" using replay_grows [OF codec _ opened(3)] d0 by blast
  have tail: "log_replay R dec d0 (snd (abs s)) = (Inr d1 :: ('e, 'se, 'je) lug_error + 'd)"
    using load opened(3) d0 replay_above [OF codec, of d0 "r_version R d0"] by (simp add: hdr)
  then have "recovers R dec wf TYPE('se) zero (abs s') (r_view R d1)"
    using d0 d1 opened(2) load by (auto simp: recovers_def)
  moreover have "top (obs R) (abs s') = r_version R d1"
    using replay_version [OF codec _ _ tail] d0 sh load hdr by (simp add: top_def)
  ultimately show ?thesis using d1 load by (simp add: opened(4) log_inv_def)
qed

lemma open_recovers:
  fixes enc :: "'p \<Rightarrow> 'je + bytes" and dec :: "bytes \<Rightarrow> 'je + 'p"
  assumes codec: "codec_ok enc dec used pwf peq" and zero: "wf zero" and sto: "swf s" "\<not> tainted s"
    and rec: "recovers R dec wf TYPE('se) zero (abs s) v" and load: "s_load S s = (s', Inr r)"
  shows "\<exists>l. log_open R S dec zero s = (Inr l :: ('e, 'se, 'je) lug_error + ('d, 's) lug_log) \<and>
    obs R (r_view R (log_data l)) = obs R v"
proof -
  note ld = load_ok [OF sto load]
  obtain d0 d1 where d: "log_base R zero (fst (abs s)) = (Inr d0 :: ('e, 'se, 'je) lug_error + 'd)"
    "wf d0" "log_replay R dec d0 (snd (abs s)) = (Inr d1 :: ('e, 'se, 'je) lug_error + 'd)"
    "wf d1" "obs R (r_view R d1) = obs R v" using rec unfolding recovers_def by blast
  have h: "fst (abs s) = rcv_header r" using ld by auto
  have d0: "\<forall>v. rcv_header r = Some v \<longrightarrow> r_version R d0 = fst (obs R v)"
    using base_ok [OF d(1) zero] shape [OF sto] h by auto
  have "hdr_version (obs R) (rcv_header r) \<le> r_version R d0"
    using d0 by (cases "rcv_header r") (auto simp: hdr_version_def)
  then have "log_replay R dec d0 (rcv_tail r) = (Inr d1 :: ('e, 'se, 'je) lug_error + 'd)"
    using ld d(3) replay_above [OF codec d(2)] by simp
  then show ?thesis using d load h by (auto simp: log_open_def log_base_def)
qed

end

section \<open>Properties\<close>

text \<open>
  A patch that cannot be encoded aborts the batch without unwinding it. The patches folded
  before it stay in memory: the structure is ahead of the watermark and of the storage, a
  reader of the current view sees a version nobody recorded, and the next good append is
  recorded under a number that leaves a gap.
\<close>

theorem codec_error_leaves_memory_ahead:
  "let enc = (\<lambda>j. if j = JNull then Inl () else Inr [1]);
       l0 = \<lparr>log_data = \<lparr>noop_version = 0\<rparr>, log_storage = (), log_watermark = 0, log_synced = 0\<rparr>;
       (l1, res1) = log_append noop_ops (discard_ops :: (unit, version, unit) storage_ops) enc l0 [JBool True, JNull] Written;
       (l2, res2) = log_append noop_ops (discard_ops :: (unit, version, unit) storage_ops) enc l1 [JBool True] Written
   in res1 = Inl (CodecError ()) \<and> log_watermark l1 = 0 \<and> lv_view (log_view noop_ops l1) = 1 \<and>
      res2 = Inr [2] \<and> log_watermark l2 = 2"
  by (simp add: log_append_def noop_ops_def noop_commit_def u64_checked_add_def u64_max_def
      discard_ops_def log_view_def Let_def)

end
