(* ===== verification/WalContract.thy ===== *)
theory WalContract
  imports WalStore LugLog
begin

text \<open>
  The segment store keeps the contract \<open>storage\<close> of the log, whatever the kernel answers to its
  calls. The invariant \<open>wal_good\<close> ties the store's memory to the contents of its directory: the
  segments are a chain of consecutive records, each followed by nothing but zeros.
\<close>

section \<open>Segments and what they hold\<close>

definition seg_ok ::
    "crc \<Rightarrow> (string \<Rightarrow> bytes option) \<Rightarrow> bool \<Rightarrow> nat \<Rightarrow> segment \<Rightarrow> log_record list \<Rightarrow> bool" where
  "seg_ok crc D settled n s rs \<longleftrightarrow>
     seg_first s = Suc n \<and> seg_path s = segment_name (Suc n) \<and> consec n rs \<and> (\<forall>r \<in> set rs. storable r) \<and>
     n + length rs < u64_max \<and> (\<exists>z. D (seg_path s) = Some (segment_bytes crc rs @ replicate z 0)) \<and>
     (settled \<longrightarrow> seg_end s = length (segment_bytes crc rs) \<and> seg_last s = n + length rs)"

fun chain ::
    "crc \<Rightarrow> (string \<Rightarrow> bytes option) \<Rightarrow> bool \<Rightarrow> nat \<Rightarrow> segment list \<Rightarrow> log_record list list \<Rightarrow> bool" where
  "chain crc D settled n [] [] \<longleftrightarrow> True"
| "chain crc D settled n (s # ss) (rs # rss) \<longleftrightarrow>
     seg_ok crc D settled n s rs \<and> (ss \<noteq> [] \<longrightarrow> rs \<noteq> []) \<and> chain crc D settled (n + length rs) ss rss"
| "chain crc D settled n _ _ \<longleftrightarrow> False"

lemma chain_length: "chain crc D settled n segs rss \<Longrightarrow> length segs = length rss"
  by (induction crc D settled n segs rss rule: chain.induct) auto

lemma chain_snoc:
  "chain crc D settled n (ss @ [s]) rss' \<longleftrightarrow>
     (\<exists>rss rs. rss' = rss @ [rs] \<and> chain crc D settled n ss rss \<and> [] \<notin> set rss \<and>
        seg_ok crc D settled (n + length (concat rss)) s rs)"
proof (induction ss arbitrary: n rss')
  case Nil
  show ?case by (cases rss') (auto simp: Cons_eq_append_conv neq_Nil_conv dest: chain_length intro: exI [of _ "[]"])
next
  case (Cons a ss)
  show ?case
  proof (cases rss')
    case (Cons rs0 rss0)
    show ?thesis unfolding Cons using Cons.IH
      by (auto simp: Cons_eq_append_conv add.assoc)
  qed simp
qed

lemma chain_weaken: "chain crc D settled n segs rss \<Longrightarrow> chain crc D False n segs rss"
  by (induction crc D settled n segs rss rule: chain.induct) (auto simp: seg_ok_def)

lemma chain_frame:
  "chain crc D settled n segs rss \<Longrightarrow> \<forall>s \<in> set segs. D' (seg_path s) = D (seg_path s) \<Longrightarrow>
   chain crc D' settled n segs rss"
  by (induction crc D settled n segs rss rule: chain.induct) (auto simp: seg_ok_def)

lemma chain_Nil [simp]: "chain crc D settled n [] rss \<longleftrightarrow> rss = []"
  by (cases rss) auto

lemma chain_Cons:
  "chain crc D settled n (s # ss) rss' \<longleftrightarrow>
     (\<exists>rs rss. rss' = rs # rss \<and> seg_ok crc D settled n s rs \<and> (ss \<noteq> [] \<longrightarrow> rs \<noteq> []) \<and>
        chain crc D settled (n + length rs) ss rss)"
  by (cases rss') auto

lemma chain_first:
  "chain crc D settled n segs rss \<Longrightarrow> s \<in> set segs \<Longrightarrow>
   n < seg_first s \<and> seg_first s \<le> Suc (n + length (concat rss)) \<and> seg_first s \<le> u64_max \<and>
   seg_path s = segment_name (seg_first s) \<and> D (seg_path s) \<noteq> None"
proof (induction segs arbitrary: n rss)
  case (Cons a segs)
  then obtain rs rss' where c: "rss = rs # rss'" "seg_ok crc D settled n a rs"
    "chain crc D settled (n + length rs) segs rss'" by (auto simp: chain_Cons)
  show ?case
  proof (cases "s = a")
    case True
    then show ?thesis using c by (auto simp: seg_ok_def)
  next
    case False
    then have "s \<in> set segs" using Cons.prems by simp
    from Cons.IH [OF c(3) this] show ?thesis using c(1) by auto
  qed
qed simp

lemma chain_sorted:
  "chain crc D settled n segs rss \<Longrightarrow> sorted_wrt (<) (map seg_first segs)"
proof (induction segs arbitrary: n rss)
  case (Cons a segs)
  then obtain rs rss' where c: "rss = rs # rss'" "seg_ok crc D settled n a rs" "segs \<noteq> [] \<longrightarrow> rs \<noteq> []"
    "chain crc D settled (n + length rs) segs rss'" by (auto simp: chain_Cons)
  have "seg_first a < seg_first s" if s: "s \<in> set segs" for s
  proof -
    have "rs \<noteq> []" using s c(3) by auto
    then have "seg_first a \<le> n + length rs" using c(2) by (cases rs) (simp_all add: seg_ok_def)
    then show ?thesis using chain_first [OF c(4) s] by simp
  qed
  then show ?case using Cons.IH [OF c(4)] by simp
qed simp

lemma chain_top: "chain crc D settled n segs rss \<Longrightarrow> segs \<noteq> [] \<Longrightarrow> n + length (concat rss) < u64_max"
proof (induction segs arbitrary: n rss)
  case (Cons a segs)
  then obtain rs rss' where c: "rss = rs # rss'" "seg_ok crc D settled n a rs"
    "chain crc D settled (n + length rs) segs rss'" by (auto simp: chain_Cons)
  show ?case
  proof (cases "segs = []")
    case True
    then show ?thesis using c by (simp add: seg_ok_def)
  next
    case False
    then show ?thesis using Cons.IH [OF c(3)] c(1) by (simp add: add.assoc)
  qed
qed simp

lemma chain_consec: "chain crc D settled n segs rss \<Longrightarrow> consec n (concat rss)"
  by (induction crc D settled n segs rss rule: chain.induct) (auto simp: consec_append seg_ok_def)

lemma chain_records:
  "chain crc D settled n segs rss \<Longrightarrow> map (\<lambda>s. seg_records crc (the (D (seg_path s)))) segs = rss"
proof (induction crc D settled n segs rss rule: chain.induct)
  case (2 crc D settled n s ss rs rss)
  then obtain z where "D (seg_path s) = Some (segment_bytes crc rs @ replicate z 0)" "\<forall>r \<in> set rs. storable r"
    by (auto simp: seg_ok_def)
  then show ?case using 2 by (simp add: seg_records_segment)
qed auto

section \<open>Recovery over a chain\<close>

lemma scan_path_contents:
  "scan_path crc path visit fs st =
     (case contents fs path of None \<Rightarrow> Inl (Io path NotFound) | Some d \<Rightarrow> scan_bytes crc (NotASegment path) visit d st)"
  by (simp add: scan_path_def contents_def split: option.split)

lemma visit_recover:
  "consec n rs \<Longrightarrow> n + length rs < u64_max \<Longrightarrow> expect = Some (Suc n) \<or> expect = None \<and> first = Suc n \<Longrightarrow>
   visit_records (recover_visit path first hv collect) rs pos (expect, tail) =
     (Inr (pos + (\<Sum>r\<leftarrow>rs. rec_prefix + length (rec_patch r)),
          (if rs = [] then expect else Some (Suc (n + length rs)), tail @ (if collect then above hv rs else [])), False)
        :: 'je wal_error + _)"
proof (induction rs arbitrary: n expect tail pos)
  case (Cons r rs)
  have r: "rec_version r = Suc n" "consec (Suc n) rs" using Cons.prems by (simp_all add: consec_Cons)
  have bound: "Suc n + length rs < u64_max" "Suc (Suc n) \<le> u64_max" using Cons.prems by auto
  have rec: "\<lparr>rec_version = Suc n, rec_patch = rec_patch r\<rparr> = r" using r(1) by simp
  have step: "recover_visit path first hv collect (rec_version r) (rec_patch r) (expect, tail) =
      (Inr ((Some (Suc (Suc n)), tail @ (if collect then above hv [r] else [])), False) :: 'je wal_error + _)"
    using Cons.prems(3) bound(2) r(1) rec by (auto simp: recover_visit_def Let_def above_def split: option.splits)
  note next1 = Cons.IH [OF r(2) bound(1), of "Some (Suc (Suc n))"]
  show ?case by (simp add: step next1 above_def del: upt_Suc)
qed (simp add: above_def)

lemma scan_seg_ok:
  assumes "seg_ok crc (contents fs) settled n s rs" "expect = None \<or> expect = Some (Suc n)"
  obtains z where
    "contents fs (seg_path s) = Some (segment_bytes crc rs @ replicate z 0)"
    "scan_path crc (seg_path s) (recover_visit (seg_path s) (seg_first s) hv collect) fs (expect, tail) =
       Inr (\<lparr>scan_end = length (segment_bytes crc rs), scan_file_len = length (segment_bytes crc rs) + z,
             scan_torn = (0 < z \<and> z < rec_prefix)\<rparr>,
            if rs = [] then expect else Some (Suc (n + length rs)), tail @ (if collect then above hv rs else []))"
proof -
  obtain z where z: "contents fs (seg_path s) = Some (segment_bytes crc rs @ replicate z 0)"
    using assms(1) by (auto simp: seg_ok_def)
  have st: "\<forall>r \<in> set rs. storable r" and c: "consec n rs" "n + length rs < u64_max" "seg_first s = Suc n"
    using assms(1) by (auto simp: seg_ok_def)
  have v: "expect = Some (Suc n) \<or> expect = None \<and> seg_first s = Suc n" using assms(2) c(3) by blast
  show ?thesis
    by (rule that [OF z]) (simp add: scan_path_contents z scan_segment [OF st] visit_recover [OF c(1,2) v]
        scan_loop_zeros length_segment_bytes)
qed

lemma truncate_file_contents:
  assumes "truncate_file path (length base) fs = (fs', res)" "contents fs path = Some (base @ replicate z 0)"
  shows "\<exists>z'. contents fs' = (contents fs)(path \<mapsto> base @ replicate z' 0) \<and> (fs_wf fs \<longrightarrow> fs_wf fs')"
proof -
  obtain fs1 r1 where 1: "fs_open_rw path fs = (fs1, r1)" by (cases "fs_open_rw path fs")
  have c1: "contents fs1 = contents fs" "fs_wf fs \<longrightarrow> fs_wf fs1"
    using fs_open_rw_contents [OF 1] assms(2) by auto
  obtain fs2 r2 where 2: "fs_set_len path (length base) fs1 = (fs2, r2)" by (cases "fs_set_len path (length base) fs1")
  have c2: "\<exists>z'. contents fs2 = (contents fs)(path \<mapsto> base @ replicate z' 0) \<and> (fs_wf fs1 \<longrightarrow> fs_wf fs2)"
  proof (cases r2)
    case (Inl e)
    then show ?thesis using fs_set_len_contents [OF 2] c1 assms(2) by (intro exI [of _ z]) (auto simp: fun_upd_idem)
  next
    case (Inr u)
    then show ?thesis using fs_set_len_contents [OF 2] c1 assms(2) by (intro exI [of _ 0]) (auto simp: resize_def)
  qed
  obtain fs3 r3 where 3: "fs_fsync path fs2 = (fs3, r3)" by (cases "fs_fsync path fs2")
  have c3: "contents fs3 = contents fs2" "fs_wf fs2 \<longrightarrow> fs_wf fs3" using fs_fdatasync_contents(2) [OF 3] by auto
  have c0: "contents fs = (contents fs)(path \<mapsto> base @ replicate z 0)" using assms(2) by (simp add: fun_upd_idem)
  have "fs' = fs1 \<or> fs' = fs2 \<or> fs' = fs3" using assms(1) 1 2 3
    by (cases r1; cases r2) (auto simp: truncate_file_def sbind_def Let_def)
  then show ?thesis
  proof (elim disjE)
    assume "fs' = fs1"
    then show ?thesis using c0 c1 by (intro exI [of _ z]) simp
  qed (use c1 c2 c3 in auto)
qed

text \<open>The directory keeps its names; only the files of \<open>names\<close> may change their contents.\<close>

definition only_changes :: "string set \<Rightarrow> fs \<Rightarrow> fs \<Rightarrow> bool" where
  "only_changes names fs fs' \<longleftrightarrow>
     (fs_wf fs \<longrightarrow> fs_wf fs') \<and> dom (contents fs') = dom (contents fs) \<and>
     (\<forall>name. name \<notin> names \<longrightarrow> contents fs' name = contents fs name)"

lemma only_changes_refl [simp]: "only_changes names fs fs"
  by (simp add: only_changes_def)

lemma only_changes_trans:
  "only_changes A fs fs' \<Longrightarrow> only_changes B fs' fs'' \<Longrightarrow> only_changes (A \<union> B) fs fs''"
  by (simp add: only_changes_def)

lemma only_changes_mono: "only_changes A fs fs' \<Longrightarrow> A \<subseteq> B \<Longrightarrow> only_changes B fs fs'"
  unfolding only_changes_def by blast

lemma only_changes_upd:
  assumes "contents fs' = (contents fs)(p \<mapsto> d)" "contents fs p = Some d0" "fs_wf fs \<longrightarrow> fs_wf fs'"
  shows "only_changes {p} fs fs'"
proof -
  have "p \<in> dom (contents fs)" using assms(2) by blast
  then show ?thesis using assms(1,3) by (simp add: only_changes_def insert_absorb)
qed

definition same_names :: "segment list \<Rightarrow> segment list \<Rightarrow> bool" where
  "same_names segs segs' \<longleftrightarrow> map seg_first segs' = map seg_first segs \<and> map seg_path segs' = map seg_path segs"

lemma recover_loop_chain:
  assumes "chain crc (contents fs) False n segs rss" "expect = None \<or> expect = Some (Suc n)"
    "recover_loop crc hv collect settled segs (expect, tail) fs = (fs', segs', res)"
  shows "\<exists>ss. segs' = settled @ ss \<and> same_names segs ss \<and> only_changes (set (map seg_path segs)) fs fs' \<and>
    (case res of
       Inl _ \<Rightarrow> chain crc (contents fs') False n ss rss
     | Inr (_, tail') \<Rightarrow> chain crc (contents fs') True n ss rss \<and>
         tail' = tail @ (if collect then above hv (concat rss) else []))"
  using assms
proof (induction segs arbitrary: n rss expect tail settled fs)
  case Nil
  then show ?case by (auto simp: same_names_def above_def)
next
  case (Cons s segs)
  from Cons.prems(1) obtain rs rss' where c: "rss = rs # rss'" "seg_ok crc (contents fs) False n s rs"
    "segs \<noteq> [] \<longrightarrow> rs \<noteq> []" "chain crc (contents fs) False (n + length rs) segs rss'" by (auto simp: chain_Cons)
  let ?base = "segment_bytes crc rs" and ?expect = "if rs = [] then expect else Some (Suc (n + length rs))"
    and ?tail = "tail @ (if collect then above hv rs else [])"
  obtain z where z: "contents fs (seg_path s) = Some (?base @ replicate z 0)"
    "scan_path crc (seg_path s) (recover_visit (seg_path s) (seg_first s) hv collect) fs (expect, tail) =
       (Inr (\<lparr>scan_end = length ?base, scan_file_len = length ?base + z, scan_torn = (0 < z \<and> z < rec_prefix)\<rparr>,
            ?expect, ?tail) :: 'a wal_error + _)"
    by (rule scan_seg_ok [OF c(2) Cons.prems(2)])
  let ?cut = "if 0 < z then truncate_file (seg_path s) (length ?base) fs else (fs, Inr () :: 'a wal_error + unit)"
  obtain fs1 r1 where cut: "?cut = (fs1, r1)" by (cases ?cut)
  have fs1: "\<exists>z'. contents fs1 = (contents fs)(seg_path s \<mapsto> ?base @ replicate z' 0) \<and> (fs_wf fs \<longrightarrow> fs_wf fs1)"
  proof (cases "0 < z")
    case True
    then show ?thesis using cut truncate_file_contents [OF _ z(1)] by simp
  next
    case False
    then show ?thesis using cut z(1) by (intro exI [of _ 0]) (auto simp: fun_upd_idem)
  qed
  have other: "\<forall>t \<in> set segs. seg_path t \<noteq> seg_path s"
  proof
    fix t assume t: "t \<in> set segs"
    have "seg_first s < seg_first t" using chain_sorted [OF Cons.prems(1)] t by simp
    then show "seg_path t \<noteq> seg_path s"
      using chain_first [OF Cons.prems(1), of s] chain_first [OF Cons.prems(1), of t] t segment_name_inject by auto
  qed
  have only1: "only_changes {seg_path s} fs fs1" using fs1 z(1) by (auto intro: only_changes_upd)
  have seg1: "seg_ok crc (contents fs1) False n s rs" using c(2) fs1 by (auto simp: seg_ok_def)
  have rest1: "chain crc (contents fs1) False (n + length rs) segs rss'"
    using fs1 other by (intro chain_frame [OF c(4)]) auto
  show ?case
  proof (cases "(0 < z \<and> z < rec_prefix) \<and> segs \<noteq> [] \<or> (\<exists>e. r1 = Inl e)")
    case True
    have "fs' = fs \<or> fs' = fs1" "segs' = settled @ s # segs" "\<exists>e. res = Inl e"
      using True Cons.prems(3) z(2) cut by (auto split: if_splits)
    moreover have "chain crc (contents fs1) False n (s # segs) rss" using seg1 rest1 c by (simp add: chain_Cons)
    ultimately show ?thesis using Cons.prems(1) only1
      by (auto simp: same_names_def only_changes_def)
  next
    case False
    then have r1: "r1 = Inr ()" by (cases r1) auto
    let ?s = "s\<lparr>seg_end := length ?base,
      seg_last := (case ?expect of None \<Rightarrow> seg_first s - 1 | Some e \<Rightarrow> u64_wrapping_sub e 1)\<rparr>"
    have loop: "recover_loop crc hv collect (settled @ [?s]) segs (?expect, ?tail) fs1 = (fs', segs', res)"
      using False Cons.prems(3) z(2) cut r1 by (auto split: if_splits)
    have "?expect = None \<or> ?expect = Some (Suc (n + length rs))" using Cons.prems(2) by auto
    from Cons.IH [OF rest1 this loop] obtain ss where ss: "segs' = (settled @ [?s]) @ ss" "same_names segs ss"
      "only_changes (set (map seg_path segs)) fs1 fs'"
      "case res of Inl _ \<Rightarrow> chain crc (contents fs') False (n + length rs) ss rss'
       | Inr (_, tail') \<Rightarrow> chain crc (contents fs') True (n + length rs) ss rss' \<and>
           tail' = ?tail @ (if collect then above hv (concat rss') else [])" by blast
    have last: "seg_last ?s = n + length rs"
      using c(2) Cons.prems(2) by (auto simp: seg_ok_def u64_wrapping_sub_exact)
    have "seg_path s \<notin> set (map seg_path segs)" using other by auto
    then have "contents fs' (seg_path s) = contents fs1 (seg_path s)" using ss(3) unfolding only_changes_def by blast
    then have seg': "seg_ok crc (contents fs') True n ?s rs" using seg1 last by (auto simp: seg_ok_def)
    then have seg'': "seg_ok crc (contents fs') False n ?s rs" by (auto simp: seg_ok_def)
    have ne: "ss \<noteq> [] \<longrightarrow> rs \<noteq> []" using c(3) ss(2) by (auto simp: same_names_def)
    have "only_changes (set (map seg_path (s # segs))) fs fs'"
      using only_changes_trans [OF only1 ss(3)] by simp
    moreover have "same_names (s # segs) (?s # ss)" using ss(2) by (simp add: same_names_def)
    moreover have "case res of Inl _ \<Rightarrow> chain crc (contents fs') False n (?s # ss) rss
       | Inr (_, tail') \<Rightarrow> chain crc (contents fs') True n (?s # ss) rss \<and>
           tail' = tail @ (if collect then above hv (concat rss) else [])"
      using ss(4) seg' seg'' ne c(1) by (auto simp: chain_Cons above_def split: sum.splits)
    ultimately show ?thesis using ss(1) by (intro exI [of _ "?s # ss"]) simp
  qed
qed

section \<open>The invariant of a store\<close>

text \<open>What a rotation can leave under the next segment's name when it fails half way.\<close>

definition orphan :: "bytes \<Rightarrow> bool" where
  "orphan d \<longleftrightarrow> (\<exists>k z. d = take k segment_prologue @ replicate z 0)"

definition wal_top :: "nat \<Rightarrow> log_record list list \<Rightarrow> nat" where
  "wal_top n rss = n + length (concat rss)"

definition stray_ok :: "wal \<Rightarrow> nat \<Rightarrow> string \<Rightarrow> version \<Rightarrow> bool" where
  "stray_ok w next_first name m \<longleftrightarrow>
     name = segment_name m \<and>
     (name \<in> seg_path ` set (wal_segments w) \<or>
      wal_segments w \<noteq> [] \<and> m < seg_first (hd (wal_segments w)) \<or>
      wal_recovered w \<and> wal_active w = None \<and> m = next_first \<and>
        (\<exists>d. contents (wal_fs w) name = Some d \<and> orphan d))"

definition wal_good :: "crc \<Rightarrow> wal \<Rightarrow> nat \<Rightarrow> log_record list list \<Rightarrow> bool" where
  "wal_good crc w n rss \<longleftrightarrow>
     fs_wf (wal_fs w) \<and> seg_prologue + rec_prefix \<le> wal_rotate_bytes w \<and>
     chain crc (contents (wal_fs w)) (wal_recovered w) n (wal_segments w) rss \<and> wal_top n rss < u64_max \<and>
     (case wal_active w of
        None \<Rightarrow> wal_recovered w \<and> wal_segments w \<noteq> [] \<longrightarrow> last rss \<noteq> []
      | Some p \<Rightarrow> wal_recovered w \<and> wal_segments w \<noteq> [] \<and> p = seg_path (last (wal_segments w))) \<and>
     (\<forall>name m. name \<in> dom (contents (wal_fs w)) \<and> parse_segment_name name = Some m \<longrightarrow>
        stray_ok w (Suc (wal_top n rss)) name m)"

text \<open>A file below the first segment the store knows of: a reclaim that could not remove it.\<close>

definition leftover :: "wal \<Rightarrow> bool" where
  "leftover w \<longleftrightarrow> wal_segments w \<noteq> [] \<and>
     (\<exists>name m. name \<in> dom (contents (wal_fs w)) \<and> parse_segment_name name = Some m \<and> m < seg_first (hd (wal_segments w)))"

definition wal_tainted :: "wal \<Rightarrow> bool" where
  "wal_tainted w \<longleftrightarrow> wal_poison w \<noteq> None \<or> leftover w"

definition disk_header ::
    "crc \<Rightarrow> (bytes \<Rightarrow> 'je + version \<times> 'v) \<Rightarrow> ('v \<Rightarrow> version) \<Rightarrow> fs \<Rightarrow> 'v option" where
  "disk_header crc hdec vver fs =
     (case read_header crc hdec vver fs of Inr (Some (ver, v)) \<Rightarrow> Some v | _ \<Rightarrow> None)"

definition disk_version ::
    "crc \<Rightarrow> (bytes \<Rightarrow> 'je + version \<times> 'v) \<Rightarrow> ('v \<Rightarrow> version) \<Rightarrow> fs \<Rightarrow> version" where
  "disk_version crc hdec vver fs = (case disk_header crc hdec vver fs of None \<Rightarrow> 0 | Some v \<Rightarrow> vver v)"

definition header_good ::
    "crc \<Rightarrow> (bytes \<Rightarrow> 'je + version \<times> 'v) \<Rightarrow> ('v \<Rightarrow> version) \<Rightarrow> ('v \<Rightarrow> bool) \<Rightarrow> wal \<Rightarrow> nat \<Rightarrow> log_record list list \<Rightarrow> bool" where
  "header_good crc hdec vver vok w n rss \<longleftrightarrow>
     (let hv = disk_version crc hdec vver (wal_fs w) in
      (\<exists>h. read_header crc hdec vver (wal_fs w) = Inr h) \<and>
      (\<forall>v. disk_header crc hdec vver (wal_fs w) = Some v \<longrightarrow> vok v) \<and>
      n \<le> hv \<and> hv \<le> wal_top n rss \<and> wal_header_version w \<le> hv \<and>
      (wal_segments w = [] \<longrightarrow> wal_header_version w = hv))"

definition wal_swf ::
    "crc \<Rightarrow> (bytes \<Rightarrow> 'je + version \<times> 'v) \<Rightarrow> ('v \<Rightarrow> version) \<Rightarrow> ('v \<Rightarrow> bool) \<Rightarrow> wal \<Rightarrow> bool" where
  "wal_swf crc hdec vver vok w \<longleftrightarrow>
     wal_poison w \<noteq> None \<or>
     (\<exists>n rss. wal_good crc w n rss \<and> (\<not> leftover w \<longrightarrow> header_good crc hdec vver vok w n rss))"

definition wal_abs ::
    "crc \<Rightarrow> (bytes \<Rightarrow> 'je + version \<times> 'v) \<Rightarrow> ('v \<Rightarrow> version) \<Rightarrow> wal \<Rightarrow> 'v option \<times> log_record list" where
  "wal_abs crc hdec vver w =
     (disk_header crc hdec vver (wal_fs w),
      above (disk_version crc hdec vver (wal_fs w))
        (concat (map (\<lambda>s. seg_records crc (the (contents (wal_fs w) (seg_path s)))) (wal_segments w))))"

lemma wal_abs_good:
  "wal_good crc w n rss \<Longrightarrow>
   wal_abs crc hdec vver w = (disk_header crc hdec vver (wal_fs w), above (disk_version crc hdec vver (wal_fs w)) (concat rss))"
  using chain_records [of crc "contents (wal_fs w)" "wal_recovered w" n "wal_segments w" rss]
  by (simp add: wal_abs_def wal_good_def)

lemma names_not_segments [simp]:
  "parse_segment_name header_name = None" "parse_segment_name header_tmp = None"
  by (simp_all add: parse_segment_name_def strip_suffix_def header_name_def header_tmp_def)

lemma segment_name_not_header [simp]:
  "n \<le> u64_max \<Longrightarrow> segment_name n \<noteq> header_name" "n \<le> u64_max \<Longrightarrow> segment_name n \<noteq> header_tmp"
  using segment_name_parses names_not_segments by (metis option.distinct(1))+

lemma read_header_cong:
  "contents fs' header_name = contents fs header_name \<Longrightarrow> read_header crc hdec vver fs' = read_header crc hdec vver fs"
  by (auto simp: contents_def read_header_def split: option.splits)

lemma disk_header_cong:
  assumes "contents fs' header_name = contents fs header_name"
  shows "disk_header crc hdec vver fs' = disk_header crc hdec vver fs"
    "disk_version crc hdec vver fs' = disk_version crc hdec vver fs"
  by (simp_all add: disk_header_def disk_version_def read_header_cong [OF assms])

lemma chain_path_not_header:
  assumes "chain crc D settled n segs rss" shows "header_name \<notin> seg_path ` set segs"
  using chain_first [OF assms] by (metis imageE segment_name_not_header(1))

lemma chain_paths:
  assumes "chain crc D settled n (ss @ [s]) rss" "t \<in> set ss" shows "seg_path t \<noteq> seg_path s"
proof -
  have "seg_first t < seg_first s" using chain_sorted [OF assms(1)] assms(2) by (auto simp: sorted_wrt_append)
  then show ?thesis
    using chain_first [OF assms(1), of s] chain_first [OF assms(1), of t] assms(2) segment_name_inject by auto
qed

lemma chain_update_last:
  assumes "chain crc D settled n (ss @ [s]) (rss @ [rs])" "seg_ok crc D' settled (n + length (concat rss)) s' rs'"
    "\<forall>name. name \<noteq> seg_path s \<longrightarrow> D' name = D name"
  shows "chain crc D' settled n (ss @ [s']) (rss @ [rs'])"
proof -
  have "chain crc D settled n ss rss" "[] \<notin> set rss" using assms(1) by (auto simp: chain_snoc)
  moreover from this(1) have "chain crc D' settled n ss rss"
    by (rule chain_frame) (use assms(3) chain_paths [OF assms(1)] in auto)
  ultimately show ?thesis using assms(2) by (auto simp: chain_snoc)
qed

lemma chain_rezero:
  assumes "chain crc D settled n (ss @ [s]) rss" "D' = D(seg_path s \<mapsto> segment_bytes crc (last rss) @ replicate z 0)"
  shows "chain crc D' settled n (ss @ [s]) rss"
proof -
  obtain rss0 rs where r: "rss = rss0 @ [rs]" "seg_ok crc D settled (n + length (concat rss0)) s rs"
    using assms(1) by (auto simp: chain_snoc)
  then have seg: "seg_ok crc D' settled (n + length (concat rss0)) s rs" using assms(2) by (auto simp: seg_ok_def)
  have "chain crc D settled n (ss @ [s]) (rss0 @ [rs])" using assms(1) r(1) by simp
  from chain_update_last [OF this seg] assms(2) show ?thesis by (simp add: r(1))
qed

lemma chain_last:
  assumes "chain crc D settled n segs rss" "segs \<noteq> []"
  obtains z where "D (seg_path (last segs)) = Some (segment_bytes crc (last rss) @ replicate z 0)"
    "settled \<Longrightarrow> seg_end (last segs) = length (segment_bytes crc (last rss))"
    "settled \<Longrightarrow> seg_last (last segs) = wal_top n rss" "\<forall>r \<in> set (last rss). storable r"
    "rss \<noteq> []" "consec (wal_top n (butlast rss)) (last rss)" "seg_first (last segs) = Suc (wal_top n (butlast rss))"
    "seg_path (last segs) = segment_name (Suc (wal_top n (butlast rss)))"
proof -
  have "chain crc D settled n (butlast segs @ [last segs]) rss" using assms by simp
  then obtain rss0 rs where "rss = rss0 @ [rs]" "seg_ok crc D settled (n + length (concat rss0)) (last segs) rs"
    unfolding chain_snoc by blast
  note c = this
  then obtain z where z: "D (seg_path (last segs)) = Some (segment_bytes crc rs @ replicate z 0)" by (auto simp: seg_ok_def)
  show ?thesis
    by (rule that [of z]) (use c z in \<open>simp_all add: seg_ok_def wal_top_def add.assoc butlast_append\<close>)
qed

section \<open>Recovery\<close>

lemma sbind_cases:
  assumes "sbind m k = (s', res)"
  obtains (err) e where "m = (s', Inl e)" "res = Inl e" | (ok) a s where "m = (s, Inr a)" "k a s = (s', res)"
  using assms by (auto simp: sbind_def split: prod.splits sum.splits)

lemma wal_at_cases:
  assumes "wal_at path op w = (w', res)"
  obtains fs r where "op (wal_fs w) = (fs, r)" "w' = w\<lparr>wal_fs := fs\<rparr>" "res = map_err (Io path) r"
  using assms by (auto simp: wal_at_def split: prod.splits)

lemma preallocate_contents:
  assumes "fs_write path (preallocate len) fs = (fs', res)" "contents fs path = Some (base @ replicate z 0)"
    "length base \<le> len"
  obtains z' where "contents fs' = (contents fs)(path \<mapsto> base @ replicate z' 0)" "fs_wf fs \<longrightarrow> fs_wf fs'"
proof -
  obtain fl data r where p: "preallocate len (fs_faults fs) (base @ replicate z 0) = (fl, data, r)"
    by (cases "preallocate len (fs_faults fs) (base @ replicate z 0)")
  show ?thesis using fs_write_contents [OF assms(1,2) p] preallocate_zeros [OF p assms(3)] that by blast
qed

text \<open>Two stores that differ only in fault list, contents and capacity.\<close>

lemma reopen_last_chain:
  assumes "reopen_last w = (w', res)" "chain crc (contents (wal_fs w)) True n (wal_segments w) rss"
  shows "(\<exists>fs cap act. w' = w\<lparr>wal_fs := fs, wal_capacity := cap, wal_active := act\<rparr> \<and>
      only_changes (seg_path ` set (wal_segments w)) (wal_fs w) fs \<and>
      chain crc (contents fs) True n (wal_segments w) rss \<and>
      act = (if res = Inr () \<and> wal_segments w \<noteq> [] then Some (seg_path (last (wal_segments w))) else wal_active w))"
proof (cases "wal_segments w = []")
  case True
  then show ?thesis using assms by (intro exI [of _ "wal_fs w"] exI [of _ "wal_capacity w"] exI [of _ "wal_active w"])
    (auto simp: reopen_last_def)
next
  case False
  let ?s = "last (wal_segments w)"
  let ?path = "seg_path ?s"
  obtain z where z: "contents (wal_fs w) ?path = Some (segment_bytes crc (last rss) @ replicate z 0)"
    "seg_end ?s = length (segment_bytes crc (last rss))"
    by (rule chain_last [OF assms(2) False]) blast
  have snoc: "wal_segments w = butlast (wal_segments w) @ [?s]" using False by simp
  have mem: "?path \<in> seg_path ` set (wal_segments w)" using False by simp
  have grow: "only_changes (seg_path ` set (wal_segments w)) fs fs'" if "only_changes {?path} fs fs'" for fs fs'
    by (rule only_changes_mono [OF that]) (use mem in simp)
  have stay: "chain crc (contents fs) True n (wal_segments w) rss"
    if "contents fs = (contents (wal_fs w))(?path \<mapsto> segment_bytes crc (last rss) @ replicate z' 0)" for fs z'
  proof -
    have "chain crc (contents (wal_fs w)) True n (butlast (wal_segments w) @ [?s]) rss" using assms(2) False by simp
    from chain_rezero [OF this that] show ?thesis using False by simp
  qed
  consider (ahead) e where "w' = w" "res = Inl e"
    | (run) "sbind (wal_at ?path (fs_open_rw ?path) w) (\<lambda>_ w.
          let w' = w\<lparr>wal_capacity := max (seg_end ?s) (wal_rotate_bytes w)\<rparr> in
          sbind (wal_at ?path (fs_write ?path (preallocate (wal_capacity w'))) w') (\<lambda>_ w.
          (w\<lparr>wal_active := Some ?path\<rparr>, Inr ()))) = (w', res)"
    using assms(1) False by (auto simp: reopen_last_def Let_def split: if_splits)
  then show ?thesis
  proof cases
    case ahead
    then show ?thesis using assms(2)
      by (intro exI [of _ "wal_fs w"] exI [of _ "wal_capacity w"] exI [of _ "wal_active w"]) auto
  next
    case run
    then show ?thesis
    proof (cases rule: sbind_cases)
      case (err e)
      obtain fs r where o: "fs_open_rw ?path (wal_fs w) = (fs, r)" "w' = w\<lparr>wal_fs := fs\<rparr>"
        by (rule wal_at_cases [OF err(1)])
      have same: "contents fs = contents (wal_fs w)" "fs_wf (wal_fs w) \<longrightarrow> fs_wf fs"
        using fs_open_rw_contents [OF o(1)] z(1) by auto
      show ?thesis using o(2) err(2) same assms(2)
        by (intro exI [of _ fs] exI [of _ "wal_capacity w"] exI [of _ "wal_active w"]) (simp add: only_changes_def)
    next
      case (ok a w1)
      obtain fs r where o: "fs_open_rw ?path (wal_fs w) = (fs, r)" "w1 = w\<lparr>wal_fs := fs\<rparr>"
        by (rule wal_at_cases [OF ok(1)])
      have same: "contents fs = contents (wal_fs w)" "fs_wf (wal_fs w) \<longrightarrow> fs_wf fs"
        using fs_open_rw_contents [OF o(1)] z(1) by auto
      let ?cap = "max (seg_end ?s) (wal_rotate_bytes w)"
      let ?w2 = "w1\<lparr>wal_capacity := ?cap\<rparr>"
      obtain w3 r3 where pre: "wal_at ?path (fs_write ?path (preallocate ?cap)) ?w2 = (w3, r3 :: 'a wal_error + unit)"
        by (cases "wal_at ?path (fs_write ?path (preallocate ?cap)) ?w2 :: wal \<times> ('a wal_error + unit)")
      obtain fs3 r' where p: "fs_write ?path (preallocate ?cap) fs = (fs3, r')" "w3 = ?w2\<lparr>wal_fs := fs3\<rparr>"
        by (rule wal_at_cases [OF pre]) (simp add: o(2))
      obtain z' where z': "contents fs3 = (contents fs)(?path \<mapsto> segment_bytes crc (last rss) @ replicate z' 0)"
        "fs_wf fs \<longrightarrow> fs_wf fs3"
        by (rule preallocate_contents [OF p(1)]) (use z same in auto)
      have ch: "only_changes {?path} (wal_fs w) fs3"
        by (rule only_changes_upd [of _ _ _ "segment_bytes crc (last rss) @ replicate z' 0"]) (use z z' same in auto)
      have w': "w' = (if res = Inr () then w3\<lparr>wal_active := Some ?path\<rparr> else w3) \<and> (res = Inr () \<or> (\<exists>e. res = Inl e))"
        using ok(2) pre o(2) by (cases r3) (auto simp: sbind_def Let_def)
      show ?thesis using w' p(2) o(2) grow [OF ch] stay [of fs3 z'] z'(1) same(1) False
        by (intro exI [of _ fs3] exI [of _ ?cap] exI [of _ "if res = Inr () then Some ?path else wal_active w"]) auto
    qed
  qed
qed

lemma recover_chain:
  assumes run: "recover crc collect w = (w', res)"
    and ch: "chain crc (contents (wal_fs w)) False n (wal_segments w) rss"
  shows "\<exists>fs segs cap act rcv poi.
    w' = w\<lparr>wal_fs := fs, wal_segments := segs, wal_capacity := cap, wal_active := act, wal_recovered := rcv,
           wal_poison := poi\<rparr> \<and>
    same_names (wal_segments w) segs \<and> only_changes (seg_path ` set (wal_segments w)) (wal_fs w) fs \<and>
    (case res of
       Inl _ \<Rightarrow> chain crc (contents fs) False n segs rss \<and> rcv = wal_recovered w \<and> poi = wal_poison w \<and>
         (\<not> collect \<longrightarrow> act = wal_active w)
     | Inr tail \<Rightarrow> chain crc (contents fs) True n segs rss \<and> rcv \<and> poi = None \<and>
         tail = (if collect then above (wal_header_version w) (concat rss) else []) \<and>
         act = (if segs = [] then wal_active w else Some (seg_path (last segs))))"
proof -
  obtain fs1 segs1 r1 where loop: "recover_loop crc (wal_header_version w) collect [] (wal_segments w) (None, []) (wal_fs w)
      = (fs1, segs1, r1 :: 'a wal_error + _)"
    by (cases "recover_loop crc (wal_header_version w) collect [] (wal_segments w) (None, []) (wal_fs w)
      :: fs \<times> segment list \<times> ('a wal_error + _)")
  from recover_loop_chain [OF ch _ loop]
  have l: "same_names (wal_segments w) segs1" "only_changes (seg_path ` set (wal_segments w)) (wal_fs w) fs1"
    "case r1 of Inl _ \<Rightarrow> chain crc (contents fs1) False n segs1 rss
     | Inr (_, tail') \<Rightarrow> chain crc (contents fs1) True n segs1 rss \<and>
         tail' = (if collect then above (wal_header_version w) (concat rss) else [])"
    by (simp_all split: sum.splits prod.splits)
  have paths: "seg_path ` set segs1 = seg_path ` set (wal_segments w)" using l(1)
    by (metis image_set same_names_def)
  let ?w1 = "w\<lparr>wal_fs := fs1, wal_segments := segs1\<rparr>"
  show ?thesis
  proof (cases r1)
    case (Inl e)
    then have "w' = ?w1" "res = Inl e" using run loop by (auto simp: recover_def)
    then show ?thesis using l Inl
      by (intro exI [of _ fs1] exI [of _ segs1] exI [of _ "wal_capacity w"] exI [of _ "wal_active w"]
          exI [of _ "wal_recovered w"] exI [of _ "wal_poison w"]) simp
  next
    case (Inr p)
    obtain ex tail where p: "p = (ex, tail)" by (cases p)
    have c1: "chain crc (contents fs1) True n segs1 rss"
      and tail: "tail = (if collect then above (wal_header_version w) (concat rss) else [])" using l(3) Inr p by auto
    obtain w2 r2 where re: "reopen_last ?w1 = (w2, r2 :: 'a wal_error + unit)"
      by (cases "reopen_last ?w1 :: wal \<times> ('a wal_error + unit)")
    have c1': "chain crc (contents (wal_fs ?w1)) True n (wal_segments ?w1) rss" using c1 by simp
    from reopen_last_chain [OF re c1'] obtain fs2 cap act where
      "w2 = ?w1\<lparr>wal_fs := fs2, wal_capacity := cap, wal_active := act\<rparr>"
      "only_changes (seg_path ` set (wal_segments ?w1)) (wal_fs ?w1) fs2"
      "chain crc (contents fs2) True n (wal_segments ?w1) rss"
      "act = (if r2 = Inr () \<and> wal_segments ?w1 \<noteq> [] then Some (seg_path (last (wal_segments ?w1)))
        else wal_active ?w1)" by blast
    then have w2: "w2 = ?w1\<lparr>wal_fs := fs2, wal_capacity := cap, wal_active := act\<rparr>"
      "only_changes (seg_path ` set (wal_segments w)) fs1 fs2" "chain crc (contents fs2) True n segs1 rss"
      "act = (if r2 = Inr () \<and> segs1 \<noteq> [] then Some (seg_path (last segs1)) else wal_active w)"
      by (simp_all add: paths)
    have only: "only_changes (seg_path ` set (wal_segments w)) (wal_fs w) fs2"
      using only_changes_trans [OF l(2) w2(2)] by simp
    have tail_none: "\<not> collect \<Longrightarrow> tail = []" using tail by simp
    have res: "w' = w2 \<and> (\<exists>e. res = Inl e) \<and> (\<not> collect \<longrightarrow> r2 \<noteq> Inr ()) \<or>
        w' = w2\<lparr>wal_recovered := True, wal_poison := None\<rparr> \<and> res = Inr tail \<and> r2 = Inr ()"
      using run loop Inr p re tail_none
      by (cases r2) (auto simp: recover_def sbind_def Let_def split: if_splits)
    show ?thesis
    proof (rule disjE [OF res])
      assume "w' = w2 \<and> (\<exists>e. res = Inl e) \<and> (\<not> collect \<longrightarrow> r2 \<noteq> Inr ())"
      then show ?thesis using w2 l(1) only chain_weaken [OF w2(3)]
        by (intro exI [of _ fs2] exI [of _ segs1] exI [of _ cap] exI [of _ act]
            exI [of _ "wal_recovered w"] exI [of _ "wal_poison w"]) auto
    next
      assume "w' = w2\<lparr>wal_recovered := True, wal_poison := None\<rparr> \<and> res = Inr tail \<and> r2 = Inr ()"
      then show ?thesis using w2 l(1) only tail
        by (intro exI [of _ fs2] exI [of _ segs1] exI [of _ cap] exI [of _ act]
            exI [of _ True] exI [of _ None]) auto
    qed
  qed
qed

section \<open>Steps that leave the records alone\<close>

definition wal_quiet :: "wal \<Rightarrow> wal \<Rightarrow> bool" where
  "wal_quiet w w' \<longleftrightarrow>
     leftover w' = leftover w \<and> contents (wal_fs w') header_name = contents (wal_fs w) header_name \<and>
     wal_header_version w' = wal_header_version w \<and> (wal_segments w' = [] \<longrightarrow> wal_segments w = [])"

lemma wal_quiet_refl [simp]: "wal_quiet w w"
  by (simp add: wal_quiet_def)

lemma wal_quiet_trans: "wal_quiet w w' \<Longrightarrow> wal_quiet w' w'' \<Longrightarrow> wal_quiet w w''"
  by (simp add: wal_quiet_def)

lemma quiet_header:
  assumes "wal_quiet w w'"
  shows "read_header crc hdec vver (wal_fs w') = read_header crc hdec vver (wal_fs w)"
    "disk_header crc hdec vver (wal_fs w') = disk_header crc hdec vver (wal_fs w)"
    "disk_version crc hdec vver (wal_fs w') = disk_version crc hdec vver (wal_fs w)"
proof -
  have "contents (wal_fs w') header_name = contents (wal_fs w) header_name" using assms by (simp add: wal_quiet_def)
  note c = read_header_cong [OF this] disk_header_cong [OF this]
  show "read_header crc hdec vver (wal_fs w') = read_header crc hdec vver (wal_fs w)"
    "disk_header crc hdec vver (wal_fs w') = disk_header crc hdec vver (wal_fs w)"
    "disk_version crc hdec vver (wal_fs w') = disk_version crc hdec vver (wal_fs w)" by (rule c)+
qed

lemma header_good_quiet:
  assumes "wal_quiet w w'" "header_good crc hdec vver vok w n rss" "wal_top n rss \<le> wal_top n rss'"
  shows "header_good crc hdec vver vok w' n rss'"
  using assms(2,3) assms(1) unfolding header_good_def Let_def quiet_header [OF assms(1)] wal_quiet_def by simp

lemma leftover_same:
  "same_names (wal_segments w) (wal_segments w') \<Longrightarrow> dom (contents (wal_fs w')) = dom (contents (wal_fs w)) \<Longrightarrow>
   leftover w' = leftover w"
proof -
  assume a: "same_names (wal_segments w) (wal_segments w')" "dom (contents (wal_fs w')) = dom (contents (wal_fs w))"
  have "(wal_segments w' = []) = (wal_segments w = [])" using a(1) by (auto simp: same_names_def)
  moreover have "wal_segments w \<noteq> [] \<longrightarrow> seg_first (hd (wal_segments w')) = seg_first (hd (wal_segments w))"
    using a(1) calculation by (metis hd_map same_names_def)
  ultimately show ?thesis using a(2) by (auto simp: leftover_def)
qed

lemma ensure_recovered_good:
  assumes run: "ensure_recovered crc w = (w', res)" and good: "wal_good crc w n rss" and poi: "wal_poison w = None"
  shows "wal_good crc w' n rss \<and> wal_quiet w w' \<and> wal_poison w' = None \<and> (res = Inr () \<longrightarrow> wal_recovered w')"
proof (cases "wal_recovered w")
  case True
  then show ?thesis using run good poi by (simp add: ensure_recovered_def)
next
  case False
  obtain r1 where rec: "recover crc False w = (w', r1 :: 'a wal_error + _)" and res: "res = Inr () \<longleftrightarrow> (\<exists>t. r1 = Inr t)"
    using run False by (auto simp: ensure_recovered_def sbind_def split: prod.splits sum.splits)
  have ch: "chain crc (contents (wal_fs w)) False n (wal_segments w) rss" and act: "wal_active w = None"
    using good False by (auto simp: wal_good_def split: option.splits)
  from recover_chain [OF rec ch] obtain fs segs cap act' rcv poi' where w':
    "w' = w\<lparr>wal_fs := fs, wal_segments := segs, wal_capacity := cap, wal_active := act', wal_recovered := rcv,
           wal_poison := poi'\<rparr>"
    "same_names (wal_segments w) segs" "only_changes (seg_path ` set (wal_segments w)) (wal_fs w) fs"
    "case r1 of
       Inl _ \<Rightarrow> chain crc (contents fs) False n segs rss \<and> rcv = wal_recovered w \<and> poi' = wal_poison w \<and>
         (\<not> False \<longrightarrow> act' = wal_active w)
     | Inr tail \<Rightarrow> chain crc (contents fs) True n segs rss \<and> rcv \<and> poi' = None \<and>
         tail = (if False then above (wal_header_version w) (concat rss) else []) \<and>
         act' = (if segs = [] then wal_active w else Some (seg_path (last segs)))" by blast
  have dom: "dom (contents fs) = dom (contents (wal_fs w))" and wf: "fs_wf fs"
    using w'(3) good by (auto simp: only_changes_def wal_good_def)
  have left: "leftover w' = leftover w" using w'(1,2) dom by (intro leftover_same) simp_all
  have hd_same: "contents fs header_name = contents (wal_fs w) header_name"
    using w'(3) chain_path_not_header [OF ch] by (simp add: only_changes_def)
  have names: "(segs = []) = (wal_segments w = [])" "seg_path ` set segs = seg_path ` set (wal_segments w)"
    using w'(2) by (auto simp: same_names_def) (metis image_eqI image_set)+
  have first: "wal_segments w \<noteq> [] \<longrightarrow> seg_first (hd segs) = seg_first (hd (wal_segments w))"
    using w'(2) names(1) by (metis hd_map same_names_def)
  have quiet: "wal_quiet w w'" using left hd_same names(1) w'(1) by (simp add: wal_quiet_def)
  have strays: "\<forall>name m. name \<in> dom (contents fs) \<and> parse_segment_name name = Some m \<longrightarrow>
      stray_ok w' (Suc (wal_top n rss)) name m"
  proof (intro allI impI)
    fix name m assume "name \<in> dom (contents fs) \<and> parse_segment_name name = Some m"
    then have "stray_ok w (Suc (wal_top n rss)) name m" using good dom unfolding wal_good_def by blast
    then show "stray_ok w' (Suc (wal_top n rss)) name m" using False names first w'(1) by (auto simp: stray_ok_def)
  qed
  have "wal_good crc w' n rss \<and> wal_poison w' = None \<and> ((\<exists>t. r1 = Inr t) \<longrightarrow> wal_recovered w')"
    using strays wf good w'(1,4) act names(1) poi False
    by (cases r1) (auto simp: wal_good_def)
  then show ?thesis using quiet res by blast
qed

end
