(* ===== verification/WalWrite.thy ===== *)
theory WalWrite
  imports WalContract
begin

text \<open>
  Rotation and the vectored write of a batch keep \<open>wal_good\<close>, with the contract of
  \<open>append\<close> as the result.
\<close>

section \<open>A new segment\<close>

lemma orphan_Nil [simp]: "orphan []"
  by (auto simp: orphan_def)

lemma orphan_resize: "orphan d \<Longrightarrow> orphan (resize n d)"
proof -
  assume "orphan d"
  then obtain k z where "d = take k segment_prologue @ replicate z 0" by (auto simp: orphan_def)
  then have "resize n d = take (min n k) segment_prologue @
      replicate (min (n - length (take k segment_prologue)) z + (n - length d)) 0"
    by (simp add: resize_def replicate_add min.commute)
  then show ?thesis unfolding orphan_def by blast
qed

lemma orphan_write: "orphan d \<Longrightarrow> orphan (write_at 0 (take m segment_prologue) d)"
proof -
  assume "orphan d"
  then obtain k z where d: "d = take k segment_prologue @ replicate z 0" by (auto simp: orphan_def)
  let ?i = "length (take m segment_prologue)"
  have w: "write_at 0 (take m segment_prologue) d = take ?i segment_prologue @ drop ?i d"
    by (simp add: write_at_def min_def)
  show ?thesis
  proof (cases "k \<le> ?i")
    case True
    then have "drop ?i (take k segment_prologue) = []" by simp
    then have "drop ?i d = replicate (z - (?i - length (take k segment_prologue))) 0" by (simp add: d)
    then show ?thesis unfolding w orphan_def by metis
  next
    case False
    have le: "?i \<le> length (take k segment_prologue)" using False
      by (simp add: min_def split: if_splits)
    have "drop ?i d = take (k - ?i) (drop ?i segment_prologue) @ replicate z 0"
      unfolding d using le by (simp add: drop_take del: length_take)
    then have "take ?i segment_prologue @ drop ?i d = take (?i + (k - ?i)) segment_prologue @ replicate z 0"
      by (simp only: take_add append_assoc)
    then show ?thesis unfolding w orphan_def by metis
  qed
qed

lemma orphan_complete:
  assumes "orphan d" shows "\<exists>z. write_at 0 segment_prologue d = segment_bytes crc [] @ replicate z 0"
proof -
  obtain k z where "d = take k segment_prologue @ replicate z 0" using assms by (auto simp: orphan_def)
  then have "drop seg_prologue d = replicate (z - (seg_prologue - length (take k segment_prologue))) 0" by simp
  then show ?thesis by (auto simp: write_at_def segment_bytes_def)
qed

lemma preallocate_orphan:
  assumes "fs_write path (preallocate len) fs = (fs', res)" "contents fs path = Some d" "orphan d"
  obtains d' where "contents fs' = (contents fs)(path \<mapsto> d')" "orphan d'" "fs_wf fs \<longrightarrow> fs_wf fs'"
proof -
  obtain fl data r where p: "preallocate len (fs_faults fs) d = (fl, data, r)"
    by (cases "preallocate len (fs_faults fs) d")
  then have "data = d \<or> data = resize len d"
    by (auto simp: preallocate_def split: prod.splits sum.splits if_splits)
  then have "orphan data" using assms(3) orphan_resize by auto
  then show ?thesis using fs_write_contents [OF assms(1,2) p] that by blast
qed

lemma prologue_orphan:
  assumes "fs_write path (pwritev_all [segment_prologue] 0) fs = (fs', res)" "contents fs path = Some d" "orphan d"
  obtains d' where "contents fs' = (contents fs)(path \<mapsto> d')" "orphan d'" "fs_wf fs \<longrightarrow> fs_wf fs'"
    "res = Inr () \<longrightarrow> (\<exists>z. d' = segment_bytes crc [] @ replicate z 0)"
proof -
  obtain fl data r where p: "pwritev_all [segment_prologue] 0 (fs_faults fs) d = (fl, data, r)"
    by (cases "pwritev_all [segment_prologue] 0 (fs_faults fs) d")
  from pwritev_all_prefix [OF _ p] obtain m where m: "data = write_at 0 (take m segment_prologue) d"
    "r = Inr () \<longrightarrow> m = length segment_prologue" by auto
  have "orphan data" using m(1) assms(3) orphan_write by simp
  moreover have "r = Inr () \<longrightarrow> (\<exists>z. data = segment_bytes crc [] @ replicate z 0)"
    using m orphan_complete [OF assms(3)] by auto
  ultimately show ?thesis using fs_write_contents [OF assms(1,2) p] that by blast
qed

lemma new_segment_steps:
  fixes w :: wal
  assumes run: "new_segment first w = (w', res :: 'je wal_error + unit)"
    and free: "\<forall>d. contents (wal_fs w) (segment_name first) = Some d \<longrightarrow> orphan d"
  shows "\<exists>fs. (fs_wf (wal_fs w) \<longrightarrow> fs_wf fs) \<and>
    (contents fs = contents (wal_fs w) \<or>
      (\<exists>d. orphan d \<and> contents fs = (contents (wal_fs w))(segment_name first \<mapsto> d))) \<and>
    (case res of
       Inl _ \<Rightarrow> w' = w\<lparr>wal_fs := fs\<rparr>
     | Inr _ \<Rightarrow> w' = w\<lparr>wal_fs := fs, wal_segments := wal_segments w @
          [\<lparr>seg_first = first, seg_path = segment_name first, seg_end = seg_prologue,
            seg_last = u64_wrapping_sub first 1\<rparr>],
          wal_capacity := wal_rotate_bytes w, wal_active := Some (segment_name first)\<rparr> \<and>
         (\<exists>z. contents fs (segment_name first) = Some (segment_bytes crc [] @ replicate z 0)))"
proof -
  let ?p = "segment_name first" and ?C = "contents (wal_fs w)" and ?R = "wal_rotate_bytes w"
  let ?J = "\<lambda>fs. \<exists>d. orphan d \<and> contents fs = ?C(?p \<mapsto> d)"
  obtain fs1 r1 where 1: "fs_open_rw ?p (wal_fs w) = (fs1, r1)" by (cases "fs_open_rw ?p (wal_fs w)")
  note o = fs_open_rw_contents [OF 1]
  have j1: "contents fs1 = ?C \<or> ?J fs1" and ok1: "r1 = Inr () \<longrightarrow> ?J fs1"
  proof -
    show "contents fs1 = ?C \<or> ?J fs1" using o by (auto intro: exI [of _ "[]"])
    show "r1 = Inr () \<longrightarrow> ?J fs1"
    proof
      assume "r1 = Inr ()"
      then obtain d where d: "contents fs1 ?p = Some d" using o by auto
      show "?J fs1"
      proof (cases "contents fs1 = ?C")
        case True
        then show ?thesis using d free by (intro exI [of _ d]) (auto simp: fun_upd_idem)
      qed (use o in \<open>auto intro: exI [of _ "[]"]\<close>)
    qed
  qed
  obtain fs2 r2 where 2: "fs_write ?p (preallocate ?R) fs1 = (fs2, r2)" by (cases "fs_write ?p (preallocate ?R) fs1")
  have j2: "?J fs1 \<longrightarrow> ?J fs2 \<and> (fs_wf fs1 \<longrightarrow> fs_wf fs2)"
  proof
    assume "?J fs1"
    then obtain d where d: "orphan d" "contents fs1 = ?C(?p \<mapsto> d)" by blast
    then have "contents fs1 ?p = Some d" by simp
    from preallocate_orphan [OF 2 this d(1)]
    obtain d' where "contents fs2 = (contents fs1)(?p \<mapsto> d')" "orphan d'" "fs_wf fs1 \<longrightarrow> fs_wf fs2" by metis
    then show "?J fs2 \<and> (fs_wf fs1 \<longrightarrow> fs_wf fs2)" using d by auto
  qed
  obtain fs3 r3 where 3: "fs_write ?p (pwritev_all [segment_prologue] 0) fs2 = (fs3, r3)"
    by (cases "fs_write ?p (pwritev_all [segment_prologue] 0) fs2")
  have j3: "?J fs2 \<longrightarrow> ?J fs3 \<and> (fs_wf fs2 \<longrightarrow> fs_wf fs3) \<and>
      (r3 = Inr () \<longrightarrow> (\<exists>z. contents fs3 ?p = Some (segment_bytes crc [] @ replicate z 0)))"
  proof
    assume "?J fs2"
    then obtain d where d: "orphan d" "contents fs2 = ?C(?p \<mapsto> d)" by blast
    then have "contents fs2 ?p = Some d" by simp
    from prologue_orphan [OF 3 this d(1), where crc = crc]
    obtain d' where "contents fs3 = (contents fs2)(?p \<mapsto> d')" "orphan d'" "fs_wf fs2 \<longrightarrow> fs_wf fs3"
      "r3 = Inr () \<longrightarrow> (\<exists>z. d' = segment_bytes crc [] @ replicate z 0)" by metis
    then show "?J fs3 \<and> (fs_wf fs2 \<longrightarrow> fs_wf fs3) \<and>
      (r3 = Inr () \<longrightarrow> (\<exists>z. contents fs3 ?p = Some (segment_bytes crc [] @ replicate z 0)))" using d by auto
  qed
  obtain fs4 r4 where 4: "fs_fsync ?p fs3 = (fs4, r4)" by (cases "fs_fsync ?p fs3")
  obtain fs5 r5 where 5: "fs_sync_dir fs4 = (fs5, r5)" by (cases "fs_sync_dir fs4")
  note j4 = fs_fdatasync_contents(2) [OF 4] and j5 = fs_sync_dir_contents [OF 5]
  show ?thesis
  proof (cases r1)
    case (Inl e)
    then show ?thesis using run 1 o j1
      by (intro exI [of _ fs1]) (auto simp: new_segment_def sbind_def wal_at_def Let_def)
  next
    case r1: (Inr u)
    then have J1: "?J fs1" using ok1 by simp
    then have J: "?J fs2" "?J fs3" "?J fs4" "?J fs5" using j2 j3 j4 j5 by auto
    have wf: "fs_wf (wal_fs w) \<longrightarrow> fs_wf fs2 \<and> fs_wf fs3 \<and> fs_wf fs4 \<and> fs_wf fs5" using o j2 j3 j4 j5 J1 J by auto
    have z: "r3 = Inr () \<longrightarrow> (\<exists>z. contents fs5 ?p = Some (segment_bytes crc [] @ replicate z 0))"
      using j3 J(1) j4 j5 by auto
    show ?thesis
    proof (cases r2)
      case (Inl e)
      then show ?thesis using run 1 2 r1 J(1) wf
        by (intro exI [of _ fs2]) (auto simp: new_segment_def sbind_def wal_at_def Let_def)
    next
      case r2: (Inr u)
      show ?thesis
      proof (cases r3)
        case (Inl e)
        then show ?thesis using run 1 2 3 r1 r2 J(2) wf
          by (intro exI [of _ fs3]) (auto simp: new_segment_def sbind_def wal_at_def Let_def)
      next
        case r3: (Inr u)
        show ?thesis
        proof (cases r4)
          case (Inl e)
          then show ?thesis using run 1 2 3 4 r1 r2 r3 J(3) wf
            by (intro exI [of _ fs4]) (auto simp: new_segment_def sbind_def wal_at_def Let_def)
        next
          case r4: (Inr u)
          show ?thesis using run 1 2 3 4 5 r1 r2 r3 r4 J(4) wf z
            by (intro exI [of _ fs5])
              (cases r5; auto simp: new_segment_def wal_sync_dir_def sbind_def wal_at_def Let_def)
        qed
      qed
    qed
  qed
qed

section \<open>Rotation\<close>

text \<open>Changing only the contents of the last segment's file, to the same records, keeps everything.\<close>

lemma good_rezero:
  assumes good: "wal_good crc w n rss" and rec: "wal_recovered w" and ne: "wal_segments w \<noteq> []"
    and c: "contents fs = (contents (wal_fs w))(seg_path (last (wal_segments w)) \<mapsto> segment_bytes crc (last rss) @ replicate z 0)"
    and wf: "fs_wf (wal_fs w) \<longrightarrow> fs_wf fs"
  shows "wal_good crc (w\<lparr>wal_fs := fs, wal_capacity := cap\<rparr>) n rss \<and> wal_quiet w (w\<lparr>wal_fs := fs, wal_capacity := cap\<rparr>)"
proof -
  let ?path = "seg_path (last (wal_segments w))"
  have ch: "chain crc (contents (wal_fs w)) True n (wal_segments w) rss" using good rec by (simp add: wal_good_def)
  have "chain crc (contents (wal_fs w)) True n (butlast (wal_segments w) @ [last (wal_segments w)]) rss" using ch ne by simp
  from chain_rezero [OF this c] have ch': "chain crc (contents fs) True n (wal_segments w) rss" using ne by simp
  have mem: "?path \<in> seg_path ` set (wal_segments w)" using ne by simp
  have "?path \<in> dom (contents (wal_fs w))" using chain_first [OF ch, of "last (wal_segments w)"] ne by auto
  then have dom: "dom (contents fs) = dom (contents (wal_fs w))" by (simp add: c insert_absorb)
  have strays: "\<forall>name m. name \<in> dom (contents fs) \<and> parse_segment_name name = Some m \<longrightarrow>
      stray_ok (w\<lparr>wal_fs := fs, wal_capacity := cap\<rparr>) (Suc (wal_top n rss)) name m"
  proof (intro allI impI)
    fix name m assume a: "name \<in> dom (contents fs) \<and> parse_segment_name name = Some m"
    then have st: "stray_ok w (Suc (wal_top n rss)) name m" using good dom unfolding wal_good_def by blast
    show "stray_ok (w\<lparr>wal_fs := fs, wal_capacity := cap\<rparr>) (Suc (wal_top n rss)) name m"
    proof (cases "name = ?path")
      case True
      then show ?thesis using st mem by (simp add: stray_ok_def)
    next
      case False
      then show ?thesis using st by (auto simp: stray_ok_def c)
    qed
  qed
  have "header_name \<noteq> ?path" using chain_path_not_header [OF ch] mem by metis
  then have "wal_quiet w (w\<lparr>wal_fs := fs, wal_capacity := cap\<rparr>)" using dom
    by (simp add: wal_quiet_def leftover_def c)
  then show ?thesis using good strays ch' rec wf by (simp add: wal_good_def split: option.splits)
qed

lemma close_active_good:
  assumes run: "close_active w = (w1, r)" and good: "wal_good crc w n rss" and rec: "wal_recovered w"
    and last: "wal_segments w \<noteq> [] \<longrightarrow> last rss \<noteq> []"
  shows "wal_good crc w1 n rss \<and> wal_quiet w w1 \<and> wal_active w1 = None \<and>
    (\<exists>fs. w1 = w\<lparr>wal_fs := fs, wal_active := None\<rparr>)"
proof -
  have off: "wal_good crc (v\<lparr>wal_active := None\<rparr>) n rss"
    if v: "wal_good crc v n rss" "wal_recovered v" "wal_segments v \<noteq> [] \<longrightarrow> last rss \<noteq> []" for v
    using v by (auto simp: wal_good_def stray_ok_def split: option.splits)
  show ?thesis
  proof (cases "wal_active w")
    case None
    then have "w1 = w\<lparr>wal_active := None\<rparr>" using run by (simp add: close_active_def Let_def)
    then show ?thesis using off [OF good rec last]
      by (auto simp: wal_quiet_def leftover_def intro: exI [of _ "wal_fs w"])
  next
    case (Some p)
    have ne: "wal_segments w \<noteq> []" and p: "p = seg_path (last (wal_segments w))"
      using good Some by (auto simp: wal_good_def)
    have ch: "chain crc (contents (wal_fs w)) True n (wal_segments w) rss" using good rec by (simp add: wal_good_def)
    obtain z where z: "contents (wal_fs w) p = Some (segment_bytes crc (last rss) @ replicate z 0)"
      "seg_end (last (wal_segments w)) = length (segment_bytes crc (last rss))"
      by (rule chain_last [OF ch ne]) (use p in auto)
    let ?cut = "seg_end (last (wal_segments w))"
    obtain fs1 r1 where 1: "fs_set_len p ?cut (wal_fs w) = (fs1, r1)" by (cases "fs_set_len p ?cut (wal_fs w)")
    obtain fs2 r2 where 2: "fs_fdatasync p fs1 = (fs2, r2)" by (cases "fs_fdatasync p fs1")
    have "\<exists>z'. contents fs1 = (contents (wal_fs w))(p \<mapsto> segment_bytes crc (last rss) @ replicate z' 0)"
    proof (cases r1)
      case (Inl e)
      then show ?thesis using fs_set_len_contents [OF 1 z(1)] z(1) by (intro exI [of _ z]) (simp add: fun_upd_idem)
    next
      case (Inr u)
      then show ?thesis using fs_set_len_contents [OF 1 z(1)] z(2) by (intro exI [of _ 0]) (simp add: resize_def)
    qed
    then obtain z' where c1: "contents fs1 = (contents (wal_fs w))(p \<mapsto> segment_bytes crc (last rss) @ replicate z' 0)" ..
    have wf1: "fs_wf (wal_fs w) \<longrightarrow> fs_wf fs1" using fs_set_len_contents [OF 1 z(1)] by simp
    have c2: "contents fs2 = contents fs1" "fs_wf fs1 \<longrightarrow> fs_wf fs2" using fs_fdatasync_contents(1) [OF 2] by auto
    define fs where "fs = (if w1 = w\<lparr>wal_active := None, wal_fs := fs1\<rparr> then fs1 else fs2)"
    have w1: "w1 = w\<lparr>wal_fs := fs, wal_active := None\<rparr>"
      using run Some ne 1 2 p by (cases r1; cases r2) (auto simp: close_active_def Let_def sbind_def wal_at_def fs_def)
    have c: "contents fs = (contents (wal_fs w))(seg_path (last (wal_segments w)) \<mapsto> segment_bytes crc (last rss) @ replicate z' 0)"
      "fs_wf (wal_fs w) \<longrightarrow> fs_wf fs" using c1 c2 p wf1 by (auto simp: fs_def)
    from good_rezero [OF good rec ne c, of "wal_capacity w"]
    have g: "wal_good crc (w\<lparr>wal_fs := fs\<rparr>) n rss" "wal_quiet w (w\<lparr>wal_fs := fs\<rparr>)" by simp_all
    have "wal_good crc ((w\<lparr>wal_fs := fs\<rparr>)\<lparr>wal_active := None\<rparr>) n rss" using rec last by (intro off g(1)) simp_all
    then show ?thesis using w1 g(2) by (auto simp: wal_quiet_def leftover_def)
  qed
qed

lemma chain_below_top:
  assumes "chain crc D settled n segs rss" "last rss \<noteq> []" "s \<in> set segs"
  shows "seg_first s \<le> wal_top n rss"
proof -
  have ne: "segs \<noteq> []" using assms(3) by auto
  have l: "seg_first (last segs) = Suc (wal_top n (butlast rss))" "rss \<noteq> []" by (rule chain_last [OF assms(1) ne]; simp)+
  have "wal_top n rss = wal_top n (butlast rss) + length (last rss)"
    using l(2) by (subst append_butlast_last_id [symmetric, OF l(2)]) (simp add: wal_top_def del: append_butlast_last_id)
  then have "seg_first (last segs) \<le> wal_top n rss" using l(1) assms(2) by (cases "last rss") auto
  moreover have "seg_first s \<le> seg_first (last segs)"
  proof (cases "s = last segs")
    case False
    then have "s \<in> set (butlast segs)" using assms(3) ne
      by (metis append_butlast_last_id in_set_butlast_appendI insert_iff list.set(2) rotate1.simps(2) set_rotate1)
    moreover have "sorted_wrt (<) (map seg_first (butlast segs @ [last segs]))" using chain_sorted [OF assms(1)] ne by simp
    ultimately show ?thesis by (auto simp: sorted_wrt_append intro: less_imp_le)
  qed simp
  ultimately show ?thesis by simp
qed

text \<open>A new segment under the next version leaves behind what was left behind before.\<close>

lemma leftover_new:
  assumes "contents fs = contents (wal_fs w) \<or> (\<exists>d. contents fs = (contents (wal_fs w))(segment_name first \<mapsto> d))"
    and first: "parse_segment_name (segment_name first) = Some first" "\<forall>s \<in> set (wal_segments w). seg_first s < first"
    and strays: "\<forall>name m. name \<in> dom (contents (wal_fs w)) \<and> parse_segment_name name = Some m \<longrightarrow> stray_ok w first name m"
    and w': "wal_fs w' = fs" "wal_segments w' = wal_segments w \<or> wal_segments w' = wal_segments w @ [t]" "seg_first t = first"
  shows "leftover w' = leftover w"
proof
  have sub: "dom (contents (wal_fs w)) \<subseteq> dom (contents fs)" using assms(1) by auto
  have hd: "hd (wal_segments w') = hd (wal_segments w)" if "wal_segments w \<noteq> []" using w'(2) that by auto
  show "leftover w'" if "leftover w" using that sub hd w'(1,2) unfolding leftover_def by (metis append_is_Nil_conv subsetD)
  assume "leftover w'"
  then obtain name m where l: "wal_segments w' \<noteq> []" "name \<in> dom (contents fs)" "parse_segment_name name = Some m"
      "m < seg_first (hd (wal_segments w'))" using w'(1) by (auto simp: leftover_def)
  have "m < first \<and> (wal_segments w \<noteq> [] \<longrightarrow> m < seg_first (hd (wal_segments w)))"
    using l(1,4) w'(2,3) hd first(2) by (cases "wal_segments w = []") (auto dest: less_trans)
  moreover from this have "name \<in> dom (contents (wal_fs w))" using assms(1) l(2,3) first(1) by (auto split: if_splits)
  moreover from this have "stray_ok w first name m" using strays l(3) by blast
  ultimately show "leftover w" using l(3) by (cases "wal_segments w = []") (auto simp: leftover_def stray_ok_def)
qed

lemma rotate_good:
  fixes w :: wal
  assumes run: "rotate first w = (w', res :: 'je wal_error + unit)" and good: "wal_good crc w n rss"
    and rec: "wal_recovered w" and last: "wal_segments w \<noteq> [] \<longrightarrow> last rss \<noteq> []"
    and first: "first = Suc (wal_top n rss)" "first < u64_max"
  shows "wal_quiet w w' \<and> wal_recovered w' \<and> wal_poison w' = wal_poison w \<and>
    (case res of Inl _ \<Rightarrow> wal_good crc w' n rss
     | Inr _ \<Rightarrow> wal_good crc w' n (rss @ [[]]) \<and> wal_active w' \<noteq> None)"
proof -
  obtain w1 r1 where c: "close_active w = (w1, r1 :: 'je wal_error + unit)"
    by (cases "close_active w :: wal \<times> ('je wal_error + unit)")
  from close_active_good [OF c good rec last]
  obtain fs1 where w1: "wal_good crc w1 n rss" "wal_quiet w w1" "wal_active w1 = None"
    "w1 = w\<lparr>wal_fs := fs1, wal_active := None\<rparr>" by blast
  have rec1: "wal_recovered w1" using w1(4) rec by simp
  have ch: "chain crc (contents (wal_fs w1)) True n (wal_segments w1) rss" using w1(1) rec1 by (simp add: wal_good_def)
  have last1: "wal_segments w1 \<noteq> [] \<longrightarrow> last rss \<noteq> []" using last w1(4) by simp
  let ?p = "segment_name first"
  have parse: "parse_segment_name ?p = Some first" using first(2) by simp
  have below: "\<forall>s \<in> set (wal_segments w1). seg_first s < first"
    using chain_below_top [OF ch] last1 first(1) by fastforce
  then have new_path: "?p \<notin> seg_path ` set (wal_segments w1)"
    using chain_first [OF ch] segment_name_inject first(2) by fastforce
  have free: "\<forall>d. contents (wal_fs w1) ?p = Some d \<longrightarrow> orphan d"
  proof (intro allI impI)
    fix d assume d: "contents (wal_fs w1) ?p = Some d"
    then have "stray_ok w1 (Suc (wal_top n rss)) ?p first" using w1(1) parse unfolding wal_good_def by blast
    moreover have "\<not> (wal_segments w1 \<noteq> [] \<and> first < seg_first (hd (wal_segments w1)))"
      using below by (meson hd_in_set less_asym)
    ultimately show "orphan d" using new_path d by (auto simp: stray_ok_def)
  qed
  have not_header: "?p \<noteq> header_name" using first(2) by simp
  show ?thesis
  proof (cases r1)
    case (Inl e)
    then have "w' = w1" "res = Inl e" using run c by (auto simp: rotate_def sbind_def)
    moreover have "wal_poison w1 = wal_poison w" using w1(4) by simp
    ultimately show ?thesis using w1(1,2) rec1 by simp
  next
    case (Inr u)
    then have new: "new_segment first w1 = (w', res)" using run c by (simp add: rotate_def sbind_def)
    from new_segment_steps [OF new free, of crc] obtain fs where fs: "fs_wf (wal_fs w1) \<longrightarrow> fs_wf fs"
      "contents fs = contents (wal_fs w1) \<or> (\<exists>d. orphan d \<and> contents fs = (contents (wal_fs w1))(?p \<mapsto> d))"
      "case res of
         Inl _ \<Rightarrow> w' = w1\<lparr>wal_fs := fs\<rparr>
       | Inr _ \<Rightarrow> w' = w1\<lparr>wal_fs := fs, wal_segments := wal_segments w1 @
            [\<lparr>seg_first = first, seg_path = ?p, seg_end = seg_prologue, seg_last = u64_wrapping_sub first 1\<rparr>],
            wal_capacity := wal_rotate_bytes w1, wal_active := Some ?p\<rparr> \<and>
           (\<exists>z. contents fs ?p = Some (segment_bytes crc [] @ replicate z 0))" by blast
    have frame: "contents fs name = contents (wal_fs w1) name" if "name \<noteq> ?p" for name using fs(2) that by auto
    have ch': "chain crc (contents fs) True n (wal_segments w1) rss"
      by (rule chain_frame [OF ch]) (metis frame imageI new_path)
    have hd_same: "contents fs header_name = contents (wal_fs w1) header_name" using frame not_header by metis
    have strays: "stray_ok v (Suc (wal_top n rss)) name m"
      if nm: "name \<in> dom (contents fs)" "parse_segment_name name = Some m"
        and v: "wal_fs v = fs" "wal_recovered v"
          "wal_segments v = wal_segments w1 \<and> wal_active v = None \<or>
           (\<exists>t. seg_path t = ?p \<and> wal_segments v = wal_segments w1 @ [t])" for v name m
    proof (cases "name = ?p")
      case True
      then have "m = first" using nm(2) parse by simp
      moreover have "\<exists>d. contents fs ?p = Some d \<and> orphan d" using fs(2) nm(1) True free by auto
      ultimately show ?thesis using True v first(1) by (auto simp: stray_ok_def)
    next
      case False
      then have "name \<in> dom (contents (wal_fs w1))" using nm(1) frame by auto
      then have "stray_ok w1 (Suc (wal_top n rss)) name m" using nm(2) w1(1) unfolding wal_good_def by blast
      then have "name = segment_name m \<and> (name \<in> seg_path ` set (wal_segments w1) \<or>
          wal_segments w1 \<noteq> [] \<and> m < seg_first (hd (wal_segments w1)))"
        using False first(1) by (auto simp: stray_ok_def)
      then show ?thesis using v(3) by (auto simp: stray_ok_def hd_append)
    qed
    have left: "leftover v = leftover w1"
      if "wal_fs v = fs" "wal_segments v = wal_segments w1 \<or> wal_segments v = wal_segments w1 @
        [\<lparr>seg_first = first, seg_path = ?p, seg_end = seg_prologue, seg_last = u64_wrapping_sub first 1\<rparr>]" for v
      by (rule leftover_new [OF _ parse below _ that]) (use fs(2) w1(1) first(1) in \<open>auto simp: wal_good_def\<close>)
    show ?thesis
    proof (cases res)
      case res: (Inl e)
      then have w': "w' = w1\<lparr>wal_fs := fs\<rparr>" using fs(3) by simp
      have "leftover w' = leftover w1" by (rule left) (simp_all add: w')
      then have "wal_quiet w1 w'" using hd_same by (simp add: w' wal_quiet_def)
      then have "wal_quiet w w'" using w1(2) wal_quiet_trans by blast
      moreover have "wal_good crc w' n rss"
        using w1(1,3) ch' fs(1) strays [of _ _ w'] rec1 by (auto simp: wal_good_def w')
      ultimately show ?thesis using res rec1 w1(4) by (simp add: w')
    next
      case res: (Inr u)
      let ?t = "\<lparr>seg_first = first, seg_path = ?p, seg_end = seg_prologue, seg_last = u64_wrapping_sub first 1\<rparr>"
      have w': "w' = w1\<lparr>wal_fs := fs, wal_segments := wal_segments w1 @ [?t],
            wal_capacity := wal_rotate_bytes w1, wal_active := Some ?p\<rparr>"
        and z: "\<exists>z. contents fs ?p = Some (segment_bytes crc [] @ replicate z 0)" using fs(3) res by auto
      have "seg_ok crc (contents fs) True (n + length (concat rss)) ?t []"
        using z first by (simp add: seg_ok_def wal_top_def length_segment_bytes)
      moreover have "[] \<notin> set rss"
      proof (cases "wal_segments w1 = []")
        case False
        have "chain crc (contents fs) True n (butlast (wal_segments w1) @ [last (wal_segments w1)]) rss"
          using ch' False by simp
        then obtain rss0 rs where "rss = rss0 @ [rs]" "[] \<notin> set rss0" by (auto simp: chain_snoc)
        then show ?thesis using last1 False by auto
      qed (use ch' in simp)
      ultimately have chain': "chain crc (contents fs) True n (wal_segments w1 @ [?t]) (rss @ [[]])"
        using ch' by (simp add: chain_snoc)
      have "leftover w' = leftover w1" by (rule left) (simp_all add: w')
      then have "wal_quiet w1 w'" using hd_same by (simp add: w' wal_quiet_def)
      then have "wal_quiet w w'" using w1(2) wal_quiet_trans by blast
      moreover have "wal_top n (rss @ [[]]) = wal_top n rss" by (simp add: wal_top_def)
      moreover from this have "wal_good crc w' n (rss @ [[]])"
        using w1(1) chain' fs(1) strays [of _ _ w'] rec1 by (auto simp: wal_good_def w')
      ultimately show ?thesis using res rec1 w1(4) by (simp add: w')
    qed
  qed
qed

section \<open>Writing a batch\<close>

lemma concat_record_bufs [simp]: "concat (record_bufs crc rs) = encode_records crc rs"
  by (induction rs) (auto simp: record_bufs_def encode_record_def)

lemma batch_len_encoded [simp]: "length (encode_records crc rs) = batch_len rs"
  by (simp add: batch_len_def)

declare length_encode_records [simp del]

lemma next_multiple_of_le:
  assumes "0 < m" shows "x \<le> next_multiple_of x m"
proof -
  have "x + (m - 1) = (x + (m - 1)) div m * m + (x + (m - 1)) mod m" by simp
  moreover have "(x + (m - 1)) mod m \<le> m - 1" using assms mod_less_divisor [of m "x + (m - 1)"] by linarith
  ultimately show ?thesis unfolding next_multiple_of_def using assms by linarith
qed

lemma erase_batch:
  "length x \<le> len \<Longrightarrow> \<exists>z. write_at (length base) (replicate len 0) (base @ x @ replicate j 0) = base @ replicate z 0"
  by (rule exI [of _ "len + (j - (len - length x))"]) (simp add: write_at_def replicate_add)

lemma segment_bytes_append: "segment_bytes crc (xs @ ys) = segment_bytes crc xs @ encode_records crc ys"
  by (simp add: segment_bytes_def)

text \<open>The write and its cleanup, on the contents of the active file.\<close>

lemma batch_write_contents:
  assumes "fs_write p (pwritev_all (record_bufs crc rs) (length base)) fs = (fs', res)"
    and "contents fs p = Some (base @ replicate z 0)"
  obtains k j where "contents fs' = (contents fs)(p \<mapsto> base @ take k (encode_records crc rs) @ replicate j 0)"
    "fs_wf fs \<longrightarrow> fs_wf fs'" "res = Inr () \<longrightarrow> batch_len rs \<le> k"
proof -
  obtain fl data r where w: "pwritev_all (record_bufs crc rs) (length base) (fs_faults fs) (base @ replicate z 0) = (fl, data, r)"
    by (cases "pwritev_all (record_bufs crc rs) (length base) (fs_faults fs) (base @ replicate z 0)")
  from pwritev_all_prefix [OF _ w] obtain k where k: "k \<le> batch_len rs"
    "data = write_at (length base) (take k (encode_records crc rs)) (base @ replicate z 0)" "r = Inr () \<longrightarrow> k = batch_len rs"
    by auto
  have "data = base @ take k (encode_records crc rs) @ replicate (z - k) 0" using k(1,2) write_at_zeros by simp
  then show ?thesis using fs_write_contents [OF assms(1,2) w] k that by fastforce
qed

lemma erase_contents:
  assumes "sbind (fs_write p (zero_range (length base) (batch_len rs)) fs) (\<lambda>_ fs. fs_fdatasync p fs) = (fs', Inr u)"
    and "contents fs p = Some (base @ take k (encode_records crc rs) @ replicate j 0)"
  obtains z where "contents fs' = (contents fs)(p \<mapsto> base @ replicate z 0)" "fs_wf fs \<longrightarrow> fs_wf fs'"
proof -
  let ?d = "base @ take k (encode_records crc rs) @ replicate j 0"
  obtain fs1 r1 where 1: "fs_write p (zero_range (length base) (batch_len rs)) fs = (fs1, r1)"
    by (cases "fs_write p (zero_range (length base) (batch_len rs)) fs")
  have r1: "r1 = Inr ()" and 2: "fs_fdatasync p fs1 = (fs', Inr u)" using assms(1) 1 by (cases r1; simp add: sbind_def)+
  obtain fl data r where w: "zero_range (length base) (batch_len rs) (fs_faults fs) ?d = (fl, data, r)"
    by (cases "zero_range (length base) (batch_len rs) (fs_faults fs) ?d")
  note c1 = fs_write_contents [OF 1 assms(2) w]
  have "zero_range (length base) (batch_len rs) (fs_faults fs) ?d = (fl, data, Inr ())" using w c1 r1 by simp
  from zero_range_ok [OF _ this] have "data = write_at (length base) (replicate (batch_len rs) 0) ?d" by simp
  moreover have "length (take k (encode_records crc rs)) \<le> batch_len rs" by simp
  ultimately obtain z where "data = base @ replicate z 0" using erase_batch by metis
  then show ?thesis using c1 fs_fdatasync_contents(1) [OF 2] that by auto
qed

lemma fs_write_frame:
  "fs_write p op fs = (fs', res) \<Longrightarrow>
   dom (contents fs') = dom (contents fs) \<and> (\<forall>name. name \<noteq> p \<longrightarrow> contents fs' name = contents fs name)"
  by (auto simp: fs_write_def contents_def split: option.splits prod.splits if_splits)

lemma same_names_last:
  "segs \<noteq> [] \<Longrightarrow> seg_first t = seg_first (last segs) \<Longrightarrow> seg_path t = seg_path (last segs) \<Longrightarrow>
   same_names segs (butlast segs @ [t])"
  by (cases segs rule: rev_cases) (simp_all add: same_names_def)

lemma erase_frame:
  assumes "sbind (fs_write p op fs) (\<lambda>_ fs. fs_fdatasync p fs) = (fs', res)"
  shows "dom (contents fs') = dom (contents fs) \<and> (\<forall>name. name \<noteq> p \<longrightarrow> contents fs' name = contents fs name)"
proof -
  obtain fs1 r1 where 1: "fs_write p op fs = (fs1, r1)" by (cases "fs_write p op fs")
  have "contents fs' = contents fs1"
    using assms 1 fs_fdatasync_contents(1) [of p fs1 fs' res] by (cases r1) (auto simp: sbind_def)
  then show ?thesis using fs_write_frame [OF 1] by simp
qed

lemma write_batch_good:
  fixes w :: wal
  assumes run: "write_batch crc rs w = (w', res :: 'je wal_error + unit)" and good: "wal_good crc w n rss"
    and act: "wal_active w \<noteq> None" and rs: "rs \<noteq> []" "consec (wal_top n rss) rs" "\<forall>r \<in> set rs. storable r"
    and bound: "wal_top n rss + length rs < u64_max"
  shows "wal_quiet w w' \<and>
    (case res of
       Inr _ \<Rightarrow> wal_good crc w' n (butlast rss @ [last rss @ rs]) \<and> wal_poison w' = wal_poison w
     | Inl _ \<Rightarrow> wal_poison w' \<noteq> None \<or> wal_good crc w' n rss \<and> wal_poison w' = wal_poison w)"
proof -
  obtain p where p: "wal_active w = Some p" using act by auto
  have rec: "wal_recovered w" and ne: "wal_segments w \<noteq> []" and path: "p = seg_path (last (wal_segments w))"
    and rot: "0 < wal_rotate_bytes w"
    using good p by (auto simp: wal_good_def seg_prologue_def)
  have ch: "chain crc (contents (wal_fs w)) True n (wal_segments w) rss" using good rec by (simp add: wal_good_def)
  let ?s = "last (wal_segments w)" and ?base = "segment_bytes crc (last rss)" and ?len = "batch_len rs"
  obtain z where z: "contents (wal_fs w) p = Some (?base @ replicate z 0)" "seg_end ?s = length ?base"
    "rss \<noteq> []" "seg_path ?s = segment_name (Suc (wal_top n (butlast rss)))"
    "seg_first ?s = Suc (wal_top n (butlast rss))" "consec (wal_top n (butlast rss)) (last rss)"
    "\<forall>r \<in> set (last rss). storable r"
    by (rule chain_last [OF ch ne]) (use path in auto)
  note rz = good_rezero [OF good rec ne]
  have top: "wal_top n rss = wal_top n (butlast rss) + length (last rss)"
    using z(3) by (subst append_butlast_last_id [symmetric, OF z(3)]) (simp add: wal_top_def del: append_butlast_last_id)
  let ?want = "next_multiple_of (seg_end ?s + ?len) (wal_rotate_bytes w)"
  define A where "A = (if wal_capacity w < seg_end ?s + ?len
      then sbind (wal_at (seg_path ?s) (fs_write p (preallocate ?want)) w) (\<lambda>_ w. (w\<lparr>wal_capacity := ?want\<rparr>, Inr ()))
      else (w, Inr ()) :: wal \<times> ('je wal_error + unit))"
  obtain w1 r1 where A1: "A = (w1, r1)" by (cases A)
  have stage1: "\<exists>fs cap z1. w1 = w\<lparr>wal_fs := fs, wal_capacity := cap\<rparr> \<and>
      contents fs = (contents (wal_fs w))(p \<mapsto> ?base @ replicate z1 0) \<and> (fs_wf (wal_fs w) \<longrightarrow> fs_wf fs)"
  proof (cases "wal_capacity w < seg_end ?s + ?len")
    case False
    then show ?thesis using A1 z(1)
      by (intro exI [of _ "wal_fs w"] exI [of _ "wal_capacity w"] exI [of _ z]) (auto simp: A_def fun_upd_idem)
  next
    case True
    obtain fs r where 1: "fs_write p (preallocate ?want) (wal_fs w) = (fs, r)" by (cases "fs_write p (preallocate ?want) (wal_fs w)")
    have "length ?base \<le> ?want" using next_multiple_of_le [OF rot, of "seg_end ?s + ?len"] z(2) by simp
    from preallocate_contents [OF 1 z(1) this] obtain z1 where
      "contents fs = (contents (wal_fs w))(p \<mapsto> ?base @ replicate z1 0)" "fs_wf (wal_fs w) \<longrightarrow> fs_wf fs" by blast
    then show ?thesis using A1 1 True
      by (intro exI [of _ fs] exI [of _ "if r1 = Inr () then ?want else wal_capacity w"] exI [of _ z1])
        (cases r; auto simp: A_def sbind_def wal_at_def)
  qed
  then obtain fs1 cap z1 where w1: "w1 = w\<lparr>wal_fs := fs1, wal_capacity := cap\<rparr>"
    "contents fs1 = (contents (wal_fs w))(p \<mapsto> ?base @ replicate z1 0)" "fs_wf (wal_fs w) \<longrightarrow> fs_wf fs1" by blast
  have good1: "wal_good crc w1 n rss" "wal_quiet w w1"
    using rz [of fs1 z1 cap] w1 path by simp_all
  have c1: "contents fs1 p = Some (?base @ replicate z1 0)" using w1(2) by simp
  have run': "sbind A (\<lambda>_ w.
         case fs_write p (pwritev_all (record_bufs crc rs) (seg_end ?s)) (wal_fs w) of
           (fs, Inl source) \<Rightarrow>
             (case sbind (fs_write p (zero_range (seg_end ?s) ?len) fs) (\<lambda>_ fs. fs_fdatasync p fs) of
                (fs', Inr _) \<Rightarrow> (w\<lparr>wal_fs := fs'\<rparr>, Inl (Io (seg_path ?s) source))
              | (fs', Inl cleanup) \<Rightarrow>
                  (w\<lparr>wal_fs := fs', wal_poison := Some (seg_path ?s, seg_end ?s)\<rparr>,
                   Inl (CleanupFailed (seg_path ?s) (seg_end ?s) cleanup)))
         | (fs, Inr _) \<Rightarrow>
             (w\<lparr>wal_fs := fs,
                wal_segments := butlast (wal_segments w) @
                  [?s\<lparr>seg_end := seg_end ?s + ?len, seg_last := rec_version (last rs)\<rparr>]\<rparr>, Inr ())) = (w', res)"
    using run unfolding write_batch_def A_def p Let_def option.sel .
  show ?thesis
  proof (cases r1)
    case (Inl e)
    then have "w' = w1" "res = Inl e" using run' A1 by (auto simp: sbind_def)
    then show ?thesis using good1 w1(1) by simp
  next
    case r1: (Inr u)
    obtain fs2 r2 where 2: "fs_write p (pwritev_all (record_bufs crc rs) (length ?base)) fs1 = (fs2, r2)"
      by (cases "fs_write p (pwritev_all (record_bufs crc rs) (length ?base)) fs1")
    obtain k j where k: "contents fs2 = (contents fs1)(p \<mapsto> ?base @ take k (encode_records crc rs) @ replicate j 0)"
      "fs_wf fs1 \<longrightarrow> fs_wf fs2" "r2 = Inr () \<longrightarrow> batch_len rs \<le> k"
      by (rule batch_write_contents [OF 2 c1])
    have segs1: "wal_segments w1 = wal_segments w" "wal_fs w1 = fs1" using w1(1) by simp_all
    show ?thesis
    proof (cases r2)
      case (Inl source)
      obtain fs3 r3 where 3: "sbind (fs_write p (zero_range (length ?base) ?len) fs2) (\<lambda>_ fs. fs_fdatasync p fs) = (fs3, r3)"
        by (cases "sbind (fs_write p (zero_range (length ?base) ?len) fs2) (\<lambda>_ fs. fs_fdatasync p fs)")
      have c2: "contents fs2 p = Some (?base @ take k (encode_records crc rs) @ replicate j 0)" using k(1) by simp
      show ?thesis
      proof (cases r3)
        case r3: (Inr u)
        obtain z3 where z3: "contents fs3 = (contents fs2)(p \<mapsto> ?base @ replicate z3 0)" "fs_wf fs2 \<longrightarrow> fs_wf fs3"
          by (rule erase_contents [OF 3 [unfolded r3] c2])
        have w': "w' = w\<lparr>wal_fs := fs3, wal_capacity := cap\<rparr>" "res = Inl (Io (seg_path ?s) source)"
          using run' A1 r1 2 3 r3 Inl segs1 w1(1) z(2) by (auto simp: sbind_def)
        have "contents fs3 = (contents (wal_fs w))(p \<mapsto> ?base @ replicate z3 0)" "fs_wf (wal_fs w) \<longrightarrow> fs_wf fs3"
          using z3 k w1 by auto
        then show ?thesis using rz [of fs3 z3 cap] w' path by simp
      next
        case r3: (Inl cleanup)
        have w': "w' = w1\<lparr>wal_fs := fs3, wal_poison := Some (seg_path ?s, seg_end ?s)\<rparr>"
          "res = Inl (CleanupFailed (seg_path ?s) (seg_end ?s) cleanup)"
          using run' A1 r1 2 3 r3 Inl segs1 z(2) by (auto simp: sbind_def)
        have frame: "dom (contents fs3) = dom (contents fs2)" "\<forall>name. name \<noteq> p \<longrightarrow> contents fs3 name = contents fs2 name"
          using erase_frame [OF 3] by blast+
        have "p \<in> dom (contents fs1)" using c1 by blast
        then have dom: "dom (contents fs3) = dom (contents fs1)" using frame(1) k(1) by (simp add: insert_absorb)
        have "header_name \<noteq> p" using chain_path_not_header [OF ch] ne path by (metis imageI last_in_set)
        then have "contents fs3 header_name = contents fs1 header_name" using frame(2) k(1) by simp
        then have "wal_quiet w1 w'" using dom segs1 by (simp add: w' wal_quiet_def leftover_def)
        then show ?thesis using good1(2) wal_quiet_trans by (auto simp: w')
      qed
    next
      case r2: (Inr u)
      let ?t = "?s\<lparr>seg_end := seg_end ?s + ?len, seg_last := rec_version (last rs)\<rparr>"
      have w': "w' = w1\<lparr>wal_fs := fs2, wal_segments := butlast (wal_segments w) @ [?t]\<rparr>" "res = Inr ()"
        using run' A1 r1 2 r2 segs1 z(2) by (auto simp: sbind_def)
      have enc: "take k (encode_records crc rs) = encode_records crc rs" using k(3) r2 by simp
      have new: "contents fs2 p = Some (segment_bytes crc (last rss @ rs) @ replicate j 0)"
        using k(1) enc by (simp add: segment_bytes_append)
      have seg': "seg_ok crc (contents fs2) True (n + length (concat (butlast rss))) ?t (last rss @ rs)"
        using z rs top bound new path consec_last [OF rs(2,1)]
        by (auto simp: seg_ok_def wal_top_def consec_append segment_bytes_append add.assoc)
      have "chain crc (contents fs1) True n (butlast (wal_segments w) @ [?s]) (butlast rss @ [last rss])"
        using good1(1) rec ne z(3) segs1 w1(1) by (simp add: wal_good_def)
      from chain_update_last [OF this seg'] k(1) path
      have chain': "chain crc (contents fs2) True n (butlast (wal_segments w) @ [?t]) (butlast rss @ [last rss @ rs])" by simp
      have "p \<in> dom (contents fs1)" using c1 by blast
      then have dom: "dom (contents fs2) = dom (contents fs1)" using k(1) by (simp add: insert_absorb)
      have names: "same_names (wal_segments w1) (wal_segments w')"
        unfolding w' segs1 using same_names_last [OF ne, of ?t] by simp
      have "header_name \<noteq> p" using chain_path_not_header [OF ch] ne path by (metis imageI last_in_set)
      then have "wal_quiet w1 w'" using leftover_same [OF names] dom k(1) segs1 by (simp add: wal_quiet_def w')
      then have quiet: "wal_quiet w w'" using good1(2) wal_quiet_trans by blast
      have top': "wal_top n (butlast rss @ [last rss @ rs]) = wal_top n rss + length rs"
        using top by (simp add: wal_top_def)
      have paths: "seg_path ` set (wal_segments w') = seg_path ` set (wal_segments w)"
        "seg_first (hd (wal_segments w')) = seg_first (hd (wal_segments w))"
        using names segs1 ne unfolding same_names_def by (metis image_set, metis hd_map map_is_Nil_conv)
      have strays: "stray_ok w' (Suc (wal_top n (butlast rss @ [last rss @ rs]))) name m"
        if nm: "name \<in> dom (contents fs2)" "parse_segment_name name = Some m" for name m
      proof -
        have "stray_ok w1 (Suc (wal_top n rss)) name m"
          using nm dom good1(1) segs1(2) unfolding wal_good_def by auto
        then show ?thesis using p paths segs1 w1(1) ne by (auto simp: stray_ok_def w')
      qed
      have "wal_good crc w' n (butlast rss @ [last rss @ rs])"
        using good1(1) chain' strays k(2) rec p w1(1) top' bound path by (auto simp: wal_good_def w')
      then show ?thesis using quiet w' w1(1) by simp
    qed
  qed
qed

end
