(* ===== verification/WalRefine.thy ===== *)
theory WalRefine
  imports WalWrite "HOL-Library.Multiset"
begin

text \<open>
  The operations of the segment store against the contract \<open>storage\<close>: append, checkpoint with
  reclaim, sync and load.
\<close>

section \<open>Append\<close>

lemma check_records_ok:
  "check_records (Suc m) rs = Inr () \<Longrightarrow>
   consec m rs \<and> (\<forall>r \<in> set rs. storable r) \<and> (rs \<noteq> [] \<longrightarrow> m + length rs < u64_max)"
proof (induction rs arbitrary: m)
  case (Cons r rs)
  have r: "rec_version r = Suc m" "rec_patch r \<noteq> []" "length (rec_patch r) \<le> max_payload"
    "Suc m + 1 \<le> u64_max" "check_records (Suc (Suc m)) rs = (Inr () :: 'a wal_error + unit)"
    using Cons.prems by (auto simp: u64_checked_add_def split: if_splits option.splits)
  show ?case using Cons.IH [OF r(5)] r by (cases rs) (auto simp: consec_Cons storable_def)
qed simp

lemma next_version_top:
  assumes "wal_good crc w n rss" "wal_recovered w" "wal_segments w = [] \<longrightarrow> wal_header_version w = wal_top n rss"
  shows "next_version w = Suc (wal_top n rss)"
proof (cases "wal_segments w = []")
  case False
  have ch: "chain crc (contents (wal_fs w)) True n (wal_segments w) rss" using assms by (simp add: wal_good_def)
  have "seg_last (last (wal_segments w)) = wal_top n rss" by (rule chain_last [OF ch False]) simp
  then show ?thesis using False assms(1) by (simp add: next_version_def wal_good_def)
next
  case True
  have "wal_top n rss + 1 \<le> u64_max" using assms(1) by (simp add: wal_good_def)
  then show ?thesis using True assms(3) by (simp only: next_version_def u64_wrapping_add_exact) simp
qed

lemma wal_append_good:
  fixes w :: wal
  assumes run: "wal_append crc w rs = (w', res :: 'je wal_error + unit)" and good: "wal_good crc w n rss"
    and poi: "wal_poison w = None" and rs: "rs \<noteq> []"
    and hdr: "wal_segments w = [] \<longrightarrow> wal_header_version w = wal_top n rss"
  shows "wal_quiet w w' \<and>
    (case res of
       Inr _ \<Rightarrow> wal_poison w' = None \<and> (\<exists>rss'. wal_good crc w' n rss' \<and> concat rss' = concat rss @ rs)
     | Inl _ \<Rightarrow> wal_poison w' \<noteq> None \<or> wal_poison w' = None \<and> (\<exists>rss'. wal_good crc w' n rss' \<and> concat rss' = concat rss))"
proof -
  obtain w1 r1 where 1: "ensure_recovered crc w = (w1, r1 :: 'je wal_error + unit)"
    by (cases "ensure_recovered crc w :: wal \<times> ('je wal_error + unit)")
  from ensure_recovered_good [OF 1 good poi]
  have g1: "wal_good crc w1 n rss" "wal_quiet w w1" "wal_poison w1 = None" "r1 = Inr () \<longrightarrow> wal_recovered w1" by auto
  have hdr1: "wal_segments w1 = [] \<longrightarrow> wal_header_version w1 = wal_top n rss"
    using g1(2) hdr by (simp add: wal_quiet_def)
  show ?thesis
  proof (cases "r1 = Inr () \<and> check_records (next_version w1) rs = (Inr () :: 'je wal_error + unit)")
    case False
    then have "w' = w1 \<and> (\<exists>e. res = Inl e)"
    proof (cases r1)
      case (Inl e)
      then show ?thesis using run 1 rs poi by (auto simp: wal_append_def sbind_def)
    next
      case (Inr u)
      then obtain e where "check_records (next_version w1) rs = (Inl e :: 'je wal_error + unit)"
        using False by (cases "check_records (next_version w1) rs :: 'je wal_error + unit") auto
      then have "w' = w1" "res = Inl e" using run 1 rs poi Inr by (simp_all add: wal_append_def sbind_def)
      then show ?thesis by simp
    qed
    then show ?thesis using g1 by auto
  next
    case True
    then have rec1: "wal_recovered w1" using g1(4) by simp
    have c: "consec (wal_top n rss) rs" "\<forall>r \<in> set rs. storable r" "wal_top n rss + length rs < u64_max"
      using check_records_ok [of "wal_top n rss" rs] next_version_top [OF g1(1) rec1 hdr1] True rs by auto
    have hd: "rec_version (hd rs) = Suc (wal_top n rss)" using c(1) rs by (cases rs) (auto simp: consec_Cons)
    have hd_bound: "Suc (wal_top n rss) < u64_max" using c(2) rs hd by (cases rs) (auto simp: storable_def)
    let ?rotating = "wal_segments w1 = [] \<or> wal_rotate_bytes w1 \<le> seg_end (last (wal_segments w1))"
    obtain w2 r2 where 2: "(if ?rotating \<or> wal_active w1 = None then rotate (rec_version (hd rs)) w1
        else (w1, Inr ())) = (w2, r2 :: 'je wal_error + unit)"
      by (cases "if ?rotating \<or> wal_active w1 = None then rotate (rec_version (hd rs)) w1
        else (w1, Inr ()) :: wal \<times> ('je wal_error + unit)")
    have run2: "(w', res) = (case r2 of Inl e \<Rightarrow> (w2, Inl e) | Inr _ \<Rightarrow> write_batch crc rs w2)"
    proof -
      have "check_records (next_version w1) rs = (Inr () :: 'je wal_error + unit)" using True by blast
      then show ?thesis using run 1 True rs poi 2 unfolding wal_append_def
        by (cases r2) (auto simp: sbind_def Let_def)
    qed
    have "wal_quiet w1 w2 \<and> wal_poison w2 = None \<and> (\<exists>rss2. concat rss2 = concat rss \<and> wal_good crc w2 n rss2 \<and>
        (r2 = Inr () \<longrightarrow> wal_active w2 \<noteq> None))"
    proof (cases "?rotating \<or> wal_active w1 = None")
      case True
      then have rot: "rotate (Suc (wal_top n rss)) w1 = (w2, r2)" using 2 hd by simp
      have last: "wal_segments w1 \<noteq> [] \<longrightarrow> last rss \<noteq> []"
      proof
        assume ne: "wal_segments w1 \<noteq> []"
        have ch: "chain crc (contents (wal_fs w1)) True n (wal_segments w1) rss"
          and big: "seg_prologue + rec_prefix \<le> wal_rotate_bytes w1" using g1(1) rec1 by (simp_all add: wal_good_def)
        have e: "seg_end (last (wal_segments w1)) = length (segment_bytes crc (last rss))" by (rule chain_last [OF ch ne]) simp
        show "last rss \<noteq> []"
        proof (cases "wal_active w1")
          case None
          then show ?thesis using g1(1) rec1 ne by (simp add: wal_good_def)
        next
          case (Some p)
          then have "seg_prologue + rec_prefix \<le> length (segment_bytes crc (last rss))" using True ne e big by simp
          then show ?thesis by (auto simp: length_segment_bytes rec_prefix_def batch_len_def)
        qed
      qed
      from rotate_good [OF rot g1(1) rec1 last refl hd_bound] g1(3)
      show ?thesis by (cases r2) (auto intro: exI [of _ rss] exI [of _ "rss @ [[]]"])
    next
      case False
      then show ?thesis using 2 g1 by (auto intro: exI [of _ rss])
    qed
    then obtain rss2 where g2: "wal_quiet w1 w2" "wal_poison w2 = None" "concat rss2 = concat rss"
      "wal_good crc w2 n rss2" "r2 = Inr () \<longrightarrow> wal_active w2 \<noteq> None" by blast
    have quiet2: "wal_quiet w w2" using g1(2) g2(1) wal_quiet_trans by blast
    show ?thesis
    proof (cases r2)
      case (Inl e)
      then show ?thesis using run2 quiet2 g2 by auto
    next
      case (Inr u)
      then have wb: "write_batch crc rs w2 = (w', res)" and act: "wal_active w2 \<noteq> None" using run2 g2(5) by auto
      have top: "wal_top n rss2 = wal_top n rss" using g2(3) by (simp add: wal_top_def)
      have "rss2 \<noteq> []"
        using g2(4) act chain_length by (fastforce simp: wal_good_def split: option.splits)
      then have cat: "concat (butlast rss2 @ [last rss2 @ rs]) = concat rss @ rs"
        using g2(3) by (metis append.assoc append_butlast_last_id concat.simps(1,2) concat_append append_Nil2)
      note wbg = write_batch_good [OF wb g2(4) act rs c(1) [folded top] c(2) c(3) [folded top]]
      have quiet: "wal_quiet w w'" using wal_quiet_trans [OF quiet2] wbg by blast
      show ?thesis
      proof (cases res)
        case (Inl e)
        then show ?thesis using quiet wbg g2(2,3) by auto
      next
        case (Inr u)
        then show ?thesis using quiet wbg g2(2) cat by auto
      qed
    qed
  qed
qed

section \<open>Checkpoints\<close>

text \<open>The header files are none of the segments' business.\<close>

lemma good_frame:
  assumes good: "wal_good crc w n rss" and wf: "fs_wf (wal_fs w) \<longrightarrow> fs_wf fs"
    and same: "\<And>name. name \<noteq> header_name \<Longrightarrow> name \<noteq> header_tmp \<Longrightarrow> contents fs name = contents (wal_fs w) name"
  shows "wal_good crc (w\<lparr>wal_fs := fs, wal_header_version := hv\<rparr>) n rss \<and>
    leftover (w\<lparr>wal_fs := fs, wal_header_version := hv\<rparr>) = leftover w"
proof -
  have seg: "contents fs name = contents (wal_fs w) name" if "parse_segment_name name = Some m" for name m
    using that same names_not_segments by (metis option.distinct(1))
  have ch: "chain crc (contents (wal_fs w)) (wal_recovered w) n (wal_segments w) rss" using good by (simp add: wal_good_def)
  have ch': "chain crc (contents fs) (wal_recovered w) n (wal_segments w) rss"
    by (rule chain_frame [OF ch]) (metis ch chain_first seg segment_name_parses)
  have dom: "name \<in> dom (contents fs) \<longleftrightarrow> name \<in> dom (contents (wal_fs w))" if "parse_segment_name name = Some m" for name m
    unfolding domIff seg [OF that] ..
  have "stray_ok (w\<lparr>wal_fs := fs, wal_header_version := hv\<rparr>) k name m"
    if "stray_ok w k name m" "parse_segment_name name = Some m" for k name m
    using that seg [OF that(2)] by (auto simp: stray_ok_def)
  moreover have "stray_ok w (Suc (wal_top n rss)) name m"
    if "name \<in> dom (contents fs)" "parse_segment_name name = Some m" for name m
    using good that dom unfolding wal_good_def by blast
  ultimately have "wal_good crc (w\<lparr>wal_fs := fs, wal_header_version := hv\<rparr>) n rss"
    using good wf ch' by (simp add: wal_good_def split: option.splits)
  moreover have "leftover v = leftover w" if "wal_fs v = fs" "wal_segments v = wal_segments w" for v
    unfolding leftover_def that by (metis dom)
  ultimately show ?thesis by simp
qed

text \<open>Dropping the first of several segments, whether or not its file could be removed.\<close>

lemma drop_first_good:
  assumes good: "wal_good crc w n rss" and segs: "wal_segments w = s0 # s1 # rest"
    and fs: "contents fs = contents (wal_fs w) \<or> contents fs = (contents (wal_fs w))(seg_path s0 := None)"
    and wf: "fs_wf (wal_fs w) \<longrightarrow> fs_wf fs"
  obtains rs0 rss1 where "rss = rs0 # rss1" "wal_good crc (w\<lparr>wal_fs := fs, wal_segments := s1 # rest\<rparr>) (n + length rs0) rss1"
    "seg_first s1 = Suc (n + length rs0)" "leftover w \<longrightarrow> leftover (w\<lparr>wal_fs := fs, wal_segments := s1 # rest\<rparr>)"
    "contents fs header_name = contents (wal_fs w) header_name"
proof -
  have ch: "chain crc (contents (wal_fs w)) (wal_recovered w) n (s0 # s1 # rest) rss" using good segs by (simp add: wal_good_def)
  then obtain rs0 rss1 where r: "rss = rs0 # rss1" "seg_ok crc (contents (wal_fs w)) (wal_recovered w) n s0 rs0"
    "chain crc (contents (wal_fs w)) (wal_recovered w) (n + length rs0) (s1 # rest) rss1" by (auto simp: chain_Cons)
  have first: "seg_first s1 = Suc (n + length rs0)" using r(3) by (auto simp: chain_Cons seg_ok_def)
  have f0: "seg_first s0 = Suc n" "seg_path s0 = segment_name (Suc n)" "Suc n \<le> u64_max"
    using r(2) by (auto simp: seg_ok_def)
  have lt: "seg_first s0 < seg_first s1" using chain_sorted [OF ch] by simp
  have rest_paths: "seg_path t \<noteq> seg_path s0" if t: "t \<in> set (s1 # rest)" for t
  proof -
    have "seg_first s0 < seg_first t" using chain_sorted [OF ch] t by auto
    then show ?thesis
      using chain_first [OF ch, of s0] chain_first [OF ch, of t] t segment_name_inject by auto
  qed
  have same: "contents fs name = contents (wal_fs w) name" if "name \<noteq> seg_path s0" for name using fs that by auto
  have sub: "dom (contents fs) \<subseteq> dom (contents (wal_fs w))" using fs by (auto split: if_splits)
  let ?w = "w\<lparr>wal_fs := fs, wal_segments := s1 # rest\<rparr>"
  have ch': "chain crc (contents fs) (wal_recovered w) (n + length rs0) (s1 # rest) rss1"
    by (rule chain_frame [OF r(3)]) (use rest_paths same in auto)
  have top: "wal_top (n + length rs0) rss1 = wal_top n rss" by (simp add: wal_top_def r(1))
  have ne: "rss1 \<noteq> []" using r(3) by auto
  have "stray_ok ?w (Suc (wal_top n rss)) name m"
    if nm: "name \<in> dom (contents fs)" "parse_segment_name name = Some m" for name m
  proof (cases "name = seg_path s0")
    case True
    then have "m = Suc n" using nm(2) f0 by simp
    then show ?thesis using True f0 lt by (simp add: stray_ok_def)
  next
    case False
    have "stray_ok w (Suc (wal_top n rss)) name m" using good nm sub unfolding wal_good_def by blast
    then show ?thesis using False segs lt same [OF False] by (auto simp: stray_ok_def)
  qed
  then have "wal_good crc ?w (n + length rs0) rss1"
    using good ch' wf segs ne r(1) top by (simp add: wal_good_def split: option.splits)
  moreover have "leftover w \<longrightarrow> leftover ?w"
  proof
    assume "leftover w"
    then obtain name m where nm: "name \<in> dom (contents (wal_fs w))" "parse_segment_name name = Some m" "m < seg_first s0"
      by (auto simp: leftover_def segs)
    then have "name \<noteq> seg_path s0" using f0 by auto
    then have "name \<in> dom (contents fs)" using nm(1) same by auto
    moreover have "m < seg_first s1" using nm(3) lt by simp
    ultimately show "leftover ?w" unfolding leftover_def using nm(2) by auto
  qed
  moreover have "header_name \<noteq> seg_path s0" using f0 by (simp add: segment_name_not_header(1) [symmetric])
  ultimately show ?thesis using that r(1) first same by metis
qed

text \<open>Reclaiming keeps the top and every record above the header.\<close>

definition reclaimed :: "version \<Rightarrow> nat \<Rightarrow> log_record list list \<Rightarrow> nat \<Rightarrow> log_record list list \<Rightarrow> bool" where
  "reclaimed hv n rss n' rss' \<longleftrightarrow>
     (\<exists>gone. concat rss = gone @ concat rss' \<and> n' = n + length gone \<and> (hv < u64_max \<longrightarrow> n' \<le> max n hv))"

lemma reclaimed_refl [simp]: "reclaimed hv n rss n rss"
  by (auto simp: reclaimed_def)

lemma reclaim_stay:
  "wal_good crc w n rss \<Longrightarrow> fs' = wal_fs w \<Longrightarrow> segs' = wal_segments w \<Longrightarrow>
   \<exists>n' rss'. wal_good crc (w\<lparr>wal_fs := fs', wal_segments := segs'\<rparr>) n' rss' \<and> reclaimed hv n rss n' rss' \<and>
    (leftover w \<longrightarrow> leftover (w\<lparr>wal_fs := fs', wal_segments := segs'\<rparr>)) \<and>
    (segs' = [] \<longrightarrow> wal_segments w = []) \<and> contents fs' header_name = contents (wal_fs w) header_name"
  by (intro exI [of _ n] exI [of _ rss]) simp

lemma reclaim_loop_good:
  fixes w :: wal
  assumes "reclaim_loop hv (wal_segments w) removed (wal_fs w) = (fs', segs', res :: 'je wal_error + bool)"
    "wal_good crc w n rss"
  shows "\<exists>n' rss'. wal_good crc (w\<lparr>wal_fs := fs', wal_segments := segs'\<rparr>) n' rss' \<and> reclaimed hv n rss n' rss' \<and>
    (leftover w \<longrightarrow> leftover (w\<lparr>wal_fs := fs', wal_segments := segs'\<rparr>)) \<and>
    (segs' = [] \<longrightarrow> wal_segments w = []) \<and> contents fs' header_name = contents (wal_fs w) header_name"
  using assms
proof (induction "wal_segments w" arbitrary: w removed n rss rule: induct_list012)
  case 1
  have "wal_segments w = []" using "1.hyps" by simp
  then show ?case using "1.prems" by (intro reclaim_stay) auto
next
  case (2 s0)
  have "wal_segments w = [s0]" using "2.hyps" by simp
  then show ?case using "2.prems" by (intro reclaim_stay) auto
next
  case (3 s0 s1 rest)
  have segs: "wal_segments w = s0 # s1 # rest" using "3.hyps" by simp
  show ?case
  proof (cases "seg_first s1 \<le> u64_wrapping_add hv 1")
    case False
    then have "fs' = wal_fs w" "segs' = wal_segments w" using "3.prems"(1) segs by auto
    then show ?thesis by (rule reclaim_stay [OF "3.prems"(2)])
  next
    case True
    obtain fs1 r1 where u: "fs_unlink (seg_path s0) (wal_fs w) = (fs1, r1)" by (cases "fs_unlink (seg_path s0) (wal_fs w)")
    note c = fs_unlink_contents [OF u]
    let ?w = "w\<lparr>wal_fs := fs1, wal_segments := s1 # rest\<rparr>"
    have "contents fs1 = contents (wal_fs w) \<or> contents fs1 = (contents (wal_fs w))(seg_path s0 := None)"
      using c by (cases r1) auto
    from drop_first_good [OF "3.prems"(2) segs this] c obtain rs0 rss1 where d:
      "rss = rs0 # rss1" "wal_good crc ?w (n + length rs0) rss1" "seg_first s1 = Suc (n + length rs0)"
      "leftover w \<longrightarrow> leftover ?w" "contents fs1 header_name = contents (wal_fs w) header_name" by blast
    have le: "hv < u64_max \<longrightarrow> n + length rs0 \<le> hv" using True d(3) by auto
    have step: "reclaimed hv n rss (n + length rs0) rss1" using d(1) le by (auto simp: reclaimed_def)
    show ?thesis
    proof (cases r1)
      case (Inl e)
      then have "fs' = fs1 \<and> segs' = s1 # rest" using "3.prems"(1) segs True u by simp
      then show ?thesis using d step by (intro exI [of _ "n + length rs0"] exI [of _ rss1]) simp
    next
      case (Inr u1)
      have "reclaim_loop hv (wal_segments ?w) True (wal_fs ?w) = (fs', segs', res)"
        using "3.prems"(1) segs True u Inr by simp
      from "3.hyps"(2) [OF _ this d(2)] obtain n' rss' where i:
        "wal_good crc (?w\<lparr>wal_fs := fs', wal_segments := segs'\<rparr>) n' rss'" "reclaimed hv (n + length rs0) rss1 n' rss'"
        "leftover ?w \<longrightarrow> leftover (?w\<lparr>wal_fs := fs', wal_segments := segs'\<rparr>)" "segs' = [] \<longrightarrow> wal_segments ?w = []"
        "contents fs' header_name = contents (wal_fs ?w) header_name" by auto
      obtain gone where "concat rss1 = gone @ concat rss'" "n' = n + length rs0 + length gone"
        "hv < u64_max \<longrightarrow> n' \<le> max (n + length rs0) hv" using i(2) by (auto simp: reclaimed_def)
      then have "reclaimed hv n rss n' rss'" using d(1) le
        unfolding reclaimed_def by (intro exI [of _ "rs0 @ gone"]) auto
      then show ?thesis using i d(4,5) by (intro exI [of _ n'] exI [of _ rss']) auto
    qed
  qed
qed

lemma wal_sync_shape:
  assumes "wal_sync w = (w', res :: 'je wal_error + unit)"
  obtains fs where "w' = w\<lparr>wal_fs := fs\<rparr>" "contents fs = contents (wal_fs w)" "fs_wf (wal_fs w) \<longrightarrow> fs_wf fs"
proof (cases "wal_active w = None \<or> wal_segments w = []")
  case True
  then show ?thesis using assms that [of "wal_fs w"] by (auto simp: wal_sync_def split: option.splits)
next
  case False
  then obtain p where p: "wal_active w = Some p" by auto
  obtain fs r where f: "fs_fdatasync p (wal_fs w) = (fs, r)" by (cases "fs_fdatasync p (wal_fs w)")
  show ?thesis using assms False p f that [of fs] fs_fdatasync_contents(1) [OF f]
    by (auto simp: wal_sync_def wal_at_def)
qed

text \<open>How far a checkpoint gets: to nothing, to the published name, or to the reclaim.\<close>

lemma write_header_shape:
  fixes w :: wal
  assumes run: "wal_write_header crc henc vver w v = (w', res :: 'je wal_error + unit)"
  obtains
    (failed) fs e where "w' = w\<lparr>wal_fs := fs\<rparr>" "res = Inl e" "fs_wf (wal_fs w) \<longrightarrow> fs_wf fs"
      "\<And>name. name \<noteq> header_tmp \<Longrightarrow> contents fs name = contents (wal_fs w) name"
  | (published) fs json e where "w' = w\<lparr>wal_fs := fs\<rparr>" "res = Inl e" "henc (vver v, v) = Inr json"
      "fs_wf (wal_fs w) \<longrightarrow> fs_wf fs" "contents fs header_name = Some (header_bytes crc json)"
      "\<And>name. name \<noteq> header_name \<Longrightarrow> name \<noteq> header_tmp \<Longrightarrow> contents fs name = contents (wal_fs w) name"
  | (reclaiming) fs json where "henc (vver v, v) = Inr json"
      "reclaim (w\<lparr>wal_fs := fs, wal_header_version := vver v\<rparr>) = (w', res)"
      "fs_wf (wal_fs w) \<longrightarrow> fs_wf fs" "contents fs header_name = Some (header_bytes crc json)"
      "\<And>name. name \<noteq> header_name \<Longrightarrow> name \<noteq> header_tmp \<Longrightarrow> contents fs name = contents (wal_fs w) name"
proof -
  obtain w0 r0 where 0: "wal_sync w = (w0, r0 :: 'je wal_error + unit)" by (cases "wal_sync w :: wal \<times> ('je wal_error + unit)")
  obtain fs0 where w0: "w0 = w\<lparr>wal_fs := fs0\<rparr>" "contents fs0 = contents (wal_fs w)" "fs_wf (wal_fs w) \<longrightarrow> fs_wf fs0"
    by (rule wal_sync_shape [OF 0])
  show ?thesis
  proof (cases "r0 = Inr () \<and> (\<exists>json. henc (vver v, v) = Inr json)")
    case False
    then obtain e where "w' = w0 \<and> res = Inl e" using run 0
      by (cases r0; cases "henc (vver v, v)") (auto simp: wal_write_header_def sbind_def Let_def)
    then show ?thesis using failed [of fs0 e] w0 by simp
  next
    case True
    then obtain json where json: "henc (vver v, v) = Inr json" and r0: "r0 = Inr ()" by blast
    let ?bytes = "header_bytes crc json"
    obtain fs1 r1 where 1: "fs_create header_tmp fs0 = (fs1, r1)" by (cases "fs_create header_tmp fs0")
    obtain fs2 r2 where 2: "fs_write_all header_tmp ?bytes fs1 = (fs2, r2)" by (cases "fs_write_all header_tmp ?bytes fs1")
    obtain fs3 r3 where 3: "fs_fsync header_tmp fs2 = (fs3, r3)" by (cases "fs_fsync header_tmp fs2")
    obtain fs4 r4 where 4: "rename_at header_tmp header_name fs3 = (fs4, r4)" by (cases "rename_at header_tmp header_name fs3")
    obtain fs5 r5 where 5: "fs_sync_dir fs4 = (fs5, r5)" by (cases "fs_sync_dir fs4")
    note steps = wal_write_header_def sbind_def wal_at_def wal_sync_dir_def Let_def
    note c1 = fs_create_contents [OF 1]
    have k1: "\<And>name. name \<noteq> header_tmp \<Longrightarrow> contents fs1 name = contents (wal_fs w) name" "fs_wf (wal_fs w) \<longrightarrow> fs_wf fs1"
      using c1 w0 by (auto split: sum.splits)
    show ?thesis
    proof (cases r1)
      case (Inl e)
      then have "w' = w\<lparr>wal_fs := fs1\<rparr> \<and> res = Inl (Io header_tmp e)" using run 0 r0 json w0(1) 1 by (simp add: steps)
      then show ?thesis using failed k1 by blast
    next
      case r1: (Inr u)
      then have "contents fs1 header_tmp = Some []" using c1 by simp
      from fs_write_all_contents [OF 2 this] obtain data where c2: "contents fs2 = (contents fs1)(header_tmp \<mapsto> data)"
        "r2 = Inr () \<longrightarrow> data = ?bytes" "fs_wf fs1 \<longrightarrow> fs_wf fs2" by blast
      have k2: "\<And>name. name \<noteq> header_tmp \<Longrightarrow> contents fs2 name = contents (wal_fs w) name" "fs_wf (wal_fs w) \<longrightarrow> fs_wf fs2"
        using c2 k1 by auto
      show ?thesis
      proof (cases r2)
        case (Inl e)
        then have "w' = w\<lparr>wal_fs := fs2\<rparr> \<and> res = Inl (Io header_tmp e)" using run 0 r0 json w0(1) 1 r1 2 by (simp add: steps)
        then show ?thesis using failed k2 by blast
      next
        case r2: (Inr u)
        note c3 = fs_fdatasync_contents(2) [OF 3]
        have k3: "\<And>name. name \<noteq> header_tmp \<Longrightarrow> contents fs3 name = contents (wal_fs w) name" "fs_wf (wal_fs w) \<longrightarrow> fs_wf fs3"
          "contents fs3 header_tmp = Some ?bytes" using c3 k2 c2 r2 by auto
        show ?thesis
        proof (cases r3)
          case (Inl e)
          then have "w' = w\<lparr>wal_fs := fs3\<rparr> \<and> res = Inl (Io header_tmp e)" using run 0 r0 json w0(1) 1 r1 2 r2 3 by (simp add: steps)
          then show ?thesis using failed k3 by blast
        next
          case r3: (Inr u)
          note c4 = rename_at_contents [OF 4]
          show ?thesis
          proof (cases r4)
            case (Inl e)
            then have "w' = w\<lparr>wal_fs := fs4\<rparr> \<and> res = Inl (Io dir_path e)"
              using run 0 r0 json w0(1) 1 r1 2 r2 3 r3 4 by (simp add: steps)
            moreover have "contents fs4 = contents fs3" "fs_wf fs3 \<longrightarrow> fs_wf fs4" using c4 Inl by simp_all
            ultimately show ?thesis using failed [of fs4] k3 by simp
          next
            case r4: (Inr u)
            note c5 = fs_sync_dir_contents [OF 5]
            have k5: "contents fs5 header_name = Some ?bytes" "fs_wf (wal_fs w) \<longrightarrow> fs_wf fs5"
              "\<And>name. name \<noteq> header_name \<Longrightarrow> name \<noteq> header_tmp \<Longrightarrow> contents fs5 name = contents (wal_fs w) name"
              using c4 c5 r4 k3 by auto
            show ?thesis
            proof (cases r5)
              case (Inl e)
              then have "w' = w\<lparr>wal_fs := fs5\<rparr> \<and> res = Inl (Io dir_path e)"
                using run 0 r0 json w0(1) 1 r1 2 r2 3 r3 4 r4 5 by (simp add: steps)
              then show ?thesis using published json k5 by blast
            next
              case (Inr u)
              then have "reclaim (w\<lparr>wal_fs := fs5, wal_header_version := vver v\<rparr>) = (w', res)"
                using run 0 r0 json w0(1) 1 r1 2 r2 3 r3 4 r4 5 by (simp add: steps)
              then show ?thesis using reclaiming json k5 by blast
            qed
          qed
        qed
      qed
    qed
  qed
qed

lemma read_header_written:
  assumes "contents fs header_name = Some (header_bytes crc json)" "length json < 4294967296"
  shows "read_header crc hdec vver fs = rbind (map_err JsonError (hdec json)) (\<lambda>(version, view).
      if version \<noteq> vver view then Inl (HeaderDisagrees version (vver view)) else Inr (Some (version, view)))"
proof -
  obtain f where f: "bt_get (fs_files fs) header_name = Some f" "f_data f = header_bytes crc json"
    using assms(1) by (auto simp: contents_def)
  have m: "length hdr_magic = 8" by (simp add: hdr_magic_def)
  have crc: "unat (crc json) mod 4294967296 = unat (crc json)"
    using unsigned_less [of "crc json", where 'a=nat] by simp
  have parts: "take 8 (f_data f) = hdr_magic" "take 4 (drop 8 (f_data f)) = le_bytes 4 (unat (crc json))"
    "take 4 (drop 12 (f_data f)) = le_bytes 4 (length json)" "drop 16 (f_data f) = json"
    "length (f_data f) = 16 + length json"
    by (simp_all add: f(2) header_bytes_def m)
  show ?thesis using assms(2) by (simp add: read_header_def f(1) parts crc Let_def)
qed

section \<open>Loading\<close>

lemma list_segments_sorted:
  assumes wf: "fs_wf fs" and names: "\<And>name m. name \<in> dom (contents fs) \<Longrightarrow> parse_segment_name name = Some m \<Longrightarrow> name = segment_name m"
    and ms: "sorted_wrt (<) ms" "\<And>m. m \<in> set ms \<longleftrightarrow> (\<exists>name. name \<in> dom (contents fs) \<and> parse_segment_name name = Some m)"
  shows "list_segments fs = map (\<lambda>m. \<lparr>seg_first = m, seg_path = segment_name m, seg_end = 0, seg_last = m - 1\<rparr>) ms"
proof -
  let ?mk = "\<lambda>m. \<lparr>seg_first = m, seg_path = segment_name m, seg_end = 0, seg_last = m - 1\<rparr>"
  let ?files = "map fst (fs_files fs)" and ?L = "List.map_filter listed_segment (map fst (fs_files fs))"
  have dom: "dom (contents fs) = set ?files" by (rule dom_contents)
  have dist: "distinct ?files" using wf by (simp add: fs_wf_def bt_wf_distinct)
  have L: "?L = map (the \<circ> listed_segment) (filter (\<lambda>x. listed_segment x \<noteq> None) ?files)"
    by (simp add: List.map_filter_def)
  have inj: "inj_on (the \<circ> listed_segment) (set (filter (\<lambda>x. listed_segment x \<noteq> None) ?files))"
    by (rule inj_onI) (auto simp: listed_segment_def)
  have "distinct ?L" unfolding L distinct_map using inj dist by simp
  moreover have mk_dist: "distinct (map ?mk ms)"
    using ms(1) by (auto simp: distinct_map strict_sorted_iff inj_on_def)
  moreover have "set ?L = set (map ?mk ms)"
  proof -
    have "x \<in> set ?L \<longleftrightarrow> (\<exists>name m. name \<in> dom (contents fs) \<and> parse_segment_name name = Some m \<and>
        x = \<lparr>seg_first = m, seg_path = name, seg_end = 0, seg_last = m - 1\<rparr>)" for x
      unfolding L dom by (force simp: listed_segment_def)
    note mem = this
    show ?thesis
    proof (rule set_eqI, rule iffI)
      fix x assume "x \<in> set ?L"
      then obtain name m where "name \<in> dom (contents fs)" "parse_segment_name name = Some m"
        "x = \<lparr>seg_first = m, seg_path = name, seg_end = 0, seg_last = m - 1\<rparr>" using mem by blast
      then show "x \<in> set (map ?mk ms)" using names ms(2) by force
    next
      fix x assume "x \<in> set (map ?mk ms)"
      then obtain m where m: "m \<in> set ms" "x = ?mk m" by auto
      then obtain name where "name \<in> dom (contents fs)" "parse_segment_name name = Some m" using ms(2) by blast
      then show "x \<in> set ?L" using mem names m(2) by blast
    qed
  qed
  ultimately have "mset ?L = mset (map ?mk ms)" using set_eq_iff_mset_eq_distinct by blast
  moreover have "inj_on seg_first (set ?L)" using \<open>set ?L = set (map ?mk ms)\<close> by (auto simp: inj_on_def)
  moreover have "sorted (map seg_first (map ?mk ms))" using ms(1) by (simp add: strict_sorted_iff comp_def)
  ultimately show ?thesis unfolding list_segments_def by (rule sort_key_inj_key_eq)
qed

lemma chain_fresh:
  "chain crc D settled n segs rss \<Longrightarrow>
   chain crc D False n (map (\<lambda>m. \<lparr>seg_first = m, seg_path = segment_name m, seg_end = 0, seg_last = m - 1\<rparr>) (map seg_first segs)) rss"
proof (induction segs arbitrary: n rss)
  case (Cons s segs)
  then show ?case by (auto simp: chain_Cons seg_ok_def)
qed simp

text \<open>An orphan either stops a scan for want of the magic or is an empty segment.\<close>

lemma orphan_scan:
  assumes "orphan d" "scan_bytes crc bad visit d st = Inr r" shows "\<exists>z. d = segment_bytes crc [] @ replicate z 0"
proof -
  obtain k z where d: "d = take k segment_prologue @ replicate z 0" using assms(1) by (auto simp: orphan_def)
  have ok: "length (take seg_prologue d) = seg_prologue" "take 8 (take seg_prologue d) = seg_magic"
    using assms(2) by (auto simp: scan_bytes_def Let_def split: if_splits)
  show ?thesis
  proof (cases "8 \<le> k")
    case True
    have "length seg_magic = 8" by (simp add: seg_magic_def)
    then have "take k segment_prologue = seg_magic @ replicate (min (k - 8) 8) 0" using True
      unfolding segment_prologue_def by simp
    then have d': "d = seg_magic @ replicate (min (k - 8) 8 + z) 0" by (simp add: d replicate_add)
    have "16 \<le> length d" using ok(1) by (simp add: seg_prologue_def)
    then have "8 \<le> min (k - 8) 8 + z" by (simp add: d' seg_magic_def)
    then obtain y where "min (k - 8) 8 + z = 8 + y" using le_Suc_ex by blast
    then show ?thesis using d' by (auto simp: segment_bytes_def segment_prologue_def replicate_add)
  next
    case False
    then have "d ! 7 = 0" "7 < length d"
    proof -
      have "7 < length d" using ok(1) by (simp add: seg_prologue_def)
      then show "7 < length d" "d ! 7 = 0" using False
        by (auto simp: d nth_append segment_prologue_def seg_magic_def)
    qed
    moreover have "take 8 (take seg_prologue d) ! 7 = d ! 7" by (simp add: seg_prologue_def)
    ultimately have False using ok(2) by (simp add: seg_magic_def)
    then show ?thesis ..
  qed
qed

lemma truncate_file_frame:
  "truncate_file path len fs = (fs', res) \<Longrightarrow> name \<noteq> path \<Longrightarrow> contents fs' name = contents fs name"
proof -
  assume run: "truncate_file path len fs = (fs', res)" and name: "name \<noteq> path"
  obtain fs1 r1 where 1: "fs_open_rw path fs = (fs1, r1)" by (cases "fs_open_rw path fs")
  obtain fs2 r2 where 2: "fs_set_len path len fs1 = (fs2, r2)" by (cases "fs_set_len path len fs1")
  obtain fs3 r3 where 3: "fs_fsync path fs2 = (fs3, r3)" by (cases "fs_fsync path fs2")
  have "contents fs1 name = contents fs name" using fs_open_rw_contents [OF 1] name by auto
  moreover have "contents fs2 name = contents fs1 name" using fs_write_frame [OF 2 [unfolded fs_set_len_def]] name by auto
  moreover have "contents fs3 name = contents fs2 name" using fs_fdatasync_contents(2) [OF 3] by simp
  moreover have "fs' = fs1 \<or> fs' = fs2 \<or> fs' = fs3" using run 1 2 3
    by (cases r1; cases r2) (auto simp: truncate_file_def sbind_def Let_def)
  ultimately show ?thesis by auto
qed

text \<open>A recovery that succeeds has scanned the last file, with the contents it had at the start.\<close>

lemma recover_loop_scans_last:
  "recover_loop crc hv collect settled (segs @ [t]) st fs = (fs', segs', Inr r :: 'je wal_error + _) \<Longrightarrow> seg_path t \<notin> seg_path ` set segs \<Longrightarrow>
   \<exists>fs1 st1 ok. scan_path crc (seg_path t) (recover_visit (seg_path t) (seg_first t) hv collect) fs1 st1 = (Inr ok :: 'je wal_error + _) \<and>
     contents fs1 (seg_path t) = contents fs (seg_path t)"
proof (induction segs arbitrary: settled st fs)
  case Nil
  show ?case
  proof (cases "scan_path crc (seg_path t) (recover_visit (seg_path t) (seg_first t) hv collect) fs st :: 'je wal_error + _")
    case (Inl e)
    then show ?thesis using Nil by simp
  qed blast
next
  case (Cons s segs)
  let ?scan = "scan_path crc (seg_path s) (recover_visit (seg_path s) (seg_first s) hv collect) fs st :: 'je wal_error + _"
  obtain sc ex tail where scan: "?scan = Inr (sc, ex, tail)" using Cons.prems(1) by (cases ?scan) auto
  let ?cut = "if scan_end sc < scan_file_len sc then truncate_file (seg_path s) (scan_end sc) fs
    else (fs, Inr ()) :: fs \<times> ('je wal_error + unit)"
  obtain fs1 r0 where cut: "?cut = (fs1, r0)" by (cases ?cut)
  obtain r1 where r0: "r0 = Inr r1" using Cons.prems(1) scan cut by (cases r0) (auto split: if_splits)
  note run = Cons.prems(1) [unfolded append_Cons recover_loop.simps scan sum.case prod.case cut r0]
  have 1: "?cut = (fs1, Inr r1)"
    "\<exists>st'. recover_loop crc hv collect (settled @ [st']) (segs @ [t]) (ex, tail) fs1 = (fs', segs', Inr r :: 'je wal_error + _)"
    using cut r0 run by (auto simp: Let_def split: if_splits)
  then obtain st' where rest: "recover_loop crc hv collect (settled @ [st']) (segs @ [t]) (ex, tail) fs1
    = (fs', segs', Inr r :: 'je wal_error + _)" by blast
  have "contents fs1 (seg_path t) = contents fs (seg_path t)"
    using 1(1) truncate_file_frame [of "seg_path s" "scan_end sc" fs fs1 "Inr r1 :: 'je wal_error + unit" "seg_path t"] Cons.prems(2)
    by (auto split: if_splits)
  then show ?case using Cons.IH [OF rest] Cons.prems(2) by auto
qed

lemma read_header_version:
  "read_header crc hdec vver fs = Inr (Some (ver, v)) \<Longrightarrow> ver = vver v"
  by (auto simp: read_header_def Let_def rbind_Inr_iff split: option.splits if_splits prod.splits)

lemma disk_version_read:
  assumes "read_header crc hdec vver fs = Inr h"
  shows "disk_header crc hdec vver fs = map_option snd h"
    "disk_version crc hdec vver fs = (case h of None \<Rightarrow> 0 | Some (ver, _) \<Rightarrow> ver)"
  using assms read_header_version [of crc hdec vver fs]
  by (auto simp: disk_header_def disk_version_def split: option.splits)

text \<open>What a load finds in the directory of a good store: its segments, and perhaps an empty one.\<close>

lemma listed_chain:
  assumes good: "wal_good crc w n rss" and clean: "\<not> leftover w"
  shows "\<exists>extra. list_segments (wal_fs w) =
      map (\<lambda>m. \<lparr>seg_first = m, seg_path = segment_name m, seg_end = 0, seg_last = m - 1\<rparr>) (map seg_first (wal_segments w) @ extra) \<and>
    (extra = [] \<or> extra = [Suc (wal_top n rss)] \<and> segment_name (Suc (wal_top n rss)) \<notin> seg_path ` set (wal_segments w) \<and>
      [] \<notin> set rss \<and> (\<exists>d. contents (wal_fs w) (segment_name (Suc (wal_top n rss))) = Some d \<and> orphan d)) \<and>
    (\<forall>name m. name \<in> dom (contents (wal_fs w)) \<and> parse_segment_name name = Some m \<longrightarrow>
       name = segment_name m \<and> m \<in> set (map seg_first (wal_segments w) @ extra))"
proof -
  let ?D = "contents (wal_fs w)" and ?o = "Suc (wal_top n rss)"
  have ch: "chain crc ?D (wal_recovered w) n (wal_segments w) rss" using good by (simp add: wal_good_def)
  have top: "?o \<le> u64_max" using good by (simp add: wal_good_def)
  have stray: "stray_ok w ?o name m" if "name \<in> dom ?D" "parse_segment_name name = Some m" for name m
    using good that unfolding wal_good_def by blast
  have no_left: "\<not> (wal_segments w \<noteq> [] \<and> m < seg_first (hd (wal_segments w)))"
    if "name \<in> dom ?D" "parse_segment_name name = Some m" for name m
    using clean that unfolding leftover_def by blast
  let ?present = "segment_name ?o \<in> dom ?D \<and> segment_name ?o \<notin> seg_path ` set (wal_segments w)"
  define extra where "extra = (if ?present then [?o] else [])"
  have segs_first: "name = seg_path s \<Longrightarrow> parse_segment_name name = Some m \<Longrightarrow> s \<in> set (wal_segments w) \<Longrightarrow> m = seg_first s"
    for name m s using chain_first [OF ch, of s] by auto
  have all: "name = segment_name m \<and> m \<in> set (map seg_first (wal_segments w) @ extra)"
    if nm: "name \<in> dom ?D" "parse_segment_name name = Some m" for name m
  proof -
    have name: "name = segment_name m" using stray [OF nm] by (simp add: stray_ok_def)
    show ?thesis
    proof (cases "name \<in> seg_path ` set (wal_segments w)")
      case True
      then obtain s where s: "s \<in> set (wal_segments w)" "name = seg_path s" by auto
      have "m = seg_first s" using segs_first [OF s(2) nm(2) s(1)] .
      then show ?thesis using name s(1) by simp
    next
      case False
      then have "m = ?o" using stray [OF nm] no_left [OF nm] by (auto simp: stray_ok_def)
      then have "?present" using name nm(1) False by simp
      then show ?thesis using name \<open>m = ?o\<close> by (simp add: extra_def)
    qed
  qed
  have orph: "extra = [] \<or> extra = [?o] \<and> segment_name ?o \<notin> seg_path ` set (wal_segments w) \<and>
      [] \<notin> set rss \<and> (\<exists>d. ?D (segment_name ?o) = Some d \<and> orphan d)"
  proof (cases ?present)
    case True
    have "stray_ok w ?o (segment_name ?o) ?o" using stray True top by simp
    moreover have "\<not> (wal_segments w \<noteq> [] \<and> ?o < seg_first (hd (wal_segments w)))" using no_left [of "segment_name ?o" ?o] True top by simp
    ultimately have o: "wal_recovered w" "wal_active w = None" "\<exists>d. ?D (segment_name ?o) = Some d \<and> orphan d"
      using True by (auto simp: stray_ok_def)
    have "[] \<notin> set rss"
    proof (cases "wal_segments w = []")
      case False
      have "last rss \<noteq> []" using good o False by (simp add: wal_good_def)
      moreover have "chain crc ?D (wal_recovered w) n (butlast (wal_segments w) @ [last (wal_segments w)]) rss"
        using ch False by simp
      ultimately show ?thesis by (auto simp: chain_snoc)
    qed (use ch in simp)
    then show ?thesis using True o by (simp add: extra_def)
  qed (simp add: extra_def)
  have bound: "\<forall>s \<in> set (wal_segments w). extra \<noteq> [] \<longrightarrow> seg_first s < ?o"
  proof (intro ballI impI)
    fix s assume s: "s \<in> set (wal_segments w)" and "extra \<noteq> []"
    then have p: "segment_name ?o \<notin> seg_path ` set (wal_segments w)" using orph by auto
    have "seg_first s \<le> ?o" "seg_path s = segment_name (seg_first s)" using chain_first [OF ch s] by (auto simp: wal_top_def)
    then show "seg_first s < ?o" using p s by (metis image_eqI le_neq_implies_less)
  qed
  have "list_segments (wal_fs w) =
      map (\<lambda>m. \<lparr>seg_first = m, seg_path = segment_name m, seg_end = 0, seg_last = m - 1\<rparr>) (map seg_first (wal_segments w) @ extra)"
  proof (rule list_segments_sorted)
    show "fs_wf (wal_fs w)" using good by (simp add: wal_good_def)
    show "sorted_wrt (<) (map seg_first (wal_segments w) @ extra)"
      using chain_sorted [OF ch] bound orph by (auto simp: sorted_wrt_append)
    fix m
    show "m \<in> set (map seg_first (wal_segments w) @ extra) \<longleftrightarrow> (\<exists>name. name \<in> dom ?D \<and> parse_segment_name name = Some m)"
    proof
      assume "m \<in> set (map seg_first (wal_segments w) @ extra)"
      then consider s where "s \<in> set (wal_segments w)" "m = seg_first s" | "?present" "m = ?o"
        by (auto simp: extra_def split: if_splits)
      then show "\<exists>name. name \<in> dom ?D \<and> parse_segment_name name = Some m"
      proof cases
        case (1 s)
        then show ?thesis using chain_first [OF ch 1(1)] by (intro exI [of _ "seg_path s"]) auto
      next
        case 2
        then show ?thesis using top by (intro exI [of _ "segment_name ?o"]) simp
      qed
    qed (use all in blast)
  qed (use all in blast)
  then show ?thesis using orph all by (intro exI [of _ extra]) blast
qed

end
