(* ===== verification/ServerStorage.thy ===== *)
theory ServerStorage
  imports LugLog "HOL-Library.Product_Lexorder"
begin

text \<open>
  \<open>crates/lug-server/src/storage.rs\<close>: the in-memory storage that keeps the last \<open>retain\<close>
  records, the contract \<open>storage\<close> discharged for it, the log over it, and the
  \<open>kind\<close> files by which segment storage remembers the shape of a log.
\<close>

section \<open>Memory\<close>

record 'v memory_store =
  mem_records :: "log_record list"
  mem_header :: "'v option"
  mem_retain :: nat
  mem_oldest :: version

definition memory_new :: "nat \<Rightarrow> 'v memory_store" where
  "memory_new retain =
     \<lparr>mem_records = [], mem_header = None, mem_retain = max retain 1, mem_oldest = 1\<rparr>"

definition memory_push :: "'v memory_store \<Rightarrow> log_record \<Rightarrow> 'v memory_store" where
  "memory_push m record =
     (let m' =
        (if length (mem_records m) = mem_retain m
         then (case mem_records m of
                 [] \<Rightarrow> m
               | dropped # rest \<Rightarrow>
                   m\<lparr>mem_records := rest, mem_oldest := u64_wrapping_add (rec_version dropped) 1\<rparr>)
         else m)
      in m'\<lparr>mem_records := mem_records m' @ [record]\<rparr>)"

definition memory_append :: "'v memory_store \<Rightarrow> log_record list \<Rightarrow> 'v memory_store" where
  "memory_append m records = foldl memory_push m records"

definition memory_load :: "('v \<Rightarrow> version) \<Rightarrow> 'v memory_store \<Rightarrow> 'v recovered" where
  "memory_load vver m =
     (let after = (case mem_header m of None \<Rightarrow> 0 | Some v \<Rightarrow> vver v)
      in \<lparr>rcv_header = mem_header m, rcv_tail = filter (\<lambda>r. rec_version r > after) (mem_records m)\<rparr>)"

definition memory_read_after :: "'v memory_store \<Rightarrow> version \<Rightarrow> nat \<Rightarrow> log_record list" where
  "memory_read_after m after limit = take limit (filter (\<lambda>r. rec_version r > after) (mem_records m))"

definition memory_oldest :: "'v memory_store \<Rightarrow> version" where
  "memory_oldest m = (case mem_records m of [] \<Rightarrow> mem_oldest m | r # rs \<Rightarrow> rec_version r)"

definition memory_ops :: "('v \<Rightarrow> version) \<Rightarrow> ('v memory_store, 'v, 'e) storage_ops" where
  "memory_ops vver = \<lparr>
     s_append = (\<lambda>m rs. (memory_append m rs, Inr ())),
     s_write_header = (\<lambda>m v. (m\<lparr>mem_header := Some v\<rparr>, Inr ())),
     s_sync = (\<lambda>m. (m, Inr ())),
     s_load = (\<lambda>m. (m, Inr (memory_load vver m))),
     s_read_after = (\<lambda>m after limit. Inr (memory_read_after m after limit)),
     s_oldest = memory_oldest\<rparr>"

section \<open>The shape of a log on disk\<close>

text \<open>
  The data directory as its entries: a name and, for a directory, the content of its \<open>kind\<close>
  file if it has one.
\<close>

datatype dir_entry = PlainFile | LogDir "string option"

definition kind_text :: "bool \<Rightarrow> string" where
  "kind_text folds = (if folds then ''reducible'' @ [CHR 0x0A] else ''plain'' @ [CHR 0x0A])"

definition remember ::
    "(string, dir_entry) btree_map \<Rightarrow> string \<Rightarrow> bool \<Rightarrow> (string, dir_entry) btree_map" where
  "remember root_dir name folds = bt_insert name (LogDir (Some (kind_text folds))) root_dir"

definition is_space :: "char \<Rightarrow> bool" where
  "is_space c \<longleftrightarrow> c \<in> {CHR '' '', CHR 0x09, CHR 0x0A, CHR 0x0B, CHR 0x0C, CHR 0x0D}"

definition trim :: "string \<Rightarrow> string" where
  "trim s = rev (dropWhile is_space (rev (dropWhile is_space s)))"

definition discover :: "(string, dir_entry) btree_map \<Rightarrow> (string \<times> bool) list" where
  "discover root_dir =
     sort (List.map_filter
       (\<lambda>(name, entry). case entry of
           PlainFile \<Rightarrow> None
         | LogDir kind \<Rightarrow>
             Some (name, trim (case kind of Some t \<Rightarrow> t | None \<Rightarrow> []) = ''reducible''))
       root_dir)"

section \<open>Memory satisfies the contract\<close>

text \<open>
  As long as nothing was dropped, the records are all there ever were, numbered from 1;
  dropping one moves \<open>mem_oldest\<close> for good.
\<close>

definition mem_tainted :: "'v memory_store \<Rightarrow> bool" where
  "mem_tainted m \<longleftrightarrow> mem_oldest m \<noteq> 1"

definition mem_abs :: "('v \<Rightarrow> version) \<Rightarrow> 'v memory_store \<Rightarrow> 'v option \<times> log_record list" where
  "mem_abs vver m = (mem_header m, rcv_tail (memory_load vver m))"

definition mem_swf :: "('v \<Rightarrow> bool) \<Rightarrow> ('v \<Rightarrow> version) \<Rightarrow> 'v memory_store \<Rightarrow> bool" where
  "mem_swf vok vver m \<longleftrightarrow>
     1 \<le> mem_retain m \<and> length (mem_records m) \<le> mem_retain m \<and>
     (\<forall>r \<in> set (mem_records m). 0 < rec_version r \<and> rec_version r \<le> u64_max) \<and>
     (\<not> mem_tainted m \<longrightarrow> consec 0 (mem_records m) \<and>
        (case mem_header m of None \<Rightarrow> True
         | Some v \<Rightarrow> vok v \<and> vver v \<le> length (mem_records m)))"

lemma push_taint:
  assumes "\<forall>r \<in> set (mem_records m). 0 < rec_version r \<and> rec_version r \<le> u64_max"
    "0 < rec_version r \<and> rec_version r \<le> u64_max" "length (mem_records m) \<le> mem_retain m" "1 \<le> mem_retain m"
  shows "let m' = memory_push m r
    in (\<forall>r \<in> set (mem_records m'). 0 < rec_version r \<and> rec_version r \<le> u64_max) \<and>
       length (mem_records m') \<le> mem_retain m' \<and> mem_retain m' = mem_retain m \<and>
       mem_header m' = mem_header m \<and> (mem_tainted m \<longrightarrow> mem_tainted m') \<and>
       (\<not> mem_tainted m' \<longrightarrow> mem_records m' = mem_records m @ [r])"
proof (cases "length (mem_records m) = mem_retain m")
  case True
  then obtain x xs where "mem_records m = x # xs" using assms(4) by (cases "mem_records m") auto
  moreover have "(rec_version x + 1) mod 18446744073709551616 \<noteq> 1"
    using assms(1) calculation by (auto simp: u64_max_def mod_if)
  ultimately show ?thesis using assms True
    by (auto simp: memory_push_def mem_tainted_def Let_def u64_wrapping_add_def)
next
  case False
  then show ?thesis using assms by (auto simp: memory_push_def mem_tainted_def Let_def)
qed

lemma memory_append_spec:
  "\<forall>r \<in> set (mem_records m). 0 < rec_version r \<and> rec_version r \<le> u64_max \<Longrightarrow>
   \<forall>r \<in> set rs. 0 < rec_version r \<and> rec_version r \<le> u64_max \<Longrightarrow>
   length (mem_records m) \<le> mem_retain m \<Longrightarrow> 1 \<le> mem_retain m \<Longrightarrow>
   let m' = memory_append m rs
   in (\<forall>r \<in> set (mem_records m'). 0 < rec_version r \<and> rec_version r \<le> u64_max) \<and>
      length (mem_records m') \<le> mem_retain m' \<and> mem_retain m' = mem_retain m \<and>
      mem_header m' = mem_header m \<and> (mem_tainted m \<longrightarrow> mem_tainted m') \<and>
      (\<not> mem_tainted m' \<longrightarrow> mem_records m' = mem_records m @ rs)"
proof (induction rs arbitrary: m)
  case Nil
  then show ?case by (simp add: memory_append_def)
next
  case (Cons r rs)
  let ?m = "memory_push m r"
  have r: "0 < rec_version r \<and> rec_version r \<le> u64_max" using Cons.prems(2) by simp
  note step = push_taint [OF Cons.prems(1) r Cons.prems(3,4), unfolded Let_def]
  have "let m' = memory_append ?m rs
   in (\<forall>r \<in> set (mem_records m'). 0 < rec_version r \<and> rec_version r \<le> u64_max) \<and>
      length (mem_records m') \<le> mem_retain m' \<and> mem_retain m' = mem_retain ?m \<and>
      mem_header m' = mem_header ?m \<and> (mem_tainted ?m \<longrightarrow> mem_tainted m') \<and>
      (\<not> mem_tainted m' \<longrightarrow> mem_records m' = mem_records ?m @ rs)"
    using step Cons.prems by (intro Cons.IH) auto
  moreover have "memory_append m (r # rs) = memory_append ?m rs" by (simp add: memory_append_def)
  ultimately show ?case using step by (auto simp: Let_def)
qed

lemma mem_abs_drop:
  assumes "mem_swf vok vver m" "\<not> mem_tainted m"
  shows "mem_abs vver m = (mem_header m, drop (case mem_header m of None \<Rightarrow> 0 | Some v \<Rightarrow> vver v) (mem_records m))"
    and "consec (case mem_header m of None \<Rightarrow> 0 | Some v \<Rightarrow> vver v) (snd (mem_abs vver m))"
    and "(case mem_header m of None \<Rightarrow> 0 | Some v \<Rightarrow> vver v) + length (snd (mem_abs vver m)) = length (mem_records m)"
proof -
  let ?n = "case mem_header m of None \<Rightarrow> 0 | Some v \<Rightarrow> vver v"
  have c: "consec 0 (mem_records m)" "?n \<le> length (mem_records m)"
    using assms by (auto simp: mem_swf_def split: option.splits)
  have "filter (\<lambda>r. ?n < rec_version r) (mem_records m) = drop ?n (mem_records m)"
    using above_drop [OF c(1), of ?n] by (simp add: above_def)
  then show abs: "mem_abs vver m = (mem_header m, drop ?n (mem_records m))"
    by (simp add: mem_abs_def memory_load_def Let_def)
  have "consec ?n (drop ?n (mem_records m))"
    using consec_append [of 0 "take ?n (mem_records m)" "drop ?n (mem_records m)"] c by (simp add: min_absorb2)
  then show "consec ?n (snd (mem_abs vver m))" by (simp add: abs)
  show "?n + length (snd (mem_abs vver m)) = length (mem_records m)" using c(2) by (simp add: abs)
qed

lemma memory_storage:
  fixes vver :: "'v \<Rightarrow> version" and obsv :: "'v \<Rightarrow> version \<times> json"
  assumes obsv: "\<And>v. fst (obsv v) = vver v"
  shows "storage (memory_ops vver :: ('v memory_store, 'v, 'e) storage_ops) (mem_abs vver) (mem_swf vok vver)
     mem_tainted vok obsv"
proof
  have hdr: "hdr_version obsv h = (case h of None \<Rightarrow> 0 | Some v \<Rightarrow> vver v)" for h
    by (simp add: hdr_version_def obsv cong: option.case_cong)
  have fst_abs: "fst (mem_abs vver m) = mem_header m" for m by (simp add: mem_abs_def)
  fix s s' :: "'v memory_store" and rs :: "log_record list" and u :: unit and v :: 'v and e :: 'e
  {
    assume s: "mem_swf vok vver s" "\<not> mem_tainted s"
    show "consec (hdr_version obsv (fst (mem_abs vver s))) (snd (mem_abs vver s)) \<and>
        (\<forall>v. fst (mem_abs vver s) = Some v \<longrightarrow> vok v)"
      using mem_abs_drop(2) [OF s] s by (auto simp: hdr fst_abs mem_swf_def)
  next
    assume s: "mem_swf vok vver s" and run: "s_append (memory_ops vver) s rs = (s', Inr u :: 'e + unit)"
      and nxt: "mem_tainted s \<or> consec (top obsv (mem_abs vver s)) rs"
      and pos: "\<forall>r \<in> set rs. 0 < rec_version r \<and> rec_version r \<le> u64_max"
    have s': "s' = memory_append s rs" using run by (simp add: memory_ops_def)
    have spec: "let m' = memory_append s rs
      in (\<forall>r \<in> set (mem_records m'). 0 < rec_version r \<and> rec_version r \<le> u64_max) \<and>
      length (mem_records m') \<le> mem_retain m' \<and> mem_retain m' = mem_retain s \<and>
      mem_header m' = mem_header s \<and> (mem_tainted s \<longrightarrow> mem_tainted m') \<and>
      (\<not> mem_tainted m' \<longrightarrow> mem_records m' = mem_records s @ rs)"
      using s pos by (intro memory_append_spec) (auto simp: mem_swf_def)
    have clean: "mem_swf vok vver s' \<and> mem_abs vver s' = (fst (mem_abs vver s), snd (mem_abs vver s) @ rs)"
      if ok: "\<not> mem_tainted s'"
    proof -
      have ns: "\<not> mem_tainted s" using spec ok by (auto simp: s' Let_def)
      have n: "(case mem_header s of None \<Rightarrow> 0 | Some v \<Rightarrow> vver v) \<le> length (mem_records s)"
        using s ns by (auto simp: mem_swf_def split: option.splits)
      have "top obsv (mem_abs vver s) = length (mem_records s)"
        using mem_abs_drop(3) [OF s ns] by (simp add: top_def hdr fst_abs)
      then have "consec 0 (mem_records s @ rs)"
        using nxt s ns by (simp add: consec_append mem_swf_def)
      then have swf: "mem_swf vok vver s'"
        using spec s ok ns by (auto simp: mem_swf_def s' Let_def split: option.splits)
      then show ?thesis using mem_abs_drop(1) [OF swf ok] mem_abs_drop(1) [OF s ns] spec ok n
        by (simp add: s' Let_def)
    qed
    show "mem_swf vok vver s' \<and> (mem_tainted s \<longrightarrow> mem_tainted s') \<and>
        (\<not> mem_tainted s' \<longrightarrow> mem_abs vver s' = (fst (mem_abs vver s), snd (mem_abs vver s) @ rs))"
      using clean spec s by (cases "mem_tainted s'") (auto simp: mem_swf_def s' Let_def)
  next
    assume s: "mem_swf vok vver s" and v: "vok v"
      and at_top: "mem_tainted s \<or> fst (obsv v) = top obsv (mem_abs vver s)"
      and run: "s_write_header (memory_ops vver) s v = (s', Inr u :: 'e + unit)"
    have s': "s' = s\<lparr>mem_header := Some v\<rparr>" using run by (simp add: memory_ops_def)
    have taint: "mem_tainted s' = mem_tainted s" by (simp add: s' mem_tainted_def)
    show "mem_swf vok vver s' \<and> (mem_tainted s \<longrightarrow> mem_tainted s') \<and>
        (\<not> mem_tainted s' \<longrightarrow> checkpointed vok obsv v (mem_abs vver s) (mem_abs vver s'))"
    proof (cases "mem_tainted s")
      case True
      then show ?thesis using s by (auto simp: mem_swf_def s' mem_tainted_def)
    next
      case False
      have at: "vver v = length (mem_records s)"
        using at_top False mem_abs_drop(3) [OF s False] by (simp add: top_def hdr fst_abs obsv)
      then have swf: "mem_swf vok vver s'" using s v False by (simp add: mem_swf_def s' mem_tainted_def)
      have "snd (mem_abs vver s') = []" using mem_abs_drop(1) [OF swf] False taint at by (simp add: s')
      moreover have "above (vver v) (snd (mem_abs vver s)) = []"
        using above_consec [OF mem_abs_drop(2) [OF s False]] mem_abs_drop(3) [OF s False] at by simp
      ultimately have "checkpointed vok obsv v (mem_abs vver s) (mem_abs vver s')"
        using v by (auto simp: checkpointed_def obsv s' mem_abs_def)
      then show ?thesis using swf taint by simp
    qed
  }
qed (auto simp: memory_ops_def mem_abs_def memory_load_def hdr_version_def obsv above_def Let_def
    split: option.splits)

interpretation noop_memory: durable_log noop_ops noop_wf "\<lambda>n. n \<le> u64_max" "\<lambda>_. True" "(=)"
    "memory_ops (v_version noop_ops) :: (version memory_store, version, unit) storage_ops"
    "mem_abs (v_version noop_ops)" "mem_swf (\<lambda>n. n \<le> u64_max) (v_version noop_ops)" mem_tainted
  by (intro durable_log.intro noop_red.reducible_axioms memory_storage) (simp add: obs_def)

interpretation cavlc_memory: durable_log "cavlc_ops own" cavlc_wf snapshot_wf patch_wf patch_eq
    "memory_ops snap_version :: (snapshot memory_store, snapshot, unit) storage_ops"
    "mem_abs snap_version" "mem_swf snapshot_wf snap_version" mem_tainted for own
  by (intro durable_log.intro cavlc_red.reducible_axioms memory_storage) (simp add: obs_def)

section \<open>Properties\<close>

lemma memory_new_swf:
  fixes vver :: "'v \<Rightarrow> version"
  shows "mem_swf vok vver (memory_new n) \<and> \<not> mem_tainted (memory_new n :: 'v memory_store)
    \<and> mem_abs vver (memory_new n) = (None, [])"
  by (simp add: mem_swf_def memory_new_def mem_tainted_def mem_abs_def memory_load_def)

lemma cavlc_new_wf: "cavlc_wf (store_new own) \<and> snap_version (store_snapshot (store_new own)) = 0"
  using store_new_wf [of own]
  by (simp add: cavlc_wf_def store_new_def snapshot_wf_def store_snapshot_def value_default_def avl_wf_def)

text \<open>A concrete codec that knows one patch, for the witnesses.\<close>

definition wit_patch :: patch where
  "wit_patch = Patch [(''a'', VAtom JNull)] [] []"

definition wit_enc :: "patch \<Rightarrow> unit + bytes" where
  "wit_enc p = (if p = wit_patch then Inr [1] else Inl ())"

definition wit_dec :: "bytes \<Rightarrow> unit + patch" where
  "wit_dec b = (if b = [1] then Inr wit_patch else Inl ())"

definition wit_log :: "(store, snapshot memory_store) lug_log" where
  "wit_log = \<lparr>log_data = store_new 0, log_storage = memory_new 4, log_watermark = 0, log_synced = 0\<rparr>"

lemma wit_codec: "codec_ok wit_enc wit_dec (\<lambda>p. p = wit_patch) patch_wf patch_eq"
  by (auto simp: codec_ok_def wit_enc_def wit_dec_def wit_patch_def bt_wf_def split: if_splits)

lemma wit_ops: "log_op_ok (\<lambda>p. patch_wf p \<and> p = wit_patch) (DoAppend [wit_patch] Durable)"
  by (simp add: wit_patch_def bt_wf_def)

lemma wit_open: "log_open (cavlc_ops 0) (memory_ops snap_version :: (snapshot memory_store, snapshot, unit) storage_ops)
    wit_dec (store_new 0) (memory_new 4) = Inr wit_log"
  by (simp add: log_open_def memory_ops_def memory_load_def memory_new_def wit_log_def store_new_def
      store_snapshot_def Let_def)

lemma wit_run: "log_append (cavlc_ops 0) (memory_ops snap_version :: (snapshot memory_store, snapshot, unit) storage_ops)
    wit_enc wit_log [wit_patch] Durable =
    (wit_log\<lparr>log_data := fst (r_apply (cavlc_ops 0) (store_new 0) wit_patch),
       log_storage := (memory_new 4)\<lparr>mem_records := [\<lparr>rec_version = 1, rec_patch = [1]\<rparr>]\<rparr>,
       log_watermark := 1, log_synced := 1\<rparr>,
     Inr [\<lparr>snap_version = 1, snap_root = VObject (avl_insert Tip ''a'' (VAtom JNull))\<rparr>])"
  by (simp add: log_append_def wit_enc_def wit_patch_def wit_log_def r_apply_def cavlc_ops_def cavlc_commit_def
      begin_batch_def batch_apply_def apply_batch_def store_new_def store_snapshot_def u64_checked_add_def
      u64_max_def patch_apply_def op_keys_def bt_keys_def value_default_def avl_is_empty_def memory_ops_def
      memory_append_def memory_push_def memory_new_def node_def Let_def)



text \<open>
  One \<open>append\<close> is atomic. Whatever its outcome short of an encoding failure, the log keeps
  its invariant (memory, watermark and storage agree) and the watermark never moves back. A
  batch that is refused before the storage has it leaves view and watermark where they were.
  When it succeeds there is one view per patch, and at \<open>Durable\<close> the sync frontier has reached
  the new watermark; the one error after the records are in is a failed sync, which keeps them
  and refuses only the durability claim.
\<close>

theorem cavlc_append_atomic:
  assumes "log_inv (cavlc_ops own) dec cavlc_wf TYPE(unit) (mem_abs snap_version)
      (mem_swf snapshot_wf snap_version) mem_tainted zero l"
    and "\<forall>p \<in> set ps. patch_wf p \<and> used p" "codec_ok enc dec used patch_wf patch_eq"
    and "log_append (cavlc_ops own)
          (memory_ops snap_version :: (snapshot memory_store, snapshot, unit) storage_ops) enc l ps dur = (l', res)"
    and "\<forall>je. res \<noteq> Inl (CodecError je)"
  shows "log_inv (cavlc_ops own) dec cavlc_wf TYPE(unit) (mem_abs snap_version)
      (mem_swf snapshot_wf snap_version) mem_tainted zero l'
    \<and> log_watermark l \<le> log_watermark l'
    \<and> (log_watermark l' = log_watermark l \<longrightarrow> store_snapshot (log_data l') = store_snapshot (log_data l))
    \<and> (case res of
         Inr views \<Rightarrow> length views = length ps \<and>
           (dur = Durable \<and> log_watermark l' \<noteq> log_watermark l \<longrightarrow> log_synced l' = log_watermark l')
       | Inl e \<Rightarrow> log_watermark l' = log_watermark l \<or> (dur = Durable \<and> log_synced l' = log_synced l))"
  using cavlc_memory.append_inv [OF assms] by simp

theorem cavlc_append_atomic_witness:
  "log_watermark (fst (log_append (cavlc_ops 0)
      (memory_ops snap_version :: (snapshot memory_store, snapshot, unit) storage_ops) wit_enc wit_log
      [wit_patch] Durable)) = 1
   \<and> log_inv (cavlc_ops 0) wit_dec cavlc_wf TYPE(unit) (mem_abs snap_version) (mem_swf snapshot_wf snap_version)
       mem_tainted (store_new 0) (fst (log_append (cavlc_ops 0)
      (memory_ops snap_version :: (snapshot memory_store, snapshot, unit) storage_ops) wit_enc wit_log
      [wit_patch] Durable))"
proof -
  have "log_inv (cavlc_ops 0) wit_dec cavlc_wf TYPE(unit) (mem_abs snap_version) (mem_swf snapshot_wf snap_version)
      mem_tainted (store_new 0) wit_log"
    using cavlc_new_wf [of 0] memory_new_swf [of snapshot_wf snap_version 4]
    by (auto simp: log_inv_def wit_log_def recovers_def log_base_def top_def hdr_version_def)
  moreover have "\<forall>p \<in> set [wit_patch]. patch_wf p \<and> p = wit_patch" by (simp add: wit_patch_def bt_wf_def)
  ultimately show ?thesis
    using cavlc_append_atomic [OF _ _ wit_codec wit_run] by (simp add: wit_run)
qed

end
