(* ===== verification/WalStorage.thy ===== *)
theory WalStorage
  imports WalRefine ServerStorage
begin

text \<open>
  The segment store as a \<open>storage\<close>, and the log over it: what a cold start finds after any
  operations under any sequence of kernel answers.
\<close>

section \<open>Load\<close>

lemma chain_extra:
  assumes "chain crc D False n segs rss" "wal_top n rss < u64_max" "[] \<notin> set rss"
    "D (segment_name (Suc (wal_top n rss))) = Some (segment_bytes crc [] @ replicate z 0)"
  shows "chain crc D False n (segs @ [\<lparr>seg_first = Suc (wal_top n rss), seg_path = segment_name (Suc (wal_top n rss)),
     seg_end = 0, seg_last = Suc (wal_top n rss) - 1\<rparr>]) (rss @ [[]])"
  using assms by (auto simp: chain_snoc seg_ok_def wal_top_def)

lemma recover_loop_cases:
  assumes "recover crc collect w = (w', Inr tail :: 'je wal_error + _)"
  obtains fs segs st where "recover_loop crc (wal_header_version w) collect [] (wal_segments w) (None, []) (wal_fs w)
    = (fs, segs, Inr st :: 'je wal_error + _)"
  using assms by (auto simp: recover_def split: prod.splits sum.splits)

lemma wal_load_good:
  fixes w :: wal
  assumes run: "wal_load crc hdec vver w = (w', Inr r :: 'je wal_error + 'v recovered)"
    and good: "wal_good crc w n rss" and hdr: "header_good crc hdec vver vok w n rss"
    and clean: "\<not> leftover w" "wal_poison w = None"
  shows "\<exists>rss'. wal_good crc w' n rss' \<and> header_good crc hdec vver vok w' n rss' \<and> concat rss' = concat rss \<and>
    \<not> leftover w' \<and> wal_poison w' = None \<and>
    disk_header crc hdec vver (wal_fs w') = disk_header crc hdec vver (wal_fs w) \<and>
    disk_version crc hdec vver (wal_fs w') = disk_version crc hdec vver (wal_fs w) \<and>
    rcv_header r = disk_header crc hdec vver (wal_fs w) \<and>
    rcv_tail r = above (disk_version crc hdec vver (wal_fs w)) (concat rss)"
proof -
  let ?D = "contents (wal_fs w)" and ?hv = "disk_version crc hdec vver (wal_fs w)"
  let ?fresh = "\<lambda>m. \<lparr>seg_first = m, seg_path = segment_name m, seg_end = 0, seg_last = m - 1\<rparr>"
  obtain h where h: "read_header crc hdec vver (wal_fs w) = Inr h" using hdr by (auto simp: header_good_def Let_def)
  note hv = disk_version_read [OF h]
  from listed_chain [OF good clean(1)] obtain extra where l:
    "list_segments (wal_fs w) = map ?fresh (map seg_first (wal_segments w) @ extra)"
    "extra = [] \<or> extra = [Suc (wal_top n rss)] \<and> segment_name (Suc (wal_top n rss)) \<notin> seg_path ` set (wal_segments w) \<and>
      [] \<notin> set rss \<and> (\<exists>d. ?D (segment_name (Suc (wal_top n rss))) = Some d \<and> orphan d)"
    "\<forall>name m. name \<in> dom ?D \<and> parse_segment_name name = Some m \<longrightarrow>
       name = segment_name m \<and> m \<in> set (map seg_first (wal_segments w) @ extra)" by blast
  let ?w = "w\<lparr>wal_active := None, wal_segments := list_segments (wal_fs w), wal_header_version := ?hv\<rparr>"
  have ch: "chain crc ?D (wal_recovered w) n (wal_segments w) rss" and top: "wal_top n rss < u64_max"
    using good by (simp_all add: wal_good_def)
  have w1: "wal_header_version (w\<lparr>wal_active := None, wal_segments := list_segments (wal_fs w),
      wal_header_version := (case h of None \<Rightarrow> 0 | Some (v, _) \<Rightarrow> v)\<rparr>) = ?hv" by (simp add: hv(2))
  have rec: "recover crc True ?w = (w', Inr (rcv_tail r) :: 'je wal_error + _)"
    and r: "rcv_header r = disk_header crc hdec vver (wal_fs w)"
    using run h by (auto simp: wal_load_def sbind_def hv Let_def split: prod.splits sum.splits)
  have fresh: "chain crc ?D False n (map ?fresh (map seg_first (wal_segments w))) rss" by (rule chain_fresh [OF ch])
  have "\<exists>rss'. chain crc ?D False n (list_segments (wal_fs w)) rss' \<and> concat rss' = concat rss"
  proof (cases "extra = []")
    case True
    then show ?thesis using fresh l(1) by (intro exI [of _ rss]) simp
  next
    case False
    let ?o = "Suc (wal_top n rss)"
    have e: "extra = [?o]" and o: "segment_name ?o \<notin> seg_path ` set (wal_segments w)" "[] \<notin> set rss"
      and d: "\<exists>d. ?D (segment_name ?o) = Some d \<and> orphan d" using l(2) False by auto
    obtain d where d: "?D (segment_name ?o) = Some d" "orphan d" using d by blast
    have segs: "list_segments (wal_fs w) = map ?fresh (map seg_first (wal_segments w)) @ [?fresh ?o]" by (simp add: l(1) e)
    obtain fs segs' st where loop: "recover_loop crc ?hv True [] (map ?fresh (map seg_first (wal_segments w)) @ [?fresh ?o]) (None, []) (wal_fs w)
      = (fs, segs', Inr st :: 'je wal_error + _)"
      by (rule recover_loop_cases [OF rec]) (simp add: segs)
    have "seg_path (?fresh ?o) \<notin> seg_path ` set (map ?fresh (map seg_first (wal_segments w)))"
      using o(1) chain_first [OF ch] by (auto simp: image_iff)
    from recover_loop_scans_last [OF loop this] obtain fs1 st1 ok where
      s: "scan_path crc (segment_name ?o) (recover_visit (segment_name ?o) ?o ?hv True) fs1 st1 = (Inr ok :: 'je wal_error + _)"
      "contents fs1 (segment_name ?o) = ?D (segment_name ?o)" by auto
    then have "scan_bytes crc (NotASegment (segment_name ?o)) (recover_visit (segment_name ?o) ?o ?hv True) d st1 =
      (Inr ok :: 'je wal_error + _)" using d(1) by (simp add: scan_path_contents)
    from orphan_scan [OF d(2) this] obtain z where "d = segment_bytes crc [] @ replicate z 0" by blast
    then have "chain crc ?D False n (map ?fresh (map seg_first (wal_segments w)) @ [?fresh ?o]) (rss @ [[]])"
      using chain_extra [OF fresh top o(2)] d(1) by simp
    then show ?thesis using segs by (intro exI [of _ "rss @ [[]]"]) simp
  qed
  then obtain rss' where c: "chain crc (contents (wal_fs ?w)) False n (wal_segments ?w) rss'" and cat: "concat rss' = concat rss"
    by auto
  from recover_chain [OF rec c] obtain fs segs cap act rcv poi where w':
    "w' = ?w\<lparr>wal_fs := fs, wal_segments := segs, wal_capacity := cap, wal_active := act, wal_recovered := rcv,
           wal_poison := poi\<rparr>"
    "same_names (wal_segments ?w) segs" "only_changes (seg_path ` set (wal_segments ?w)) (wal_fs ?w) fs"
    "chain crc (contents fs) True n segs rss' \<and> rcv \<and> poi = None \<and>
         rcv_tail r = (if True then above (wal_header_version ?w) (concat rss') else []) \<and>
         act = (if segs = [] then wal_active ?w else Some (seg_path (last segs)))" by auto
  have top': "wal_top n rss' = wal_top n rss" using cat by (simp add: wal_top_def)
  have dom: "dom (contents fs) = dom ?D" and wf: "fs_wf fs" using w'(3) good by (auto simp: only_changes_def wal_good_def)
  have hd_same: "contents fs header_name = ?D header_name"
    using w'(3) chain_path_not_header [OF c] by (simp add: only_changes_def)
  have paths: "seg_path ` set segs = segment_name ` set (map seg_first (wal_segments w) @ extra)"
  proof -
    have "seg_path ` set segs = seg_path ` set (list_segments (wal_fs w))" using w'(2) unfolding same_names_def
      by (metis image_set wal.simps(2) wal.update_convs(1,2,3,4,5,6) wal.select_convs(2) wal.surjective)
    then show ?thesis by (simp add: l(1) image_image del: map_append)
  qed
  have all: "name = segment_name m \<and> name \<in> seg_path ` set segs"
    if "name \<in> dom (contents fs)" "parse_segment_name name = Some m" for name m
  proof -
    have "name = segment_name m \<and> m \<in> set (map seg_first (wal_segments w) @ extra)" using l(3) that dom by blast
    then show ?thesis unfolding paths by blast
  qed
  have clean': "\<not> leftover w'"
  proof
    assume "leftover w'"
    then obtain name m where nm: "segs \<noteq> []" "name \<in> dom (contents fs)" "parse_segment_name name = Some m" "m < seg_first (hd segs)"
      by (auto simp: leftover_def w'(1))
    then obtain s where s: "s \<in> set segs" "name = seg_path s" using all by blast
    then have "m = seg_first s" using nm(3) chain_first [OF conjunct1 [OF w'(4)] s(1)] by auto
    moreover have "seg_first (hd segs) \<le> seg_first s"
      using chain_sorted [OF conjunct1 [OF w'(4)]] s(1) nm(1) by (cases segs) (auto intro: less_imp_le)
    ultimately show False using nm(4) by simp
  qed
  have good': "wal_good crc w' n rss'"
    using w' good wf all top' top unfolding wal_good_def by (auto simp: stray_ok_def)
  note rh = read_header_cong [OF hd_same] disk_header_cong [OF hd_same]
  have hdr': "header_good crc hdec vver vok w' n rss'"
    using hdr top' by (simp add: header_good_def Let_def w'(1) rh)
  show ?thesis using good' hdr' cat clean' r w'(1,4) by (intro exI [of _ rss']) (simp add: rh)
qed

section \<open>The contract\<close>

text \<open>
  What the store needs of serde_json: a header it wrote reads back as a view with the same
  version and observation. A header of 4 GiB would have its length truncated.
\<close>

definition header_codec_ok ::
    "(version \<times> 'v \<Rightarrow> 'je + bytes) \<Rightarrow> (bytes \<Rightarrow> 'je + version \<times> 'v) \<Rightarrow> ('v \<Rightarrow> version) \<Rightarrow> ('v \<Rightarrow> bool) \<Rightarrow>
     ('v \<Rightarrow> version \<times> json) \<Rightarrow> bool" where
  "header_codec_ok henc hdec vver vok obsv \<longleftrightarrow>
     (\<forall>v json. vok v \<and> henc (vver v, v) = Inr json \<longrightarrow> length json < 4294967296 \<and>
        (\<exists>v'. hdec json = Inr (vver v, v') \<and> vver v' = vver v \<and> vok v' \<and> obsv v' = obsv v))"

lemma swf_clean:
  assumes "wal_swf crc hdec vver vok w" "\<not> wal_tainted w"
  obtains n rss where "wal_good crc w n rss" "header_good crc hdec vver vok w n rss" "wal_poison w = None" "\<not> leftover w"
  using assms that unfolding wal_swf_def wal_tainted_def by blast

lemma good_header_consec:
  assumes "wal_good crc w n rss" "header_good crc hdec vver vok w n rss"
  shows "consec (disk_version crc hdec vver (wal_fs w)) (above (disk_version crc hdec vver (wal_fs w)) (concat rss)) \<and>
    disk_version crc hdec vver (wal_fs w) + length (above (disk_version crc hdec vver (wal_fs w)) (concat rss)) = wal_top n rss"
proof -
  let ?hv = "disk_version crc hdec vver (wal_fs w)"
  have c: "consec n (concat rss)" using assms(1) chain_consec by (auto simp: wal_good_def)
  have le: "n \<le> ?hv" "?hv \<le> n + length (concat rss)" using assms(2) by (auto simp: header_good_def Let_def wal_top_def)
  have d: "above ?hv (concat rss) = drop (?hv - n) (concat rss)" by (rule above_drop [OF c])
  have "consec (n + (?hv - n)) (drop (?hv - n) (concat rss))"
    using c le consec_append [of n "take (?hv - n) (concat rss)" "drop (?hv - n) (concat rss)"]
    by (simp add: min_absorb2 del: length_concat)
  then show ?thesis using le by (simp add: d wal_top_def del: length_concat)
qed

lemma hdr_version_disk:
  assumes "\<And>v. fst (obsv v) = vver v"
  shows "hdr_version obsv (disk_header crc hdec vver fs) = disk_version crc hdec vver fs"
  using assms by (simp add: hdr_version_def disk_version_def split: option.split)

lemma abs_top:
  assumes "\<And>v. fst (obsv v) = vver v" "wal_good crc w n rss" "header_good crc hdec vver vok w n rss"
  shows "top obsv (wal_abs crc hdec vver w) = wal_top n rss"
  using good_header_consec [OF assms(2,3)]
  by (simp add: top_def wal_abs_good [OF assms(2)] hdr_version_disk [OF assms(1)])

text \<open>The append law, for both outcomes.\<close>

lemma append_law:
  fixes w :: wal
  assumes s: "wal_swf crc hdec vver vok w" and rs: "rs \<noteq> []"
    and run: "wal_append crc w rs = (w', res :: 'je wal_error + unit)"
  shows "wal_swf crc hdec vver vok w' \<and> (wal_tainted w \<longrightarrow> wal_tainted w') \<and> leftover w' = leftover w \<and>
    (\<not> wal_tainted w' \<longrightarrow> wal_abs crc hdec vver w' =
       (fst (wal_abs crc hdec vver w), snd (wal_abs crc hdec vver w) @
          (case res of Inr _ \<Rightarrow> above (disk_version crc hdec vver (wal_fs w)) rs | Inl _ \<Rightarrow> [])))"
proof (cases "wal_poison w")
  case (Some p)
  then have "w' = w" using run rs by (cases p) (auto simp: wal_append_def)
  then show ?thesis using s Some by (auto simp: wal_tainted_def)
next
  case poi: None
  then obtain n rss where good: "wal_good crc w n rss" "\<not> leftover w \<longrightarrow> header_good crc hdec vver vok w n rss"
    using s by (auto simp: wal_swf_def)
  have "wal_segments w = [] \<longrightarrow> wal_header_version w = wal_top n rss"
  proof
    assume "wal_segments w = []"
    then have "rss = []" "\<not> leftover w" using good(1) by (auto simp: wal_good_def leftover_def)
    then show "wal_header_version w = wal_top n rss" using good(2) \<open>wal_segments w = []\<close>
      by (simp add: header_good_def Let_def wal_top_def)
  qed
  note a = wal_append_good [OF run good(1) poi rs this]
  then have quiet: "wal_quiet w w'" by blast
  have hdr: "header_good crc hdec vver vok w' n rss'" if "\<not> leftover w'" "wal_top n rss \<le> wal_top n rss'" for rss'
    using header_good_quiet [OF quiet _ that(2)] good(2) that(1) quiet by (auto simp: wal_quiet_def)
  have abs: "wal_abs crc hdec vver w' = (disk_header crc hdec vver (wal_fs w), above (disk_version crc hdec vver (wal_fs w)) (concat rss'))"
    if "wal_good crc w' n rss'" for rss' using wal_abs_good [OF that] quiet_header [OF quiet] by metis
  have taint: "wal_tainted w \<longrightarrow> wal_tainted w'" "leftover w' = leftover w"
    using quiet poi by (auto simp: wal_quiet_def wal_tainted_def)
  consider (poisoned) "wal_poison w' \<noteq> None" "\<exists>e. res = Inl e"
    | (same) rss' e where "res = Inl e" "wal_good crc w' n rss'" "concat rss' = concat rss" "wal_poison w' = None"
    | (more) rss' u where "res = Inr u" "wal_good crc w' n rss'" "concat rss' = concat rss @ rs" "wal_poison w' = None"
    using a by (cases res) auto
  then show ?thesis
  proof cases
    case poisoned
    then show ?thesis using taint(2) by (auto simp: wal_swf_def wal_tainted_def)
  next
    case same
    then have "wal_swf crc hdec vver vok w'" using hdr [of rss'] by (auto simp: wal_swf_def wal_top_def)
    then show ?thesis using taint abs [OF same(2)] wal_abs_good [OF good(1), of hdec vver] same by simp
  next
    case more
    then have "wal_swf crc hdec vver vok w'" using hdr [of rss'] by (auto simp: wal_swf_def wal_top_def)
    then show ?thesis using taint abs [OF more(2)] wal_abs_good [OF good(1), of hdec vver] more by (simp add: above_def)
  qed
qed

lemma reclaim_good:
  fixes w :: wal
  assumes run: "reclaim w = (w', res :: 'je wal_error + unit)" and good: "wal_good crc w n rss"
  shows "\<exists>n' rss'. wal_good crc w' n' rss' \<and> reclaimed (wal_header_version w) n rss n' rss' \<and>
    (leftover w \<longrightarrow> leftover w') \<and> (wal_segments w' = [] \<longrightarrow> wal_segments w = []) \<and>
    contents (wal_fs w') header_name = contents (wal_fs w) header_name \<and> wal_header_version w' = wal_header_version w"
proof -
  obtain fs segs r where loop: "reclaim_loop (wal_header_version w) (wal_segments w) False (wal_fs w) = (fs, segs, r :: 'je wal_error + bool)"
    by (cases "reclaim_loop (wal_header_version w) (wal_segments w) False (wal_fs w) :: fs \<times> segment list \<times> ('je wal_error + bool)")
  let ?w = "w\<lparr>wal_fs := fs, wal_segments := segs\<rparr>"
  from reclaim_loop_good [OF loop good] obtain n' rss' where g: "wal_good crc ?w n' rss'"
    "reclaimed (wal_header_version w) n rss n' rss'" "leftover w \<longrightarrow> leftover ?w" "segs = [] \<longrightarrow> wal_segments w = []"
    "contents fs header_name = contents (wal_fs w) header_name" by blast
  obtain fs2 r2 where sync: "fs_sync_dir fs = (fs2, r2)" by (cases "fs_sync_dir fs")
  note c = fs_sync_dir_contents [OF sync]
  have w': "w' = ?w \<or> w' = ?w\<lparr>wal_fs := fs2\<rparr>"
    using run loop sync by (cases r) (auto simp: reclaim_def wal_sync_dir_def wal_at_def Let_def split: if_splits)
  have "wal_good crc (?w\<lparr>wal_fs := fs2, wal_header_version := wal_header_version ?w\<rparr>) n' rss' \<and>
      leftover (?w\<lparr>wal_fs := fs2, wal_header_version := wal_header_version ?w\<rparr>) = leftover ?w"
    using c by (intro good_frame [OF g(1)]) simp_all
  then have g2: "wal_good crc (?w\<lparr>wal_fs := fs2\<rparr>) n' rss'" "leftover (?w\<lparr>wal_fs := fs2\<rparr>) = leftover ?w" by simp_all
  show ?thesis using w'
  proof
    assume "w' = ?w"
    then show ?thesis using g by (intro exI [of _ n'] exI [of _ rss']) simp
  next
    assume "w' = ?w\<lparr>wal_fs := fs2\<rparr>"
    then show ?thesis using g g2 c by (intro exI [of _ n'] exI [of _ rss']) simp
  qed
qed

lemma reclaim_poison: "reclaim w = (w', res) \<Longrightarrow> wal_poison w' = wal_poison w"
  by (auto simp: reclaim_def wal_sync_dir_def wal_at_def Let_def split: prod.splits sum.splits if_splits)

lemma write_header_poison:
  "wal_write_header crc henc vver w v = (w', res :: 'je wal_error + unit) \<Longrightarrow> wal_poison w' = wal_poison w"
  by (elim write_header_shape) (auto dest: reclaim_poison)

lemma above_top: "consec n rs \<Longrightarrow> n + length rs \<le> m \<Longrightarrow> above m rs = []"
  by (auto simp: above_def filter_empty_conv dest: consec_mem)

lemma header_law:
  fixes w :: wal and obsv :: "'v \<Rightarrow> version \<times> json"
  assumes s: "wal_swf crc hdec vver vok w" and v: "vok v" and obsv: "\<And>v. fst (obsv v) = vver v"
    and at_top: "wal_tainted w \<or> fst (obsv v) = top obsv (wal_abs crc hdec vver w)"
    and codec: "header_codec_ok henc hdec vver vok obsv"
    and run: "wal_write_header crc henc vver w v = (w', res :: 'je wal_error + unit)"
  shows "wal_swf crc hdec vver vok w' \<and> (wal_tainted w \<longrightarrow> wal_tainted w') \<and>
    (\<not> wal_tainted w' \<longrightarrow>
       checkpointed vok obsv v (wal_abs crc hdec vver w) (wal_abs crc hdec vver w') \<or>
       (\<exists>e. res = Inl e) \<and> wal_abs crc hdec vver w' = wal_abs crc hdec vver w)"
proof (cases "wal_poison w")
  case (Some p)
  then have "wal_poison w' \<noteq> None" using write_header_poison [OF run] by simp
  then show ?thesis by (simp add: wal_swf_def wal_tainted_def)
next
  case poi: None
  then obtain n rss where good: "wal_good crc w n rss" "\<not> leftover w \<longrightarrow> header_good crc hdec vver vok w n rss"
    using s by (auto simp: wal_swf_def)
  have poi': "wal_poison w' = None" using write_header_poison [OF run] poi by simp
  have top: "wal_top n rss < u64_max" and cons: "consec n (concat rss)" using good(1) chain_consec by (auto simp: wal_good_def)
  have ne: "header_name \<noteq> header_tmp" by (simp add: header_name_def header_tmp_def)
  have at: "vver v = wal_top n rss" if "\<not> leftover w"
  proof -
    have "\<not> wal_tainted w" using that poi by (simp add: wal_tainted_def)
    then show ?thesis using at_top abs_top [OF obsv good(1)] good(2) that obsv by simp
  qed
  \<comment> \<open>once the name is published, whatever store state it is published in\<close>
  have pub: "wal_swf crc hdec vver vok x \<and> (wal_tainted w \<longrightarrow> wal_tainted x) \<and>
      (\<not> wal_tainted x \<longrightarrow> checkpointed vok obsv v (wal_abs crc hdec vver w) (wal_abs crc hdec vver x))"
    if henc: "henc (vver v, v) = Inr json" and x: "wal_good crc x n' rss'" "wal_poison x = None" "leftover w \<longrightarrow> leftover x"
      and hd: "contents (wal_fs x) header_name = Some (header_bytes crc json)"
      and same: "wal_top n' rss' = wal_top n rss" "\<not> leftover w \<longrightarrow> n' \<le> wal_top n rss"
      and mem: "wal_header_version x = vver v \<or> wal_header_version x = wal_header_version w \<and> (wal_segments x = [] \<longrightarrow> wal_segments w = [])"
    for x json n' rss'
  proof -
    obtain v' where v': "length json < 4294967296" "hdec json = Inr (vver v, v')" "vver v' = vver v" "vok v'" "obsv v' = obsv v"
      using codec henc v by (auto simp: header_codec_ok_def)
    have read: "read_header crc hdec vver (wal_fs x) = Inr (Some (vver v, v'))"
      by (simp add: read_header_written [OF hd v'(1)] v'(2,3))
    note dv = disk_version_read [OF read]
    have taint: "wal_tainted w \<longrightarrow> wal_tainted x" using x(2,3) poi by (auto simp: wal_tainted_def)
    have hg: "header_good crc hdec vver vok x n' rss'" if "\<not> leftover x"
    proof -
      have nl: "\<not> leftover w" using that x(3) by blast
      have old: "header_good crc hdec vver vok w n rss" using good(2) nl by blast
      have m: "wal_header_version w \<le> wal_top n rss" "wal_segments w = [] \<longrightarrow> wal_header_version w = wal_top n rss"
        using old good(1) by (auto simp: header_good_def Let_def wal_good_def wal_top_def)
      show ?thesis using m mem at [OF nl] same nl v'(4) by (auto simp: header_good_def Let_def read dv)
    qed
    have "checkpointed vok obsv v (wal_abs crc hdec vver w) (wal_abs crc hdec vver x)" if "\<not> leftover x"
    proof -
      have nl: "\<not> leftover w" using that x(3) by blast
      have c': "consec n' (concat rss')" using x(1) chain_consec by (auto simp: wal_good_def)
      have "above (vver v) (concat rss') = []" using at [OF nl] same(1) by (intro above_top [OF c']) (simp add: wal_top_def)
      moreover have "above (vver v) (above (disk_version crc hdec vver (wal_fs w)) (concat rss)) = []"
        using above_top [OF cons, of "vver v"] at [OF nl] by (auto simp: above_def wal_top_def filter_empty_conv)
      ultimately show ?thesis using v'(4,5) obsv
        by (auto simp: checkpointed_def wal_abs_good [OF good(1)] wal_abs_good [OF x(1)] dv)
    qed
    then show ?thesis using taint hg x(1,2) by (auto simp: wal_swf_def wal_tainted_def)
  qed
  show ?thesis using run
  proof (cases rule: write_header_shape)
    case (failed fs e)
    have "wal_good crc (w\<lparr>wal_fs := fs, wal_header_version := wal_header_version w\<rparr>) n rss \<and>
      leftover (w\<lparr>wal_fs := fs, wal_header_version := wal_header_version w\<rparr>) = leftover w"
      using failed by (intro good_frame [OF good(1)]) simp_all
    then have g: "wal_good crc w' n rss" "leftover w' = leftover w" using failed(1) by simp_all
    have quiet: "wal_quiet w w'" using g(2) failed(4) [OF ne] by (simp add: wal_quiet_def failed(1))
    have "\<not> leftover w' \<longrightarrow> header_good crc hdec vver vok w' n rss"
      using good(2) g(2) by (auto intro: header_good_quiet [OF quiet])
    then have "wal_swf crc hdec vver vok w'" using g(1) by (auto simp: wal_swf_def)
    moreover have "wal_abs crc hdec vver w' = wal_abs crc hdec vver w"
      using wal_abs_good [OF g(1)] wal_abs_good [OF good(1)] quiet_header [OF quiet] by metis
    ultimately show ?thesis using g(2) poi poi' failed(2) by (auto simp: wal_tainted_def)
  next
    case (published fs json e)
    have "wal_good crc (w\<lparr>wal_fs := fs, wal_header_version := wal_header_version w\<rparr>) n rss \<and>
      leftover (w\<lparr>wal_fs := fs, wal_header_version := wal_header_version w\<rparr>) = leftover w"
      using published by (intro good_frame [OF good(1)]) simp_all
    then have g: "wal_good crc w' n rss" "leftover w' = leftover w" using published(1) by simp_all
    have hd: "contents (wal_fs w') header_name = Some (header_bytes crc json)" using published(1,5) by simp
    show ?thesis using pub [OF published(3) g(1) poi' _ hd refl] g(2) published(1) by (auto simp: wal_top_def)
  next
    case (reclaiming fs json)
    let ?w1 = "w\<lparr>wal_fs := fs, wal_header_version := vver v\<rparr>"
    have g1: "wal_good crc ?w1 n rss \<and> leftover ?w1 = leftover w"
      using reclaiming by (intro good_frame [OF good(1)]) simp_all
    from reclaim_good [OF reclaiming(2) conjunct1 [OF g1]] g1 obtain n' rss' where r:
      "wal_good crc w' n' rss'" "reclaimed (vver v) n rss n' rss'" "leftover w \<longrightarrow> leftover w'"
      "contents (wal_fs w') header_name = Some (header_bytes crc json)" "wal_header_version w' = vver v"
      using reclaiming(4) by auto
    have same: "wal_top n' rss' = wal_top n rss" using r(2) by (auto simp: reclaimed_def wal_top_def simp del: length_concat)
    have "\<not> leftover w \<longrightarrow> n' \<le> wal_top n rss" using r(2) at top by (auto simp: reclaimed_def wal_top_def)
    then show ?thesis using pub [OF reclaiming(1) r(1) poi' r(3,4) same] r(5) by auto
  qed
qed

lemma sync_law:
  assumes s: "wal_swf crc hdec vver vok w" and run: "wal_sync w = (w', res :: 'je wal_error + unit)"
  shows "wal_swf crc hdec vver vok w' \<and> (wal_tainted w \<longrightarrow> wal_tainted w') \<and>
    (\<not> wal_tainted w' \<longrightarrow> wal_abs crc hdec vver w' = wal_abs crc hdec vver w)"
proof -
  obtain fs where fs: "w' = w\<lparr>wal_fs := fs\<rparr>" "contents fs = contents (wal_fs w)" "fs_wf (wal_fs w) \<longrightarrow> fs_wf fs"
    by (rule wal_sync_shape [OF run])
  have left: "leftover w' = leftover w" by (simp add: leftover_def fs)
  have quiet: "wal_quiet w w'" by (simp add: wal_quiet_def left) (simp add: fs)
  have good: "wal_good crc w' n rss" if "wal_good crc w n rss" for n rss
  proof -
    have "wal_good crc (w\<lparr>wal_fs := fs, wal_header_version := wal_header_version w\<rparr>) n rss \<and>
      leftover (w\<lparr>wal_fs := fs, wal_header_version := wal_header_version w\<rparr>) = leftover w"
      using fs by (intro good_frame [OF that]) simp_all
    then show ?thesis by (simp add: fs(1))
  qed
  have hdr: "header_good crc hdec vver vok w' n rss" if "header_good crc hdec vver vok w n rss" for n rss
    by (rule header_good_quiet [OF quiet that order_refl])
  have "wal_swf crc hdec vver vok w'" 
  proof -
    have "wal_poison w' = wal_poison w" by (simp add: fs(1))
    then show ?thesis using s good hdr left unfolding wal_swf_def by metis
  qed
  moreover have "wal_tainted w' = wal_tainted w" by (simp add: wal_tainted_def left) (simp add: fs(1))
  moreover have "wal_abs crc hdec vver w' = wal_abs crc hdec vver w"
    using quiet_header [OF quiet, of crc hdec vver] by (simp add: wal_abs_def) (simp add: fs)
  ultimately show ?thesis by simp
qed

lemma wal_storage:
  fixes obsv :: "'v \<Rightarrow> version \<times> json" and henc :: "version \<times> 'v \<Rightarrow> 'je + bytes"
  assumes codec: "header_codec_ok henc hdec vver vok obsv" and obsv: "\<And>v. fst (obsv v) = vver v"
  shows "storage (wal_ops crc henc hdec vver) (wal_abs crc hdec vver) (wal_swf crc hdec vver vok) wal_tainted vok obsv"
proof
  fix s s' :: wal and rs :: "log_record list" and u :: unit and v :: 'v and e :: "'je wal_error"
    and res :: "'je wal_error + unit" and r :: "'v recovered"
  {
    assume s: "wal_swf crc hdec vver vok s" "\<not> wal_tainted s"
    obtain n rss where g: "wal_good crc s n rss" "header_good crc hdec vver vok s n rss" by (rule swf_clean [OF s])
    show "consec (hdr_version obsv (fst (wal_abs crc hdec vver s))) (snd (wal_abs crc hdec vver s)) \<and>
        (\<forall>v. fst (wal_abs crc hdec vver s) = Some v \<longrightarrow> vok v)"
      using good_header_consec [OF g] g(2)
      by (auto simp: wal_abs_good [OF g(1)] hdr_version_disk [OF obsv] header_good_def Let_def)
  next
    assume s: "wal_swf crc hdec vver vok s" and rs: "rs \<noteq> []"
      and nxt: "wal_tainted s \<or> consec (top obsv (wal_abs crc hdec vver s)) rs"
      and run: "s_append (wal_ops crc henc hdec vver) s rs = (s', Inr u)"
    have "wal_append crc s rs = (s', Inr u :: 'je wal_error + unit)" using run by (simp add: wal_ops_def)
    note a = append_law [OF s rs this]
    have "above (disk_version crc hdec vver (wal_fs s)) rs = rs" if clean: "\<not> wal_tainted s"
    proof -
      obtain n rss where g: "wal_good crc s n rss" "header_good crc hdec vver vok s n rss" by (rule swf_clean [OF s clean])
      have "consec (wal_top n rss) rs" using nxt clean abs_top [OF obsv g] by simp
      then show ?thesis by (rule above_all) (use g(2) in \<open>simp add: header_good_def Let_def\<close>)
    qed
    then show "wal_swf crc hdec vver vok s' \<and> (wal_tainted s \<longrightarrow> wal_tainted s') \<and>
        (\<not> wal_tainted s' \<longrightarrow> wal_abs crc hdec vver s' = (fst (wal_abs crc hdec vver s), snd (wal_abs crc hdec vver s) @ rs))"
      using a by auto
  next
    assume s: "wal_swf crc hdec vver vok s" and rs: "rs \<noteq> []"
      and run: "s_append (wal_ops crc henc hdec vver) s rs = (s', Inl e)"
    have "wal_append crc s rs = (s', Inl e)" using run by (simp add: wal_ops_def)
    from append_law [OF s rs this]
    show "wal_swf crc hdec vver vok s' \<and> (wal_tainted s \<longrightarrow> wal_tainted s') \<and>
        (\<not> wal_tainted s' \<longrightarrow> wal_abs crc hdec vver s' = wal_abs crc hdec vver s)" by simp
  next
    assume s: "wal_swf crc hdec vver vok s" and v: "vok v"
      and top: "wal_tainted s \<or> fst (obsv v) = top obsv (wal_abs crc hdec vver s)"
      and run: "s_write_header (wal_ops crc henc hdec vver) s v = (s', Inr u)"
    have "wal_write_header crc henc vver s v = (s', Inr u)" using run by (simp add: wal_ops_def)
    from header_law [OF s v obsv top codec this]
    show "wal_swf crc hdec vver vok s' \<and> (wal_tainted s \<longrightarrow> wal_tainted s') \<and>
        (\<not> wal_tainted s' \<longrightarrow> checkpointed vok obsv v (wal_abs crc hdec vver s) (wal_abs crc hdec vver s'))" by simp
  next
    assume s: "wal_swf crc hdec vver vok s" and v: "vok v"
      and top: "wal_tainted s \<or> fst (obsv v) = top obsv (wal_abs crc hdec vver s)"
      and run: "s_write_header (wal_ops crc henc hdec vver) s v = (s', Inl e)"
    have "wal_write_header crc henc vver s v = (s', Inl e)" using run by (simp add: wal_ops_def)
    from header_law [OF s v obsv top codec this]
    show "wal_swf crc hdec vver vok s' \<and> (wal_tainted s \<longrightarrow> wal_tainted s') \<and>
        (\<not> wal_tainted s' \<longrightarrow> wal_abs crc hdec vver s' = wal_abs crc hdec vver s \<or>
          checkpointed vok obsv v (wal_abs crc hdec vver s) (wal_abs crc hdec vver s'))" by blast
  next
    assume s: "wal_swf crc hdec vver vok s" and run: "s_sync (wal_ops crc henc hdec vver) s = (s', res)"
    have "wal_sync s = (s', res)" using run by (simp add: wal_ops_def)
    from sync_law [OF s this]
    show "wal_swf crc hdec vver vok s' \<and> (wal_tainted s \<longrightarrow> wal_tainted s') \<and>
        (\<not> wal_tainted s' \<longrightarrow> wal_abs crc hdec vver s' = wal_abs crc hdec vver s)" .
  next
    assume s: "wal_swf crc hdec vver vok s" "\<not> wal_tainted s"
      and run: "s_load (wal_ops crc henc hdec vver) s = (s', Inr r)"
    have load: "wal_load crc hdec vver s = (s', Inr r :: 'je wal_error + _)" using run by (simp add: wal_ops_def)
    obtain n rss where g: "wal_good crc s n rss" "header_good crc hdec vver vok s n rss" "\<not> leftover s" "wal_poison s = None"
      by (rule swf_clean [OF s])
    from wal_load_good [OF load g] obtain rss' where l: "wal_good crc s' n rss'" "header_good crc hdec vver vok s' n rss'"
      "concat rss' = concat rss" "\<not> leftover s'" "wal_poison s' = None"
      "disk_header crc hdec vver (wal_fs s') = disk_header crc hdec vver (wal_fs s)"
      "disk_version crc hdec vver (wal_fs s') = disk_version crc hdec vver (wal_fs s)"
      "rcv_header r = disk_header crc hdec vver (wal_fs s)"
      "rcv_tail r = above (disk_version crc hdec vver (wal_fs s)) (concat rss)" by blast
    have "above (disk_version crc hdec vver (wal_fs s)) (rcv_tail r) = rcv_tail r" by (simp add: l(9) above_def)
    moreover have "hdr_version obsv (rcv_header r) = disk_version crc hdec vver (wal_fs s)"
      by (simp add: l(8) hdr_version_disk [OF obsv])
    ultimately show "wal_swf crc hdec vver vok s' \<and> \<not> wal_tainted s' \<and> wal_abs crc hdec vver s' = wal_abs crc hdec vver s \<and>
        fst (wal_abs crc hdec vver s) = rcv_header r \<and>
        snd (wal_abs crc hdec vver s) = above (hdr_version obsv (rcv_header r)) (rcv_tail r)"
      using l g by (auto simp: wal_abs_good [OF l(1)] wal_abs_good [OF g(1)] wal_swf_def wal_tainted_def)
  }
qed

end
