(* ===== verification/WalRuns.thy ===== *)
theory WalRuns
  imports WalStorage
begin

text \<open>
  Concrete runs of the segment store: the witnesses of its properties, and three failures of
  rotation and reclaim that the code does not recover from.
\<close>

section \<open>Calls that are answered\<close>

lemma pwritev_all_no_faults:
  assumes "off \<le> length data" "[] \<notin> set bufs"
  shows "pwritev_all bufs off [] data = ([], write_at off (concat bufs) data, Inr ())"
  using assms
proof (induction "length bufs" arbitrary: bufs off data rule: less_induct)
  case less
  let ?chunk = "concat (take iov_max bufs)"
  show ?case
  proof (cases "bufs = []")
    case True
    then show ?thesis using less.prems by (subst pwritev_all.simps) (simp add: write_at_Nil)
  next
    case False
    have adv: "advance_slices (length (concat (take k xs))) xs = drop k xs" if "[] \<notin> set xs" for k and xs :: "bytes list"
      using that
    proof (induction xs arbitrary: k)
      case (Cons b bs)
      show ?case
      proof (cases k)
        case 0
        then show ?thesis using Cons.prems by (cases b) auto
      qed (use Cons in auto)
    qed simp
    have "take iov_max bufs \<noteq> []" using False by (simp add: iov_max_def)
    moreover have "hd (take iov_max bufs) \<noteq> []" using less.prems(2) False by (cases bufs) (auto simp: iov_max_def)
    ultimately have ne: "?chunk \<noteq> []" by (cases "take iov_max bufs") auto
    let ?data = "write_at off ?chunk data"
    have "pwritev_all bufs off [] data = pwritev_all (drop iov_max bufs) (off + length ?chunk) [] ?data"
      using False ne adv [OF less.prems(2), of iov_max]
      by (subst pwritev_all.simps) (simp add: pwritev_call_def Let_def del: length_concat concat_eq_Nil_conv)
    also have "\<dots> = ([], write_at (off + length ?chunk) (concat (drop iov_max bufs)) ?data, Inr ())"
    proof (rule less.hyps)
      show "length (drop iov_max bufs) < length bufs" using False by (simp add: iov_max_def)
      show "[] \<notin> set (drop iov_max bufs)" using less.prems(2) in_set_dropD by metis
    qed simp
    also have "write_at (off + length ?chunk) (concat (drop iov_max bufs)) ?data = write_at off (concat bufs) data"
      using write_at_append [OF less.prems(1), of ?chunk] by (metis append_take_drop_id concat_append)
    finally show ?thesis .
  qed
qed

lemma preallocate_no_faults: "preallocate len [] data = ([], if length data < len then resize len data else data, Inr ())"
  by (simp add: preallocate_def)

section \<open>The first append\<close>

definition run_crc :: crc where "run_crc _ = 7"

definition run_fs :: "(string, disk_file) btree_map \<Rightarrow> fault list \<Rightarrow> fs" where
  "run_fs files faults = \<lparr>fs_files = files, fs_faults = faults, fs_locked = True\<rparr>"

definition run_store :: "fault list \<Rightarrow> wal" where
  "run_store faults = \<lparr>wal_fs = run_fs [] faults, wal_segments = [], wal_active = None, wal_capacity = 0,
     wal_header_version = 0, wal_rotate_bytes = 32, wal_recovered = False, wal_poison = None\<rparr>"

definition run_record :: "version \<Rightarrow> log_record" where
  "run_record n = \<lparr>rec_version = n, rec_patch = [1]\<rparr>"

definition run_file :: "log_record list \<Rightarrow> log_record list \<Rightarrow> nat \<Rightarrow> disk_file" where
  "run_file durable rs z = \<lparr>f_data = segment_bytes run_crc rs @ replicate z 0, f_stable = segment_bytes run_crc durable @ replicate 16 0\<rparr>"

text \<open>The store after record 1 went into a segment of two times 32 bytes.\<close>

definition run_seg :: "version \<Rightarrow> segment" where
  "run_seg n = \<lparr>seg_first = n, seg_path = segment_name n, seg_end = 33, seg_last = n\<rparr>"

definition run_store1 :: "fault list \<Rightarrow> wal" where
  "run_store1 faults = \<lparr>wal_fs = run_fs [(segment_name 1, run_file [] [run_record 1] 31)] faults,
     wal_segments = [run_seg 1], wal_active = Some (segment_name 1), wal_capacity = 64,
     wal_header_version = 0, wal_rotate_bytes = 32, wal_recovered = True, wal_poison = None\<rparr>"

lemma run_numbers:
  "u64_wrapping_add 0 1 = 1" "u64_wrapping_add 1 1 = 2" "u64_checked_add 1 1 = Some 2" "u64_checked_add 2 1 = Some 3"
  "u64_wrapping_sub 1 1 = 0" "u64_wrapping_sub 2 1 = 1"
  by (simp_all add: u64_wrapping_add_def u64_checked_add_def u64_wrapping_sub_def u64_max_def)

lemma run_ensure: "ensure_recovered crc (run_store fl) = ((run_store fl)\<lparr>wal_recovered := True\<rparr>, Inr () :: 'je wal_error + unit)"
  by (simp add: ensure_recovered_def recover_def run_store_def reopen_last_def sbind_def Let_def)

lemma run_next: "next_version ((run_store fl)\<lparr>wal_recovered := True\<rparr>) = 1"
  using run_numbers(1) by (simp add: next_version_def run_store_def)

lemma run_check: "check_records 1 [run_record 1] = (Inr () :: 'je wal_error + unit)"
  "check_records 2 [run_record 2] = (Inr () :: 'je wal_error + unit)"
  using run_numbers by (simp_all add: run_record_def max_payload_def)

lemma run_prologue: "segment_bytes crc [] = segment_prologue"
  by (simp add: segment_bytes_def)

lemma run_bytes:
  "resize 32 [] = replicate 32 0"
  "write_at 0 segment_prologue (replicate 32 0) = segment_prologue @ replicate 16 0"
  "[] \<noteq> segment_prologue"
  by (simp_all add: resize_def write_at_def seg_prologue_def segment_prologue_def seg_magic_def)

lemmas run_calls = sbind_def wal_at_def fs_open_rw_def run_fs_def bt_get_def empty_file_def fs_write_def
  preallocate_no_faults pwritev_all_no_faults fs_fsync_def fs_fdatasync_def fs_flush_def wal_sync_dir_def fs_sync_dir_def
  run_bytes run_numbers

lemma run_rotate1:
  "rotate 1 ((run_store [])\<lparr>wal_recovered := True\<rparr>) =
     ((run_store [])\<lparr>wal_recovered := True, wal_capacity := 32, wal_active := Some (segment_name 1),
        wal_segments := [\<lparr>seg_first = 1, seg_path = segment_name 1, seg_end = 16, seg_last = 0\<rparr>],
        wal_fs := run_fs [(segment_name 1, run_file [] [] 16)] []\<rparr>, Inr () :: 'je wal_error + unit)"
proof -
  have sub: "u64_wrapping_sub (Suc 0) (Suc 0) = 0" using run_numbers by simp
  show ?thesis
    by (simp add: rotate_def close_active_def new_segment_def run_store_def Let_def run_calls run_file_def run_prologue
        seg_prologue_def sub)
qed

lemma run_names: "segment_name 1 \<noteq> segment_name 2" "segment_name 1 \<noteq> segment_name 3" "segment_name 2 \<noteq> segment_name 3"
  "segment_name 1 \<noteq> header_name" "segment_name 2 \<noteq> header_name" "segment_name 3 \<noteq> header_name"
  "segment_name 1 \<noteq> header_tmp" "header_name \<noteq> header_tmp"
proof -
  have small: "(1::nat) \<le> u64_max" "(2::nat) \<le> u64_max" "(3::nat) \<le> u64_max" by (simp_all add: u64_max_def)
  note s = segment_name_inject [OF small(1) small(2)] segment_name_inject [OF small(1) small(3)] segment_name_inject [OF small(2) small(3)]
  show "segment_name 1 \<noteq> segment_name 2" "segment_name 1 \<noteq> segment_name 3" "segment_name 2 \<noteq> segment_name 3" using s by simp_all
  show "segment_name 1 \<noteq> header_name" "segment_name 2 \<noteq> header_name" "segment_name 3 \<noteq> header_name"
    "segment_name 1 \<noteq> header_tmp" using small by (simp_all del: One_nat_def)
  show "header_name \<noteq> header_tmp" by (simp add: header_name_def header_tmp_def)
qed

lemma run_parse: "parse_segment_name (segment_name 1) = Some 1" "parse_segment_name (segment_name 2) = Some 2"
  "parse_segment_name (segment_name 3) = Some 3"
  by (rule segment_name_parses; simp add: u64_max_def)+

lemma run_storable: "storable (run_record 1)" "storable (run_record 2)" "storable (run_record 3)"
  by (simp_all add: storable_def run_record_def max_payload_def u64_max_def)

lemma run_batch:
  "batch_len [run_record n] = 17" "record_bufs run_crc [run_record n] = [record_prefix run_crc n [1], [1]]"
  "record_prefix run_crc n [1] \<noteq> []" "[] \<noteq> record_prefix run_crc n [1]"
  "segment_bytes run_crc [run_record n] = segment_prologue @ record_prefix run_crc n [1] @ [1]"
  "rec_version (run_record n) = n"
proof -
  have "length (record_prefix run_crc n [1]) = 16" by (simp add: rec_prefix_def)
  then have "record_prefix run_crc n [1] \<noteq> []" by (metis list.size(3) zero_neq_numeral)
  then show "record_prefix run_crc n [1] \<noteq> []" "[] \<noteq> record_prefix run_crc n [1]" by simp_all
qed (simp_all add: batch_len_def rec_prefix_def run_record_def record_bufs_def segment_bytes_def encode_record_def)

lemma run_write:
  "resize 64 (segment_prologue @ replicate 16 0) = segment_prologue @ replicate 48 0"
  "write_at 16 (record_prefix run_crc n [1] @ [1]) (segment_prologue @ replicate 48 0) =
     segment_prologue @ record_prefix run_crc n [1] @ [1] @ replicate 31 0"
  "next_multiple_of 33 32 = 64"
proof -
  have len: "length (record_prefix run_crc n [1]) = 16" "length segment_prologue = 16"
    by (simp_all add: rec_prefix_def seg_prologue_def)
  show "resize 64 (segment_prologue @ replicate 16 0) = segment_prologue @ replicate 48 0"
    using len by (simp add: resize_def flip: replicate_add)
  show "write_at 16 (record_prefix run_crc n [1] @ [1]) (segment_prologue @ replicate 48 0) =
     segment_prologue @ record_prefix run_crc n [1] @ [1] @ replicate 31 0" using len by (simp add: write_at_def)
qed (simp add: next_multiple_of_def)

lemma run_append1: "wal_append run_crc (run_store []) [run_record 1] = (run_store1 [], Inr () :: 'je wal_error + unit)"
proof -
  let ?w = "(run_store [])\<lparr>wal_recovered := True, wal_capacity := 32, wal_active := Some (segment_name 1),
        wal_segments := [\<lparr>seg_first = 1, seg_path = segment_name 1, seg_end = 16, seg_last = 0\<rparr>],
        wal_fs := run_fs [(segment_name 1, run_file [] [] 16)] []\<rparr>"
  have len: "length (record_prefix run_crc (Suc 0) [1]) = 16" "length segment_prologue = 16"
    by (simp_all add: rec_prefix_def seg_prologue_def)
  have "write_batch run_crc [run_record 1] ?w = (run_store1 [], Inr () :: 'je wal_error + unit)"
    using run_batch [of "Suc 0"] run_write(1,3) run_write(2) [of "Suc 0"]
    by (simp add: write_batch_def run_store_def run_store1_def Let_def run_calls run_file_def run_prologue run_seg_def len seg_prologue_def)
  moreover have "wal_poison (run_store []) = None" "wal_segments (run_store []) = []" by (simp_all add: run_store_def)
  ultimately show ?thesis
    by (simp add: wal_append_def run_ensure run_next run_check run_rotate1 run_batch sbind_def Let_def
        del: One_nat_def check_records.simps)
qed

section \<open>Rotation and reclaim that fail half way\<close>

text \<open>
  A rotation that fails to reserve space makes the log unopenable. The disk is full when the
  first segment is created: the append reports it, but the empty file stays, and the next start
  over the same directory, with every call answered, refuses it as not a segment.
\<close>

theorem full_disk_blocks_reopening:
  "\<exists>w1 w2. wal_append run_crc (run_store [FOk, FErr 28]) [run_record 1] =
       (w1, Inl (Io (segment_name 1) (Os 28)) :: 'je wal_error + unit) \<and>
     fs_faults (wal_fs w1) = [] \<and>
     wal_load run_crc hdec vver w1 = (w2, Inl (NotASegment (segment_name 1)) :: 'je wal_error + 'v recovered)"
proof -
  let ?w1 = "(run_store [])\<lparr>wal_recovered := True, wal_fs := run_fs [(segment_name 1, empty_file)] []\<rparr>"
  have rot: "rotate 1 ((run_store [FOk, FErr 28])\<lparr>wal_recovered := True\<rparr>) = (?w1, Inl (Io (segment_name 1) (Os 28)) :: 'je wal_error + unit)"
    by (simp add: rotate_def close_active_def new_segment_def run_store_def Let_def run_calls preallocate_def
        eopnotsupp_def enosys_def eintr_def)
  have st: "wal_poison (run_store fl) = None" "wal_segments (run_store fl) = []" for fl by (simp_all add: run_store_def)
  have 1: "wal_append run_crc (run_store [FOk, FErr 28]) [run_record 1] = (?w1, Inl (Io (segment_name 1) (Os 28)) :: 'je wal_error + unit)"
    by (simp add: wal_append_def run_ensure run_next run_check rot st run_batch sbind_def Let_def
        del: One_nat_def check_records.simps)
  have ls: "list_segments (wal_fs ?w1) = [\<lparr>seg_first = 1, seg_path = segment_name 1, seg_end = 0, seg_last = 0\<rparr>]"
    using run_parse(1) by (simp add: list_segments_def run_fs_def List.map_filter_def listed_segment_def)
  have "read_header run_crc hdec vver (wal_fs ?w1) = (Inr None :: 'je wal_error + (nat \<times> 'v) option)"
    using run_names(4) [THEN not_sym] by (simp add: read_header_def run_fs_def bt_get_def)
  moreover have "scan_path run_crc (segment_name 1) visit (wal_fs ?w1) st = (Inl (NotASegment (segment_name 1)) :: 'je wal_error + scan \<times> version option \<times> log_record list)"
    for visit st
    by (simp add: scan_path_def run_fs_def bt_get_def empty_file_def scan_bytes_def seg_prologue_def)
  ultimately have "\<exists>w2. wal_load run_crc hdec vver ?w1 = (w2, Inl (NotASegment (segment_name 1)) :: 'je wal_error + 'v recovered)"
    using ls by (simp add: wal_load_def recover_def sbind_def Let_def)
  moreover have "fs_faults (wal_fs ?w1) = []" by (simp add: run_fs_def)
  ultimately show ?thesis using 1 by blast
qed

text \<open>
  A rotation that fails and is retried loses a flush. The old segment, whose record was
  never flushed, cannot be cut to its length; the append fails, and because the handle is
  already gone the retry succeeds without flushing it. A \<open>sync\<close> that then reports success leaves
  that record out of what has reached the disk.
\<close>

theorem retried_rotation_loses_the_flush:
  "wal_append run_crc (run_store []) [run_record 1] = (run_store1 [], Inr () :: 'je wal_error + unit) \<and>
   (\<exists>w1 w2 w3 f. wal_append run_crc (run_store1 [FErr 5]) [run_record 2] = (w1, Inl (Io (segment_name 1) (Os 5)) :: 'je wal_error + unit) \<and>
     wal_append run_crc w1 [run_record 2] = (w2, Inr () :: 'je wal_error + unit) \<and>
     wal_sync w2 = (w3, Inr () :: 'je wal_error + unit) \<and>
     bt_get (fs_files (wal_fs w3)) (segment_name 1) = Some f \<and>
     seg_records run_crc (f_data f) = [run_record 1] \<and> seg_records run_crc (f_stable f) = [])"
proof -
  have num: "u64_wrapping_add (Suc 0) (Suc 0) = 2" using run_numbers by simp
  have len: "length (record_prefix run_crc n [1]) = 16" "length segment_prologue = 16" for n
    by (simp_all add: rec_prefix_def seg_prologue_def)
  have ens: "wal_recovered w \<Longrightarrow> ensure_recovered run_crc w = (w, Inr () :: 'je wal_error + unit)" for w
    by (simp add: ensure_recovered_def)
  define files where "files = [(segment_name 1, run_file [] [run_record 1] 31)]"
  let ?w1 = "(run_store1 [])\<lparr>wal_active := None\<rparr>"
  let ?w1' = "?w1\<lparr>wal_capacity := 32, wal_active := Some (segment_name 2),
    wal_segments := [run_seg 1, \<lparr>seg_first = 2, seg_path = segment_name 2, seg_end = 16, seg_last = 1\<rparr>],
    wal_fs := run_fs (bt_insert (segment_name 2) (run_file [] [] 16) files) []\<rparr>"
  let ?w2 = "?w1'\<lparr>wal_capacity := 64, wal_segments := [run_seg 1, run_seg 2],
    wal_fs := run_fs (bt_insert (segment_name 2) (run_file [] [run_record 2] 31) files) []\<rparr>"
  have s1: "wal_recovered (run_store1 fl)" "wal_poison (run_store1 fl) = None" "wal_segments (run_store1 fl) = [run_seg 1]"
    "wal_rotate_bytes (run_store1 fl) = 32" "wal_active (run_store1 fl) = Some (segment_name 1)"
    "wal_fs (run_store1 fl) = run_fs files fl" "seg_end (run_seg n) = 33" "seg_last (run_seg n) = n" for fl n
    by (simp_all add: run_store1_def run_seg_def files_def)
  have a1: "wal_append run_crc (run_store1 [FErr 5]) [run_record 2] = (?w1, Inl (Io (segment_name 1) (Os 5)) :: 'je wal_error + unit)"
  proof -
    have "rotate 2 (run_store1 [FErr 5]) = (?w1, Inl (Io (segment_name 1) (Os 5)) :: 'je wal_error + unit)"
      by (simp add: rotate_def close_active_def run_store1_def run_seg_def Let_def fs_set_len_def run_calls eintr_def)
    moreover have "next_version (run_store1 [FErr 5]) = 2" using num by (simp add: next_version_def s1)
    ultimately show ?thesis
      by (simp add: wal_append_def ens s1 run_check run_batch sbind_def Let_def del: check_records.simps)
  qed
  have bt: "bt_insert (segment_name 2) a (bt_insert (segment_name 2) b files) = bt_insert (segment_name 2) a files" for a b
    using run_names(1) by (auto simp: files_def simp del: One_nat_def)
  have get: "bt_get files (segment_name 2) = None" "bt_get files (segment_name 1) = Some (run_file [] [run_record 1] 31)"
    using run_names(1) by (simp_all add: bt_get_def files_def del: One_nat_def)
  note calls = sbind_def wal_at_def fs_open_rw_def run_fs_def empty_file_def fs_write_def
    preallocate_no_faults pwritev_all_no_faults fs_fsync_def fs_fdatasync_def fs_flush_def wal_sync_dir_def fs_sync_dir_def
    run_bytes run_numbers Let_def bt get s1
  have a2: "wal_append run_crc ?w1 [run_record 2] = (?w2, Inr () :: 'je wal_error + unit)"
  proof -
    have sub: "u64_wrapping_sub 2 (Suc 0) = Suc 0" using run_numbers(6) by simp
    have rot: "rotate 2 ?w1 = (?w1', Inr () :: 'je wal_error + unit)"
      by (simp add: rotate_def close_active_def new_segment_def calls run_file_def run_prologue seg_prologue_def sub)
    have wb: "write_batch run_crc [run_record 2] ?w1' = (?w2, Inr () :: 'je wal_error + unit)"
      using run_batch [of 2] run_write(1,3) run_write(2) [of 2]
      by (simp add: write_batch_def calls run_file_def run_prologue run_seg_def len seg_prologue_def)
    have "next_version ?w1 = 2" using num by (simp add: next_version_def s1)
    then show ?thesis using rot wb
      by (simp add: wal_append_def ens s1 run_check run_batch sbind_def Let_def del: check_records.simps)
  qed
  let ?f = "run_file [] [run_record 1] 31"
  have a3: "\<exists>w3. wal_sync ?w2 = (w3, Inr () :: 'je wal_error + unit) \<and> bt_get (fs_files (wal_fs w3)) (segment_name 1) = Some ?f"
    using run_names(1) by (simp add: wal_sync_def calls get(2) [unfolded One_nat_def])
  have "seg_records run_crc (f_data ?f) = [run_record 1]" "seg_records run_crc (f_stable ?f) = []"
    using run_storable by (simp_all add: run_file_def seg_records_segment)
  then show ?thesis using run_append1 a1 a2 a3 by blast
qed

text \<open>Three closed segments below a checkpoint at version 3.\<close>

definition run_exact :: "version \<Rightarrow> disk_file" where
  "run_exact n = \<lparr>f_data = segment_bytes run_crc [run_record n], f_stable = segment_bytes run_crc [run_record n]\<rparr>"

definition run_header :: disk_file where
  "run_header = \<lparr>f_data = header_bytes run_crc [3], f_stable = header_bytes run_crc [3]\<rparr>"

definition run_store3 :: "fault list \<Rightarrow> wal" where
  "run_store3 faults = \<lparr>wal_fs = run_fs [(segment_name 1, run_exact 1), (segment_name 2, run_exact 2),
       (segment_name 3, run_exact 3), (header_name, run_header)] faults,
     wal_segments = [run_seg 1, run_seg 2, run_seg 3], wal_active = None, wal_capacity = 64,
     wal_header_version = 3, wal_rotate_bytes = 32, wal_recovered = True, wal_poison = None\<rparr>"

definition run_hdec :: "bytes \<Rightarrow> unit + version \<times> version" where
  "run_hdec bs = (if bs = [3] then Inr (3, 3) else Inl ())"

text \<open>
  A reclaim that cannot remove a file forgets it. The segment leaves the list before its
  file is removed, so when the removal fails the next reclaim goes on with the segment after
  it; what is left on disk has a hole, and the next start refuses the log although everything
  above the checkpoint is there.
\<close>

theorem failed_unlink_leaves_a_gap:
  "\<exists>w1 w2 w3. reclaim (run_store3 [FErr 5]) = (w1, Inl (Io (segment_name 1) (Os 5)) :: unit wal_error + unit) \<and>
     reclaim w1 = (w2, Inr () :: unit wal_error + unit) \<and>
     wal_load run_crc run_hdec (\<lambda>v. v) w2 = (w3, Inl (Gap (segment_name 3) 2 3))"
proof -
  note names = run_names run_names [THEN not_sym] run_names [unfolded One_nat_def] run_names [unfolded One_nat_def, THEN not_sym]
  have num: "u64_wrapping_add 3 (Suc 0) = 4" "u64_wrapping_add (Suc 0) (Suc 0) = 2"
    by (simp_all add: u64_wrapping_add_def)
  let ?w1 = "(run_store3 [])\<lparr>wal_segments := [run_seg 2, run_seg 3]\<rparr>"
  let ?files = "[(segment_name 1, run_exact 1), (segment_name 3, run_exact 3), (header_name, run_header)]"
  let ?w2 = "(run_store3 [])\<lparr>wal_segments := [run_seg 3], wal_fs := run_fs ?files []\<rparr>"
  have r1: "reclaim (run_store3 [FErr 5]) = (?w1, Inl (Io (segment_name 1) (Os 5)) :: unit wal_error + unit)"
    by (simp add: reclaim_def run_store3_def run_seg_def num fs_unlink_def run_fs_def)
  have r2: "reclaim ?w1 = (?w2, Inr () :: unit wal_error + unit)"
    by (simp add: reclaim_def run_store3_def run_seg_def num fs_unlink_def run_fs_def bt_get_def bt_remove_def names
        Let_def wal_sync_dir_def wal_at_def fs_sync_dir_def)
  let ?fs = "run_fs ?files []"
  let ?fresh = "\<lambda>n. \<lparr>seg_first = n, seg_path = segment_name n, seg_end = 0, seg_last = n - 1\<rparr>"
  have ls: "list_segments ?fs = [?fresh 1, ?fresh 3]"
    using run_parse run_parse [unfolded One_nat_def]
    by (simp add: list_segments_def run_fs_def List.map_filter_def listed_segment_def)
  have cont: "contents ?fs header_name = Some (header_bytes run_crc [3])"
    "contents ?fs (segment_name 1) = Some (segment_bytes run_crc [run_record 1] @ replicate 0 0)"
    "contents ?fs (segment_name 3) = Some (segment_bytes run_crc [run_record 3] @ [])"
    using names by (simp_all add: contents_def run_fs_def bt_get_def run_exact_def run_header_def)
  have rh: "read_header run_crc run_hdec (\<lambda>v. v) ?fs = (Inr (Some (3, 3)) :: unit wal_error + _)"
    by (subst read_header_written [OF cont(1)]) (simp_all add: run_hdec_def)
  have seg1: "seg_ok run_crc (contents ?fs) False 0 (?fresh 1) [run_record 1]"
    using cont(2) run_storable(1) by (auto simp: seg_ok_def consec_Cons run_record_def u64_max_def)
  have scan1: "scan_path run_crc (segment_name 1) (recover_visit (segment_name 1) 1 3 True) ?fs (None, []) =
      (Inr (\<lparr>scan_end = length (segment_bytes run_crc [run_record 1]), scan_file_len = length (segment_bytes run_crc [run_record 1]),
        scan_torn = False\<rparr>, Some 2, []) :: unit wal_error + _)"
  proof -
    obtain z where z: "contents ?fs (seg_path (?fresh 1)) = Some (segment_bytes run_crc [run_record 1] @ replicate z 0)"
      "scan_path run_crc (seg_path (?fresh 1)) (recover_visit (seg_path (?fresh 1)) (seg_first (?fresh 1)) 3 True) ?fs (None, []) =
       (Inr (\<lparr>scan_end = length (segment_bytes run_crc [run_record 1]), scan_file_len = length (segment_bytes run_crc [run_record 1]) + z,
             scan_torn = (0 < z \<and> z < rec_prefix)\<rparr>,
            if [run_record 1] = [] then None else Some (Suc (0 + length [run_record 1])),
            [] @ (if True then above 3 [run_record 1] else [])) :: unit wal_error + _)"
      by (rule scan_seg_ok [OF seg1 disjI1 [OF refl [of None]], where hv = 3 and collect = True and tail = "[]"]) blast
    have "z = 0" using z(1) cont(2) by simp
    then show ?thesis using z(2) by (simp add: above_def run_record_def numeral_2_eq_2)
  qed
  have "visit_records (recover_visit (segment_name 3) 3 3 True) [run_record 3] seg_prologue (Some 2, []) =
      (Inl (Gap (segment_name 3) 2 3) :: unit wal_error + _)"
    by (simp add: recover_visit_def run_record_def)
  moreover have "\<forall>r \<in> set [run_record 3]. storable r" using run_storable(3) by simp
  ultimately have scan3: "scan_path run_crc (segment_name 3) (recover_visit (segment_name 3) 3 3 True) ?fs (Some 2, []) =
      (Inl (Gap (segment_name 3) 2 3) :: unit wal_error + _)"
    unfolding scan_path_contents cont(3) option.case by (subst scan_segment) simp_all
  have "recover_loop run_crc 3 True [] [?fresh 1, ?fresh 3] (None, []) ?fs =
      (?fs, [(?fresh 1)\<lparr>seg_end := length (segment_bytes run_crc [run_record 1]), seg_last := u64_wrapping_sub 2 1\<rparr>, ?fresh 3],
       Inl (Gap (segment_name 3) 2 3) :: unit wal_error + _)"
    using scan1 scan3 by (simp add: Let_def)
  then have "\<exists>w3. wal_load run_crc run_hdec (\<lambda>v. v) ?w2 = (w3, Inl (Gap (segment_name 3) 2 3))"
    using ls rh by (simp add: wal_load_def recover_def sbind_def Let_def)
  then show ?thesis using r1 r2 by blast
qed

end
