(* ===== verification/WalProps.thy ===== *)
theory WalProps
  imports WalRuns ServerStorage
begin

text \<open>
  A document log over the segment store, through restarts: what it acknowledged is what the
  next process finds on the files. And what a flush makes of one segment when the power goes.
\<close>

section \<open>Sessions\<close>

lemma wal_durable_log:
  assumes "header_codec_ok henc hdec snap_version snapshot_wf (obs (cavlc_ops own))"
  shows "durable_log (cavlc_ops own) cavlc_wf snapshot_wf patch_wf patch_eq (wal_ops crc henc hdec snap_version)
    (wal_abs crc hdec snap_version) (wal_swf crc hdec snap_version snapshot_wf) wal_tainted"
  by (intro durable_log.intro cavlc_red.reducible_axioms wal_storage assms) (simp add: obs_def)

text \<open>
  The logs a data directory can be open with: created in an empty directory, used, and
  opened again by a later process on the files the last one left. Every system call may be
  interrupted, cut short or refused.
\<close>

definition reopened :: "fs \<Rightarrow> fault list \<Rightarrow> fs" where
  "reopened fs faults = fs\<lparr>fs_faults := faults, fs_locked := False\<rparr>"

definition no_files :: fs where
  "no_files = \<lparr>fs_files = [], fs_faults = [], fs_locked = False\<rparr>"

inductive wal_running ::
    "crc \<Rightarrow> (version \<times> snapshot \<Rightarrow> 'je + bytes) \<Rightarrow> (bytes \<Rightarrow> 'je + version \<times> snapshot) \<Rightarrow>
     (patch \<Rightarrow> 'je + bytes) \<Rightarrow> (bytes \<Rightarrow> 'je + patch) \<Rightarrow> (patch \<Rightarrow> bool) \<Rightarrow> nat \<Rightarrow> (store, wal) lug_log \<Rightarrow> bool"
  for crc henc hdec enc dec used own where
  created: "wal_open_with crc hdec snap_version rotate_bytes (reopened no_files faults) = (fs', Inr w) \<Longrightarrow>
    log_open (cavlc_ops own) (wal_ops crc henc hdec snap_version) dec (store_new own) w = Inr l \<Longrightarrow>
    wal_running crc henc hdec enc dec used own l"
| stepped: "wal_running crc henc hdec enc dec used own l \<Longrightarrow> log_op_ok (\<lambda>p. patch_wf p \<and> used p) op \<Longrightarrow>
    wal_running crc henc hdec enc dec used own
      (log_step (cavlc_ops own) (wal_ops crc henc hdec snap_version) enc op l)"
| restarted: "wal_running crc henc hdec enc dec used own l \<Longrightarrow> \<not> wal_tainted (log_storage l) \<Longrightarrow>
    wal_open_with crc hdec snap_version rotate_bytes (reopened (wal_fs (log_storage l)) faults) = (fs', Inr w) \<Longrightarrow>
    log_open (cavlc_ops own) (wal_ops crc henc hdec snap_version) dec (store_new own) w = Inr l' \<Longrightarrow>
    wal_running crc henc hdec enc dec used own l'"

text \<open>Loading looks at the files only, so a fresh store loads what the old one would.\<close>

lemma open_with_shape:
  assumes "wal_open_with crc hdec vver rb fs = (fs', Inr w :: 'je wal_error + wal)"
  shows "contents (wal_fs w) = contents fs \<and> (fs_wf fs \<longrightarrow> fs_wf (wal_fs w)) \<and> seg_prologue + rec_prefix \<le> wal_rotate_bytes w \<and>
    wal_segments w = list_segments (wal_fs w) \<and> wal_active w = None \<and> \<not> wal_recovered w \<and> wal_poison w = None \<and>
    (\<exists>h. read_header crc hdec vver (wal_fs w) = (Inr h :: 'je wal_error + _) \<and>
       wal_header_version w = (case h of None \<Rightarrow> 0 | Some (v, _) \<Rightarrow> v))"
  using assms
  by (auto simp: wal_open_with_def try_lock_dir_def contents_def fs_wf_def Let_def
      split: prod.splits sum.splits if_splits)

lemma reopen_last_other:
  "\<exists>c'. reopen_last (w\<lparr>wal_capacity := c, wal_recovered := a, wal_poison := b\<rparr>) =
     (case reopen_last w of (w', r) \<Rightarrow>
        (w'\<lparr>wal_capacity := c', wal_recovered := a, wal_poison := b\<rparr>, r :: 'je wal_error + unit))"
proof (cases "wal_segments w = [] \<or> seg_last (last (wal_segments w)) < wal_header_version w")
  case True
  then show ?thesis by (auto simp: reopen_last_def Let_def intro: exI [of _ c])
next
  case False
  let ?p = "seg_path (last (wal_segments w))"
  obtain fs1 r1 where 1: "fs_open_rw ?p (wal_fs w) = (fs1, r1)" by (cases "fs_open_rw ?p (wal_fs w)")
  let ?cap = "max (seg_end (last (wal_segments w))) (wal_rotate_bytes w)"
  obtain fs2 r2 where 2: "fs_write ?p (preallocate ?cap) fs1 = (fs2, r2)" by (cases "fs_write ?p (preallocate ?cap) fs1")
  show ?thesis
  proof (cases r1)
    case (Inl e)
    then show ?thesis using False 1 by (auto simp: reopen_last_def Let_def wal_at_def sbind_def intro: exI [of _ c])
  next
    case (Inr u)
    then show ?thesis using False 1 2
      by (cases r2) (auto simp: reopen_last_def Let_def wal_at_def sbind_def intro: exI [of _ ?cap])
  qed
qed

lemma recover_other:
  assumes "recover crc collect w = (w', Inr tail :: 'je wal_error + _)"
  shows "\<exists>c'. recover crc collect (w\<lparr>wal_capacity := c, wal_recovered := a, wal_poison := b\<rparr>) =
    (w'\<lparr>wal_capacity := c'\<rparr>, Inr tail :: 'je wal_error + _)"
proof -
  obtain fs segs expect where loop: "recover_loop crc (wal_header_version w) collect [] (wal_segments w) (None, []) (wal_fs w) =
      (fs, segs, Inr (expect, tail) :: 'je wal_error + _)"
    using assms by (auto simp: recover_def sbind_def Let_def split: prod.splits sum.splits if_splits)
  let ?w = "w\<lparr>wal_fs := fs, wal_segments := segs\<rparr>"
  obtain w1 where r: "reopen_last ?w = (w1, Inr () :: 'je wal_error + unit)"
    and w1: "w' = w1\<lparr>wal_recovered := True, wal_poison := None\<rparr>"
      "\<not> (tail \<noteq> [] \<and> rec_version (hd tail) \<noteq> u64_wrapping_add (wal_header_version w1) 1)"
    using assms loop by (auto simp: recover_def sbind_def Let_def split: prod.splits sum.splits if_splits)
  obtain c' where "reopen_last (?w\<lparr>wal_capacity := c, wal_recovered := a, wal_poison := b\<rparr>) =
      (w1\<lparr>wal_capacity := c', wal_recovered := a, wal_poison := b\<rparr>, Inr () :: 'je wal_error + unit)"
    using reopen_last_other [where w = ?w and c = c and a = a and b = b and 'je = 'je] r by auto
  moreover have "?w\<lparr>wal_capacity := c, wal_recovered := a, wal_poison := b\<rparr> =
      w\<lparr>wal_capacity := c, wal_recovered := a, wal_poison := b, wal_fs := fs, wal_segments := segs\<rparr>"
    by (cases w) simp
  ultimately have "reopen_last (w\<lparr>wal_capacity := c, wal_recovered := a, wal_poison := b, wal_fs := fs, wal_segments := segs\<rparr>) =
      (w1\<lparr>wal_capacity := c', wal_recovered := a, wal_poison := b\<rparr>, Inr () :: 'je wal_error + unit)" by metis
  then show ?thesis using w1 loop by (intro exI [of _ c']) (auto simp: recover_def sbind_def Let_def)
qed

lemma load_looks_at_files:
  fixes w w0 :: wal
  assumes "wal_load crc hdec vver w = (w', Inr r :: 'je wal_error + 'v recovered)"
    and "wal_fs w0 = wal_fs w" "wal_rotate_bytes w0 = wal_rotate_bytes w"
  shows "\<exists>cap. wal_load crc hdec vver w0 = (w'\<lparr>wal_capacity := cap\<rparr>, Inr r :: 'je wal_error + 'v recovered)"
proof -
  let ?listed = "\<lambda>w. w\<lparr>wal_active := None, wal_segments := list_segments (wal_fs w)\<rparr>"
  obtain h where h: "read_header crc hdec vver (wal_fs w) = (Inr h :: 'je wal_error + _)"
    using assms(1) by (auto simp: wal_load_def Let_def split: sum.splits)
  let ?hv = "case h of None \<Rightarrow> 0 | Some (v, _) \<Rightarrow> v"
  let ?w = "(?listed w)\<lparr>wal_header_version := ?hv\<rparr>"
  have rec: "recover crc True ?w = (w', Inr (rcv_tail r) :: 'je wal_error + _)" and r: "rcv_header r = map_option snd h"
    using assms(1) h by (auto simp: wal_load_def sbind_def Let_def split: prod.splits sum.splits)
  obtain c' where c: "recover crc True (?w\<lparr>wal_capacity := wal_capacity w0, wal_recovered := wal_recovered w0,
      wal_poison := wal_poison w0\<rparr>) = (w'\<lparr>wal_capacity := c'\<rparr>, Inr (rcv_tail r) :: 'je wal_error + _)"
    using recover_other [OF rec] by blast
  have "?w\<lparr>wal_capacity := wal_capacity w0, wal_recovered := wal_recovered w0, wal_poison := wal_poison w0\<rparr> =
      (?listed w0)\<lparr>wal_header_version := ?hv\<rparr>"
    using assms(2,3) by (cases w; cases w0) simp
  then have "recover crc True ((?listed w0)\<lparr>wal_header_version := ?hv\<rparr>) =
      (w'\<lparr>wal_capacity := c'\<rparr>, Inr (rcv_tail r) :: 'je wal_error + _)" using c by simp
  then show ?thesis using h r assms(2)
    by (intro exI [of _ c'], cases r) (simp add: wal_load_def sbind_def Let_def)
qed

text \<open>The store a restart loads, given what the last process left.\<close>

lemma good_same_files:
  assumes "wal_good crc w n rss" "header_good crc hdec vver vok w n rss" "\<not> leftover w" "wal_poison w = None"
    and "contents fs = contents (wal_fs w)" "fs_wf fs" "seg_prologue + rec_prefix \<le> rb"
  defines "w2 \<equiv> w\<lparr>wal_fs := fs, wal_rotate_bytes := rb\<rparr>"
  shows "wal_good crc w2 n rss" "header_good crc hdec vver vok w2 n rss" "\<not> leftover w2" "wal_poison w2 = None"
    "disk_header crc hdec vver (wal_fs w2) = disk_header crc hdec vver (wal_fs w)"
    "disk_version crc hdec vver (wal_fs w2) = disk_version crc hdec vver (wal_fs w)"
proof -
  have q: "wal_quiet w w2" using assms(3,5) by (simp add: wal_quiet_def leftover_def w2_def)
  note c = quiet_header [OF q]
  show "wal_good crc w2 n rss" using assms(1,5-7) by (auto simp: wal_good_def w2_def stray_ok_def split: option.splits)
  show "\<not> leftover w2" "wal_poison w2 = None" using assms(3-5) by (auto simp: leftover_def w2_def)
  show "header_good crc hdec vver vok w2 n rss"
    using assms(2) unfolding header_good_def c by (simp add: w2_def)
  show "disk_header crc hdec vver (wal_fs w2) = disk_header crc hdec vver (wal_fs w)"
    "disk_version crc hdec vver (wal_fs w2) = disk_version crc hdec vver (wal_fs w)" by (rule c)+
qed

lemma restart_loads:
  fixes w w0 :: wal
  assumes clean: "wal_swf crc hdec vver vok w" "\<not> wal_tainted w"
    and opened: "wal_open_with crc hdec vver rb (reopened (wal_fs w) faults) = (fs', Inr w0 :: 'je wal_error + wal)"
    and load: "wal_load crc hdec vver w0 = (w', Inr r :: 'je wal_error + 'v recovered)"
  shows "\<exists>w2 w2'. wal_swf crc hdec vver vok w2 \<and> \<not> wal_tainted w2 \<and>
    wal_abs crc hdec vver w2 = wal_abs crc hdec vver w \<and>
    wal_load crc hdec vver w2 = (w2', Inr r :: 'je wal_error + 'v recovered) \<and>
    (\<exists>cap. w2' = w'\<lparr>wal_capacity := cap\<rparr>)"
proof -
  obtain n rss where g: "wal_good crc w n rss" "header_good crc hdec vver vok w n rss" "wal_poison w = None" "\<not> leftover w"
    by (rule swf_clean [OF clean])
  note shape = open_with_shape [OF opened]
  have fs: "contents (wal_fs w0) = contents (wal_fs w)" "fs_wf (wal_fs w0)"
    using shape g(1) by (auto simp: reopened_def contents_def fs_wf_def wal_good_def)
  let ?w2 = "w\<lparr>wal_fs := wal_fs w0, wal_rotate_bytes := wal_rotate_bytes w0\<rparr>"
  note g2 = good_same_files [OF g(1,2,4,3) fs conjunct1 [OF conjunct2 [OF conjunct2 [OF shape]]]]
  obtain cap where "wal_load crc hdec vver ?w2 = (w'\<lparr>wal_capacity := cap\<rparr>, Inr r :: 'je wal_error + 'v recovered)"
    using load_looks_at_files [OF load, of ?w2] by auto
  moreover have "wal_swf crc hdec vver vok ?w2" "\<not> wal_tainted ?w2" using g2 by (auto simp: wal_swf_def wal_tainted_def)
  moreover have "wal_abs crc hdec vver ?w2 = wal_abs crc hdec vver w"
    using g2(5,6) by (simp add: wal_abs_good [OF g2(1)] wal_abs_good [OF g(1)])
  ultimately show ?thesis by blast
qed

lemma capacity_parts:
  "wal_good crc (w\<lparr>wal_capacity := cap\<rparr>) n rss \<longleftrightarrow> wal_good crc w n rss"
  "leftover (w\<lparr>wal_capacity := cap\<rparr>) \<longleftrightarrow> leftover w"
  "header_good crc hdec vver vok (w\<lparr>wal_capacity := cap\<rparr>) n rss \<longleftrightarrow> header_good crc hdec vver vok w n rss"
  by (simp_all add: wal_good_def header_good_def leftover_def stray_ok_def cong: option.case_cong)

lemma capacity_irrelevant [simp]:
  "wal_swf crc hdec vver vok (w\<lparr>wal_capacity := cap\<rparr>) \<longleftrightarrow> wal_swf crc hdec vver vok w"
  "wal_tainted (w\<lparr>wal_capacity := cap\<rparr>) \<longleftrightarrow> wal_tainted w"
  "wal_abs crc hdec vver (w\<lparr>wal_capacity := cap\<rparr>) = wal_abs crc hdec vver w"
  unfolding wal_swf_def wal_tainted_def capacity_parts by (simp_all add: wal_abs_def)

section \<open>The invariant of a running log\<close>

lemma log_inv_capacity:
  "log_inv R dec dwf TYPE('se) (wal_abs crc hdec vver) (wal_swf crc hdec vver vok) wal_tainted zero
     (l\<lparr>log_storage := (log_storage l)\<lparr>wal_capacity := c\<rparr>\<rparr>) \<longleftrightarrow>
   log_inv R dec dwf TYPE('se) (wal_abs crc hdec vver) (wal_swf crc hdec vver vok) wal_tainted zero l"
  by (simp add: log_inv_def)

lemma log_open_load:
  assumes "log_open R (wal_ops crc henc hdec vver) dec zero w = (Inr l :: ('e, 'je wal_error, 'je) lug_error + _)"
  shows "\<exists>w' r. wal_load crc hdec vver w = (w', Inr r :: 'je wal_error + 'v recovered) \<and> log_storage l = w'"
  using assms by (auto simp: log_open_def wal_ops_def rbind_Inr_iff split: prod.splits sum.splits)

lemma log_open_same_load:
  assumes "log_open R (wal_ops crc henc hdec vver) dec zero w = (Inr l :: ('e, 'je wal_error, 'je) lug_error + _)"
    and "wal_load crc hdec vver w = (w', Inr r :: 'je wal_error + 'v recovered)"
    and "wal_load crc hdec vver w2 = (w2', Inr r :: 'je wal_error + 'v recovered)"
  shows "log_open R (wal_ops crc henc hdec vver) dec zero w2 =
    (Inr (l\<lparr>log_storage := w2'\<rparr>) :: ('e, 'je wal_error, 'je) lug_error + _)"
proof -
  have S: "s_load (wal_ops crc henc hdec vver) = wal_load crc hdec vver" by (simp add: wal_ops_def)
  obtain d0 d1 where "(case rcv_header r of Some v \<Rightarrow> map_err DataError (r_resume R v) | None \<Rightarrow> Inr zero) =
      (Inr d0 :: ('e, 'je wal_error, 'je) lug_error + _)"
    "log_replay R dec d0 (rcv_tail r) = (Inr d1 :: ('e, 'je wal_error, 'je) lug_error + _)"
    "l = \<lparr>log_data = d1, log_storage = w', log_watermark = r_version R d1, log_synced = r_version R d1\<rparr>"
    using assms(1,2) by (auto simp: log_open_def S rbind_Inr_iff)
  then show ?thesis using assms(3) by (simp add: log_open_def S)
qed

lemma created_store:
  assumes "wal_open_with crc hdec vver rb (reopened no_files faults) = (fs', Inr w :: 'je wal_error + wal)"
  shows "wal_swf crc hdec vver vok w \<and> \<not> wal_tainted w"
proof -
  note sh = open_with_shape [OF assms]
  have "contents (reopened no_files faults) = (\<lambda>_. None)" "fs_wf (reopened no_files faults)"
    by (auto simp: reopened_def no_files_def contents_def fs_wf_def bt_get_def)
  then have c: "contents (wal_fs w) = (\<lambda>_. None)" "fs_wf (wal_fs w)" using sh by auto
  then have "fs_files (wal_fs w) = []"
    by (cases "fs_files (wal_fs w)") (auto simp: contents_def bt_get_def fun_eq_iff split: if_splits)
  then have segs: "wal_segments w = []" using sh by (simp add: list_segments_def List.map_filter_def)
  have hd: "read_header crc hdec vver (wal_fs w) = (Inr None :: 'je wal_error + _)"
    using fun_cong [OF c(1), of header_name] by (auto simp: read_header_def contents_def split: option.splits)
  have "seg_prologue + rec_prefix \<le> wal_rotate_bytes w \<and> wal_active w = None \<and> \<not> wal_recovered w" using sh by blast
  then have "wal_good crc w 0 []" by (simp add: wal_good_def wal_top_def u64_max_def c segs)
  moreover have "header_good crc hdec vver vok w 0 []"
    using sh hd segs by (auto simp: header_good_def disk_version_def disk_header_def wal_top_def)
  ultimately show ?thesis using segs sh by (auto simp: wal_swf_def wal_tainted_def leftover_def)
qed

lemma running_inv:
  fixes henc :: "version \<times> snapshot \<Rightarrow> 'je + bytes"
  assumes codec: "codec_ok enc dec used patch_wf patch_eq" "\<forall>p. used p \<longrightarrow> (\<exists>b. enc p = Inr b)"
    and hcodec: "header_codec_ok henc hdec snap_version snapshot_wf (obs (cavlc_ops own))"
    and run: "wal_running crc henc hdec enc dec used own l"
  shows "log_inv (cavlc_ops own) dec cavlc_wf TYPE('je wal_error) (wal_abs crc hdec snap_version)
    (wal_swf crc hdec snap_version snapshot_wf) wal_tainted (store_new own) l"
  using run
proof (induction rule: wal_running.induct)
  note dl = wal_durable_log [OF hcodec, of crc]
  have zero: "cavlc_wf (store_new own)" "r_version (cavlc_ops own) (store_new own) = 0" using cavlc_new_wf [of own] by simp_all
  {
    case (created rb faults fs' w l)
    have sto: "wal_swf crc hdec snap_version snapshot_wf w" "\<not> wal_tainted w" using created_store [OF created(1)] by blast+
    show ?case by (rule durable_log.open_inv [OF dl codec(1) zero sto created(2), THEN conjunct1])
  next
    case (stepped l op)
    from durable_log.run_inv [OF dl codec stepped.IH, of "[op]"] stepped(2) show ?case by simp
  next
    case (restarted l rb faults fs' w l')
    have swf: "wal_swf crc hdec snap_version snapshot_wf (log_storage l)" using restarted.IH by (simp add: log_inv_def)
    obtain w' r where load: "wal_load crc hdec snap_version w = (w', Inr r :: 'je wal_error + snapshot recovered)" "log_storage l' = w'"
      using log_open_load [OF restarted(4)] by blast
    obtain w2 cap where w2: "wal_swf crc hdec snap_version snapshot_wf w2" "\<not> wal_tainted w2"
      "wal_load crc hdec snap_version w2 = (w'\<lparr>wal_capacity := cap\<rparr>, Inr r :: 'je wal_error + snapshot recovered)"
      using restart_loads [OF swf restarted(2,3) load(1)] by blast
    note open2 = log_open_same_load [OF restarted(4) load(1) w2(3)]
    from durable_log.open_inv [OF dl codec(1) zero w2(1,2) open2, THEN conjunct1]
    show ?case unfolding load(2) [symmetric] log_inv_capacity .
  }
qed

section \<open>Properties\<close>

text \<open>
  C1: What a durable document log holds survives its process. Take any log over the segment
  store, created in an empty directory and used through any number of sessions by appends,
  syncs and checkpoints, with any system call interrupted, cut short or refused on the way. As
  long as the store has not poisoned itself and no segment outlived its own reclaim, the
  watermark is the version in memory, and the next process that opens the directory, itself
  under any faults, either stops with a storage error or shows the same version and the same
  JSON. \<open>enc\<close>, \<open>dec\<close>, \<open>henc\<close> and \<open>hdec\<close> stand for serde_json on patches and on the header.
\<close>

theorem cavlc_wal_recovers:
  fixes henc :: "version \<times> snapshot \<Rightarrow> 'je + bytes"
  assumes "codec_ok enc dec used patch_wf patch_eq" "\<forall>p. used p \<longrightarrow> (\<exists>b. enc p = Inr b)"
    and "header_codec_ok henc hdec snap_version snapshot_wf (obs (cavlc_ops own))"
    and "wal_running crc henc hdec enc dec used own l" "\<not> wal_tainted (log_storage l)"
    and "wal_open_with crc hdec snap_version rotate_bytes (reopened (wal_fs (log_storage l)) faults) = (fs', Inr w)"
  shows "log_watermark l = snap_version (store_snapshot (log_data l)) \<and>
    (case log_open (cavlc_ops own) (wal_ops crc henc hdec snap_version) dec (store_new own) w of
       Inl e \<Rightarrow> \<exists>se. e = StorageError se
     | Inr l' \<Rightarrow> log_watermark l' = log_watermark l \<and>
         snap_version (store_snapshot (log_data l')) = log_watermark l \<and>
         to_json (snap_root (store_snapshot (log_data l'))) = to_json (snap_root (store_snapshot (log_data l))))"
proof -
  note inv = running_inv [OF assms(1-4)] and dl = wal_durable_log [OF assms(3), of crc]
  have zero: "cavlc_wf (store_new own)" using cavlc_new_wf [of own] by simp
  have wm: "log_watermark l = snap_version (store_snapshot (log_data l))" using inv by (simp add: log_inv_def)
  obtain w1 res where load: "wal_load crc hdec snap_version w = (w1, res :: 'je wal_error + snapshot recovered)"
    by (cases "wal_load crc hdec snap_version w :: wal \<times> ('je wal_error + snapshot recovered)")
  show ?thesis
  proof (cases res)
    case (Inl e)
    then show ?thesis using wm load by (simp add: log_open_def wal_ops_def)
  next
    case (Inr r)
    have swf: "wal_swf crc hdec snap_version snapshot_wf (log_storage l)"
      and rec: "recovers (cavlc_ops own) dec cavlc_wf TYPE('je wal_error) (store_new own)
        (wal_abs crc hdec snap_version (log_storage l)) (store_snapshot (log_data l))"
      using inv assms(5) by (simp_all add: log_inv_def)
    obtain w2 w2' cap where w2: "wal_swf crc hdec snap_version snapshot_wf w2" "\<not> wal_tainted w2"
      "wal_abs crc hdec snap_version w2 = wal_abs crc hdec snap_version (log_storage l)"
      "wal_load crc hdec snap_version w2 = (w2', Inr r :: 'je wal_error + snapshot recovered)"
      using restart_loads [OF swf assms(5,6)] load Inr by blast
    have "s_load (wal_ops crc henc hdec snap_version) w2 = (w2', Inr r)" using w2(4) by (simp add: wal_ops_def)
    from durable_log.open_recovers [OF dl assms(1) zero w2(1,2) rec [folded w2(3)] this]
    obtain l2 where l2: "log_open (cavlc_ops own) (wal_ops crc henc hdec snap_version) dec (store_new own) w2 = Inr l2"
      "snap_version (store_snapshot (log_data l2)) = snap_version (store_snapshot (log_data l))"
      "to_json (snap_root (store_snapshot (log_data l2))) = to_json (snap_root (store_snapshot (log_data l)))" by auto
    note same = log_open_same_load [OF l2(1) w2(4) load [unfolded Inr]]
    have "log_watermark l2 = snap_version (store_snapshot (log_data l2))"
      using l2(1) by (auto simp: log_open_def rbind_Inr_iff split: prod.splits sum.splits)
    then show ?thesis using same l2(2,3) wm by simp
  qed
qed

text \<open>A concrete log: one patch appended to a fresh directory, with a header codec for the empty store.\<close>

definition wit_henc :: "version \<times> snapshot \<Rightarrow> unit + bytes" where
  "wit_henc h = (if h = (0, store_snapshot (store_new 0)) then Inr [1] else Inl ())"

definition wit_hdec :: "bytes \<Rightarrow> unit + version \<times> snapshot" where
  "wit_hdec b = (if b = [1] then Inr (0, store_snapshot (store_new 0)) else Inl ())"

definition wit_wal :: "(store, wal) lug_log" where
  "wit_wal = \<lparr>log_data = store_new 0, log_storage = (run_store [])\<lparr>wal_recovered := True\<rparr>, log_watermark = 0, log_synced = 0\<rparr>"

lemma wit_hcodec: "header_codec_ok wit_henc wit_hdec snap_version snapshot_wf (obs (cavlc_ops 0))"
  using cavlc_new_wf [of 0] by (auto simp: header_codec_ok_def wit_henc_def wit_hdec_def cavlc_wf_view)

lemma wit_created: "wal_open_with run_crc wit_hdec snap_version 32 (reopened no_files []) = (run_fs [] [], Inr (run_store []) :: unit wal_error + wal)"
  by (simp add: wal_open_with_def reopened_def no_files_def try_lock_dir_def run_fs_def run_store_def read_header_def bt_get_def
      list_segments_def List.map_filter_def seg_prologue_def rec_prefix_def Let_def)

lemma wit_opened: "log_open (cavlc_ops 0) (wal_ops run_crc wit_henc wit_hdec snap_version) wit_dec (store_new 0) (run_store [])
   = Inr wit_wal"
proof -
  have "wal_load run_crc wit_hdec snap_version (run_store []) =
      ((run_store [])\<lparr>wal_recovered := True\<rparr>, Inr \<lparr>rcv_header = None, rcv_tail = []\<rparr> :: unit wal_error + _)"
    by (simp add: wal_load_def run_store_def run_fs_def read_header_def bt_get_def list_segments_def List.map_filter_def
        recover_def reopen_last_def sbind_def Let_def)
  then show ?thesis by (simp add: log_open_def wal_ops_def wit_wal_def store_new_def store_snapshot_def)
qed

lemma wit_append: "wal_append run_crc ((run_store [])\<lparr>wal_recovered := True\<rparr>) [run_record 1] = (run_store1 [], Inr () :: unit wal_error + unit)"
proof -
  have "ensure_recovered run_crc ((run_store [])\<lparr>wal_recovered := True\<rparr>) =
      ((run_store [])\<lparr>wal_recovered := True\<rparr>, Inr () :: unit wal_error + unit)" by (simp add: ensure_recovered_def)
  then show ?thesis using run_append1 [where 'je = unit] unfolding wal_append_def run_ensure
    by (simp add: run_store_def del: One_nat_def)
qed

lemma wit_wal_step: "log_storage (log_step (cavlc_ops 0) (wal_ops run_crc wit_henc wit_hdec snap_version) wit_enc
    (DoAppend [wit_patch] Written) wit_wal) = run_store1 []"
  using wit_append [unfolded run_record_def]
  by (simp add: log_append_def wit_enc_def wit_patch_def wit_wal_def r_apply_def cavlc_ops_def cavlc_commit_def
      begin_batch_def batch_apply_def apply_batch_def store_new_def store_snapshot_def u64_checked_add_def
      u64_max_def patch_apply_def op_keys_def bt_keys_def value_default_def avl_is_empty_def wal_ops_def node_def Let_def
      del: One_nat_def)

text \<open>After the first append the directory opens again and loads.\<close>

lemma run_reopened:
  "\<exists>w0. wal_open_with run_crc wit_hdec snap_version 32 (reopened (wal_fs (run_store1 [])) []) =
      (wal_fs (run_store1 []), Inr w0 :: unit wal_error + wal) \<and>
    wal_fs w0 = run_fs [(segment_name 1, run_file [] [run_record 1] 31)] [] \<and> wal_header_version w0 = 0 \<and> wal_rotate_bytes w0 = 32"
  using run_names(4) run_names(4) [THEN not_sym]
  by (simp add: wal_open_with_def reopened_def try_lock_dir_def run_store1_def run_fs_def read_header_def bt_get_def Let_def
      seg_prologue_def rec_prefix_def del: One_nat_def)

lemma run_loaded:
  fixes w :: wal
  assumes "wal_fs w = run_fs [(segment_name 1, run_file [] [run_record 1] 31)] []" "wal_rotate_bytes w = 32"
  shows "\<exists>w1. wal_load run_crc wit_hdec snap_version w =
    (w1, Inr \<lparr>rcv_header = None, rcv_tail = [run_record 1]\<rparr> :: unit wal_error + snapshot recovered)"
proof -
  let ?s = "\<lparr>seg_first = 1, seg_path = segment_name 1, seg_end = 0, seg_last = 0\<rparr>"
  have ls: "list_segments (wal_fs w) = [?s]"
    using run_parse(1) by (simp add: assms list_segments_def run_fs_def List.map_filter_def listed_segment_def)
  have hd: "read_header run_crc wit_hdec snap_version (wal_fs w) = (Inr None :: unit wal_error + _)"
    using run_names(4) [THEN not_sym] by (simp add: assms read_header_def run_fs_def bt_get_def)
  have len: "length (segment_bytes run_crc [run_record 1]) = 33" by (simp add: length_segment_bytes run_batch seg_prologue_def rec_prefix_def del: One_nat_def)
  have visit: "visit_records (recover_visit (segment_name 1) 1 0 True) [run_record 1] seg_prologue (None, []) =
      (Inr (33, (Some 2, [run_record 1]), False) :: unit wal_error + _)"
    using run_numbers(2) by (simp add: recover_visit_def run_record_def seg_prologue_def rec_prefix_def)
  have scan: "scan_path run_crc (segment_name 1) (recover_visit (segment_name 1) 1 0 True) (wal_fs w) (None, []) =
      (Inr (\<lparr>scan_end = 33, scan_file_len = 64, scan_torn = False\<rparr>, Some 2, [run_record 1]) :: unit wal_error + _)"
  proof -
    have "scan_bytes run_crc (NotASegment (segment_name 1)) (recover_visit (segment_name 1) 1 0 True)
        (segment_bytes run_crc [run_record 1] @ replicate 31 0) (None, []) =
        (Inr (\<lparr>scan_end = 33, scan_file_len = 64, scan_torn = False\<rparr>, Some 2, [run_record 1]) :: unit wal_error + _)"
      by (subst scan_segment)
        (use run_storable(1) in \<open>simp_all add: visit scan_loop_zeros len rec_prefix_def del: visit_records.simps One_nat_def\<close>)
    then show ?thesis by (simp add: assms scan_path_def run_fs_def bt_get_def run_file_def del: One_nat_def)
  qed
  let ?d = "segment_bytes run_crc [run_record 1]"
  have cut: "truncate_file (segment_name 1) 33 (wal_fs w) =
      (run_fs [(segment_name 1, \<lparr>f_data = ?d, f_stable = ?d\<rparr>)] [], Inr () :: unit wal_error + unit)"
    using len by (simp add: assms truncate_file_def fs_set_len_def resize_def run_calls run_file_def Let_def)
  have "\<exists>w1. recover run_crc True (w\<lparr>wal_active := None, wal_segments := [?s], wal_header_version := 0\<rparr>) =
      (w1, Inr [run_record 1] :: unit wal_error + _)"
    using scan cut run_numbers 
    by (simp add: recover_def reopen_last_def run_calls assms(2) Let_def run_batch(6) del: One_nat_def)
  then show ?thesis using ls hd by (auto simp: wal_load_def sbind_def Let_def)
qed
lemma wit_reopens:
  assumes "wal_fs w = run_fs [(segment_name 1, run_file [] [run_record 1] 31)] []" "wal_rotate_bytes w = 32"
  shows "\<exists>l'. log_open (cavlc_ops 0) (wal_ops run_crc wit_henc wit_hdec snap_version) wit_dec (store_new 0) w = Inr l'"
proof -
  obtain w1 where "wal_load run_crc wit_hdec snap_version w =
      (w1, Inr \<lparr>rcv_header = None, rcv_tail = [run_record 1]\<rparr> :: unit wal_error + snapshot recovered)"
    using run_loaded [OF assms] by blast
  then show ?thesis
    by (simp add: log_open_def wal_ops_def run_record_def wit_dec_def wit_patch_def cavlc_ops_def cavlc_commit_def
        begin_batch_def batch_apply_def apply_batch_def store_new_def store_snapshot_def u64_checked_add_def
        u64_max_def patch_apply_def op_keys_def bt_keys_def value_default_def avl_is_empty_def node_def Let_def)
qed

theorem cavlc_wal_recovers_witness:
  "\<exists>(l :: (store, wal) lug_log) fs' w l'. log_storage l = run_store1 [] \<and>
     wal_open_with run_crc wit_hdec snap_version 32 (reopened (wal_fs (run_store1 [])) []) = (fs', Inr w) \<and>
     log_open (cavlc_ops 0) (wal_ops run_crc wit_henc wit_hdec snap_version) wit_dec (store_new 0) w = Inr l' \<and>
     log_watermark l' = log_watermark l \<and> log_watermark l = snap_version (store_snapshot (log_data l)) \<and>
     to_json (snap_root (store_snapshot (log_data l'))) = to_json (snap_root (store_snapshot (log_data l)))"
proof -
  let ?l = "log_step (cavlc_ops 0) (wal_ops run_crc wit_henc wit_hdec snap_version) wit_enc (DoAppend [wit_patch] Written) wit_wal"
  have enc: "\<forall>p. p = wit_patch \<longrightarrow> (\<exists>b. wit_enc p = Inr b)" by (simp add: wit_enc_def)
  have op: "log_op_ok (\<lambda>p. patch_wf p \<and> p = wit_patch) (DoAppend [wit_patch] Written)" using wit_ops by simp
  have run: "wal_running run_crc wit_henc wit_hdec wit_enc wit_dec (\<lambda>p. p = wit_patch) 0 ?l"
    by (rule wal_running.stepped [OF wal_running.created [OF wit_created wit_opened] op])
  have clean: "\<not> wal_tainted (log_storage ?l)" unfolding wit_wal_step
    using run_parse(1) by (auto simp: wal_tainted_def run_store1_def leftover_def run_fs_def contents_def bt_get_def run_seg_def split: if_splits)
  obtain w where re: "wal_open_with run_crc wit_hdec snap_version 32 (reopened (wal_fs (log_storage ?l)) []) =
      (wal_fs (run_store1 []), Inr w :: unit wal_error + wal)"
    and w: "wal_fs w = run_fs [(segment_name 1, run_file [] [run_record 1] 31)] []" "wal_rotate_bytes w = 32"
    using run_reopened unfolding wit_wal_step by blast
  obtain l' where l': "log_open (cavlc_ops 0) (wal_ops run_crc wit_henc wit_hdec snap_version) wit_dec (store_new 0) w = Inr l'"
    using wit_reopens [OF w] by blast
  have "log_watermark ?l = snap_version (store_snapshot (log_data ?l)) \<and> log_watermark l' = log_watermark ?l \<and>
      to_json (snap_root (store_snapshot (log_data l'))) = to_json (snap_root (store_snapshot (log_data ?l)))"
    using cavlc_wal_recovers [OF wit_codec enc wit_hcodec run clean re] l' by simp
  with wit_wal_step re [unfolded wit_wal_step] l' show ?thesis by blast
qed

text \<open>An append poisons the store only by a cleanup that failed itself, and says so.\<close>

lemma wal_at_poison: "wal_at path op w = (w', r) \<Longrightarrow> wal_poison w' = wal_poison w"
  by (auto simp: wal_at_def split: prod.splits)

lemma rotate_poison:
  assumes "rotate first w = (w', r :: 'je wal_error + unit)"
  shows "wal_poison w' = wal_poison w"
  using assms
  by (auto simp: rotate_def close_active_def new_segment_def wal_sync_dir_def sbind_def Let_def
      split: prod.splits sum.splits option.splits if_splits dest!: wal_at_poison)

lemma write_batch_poison:
  assumes "write_batch crc rs w = (w', res :: 'je wal_error + unit)" "wal_poison w = None" "wal_poison w' = Some (path, offset)"
  shows "\<exists>e. res = Inl (CleanupFailed path offset e)"
  using assms
  by (auto simp: write_batch_def sbind_def Let_def split: prod.splits sum.splits if_splits dest!: wal_at_poison)

lemma append_poison:
  assumes run: "wal_append crc w rs = (w', res :: 'je wal_error + unit)" and good: "wal_good crc w n rss"
    and poi: "wal_poison w = None" "wal_poison w' = Some (path, offset)"
  shows "\<exists>e. res = Inl (CleanupFailed path offset e)"
proof -
  obtain w1 r1 where 1: "ensure_recovered crc w = (w1, r1 :: 'je wal_error + unit)"
    by (cases "ensure_recovered crc w :: wal \<times> ('je wal_error + unit)")
  have p1: "wal_poison w1 = None" using ensure_recovered_good [OF 1 good poi(1)] by blast
  show ?thesis
  proof (cases "rs = [] \<or> (\<exists>e. r1 = Inl e) \<or> (\<exists>e. check_records (next_version w1) rs = (Inl e :: 'je wal_error + unit))")
    case True
    then have "w' = w \<or> w' = w1"
      using run 1 poi(1) unfolding wal_append_def by (cases r1) (auto simp: sbind_def split: sum.splits if_splits)
    then show ?thesis using poi p1 by auto
  next
    case False
    let ?rotating = "wal_segments w1 = [] \<or> wal_rotate_bytes w1 \<le> seg_end (last (wal_segments w1))"
    obtain w2 r2 where 2: "(if ?rotating \<or> wal_active w1 = None then rotate (rec_version (hd rs)) w1
        else (w1, Inr ())) = (w2, r2 :: 'je wal_error + unit)" by fastforce
    have p2: "wal_poison w2 = None" using 2 p1 by (auto split: if_splits dest: rotate_poison)
    obtain u v where ok: "r1 = Inr u" "check_records (next_version w1) rs = (Inr v :: 'je wal_error + unit)"
      using False by (cases r1; cases "check_records (next_version w1) rs :: 'je wal_error + unit") auto
    have "(w', res) = (case r2 of Inl e \<Rightarrow> (w2, Inl e) | Inr _ \<Rightarrow> write_batch crc rs w2)"
      using run 1 2 ok False poi(1) unfolding wal_append_def by (cases r2) (auto simp: sbind_def Let_def)
    moreover have "\<not> (\<exists>e. r2 = Inl e)" using calculation poi(2) p2 by (cases r2) auto
    ultimately have "write_batch crc rs w2 = (w', res)" by (cases r2) auto
    then show ?thesis using p2 poi(2) by (rule write_batch_poison)
  qed
qed

text \<open>What a later start loads from the files of a clean store is what the store stands for.\<close>

lemma later_start:
  fixes w w0 :: wal
  assumes "wal_swf crc hdec vver vok w" "\<not> wal_tainted w"
    and "wal_open_with crc hdec vver rb (reopened (wal_fs w) faults) = (fs', Inr w0 :: 'je wal_error + wal)"
    and "wal_load crc hdec vver w0 = (w1, Inr r :: 'je wal_error + 'v recovered)"
  shows "rcv_header r = fst (wal_abs crc hdec vver w) \<and> rcv_tail r = snd (wal_abs crc hdec vver w)"
proof -
  obtain w2 w2' where w2: "wal_swf crc hdec vver vok w2" "\<not> wal_tainted w2" "wal_abs crc hdec vver w2 = wal_abs crc hdec vver w"
      "wal_load crc hdec vver w2 = (w2', Inr r :: 'je wal_error + 'v recovered)"
    using restart_loads [OF assms] by blast
  obtain n rss where g: "wal_good crc w2 n rss" "header_good crc hdec vver vok w2 n rss" "\<not> leftover w2" "wal_poison w2 = None"
    by (rule swf_clean [OF w2(1,2)])
  show ?thesis using wal_load_good [OF w2(4) g] wal_abs_good [OF g(1), of hdec vver] w2(3) by auto
qed

text \<open>
  C2: An append to the segment store is all or nothing for every later start. Whatever the
  system calls do (interrupt, cut short, refuse), an append to a clean store ends in one of two
  ways. Either the store is clean still, and whatever later process opens the directory, under
  any faults, and gets it loaded, it is handed exactly the header and the records of before, with
  the batch at their end when the append succeeded and without any of it when it failed. Or the
  write failed and so did wiping what it had left: then the append reports \<open>CleanupFailed\<close>, and
  the store refuses every append from then on, until it is opened again; of this outcome nothing
  is promised to a later start. Clean is: not poisoned, and no file below the first segment.
\<close>

theorem wal_append_all_or_nothing:
  fixes w :: wal
  assumes "wal_swf crc hdec vver vok w" "\<not> wal_tainted w" "rs \<noteq> []"
    and "\<forall>r \<in> set rs. disk_version crc hdec vver (wal_fs w) < rec_version r"
    and "wal_append crc w rs = (w', res :: 'je wal_error + unit)"
  shows "case wal_poison w' of
      Some (path, offset) \<Rightarrow> (\<exists>e. res = Inl (CleanupFailed path offset e)) \<and>
        (\<forall>more. more \<noteq> [] \<longrightarrow> wal_append crc w' more = (w', Inl (Poisoned path offset) :: 'je wal_error + unit))
    | None \<Rightarrow> wal_swf crc hdec vver vok w' \<and> \<not> wal_tainted w' \<and>
        (\<forall>rb faults fs' w0 w1 r.
           wal_open_with crc hdec vver rb (reopened (wal_fs w') faults) = (fs', Inr w0 :: 'je wal_error + wal) \<longrightarrow>
           wal_load crc hdec vver w0 = (w1, Inr r :: 'je wal_error + 'v recovered) \<longrightarrow>
           rcv_header r = fst (wal_abs crc hdec vver w) \<and>
           rcv_tail r = snd (wal_abs crc hdec vver w) @ (case res of Inr _ \<Rightarrow> rs | Inl _ \<Rightarrow> []))"
proof -
  obtain n rss where good: "wal_good crc w n rss" "wal_poison w = None" by (rule swf_clean [OF assms(1,2)])
  have "above (disk_version crc hdec vver (wal_fs w)) rs = rs" using assms(4) by (simp add: above_def)
  with append_law [OF assms(1,3,5)]
  have law: "wal_swf crc hdec vver vok w'" "leftover w' = leftover w"
    "\<not> wal_tainted w' \<longrightarrow> wal_abs crc hdec vver w' =
       (fst (wal_abs crc hdec vver w), snd (wal_abs crc hdec vver w) @ (case res of Inr _ \<Rightarrow> rs | Inl _ \<Rightarrow> []))" by (simp_all split: sum.splits)
  show ?thesis
  proof (cases "wal_poison w'")
    case None
    then have clean: "\<not> wal_tainted w'" using law(2) assms(2) by (simp add: wal_tainted_def)
    from later_start [OF law(1) clean] show ?thesis using None law(1,3) clean by fastforce
  next
    case (Some p)
    then show ?thesis using append_poison [OF assms(5) good] by (cases p) (auto simp: wal_append_def)
  qed
qed

theorem wal_append_all_or_nothing_witness:
  "\<exists>w0 w1 r. wal_append run_crc (run_store []) [run_record 1] = (run_store1 [], Inr () :: unit wal_error + unit) \<and>
     wal_open_with run_crc wit_hdec snap_version 32 (reopened (wal_fs (run_store1 [])) []) = (wal_fs (run_store1 []), Inr w0 :: unit wal_error + wal) \<and>
     wal_load run_crc wit_hdec snap_version w0 = (w1, Inr r :: unit wal_error + snapshot recovered) \<and>
     rcv_header r = None \<and> rcv_tail r = [run_record 1]"
proof -
  have swf: "wal_swf run_crc wit_hdec snap_version snapshot_wf (run_store [])" "\<not> wal_tainted (run_store [])"
    using created_store [OF wit_created] by blast+
  have fs: "disk_version run_crc wit_hdec snap_version (wal_fs (run_store [])) = 0"
    "disk_header run_crc wit_hdec snap_version (wal_fs (run_store [])) = None"
    by (simp_all add: disk_version_def disk_header_def run_store_def run_fs_def read_header_def bt_get_def)
  have "wal_abs run_crc wit_hdec snap_version (run_store []) = (None, [])"
    by (simp add: wal_abs_def fs(2)) (simp add: run_store_def above_def)
  moreover have "wal_poison (run_store1 []) = None" by (simp add: run_store1_def)
  moreover obtain w0 where w0: "wal_open_with run_crc wit_hdec snap_version 32 (reopened (wal_fs (run_store1 [])) []) =
      (wal_fs (run_store1 []), Inr w0 :: unit wal_error + wal)"
    "wal_fs w0 = run_fs [(segment_name 1, run_file [] [run_record 1] 31)] []" "wal_rotate_bytes w0 = 32"
    using run_reopened by blast
  moreover obtain w1 r where load: "wal_load run_crc wit_hdec snap_version w0 = (w1, Inr r :: unit wal_error + snapshot recovered)"
    using run_loaded [OF w0(2,3)] by blast
  ultimately have "rcv_header r = None \<and> rcv_tail r = [run_record 1]"
    using wal_append_all_or_nothing [OF swf _ _ run_append1 [where 'je = unit]] fs(1) by (fastforce simp: run_record_def)
  then show ?thesis using run_append1 [where 'je = unit] w0(1) load by blast
qed

text \<open>What collecting a file finds when the file begins with records and goes on with anything.\<close>

lemma seg_records_garbage:
  assumes "\<forall>r \<in> set rs. storable r"
  shows "\<exists>more. seg_records crc (segment_bytes crc rs @ garbage) = rs @ more"
proof -
  let ?len = "length (segment_bytes crc rs @ garbage)" and ?pos = "seg_prologue + (\<Sum>r\<leftarrow>rs. rec_prefix + length (rec_patch r))"
  obtain sc out where run: "scan_loop crc collect_all ?len ?pos garbage rs = (Inr (sc, out) :: unit + scan \<times> log_record list)"
    using scan_loop_total by blast
  obtain more stopped where "visit_records collect_all more ?pos rs = (Inr (scan_end sc, out, stopped) :: unit + _)"
    using scan_loop_sound [OF run] by blast
  then have "out = rs @ more" by (rule visit_collect_all_Inr)
  then show ?thesis using run by (simp add: seg_records_def scan_segment [OF assms])
qed

text \<open>
  C6: A flush of an open segment that reports success is a promise the power cannot break. Let the
  store have its last segment open for writing, as it has from the first append of a process until
  a rotation fails. After a \<open>sync\<close> that reports success, whatever a crash makes of that file above
  the end of the segment (later writes half done, pages lost, old blocks), as long as the flushed
  bytes are what the disk returns, the scan of the next start reads every record of the segment, in
  order, before anything else. With no segment open, \<open>sync\<close> flushes nothing and reports success
  (\<open>retried_rotation_loses_the_flush\<close>); of earlier segments nothing is said.
\<close>

theorem synced_records_survive_power_cut:
  assumes "wal_good crc w n rss" "wal_active w = Some p" "wal_sync w = (w', Inr () :: 'je wal_error + unit)"
    and "bt_get (fs_files (wal_fs w')) p = Some f"
    and "take (seg_end (last (wal_segments w))) found = take (seg_end (last (wal_segments w))) (f_stable f)"
  shows "\<exists>more. seg_records crc found = last rss @ more"
proof -
  have p: "wal_segments w \<noteq> []" "p = seg_path (last (wal_segments w))"
    and ch: "chain crc (contents (wal_fs w)) True n (wal_segments w) rss"
    using assms(1,2) by (auto simp: wal_good_def)
  obtain z where z: "contents (wal_fs w) p = Some (segment_bytes crc (last rss) @ replicate z 0)"
    "seg_end (last (wal_segments w)) = length (segment_bytes crc (last rss))"
    by (rule chain_last [OF ch p(1)]) (use p in auto)
  have f: "f_stable f = segment_bytes crc (last rss) @ replicate z 0"
    using assms(2-4) p z(1)
    by (auto simp: wal_sync_def wal_at_def fs_fdatasync_def fs_flush_def contents_def map_err_def
        split: prod.splits sum.splits option.splits)
  have st: "\<forall>r \<in> set (last rss). storable r"
    using ch p(1) chain_snoc [of crc "contents (wal_fs w)" True n "butlast (wal_segments w)" "last (wal_segments w)" rss]
    by (auto simp: seg_ok_def)
  have "take (seg_end (last (wal_segments w))) found = segment_bytes crc (last rss)" using assms(5) f z(2) by simp
  then have "found = segment_bytes crc (last rss) @ drop (seg_end (last (wal_segments w))) found"
    by (metis append_take_drop_id)
  then show ?thesis using seg_records_garbage [OF st] by metis
qed

lemma run_store1_good: "wal_good run_crc (run_store1 []) 0 [[run_record 1]]"
proof -
  have seg: "seg_ok run_crc (contents (wal_fs (run_store1 []))) True 0 (run_seg 1) [run_record 1]"
    using run_storable(1) run_bytes
    by (auto simp: seg_ok_def run_seg_def run_store1_def run_fs_def contents_def bt_get_def run_file_def
        consec_Cons u64_max_def length_segment_bytes seg_prologue_def rec_prefix_def) (simp_all add: run_record_def)
  have chain: "chain run_crc (contents (wal_fs (run_store1 []))) True 0 [run_seg 1] [[run_record 1]]"
    using seg by simp
  show ?thesis using chain run_parse(1)
    by (auto simp: wal_good_def run_store1_def run_fs_def fs_wf_def bt_wf_def seg_prologue_def rec_prefix_def wal_top_def u64_max_def
        stray_ok_def contents_def bt_get_def run_seg_def split: if_splits)
qed

theorem synced_records_survive_power_cut_witness:
  "\<exists>w' f more. wal_sync (run_store1 []) = (w', Inr () :: unit wal_error + unit) \<and>
     bt_get (fs_files (wal_fs w')) (segment_name 1) = Some f \<and>
     seg_records run_crc (take 33 (f_stable f) @ [1, 2, 3]) = run_record 1 # more"
proof -
  let ?f = "(run_file [] [run_record 1] 31)\<lparr>f_stable := f_data (run_file [] [run_record 1] 31)\<rparr>"
  let ?w = "(run_store1 [])\<lparr>wal_fs := run_fs [(segment_name 1, ?f)] []\<rparr>"
  have sync: "wal_sync (run_store1 []) = (?w, Inr () :: unit wal_error + unit)"
    by (simp add: wal_sync_def run_store1_def run_seg_def wal_at_def fs_fdatasync_def fs_flush_def run_fs_def bt_get_def bt_insert.simps)
  have act: "wal_active (run_store1 []) = Some (segment_name 1)" and last: "seg_end (last (wal_segments (run_store1 []))) = 33"
    by (simp_all add: run_store1_def run_seg_def)
  have f: "bt_get (fs_files (wal_fs ?w)) (segment_name 1) = Some ?f" by (simp add: run_fs_def bt_get_def)
  have len: "33 \<le> length (f_stable ?f)" using run_batch(5) [of 1]
    by (simp add: run_file_def length_segment_bytes seg_prologue_def rec_prefix_def run_record_def)
  have "\<exists>more. seg_records run_crc (take 33 (f_stable ?f) @ [1, 2, 3]) = last [[run_record 1]] @ more"
    by (rule synced_records_survive_power_cut [OF run_store1_good act sync f]) (use len in \<open>simp add: last min_absorb2\<close>)
  then show ?thesis using sync f by auto
qed

end
