(* ===== verification/ServerRing.thy ===== *)
theory ServerRing
  imports Json
begin

text \<open>
  \<open>crates/lug-server/src/ring.rs\<close>: the records one log keeps in memory for its subscribers. A
  read goes by index, so what it serves is right exactly when the versions in the ring are
  consecutive; that is the invariant, and \<open>ring_read_after_spec\<close> is what a subscriber gets from it.
\<close>

section \<open>State and operations\<close>

record entry =
  en_version :: version
  en_patch :: json
  en_bytes :: nat

record ring =
  ring_capacity :: nat
  ring_entries :: "entry list"

datatype ring_read = RingRecords "entry list" | TooOld

definition ring_new :: "nat \<Rightarrow> ring" where
  "ring_new capacity = \<lparr>ring_capacity = max capacity 1, ring_entries = []\<rparr>"

definition ring_push1 :: "ring \<Rightarrow> entry \<Rightarrow> ring" where
  "ring_push1 r e =
     (let entries = (if length (ring_entries r) = ring_capacity r then tl (ring_entries r) else ring_entries r)
      in r\<lparr>ring_entries := entries @ [e]\<rparr>)"

definition ring_push :: "ring \<Rightarrow> entry list \<Rightarrow> ring" where
  "ring_push r batch = foldl ring_push1 r batch"

definition ring_oldest :: "ring \<Rightarrow> version option" where
  "ring_oldest r = (case ring_entries r of [] \<Rightarrow> None | e # _ \<Rightarrow> Some (en_version e))"

text \<open>The run a read takes: entries until their sizes reach the cap, the one that does included.\<close>

fun take_bytes :: "nat \<Rightarrow> nat \<Rightarrow> entry list \<Rightarrow> entry list" where
  "take_bytes max_bytes bytes [] = []"
| "take_bytes max_bytes bytes (e # es) =
     (if max_bytes \<le> bytes + en_bytes e then [e] else e # take_bytes max_bytes (bytes + en_bytes e) es)"

definition ring_read_after :: "ring \<Rightarrow> version \<Rightarrow> nat \<Rightarrow> nat \<Rightarrow> ring_read" where
  "ring_read_after r after limit max_bytes =
     (case ring_entries r of
        [] \<Rightarrow> RingRecords []
      | front # _ \<Rightarrow>
          if u64_wrapping_add after 1 < en_version front then TooOld
          else
            let skip = u64_wrapping_add after 1 - en_version front
            in RingRecords (take_bytes max_bytes 0 (take limit (drop skip (ring_entries r)))))"

fun estimate :: "json \<Rightarrow> nat" where
  "estimate JNull = 4"
| "estimate (JBool b) = (if b then 4 else 5)"
| "estimate (JInt i) = 8"
| "estimate (JFloat q) = 8"
| "estimate (JString s) = length s + 2"
| "estimate (JArray items) = 2 + sum_list (map (\<lambda>v. estimate v + 1) items)"
| "estimate (JObject kvs) = 2 + sum_list (map (\<lambda>(k, v). length k + 4 + estimate v) kvs)"

section \<open>Invariant\<close>

text \<open>\<open>ring_at r top_version\<close>: the ring holds consecutive versions up to \<open>top_version\<close>.\<close>

definition versions_run :: "entry list \<Rightarrow> version \<Rightarrow> bool" where
  "versions_run es hi \<longleftrightarrow> length es \<le> hi \<and> map en_version es = [Suc (hi - length es)..<Suc hi]"

definition ring_at :: "ring \<Rightarrow> version \<Rightarrow> bool" where
  "ring_at r hi \<longleftrightarrow> 0 < ring_capacity r \<and> length (ring_entries r) \<le> ring_capacity r \<and> versions_run (ring_entries r) hi"

lemma ring_new_at [simp, inv_intros]: "ring_at (ring_new capacity) hi"
  by (simp add: ring_at_def ring_new_def versions_run_def)

lemma versions_run_snoc:
  "versions_run es hi \<Longrightarrow> en_version e = Suc hi \<Longrightarrow> versions_run (es @ [e]) (Suc hi)"
  by (auto simp: versions_run_def)

lemma versions_run_drop: "versions_run es hi \<Longrightarrow> versions_run (drop n es) hi"
proof -
  assume run: "versions_run es hi"
  have "map en_version (drop n es) = drop n [Suc (hi - length es)..<Suc hi]"
    using run by (simp add: versions_run_def drop_map [symmetric] del: upt_Suc)
  also have "\<dots> = [Suc (hi - length es) + n..<Suc hi]" by (rule drop_upt)
  also have "\<dots> = [Suc (hi - length (drop n es))..<Suc hi]"
  proof (cases "n \<le> length es")
    case True
    then have "Suc (hi - length es) + n = Suc (hi - length (drop n es))" using run by (auto simp: versions_run_def)
    then show ?thesis by presburger
  next
    case False
    then show ?thesis by (simp add: versions_run_def)
  qed
  finally show ?thesis using run by (auto simp: versions_run_def)
qed

lemma ring_push1_at [inv_intros]:
  assumes "ring_at r hi" "en_version e = Suc hi"
  shows "ring_at (ring_push1 r e) (Suc hi)"
proof -
  have "versions_run (tl (ring_entries r)) hi" using versions_run_drop [of "ring_entries r" hi 1] assms(1)
    by (simp add: ring_at_def drop_Suc)
  then show ?thesis using assms by (auto simp: ring_push1_def ring_at_def Let_def intro: versions_run_snoc)
qed

lemma ring_push_at [inv_intros]:
  "ring_at r hi \<Longrightarrow> map en_version batch = [Suc hi..<Suc (hi + length batch)] \<Longrightarrow>
   ring_at (ring_push r batch) (hi + length batch)"
proof (induction batch arbitrary: r hi)
  case (Cons e batch)
  from Cons.prems(2) have e: "en_version e = Suc hi" "map en_version batch = [Suc (Suc hi)..<Suc (Suc hi + length batch)]"
    by (simp_all add: upt_conv_Cons del: upt_Suc)
  from Cons.IH [OF ring_push1_at [OF Cons.prems(1) e(1)] e(2)] show ?case by (simp add: ring_push_def)
qed (simp add: ring_push_def)

lemma ring_push_capacity [simp]: "ring_capacity (ring_push r batch) = ring_capacity r"
  by (induction batch arbitrary: r) (simp_all add: ring_push_def ring_push1_def Let_def)

text \<open>The ring is the last \<open>capacity\<close> of everything pushed.\<close>

lemma ring_push_last:
  assumes "0 < ring_capacity r" "length (ring_entries r) \<le> ring_capacity r"
  shows "ring_entries (ring_push r batch) =
    drop (length (ring_entries r @ batch) - ring_capacity r) (ring_entries r @ batch)"
  using assms
proof (induction batch arbitrary: r)
  case (Cons e batch)
  let ?r = "ring_push1 r e"
  have len: "length (ring_entries ?r) \<le> ring_capacity ?r" "ring_capacity ?r = ring_capacity r"
    using Cons.prems by (auto simp: ring_push1_def Let_def)
  have "ring_entries (ring_push r (e # batch)) =
      drop (length (ring_entries ?r @ batch) - ring_capacity r) (ring_entries ?r @ batch)"
    using Cons.IH [of ?r] Cons.prems len by (simp add: ring_push_def)
  also have "\<dots> = drop (length (ring_entries r @ e # batch) - ring_capacity r) (ring_entries r @ e # batch)"
  proof (cases "length (ring_entries r) = ring_capacity r")
    case True
    then obtain x xs where "ring_entries r = x # xs" using Cons.prems(1) by (cases "ring_entries r") auto
    then show ?thesis using True by (simp add: ring_push1_def Let_def Suc_diff_le)
  qed (simp add: ring_push1_def Let_def)
  finally show ?case .
qed (simp add: ring_push_def)

lemma take_bytes_prefix: "\<exists>n. take_bytes m b es = take n es \<and> (es \<noteq> [] \<longrightarrow> 0 < n)"
proof (induction es arbitrary: b)
  case (Cons e es)
  obtain n where "take_bytes m (b + en_bytes e) es = take n es" using Cons.IH by blast
  then show ?case by (cases "m \<le> b + en_bytes e") (auto intro: exI [of _ 1] exI [of _ "Suc n"])
qed simp

lemma take_bytes_cap: "take_bytes m b es \<noteq> [] \<Longrightarrow> b + sum_list (map en_bytes (butlast (take_bytes m b es))) < max m (Suc b)"
proof (induction es arbitrary: b)
  case (Cons e es)
  show ?case
  proof (cases "m \<le> b + en_bytes e")
    case False
    then show ?thesis
      using Cons.IH [of "b + en_bytes e"] by (cases "take_bytes m (b + en_bytes e) es = []") auto
  qed auto
qed simp

lemma versions_run_nth:
  assumes "versions_run es hi" "i < length es"
  shows "en_version (es ! i) = Suc (hi - length es) + i"
proof -
  have "map en_version es ! i = [Suc (hi - length es)..<Suc hi] ! i" using assms(1) by (simp add: versions_run_def)
  moreover have "Suc (hi - length es) + i < Suc hi" using assms by (auto simp: versions_run_def)
  ultimately show ?thesis using assms(2) by (simp only: nth_map nth_upt)
qed

section \<open>Property\<close>

text \<open>What a read returns, for every cursor at or below the head.\<close>

lemma ring_read_after_spec:
  assumes "ring_at r hi" "after < u64_max" "after \<le> hi"
  shows "case ring_read_after r after limit max_bytes of
      TooOld \<Rightarrow> \<exists>oldest. ring_oldest r = Some oldest \<and> Suc after < oldest
    | RingRecords es \<Rightarrow>
        (\<forall>oldest. ring_oldest r = Some oldest \<longrightarrow> oldest \<le> Suc after) \<and>
        map en_version es = [Suc after..<Suc (after + length es)] \<and> length es \<le> limit \<and> set es \<subseteq> set (ring_entries r) \<and>
        (es \<noteq> [] \<longrightarrow> after + length es \<le> hi \<and> sum_list (map en_bytes (butlast es)) < max max_bytes 1) \<and>
        (es = [] \<longrightarrow> after = hi \<or> limit = 0 \<or> ring_entries r = [])"
proof (cases "ring_entries r")
  case Nil
  then show ?thesis by (simp add: ring_read_after_def ring_oldest_def)
next
  case (Cons front rest)
  let ?es = "ring_entries r" and ?front = "en_version front"
  have run: "versions_run ?es hi" using assms(1) by (simp add: ring_at_def)
  have front: "?front = Suc (hi - length ?es)" "length ?es \<le> hi"
    using versions_run_nth [OF run, of 0] run Cons by (auto simp: versions_run_def)
  have wrap: "u64_wrapping_add after 1 = Suc after" using assms(2,3) by (simp add: u64_wrapping_add_def u64_max_def)
  show ?thesis
  proof (cases "Suc after < ?front")
    case True
    then show ?thesis using Cons wrap by (simp add: ring_read_after_def ring_oldest_def)
  next
    case False
    let ?skip = "Suc after - ?front"
    obtain n where n: "take_bytes max_bytes 0 (take limit (drop ?skip ?es)) = take n (take limit (drop ?skip ?es))"
      "take limit (drop ?skip ?es) \<noteq> [] \<longrightarrow> 0 < n" using take_bytes_prefix by blast
    let ?out = "take_bytes max_bytes 0 (take limit (drop ?skip ?es))"
    have read: "ring_read_after r after limit max_bytes = RingRecords ?out"
      using False Cons wrap by (simp add: ring_read_after_def Let_def)
    have d: "map en_version (drop ?skip ?es) = [Suc after..<Suc hi]"
    proof -
      have "map en_version (drop ?skip ?es) = drop ?skip [Suc (hi - length ?es)..<Suc hi]"
        using run by (simp add: versions_run_def drop_map [symmetric] del: upt_Suc)
      moreover have "Suc (hi - length ?es) + ?skip = Suc after" using False front by simp
      ultimately show ?thesis by (metis drop_upt)
    qed
    have out: "map en_version ?out = take (min n limit) [Suc after..<Suc hi]"
      unfolding n(1) take_take by (simp add: take_map [symmetric] d min.commute del: upt_Suc)
    have len: "length ?out = min (min n limit) (hi - after)"
      using arg_cong [OF out, of length] unfolding length_map length_take length_upt by (simp add: min.commute)
    have "map en_version ?out = [Suc after..<Suc (after + length ?out)]"
    proof (cases "min n limit \<le> hi - after")
      case True
      then have "length ?out = min n limit" using len by simp
      moreover have "take (min n limit) [Suc after..<Suc hi] = [Suc after..<Suc after + min n limit]"
        using True assms(3) by (intro take_upt) simp
      ultimately show ?thesis using out by simp
    next
      case False
      have hi: "length ?out = hi - after" using len False by (simp only: min_def) simp
      have "take (min n limit) [Suc after..<Suc hi] = [Suc after..<Suc hi]" using False by (intro take_all) (simp add: min_def del: upt_Suc split: if_splits)
      then show ?thesis using out hi assms(3) by simp
    qed
    moreover have "length ?out \<le> limit" "?out \<noteq> [] \<longrightarrow> after + length ?out \<le> hi" using len assms(3) by auto
    moreover have "set ?out \<subseteq> set ?es" unfolding n(1) by (meson set_drop_subset set_take_subset subset_trans)
    moreover have "?out \<noteq> [] \<longrightarrow> sum_list (map en_bytes (butlast ?out)) < max max_bytes 1"
      using take_bytes_cap [of max_bytes 0 "take limit (drop ?skip ?es)"] by simp
    moreover have "\<forall>oldest. ring_oldest r = Some oldest \<longrightarrow> oldest \<le> Suc after"
      using False Cons by (simp add: ring_oldest_def)
    moreover have "?out = [] \<longrightarrow> after = hi \<or> limit = 0"
    proof
      assume "?out = []"
      then have "take limit (drop ?skip ?es) = []" using n by auto
      then have "limit = 0 \<or> drop ?skip ?es = []" by simp
      moreover have "drop ?skip ?es = [] \<Longrightarrow> [Suc after..<Suc hi] = []" using d by simp
      ultimately show "after = hi \<or> limit = 0" using assms(3) by (auto simp del: upt_Suc)
    qed
    ultimately show ?thesis unfolding read ring_read.case by blast
  qed
qed

text \<open>
  C26: What a ring holding consecutive versions up to \<open>hi\<close> answers a subscriber at or below
  \<open>hi\<close>. It answers \<open>TooOld\<close> exactly when it holds something and its oldest entry is past the
  cursor's next version, whatever the limit. Otherwise what it returns comes from its entries,
  starts right after the cursor, is consecutive and has at most \<open>limit\<close> records; all its records but
  the last together stay under the byte cap (a cap of 0 counting as 1), which the last one may
  reach or pass; and it is empty only when the cursor has caught up, nothing was asked for, or
  the ring holds nothing.
\<close>

theorem ring_serves:
  assumes "ring_at r hi" "after < u64_max" "after \<le> hi"
  shows "case ring_read_after r after limit max_bytes of
      TooOld \<Rightarrow> \<exists>oldest. ring_oldest r = Some oldest \<and> Suc after < oldest
    | RingRecords es \<Rightarrow>
        (\<forall>oldest. ring_oldest r = Some oldest \<longrightarrow> oldest \<le> Suc after) \<and>
        map en_version es = [Suc after..<Suc (after + length es)] \<and> length es \<le> limit \<and> set es \<subseteq> set (ring_entries r) \<and>
        (es \<noteq> [] \<longrightarrow> after + length es \<le> hi \<and> sum_list (map en_bytes (butlast es)) < max max_bytes 1) \<and>
        (es = [] \<longrightarrow> after = hi \<or> limit = 0 \<or> ring_entries r = [])"
  by (rule ring_read_after_spec [OF assms])

theorem ring_serves_witness:
  "\<exists>es. ring_read_after (ring_push (ring_new 2) [\<lparr>en_version = 1, en_patch = JNull, en_bytes = 4\<rparr>,
      \<lparr>en_version = 2, en_patch = JNull, en_bytes = 4\<rparr>, \<lparr>en_version = 3, en_patch = JNull, en_bytes = 4\<rparr>]) 1 5 100 = RingRecords es \<and>
    map en_version es = [2..<Suc (1 + length es)] \<and> es \<noteq> []"
proof -
  let ?r = "ring_push (ring_new 2) [\<lparr>en_version = 1, en_patch = JNull, en_bytes = 4\<rparr>,
      \<lparr>en_version = 2, en_patch = JNull, en_bytes = 4\<rparr>, \<lparr>en_version = 3, en_patch = JNull, en_bytes = 4\<rparr>]"
  have at: "ring_at ?r 3"
    using ring_push_at [OF ring_new_at [of 2 0], of "[\<lparr>en_version = 1, en_patch = JNull, en_bytes = 4\<rparr>,
      \<lparr>en_version = 2, en_patch = JNull, en_bytes = 4\<rparr>, \<lparr>en_version = 3, en_patch = JNull, en_bytes = 4\<rparr>]"]
    by (simp add: upt_rec numeral_3_eq_3)
  have entries: "ring_entries ?r = [\<lparr>en_version = 2, en_patch = JNull, en_bytes = 4\<rparr>, \<lparr>en_version = 3, en_patch = JNull, en_bytes = 4\<rparr>]"
    by (simp add: ring_push_def ring_push1_def ring_new_def)
  then have "ring_read_after ?r 1 5 100 \<noteq> TooOld" by (simp add: ring_read_after_def u64_wrapping_add_def)
  then obtain es where es: "ring_read_after ?r 1 5 100 = RingRecords es" by (cases "ring_read_after ?r 1 5 100") auto
  show ?thesis using ring_serves [OF at, of 1 5 100] es entries by (auto simp: u64_max_def numeral_2_eq_2)
qed

end
