(* ===== verification/Proto.thy ===== *)
theory Proto
  imports Json LugLog "HOL-Library.Word"
begin

text \<open>
  The wire contract, \<open>crates/lug-proto\<close>: the frames of \<open>lib.rs\<close> and the length-prefixed framing
  of \<open>codec.rs\<close>. The JSON text of a frame is serde's; the codec takes it as a parameter.
\<close>

section \<open>Frames\<close>

type_synonym id = nat

definition proto_version :: nat where "proto_version = 1"

datatype mode = Records | Reducible

definition mode_default :: mode where "mode_default = Records"

datatype request =
    Hello (req_id: id) (hello_version: nat)
  | Append (req_id: id) (req_log: string) (append_patches: "json list") (append_durability: durability)
  | Subscribe (req_id: id) (req_log: string) (subscribe_from: version) (subscribe_mode: mode) (subscribe_credit: nat)
  | Credit (req_id: id) (credit_grant: nat)
  | Cancel (req_id: id)
  | ReadView (req_id: id) (req_log: string) (read_at: "version option")
  | ListLogs (req_id: id)
  | Create (req_id: id) (req_log: string) (create_reducible: bool)
  | Ping (req_id: id)

record wire_record =
  wr_version :: version
  wr_patch :: json

record log_info =
  li_name :: string
  li_reducible :: bool
  li_version :: version
  li_oldest :: version
  li_subscribers :: nat

datatype code =
    Rejected | NoSuchLog | LogExists | NotReducible | OutOfRange | BadId | Unauthorized | Malformed
  | CodeStorage | Backpressure | Internal

datatype response =
    Welcome (resp_id: id) (welcome_version: nat) (welcome_max_frame: nat) (welcome_session: "string option")
  | Ack (resp_id: id) (ack_versions: "version list") (ack_synced: version)
  | RecordsFrame (resp_id: id) (frame_records: "wire_record list")
  | View (resp_id: id) (view_version: version) (view_value: json)
  | GapFrame (resp_id: id) (gap_from: version) (gap_to: version)
  | Logs (resp_id: id) (logs_infos: "log_info list")
  | OkFrame (resp_id: id)
  | End (resp_id: id)
  | Pong (resp_id: id)
  | ErrorFrame (resp_id: id) (error_code: code) (error_message: string)

definition is_final :: "response \<Rightarrow> bool" where
  "is_final r \<longleftrightarrow> (case r of End _ \<Rightarrow> True | ErrorFrame _ _ _ \<Rightarrow> True | _ \<Rightarrow> False)"

datatype event = EvRecord wire_record | EvGap version version

fun event_cursor :: "event \<Rightarrow> version" where
  "event_cursor (EvRecord r) = wr_version r"
| "event_cursor (EvGap lo hi) = hi"

section \<open>Framing\<close>

definition max_frame :: nat where "max_frame = 16777216"
definition frame_header :: nat where "frame_header = 4"

datatype 'je codec_error = TooLarge nat | FrameJson 'je

text \<open>Big-endian bytes: \<open>put_u32\<close> and \<open>u32::from_be_bytes\<close>.\<close>

fun be_bytes :: "nat \<Rightarrow> nat \<Rightarrow> bytes" where
  "be_bytes 0 v = []"
| "be_bytes (Suc n) v = be_bytes n (v div 256) @ [of_nat v]"

definition of_be_bytes :: "bytes \<Rightarrow> nat" where
  "of_be_bytes bs = foldl (\<lambda>acc b. acc * 256 + unat b) 0 bs"

text \<open>
  The two halves of \<open>Codec\<close>, over the buffer they are handed: what is left in it comes back.
  A body that does not parse has been consumed.
\<close>

definition codec_decode :: "(bytes \<Rightarrow> 'je + 'a) \<Rightarrow> bytes \<Rightarrow> bytes \<times> ('je codec_error + 'a option)" where
  "codec_decode from_slice src =
     (if length src < frame_header then (src, Inr None)
      else
        let len = of_be_bytes (take frame_header src) in
        if max_frame < len then (src, Inl (TooLarge len))
        else if length src < frame_header + len then (src, Inr None)
        else
          let rest = drop frame_header src; body = take len rest in
          (drop len rest, map_err FrameJson (rbind (from_slice body) (\<lambda>v. Inr (Some v)))))"

definition codec_encode :: "('a \<Rightarrow> 'je + bytes) \<Rightarrow> 'a \<Rightarrow> bytes \<Rightarrow> bytes \<times> ('je codec_error + unit)" where
  "codec_encode to_vec item dst =
     (case to_vec item of
        Inl e \<Rightarrow> (dst, Inl (FrameJson e))
      | Inr body \<Rightarrow>
          if u32_max < length body then (dst, Inl (TooLarge u32_max))
          else if max_frame < length body then (dst, Inl (TooLarge (length body)))
          else (dst @ be_bytes 4 (length body) @ body, Inr ()))"

definition encode_frame :: "('a \<Rightarrow> 'je + bytes) \<Rightarrow> 'a \<Rightarrow> 'je codec_error + bytes" where
  "encode_frame to_vec value =
     (case codec_encode to_vec value [] of (buf, Inl e) \<Rightarrow> Inl e | (buf, Inr _) \<Rightarrow> Inr buf)"

section \<open>A reader\<close>

text \<open>
  A connection keeps what it has read in a buffer and decodes until the codec asks for more.
\<close>

lemma decode_consumes:
  "codec_decode from_slice src = (src', Inr (Some v)) \<Longrightarrow> length src' < length src"
  by (auto simp: codec_decode_def frame_header_def Let_def split: if_splits)

function drain_frames :: "(bytes \<Rightarrow> 'je + 'a) \<Rightarrow> bytes \<Rightarrow> 'a list \<times> bytes \<times> 'je codec_error option" where
  "drain_frames from_slice src =
     (case codec_decode from_slice src of
        (src', Inl e) \<Rightarrow> ([], src', Some e)
      | (src', Inr None) \<Rightarrow> ([], src', None)
      | (src', Inr (Some v)) \<Rightarrow>
          (case drain_frames from_slice src' of (vs, rest, err) \<Rightarrow> (v # vs, rest, err)))"
  by pat_completeness auto

termination
  by (relation "measure (\<lambda>(f, src). length src)") (auto dest: decode_consumes [OF sym])

declare drain_frames.simps [simp del]

lemma length_be_bytes [simp]: "length (be_bytes n v) = n"
  by (induction n arbitrary: v) auto

lemma be_bytes_4:
  "be_bytes 4 v = [of_nat (v div 256 div 256 div 256), of_nat (v div 256 div 256), of_nat (v div 256), of_nat v]"
proof -
  have four: "(4 :: nat) = Suc (Suc (Suc (Suc 0)))" by simp
  show ?thesis unfolding four be_bytes.simps by simp
qed

lemma of_be_bytes_snoc [simp]: "of_be_bytes (bs @ [b]) = of_be_bytes bs * 256 + unat b"
  by (simp add: of_be_bytes_def)

lemma of_be_bytes_be_bytes [simp]: "of_be_bytes (be_bytes n v) = v mod 256 ^ n"
proof (induction n arbitrary: v)
  case 0
  show ?case by (simp add: of_be_bytes_def)
next
  case (Suc n)
  have "v mod (256 * 256 ^ n) = 256 * (v div 256 mod 256 ^ n) + v mod 256" by (simp add: mod_mult2_eq)
  then show ?case by (simp add: Suc unat_word_ariths unsigned_of_nat take_bit_eq_mod)
qed

lemma encode_frame_Inr:
  assumes "encode_frame to_vec v = (Inr buf :: 'je codec_error + bytes)"
  obtains body where "to_vec v = Inr body" "length body \<le> max_frame" "buf = be_bytes 4 (length body) @ body"
  using assms by (auto simp: encode_frame_def codec_encode_def split: sum.splits if_splits)

lemma decode_whole_frame:
  assumes "length body \<le> max_frame"
  shows "codec_decode from_slice (be_bytes 4 (length body) @ body @ rest) =
    (rest, map_err FrameJson (rbind (from_slice body) (\<lambda>v. Inr (Some v))))"
  using assms by (simp add: codec_decode_def frame_header_def Let_def max_frame_def)

lemma decode_partial_frame:
  assumes "length body \<le> max_frame" "strict_prefix part (be_bytes 4 (length body) @ body)"
  shows "codec_decode from_slice part = (part, Inr None)"
proof -
  obtain rest where rest: "part @ rest = be_bytes 4 (length body) @ body" "rest \<noteq> []"
    using assms(2) by (auto simp: strict_prefix_def prefix_def)
  then have len: "length part < 4 + length body"
    by (metis length_append length_be_bytes length_greater_0_conv less_add_same_cancel1)
  show ?thesis
  proof (cases "length part < 4")
    case False
    then have "take 4 part = be_bytes 4 (length body)"
      using arg_cong [OF rest(1), of "take 4"] by simp
    then show ?thesis using assms(1) len False by (simp add: codec_decode_def frame_header_def Let_def max_frame_def)
  qed (simp add: codec_decode_def frame_header_def)
qed

section \<open>Properties\<close>

text \<open>
  C25: The framing survives any split of the byte stream. Frames that encode, one after the
  other, followed by the beginning of another, come out as exactly the values that went in, in
  order, with the beginning left in the buffer for the next read, and a boundary never moves.
  \<open>to_vec\<close> and \<open>from_slice\<close> stand for serde_json, which reads back what it wrote.
\<close>

theorem framing_roundtrip:
  assumes "\<forall>v \<in> set (nxt # vs). \<forall>body. to_vec v = Inr body \<longrightarrow> from_slice body = Inr v"
    and "list_all2 (\<lambda>v buf. encode_frame to_vec v = (Inr buf :: 'je codec_error + bytes)) vs bufs"
    and "encode_frame to_vec nxt = (Inr next_buf :: 'je codec_error + bytes)" "strict_prefix part next_buf"
  shows "drain_frames from_slice (concat bufs @ part) = (vs, part, None)"
  using assms(2,1)
proof (induction vs bufs rule: list_all2_induct)
  case Nil
  obtain body where "length body \<le> max_frame" "next_buf = be_bytes 4 (length body) @ body"
    using encode_frame_Inr [OF assms(3)] .
  with assms(4) show ?case by (subst drain_frames.simps) (simp add: decode_partial_frame)
next
  case (Cons v vs buf bufs)
  obtain body where body: "to_vec v = Inr body" "length body \<le> max_frame" "buf = be_bytes 4 (length body) @ body"
    using encode_frame_Inr [OF Cons.hyps(1)] .
  have "from_slice body = Inr v" using Cons.prems body(1) by simp
  then have "codec_decode from_slice (concat (buf # bufs) @ part) = (concat bufs @ part, Inr (Some v))"
    using decode_whole_frame [OF body(2), of from_slice "concat bufs @ part"] by (simp add: body(3))
  then show ?case using Cons.IH Cons.prems by (subst drain_frames.simps) simp
qed

theorem framing_roundtrip_witness:
  "drain_frames (\<lambda>bs. Inr bs :: unit + bytes) ([0, 0, 0, 2, 7, 8] @ [0, 0, 0]) = ([[7, 8]], [0, 0, 0], None)"
proof -
  have "encode_frame (\<lambda>bs. Inr bs :: unit + bytes) [7, 8] = Inr [0, 0, 0, 2, 7, 8]"
    "encode_frame (\<lambda>bs. Inr bs :: unit + bytes) [9] = Inr [0, 0, 0, 1, 9]"
    by (simp_all add: encode_frame_def codec_encode_def u32_max_def max_frame_def be_bytes_4)
  then show ?thesis
    using framing_roundtrip [of "[9]" "[[7, 8]]" "\<lambda>bs. Inr bs :: unit + bytes" "\<lambda>bs. Inr bs" "[[0, 0, 0, 2, 7, 8]]" "[0, 0, 0, 1, 9]" "[0, 0, 0]"]
    by (simp add: strict_prefix_def)
qed

text \<open>
  What the decoder does with any bytes at all. It never reads past a length above the
  limit, and then keeps its buffer; asks for more only when the buffer holds no whole frame,
  and then keeps its buffer; otherwise it takes exactly one frame of at most the limit,
  whether or not its body parses, so a malformed body costs that frame and no other.
\<close>

theorem decode_takes_one_frame:
  "case codec_decode from_slice src of
     (src', Inr None) \<Rightarrow> src' = src \<and> length src < frame_header + of_be_bytes (take frame_header src) \<or> src' = src \<and> length src < frame_header
   | (src', Inl (TooLarge n)) \<Rightarrow> src' = src \<and> n = of_be_bytes (take frame_header src) \<and> max_frame < n
   | (src', r) \<Rightarrow> (\<exists>body. src = take frame_header src @ body @ src' \<and> length body = of_be_bytes (take frame_header src) \<and>
        length body \<le> max_frame \<and> r = map_err FrameJson (rbind (from_slice body) (\<lambda>v. Inr (Some v))))"
proof -
  let ?len = "of_be_bytes (take frame_header src)" and ?rest = "drop frame_header src"
  consider "length src < frame_header" | "frame_header \<le> length src" "max_frame < ?len"
    | "frame_header \<le> length src" "?len \<le> max_frame" "length src < frame_header + ?len"
    | "frame_header \<le> length src" "?len \<le> max_frame" "frame_header + ?len \<le> length src" by linarith
  then show ?thesis
  proof cases
    case 4
    have split: "src = take frame_header src @ take ?len ?rest @ drop ?len ?rest" by (simp del: drop_drop)
    have len: "length (take ?len ?rest) = ?len" using 4 by simp
    have run: "codec_decode from_slice src = (drop ?len ?rest, map_err FrameJson (rbind (from_slice (take ?len ?rest)) (\<lambda>v. Inr (Some v))))"
      using 4 by (simp add: codec_decode_def Let_def)
    show ?thesis
    proof (cases "from_slice (take ?len ?rest)")
      case (Inl e)
      then show ?thesis using run len 4(2) split by (auto simp del: drop_drop intro!: exI [of _ "take ?len ?rest"])
    next
      case (Inr v)
      then show ?thesis using run len 4(2) split by (auto simp del: drop_drop intro!: exI [of _ "take ?len ?rest"])
    qed
  qed (simp_all add: codec_decode_def Let_def)
qed

end
