(* ===== verification/ServerActor.thy ===== *)
theory ServerActor
  imports ServerStorage ServerRing Proto WalFormat "HOL-Library.Multiset"
begin

text \<open>
  \<open>crates/lug-server/src/actor.rs\<close>: the actor that owns one log, batches what is queued into one
  append, publishes the records to the ring and answers. A oneshot channel is the number of its
  sender; an operation returns the answers it sends, in order. What the actor is generic over
  (structure, storage, serde_json, error texts) is one record of parameters.
\<close>

declare upt_Suc [simp del]

section \<open>State\<close>

type_synonym failure = "code \<times> string"

record ack =
  ak_versions :: "version list"
  ak_synced :: version

datatype catch_up = CuRecords "entry list" | CuGap version

datatype command =
    CmdAppend "json list" durability (cmd_reply: nat)
  | CmdView "version option" (cmd_reply: nat)
  | CmdCatchUp version nat (cmd_reply: nat)
  | CmdCheckpoint (cmd_reply: nat)

datatype answer =
    AAppend "failure + ack"
  | AView "failure + version \<times> json"
  | ACatchUp "failure + catch_up"
  | ACheckpoint "failure + unit"

fun patch_count :: "command \<Rightarrow> nat" where
  "patch_count (CmdAppend patches dur reply) = length patches"
| "patch_count _ = 0"

fun fail_command :: "command \<Rightarrow> failure \<Rightarrow> nat \<times> answer" where
  "fail_command (CmdAppend _ _ reply) f = (reply, AAppend (Inl f))"
| "fail_command (CmdView _ reply) f = (reply, AView (Inl f))"
| "fail_command (CmdCatchUp _ _ reply) f = (reply, ACatchUp (Inl f))"
| "fail_command (CmdCheckpoint reply) f = (reply, ACheckpoint (Inl f))"

record metrics =
  m_patches :: nat
  m_batches :: nat
  m_syncs :: nat

definition metrics_record :: "metrics \<Rightarrow> nat \<Rightarrow> bool \<Rightarrow> metrics" where
  "metrics_record m patches synced =
     m\<lparr>m_patches := m_patches m + patches, m_batches := m_batches m + 1,
       m_syncs := (if synced then m_syncs m + 1 else m_syncs m)\<rparr>"

text \<open>The actor with what it shares: ring, watermark, floor and counters, which only it writes.\<close>

record ('d, 's) actor =
  ac_log :: "('d, 's) lug_log"
  ac_ring :: ring
  ac_watermark :: version
  ac_oldest :: version
  ac_metrics :: metrics
  ac_batch :: nat
  ac_every :: nat
  ac_checkpointed :: version

record ('d, 'p, 'v, 'st, 'e, 's, 'se, 'je) actor_env =
  ae_data :: "('d, 'p, 'v, 'st, 'e) reducible_ops"
  ae_storage :: "('s, 'v, 'se) storage_ops"
  ae_enc :: "'p \<Rightarrow> 'je + bytes"
  ae_from_value :: "json \<Rightarrow> 'je + 'p"
  ae_from_slice :: "bytes \<Rightarrow> 'je + json"
  ae_show :: "('e, 'se, 'je) lug_error \<Rightarrow> string"
  ae_show_json :: "'je \<Rightarrow> string"

record 'p job =
  job_raw :: "json list"
  job_patches :: "'p list"
  job_durability :: durability
  job_reply :: nat

definition actor_new ::
    "('d, 'p, 'v, 'st, 'e, 's, 'se, 'je) actor_env \<Rightarrow> ('d, 's) lug_log \<Rightarrow> ring \<Rightarrow> nat \<Rightarrow> nat \<Rightarrow> ('d, 's) actor" where
  "actor_new E l r batch every =
     \<lparr>ac_log = l, ac_ring = r, ac_watermark = log_watermark l, ac_oldest = log_oldest (ae_storage E) l,
      ac_metrics = \<lparr>m_patches = 0, m_batches = 0, m_syncs = 0\<rparr>, ac_batch = max batch 1, ac_every = every,
      ac_checkpointed = log_watermark l\<rparr>"

section \<open>Group commit\<close>

fun durability_rank :: "durability \<Rightarrow> nat" where
  "durability_rank Memory = 0" | "durability_rank Written = 1" | "durability_rank Durable = 2"

definition max_durability :: "durability list \<Rightarrow> durability" where
  "max_durability ds =
     (case ds of [] \<Rightarrow> durability_default
      | d # rest \<Rightarrow> foldl (\<lambda>best d. if durability_rank best \<le> durability_rank d then d else best) d rest)"

definition code_for :: "('e, 'se, 'je) lug_error \<Rightarrow> code" where
  "code_for e = (case e of DataError _ \<Rightarrow> Rejected | StorageError _ \<Rightarrow> CodeStorage | CodecError _ \<Rightarrow> Rejected
     | VersionError _ _ \<Rightarrow> Internal)"

fun decode_patches :: "(json \<Rightarrow> 'je + 'p) \<Rightarrow> json list \<Rightarrow> 'je + 'p list" where
  "decode_patches of_value [] = Inr []"
| "decode_patches of_value (j # js) =
     rbind (of_value j) (\<lambda>p. rbind (decode_patches of_value js) (\<lambda>ps. Inr (p # ps)))"

text \<open>A patch that changed nothing mints no version, and its view repeats the one before.\<close>

fun minted_versions :: "('v \<Rightarrow> version) \<Rightarrow> version \<Rightarrow> 'v list \<Rightarrow> version option list" where
  "minted_versions vver latest [] = []"
| "minted_versions vver latest (v # vs) =
     (if latest < vver v then Some (vver v) else None) # minted_versions vver (max latest (vver v)) vs"

text \<open>The minted versions dealt back to the requests, with the entries for the ring.\<close>

fun deal :: "'p job list \<Rightarrow> version option list \<Rightarrow> (nat \<times> version list) list \<times> entry list" where
  "deal [] ms = ([], [])"
| "deal (j # js) ms =
     (let n = length (job_patches j);
          mine = List.map_filter (\<lambda>(patch, m). map_option (\<lambda>v. (v, patch)) m) (zip (job_raw j) (take n ms));
          (acks, fresh) = deal js (drop n ms)
      in ((job_reply j, map fst mine) # acks,
          map (\<lambda>(v, patch). \<lparr>en_version = v, en_patch = patch, en_bytes = estimate patch\<rparr>) mine @ fresh))"

definition publish ::
    "('d, 'p, 'v, 'st, 'e, 's, 'se, 'je) actor_env \<Rightarrow> ('d, 's) actor \<Rightarrow> entry list \<Rightarrow> ('d, 's) actor" where
  "publish E a fresh =
     (if fresh = [] then a
      else
        let watermark = log_watermark (ac_log a);
            a1 = a\<lparr>ac_ring := ring_push (ac_ring a) fresh, ac_watermark := watermark\<rparr>;
            a2 = (if 0 < ac_every a \<and> ac_every a \<le> u64_wrapping_sub watermark (ac_checkpointed a)
                  then case log_checkpoint (ae_data E) (ae_storage E) (ac_log a1) of
                      (l, r) \<Rightarrow>
                        (case (r :: ('e, 'se, 'je) lug_error + unit) of
                           Inr _ \<Rightarrow> a1\<lparr>ac_log := l, ac_checkpointed := watermark\<rparr>
                         | Inl e \<Rightarrow> a1\<lparr>ac_log := l\<rparr>)
                  else a1)
        in a2\<lparr>ac_oldest := log_oldest (ae_storage E) (ac_log a2)\<rparr>)"

text \<open>The part of \<open>actor_commit\<close> up to the error, and the answers of a success.\<close>

definition commit_batch ::
    "('d, 'p, 'v, 'st, 'e, 's, 'se, 'je) actor_env \<Rightarrow> ('d, 's) actor \<Rightarrow> 'p job list \<Rightarrow>
     ('d, 's) actor \<times> (('e, 'se, 'je) lug_error + (nat \<times> answer) list)" where
  "commit_batch E a jobs =
     (let durability = max_durability (map job_durability jobs);
          patches = concat (map job_patches jobs);
          base = log_watermark (ac_log a)
      in case log_append (ae_data E) (ae_storage E) (ae_enc E) (ac_log a) patches durability of
          (l, Inl e) \<Rightarrow> (a\<lparr>ac_log := l\<rparr>, Inl e)
        | (l, Inr views) \<Rightarrow>
            let a1 = a\<lparr>ac_log := l, ac_metrics := metrics_record (ac_metrics a) (length patches) (durability = Durable)\<rparr>;
                (acks, fresh) = deal jobs (minted_versions (v_version (ae_data E)) base views)
            in (publish E a1 fresh,
                Inr (map (\<lambda>(reply, versions). (reply, AAppend (Inr \<lparr>ak_versions = versions, ak_synced = log_synced l\<rparr>))) acks)))"

text \<open>A single request that fails is answered with its error.\<close>

definition commit_one ::
    "('d, 'p, 'v, 'st, 'e, 's, 'se, 'je) actor_env \<Rightarrow> ('d, 's) actor \<Rightarrow> 'p job \<Rightarrow> ('d, 's) actor \<times> (nat \<times> answer) list" where
  "commit_one E a j =
     (case commit_batch E a [j] of
        (a', Inl e) \<Rightarrow> (a', [(job_reply j, AAppend (Inl (code_for e, ae_show E e)))])
      | (a', Inr answers) \<Rightarrow> (a', answers))"

fun isolate_loop ::
    "('d, 'p, 'v, 'st, 'e, 's, 'se, 'je) actor_env \<Rightarrow> ('d, 's) actor \<Rightarrow> 'p job list \<Rightarrow> ('d, 's) actor \<times> (nat \<times> answer) list" where
  "isolate_loop E a [] = (a, [])"
| "isolate_loop E a (j # js) =
     (let (a1, r1) = commit_one E a j; (a2, r2) = isolate_loop E a1 js in (a2, r1 @ r2))"

definition isolate ::
    "('d, 'p, 'v, 'st, 'e, 's, 'se, 'je) actor_env \<Rightarrow> ('d, 's) actor \<Rightarrow> 'p job list \<Rightarrow> ('e, 'se, 'je) lug_error \<Rightarrow>
     ('d, 's) actor \<times> (nat \<times> answer) list" where
  "isolate E a jobs e =
     (case jobs of
        [j] \<Rightarrow> (a, [(job_reply j, AAppend (Inl (code_for e, ae_show E e)))])
      | _ \<Rightarrow> isolate_loop E a jobs)"

definition actor_commit ::
    "('d, 'p, 'v, 'st, 'e, 's, 'se, 'je) actor_env \<Rightarrow> ('d, 's) actor \<Rightarrow> 'p job list \<Rightarrow> ('d, 's) actor \<times> (nat \<times> answer) list" where
  "actor_commit E a jobs =
     (if jobs = [] then (a, [])
      else case commit_batch E a jobs of
          (a', Inl e) \<Rightarrow> isolate E a' jobs e
        | (a', Inr answers) \<Rightarrow> (a', answers))"

section \<open>Reads\<close>

definition actor_view ::
    "('d, 'p, 'v, 'st, 'e, 's, 'se, 'je) actor_env \<Rightarrow> ('d, 's) actor \<Rightarrow> version option \<Rightarrow> failure + version \<times> json" where
  "actor_view E a at_version =
     (case at_version of
        Some version \<Rightarrow>
          (case log_view_at (ae_data E) (ac_log a) version of
             None \<Rightarrow> Inl (OutOfRange, ''version '' @ dec_digits version @ '' is not retained'')
           | Some view \<Rightarrow> Inr (v_version (ae_data E) (lv_view view), v_state (ae_data E) (lv_view view)))
      | None \<Rightarrow>
          (let view = log_view (ae_data E) (ac_log a)
           in Inr (v_version (ae_data E) (lv_view view), v_state (ae_data E) (lv_view view))))"

fun record_entries :: "(bytes \<Rightarrow> 'je + json) \<Rightarrow> log_record list \<Rightarrow> 'je + entry list" where
  "record_entries of_slice [] = Inr []"
| "record_entries of_slice (r # rs) =
     rbind (of_slice (rec_patch r)) (\<lambda>patch. rbind (record_entries of_slice rs) (\<lambda>es.
       Inr (\<lparr>en_version = rec_version r, en_patch = patch, en_bytes = length (rec_patch r)\<rparr> # es)))"

definition actor_catch_up ::
    "('d, 'p, 'v, 'st, 'e, 's, 'se, 'je) actor_env \<Rightarrow> ('d, 's) actor \<Rightarrow> version \<Rightarrow> nat \<Rightarrow> failure + catch_up" where
  "actor_catch_up E a after limit =
     (let oldest = log_oldest (ae_storage E) (ac_log a) in
      if u64_wrapping_add after 1 < oldest then Inr (CuGap (oldest - 1))
      else case log_read_after (ae_storage E) (ac_log a) after limit of
          Inl e \<Rightarrow> Inl (CodeStorage, ae_show E e)
        | Inr [] \<Rightarrow>
            if log_watermark (ac_log a) \<le> after then Inr (CuRecords [])
            else
              let resume = (case ring_oldest (ac_ring a) of Some v \<Rightarrow> v | None \<Rightarrow> log_watermark (ac_log a) + 1)
              in Inr (CuGap (resume - 1))
        | Inr (first # rest) \<Rightarrow>
            if rec_version first = u64_wrapping_add after 1
            then case record_entries (ae_from_slice E) (first # rest) of
                Inl e \<Rightarrow> Inl (Internal, ae_show_json E e)
              | Inr es \<Rightarrow> Inr (CuRecords es)
            else Inr (CuGap (u64_wrapping_sub (rec_version first) 1)))"

text \<open>Commands other than appends; the last equation is the branch the code calls unreachable.\<close>

fun actor_answer ::
    "('d, 'p, 'v, 'st, 'e, 's, 'se, 'je) actor_env \<Rightarrow> ('d, 's) actor \<Rightarrow> command \<Rightarrow> ('d, 's) actor \<times> (nat \<times> answer) list" where
  "actor_answer E a (CmdView at_version reply) = (a, [(reply, AView (actor_view E a at_version))])"
| "actor_answer E a (CmdCatchUp after limit reply) = (a, [(reply, ACatchUp (actor_catch_up E a after limit))])"
| "actor_answer E a (CmdCheckpoint reply) =
     (case log_checkpoint (ae_data E) (ae_storage E) (ac_log a) of
        (l, Inl e) \<Rightarrow> (a\<lparr>ac_log := l\<rparr>, [(reply, ACheckpoint (Inl (CodeStorage, ae_show E e)))])
      | (l, Inr _) \<Rightarrow> (a\<lparr>ac_log := l, ac_checkpointed := log_watermark l\<rparr>, [(reply, ACheckpoint (Inr ()))]))"
| "actor_answer E a (CmdAppend patches dur reply) = (a, [])"

section \<open>The loop\<close>

fun drain ::
    "('d, 'p, 'v, 'st, 'e, 's, 'se, 'je) actor_env \<Rightarrow> ('d, 's) actor \<Rightarrow> 'p job list \<Rightarrow> command list \<Rightarrow>
     ('d, 's) actor \<times> (nat \<times> answer) list" where
  "drain E a batch [] = actor_commit E a batch"
| "drain E a batch (CmdAppend patches dur reply # queue) =
     (case decode_patches (ae_from_value E) patches of
        Inr decoded \<Rightarrow>
          drain E a (batch @ [\<lparr>job_raw = patches, job_patches = decoded, job_durability = dur, job_reply = reply\<rparr>]) queue
      | Inl e \<Rightarrow>
          (case drain E a batch queue of
             (a', answers) \<Rightarrow> (a', (reply, AAppend (Inl (Rejected, ae_show_json E e))) # answers)))"
| "drain E a batch (other # queue) =
     (case actor_commit E a batch of
        (a1, r1) \<Rightarrow>
          (case actor_answer E a1 other of
             (a2, r2) \<Rightarrow>
               (case drain E a2 [] queue of (a3, r3) \<Rightarrow> (a3, r1 @ r2 @ r3))))"

text \<open>One turn of \<open>run\<close>: the first command, then what is already queued up to the batch size.\<close>

fun take_queue :: "nat \<Rightarrow> nat \<Rightarrow> command list \<Rightarrow> command list \<times> command list" where
  "take_queue batch patches [] = ([], [])"
| "take_queue batch patches (c # inbox) =
     (if patches < batch
      then case take_queue batch (patches + patch_count c) inbox of (taken, rest) \<Rightarrow> (c # taken, rest)
      else ([], c # inbox))"

fun actor_turn ::
    "('d, 'p, 'v, 'st, 'e, 's, 'se, 'je) actor_env \<Rightarrow> ('d, 's) actor \<Rightarrow> command list \<Rightarrow>
     ('d, 's) actor \<times> command list \<times> (nat \<times> answer) list" where
  "actor_turn E a [] = (a, [], [])"
| "actor_turn E a (first # inbox) =
     (case take_queue (ac_batch a) (patch_count first) inbox of
        (taken, rest) \<Rightarrow>
          (case drain E a [] (first # taken) of (a', answers) \<Rightarrow> (a', rest, answers)))"

lemma take_queue_append: "take_queue b p inbox = (taken, rest) \<Longrightarrow> taken @ rest = inbox"
  by (induction b p inbox arbitrary: taken rest rule: take_queue.induct) (auto split: if_splits prod.splits)

lemma actor_turn_shorter: "inbox \<noteq> [] \<Longrightarrow> actor_turn E a inbox = (a', rest, r) \<Longrightarrow> length rest < length inbox"
  by (cases inbox) (auto split: prod.splits dest!: take_queue_append)

function actor_run ::
    "('d, 'p, 'v, 'st, 'e, 's, 'se, 'je) actor_env \<Rightarrow> ('d, 's) actor \<Rightarrow> command list \<Rightarrow> ('d, 's) actor \<times> (nat \<times> answer) list" where
  "actor_run E a inbox =
     (if inbox = [] then (a, [])
      else case actor_turn E a inbox of
          (a1, rest, r1) \<Rightarrow> (case actor_run E a1 rest of (a2, r2) \<Rightarrow> (a2, r1 @ r2)))"
  by pat_completeness auto

termination
  by (relation "measure (\<lambda>(E, a, inbox). length inbox)") (auto dest: actor_turn_shorter [OF _ sym])

declare actor_run.simps [simp del]

definition refuse :: "command list \<Rightarrow> string \<Rightarrow> (nat \<times> answer) list" where
  "refuse inbox err = map (\<lambda>c. fail_command c (CodeStorage, err)) inbox"

end
