(* ===== verification/ServerActorProps.thy ===== *)
theory ServerActorProps
  imports ServerActor
begin

text \<open>
  What the actor promises: every command is answered exactly once, and over a storage that does
  not fail every version minted is acknowledged to the request that made it and stands in the
  ring before it is. And what a failed flush makes of that.
\<close>

section \<open>Answers\<close>

lemma deal_replies [simp]: "map fst (fst (deal jobs ms)) = map job_reply jobs"
proof (induction jobs arbitrary: ms)
  case (Cons j jobs)
  obtain acks es where "deal jobs (drop (length (job_patches j)) ms) = (acks, es)" by fastforce
  then show ?case using Cons.IH [of "drop (length (job_patches j)) ms"] by (simp add: Let_def)
qed simp

lemma commit_batch_replies:
  "commit_batch E a jobs = (a', Inr answers) \<Longrightarrow> map fst answers = map job_reply jobs"
  using deal_replies
  by (auto simp: commit_batch_def Let_def comp_def case_prod_beta split: prod.splits sum.splits)

lemma commit_one_replies [simp]: "map fst (snd (commit_one E a j)) = [job_reply j]"
  using commit_batch_replies [of E a "[j]"] by (auto simp: commit_one_def split: prod.splits sum.splits)

lemma isolate_loop_replies [simp]: "map fst (snd (isolate_loop E a jobs)) = map job_reply jobs"
proof (induction jobs arbitrary: a)
  case (Cons j jobs)
  obtain a1 r1 where 1: "commit_one E a j = (a1, r1)" by (cases "commit_one E a j")
  obtain a2 r2 where 2: "isolate_loop E a1 jobs = (a2, r2)" by (cases "isolate_loop E a1 jobs")
  show ?case using commit_one_replies [of E a j] Cons.IH [of a1] by (simp add: 1 2)
qed simp

lemma actor_commit_replies [simp]: "map fst (snd (actor_commit E a jobs)) = map job_reply jobs"
proof (cases "jobs = []")
  case False
  obtain a' res where run: "commit_batch E a jobs = (a', res)" by (cases "commit_batch E a jobs")
  have iso: "map fst (snd (isolate E a' jobs e)) = map job_reply jobs" for e
    unfolding isolate_def by (cases jobs) (simp_all split: list.split del: isolate_loop.simps)
  show ?thesis using run False iso commit_batch_replies [of E a jobs a'] by (cases res) (simp_all add: actor_commit_def)
qed (simp add: actor_commit_def)

lemma answer_replies: "\<not> (\<exists>ps dur r. c = CmdAppend ps dur r) \<Longrightarrow> map fst (snd (actor_answer E a c)) = [cmd_reply c]"
  by (cases c) (auto split: prod.splits sum.splits)

lemma drain_other:
  assumes "\<not> (\<exists>ps dur r. c = CmdAppend ps dur r)" "actor_commit E a batch = (a1, r1)" "actor_answer E a1 c = (a2, r2)"
    "drain E a2 [] queue = (a3, r3)"
  shows "drain E a batch (c # queue) = (a3, r1 @ r2 @ r3)"
  using assms by (cases c) auto

lemma drain_replies:
  "mset (map fst (snd (drain E a batch queue))) = mset (map job_reply batch) + mset (map cmd_reply queue)"
proof (induction queue arbitrary: a batch)
  case Nil
  then show ?case by simp
next
  case (Cons c queue)
  show ?case
  proof (cases "\<exists>ps dur r. c = CmdAppend ps dur r")
    case True
    then obtain ps dur r where c: "c = CmdAppend ps dur r" by blast
    show ?thesis
    proof (cases "decode_patches (ae_from_value E) ps")
      case (Inl e)
      obtain a' answers where "drain E a batch queue = (a', answers)" by (cases "drain E a batch queue")
      then show ?thesis using Cons.IH [of a batch] Inl by (simp add: c)
    next
      case (Inr decoded)
      then show ?thesis
        using Cons.IH [of a "batch @ [\<lparr>job_raw = ps, job_patches = decoded, job_durability = dur, job_reply = r\<rparr>]"]
        by (simp add: c)
    qed
  next
    case False
    obtain a1 r1 where 1: "actor_commit E a batch = (a1, r1)" by (cases "actor_commit E a batch")
    obtain a2 r2 where 2: "actor_answer E a1 c = (a2, r2)" by (cases "actor_answer E a1 c")
    obtain a3 r3 where 3: "drain E a2 [] queue = (a3, r3)" by (cases "drain E a2 [] queue")
    have "drain E a batch (c # queue) = (a3, r1 @ r2 @ r3)" by (rule drain_other [OF False 1 2 3])
    moreover have "map fst r1 = map job_reply batch" "map fst r2 = [cmd_reply c]"
      using actor_commit_replies [of E a batch] answer_replies [OF False, of E a1] 1 2 by simp_all
    ultimately show ?thesis using Cons.IH [of a2 "[]"] 3 by simp
  qed
qed

text \<open>
  C8: The actor answers. However the inbox is cut into batches, whatever fails to decode, to
  apply, to be written or to be flushed, and however often a batch is taken apart, by the time
  the inbox is empty every command in it has been sent exactly one answer on its own channel.
\<close>

theorem actor_answers_each_once:
  "mset (map fst (snd (actor_run E a inbox))) = mset (map cmd_reply inbox)"
proof (induction E a inbox rule: actor_run.induct)
  case (1 E a inbox)
  show ?case
  proof (cases inbox)
    case Nil
    then show ?thesis by (subst actor_run.simps) simp
  next
    case (Cons first queued)
    obtain taken rest where t: "take_queue (ac_batch a) (patch_count first) queued = (taken, rest)"
      by (cases "take_queue (ac_batch a) (patch_count first) queued")
    obtain a1 r1 where d: "drain E a [] (first # taken) = (a1, r1)" by (cases "drain E a [] (first # taken)")
    obtain a2 r2 where r: "actor_run E a1 rest = (a2, r2)" by (cases "actor_run E a1 rest")
    have turn: "actor_turn E a inbox = (a1, rest, r1)" by (simp add: Cons t d)
    have "mset (map fst r1) = mset (map cmd_reply (first # taken))"
      using drain_replies [of E a "[]" "first # taken"] d by simp
    moreover have "mset (map fst r2) = mset (map cmd_reply rest)"
      using "1.IH" [OF _ turn [symmetric] refl] r Cons by simp
    moreover have "queued = taken @ rest" using take_queue_append [OF t] by simp
    ultimately show ?thesis using turn r Cons by (subst actor_run.simps) simp
  qed
qed

section \<open>What a batch mints\<close>

lemma run_join: "lo \<le> mid \<Longrightarrow> mid \<le> hi \<Longrightarrow> [Suc lo..<Suc mid] @ [Suc mid..<Suc hi] = [Suc lo..<Suc hi]"
  using upt_add_eq_append [of "Suc lo" "Suc mid" "hi - mid"] by simp

text \<open>Views that count on from \<open>b\<close>, and where they get to.\<close>

fun counts :: "('v \<Rightarrow> version) \<Rightarrow> version \<Rightarrow> 'v list \<Rightarrow> bool" where
  "counts vver b [] \<longleftrightarrow> True"
| "counts vver b (v # vs) \<longleftrightarrow> (vver v = b \<or> vver v = Suc b) \<and> counts vver (vver v) vs"

fun reached :: "('v \<Rightarrow> version) \<Rightarrow> version \<Rightarrow> 'v list \<Rightarrow> version" where
  "reached vver b [] = b"
| "reached vver b (v # vs) = reached vver (vver v) vs"

lemma length_minted [simp]: "length (minted_versions vver b vs) = length vs"
  by (induction vs arbitrary: b) auto

fun somes :: "'a option list \<Rightarrow> 'a list" where
  "somes [] = []"
| "somes (x # xs) = (case x of None \<Rightarrow> somes xs | Some v \<Rightarrow> v # somes xs)"

lemma somes_append [simp]: "somes (xs @ ys) = somes xs @ somes ys"
  by (induction xs) (auto split: option.split)

lemma minted_counts:
  "counts vver b vs \<Longrightarrow> b \<le> reached vver b vs \<and>
   somes (minted_versions vver b vs) = [Suc b..<Suc (reached vver b vs)]"
proof (induction vs arbitrary: b)
  case (Cons v vs)
  have "vver v = b \<or> vver v = Suc b" "counts vver (vver v) vs" using Cons.prems by simp_all
  moreover note Cons.IH [OF this(2)]
  ultimately show ?case by (auto simp: upt_conv_Cons)
qed simp

lemma zip_minted:
  "length raw = length ms \<Longrightarrow>
   map fst (List.map_filter (\<lambda>(patch, m). map_option (\<lambda>v. (v, patch)) m) (zip raw ms)) = somes ms"
proof (induction raw ms rule: list_induct2)
  case (Cons x xs y ys)
  then show ?case by (cases y) (simp_all add: List.map_filter_def)
qed (simp add: List.map_filter_def)

lemma deal_versions:
  "length ms = length (concat (map job_patches jobs)) \<Longrightarrow> \<forall>j \<in> set jobs. length (job_raw j) = length (job_patches j) \<Longrightarrow>
   deal jobs ms = (acks, es) \<Longrightarrow>
   concat (map snd acks) = somes ms \<and> map en_version es = somes ms"
proof (induction jobs arbitrary: ms acks es)
  case (Cons j jobs)
  let ?n = "length (job_patches j)"
  obtain acks' es' where rest: "deal jobs (drop ?n ms) = (acks', es')" by fastforce
  let ?mine = "List.map_filter (\<lambda>(patch, m). map_option (\<lambda>v. (v, patch)) m) (zip (job_raw j) (take ?n ms))"
  have mine: "map fst ?mine = somes (take ?n ms)"
    using Cons.prems(1,2) by (intro zip_minted) simp
  have out: "acks = (job_reply j, map fst ?mine) # acks'"
    "es = map (\<lambda>(v, patch). \<lparr>en_version = v, en_patch = patch, en_bytes = estimate patch\<rparr>) ?mine @ es'"
    using Cons.prems(3) rest by (simp_all add: Let_def)
  have "map en_version (map (\<lambda>(v, patch). \<lparr>en_version = v, en_patch = patch, en_bytes = estimate patch\<rparr>) ?mine) = map fst ?mine"
    by (simp add: comp_def case_prod_beta)
  moreover have "concat (map snd acks') = somes (drop ?n ms) \<and> map en_version es' = somes (drop ?n ms)"
    using Cons.prems(1,2) rest by (intro Cons.IH) auto
  moreover have "somes ms = somes (take ?n ms) @ somes (drop ?n ms)"
    by (metis append_take_drop_id somes_append)
  ultimately show ?case using mine by (simp add: out)
qed simp

section \<open>The invariant of an actor\<close>

text \<open>
  The log's own invariant, any further one \<open>J\<close> its operations keep, and what the actor shares:
  the ring ends at the watermark and the published watermark is the log's.
\<close>

definition log_keeps ::
    "(('d, 's) lug_log \<Rightarrow> bool) \<Rightarrow> ('d, 'p, 'v, 'st, 'e) reducible_ops \<Rightarrow> ('s, 'v, 'se) storage_ops \<Rightarrow> ('p \<Rightarrow> 'je + bytes) \<Rightarrow>
     ('p \<Rightarrow> bool) \<Rightarrow> (('d, 's) lug_log \<Rightarrow> bool) \<Rightarrow> bool" where
  "log_keeps J R S enc good I \<longleftrightarrow>
     (\<forall>l ps dur l' r. I l \<and> J l \<and> (\<forall>p \<in> set ps. good p) \<and> log_append R S enc l ps dur = (l', r) \<longrightarrow> J l') \<and>
     (\<forall>l l' r. I l \<and> J l \<and> log_checkpoint R S l = (l', r :: ('e, 'se, 'je) lug_error + unit) \<longrightarrow> J l')"

lemma log_keeps_trivial [simp]: "log_keeps (\<lambda>l. True) R S enc good I"
  by (simp add: log_keeps_def)

definition actor_inv ::
    "(('d, 's) lug_log \<Rightarrow> bool) \<Rightarrow> ('d, 'p, 'v, 'st, 'e) reducible_ops \<Rightarrow> (bytes \<Rightarrow> 'je + 'p) \<Rightarrow> ('d \<Rightarrow> bool) \<Rightarrow> 'se itself \<Rightarrow>
     ('s \<Rightarrow> 'v option \<times> log_record list) \<Rightarrow> ('s \<Rightarrow> bool) \<Rightarrow> ('s \<Rightarrow> bool) \<Rightarrow> 'd \<Rightarrow> ('d, 's) actor \<Rightarrow> bool" where
  "actor_inv J R dec dwf se sabs sok staint zero a \<longleftrightarrow>
     log_inv R dec dwf se sabs sok staint zero (ac_log a) \<and> J (ac_log a) \<and>
     ring_at (ac_ring a) (log_watermark (ac_log a)) \<and> ac_watermark a = log_watermark (ac_log a)"

definition acked :: "(nat \<times> answer) list \<Rightarrow> version list" where
  "acked answers = concat (map (\<lambda>(reply, ans). case ans of AAppend (Inr a) \<Rightarrow> ak_versions a | _ \<Rightarrow> []) answers)"

lemma acked_simps [simp]:
  "acked [] = []" "acked (xs @ ys) = acked xs @ acked ys"
  "acked ((r, AAppend (Inl f)) # xs) = acked xs"
  "acked ((r, AView v) # xs) = acked xs" "acked ((r, ACatchUp c) # xs) = acked xs" "acked ((r, ACheckpoint k) # xs) = acked xs"
  by (simp_all add: acked_def)

lemma acked_acks: "acked (map (\<lambda>(reply, vs). (reply, AAppend (Inr \<lparr>ak_versions = vs, ak_synced = s\<rparr>))) acks) = concat (map snd acks)"
  by (induction acks) (auto simp: acked_def)

definition job_ok :: "('p \<Rightarrow> bool) \<Rightarrow> 'p job \<Rightarrow> bool" where
  "job_ok good j \<longleftrightarrow> length (job_raw j) = length (job_patches j) \<and> (\<forall>p \<in> set (job_patches j). good p)"

lemma decode_patches_ok:
  "decode_patches of_value js = Inr ps \<Longrightarrow> \<forall>v p. of_value v = Inr p \<longrightarrow> good p \<Longrightarrow> length js = length ps \<and> (\<forall>p \<in> set ps. good p)"
  by (induction js arbitrary: ps) (auto simp: rbind_Inr_iff)

section \<open>Group commit over the contracts\<close>

context durable_log
begin

text \<open>The views of a fold count the versions it mints.\<close>

lemma fold_counts:
  fixes enc :: "'p \<Rightarrow> 'je + bytes"
  assumes "wf (log_data l)" "\<forall>p \<in> set ps. pwf p"
    "append_fold R enc l ps records views = (Inr (l', records', views')
      :: (('d, 's) lug_log \<times> ('e, 'se, 'je) lug_error) + (('d, 's) lug_log \<times> log_record list \<times> 'v list))"
  shows "\<exists>new. views' = views @ new \<and> counts (v_version R) (r_version R (log_data l)) new \<and>
    reached (v_version R) (r_version R (log_data l)) new = r_version R (log_data l')"
  using assms
proof (induction ps arbitrary: l records views)
  case (Cons p ps)
  obtain encoded where enc: "enc p = Inr encoded" using Cons.prems(3) by (cases "enc p") auto
  obtain staged where stage: "r_stage_patch R (log_data l) (r_stage R (log_data l)) p = Inr staged"
    using Cons.prems(3) enc by (cases "r_stage_patch R (log_data l) (r_stage R (log_data l)) p") auto
  obtain d' res where commit: "r_commit R (log_data l) staged = (d', res)" by (cases "r_commit R (log_data l) staged")
  obtain view where res: "res = Inr view" using Cons.prems(3) enc stage commit by (cases res) auto
  have app: "r_apply R (log_data l) p = (d', Inr view)" using stage commit res by (simp add: r_apply_def)
  have p: "pwf p" using Cons.prems(2) by simp
  show ?case
  proof (cases view)
    case None
    have same: "d' = log_data l" using apply_none [OF Cons.prems(1) p] app None by simp
    have "append_fold R enc (l\<lparr>log_data := d'\<rparr>) ps records (views @ [r_view R d']) = (Inr (l', records', views')
      :: (('d, 's) lug_log \<times> ('e, 'se, 'je) lug_error) + (('d, 's) lug_log \<times> log_record list \<times> 'v list))"
      using Cons.prems(3) enc stage commit res None by simp
    from Cons.IH [OF _ _ this] obtain new where "views' = (views @ [r_view R d']) @ new"
      "counts (v_version R) (r_version R d') new" "reached (v_version R) (r_version R d') new = r_version R (log_data l')"
      using Cons.prems same by auto
    then show ?thesis using same by (intro exI [of _ "r_view R d' # new"]) (simp add: r_version_def)
  next
    case (Some v)
    note ver = apply_version [OF Cons.prems(1) p app [unfolded Some]]
    have "append_fold R enc (l\<lparr>log_data := d'\<rparr>) ps (records @ [\<lparr>rec_version = v_version R v, rec_patch = encoded\<rparr>])
        (views @ [v]) = (Inr (l', records', views')
      :: (('d, 's) lug_log \<times> ('e, 'se, 'je) lug_error) + (('d, 's) lug_log \<times> log_record list \<times> 'v list))"
      using Cons.prems(3) enc stage commit res Some by simp
    from Cons.IH [OF _ _ this] obtain new where "views' = (views @ [v]) @ new"
      "counts (v_version R) (r_version R d') new" "reached (v_version R) (r_version R d') new = r_version R (log_data l')"
      using Cons.prems ver(2) by auto
    then show ?thesis using ver(1,4) by (intro exI [of _ "v # new"]) simp
  qed
qed simp

lemma append_counts:
  fixes enc :: "'p \<Rightarrow> 'je + bytes" and dec :: "bytes \<Rightarrow> 'je + 'p"
  assumes inv: "log_inv R dec wf TYPE('se) abs swf tainted zero l" and ps: "\<forall>p \<in> set ps. pwf p \<and> used p"
    and codec: "codec_ok enc dec used pwf peq"
    and run: "log_append R S enc l ps dur = (l', Inr views :: ('e, 'se, 'je) lug_error + 'v list)"
  shows "counts (v_version R) (log_watermark l) views \<and> reached (v_version R) (log_watermark l) views = log_watermark l' \<and>
    length views = length ps"
proof (cases "ps = []")
  case True
  then show ?thesis using run by (auto simp: log_append_def)
next
  case False
  have inv': "log_inv R dec wf TYPE('se) abs swf tainted zero l'" "length views = length ps"
    using append_inv [OF inv ps codec run] by auto
  have wf: "wf (log_data l)" "log_watermark l = r_version R (log_data l)" using inv by (simp_all add: log_inv_def)
  obtain l1 records where fold: "append_fold R enc l ps [] [] = (Inr (l1, records, views)
      :: (('d, 's) lug_log \<times> ('e, 'se, 'je) lug_error) + (('d, 's) lug_log \<times> log_record list \<times> 'v list))"
    and "log_data l' = log_data l1"
    using run False by (auto simp: log_append_def Let_def split: sum.splits prod.splits if_splits)
  then show ?thesis using fold_counts [OF wf(1) _ fold] ps inv' by (auto simp: wf(2) log_inv_def)
qed

text \<open>With a storage whose flush does not fail, a failed append leaves the version where it was.\<close>

lemma append_err_version:
  fixes enc :: "'p \<Rightarrow> 'je + bytes" and dec :: "bytes \<Rightarrow> 'je + 'p"
  assumes inv: "log_inv R dec wf TYPE('se) abs swf tainted zero l" and ps: "\<forall>p \<in> set ps. pwf p \<and> used p"
    and codec: "codec_ok enc dec used pwf peq" "\<forall>p. used p \<longrightarrow> (\<exists>b. enc p = Inr b)"
    and sync: "\<And>s. \<exists>s'. s_sync S s = (s', Inr ())"
    and run: "log_append R S enc l ps dur = (l', Inl e :: ('e, 'se, 'je) lug_error + 'v list)"
  shows "log_inv R dec wf TYPE('se) abs swf tainted zero l' \<and> log_watermark l' = log_watermark l"
proof -
  have "\<forall>p \<in> set ps. \<exists>b. enc p = Inr b" using ps codec(2) by blast
  then have nc: "\<forall>je. (Inl e :: ('e, 'se, 'je) lug_error + 'v list) \<noteq> Inl (CodecError je)"
    using append_no_codec [of ps enc l dur] run by simp
  have keeps: "append_fold R enc l ps records views = (Inl (l1, er) :: (('d, 's) lug_log \<times> ('e, 'se, 'je) lug_error) + _) \<Longrightarrow>
      log_watermark l1 = log_watermark l" for l ps records views l1 er
    by (induction ps arbitrary: l records views)
      (auto simp: log_unwind_def split: sum.splits prod.splits option.splits)
  have keeps2: "append_fold R enc l ps records views = (Inr (l1, rs, vs) :: (('d, 's) lug_log \<times> ('e, 'se, 'je) lug_error) + _) \<Longrightarrow>
      log_watermark l1 = log_watermark l" for l ps records views l1 rs vs
    by (induction ps arbitrary: l records views)
      (auto simp: log_unwind_def split: sum.splits prod.splits option.splits)
  have "log_watermark l' = log_watermark l"
  proof (cases "append_fold R enc l ps [] [] :: (('d, 's) lug_log \<times> ('e, 'se, 'je) lug_error) + _")
    case (Inl q)
    obtain l1 er where q: "q = (l1, er)" by (cases q)
    then show ?thesis using run keeps [OF Inl [unfolded q]] Inl by (auto simp: log_append_def split: if_splits)
  next
    case (Inr q)
    obtain l1 rs vs where q: "q = (l1, rs, vs)" by (cases q)
    obtain st ares where ap: "s_append S (log_storage l1) rs = (st, ares)" by (cases "s_append S (log_storage l1) rs")
    show ?thesis
    proof (cases ares)
      case Inl': (Inl er)
      then show ?thesis using run keeps2 [OF Inr [unfolded q]] Inr q ap
        by (auto simp: log_append_def log_unwind_def split: if_splits)
    next
      case Inr': (Inr u)
      obtain st' where "s_sync S st = (st', Inr ())" using sync by blast
      then have False using run Inr q ap Inr' by (auto simp: log_append_def Let_def split: if_splits)
      then show ?thesis ..
    qed
  qed
  then show ?thesis using append_inv [OF inv ps codec(1) run nc] by blast
qed

text \<open>One batch: what it leaves and what it acknowledges.\<close>

lemma publish_inv:
  fixes E :: "('d, 'p, 'v, 'st, 'e, 's, 'se, 'je) actor_env" and dec :: "bytes \<Rightarrow> 'je + 'p"
  assumes E: "ae_data E = R" "ae_storage E = S" and codec: "codec_ok enc dec used pwf peq"
    and keeps: "log_keeps J R S enc (\<lambda>p. pwf p \<and> used p) (log_inv R dec wf TYPE('se) abs swf tainted zero)"
    and inv: "log_inv R dec wf TYPE('se) abs swf tainted zero (ac_log a)" "J (ac_log a)"
    and ring: "ring_at (ac_ring a) base" "base \<le> log_watermark (ac_log a)" "ac_watermark a = base"
    and es: "map en_version es = [Suc base..<Suc (log_watermark (ac_log a))]"
  shows "actor_inv J R dec wf TYPE('se) abs swf tainted zero (publish E a es) \<and>
    log_watermark (ac_log (publish E a es)) = log_watermark (ac_log a)"
proof (cases "es = []")
  case True
  then have "base = log_watermark (ac_log a)" using arg_cong [OF es, of length] ring(2) by simp
  then show ?thesis using True inv ring by (simp add: publish_def actor_inv_def)
next
  case False
  let ?wm = "log_watermark (ac_log a)"
  have len: "length es = ?wm - base" using arg_cong [OF es, of length] by simp
  have "ring_at (ring_push (ac_ring a) es) (base + length es)" using es len ring(2) by (intro ring_push_at ring(1)) simp
  then have pushed: "ring_at (ring_push (ac_ring a) es) ?wm" using len ring(2) by simp
  obtain l r where cp: "log_checkpoint R S (ac_log a) = (l, r :: ('e, 'se, 'je) lug_error + unit)"
    by (cases "log_checkpoint R S (ac_log a) :: ('d, 's) lug_log \<times> (('e, 'se, 'je) lug_error + unit)")
  note k = checkpoint_inv [OF inv(1) codec cp]
  have "J l" using keeps inv cp unfolding log_keeps_def by blast
  then show ?thesis using False inv pushed k cp
    by (auto simp: publish_def actor_inv_def E Let_def split: sum.splits)
qed

lemma commit_batch_inv:
  fixes E :: "('d, 'p, 'v, 'st, 'e, 's, 'se, 'je) actor_env" and dec :: "bytes \<Rightarrow> 'je + 'p"
  assumes E: "ae_data E = R" "ae_storage E = S" and codec: "codec_ok (ae_enc E) dec used pwf peq" "\<forall>p. used p \<longrightarrow> (\<exists>b. ae_enc E p = Inr b)"
    and sync: "\<And>s. \<exists>s'. s_sync S s = (s', Inr ())"
    and keeps: "log_keeps J R S (ae_enc E) (\<lambda>p. pwf p \<and> used p) (log_inv R dec wf TYPE('se) abs swf tainted zero)"
    and inv: "actor_inv J R dec wf TYPE('se) abs swf tainted zero a" and jobs: "\<forall>j \<in> set jobs. job_ok (\<lambda>p. pwf p \<and> used p) j"
    and run: "commit_batch E a jobs = (a', res)"
  shows "actor_inv J R dec wf TYPE('se) abs swf tainted zero a' \<and> log_watermark (ac_log a) \<le> log_watermark (ac_log a') \<and>
    (case res of
       Inl e \<Rightarrow> log_watermark (ac_log a') = log_watermark (ac_log a)
     | Inr answers \<Rightarrow> acked answers = [Suc (log_watermark (ac_log a))..<Suc (log_watermark (ac_log a'))])"
proof -
  let ?ps = "concat (map job_patches jobs)" and ?dur = "max_durability (map job_durability jobs)" and ?wm = "log_watermark (ac_log a)"
  have linv: "log_inv R dec wf TYPE('se) abs swf tainted zero (ac_log a)" and ring: "ring_at (ac_ring a) ?wm" "ac_watermark a = ?wm"
    using inv by (simp_all add: actor_inv_def)
  have ps: "\<forall>p \<in> set ?ps. pwf p \<and> used p" using jobs by (auto simp: job_ok_def)
  obtain l r where ap: "log_append R S (ae_enc E) (ac_log a) ?ps ?dur = (l, r)" by (cases "log_append R S (ae_enc E) (ac_log a) ?ps ?dur")
  have J: "J l" using keeps inv ps ap unfolding log_keeps_def actor_inv_def by blast
  show ?thesis
  proof (cases r)
    case (Inl e)
    then have "a' = a\<lparr>ac_log := l\<rparr>" "res = Inl e" using run ap by (simp_all add: commit_batch_def E Let_def)
    then show ?thesis using append_err_version [OF linv ps codec sync ap [unfolded Inl]] ring J by (simp add: actor_inv_def)
  next
    case (Inr views)
    let ?ms = "minted_versions (v_version R) ?wm views"
    obtain acks es where dealt: "deal jobs ?ms = (acks, es)" by fastforce
    define a1 where "a1 = a\<lparr>ac_log := l, ac_metrics := metrics_record (ac_metrics a) (length ?ps) (?dur = Durable)\<rparr>"
    have out: "a' = publish E a1 es"
      "res = Inr (map (\<lambda>(reply, versions). (reply, AAppend (Inr \<lparr>ak_versions = versions, ak_synced = log_synced l\<rparr>))) acks)"
      using run ap Inr dealt by (simp_all add: commit_batch_def E Let_def a1_def)
    note cnt = append_counts [OF linv ps codec(1) ap [unfolded Inr]]
    have reached: "?wm \<le> log_watermark l" "somes ?ms = [Suc ?wm..<Suc (log_watermark l)]"
      using minted_counts [of "v_version R" ?wm views] cnt by simp_all
    have "length ?ms = length ?ps" using cnt by simp
    then have versions: "concat (map snd acks) = somes ?ms" "map en_version es = somes ?ms"
      using deal_versions [OF _ _ dealt] jobs by (simp_all add: job_ok_def)
    have linv': "log_inv R dec wf TYPE('se) abs swf tainted zero l"
      using append_inv [OF linv ps codec(1) ap] Inr by simp
    have "actor_inv J R dec wf TYPE('se) abs swf tainted zero (publish E a1 es) \<and>
        log_watermark (ac_log (publish E a1 es)) = log_watermark (ac_log a1)"
      using linv' J ring reached versions by (intro publish_inv [OF E codec(1) keeps, where base = ?wm]) (simp_all add: a1_def)
    then show ?thesis using reached versions by (simp add: out acked_acks a1_def)
  qed
qed

lemma commit_one_inv:
  fixes E :: "('d, 'p, 'v, 'st, 'e, 's, 'se, 'je) actor_env" and dec :: "bytes \<Rightarrow> 'je + 'p"
  assumes E: "ae_data E = R" "ae_storage E = S" and codec: "codec_ok (ae_enc E) dec used pwf peq" "\<forall>p. used p \<longrightarrow> (\<exists>b. ae_enc E p = Inr b)"
    and sync: "\<And>s. \<exists>s'. s_sync S s = (s', Inr ())"
    and keeps: "log_keeps J R S (ae_enc E) (\<lambda>p. pwf p \<and> used p) (log_inv R dec wf TYPE('se) abs swf tainted zero)"
    and inv: "actor_inv J R dec wf TYPE('se) abs swf tainted zero a" and job: "job_ok (\<lambda>p. pwf p \<and> used p) j"
    and run: "commit_one E a j = (a', answers)"
  shows "actor_inv J R dec wf TYPE('se) abs swf tainted zero a' \<and> log_watermark (ac_log a) \<le> log_watermark (ac_log a') \<and>
    acked answers = [Suc (log_watermark (ac_log a))..<Suc (log_watermark (ac_log a'))]"
proof -
  obtain a1 res where 1: "commit_batch E a [j] = (a1, res)" by (cases "commit_batch E a [j]")
  have "\<forall>j' \<in> set [j]. job_ok (\<lambda>p. pwf p \<and> used p) j'" using job by simp
  note b = commit_batch_inv [OF E codec sync keeps inv this 1]
  then show ?thesis using run 1 by (cases res) (auto simp: commit_one_def)
qed

lemma isolate_loop_inv:
  fixes E :: "('d, 'p, 'v, 'st, 'e, 's, 'se, 'je) actor_env" and dec :: "bytes \<Rightarrow> 'je + 'p"
  assumes E: "ae_data E = R" "ae_storage E = S" and codec: "codec_ok (ae_enc E) dec used pwf peq" "\<forall>p. used p \<longrightarrow> (\<exists>b. ae_enc E p = Inr b)"
    and sync: "\<And>s. \<exists>s'. s_sync S s = (s', Inr ())"
    and keeps: "log_keeps J R S (ae_enc E) (\<lambda>p. pwf p \<and> used p) (log_inv R dec wf TYPE('se) abs swf tainted zero)"
  shows "actor_inv J R dec wf TYPE('se) abs swf tainted zero a \<Longrightarrow> \<forall>j \<in> set jobs. job_ok (\<lambda>p. pwf p \<and> used p) j \<Longrightarrow>
    isolate_loop E a jobs = (a', answers) \<Longrightarrow>
    actor_inv J R dec wf TYPE('se) abs swf tainted zero a' \<and> log_watermark (ac_log a) \<le> log_watermark (ac_log a') \<and>
    acked answers = [Suc (log_watermark (ac_log a))..<Suc (log_watermark (ac_log a'))]"
proof (induction jobs arbitrary: a a' answers)
  case (Cons j jobs)
  obtain a1 r1 where 1: "commit_one E a j = (a1, r1)" by (cases "commit_one E a j")
  obtain a2 r2 where 2: "isolate_loop E a1 jobs = (a2, r2)" by (cases "isolate_loop E a1 jobs")
  have j: "job_ok (\<lambda>p. pwf p \<and> used p) j" using Cons.prems(2) by simp
  note one = commit_one_inv [OF E codec sync keeps Cons.prems(1) j 1]
  have "actor_inv J R dec wf TYPE('se) abs swf tainted zero a2 \<and> log_watermark (ac_log a1) \<le> log_watermark (ac_log a2) \<and>
      acked r2 = [Suc (log_watermark (ac_log a1))..<Suc (log_watermark (ac_log a2))]"
    using Cons.IH [OF _ _ 2] one Cons.prems(2) by simp
  moreover have "a' = a2" "answers = r1 @ r2" using Cons.prems(3) 1 2 by simp_all
  ultimately show ?case using one by (simp add: run_join)
qed simp

lemma actor_commit_inv:
  fixes E :: "('d, 'p, 'v, 'st, 'e, 's, 'se, 'je) actor_env" and dec :: "bytes \<Rightarrow> 'je + 'p"
  assumes E: "ae_data E = R" "ae_storage E = S" and codec: "codec_ok (ae_enc E) dec used pwf peq" "\<forall>p. used p \<longrightarrow> (\<exists>b. ae_enc E p = Inr b)"
    and sync: "\<And>s. \<exists>s'. s_sync S s = (s', Inr ())"
    and keeps: "log_keeps J R S (ae_enc E) (\<lambda>p. pwf p \<and> used p) (log_inv R dec wf TYPE('se) abs swf tainted zero)"
    and inv: "actor_inv J R dec wf TYPE('se) abs swf tainted zero a" and jobs: "\<forall>j \<in> set jobs. job_ok (\<lambda>p. pwf p \<and> used p) j"
    and run: "actor_commit E a jobs = (a', answers)"
  shows "actor_inv J R dec wf TYPE('se) abs swf tainted zero a' \<and> log_watermark (ac_log a) \<le> log_watermark (ac_log a') \<and>
    acked answers = [Suc (log_watermark (ac_log a))..<Suc (log_watermark (ac_log a'))]"
proof (cases "jobs = []")
  case True
  then show ?thesis using run inv by (simp add: actor_commit_def)
next
  case False
  obtain a1 res where 1: "commit_batch E a jobs = (a1, res)" by (cases "commit_batch E a jobs")
  note b = commit_batch_inv [OF E codec sync keeps inv jobs 1]
  show ?thesis
  proof (cases res)
    case (Inr ans)
    then show ?thesis using run False 1 b by (simp add: actor_commit_def)
  next
    case (Inl e)
    then have b: "actor_inv J R dec wf TYPE('se) abs swf tainted zero a1" "log_watermark (ac_log a1) = log_watermark (ac_log a)"
      and iso: "isolate E a1 jobs e = (a', answers)" using b run False 1 by (simp_all add: actor_commit_def)
    show ?thesis
    proof (cases "\<exists>j. jobs = [j]")
      case True
      then show ?thesis using iso b by (auto simp: isolate_def)
    next
      case False
      then have "isolate_loop E a1 jobs = (a', answers)" using iso \<open>jobs \<noteq> []\<close>
        by (auto simp: isolate_def simp del: isolate_loop.simps split: list.splits)
      from isolate_loop_inv [OF E codec sync keeps b(1) jobs this] show ?thesis by (simp add: b(2))
    qed
  qed
qed

lemma answer_inv:
  fixes E :: "('d, 'p, 'v, 'st, 'e, 's, 'se, 'je) actor_env" and dec :: "bytes \<Rightarrow> 'je + 'p"
  assumes E: "ae_data E = R" "ae_storage E = S" and codec: "codec_ok enc dec used pwf peq"
    and keeps: "log_keeps J R S enc (\<lambda>p. pwf p \<and> used p) (log_inv R dec wf TYPE('se) abs swf tainted zero)"
    and inv: "actor_inv J R dec wf TYPE('se) abs swf tainted zero a"
    and run: "actor_answer E a c = (a', answers)" "\<not> (\<exists>ps dur r. c = CmdAppend ps dur r)"
  shows "actor_inv J R dec wf TYPE('se) abs swf tainted zero a' \<and> log_watermark (ac_log a') = log_watermark (ac_log a) \<and> acked answers = []"
proof (cases c)
  case (CmdCheckpoint reply)
  obtain l r where cp: "log_checkpoint R S (ac_log a) = (l, r :: ('e, 'se, 'je) lug_error + unit)"
    by (cases "log_checkpoint R S (ac_log a) :: ('d, 's) lug_log \<times> (('e, 'se, 'je) lug_error + unit)")
  have "log_inv R dec wf TYPE('se) abs swf tainted zero (ac_log a)" using inv by (simp add: actor_inv_def)
  moreover have "J l" using keeps inv cp unfolding log_keeps_def actor_inv_def by blast
  ultimately show ?thesis using checkpoint_inv [OF _ codec cp] run(1) CmdCheckpoint cp inv by (cases r) (auto simp: E actor_inv_def)
qed (use inv run in auto)

lemma drain_inv:
  fixes E :: "('d, 'p, 'v, 'st, 'e, 's, 'se, 'je) actor_env" and dec :: "bytes \<Rightarrow> 'je + 'p"
  assumes E: "ae_data E = R" "ae_storage E = S" and codec: "codec_ok (ae_enc E) dec used pwf peq" "\<forall>p. used p \<longrightarrow> (\<exists>b. ae_enc E p = Inr b)"
    and vals: "\<forall>v p. ae_from_value E v = Inr p \<longrightarrow> pwf p \<and> used p"
    and sync: "\<And>s. \<exists>s'. s_sync S s = (s', Inr ())"
    and keeps: "log_keeps J R S (ae_enc E) (\<lambda>p. pwf p \<and> used p) (log_inv R dec wf TYPE('se) abs swf tainted zero)"
  shows "actor_inv J R dec wf TYPE('se) abs swf tainted zero a \<Longrightarrow> \<forall>j \<in> set batch. job_ok (\<lambda>p. pwf p \<and> used p) j \<Longrightarrow>
    drain E a batch queue = (a', answers) \<Longrightarrow>
    actor_inv J R dec wf TYPE('se) abs swf tainted zero a' \<and> log_watermark (ac_log a) \<le> log_watermark (ac_log a') \<and>
    acked answers = [Suc (log_watermark (ac_log a))..<Suc (log_watermark (ac_log a'))]"
proof (induction queue arbitrary: a batch a' answers)
  case Nil
  from actor_commit_inv [OF E codec sync keeps Nil.prems(1,2)] Nil.prems(3) show ?case by simp
next
  case (Cons c queue)
  show ?case
  proof (cases "\<exists>ps dur r. c = CmdAppend ps dur r")
    case True
    then obtain ps dur r where c: "c = CmdAppend ps dur r" by blast
    show ?thesis
    proof (cases "decode_patches (ae_from_value E) ps")
      case (Inl e)
      obtain a1 ans where 1: "drain E a batch queue = (a1, ans)" by (cases "drain E a batch queue")
      from Cons.IH [OF Cons.prems(1,2) 1] show ?thesis using Cons.prems(3) Inl 1 by (auto simp: c)
    next
      case (Inr decoded)
      let ?j = "\<lparr>job_raw = ps, job_patches = decoded, job_durability = dur, job_reply = r\<rparr>"
      have "job_ok (\<lambda>p. pwf p \<and> used p) ?j"
        using decode_patches_ok [OF Inr, of "\<lambda>p. pwf p \<and> used p"] vals by (simp add: job_ok_def)
      then have jobs: "\<forall>j \<in> set (batch @ [?j]). job_ok (\<lambda>p. pwf p \<and> used p) j" using Cons.prems(2) by auto
      have "drain E a (batch @ [?j]) queue = (a', answers)" using Cons.prems(3) Inr by (simp add: c)
      from Cons.IH [OF Cons.prems(1) jobs this] show ?thesis .
    qed
  next
    case False
    obtain a1 r1 where 1: "actor_commit E a batch = (a1, r1)" by (cases "actor_commit E a batch")
    obtain a2 r2 where 2: "actor_answer E a1 c = (a2, r2)" by (cases "actor_answer E a1 c")
    obtain a3 r3 where 3: "drain E a2 [] queue = (a3, r3)" by (cases "drain E a2 [] queue")
    have out: "a' = a3" "answers = r1 @ r2 @ r3" using Cons.prems(3) drain_other [OF False 1 2 3] by simp_all
    note i1 = actor_commit_inv [OF E codec sync keeps Cons.prems(1,2) 1]
    have i2: "actor_inv J R dec wf TYPE('se) abs swf tainted zero a2 \<and> log_watermark (ac_log a2) = log_watermark (ac_log a1) \<and> acked r2 = []"
      using answer_inv [OF E codec(1) keeps conjunct1 [OF i1] 2 False] .
    then have i3: "actor_inv J R dec wf TYPE('se) abs swf tainted zero a3 \<and> log_watermark (ac_log a1) \<le> log_watermark (ac_log a3) \<and>
        acked r3 = [Suc (log_watermark (ac_log a1))..<Suc (log_watermark (ac_log a3))]"
      using Cons.IH [of a2 "[]", OF _ _ 3] by simp
    show ?thesis using i1 i2 i3 by (simp add: out run_join)
  qed
qed

lemma actor_run_inv:
  fixes E :: "('d, 'p, 'v, 'st, 'e, 's, 'se, 'je) actor_env" and dec :: "bytes \<Rightarrow> 'je + 'p"
  assumes E: "ae_data E = R" "ae_storage E = S" and codec: "codec_ok (ae_enc E) dec used pwf peq" "\<forall>p. used p \<longrightarrow> (\<exists>b. ae_enc E p = Inr b)"
    and vals: "\<forall>v p. ae_from_value E v = Inr p \<longrightarrow> pwf p \<and> used p"
    and sync: "\<And>s. \<exists>s'. s_sync S s = (s', Inr ())"
    and keeps: "log_keeps J R S (ae_enc E) (\<lambda>p. pwf p \<and> used p) (log_inv R dec wf TYPE('se) abs swf tainted zero)"
  shows "actor_inv J R dec wf TYPE('se) abs swf tainted zero a \<Longrightarrow> actor_run E a inbox = (a', answers) \<Longrightarrow>
    actor_inv J R dec wf TYPE('se) abs swf tainted zero a' \<and> log_watermark (ac_log a) \<le> log_watermark (ac_log a') \<and>
    acked answers = [Suc (log_watermark (ac_log a))..<Suc (log_watermark (ac_log a'))]"
proof (induction "length inbox" arbitrary: a inbox a' answers rule: less_induct)
  case less
  show ?case
  proof (cases inbox)
    case Nil
    then show ?thesis using less.prems by (subst (asm) actor_run.simps) simp
  next
    case (Cons first queued)
    obtain taken rest where t: "take_queue (ac_batch a) (patch_count first) queued = (taken, rest)"
      by (cases "take_queue (ac_batch a) (patch_count first) queued")
    obtain a1 r1 where d: "drain E a [] (first # taken) = (a1, r1)" by (cases "drain E a [] (first # taken)")
    obtain a2 r2 where r: "actor_run E a1 rest = (a2, r2)" by (cases "actor_run E a1 rest")
    have turn: "actor_turn E a inbox = (a1, rest, r1)" by (simp add: Cons t d)
    have "actor_run E a inbox = (a2, r1 @ r2)" using turn r Cons by (subst actor_run.simps) simp
    then have out: "a' = a2" "answers = r1 @ r2" using less.prems(2) by simp_all
    have i1: "actor_inv J R dec wf TYPE('se) abs swf tainted zero a1 \<and> log_watermark (ac_log a) \<le> log_watermark (ac_log a1) \<and>
        acked r1 = [Suc (log_watermark (ac_log a))..<Suc (log_watermark (ac_log a1))]"
      using drain_inv [OF E codec vals sync keeps less.prems(1) _ d] by simp
    have "length rest < length inbox" using actor_turn_shorter [OF _ turn] Cons by simp
    from less.hyps [OF this conjunct1 [OF i1] r] i1 show ?thesis by (simp add: out run_join)
  qed
qed

end

section \<open>Properties\<close>

text \<open>
  C3: Over storage that cannot fail, group commit loses nothing and invents nothing. Open an actor on
  a fresh document log over the in-memory storage, whose appends and flushes always succeed, and
  let it work through any inbox, cut into batches as it happens, with patches that do not decode,
  requests the document refuses, batches taken apart and reads in between. Then the versions
  acknowledged, in the order of the answers, are exactly those minted, each once; the published
  watermark is the version of the document; and the ring holds consecutive versions up to it,
  which is what a subscriber's read relies on. With a flush that fails it is false
  (\<open>failed_flush_doubles_and_skips\<close>). \<open>ae_enc\<close> and \<open>dec\<close> stand for serde_json on patches, and
  what \<open>ae_from_value\<close> decodes is a well-formed patch that it can write.
\<close>

theorem group_commit_acknowledges_each_version:
  assumes "ae_data E = cavlc_ops own" "ae_storage E = (memory_ops snap_version :: (snapshot memory_store, snapshot, unit) storage_ops)"
    and "codec_ok (ae_enc E) dec used patch_wf patch_eq" "\<forall>p. used p \<longrightarrow> (\<exists>b. ae_enc E p = Inr b)"
    and "\<forall>v p. ae_from_value E v = Inr p \<longrightarrow> patch_wf p \<and> used p"
    and "log_open (cavlc_ops own) (memory_ops snap_version :: (snapshot memory_store, snapshot, unit) storage_ops)
          dec (store_new own) (memory_new retain) = Inr l"
    and "actor_run E (actor_new E l (ring_new capacity) batch every) inbox = (a, answers)"
  shows "acked answers = [Suc (log_watermark l)..<Suc (ac_watermark a)] \<and>
    ac_watermark a = log_watermark (ac_log a) \<and> ac_watermark a = snap_version (store_snapshot (log_data (ac_log a))) \<and>
    ring_at (ac_ring a) (ac_watermark a)"
proof -
  have zero: "cavlc_wf (store_new own)" "r_version (cavlc_ops own) (store_new own) = 0" using cavlc_new_wf [of own] by simp_all
  have new: "mem_swf snapshot_wf snap_version (memory_new retain)" "\<not> mem_tainted (memory_new retain)"
    using memory_new_swf by blast+
  let ?a = "actor_new E l (ring_new capacity) batch every"
  have "log_inv (cavlc_ops own) dec cavlc_wf TYPE(unit) (mem_abs snap_version) (mem_swf snapshot_wf snap_version)
      mem_tainted (store_new own) l"
    by (rule cavlc_memory.open_inv [OF assms(3) zero new assms(6), THEN conjunct1])
  then have inv: "actor_inv (\<lambda>l. True) (cavlc_ops own) dec cavlc_wf TYPE(unit) (mem_abs snap_version) (mem_swf snapshot_wf snap_version)
      mem_tainted (store_new own) ?a"
    by (simp add: actor_inv_def actor_new_def)
  have sync: "\<exists>s'. s_sync (memory_ops snap_version :: (snapshot memory_store, snapshot, unit) storage_ops) s = (s', Inr ())" for s
    by (simp add: memory_ops_def)
  note run = cavlc_memory.actor_run_inv [OF assms(1-5) sync log_keeps_trivial inv assms(7)]
  then have "log_watermark (ac_log a) = r_version (cavlc_ops own) (log_data (ac_log a))"
    by (simp add: actor_inv_def log_inv_def)
  then show ?thesis using run by (auto simp: actor_inv_def actor_new_def)
qed

definition wit_env :: "(store, patch, snapshot, batch, cavlc_error, snapshot memory_store, unit, unit) actor_env" where
  "wit_env = \<lparr>ae_data = cavlc_ops 0, ae_storage = memory_ops snap_version, ae_enc = wit_enc,
     ae_from_value = (\<lambda>v. if v = JNull then Inr wit_patch else Inl ()), ae_from_slice = (\<lambda>b. Inl ()),
     ae_show = (\<lambda>e. []), ae_show_json = (\<lambda>e. [])\<rparr>"

theorem group_commit_acknowledges_each_version_witness:
  "\<exists>a answers. actor_run wit_env (actor_new wit_env wit_log (ring_new 4) 8 0)
      [CmdAppend [JBool True] Written 0, CmdAppend [JNull] Durable 1, CmdView None 2] = (a, answers) \<and>
    acked answers = [1..<Suc (ac_watermark a)] \<and> ring_at (ac_ring a) (ac_watermark a)"
proof -
  let ?inbox = "[CmdAppend [JBool True] Written 0, CmdAppend [JNull] Durable 1, CmdView None 2]"
  obtain a answers where run: "actor_run wit_env (actor_new wit_env wit_log (ring_new 4) 8 0) ?inbox = (a, answers)"
    by fastforce
  have "ae_data wit_env = cavlc_ops 0" "ae_storage wit_env = memory_ops snap_version"
    "codec_ok (ae_enc wit_env) wit_dec (\<lambda>p. p = wit_patch) patch_wf patch_eq" "\<forall>p. p = wit_patch \<longrightarrow> (\<exists>b. ae_enc wit_env p = Inr b)"
    "\<forall>v p. ae_from_value wit_env v = Inr p \<longrightarrow> patch_wf p \<and> p = wit_patch"
    using wit_codec wit_ops by (auto simp: wit_env_def wit_enc_def split: if_splits)
  from group_commit_acknowledges_each_version [OF this wit_open run] run show ?thesis
    by (auto simp: wit_log_def)
qed

lemma actor_run_list:
  "actor_run E a [] = (a, [])"
  "actor_run E a (c # cs) = (case actor_turn E a (c # cs) of
     (a1, rest, r1) \<Rightarrow> (case actor_run E a1 rest of (a2, r2) \<Rightarrow> (a2, r1 @ r2)))"
  by (subst actor_run.simps; simp)+

text \<open>A storage that keeps nothing and whose first flush fails, under a log of plain records.\<close>

definition flaky_ops :: "(nat, version, unit) storage_ops" where
  "flaky_ops = \<lparr>
     s_append = (\<lambda>s rs. (s, Inr ())),
     s_write_header = (\<lambda>s v. (s, Inr ())),
     s_sync = (\<lambda>s. (1, if s = 0 then Inl () else Inr ())),
     s_load = (\<lambda>s. (s, Inr recovered_default)),
     s_read_after = (\<lambda>s after limit. Inr []),
     s_oldest = (\<lambda>s. 0)\<rparr>"

definition flaky_env :: "(noop, json, version, nat, overflow, nat, unit, unit) actor_env" where
  "flaky_env = \<lparr>ae_data = noop_ops, ae_storage = flaky_ops, ae_enc = (\<lambda>j. Inr [1]),
     ae_from_value = (\<lambda>v. Inr v), ae_from_slice = (\<lambda>b. Inl ()), ae_show = (\<lambda>e. []), ae_show_json = (\<lambda>e. [])\<rparr>"

definition flaky_actor :: "(noop, nat) actor" where
  "flaky_actor = actor_new flaky_env \<lparr>log_data = \<lparr>noop_version = 0\<rparr>, log_storage = 0, log_watermark = 0, log_synced = 0\<rparr>
     (ring_new 8) 2 0"

text \<open>
  A failed flush doubles a batch and tears the stream. Two requests share a batch whose
  records are written as versions 3 and 4 before the flush fails; taken apart, each is appended
  again, as 5 and 6, and acknowledged. Four versions stand for two patches, and 3 and 4 never
  reach the ring, so a subscriber that has read up to 2 is handed 5 next, with no gap announced.
\<close>

theorem failed_flush_doubles_and_skips:
  "\<exists>a. actor_run flaky_env flaky_actor
      [CmdAppend [JNull, JNull] Written 0, CmdAppend [JBool True] Durable 1, CmdAppend [JBool False] Durable 2] =
      (a, [(0, AAppend (Inr \<lparr>ak_versions = [1, 2], ak_synced = 0\<rparr>)),
           (1, AAppend (Inr \<lparr>ak_versions = [5], ak_synced = 5\<rparr>)),
           (2, AAppend (Inr \<lparr>ak_versions = [6], ak_synced = 6\<rparr>))]) \<and>
    log_watermark (ac_log a) = 6 \<and>
    ring_read_after (ac_ring a) 2 10 100 =
      RingRecords [\<lparr>en_version = 5, en_patch = JBool True, en_bytes = 4\<rparr>, \<lparr>en_version = 6, en_patch = JBool False, en_bytes = 5\<rparr>]"
  by (simp add: actor_run_list flaky_actor_def actor_new_def flaky_env_def flaky_ops_def ring_new_def actor_commit_def commit_batch_def
      isolate_def commit_one_def max_durability_def log_append_def noop_ops_def noop_commit_def r_apply_def
      u64_checked_add_def u64_max_def metrics_record_def List.map_filter_def publish_def ring_push_def ring_push1_def
      log_oldest_def ring_read_after_def u64_wrapping_add_def Let_def)

end
