(* ===== verification/ServerStream.thy ===== *)
theory ServerStream
  imports ServerActorProps
begin

text \<open>
  \<open>crates/lug-server/src/stream.rs\<close>: one subscription, its cursor and its credit, as a state
  machine beside the actor it reads from. The property is what a subscriber may rely on: the
  frames it is sent follow each other without a hole, holes in the log are announced as gaps,
  and never more records come than it granted.
\<close>

section \<open>State and loop\<close>

record limits =
  lim_inbox :: nat
  lim_batch :: nat
  lim_ring :: nat
  lim_outbox :: nat
  lim_pending :: nat
  lim_push :: nat
  lim_push_bytes :: nat
  lim_connections :: nat

datatype stream_status = Running | ParkFlow | ParkEither | ParkWatermark | Stopped

record stream =
  st_id :: id
  st_mode :: mode
  st_cursor :: version
  st_used :: nat
  st_granted :: nat
  st_out :: "response list"
  st_status :: stream_status

definition stream_new :: "id \<Rightarrow> version \<Rightarrow> mode \<Rightarrow> nat \<Rightarrow> stream" where
  "stream_new sid from_version m credit =
     \<lparr>st_id = sid, st_mode = m, st_cursor = from_version, st_used = 0, st_granted = credit, st_out = [], st_status = Running\<rparr>"

definition send :: "response \<Rightarrow> stream \<Rightarrow> stream" where
  "send frame s = s\<lparr>st_out := st_out s @ [frame]\<rparr>"

text \<open>The preamble of a reducible subscription: the view, which covers everything below it.\<close>

definition serve_start :: "(failure + version \<times> json) \<Rightarrow> stream \<Rightarrow> stream" where
  "serve_start view s =
     (if st_mode s = Reducible
      then case view of
          Inr (version, value) \<Rightarrow>
            (send (View (st_id s) version value) s)\<lparr>st_cursor := max (st_cursor s) version\<rparr>
        | Inl (c, message) \<Rightarrow> (send (ErrorFrame (st_id s) c message) s)\<lparr>st_status := Stopped\<rparr>
      else s)"

definition push_records :: "stream \<Rightarrow> entry list \<Rightarrow> stream" where
  "push_records s es =
     (let records = map (\<lambda>e. \<lparr>wr_version = en_version e, wr_patch = en_patch e\<rparr>) es in
      (send (RecordsFrame (st_id s) records) s)\<lparr>
         st_used := st_used s + length records,
         st_cursor := (if es = [] then st_cursor s else en_version (last es)),
         st_status := Running\<rparr>)"

text \<open>
  One pass of the loop: \<open>watermark\<close> is what the stream saw of it, \<open>r\<close> the ring it reads, and
  \<open>catch_up\<close> what the actor will answer. Where the code waits the status says on what.
\<close>

definition serve_pass ::
    "limits \<Rightarrow> version \<Rightarrow> ring \<Rightarrow> (version \<Rightarrow> nat \<Rightarrow> failure + catch_up) \<Rightarrow> stream \<Rightarrow> stream" where
  "serve_pass L watermark r catch_up s =
     (if st_granted s \<le> st_used s then s\<lparr>st_status := ParkFlow\<rparr>
      else if watermark \<le> st_cursor s then s\<lparr>st_status := ParkEither\<rparr>
      else
        let allowance = min (st_granted s - st_used s) (lim_push L) in
        case ring_read_after r (st_cursor s) allowance (lim_push_bytes L) of
          RingRecords (e # es) \<Rightarrow> push_records s (e # es)
        | _ \<Rightarrow>
            (case catch_up (st_cursor s) (max allowance 1) of
               Inr (CuRecords []) \<Rightarrow> s\<lparr>st_status := ParkWatermark\<rparr>
             | Inr (CuRecords es) \<Rightarrow> push_records s es
             | Inr (CuGap resume_at) \<Rightarrow>
                 (send (GapFrame (st_id s) (st_cursor s) resume_at) s)\<lparr>st_cursor := resume_at, st_status := Running\<rparr>
             | Inl (c, message) \<Rightarrow> (send (ErrorFrame (st_id s) c message) s)\<lparr>st_status := Stopped\<rparr>))"

text \<open>
  A stream and its log's actor, interleaved. The actor works through commands; credit arrives;
  the stream makes a pass, with a watermark it may have read earlier, on the ring of now, and a
  catch-up answered after the actor has worked on.
\<close>

inductive stream_step ::
    "('d, 'p, 'v, 'st, 'e, 's, 'se, 'je) actor_env \<Rightarrow> limits \<Rightarrow> stream \<times> ('d, 's) actor \<Rightarrow> stream \<times> ('d, 's) actor \<Rightarrow> bool"
  for E L where
  work: "actor_run E a inbox = (a', answers) \<Longrightarrow> stream_step E L (s, a) (s, a')"
| credit: "st_status s \<noteq> Stopped \<Longrightarrow>
    stream_step E L (s, a) (s\<lparr>st_granted := u64_saturating_add (st_granted s) grant\<rparr>, a)"
| pass: "st_status s \<noteq> Stopped \<Longrightarrow> seen \<le> ac_watermark a \<Longrightarrow> actor_run E a inbox = (a', answers) \<Longrightarrow>
    stream_step E L (s, a) (serve_pass L seen (ac_ring a) (actor_catch_up E a') s, a')"

inductive_cases stream_stepE: "stream_step E L (s, a) (s', a')"

section \<open>What a subscriber may rely on\<close>

text \<open>\<open>frames_from c frames c'\<close>: a reader at \<open>c\<close> who takes the frames is at \<open>c'\<close>, with no version unaccounted for.\<close>

fun frames_from :: "version \<Rightarrow> response list \<Rightarrow> version \<Rightarrow> bool" where
  "frames_from c [] c' \<longleftrightarrow> c' = c"
| "frames_from c (RecordsFrame sid rs # frames) c' \<longleftrightarrow>
     rs \<noteq> [] \<and> map wr_version rs = [Suc c..<Suc (c + length rs)] \<and> frames_from (c + length rs) frames c'"
| "frames_from c (GapFrame sid lo hi # frames) c' \<longleftrightarrow> lo = c \<and> c < hi \<and> frames_from hi frames c'"
| "frames_from c (View sid version value # frames) c' \<longleftrightarrow> frames_from (max c version) frames c'"
| "frames_from c (ErrorFrame sid k m # frames) c' \<longleftrightarrow> frames = [] \<and> c' = c"
| "frames_from c _ c' \<longleftrightarrow> False"

fun pushed :: "response list \<Rightarrow> nat" where
  "pushed [] = 0"
| "pushed (RecordsFrame sid rs # frames) = length rs + pushed frames"
| "pushed (f # frames) = pushed frames"

lemma pushed_append [simp]: "pushed (xs @ ys) = pushed xs + pushed ys"
  by (induction xs rule: pushed.induct) auto

definition no_error :: "response list \<Rightarrow> bool" where
  "no_error frames \<longleftrightarrow> (\<forall>sid k m. ErrorFrame sid k m \<notin> set frames)"

lemma frames_from_append:
  "frames_from c frames c' \<Longrightarrow> no_error frames \<Longrightarrow> frames_from c (frames @ later) c'' \<longleftrightarrow> frames_from c' later c''"
  by (induction c frames c' rule: frames_from.induct) (auto simp: no_error_def)

definition stream_inv :: "version \<Rightarrow> stream \<Rightarrow> bool" where
  "stream_inv from_version s \<longleftrightarrow>
     frames_from from_version (st_out s) (st_cursor s) \<and> pushed (st_out s) = st_used s \<and> st_used s \<le> st_granted s \<and>
     (st_status s \<noteq> Stopped \<longrightarrow> no_error (st_out s)) \<and> st_granted s \<le> u64_max"

text \<open>What the stream needs of an answer to its catch-up.\<close>

definition catch_up_ok :: "version \<Rightarrow> version \<Rightarrow> nat \<Rightarrow> failure + catch_up \<Rightarrow> bool" where
  "catch_up_ok hi after limit res \<longleftrightarrow>
     (case res of
        Inl f \<Rightarrow> True
      | Inr (CuRecords es) \<Rightarrow> map en_version es = [Suc after..<Suc (after + length es)] \<and> length es \<le> limit
      | Inr (CuGap resume_at) \<Rightarrow> after < resume_at)"

lemma push_records_inv:
  assumes "stream_inv c s" "st_status s \<noteq> Stopped" "es \<noteq> []"
    "map en_version es = [Suc (st_cursor s)..<Suc (st_cursor s + length es)]" "length es \<le> st_granted s - st_used s"
  shows "stream_inv c (push_records s es)"
proof -
  have "en_version (last es) = last (map en_version es)" using assms(3) by (simp add: last_map)
  also have "\<dots> = st_cursor s + length es" using assms(3,4) by (cases "length es") (auto simp: upt_Suc)
  finally have last: "en_version (last es) = st_cursor s + length es" .
  have "frames_from c (st_out s @ [RecordsFrame (st_id s) (map (\<lambda>e. \<lparr>wr_version = en_version e, wr_patch = en_patch e\<rparr>) es)])
      (st_cursor s + length es)"
    using assms frames_from_append [of c "st_out s" "st_cursor s"] by (simp add: stream_inv_def comp_def)
  moreover have "st_used s \<le> st_granted s" using assms(1) by (simp add: stream_inv_def)
  then have "st_used s + length es \<le> st_granted s" using assms(5) by linarith
  ultimately show ?thesis using assms last
    by (simp add: push_records_def send_def stream_inv_def Let_def no_error_def)
qed

lemma serve_pass_inv:
  assumes inv: "stream_inv c s" "st_status s \<noteq> Stopped" and ring: "ring_at r hi" "hi \<le> u64_max" "watermark \<le> hi"
    and honest: "\<And>limit. 0 < limit \<Longrightarrow> st_cursor s < watermark \<Longrightarrow> catch_up_ok hi (st_cursor s) limit (catch_up (st_cursor s) limit)"
    and push: "0 < lim_push L"
  shows "stream_inv c (serve_pass L watermark r catch_up s)"
proof (cases "st_granted s \<le> st_used s \<or> watermark \<le> st_cursor s")
  case True
  then show ?thesis using inv by (auto simp: serve_pass_def stream_inv_def)
next
  case False
  define allowance where "allowance = min (st_granted s - st_used s) (lim_push L)"
  have allow: "0 < allowance" "allowance \<le> st_granted s - st_used s" using False push by (auto simp: allowance_def)
  have cur: "st_cursor s < u64_max" "st_cursor s \<le> hi" "st_cursor s < watermark" using False ring by auto
  note served = ring_read_after_spec [OF ring(1) cur(1,2), of allowance "lim_push_bytes L"]
  have caught: "catch_up_ok hi (st_cursor s) (max allowance 1) (catch_up (st_cursor s) (max allowance 1))"
    by (rule honest [OF _ cur(3)]) simp
  have stop: "stream_inv c (send (ErrorFrame (st_id s) k m) s\<lparr>st_status := Stopped\<rparr>)" for k m
    using inv frames_from_append [of c "st_out s" "st_cursor s"] by (simp add: stream_inv_def send_def)
  have late: "stream_inv c (case catch_up (st_cursor s) (max allowance 1) of
               Inr (CuRecords []) \<Rightarrow> s\<lparr>st_status := ParkWatermark\<rparr>
             | Inr (CuRecords es) \<Rightarrow> push_records s es
             | Inr (CuGap resume_at) \<Rightarrow>
                 (send (GapFrame (st_id s) (st_cursor s) resume_at) s)\<lparr>st_cursor := resume_at, st_status := Running\<rparr>
             | Inl (c, message) \<Rightarrow> (send (ErrorFrame (st_id s) c message) s)\<lparr>st_status := Stopped\<rparr>)"
  proof (cases "catch_up (st_cursor s) (max allowance 1)")
    case (Inl f)
    then show ?thesis using stop unfolding Inl by (simp split: prod.split)
  next
    case (Inr cu)
    show ?thesis
    proof (cases cu)
      case (CuRecords es)
      have "length es \<le> allowance" "map en_version es = [Suc (st_cursor s)..<Suc (st_cursor s + length es)]"
        using caught allow(1) unfolding Inr CuRecords by (simp_all add: catch_up_ok_def)
      then have "es \<noteq> [] \<Longrightarrow> stream_inv c (push_records s es)"
        using push_records_inv [OF inv, of es] allow(2) by simp
      moreover have "stream_inv c (s\<lparr>st_status := ParkWatermark\<rparr>)" using inv by (simp add: stream_inv_def)
      ultimately show ?thesis unfolding Inr CuRecords by (cases es) simp_all
    next
      case (CuGap resume_at)
      have "st_cursor s < resume_at" using caught unfolding Inr CuGap by (simp add: catch_up_ok_def)
      then show ?thesis using inv frames_from_append [of c "st_out s" "st_cursor s"] unfolding Inr CuGap
        by (simp add: stream_inv_def send_def no_error_def)
    qed
  qed
  show ?thesis
  proof (cases "ring_read_after r (st_cursor s) allowance (lim_push_bytes L)")
    case (RingRecords es)
    show ?thesis
    proof (cases es)
      case Nil
      then show ?thesis using late False RingRecords by (simp add: serve_pass_def Let_def flip: allowance_def)
    next
      case (Cons e es')
      have "stream_inv c (push_records s es)"
        using served allow(2) by (intro push_records_inv inv) (auto simp: RingRecords Cons)
      then show ?thesis using False RingRecords Cons by (simp add: serve_pass_def Let_def flip: allowance_def)
    qed
  next
    case TooOld
    then show ?thesis using late False by (simp add: serve_pass_def Let_def flip: allowance_def)
  qed
qed

section \<open>The actor answers a catch-up honestly\<close>

context durable_log
begin

text \<open>What an append does to the storage and the watermark, in every outcome.\<close>

lemma append_shape:
  fixes enc :: "'p \<Rightarrow> 'je + bytes" and dec :: "bytes \<Rightarrow> 'je + 'p"
  assumes inv: "log_inv R dec wf TYPE('se) abs swf tainted zero l" and ps: "\<forall>p \<in> set ps. pwf p \<and> used p"
    and codec: "codec_ok enc dec used pwf peq"
    and run: "log_append R S enc l ps dur = (l', res :: ('e, 'se, 'je) lug_error + 'v list)"
  shows "(log_storage l' = log_storage l \<and> log_watermark l' = log_watermark l) \<or>
    (\<exists>records st u. records \<noteq> [] \<and> consec (log_watermark l) records \<and> s_append S (log_storage l) records = (st, u) \<and>
       (case u of Inl e \<Rightarrow> log_storage l' = st \<and> log_watermark l' = log_watermark l
        | Inr _ \<Rightarrow> (log_storage l' = st \<or> log_storage l' = fst (s_sync S st)) \<and> log_watermark l' = log_watermark l + length records))"
proof (cases "ps = []")
  case True
  then show ?thesis using run by (auto simp: log_append_def)
next
  case False
  have wf: "wf (log_data l)" "log_watermark l = r_version R (log_data l)" using inv by (simp_all add: log_inv_def)
  have start: "replays R dec wf TYPE('se) [] (r_view R (log_data l)) (r_view R (log_data l))" by (simp add: replays_def)
  note fold = append_fold_spec [where l0 = l and l = l and records = "[]" and views = "[]", OF wf(1) ps codec wf(1)
      refl refl refl wf(2) _ _ _ _ _ start]
  have cur: "log_watermark l \<le> r_version R (log_data l)"
    "r_view_at R (log_data l) (log_watermark l) = Some (r_view R (log_data l))"
    using wf(2) view_at_current [OF wf(1)] by simp_all
  note fold = fold [OF cur, simplified, OF wf(2) [symmetric]]
  have keeps: "append_fold R enc l ps records views = (Inl (l1, er) :: (('d, 's) lug_log \<times> ('e, 'se, 'je) lug_error) + _) \<Longrightarrow>
      log_watermark l1 = log_watermark l \<and> log_storage l1 = log_storage l" for l ps records views l1 er
    by (induction ps arbitrary: l records views)
      (auto simp: log_unwind_def split: sum.splits prod.splits option.splits)
  show ?thesis
  proof (cases "append_fold R enc l ps [] [] ::
      (('d, 's) lug_log \<times> ('e, 'se, 'je) lug_error) + (('d, 's) lug_log \<times> log_record list \<times> 'v list)")
    case (Inl q)
    obtain l1 e where q: "q = (l1, e)" by (cases q)
    then show ?thesis using run False Inl keeps [OF Inl [unfolded q]] by (auto simp: log_append_def)
  next
    case (Inr q)
    obtain l1 records views where q: "q = (l1, records, views)" by (cases q)
    have l1: "log_storage l1 = log_storage l" "log_watermark l1 = log_watermark l" "consec (log_watermark l) records"
      using fold by (simp_all add: Inr q)
    show ?thesis
    proof (cases "records = []")
      case True
      then show ?thesis using run False Inr q l1 by (auto simp: log_append_def)
    next
      case recs: False
      obtain st u where ap: "s_append S (log_storage l) records = (st, u)" by (cases "s_append S (log_storage l) records")
      have "case u of Inl e \<Rightarrow> log_storage l' = st \<and> log_watermark l' = log_watermark l
        | Inr _ \<Rightarrow> (log_storage l' = st \<or> log_storage l' = fst (s_sync S st)) \<and> log_watermark l' = log_watermark l + length records"
        using run False Inr q l1 recs ap consec_last [OF l1(3) recs]
        by (cases u) (auto simp: log_append_def log_unwind_def Let_def split: prod.splits sum.splits if_splits)
      then show ?thesis using recs l1(3) ap by blast
    qed
  qed
qed

end

text \<open>Memory holds a run of versions up to the watermark, whatever it had to drop.\<close>

definition mem_run :: "version \<Rightarrow> 'v memory_store \<Rightarrow> bool" where
  "mem_run hi m \<longleftrightarrow>
     length (mem_records m) \<le> hi \<and> consec (hi - length (mem_records m)) (mem_records m) \<and>
     1 \<le> mem_retain m \<and> length (mem_records m) \<le> mem_retain m \<and>
     (mem_records m = [] \<longrightarrow> mem_oldest m = 1 \<and> hi = 0)"

lemma memory_push_run:
  assumes "mem_run hi m" "rec_version r = Suc hi"
  shows "mem_run (Suc hi) (memory_push m r)"
proof (cases "length (mem_records m) = mem_retain m")
  case True
  then obtain x xs where xs: "mem_records m = x # xs" using assms(1) by (cases "mem_records m") (auto simp: mem_run_def)
  then have "consec (hi - length xs) xs" "Suc (hi - Suc (length xs)) = hi - length xs"
    using assms(1) by (auto simp: mem_run_def consec_Cons Suc_diff_Suc)
  moreover have "Suc hi - mem_retain m = hi - length xs" using True xs by simp
  ultimately show ?thesis using assms True xs
    by (auto simp: memory_push_def mem_run_def consec_append consec_Cons Let_def)
next
  case False
  then show ?thesis using assms
    by (auto simp: memory_push_def mem_run_def consec_append consec_Cons Let_def)
qed

lemma memory_append_run:
  "mem_run hi m \<Longrightarrow> consec hi rs \<Longrightarrow> mem_run (hi + length rs) (memory_append m rs)"
proof (induction rs arbitrary: hi m)
  case (Cons r rs)
  then show ?case using Cons.IH [OF memory_push_run [OF Cons.prems(1), of r]] by (simp add: consec_Cons memory_append_def)
qed (simp add: memory_append_def)

definition log_mem_run :: "('d, 'v memory_store) lug_log \<Rightarrow> bool" where
  "log_mem_run l \<longleftrightarrow> mem_run (log_watermark l) (log_storage l)"

abbreviation mem_ops :: "(snapshot memory_store, snapshot, unit) storage_ops" where
  "mem_ops \<equiv> memory_ops snap_version"

lemma mem_run_keeps:
  fixes enc :: "patch \<Rightarrow> 'je + bytes"
  assumes "codec_ok enc dec used patch_wf patch_eq"
  shows "log_keeps log_mem_run (cavlc_ops own) mem_ops enc (\<lambda>p. patch_wf p \<and> used p)
    (log_inv (cavlc_ops own) dec cavlc_wf TYPE(unit) (mem_abs snap_version) (mem_swf snapshot_wf snap_version) mem_tainted zero)"
  unfolding log_keeps_def
proof (intro conjI allI impI)
  fix l ps dur l' and r :: "(cavlc_error, unit, 'je) lug_error + snapshot list"
  assume h: "log_inv (cavlc_ops own) dec cavlc_wf TYPE(unit) (mem_abs snap_version) (mem_swf snapshot_wf snap_version) mem_tainted zero l \<and>
       log_mem_run l \<and> (\<forall>p \<in> set ps. patch_wf p \<and> used p) \<and> log_append (cavlc_ops own) mem_ops enc l ps dur = (l', r)"
  from cavlc_memory.append_shape [OF conjunct1 [OF h] _ assms, of ps dur l' r] h show "log_mem_run l'"
    by (auto simp: log_mem_run_def memory_ops_def intro: memory_append_run)
next
  fix l l' and r :: "(cavlc_error, unit, 'je) lug_error + unit"
  assume "log_inv (cavlc_ops own) dec cavlc_wf TYPE(unit) (mem_abs snap_version) (mem_swf snapshot_wf snap_version) mem_tainted zero l \<and>
       log_mem_run l \<and> log_checkpoint (cavlc_ops own) mem_ops l = (l', r)"
  then show "log_mem_run l'"
    by (auto simp: log_mem_run_def mem_run_def log_checkpoint_def log_sync_def memory_ops_def)
qed

lemma record_entries_versions:
  "record_entries of_slice rs = Inr es \<Longrightarrow> map en_version es = map rec_version rs"
  by (induction rs arbitrary: es) (auto simp: rbind_Inr_iff)

lemma memory_catch_up_ok:
  fixes E :: "('d, 'p, snapshot, 'st, 'e, snapshot memory_store, unit, 'je) actor_env"
  assumes S: "ae_storage E = mem_ops" and run: "log_mem_run (ac_log a)" and cur: "after < log_watermark (ac_log a)" "log_watermark (ac_log a) \<le> u64_max" "0 < limit"
  shows "catch_up_ok hi after limit (actor_catch_up E a after limit)"
proof -
  let ?m = "log_storage (ac_log a)" and ?wm = "log_watermark (ac_log a)"
  let ?n = "length (mem_records ?m)"
  have m: "?n \<le> ?wm" "consec (?wm - ?n) (mem_records ?m)" "mem_records ?m \<noteq> []"
    using run cur by (auto simp: log_mem_run_def mem_run_def)
  then obtain x xs where xs: "mem_records ?m = x # xs" by (cases "mem_records ?m") auto
  have wrap: "u64_wrapping_add after 1 = Suc after" using cur by (simp add: u64_wrapping_add_def u64_max_def)
  have oldest: "log_oldest (ae_storage E) (ac_log a) = Suc (?wm - ?n)"
    using m(2) xs by (simp add: S log_oldest_def memory_ops_def memory_oldest_def consec_Cons)
  show ?thesis
  proof (cases "Suc after < Suc (?wm - ?n)")
    case True
    then show ?thesis using wrap oldest by (simp add: actor_catch_up_def catch_up_ok_def Let_def)
  next
    case False
    define rs where "rs = drop (after - (?wm - ?n)) (mem_records ?m)"
    have above: "filter (\<lambda>r. after < rec_version r) (mem_records ?m) = rs"
      using above_drop [OF m(2), of after] by (simp add: above_def rs_def)
    have c: "consec after rs"
      using m(2) False consec_append [of "?wm - ?n" "take (after - (?wm - ?n)) (mem_records ?m)" rs]
      using cur(1) m(1) by (simp add: rs_def min_absorb2)
    have read: "log_read_after (ae_storage E) (ac_log a) after limit = (Inr (take limit rs) :: ('e, unit, 'je) lug_error + _)"
      by (simp add: S log_read_after_def memory_ops_def memory_read_after_def above)
    have ct: "consec after (take limit rs)" using c consec_append [of after "take limit rs" "drop limit rs"] by simp
    show ?thesis
    proof (cases "take limit rs")
      case Nil
      have "rs \<noteq> []" using cur(1) m(1) False by (auto simp: rs_def)
      then show ?thesis using Nil cur(3) by simp
    next
      case (Cons y ys)
      then have y: "rec_version y = Suc after" using ct by (simp add: consec_Cons)
      show ?thesis
      proof (cases "record_entries (ae_from_slice E) (y # ys)")
        case (Inl e)
        then show ?thesis using False y Cons wrap oldest read
          by (simp add: actor_catch_up_def catch_up_ok_def Let_def del: record_entries.simps)
      next
        case (Inr es)
        have vs: "map en_version es = map rec_version (take limit rs)" using record_entries_versions [OF Inr] Cons by simp
        then have "length es = length (take limit rs)" by (metis length_map)
        then have "map en_version es = [Suc after..<Suc (after + length es)] \<and> length es \<le> limit"
          using vs ct by (simp add: consec_def)
        then show ?thesis using False y Cons Inr wrap oldest read
          by (simp add: actor_catch_up_def catch_up_ok_def Let_def del: record_entries.simps)
      qed
    qed
  qed
qed

lemma stream_new_inv:
  "credit \<le> u64_max \<Longrightarrow> stream_inv c (serve_start view (stream_new sid c m credit))"
  by (auto simp: serve_start_def stream_new_def send_def stream_inv_def no_error_def split: sum.splits prod.splits)

text \<open>
  C4: Over storage that cannot fail, a subscriber is never shown a hole, and never sent more than it
  asked for. Take a stream on a fresh document log over the in-memory storage, whose appends and
  flushes always succeed, opened with any cursor, mode and credit, and interleave its loop
  with the actor in any way: commands of any kind at any time, watermarks read late, catch-ups
  answered after the log has moved on and records have been dropped. The frames sent so far
  take a reader at the cursor it asked for, record by record and announced gap by announced
  gap, to the cursor the stream is at; and the records among them are within the credit. With
  a flush that fails it is false (\<open>failed_flush_doubles_and_skips\<close>).
\<close>

theorem stream_is_contiguous:
  assumes "ae_data E = cavlc_ops own" "ae_storage E = mem_ops"
    and "codec_ok (ae_enc E) dec used patch_wf patch_eq" "\<forall>p. used p \<longrightarrow> (\<exists>b. ae_enc E p = Inr b)"
    and "\<forall>v p. ae_from_value E v = Inr p \<longrightarrow> patch_wf p \<and> used p"
    and "log_open (cavlc_ops own) mem_ops dec (store_new own) (memory_new retain) = Inr l"
    and "a0 = actor_new E l (ring_new capacity) batch every"
    and "(stream_step E L)\<^sup>*\<^sup>* (serve_start (actor_view E a0 None) (stream_new sid c m credit), a0) (s, a)"
    and "0 < lim_push L" "credit \<le> u64_max"
  shows "frames_from c (st_out s) (st_cursor s) \<and> pushed (st_out s) \<le> st_granted s"
proof -
  let ?inv = "actor_inv log_mem_run (cavlc_ops own) dec cavlc_wf TYPE(unit) (mem_abs snap_version)
    (mem_swf snapshot_wf snap_version) mem_tainted (store_new own)"
  have zero: "cavlc_wf (store_new own)" "r_version (cavlc_ops own) (store_new own) = 0" using cavlc_new_wf [of own] by simp_all
  have new: "mem_swf snapshot_wf snap_version (memory_new retain)" "\<not> mem_tainted (memory_new retain)"
    using memory_new_swf by blast+
  have "log_inv (cavlc_ops own) dec cavlc_wf TYPE(unit) (mem_abs snap_version) (mem_swf snapshot_wf snap_version)
      mem_tainted (store_new own) l"
    by (rule cavlc_memory.open_inv [OF assms(3) zero new assms(6), THEN conjunct1])
  moreover have "log_mem_run l"
    using assms(6) zero(2) by (auto simp: log_open_def memory_ops_def memory_load_def memory_new_def log_mem_run_def mem_run_def Let_def)
  ultimately have a0: "?inv a0" by (simp add: actor_inv_def actor_new_def assms(7))
  have sync: "\<exists>s'. s_sync mem_ops s = (s', Inr ())" for s by (simp add: memory_ops_def)
  note run = cavlc_memory.actor_run_inv [OF assms(1-5) sync mem_run_keeps [OF assms(3)]]
  have bound: "log_watermark (ac_log b) \<le> u64_max" if "?inv b" for b
    using that cavlc_red.version_bound [of "log_data (ac_log b)"] by (auto simp: actor_inv_def log_inv_def)
  have "stream_inv c s \<and> ?inv a"
    using assms(8)
  proof (induction "(s, a)" arbitrary: s a rule: rtranclp_induct)
    case base
    then show ?case using stream_new_inv [OF assms(10)] a0 by simp
  next
    case (step sa s' a')
    obtain s1 a1 where sa: "sa = (s1, a1)" by (cases sa)
    have IH: "stream_inv c s1" "?inv a1" using step.hyps(3) [OF sa] by simp_all
    show ?case using step.hyps(2) unfolding sa
    proof (cases rule: stream_stepE [consumes 1, case_names work credit pass])
      case (work inbox answers)
      then show ?thesis using IH run [OF IH(2)] by blast
    next
      case (credit grant)
      then show ?thesis using IH by (simp add: stream_inv_def u64_saturating_add_def)
    next
      case (pass seen inbox answers)
      note moved = run [OF IH(2) pass(4)]
      have ring: "ring_at (ac_ring a1) (log_watermark (ac_log a1))" "seen \<le> log_watermark (ac_log a1)"
        using IH(2) pass(3) by (simp_all add: actor_inv_def)
      have "catch_up_ok (log_watermark (ac_log a1)) (st_cursor s1) limit (actor_catch_up E a' (st_cursor s1) limit)"
        if "0 < limit" "st_cursor s1 < seen" for limit
        using that moved ring(2) bound [of a'] by (intro memory_catch_up_ok assms(2)) (auto simp: actor_inv_def)
      from serve_pass_inv [OF IH(1) pass(2) ring(1) bound [OF IH(2)] ring(2), where catch_up = "actor_catch_up E a'", OF this assms(9)] show ?thesis
        using moved pass(1) by blast
    qed
  qed
  then show ?thesis by (simp add: stream_inv_def)
qed

text \<open>
  A concrete run: the view of the empty document is sent, the actor appends a patch, and the
  stream, which saw the watermark rise, pushes the record while the actor goes on.
\<close>

definition wit_limits :: limits where
  "wit_limits = \<lparr>lim_inbox = 1, lim_batch = 1, lim_ring = 4, lim_outbox = 1, lim_pending = 1, lim_push = 8,
     lim_push_bytes = 100, lim_connections = 1\<rparr>"

definition wit_idle :: "(store, snapshot memory_store) actor" where
  "wit_idle = actor_new wit_env wit_log (ring_new 4) 8 0"

definition wit_stream :: stream where
  "wit_stream = serve_start (actor_view wit_env wit_idle None) (stream_new 7 0 Reducible 3)"

lemma wit_worked:
  "\<exists>a answers. actor_run wit_env wit_idle [CmdAppend [JNull] Durable 1] = (a, answers) \<and> ac_watermark a = 1 \<and>
     ac_ring a = \<lparr>ring_capacity = 4, ring_entries = [\<lparr>en_version = 1, en_patch = JNull, en_bytes = 4\<rparr>]\<rparr>"
  by (simp add: actor_run_list wit_idle_def actor_new_def wit_env_def ring_new_def actor_commit_def commit_batch_def
      wit_run isolate_def commit_one_def max_durability_def metrics_record_def List.map_filter_def publish_def
      ring_push_def ring_push1_def log_oldest_def ring_read_after_def u64_wrapping_add_def Let_def) (simp add: wit_log_def)

lemma wit_stream_open:
  "st_out wit_stream = [View 7 0 (JObject [])]" "st_cursor wit_stream = 0" "st_granted wit_stream = 3"
  "st_used wit_stream = 0" "st_status wit_stream = Running" "st_id wit_stream = 7"
  by (simp_all add: wit_stream_def wit_idle_def serve_start_def stream_new_def actor_view_def actor_new_def send_def
      wit_env_def wit_log_def log_view_def store_new_def store_snapshot_def value_default_def)

theorem stream_is_contiguous_witness:
  "\<exists>s a. (stream_step wit_env wit_limits)\<^sup>*\<^sup>* (wit_stream, wit_idle) (s, a) \<and>
    st_out s = [View 7 0 (JObject []), RecordsFrame 7 [\<lparr>wr_version = 1, wr_patch = JNull\<rparr>]] \<and>
    frames_from 0 (st_out s) 1 \<and> pushed (st_out s) \<le> 3"
proof -
  obtain a answers where a: "actor_run wit_env wit_idle [CmdAppend [JNull] Durable 1] = (a, answers)" "ac_watermark a = 1"
      "ac_ring a = \<lparr>ring_capacity = 4, ring_entries = [\<lparr>en_version = 1, en_patch = JNull, en_bytes = 4\<rparr>]\<rparr>"
    using wit_worked by blast
  let ?s = "serve_pass wit_limits 1 (ac_ring a) (actor_catch_up wit_env a) wit_stream"
  have pass: "st_out ?s = [View 7 0 (JObject []), RecordsFrame 7 [\<lparr>wr_version = 1, wr_patch = JNull\<rparr>]]"
    "st_cursor ?s = 1" "st_granted ?s = 3"
    by (simp_all add: serve_pass_def wit_stream_open wit_limits_def a(3) ring_read_after_def u64_wrapping_add_def
        push_records_def send_def Let_def)
  have 1: "stream_step wit_env wit_limits (wit_stream, wit_idle) (wit_stream, a)" by (rule stream_step.work [OF a(1)])
  have "actor_run wit_env a [] = (a, [])" by (simp add: actor_run_list)
  from stream_step.pass [OF _ _ this, of wit_stream 1 wit_limits]
  have 2: "stream_step wit_env wit_limits (wit_stream, a) (?s, a)" using a(2) by (simp add: wit_stream_open)
  note into = rtranclp.rtrancl_into_rtrancl [where r = "stream_step wit_env wit_limits"]
  have reach: "(stream_step wit_env wit_limits)\<^sup>*\<^sup>* (wit_stream, wit_idle) (?s, a)"
    by (rule into [OF into [OF rtranclp.rtrancl_refl 1] 2])
  have env: "ae_data wit_env = cavlc_ops 0" "ae_storage wit_env = mem_ops"
    "codec_ok (ae_enc wit_env) wit_dec (\<lambda>p. p = wit_patch) patch_wf patch_eq" "\<forall>p. p = wit_patch \<longrightarrow> (\<exists>b. ae_enc wit_env p = Inr b)"
    "\<forall>v p. ae_from_value wit_env v = Inr p \<longrightarrow> patch_wf p \<and> p = wit_patch"
    using wit_codec wit_ops by (auto simp: wit_env_def wit_enc_def split: if_splits)
  have "frames_from 0 (st_out ?s) (st_cursor ?s) \<and> pushed (st_out ?s) \<le> st_granted ?s"
  proof (rule stream_is_contiguous [OF env wit_open wit_idle_def])
    show "(stream_step wit_env wit_limits)\<^sup>*\<^sup>*
        (serve_start (actor_view wit_env wit_idle None) (stream_new 7 0 Reducible 3), wit_idle) (?s, a)"
      using reach by (simp only: wit_stream_def)
  qed (simp_all add: wit_limits_def u64_max_def)
  then show ?thesis using reach pass by metis
qed

end
