(* ===== verification/ServerConfig.thy ===== *)
theory ServerConfig
  imports ServerStream
begin

text \<open>
  \<open>crates/lug-server/src/config.rs\<close> and \<open>acl.rs\<close>: sizes, the command line over the file, the
  checks made before anything is bound, and who may talk about which log. Reading files, TOML
  and socket addresses are parameters. Text is bytes; of Unicode's white space \<open>trim\<close> knows the
  ASCII part.
\<close>

section \<open>Numbers and sizes\<close>

text \<open>\<open>str::parse\<close> of an unsigned integer up to \<open>top\<close>: an optional plus sign, then digits.\<close>

definition parse_unsigned :: "nat \<Rightarrow> string \<Rightarrow> nat option" where
  "parse_unsigned top_value s =
     (let digits = (case s of CHR ''+'' # rest \<Rightarrow> rest | _ \<Rightarrow> s) in
      if digits = [] \<or> \<not> list_all is_ascii_digit digits then None
      else if digits_value digits \<le> top_value then Some (digits_value digits) else None)"

definition is_ascii_alphabetic :: "char \<Rightarrow> bool" where
  "is_ascii_alphabetic c \<longleftrightarrow> (let n = (of_char c :: nat) in 65 \<le> n \<and> n \<le> 90 \<or> 97 \<le> n \<and> n \<le> 122)"

definition to_ascii_lowercase :: "string \<Rightarrow> string" where
  "to_ascii_lowercase s =
     map (\<lambda>c. let n = (of_char c :: nat) in if 65 \<le> n \<and> n \<le> 90 then char_of (n + 32) else c) s"

definition size_scale :: "string \<Rightarrow> nat option" where
  "size_scale u =
     (if u = '''' \<or> u = ''b'' then Some 1
      else if u = ''k'' \<or> u = ''kb'' \<or> u = ''kib'' then Some 1024
      else if u = ''m'' \<or> u = ''mb'' \<or> u = ''mib'' then Some (1024 * 1024)
      else if u = ''g'' \<or> u = ''gb'' \<or> u = ''gib'' then Some (1024 * 1024 * 1024)
      else None)"

definition trim_end_alphabetic :: "string \<Rightarrow> string" where
  "trim_end_alphabetic s = rev (dropWhile is_ascii_alphabetic (rev s))"

definition parse_size :: "string \<Rightarrow> nat option" where
  "parse_size text =
     (let t = trim text;
          digits = trim_end_alphabetic t;
          u = trim (drop (length digits) t)
      in case size_scale (to_ascii_lowercase u) of
          None \<Rightarrow> None
        | Some scale \<Rightarrow>
            (case parse_unsigned u64_max (trim digits) of
               None \<Rightarrow> None
             | Some n \<Rightarrow> u64_checked_mul n scale))"

section \<open>Configuration\<close>

definition limits_default :: limits where
  "limits_default = \<lparr>lim_inbox = 4096, lim_batch = 1024, lim_ring = 4096, lim_outbox = 1024, lim_pending = 1024,
     lim_push = 512, lim_push_bytes = 4 * 1024 * 1024, lim_connections = 16384\<rparr>"

record 'addr config =
  cf_data :: string
  cf_run :: string
  cf_socket :: string
  cf_http :: "'addr option"
  cf_token :: "string option"
  cf_allow_uid :: "nat list"
  cf_segment :: nat
  cf_ring :: nat
  cf_checkpoint_every :: nat
  cf_acl :: "(string, nat list) btree_map"
  cf_owner :: "nat option"
  cf_cores :: "nat option"
  cf_limits :: limits

definition config_default :: "'addr config" where
  "config_default = \<lparr>cf_data = ''/var/lib/lug'', cf_run = ''/run/lug'', cf_socket = ''lug.sock'', cf_http = None,
     cf_token = None, cf_allow_uid = [], cf_segment = 64 * 1024 * 1024, cf_ring = 4096, cf_checkpoint_every = 10000,
     cf_acl = [], cf_owner = None, cf_cores = None, cf_limits = limits_default\<rparr>"

datatype config_error =
    ReadFailed string
  | ParseFailed string
  | Invalid string
  | BadFlag string string
  | UnknownArg string

text \<open>
  \<open>set\<close>, for one flag already spelled with underscores. A \<open>usize\<close> is 64 bits.
\<close>

definition config_set ::
    "(string \<Rightarrow> 'addr option) \<Rightarrow> string \<Rightarrow> string \<Rightarrow> 'addr config \<Rightarrow> config_error + 'addr config" where
  "config_set parse_addr flag v c =
     (let bad = BadFlag flag v; num = (\<lambda>top_value k. case parse_unsigned top_value v of None \<Rightarrow> Inl bad | Some n \<Rightarrow> Inr (k n)) in
      if flag = ''data'' then Inr (c\<lparr>cf_data := v\<rparr>)
      else if flag = ''run'' then Inr (c\<lparr>cf_run := v\<rparr>)
      else if flag = ''socket'' then Inr (c\<lparr>cf_socket := v\<rparr>)
      else if flag = ''http'' then (case parse_addr v of None \<Rightarrow> Inl bad | Some a \<Rightarrow> Inr (c\<lparr>cf_http := Some a\<rparr>))
      else if flag = ''token'' then Inr (c\<lparr>cf_token := Some v\<rparr>)
      else if flag = ''allow_uid'' then num u32_max (\<lambda>n. c\<lparr>cf_allow_uid := cf_allow_uid c @ [n]\<rparr>)
      else if flag = ''segment'' then (case parse_size v of None \<Rightarrow> Inl bad | Some n \<Rightarrow> Inr (c\<lparr>cf_segment := n\<rparr>))
      else if flag = ''ring'' then num u64_max (\<lambda>n. c\<lparr>cf_ring := n\<rparr>)
      else if flag = ''checkpoint_every'' then num u64_max (\<lambda>n. c\<lparr>cf_checkpoint_every := n\<rparr>)
      else if flag = ''owner'' then num u32_max (\<lambda>n. c\<lparr>cf_owner := Some n\<rparr>)
      else if flag = ''cores'' then num u64_max (\<lambda>n. c\<lparr>cf_cores := Some n\<rparr>)
      else if flag = ''connections'' then num u64_max (\<lambda>n. c\<lparr>cf_limits := (cf_limits c)\<lparr>lim_connections := n\<rparr>\<rparr>)
      else Inl (UnknownArg (''--'' @ flag)))"

fun strip_prefix :: "string \<Rightarrow> string \<Rightarrow> string option" where
  "strip_prefix [] s = Some s"
| "strip_prefix (p # ps) [] = None"
| "strip_prefix (p # ps) (c # cs) = (if p = c then strip_prefix ps cs else None)"

definition underscored :: "string \<Rightarrow> string" where
  "underscored s = map (\<lambda>c. if c = CHR ''-'' then CHR ''_'' else c) s"

text \<open>The arguments: the config path, whether to check only, and the overrides in order.\<close>

fun scan_args :: "string list \<Rightarrow> string option \<Rightarrow> bool \<Rightarrow> (string \<times> string) list \<Rightarrow>
    config_error + string option \<times> bool \<times> (string \<times> string) list" where
  "scan_args [] path check overrides = Inr (path, check, overrides)"
| "scan_args (arg # args) path check overrides =
     (case strip_prefix ''--'' arg of
        None \<Rightarrow> Inl (UnknownArg arg)
      | Some raw \<Rightarrow>
          let flag = underscored raw in
          if flag = ''check'' then scan_args args path True overrides
          else (case args of
              [] \<Rightarrow> Inl (BadFlag flag ''missing'')
            | v # rest \<Rightarrow>
                if flag = ''config'' then scan_args rest (Some v) check overrides
                else scan_args rest path check (overrides @ [(flag, v)])))"

fun set_all :: "(string \<Rightarrow> 'addr option) \<Rightarrow> (string \<times> string) list \<Rightarrow> 'addr config \<Rightarrow> config_error + 'addr config" where
  "set_all parse_addr [] c = Inr c"
| "set_all parse_addr ((flag, v) # rest) c = rbind (config_set parse_addr flag v c) (set_all parse_addr rest)"

definition from_args ::
    "(string \<Rightarrow> 'addr option) \<Rightarrow> (string \<Rightarrow> config_error + 'addr config) \<Rightarrow> string list \<Rightarrow> config_error + 'addr config \<times> bool" where
  "from_args parse_addr load args =
     rbind (scan_args args None False []) (\<lambda>(path, check, overrides).
     rbind (case path of Some p \<Rightarrow> load p | None \<Rightarrow> Inr config_default) (\<lambda>base.
     rbind (set_all parse_addr overrides base) (\<lambda>c. Inr (c, check))))"

definition read_token :: "(string \<Rightarrow> string option) \<Rightarrow> string \<Rightarrow> config_error + string" where
  "read_token read_file path =
     (case read_file path of
        None \<Rightarrow> Inl (ReadFailed path)
      | Some text \<Rightarrow>
          let token = trim text in
          if token = [] then Inl (Invalid (''token file '' @ path @ '' is empty'')) else Inr token)"

definition is_absolute :: "string \<Rightarrow> bool" where
  "is_absolute path \<longleftrightarrow> (case path of [] \<Rightarrow> False | c # _ \<Rightarrow> c = CHR ''/'')"

definition validate_config ::
    "('addr \<Rightarrow> bool) \<Rightarrow> (string \<Rightarrow> string option) \<Rightarrow> 'addr config \<Rightarrow> config_error + unit" where
  "validate_config loopback read_file c =
     (if is_absolute (cf_socket c) then Inl (Invalid ''socket must be relative to run'')
      else if cf_ring c = 0 then Inl (Invalid ''ring must hold at least one record'')
      else if cf_segment c < 4096 then Inl (Invalid ''segment is too small'')
      else case cf_http c of
          None \<Rightarrow> Inr ()
        | Some http \<Rightarrow>
            if \<not> loopback http then Inl (Invalid ''http is not loopback'')
            else case cf_token c of
                None \<Rightarrow> Inl (Invalid ''http needs a token file'')
              | Some token \<Rightarrow> rbind (read_token read_file token) (\<lambda>_. Inr ()))"

definition config_limits :: "'addr config \<Rightarrow> limits" where
  "config_limits c = (cf_limits c)\<lparr>lim_ring := cf_ring c\<rparr>"

section \<open>Access\<close>

record acl =
  acl_owner :: nat
  acl_allow :: "nat set"
  acl_logs :: "(string, nat set) btree_map"

definition acl_new :: "nat \<Rightarrow> nat list \<Rightarrow> acl" where
  "acl_new owner allow = \<lparr>acl_owner = owner, acl_allow = set allow, acl_logs = []\<rparr>"

definition acl_accepts :: "acl \<Rightarrow> nat \<Rightarrow> bool" where
  "acl_accepts a uid \<longleftrightarrow> uid = acl_owner a \<or> uid \<in> acl_allow a"

definition acl_allows :: "acl \<Rightarrow> nat \<Rightarrow> string \<Rightarrow> bool" where
  "acl_allows a uid log_name \<longleftrightarrow>
     (if uid = acl_owner a then True
      else uid \<in> acl_allow a \<and> (case bt_get (acl_logs a) log_name of Some uids \<Rightarrow> uid \<in> uids | None \<Rightarrow> False))"

section \<open>Properties\<close>

lemma dec_digits_no_plus: "dec_digits n \<noteq> [] \<and> hd (dec_digits n) \<noteq> CHR ''+'' \<and> list_all is_ascii_digit (dec_digits n)"
proof -
  have "dec_digits n \<noteq> []" by (subst dec_digits.simps) simp
  moreover have "is_ascii_digit (hd (dec_digits n))" using dec_digits_ascii [of n] calculation by (cases "dec_digits n") auto
  moreover have "\<not> is_ascii_digit (CHR ''+'')" by (simp add: is_ascii_digit_def)
  ultimately show ?thesis using dec_digits_ascii [of n] by metis
qed

lemma parse_unsigned_digits: "n \<le> top_value \<Longrightarrow> parse_unsigned top_value (dec_digits n) = Some n"
  "top_value < n \<Longrightarrow> parse_unsigned top_value (dec_digits n) = None"
proof -
  have "(case dec_digits n of CHR ''+'' # rest \<Rightarrow> rest | _ \<Rightarrow> dec_digits n) = dec_digits n"
    using dec_digits_no_plus [of n] by (cases "dec_digits n") (auto split: char.split bool.split)
  then show "n \<le> top_value \<Longrightarrow> parse_unsigned top_value (dec_digits n) = Some n"
    "top_value < n \<Longrightarrow> parse_unsigned top_value (dec_digits n) = None"
    using dec_digits_no_plus [of n] by (simp_all add: parse_unsigned_def)
qed

lemma digit_not_space: "is_ascii_digit c \<Longrightarrow> \<not> is_space c \<and> \<not> is_ascii_alphabetic c"
  by (auto simp: is_ascii_digit_def is_space_def is_ascii_alphabetic_def)

lemma alphabetic_not_space: "is_ascii_alphabetic c \<Longrightarrow> \<not> is_space c"
  by (auto simp: is_space_def is_ascii_alphabetic_def)

lemma trim_id: "s = [] \<or> \<not> is_space (hd s) \<and> \<not> is_space (last s) \<Longrightarrow> trim s = s"
proof -
  assume h: "s = [] \<or> \<not> is_space (hd s) \<and> \<not> is_space (last s)"
  have "dropWhile is_space s = s" using h by (cases s) auto
  moreover have "dropWhile is_space (rev s) = rev s" using h by (cases s rule: rev_cases) auto
  ultimately show ?thesis by (simp add: trim_def)
qed

lemma trim_end_alphabetic_split:
  assumes "digits \<noteq> []" "list_all is_ascii_digit digits" "list_all is_ascii_alphabetic letters"
  shows "trim_end_alphabetic (digits @ letters) = digits"
proof -
  have "dropWhile is_ascii_alphabetic (rev letters @ rev digits) = dropWhile is_ascii_alphabetic (rev digits)"
    using assms(3) by (intro dropWhile_append2) (auto simp: list_all_iff)
  moreover have "dropWhile is_ascii_alphabetic (rev digits) = rev digits"
    using assms(1,2) digit_not_space by (cases digits rule: rev_cases) auto
  ultimately show ?thesis by (simp add: trim_end_alphabetic_def)
qed

text \<open>
  A size reads as it is written. For any number and any run of letters after it, the size is
  the number scaled by the unit when the unit is known and the product fits 64 bits, and is
  refused otherwise: nothing wraps and no unit is guessed.
\<close>

theorem parse_size_exact:
  assumes "list_all is_ascii_alphabetic u"
  shows "parse_size (dec_digits n @ u) =
    (case size_scale (to_ascii_lowercase u) of
       None \<Rightarrow> None
     | Some scale \<Rightarrow> if n * scale \<le> u64_max then Some (n * scale) else None)"
proof -
  note d = dec_digits_no_plus [of n]
  let ?s = "dec_digits n @ u"
  have ends: "\<not> is_space (hd ?s)" "\<not> is_space (last ?s)"
  proof -
    show "\<not> is_space (hd ?s)" using d digit_not_space by (cases "dec_digits n") auto
    have "u \<noteq> [] \<Longrightarrow> \<not> is_space (last u)" using assms alphabetic_not_space by (auto simp: list_all_iff)
    moreover have "\<not> is_space (last (dec_digits n))" using d digit_not_space by (auto simp: list_all_iff)
    ultimately show "\<not> is_space (last ?s)" by (simp add: last_append)
  qed
  then have t: "trim ?s = ?s" by (intro trim_id) blast
  have split: "trim_end_alphabetic ?s = dec_digits n" using d assms by (intro trim_end_alphabetic_split) auto
  have u: "trim u = u" using assms alphabetic_not_space by (intro trim_id) (auto simp: list_all_iff)
  have dd: "trim (dec_digits n) = dec_digits n" using d digit_not_space by (intro trim_id) (auto simp: list_all_iff)
  have pos: "size_scale k = Some scale \<Longrightarrow> 0 < scale" for k scale by (auto simp: size_scale_def split: if_splits)
  show ?thesis
  proof (cases "size_scale (to_ascii_lowercase u)")
    case None
    then show ?thesis by (simp add: parse_size_def t split u Let_def)
  next
    case (Some scale)
    show ?thesis
    proof (cases "n \<le> u64_max")
      case True
      then show ?thesis using Some parse_unsigned_digits(1) [OF True]
        by (simp add: parse_size_def t split u dd u64_checked_mul_def Let_def)
    next
      case False
      then have "u64_max < n * scale" using pos [OF Some] by (metis less_le_trans linorder_not_less mult.right_neutral mult_le_mono2 Suc_leI One_nat_def)
      then show ?thesis using Some False parse_unsigned_digits(2) [of u64_max n]
        by (simp add: parse_size_def t split u dd Let_def)
    qed
  qed
qed

theorem parse_size_exact_witness:
  "parse_size (dec_digits 64 @ ''MiB'') = Some 67108864"
proof -
  have u: "list_all is_ascii_alphabetic ''MiB''" "to_ascii_lowercase ''MiB'' = ''mib''" by code_simp+
  show ?thesis unfolding parse_size_exact [OF u(1)] u(2) by (simp add: size_scale_def u64_max_def)
qed

text \<open>
  What \<open>validate\<close> lets through is exactly what the daemon may bind: a socket below its run
  directory, room for a record in the ring, segments of a page at least, and HTTP only on
  loopback and only behind a token that is there and not blank.
\<close>

theorem validate_exact:
  "validate_config loopback read_file c = Inr () \<longleftrightarrow>
     \<not> is_absolute (cf_socket c) \<and> 0 < cf_ring c \<and> 4096 \<le> cf_segment c \<and>
     (case cf_http c of None \<Rightarrow> True
      | Some http \<Rightarrow> loopback http \<and> (case cf_token c of None \<Rightarrow> False
          | Some path \<Rightarrow> (case read_file path of None \<Rightarrow> False | Some text \<Rightarrow> trim text \<noteq> [])))"
  by (auto simp: validate_config_def read_token_def Let_def split: option.splits)

text \<open>Default deny: nobody but the owner reaches a log whose own list does not name them.\<close>

lemma acl_default_deny:
  "acl_allows a uid log_name \<longleftrightarrow>
     uid = acl_owner a \<or> (acl_accepts a uid \<and> (\<exists>uids. bt_get (acl_logs a) log_name = Some uids \<and> uid \<in> uids))"
  by (auto simp: acl_allows_def acl_accepts_def split: option.splits)

end
