(* ===== verification/ServerSession.thy ===== *)
theory ServerSession
  imports ServerConfig
begin

text \<open>
  \<open>crates/lug-server/src/{registry,session,unix,http}.rs\<close>: the registry of logs, one
  connection's dispatch of requests, and the two transports in front of it. A dispatch returns
  the effects it has, in order: frames for the client, commands for an actor, replies to wait
  for, streams to start.
\<close>

section \<open>Registry\<close>

record log_handle =
  lh_name :: string
  lh_reducible :: bool
  lh_watermark :: version
  lh_oldest :: version
  lh_subscribers :: nat
  lh_open :: bool

type_synonym registry = "(string, log_handle) btree_map"

definition handle_info :: "log_handle \<Rightarrow> log_info" where
  "handle_info h = \<lparr>li_name = lh_name h, li_reducible = lh_reducible h, li_version = lh_watermark h,
     li_oldest = lh_oldest h, li_subscribers = lh_subscribers h\<rparr>"

definition is_ascii_alphanumeric :: "char \<Rightarrow> bool" where
  "is_ascii_alphanumeric c \<longleftrightarrow> is_ascii_alphabetic c \<or> is_ascii_digit c"

text \<open>\<open>debug\<close> is the escaped form of a string, as \<open>{:?}\<close> prints it.\<close>

definition check_name :: "(string \<Rightarrow> string) \<Rightarrow> string \<Rightarrow> failure + unit" where
  "check_name debug name =
     (if name \<noteq> [] \<and> length name \<le> 128 \<and>
         list_all (\<lambda>c. is_ascii_alphanumeric c \<or> c = CHR ''-'' \<or> c = CHR ''_'' \<or> c = CHR ''.'') name \<and>
         name \<noteq> ''.'' \<and> name \<noteq> ''..''
      then Inr () else Inl (Malformed, ''bad log name '' @ debug name))"

definition registry_get :: "registry \<Rightarrow> string \<Rightarrow> log_handle option" where
  "registry_get logs name = bt_get logs name"

definition registry_list :: "registry \<Rightarrow> log_handle list" where
  "registry_list logs = sort_key lh_name (map snd logs)"

definition show_bool :: "bool \<Rightarrow> string" where
  "show_bool b = (if b then ''true'' else ''false'')"

text \<open>
  \<open>rem_kind\<close> is the factory's \<open>remember\<close> and \<open>spawn\<close> the start of the actor on its core; both
  may fail, with a text.
\<close>

definition registry_create ::
    "(string \<Rightarrow> string) \<Rightarrow> (string \<Rightarrow> bool \<Rightarrow> string + unit) \<Rightarrow> (string \<Rightarrow> string + unit) \<Rightarrow>
     registry \<Rightarrow> string \<Rightarrow> bool \<Rightarrow> registry \<times> (failure + log_handle)" where
  "registry_create debug rem_kind spawn logs name folds =
     (case check_name debug name of
        Inl f \<Rightarrow> (logs, Inl f)
      | Inr _ \<Rightarrow>
          (case bt_get logs name of
             Some existing \<Rightarrow>
               if lh_reducible existing \<noteq> folds
               then (logs, Inl (LogExists, ''log '' @ name @ '' already exists with reducible='' @ show_bool (lh_reducible existing)))
               else (logs, Inr existing)
           | None \<Rightarrow>
               let handle = \<lparr>lh_name = name, lh_reducible = folds, lh_watermark = 0, lh_oldest = 0, lh_subscribers = 0, lh_open = True\<rparr>
               in case rem_kind name folds of
                   Inl e \<Rightarrow> (logs, Inl (CodeStorage, e))
                 | Inr _ \<Rightarrow>
                     (case spawn name of
                        Inl e \<Rightarrow> (logs, Inl (Internal, e))
                      | Inr _ \<Rightarrow> (bt_insert name handle logs, Inr handle))))"

section \<open>Session\<close>

record session =
  ss_uid :: nat
  ss_acl :: acl
  ss_token :: "string option"
  ss_streams :: "(id, nat) btree_map"
  ss_pending_open :: bool

datatype waiting = WaitAck id nat | WaitView id nat

datatype effect =
    Reply response
  | Queue string command
  | Await waiting
  | Spawn stream string

definition session_new :: "nat \<Rightarrow> acl \<Rightarrow> string option \<Rightarrow> session" where
  "session_new uid a token = \<lparr>ss_uid = uid, ss_acl = a, ss_token = token, ss_streams = [], ss_pending_open = True\<rparr>"

definition fail_reply :: "id \<Rightarrow> failure \<Rightarrow> effect" where
  "fail_reply rid f = Reply (ErrorFrame rid (fst f) (snd f))"

definition no_stream :: "id \<Rightarrow> failure" where
  "no_stream rid = (BadId, ''no stream '' @ dec_digits rid)"

definition unauthorized :: "string \<Rightarrow> failure" where
  "unauthorized log_name = (Unauthorized, ''not permitted on log '' @ log_name)"

definition not_reducible :: "string \<Rightarrow> failure" where
  "not_reducible log_name = (NotReducible, ''log '' @ log_name @ '' keeps no view'')"

definition gone :: "string \<Rightarrow> failure" where
  "gone log_name = (Internal, ''log '' @ log_name @ '' is not running'')"

definition session_grant :: "session \<Rightarrow> id \<Rightarrow> nat \<Rightarrow> session \<times> (failure + unit)" where
  "session_grant s rid grant =
     (case bt_get (ss_streams s) rid of
        Some granted \<Rightarrow> (s\<lparr>ss_streams := bt_insert rid (u64_saturating_add granted grant) (ss_streams s)\<rparr>, Inr ())
      | None \<Rightarrow> (s, Inl (no_stream rid)))"

definition session_cancel :: "session \<Rightarrow> id \<Rightarrow> session \<times> (failure + unit)" where
  "session_cancel s rid =
     (case bt_get (ss_streams s) rid of
        Some _ \<Rightarrow> (s\<lparr>ss_streams := bt_remove rid (ss_streams s)\<rparr>, Inr ())
      | None \<Rightarrow> (s, Inl (no_stream rid)))"

definition session_forget :: "session \<Rightarrow> id \<Rightarrow> session" where
  "session_forget s rid = s\<lparr>ss_streams := bt_remove rid (ss_streams s)\<rparr>"

definition session_close :: "session \<Rightarrow> session" where
  "session_close s = s\<lparr>ss_streams := []\<rparr>"

definition session_handle :: "registry \<Rightarrow> session \<Rightarrow> id \<Rightarrow> string \<Rightarrow> effect + log_handle" where
  "session_handle logs s rid log_name =
     (if \<not> acl_allows (ss_acl s) (ss_uid s) log_name then Inl (fail_reply rid (unauthorized log_name))
      else case registry_get logs log_name of
          Some h \<Rightarrow> Inr h
        | None \<Rightarrow> Inl (fail_reply rid (NoSuchLog, ''no log '' @ log_name)))"

text \<open>\<open>ch\<close> is the oneshot channel the request would be answered on.\<close>

fun dispatch ::
    "(registry \<Rightarrow> string \<Rightarrow> bool \<Rightarrow> registry \<times> (failure + log_handle)) \<Rightarrow> nat \<Rightarrow>
     registry \<Rightarrow> session \<Rightarrow> request \<Rightarrow> registry \<times> session \<times> effect list" where
  "dispatch create ch logs s (Hello rid ver) =
     (logs, s, [Reply (Welcome rid proto_version max_frame (ss_token s))])"
| "dispatch create ch logs s (Ping rid) = (logs, s, [Reply (Pong rid)])"
| "dispatch create ch logs s (ListLogs rid) =
     (logs, s, [Reply (Logs rid (map handle_info (registry_list logs)))])"
| "dispatch create ch logs s (Create rid log_name folds) =
     (if \<not> acl_allows (ss_acl s) (ss_uid s) log_name then (logs, s, [fail_reply rid (unauthorized log_name)])
      else case create logs log_name folds of
          (logs', Inr h) \<Rightarrow> (logs', s, [Reply (Logs rid [handle_info h])])
        | (logs', Inl f) \<Rightarrow> (logs', s, [fail_reply rid f]))"
| "dispatch create ch logs s (Append rid log_name patches durability) =
     (case session_handle logs s rid log_name of
        Inl e \<Rightarrow> (logs, s, [e])
      | Inr h \<Rightarrow>
          if \<not> lh_open h then (logs, s, [fail_reply rid (gone log_name)])
          else (logs, s, [Queue log_name (CmdAppend patches durability ch),
                 if ss_pending_open s then Await (WaitAck rid ch) else fail_reply rid (Internal, ''connection closing'')]))"
| "dispatch create ch logs s (ReadView rid log_name at_version) =
     (case session_handle logs s rid log_name of
        Inl e \<Rightarrow> (logs, s, [e])
      | Inr h \<Rightarrow>
          if \<not> lh_reducible h then (logs, s, [fail_reply rid (not_reducible log_name)])
          else if \<not> lh_open h then (logs, s, [fail_reply rid (gone log_name)])
          else (logs, s, [Queue log_name (CmdView at_version ch),
                 if ss_pending_open s then Await (WaitView rid ch) else fail_reply rid (Internal, ''connection closing'')]))"
| "dispatch create ch logs s (Subscribe rid log_name from_version m credit) =
     (case session_handle logs s rid log_name of
        Inl e \<Rightarrow> (logs, s, [e])
      | Inr h \<Rightarrow>
          if m = Reducible \<and> \<not> lh_reducible h then (logs, s, [fail_reply rid (not_reducible log_name)])
          else if bt_get (ss_streams s) rid \<noteq> None
          then (logs, s, [fail_reply rid (BadId, ''stream '' @ dec_digits rid @ '' is open'')])
          else (logs, s\<lparr>ss_streams := bt_insert rid credit (ss_streams s)\<rparr>,
                (if ss_token s = None then [Reply (OkFrame rid)] else []) @
                [Spawn (stream_new rid from_version m credit) log_name]))"
| "dispatch create ch logs s (Credit rid grant) =
     (case session_grant s rid grant of
        (s', Inr _) \<Rightarrow> (logs, s', [Reply (OkFrame rid)])
      | (s', Inl f) \<Rightarrow> (logs, s', [fail_reply rid f]))"
| "dispatch create ch logs s (Cancel rid) =
     (case session_cancel s rid of
        (s', Inr _) \<Rightarrow> (logs, s', [])
      | (s', Inl f) \<Rightarrow> (logs, s', [fail_reply rid f]))"

text \<open>\<open>pump\<close>: what a reply becomes; \<open>None\<close> is an actor that went away without one.\<close>

fun pump_frame :: "waiting \<Rightarrow> answer option \<Rightarrow> response" where
  "pump_frame (WaitAck rid ch) (Some (AAppend (Inr a))) = Ack rid (ak_versions a) (ak_synced a)"
| "pump_frame (WaitAck rid ch) (Some (AAppend (Inl f))) = ErrorFrame rid (fst f) (snd f)"
| "pump_frame (WaitView rid ch) (Some (AView (Inr (version, value)))) = View rid version value"
| "pump_frame (WaitView rid ch) (Some (AView (Inl f))) = ErrorFrame rid (fst f) (snd f)"
| "pump_frame (WaitAck rid ch) _ = ErrorFrame rid Internal ''log actor stopped''"
| "pump_frame (WaitView rid ch) _ = ErrorFrame rid Internal ''log actor stopped''"

text \<open>The end of a stream's task: it forgets its id, then says so.\<close>

definition stream_finish :: "stream \<Rightarrow> session option \<Rightarrow> session option \<times> effect list" where
  "stream_finish st owner = (map_option (\<lambda>s. session_forget s (st_id st)) owner, [Reply (End (st_id st))])"

section \<open>Unix socket\<close>

datatype admission = Refused code string | Served

definition admit :: "acl \<Rightarrow> nat \<Rightarrow> nat \<Rightarrow> nat \<Rightarrow> admission" where
  "admit a connections held uid =
     (if \<not> acl_accepts a uid then Refused Unauthorized ''peer uid is not permitted''
      else if connections \<le> held then Refused Backpressure ''connection limit reached; raise limits.connections''
      else Served)"

section \<open>HTTP\<close>

record api =
  api_logs :: registry
  api_acl :: acl
  api_uid :: nat
  api_token :: string
  api_sessions :: "(string, session) btree_map"

definition constant_time_eq :: "8 word list \<Rightarrow> 8 word list \<Rightarrow> bool" where
  "constant_time_eq a b =
     (if length a \<noteq> length b then False
      else foldl (\<lambda>acc (x, y). or acc (xor x y)) 0 (zip a b) = 0)"

definition text_bytes :: "string \<Rightarrow> 8 word list" where
  "text_bytes s = map (\<lambda>c. of_nat (of_char c)) s"

text \<open>\<open>auth\<close> is the authorization header, when it is there and is text.\<close>

definition authorized :: "api \<Rightarrow> string option \<Rightarrow> bool" where
  "authorized api auth =
     (case auth of
        None \<Rightarrow> False
      | Some v \<Rightarrow>
          (case (case strip_prefix ''Bearer '' v of Some t \<Rightarrow> Some t | None \<Rightarrow> strip_prefix ''bearer '' v) of
             None \<Rightarrow> False
           | Some offered \<Rightarrow> constant_time_eq (text_bytes offered) (text_bytes (api_token api))))"

definition hex_digit :: "nat \<Rightarrow> char" where
  "hex_digit n = (if n < 10 then char_of (48 + n) else char_of (87 + n))"

definition hex_byte :: "8 word \<Rightarrow> string" where
  "hex_byte b = [hex_digit (unat b div 16), hex_digit (unat b mod 16)]"

definition mint :: "8 word list option \<Rightarrow> string option" where
  "mint random = map_option (\<lambda>bytes. concat (map hex_byte bytes)) random"

datatype http_answer = Now nat response | FromOutbox "effect list"

text \<open>
  \<open>call\<close>. A request that is not steered into a stream goes through a session of its own, and
  the answer is the first frame that session sends.
\<close>

definition http_call ::
    "(registry \<Rightarrow> string \<Rightarrow> bool \<Rightarrow> registry \<times> (failure + log_handle)) \<Rightarrow> (bytes \<Rightarrow> string + request) \<Rightarrow> nat \<Rightarrow>
     api \<Rightarrow> string option \<Rightarrow> string option \<Rightarrow> bytes \<Rightarrow> api \<times> http_answer" where
  "http_call create of_slice ch api auth steer body =
     (if \<not> authorized api auth then (api, Now 401 (ErrorFrame 0 Unauthorized ''bad token''))
      else if max_frame < length body mod 4294967296 then (api, Now 413 (ErrorFrame 0 Malformed ''body too large''))
      else case of_slice body of
          Inl e \<Rightarrow> (api, Now 400 (ErrorFrame 0 Malformed e))
        | Inr req \<Rightarrow>
            let rid = req_id req;
                owner = (case steer of None \<Rightarrow> None | Some name \<Rightarrow>
                    map_option (\<lambda>s. (name, s)) (bt_get (api_sessions api) name));
                steered = (\<lambda>op ok.
                  case owner of
                    None \<Rightarrow> (api, Now 400 (ErrorFrame rid BadId (''no session for stream '' @ dec_digits rid)))
                  | Some (name, s) \<Rightarrow>
                      (case op s of
                         (s', Inr _) \<Rightarrow> (api\<lparr>api_sessions := bt_insert name s' (api_sessions api)\<rparr>, Now 200 (ok rid))
                       | (s', Inl f) \<Rightarrow> (api, Now 400 (ErrorFrame rid (fst f) (snd f)))))
            in case req of
                Credit _ grant \<Rightarrow> steered (\<lambda>s. session_grant s rid grant) OkFrame
              | Cancel _ \<Rightarrow> steered (\<lambda>s. session_cancel s rid) End
              | Subscribe _ _ _ _ _ \<Rightarrow> (api, Now 400 (ErrorFrame rid Malformed ''subscribe over /v1/stream''))
              | _ \<Rightarrow>
                  (case dispatch create ch (api_logs api) (session_new (api_uid api) (api_acl api) None) req of
                     (logs, s, effects) \<Rightarrow> (api\<lparr>api_logs := logs\<rparr>, FromOutbox effects)))"

text \<open>\<open>stream\<close>: the Welcome with the session's name first, then the subscription.\<close>

definition http_stream ::
    "(registry \<Rightarrow> string \<Rightarrow> bool \<Rightarrow> registry \<times> (failure + log_handle)) \<Rightarrow> 8 word list option \<Rightarrow>
     api \<Rightarrow> string option \<Rightarrow> id \<Rightarrow> string \<Rightarrow> version \<Rightarrow> mode \<Rightarrow> nat \<Rightarrow> api \<times> http_answer" where
  "http_stream create random api auth rid log_name from_version m credit =
     (if \<not> authorized api auth then (api, Now 401 (ErrorFrame rid Unauthorized ''bad token''))
      else case mint random of
          None \<Rightarrow> (api, Now 500 (ErrorFrame rid Internal ''no random source for a session name''))
        | Some name \<Rightarrow>
            (case dispatch create 0 (api_logs api) (session_new (api_uid api) (api_acl api) (Some name))
                (Subscribe rid log_name from_version m credit) of
               (logs, s, effects) \<Rightarrow>
                 (api\<lparr>api_logs := logs, api_sessions := bt_insert name s (api_sessions api)\<rparr>,
                  FromOutbox (Reply (Welcome rid proto_version max_frame (Some name)) # effects))))"

text \<open>The client went away: the session leaves the table and its streams are cancelled.\<close>

definition http_unregister :: "api \<Rightarrow> string \<Rightarrow> api" where
  "http_unregister api name = api\<lparr>api_sessions := bt_remove name (api_sessions api)\<rparr>"

section \<open>Properties\<close>

text \<open>The ids of the frames a dispatch has sent or will send once an actor has replied.\<close>

fun answer_ids :: "effect list \<Rightarrow> id list" where
  "answer_ids [] = []"
| "answer_ids (Reply r # es) = resp_id r # answer_ids es"
| "answer_ids (Await (WaitAck rid ch) # es) = rid # answer_ids es"
| "answer_ids (Await (WaitView rid ch) # es) = rid # answer_ids es"
| "answer_ids (e # es) = answer_ids es"

definition spawned :: "effect list \<Rightarrow> id list" where
  "spawned es = List.map_filter (\<lambda>e. case e of Spawn st log_name \<Rightarrow> Some (st_id st) | _ \<Rightarrow> None) es"

lemma fail_reply_answers [simp]: "answer_ids (fail_reply rid f # es) = rid # answer_ids es" "spawned (fail_reply rid f # es) = spawned es"
  by (simp_all add: fail_reply_def spawned_def List.map_filter_def)

lemma spawned_simps [simp]:
  "spawned [] = []" "spawned (Reply r # es) = spawned es" "spawned (Queue l c # es) = spawned es"
  "spawned (Await w # es) = spawned es" "spawned (Spawn st l # es) = st_id st # spawned es"
  by (simp_all add: spawned_def List.map_filter_def)

lemma session_handle_answers:
  "session_handle logs s rid log_name = Inl e \<Longrightarrow> answer_ids [e] = [rid] \<and> spawned [e] = []"
  by (auto simp: session_handle_def split: if_splits option.splits)

lemma dispatch_effects:
  assumes "dispatch create ch logs s req = (logs', s', effects)"
  shows "answer_ids effects =
      (if (\<exists>rid. req = Cancel rid \<and> bt_get (ss_streams s) rid \<noteq> None) \<or> spawned effects \<noteq> [] \<and> ss_token s \<noteq> None
       then [] else [req_id req]) \<and>
    (spawned effects \<noteq> [] \<longrightarrow> spawned effects = [req_id req] \<and> bt_get (ss_streams s) (req_id req) = None) \<and>
    (bt_wf (ss_streams s) \<longrightarrow> bt_wf (ss_streams s') \<and>
       (\<forall>rid. bt_get (ss_streams s') rid \<noteq> None \<longleftrightarrow>
          (bt_get (ss_streams s) rid \<noteq> None \<and> req \<noteq> Cancel rid) \<or> rid \<in> set (spawned effects)))"
proof (cases req)
  case (Create rid log_name folds)
  then show ?thesis using assms by (auto split: if_splits prod.splits sum.splits)
next
  case (Append rid log_name patches durability)
  then show ?thesis using assms session_handle_answers [of logs s rid log_name]
    by (auto split: sum.splits if_splits)
next
  case (ReadView rid log_name at_version)
  then show ?thesis using assms session_handle_answers [of logs s rid log_name]
    by (auto split: sum.splits if_splits)
next
  case (Subscribe rid log_name from_version m credit)
  then show ?thesis using assms session_handle_answers [of logs s rid log_name]
    by (auto simp: stream_new_def bt_insert_wf split: sum.splits if_splits)
next
  case (Credit rid grant)
  then show ?thesis using assms by (auto simp: session_grant_def bt_insert_wf split: option.splits if_splits)
next
  case (Cancel rid)
  then show ?thesis using assms by (auto simp: session_cancel_def bt_wf_remove split: option.splits if_splits)
qed (use assms in auto)

text \<open>
  C10: Every request is answered exactly once, under its own id. Whatever the request and the
  state of registry and session, a dispatch yields one frame or one awaited reply carrying the
  request's id, with the two exceptions the protocol makes: cancelling an open stream leaves the
  answer to the stream, and a stream accepted over HTTP was answered by the Welcome before. A
  stream starts only under an id that had none, and holds it from then on; a session keeps its
  streams otherwise.
\<close>

theorem dispatch_answers_once:
  assumes "dispatch create ch logs s req = (logs', s', effects)"
  shows "answer_ids effects =
      (if (\<exists>rid. req = Cancel rid \<and> bt_get (ss_streams s) rid \<noteq> None) \<or> spawned effects \<noteq> [] \<and> ss_token s \<noteq> None
       then [] else [req_id req]) \<and>
    (spawned effects \<noteq> [] \<longrightarrow> spawned effects = [req_id req] \<and> bt_get (ss_streams s) (req_id req) = None) \<and>
    (bt_wf (ss_streams s) \<longrightarrow> bt_wf (ss_streams s') \<and>
       (\<forall>rid. bt_get (ss_streams s') rid \<noteq> None \<longleftrightarrow>
          (bt_get (ss_streams s) rid \<noteq> None \<and> req \<noteq> Cancel rid) \<or> rid \<in> set (spawned effects)))"
  using assms by (rule dispatch_effects)

theorem dispatch_answers_once_witness:
  "answer_ids (snd (snd (dispatch (\<lambda>logs name folds. (logs, Inl (Internal, []))) 5
      [(''orders'', \<lparr>lh_name = ''orders'', lh_reducible = True, lh_watermark = 3, lh_oldest = 1, lh_subscribers = 0, lh_open = True\<rparr>)]
      (session_new 1000 (acl_new 1000 []) None) (Subscribe 9 ''orders'' 0 Records 8)))) = [9]"
proof -
  let ?d = "dispatch (\<lambda>logs name folds. (logs, Inl (Internal, []))) 5
      [(''orders'', \<lparr>lh_name = ''orders'', lh_reducible = True, lh_watermark = 3, lh_oldest = 1, lh_subscribers = 0, lh_open = True\<rparr>)]
      (session_new 1000 (acl_new 1000 []) None) (Subscribe 9 ''orders'' 0 Records 8)"
  obtain logs' s' effects where d: "?d = (logs', s', effects)" by (cases ?d)
  then show ?thesis using dispatch_answers_once [OF d] by (simp add: session_new_def)
qed

lemma or_xor_zero: "foldl (\<lambda>acc (x, y). or acc (xor x y)) c (zip a b) = (0 :: 8 word) \<longleftrightarrow> c = 0 \<and> (\<forall>(x, y) \<in> set (zip a b). x = y)"
proof (induction a arbitrary: b c)
  case (Cons x a)
  have "or c (xor x y) = 0 \<longleftrightarrow> c = 0 \<and> x = y" for y
    unfolding or_eq_0_iff by (metis xor.assoc xor.left_neutral xor.right_neutral xor_self_eq)
  then show ?case using Cons.IH by (cases b) auto
qed simp

lemma constant_time_eq_iff: "constant_time_eq a b \<longleftrightarrow> a = b"
proof (cases "length a = length b")
  case True
  then have "(\<forall>(x, y) \<in> set (zip a b). x = y) \<longleftrightarrow> a = b" by (induction a b rule: list_induct2) auto
  then show ?thesis using True by (simp add: constant_time_eq_def or_xor_zero)
qed (auto simp: constant_time_eq_def)

lemma strip_prefix_Some: "strip_prefix p s = Some t \<longleftrightarrow> s = p @ t"
  by (induction p s rule: strip_prefix.induct) auto

lemma text_bytes_inject: "text_bytes s = text_bytes t \<longleftrightarrow> s = t"
proof -
  have "inj (\<lambda>c :: char. of_nat (of_char c) :: 8 word)"
  proof (rule injI)
    fix c d :: char
    assume "(of_nat (of_char c) :: 8 word) = of_nat (of_char d)"
    then have "unat (of_nat (of_char c) :: 8 word) = unat (of_nat (of_char d) :: 8 word)" by simp
    then have "(of_char c :: nat) = of_char d" by (simp add: unat_of_nat)
    then show "c = d" by simp
  qed
  then show ?thesis by (simp add: text_bytes_def inj_map_eq_map)
qed

text \<open>
  C35: Nothing happens over HTTP without the token. A header authorizes exactly when it is the
  token behind one of the two spellings of Bearer; without it a call or a stream is refused and
  leaves every session, stream and log as it was. The comparison that avoids leaking a prefix
  is equality.
\<close>

theorem http_needs_the_token:
  "(authorized api auth \<longleftrightarrow> auth = Some (''Bearer '' @ api_token api) \<or> auth = Some (''bearer '' @ api_token api)) \<and>
   (\<not> authorized api auth \<longrightarrow>
      http_call create of_slice ch api auth steer body = (api, Now 401 (ErrorFrame 0 Unauthorized ''bad token'')) \<and>
      http_stream create random api auth rid log_name from_version m credit =
        (api, Now 401 (ErrorFrame rid Unauthorized ''bad token'')))"
proof -
  have "authorized api (Some v) \<longleftrightarrow> v = ''Bearer '' @ api_token api \<or> v = ''bearer '' @ api_token api" for v
    using strip_prefix_Some [of "''Bearer ''" v] strip_prefix_Some [of "''bearer ''" v]
    by (auto simp: authorized_def constant_time_eq_iff text_bytes_inject split: option.splits)
  then show ?thesis by (cases auth) (simp_all add: authorized_def http_call_def http_stream_def)
qed

theorem http_needs_the_token_witness:
  "http_call (\<lambda>logs name folds. (logs, Inl (CodeStorage, []))) (\<lambda>body. Inr (ListLogs 7)) 4
     \<lparr>api_logs = [], api_acl = acl_new 0 [], api_uid = 0, api_token = ''k'', api_sessions = []\<rparr> (Some ''Bearer K'') None [] =
   (\<lparr>api_logs = [], api_acl = acl_new 0 [], api_uid = 0, api_token = ''k'', api_sessions = []\<rparr>,
    Now 401 (ErrorFrame 0 Unauthorized ''bad token''))"
  by (subst http_needs_the_token [THEN conjunct2, THEN mp, THEN conjunct1])
     (simp_all add: http_needs_the_token [THEN conjunct1])

text \<open>
  C39: A log name is safe as a directory name, and creating is idempotent. The name a create succeeded
  for is at most 128 long, not empty, not one of the two dot names, and has no separator or NUL in it.
  The registry then holds that log under the name and every other log as before; a second create of
  the same shape succeeds, whatever the file system would answer, changes nothing and reports the
  same log, and one of the other shape is refused as existing.
\<close>

theorem create_is_idempotent:
  assumes "bt_wf logs" "registry_create debug rem_kind spawn logs name folds = (logs', Inr h)"
  shows "name \<notin> {[], ''.'', ''..''} \<and> CHR ''/'' \<notin> set name \<and> CHR 0x00 \<notin> set name \<and> length name \<le> 128 \<and>
    bt_wf logs' \<and> bt_get logs' name = Some h \<and> (\<forall>other. other \<noteq> name \<longrightarrow> bt_get logs' other = bt_get logs other) \<and>
    registry_create debug rem_kind2 spawn2 logs' name (lh_reducible h) = (logs', Inr h) \<and>
    (\<exists>m. registry_create debug rem_kind2 spawn2 logs' name (\<not> lh_reducible h) = (logs', Inl (LogExists, m)))"
proof -
  have ok: "check_name debug name = Inr ()" using assms(2) by (auto simp: registry_create_def split: sum.splits)
  then have chars: "name \<noteq> []" "length name \<le> 128" "name \<noteq> ''.''" "name \<noteq> ''..''"
    "\<forall>c \<in> set name. is_ascii_alphanumeric c \<or> c = CHR ''-'' \<or> c = CHR ''_'' \<or> c = CHR ''.''"
    by (auto simp: check_name_def list_all_iff split: if_splits)
  have bad: "\<not> is_ascii_alphanumeric (CHR ''/'')" "\<not> is_ascii_alphanumeric (CHR 0x00)"
    by (simp_all add: is_ascii_alphanumeric_def is_ascii_alphabetic_def is_ascii_digit_def)
  have "bt_wf logs' \<and> bt_get logs' name = Some h \<and> (\<forall>other. other \<noteq> name \<longrightarrow> bt_get logs' other = bt_get logs other)"
    using assms ok by (auto simp: registry_create_def bt_insert_wf Let_def split: option.splits sum.splits if_splits)
  moreover from this have "registry_create debug rem_kind2 spawn2 logs' name (lh_reducible h) = (logs', Inr h) \<and>
    (\<exists>m. registry_create debug rem_kind2 spawn2 logs' name (\<not> lh_reducible h) = (logs', Inl (LogExists, m)))"
    using ok by (simp add: registry_create_def)
  ultimately show ?thesis using chars bad by auto
qed

theorem create_is_idempotent_witness:
  "\<exists>logs h. registry_create (\<lambda>s. s) (\<lambda>name folds. Inr ()) (\<lambda>name. Inr ()) [] ''orders'' True = (logs, Inr h) \<and>
    registry_create (\<lambda>s. s) (\<lambda>name folds. Inl []) (\<lambda>name. Inr ()) logs ''orders'' True = (logs, Inr h)"
proof -
  let ?h = "\<lparr>lh_name = ''orders'', lh_reducible = True, lh_watermark = 0, lh_oldest = 0, lh_subscribers = 0, lh_open = True\<rparr>"
  have "check_name (\<lambda>s. s) ''orders'' = Inr ()" by code_simp
  then have c: "registry_create (\<lambda>s. s) (\<lambda>name folds. Inr ()) (\<lambda>name. Inr ()) [] ''orders'' True = ([(''orders'', ?h)], Inr ?h)"
    by (simp add: registry_create_def bt_get_def Let_def)
  have "bt_wf ([] :: registry)" by simp
  from create_is_idempotent [OF this c, of "\<lambda>name folds. Inl []" "\<lambda>name. Inr ()"] c show ?thesis by auto
qed

end
