(* ===== verification/ClientConn.thy ===== *)
theory ClientConn
  imports ServerSession
begin

text \<open>
  \<open>crates/lug-client/src/{error,config,conn,pool,transport}.rs\<close> and the calls of \<open>hub.rs\<close>: one
  connection's multiplexer, the pool that supervises its connections, and the retry policy of a
  call. A oneshot reply channel is a number and the replies sent are a list; the bounded channel
  of a stream is a \<open>sink\<close>. Durations are milliseconds.
\<close>

section \<open>Errors\<close>

datatype client_error =
    ServerError id code string
  | Disconnected id
  | ConnectError string string
  | Timeout id nat
  | ProtocolError id string
  | Overrun id
  | ViewError cavlc_error
  | CodecFailed "string codec_error"
  | IoFailed string
  | HttpError string
  | HubClosed

definition is_transient :: "client_error \<Rightarrow> bool" where
  "is_transient e \<longleftrightarrow>
     (case e of
        Disconnected _ \<Rightarrow> True
      | ConnectError _ _ \<Rightarrow> True
      | Timeout _ _ \<Rightarrow> True
      | ServerError _ c _ \<Rightarrow> c = CodeStorage \<or> c = Internal \<or> c = Backpressure
      | _ \<Rightarrow> False)"

definition unpack :: "response \<Rightarrow> client_error + response" where
  "unpack frame = (case frame of ErrorFrame i c m \<Rightarrow> Inl (ServerError i c m) | _ \<Rightarrow> Inr frame)"

section \<open>One connection\<close>

datatype conn_command =
    CallCmd request nat
  | StreamCmd request nat
  | Fire request
  | Forget id

datatype waiter = WaitReply nat | WaitStream nat

record sink =
  sk_capacity :: nat
  sk_queue :: "(client_error + response) list"
  sk_open :: bool
  sk_overrun :: bool

record conn =
  cn_waiters :: "(id, waiter) btree_map"
  cn_pending :: "request list"
  cn_written :: "request list"
  cn_replies :: "(nat \<times> (client_error + response)) list"
  cn_sinks :: "(nat, sink) btree_map"

definition conn_new :: conn where
  "conn_new = \<lparr>cn_waiters = [], cn_pending = [], cn_written = [], cn_replies = [], cn_sinks = []\<rparr>"

text \<open>The channel of a subscription, sized to its window.\<close>

definition sink_new :: "nat \<Rightarrow> sink" where
  "sink_new window = \<lparr>sk_capacity = min (max window 1) 4096, sk_queue = [], sk_open = True, sk_overrun = False\<rparr>"

definition try_send :: "(nat, sink) btree_map \<Rightarrow> nat \<Rightarrow> client_error + response \<Rightarrow> (nat, sink) btree_map \<times> bool" where
  "try_send sinks k r =
     (case bt_get sinks k of
        None \<Rightarrow> (sinks, False)
      | Some s \<Rightarrow>
          if sk_open s \<and> length (sk_queue s) < sk_capacity s
          then (bt_insert k (s\<lparr>sk_queue := sk_queue s @ [r]\<rparr>) sinks, True)
          else (sinks, False))"

definition set_overrun :: "nat \<Rightarrow> (nat, sink) btree_map \<Rightarrow> (nat, sink) btree_map" where
  "set_overrun k sinks =
     (case bt_get sinks k of None \<Rightarrow> sinks | Some s \<Rightarrow> bt_insert k (s\<lparr>sk_overrun := True\<rparr>) sinks)"

fun conn_accept :: "conn_command \<Rightarrow> conn \<Rightarrow> conn" where
  "conn_accept (CallCmd req ch) c =
     c\<lparr>cn_waiters := bt_insert (req_id req) (WaitReply ch) (cn_waiters c), cn_pending := cn_pending c @ [req]\<rparr>"
| "conn_accept (StreamCmd req k) c =
     c\<lparr>cn_waiters := bt_insert (req_id req) (WaitStream k) (cn_waiters c), cn_pending := cn_pending c @ [req]\<rparr>"
| "conn_accept (Fire req) c = c\<lparr>cn_pending := cn_pending c @ [req]\<rparr>"
| "conn_accept (Forget i) c = c\<lparr>cn_waiters := bt_remove i (cn_waiters c)\<rparr>"

definition conn_deliver :: "response \<Rightarrow> conn \<Rightarrow> conn" where
  "conn_deliver frame c =
     (let i = resp_id frame; gone = bt_remove i (cn_waiters c) in
      case bt_get (cn_waiters c) i of
        None \<Rightarrow> c
      | Some (WaitReply ch) \<Rightarrow> c\<lparr>cn_waiters := gone, cn_replies := cn_replies c @ [(ch, unpack frame)]\<rparr>
      | Some (WaitStream k) \<Rightarrow>
          (case try_send (cn_sinks c) k (unpack frame) of
             (_, False) \<Rightarrow> c\<lparr>cn_sinks := set_overrun k (cn_sinks c), cn_waiters := gone\<rparr>
           | (sinks, True) \<Rightarrow>
               if is_final frame then c\<lparr>cn_sinks := sinks, cn_waiters := gone\<rparr> else c\<lparr>cn_sinks := sinks\<rparr>))"

definition waiter_fail :: "client_error \<Rightarrow> waiter \<Rightarrow> conn \<Rightarrow> conn" where
  "waiter_fail e w c =
     (case w of
        WaitReply ch \<Rightarrow> c\<lparr>cn_replies := cn_replies c @ [(ch, Inl e)]\<rparr>
      | WaitStream k \<Rightarrow> c\<lparr>cn_sinks := fst (try_send (cn_sinks c) k (Inl e))\<rparr>)"

fun fail_all :: "(id \<times> waiter) list \<Rightarrow> conn \<Rightarrow> conn" where
  "fail_all [] c = c"
| "fail_all ((i, w) # ws) c = fail_all ws (waiter_fail (Disconnected i) w c)"

text \<open>The end of \<open>run\<close>: every waiter fails, what was not written is dropped.\<close>

definition conn_finish :: "conn \<Rightarrow> conn" where
  "conn_finish c = fail_all (cn_waiters c) (c\<lparr>cn_waiters := [], cn_pending := []\<rparr>)"

text \<open>
  The branches of the \<open>select!\<close> of \<open>run\<close>, with the receiving ends of the sinks beside them: a
  permit to write, a command, a frame; a consumer opens a sink, takes a frame, goes away.
  \<open>None\<close> is a branch that is disabled.
\<close>

datatype conn_event =
    Permit
  | Incoming conn_command
  | Inbound response
  | OpenSink nat nat
  | Take nat
  | CloseSink nat

fun conn_step :: "nat \<Rightarrow> conn \<Rightarrow> conn_event \<Rightarrow> conn option" where
  "conn_step cap c Permit =
     (case cn_pending c of
        [] \<Rightarrow> None
      | req # rest \<Rightarrow> Some (c\<lparr>cn_pending := rest, cn_written := cn_written c @ [req]\<rparr>))"
| "conn_step cap c (Incoming cmd) = (if length (cn_pending c) < cap then Some (conn_accept cmd c) else None)"
| "conn_step cap c (Inbound frame) = Some (conn_deliver frame c)"
| "conn_step cap c (OpenSink k window) = Some (c\<lparr>cn_sinks := bt_insert k (sink_new window) (cn_sinks c)\<rparr>)"
| "conn_step cap c (Take k) =
     (case bt_get (cn_sinks c) k of
        None \<Rightarrow> None
      | Some s \<Rightarrow> if sk_queue s = [] then None
                 else Some (c\<lparr>cn_sinks := bt_insert k (s\<lparr>sk_queue := tl (sk_queue s)\<rparr>) (cn_sinks c)\<rparr>))"
| "conn_step cap c (CloseSink k) =
     (case bt_get (cn_sinks c) k of
        None \<Rightarrow> None
      | Some s \<Rightarrow> Some (c\<lparr>cn_sinks := bt_insert k (s\<lparr>sk_open := False\<rparr>) (cn_sinks c)\<rparr>))"

fun conn_run :: "nat \<Rightarrow> conn \<Rightarrow> conn_event list \<Rightarrow> conn option" where
  "conn_run cap c [] = Some c"
| "conn_run cap c (e # es) = Option.bind (conn_step cap c e) (\<lambda>c. conn_run cap c es)"

definition handshake :: "(response \<Rightarrow> string) \<Rightarrow> id \<Rightarrow> bool \<Rightarrow> response option \<Rightarrow> client_error + unit" where
  "handshake debug i sent first =
     (if \<not> sent then Inl HubClosed
      else case first of
          Some (Welcome _ _ _ _) \<Rightarrow> Inr ()
        | Some (ErrorFrame j c m) \<Rightarrow> Inl (ServerError j c m)
        | Some other \<Rightarrow> Inl (ProtocolError i (''expected welcome, got '' @ debug other))
        | None \<Rightarrow> Inl (Disconnected i))"

section \<open>Pool\<close>

datatype transport = UnixSocket string | HttpOrigin string string

fun target :: "transport \<Rightarrow> string" where
  "target (UnixSocket path) = path"
| "target (HttpOrigin base token) = base"

fun wants_handshake :: "transport \<Rightarrow> bool" where
  "wants_handshake (UnixSocket _) = True"
| "wants_handshake (HttpOrigin _ _) = False"

record slot =
  sl_load :: nat
  sl_handle :: "nat option"

fun pick_from :: "(nat \<times> nat) option \<Rightarrow> slot list \<Rightarrow> nat option" where
  "pick_from best [] = map_option snd best"
| "pick_from best (s # ss) =
     (case sl_handle s of
        None \<Rightarrow> pick_from best ss
      | Some h \<Rightarrow>
          if best = None \<or> sl_load s < fst (the best)
          then pick_from (Some (sl_load s, h)) ss
          else pick_from best ss)"

definition pick :: "slot list \<Rightarrow> nat option" where
  "pick slots = pick_from None slots"

text \<open>What \<open>acquire\<close> finds each time it wakes; the list ends at its deadline.\<close>

fun acquire :: "string \<Rightarrow> (slot list \<times> bool) list \<Rightarrow> client_error + nat" where
  "acquire tgt [] = Inl (ConnectError tgt ''no connection became usable'')"
| "acquire tgt ((slots, shutdown) # later) =
     (case pick slots of
        Some h \<Rightarrow> Inr h
      | None \<Rightarrow> if shutdown then Inl HubClosed else acquire tgt later)"

record backoff =
  bo_min :: nat
  bo_max :: nat

definition backoff_default :: backoff where
  "backoff_default = \<lparr>bo_min = 50, bo_max = 5000\<rparr>"

record client_config =
  cc_connections :: nat
  cc_timeout :: nat
  cc_credit :: nat
  cc_queue :: nat
  cc_backoff :: backoff

definition client_config_default :: "nat option \<Rightarrow> client_config" where
  "client_config_default parallelism =
     \<lparr>cc_connections = (case parallelism of None \<Rightarrow> 4 | Some n \<Rightarrow> n), cc_timeout = 10000, cc_credit = 256,
      cc_queue = 256, cc_backoff = backoff_default\<rparr>"

definition with_connections :: "nat \<Rightarrow> client_config \<Rightarrow> client_config" where
  "with_connections n c = c\<lparr>cc_connections := max n 1\<rparr>"

definition with_queue :: "nat \<Rightarrow> client_config \<Rightarrow> client_config" where
  "with_queue depth c = c\<lparr>cc_queue := max depth 1\<rparr>"

text \<open>
  A supervisor's loop over the outcomes of its dials, until it sees the shutdown: what it
  publishes and how long it sleeps.
\<close>

datatype sup_effect = PublishUp | Bump | PublishDown | Sleep nat

fun supervise :: "backoff \<Rightarrow> nat \<Rightarrow> bool list \<Rightarrow> sup_effect list" where
  "supervise b delay [] = [PublishDown]"
| "supervise b delay (dialled # later) =
     (if dialled then [PublishUp, Bump, PublishDown] @ supervise b (bo_min b) later
      else [PublishDown, Sleep delay] @ supervise b (min (delay * 2) (bo_max b)) later)"

section \<open>Calls\<close>

datatype retry = Never | Idempotent nat

fun attempts :: "retry \<Rightarrow> nat" where
  "attempts Never = 0"
| "attempts (Idempotent n) = n"

text \<open>\<open>attempt n\<close> is what the n-th try of a call comes to; the number of tries is returned too.\<close>

fun call_loop :: "nat \<Rightarrow> (nat \<Rightarrow> client_error + 'a) \<Rightarrow> nat \<Rightarrow> nat \<times> (client_error + 'a)" where
  "call_loop 0 attempt n = (Suc n, attempt n)"
| "call_loop (Suc left) attempt n =
     (case attempt n of
        Inl e \<Rightarrow> if is_transient e then call_loop left attempt (Suc n) else (Suc n, Inl e)
      | Inr r \<Rightarrow> (Suc n, Inr r))"

definition hub_call :: "retry \<Rightarrow> (nat \<Rightarrow> client_error + 'a) \<Rightarrow> nat \<times> (client_error + 'a)" where
  "hub_call policy attempt = call_loop (attempts policy) attempt 0"

text \<open>
  One attempt: the handle or why there is none, whether the command was queued in time, and what
  came back on the reply channel before the deadline (\<open>None\<close>: nothing; \<open>Some None\<close>: dropped).
\<close>

datatype queueing = Queued | QueueGone | QueueFull

definition hub_attempt ::
    "id \<Rightarrow> nat \<Rightarrow> client_error + nat \<Rightarrow> queueing \<Rightarrow> (client_error + response) option option \<Rightarrow>
     (client_error + response) \<times> conn_command list" where
  "hub_attempt i elapsed handle queued answer =
     (case handle of
        Inl e \<Rightarrow> (Inl e, [])
      | Inr _ \<Rightarrow>
          (case queued of
             QueueGone \<Rightarrow> (Inl (Disconnected i), [])
           | QueueFull \<Rightarrow> (Inl (Timeout i elapsed), [])
           | Queued \<Rightarrow>
               (case answer of
                  Some (Some r) \<Rightarrow> (r, [])
                | Some None \<Rightarrow> (Inl (Disconnected i), [])
                | None \<Rightarrow> (Inl (Timeout i elapsed), [Forget i]))))"

definition mismatch :: "(response \<Rightarrow> string) \<Rightarrow> string \<Rightarrow> response \<Rightarrow> client_error" where
  "mismatch debug expected got = ProtocolError (resp_id got) (''expected '' @ expected @ '', got '' @ debug got)"

definition hub_ping :: "(response \<Rightarrow> string) \<Rightarrow> response \<Rightarrow> client_error + unit" where
  "hub_ping debug reply = (case reply of Pong _ \<Rightarrow> Inr () | other \<Rightarrow> Inl (mismatch debug ''pong'' other))"

definition hub_list :: "(response \<Rightarrow> string) \<Rightarrow> response \<Rightarrow> client_error + log_info list" where
  "hub_list debug reply = (case reply of Logs _ logs \<Rightarrow> Inr logs | other \<Rightarrow> Inl (mismatch debug ''logs'' other))"

definition hub_create :: "(response \<Rightarrow> string) \<Rightarrow> response \<Rightarrow> client_error + log_info" where
  "hub_create debug reply =
     (case reply of
        Logs _ (l # _) \<Rightarrow> Inr l
      | Logs _ [] \<Rightarrow> Inl (ProtocolError 0 ''create answered with no log'')
      | other \<Rightarrow> Inl (mismatch debug ''logs'' other))"

definition hub_append :: "(response \<Rightarrow> string) \<Rightarrow> response \<Rightarrow> client_error + ack" where
  "hub_append debug reply =
     (case reply of
        Ack _ versions synced \<Rightarrow> Inr \<lparr>ak_versions = versions, ak_synced = synced\<rparr>
      | other \<Rightarrow> Inl (mismatch debug ''ack'' other))"

section \<open>Nobody waits on a dead connection\<close>

text \<open>What a run registered: the ids in flight, the calls with their channels, the requests.\<close>

fun registered :: "conn_event list \<Rightarrow> id list" where
  "registered [] = []"
| "registered (Incoming (CallCmd req ch) # es) = req_id req # registered es"
| "registered (Incoming (StreamCmd req k) # es) = req_id req # registered es"
| "registered (_ # es) = registered es"

fun calls :: "conn_event list \<Rightarrow> (id \<times> nat) list" where
  "calls [] = []"
| "calls (Incoming (CallCmd req ch) # es) = (req_id req, ch) # calls es"
| "calls (_ # es) = calls es"

fun requests_of :: "conn_event list \<Rightarrow> request list" where
  "requests_of [] = []"
| "requests_of (Incoming (CallCmd req ch) # es) = req # requests_of es"
| "requests_of (Incoming (StreamCmd req k) # es) = req # requests_of es"
| "requests_of (Incoming (Fire req) # es) = req # requests_of es"
| "requests_of (_ # es) = requests_of es"

lemma registered_append [simp]: "registered (es @ fs) = registered es @ registered fs"
  by (induction es rule: registered.induct) auto

lemma calls_append [simp]: "calls (es @ fs) = calls es @ calls fs"
  by (induction es rule: calls.induct) auto

lemma requests_append [simp]: "requests_of (es @ fs) = requests_of es @ requests_of fs"
  by (induction es rule: requests_of.induct) auto

lemma conn_run_append: "conn_run cap c (es @ fs) = Option.bind (conn_run cap c es) (\<lambda>c. conn_run cap c fs)"
  by (induction es arbitrary: c) (auto split: option.splits bind_splits)

lemma conn_run_snoc:
  "conn_run cap c (es @ [e]) = Some c2 \<longleftrightarrow> (\<exists>c1. conn_run cap c es = Some c1 \<and> conn_step cap c1 e = Some c2)"
  by (auto simp: conn_run_append bind_eq_Some_conv)

text \<open>
  \<open>waiting_inv W chs regs cls F\<close>: with waiters \<open>W\<close>, replies sent on \<open>chs\<close>, ids \<open>regs\<close> and calls
  \<open>cls\<close> registered and the ids \<open>F\<close> forgotten, every call is replied to, waiting or forgotten.
\<close>

definition waiting_inv :: "(id, waiter) btree_map \<Rightarrow> nat list \<Rightarrow> id list \<Rightarrow> (id \<times> nat) list \<Rightarrow> id set \<Rightarrow> bool" where
  "waiting_inv W chs regs cls F \<longleftrightarrow>
     bt_wf W \<and> fst ` set W \<subseteq> set regs \<and> fst ` set cls \<subseteq> set regs \<and>
     (\<forall>i ch. (i, WaitReply ch) \<in> set W \<longrightarrow> (i, ch) \<in> set cls \<and> ch \<notin> set chs) \<and>
     distinct chs \<and> set chs \<subseteq> snd ` set cls \<and>
     (\<forall>i ch. (i, ch) \<in> set cls \<longrightarrow> ch \<in> set chs \<or> (i, WaitReply ch) \<in> set W \<or> i \<in> F)"

definition forgotten :: "conn_event list \<Rightarrow> id set" where
  "forgotten es = {i. Incoming (Forget i) \<in> set es}"

definition conn_inv :: "nat \<Rightarrow> conn_event list \<Rightarrow> conn \<Rightarrow> bool" where
  "conn_inv cap es c \<longleftrightarrow>
     waiting_inv (cn_waiters c) (map fst (cn_replies c)) (registered es) (calls es) (forgotten es) \<and>
     length (cn_pending c) \<le> cap \<and> cn_written c @ cn_pending c = requests_of es"

lemma conn_inv_new: "conn_inv cap [] conn_new"
  by (simp add: conn_inv_def conn_new_def waiting_inv_def)

lemma forgotten_snoc [simp]:
  "forgotten (es @ [e]) = (case e of Incoming (Forget i) \<Rightarrow> insert i (forgotten es) | _ \<Rightarrow> forgotten es)"
  by (auto simp: forgotten_def split: conn_event.splits conn_command.splits)

lemma set_bt_remove: "set (bt_remove k m) = {p \<in> set m. fst p \<noteq> k}"
  by (auto simp: bt_remove_def)

lemma set_bt_insert: "bt_wf m \<Longrightarrow> set (bt_insert k v m) = insert (k, v) {p \<in> set m. fst p \<noteq> k}"
proof -
  assume wf: "bt_wf m"
  have "p \<in> set (bt_insert k v m) \<longleftrightarrow> p \<in> insert (k, v) {p \<in> set m. fst p \<noteq> k}" for p
    using bt_get_Some_iff [OF bt_insert_wf [OF wf, of k v], of "fst p" "snd p"]
      bt_get_Some_iff [OF wf, of "fst p" "snd p"] by (cases p) (auto split: if_splits)
  then show ?thesis by blast
qed

lemma bt_unique: "bt_wf m \<Longrightarrow> (k, a) \<in> set m \<Longrightarrow> (k, b) \<in> set m \<Longrightarrow> a = b"
  by (metis bt_get_Some_iff option.inject)

lemma distinct_snd_unique:
  "distinct (map snd xs) \<Longrightarrow> (a, c) \<in> set xs \<Longrightarrow> (b, c) \<in> set xs \<Longrightarrow> a = b"
  by (metis distinct_map inj_on_eq_iff snd_conv prod.inject)

lemma waiting_inv_call:
  assumes inv: "waiting_inv W chs regs cls F" and "i \<notin> set regs" "ch \<notin> snd ` set cls"
  shows "waiting_inv (bt_insert i (WaitReply ch) W) chs (regs @ [i]) (cls @ [(i, ch)]) F"
proof -
  have "p \<in> set W \<Longrightarrow> fst p \<noteq> i" for p using assms by (force simp: waiting_inv_def)
  then have set: "set (bt_insert i (WaitReply ch) W) = insert (i, WaitReply ch) (set W)"
    using inv by (auto simp: waiting_inv_def set_bt_insert)
  show ?thesis using assms unfolding waiting_inv_def set by auto
qed

lemma waiting_inv_stream:
  assumes inv: "waiting_inv W chs regs cls F" and "i \<notin> set regs"
  shows "waiting_inv (bt_insert i (WaitStream k) W) chs (regs @ [i]) cls F"
proof -
  have "p \<in> set W \<Longrightarrow> fst p \<noteq> i" for p using assms by (force simp: waiting_inv_def)
  then have set: "set (bt_insert i (WaitStream k) W) = insert (i, WaitStream k) (set W)"
    using inv by (auto simp: waiting_inv_def set_bt_insert)
  show ?thesis using assms unfolding waiting_inv_def set by auto
qed

lemma waiting_inv_forget:
  "waiting_inv W chs regs cls F \<Longrightarrow> waiting_inv (bt_remove i W) chs regs cls (insert i F)"
  unfolding waiting_inv_def set_bt_remove by auto

lemma waiting_inv_drop:
  assumes "waiting_inv W chs regs cls F" "(i, WaitStream k) \<in> set W"
  shows "waiting_inv (bt_remove i W) chs regs cls F"
proof -
  have "(i, WaitReply ch) \<notin> set W" for ch using assms bt_unique [of W i] by (auto simp: waiting_inv_def)
  moreover have "bt_wf (bt_remove i W)" using assms(1) by (simp add: waiting_inv_def)
  ultimately show ?thesis using assms(1) unfolding waiting_inv_def set_bt_remove by (auto; blast)
qed

lemma waiting_inv_reply:
  assumes "waiting_inv W chs regs cls F" "(i, WaitReply ch) \<in> set W" "distinct (map snd cls)"
  shows "waiting_inv (bt_remove i W) (chs @ [ch]) regs cls F"
proof -
  have mem: "(i, ch) \<in> set cls" "ch \<notin> set chs" using assms(1,2) by (auto simp: waiting_inv_def)
  have other: "j = i" if "(j, WaitReply ch) \<in> set W" for j
    using assms(1) that mem(1) distinct_snd_unique [OF assms(3)] unfolding waiting_inv_def by blast
  have same: "c = ch" if "(i, WaitReply c) \<in> set W" for c
    using assms(1,2) that bt_unique [of W i] unfolding waiting_inv_def by blast
  have wait: "(j, c) \<in> set cls \<and> c \<notin> set (chs @ [ch])" if "(j, WaitReply c) \<in> set (bt_remove i W)" for j c
    using assms(1) that other [of j] unfolding waiting_inv_def set_bt_remove by auto
  have all: "c \<in> set (chs @ [ch]) \<or> (j, WaitReply c) \<in> set (bt_remove i W) \<or> j \<in> F" if "(j, c) \<in> set cls" for j c
  proof -
    have "c \<in> set chs \<or> (j, WaitReply c) \<in> set W \<or> j \<in> F" using assms(1) that unfolding waiting_inv_def by blast
    then show ?thesis using same [of c] unfolding set_bt_remove by auto
  qed
  have "fst ` set W \<subseteq> set regs" using assms(1) by (simp add: waiting_inv_def)
  then have "fst ` set (bt_remove i W) \<subseteq> set regs" unfolding set_bt_remove by blast
  moreover have "ch \<in> snd ` set cls" using mem(1) by force
  ultimately show ?thesis using assms(1) mem wait all unfolding waiting_inv_def by simp
qed

lemma conn_inv_accept:
  assumes inv: "conn_inv cap es c" and room: "length (cn_pending c) < cap"
    and fresh: "distinct (registered (es @ [Incoming cmd]))" "distinct (map snd (calls (es @ [Incoming cmd])))"
  shows "conn_inv cap (es @ [Incoming cmd]) (conn_accept cmd c)"
  using inv room fresh waiting_inv_call waiting_inv_stream waiting_inv_forget
  by (cases cmd) (auto simp: conn_inv_def)

lemma conn_inv_deliver:
  assumes inv: "conn_inv cap es c" and one: "distinct (map snd (calls es))"
  shows "conn_inv cap (es @ [Inbound frame]) (conn_deliver frame c)"
proof (cases "bt_get (cn_waiters c) (resp_id frame)")
  case None
  then show ?thesis using inv by (simp add: conn_deliver_def conn_inv_def)
next
  case (Some w)
  then have mem: "(resp_id frame, w) \<in> set (cn_waiters c)"
    using inv by (simp add: conn_inv_def waiting_inv_def bt_get_Some_iff)
  show ?thesis
  proof (cases w)
    case (WaitReply ch)
    then show ?thesis using inv mem one waiting_inv_reply by (simp add: conn_deliver_def Some conn_inv_def)
  next
    case (WaitStream k)
    then show ?thesis using inv mem waiting_inv_drop [of "cn_waiters c" _ _ _ _ "resp_id frame" k]
      by (simp add: conn_deliver_def Some conn_inv_def Let_def split: prod.splits bool.splits)
  qed
qed

lemma conn_run_inv:
  assumes "conn_run cap conn_new es = Some c" "distinct (registered es)" "distinct (map snd (calls es))"
  shows "conn_inv cap es c"
  using assms
proof (induction es arbitrary: c rule: rev_induct)
  case Nil
  then show ?case by (simp add: conn_inv_new)
next
  case (snoc e es)
  from snoc.prems(1) obtain c1 where 1: "conn_run cap conn_new es = Some c1" and step: "conn_step cap c1 e = Some c"
    by (auto simp: conn_run_snoc)
  have inv: "conn_inv cap es c1" using snoc.IH [OF 1] snoc.prems(2,3) by simp
  show ?case
  proof (cases e)
    case (Incoming cmd)
    then show ?thesis using step inv snoc.prems conn_inv_accept [OF inv] by (auto split: if_splits)
  next
    case (Inbound frame)
    then show ?thesis using step snoc.prems conn_inv_deliver [OF inv] by auto
  qed (use step inv in \<open>auto simp: conn_inv_def split: list.splits option.splits if_splits\<close>)
qed

fun waiting_channels :: "(id \<times> waiter) list \<Rightarrow> nat list" where
  "waiting_channels [] = []"
| "waiting_channels ((i, WaitReply ch) # ws) = ch # waiting_channels ws"
| "waiting_channels ((i, WaitStream k) # ws) = waiting_channels ws"

lemma fail_all_replies: "map fst (cn_replies (fail_all ws c)) = map fst (cn_replies c) @ waiting_channels ws"
  by (induction ws arbitrary: c rule: waiting_channels.induct) (auto simp: waiter_fail_def)

lemma set_waiting_channels: "set (waiting_channels ws) = {ch. \<exists>i. (i, WaitReply ch) \<in> set ws}"
  by (induction ws rule: waiting_channels.induct) auto

lemma distinct_waiting_channels:
  assumes "distinct (map fst ws)" "\<And>i j ch. (i, WaitReply ch) \<in> set ws \<Longrightarrow> (j, WaitReply ch) \<in> set ws \<Longrightarrow> i = j"
  shows "distinct (waiting_channels ws)"
  using assms
proof (induction ws rule: waiting_channels.induct)
  case (2 i ch ws)
  have "ch \<notin> set (waiting_channels ws)"
  proof
    assume "ch \<in> set (waiting_channels ws)"
    then obtain j where j: "(j, WaitReply ch) \<in> set ws" by (auto simp: set_waiting_channels)
    then have "i = j" using 2(3) [of i ch j] by simp
    then show False using j 2(2) by (force simp: image_iff)
  qed
  moreover have "distinct (waiting_channels ws)"
    by (rule 2(1)) (use 2(2) in simp, use 2(3) in \<open>meson list.set_intros(2)\<close>)
  ultimately show ?case by simp
next
  case (3 i k ws)
  have "distinct (waiting_channels ws)"
    by (rule 3(1)) (use 3(2) in simp, use 3(3) in \<open>meson list.set_intros(2)\<close>)
  then show ?case by simp
qed simp

text \<open>
  C7: No caller is left waiting on a connection, and none is answered twice. Interleave commands,
  frames, writes and the consumers of the streams in any way, and let the connection die at any
  point: every call that was accepted has then had exactly one reply on its channel, unless its
  caller had given it up; nothing is ever sent on a channel no call brought; and the requests
  went out in the order they were accepted, with never more than the cap waiting to be written.
  Ids and reply channels are fresh, as the hub makes them.
\<close>

theorem no_call_left_waiting:
  assumes "conn_run cap conn_new es = Some c" "distinct (registered es)" "distinct (map snd (calls es))"
  shows "distinct (map fst (cn_replies (conn_finish c))) \<and>
    fst ` set (cn_replies (conn_finish c)) \<subseteq> snd ` set (calls es) \<and>
    (\<forall>(i, ch) \<in> set (calls es). ch \<in> fst ` set (cn_replies (conn_finish c)) \<or> Incoming (Forget i) \<in> set es) \<and>
    cn_written c @ cn_pending c = requests_of es \<and> length (cn_pending c) \<le> cap"
proof -
  have "conn_inv cap es c" by (rule conn_run_inv [OF assms])
  then have inv: "waiting_inv (cn_waiters c) (map fst (cn_replies c)) (registered es) (calls es) (forgotten es)"
    and out: "cn_written c @ cn_pending c = requests_of es \<and> length (cn_pending c) \<le> cap" by (simp_all add: conn_inv_def)
  have chans: "map fst (cn_replies (conn_finish c)) = map fst (cn_replies c) @ waiting_channels (cn_waiters c)"
    by (simp add: conn_finish_def fail_all_replies)
  have sets: "fst ` set (cn_replies (conn_finish c)) = fst ` set (cn_replies c) \<union> set (waiting_channels (cn_waiters c))"
    using arg_cong [OF chans, of set] by simp
  have "distinct (waiting_channels (cn_waiters c))"
  proof (rule distinct_waiting_channels)
    show "distinct (map fst (cn_waiters c))" using inv by (simp add: waiting_inv_def bt_wf_distinct)
    show "i = j" if "(i, WaitReply ch) \<in> set (cn_waiters c)" "(j, WaitReply ch) \<in> set (cn_waiters c)" for i j ch
      using inv that distinct_snd_unique [OF assms(3), of i ch j] by (simp add: waiting_inv_def)
  qed
  moreover have "ch \<notin> set (map fst (cn_replies c))" if "ch \<in> set (waiting_channels (cn_waiters c))" for ch
    using inv that unfolding waiting_inv_def set_waiting_channels by blast
  ultimately have "distinct (map fst (cn_replies (conn_finish c)))"
    unfolding chans distinct_append using inv by (auto simp: waiting_inv_def)
  moreover have "fst ` set (cn_replies (conn_finish c)) \<subseteq> snd ` set (calls es)"
  proof -
    have "ch \<in> snd ` set (calls es)" if "ch \<in> set (waiting_channels (cn_waiters c))" for ch
    proof -
      obtain i where "(i, ch) \<in> set (calls es)" using inv \<open>ch \<in> _\<close> unfolding waiting_inv_def set_waiting_channels by blast
      then show ?thesis by force
    qed
    moreover have "set (map fst (cn_replies c)) \<subseteq> snd ` set (calls es)" using inv by (simp add: waiting_inv_def)
    ultimately show ?thesis unfolding sets by auto
  qed
  moreover have "\<forall>(i, ch) \<in> set (calls es). ch \<in> fst ` set (cn_replies (conn_finish c)) \<or> Incoming (Forget i) \<in> set es"
  proof -
    have "ch \<in> set (map fst (cn_replies c)) \<or> ch \<in> set (waiting_channels (cn_waiters c)) \<or> i \<in> forgotten es"
      if "(i, ch) \<in> set (calls es)" for i ch
      using inv that unfolding waiting_inv_def set_waiting_channels by blast
    then show ?thesis unfolding sets forgotten_def by auto
  qed
  ultimately show ?thesis using out by simp
qed

theorem no_call_left_waiting_witness:
  "\<exists>c. conn_run 2 conn_new [Incoming (CallCmd (Ping 1) 0), Incoming (CallCmd (ListLogs 2) 1), Permit, Inbound (Pong 1),
       Incoming (CallCmd (Ping 3) 2), Permit] = Some c \<and>
     cn_replies (conn_finish c) = [(0, Inr (Pong 1)), (1, Inl (Disconnected 2)), (2, Inl (Disconnected 3))] \<and>
     distinct (map fst (cn_replies (conn_finish c)))"
proof -
  let ?es = "[Incoming (CallCmd (Ping 1) 0), Incoming (CallCmd (ListLogs 2) 1), Permit, Inbound (Pong 1),
       Incoming (CallCmd (Ping 3) 2), Permit]"
  have "map_option (\<lambda>c. cn_replies (conn_finish c)) (conn_run 2 conn_new ?es) =
      Some [(0, Inr (Pong 1)), (1, Inl (Disconnected 2)), (2, Inl (Disconnected 3))]" by code_simp
  then obtain c where run: "conn_run 2 conn_new ?es = Some c"
      and replies: "cn_replies (conn_finish c) = [(0, Inr (Pong 1)), (1, Inl (Disconnected 2)), (2, Inl (Disconnected 3))]"
    by (cases "conn_run 2 conn_new ?es") auto
  from no_call_left_waiting [OF run] run replies show ?thesis by auto
qed

section \<open>Pool, backoff and retries\<close>

text \<open>The least loaded live slot, the first of several.\<close>

definition live :: "slot \<Rightarrow> bool" where
  "live s \<longleftrightarrow> sl_handle s \<noteq> None"

definition least_live :: "slot list \<Rightarrow> slot \<Rightarrow> bool" where
  "least_live slots s \<longleftrightarrow>
     (\<exists>before after. slots = before @ s # after \<and> live s \<and>
        (\<forall>t \<in> set before. live t \<longrightarrow> sl_load s < sl_load t) \<and> (\<forall>t \<in> set after. live t \<longrightarrow> sl_load s \<le> sl_load t))"

lemma pick_from_best:
  "pick_from (Some (l, h)) slots =
     (if \<exists>s \<in> set slots. live s \<and> sl_load s < l then pick_from None slots else Some h)"
proof (induction slots arbitrary: l h)
  case (Cons s ss)
  then show ?case by (cases "sl_handle s") (auto simp: live_def)
qed simp

lemma pick_least:
  "case pick slots of None \<Rightarrow> \<forall>s \<in> set slots. \<not> live s | Some h \<Rightarrow> \<exists>s. sl_handle s = Some h \<and> least_live slots s"
  unfolding pick_def
proof (induction slots)
  case (Cons s ss)
  show ?case
  proof (cases "sl_handle s")
    case None
    have "least_live (s # ss) t" if lt: "least_live ss t" for t
    proof -
      obtain before after where "ss = before @ t # after" "live t"
          "\<forall>u \<in> set before. live u \<longrightarrow> sl_load t < sl_load u" "\<forall>u \<in> set after. live u \<longrightarrow> sl_load t \<le> sl_load u"
        using lt unfolding least_live_def by blast
      then show ?thesis using None unfolding least_live_def live_def
        by (intro exI [of _ "s # before"] exI [of _ after]) auto
    qed
    then show ?thesis using Cons None by (auto simp: live_def split: option.splits)
  next
    case (Some h)
    show ?thesis
    proof (cases "\<exists>t \<in> set ss. live t \<and> sl_load t < sl_load s")
      case True
      then obtain u where u: "u \<in> set ss" "live u" "sl_load u < sl_load s" by blast
      then obtain k t where k: "pick_from None ss = Some k" and t: "sl_handle t = Some k" "least_live ss t"
        using Cons by (auto split: option.splits)
      then obtain before after where split: "ss = before @ t # after" "live t"
          "\<forall>u \<in> set before. live u \<longrightarrow> sl_load t < sl_load u" "\<forall>u \<in> set after. live u \<longrightarrow> sl_load t \<le> sl_load u"
        unfolding least_live_def by blast
      have "sl_load t \<le> sl_load u" using u(1,2) split by (auto intro: less_imp_le)
      then have "least_live (s # ss) t" using split u(3) unfolding least_live_def
        by (intro exI [of _ "s # before"] exI [of _ after]) auto
      then show ?thesis using True Some k t(1) by (auto simp: pick_from_best)
    next
      case False
      then have "least_live (s # ss) s" using Some unfolding least_live_def
        by (intro exI [of _ "[]"] exI [of _ ss]) (auto simp: live_def)
      then show ?thesis using False Some by (auto simp: pick_from_best)
    qed
  qed
qed simp

text \<open>Failed dials sleep for the minimum doubled each time, up to the maximum.\<close>

fun sleeps :: "sup_effect list \<Rightarrow> nat list" where
  "sleeps [] = []"
| "sleeps (Sleep d # es) = d # sleeps es"
| "sleeps (_ # es) = sleeps es"

lemma supervise_bounds:
  assumes "bo_min b \<le> bo_max b" "bo_min b \<le> d" "d \<le> bo_max b"
  shows "\<forall>s \<in> set (sleeps (supervise b d dials)). bo_min b \<le> s \<and> s \<le> bo_max b"
  using assms(2,3) by (induction b d dials rule: supervise.induct) (use assms(1) in auto)

lemma supervise_doubles:
  assumes "d \<le> bo_max b"
  shows "sleeps (supervise b d (replicate n False)) = map (\<lambda>i. min (d * 2 ^ i) (bo_max b)) [0..<n]"
  using assms
proof (induction n arbitrary: d)
  case (Suc n)
  have "map (\<lambda>i. min (min (d * 2) (bo_max b) * 2 ^ i) (bo_max b)) [0..<n] = map (\<lambda>i. min (d * 2 ^ i) (bo_max b)) [Suc 0..<Suc n]"
  proof -
    have "min (min (d * 2) m * 2 ^ i) m = min (d * 2 ^ Suc i) m" for m i :: nat
    proof (cases "d * 2 \<le> m")
      case False
      moreover have "m \<le> m * 2 ^ i" "d * 2 \<le> d * 2 * 2 ^ i" by simp_all
      moreover have "d * 2 ^ Suc i = d * 2 * 2 ^ i" by simp
      ultimately have "min (d * 2) m = m" "min (m * 2 ^ i) m = m" "min (d * 2 ^ Suc i) m = m" by linarith+
      then show ?thesis by simp
    qed (simp add: mult.assoc)
    then show ?thesis unfolding map_Suc_upt [symmetric] by simp
  qed
  then show ?case using Suc by (simp add: upt_conv_Cons del: upt_Suc)
qed simp

text \<open>A call is tried again only after a transient failure, and at most as often as the policy says.\<close>

lemma call_loop_tries:
  assumes "call_loop left attempt n = (tries, r)"
  shows "n < tries \<and> tries \<le> Suc (n + left) \<and> r = attempt (tries - 1) \<and>
    (\<forall>i. n \<le> i \<and> i < tries - 1 \<longrightarrow> (\<exists>e. attempt i = Inl e \<and> is_transient e)) \<and>
    (tries \<le> n + left \<longrightarrow> (\<forall>e. r = Inl e \<longrightarrow> \<not> is_transient e))"
  using assms
proof (induction left attempt n rule: call_loop.induct)
  case (2 left attempt n)
  show ?case
  proof (cases "\<exists>e. attempt n = Inl e \<and> is_transient e")
    case True
    then obtain e where e: "attempt n = Inl e" "is_transient e" by blast
    then have "call_loop left attempt (Suc n) = (tries, r)" using 2(2) by simp
    note ih = 2(1) [OF e this]
    have "\<exists>e. attempt i = Inl e \<and> is_transient e" if "n \<le> i" "i < tries - 1" for i
      using ih e that by (cases "i = n") auto
    then show ?thesis using ih by auto
  next
    case False
    then have "tries = Suc n" "r = attempt n" using 2(2) by (auto split: sum.splits if_splits)
    then show ?thesis using False by auto
  qed
qed auto

section \<open>The channel of a subscription is sized by records and filled by frames\<close>

text \<open>
  A server that keeps to its credit is dropped for overrunning it. A client subscribes with a
  window of one record; the server acknowledges the stream and pushes the one record it may; the
  client's channel, sized to the window, holds one frame, so unless the consumer happens to have
  taken the acknowledgement the record finds it full, the stream is marked overrun and dropped,
  and the record is lost.
\<close>

theorem window_of_one_overruns:
  "case dispatch (\<lambda>logs name folds. (logs, Inl (CodeStorage, []))) 0
      [(''a'', \<lparr>lh_name = ''a'', lh_reducible = False, lh_watermark = 1, lh_oldest = 0, lh_subscribers = 0, lh_open = True\<rparr>)]
      (session_new 0 (acl_new 0 []) None) (Subscribe 7 ''a'' 0 Records 1) of
     (_, _, [Reply ok, Spawn st _]) \<Rightarrow>
       let st' = serve_pass limits_default 1 (ring_push (ring_new 4) [\<lparr>en_version = 1, en_patch = JNull, en_bytes = 4\<rparr>])
             (\<lambda>after n. Inr (CuRecords [])) st
       in st_used st' \<le> st_granted st' \<and> length (st_out st') = 1 \<and>
          (case conn_run 8 conn_new [OpenSink 0 1, Incoming (StreamCmd (Subscribe 7 ''a'' 0 Records 1) 0), Permit,
              Inbound ok, Inbound (hd (st_out st'))] of
             Some c \<Rightarrow> cn_waiters c = [] \<and> map_option sk_overrun (bt_get (cn_sinks c) 0) = Some True \<and>
               map_option sk_queue (bt_get (cn_sinks c) 0) = Some [Inr ok]
           | None \<Rightarrow> False)
   | _ \<Rightarrow> False"
proof -
  let ?h = "\<lparr>lh_name = ''a'', lh_reducible = False, lh_watermark = 1, lh_oldest = 0, lh_subscribers = 0, lh_open = True\<rparr>"
  let ?rec = "RecordsFrame 7 [\<lparr>wr_version = 1, wr_patch = JNull\<rparr>]"
  let ?sub = "Subscribe 7 ''a'' 0 Records 1"
  let ?ring = "ring_push (ring_new 4) [\<lparr>en_version = 1, en_patch = JNull, en_bytes = 4\<rparr>]"
  have 1: "dispatch (\<lambda>logs name folds. (logs, Inl (CodeStorage, []))) 0 [(''a'', ?h)] (session_new 0 (acl_new 0 []) None) ?sub =
      ([(''a'', ?h)], (session_new 0 (acl_new 0 []) None)\<lparr>ss_streams := [(7, 1)]\<rparr>, [Reply (OkFrame 7), Spawn (stream_new 7 0 Records 1) ''a''])"
    by (simp add: session_handle_def session_new_def acl_new_def acl_allows_def registry_get_def bt_get_def)
  have 2: "serve_pass limits_default 1 ?ring (\<lambda>after n. Inr (CuRecords [])) (stream_new 7 0 Records 1) =
      (stream_new 7 0 Records 1)\<lparr>st_out := [?rec], st_used := 1, st_cursor := 1\<rparr>"
    by (simp add: serve_pass_def stream_new_def limits_default_def ring_read_after_def ring_push_def ring_new_def
        ring_push1_def u64_wrapping_add_def push_records_def send_def)
  have 3: "map_option (\<lambda>c. (cn_waiters c, cn_sinks c)) (conn_run 8 conn_new [OpenSink 0 1, Incoming (StreamCmd ?sub 0), Permit,
      Inbound (OkFrame 7), Inbound ?rec]) =
      Some ([], [(0, \<lparr>sk_capacity = 1, sk_queue = [Inr (OkFrame 7)], sk_open = True, sk_overrun = True\<rparr>)])"
    by (simp add: conn_new_def sink_new_def conn_deliver_def try_send_def set_overrun_def unpack_def is_final_def bt_get_def bt_remove_def)
  then obtain c where c: "conn_run 8 conn_new [OpenSink 0 1, Incoming (StreamCmd ?sub 0), Permit,
      Inbound (OkFrame 7), Inbound ?rec] = Some c" and ws: "cn_waiters c = []"
      and sinks: "cn_sinks c = [(0, \<lparr>sk_capacity = 1, sk_queue = [Inr (OkFrame 7)], sk_open = True, sk_overrun = True\<rparr>)]"
    by (auto simp del: conn_run.simps)
  have 4: "st_granted (stream_new 7 0 Records 1) = 1" by (simp add: stream_new_def)
  show ?thesis unfolding 1 by (simp add: Let_def 2 4 c ws sinks bt_get_def del: conn_run.simps One_nat_def)
qed

end
