(* ===== verification/ClientSub.thy ===== *)
theory ClientSub
  imports ClientConn
begin

text \<open>
  \<open>crates/lug-client/src/sub.rs\<close>: the frames of one subscription and the events taken out of
  them, with the client's half of the credit contract. The receiving channel is the list of what
  is in it; \<open>rooms\<close> says, one answer per time it is asked, whether the connection's command queue
  has room.
\<close>

section \<open>Frames\<close>

record frames =
  fr_id :: id
  fr_window :: nat
  fr_drained :: nat
  fr_pending_credit :: nat
  fr_done :: bool

definition frames_new :: "id \<Rightarrow> nat \<Rightarrow> frames" where
  "frames_new i window = \<lparr>fr_id = i, fr_window = window, fr_drained = 0, fr_pending_credit = 0, fr_done = False\<rparr>"

definition has_room :: "bool list \<Rightarrow> bool" where
  "has_room rooms = (rooms \<noteq> [] \<and> hd rooms)"

definition frames_grant :: "bool \<Rightarrow> nat \<Rightarrow> frames \<Rightarrow> frames \<times> request list" where
  "frames_grant room records f =
     (let pending = u32_saturating_add (fr_pending_credit f) records;
          f1 = f\<lparr>fr_pending_credit := pending\<rparr>
      in if 0 < pending \<and> room then (f1\<lparr>fr_pending_credit := 0\<rparr>, [Credit (fr_id f) pending]) else (f1, []))"

definition maybe_grant :: "bool list \<Rightarrow> frames \<Rightarrow> frames \<times> request list \<times> bool list" where
  "maybe_grant rooms f =
     (let threshold = max (fr_window f div 2) 1;
          f1 = (if threshold \<le> fr_drained f
                then f\<lparr>fr_pending_credit := u32_saturating_add (fr_pending_credit f) (fr_drained f), fr_drained := 0\<rparr>
                else f)
      in if fr_pending_credit f1 = 0 then (f1, [], rooms)
         else if has_room rooms
         then (f1\<lparr>fr_pending_credit := 0\<rparr>, [Credit (fr_id f1) (fr_pending_credit f1)], tl rooms)
         else (f1, [], tl rooms))"

datatype 'a polled = PollPending | PollReady 'a

text \<open>
  \<open>poll_next\<close> over the queue, whether its sender is gone and whether it was marked overrun. The
  result is the poll, the frames, what is left in the queue and the credit sent.
\<close>

fun frames_poll ::
    "bool list \<Rightarrow> frames \<Rightarrow> (client_error + response) list \<Rightarrow> bool \<Rightarrow> bool \<Rightarrow>
     (client_error + response) option polled \<times> frames \<times> (client_error + response) list \<times> request list \<times> bool list" where
  "frames_poll rooms f [] hung overrun =
     (if fr_done f then (PollReady None, f, [], [], rooms)
      else case maybe_grant rooms f of
          (f1, sent, rooms1) \<Rightarrow>
            if hung
            then (PollReady (Some (Inl (if overrun then Overrun (fr_id f) else Disconnected (fr_id f)))),
                  f1\<lparr>fr_done := True\<rparr>, [], sent, rooms1)
            else (PollPending, f1, [], sent, rooms1))"
| "frames_poll rooms f (item # queue) hung overrun =
     (if fr_done f then (PollReady None, f, item # queue, [], rooms)
      else case maybe_grant rooms f of
          (f1, sent, rooms1) \<Rightarrow>
            (case item of
               Inl e \<Rightarrow> (PollReady (Some (Inl e)), f1\<lparr>fr_done := True\<rparr>, queue, sent, rooms1)
             | Inr (OkFrame _) \<Rightarrow>
                 (case frames_poll rooms1 f1 queue hung overrun of (r, f2, q, later, rs) \<Rightarrow> (r, f2, q, sent @ later, rs))
             | Inr (Welcome _ _ _ _) \<Rightarrow>
                 (case frames_poll rooms1 f1 queue hung overrun of (r, f2, q, later, rs) \<Rightarrow> (r, f2, q, sent @ later, rs))
             | Inr (End _) \<Rightarrow> (PollReady None, f1\<lparr>fr_done := True\<rparr>, queue, sent, rooms1)
             | Inr (RecordsFrame i records) \<Rightarrow>
                 (case maybe_grant rooms1 (f1\<lparr>fr_drained := u32_saturating_add (fr_drained f1) (length records mod 4294967296)\<rparr>) of
                    (f2, later, rs) \<Rightarrow> (PollReady (Some (Inr (RecordsFrame i records))), f2, queue, sent @ later, rs))
             | Inr other \<Rightarrow> (PollReady (Some (Inr other)), f1, queue, sent, rooms1)))"

text \<open>What dropping the frames tries to send.\<close>

definition frames_drop :: "frames \<Rightarrow> conn_command list" where
  "frames_drop f = (if fr_done f then [] else [Fire (Cancel (fr_id f))]) @ [Forget (fr_id f)]"

section \<open>Events\<close>

lemma frames_poll_shorter:
  "frames_poll rooms f queue hung overrun = (PollReady (Some (Inr frame)), f', queue', sent, rooms') \<Longrightarrow> length queue' < length queue"
proof (induction rooms f queue hung overrun arbitrary: sent rooms' rule: frames_poll.induct)
  case (1 rooms f hung overrun)
  then show ?case by (auto split: if_splits prod.splits)
next
  case (2 rooms f item queue hung overrun)
  obtain f1 s1 r1 where g: "maybe_grant rooms f = (f1, s1, r1)" by (cases "maybe_grant rooms f")
  have d: "\<not> fr_done f" using 2(3) by auto
  show ?case
  proof (cases item)
    case (Inr m)
    show ?thesis using 2(1,2) [OF d g [symmetric] _ Inr] 2(3) d g unfolding Inr
      by (cases m) (fastforce split: prod.splits)+
  qed (use 2(3) d g in auto)
qed

record subscription =
  su_frames :: frames
  su_pending :: "event list"

fun frame_events :: "response \<Rightarrow> event list" where
  "frame_events (RecordsFrame i records) = map EvRecord records"
| "frame_events (GapFrame i lo hi) = [EvGap lo hi]"
| "frame_events _ = []"

function sub_poll ::
    "bool list \<Rightarrow> subscription \<Rightarrow> (client_error + response) list \<Rightarrow> bool \<Rightarrow> bool \<Rightarrow>
     (client_error + event) option polled \<times> subscription \<times> (client_error + response) list \<times> request list" where
  "sub_poll rooms su queue hung overrun =
     (case su_pending su of
        ev # evs \<Rightarrow> (PollReady (Some (Inr ev)), su\<lparr>su_pending := evs\<rparr>, queue, [])
      | [] \<Rightarrow>
          (case frames_poll rooms (su_frames su) queue hung overrun of
             (PollPending, f, q, sent, rs) \<Rightarrow> (PollPending, su\<lparr>su_frames := f\<rparr>, q, sent)
           | (PollReady None, f, q, sent, rs) \<Rightarrow> (PollReady None, su\<lparr>su_frames := f\<rparr>, q, sent)
           | (PollReady (Some (Inl e)), f, q, sent, rs) \<Rightarrow> (PollReady (Some (Inl e)), su\<lparr>su_frames := f\<rparr>, q, sent)
           | (PollReady (Some (Inr frame)), f, q, sent, rs) \<Rightarrow>
               (case sub_poll rs \<lparr>su_frames = f, su_pending = frame_events frame\<rparr> q hung overrun of
                  (r, su2, q2, later) \<Rightarrow> (r, su2, q2, sent @ later))))"
  by pat_completeness auto

termination
  by (relation "measure (\<lambda>(rooms, su, queue, hung, overrun). length queue)") (auto dest: frames_poll_shorter [OF sym])

declare sub_poll.simps [simp del]

section \<open>The two halves of the credit contract\<close>

fun queued :: "(client_error + response) list \<Rightarrow> nat" where
  "queued [] = 0"
| "queued (Inr (RecordsFrame i records) # q) = length records + queued q"
| "queued (_ # q) = queued q"

lemma queued_append [simp]: "queued (q @ q') = queued q + queued q'"
  by (induction q rule: queued.induct) auto

lemma queued_unpack [simp]: "queued [unpack frame] = pushed [frame]"
  by (cases frame) (auto simp: unpack_def)

definition granted :: "request list \<Rightarrow> nat" where
  "granted sent = sum_list (map credit_grant sent)"

definition threshold :: "frames \<Rightarrow> nat" where
  "threshold f = max (fr_window f div 2) 1"

lemma maybe_grant_conserves:
  assumes "maybe_grant rooms f = (f', sent, rooms')" "fr_pending_credit f + fr_drained f \<le> u32_max"
  shows "fr_pending_credit f' + fr_drained f' + granted sent = fr_pending_credit f + fr_drained f \<and>
    fr_window f' = fr_window f \<and> fr_done f' = fr_done f \<and> fr_drained f' < threshold f \<and>
    (has_room rooms \<longrightarrow> fr_pending_credit f' = 0)"
  using assms by (auto simp: maybe_grant_def Let_def granted_def u32_saturating_add_def threshold_def split: if_splits)

lemma frames_poll_conserves:
  assumes "frames_poll rooms f q hung overrun = (r, f', q', sent, rooms')" "fr_pending_credit f + fr_drained f + queued q \<le> u32_max"
    and "fr_drained f < threshold f"
  shows "fr_pending_credit f' + fr_drained f' + queued q' + granted sent = fr_pending_credit f + fr_drained f + queued q \<and>
    fr_window f' = fr_window f \<and> fr_drained f' < threshold f"
  using assms
proof (induction rooms f q hung overrun arbitrary: sent r f' q' rooms' rule: frames_poll.induct)
  case (1 rooms f hung overrun)
  obtain f1 s1 r1 where g: "maybe_grant rooms f = (f1, s1, r1)" by (cases "maybe_grant rooms f")
  show ?case using 1 g maybe_grant_conserves [OF g] by (auto simp: granted_def split: if_splits)
next
  case (2 rooms f item queue hung overrun)
  show ?case
  proof (cases "fr_done f")
    case True
    then show ?thesis using 2(3,5) by (auto simp: granted_def)
  next
    case d: False
    obtain f1 s1 r1 where g: "maybe_grant rooms f = (f1, s1, r1)" by (cases "maybe_grant rooms f")
    have g1: "fr_pending_credit f1 + fr_drained f1 + granted s1 = fr_pending_credit f + fr_drained f"
      "fr_window f1 = fr_window f" "fr_drained f1 < threshold f1" "threshold f1 = threshold f"
      using maybe_grant_conserves [OF g] 2(4) by (auto simp: threshold_def)
    show ?thesis
    proof (cases item)
      case (Inl e)
      then show ?thesis using 2(3) d g g1 by auto
    next
      case (Inr m)
      have again: ?thesis if "m = OkFrame i \<or> m = Welcome i v n t" for i v n t
      proof -
        obtain r2 f2 q2 later rs where p: "frames_poll r1 f1 queue hung overrun = (r2, f2, q2, later, rs)"
          by (cases "frames_poll r1 f1 queue hung overrun")
        have res: "f' = f2" "q' = q2" "sent = s1 @ later" using 2(3) that d g p by (auto simp: Inr)
        have "queued (item # queue) = queued queue" using that by (auto simp: Inr)
        then have "fr_pending_credit f1 + fr_drained f1 + queued queue \<le> u32_max" using 2(4) g1 by linarith
        then have "fr_pending_credit f2 + fr_drained f2 + queued q2 + granted later = fr_pending_credit f1 + fr_drained f1 + queued queue \<and>
            fr_window f2 = fr_window f1 \<and> fr_drained f2 < threshold f1"
          using 2(1,2) [OF d g [symmetric] refl Inr] that p g1(3) by blast
        then show ?thesis using res g1 that by (auto simp: granted_def Inr)
      qed
      show ?thesis
      proof (cases m)
        case (RecordsFrame i records)
        let ?f2 = "f1\<lparr>fr_drained := u32_saturating_add (fr_drained f1) (length records mod 4294967296)\<rparr>"
        obtain f3 s3 r3 where h: "maybe_grant r1 ?f2 = (f3, s3, r3)" by (cases "maybe_grant r1 ?f2")
        have "fr_drained f1 + length records \<le> u32_max" using 2(4) g1 by (simp add: Inr RecordsFrame)
        then have len: "u32_saturating_add (fr_drained f1) (length records mod 4294967296) = fr_drained f1 + length records"
          by (simp add: u32_saturating_add_def u32_max_def)
        have sum: "fr_pending_credit f1 + (fr_drained f1 + length records) \<le> u32_max" using 2(4) g1 by (simp add: Inr RecordsFrame)
        have "fr_pending_credit f3 + fr_drained f3 + granted s3 = fr_pending_credit f1 + (fr_drained f1 + length records) \<and>
            fr_window f3 = fr_window f1 \<and> fr_drained f3 < threshold f"
          using maybe_grant_conserves [OF h] sum g1 by (simp add: len threshold_def)
        moreover have "f' = f3" "q' = queue" "sent = s1 @ s3" using 2(3) d g h by (auto simp: Inr RecordsFrame)
        ultimately show ?thesis using g1 by (auto simp: granted_def Inr RecordsFrame)
      next
        case (Welcome i v n t)
        then show ?thesis using again by blast
      next
        case (OkFrame i)
        then show ?thesis using again by blast
      qed (use 2(3) d g g1 in \<open>auto simp: Inr\<close>)
    qed
  qed
qed

text \<open>
  A subscription and its stream, joined: the stream makes its passes, over any ring and with any
  answers to its catch-ups of the length it asked for; the acknowledgement, what the stream sent and
  its End arrive at the client's connection frame by frame, which puts them into the bounded channel
  of the subscription as \<open>deliver\<close> does: a frame that finds it full marks it overrun, and after that,
  or after a final frame, the channel has no sender any more. The consumer polls; the credit it sent
  arrives at the stream.
\<close>

record loop =
  lp_stream :: stream
  lp_arrived :: nat
  lp_queue :: "(client_error + response) list"
  lp_hung :: bool
  lp_overrun :: bool
  lp_frames :: frames
  lp_credits :: "nat list"

definition loop_start :: "(failure + version \<times> json) \<Rightarrow> id \<Rightarrow> version \<Rightarrow> mode \<Rightarrow> nat \<Rightarrow> loop" where
  "loop_start view i from_version m window =
     \<lparr>lp_stream = serve_start view (stream_new i from_version m window), lp_arrived = 0, lp_queue = [], lp_hung = False,
      lp_overrun = False, lp_frames = frames_new i window, lp_credits = []\<rparr>"

definition loop_wire :: "loop \<Rightarrow> response list" where
  "loop_wire p =
     OkFrame (st_id (lp_stream p)) # st_out (lp_stream p) @ (if st_status (lp_stream p) = Stopped then [End (st_id (lp_stream p))] else [])"

definition loop_deliver :: "response \<Rightarrow> loop \<Rightarrow> loop" where
  "loop_deliver frame p =
     (if lp_hung p then p
      else if length (lp_queue p) < sk_capacity (sink_new (fr_window (lp_frames p)))
      then p\<lparr>lp_queue := lp_queue p @ [unpack frame], lp_hung := is_final frame\<rparr>
      else p\<lparr>lp_overrun := True, lp_hung := True\<rparr>)"

inductive loop_step :: "limits \<Rightarrow> loop \<Rightarrow> loop \<Rightarrow> bool" for L where
  pass: "st_status (lp_stream p) \<noteq> Stopped \<Longrightarrow> (\<forall>after n es. catch_up after n = Inr (CuRecords es) \<longrightarrow> length es \<le> n) \<Longrightarrow>
    loop_step L p (p\<lparr>lp_stream := serve_pass L seen r catch_up (lp_stream p)\<rparr>)"
| arrive: "lp_arrived p < length (loop_wire p) \<Longrightarrow>
    loop_step L p (loop_deliver (loop_wire p ! lp_arrived p) (p\<lparr>lp_arrived := Suc (lp_arrived p)\<rparr>))"
| poll: "frames_poll rooms (lp_frames p) (lp_queue p) (lp_hung p) (lp_overrun p) = (res, f, q, sent, rooms') \<Longrightarrow>
    loop_step L p (p\<lparr>lp_frames := f, lp_queue := q, lp_credits := lp_credits p @ map credit_grant sent\<rparr>)"
| credit: "lp_credits p = grant # gs \<Longrightarrow>
    loop_step L p (p\<lparr>lp_stream := lp_stream p\<lparr>st_granted := u64_saturating_add (st_granted (lp_stream p)) grant\<rparr>, lp_credits := gs\<rparr>)"

text \<open>It is the delivery of the connection, for the one stream that waits on its sink.\<close>

lemma loop_deliver_is_conn_deliver:
  assumes "sink = \<lparr>sk_capacity = sk_capacity (sink_new (fr_window (lp_frames p))), sk_queue = lp_queue p, sk_open = True, sk_overrun = lp_overrun p\<rparr>"
    and "cn_waiters c = (if lp_hung p then [] else [(resp_id frame, WaitStream k)])" "cn_sinks c = [(k, sink)]" "q = loop_deliver frame p"
  shows "cn_waiters (conn_deliver frame c) = (if lp_hung q then [] else [(resp_id frame, WaitStream k)]) \<and>
    cn_sinks (conn_deliver frame c) = [(k, sink\<lparr>sk_queue := lp_queue q, sk_overrun := lp_overrun q\<rparr>)]"
  using assms(2,3) unfolding assms(1,4)
  by (auto simp: loop_deliver_def conn_deliver_def try_send_def set_overrun_def bt_get_def bt_remove_def)

text \<open>Records pushed and not yet handed to the consumer.\<close>

definition in_flight :: "loop \<Rightarrow> nat" where
  "in_flight p = pushed (drop (lp_arrived p) (loop_wire p)) + queued (lp_queue p)"

text \<open>What ends a subscription when it is taken out of the channel.\<close>

definition ends :: "client_error + response \<Rightarrow> bool" where
  "ends x = (case x of Inl e \<Rightarrow> True | Inr (End i) \<Rightarrow> True | Inr r \<Rightarrow> False)"

definition loop_inv :: "nat \<Rightarrow> loop \<Rightarrow> bool" where
  "loop_inv W p \<longleftrightarrow>
     (let owed = st_granted (lp_stream p) + sum_list (lp_credits p) + fr_pending_credit (lp_frames p) + fr_drained (lp_frames p) + in_flight p
      in owed \<le> W + st_used (lp_stream p) \<and> (\<not> lp_hung p \<longrightarrow> owed = W + st_used (lp_stream p))) \<and>
     st_used (lp_stream p) \<le> st_granted (lp_stream p) \<and> lp_arrived p \<le> length (loop_wire p) \<and>
     fr_window (lp_frames p) = W \<and> fr_drained (lp_frames p) < threshold (lp_frames p)"

text \<open>A channel without a sender still holds the reason, or was overrun, or the consumer has taken it.\<close>

definition told_end :: "loop \<Rightarrow> bool" where
  "told_end p \<longleftrightarrow> (lp_hung p \<longrightarrow> fr_done (lp_frames p) \<or> lp_overrun p \<or> (\<exists>x \<in> set (lp_queue p). ends x)) \<and> (lp_overrun p \<longrightarrow> lp_hung p)"

lemma take_bytes_length: "length (take_bytes m b es) \<le> length es"
  by (induction m b es rule: take_bytes.induct) auto

lemma ring_read_limit: "ring_read_after r after limit max_bytes = RingRecords es \<Longrightarrow> length es \<le> limit"
  by (auto simp: ring_read_after_def Let_def split: list.splits if_splits intro!: order_trans [OF take_bytes_length])

lemma serve_pass_pushes:
  assumes "\<forall>after n es. catch_up after n = Inr (CuRecords es) \<longrightarrow> length es \<le> n" "st_used s \<le> st_granted s"
  shows "\<exists>fresh. st_out (serve_pass L seen r catch_up s) = st_out s @ fresh \<and>
    st_used (serve_pass L seen r catch_up s) = st_used s + pushed fresh \<and>
    st_used (serve_pass L seen r catch_up s) \<le> st_granted s \<and>
    st_granted (serve_pass L seen r catch_up s) = st_granted s"
proof -
  have push: "\<exists>fresh. st_out (push_records s es) = st_out s @ fresh \<and> st_used (push_records s es) = st_used s + pushed fresh \<and>
      st_used (push_records s es) \<le> st_granted s \<and> st_granted (push_records s es) = st_granted s"
    if "length es \<le> st_granted s - st_used s" for es
    using that assms(2) by (auto simp: push_records_def send_def Let_def)
  let ?a = "min (st_granted s - st_used s) (lim_push L)"
  show ?thesis
  proof (cases "st_granted s \<le> st_used s \<or> seen \<le> st_cursor s")
    case True
    then show ?thesis using assms(2) by (auto simp: serve_pass_def)
  next
    case False
    have late: "\<exists>fresh. st_out t = st_out s @ fresh \<and> st_used t = st_used s + pushed fresh \<and> st_used t \<le> st_granted s \<and> st_granted t = st_granted s"
      if t: "t = (case catch_up (st_cursor s) (max ?a 1) of
               Inr (CuRecords []) \<Rightarrow> s\<lparr>st_status := ParkWatermark\<rparr>
             | Inr (CuRecords es) \<Rightarrow> push_records s es
             | Inr (CuGap resume_at) \<Rightarrow>
                 (send (GapFrame (st_id s) (st_cursor s) resume_at) s)\<lparr>st_cursor := resume_at, st_status := Running\<rparr>
             | Inl (c, message) \<Rightarrow> (send (ErrorFrame (st_id s) c message) s)\<lparr>st_status := Stopped\<rparr>)" for t
    proof (cases "catch_up (st_cursor s) (max ?a 1)")
      case (Inl e)
      then show ?thesis using t assms(2) by (cases e) (auto simp: send_def)
    next
      case (Inr cu)
      show ?thesis
      proof (cases cu)
        case (CuRecords es)
        have "length es \<le> max ?a 1" using assms(1) Inr CuRecords by blast
        then have "length es \<le> st_granted s - st_used s" using False by linarith
        then show ?thesis using t push [of es] assms(2) unfolding Inr CuRecords by (cases es) auto
      next
        case (CuGap v)
        then show ?thesis using t assms(2) unfolding Inr CuGap by (auto simp: send_def)
      qed
    qed
    show ?thesis
    proof (cases "ring_read_after r (st_cursor s) ?a (lim_push_bytes L)")
      case (RingRecords es)
      have "length es \<le> st_granted s - st_used s" using ring_read_limit [OF RingRecords] by simp
      note fresh = push [OF this]
      show ?thesis
      proof (cases es)
        case Nil
        show ?thesis by (rule late) (use False RingRecords Nil in \<open>simp add: serve_pass_def Let_def\<close>)
      next
        case (Cons e es')
        then show ?thesis using False RingRecords fresh by (simp add: serve_pass_def Let_def)
      qed
    next
      case TooOld
      show ?thesis by (rule late) (use False TooOld in \<open>simp add: serve_pass_def Let_def\<close>)
    qed
  qed
qed

lemma sink_window: "1 \<le> W \<Longrightarrow> 0 < sk_capacity (sink_new W)"
  by (simp add: sink_new_def)

lemma loop_start_inv: "1 \<le> W \<Longrightarrow> loop_inv W (loop_start view i from_version m W)"
  by (auto simp: loop_inv_def loop_start_def serve_start_def stream_new_def frames_new_def in_flight_def loop_wire_def send_def threshold_def
      split: sum.splits)

text \<open>Credit is never overdrawn, saturated or not.\<close>

definition within_credit :: "stream \<Rightarrow> bool" where
  "within_credit s \<longleftrightarrow> st_used s \<le> st_granted s \<and> st_granted s \<le> u64_max"

lemma loop_deliver_keeps [simp]:
  "lp_stream (loop_deliver frame p) = lp_stream p" "lp_frames (loop_deliver frame p) = lp_frames p"
  "lp_credits (loop_deliver frame p) = lp_credits p" "lp_arrived (loop_deliver frame p) = lp_arrived p"
  "loop_wire (loop_deliver frame p) = loop_wire p"
  by (simp_all add: loop_deliver_def loop_wire_def)

lemma loop_step_used:
  "loop_step L p p' \<Longrightarrow> within_credit (lp_stream p) \<Longrightarrow>
    within_credit (lp_stream p') \<and> st_used (lp_stream p) \<le> st_used (lp_stream p')"
proof (induction rule: loop_step.induct)
  case (pass p catch_up seen r)
  have "st_used (lp_stream p) \<le> st_granted (lp_stream p)" using pass by (simp add: within_credit_def)
  then show ?case using serve_pass_pushes [OF pass(2), of "lp_stream p" L seen r] pass(3) by (auto simp: within_credit_def)
qed (auto simp: within_credit_def u64_saturating_add_def)

lemma deliver_in_flight:
  assumes "lp_arrived p < length (loop_wire p)"
  defines "q \<equiv> loop_deliver (loop_wire p ! lp_arrived p) (p\<lparr>lp_arrived := Suc (lp_arrived p)\<rparr>)"
  shows "in_flight q \<le> in_flight p \<and> (\<not> lp_hung q \<longrightarrow> \<not> lp_hung p \<and> in_flight q = in_flight p)"
proof -
  have "drop (lp_arrived p) (loop_wire p) = [loop_wire p ! lp_arrived p] @ drop (Suc (lp_arrived p)) (loop_wire p)"
    using assms(1) by (simp add: Cons_nth_drop_Suc)
  then have "pushed (drop (lp_arrived p) (loop_wire p)) =
      pushed [loop_wire p ! lp_arrived p] + pushed (drop (Suc (lp_arrived p)) (loop_wire p))"
    by (metis pushed_append)
  moreover have wire: "loop_wire (p\<lparr>lp_arrived := n\<rparr>) = loop_wire p" for n by (simp add: loop_wire_def)
  moreover have "queued (lp_queue q) \<le> queued (lp_queue p) + pushed [loop_wire p ! lp_arrived p] \<and>
      (\<not> lp_hung q \<longrightarrow> \<not> lp_hung p \<and> queued (lp_queue q) = queued (lp_queue p) + pushed [loop_wire p ! lp_arrived p])"
  proof (cases "lp_hung p \<or> \<not> length (lp_queue p) < sk_capacity (sink_new (fr_window (lp_frames p)))")
    case True
    then have "lp_hung q" "lp_queue q = lp_queue p" by (auto simp: q_def loop_deliver_def)
    then show ?thesis by simp
  next
    case False
    then have "lp_queue q = lp_queue p @ [unpack (loop_wire p ! lp_arrived p)]" by (simp add: q_def loop_deliver_def)
    then show ?thesis using False by simp
  qed
  ultimately show ?thesis by (simp add: in_flight_def q_def)
qed

lemma pass_in_flight:
  assumes "st_status (lp_stream p) \<noteq> Stopped" "st_out s = st_out (lp_stream p) @ fresh" "lp_arrived p \<le> length (loop_wire p)"
  shows "in_flight (p\<lparr>lp_stream := s\<rparr>) = in_flight p + pushed fresh \<and> length (loop_wire p) \<le> length (loop_wire (p\<lparr>lp_stream := s\<rparr>))"
  using assms by (cases "lp_arrived p") (auto simp: in_flight_def loop_wire_def)

lemma loop_step_inv:
  assumes "loop_step L p p'" "loop_inv W p" "W \<le> u32_max" "W + st_used (lp_stream p) \<le> u64_max"
  shows "loop_inv W p'"
  using assms
proof (induction rule: loop_step.induct)
  case (pass p catch_up seen r)
  have used: "st_used (lp_stream p) \<le> st_granted (lp_stream p)" using pass by (simp add: loop_inv_def Let_def)
  obtain fresh where f: "st_out (serve_pass L seen r catch_up (lp_stream p)) = st_out (lp_stream p) @ fresh"
      "st_used (serve_pass L seen r catch_up (lp_stream p)) = st_used (lp_stream p) + pushed fresh"
      "st_used (serve_pass L seen r catch_up (lp_stream p)) \<le> st_granted (lp_stream p)"
      "st_granted (serve_pass L seen r catch_up (lp_stream p)) = st_granted (lp_stream p)"
    using serve_pass_pushes [OF pass(2) used, of L seen r] by blast
  have arrived: "lp_arrived p \<le> length (loop_wire p)" using pass by (simp add: loop_inv_def Let_def)
  show ?case using pass_in_flight [OF pass(1) f(1) arrived] pass(3) f(2-4) by (auto simp: loop_inv_def Let_def)
next
  case (arrive p)
  then show ?case using deliver_in_flight [OF arrive(1)] by (auto simp: loop_inv_def Let_def loop_wire_def)
next
  case (poll rooms p res f q sent rooms')
  let ?f = "lp_frames p"
  have "fr_pending_credit ?f + fr_drained ?f + queued (lp_queue p) \<le> u32_max" "fr_drained ?f < threshold ?f"
    using poll by (auto simp: loop_inv_def in_flight_def Let_def)
  note c = frames_poll_conserves [OF poll(1) this]
  then have "threshold f = threshold ?f" by (simp add: threshold_def)
  then show ?case using poll c by (auto simp: loop_inv_def in_flight_def granted_def Let_def loop_wire_def)
next
  case (credit p grant gs)
  have "st_granted (lp_stream p) + grant \<le> W + st_used (lp_stream p)" using credit by (simp add: loop_inv_def Let_def)
  then have "u64_saturating_add (st_granted (lp_stream p)) grant = st_granted (lp_stream p) + grant"
    using credit by (simp add: u64_saturating_add_def)
  moreover have "loop_wire (p\<lparr>lp_stream := lp_stream p\<lparr>st_granted := g\<rparr>, lp_credits := gs\<rparr>) = loop_wire p" for g by (simp add: loop_wire_def)
  ultimately show ?case using credit by (auto simp: loop_inv_def in_flight_def Let_def add.assoc)
qed

lemma ends_unpack [simp]: "ends (unpack frame) \<longleftrightarrow> is_final frame"
  by (cases frame) (simp_all add: ends_def unpack_def is_final_def)

lemma frames_poll_ends:
  "frames_poll rooms f q hung overrun = (r, f', q', sent, rooms') \<Longrightarrow>
    (fr_done f \<longrightarrow> fr_done f') \<and> ((\<exists>x \<in> set q. ends x) \<longrightarrow> fr_done f' \<or> (\<exists>x \<in> set q'. ends x))"
proof (induction rooms f q hung overrun arbitrary: r f' q' sent rooms' rule: frames_poll.induct)
  case (1 rooms f hung overrun)
  then show ?case by (auto split: if_splits prod.splits)
next
  case (2 rooms f item queue hung overrun)
  show ?case
  proof (cases "fr_done f")
    case False
    obtain f1 s1 r1 where g: "maybe_grant rooms f = (f1, s1, r1)" by (cases "maybe_grant rooms f")
    have h: "maybe_grant r1 x = (y, s, rs) \<Longrightarrow> fr_done y = fr_done x" for x y s rs
      by (auto simp: maybe_grant_def Let_def split: if_splits)
    show ?thesis
    proof (cases item)
      case (Inl e)
      then show ?thesis using 2(3) False g by auto
    next
      case (Inr m)
      have again: ?thesis if "m = OkFrame i \<or> m = Welcome i v n t" for i v n t
      proof -
        obtain r2 f2 q2 later rs where p: "frames_poll r1 f1 queue hung overrun = (r2, f2, q2, later, rs)"
          by (cases "frames_poll r1 f1 queue hung overrun")
        have res: "f' = f2" "q' = q2" using 2(3) that False g p by (auto simp: Inr)
        have "(\<exists>x \<in> set queue. ends x) \<longrightarrow> fr_done f2 \<or> (\<exists>x \<in> set q2. ends x)"
          using 2(1,2) [OF False g [symmetric] refl Inr] that p by blast
        moreover have "\<not> ends item" using that by (auto simp: Inr ends_def is_final_def)
        ultimately show ?thesis using res False by simp
      qed
      show ?thesis
      proof (cases m)
        case (Welcome i v n t)
        then show ?thesis using again by blast
      next
        case (OkFrame i)
        then show ?thesis using again by blast
      next
        case (RecordsFrame i records)
        then show ?thesis using 2(3) False g by (auto simp: Inr ends_def is_final_def split: prod.splits)
      qed (use 2(3) False g in \<open>auto simp: Inr ends_def is_final_def\<close>)
    qed
  qed (use 2(3) in auto)
qed

lemma loop_step_told: "loop_step L p p' \<Longrightarrow> told_end p \<Longrightarrow> told_end p'"
proof (induction rule: loop_step.induct)
  case (arrive p)
  then show ?case by (auto simp: told_end_def loop_deliver_def)
next
  case (poll rooms p res f q sent rooms')
  then show ?case using frames_poll_ends [OF poll(1)] by (auto simp: told_end_def)
qed (simp_all add: told_end_def)

lemma loop_reach_inv:
  assumes "(loop_step L)\<^sup>*\<^sup>* (loop_start view i from_version m W) p" "1 \<le> W" "W \<le> u32_max"
  shows "within_credit (lp_stream p) \<and> (W + st_used (lp_stream p) \<le> u64_max \<longrightarrow> loop_inv W p) \<and> told_end p"
  using assms(1)
proof (induction rule: rtranclp_induct)
  case base
  have "within_credit (lp_stream (loop_start view i from_version m W))"
    using assms(3) by (auto simp: within_credit_def loop_start_def serve_start_def stream_new_def send_def u32_max_def u64_max_def split: sum.splits)
  moreover have "told_end (loop_start view i from_version m W)" by (simp add: told_end_def loop_start_def)
  ultimately show ?case using loop_start_inv assms(2) by blast
next
  case (step p p')
  have "W + st_used (lp_stream p') \<le> u64_max \<longrightarrow> loop_inv W p'"
    using step loop_step_used [OF step(2)] loop_step_inv [OF step(2) _ assms(3)] by (meson add_left_mono order_trans)
  then show ?case using step loop_step_used [OF step(2)] loop_step_told [OF step(2)] by blast
qed

text \<open>
  C9: A subscriber that keeps reading is never starved in silence, and one that stops is never flooded.
  Join a subscription to the stream that serves it, over the bounded channel between them, and
  interleave passes, arrivals, polls and credit in any way, with a window of at least one that fits a
  u32 and for as long as the stream's own 64-bit count of records lasts. The records on their way to
  the consumer are never more than its window, and the stream never pushes past its credit. While the
  channel has its sender, once everything pushed has been read and the credit sent for it has arrived,
  the stream may push again; and credit a full command queue held back goes out at the first poll that
  finds room. When the channel has lost its sender, to a final frame or because a frame found it full,
  a consumer that was not told yet will be: the reason is in the channel, or the poll that finds it
  empty says that the subscription was overrun.
\<close>

theorem subscriber_never_starves:
  assumes "(loop_step L)\<^sup>*\<^sup>* (loop_start view i from_version m W) p" "1 \<le> W" "W \<le> u32_max"
    "W + st_used (lp_stream p) \<le> u64_max"
  shows "in_flight p \<le> W \<and> st_used (lp_stream p) \<le> st_granted (lp_stream p) \<and>
    (\<not> lp_hung p \<and> in_flight p = 0 \<and> lp_credits p = [] \<and> fr_pending_credit (lp_frames p) = 0 \<longrightarrow>
       st_used (lp_stream p) < st_granted (lp_stream p)) \<and>
    (\<not> fr_done (lp_frames p) \<longrightarrow>
       (\<exists>res f sent. frames_poll [True] (lp_frames p) [] (lp_hung p) (lp_overrun p) = (res, f, [], sent, []) \<and>
          fr_pending_credit f = 0 \<and> granted sent = fr_pending_credit (lp_frames p)) \<or>
       fr_pending_credit (lp_frames p) = 0) \<and>
    (lp_hung p \<and> \<not> fr_done (lp_frames p) \<longrightarrow>
       (\<exists>x \<in> set (lp_queue p). ends x) \<or>
       (\<forall>rooms. \<exists>f sent rest. frames_poll rooms (lp_frames p) [] (lp_hung p) (lp_overrun p) =
          (PollReady (Some (Inl (Overrun (fr_id (lp_frames p))))), f, [], sent, rest)))"
proof -
  have inv: "loop_inv W p" and told: "told_end p" using loop_reach_inv assms by blast+
  let ?f = "lp_frames p"
  have drained: "fr_drained ?f < threshold ?f" "fr_window ?f = W" using inv by (simp_all add: loop_inv_def Let_def)
  have owed: "st_granted (lp_stream p) + sum_list (lp_credits p) + fr_pending_credit ?f + fr_drained ?f + in_flight p \<le> W + st_used (lp_stream p)"
      "\<not> lp_hung p \<Longrightarrow> st_granted (lp_stream p) + sum_list (lp_credits p) + fr_pending_credit ?f + fr_drained ?f + in_flight p = W + st_used (lp_stream p)"
      "st_used (lp_stream p) \<le> st_granted (lp_stream p)" using inv by (simp_all add: loop_inv_def Let_def)
  have 1: "in_flight p \<le> W" using owed(1,3) by linarith
  have 2: "st_used (lp_stream p) < st_granted (lp_stream p)"
    if "\<not> lp_hung p" "in_flight p = 0" "lp_credits p = []" "fr_pending_credit ?f = 0"
  proof -
    have "fr_drained ?f < W" using drained assms(2) by (auto simp: threshold_def)
    then show ?thesis using owed(2) [OF that(1)] that by simp
  qed
  have 3: "\<exists>res f sent. frames_poll [True] ?f [] (lp_hung p) (lp_overrun p) = (res, f, [], sent, []) \<and>
      fr_pending_credit f = 0 \<and> granted sent = fr_pending_credit ?f" if "\<not> fr_done ?f" "fr_pending_credit ?f \<noteq> 0"
    using drained that by (auto simp: maybe_grant_def Let_def has_room_def granted_def threshold_def)
  have 4: "\<exists>f sent rest. frames_poll rooms ?f [] (lp_hung p) (lp_overrun p) = (PollReady (Some (Inl (Overrun (fr_id ?f)))), f, [], sent, rest)"
    if "lp_hung p" "\<not> fr_done ?f" "\<not> (\<exists>x \<in> set (lp_queue p). ends x)" for rooms
  proof -
    have "lp_overrun p" using told that by (simp add: told_end_def)
    moreover have "fr_id (fst (maybe_grant rooms ?f)) = fr_id ?f" by (simp add: maybe_grant_def Let_def)
    ultimately show ?thesis using that by (auto split: prod.splits)
  qed
  show ?thesis using 1 2 3 4 owed(3) by blast
qed

theorem subscriber_never_starves_witness:
  "\<exists>p. (loop_step limits_default)\<^sup>*\<^sup>* (loop_start (Inl (Internal, [])) 7 0 Records 1) p \<and>
    st_used (lp_stream p) = 1 \<and> in_flight p = 0 \<and> st_used (lp_stream p) < st_granted (lp_stream p)"
proof -
  let ?e = "\<lparr>en_version = 1, en_patch = JNull, en_bytes = 4\<rparr>"
  let ?s0 = "stream_new 7 0 Records 1"
  let ?rec = "RecordsFrame 7 [\<lparr>wr_version = 1, wr_patch = JNull\<rparr>]"
  let ?p0 = "loop_start (Inl (Internal, [])) 7 0 Records 1"
  let ?pa = "?p0\<lparr>lp_arrived := 1, lp_queue := [Inr (OkFrame 7)]\<rparr>"
  let ?pb = "?pa\<lparr>lp_queue := []\<rparr>"
  let ?p1 = "?pb\<lparr>lp_stream := ?s0\<lparr>st_out := [?rec], st_used := 1, st_cursor := 1\<rparr>\<rparr>"
  let ?p2 = "?p1\<lparr>lp_arrived := 2, lp_queue := [Inr ?rec]\<rparr>"
  let ?p3 = "?p2\<lparr>lp_queue := [], lp_credits := [1]\<rparr>"
  let ?p4 = "?p3\<lparr>lp_stream := ?s0\<lparr>st_out := [?rec], st_used := 1, st_cursor := 1, st_granted := Suc 1\<rparr>, lp_credits := []\<rparr>"
  note start = loop_start_def serve_start_def stream_new_def frames_new_def
  note deliver = loop_deliver_def loop_wire_def sink_new_def unpack_def is_final_def
  have s0: "lp_stream ?pb = ?s0" by (simp add: start)
  have pass: "serve_pass limits_default 1 (ring_push (ring_new 4) [?e]) (\<lambda>after n. Inr (CuRecords [])) ?s0 =
      ?s0\<lparr>st_out := [?rec], st_used := 1, st_cursor := 1\<rparr>"
    by (simp add: serve_pass_def stream_new_def limits_default_def ring_read_after_def ring_push_def ring_new_def
        ring_push1_def u64_wrapping_add_def push_records_def send_def)
  have run: "st_status (lp_stream ?pb) \<noteq> Stopped" unfolding s0 by (simp add: stream_new_def)
  have a: "loop_step limits_default ?p0 ?pa"
    using loop_step.arrive [of ?p0 limits_default] by (simp add: start deliver)
  have b: "loop_step limits_default ?pa ?pb"
  proof -
    have "frames_poll [True] (lp_frames ?pa) (lp_queue ?pa) (lp_hung ?pa) (lp_overrun ?pa) = (PollPending, lp_frames ?pa, [], [], [True])"
      by (simp add: start maybe_grant_def)
    then show ?thesis using loop_step.poll [of "[True]" ?pa] by (simp add: start)
  qed
  have 1: "loop_step limits_default ?pb ?p1"
    using loop_step.pass [OF run, of "\<lambda>after n. Inr (CuRecords [])" limits_default 1 "ring_push (ring_new 4) [?e]"]
    unfolding s0 pass by simp
  have 2: "loop_step limits_default ?p1 ?p2"
    using loop_step.arrive [of ?p1 limits_default] by (simp add: start deliver numeral_2_eq_2)
  have 3: "loop_step limits_default ?p2 ?p3"
  proof -
    have "frames_poll [True] (lp_frames ?p2) (lp_queue ?p2) (lp_hung ?p2) (lp_overrun ?p2) =
        (PollReady (Some (Inr ?rec)), lp_frames ?p2, [], [Credit 7 1], [])"
      by (simp add: start maybe_grant_def has_room_def u32_saturating_add_def u32_max_def)
    then show ?thesis using loop_step.poll [of "[True]" ?p2] by (simp add: start)
  qed
  have 4: "loop_step limits_default ?p3 ?p4"
    using loop_step.credit [of ?p3 1 "[]" limits_default] by (simp add: u64_saturating_add_def u64_max_def stream_new_def)
  note into = rtranclp.rtrancl_into_rtrancl [where r = "loop_step limits_default"]
  have reach: "(loop_step limits_default)\<^sup>*\<^sup>* ?p0 ?p4"
    by (rule into [OF into [OF into [OF into [OF into [OF into [OF rtranclp.rtrancl_refl a] b] 1] 2] 3] 4])
  have "in_flight ?p4 = 0" by (simp add: in_flight_def loop_wire_def start)
  with subscriber_never_starves [OF reach] reach show ?thesis
    by (intro exI [of _ ?p4]) (simp add: start u32_max_def u64_max_def)
qed

end
