(* ===== verification/ClientFollower.thy ===== *)
theory ClientFollower
  imports ClientConn
begin

text \<open>
  \<open>crates/lug-client/src/follower.rs\<close> and the views of \<open>hub.rs\<close>: reading a view off the wire,
  and the follower, which keeps a \<open>cavlc::Store\<close> in step with a log through views, records and
  gaps and passes the events on to a consumer that may stall.
\<close>

section \<open>Views off the wire\<close>

text \<open>The derived \<open>Deserialize\<close> of \<open>Snapshot\<close>: its two kvs and no other, or the two in order.\<close>

fun snapshot_of_json :: "json \<Rightarrow> snapshot option" where
  "snapshot_of_json (JObject kvs) =
     (if set (bt_keys kvs) \<subseteq> {''version'', ''root''}
      then case (Option.bind (bt_get kvs ''version'') json_u64, bt_get kvs ''root'') of
          (Some v, Some root_json) \<Rightarrow> Some \<lparr>snap_version = v, snap_root = value_of_json root_json\<rparr>
        | _ \<Rightarrow> None
      else None)"
| "snapshot_of_json (JArray [v, root_json]) =
     map_option (\<lambda>n. \<lparr>snap_version = n, snap_root = value_of_json root_json\<rparr>) (json_u64 v)"
| "snapshot_of_json _ = None"

fun json_get :: "json \<Rightarrow> string \<Rightarrow> json option" where
  "json_get (JObject kvs) key = bt_get kvs key"
| "json_get _ key = None"

lemma json_get_size [termination_simp]: "json_get j key = Some inner \<Longrightarrow> size inner < size j"
  by (cases j) (auto simp: bt_get_def dest!: map_of_SomeD size_assoc_mem)

fun snapshot_from :: "version \<Rightarrow> json \<Rightarrow> client_error + snapshot" where
  "snapshot_from version j =
     (case snapshot_of_json j of
        Some snap \<Rightarrow> Inr snap
      | None \<Rightarrow>
          (case json_get j ''view'' of
             Some inner \<Rightarrow> snapshot_from version inner
           | None \<Rightarrow> map_err ViewError (snapshot_new version (value_of_json j))))"

declare snapshot_from.simps [simp del]

record client_view =
  cv_version :: version
  cv_value :: json

definition unwrap_frame :: "version \<Rightarrow> json \<Rightarrow> client_view" where
  "unwrap_frame version j =
     (case snapshot_from version j of
        Inr snap \<Rightarrow> \<lparr>cv_version = snap_version snap, cv_value = to_json (snap_root snap)\<rparr>
      | Inl _ \<Rightarrow> \<lparr>cv_version = version, cv_value = j\<rparr>)"

definition view_snapshot :: "client_view \<Rightarrow> client_error + snapshot" where
  "view_snapshot v = map_err ViewError (snapshot_new (cv_version v) (value_of_json (cv_value v)))"

definition hub_read :: "(response \<Rightarrow> string) \<Rightarrow> response \<Rightarrow> client_error + client_view" where
  "hub_read debug reply =
     (case reply of View _ version j \<Rightarrow> Inr (unwrap_frame version j) | other \<Rightarrow> Inl (mismatch debug ''view'' other))"

section \<open>The follower's state\<close>

datatype follower_status = Live | Reconnecting | Ended | Failed client_error

fun status_final :: "follower_status \<Rightarrow> bool" where
  "status_final Ended = True"
| "status_final (Failed e) = True"
| "status_final _ = False"

record follower_state =
  fs_snapshot :: "snapshot option"
  fs_version :: version
  fs_reducible :: bool
  fs_status :: follower_status

record follower =
  fo_cursor :: version
  fo_store :: "store option"
  fo_mode :: mode
  fo_dropped :: "(version \<times> version) option"
  fo_capacity :: nat
  fo_queue :: "event list"
  fo_read :: "event list"
  fo_state :: follower_state
  fo_delay :: nat

text \<open>The consumer's channel is \<open>fo_queue\<close>, and \<open>fo_read\<close> is what the consumer has taken from it.\<close>

definition follower_new :: "nat \<Rightarrow> backoff \<Rightarrow> follower" where
  "follower_new credit b =
     \<lparr>fo_cursor = 0, fo_store = None, fo_mode = Reducible, fo_dropped = None,
      fo_capacity = min (max credit 1) 4096, fo_queue = [], fo_read = [],
      fo_state = \<lparr>fs_snapshot = None, fs_version = 0, fs_reducible = True, fs_status = Reconnecting\<rparr>,
      fo_delay = bo_min b\<rparr>"

definition fo_publish :: "follower_status \<Rightarrow> follower \<Rightarrow> follower" where
  "fo_publish status f =
     f\<lparr>fo_state := \<lparr>fs_snapshot = map_option store_snapshot (fo_store f), fs_version = fo_cursor f,
        fs_reducible = (fo_mode f = Reducible), fs_status = status\<rparr>\<rparr>"

definition adopt :: "snapshot \<Rightarrow> follower \<Rightarrow> follower" where
  "adopt snap f = fo_publish Live (f\<lparr>fo_cursor := snap_version snap, fo_store := Some (store_resume 0 snap)\<rparr>)"

definition fo_try_send :: "event \<Rightarrow> follower \<Rightarrow> follower option" where
  "fo_try_send ev f = (if length (fo_queue f) < fo_capacity f then Some (f\<lparr>fo_queue := fo_queue f @ [ev]\<rparr>) else None)"

text \<open>
  \<open>emit\<close>. A gap waits for room: \<open>reads\<close> says whether there is a consumer, which then takes an
  event; without one the wait never ends and the result is \<open>None\<close>.
\<close>

fun emit :: "bool \<Rightarrow> event \<Rightarrow> follower \<Rightarrow> follower option" where
  "emit reads (EvGap lo hi) f =
     (let start = (case fo_dropped f of None \<Rightarrow> lo | Some (lost, _) \<Rightarrow> min lost lo);
          f1 = f\<lparr>fo_dropped := None\<rparr>
      in case fo_try_send (EvGap start hi) f1 of
           Some f2 \<Rightarrow> Some f2
         | None \<Rightarrow>
             (case fo_queue f1 of
                ev # q \<Rightarrow>
                  if reads then Some (f1\<lparr>fo_read := fo_read f1 @ [ev], fo_queue := q @ [EvGap start hi]\<rparr>) else None
              | [] \<Rightarrow> None))"
| "emit reads (EvRecord r) f =
     (let send = (\<lambda>f. case fo_try_send (EvRecord r) f of
          Some f' \<Rightarrow> f'
        | None \<Rightarrow> f\<lparr>fo_dropped := Some (case fo_dropped f of
              None \<Rightarrow> (wr_version r - 1, wr_version r)
            | Some (lo, _) \<Rightarrow> (lo, wr_version r))\<rparr>)
      in case fo_dropped f of
           None \<Rightarrow> Some (send f)
         | Some (lo, hi) \<Rightarrow>
             (case fo_try_send (EvGap lo hi) f of
                Some f' \<Rightarrow> Some (send (f'\<lparr>fo_dropped := None\<rparr>))
              | None \<Rightarrow> Some (f\<lparr>fo_dropped := Some (lo, wr_version r)\<rparr>)))"

section \<open>Folding and recovering\<close>

text \<open>
  Every step returns the follower and a verdict, or \<open>None\<close> when it waits for ever. \<open>view\<close> is what
  \<open>Hub::read\<close> answers, \<open>say\<close> prints an error.
\<close>

definition recover_gap ::
    "bool \<Rightarrow> client_error + client_view \<Rightarrow> version \<Rightarrow> version \<Rightarrow> follower \<Rightarrow> (follower \<times> (client_error + bool)) option" where
  "recover_gap reads view lo hi f =
     (if fo_mode f = Records
      then map_option (\<lambda>f. (fo_publish Live f, Inr True)) (emit reads (EvGap lo hi) (f\<lparr>fo_cursor := hi\<rparr>))
      else case view of
          Inr v \<Rightarrow>
            (case view_snapshot v of
               Inl e \<Rightarrow> Some (f, Inl e)
             | Inr snap \<Rightarrow>
                 if snap_version snap < hi then Some (f, Inr False)
                 else map_option (\<lambda>f. (adopt snap f, Inr True)) (emit reads (EvGap lo (snap_version snap)) f))
        | Inl e \<Rightarrow> if is_transient e then Some (f, Inr False) else Some (f, Inl e))"

definition fold_patch :: "(cavlc_error \<Rightarrow> string) \<Rightarrow> wire_record \<Rightarrow> store \<Rightarrow> client_error + store" where
  "fold_patch say r s =
     (case patch_of_json (wr_patch r) of
        Inl e \<Rightarrow> Inl (ProtocolError 0 (''version '' @ dec_digits (wr_version r) @ '' is not a patch: '' @ say e))
      | Inr p \<Rightarrow>
          (case store_apply s p of
             Inl e \<Rightarrow> Inl (ViewError e)
           | Inr (s', applied) \<Rightarrow>
               if snap_version (res_snapshot applied) \<noteq> wr_version r
               then Inl (ProtocolError 0 (''folded to version '' @ dec_digits (snap_version (res_snapshot applied)) @
                      '' but the record says '' @ dec_digits (wr_version r)))
               else Inr s'))"

fun fold_records ::
    "(cavlc_error \<Rightarrow> string) \<Rightarrow> bool \<Rightarrow> client_error + client_view \<Rightarrow> wire_record list \<Rightarrow> follower \<Rightarrow>
     (follower \<times> (client_error + bool)) option" where
  "fold_records say reads view [] f = Some (fo_publish Live f, Inr True)"
| "fold_records say reads view (r # rs) f =
     (if wr_version r \<le> fo_cursor f then fold_records say reads view rs f
      else if wr_version r \<noteq> fo_cursor f + 1 then recover_gap reads view (fo_cursor f) (wr_version r - 1) f
      else
        case (case fo_store f of None \<Rightarrow> Inr None | Some s \<Rightarrow> rbind (fold_patch say r s) (\<lambda>s'. Inr (Some s'))) of
          Inl e \<Rightarrow> Some (f, Inl e)
        | Inr st \<Rightarrow>
            Option.bind (emit reads (EvRecord r) (f\<lparr>fo_store := st, fo_cursor := wr_version r\<rparr>))
              (fold_records say reads view rs))"

datatype session_step = Continue | Restart | EndStep | Broken client_error

text \<open>The body of the loop of \<open>session\<close> on one item of the frames, \<open>None\<close> when they ended.\<close>

definition session_frame ::
    "(cavlc_error \<Rightarrow> string) \<Rightarrow> bool \<Rightarrow> client_error + client_view \<Rightarrow> (client_error + response) option \<Rightarrow> follower \<Rightarrow>
     (follower \<times> session_step) option" where
  "session_frame say reads view frame f =
     (let verdict = map_option (\<lambda>(f, r). (f, case r of Inl e \<Rightarrow> Broken e | Inr True \<Rightarrow> Continue | Inr False \<Rightarrow> Restart)) in
      case frame of
        None \<Rightarrow> Some (f, EndStep)
      | Some (Inl e) \<Rightarrow>
          (case e of
             ServerError _ c _ \<Rightarrow>
               if c = NotReducible \<and> fo_mode f = Reducible then Some (f\<lparr>fo_mode := Records\<rparr>, Restart)
               else if c = OutOfRange then Some (f\<lparr>fo_cursor := 0, fo_store := None\<rparr>, Restart)
               else Some (f, Broken e)
           | _ \<Rightarrow> Some (f, Broken e))
      | Some (Inr (View _ version j)) \<Rightarrow>
          (case snapshot_from version j of
             Inl e \<Rightarrow> Some (f, Broken e)
           | Inr snap \<Rightarrow>
               if fo_store f \<noteq> None \<and> fo_cursor f < snap_version snap
               then map_option (\<lambda>f. (adopt snap f, Continue)) (emit reads (EvGap (fo_cursor f) (snap_version snap)) f)
               else Some (adopt snap f, Continue))
      | Some (Inr (RecordsFrame _ records)) \<Rightarrow> verdict (fold_records say reads view records f)
      | Some (Inr (GapFrame _ lo hi)) \<Rightarrow> verdict (recover_gap reads view lo hi f)
      | Some (Inr _) \<Rightarrow> Some (f, Continue))"

definition fatal :: "client_error \<Rightarrow> bool" where
  "fatal e \<longleftrightarrow>
     (case e of
        ServerError _ c _ \<Rightarrow> c \<in> {NoSuchLog, Unauthorized, Malformed, Rejected}
      | ViewError _ \<Rightarrow> True
      | HubClosed \<Rightarrow> True
      | _ \<Rightarrow> False)"

text \<open>What \<open>run\<close> does with the end of a session; it sleeps \<open>fo_delay\<close> before the next.\<close>

definition run_outcome :: "backoff \<Rightarrow> session_step \<Rightarrow> follower \<Rightarrow> follower" where
  "run_outcome b step f =
     (case step of
        Continue \<Rightarrow> f
      | Restart \<Rightarrow> f\<lparr>fo_delay := bo_min b\<rparr>
      | EndStep \<Rightarrow> fo_publish Ended f
      | Broken e \<Rightarrow>
          if fatal e then fo_publish (Failed e) f
          else (fo_publish Reconnecting f)\<lparr>fo_delay := min (fo_delay f * 2) (bo_max b)\<rparr>)"

text \<open>\<open>wait_for\<close> on one observed state: the state, a failure, or wait on.\<close>

definition wait_for :: "(client_error \<Rightarrow> string) \<Rightarrow> version \<Rightarrow> follower_state \<Rightarrow> (client_error + follower_state) option" where
  "wait_for show version s =
     (if version \<le> fs_version s then Some (Inr s)
      else case fs_status s of
          Failed e \<Rightarrow> Some (Inl (ProtocolError 0 (''follower stopped before version '' @ dec_digits version @ '': '' @ show e)))
        | _ \<Rightarrow> None)"

section \<open>What a consumer of the events is told\<close>

text \<open>
  \<open>events_from c evs c'\<close>: a consumer at \<open>c\<close> who takes the events knows of every version up to
  \<open>c'\<close>, by its record or inside a gap. A gap may reach back over what was seen.
\<close>

fun events_from :: "version \<Rightarrow> event list \<Rightarrow> version \<Rightarrow> bool" where
  "events_from c [] c' \<longleftrightarrow> c' = c"
| "events_from c (EvRecord r # evs) c' \<longleftrightarrow> wr_version r = Suc c \<and> events_from (Suc c) evs c'"
| "events_from c (EvGap lo hi # evs) c' \<longleftrightarrow> lo \<le> c \<and> c \<le> hi \<and> events_from hi evs c'"

lemma events_from_append: "events_from c (xs @ ys) c'' \<longleftrightarrow> (\<exists>c'. events_from c xs c' \<and> events_from c' ys c'')"
  by (induction c xs c'' rule: events_from.induct) auto

definition told_to :: "version \<Rightarrow> follower \<Rightarrow> version \<Rightarrow> bool" where
  "told_to c0 f c \<longleftrightarrow>
     (case fo_dropped f of
        None \<Rightarrow> events_from c0 (fo_read f @ fo_queue f) c
      | Some (lo, hi) \<Rightarrow> events_from c0 (fo_read f @ fo_queue f) lo \<and> lo \<le> hi \<and> hi = c)"

lemma told_to_update [simp]:
  "told_to c0 (f\<lparr>fo_cursor := v\<rparr>) c = told_to c0 f c" "told_to c0 (f\<lparr>fo_store := s\<rparr>) c = told_to c0 f c"
  "told_to c0 (f\<lparr>fo_mode := m\<rparr>) c = told_to c0 f c" "told_to c0 (f\<lparr>fo_state := st\<rparr>) c = told_to c0 f c"
  "told_to c0 (f\<lparr>fo_delay := d\<rparr>) c = told_to c0 f c"
  by (simp_all add: told_to_def cong: option.case_cong)

text \<open>Sending touches nothing but the channel and what is owed to it.\<close>

definition same_but_channel :: "follower \<Rightarrow> follower \<Rightarrow> bool" where
  "same_but_channel f f' \<longleftrightarrow>
     fo_cursor f' = fo_cursor f \<and> fo_store f' = fo_store f \<and> fo_mode f' = fo_mode f \<and> fo_state f' = fo_state f"

lemma same_but_channel_refl: "same_but_channel f f"
  by (simp add: same_but_channel_def)

lemma fo_try_send_told:
  assumes "fo_try_send ev f = Some f'"
  shows "f' = f\<lparr>fo_queue := fo_queue f @ [ev]\<rparr>"
  using assms by (auto simp: fo_try_send_def split: if_splits)

lemma emit_same: "emit reads ev f = Some f' \<Longrightarrow> same_but_channel f f'"
  by (cases "(reads, ev, f)" rule: emit.cases)
    (auto simp: Let_def same_but_channel_def split: option.splits list.splits if_splits dest!: fo_try_send_told)

lemma emit_gap_told:
  assumes "emit reads (EvGap lo hi) f = Some f'" "told_to c0 f c" "lo \<le> c" "c \<le> hi"
  shows "told_to c0 f' hi \<and> same_but_channel f f'"
proof -
  define start where "start = (case fo_dropped f of None \<Rightarrow> lo | Some (lost, _) \<Rightarrow> min lost lo)"
  have "\<exists>d. events_from c0 (fo_read f @ fo_queue f) d \<and> start \<le> d \<and> d \<le> hi"
    using assms(2-4) by (auto simp: told_to_def start_def min_def split: option.splits)
  then have ev: "events_from c0 (fo_read f @ fo_queue f @ [EvGap start hi]) hi"
    by (auto simp: events_from_append simp flip: append_assoc)
  consider "f' = f\<lparr>fo_dropped := None, fo_queue := fo_queue f @ [EvGap start hi]\<rparr>"
    | e q where "fo_queue f = e # q" "f' = f\<lparr>fo_dropped := None, fo_read := fo_read f @ [e], fo_queue := q @ [EvGap start hi]\<rparr>"
    using assms(1) by (auto simp: Let_def start_def split: option.splits list.splits if_splits dest!: fo_try_send_told)
  then show ?thesis using ev by cases (auto simp: told_to_def same_but_channel_def)
qed

lemma emit_record_told:
  assumes "emit reads (EvRecord r) f = Some f'" "told_to c0 f c" "wr_version r = Suc c"
  shows "told_to c0 f' (Suc c) \<and> same_but_channel f f'"
proof -
  let ?drop = "\<lambda>g. g\<lparr>fo_dropped := Some (c, Suc c)\<rparr>" and ?put = "\<lambda>g. g\<lparr>fo_queue := fo_queue g @ [EvRecord r]\<rparr>"
  have send: "told_to c0 (?put g) (Suc c)" "told_to c0 (?drop g) (Suc c)"
    if "fo_dropped g = None" "events_from c0 (fo_read g @ fo_queue g) c" for g
    using that assms(3) by (auto simp: told_to_def events_from_append simp flip: append_assoc)
  show ?thesis
  proof (cases "fo_dropped f")
    case None
    then have "f' = ?put f \<or> f' = ?drop f"
      using assms(1,3) by (auto simp: Let_def split: option.splits dest!: fo_try_send_told)
    then show ?thesis using send [OF None] assms(2) None by (auto simp: told_to_def same_but_channel_def)
  next
    case (Some d)
    obtain lo where d: "d = (lo, c)" "lo \<le> c" "events_from c0 (fo_read f @ fo_queue f) lo"
      using assms(2) Some by (cases d) (auto simp: told_to_def)
    let ?g = "f\<lparr>fo_queue := fo_queue f @ [EvGap lo c], fo_dropped := None\<rparr>"
    have g: "events_from c0 (fo_read ?g @ fo_queue ?g) c" "fo_dropped ?g = None"
      using d by (auto simp: events_from_append simp flip: append_assoc)
    have "f' = ?put ?g \<or> f' = ?drop ?g \<or> f' = f\<lparr>fo_dropped := Some (lo, Suc c)\<rparr>"
      using assms(1,3) Some d(1) by (auto simp: Let_def split: option.splits dest!: fo_try_send_told)
    moreover have "told_to c0 (f\<lparr>fo_dropped := Some (lo, Suc c)\<rparr>) (Suc c)" using d by (simp add: told_to_def)
    ultimately show ?thesis using send [OF g(2,1)] by (auto simp: same_but_channel_def)
  qed
qed

section \<open>The server's side of it\<close>

text \<open>
  A log's history: the store at each version up to \<open>hi_v\<close>, each made from the one before by the
  patch its record carries. \<open>plain\<close> documents are those a view of which is not taken for
  something else.
\<close>

definition plain :: "json \<Rightarrow> bool" where
  "plain j \<longleftrightarrow> snapshot_of_json j = None \<and> json_get j ''view'' = None"

definition doc :: "(version \<Rightarrow> store) \<Rightarrow> version \<Rightarrow> json" where
  "doc H v = to_json (snap_root (store_snapshot (H v)))"

definition history :: "(version \<Rightarrow> store) \<Rightarrow> (version \<Rightarrow> json) \<Rightarrow> version \<Rightarrow> bool" where
  "history H pat hi_v \<longleftrightarrow>
     (\<forall>v \<le> hi_v. cavlc_wf (H v) \<and> snap_version (store_snapshot (H v)) = v \<and> plain (doc H v)) \<and>
     (\<forall>v < hi_v. \<exists>p x. patch_of_json (pat (Suc v)) = Inr p \<and> patch_wf p \<and>
        r_apply (cavlc_ops 0) (H v) p = (H (Suc v), Inr (Some x)))"

definition holds_doc :: "(version \<Rightarrow> store) \<Rightarrow> version \<Rightarrow> snapshot \<Rightarrow> bool" where
  "holds_doc H v x \<longleftrightarrow> snap_version x = v \<and> to_json (snap_root x) = doc H v \<and> snapshot_wf x"

lemma history_doc:
  assumes "history H pat hi_v" "v \<le> hi_v"
  shows "v \<le> u64_max" "json_wf (doc H v)" "is_object (doc H v)" "plain (doc H v)"
proof -
  have wf: "snapshot_wf (store_snapshot (H v))" "snap_version (store_snapshot (H v)) = v"
    using assms cavlc_wf_view by (auto simp: history_def)
  then show "v \<le> u64_max" "json_wf (doc H v)" "is_object (doc H v)"
    by (auto simp: snapshot_wf_def doc_def intro: json_wf_to_json)
  show "plain (doc H v)" using assms by (simp add: history_def)
qed

lemma doc_holds:
  assumes "history H pat hi_v" "v \<le> hi_v"
  shows "\<exists>x. snapshot_new v (value_of_json (doc H v)) = Inr x \<and> holds_doc H v x"
proof -
  note d = history_doc [OF assms]
  have "value_wf (value_of_json (doc H v))" "to_json (value_of_json (doc H v)) = doc H v"
    using d value_of_json_wf to_json_of_json by blast+
  moreover from this have "as_object (value_of_json (doc H v)) \<noteq> None" using d(3) by (metis is_object_to_json)
  ultimately show ?thesis using d(1) by (simp add: snapshot_new_def holds_doc_def snapshot_wf_def)
qed

text \<open>A view of a document of the history reads as that document.\<close>

lemma snapshot_from_doc:
  assumes "history H pat hi_v" "v \<le> hi_v"
  shows "\<exists>x. snapshot_from v (doc H v) = Inr x \<and> holds_doc H v x"
proof -
  have "snapshot_from v (doc H v) = map_err ViewError (snapshot_new v (value_of_json (doc H v)))"
    using history_doc(4) [OF assms] by (subst snapshot_from.simps) (simp add: plain_def)
  then show ?thesis using doc_holds [OF assms] by auto
qed

lemma unwrap_frame_doc:
  assumes "history H pat hi_v" "v \<le> hi_v"
  shows "unwrap_frame v (doc H v) = \<lparr>cv_version = v, cv_value = doc H v\<rparr>"
  using snapshot_from_doc [OF assms] by (auto simp: unwrap_frame_def holds_doc_def)

text \<open>A mirror: a store whose snapshot is the history's at the cursor.\<close>

definition mirrors :: "(version \<Rightarrow> store) \<Rightarrow> version \<Rightarrow> version \<Rightarrow> store \<Rightarrow> bool" where
  "mirrors H hi_v v s \<longleftrightarrow> v \<le> hi_v \<and> cavlc_wf s \<and> holds_doc H v (store_snapshot s)"

lemma store_apply_eq:
  "store_apply s p =
     (case r_apply (cavlc_ops own) s p of
        (_, Inl e) \<Rightarrow> Inl e
      | (s', Inr None) \<Rightarrow> Inr (s, \<lparr>res_snapshot = store_snapshot s, res_record = None\<rparr>)
      | (s', Inr (Some x)) \<Rightarrow> Inr (s', \<lparr>res_snapshot = x, res_record = Some \<lparr>commit_version = snap_version x, commit_patches = [p]\<rparr>\<rparr>))"
proof (cases "patch_apply p (snap_root (store_snapshot s))")
  case (Inl e)
  then show ?thesis by (simp add: store_apply_def batch_apply_def cavlc_apply)
next
  case (Inr vf)
  obtain v fresh where vf: "vf = (v, fresh)" by (cases vf)
  show ?thesis
  proof (cases fresh)
    case False
    then show ?thesis using Inr vf by (simp add: store_apply_def batch_apply_def cavlc_apply apply_batch_def)
  next
    case True
    then show ?thesis using Inr vf
      by (cases "snap_version (store_snapshot s) < u64_max")
        (simp_all add: store_apply_def batch_apply_def cavlc_apply apply_batch_def u64_checked_add_def Let_def)
  qed
qed

lemma mirror_resume:
  assumes "history H pat hi_v" "v \<le> hi_v" "holds_doc H v x"
  shows "mirrors H hi_v v (store_resume 0 x)"
  using cavlc_red.resume_ok [of x 0] assms by (auto simp: mirrors_def holds_doc_def)

lemma mirror_fold:
  assumes hist: "history H pat hi_v" and s: "mirrors H hi_v v s" and r: "wr_version r = Suc v" "Suc v \<le> hi_v" "wr_patch r = pat (Suc v)"
  shows "\<exists>s'. fold_patch say r s = Inr s' \<and> mirrors H hi_v (Suc v) s'"
proof -
  have "v < hi_v" using r(2) by simp
  then obtain p x where p: "patch_of_json (pat (Suc v)) = Inr p" "patch_wf p"
      and x: "r_apply (cavlc_ops 0) (H v) p = (H (Suc v), Inr (Some x))" using hist by (auto simp: history_def)
  have H: "cavlc_wf (H v)" "snap_version (store_snapshot (H v)) = v" using hist r(2) by (auto simp: history_def)
  note h = cavlc_apply_some [OF H(1) p(2) x]
  have wf: "snapshot_wf (store_snapshot s)" "snapshot_wf (store_snapshot (H v))"
    using s H cavlc_wf_view by (auto simp: mirrors_def)
  have ref: "patch_apply p (snap_root (store_snapshot (H v))) = Inr (snap_root x, True)" "v < u64_max"
    using x H(2) by (auto simp: cavlc_apply Let_def split: sum.splits if_splits)
  have vwf: "value_wf (snap_root (store_snapshot (H v)))" "value_wf (snap_root (store_snapshot s))"
    using wf by (simp_all add: snapshot_wf_def)
  note o1 = patch_apply_object [OF p(2) vwf(1) ref(1)]
  have j: "to_json (snap_root (store_snapshot s)) = to_json (snap_root (store_snapshot (H v)))"
    using s by (simp add: mirrors_def holds_doc_def doc_def)
  obtain w fresh where w: "patch_apply p (snap_root (store_snapshot s)) = Inr (w, fresh)"
    using patch_apply_refines_aux [OF p(2) vwf(2)] o1 j by (cases "patch_apply p (snap_root (store_snapshot s))") auto
  note o2 = patch_apply_object [OF p(2) vwf(2) w]
  have same: "to_json w = to_json (snap_root x)" "fresh" using o1 o2 j by auto
  have ver: "snap_version (store_snapshot s) = v" using s by (simp add: mirrors_def holds_doc_def)
  obtain s' y where run: "r_apply (cavlc_ops 0) s p = (s', Inr (Some y))" and y: "y = \<lparr>snap_version = Suc v, snap_root = w\<rparr>"
    using w same(2) ref(2) ver by (simp add: cavlc_apply Let_def)
  have s'': "cavlc_wf s' \<and> store_snapshot s' = y" using cavlc_apply_some [OF _ p(2) run] s by (simp add: mirrors_def)
  have "holds_doc H (Suc v) y"
    using s'' h same(1) cavlc_wf_view [of s'] by (auto simp: holds_doc_def y doc_def)
  then show ?thesis using s'' p(1) run y r by (simp add: fold_patch_def store_apply_eq [of s p 0] mirrors_def)
qed

section \<open>The follower under any connection\<close>

text \<open>
  What a server may send that keeps a view of the log or does not (\<open>keeps\<close>), and has kept none
  of it back: views only of a log that has them, at any version, and the log's documents there;
  the log's records, in any order and with any holes; any gap; any refusal, \<open>NotReducible\<close> only
  of a log without a view, \<open>OutOfRange\<close> at any time. The view read to recover from a gap is one of
  these views.
\<close>

definition honest_view :: "bool \<Rightarrow> (version \<Rightarrow> store) \<Rightarrow> version \<Rightarrow> client_error + client_view \<Rightarrow> bool" where
  "honest_view keeps H hi_v view \<longleftrightarrow>
     (\<forall>v. view = Inr v \<longrightarrow> keeps \<and> cv_version v \<le> hi_v \<and> cv_value v = doc H (cv_version v))"

fun honest ::
    "bool \<Rightarrow> (version \<Rightarrow> store) \<Rightarrow> (version \<Rightarrow> json) \<Rightarrow> version \<Rightarrow> (client_error + response) option \<Rightarrow> bool" where
  "honest keeps H pat hi_v (Some (Inr (View i v j))) \<longleftrightarrow> keeps \<and> v \<le> hi_v \<and> j = doc H v"
| "honest keeps H pat hi_v (Some (Inr (RecordsFrame i rs))) \<longleftrightarrow>
     (keeps \<longrightarrow> (\<forall>r \<in> set rs. wr_version r \<le> hi_v \<and> wr_patch r = pat (wr_version r)))"
| "honest keeps H pat hi_v (Some (Inl (ServerError i c m))) \<longleftrightarrow> c = NotReducible \<longrightarrow> \<not> keeps"
| "honest keeps H pat hi_v _ \<longleftrightarrow> True"

text \<open>
  What such a server sends beside that when it serves the log in order: no view behind the
  follower, neither pushed nor read; the view first, where there is one; gaps that start at or
  before the follower's cursor and end at or after it; and no cursor is out of range.
\<close>

definition view_past :: "version list \<Rightarrow> client_error + client_view \<Rightarrow> bool" where
  "view_past seen view \<longleftrightarrow> (\<forall>v. view = Inr v \<longrightarrow> (\<forall>m \<in> set seen. m \<le> cv_version v))"

fun in_order :: "client_error + client_view \<Rightarrow> follower \<Rightarrow> (client_error + response) option \<Rightarrow> bool" where
  "in_order view f (Some (Inr (View i v j))) \<longleftrightarrow> (fo_store f \<noteq> None \<longrightarrow> fo_cursor f \<le> v)"
| "in_order view f (Some (Inr (RecordsFrame i rs))) \<longleftrightarrow>
     (fo_mode f = Reducible \<longrightarrow> fo_store f \<noteq> None) \<and> view_past (fo_cursor f # map wr_version rs) view"
| "in_order view f (Some (Inr (GapFrame i lo hi))) \<longleftrightarrow>
     (fo_mode f = Reducible \<longrightarrow> fo_store f \<noteq> None) \<and> lo \<le> fo_cursor f \<and> fo_cursor f \<le> hi \<and>
     view_past [fo_cursor f] view"
| "in_order view f (Some (Inl (ServerError i c m))) \<longleftrightarrow> c \<noteq> OutOfRange \<and> (c = NotReducible \<longrightarrow> fo_store f = None)"
| "in_order view f _ \<longleftrightarrow> True"

text \<open>
  A follower and all that may happen to it: an item of its frames, honest and, where \<open>ordered\<close>,
  in order; a connection or a subscription that fails; the consumer taking an event.
\<close>

inductive follower_step ::
    "bool \<Rightarrow> bool \<Rightarrow> (version \<Rightarrow> store) \<Rightarrow> (version \<Rightarrow> json) \<Rightarrow> version \<Rightarrow> (cavlc_error \<Rightarrow> string) \<Rightarrow> backoff \<Rightarrow>
     follower \<Rightarrow> follower \<Rightarrow> bool"
  for ordered keeps H pat hi_v say b where
  frame: "\<not> status_final (fs_status (fo_state f)) \<Longrightarrow> honest keeps H pat hi_v item \<Longrightarrow> honest_view keeps H hi_v view \<Longrightarrow>
    (ordered \<Longrightarrow> in_order view f item) \<Longrightarrow>
    session_frame say reads view item f = Some (f', verdict) \<Longrightarrow>
    follower_step ordered keeps H pat hi_v say b f (run_outcome b verdict f')"
| refused: "\<not> status_final (fs_status (fo_state f)) \<Longrightarrow>
    follower_step ordered keeps H pat hi_v say b f (run_outcome b (Broken e) f)"
| consume: "fo_queue f = ev # q \<Longrightarrow>
    follower_step ordered keeps H pat hi_v say b f (f\<lparr>fo_queue := q, fo_read := fo_read f @ [ev]\<rparr>)"

text \<open>
  The invariant of what is shown: the store, if any, is the history's at the cursor, and so is the
  published snapshot at the published version.
\<close>

definition shown_ok :: "(version \<Rightarrow> store) \<Rightarrow> follower_state \<Rightarrow> bool" where
  "shown_ok H st \<longleftrightarrow> (\<forall>x. fs_snapshot st = Some x \<longrightarrow> holds_doc H (fs_version st) x)"

definition mirror_inv :: "bool \<Rightarrow> (version \<Rightarrow> store) \<Rightarrow> version \<Rightarrow> follower \<Rightarrow> bool" where
  "mirror_inv keeps H hi_v f \<longleftrightarrow>
     (\<forall>s. fo_store f = Some s \<longrightarrow> mirrors H hi_v (fo_cursor f) s) \<and>
     (if keeps then fo_mode f = Reducible else fo_store f = None) \<and> shown_ok H (fo_state f)"

lemma mirror_inv_delay [simp]: "mirror_inv keeps H hi_v (f\<lparr>fo_delay := d\<rparr>) = mirror_inv keeps H hi_v f"
  by (simp add: mirror_inv_def)

lemma mirror_publish: "mirror_inv keeps H hi_v f \<Longrightarrow> mirror_inv keeps H hi_v (fo_publish status f)"
  by (auto simp: mirror_inv_def fo_publish_def shown_ok_def mirrors_def)

lemma mirror_outcome: "mirror_inv keeps H hi_v f \<Longrightarrow> mirror_inv keeps H hi_v (run_outcome b verdict f)"
  by (cases verdict) (simp_all add: run_outcome_def mirror_publish)

lemma mirror_same: "same_but_channel f g \<Longrightarrow> mirror_inv keeps H hi_v g = mirror_inv keeps H hi_v f"
  by (simp add: mirror_inv_def same_but_channel_def)

lemma mirror_adopt:
  assumes "history H pat hi_v" "holds_doc H v x" "v \<le> hi_v" "keeps" "mirror_inv keeps H hi_v f"
  shows "mirror_inv keeps H hi_v (adopt x f)"
proof -
  have x: "snap_version x = v" using assms(2) by (simp add: holds_doc_def)
  note m = mirror_resume [OF assms(1,3,2)]
  show ?thesis using assms m x by (auto simp: mirror_inv_def adopt_def fo_publish_def shown_ok_def mirrors_def store_resume_def)
qed

text \<open>A view read to recover, made a snapshot: the document of its version.\<close>

lemma view_snapshot_doc:
  assumes "keeps \<longrightarrow> history H pat hi_v" "honest_view keeps H hi_v (Inr v)" "view_snapshot v = Inr x"
  shows "keeps" "history H pat hi_v" "snap_version x = cv_version v" "holds_doc H (snap_version x) x" "snap_version x \<le> hi_v"
proof -
  show k: "keeps" using assms(2) by (simp add: honest_view_def)
  then show hist: "history H pat hi_v" using assms(1) by simp
  have v: "cv_version v \<le> hi_v" "cv_value v = doc H (cv_version v)" using assms(2) by (simp_all add: honest_view_def)
  have "holds_doc H (cv_version v) x" using doc_holds [OF hist v(1)] v(2) assms(3) by (auto simp: view_snapshot_def)
  then show "snap_version x = cv_version v" "holds_doc H (snap_version x) x" "snap_version x \<le> hi_v"
    using v(1) by (simp_all add: holds_doc_def)
qed

lemma recover_cases:
  assumes "recover_gap reads view lo hi f = Some (f', r)"
  obtains (plain_log) g where "fo_mode f = Records" "emit reads (EvGap lo hi) (f\<lparr>fo_cursor := hi\<rparr>) = Some g" "f' = fo_publish Live g"
    | (kept) "fo_mode f = Reducible" "f' = f"
    | (refetched) v x g where "fo_mode f = Reducible" "view = Inr v" "view_snapshot v = Inr x" "hi \<le> snap_version x"
        "emit reads (EvGap lo (snap_version x)) f = Some g" "f' = adopt x g"
  using assms by (cases "fo_mode f") (auto simp: recover_gap_def split: sum.splits if_splits)

lemma mirror_recover:
  assumes hist: "keeps \<longrightarrow> history H pat hi_v" and inv: "mirror_inv keeps H hi_v f" and view: "honest_view keeps H hi_v view"
    and run: "recover_gap reads view lo hi f = Some (f', r)"
  shows "mirror_inv keeps H hi_v f'"
  using run
proof (cases rule: recover_cases)
  case (plain_log g)
  then have "\<not> keeps" "fo_store f = None" using inv by (auto simp: mirror_inv_def split: if_splits)
  then have "mirror_inv keeps H hi_v (f\<lparr>fo_cursor := hi\<rparr>)" using inv by (simp add: mirror_inv_def)
  then show ?thesis using emit_same [OF plain_log(2)] plain_log(3) mirror_same mirror_publish by metis
next
  case (refetched v x g)
  note d = view_snapshot_doc [OF hist view [unfolded refetched(2)] refetched(3)]
  have "mirror_inv keeps H hi_v g" using inv emit_same [OF refetched(5)] mirror_same by metis
  then show ?thesis using mirror_adopt [OF d(2,4,5,1)] refetched(6) by simp
qed (simp add: inv)

text \<open>One record that continues the cursor: folded, then sent on.\<close>

definition fold_one ::
    "(cavlc_error \<Rightarrow> string) \<Rightarrow> bool \<Rightarrow> wire_record \<Rightarrow> follower \<Rightarrow> (follower \<times> client_error + follower) option" where
  "fold_one say reads r f =
     (case (case fo_store f of None \<Rightarrow> Inr None | Some s \<Rightarrow> rbind (fold_patch say r s) (\<lambda>s'. Inr (Some s'))) of
        Inl e \<Rightarrow> Some (Inl (f, e))
      | Inr st \<Rightarrow> map_option Inr (emit reads (EvRecord r) (f\<lparr>fo_store := st, fo_cursor := wr_version r\<rparr>)))"

lemma fold_records_next:
  assumes "wr_version r = Suc (fo_cursor f)"
  shows "fold_records say reads view (r # rs) f =
    Option.bind (fold_one say reads r f)
      (\<lambda>s. case s of Inl (f, e) \<Rightarrow> Some (f, Inl e) | Inr g \<Rightarrow> fold_records say reads view rs g)"
  using assms by (auto simp: fold_one_def bind_map_option comp_def simp del: emit.simps split: sum.splits option.splits)

lemma mirror_fold_one:
  assumes hist: "keeps \<longrightarrow> history H pat hi_v" and inv: "mirror_inv keeps H hi_v f"
    and r: "wr_version r = Suc (fo_cursor f)" "keeps \<longrightarrow> wr_version r \<le> hi_v \<and> wr_patch r = pat (wr_version r)"
    and run: "fold_one say reads r f = Some s"
  shows "case s of Inl (f', e) \<Rightarrow> mirror_inv keeps H hi_v f' | Inr g \<Rightarrow> mirror_inv keeps H hi_v g"
proof (cases "fo_store f")
  case None
  then obtain g where g: "s = Inr g" "emit reads (EvRecord r) (f\<lparr>fo_store := None, fo_cursor := wr_version r\<rparr>) = Some g"
    using run by (auto simp: fold_one_def simp del: emit.simps)
  have "mirror_inv keeps H hi_v (f\<lparr>fo_store := None, fo_cursor := wr_version r\<rparr>)" using inv None by (auto simp: mirror_inv_def)
  then show ?thesis using mirror_same [OF emit_same [OF g(2)]] g(1) by simp
next
  case (Some st)
  then have k: "keeps" "mirrors H hi_v (fo_cursor f) st" using inv by (auto simp: mirror_inv_def split: if_splits)
  then obtain s' where s': "fold_patch say r st = Inr s'" "mirrors H hi_v (wr_version r) s'"
    using mirror_fold [of H pat hi_v "fo_cursor f" st r say] hist r by auto
  then obtain g where g: "s = Inr g" "emit reads (EvRecord r) (f\<lparr>fo_store := Some s', fo_cursor := wr_version r\<rparr>) = Some g"
    using run Some by (auto simp: fold_one_def simp del: emit.simps)
  have "mirror_inv keeps H hi_v (f\<lparr>fo_store := Some s', fo_cursor := wr_version r\<rparr>)" using inv k(1) s'(2) by (simp add: mirror_inv_def)
  then show ?thesis using mirror_same [OF emit_same [OF g(2)]] g(1) by simp
qed

lemma mirror_records:
  assumes hist: "keeps \<longrightarrow> history H pat hi_v" and view: "honest_view keeps H hi_v view"
  shows "mirror_inv keeps H hi_v f \<Longrightarrow>
    keeps \<longrightarrow> (\<forall>r \<in> set rs. wr_version r \<le> hi_v \<and> wr_patch r = pat (wr_version r)) \<Longrightarrow>
    fold_records say reads view rs f = Some (f', res) \<Longrightarrow> mirror_inv keeps H hi_v f'"
proof (induction rs arbitrary: f)
  case Nil
  then show ?case using mirror_publish by auto
next
  case (Cons r rs)
  consider "wr_version r \<le> fo_cursor f" | "fo_cursor f < wr_version r" "wr_version r \<noteq> Suc (fo_cursor f)" | "wr_version r = Suc (fo_cursor f)"
    by linarith
  then show ?case
  proof cases
    case 1
    then show ?thesis using Cons.IH [of f] Cons.prems by simp
  next
    case 2
    then have "recover_gap reads view (fo_cursor f) (wr_version r - 1) f = Some (f', res)" using Cons.prems(3) by simp
    then show ?thesis by (rule mirror_recover [OF hist Cons.prems(1) view])
  next
    case 3
    obtain s where s: "fold_one say reads r f = Some s"
        "(case s of Inl (f, e) \<Rightarrow> Some (f, Inl e) | Inr g \<Rightarrow> fold_records say reads view rs g) = Some (f', res)"
      using Cons.prems(3) unfolding fold_records_next [OF 3] by (auto simp: bind_eq_Some_conv)
    have "case s of Inl (f', e) \<Rightarrow> mirror_inv keeps H hi_v f' | Inr g \<Rightarrow> mirror_inv keeps H hi_v g"
      using mirror_fold_one [OF hist Cons.prems(1) 3 _ s(1)] Cons.prems(2) by auto
    then show ?thesis using s(2) Cons.IH Cons.prems(2) by (auto split: sum.splits)
  qed
qed

lemma mirror_session:
  assumes hist: "keeps \<longrightarrow> history H pat hi_v" and inv: "mirror_inv keeps H hi_v f"
    and hon: "honest keeps H pat hi_v item" "honest_view keeps H hi_v view"
    and run: "session_frame say reads view item f = Some (f', verdict)"
  shows "mirror_inv keeps H hi_v f'"
proof (cases item)
  case None
  then show ?thesis using run inv by (simp add: session_frame_def)
next
  case (Some r)
  show ?thesis
  proof (cases r)
    case (Inl e)
    have "f' = f \<or> f' = f\<lparr>fo_cursor := 0, fo_store := None\<rparr> \<or> \<not> keeps \<and> f' = f\<lparr>fo_mode := Records\<rparr>"
      using run hon(1) Some Inl by (cases e) (auto simp: session_frame_def Let_def split: if_splits)
    then show ?thesis using inv by (auto simp: mirror_inv_def)
  next
    case (Inr m)
    show ?thesis
    proof (cases m)
      case (RecordsFrame i rs)
      then obtain res where "fold_records say reads view rs f = Some (f', res)"
        using run Some Inr by (auto simp: session_frame_def Let_def)
      then show ?thesis using mirror_records [OF hist hon(2) inv] hon(1) Some Inr RecordsFrame by simp
    next
      case (GapFrame i lo hi)
      then obtain res where "recover_gap reads view lo hi f = Some (f', res)"
        using run Some Inr by (auto simp: session_frame_def Let_def)
      then show ?thesis by (rule mirror_recover [OF hist inv hon(2)])
    next
      case (View i v j)
      have v: "keeps" "v \<le> hi_v" "j = doc H v" "history H pat hi_v" using hon(1) hist Some Inr View by simp_all
      obtain x where x: "snapshot_from v j = Inr x" "holds_doc H v x" using snapshot_from_doc [OF v(4,2)] v(3) by blast
      have "\<exists>g. same_but_channel f g \<and> f' = adopt x g"
      proof (cases "fo_store f \<noteq> None \<and> fo_cursor f < snap_version x")
        case True
        then obtain g where "emit reads (EvGap (fo_cursor f) (snap_version x)) f = Some g" "f' = adopt x g"
          using run Some Inr View x(1) by (auto simp: session_frame_def Let_def simp del: emit.simps)
        then show ?thesis using emit_same by blast
      next
        case False
        then have "f' = adopt x f" using run Some Inr View x(1) by (auto simp: session_frame_def Let_def)
        then show ?thesis using same_but_channel_refl by blast
      qed
      then show ?thesis using mirror_adopt [OF v(4) x(2) v(2,1)] inv mirror_same by metis
    qed (use run inv Some Inr in \<open>auto simp: session_frame_def Let_def\<close>)
  qed
qed

lemma follower_step_mirror:
  assumes "follower_step ordered keeps H pat hi_v say b f f'" "keeps \<longrightarrow> history H pat hi_v" "mirror_inv keeps H hi_v f"
  shows "mirror_inv keeps H hi_v f'"
  using assms
proof (induction rule: follower_step.induct)
  case (frame f item view reads f' verdict)
  then show ?case using mirror_session mirror_outcome by metis
next
  case (refused f e)
  then show ?case using mirror_outcome by metis
next
  case (consume f ev q)
  then show ?case by (simp add: mirror_inv_def)
qed

lemma follower_reach_mirror:
  assumes "(follower_step ordered keeps H pat hi_v say b)\<^sup>*\<^sup>* (follower_new credit b) f" "keeps \<longrightarrow> history H pat hi_v"
  shows "mirror_inv keeps H hi_v f"
  using assms(1)
proof (induction rule: rtranclp_induct)
  case base
  show ?case by (auto simp: mirror_inv_def follower_new_def shown_ok_def)
qed (blast intro: follower_step_mirror [OF _ assms(2)])

text \<open>
  The invariant of what is told, where the server keeps to the order: the consumer has been told,
  or is owed, everything from where the follower started; nothing, while it has no view yet.
\<close>

definition told_inv :: "follower \<Rightarrow> bool" where
  "told_inv f \<longleftrightarrow>
     (fo_store f = None \<and> fo_mode f = Reducible \<longrightarrow> fo_read f @ fo_queue f = [] \<and> fo_dropped f = None) \<and>
     (\<exists>c0. told_to c0 f (fo_cursor f))"

definition under_way :: "follower \<Rightarrow> bool" where
  "under_way f \<longleftrightarrow> fo_mode f = Reducible \<longrightarrow> fo_store f \<noteq> None"

lemma told_inv_delay [simp]: "told_inv (f\<lparr>fo_delay := d\<rparr>) = told_inv f"
  by (simp add: told_inv_def)

lemma told_publish: "told_inv f \<Longrightarrow> told_inv (fo_publish status f)"
  by (simp add: told_inv_def fo_publish_def)

lemma told_outcome: "told_inv f \<Longrightarrow> told_inv (run_outcome b verdict f)"
  by (cases verdict) (simp_all add: run_outcome_def told_publish)

lemma told_adopt: "told_to c0 f (snap_version x) \<Longrightarrow> told_inv (adopt x f)"
  by (auto simp: told_inv_def adopt_def fo_publish_def)

lemma told_recover:
  assumes hist: "keeps \<longrightarrow> history H pat hi_v" and view: "honest_view keeps H hi_v view" "view_past (fo_cursor f # seen) view"
    and inv: "told_inv f" "under_way f" and gap: "lo \<le> fo_cursor f" "fo_cursor f \<le> hi"
    and run: "recover_gap reads view lo hi f = Some (f', r)"
  shows "told_inv f'"
proof -
  obtain c0 where told: "told_to c0 f (fo_cursor f)" using inv by (auto simp: told_inv_def)
  show ?thesis
    using run
  proof (cases rule: recover_cases)
    case (plain_log g)
    have "told_to c0 (f\<lparr>fo_cursor := hi\<rparr>) (fo_cursor f)" using told by simp
    from emit_gap_told [OF plain_log(2) this gap] have "told_inv g"
      using plain_log(1) by (auto simp: told_inv_def same_but_channel_def)
    then show ?thesis using plain_log(3) told_publish by simp
  next
    case (refetched v x g)
    have "fo_cursor f \<le> snap_version x"
      using view(2) view_snapshot_doc(3) [OF hist view(1) [unfolded refetched(2)] refetched(3)] refetched(2)
      by (simp add: view_past_def)
    then have "told_to c0 g (snap_version x)" using emit_gap_told [OF refetched(5) told gap(1)] by simp
    then show ?thesis using told_adopt refetched(6) by simp
  qed (simp add: inv)
qed

lemma told_fold_one:
  assumes "told_inv f" "under_way f" and r: "wr_version r = Suc (fo_cursor f)" and run: "fold_one say reads r f = Some s"
  shows "case s of Inl (f', e) \<Rightarrow> told_inv f' | Inr g \<Rightarrow> told_inv g \<and> under_way g \<and> fo_cursor g = wr_version r"
proof (cases s)
  case (Inl fe)
  then show ?thesis using run assms(1) by (auto simp: fold_one_def simp del: emit.simps split: sum.splits)
next
  case (Inr g)
  obtain st where st: "emit reads (EvRecord r) (f\<lparr>fo_store := st, fo_cursor := wr_version r\<rparr>) = Some g"
      "st = None \<longleftrightarrow> fo_store f = None"
    using run Inr by (auto simp: fold_one_def rbind_def simp del: emit.simps split: sum.splits option.splits)
  obtain c0 where "told_to c0 f (fo_cursor f)" using assms(1) by (auto simp: told_inv_def)
  then have "told_to c0 (f\<lparr>fo_store := st, fo_cursor := wr_version r\<rparr>) (fo_cursor f)" by simp
  from emit_record_told [OF st(1) this r] show ?thesis
    using assms(1,2) st(2) r Inr by (auto simp: told_inv_def under_way_def same_but_channel_def)
qed

lemma told_records:
  assumes hist: "keeps \<longrightarrow> history H pat hi_v" and view: "honest_view keeps H hi_v view"
  shows "told_inv f \<Longrightarrow> under_way f \<Longrightarrow> view_past (fo_cursor f # map wr_version rs) view \<Longrightarrow>
    fold_records say reads view rs f = Some (f', res) \<Longrightarrow> told_inv f'"
proof (induction rs arbitrary: f)
  case Nil
  then show ?case using told_publish by auto
next
  case (Cons r rs)
  have past: "view_past (fo_cursor f # map wr_version rs) view" "view_past (wr_version r # map wr_version rs) view"
    using Cons.prems(3) by (auto simp: view_past_def)
  consider "wr_version r \<le> fo_cursor f" | "fo_cursor f < wr_version r" "wr_version r \<noteq> Suc (fo_cursor f)" | "wr_version r = Suc (fo_cursor f)"
    by linarith
  then show ?case
  proof cases
    case 1
    then show ?thesis using Cons.IH [of f] Cons.prems past by simp
  next
    case 2
    then have "recover_gap reads view (fo_cursor f) (wr_version r - 1) f = Some (f', res)" using Cons.prems(4) by simp
    from told_recover [OF hist view past(1) Cons.prems(1,2) _ _ this] 2 show ?thesis by simp
  next
    case 3
    obtain s where s: "fold_one say reads r f = Some s"
        "(case s of Inl (f, e) \<Rightarrow> Some (f, Inl e) | Inr g \<Rightarrow> fold_records say reads view rs g) = Some (f', res)"
      using Cons.prems(4) unfolding fold_records_next [OF 3] by (auto simp: bind_eq_Some_conv)
    show ?thesis using told_fold_one [OF Cons.prems(1,2) 3 s(1)] s(2) Cons.IH past(2) by (auto split: sum.splits)
  qed
qed

lemma told_session:
  assumes hist: "keeps \<longrightarrow> history H pat hi_v" and inv: "mirror_inv keeps H hi_v f" "told_inv f"
    and hon: "honest keeps H pat hi_v item" "honest_view keeps H hi_v view" "in_order view f item"
    and run: "session_frame say reads view item f = Some (f', verdict)"
  shows "told_inv f'"
proof (cases item)
  case None
  then show ?thesis using run inv by (simp add: session_frame_def)
next
  case (Some r)
  obtain c0 where told: "told_to c0 f (fo_cursor f)" using inv by (auto simp: told_inv_def)
  show ?thesis
  proof (cases r)
    case (Inl e)
    have "f' = f \<or> fo_store f = None \<and> f' = f\<lparr>fo_mode := Records\<rparr>"
      using run hon(3) Some Inl by (cases e) (auto simp: session_frame_def Let_def split: if_splits)
    then show ?thesis using inv(2) by (auto simp: told_inv_def)
  next
    case (Inr m)
    show ?thesis
    proof (cases m)
      case (RecordsFrame i rs)
      then obtain res where "fold_records say reads view rs f = Some (f', res)"
        using run Some Inr by (auto simp: session_frame_def Let_def)
      from told_records [OF hist hon(2) inv(2) _ _ this] show ?thesis
        using hon(3) Some Inr RecordsFrame by (simp add: under_way_def)
    next
      case (GapFrame i lo hi)
      then obtain res where "recover_gap reads view lo hi f = Some (f', res)"
        using run Some Inr by (auto simp: session_frame_def Let_def)
      from told_recover [OF hist hon(2) _ inv(2) _ _ _ this, of "[]"] show ?thesis
        using hon(3) Some Inr GapFrame by (simp add: under_way_def)
    next
      case (View i v j)
      have v: "keeps" "v \<le> hi_v" "j = doc H v" "history H pat hi_v" "fo_store f \<noteq> None \<longrightarrow> fo_cursor f \<le> v"
        using hon(1,3) hist Some Inr View by simp_all
      obtain x where x: "snapshot_from v j = Inr x" "holds_doc H v x" using snapshot_from_doc [OF v(4,2)] v(3) by blast
      then have ver: "snap_version x = v" by (simp add: holds_doc_def)
      show ?thesis
      proof (cases "fo_store f \<noteq> None \<and> fo_cursor f < v")
        case True
        then obtain g where g: "emit reads (EvGap (fo_cursor f) v) f = Some g" "f' = adopt x g"
          using run Some Inr View x(1) ver by (auto simp: session_frame_def Let_def)
        have "told_to c0 g v" using emit_gap_told [OF g(1) told] True by simp
        then show ?thesis using told_adopt g(2) ver by simp
      next
        case False
        then have f': "f' = adopt x f" using run Some Inr View x(1) ver by (auto simp: session_frame_def Let_def)
        have "\<exists>c. told_to c f v"
        proof (cases "fo_store f")
          case None
          then have "told_to v f v" using inv v(1) by (auto simp: told_inv_def mirror_inv_def told_to_def)
          then show ?thesis by blast
        next
          case (Some s)
          then show ?thesis using False v(5) told by auto
        qed
        then show ?thesis using told_adopt f' ver by auto
      qed
    qed (use run inv Some Inr in \<open>auto simp: session_frame_def Let_def\<close>)
  qed
qed

lemma follower_step_told:
  assumes "follower_step True keeps H pat hi_v say b f f'" "keeps \<longrightarrow> history H pat hi_v" "mirror_inv keeps H hi_v f" "told_inv f"
  shows "told_inv f'"
  using assms
proof (induction rule: follower_step.induct)
  case (frame f item view reads f' verdict)
  then show ?case using told_session told_outcome by metis
next
  case (refused f e)
  then show ?case using told_outcome by metis
next
  case (consume f ev q)
  then show ?case by (auto simp: told_inv_def told_to_def split: option.splits)
qed

lemma follower_reach_told:
  assumes "(follower_step True keeps H pat hi_v say b)\<^sup>*\<^sup>* (follower_new credit b) f" "keeps \<longrightarrow> history H pat hi_v"
  shows "told_inv f"
  using assms(1)
proof (induction rule: rtranclp_induct)
  case base
  show ?case by (auto simp: told_inv_def follower_new_def told_to_def)
next
  case (step g h)
  then show ?case using follower_step_told [OF step.hyps(2) assms(2) follower_reach_mirror [OF step.hyps(1) assms(2)]] by blast
qed

text \<open>
  Where the server does call a cursor out of range, the follower drops its store and takes
  the next view for a start: no gap is announced between the version it had and the view's.
\<close>

lemma out_of_range_jumps_silently:
  assumes "snapshot_from v j = Inr x"
  shows "session_frame say reads view (Some (Inl (ServerError i OutOfRange m))) f = Some (f\<lparr>fo_cursor := 0, fo_store := None\<rparr>, Restart)"
    and "session_frame say reads view' (Some (Inr (View i' v j))) (f\<lparr>fo_cursor := 0, fo_store := None\<rparr>) =
      Some (adopt x (f\<lparr>fo_cursor := 0, fo_store := None\<rparr>), Continue)"
    and "fo_read (adopt x (f\<lparr>fo_cursor := 0, fo_store := None\<rparr>)) @ fo_queue (adopt x (f\<lparr>fo_cursor := 0, fo_store := None\<rparr>)) =
      fo_read f @ fo_queue f"
  using assms by (simp_all add: session_frame_def adopt_def fo_publish_def)

section \<open>Properties\<close>

text \<open>
  C5: What a follower shows is the log. Start a follower and let its connection do anything:
  break at any frame, resend records, skip them, announce gaps, start over with a view of
  any version, call the cursor out of range, refuse, time out; let the consumer of the events
  stall or read. Whenever the follower publishes a document, it is, at the version it names, the
  document the server's store had at that version, to the last field. Two things are taken as
  given: the server sends views and records of one history and views only of a log that has them
  (\<open>honest\<close>); and no document of that history can be taken for a snapshot or has a field
  \<open>view\<close> (\<open>plain\<close>, in \<open>history\<close>), without which it is false (\<open>documents_taken_for_views\<close>).
\<close>

theorem follower_mirrors_the_log:
  assumes "(follower_step ordered keeps H pat hi_v say b)\<^sup>*\<^sup>* (follower_new credit b) f" "keeps \<longrightarrow> history H pat hi_v"
    and "fs_snapshot (fo_state f) = Some x"
  shows "snap_version x = fs_version (fo_state f) \<and>
    to_json (snap_root x) = to_json (snap_root (store_snapshot (H (fs_version (fo_state f)))))"
  using follower_reach_mirror [OF assms(1,2)] assms(3)
  by (simp add: mirror_inv_def shown_ok_def holds_doc_def doc_def)

text \<open>
  C11: A follower of a log served in order never jumps silently. The events its consumer has
  taken account for every version from where they started to where they end, each by its record
  or inside an announced gap; and what is still to come, in the channel or owed to it because the
  consumer stalled, accounts for the rest up to the follower's cursor. Served in order
  (\<open>in_order\<close>) is: no view behind the follower's cursor, pushed or read; gaps around the
  cursor; and no \<open>OutOfRange\<close>, after which the follower does jump silently
  (\<open>out_of_range_jumps_silently\<close>). Connections may break and resume at any point, and the
  documents are those of C5.
\<close>

theorem follower_announces_gaps:
  assumes "(follower_step True keeps H pat hi_v say b)\<^sup>*\<^sup>* (follower_new credit b) f" "keeps \<longrightarrow> history H pat hi_v"
  shows "\<exists>c0 c1 c2. events_from c0 (fo_read f) c1 \<and> events_from c1 (fo_queue f) c2 \<and>
    (case fo_dropped f of None \<Rightarrow> c2 = fo_cursor f | Some (lo, hi) \<Rightarrow> lo = c2 \<and> lo \<le> hi \<and> hi = fo_cursor f)"
proof -
  obtain c0 where "told_to c0 f (fo_cursor f)" using follower_reach_told [OF assms] by (auto simp: told_inv_def)
  then show ?thesis by (cases "fo_dropped f") (fastforce simp: told_to_def events_from_append)+
qed

text \<open>A history of two versions, and a follower that takes the view of the first and folds the second.\<close>

definition wit_json :: json where
  "wit_json = JObject [(''Create'', JObject [(''a'', JNull)])]"

definition wit_hist :: "version \<Rightarrow> store" where
  "wit_hist v = (if v = 0 then store_new 0 else fst (r_apply (cavlc_ops 0) (store_new 0) wit_patch))"

lemma wit_apply:
  "r_apply (cavlc_ops 0) (store_new 0) wit_patch =
     (wit_hist 1, Inr (Some \<lparr>snap_version = 1, snap_root = VObject (avl_insert Tip ''a'' (VAtom JNull))\<rparr>))"
proof -
  have "snd (r_apply (cavlc_ops 0) (store_new 0) wit_patch) = Inr (Some \<lparr>snap_version = 1, snap_root = VObject (avl_insert Tip ''a'' (VAtom JNull))\<rparr>)"
    by (simp add: wit_patch_def r_apply_def cavlc_ops_def cavlc_commit_def begin_batch_def batch_apply_def apply_batch_def
        store_new_def store_snapshot_def u64_checked_add_def u64_max_def patch_apply_def op_keys_def bt_keys_def
        value_default_def avl_is_empty_def node_def Let_def)
  then show ?thesis by (simp add: wit_hist_def prod_eq_iff)
qed

lemma wit_history: "history wit_hist (\<lambda>_. wit_json) 1"
proof -
  have wf: "patch_wf wit_patch" by (simp add: wit_patch_def bt_wf_def)
  have 0: "cavlc_wf (wit_hist 0)" "snap_version (store_snapshot (wit_hist 0)) = 0" "doc wit_hist 0 = JObject []"
    using cavlc_new_wf [of 0] by (simp_all add: wit_hist_def doc_def store_new_def store_snapshot_def value_default_def)
  note one = cavlc_apply_some [OF 0(1) [unfolded wit_hist_def, simplified] wf wit_apply]
  have 1: "cavlc_wf (wit_hist 1)" "snap_version (store_snapshot (wit_hist 1)) = 1" "doc wit_hist 1 = JObject [(''a'', JNull)]"
    using one by (simp_all add: doc_def node_def)
  have "patch_of_json wit_json = Inr wit_patch" unfolding wit_json_def wit_patch_def by code_simp
  moreover have "plain (JObject [])" "plain (JObject [(''a'', JNull)])" by (simp_all add: plain_def bt_get_def bt_keys_def)
  ultimately have both: "cavlc_wf (wit_hist v) \<and> snap_version (store_snapshot (wit_hist v)) = v \<and> plain (doc wit_hist v)"
    if "v = 0 \<or> v = 1" for v using 0 1 that by metis
  have "v = 0 \<or> v = 1" if "v \<le> 1" for v :: nat using that by linarith
  moreover have "r_apply (cavlc_ops 0) (wit_hist 0) wit_patch = (wit_hist (Suc 0), Inr (Some x))"
    if "x = \<lparr>snap_version = 1, snap_root = VObject (avl_insert Tip ''a'' (VAtom JNull))\<rparr>" for x
    using wit_apply that by (simp add: wit_hist_def)
  ultimately show ?thesis unfolding history_def
    using both wf \<open>patch_of_json wit_json = Inr wit_patch\<close> by (metis less_one)
qed

lemma wit_follow:
  "\<exists>f x. (follower_step ordered True wit_hist (\<lambda>_. wit_json) 1 say b)\<^sup>*\<^sup>* (follower_new 4 b) f \<and> fs_snapshot (fo_state f) = Some x \<and>
     fs_version (fo_state f) = 1 \<and> fo_read f = [] \<and> fo_queue f = [EvRecord \<lparr>wr_version = 1, wr_patch = wit_json\<rparr>] \<and>
     fo_cursor f = 1 \<and> fo_dropped f = None"
proof -
  let ?f0 = "follower_new 4 b" and ?r = "\<lparr>wr_version = 1, wr_patch = wit_json\<rparr>"
  have doc0: "doc wit_hist 0 = JObject []"
    by (simp add: doc_def wit_hist_def store_new_def store_snapshot_def value_default_def)
  obtain x0 where x0: "snapshot_from 0 (JObject []) = Inr x0" "holds_doc wit_hist 0 x0"
    using snapshot_from_doc [OF wit_history, of 0] doc0 by auto
  let ?f1 = "adopt x0 ?f0"
  have "session_frame say False (Inl HubClosed) (Some (Inr (View 7 0 (JObject [])))) ?f0 = Some (?f1, Continue)"
    by (simp add: session_frame_def x0(1) follower_new_def)
  from follower_step.frame [OF _ _ _ _ this, of True wit_hist "\<lambda>_. wit_json" 1 ordered b]
  have 1: "follower_step ordered True wit_hist (\<lambda>_. wit_json) 1 say b ?f0 ?f1"
    by (simp add: honest_view_def follower_new_def doc0 run_outcome_def)
  have v0: "snap_version x0 = 0" using x0(2) by (simp add: holds_doc_def)
  obtain s' where s': "fold_patch say ?r (store_resume 0 x0) = Inr s'" "mirrors wit_hist 1 1 s'"
    using mirror_fold [OF wit_history mirror_resume [OF wit_history _ x0(2)], of ?r say] by auto
  let ?f2 = "fo_publish Live (?f1\<lparr>fo_store := Some s', fo_cursor := 1, fo_queue := [EvRecord ?r]\<rparr>)"
  have "session_frame say False (Inl HubClosed) (Some (Inr (RecordsFrame 7 [?r]))) ?f1 = Some (?f2, Continue)"
    using s'(1) v0 by (simp add: session_frame_def adopt_def fo_publish_def follower_new_def fo_try_send_def)
  from follower_step.frame [OF _ _ _ _ this, of True wit_hist "\<lambda>_. wit_json" 1 ordered b]
  have 2: "follower_step ordered True wit_hist (\<lambda>_. wit_json) 1 say b ?f1 ?f2"
    by (simp add: adopt_def fo_publish_def honest_view_def view_past_def run_outcome_def)
  note into = rtranclp.rtrancl_into_rtrancl [where r = "follower_step ordered True wit_hist (\<lambda>_. wit_json) 1 say b"]
  have "(follower_step ordered True wit_hist (\<lambda>_. wit_json) 1 say b)\<^sup>*\<^sup>* ?f0 ?f2"
    by (rule into [OF into [OF rtranclp.rtrancl_refl 1] 2])
  moreover have "fs_snapshot (fo_state ?f2) = Some (store_snapshot s')" "fs_version (fo_state ?f2) = 1" "fo_read ?f2 = []"
      "fo_queue ?f2 = [EvRecord ?r]" "fo_cursor ?f2 = 1" "fo_dropped ?f2 = None"
    by (simp_all add: fo_publish_def adopt_def follower_new_def)
  ultimately show ?thesis by blast
qed

theorem follower_mirrors_the_log_witness:
  "\<exists>f x. (follower_step True True wit_hist (\<lambda>_. wit_json) 1 (\<lambda>e. []) backoff_default)\<^sup>*\<^sup>* (follower_new 4 backoff_default) f \<and>
     fs_snapshot (fo_state f) = Some x \<and> snap_version x = 1 \<and>
     to_json (snap_root x) = to_json (snap_root (store_snapshot (wit_hist 1)))"
proof -
  obtain f x where f: "(follower_step True True wit_hist (\<lambda>_. wit_json) 1 (\<lambda>e. []) backoff_default)\<^sup>*\<^sup>* (follower_new 4 backoff_default) f"
      "fs_snapshot (fo_state f) = Some x" "fs_version (fo_state f) = 1" using wit_follow by blast
  from follower_mirrors_the_log [OF f(1) impI [OF wit_history] f(2)] f show ?thesis by auto
qed

theorem follower_announces_gaps_witness:
  "\<exists>f c0 c1. (follower_step True True wit_hist (\<lambda>_. wit_json) 1 (\<lambda>e. []) backoff_default)\<^sup>*\<^sup>* (follower_new 4 backoff_default) f \<and>
     events_from c0 (fo_read f) c1 \<and> events_from c1 (fo_queue f) 1 \<and> fo_queue f \<noteq> []"
proof -
  obtain f where f: "(follower_step True True wit_hist (\<lambda>_. wit_json) 1 (\<lambda>e. []) backoff_default)\<^sup>*\<^sup>* (follower_new 4 backoff_default) f"
      "fo_queue f = [EvRecord \<lparr>wr_version = 1, wr_patch = wit_json\<rparr>]" "fo_cursor f = 1" "fo_dropped f = None"
    using wit_follow by blast
  obtain c0 c1 c2 where "events_from c0 (fo_read f) c1" "events_from c1 (fo_queue f) c2" "c2 = fo_cursor f"
    using follower_announces_gaps [OF f(1) impI [OF wit_history]] f(4) by auto
  then show ?thesis using f by (intro exI [of _ f] exI [of _ c0] exI [of _ c1]) simp
qed

text \<open>
  Some documents cannot be followed. The server sends the document itself as the view, but
  the client first tries to take it for a serialized snapshot, and then for the view inside it. A
  document with a field \<open>view\<close> that holds no object is refused, for good; one whose field
  \<open>view\<close> holds an object shows as that object; and one with the two fields of a snapshot shows as
  its field \<open>root\<close>, at the version its field \<open>version\<close> names.
\<close>

theorem documents_taken_for_views:
  "actor_view wit_env (actor_new wit_env (wit_log\<lparr>log_data := store_resume 0 \<lparr>snap_version = 9, snap_root =
       value_of_json (JObject [(''view'', JNull)])\<rparr>\<rparr>) (ring_new 4) 4 0) None = Inr (9, JObject [(''view'', JNull)]) \<and>
   snapshot_from 9 (JObject [(''view'', JNull)]) = Inl (ViewError RootMustBeObject) \<and> fatal (ViewError RootMustBeObject) \<and>
   unwrap_frame 9 (JObject [(''a'', JNull), (''view'', JObject [(''b'', JNull)])]) =
     \<lparr>cv_version = 9, cv_value = JObject [(''b'', JNull)]\<rparr> \<and>
   unwrap_frame 9 (JObject [(''root'', JObject []), (''version'', JInt 3)]) = \<lparr>cv_version = 3, cv_value = JObject []\<rparr>"
proof (intro conjI)
  show "actor_view wit_env (actor_new wit_env (wit_log\<lparr>log_data := store_resume 0 \<lparr>snap_version = 9, snap_root =
       value_of_json (JObject [(''view'', JNull)])\<rparr>\<rparr>) (ring_new 4) 4 0) None = Inr (9, JObject [(''view'', JNull)])"
    by (simp add: actor_view_def actor_new_def wit_env_def log_view_def store_resume_def store_snapshot_def Let_def node_def)
  show "snapshot_from 9 (JObject [(''view'', JNull)]) = Inl (ViewError RootMustBeObject)"
    by (simp add: snapshot_from.simps bt_get_def bt_keys_def snapshot_new_def)
  show "fatal (ViewError RootMustBeObject)" by (simp add: fatal_def)
  show "unwrap_frame 9 (JObject [(''a'', JNull), (''view'', JObject [(''b'', JNull)])]) =
     \<lparr>cv_version = 9, cv_value = JObject [(''b'', JNull)]\<rparr>"
    by (simp add: unwrap_frame_def snapshot_from.simps bt_get_def bt_keys_def snapshot_new_def node_def)
  show "unwrap_frame 9 (JObject [(''root'', JObject []), (''version'', JInt 3)]) = \<lparr>cv_version = 3, cv_value = JObject []\<rparr>"
    by (simp add: unwrap_frame_def snapshot_from.simps bt_get_def bt_keys_def u64_max_def)
qed

text \<open>
  Records in hand are thrown away at a jump. A follower of a plain log that is handed
  versions 5 and 6 when it stands at 2 announces the gap up to 4, as it should, but drops the
  batch with the jump in it; at the next batch it announces 5 and 6 as lost, too.
\<close>

theorem jump_discards_the_batch:
  "let rec = (\<lambda>v. \<lparr>wr_version = v, wr_patch = JNull\<rparr>);
       f = (follower_new 8 backoff_default)\<lparr>fo_mode := Records, fo_cursor := 2\<rparr>;
       take_batch = (\<lambda>rs f. the (session_frame (\<lambda>e. []) True (Inl HubClosed) (Some (Inr (RecordsFrame 7 rs))) f))
   in fo_queue (fst (take_batch [rec 5, rec 6] f)) = [EvGap 2 4] \<and> snd (take_batch [rec 5, rec 6] f) = Continue \<and>
      fo_queue (fst (take_batch [rec 7] (fst (take_batch [rec 5, rec 6] f)))) = [EvGap 2 4, EvGap 4 6]"
  by (simp add: Let_def session_frame_def follower_new_def recover_gap_def fo_try_send_def fo_publish_def)

text \<open>
  A follower nobody reads the events of stops at the first gap it has to announce once its
  channel is full: the gap waits for room that never comes, and the view with it.
\<close>

lemma unread_events_stop_the_view:
  assumes "fo_capacity f \<le> length (fo_queue f)" "fo_store f \<noteq> None" "snapshot_from v j = Inr x" "fo_cursor f < snap_version x"
  shows "session_frame say False view (Some (Inr (View i v j))) f = None"
  using assms by (auto simp: session_frame_def fo_try_send_def Let_def split: list.splits)

end
