(* ===== verification/ClientHttp.thy ===== *)
theory ClientHttp
  imports ClientSub "HOL-Library.Monad_Syntax"
begin

text \<open>
  \<open>crates/lug-client/src/http.rs\<close>: origins, the head of a response, bodies in their three
  framings, the lines of an event stream, calls and streams over one pump. What is left to read
  of a connection is a string of bytes; \<open>utf8\<close> says which bytes are text and \<open>lossy\<close> what
  \<open>from_utf8_lossy\<close> makes of a line; \<open>got n\<close> is how many of \<open>n\<close> waiting bytes one \<open>read\<close> takes.
\<close>

section \<open>Strings\<close>

abbreviation newline :: char where "newline \<equiv> CHR 0x0A"
abbreviation carriage :: char where "carriage \<equiv> CHR 0x0D"

definition crlf :: string where
  "crlf = [carriage, newline]"

definition trim_end :: "string \<Rightarrow> string" where
  "trim_end s = rev (dropWhile is_space (rev s))"

fun split_first :: "char \<Rightarrow> string \<Rightarrow> string" where
  "split_first c [] = []"
| "split_first c (x # xs) = (if x = c then [] else x # split_first c xs)"

fun split_once :: "char \<Rightarrow> string \<Rightarrow> (string \<times> string) option" where
  "split_once c [] = None"
| "split_once c (x # xs) = (if x = c then Some ([], xs) else map_option (\<lambda>(a, b). (x # a, b)) (split_once c xs))"

fun words_of :: "string \<Rightarrow> string \<Rightarrow> string list" where
  "words_of acc [] = (if acc = [] then [] else [acc])"
| "words_of acc (x # xs) =
     (if is_space x then (if acc = [] then words_of [] xs else acc # words_of [] xs) else words_of (acc @ [x]) xs)"

text \<open>Whether a string occurs in another, \<open>str::contains\<close>.\<close>

fun str_contains :: "string \<Rightarrow> string \<Rightarrow> bool" where
  "str_contains pat [] = (pat = [])"
| "str_contains pat (x # xs) = (strip_prefix pat (x # xs) \<noteq> None \<or> str_contains pat xs)"

section \<open>Endpoints and queries\<close>

record endpoint =
  ep_authority :: string
  ep_token :: string

definition endpoint_parse :: "string \<Rightarrow> string \<Rightarrow> client_error + endpoint" where
  "endpoint_parse base token =
     (case strip_prefix ''http://'' base of
        None \<Rightarrow> Inl (HttpError (base @ '' is not an http:// origin''))
      | Some rest \<Rightarrow>
          let authority = split_first (CHR ''/'') (rev (dropWhile ((=) (CHR ''/'')) (rev rest)))
          in if authority = [] then Inl (HttpError (base @ '' has no host''))
             else Inr \<lparr>ep_authority = (if CHR '':'' \<in> set authority then authority else authority @ '':80''), ep_token = token\<rparr>)"

definition is_unreserved :: "char \<Rightarrow> bool" where
  "is_unreserved c \<longleftrightarrow> is_ascii_alphanumeric c \<or> c \<in> {CHR ''-'', CHR ''_'', CHR ''.'', CHR ''~''}"

definition upper_hex :: "nat \<Rightarrow> char" where
  "upper_hex n = (if n < 10 then char_of (48 + n) else char_of (55 + n))"

definition escape_char :: "char \<Rightarrow> string" where
  "escape_char c =
     (if is_unreserved c then [c]
      else [CHR ''%'', upper_hex (of_char c div 16), upper_hex (of_char c mod 16)])"

definition escape :: "string \<Rightarrow> string" where
  "escape s = concat (map escape_char s)"

definition stream_query :: "id \<Rightarrow> string \<Rightarrow> version \<Rightarrow> mode \<Rightarrow> nat \<Rightarrow> string" where
  "stream_query i log_name from_version m credit =
     ''id='' @ dec_digits i @ ''&log='' @ escape log_name @ ''&from='' @ dec_digits from_version @ ''&mode='' @
     (case m of Records \<Rightarrow> ''records'' | Reducible \<Rightarrow> ''reducible'') @ ''&credit='' @ dec_digits credit"

definition stream_request :: "endpoint \<Rightarrow> string \<Rightarrow> string" where
  "stream_request ep query =
     ''GET /v1/stream?'' @ query @ '' HTTP/1.1'' @ crlf @ ''host: '' @ ep_authority ep @ crlf @
     ''authorization: Bearer '' @ ep_token ep @ crlf @ ''accept: text/event-stream'' @ crlf @ crlf"

definition call_request :: "endpoint \<Rightarrow> string option \<Rightarrow> nat \<Rightarrow> string" where
  "call_request ep session len =
     ''POST /v1/call HTTP/1.1'' @ crlf @ ''host: '' @ ep_authority ep @ crlf @
     ''authorization: Bearer '' @ ep_token ep @ crlf @ ''content-type: application/json'' @ crlf @
     ''content-length: '' @ dec_digits len @ crlf @
     (case session of None \<Rightarrow> [] | Some s \<Rightarrow> ''x-lug-session: '' @ s @ crlf) @ ''connection: close'' @ crlf @ crlf"

section \<open>Lines and heads\<close>

text \<open>\<open>read_line\<close>: the line with its newline, shorter at the end of the connection.\<close>

fun take_line :: "string \<Rightarrow> string \<times> string" where
  "take_line [] = ([], [])"
| "take_line (c # cs) = (if c = newline then ([c], cs) else (case take_line cs of (l, rest) \<Rightarrow> (c # l, rest)))"

definition read_line :: "(string \<Rightarrow> bool) \<Rightarrow> string \<Rightarrow> string \<times> (client_error + string)" where
  "read_line utf8 input =
     (case take_line input of
        (l, rest) \<Rightarrow> (rest, if utf8 l then Inr l else Inl (IoFailed ''stream did not contain valid UTF-8'')))"

lemma take_line_length: "take_line input = (l, rest) \<Longrightarrow> input = l @ rest \<and> (input \<noteq> [] \<longrightarrow> l \<noteq> [])"
  by (induction input arbitrary: l rest) (auto split: if_splits prod.splits)

record http_head =
  hd_status :: nat
  hd_chunked :: bool
  hd_length :: "nat option"

definition status_of :: "string \<Rightarrow> nat option" where
  "status_of l = (case words_of [] l of _ # s # _ \<Rightarrow> parse_unsigned 65535 s | _ \<Rightarrow> None)"

definition header_line :: "string \<Rightarrow> http_head \<Rightarrow> http_head" where
  "header_line l h =
     (case split_once (CHR '':'') l of
        None \<Rightarrow> h
      | Some (name, v) \<Rightarrow>
          let name = to_ascii_lowercase (trim name); v = trim v
          in if name = ''content-length'' then h\<lparr>hd_length := parse_unsigned u64_max v\<rparr>
             else if name = ''transfer-encoding'' then h\<lparr>hd_chunked := str_contains ''chunked'' (to_ascii_lowercase v)\<rparr>
             else h)"

lemma read_line_length: "read_line utf8 input = (rest, Inr l) \<Longrightarrow> l \<noteq> [] \<Longrightarrow> length rest < length input"
  by (auto simp: read_line_def split: prod.splits if_splits dest: take_line_length)

function read_headers :: "(string \<Rightarrow> bool) \<Rightarrow> http_head \<Rightarrow> string \<Rightarrow> string \<times> (client_error + http_head)" where
  "read_headers utf8 h input =
     (case read_line utf8 input of
        (rest, Inl e) \<Rightarrow> (rest, Inl e)
      | (rest, Inr l) \<Rightarrow>
          if l = [] then (rest, Inl (HttpError ''headers truncated''))
          else if trim_end l = [] then (rest, Inr h)
          else read_headers utf8 (header_line (trim_end l) h) rest)"
  by pat_completeness auto

termination
  by (relation "measure (\<lambda>(utf8, h, input). length input)") (auto dest: read_line_length [OF sym])

declare read_headers.simps [simp del]

definition read_head :: "(string \<Rightarrow> bool) \<Rightarrow> (string \<Rightarrow> string) \<Rightarrow> string \<Rightarrow> string \<times> (client_error + http_head)" where
  "read_head utf8 debug input =
     (case read_line utf8 input of
        (rest, Inl e) \<Rightarrow> (rest, Inl e)
      | (rest, Inr l) \<Rightarrow>
          if l = [] then (rest, Inl (HttpError ''server closed before replying''))
          else case status_of l of
              None \<Rightarrow> (rest, Inl (HttpError (''bad status line '' @ debug l)))
            | Some status \<Rightarrow> read_headers utf8 \<lparr>hd_status = status, hd_chunked = False, hd_length = None\<rparr> rest)"

section \<open>Bodies\<close>

text \<open>\<open>usize::from_str_radix(_, 16)\<close>.\<close>

definition hex_value :: "char \<Rightarrow> nat option" where
  "hex_value c =
     (let n = (of_char c :: nat) in
      if 48 \<le> n \<and> n \<le> 57 then Some (n - 48)
      else if 97 \<le> n \<and> n \<le> 102 then Some (n - 87)
      else if 65 \<le> n \<and> n \<le> 70 then Some (n - 55)
      else None)"

fun hex_digits_value :: "nat \<Rightarrow> string \<Rightarrow> nat option" where
  "hex_digits_value acc [] = Some acc"
| "hex_digits_value acc (c # cs) = Option.bind (hex_value c) (\<lambda>d. hex_digits_value (acc * 16 + d) cs)"

definition parse_hex :: "string \<Rightarrow> nat option" where
  "parse_hex s =
     (let digits = (case s of CHR ''+'' # rest \<Rightarrow> rest | _ \<Rightarrow> s) in
      if digits = [] then None
      else Option.bind (hex_digits_value 0 digits) (\<lambda>n. if n \<le> u64_max then Some n else None))"

record body =
  bd_input :: string
  bd_chunked :: bool
  bd_remaining :: "nat option"
  bd_buf :: string
  bd_done :: bool

definition body_new :: "string \<Rightarrow> bool \<Rightarrow> nat option \<Rightarrow> body" where
  "body_new input chunked len =
     \<lparr>bd_input = input, bd_chunked = chunked, bd_remaining = len, bd_buf = [], bd_done = False\<rparr>"

text \<open>\<open>read_exact\<close> of \<open>n\<close> bytes.\<close>

definition read_exact :: "nat \<Rightarrow> string \<Rightarrow> (string \<times> string) option" where
  "read_exact n input = (if length input < n then None else Some (take n input, drop n input))"

definition early_eof :: client_error where
  "early_eof = IoFailed ''early eof''"

text \<open>
  How a reader stops short: with an error, or in a panic, which \<open>Vec::resize\<close> is when it is asked
  for more than \<open>isize::MAX\<close> bytes.
\<close>

datatype stop = Fails client_error | Panics

definition isize_max :: nat where
  "isize_max = 9223372036854775807"

definition body_fill ::
    "(string \<Rightarrow> bool) \<Rightarrow> (string \<Rightarrow> string) \<Rightarrow> (nat \<Rightarrow> nat) \<Rightarrow> body \<Rightarrow> body \<times> (stop + bool)" where
  "body_fill utf8 debug got b =
     (if bd_done b then (b, Inr False)
      else if bd_chunked b
      then case read_line utf8 (bd_input b) of
          (rest, Inl e) \<Rightarrow> (b\<lparr>bd_input := rest\<rparr>, Inl (Fails e))
        | (rest, Inr header) \<Rightarrow>
            if header = [] then (b\<lparr>bd_input := rest, bd_done := True\<rparr>, Inr False)
            else case parse_hex (trim (split_first (CHR '';'') (trim header))) of
                None \<Rightarrow> (b\<lparr>bd_input := rest\<rparr>, Inl (Fails (HttpError (''bad chunk size '' @ debug header))))
              | Some n \<Rightarrow>
                  if n = 0 then (b\<lparr>bd_input := rest, bd_done := True\<rparr>, Inr False)
                  else if isize_max < length (bd_buf b) + n then (b\<lparr>bd_input := rest\<rparr>, Inl Panics)
                  else case read_exact n rest of
                      None \<Rightarrow> (b\<lparr>bd_input := []\<rparr>, Inl (Fails early_eof))
                    | Some (data, rest2) \<Rightarrow>
                        (case read_exact 2 rest2 of
                           None \<Rightarrow> (b\<lparr>bd_input := [], bd_buf := bd_buf b @ data\<rparr>, Inl (Fails early_eof))
                         | Some (_, rest3) \<Rightarrow> (b\<lparr>bd_input := rest3, bd_buf := bd_buf b @ data\<rparr>, Inr True))
      else case bd_remaining b of
          Some 0 \<Rightarrow> (b\<lparr>bd_done := True\<rparr>, Inr False)
        | Some left_bytes \<Rightarrow>
            if isize_max < length (bd_buf b) + left_bytes then (b, Inl Panics)
            else (case read_exact left_bytes (bd_input b) of
               None \<Rightarrow> (b\<lparr>bd_input := []\<rparr>, Inl (Fails early_eof))
             | Some (data, rest) \<Rightarrow> (b\<lparr>bd_input := rest, bd_buf := bd_buf b @ data, bd_remaining := Some 0\<rparr>, Inr True))
        | None \<Rightarrow>
            (let n = min (max 1 (got (length (bd_input b)))) (min 4096 (length (bd_input b))) in
             if n = 0 then (b\<lparr>bd_done := True\<rparr>, Inr False)
             else (b\<lparr>bd_input := drop n (bd_input b), bd_buf := bd_buf b @ take n (bd_input b)\<rparr>, Inr True)))"

text \<open>The two loops over \<open>fill\<close>. That they end is proved, not built in.\<close>

partial_function (option) body_read_all ::
    "(string \<Rightarrow> bool) \<Rightarrow> (string \<Rightarrow> string) \<Rightarrow> (nat \<Rightarrow> nat) \<Rightarrow> body \<Rightarrow> (body \<times> (stop + string)) option" where
  "body_read_all utf8 debug got b =
     (case body_fill utf8 debug got b of
        (b', Inl e) \<Rightarrow> Some (b', Inl e)
      | (b', Inr filled) \<Rightarrow>
          if filled then body_read_all utf8 debug got b' else Some (b'\<lparr>bd_buf := []\<rparr>, Inr (bd_buf b')))"

partial_function (option) body_next_line ::
    "(string \<Rightarrow> bool) \<Rightarrow> (string \<Rightarrow> string) \<Rightarrow> (string \<Rightarrow> string) \<Rightarrow> (nat \<Rightarrow> nat) \<Rightarrow> body \<Rightarrow>
     (body \<times> (stop + string option)) option" where
  "body_next_line utf8 debug lossy got b =
     (if newline \<in> set (bd_buf b)
      then (case take_line (bd_buf b) of
          (l, rest) \<Rightarrow> Some (b\<lparr>bd_buf := rest\<rparr>, Inr (Some (trim_end (lossy l)))))
      else (case body_fill utf8 debug got b of
          (b', Inl e) \<Rightarrow> Some (b', Inl e)
        | (b', Inr filled) \<Rightarrow> if filled then body_next_line utf8 debug lossy got b' else Some (b', Inr None)))"

text \<open>A fill that went well took something off the connection.\<close>

lemma body_fill_shorter:
  "body_fill utf8 debug got b = (b', Inr True) \<Longrightarrow> length (bd_input b') < length (bd_input b)"
  by (auto simp: body_fill_def read_exact_def Let_def split: if_splits prod.splits sum.splits option.splits nat.splits
      dest!: read_line_length)

lemma body_read_all_ends: "\<exists>r. body_read_all utf8 debug got b = Some r"
proof (induction "length (bd_input b)" arbitrary: b rule: less_induct)
  case less
  obtain b' r where f: "body_fill utf8 debug got b = (b', r)" by (cases "body_fill utf8 debug got b")
  show ?case
  proof (cases "r = Inr True")
    case True
    with f have "body_fill utf8 debug got b = (b', Inr True)" by simp
    from less [OF body_fill_shorter [OF this]] this show ?thesis by (subst body_read_all.simps) simp
  next
    case False
    then show ?thesis using f by (subst body_read_all.simps) (auto split: sum.splits bool.splits)
  qed
qed

lemma body_fill_buf:
  "body_fill utf8 debug got b = (b', Inr True) \<Longrightarrow>
    length (bd_input b') + length (bd_buf b') \<le> length (bd_input b) + length (bd_buf b)"
  by (auto simp: body_fill_def read_exact_def read_line_def Let_def split: if_splits prod.splits sum.splits option.splits nat.splits
      dest!: take_line_length)

lemma body_next_line_ends:
  "\<exists>b' r. body_next_line utf8 debug lossy got b = Some (b', r) \<and>
    (\<forall>l. r = Inr (Some l) \<longrightarrow> length (bd_input b') + length (bd_buf b') < length (bd_input b) + length (bd_buf b))"
proof (induction "length (bd_input b)" arbitrary: b rule: less_induct)
  case less
  show ?case
  proof (cases "newline \<in> set (bd_buf b)")
    case True
    obtain l rest where l: "take_line (bd_buf b) = (l, rest)" by (cases "take_line (bd_buf b)")
    then have "length rest < length (bd_buf b)" using take_line_length [OF l] True by (cases "bd_buf b") auto
    then show ?thesis using True l by (subst body_next_line.simps) simp
  next
    case False
    obtain b' r where f: "body_fill utf8 debug got b = (b', r)" by (cases "body_fill utf8 debug got b")
    show ?thesis
    proof (cases "r = Inr True")
      case True
      with f have "body_fill utf8 debug got b = (b', Inr True)" by simp
      from less [OF body_fill_shorter [OF this]] obtain b2 r2 where ih: "body_next_line utf8 debug lossy got b' = Some (b2, r2)"
        "\<forall>l. r2 = Inr (Some l) \<longrightarrow> length (bd_input b2) + length (bd_buf b2) < length (bd_input b') + length (bd_buf b')"
        by blast
      then have "body_next_line utf8 debug lossy got b = Some (b2, r2)" using f False True by (subst body_next_line.simps) simp
      moreover have "length (bd_input b') + length (bd_buf b') \<le> length (bd_input b) + length (bd_buf b)"
        using body_fill_buf f True by blast
      ultimately show ?thesis using ih(2) by fastforce
    next
      case no: False
      then show ?thesis using f False by (subst body_next_line.simps) (auto split: sum.splits bool.splits)
    qed
  qed
qed

section \<open>Streams and calls\<close>

text \<open>
  \<open>StreamTask::read\<close> once the head is in: the frames passed on, the session announced, and how it
  ended. \<open>of_str\<close> is serde_json; the receiving end takes \<open>room\<close> more frames before it is gone.
\<close>

definition announced :: "string option \<Rightarrow> response \<Rightarrow> string option" where
  "announced session frame = (case frame of Welcome _ _ _ (Some name) \<Rightarrow> Some name | _ \<Rightarrow> session)"

partial_function (option) sse_loop ::
    "(string \<Rightarrow> bool) \<Rightarrow> (string \<Rightarrow> string) \<Rightarrow> (string \<Rightarrow> string) \<Rightarrow> (nat \<Rightarrow> nat) \<Rightarrow> (string \<Rightarrow> string + response) \<Rightarrow>
     nat \<Rightarrow> response list \<Rightarrow> string option \<Rightarrow> body \<Rightarrow> (response list \<times> string option \<times> (stop + unit)) option" where
  "sse_loop utf8 debug lossy got of_str room sent session b =
     Option.bind (body_next_line utf8 debug lossy got b) (\<lambda>(b, r).
       case r of
         Inl e \<Rightarrow> Some (sent, session, Inl e)
       | Inr None \<Rightarrow> Some (sent, session, Inl (Fails (HttpError ''stream closed by the server'')))
       | Inr (Some l) \<Rightarrow>
           (case strip_prefix ''data:'' l of
              None \<Rightarrow> sse_loop utf8 debug lossy got of_str room sent session b
            | Some data \<Rightarrow>
                (case of_str (trim data) of
                   Inl e \<Rightarrow> Some (sent, session, Inl (Fails (HttpError (''bad sse frame: '' @ e))))
                 | Inr frame \<Rightarrow>
                     if room = 0 then Some (sent, announced session frame, Inr ())
                     else sse_loop utf8 debug lossy got of_str (room - 1) (sent @ [frame]) (announced session frame) b)))"

definition stream_read ::
    "(string \<Rightarrow> bool) \<Rightarrow> (string \<Rightarrow> string) \<Rightarrow> (string \<Rightarrow> string) \<Rightarrow> (nat \<Rightarrow> nat) \<Rightarrow> (string \<Rightarrow> string + response) \<Rightarrow>
     nat \<Rightarrow> string \<Rightarrow> (response list \<times> string option \<times> (stop + unit)) option" where
  "stream_read utf8 debug lossy got of_str room input =
     (case read_head utf8 debug input of
        (rest, Inl e) \<Rightarrow> Some ([], None, Inl (Fails e))
      | (rest, Inr h) \<Rightarrow>
          if hd_status h \<noteq> 200
          then Some ([], None, Inl (Fails (HttpError (''stream refused with status '' @ dec_digits (hd_status h)))))
          else sse_loop utf8 debug lossy got of_str room [] None (body_new rest (hd_chunked h) (hd_length h)))"

text \<open>\<open>call\<close> once the request is written: the answer of the server as it reads it.\<close>

definition call_reply ::
    "(string \<Rightarrow> bool) \<Rightarrow> (string \<Rightarrow> string) \<Rightarrow> (string \<Rightarrow> string) \<Rightarrow> (nat \<Rightarrow> nat) \<Rightarrow> (string \<Rightarrow> string + response) \<Rightarrow>
     string \<Rightarrow> (stop + response option) option" where
  "call_reply utf8 debug lossy got of_slice input =
     (case read_head utf8 debug input of
        (rest, Inl e) \<Rightarrow> Some (Inl (Fails e))
      | (rest, Inr h) \<Rightarrow>
          Option.bind (body_read_all utf8 debug got (body_new rest (hd_chunked h) (hd_length h))) (\<lambda>(b, r).
            Some (case r of
              Inl e \<Rightarrow> Inl e
            | Inr bytes \<Rightarrow>
                if hd_status h \<noteq> 200 then Inl (Fails (HttpError (''status '' @ dec_digits (hd_status h) @ '': '' @ lossy bytes)))
                else if bytes = [] then Inr None
                else map_err (\<lambda>e. Fails (HttpError (''bad reply: '' @ e))) (rbind (of_slice bytes) (\<lambda>r. Inr (Some r))))))"

text \<open>
  The pump's state: the sessions its streams announced, what reached the connection above, and
  whether the wire is dead. A call that failed and a stream that ended in an error kill it; a task
  that panicked is gone without a word.
\<close>

record pump =
  pm_sessions :: "(id, string) btree_map"
  pm_inbound :: "response list"
  pm_dead :: bool

definition pump_call :: "stop + response option \<Rightarrow> pump \<Rightarrow> pump" where
  "pump_call outcome p =
     (case outcome of
        Inr (Some reply) \<Rightarrow> p\<lparr>pm_inbound := pm_inbound p @ [reply]\<rparr>
      | Inr None \<Rightarrow> p
      | Inl (Fails e) \<Rightarrow> p\<lparr>pm_dead := True\<rparr>
      | Inl Panics \<Rightarrow> p)"

definition pump_stream :: "id \<Rightarrow> response list \<times> string option \<times> (stop + unit) \<Rightarrow> pump \<Rightarrow> pump" where
  "pump_stream i outcome p =
     (case outcome of
        (sent, session, r) \<Rightarrow>
          let p = p\<lparr>pm_inbound := pm_inbound p @ sent,
              pm_sessions := (case session of None \<Rightarrow> pm_sessions p | Some name \<Rightarrow> bt_insert i name (pm_sessions p))\<rparr>
          in case r of
              Inl (Fails e) \<Rightarrow> p\<lparr>pm_dead := True, pm_sessions := bt_remove i (pm_sessions p)\<rparr>
            | Inl Panics \<Rightarrow> p
            | Inr _ \<Rightarrow> p\<lparr>pm_sessions := bt_remove i (pm_sessions p)\<rparr>)"

text \<open>The session header a request goes out with: that of its stream, for \<open>Credit\<close> and \<open>Cancel\<close>.\<close>

definition needs_session :: "request \<Rightarrow> bool" where
  "needs_session req \<longleftrightarrow> (case req of Credit _ _ \<Rightarrow> True | Cancel _ \<Rightarrow> True | _ \<Rightarrow> False)"

definition call_session :: "request \<Rightarrow> pump \<Rightarrow> string option" where
  "call_session req p = (if needs_session req then bt_get (pm_sessions p) (req_id req) else None)"

lemma sse_loop_ends: "\<exists>r. sse_loop utf8 debug lossy got of_str room sent session b = Some r"
proof (induction "length (bd_input b) + length (bd_buf b)" arbitrary: b room sent session rule: less_induct)
  case less
  obtain b' r where n: "body_next_line utf8 debug lossy got b = Some (b', r)"
      and short: "\<forall>l. r = Inr (Some l) \<longrightarrow> length (bd_input b') + length (bd_buf b') < length (bd_input b) + length (bd_buf b)"
    using body_next_line_ends by blast
  show ?case
  proof (cases "\<exists>l. r = Inr (Some l)")
    case True
    then obtain l where l: "r = Inr (Some l)" by blast
    then have ih: "\<exists>r. sse_loop utf8 debug lossy got of_str room sent session b' = Some r" for room sent session
      using less short by blast
    show ?thesis
    proof (cases "strip_prefix ''data:'' l")
      case None
      then show ?thesis using n l ih by (subst sse_loop.simps) simp
    next
      case (Some data)
      then show ?thesis using n l ih by (subst sse_loop.simps) (simp add: Let_def split: sum.splits)
    qed
  next
    case False
    then show ?thesis using n by (subst sse_loop.simps) (auto split: sum.splits option.splits)
  qed
qed

section \<open>Framing\<close>

text \<open>The chunked encoding of a body: each chunk after its length in hexadecimal, then a last one of none.\<close>

fun hex_of :: "nat \<Rightarrow> string" where
  "hex_of n = (if n < 16 then [hex_digit n] else hex_of (n div 16) @ [hex_digit (n mod 16)])"

declare hex_of.simps [simp del]

definition chunk_text :: "string \<Rightarrow> string" where
  "chunk_text c = hex_of (length c) @ crlf @ c @ crlf"

definition chunked_text :: "string list \<Rightarrow> string" where
  "chunked_text cs = concat (map chunk_text cs) @ ''0'' @ crlf @ crlf"

lemma hex_digit_facts:
  "n < 16 \<Longrightarrow> hex_value (hex_digit n) = Some n \<and> \<not> is_space (hex_digit n) \<and> hex_digit n \<notin> {newline, CHR '';'', CHR ''+''}"
proof -
  assume "n < 16"
  then have "n \<in> set [0..<16]" by simp
  moreover have "[0..<16] = [0, 1, 2, 3, 4, 5, 6, 7] @ [8, 9, 10, 11, 12, 13, 14, 15 :: nat]" by (simp add: upt_rec)
  ultimately show ?thesis by (simp only: set_append list.set Un_iff insert_iff empty_iff, elim disjE FalseE; simp only:; code_simp)
qed

lemma hex_of_chars: "c \<in> set (hex_of n) \<Longrightarrow> \<not> is_space c \<and> c \<notin> {newline, CHR '';'', CHR ''+''}"
proof (induction n rule: hex_of.induct)
  case (1 n)
  then show ?case using hex_digit_facts [of n] hex_digit_facts [of "n mod 16"]
    by (cases "n < 16") (auto simp: hex_of.simps [of n])
qed

lemma hex_of_not_Nil [simp]: "hex_of n \<noteq> []"
  by (cases "n < 16") (simp_all add: hex_of.simps [of n])

lemma hex_digits_value_append:
  "hex_digits_value acc (xs @ ys) = Option.bind (hex_digits_value acc xs) (\<lambda>a. hex_digits_value a ys)"
proof (induction xs arbitrary: acc)
  case (Cons c cs)
  then show ?case by (cases "hex_value c") simp_all
qed simp

lemma hex_digits_value_of: "hex_digits_value 0 (hex_of n) = Some n"
proof (induction n rule: hex_of.induct)
  case (1 n)
  then show ?case using hex_digit_facts [of n] hex_digit_facts [of "n mod 16"]
    by (cases "n < 16") (auto simp: hex_of.simps [of n] hex_digits_value_append)
qed

lemma parse_hex_of: "n \<le> u64_max \<Longrightarrow> parse_hex (hex_of n) = Some n"
proof -
  assume n: "n \<le> u64_max"
  obtain c cs where h: "hex_of n = c # cs" by (cases "hex_of n") auto
  then have "c \<noteq> CHR ''+''" using hex_of_chars [of c n] by simp
  then have "(case hex_of n of CHR ''+'' # rest \<Rightarrow> rest | _ \<Rightarrow> hex_of n) = hex_of n" by (simp add: h split: char.splits bool.splits)
  then show ?thesis using n by (simp add: parse_hex_def hex_digits_value_of)
qed

lemma take_line_split: "newline \<notin> set l \<Longrightarrow> take_line (l @ newline # rest) = (l @ [newline], rest)"
  by (induction l) auto

lemma split_first_absent: "c \<notin> set s \<Longrightarrow> split_first c s = s"
  by (induction s) auto

lemma trim_line: "s \<noteq> [] \<Longrightarrow> \<forall>c \<in> set s. \<not> is_space c \<Longrightarrow> trim (s @ crlf) = s"
proof -
  assume s: "s \<noteq> []" "\<forall>c \<in> set s. \<not> is_space c"
  have "dropWhile is_space (s @ crlf) = s @ crlf" using s by (cases s) auto
  moreover have "dropWhile is_space (rev (s @ crlf)) = rev s" using s by (cases s rule: rev_cases) (auto simp: crlf_def is_space_def)
  ultimately show ?thesis by (simp add: trim_def)
qed

lemma trim_no_space: "\<forall>c \<in> set s. \<not> is_space c \<Longrightarrow> trim s = s"
  by (rule trim_id) (cases s; auto)

text \<open>A chunked body that has still to show \<open>text\<close>.\<close>

definition shows_text :: "body \<Rightarrow> string \<Rightarrow> bool" where
  "shows_text b s \<longleftrightarrow> bd_chunked b \<and> \<not> bd_done b \<and>
     (\<exists>cs. bd_input b = chunked_text cs \<and> [] \<notin> set cs \<and> bd_buf b @ concat cs = s \<and> length s \<le> isize_max)"

lemma read_hex_line:
  "utf8 (hex_of n @ crlf) \<Longrightarrow> read_line utf8 (hex_of n @ crlf @ rest) = (rest, Inr (hex_of n @ crlf))"
proof -
  assume u: "utf8 (hex_of n @ crlf)"
  have "newline \<notin> set (hex_of n @ [carriage])" using hex_of_chars [of newline n] by auto
  from take_line_split [OF this, of rest] u show ?thesis by (simp add: read_line_def crlf_def)
qed

lemma chunk_header: "n \<le> u64_max \<Longrightarrow> parse_hex (trim (split_first (CHR '';'') (trim (hex_of n @ crlf)))) = Some n"
proof -
  assume "n \<le> u64_max"
  moreover have "split_first (CHR '';'') (hex_of n) = hex_of n" using hex_of_chars by (intro split_first_absent) auto
  moreover have "trim (hex_of n @ crlf) = hex_of n" "trim (hex_of n) = hex_of n"
    using hex_of_chars [of _ n] trim_line [of "hex_of n"] trim_no_space by auto
  ultimately show ?thesis by (simp add: parse_hex_of)
qed

lemma fill_chunk:
  assumes "bd_chunked b" "\<not> bd_done b" "bd_input b = chunked_text (c # cs)" "c \<noteq> []"
    and "length (bd_buf b) + length c \<le> isize_max" "\<forall>n. utf8 (hex_of n @ crlf)"
  shows "body_fill utf8 debug got b = (b\<lparr>bd_input := chunked_text cs, bd_buf := bd_buf b @ c\<rparr>, Inr True)"
proof -
  have line: "read_line utf8 (chunked_text (c # cs)) = (c @ crlf @ chunked_text cs, Inr (hex_of (length c) @ crlf))"
    using read_hex_line [of utf8 "length c" "c @ crlf @ chunked_text cs"] assms(6)
    by (simp add: chunked_text_def chunk_text_def)
  have "length c \<le> u64_max" using assms(5) by (simp add: isize_max_def u64_max_def)
  then show ?thesis using assms chunk_header [of "length c"]
    by (simp add: body_fill_def line read_exact_def crlf_def)
qed

lemma fill_last:
  assumes "bd_chunked b" "\<not> bd_done b" "bd_input b = chunked_text []" "\<forall>n. utf8 (hex_of n @ crlf)"
  shows "\<exists>b'. body_fill utf8 debug got b = (b', Inr False) \<and> bd_buf b' = bd_buf b"
proof -
  have "hex_of 0 = ''0''" by (simp add: hex_of.simps) code_simp
  then have "read_line utf8 (chunked_text []) = (crlf, Inr (hex_of 0 @ crlf))"
    using read_hex_line [of utf8 0 crlf] spec [OF assms(4), of 0] by (simp add: chunked_text_def)
  then show ?thesis using assms chunk_header [of 0] by (simp add: body_fill_def)
qed

lemma next_line_text:
  assumes "shows_text b (l @ newline # rest)" "newline \<notin> set l" "\<forall>n. utf8 (hex_of n @ crlf)"
  shows "\<exists>b'. body_next_line utf8 debug lossy got b = Some (b', Inr (Some (trim_end (lossy (l @ [newline]))))) \<and> shows_text b' rest"
proof -
  obtain cs where cs: "bd_chunked b" "\<not> bd_done b" "bd_input b = chunked_text cs"
      "[] \<notin> set cs" "bd_buf b @ concat cs = l @ newline # rest" "length (bd_buf b @ concat cs) \<le> isize_max"
    using assms(1) by (auto simp: shows_text_def)
  then show ?thesis
  proof (induction cs arbitrary: b)
    case Nil
    then have buf: "bd_buf b = l @ newline # rest" by simp
    then show ?case using Nil assms(2)
      by (subst body_next_line.simps) (auto simp: take_line_split shows_text_def)
  next
    case (Cons c cs)
    show ?case
    proof (cases "newline \<in> set (bd_buf b)")
      case True
      then obtain l2 r2 where buf: "bd_buf b = l2 @ newline # r2" "newline \<notin> set l2" by (meson split_list_first)
      have "l2 @ newline # (r2 @ concat (c # cs)) = l @ newline # rest" using Cons.prems(5) buf(1) by simp
      then have "(l2 @ [newline], r2 @ concat (c # cs)) = (l @ [newline], rest)"
        using take_line_split [OF buf(2)] take_line_split [OF assms(2)] by metis
      then have same: "l2 = l" "r2 @ concat (c # cs) = rest" by auto
      have "shows_text (b\<lparr>bd_buf := r2\<rparr>) rest"
        using Cons.prems same by (auto simp: shows_text_def intro!: exI [of _ "c # cs"])
      then show ?thesis using buf same by (subst body_next_line.simps) (simp add: take_line_split)
    next
      case False
      let ?b = "b\<lparr>bd_input := chunked_text cs, bd_buf := bd_buf b @ c\<rparr>"
      have len: "length (bd_buf b) + length c \<le> isize_max" using Cons.prems(6) by simp
      have "body_fill utf8 debug got b = (?b, Inr True)"
        using Cons.prems(1-4) len by (intro fill_chunk assms(3)) auto
      then have "body_next_line utf8 debug lossy got b = body_next_line utf8 debug lossy got ?b"
        using False by (subst body_next_line.simps) simp
      moreover have "\<exists>b'. body_next_line utf8 debug lossy got ?b = Some (b', Inr (Some (trim_end (lossy (l @ [newline]))))) \<and> shows_text b' rest"
        using Cons.prems by (intro Cons.IH) auto
      ultimately show ?thesis by simp
    qed
  qed
qed

lemma next_line_end:
  assumes "shows_text b s" "newline \<notin> set s" "\<forall>n. utf8 (hex_of n @ crlf)"
  shows "\<exists>b'. body_next_line utf8 debug lossy got b = Some (b', Inr None)"
proof -
  obtain cs where cs: "bd_chunked b" "\<not> bd_done b" "bd_input b = chunked_text cs"
      "[] \<notin> set cs" "newline \<notin> set (bd_buf b @ concat cs)" "length (bd_buf b @ concat cs) \<le> isize_max"
    using assms(1,2) by (auto simp: shows_text_def)
  then show ?thesis
  proof (induction cs arbitrary: b)
    case Nil
    then show ?case using fill_last [OF Nil(1,2,3) assms(3), of debug got]
      by (subst body_next_line.simps) auto
  next
    case (Cons c cs)
    let ?b = "b\<lparr>bd_input := chunked_text cs, bd_buf := bd_buf b @ c\<rparr>"
    have len: "length (bd_buf b) + length c \<le> isize_max" using Cons.prems(6) by simp
    have "body_fill utf8 debug got b = (?b, Inr True)"
        using Cons.prems(1-4) len by (intro fill_chunk assms(3)) auto
    then have "body_next_line utf8 debug lossy got b = body_next_line utf8 debug lossy got ?b"
      using Cons.prems by (subst body_next_line.simps) simp
    moreover have "\<exists>b'. body_next_line utf8 debug lossy got ?b = Some (b', Inr None)"
      using Cons.prems by (intro Cons.IH) auto
    ultimately show ?case by simp
  qed
qed

section \<open>Events\<close>

text \<open>What the server writes for a frame, \<open>Inl\<close>, and for a keep-alive comment, \<open>Inr\<close>.\<close>

definition event_line :: "(response \<Rightarrow> string) \<Rightarrow> response + string \<Rightarrow> string" where
  "event_line to_str e = (case e of Inl frame \<Rightarrow> ''data: '' @ to_str frame | Inr comment \<Rightarrow> '':'' @ comment)"

definition event_text :: "(response \<Rightarrow> string) \<Rightarrow> response + string \<Rightarrow> string" where
  "event_text to_str e = event_line to_str e @ [newline, newline]"

fun event_frames :: "(response + string) list \<Rightarrow> response list" where
  "event_frames [] = []"
| "event_frames (Inl frame # es) = frame # event_frames es"
| "event_frames (Inr comment # es) = event_frames es"

text \<open>
  What is relied on: text is left alone by the lossy reading, an ASCII line is text, and the JSON
  of a frame is an object on one line that serde reads back.
\<close>

definition sse_ok ::
    "(string \<Rightarrow> bool) \<Rightarrow> (string \<Rightarrow> string) \<Rightarrow> (response \<Rightarrow> string) \<Rightarrow> (string \<Rightarrow> string + response) \<Rightarrow> response + string \<Rightarrow> bool" where
  "sse_ok utf8 lossy to_str of_str e \<longleftrightarrow>
     newline \<notin> set (event_line to_str e) \<and> lossy (event_line to_str e @ [newline]) = event_line to_str e @ [newline] \<and>
     (case e of Inl frame \<Rightarrow> to_str frame \<noteq> [] \<and> hd (to_str frame) = CHR ''{'' \<and> last (to_str frame) = CHR ''}'' \<and>
        of_str (to_str frame) = Inr frame | Inr comment \<Rightarrow> True)"

lemma trim_end_line: "s = [] \<or> \<not> is_space (last s) \<Longrightarrow> trim_end (s @ [newline]) = s"
  by (cases s rule: rev_cases) (auto simp: trim_end_def is_space_def)

lemma next_event:
  assumes b: "shows_text b (event_text to_str e @ rest)" and ok: "sse_ok utf8 lossy to_str of_str e"
    and ascii: "\<forall>n. utf8 (hex_of n @ crlf)" "lossy [newline] = [newline]"
  shows "\<exists>b1 b2. body_next_line utf8 debug lossy got b = Some (b1, Inr (Some (trim_end (event_line to_str e @ [newline])))) \<and>
    body_next_line utf8 debug lossy got b1 = Some (b2, Inr (Some [])) \<and> shows_text b2 rest"
proof -
  have 1: "shows_text b (event_line to_str e @ newline # (newline # rest))" using b by (simp add: event_text_def)
  obtain b1 where b1: "body_next_line utf8 debug lossy got b = Some (b1, Inr (Some (trim_end (event_line to_str e @ [newline]))))"
      "shows_text b1 (newline # rest)"
    using next_line_text [OF 1 _ ascii(1), of debug lossy got] ok by (auto simp: sse_ok_def)
  then have "shows_text b1 ([] @ newline # rest)" by simp
  from next_line_text [OF this _ ascii(1), of debug lossy got] obtain b2
    where "body_next_line utf8 debug lossy got b1 = Some (b2, Inr (Some (trim_end [newline])))" "shows_text b2 rest"
    using ascii(2) by auto
  then show ?thesis using b1(1) trim_end_line [of "[]"] by auto
qed

lemma sse_loop_events:
  assumes "\<forall>e \<in> set es. sse_ok utf8 lossy to_str of_str e" "\<forall>n. utf8 (hex_of n @ crlf)" "lossy [newline] = [newline]"
    and "shows_text b (concat (map (event_text to_str) es))" "length (event_frames es) \<le> room"
  shows "sse_loop utf8 debug lossy got of_str room sent session b =
    Some (sent @ event_frames es, foldl announced session (event_frames es), Inl (Fails (HttpError ''stream closed by the server'')))"
  using assms(1,4,5)
proof (induction es arbitrary: b room sent session)
  case Nil
  then obtain b' where "body_next_line utf8 debug lossy got b = Some (b', Inr None)"
    using next_line_end [OF _ _ assms(2), where debug = debug and lossy = lossy and got = got and b = b and s = "[]"] by auto
  then show ?case by (subst sse_loop.simps) simp
next
  case (Cons e es)
  have ok: "sse_ok utf8 lossy to_str of_str e" using Cons.prems by simp
  obtain b1 b2 where b1: "body_next_line utf8 debug lossy got b = Some (b1, Inr (Some (trim_end (event_line to_str e @ [newline]))))"
      and b2: "body_next_line utf8 debug lossy got b1 = Some (b2, Inr (Some []))" "shows_text b2 (concat (map (event_text to_str) es))"
    using next_event [OF _ ok assms(2,3), where debug = debug and got = got and b = b and
        rest = "concat (map (event_text to_str) es)"] Cons.prems(2) by auto
  have blank: "sse_loop utf8 debug lossy got of_str r s t b1 = sse_loop utf8 debug lossy got of_str r s t b2" for r s t
    using b2(1) by (subst sse_loop.simps) simp
  show ?case
  proof (cases e)
    case (Inl frame)
    have json: "to_str frame \<noteq> []" "\<not> is_space (hd (to_str frame))" "\<not> is_space (last (to_str frame))" "of_str (to_str frame) = Inr frame"
      using ok by (auto simp: sse_ok_def Inl is_space_def)
    then have line: "trim_end (event_line to_str e @ [newline]) = ''data: '' @ to_str frame"
      using trim_end_line [of "''data: '' @ to_str frame"] by (simp add: event_line_def Inl)
    have "trim (CHR '' '' # to_str frame) = trim (to_str frame)" by (simp add: trim_def is_space_def)
    then have data: "trim (CHR '' '' # to_str frame) = to_str frame" using json trim_id by simp
    have "0 < room" using Cons.prems(3) by (simp add: Inl)
    then have "sse_loop utf8 debug lossy got of_str room sent session b =
        sse_loop utf8 debug lossy got of_str (room - 1) (sent @ [frame]) (announced session frame) b1"
      using b1 line data json(4) by (subst sse_loop.simps) simp
    also have "\<dots> = sse_loop utf8 debug lossy got of_str (room - 1) (sent @ [frame]) (announced session frame) b2" by (rule blank)
    finally show ?thesis using Cons.IH [OF _ b2(2), of "room - 1"] Cons.prems(1,3) by (auto simp: Inl)
  next
    case (Inr comment)
    have "\<exists>l. trim_end (event_line to_str e @ [newline]) = CHR '':'' # l"
    proof -
      have "trim_end (CHR '':'' # xs) \<noteq> [] \<and> hd (trim_end (CHR '':'' # xs)) = CHR '':''" for xs
        by (cases "dropWhile is_space (rev xs)") (auto simp: trim_end_def dropWhile_append is_space_def dest: arg_cong [of _ _ rev])
      then show ?thesis unfolding event_line_def Inr by (metis append_Cons append_Nil list.collapse sum.case(2))
    qed
    then have "sse_loop utf8 debug lossy got of_str room sent session b = sse_loop utf8 debug lossy got of_str room sent session b1"
      using b1 by (subst sse_loop.simps) auto
    then show ?thesis using blank Cons.IH [OF _ b2(2)] Cons.prems(1,3) by (auto simp: Inr)
  qed
qed

lemma chunked_shows:
  "[] \<notin> set cs \<Longrightarrow> length (concat cs) \<le> isize_max \<Longrightarrow> concat cs = s \<Longrightarrow> shows_text (body_new (chunked_text cs) True len) s"
  by (auto simp: shows_text_def body_new_def)

text \<open>
  C12: An event stream arrives whole however it is cut. Take any frames and keep-alive comments as
  the server writes them, cut the text into chunks anywhere, inside a line or between, and read it
  back: the client passes on exactly the frames, in order, has the session of the last Welcome
  among them, and reports the end of the stream. \<open>to_str\<close> and \<open>of_str\<close> stand for serde_json.
\<close>

theorem events_survive_chunking:
  assumes "\<forall>e \<in> set es. sse_ok utf8 lossy to_str of_str e" "\<forall>n. utf8 (hex_of n @ crlf)" "lossy [newline] = [newline]"
    and "concat cs = concat (map (event_text to_str) es)" "[] \<notin> set cs" "length (concat cs) \<le> isize_max"
  shows "sse_loop utf8 debug lossy got of_str (length (event_frames es)) [] None (body_new (chunked_text cs) True None) =
    Some (event_frames es, foldl announced None (event_frames es), Inl (Fails (HttpError ''stream closed by the server'')))"
  using sse_loop_events [OF assms(1-3) chunked_shows [OF assms(5,6,4)]] by simp

theorem events_survive_chunking_witness:
  "sse_loop (\<lambda>_. True) (\<lambda>s. s) (\<lambda>s. s) (\<lambda>n. n) (\<lambda>s. if s = ''{}'' then Inr (Pong 3) else Inl ''no frame'') 1 [] None
     (body_new (chunked_text [''dat'', ''a: {}'' @ [newline], [newline], '': ping'' @ [newline, newline]]) True None) =
   Some ([Pong 3], None, Inl (Fails (HttpError ''stream closed by the server'')))"
proof -
  let ?es = "[Inl (Pong 3), Inr '' ping''] :: (response + string) list"
  have "\<forall>e \<in> set ?es. sse_ok (\<lambda>_. True) (\<lambda>s. s) (\<lambda>_. ''{}'') (\<lambda>s. if s = ''{}'' then Inr (Pong 3) else Inl ''no frame'') e"
    by (simp add: sse_ok_def event_line_def)
  moreover have "concat [''dat'', ''a: {}'' @ [newline], [newline], '': ping'' @ [newline, newline]] = concat (map (event_text (\<lambda>_. ''{}'')) ?es)"
    by (simp add: event_text_def event_line_def)
  ultimately have "sse_loop (\<lambda>_. True) (\<lambda>s. s) (\<lambda>s. s) (\<lambda>n. n) (\<lambda>s. if s = ''{}'' then Inr (Pong 3) else Inl ''no frame'')
      (length (event_frames ?es)) [] None
      (body_new (chunked_text [''dat'', ''a: {}'' @ [newline], [newline], '': ping'' @ [newline, newline]]) True None) =
     Some (event_frames ?es, foldl announced None (event_frames ?es), Inl (Fails (HttpError ''stream closed by the server'')))"
    using events_survive_chunking [of ?es "\<lambda>_. True" "\<lambda>s. s" "\<lambda>_. ''{}''"
        "\<lambda>s. if s = ''{}'' then Inr (Pong 3) else Inl ''no frame''"
        "[''dat'', ''a: {}'' @ [newline], [newline], '': ping'' @ [newline, newline]]" "\<lambda>s. s" "\<lambda>n. n"]
    by (simp add: isize_max_def event_text_def event_line_def)
  then show ?thesis by (simp add: announced_def)
qed

text \<open>
  C13: Reading a response ends. Whatever the server sends, in whatever framing it claims and
  however the bytes arrive, and however wrong its chunk sizes and lengths are, a call and a
  stream come to an answer or an error once the connection is at its end; neither loops over
  what it has.
\<close>

theorem responses_are_read_to_an_end:
  "(\<exists>r. call_reply utf8 debug lossy got of_slice input = Some r) \<and>
   (\<exists>r. stream_read utf8 debug lossy got of_str room input = Some r)"
  using body_read_all_ends [of utf8 debug got] sse_loop_ends [of utf8 debug lossy got of_str]
  by (auto simp: call_reply_def stream_read_def bind_eq_Some_conv split: prod.splits sum.splits)

text \<open>
  A length no vector can have, in a chunk size or in \<open>content-length\<close>, ends the task in a panic:
  the wire stays alive, and neither a reply nor an error comes of the exchange.
\<close>

lemma impossible_length_panics:
  "isize_max < len \<Longrightarrow> body_read_all utf8 debug got (body_new input False (Some len)) =
      Some (body_new input False (Some len), Inl Panics)"
  "pump_call (Inl Panics) p = p"
  by (subst body_read_all.simps, cases len) (auto simp: body_fill_def body_new_def pump_call_def)

text \<open>
  A refused Credit takes down everything on its wire. The server answers a credit for a stream
  it has just finished with status 400 and an error frame for that one id; the client makes a
  failed call of any status but 200, and of a failed call a dead wire: the other exchanges on it,
  here a ping, are told that the connection is lost.
\<close>

theorem refused_credit_kills_the_wire:
  "(let api = \<lparr>api_logs = [], api_acl = acl_new 0 [], api_uid = 0, api_token = ''k'',
       api_sessions = [(''s'', session_new 0 (acl_new 0 []) (Some ''s''))]\<rparr>
    in http_call (\<lambda>logs name folds. (logs, Inl (CodeStorage, []))) (\<lambda>bytes. Inr (Credit 7 5)) 4 api (Some ''Bearer k'') (Some ''s'') [] =
         (api, Now 400 (ErrorFrame 7 (fst (no_stream 7)) (snd (no_stream 7))))) \<and>
   (\<exists>e. call_reply (\<lambda>_. True) (\<lambda>s. s) (\<lambda>s. s) (\<lambda>n. n) of_slice
        (''HTTP/1.1 400 Bad Request'' @ crlf @ ''content-length: 2'' @ crlf @ crlf @ ''{}'') = Some (Inl (Fails e)) \<and>
      pm_dead (pump_call (Inl (Fails e)) p)) \<and>
   (\<exists>c. conn_run 8 conn_new [Incoming (CallCmd (Ping 1) 0), Permit, Incoming (Fire (Credit 7 5)), Permit] = Some c \<and>
      cn_replies (conn_finish c) = [(0, Inl (Disconnected 1))])"
proof (intro conjI)
  show "let api = \<lparr>api_logs = [], api_acl = acl_new 0 [], api_uid = 0, api_token = ''k'',
       api_sessions = [(''s'', session_new 0 (acl_new 0 []) (Some ''s''))]\<rparr>
    in http_call (\<lambda>logs name folds. (logs, Inl (CodeStorage, []))) (\<lambda>bytes. Inr (Credit 7 5)) 4 api (Some ''Bearer k'') (Some ''s'') [] =
         (api, Now 400 (ErrorFrame 7 (fst (no_stream 7)) (snd (no_stream 7))))"
    by (simp add: http_call_def authorized_def constant_time_eq_def text_bytes_def session_grant_def session_new_def bt_get_def Let_def)
  let ?text = "''HTTP/1.1 400 Bad Request'' @ crlf @ ''content-length: 2'' @ crlf @ crlf @ ''{}''"
  have head: "read_head (\<lambda>_. True) (\<lambda>s. s) ?text = (''{}'', Inr \<lparr>hd_status = 400, hd_chunked = False, hd_length = Some 2\<rparr>)"
  proof -
    have status: "status_of (''HTTP/1.1 400 Bad Request'' @ crlf) = Some 400"
      by (simp add: status_of_def crlf_def is_space_def parse_unsigned_def is_ascii_digit_def digits_value_def)
    have len: "header_line ''content-length: 2'' h = h\<lparr>hd_length := Some 2\<rparr>" for h
      by (simp add: header_line_def to_ascii_lowercase_def trim_def is_space_def parse_unsigned_def is_ascii_digit_def digits_value_def u64_max_def)
    have line: "trim_end (''content-length: 2'' @ crlf) = ''content-length: 2''" "trim_end crlf = []"
      by (simp_all add: trim_end_def crlf_def is_space_def)
    show ?thesis using status len line
      by (simp add: read_head_def read_line_def crlf_def read_headers.simps)
  qed
  let ?b = "\<lparr>bd_input = [], bd_chunked = False, bd_remaining = Some 0, bd_buf = ''{}'', bd_done = False\<rparr>"
  have "body_read_all (\<lambda>_. True) (\<lambda>s. s) (\<lambda>n. n) ?b = Some (?b\<lparr>bd_done := True, bd_buf := []\<rparr>, Inr ''{}'')"
    by (subst body_read_all.simps) (simp add: body_fill_def)
  then have "body_read_all (\<lambda>_. True) (\<lambda>s. s) (\<lambda>n. n) (body_new ''{}'' False (Some 2)) =
      Some (?b\<lparr>bd_done := True, bd_buf := []\<rparr>, Inr ''{}'')"
    by (subst body_read_all.simps) (simp add: body_fill_def body_new_def read_exact_def isize_max_def)
  then show "\<exists>e. call_reply (\<lambda>_. True) (\<lambda>s. s) (\<lambda>s. s) (\<lambda>n. n) of_slice ?text = Some (Inl (Fails e)) \<and> pm_dead (pump_call (Inl (Fails e)) p)"
    unfolding call_reply_def head by (simp add: pump_call_def)
  show "\<exists>c. conn_run 8 conn_new [Incoming (CallCmd (Ping 1) 0), Permit, Incoming (Fire (Credit 7 5)), Permit] = Some c \<and>
      cn_replies (conn_finish c) = [(0, Inl (Disconnected 1))]"
    by (simp add: conn_new_def conn_finish_def waiter_fail_def)
qed

end
