(* ===== verification/LugCli.thy ===== *)
theory LugCli
  imports ClientHttp ClientFollower
begin

text \<open>
  \<open>crates/lug-client/src/bin/lug.rs\<close>: the command line client. A console holds what was printed to
  stdout and stderr and how the next writes to stdout end; what the hub answers is an argument, and
  so are the texts that serde_json prints and those of the client's errors. The arguments are as
  clap hands them over. A run that waits for more is \<open>None\<close>.
\<close>

section \<open>The console\<close>

datatype write_outcome = Written_out | BrokenPipe | WriteFails string

record console =
  co_out :: "string list"
  co_err :: "string list"
  co_writes :: "write_outcome list"

datatype cli_fail =
    TokenFile string string
  | NoDaemon string client_error
  | CliOther client_error
  | CallFailed string client_error
  | CannotWrite string
  | NoPatches
  | CannotOpen string string
  | CannotRead string
  | BadLine nat string
  | NoLogNamed string
  | FollowerStopped

record cli_text =
  tx_info :: "log_info \<Rightarrow> string"
  tx_record :: "wire_record \<Rightarrow> string"
  tx_ack :: "version list \<Rightarrow> version \<Rightarrow> string"
  tx_view :: "version \<Rightarrow> json \<Rightarrow> string"
  tx_compact :: "json \<Rightarrow> string"
  tx_pretty :: "json \<Rightarrow> string"

record cli_output =
  ou_json :: bool
  ou_color :: bool

text \<open>A line and its flush; the line of a failed write is not seen.\<close>

definition write_line :: "string \<Rightarrow> console \<Rightarrow> console \<times> write_outcome" where
  "write_line t c =
     (case co_writes c of
        [] \<Rightarrow> (c\<lparr>co_out := co_out c @ [t]\<rparr>, Written_out)
      | w # ws \<Rightarrow> (if w = Written_out then c\<lparr>co_out := co_out c @ [t], co_writes := ws\<rparr> else c\<lparr>co_writes := ws\<rparr>, w))"

definition out_line :: "string \<Rightarrow> console \<Rightarrow> console \<times> (cli_fail + unit)" where
  "out_line t c =
     (case write_line t c of
        (c, Written_out) \<Rightarrow> (c, Inr ())
      | (c, BrokenPipe) \<Rightarrow> (c, Inr ())
      | (c, WriteFails e) \<Rightarrow> (c, Inl (CannotWrite e)))"

fun out_lines :: "string list \<Rightarrow> console \<Rightarrow> console \<times> (cli_fail + unit)" where
  "out_lines [] c = (c, Inr ())"
| "out_lines (t # ts) c = (case out_line t c of (c, Inl e) \<Rightarrow> (c, Inl e) | (c, Inr _) \<Rightarrow> out_lines ts c)"

definition out_bold :: "cli_output \<Rightarrow> string \<Rightarrow> string" where
  "out_bold out t = (if ou_color out then [CHR 0x1B] @ ''[1m'' @ t @ [CHR 0x1B] @ ''[0m'' else t)"

definition out_value :: "cli_text \<Rightarrow> cli_output \<Rightarrow> json \<Rightarrow> string" where
  "out_value T out j = (if ou_color out \<and> \<not> ou_json out then tx_pretty T j else tx_compact T j)"

datatype color_when = ColorAuto | ColorAlways | ColorNever

definition paint :: "bool \<Rightarrow> bool \<Rightarrow> string option \<Rightarrow> color_when \<Rightarrow> bool" where
  "paint terminal no_color term_var w =
     (case w of
        ColorAlways \<Rightarrow> True
      | ColorNever \<Rightarrow> False
      | ColorAuto \<Rightarrow> terminal \<and> \<not> no_color \<and> (case term_var of Some t \<Rightarrow> t \<noteq> ''dumb'' | None \<Rightarrow> True))"

section \<open>The endpoint\<close>

record cli_endpoint =
  ep_socket :: string
  ep_http :: "string option"
  ep_token_file :: "string option"

definition cli_transport :: "(string \<Rightarrow> string + string) \<Rightarrow> cli_endpoint \<Rightarrow> cli_fail + transport" where
  "cli_transport read_file e =
     (case ep_http e of
        None \<Rightarrow> Inr (UnixSocket (ep_socket e))
      | Some base \<Rightarrow>
          (case ep_token_file e of
             None \<Rightarrow> Inr (HttpOrigin base [])
           | Some path \<Rightarrow>
               (case read_file path of
                  Inl err \<Rightarrow> Inl (TokenFile path err)
                | Inr token \<Rightarrow> Inr (HttpOrigin base (trim token)))))"

definition cli_describe :: "cli_endpoint \<Rightarrow> string" where
  "cli_describe e = (case ep_http e of Some base \<Rightarrow> base | None \<Rightarrow> ep_socket e)"

section \<open>Short commands\<close>

definition pad_left :: "nat \<Rightarrow> string \<Rightarrow> string" where
  "pad_left n t = replicate (n - length t) (CHR '' '') @ t"

definition pad_right :: "nat \<Rightarrow> string \<Rightarrow> string" where
  "pad_right n t = t @ replicate (n - length t) (CHR '' '')"

definition ls_row :: "nat \<Rightarrow> string \<Rightarrow> string \<Rightarrow> string \<Rightarrow> string \<Rightarrow> string \<Rightarrow> string" where
  "ls_row width a b c d e =
     pad_right width a @ ''  '' @ pad_left 9 b @ ''  '' @ pad_left 7 c @ ''  '' @ pad_left 6 d @ ''  '' @ pad_left 4 e"

definition bool_text :: "bool \<Rightarrow> string" where
  "bool_text b = (if b then ''true'' else ''false'')"

definition cli_ls :: "cli_text \<Rightarrow> cli_output \<Rightarrow> client_error + log_info list \<Rightarrow> console \<Rightarrow> console \<times> (cli_fail + unit)" where
  "cli_ls T out listed c =
     (case listed of
        Inl e \<Rightarrow> (c, Inl (CallFailed ''ls'' e))
      | Inr logs \<Rightarrow>
          if ou_json out then out_lines (map (tx_info T) logs) c
          else if logs = [] then out_line ''no logs'' c
          else
            let width = max (Max (set (map (\<lambda>l. length (li_name l)) logs))) 4 in
            out_lines (out_bold out (ls_row width ''NAME'' ''REDUCIBLE'' ''VERSION'' ''OLDEST'' ''SUBS'') #
              map (\<lambda>l. ls_row width (li_name l) (bool_text (li_reducible l)) (dec_digits (li_version l)) (dec_digits (li_oldest l))
                (dec_digits (li_subscribers l))) logs) c)"

definition cli_create :: "cli_text \<Rightarrow> cli_output \<Rightarrow> client_error + log_info \<Rightarrow> console \<Rightarrow> console \<times> (cli_fail + unit)" where
  "cli_create T out created c =
     (case created of
        Inl e \<Rightarrow> (c, Inl (CallFailed ''create'' e))
      | Inr info \<Rightarrow>
          if ou_json out then out_line (tx_info T info) c
          else out_line (''created '' @ li_name info @ '' ('' @ (if li_reducible info then ''reducible'' else ''plain'') @
            '', version '' @ dec_digits (li_version info) @ '')'') c)"

text \<open>\<open>read_patches\<close> over the lines of the input, or the error in place of one.\<close>

fun read_patches :: "(string \<Rightarrow> string + json) \<Rightarrow> nat \<Rightarrow> (string + string) list \<Rightarrow> cli_fail + json list" where
  "read_patches parse n [] = Inr []"
| "read_patches parse n (line # lines) =
     (case line of
        Inl err \<Rightarrow> Inl (CannotRead err)
      | Inr t \<Rightarrow>
          if trim t = [] then read_patches parse (n + 1) lines
          else case parse t of
              Inl err \<Rightarrow> Inl (BadLine (n + 1) err)
            | Inr patch \<Rightarrow> rbind (read_patches parse (n + 1) lines) (\<lambda>patches. Inr (patch # patches)))"

definition open_patches ::
    "(string \<Rightarrow> string + (string + string) list) \<Rightarrow> (string + string) list \<Rightarrow> string option \<Rightarrow> cli_fail + (string + string) list" where
  "open_patches open_file stdin path =
     (case path of
        None \<Rightarrow> Inr stdin
      | Some p \<Rightarrow> if p = ''-'' then Inr stdin else map_err (CannotOpen p) (open_file p))"

definition cli_append ::
    "cli_text \<Rightarrow> (string \<Rightarrow> string + json) \<Rightarrow> cli_output \<Rightarrow> cli_fail + (string + string) list \<Rightarrow> (json list \<Rightarrow> client_error + ack) \<Rightarrow>
     console \<Rightarrow> console \<times> (cli_fail + unit)" where
  "cli_append T parse out input submit c =
     (case rbind input (read_patches parse 0) of
        Inl e \<Rightarrow> (c, Inl e)
      | Inr patches \<Rightarrow>
          if patches = [] then (c, Inl NoPatches)
          else case submit patches of
              Inl e \<Rightarrow> (c, Inl (CallFailed ''append'' e))
            | Inr a \<Rightarrow>
                if ou_json out then out_line (tx_ack T (ak_versions a) (ak_synced a)) c
                else let count = length patches in
                  if ak_versions a = [] then out_line (''appended '' @ dec_digits count @ '', nothing changed'') c
                  else out_line (''appended '' @ dec_digits count @ '' patch'' @ (if count = 1 then [] else ''es'') @
                    '' through version '' @ dec_digits (last (ak_versions a))) c)"

definition cli_read :: "cli_text \<Rightarrow> cli_output \<Rightarrow> client_error + client_view \<Rightarrow> console \<Rightarrow> console \<times> (cli_fail + unit)" where
  "cli_read T out view c =
     (case view of
        Inl e \<Rightarrow> (c, Inl (CallFailed ''read'' e))
      | Inr v \<Rightarrow>
          if ou_json out then out_line (tx_view T (cv_version v) (cv_value v)) c
          else out_line (out_value T out (cv_value v)) c)"

definition cli_ping :: "client_error + unit \<Rightarrow> console \<Rightarrow> console \<times> (cli_fail + unit)" where
  "cli_ping answer c = (case answer of Inl e \<Rightarrow> (c, Inl (CallFailed ''ping'' e)) | Inr _ \<Rightarrow> out_line ''pong'' c)"

section \<open>Streams\<close>

datatype tail_event = TailFrame "client_error + event" | TailOver | Interrupted

definition gap_line :: "version \<Rightarrow> version \<Rightarrow> string" where
  "gap_line lo hi = ''lug: gap, versions '' @ dec_digits lo @ ''..'' @ dec_digits hi @ '' were reclaimed by the server''"

definition reaches :: "version option \<Rightarrow> version \<Rightarrow> bool" where
  "reaches finish v = (case finish of None \<Rightarrow> False | Some t \<Rightarrow> t \<le> v)"

fun tail_loop :: "cli_text \<Rightarrow> version option \<Rightarrow> tail_event list \<Rightarrow> console \<Rightarrow> console \<times> (cli_fail + unit) option" where
  "tail_loop T finish [] c = (c, None)"
| "tail_loop T finish (e # es) c =
     (case e of
        Interrupted \<Rightarrow> (c, Some (Inr ()))
      | TailOver \<Rightarrow> (c, Some (Inr ()))
      | TailFrame (Inl err) \<Rightarrow> (c, Some (Inl (CallFailed ''tail'' err)))
      | TailFrame (Inr (EvRecord r)) \<Rightarrow>
          (case write_line (tx_record T r) c of
             (c, BrokenPipe) \<Rightarrow> (c, Some (Inr ()))
           | (c, WriteFails err) \<Rightarrow> (c, Some (Inl (CannotWrite err)))
           | (c, Written_out) \<Rightarrow> if reaches finish (wr_version r) then (c, Some (Inr ())) else tail_loop T finish es c)
      | TailFrame (Inr (EvGap lo hi)) \<Rightarrow>
          (let c = c\<lparr>co_err := co_err c @ [gap_line lo hi]\<rparr> in
           if reaches finish hi then (c, Some (Inr ())) else tail_loop T finish es c))"

text \<open>The finish line of a tail that does not follow, or that there is nothing to wait for.\<close>

definition tail_target :: "string \<Rightarrow> version \<Rightarrow> client_error + log_info list \<Rightarrow> cli_fail + version option" where
  "tail_target name from_version listed =
     (case listed of
        Inl e \<Rightarrow> Inl (CallFailed ''tail'' e)
      | Inr logs \<Rightarrow>
          (case find (\<lambda>l. li_name l = name) logs of
             None \<Rightarrow> Inl (NoLogNamed name)
           | Some info \<Rightarrow> Inr (if li_version info \<le> from_version then None else Some (li_version info))))"

definition cli_tail ::
    "cli_text \<Rightarrow> string \<Rightarrow> version \<Rightarrow> bool \<Rightarrow> client_error + log_info list \<Rightarrow> client_error + tail_event list \<Rightarrow> console \<Rightarrow>
     console \<times> (cli_fail + unit) option" where
  "cli_tail T name from_version follow listed stream c =
     (case (if follow then Inr (Some None) else rbind (tail_target name from_version listed) (\<lambda>t. Inr (map_option Some t))) of
        Inl e \<Rightarrow> (c, Some (Inl e))
      | Inr None \<Rightarrow> (c, Some (Inr ()))
      | Inr (Some finish) \<Rightarrow>
          (case stream of
             Inl e \<Rightarrow> (c, Some (Inl (CallFailed ''subscribe'' e)))
           | Inr es \<Rightarrow> tail_loop T finish es c))"

text \<open>The loop of \<open>follow_view\<close>; each round with the view that the follower shows by then.\<close>

datatype follow_event = Advanced bool | FollowInterrupted

fun follow_loop :: "cli_text \<Rightarrow> cli_output \<Rightarrow> json option list \<Rightarrow> follow_event list \<Rightarrow> console \<Rightarrow> console \<times> (cli_fail + unit) option" where
  "follow_loop T out [] es c = (c, None)"
| "follow_loop T out (view # views) es c =
     (case (case view of Some j \<Rightarrow> out_line (out_value T out j) c | None \<Rightarrow> (c, Inr ())) of
        (c, Inl e) \<Rightarrow> (c, Some (Inl e))
      | (c, Inr _) \<Rightarrow>
          (case es of
             [] \<Rightarrow> (c, None)
           | Advanced ok # es \<Rightarrow> if ok then follow_loop T out views es c else (c, Some (Inl FollowerStopped))
           | FollowInterrupted # _ \<Rightarrow> (c, Some (Inr ()))))"

definition connect_failed :: "cli_endpoint \<Rightarrow> client_error \<Rightarrow> cli_fail" where
  "connect_failed e err = (case err of ConnectError _ _ \<Rightarrow> NoDaemon (cli_describe e) err | _ \<Rightarrow> CliOther err)"

definition exit_code :: "cli_fail + unit \<Rightarrow> nat" where
  "exit_code r = (case r of Inr _ \<Rightarrow> 0 | Inl _ \<Rightarrow> 1)"

section \<open>A tail that ends\<close>

text \<open>
  What a subscription from a version sends, as its consumers rely on it: records one after the
  other, and a gap where versions were lost.
\<close>

fun runs_on :: "version \<Rightarrow> event list \<Rightarrow> bool" where
  "runs_on c [] = True"
| "runs_on c (EvRecord r # es) \<longleftrightarrow> wr_version r = c + 1 \<and> runs_on (wr_version r) es"
| "runs_on c (EvGap lo hi # es) \<longleftrightarrow> lo = c \<and> lo < hi \<and> runs_on hi es"

text \<open>The part of a stream up to a version, and what tail shows of it.\<close>

fun up_to :: "version \<Rightarrow> event list \<Rightarrow> event list" where
  "up_to t [] = []"
| "up_to t (e # es) = (if t \<le> event_cursor e then [e] else e # up_to t es)"

definition tail_shown :: "cli_text \<Rightarrow> event list \<Rightarrow> string list" where
  "tail_shown T es = concat (map (\<lambda>e. case e of EvRecord r \<Rightarrow> [tx_record T r] | EvGap _ _ \<Rightarrow> []) es)"

definition tail_noted :: "event list \<Rightarrow> string list" where
  "tail_noted es = concat (map (\<lambda>e. case e of EvRecord r \<Rightarrow> [] | EvGap lo hi \<Rightarrow> [gap_line lo hi]) es)"

lemma tail_loop_shows:
  "co_writes c = [] \<Longrightarrow> \<exists>e \<in> set es. t \<le> event_cursor e \<Longrightarrow>
    tail_loop T (Some t) (map (\<lambda>e. TailFrame (Inr e)) es @ later) c =
      (c\<lparr>co_out := co_out c @ tail_shown T (up_to t es), co_err := co_err c @ tail_noted (up_to t es)\<rparr>, Some (Inr ()))"
proof (induction es arbitrary: c)
  case (Cons e es)
  show ?case
  proof (cases e)
    case (EvRecord r)
    let ?c = "c\<lparr>co_out := co_out c @ [tx_record T r]\<rparr>"
    show ?thesis
    proof (cases "t \<le> wr_version r")
      case True
      then show ?thesis using Cons.prems(1) by (simp add: EvRecord write_line_def reaches_def tail_shown_def tail_noted_def)
    next
      case False
      then have "\<exists>e \<in> set es. t \<le> event_cursor e" using Cons.prems(2) by (simp add: EvRecord)
      from Cons.IH [of ?c, OF _ this] show ?thesis
        using False Cons.prems(1) by (simp add: EvRecord write_line_def reaches_def tail_shown_def tail_noted_def)
    qed
  next
    case (EvGap lo hi)
    let ?c = "c\<lparr>co_err := co_err c @ [gap_line lo hi]\<rparr>"
    show ?thesis
    proof (cases "t \<le> hi")
      case True
      then show ?thesis using Cons.prems(1) by (simp add: EvGap reaches_def tail_shown_def tail_noted_def Let_def)
    next
      case False
      then have "\<exists>e \<in> set es. t \<le> event_cursor e" using Cons.prems(2) by (simp add: EvGap)
      from Cons.IH [of ?c, OF _ this] show ?thesis
        using False Cons.prems(1) by (simp add: EvGap reaches_def tail_shown_def tail_noted_def Let_def)
    qed
  qed
qed simp

definition covered :: "event list \<Rightarrow> version \<Rightarrow> bool" where
  "covered es v \<longleftrightarrow> (\<exists>r. EvRecord r \<in> set es \<and> wr_version r = v) \<or> (\<exists>lo hi. EvGap lo hi \<in> set es \<and> lo < v \<and> v \<le> hi)"

lemma covered_Cons:
  "covered (EvRecord r # es) v \<longleftrightarrow> wr_version r = v \<or> covered es v"
  "covered (EvGap lo hi # es) v \<longleftrightarrow> lo < v \<and> v \<le> hi \<or> covered es v"
  by (auto simp: covered_def)

lemma up_to_covers:
  "runs_on c es \<Longrightarrow> \<exists>e \<in> set es. t \<le> event_cursor e \<Longrightarrow> c < v \<Longrightarrow> v \<le> t \<Longrightarrow> covered (up_to t es) v"
proof (induction es arbitrary: c)
  case (Cons e es)
  show ?case
  proof (cases e)
    case (EvRecord r)
    show ?thesis
    proof (cases "v = wr_version r")
      case True
      then show ?thesis by (simp add: EvRecord covered_Cons)
    next
      case False
      then show ?thesis using Cons.prems Cons.IH [of "wr_version r"] by (auto simp: EvRecord covered_Cons)
    qed
  next
    case (EvGap lo hi)
    show ?thesis
    proof (cases "v \<le> hi")
      case True
      then show ?thesis using Cons.prems by (simp add: EvGap covered_Cons)
    next
      case False
      then show ?thesis using Cons.prems Cons.IH [of hi] by (auto simp: EvGap covered_Cons)
    qed
  qed
qed simp

text \<open>
  C22: \<open>lug tail --follow=false\<close> prints the history and exits. When the log is listed at a version beyond
  the cursor, and the subscription runs on from the cursor without a hole and gets to that version,
  the command ends with success, whatever the stream would do later; it has printed the records of
  the stream up to there, one line each and in order, and has named each gap; and every version from
  behind the cursor to the listed one is a printed record or lies in a gap that was named.
\<close>

theorem finite_tail_prints_the_history:
  assumes "find (\<lambda>l. li_name l = name) logs = Some info" "from_version < li_version info"
    and "runs_on from_version es" "\<exists>e \<in> set es. li_version info \<le> event_cursor e" "co_writes c = []"
  shows "cli_tail T name from_version False (Inr logs) (Inr (map (\<lambda>e. TailFrame (Inr e)) es @ later)) c =
      (c\<lparr>co_out := co_out c @ tail_shown T (up_to (li_version info) es), co_err := co_err c @ tail_noted (up_to (li_version info) es)\<rparr>,
       Some (Inr ())) \<and>
    (\<forall>v. from_version < v \<and> v \<le> li_version info \<longrightarrow> covered (up_to (li_version info) es) v)"
  using tail_loop_shows [OF assms(5,4)] up_to_covers [OF assms(3,4)] assms(1,2)
  by (simp add: cli_tail_def tail_target_def)

theorem finite_tail_prints_the_history_witness:
  "let T = \<lparr>tx_info = \<lambda>_. [], tx_record = \<lambda>r. dec_digits (wr_version r), tx_ack = \<lambda>_ _. [], tx_view = \<lambda>_ _. [],
        tx_compact = \<lambda>_. [], tx_pretty = \<lambda>_. []\<rparr>;
      info = \<lparr>li_name = ''n'', li_reducible = False, li_version = 3, li_oldest = 2, li_subscribers = 0\<rparr>
    in co_out (fst (cli_tail T ''n'' 0 False (Inr [info])
        (Inr [TailFrame (Inr (EvGap 0 2)), TailFrame (Inr (EvRecord \<lparr>wr_version = 3, wr_patch = JNull\<rparr>))])
        \<lparr>co_out = [], co_err = [], co_writes = []\<rparr>)) = [''3'']"
proof -
  let ?T = "\<lparr>tx_info = \<lambda>_. [], tx_record = \<lambda>r. dec_digits (wr_version r), tx_ack = \<lambda>_ _. [], tx_view = \<lambda>_ _. [],
        tx_compact = \<lambda>_. [], tx_pretty = \<lambda>_. []\<rparr>"
  let ?info = "\<lparr>li_name = ''n'', li_reducible = False, li_version = 3, li_oldest = 2, li_subscribers = 0\<rparr>"
  have "dec_digits 3 = ''3''" by code_simp
  then show ?thesis
    using finite_tail_prints_the_history [of "''n''" "[?info]" ?info 0 "[EvGap 0 2, EvRecord \<lparr>wr_version = 3, wr_patch = JNull\<rparr>]"
        "\<lparr>co_out = [], co_err = [], co_writes = []\<rparr>" ?T "[]"]
    by (simp add: tail_shown_def)
qed

section \<open>Patches and pipes\<close>

text \<open>What is appended is what the lines say, in order, or nothing at all.\<close>

lemma read_patches_takes:
  "map parse (filter (\<lambda>t. trim t \<noteq> []) ts) = map Inr patches \<Longrightarrow> read_patches parse n (map Inr ts) = Inr patches"
proof (induction ts arbitrary: n patches)
  case (Cons t ts)
  then show ?case by (cases "trim t = []"; cases patches) (auto split: sum.splits)
qed simp

lemma read_patches_only:
  "read_patches parse n lines = Inr patches \<Longrightarrow>
    \<exists>ts. lines = map Inr ts \<and> map parse (filter (\<lambda>t. trim t \<noteq> []) ts) = map Inr patches"
proof (induction lines arbitrary: n patches)
  case (Cons line lines)
  then obtain t where t: "line = Inr t" by (cases line) auto
  obtain ps where ps: "read_patches parse (n + 1) lines = Inr ps"
    using Cons.prems by (auto simp: t rbind_def split: if_splits sum.splits)
  from Cons.IH [OF this] obtain ts where "lines = map Inr ts" "map parse (filter (\<lambda>t. trim t \<noteq> []) ts) = map Inr ps" by blast
  then show ?case using Cons.prems ps by (intro exI [of _ "t # ts"]) (auto simp: t split: if_splits sum.splits)
qed simp

text \<open>
  A reader that went away ends \<open>tail\<close> at its next record; \<open>follow\<close> takes the failed write for a success
  and goes on for as long as the view changes.
\<close>

lemma tail_ends_with_its_reader: "co_writes c = [BrokenPipe] \<Longrightarrow>
    snd (tail_loop T finish (TailFrame (Inr (EvRecord r)) # es) c) = Some (Inr ())"
  by (simp add: write_line_def)

lemma follow_outlives_its_reader:
  "co_writes c = replicate n BrokenPipe \<Longrightarrow> snd (follow_loop T out (replicate n (Some j)) (replicate n (Advanced True)) c) = None"
proof (induction n arbitrary: c)
  case (Suc n)
  have "out_line (out_value T out j) c = (c\<lparr>co_writes := replicate n BrokenPipe\<rparr>, Inr ())"
    using Suc.prems by (simp add: out_line_def write_line_def)
  then show ?case using Suc.IH [of "c\<lparr>co_writes := replicate n BrokenPipe\<rparr>"] by simp
qed simp

end
