(* ===== verification/LoadLedger.thy ===== *)
theory LoadLedger
  imports ClientHttp
begin

text \<open>
  \<open>crates/lug-load/src/check.rs\<close>: the ledger a load run keeps of what it sent and what came back,
  and which decides whether the run passes. Proved here: what a passing run shows of the server
  (soundness) and that a server which keeps its promises is never accused (completeness).
  Instants are numbers of nanoseconds; \<open>next\<close> and \<open>credit\<close> are counted without the overflow
  that \<open>2^64\<close> records or credits would take.
\<close>

section \<open>Payloads\<close>

definition hex16 :: "nat \<Rightarrow> string" where
  "hex16 n = replicate (16 - length (hex_of n)) (CHR ''0'') @ hex_of n"

text \<open>\<open>None\<close> is the panic of a size below 16.\<close>

definition payload :: "nat \<Rightarrow> nat \<Rightarrow> json option" where
  "payload sequence size_bytes =
     (if size_bytes < 16 then None
      else Some (JString (hex16 sequence @ replicate (size_bytes - 16) (CHR ''x''))))"

definition is_ascii :: "string \<Rightarrow> bool" where
  "is_ascii s \<longleftrightarrow> (\<forall>c \<in> set s. (of_char c :: nat) < 128)"

section \<open>The ledger\<close>

record issued =
  is_log :: nat
  is_intended :: nat
  is_ack :: "version option"
  is_observed :: "version option"

record ledger_stream =
  ls_log :: nat
  ls_next :: version
  ls_credit :: nat

record ledger =
  lg_issued :: "issued list"
  lg_canonical :: "(version, nat) btree_map list"
  lg_streams :: "(id, ledger_stream) btree_map"
  lg_patch_size :: nat
  lg_durability :: durability
  lg_acks :: nat

datatype ledger_error =
    DuplicateStream id
  | CreditForUnknown id
  | VersionZero nat
  | OrderMismatch nat version nat nat
  | UnissuedPayload nat version nat
  | WrongLog nat nat nat
  | DuplicateAppend nat version version
  | NotOneVersion nat "version list"
  | AckOfUnissued nat
  | DuplicateAck nat
  | NotDurableYet nat version version
  | RecordsOnUnknown id
  | Noncontiguous id version version
  | CreditViolation id version
  | NotAString nat version
  | BytesChanged nat version
  | InvalidSequence nat version
  | AckLoss nat nat
  | SubscriberLoss id version version
  | NotFromOne nat
  | IndexPanic nat

definition ledger_new :: "nat \<Rightarrow> nat \<Rightarrow> durability \<Rightarrow> ledger" where
  "ledger_new logs patch_size d =
     \<lparr>lg_issued = [], lg_canonical = replicate logs [], lg_streams = [], lg_patch_size = patch_size,
      lg_durability = d, lg_acks = 0\<rparr>"

definition ledger_issue :: "nat \<Rightarrow> nat \<Rightarrow> ledger \<Rightarrow> ledger \<times> nat" where
  "ledger_issue log_ix intended l =
     (l\<lparr>lg_issued := lg_issued l @ [\<lparr>is_log = log_ix, is_intended = intended, is_ack = None, is_observed = None\<rparr>]\<rparr>,
      length (lg_issued l))"

definition ledger_subscribe :: "id \<Rightarrow> nat \<Rightarrow> version \<Rightarrow> nat \<Rightarrow> ledger \<Rightarrow> ledger \<times> (ledger_error + unit)" where
  "ledger_subscribe i log_ix from_version credit l =
     (l\<lparr>lg_streams := bt_insert i \<lparr>ls_log = log_ix, ls_next = from_version + 1, ls_credit = credit\<rparr> (lg_streams l)\<rparr>,
      if bt_get (lg_streams l) i \<noteq> None then Inl (DuplicateStream i) else Inr ())"

definition ledger_grant :: "id \<Rightarrow> nat \<Rightarrow> ledger \<Rightarrow> ledger \<times> (ledger_error + unit)" where
  "ledger_grant i credit l =
     (case bt_get (lg_streams l) i of
        None \<Rightarrow> (l, Inl (CreditForUnknown i))
      | Some st \<Rightarrow> (l\<lparr>lg_streams := bt_insert i (st\<lparr>ls_credit := ls_credit st + credit\<rparr>) (lg_streams l)\<rparr>, Inr ()))"

definition ledger_bind :: "nat \<Rightarrow> version \<Rightarrow> nat \<Rightarrow> ledger \<Rightarrow> ledger \<times> (ledger_error + unit)" where
  "ledger_bind log_ix v sequence l =
     (if v = 0 then (l, Inl (VersionZero log_ix))
      else if length (lg_canonical l) \<le> log_ix then (l, Inl (IndexPanic log_ix))
      else
        let old = bt_get (lg_canonical l ! log_ix) v;
            l = l\<lparr>lg_canonical := (lg_canonical l)[log_ix := bt_insert v sequence (lg_canonical l ! log_ix)]\<rparr>
        in if old \<noteq> None \<and> old \<noteq> Some sequence then (l, Inl (OrderMismatch log_ix v (the old) sequence))
           else if length (lg_issued l) \<le> sequence then (l, Inl (UnissuedPayload log_ix v sequence))
           else
             let entry = lg_issued l ! sequence in
             if is_log entry \<noteq> log_ix then (l, Inl (WrongLog sequence (is_log entry) log_ix))
             else if is_observed entry \<noteq> None \<and> is_observed entry \<noteq> Some v
             then (l, Inl (DuplicateAppend sequence (the (is_observed entry)) v))
             else (l\<lparr>lg_issued := (lg_issued l)[sequence := entry\<lparr>is_observed := Some v\<rparr>]\<rparr>, Inr ()))"

definition ledger_ack :: "nat \<Rightarrow> version list \<Rightarrow> version \<Rightarrow> ledger \<Rightarrow> ledger \<times> (ledger_error + nat)" where
  "ledger_ack sequence versions synced l =
     (case versions of
        [v] \<Rightarrow>
          if length (lg_issued l) \<le> sequence then (l, Inl (AckOfUnissued sequence))
          else if is_ack (lg_issued l ! sequence) \<noteq> None then (l, Inl (DuplicateAck sequence))
          else if lg_durability l = Durable \<and> synced < v then (l, Inl (NotDurableYet sequence synced v))
          else (case ledger_bind (is_log (lg_issued l ! sequence)) v sequence l of
              (l, Inl e) \<Rightarrow> (l, Inl e)
            | (l, Inr _) \<Rightarrow>
                let entry = (lg_issued l ! sequence)\<lparr>is_ack := Some v\<rparr> in
                (l\<lparr>lg_issued := (lg_issued l)[sequence := entry], lg_acks := lg_acks l + 1\<rparr>, Inr (is_intended entry)))
      | _ \<Rightarrow> (l, Inl (NotOneVersion sequence versions)))"

text \<open>The payload of a record, read back: the bytes behind the sequence have to be all there.\<close>

definition read_payload :: "nat \<Rightarrow> nat \<Rightarrow> wire_record \<Rightarrow> ledger_error + nat" where
  "read_payload log_ix size_bytes r =
     (case wr_patch r of
        JString s \<Rightarrow>
          if length s \<noteq> size_bytes \<or> \<not> is_ascii s then Inl (BytesChanged log_ix (wr_version r))
          else if length s < 16 then Inl (IndexPanic 16)
          else if \<not> list_all ((=) (CHR ''x'')) (drop 16 s)
          then Inl (BytesChanged log_ix (wr_version r))
          else ok_or (parse_hex (take 16 s)) (InvalidSequence log_ix (wr_version r))
      | _ \<Rightarrow> Inl (NotAString log_ix (wr_version r)))"

text \<open>
  The digits of the sequence are read as a number, so a byte changed in them can pass: an upper-case
  digit, and a plus sign for the first zero.
\<close>

lemma changed_digits_pass:
  "payload 10 17 = Some (JString ''000000000000000ax'')"
  "read_payload k 17 \<lparr>wr_version = v, wr_patch = JString ''000000000000000Ax''\<rparr> = Inr 10"
  "read_payload k 17 \<lparr>wr_version = v, wr_patch = JString ''+00000000000000ax''\<rparr> = Inr 10"
  by (simp_all add: payload_def hex16_def read_payload_def is_ascii_def parse_hex_def hex_value_def u64_max_def ok_or_def Let_def, code_simp)

definition take_record :: "id \<Rightarrow> wire_record \<Rightarrow> ledger \<Rightarrow> ledger \<times> (ledger_error + nat)" where
  "take_record i r l =
     (case bt_get (lg_streams l) i of
        None \<Rightarrow> (l, Inl (RecordsOnUnknown i))
      | Some st \<Rightarrow>
          if wr_version r \<noteq> ls_next st then (l, Inl (Noncontiguous i (ls_next st) (wr_version r)))
          else if ls_credit st = 0 then (l, Inl (CreditViolation i (wr_version r)))
          else
            let st = st\<lparr>ls_credit := ls_credit st - 1, ls_next := ls_next st + 1\<rparr>;
                l = l\<lparr>lg_streams := bt_insert i st (lg_streams l)\<rparr>
            in case read_payload (ls_log st) (lg_patch_size l) r of
                Inl e \<Rightarrow> (l, Inl e)
              | Inr sequence \<Rightarrow>
                  (case ledger_bind (ls_log st) (wr_version r) sequence l of
                     (l, Inl e) \<Rightarrow> (l, Inl e)
                   | (l, Inr _) \<Rightarrow> (l, Inr (is_intended (lg_issued l ! sequence)))))"

fun ledger_records :: "id \<Rightarrow> wire_record list \<Rightarrow> ledger \<Rightarrow> ledger \<times> (ledger_error + nat list)" where
  "ledger_records i [] l = (l, Inr [])"
| "ledger_records i (r # rs) l =
     (case take_record i r l of
        (l, Inl e) \<Rightarrow> (l, Inl e)
      | (l, Inr t) \<Rightarrow> map_prod (\<lambda>l. l) (\<lambda>ts. rbind ts (\<lambda>ts. Inr (t # ts))) (ledger_records i rs l))"

text \<open>
  \<open>last_key_value().map_or(0, ..)\<close> of a log, \<open>None\<close> where the index panics; then \<open>complete\<close>, \<open>finish\<close>
  and \<open>replay\<close>. The streams are visited by id, where the code's hash map has an order of its own.
\<close>

definition last_version :: "('v::zero, 's) btree_map \<Rightarrow> 'v" where
  "last_version m = (if m = [] then 0 else fst (last m))"

definition log_end :: "ledger \<Rightarrow> nat \<Rightarrow> version option" where
  "log_end l log_ix =
     (if log_ix < length (lg_canonical l) then Some (last_version (lg_canonical l ! log_ix)) else None)"

fun streams_done :: "ledger \<Rightarrow> (id \<times> ledger_stream) list \<Rightarrow> bool option" where
  "streams_done l [] = Some True"
| "streams_done l ((i, st) # sts) =
     (case log_end l (ls_log st) of
        None \<Rightarrow> None
      | Some n \<Rightarrow> if ls_next st - 1 = n then streams_done l sts else Some False)"

definition ledger_complete :: "ledger \<Rightarrow> bool option" where
  "ledger_complete l = (if lg_acks l = length (lg_issued l) then streams_done l (lg_streams l) else Some False)"

fun check_streams :: "ledger \<Rightarrow> (id \<times> ledger_stream) list \<Rightarrow> ledger_error + unit" where
  "check_streams l [] = Inr ()"
| "check_streams l ((i, st) # sts) =
     (case log_end l (ls_log st) of
        None \<Rightarrow> Inl (IndexPanic (ls_log st))
      | Some n \<Rightarrow>
          if ls_next st - 1 \<noteq> n then Inl (SubscriberLoss i (ls_next st - 1) n)
          else check_streams l sts)"

fun check_logs :: "nat \<Rightarrow> (version, nat) btree_map list \<Rightarrow> ledger_error + unit" where
  "check_logs log_ix [] = Inr ()"
| "check_logs log_ix (m # ms) =
     (if last_version m \<noteq> length m then Inl (NotFromOne log_ix) else check_logs (log_ix + 1) ms)"

definition ledger_finish :: "ledger \<Rightarrow> ledger_error + unit" where
  "ledger_finish l =
     (if lg_acks l \<noteq> length (lg_issued l) then Inl (AckLoss (length (lg_issued l)) (lg_acks l))
      else rbind (check_streams l (lg_streams l)) (\<lambda>_. check_logs 0 (lg_canonical l)))"

definition ledger_replay :: "ledger \<Rightarrow> ledger" where
  "ledger_replay l = l\<lparr>lg_streams := []\<rparr>"

section \<open>Runs\<close>

text \<open>
  What the harness tells the ledger, in the order it does, each call followed by \<open>?\<close>.
\<close>

datatype ledger_op =
    Issue nat nat
  | Sub id nat version nat
  | Grant id nat
  | Acked nat "version list" version
  | Got id "wire_record list"

fun ledger_do :: "ledger_op \<Rightarrow> ledger \<Rightarrow> ledger_error + ledger" where
  "ledger_do (Issue log_ix t) l = Inr (fst (ledger_issue log_ix t l))"
| "ledger_do (Sub i log_ix v n) l = (case ledger_subscribe i log_ix v n l of (l, r) \<Rightarrow> rbind r (\<lambda>_. Inr l))"
| "ledger_do (Grant i n) l = (case ledger_grant i n l of (l, r) \<Rightarrow> rbind r (\<lambda>_. Inr l))"
| "ledger_do (Acked s vs sy) l = (case ledger_ack s vs sy l of (l, r) \<Rightarrow> rbind r (\<lambda>_. Inr l))"
| "ledger_do (Got i rs) l = (case ledger_records i rs l of (l, r) \<Rightarrow> rbind r (\<lambda>_. Inr l))"

fun ledger_run :: "ledger_op list \<Rightarrow> ledger \<Rightarrow> ledger_error + ledger" where
  "ledger_run [] l = Inr l"
| "ledger_run (x # xs) l = rbind (ledger_do x l) (ledger_run xs)"

section \<open>What a passing run shows\<close>

definition issued_logs :: "ledger_op list \<Rightarrow> nat list" where
  "issued_logs xs = concat (map (\<lambda>x. case x of Issue k t \<Rightarrow> [k] | _ \<Rightarrow> []) xs)"

definition acks_of :: "ledger_op list \<Rightarrow> nat \<Rightarrow> (version list \<times> version) list" where
  "acks_of xs s = concat (map (\<lambda>x. case x of Acked s' vs sy \<Rightarrow> if s' = s then [(vs, sy)] else [] | _ \<Rightarrow> []) xs)"

definition seen :: "ledger_op list \<Rightarrow> id \<Rightarrow> wire_record list" where
  "seen xs i = concat (map (\<lambda>x. case x of Got i' rs \<Rightarrow> if i' = i then rs else [] | _ \<Rightarrow> []) xs)"

definition credit_of :: "ledger_op list \<Rightarrow> id \<Rightarrow> nat" where
  "credit_of xs i = sum_list (map (\<lambda>x. case x of Sub i' k v n \<Rightarrow> if i' = i then n else 0 | Grant i' n \<Rightarrow> if i' = i then n else 0 | _ \<Rightarrow> 0) xs)"

definition subs_of :: "ledger_op list \<Rightarrow> id \<Rightarrow> (nat \<times> version) list" where
  "subs_of xs i = concat (map (\<lambda>x. case x of Sub i' k v n \<Rightarrow> if i' = i then [(k, v)] else [] | _ \<Rightarrow> []) xs)"

lemma trace_snoc [simp]:
  "issued_logs (xs @ [x]) = issued_logs xs @ (case x of Issue k t \<Rightarrow> [k] | _ \<Rightarrow> [])"
  "acks_of (xs @ [x]) s = acks_of xs s @ (case x of Acked s' vs sy \<Rightarrow> if s' = s then [(vs, sy)] else [] | _ \<Rightarrow> [])"
  "seen (xs @ [x]) i = seen xs i @ (case x of Got i' rs \<Rightarrow> if i' = i then rs else [] | _ \<Rightarrow> [])"
  "subs_of (xs @ [x]) i = subs_of xs i @ (case x of Sub i' k v n \<Rightarrow> if i' = i then [(k, v)] else [] | _ \<Rightarrow> [])"
  "credit_of (xs @ [x]) i = credit_of xs i +
    (case x of Sub i' k v n \<Rightarrow> if i' = i then n else 0 | Grant i' n \<Rightarrow> if i' = i then n else 0 | _ \<Rightarrow> 0)"
  by (simp_all add: issued_logs_def acks_of_def seen_def subs_of_def credit_of_def)

lemma trace_Nil [simp]:
  "issued_logs [] = []" "acks_of [] s = []" "seen [] i = []" "subs_of [] i = []" "credit_of [] i = 0"
  by (simp_all add: issued_logs_def acks_of_def seen_def subs_of_def credit_of_def)

text \<open>The version map of a log, and what holds of it and the payloads issued.\<close>

definition canon :: "ledger \<Rightarrow> nat \<Rightarrow> version \<Rightarrow> nat option" where
  "canon l k v = (if k < length (lg_canonical l) then bt_get (lg_canonical l ! k) v else None)"

definition canon_ok :: "nat \<Rightarrow> ledger \<Rightarrow> bool" where
  "canon_ok n l \<longleftrightarrow> length (lg_canonical l) = n \<and> (\<forall>m \<in> set (lg_canonical l). bt_wf m) \<and>
     (\<forall>k v s. canon l k v = Some s \<longrightarrow> 0 < v \<and> s < length (lg_issued l) \<and> is_log (lg_issued l ! s) = k \<and>
        is_observed (lg_issued l ! s) = Some v)"

lemma bind_ok:
  assumes "ledger_bind k v s l = (l', Inr u)" "canon_ok n l"
  shows "canon_ok n l' \<and> canon l' k v = Some s \<and> (\<forall>k' v' s'. canon l k' v' = Some s' \<longrightarrow> canon l' k' v' = Some s') \<and>
    k < n \<and> s < length (lg_issued l) \<and> is_log (lg_issued l ! s) = k \<and> 
    (\<exists>m. l' = l\<lparr>lg_canonical := m, lg_issued := (lg_issued l)[s := (lg_issued l ! s)\<lparr>is_observed := Some v\<rparr>]\<rparr>)"
proof -
  have k: "k < length (lg_canonical l)" "v \<noteq> 0" "s < length (lg_issued l)" "is_log (lg_issued l ! s) = k"
      and old: "bt_get (lg_canonical l ! k) v \<in> {None, Some s}" "is_observed (lg_issued l ! s) \<in> {None, Some v}"
      and l': "l' = l\<lparr>lg_canonical := (lg_canonical l)[k := bt_insert v s (lg_canonical l ! k)],
        lg_issued := (lg_issued l)[s := (lg_issued l ! s)\<lparr>is_observed := Some v\<rparr>]\<rparr>"
    using assms(1) by (auto simp: ledger_bind_def Let_def split: if_splits)
  have c: "canon l' k' v' = (if k' = k \<and> v' = v then Some s else canon l k' v')" for k' v'
    using k by (auto simp: canon_def l' nth_list_update)
  have "canon l k' v' = Some s \<Longrightarrow> k' = k \<and> v' = v" for k' v'
    using assms(2) old(2) k(4) by (auto simp: canon_ok_def)
  then have "canon_ok n l'"
    using assms(2) k unfolding canon_ok_def c
    by (auto simp: l' nth_list_update split: if_splits dest!: set_update_subset_insert [THEN subsetD])
  moreover have "canon l k' v' = Some s' \<Longrightarrow> canon l' k' v' = Some s'" for k' v' s'
  proof -
    have "canon l k v \<in> {None, Some s}" using old(1) k(1) by (simp add: canon_def)
    then show "canon l k' v' = Some s' \<Longrightarrow> ?thesis" by (auto simp: c)
  qed
  ultimately show ?thesis using k assms(2) l' c by (auto simp: canon_ok_def)
qed

definition ack_ok :: "ledger_op list \<Rightarrow> ledger \<Rightarrow> nat \<Rightarrow> bool" where
  "ack_ok xs l s \<longleftrightarrow>
     (case if s < length (lg_issued l) then is_ack (lg_issued l ! s) else None of
        None \<Rightarrow> acks_of xs s = []
      | Some v \<Rightarrow> canon l (is_log (lg_issued l ! s)) v = Some s \<and>
          (\<exists>synced. acks_of xs s = [([v], synced)] \<and> (lg_durability l = Durable \<longrightarrow> v \<le> synced)))"

definition stream_ok :: "ledger_op list \<Rightarrow> ledger \<Rightarrow> id \<Rightarrow> bool" where
  "stream_ok xs l i \<longleftrightarrow>
     (case bt_get (lg_streams l) i of
        None \<Rightarrow> subs_of xs i = [] \<and> seen xs i = [] \<and> credit_of xs i = 0
      | Some st \<Rightarrow> (\<exists>start. subs_of xs i = [(ls_log st, start)] \<and> start < ls_next st \<and>
          map wr_version (seen xs i) = [start + 1..<ls_next st] \<and>
          (\<forall>r \<in> set (seen xs i). \<exists>s. read_payload (ls_log st) (lg_patch_size l) r = Inr s \<and>
             canon l (ls_log st) (wr_version r) = Some s) \<and>
          length (seen xs i) + ls_credit st = credit_of xs i))"

definition ledger_inv :: "nat \<Rightarrow> ledger_op list \<Rightarrow> ledger \<Rightarrow> bool" where
  "ledger_inv n xs l \<longleftrightarrow> canon_ok n l \<and> map is_log (lg_issued l) = issued_logs xs \<and>
     lg_acks l = length (filter (\<lambda>e. is_ack e \<noteq> None) (lg_issued l)) \<and>
     bt_wf (lg_streams l) \<and> (\<forall>s. ack_ok xs l s) \<and> (\<forall>i. stream_ok xs l i)"

definition grows :: "ledger \<Rightarrow> ledger \<Rightarrow> bool" where
  "grows l l' \<longleftrightarrow> (\<forall>k v s. canon l k v = Some s \<longrightarrow> canon l' k v = Some s)"

lemma stream_ok_grows:
  assumes "stream_ok xs l i" "grows l l'" "bt_get (lg_streams l') i = bt_get (lg_streams l) i" "lg_patch_size l' = lg_patch_size l"
    and "seen xs' i = seen xs i" "subs_of xs' i = subs_of xs i" "credit_of xs' i = credit_of xs i"
  shows "stream_ok xs' l' i"
  using assms unfolding stream_ok_def grows_def by (auto split: option.splits) blast+

lemma ack_ok_grows:
  assumes "ack_ok xs l s" "grows l l'" "acks_of xs' s = acks_of xs s" "lg_durability l' = lg_durability l"
    and "s < length (lg_issued l) \<longleftrightarrow> s < length (lg_issued l')"
    and "s < length (lg_issued l) \<longrightarrow> is_ack (lg_issued l' ! s) = is_ack (lg_issued l ! s) \<and> is_log (lg_issued l' ! s) = is_log (lg_issued l ! s)"
  shows "ack_ok xs' l' s"
  using assms unfolding ack_ok_def grows_def by (cases "s < length (lg_issued l)") (auto split: option.splits)

lemma grows_refl [simp]: "lg_canonical l' = lg_canonical l \<Longrightarrow> grows l l'"
  by (simp add: grows_def canon_def)

lemma inv_new: "ledger_inv n [] (ledger_new n size_bytes d)"
  by (auto simp: ledger_inv_def canon_ok_def canon_def ledger_new_def ack_ok_def stream_ok_def bt_get_def)

lemma inv_issue: "ledger_inv n xs l \<Longrightarrow> ledger_inv n (xs @ [Issue k t]) (fst (ledger_issue k t l))"
proof -
  let ?l = "fst (ledger_issue k t l)"
  assume inv: "ledger_inv n xs l"
  have same: "canon ?l = canon l" by (simp add: canon_def ledger_issue_def fun_eq_iff)
  have old: "0 < v \<and> s < length (lg_issued l) \<and> is_log (lg_issued l ! s) = k' \<and> is_observed (lg_issued l ! s) = Some v"
      if "canon l k' v = Some s" for k' v s
    using inv that by (simp add: ledger_inv_def canon_ok_def)
  have "canon_ok n ?l"
    using inv old unfolding ledger_inv_def canon_ok_def same by (simp add: ledger_issue_def nth_append) (metis less_SucI)
  moreover have "ack_ok (xs @ [Issue k t]) ?l s" for s
  proof -
    have "ack_ok xs l s" using inv by (simp add: ledger_inv_def)
    then show ?thesis unfolding ack_ok_def same
      by (cases "s < length (lg_issued l)"; cases "s = length (lg_issued l)") (simp_all add: ledger_issue_def nth_append cong: option.case_cong)
  qed
  moreover have "stream_ok (xs @ [Issue k t]) ?l i" for i
  proof -
    have "stream_ok xs l i" using inv by (simp add: ledger_inv_def)
    then show ?thesis by (rule stream_ok_grows) (simp_all add: ledger_issue_def)
  qed
  ultimately show ?thesis using inv by (simp add: ledger_inv_def ledger_issue_def)
qed

lemma inv_streams_only:
  assumes "ledger_inv n xs l" "lg_canonical l' = lg_canonical l" "lg_issued l' = lg_issued l" "lg_patch_size l' = lg_patch_size l"
    "lg_durability l' = lg_durability l" "lg_acks l' = lg_acks l" "lg_streams l' = bt_insert i st (lg_streams l)"
    and "issued_logs xs' = issued_logs xs" "acks_of xs' = acks_of xs" "stream_ok xs' l' i"
    and "\<forall>j. j \<noteq> i \<longrightarrow> seen xs' j = seen xs j \<and> subs_of xs' j = subs_of xs j \<and> credit_of xs' j = credit_of xs j"
  shows "ledger_inv n xs' l'"
proof -
  have same: "canon l' = canon l" using assms(2) by (simp add: canon_def fun_eq_iff)
  have "stream_ok xs' l' j" for j
  proof (cases "j = i")
    case False
    have "stream_ok xs l j" using assms(1) by (simp add: ledger_inv_def)
    then show ?thesis by (rule stream_ok_grows) (use False assms in simp_all)
  qed (use assms in simp)
  moreover have "ack_ok xs' l' s" for s
  proof -
    have "ack_ok xs l s" using assms(1) by (simp add: ledger_inv_def)
    then show ?thesis by (rule ack_ok_grows) (use assms in simp_all)
  qed
  moreover have "canon_ok n l'" using assms(1-3) by (simp add: ledger_inv_def canon_ok_def same)
  ultimately show ?thesis using assms(1-9) by (simp add: ledger_inv_def)
qed

lemma inv_subscribe:
  assumes "ledger_inv n xs l" "ledger_subscribe i k v c l = (l', Inr u)"
  shows "ledger_inv n (xs @ [Sub i k v c]) l'"
proof -
  have "stream_ok xs l i" using assms(1) by (simp add: ledger_inv_def)
  then show ?thesis using assms(2)
    by (intro inv_streams_only [OF assms(1), of l' i "\<lparr>ls_log = k, ls_next = v + 1, ls_credit = c\<rparr>"])
      (auto simp: ledger_subscribe_def stream_ok_def split: if_splits)
qed

lemma inv_grant:
  assumes "ledger_inv n xs l" "ledger_grant i c l = (l', Inr u)"
  shows "ledger_inv n (xs @ [Grant i c]) l'"
proof -
  obtain st where st: "bt_get (lg_streams l) i = Some st" using assms(2) by (auto simp: ledger_grant_def split: option.splits)
  have same: "canon (l\<lparr>lg_streams := m\<rparr>) = canon l" for m by (simp add: canon_def fun_eq_iff)
  have "stream_ok xs l i" using assms(1) by (simp add: ledger_inv_def)
  then show ?thesis using assms(2) st
    by (intro inv_streams_only [OF assms(1), of l' i "st\<lparr>ls_credit := ls_credit st + c\<rparr>"])
      (auto simp: ledger_grant_def stream_ok_def same)
qed

lemma ack_count: "length (filter (\<lambda>e. is_ack e \<noteq> None) es) = length (filter (\<lambda>a. a \<noteq> None) (map is_ack es))"
  by (simp add: filter_map comp_def)

lemma inv_bind:
  assumes "ledger_inv n xs l" "ledger_bind k v s l = (l', Inr u)"
  shows "ledger_inv n xs l' \<and> canon l' k v = Some s \<and> grows l l' \<and> k < n \<and> s < length (lg_issued l) \<and>
    lg_streams l' = lg_streams l \<and> lg_patch_size l' = lg_patch_size l \<and> lg_durability l' = lg_durability l \<and>
    length (lg_issued l') = length (lg_issued l) \<and> is_log (lg_issued l' ! s) = k \<and> is_ack (lg_issued l' ! s) = is_ack (lg_issued l ! s)"
proof -
  have "canon_ok n l" using assms(1) by (simp add: ledger_inv_def)
  from bind_ok [OF assms(2) this] obtain m where ok: "canon_ok n l'" "canon l' k v = Some s" "grows l l'" "k < n"
      "s < length (lg_issued l)" "is_log (lg_issued l ! s) = k"
      and l': "l' = l\<lparr>lg_canonical := m, lg_issued := (lg_issued l)[s := (lg_issued l ! s)\<lparr>is_observed := Some v\<rparr>]\<rparr>"
    by (auto simp: grows_def)
  have "ack_ok xs l' s'" for s'
  proof -
    have "ack_ok xs l s'" using assms(1) by (simp add: ledger_inv_def)
    then show ?thesis using ok(3) by (rule ack_ok_grows) (use ok(5) in \<open>simp_all add: l' nth_list_update\<close>)
  qed
  moreover have "stream_ok xs l' i" for i
  proof -
    have "stream_ok xs l i" using assms(1) by (simp add: ledger_inv_def)
    then show ?thesis using ok(3) by (rule stream_ok_grows) (simp_all add: l')
  qed
  moreover have "map is_log (lg_issued l') = map is_log (lg_issued l)"
    "map is_ack (lg_issued l') = map is_ack (lg_issued l)"
    using ok(5) by (simp_all add: l' map_update list_update_same_conv)
  moreover from this have "length (filter (\<lambda>e. is_ack e \<noteq> None) (lg_issued l')) = length (filter (\<lambda>e. is_ack e \<noteq> None) (lg_issued l))"
    unfolding ack_count by simp
  moreover have "lg_acks l' = lg_acks l" "lg_streams l' = lg_streams l" by (simp_all add: l')
  ultimately have "ledger_inv n xs l'" using assms(1) ok(1) by (simp add: ledger_inv_def)
  then show ?thesis using ok by (simp add: l')
qed

lemma inv_ack:
  assumes "ledger_inv n xs l" "ledger_ack s vs synced l = (l', Inr t)"
  shows "ledger_inv n (xs @ [Acked s vs synced]) l'"
proof -
  obtain v l1 where vs: "vs = [v]" and s: "s < length (lg_issued l)" "is_ack (lg_issued l ! s) = None"
      and dur: "lg_durability l = Durable \<longrightarrow> v \<le> synced" and b: "ledger_bind (is_log (lg_issued l ! s)) v s l = (l1, Inr ())"
      and l': "l' = l1\<lparr>lg_issued := (lg_issued l1)[s := (lg_issued l1 ! s)\<lparr>is_ack := Some v\<rparr>], lg_acks := lg_acks l1 + 1\<rparr>"
    using assms(2) by (auto simp: ledger_ack_def Let_def split: list.splits if_splits prod.splits sum.splits)
  from inv_bind [OF assms(1) b] have l1: "ledger_inv n xs l1" "canon l1 (is_log (lg_issued l ! s)) v = Some s"
      "s < length (lg_issued l1)" "is_log (lg_issued l1 ! s) = is_log (lg_issued l ! s)" "is_ack (lg_issued l1 ! s) = None"
      "lg_durability l1 = lg_durability l" using s by auto
  have same: "canon l' = canon l1" by (simp add: canon_def l' fun_eq_iff)
  have "ack_ok (xs @ [Acked s vs synced]) l' s'" for s'
  proof -
    have ack: "ack_ok xs l1 s'" using l1(1) by (simp add: ledger_inv_def)
    show ?thesis
    proof (cases "s' = s")
      case True
      then show ?thesis using ack l1 dur unfolding ack_ok_def same by (simp add: l' vs)
    next
      case False
      then show ?thesis using ack unfolding ack_ok_def same
        by (cases "s' < length (lg_issued l1)") (simp_all add: l' cong: option.case_cong)
    qed
  qed
  moreover have "stream_ok (xs @ [Acked s vs synced]) l' i" for i
  proof -
    have "stream_ok xs l1 i" using l1(1) by (simp add: ledger_inv_def)
    then show ?thesis by (rule stream_ok_grows) (simp_all add: l')
  qed
  moreover have "map is_log (lg_issued l') = map is_log (lg_issued l1)"
    using l1(3) by (simp add: l' map_update list_update_same_conv)
  moreover have "length (filter (\<lambda>e. is_ack e \<noteq> None) (lg_issued l')) = Suc (length (filter (\<lambda>e. is_ack e \<noteq> None) (lg_issued l1)))"
  proof -
    have "lg_issued l1 = take s (lg_issued l1) @ lg_issued l1 ! s # drop (Suc s) (lg_issued l1)"
      using l1(3) by (rule id_take_nth_drop)
    from arg_cong [OF this, of "\<lambda>es. length (filter (\<lambda>e. is_ack e \<noteq> None) es)"] show ?thesis
      using l1(3,5) by (simp add: l' upd_conv_take_nth_drop del: append_take_drop_id)
  qed
  moreover have "canon_ok n l'"
    using l1(1,3) unfolding ledger_inv_def canon_ok_def same by (simp add: l' nth_list_update)
  ultimately show ?thesis using l1(1) by (simp add: ledger_inv_def l')
qed

lemma inv_take_record:
  assumes "ledger_inv n (xs @ [Got i ds]) l" "take_record i r l = (l', Inr t)"
  shows "ledger_inv n (xs @ [Got i (ds @ [r])]) l'"
proof -
  let ?xs = "xs @ [Got i ds]" and ?xs' = "xs @ [Got i (ds @ [r])]"
  obtain st s l1 where st: "bt_get (lg_streams l) i = Some st" "wr_version r = ls_next st" "0 < ls_credit st"
      and s: "read_payload (ls_log st) (lg_patch_size l) r = Inr s" and b: "ledger_bind (ls_log st) (wr_version r) s l1 = (l', Inr ())"
      and l1: "l1 = l\<lparr>lg_streams := bt_insert i (st\<lparr>ls_credit := ls_credit st - 1, ls_next := ls_next st + 1\<rparr>) (lg_streams l)\<rparr>"
    using assms(2) by (auto simp: take_record_def Let_def split: if_splits option.splits sum.splits prod.splits)
  have same: "canon l1 = canon l" by (simp add: canon_def l1 fun_eq_iff)
  \<comment> \<open>binding does not look at the streams, so it may as well come first\<close>
  obtain l2 where l2: "ledger_bind (ls_log st) (wr_version r) s l = (l2, Inr ())" "l' = l2\<lparr>lg_streams := lg_streams l1\<rparr>"
    using b by (auto simp: ledger_bind_def l1 Let_def split: if_splits)
  from inv_bind [OF assms(1) l2(1)] have i2: "ledger_inv n ?xs l2" "canon l2 (ls_log st) (wr_version r) = Some s"
      "lg_streams l2 = lg_streams l" "lg_patch_size l2 = lg_patch_size l" by auto
  have "stream_ok ?xs l2 i" using i2(1) by (simp add: ledger_inv_def)
  then obtain start where old: "subs_of xs i = [(ls_log st, start)]" "start < ls_next st"
      "map wr_version (seen xs i @ ds) = [start + 1..<ls_next st]"
      "\<forall>r \<in> set (seen xs i @ ds). \<exists>s. read_payload (ls_log st) (lg_patch_size l) r = Inr s \<and> canon l2 (ls_log st) (wr_version r) = Some s"
      "length (seen xs i @ ds) + ls_credit st = credit_of xs i"
    using st(1) i2(3,4) by (auto simp: stream_ok_def)
  have same: "canon l' = canon l2" by (simp add: canon_def l2 fun_eq_iff)
  have "map wr_version (seen xs i @ ds @ [r]) = [start + 1..<ls_next st + 1]"
    using old(2,3) st(2) by (simp flip: append_assoc)
  then have "stream_ok ?xs' l' i"
    using old(1,2,4,5) st i2(2,4) s unfolding stream_ok_def same
    by (auto simp: l2(2) l1 simp del: map_append intro!: exI [of _ start])
  moreover have "lg_streams l' = bt_insert i (st\<lparr>ls_credit := ls_credit st - 1, ls_next := ls_next st + 1\<rparr>) (lg_streams l2)"
    by (simp add: l2(2) l1 i2(3))
  ultimately show ?thesis
    by (intro inv_streams_only [OF i2(1), of l' i]) (simp_all add: l2(2) fun_eq_iff)
qed

lemma inv_records:
  assumes "ledger_inv n (xs @ [Got i ds]) l" "ledger_records i rs l = (l', Inr ts)"
  shows "ledger_inv n (xs @ [Got i (ds @ rs)]) l'"
  using assms
proof (induction rs arbitrary: l ds ts)
  case (Cons r rs)
  obtain l1 t ts1 where t: "take_record i r l = (l1, Inr t)" "ledger_records i rs l1 = (l', Inr ts1)"
    using Cons.prems(2) by (cases "take_record i r l"; cases "snd (take_record i r l)"; cases "ledger_records i rs (fst (take_record i r l))")
      (auto simp: rbind_def split: sum.splits)
  from inv_take_record [OF Cons.prems(1) t(1)] Cons.IH [OF _ t(2), of "ds @ [r]"] show ?case by simp
qed simp

lemma inv_run:
  assumes "ledger_run ys l = Inr l'" "ledger_inv n xs l"
  shows "ledger_inv n (xs @ ys) l'"
  using assms
proof (induction ys arbitrary: xs l)
  case (Cons y ys)
  obtain l1 where l1: "ledger_do y l = Inr l1" "ledger_run ys l1 = Inr l'" using Cons.prems(1) by (cases "ledger_do y l") auto
  have "ledger_inv n (xs @ [y]) l1"
  proof (cases y)
    case (Got i rs)
    have "ledger_inv n (xs @ [Got i []]) l"
      using Cons.prems(2) by (auto simp: ledger_inv_def ack_ok_def stream_ok_def cong: option.case_cong)
    from inv_records [OF this, of rs] show ?thesis using l1(1) by (cases "ledger_records i rs l"; cases "snd (ledger_records i rs l)") (auto simp: Got)
  qed (use l1(1) Cons.prems(2) inv_issue inv_subscribe inv_grant inv_ack in \<open>fastforce split: prod.splits simp: rbind_def split: sum.splits\<close>)+
  from Cons.IH [OF l1(2) this] show ?case by simp
qed simp

lemma records_params:
  "ledger_records i rs l = (l', r) \<Longrightarrow> lg_patch_size l' = lg_patch_size l \<and> lg_durability l' = lg_durability l"
proof (induction rs arbitrary: l r)
  case (Cons x xs)
  obtain l1 t where t: "take_record i x l = (l1, t)" by (cases "take_record i x l")
  then have "lg_patch_size l1 = lg_patch_size l \<and> lg_durability l1 = lg_durability l"
    by (auto simp: take_record_def ledger_bind_def Let_def split: if_splits option.splits sum.splits prod.splits)
  then show ?case using Cons t by (cases t; cases "ledger_records i xs l1") auto
qed simp

lemma do_params: "ledger_do x l = Inr l' \<Longrightarrow> lg_patch_size l' = lg_patch_size l \<and> lg_durability l' = lg_durability l"
proof (cases x)
  case (Got i rs)
  then show "ledger_do x l = Inr l' \<Longrightarrow> ?thesis"
    by (cases "ledger_records i rs l") (auto simp: rbind_def split: sum.splits dest: records_params)
qed (auto simp: ledger_issue_def ledger_subscribe_def ledger_grant_def ledger_ack_def ledger_bind_def Let_def rbind_def
    split: if_splits option.splits sum.splits prod.splits list.splits)

lemma run_params: "ledger_run xs l = Inr l' \<Longrightarrow> lg_patch_size l' = lg_patch_size l \<and> lg_durability l' = lg_durability l"
proof (induction xs arbitrary: l)
  case (Cons x xs)
  then show ?case by (cases "ledger_do x l") (auto dest: do_params)
qed simp

lemma check_logs_ok: "check_logs k ms = Inr u \<Longrightarrow> m \<in> set ms \<Longrightarrow> last_version m = length m"
  by (induction k ms rule: check_logs.induct) (auto split: if_splits)

lemma check_streams_ok:
  "check_streams l sts = Inr u \<Longrightarrow> (i, st) \<in> set sts \<Longrightarrow> log_end l (ls_log st) = Some (ls_next st - 1)"
  by (induction l sts rule: check_streams.induct) (auto split: if_splits option.splits)

lemma versions_from_one:
  fixes m :: "(nat, nat) btree_map"
  assumes "bt_wf m" "\<forall>v \<in> fst ` set m. 0 < v" "last_version m = length m"
  shows "map fst m = [1..<length m + 1]"
proof -
  have ks: "sorted (map fst m)" "distinct (map fst m)" using assms(1) by (auto simp: bt_wf_def strict_sorted_iff)
  have "v \<le> length m" if "v \<in> set (map fst m)" for v
  proof -
    obtain j where j: "j < length (map fst m)" "map fst m ! j = v" using \<open>v \<in> set (map fst m)\<close> by (meson in_set_conv_nth)
    then have "map fst m ! j \<le> map fst m ! (length m - 1)" using ks(1) by (intro sorted_nth_mono) auto
    moreover have "m \<noteq> []" using j by auto
    ultimately show ?thesis using assms(3) j by (simp add: last_version_def last_conv_nth)
  qed
  then have sub: "set (map fst m) \<subseteq> {1..<length m + 1}" using assms(2) by fastforce
  then have "set (map fst m) = {1..<length m + 1}" using ks(2) by (intro card_subset_eq) (simp_all add: distinct_card del: set_map)
  then show ?thesis using ks by (intro sorted_distinct_set_unique) (simp_all del: upt_Suc)
qed

definition history_of :: "ledger \<Rightarrow> nat \<Rightarrow> nat list" where
  "history_of l k = map snd (lg_canonical l ! k)"

lemma canon_history:
  assumes "canon_ok n l" "k < n" "last_version (lg_canonical l ! k) = length (lg_canonical l ! k)"
  shows "canon l k v = Some s \<longleftrightarrow> 0 < v \<and> v \<le> length (history_of l k) \<and> history_of l k ! (v - 1) = s"
proof -
  let ?m = "lg_canonical l ! k"
  have m: "bt_wf ?m" "canon l k v' = bt_get ?m v'" for v' using assms(1,2) by (auto simp: canon_ok_def canon_def)
  have "0 < v'" if "v' \<in> fst ` set ?m" for v'
  proof -
    have "canon l k v' \<noteq> None" using that m(2) bt_get_eq_None_iff [of ?m v'] by simp
    then obtain s' where "canon l k v' = Some s'" by blast
    then show ?thesis using assms(1) by (simp add: canon_ok_def)
  qed
  then have keys: "map fst ?m = [1..<length ?m + 1]" using m(1) assms(3) by (intro versions_from_one) auto
  have nth: "fst (?m ! j) = j + 1" if "j < length ?m" for j
  proof -
    have "fst (?m ! j) = map fst ?m ! j" using that by simp
    also have "\<dots> = j + 1" using that by (subst keys) (simp del: upt_Suc)
    finally show ?thesis .
  qed
  have "canon l k v = Some s \<longleftrightarrow> (v, s) \<in> set ?m" using m bt_get_Some_iff by metis
  also have "\<dots> \<longleftrightarrow> (\<exists>j < length ?m. v = j + 1 \<and> snd (?m ! j) = s)"
    unfolding in_set_conv_nth using nth by (metis prod.collapse fst_conv snd_conv)
  also have "\<dots> \<longleftrightarrow> 0 < v \<and> v \<le> length (history_of l k) \<and> history_of l k ! (v - 1) = s"
    by (cases v) (auto simp: history_of_def)
  finally show ?thesis .
qed

text \<open>The last check, read off the invariant.\<close>

lemma passed_log: "ledger_finish l = Inr u \<Longrightarrow> k < length (lg_canonical l) \<Longrightarrow> last_version (lg_canonical l ! k) = length (lg_canonical l ! k)"
  by (auto simp: ledger_finish_def rbind_def split: if_splits sum.splits intro: check_logs_ok)

lemma passed_stream:
  "ledger_finish l = Inr u \<Longrightarrow> bt_wf (lg_streams l) \<Longrightarrow> bt_get (lg_streams l) i = Some st \<Longrightarrow>
    log_end l (ls_log st) = Some (ls_next st - 1)"
  by (rule check_streams_ok [of l "lg_streams l" "()" i])
    (auto simp: ledger_finish_def rbind_def bt_get_Some_iff split: if_splits sum.splits)

lemma issued_log_of:
  "ledger_inv n xs l \<Longrightarrow> length (lg_issued l) = length (issued_logs xs) \<and>
    (s < length (issued_logs xs) \<longrightarrow> is_log (lg_issued l ! s) = issued_logs xs ! s)"
proof -
  assume "ledger_inv n xs l"
  then have eq: "map is_log (lg_issued l) = issued_logs xs" by (simp add: ledger_inv_def)
  have "length (lg_issued l) = length (issued_logs xs)" using arg_cong [OF eq, of length] by simp
  then show ?thesis using nth_map [of s "lg_issued l" is_log] by (simp add: eq)
qed

lemma passed_ack:
  assumes "ledger_inv n xs l" "ledger_finish l = Inr u" and s: "s < length (issued_logs xs)"
  shows "issued_logs xs ! s < n \<and> (\<exists>v synced. canon l (issued_logs xs ! s) v = Some s \<and> acks_of xs s = [([v], synced)] \<and>
    (lg_durability l = Durable \<longrightarrow> v \<le> synced))"
proof -
  note log_of = issued_log_of [OF assms(1), of s]
  have "length (filter (\<lambda>e. is_ack e \<noteq> None) (lg_issued l)) = length (lg_issued l)"
    using assms(1,2) by (simp add: ledger_finish_def ledger_inv_def split: if_splits)
  moreover have "lg_issued l ! s \<in> set (lg_issued l)" using s log_of by simp
  ultimately have "is_ack (lg_issued l ! s) \<noteq> None"
    using length_filter_less [of "lg_issued l ! s" "lg_issued l" "\<lambda>e. is_ack e \<noteq> None"] by auto
  then obtain v where v: "is_ack (lg_issued l ! s) = Some v" by blast
  have "ack_ok xs l s" using assms(1) by (simp add: ledger_inv_def)
  then have "canon l (issued_logs xs ! s) v = Some s" "\<exists>synced. acks_of xs s = [([v], synced)] \<and> (lg_durability l = Durable \<longrightarrow> v \<le> synced)"
    using v s log_of by (simp_all add: ack_ok_def)
  moreover from this(1) have "issued_logs xs ! s < n"
    using assms(1) by (auto simp: canon_def ledger_inv_def canon_ok_def split: if_splits)
  ultimately show ?thesis by blast
qed

lemma passed_history:
  assumes inv: "ledger_inv n xs l" and fin: "ledger_finish l = Inr u" and k: "k < n"
  shows "canon l k v = Some s \<longleftrightarrow> 0 < v \<and> v \<le> length (history_of l k) \<and> history_of l k ! (v - 1) = s"
    and "distinct (history_of l k) \<and> set (history_of l k) = {s. s < length (issued_logs xs) \<and> issued_logs xs ! s = k}"
proof -
  have core: "canon_ok n l" "length (lg_canonical l) = n" using inv by (simp_all add: ledger_inv_def canon_ok_def)
  have hist: "canon l k v = Some s \<longleftrightarrow> 0 < v \<and> v \<le> length (history_of l k) \<and> history_of l k ! (v - 1) = s" for v s
    using canon_history [OF core(1) k] passed_log [OF fin] k core(2) by blast
  then show "canon l k v = Some s \<longleftrightarrow> 0 < v \<and> v \<le> length (history_of l k) \<and> history_of l k ! (v - 1) = s" .
  have facts: "s < length (issued_logs xs) \<and> issued_logs xs ! s = k \<and> is_observed (lg_issued l ! s) = Some v"
    if "canon l k v = Some s" for v s
    using that core(1) issued_log_of [OF inv, of s] by (simp add: canon_ok_def)
  have place: "canon l k (j + 1) = Some (history_of l k ! j)" if "j < length (history_of l k)" for j
    using that by (simp add: hist)
  have "distinct (history_of l k)"
    unfolding distinct_conv_nth using facts [OF place] by (metis add_right_cancel option.inject)
  moreover have "s \<in> set (history_of l k) \<longleftrightarrow> s < length (issued_logs xs) \<and> issued_logs xs ! s = k" for s
  proof
    show "s \<in> set (history_of l k) \<Longrightarrow> s < length (issued_logs xs) \<and> issued_logs xs ! s = k"
      using facts [OF place] by (metis in_set_conv_nth)
    assume "s < length (issued_logs xs) \<and> issued_logs xs ! s = k"
    then obtain v where "canon l k v = Some s" using passed_ack [OF inv fin, of s] by blast
    then have "v - 1 < length (history_of l k)" "history_of l k ! (v - 1) = s" using hist by auto
    then show "s \<in> set (history_of l k)" by (metis nth_mem)
  qed
  ultimately show "distinct (history_of l k) \<and> set (history_of l k) = {s. s < length (issued_logs xs) \<and> issued_logs xs ! s = k}"
    by blast
qed

lemma passed_subscriber:
  assumes inv: "ledger_inv n xs l" and fin: "ledger_finish l = Inr u" and sub: "(k, start) \<in> set (subs_of xs i)"
  shows "k < n \<and> map wr_version (seen xs i) = [start + 1..<length (history_of l k) + 1] \<and>
    map (read_payload k (lg_patch_size l)) (seen xs i) = map Inr (drop start (history_of l k)) \<and> length (seen xs i) \<le> credit_of xs i"
proof -
  have core: "stream_ok xs l i" "bt_wf (lg_streams l)" "length (lg_canonical l) = n"
    using inv by (simp_all add: ledger_inv_def canon_ok_def)
  obtain st where st: "bt_get (lg_streams l) i = Some st" "k = ls_log st" and ok: "start < ls_next st"
      "map wr_version (seen xs i) = [start + 1..<ls_next st]"
      "\<forall>r \<in> set (seen xs i). \<exists>s. read_payload k (lg_patch_size l) r = Inr s \<and> canon l k (wr_version r) = Some s"
      "length (seen xs i) \<le> credit_of xs i"
    using core(1) sub by (auto simp: stream_ok_def split: option.splits)
  have "log_end l k = Some (ls_next st - 1)" using passed_stream [OF fin core(2) st(1)] st(2) by simp
  then have k: "k < n" "ls_next st = length (history_of l k) + 1"
    using ok(1) core(3) passed_log [OF fin, of k] by (auto simp: log_end_def history_of_def split: if_splits)
  have len: "length (seen xs i) = length (history_of l k) - start" using arg_cong [OF ok(2), of length] k(2) by (simp del: upt_Suc)
  have "read_payload k (lg_patch_size l) (seen xs i ! j) = Inr (history_of l k ! (start + j))" if j: "j < length (seen xs i)" for j
  proof -
    have "wr_version (seen xs i ! j) = map wr_version (seen xs i) ! j" using j by simp
    also have "\<dots> = start + 1 + j" unfolding ok(2) using j len k(2) by (simp del: upt_Suc)
    finally have v: "wr_version (seen xs i ! j) = start + 1 + j" .
    obtain s where "read_payload k (lg_patch_size l) (seen xs i ! j) = Inr s" "canon l k (start + 1 + j) = Some s"
      using ok(3) j v by (metis nth_mem)
    then show ?thesis using passed_history(1) [OF inv fin k(1), of "start + 1 + j" s] by simp
  qed
  then have "map (read_payload k (lg_patch_size l)) (seen xs i) = map Inr (drop start (history_of l k))"
    using len by (intro nth_equalityI) simp_all
  then show ?thesis using ok(2,4) k by simp
qed

text \<open>
  A run that passes proves the server right. When a harness got through any sequence of
  appends, acknowledgements, subscriptions, grants and records without an error, and the ledger's
  last check passes, then every log has a history, in which each append of the run to that log
  stands exactly once, whatever order the frames came in; every append was acknowledged exactly
  once, with its place in the history, and as synced where that was promised; and each subscriber
  got exactly the history from its cursor to the end, in order, without a hole and within the
  credit it gave.
\<close>

theorem ledger_is_sound:
  assumes "ledger_run xs (ledger_new n size_bytes d) = Inr l" "ledger_finish l = Inr ()"
  shows "\<exists>h. (\<forall>k < n. distinct (h k) \<and> set (h k) = {s. s < length (issued_logs xs) \<and> issued_logs xs ! s = k}) \<and>
    (\<forall>s < length (issued_logs xs). issued_logs xs ! s < n \<and> (\<exists>v synced. acks_of xs s = [([v], synced)] \<and>
       0 < v \<and> v \<le> length (h (issued_logs xs ! s)) \<and> h (issued_logs xs ! s) ! (v - 1) = s \<and> (d = Durable \<longrightarrow> v \<le> synced))) \<and>
    (\<forall>i k start. (k, start) \<in> set (subs_of xs i) \<longrightarrow>
       map wr_version (seen xs i) = [start + 1..<length (h k) + 1] \<and>
       map (read_payload k size_bytes) (seen xs i) = map Inr (drop start (h k)) \<and>
       length (seen xs i) \<le> credit_of xs i)"
proof -
  have params: "lg_patch_size l = size_bytes" "lg_durability l = d"
    using run_params [OF assms(1)] by (simp_all add: ledger_new_def)
  have inv: "ledger_inv n xs l" using inv_run [OF assms(1) inv_new] by simp
  note sub = passed_subscriber [OF inv assms(2), unfolded params] and hist = passed_history [OF inv assms(2)]
    and ack = passed_ack [OF inv assms(2), unfolded params]
  have "\<exists>v synced. acks_of xs s = [([v], synced)] \<and> 0 < v \<and> v \<le> length (history_of l (issued_logs xs ! s)) \<and>
      history_of l (issued_logs xs ! s) ! (v - 1) = s \<and> (d = Durable \<longrightarrow> v \<le> synced)" if "s < length (issued_logs xs)" for s
    using ack [OF that] hist(1) by blast
  then show ?thesis using sub hist(2) ack by (intro exI [of _ "history_of l"]) blast
qed

definition passing_run :: "ledger_op list" where
  "passing_run =
     [Issue 0 5, Issue 0 6, Sub 1 0 0 2, Got 1 [\<lparr>wr_version = 1, wr_patch = JString ''0000000000000001x''\<rparr>],
      Acked 1 [1] 1, Acked 0 [2] 2, Got 1 [\<lparr>wr_version = 2, wr_patch = JString ''0000000000000000x''\<rparr>]]"

lemma zero_payloads:
  "read_payload k 17 \<lparr>wr_version = v, wr_patch = JString ''0000000000000001x''\<rparr> = Inr 1"
  "read_payload k 17 \<lparr>wr_version = v, wr_patch = JString ''0000000000000000x''\<rparr> = Inr 0"
  by (simp_all add: read_payload_def is_ascii_def parse_hex_def hex_value_def u64_max_def)

theorem ledger_is_sound_witness:
  "\<exists>h. distinct (h (0 :: nat)) \<and> set (h 0) = {0, 1 :: nat} \<and> map (read_payload 0 17) (seen passing_run 1) = map Inr (h 0)"
proof -
  have "\<exists>l. ledger_run passing_run (ledger_new 1 17 Durable) = Inr l \<and> ledger_finish l = Inr ()"
    by (simp add: passing_run_def ledger_new_def ledger_issue_def ledger_subscribe_def take_record_def zero_payloads
        ledger_bind_def ledger_ack_def ledger_finish_def log_end_def last_version_def bt_get_def Let_def)
  then obtain l where "ledger_run passing_run (ledger_new 1 17 Durable) = Inr l" "ledger_finish l = Inr ()" by blast
  from ledger_is_sound [OF this] obtain h where h: "distinct (h 0) \<and> set (h 0) = {s. s < length (issued_logs passing_run) \<and> issued_logs passing_run ! s = 0}"
      "\<forall>i k start. (k, start) \<in> set (subs_of passing_run i) \<longrightarrow> map (read_payload k 17) (seen passing_run i) = map Inr (drop start (h k))"
    by auto
  have "issued_logs passing_run = [0, 0]" by (simp add: passing_run_def issued_logs_def)
  moreover have "{s. s < length [0, 0 :: nat] \<and> [0, 0] ! s = (0 :: nat)} = {0, 1}" by (auto simp: nth_Cons')
  ultimately have "set (h 0) = {0, 1}" using h(1) by simp
  moreover have "(0, 0) \<in> set (subs_of passing_run 1)" by (simp add: passing_run_def subs_of_def)
  then have "map (read_payload 0 17) (seen passing_run 1) = map Inr (drop 0 (h 0))" using h(2) by blast
  ultimately show ?thesis using h(1) by (intro exI [of _ h]) simp
qed

section \<open>What an honest server is never told\<close>

definition honest_step :: "nat \<Rightarrow> nat \<Rightarrow> durability \<Rightarrow> (nat \<Rightarrow> nat list) \<Rightarrow> ledger_op list \<Rightarrow> ledger_op \<Rightarrow> bool" where
  "honest_step n size_bytes d h past x \<longleftrightarrow>
     (case x of
        Issue k t \<Rightarrow> k < n
      | Sub i k start credit \<Rightarrow> k < n \<and> subs_of past i = []
      | Grant i credit \<Rightarrow> subs_of past i \<noteq> []
      | Acked s vs synced \<Rightarrow> s < length (issued_logs past) \<and> acks_of past s = [] \<and>
          (\<exists>v. vs = [v] \<and> 0 < v \<and> v \<le> length (h (issued_logs past ! s)) \<and> h (issued_logs past ! s) ! (v - 1) = s \<and>
             (d = Durable \<longrightarrow> v \<le> synced))
      | Got i rs \<Rightarrow> \<exists>k start. subs_of past i = [(k, start)] \<and> length (seen past i @ rs) \<le> credit_of past i \<and>
          (\<forall>j < length rs. let v = start + length (seen past i) + j in
             v < length (h k) \<and> wr_version (rs ! j) = v + 1 \<and> h k ! v \<le> u64_max \<and>
             h k ! v < length (issued_logs past) \<and> issued_logs past ! (h k ! v) = k \<and>
             payload (h k ! v) size_bytes = Some (wr_patch (rs ! j))))"

fun honest_run :: "nat \<Rightarrow> nat \<Rightarrow> durability \<Rightarrow> (nat \<Rightarrow> nat list) \<Rightarrow> ledger_op list \<Rightarrow> ledger_op list \<Rightarrow> bool" where
  "honest_run n size_bytes d h past [] = True"
| "honest_run n size_bytes d h past (x # xs) = (honest_step n size_bytes d h past x \<and> honest_run n size_bytes d h (past @ [x]) xs)"

lemma hex_of_length: "n < 16 ^ k \<Longrightarrow> 0 < k \<Longrightarrow> length (hex_of n) \<le> k"
proof (induction n arbitrary: k rule: hex_of.induct)
  case (1 n)
  show ?case
  proof (cases "n < 16")
    case False
    then obtain k' where k: "k = Suc k'" "0 < k'" using 1(2,3) by (cases k; cases "k - 1") auto
    then have "n div 16 < 16 ^ k'" using 1(2) by (simp add: less_mult_imp_div_less mult.commute)
    from 1(1) [OF False this k(2)] show ?thesis using False k by (simp add: hex_of.simps [of n])
  qed (use 1 in \<open>simp add: hex_of.simps [of n]\<close>)
qed

lemma hex16_length: "n \<le> u64_max \<Longrightarrow> length (hex16 n) = 16"
  using hex_of_length [of n 16] by (simp add: hex16_def u64_max_def)

lemma hex_digits_zeros: "hex_digits_value 0 (replicate m (CHR ''0'') @ s) = hex_digits_value 0 s"
  by (induction m) (simp_all add: hex_value_def)

lemma hex16_chars: "c \<in> set (hex16 n) \<Longrightarrow> c \<noteq> CHR ''+'' \<and> (of_char c :: nat) < 128"
proof (induction n rule: hex_of.induct)
  case (1 n)
  have digit: "hex_digit k \<noteq> CHR ''+'' \<and> (of_char (hex_digit k) :: nat) < 128" if "k < 16" for k
    using that hex_digit_facts [OF that] by (auto simp: hex_digit_def)
  have "c \<in> set (hex_of m) \<Longrightarrow> c \<noteq> CHR ''+'' \<and> (of_char c :: nat) < 128" for m
  proof (induction m rule: hex_of.induct)
    case (1 m)
    then show ?case using digit [of m] digit [of "m mod 16"] by (cases "m < 16") (auto simp: hex_of.simps [of m])
  qed
  then show ?case using 1(2) by (auto simp: hex16_def split: if_splits)
qed

lemma read_payload_of:
  "payload s size_bytes = Some (wr_patch r) \<Longrightarrow> s \<le> u64_max \<Longrightarrow> read_payload k size_bytes r = Inr s"
proof -
  assume p: "payload s size_bytes = Some (wr_patch r)" and s: "s \<le> u64_max"
  then have r: "wr_patch r = JString (hex16 s @ replicate (size_bytes - 16) (CHR ''x''))" "16 \<le> size_bytes"
    by (auto simp: payload_def split: if_splits)
  obtain c cs where h: "hex16 s = c # cs" using hex16_length [OF s] by (cases "hex16 s") auto
  then have "c \<noteq> CHR ''+''" using hex16_chars [of c s] by simp
  then have "(case hex16 s of CHR ''+'' # rest \<Rightarrow> rest | _ \<Rightarrow> hex16 s) = hex16 s" by (simp add: h split: char.splits bool.splits)
  moreover have "hex_digits_value 0 (hex16 s) = Some s" by (simp add: hex16_def hex_digits_zeros hex_digits_value_of)
  moreover have "hex16 s \<noteq> []" by (simp add: h)
  ultimately have "parse_hex (hex16 s) = Some s" using s by (simp add: parse_hex_def)
  moreover have "is_ascii (hex16 s @ replicate m (CHR ''x''))" for m using hex16_chars by (auto simp: is_ascii_def)
  ultimately show ?thesis using r hex16_length [OF s] by (simp add: read_payload_def list_all_iff)
qed

text \<open>What the ledger has written down agrees with the history the server keeps.\<close>

definition agrees :: "(nat \<Rightarrow> nat list) \<Rightarrow> ledger \<Rightarrow> bool" where
  "agrees h l \<longleftrightarrow> (\<forall>k v s. canon l k v = Some s \<longrightarrow> v \<le> length (h k) \<and> h k ! (v - 1) = s) \<and>
     (\<forall>s < length (lg_issued l). \<forall>v. is_observed (lg_issued l ! s) = Some v \<longrightarrow>
        0 < v \<and> v \<le> length (h (is_log (lg_issued l ! s))) \<and> h (is_log (lg_issued l ! s)) ! (v - 1) = s)"

lemma agrees_same: "agrees h l \<Longrightarrow> lg_canonical l' = lg_canonical l \<Longrightarrow> lg_issued l' = lg_issued l \<Longrightarrow> agrees h l'"
  by (simp add: agrees_def canon_def)

lemma agrees_ack:
  "agrees h l \<Longrightarrow> agrees h (l\<lparr>lg_issued := (lg_issued l)[s := (lg_issued l ! s)\<lparr>is_ack := a\<rparr>], lg_acks := m\<rparr>)"
  by (cases "s < length (lg_issued l)") (auto simp: agrees_def canon_def nth_list_update)

lemma bind_honest:
  assumes "agrees h l" "k < length (lg_canonical l)" "distinct (h k)" and v: "0 < v" "v \<le> length (h k)" "h k ! (v - 1) = s"
    and s: "s < length (lg_issued l)" "is_log (lg_issued l ! s) = k"
  shows "\<exists>l'. ledger_bind k v s l = (l', Inr ()) \<and> agrees h l'"
proof -
  have "bt_get (lg_canonical l ! k) v \<in> {None, Some s}"
  proof (cases "bt_get (lg_canonical l ! k) v")
    case (Some s')
    then have "canon l k v = Some s'" using assms(2) by (simp add: canon_def)
    then show ?thesis using assms(1) v(3) Some by (auto simp: agrees_def)
  qed simp
  moreover have "is_observed (lg_issued l ! s) \<in> {None, Some v}"
  proof (cases "is_observed (lg_issued l ! s)")
    case (Some v')
    then have "0 < v'" "v' \<le> length (h k)" "h k ! (v' - 1) = s" using assms(1) s unfolding agrees_def by blast+
    moreover from this have "v' - 1 = v - 1" using assms(3) v by (auto simp: nth_eq_iff_index_eq)
    ultimately show ?thesis using v(1) Some by auto
  qed simp
  ultimately obtain l' where l': "ledger_bind k v s l = (l', Inr ())"
      "l' = l\<lparr>lg_canonical := (lg_canonical l)[k := bt_insert v s (lg_canonical l ! k)],
        lg_issued := (lg_issued l)[s := (lg_issued l ! s)\<lparr>is_observed := Some v\<rparr>]\<rparr>"
    using assms(2) v(1) s by (auto simp: ledger_bind_def Let_def)
  have c: "canon l' k' v' = (if k' = k \<and> v' = v then Some s else canon l k' v')" for k' v'
    using assms(2) by (auto simp: canon_def l'(2) nth_list_update)
  have "agrees h l'"
    unfolding agrees_def
  proof (intro conjI allI impI)
    fix k' v' s' assume "canon l' k' v' = Some s'"
    then show "v' \<le> length (h k')" "h k' ! (v' - 1) = s'"
      using assms(1) v unfolding c agrees_def by (auto split: if_splits)
  next
    fix s' v' assume "s' < length (lg_issued l')" "is_observed (lg_issued l' ! s') = Some v'"
    then show "0 < v'" "v' \<le> length (h (is_log (lg_issued l' ! s')))" "h (is_log (lg_issued l' ! s')) ! (v' - 1) = s'"
      using assms(1) v s unfolding agrees_def by (auto simp: l'(2) nth_list_update split: if_splits)
  qed
  then show ?thesis using l'(1) by blast
qed

lemma do_records:
  assumes "ledger_inv n (past @ [Got i ds]) l" "agrees h l" "lg_patch_size l = size_bytes" "\<forall>k < n. distinct (h k)"
    and "subs_of past i = [(k, start)]" "k < n" "length (seen past i @ ds @ rs) \<le> credit_of past i"
    and "\<forall>j < length rs. let v = start + length (seen past i @ ds) + j in
             v < length (h k) \<and> wr_version (rs ! j) = v + 1 \<and> h k ! v \<le> u64_max \<and>
             h k ! v < length (issued_logs past) \<and> issued_logs past ! (h k ! v) = k \<and>
             payload (h k ! v) size_bytes = Some (wr_patch (rs ! j))"
  shows "\<exists>l' ts. ledger_records i rs l = (l', Inr ts) \<and> agrees h l'"
  using assms(1-3,7,8)
proof (induction rs arbitrary: l ds)
  case (Cons r rs)
  let ?v = "start + length (seen past i @ ds)"
  let ?s = "h k ! ?v"
  have r: "?v < length (h k)" "wr_version r = ?v + 1" "?s \<le> u64_max" "?s < length (issued_logs past)" "issued_logs past ! ?s = k"
      "payload ?s size_bytes = Some (wr_patch r)"
    using Cons.prems(5) [rule_format, of 0] by (simp_all add: Let_def)
  have "stream_ok (past @ [Got i ds]) l i" "length (lg_canonical l) = n" using Cons.prems(1) by (simp_all add: ledger_inv_def canon_ok_def)
  then obtain st where st: "bt_get (lg_streams l) i = Some st" "ls_log st = k" "start < ls_next st"
      "map wr_version (seen past i @ ds) = [start + 1..<ls_next st]" "length (seen past i @ ds) + ls_credit st = credit_of past i"
    using assms(5) by (auto simp: stream_ok_def split: option.splits)
  have next_v: "ls_next st = ?v + 1" using arg_cong [OF st(4), of length] st(3) by (simp del: upt_Suc map_append)
  have credit: "0 < ls_credit st" using st(5) Cons.prems(4) by simp
  define l1 where "l1 = l\<lparr>lg_streams := bt_insert i (st\<lparr>ls_credit := ls_credit st - 1, ls_next := ls_next st + 1\<rparr>) (lg_streams l)\<rparr>"
  have issued: "?s < length (lg_issued l1)" "is_log (lg_issued l1 ! ?s) = k"
    using issued_log_of [OF Cons.prems(1), of ?s] r(4,5) by (simp_all add: l1_def)
  have "\<exists>l2. ledger_bind k (?v + 1) ?s l1 = (l2, Inr ()) \<and> agrees h l2"
    using Cons.prems(2) assms(4,6) r(1) issued \<open>length (lg_canonical l) = n\<close>
    by (intro bind_honest) (auto simp: l1_def intro: agrees_same)
  then obtain l2 where l2: "ledger_bind k (?v + 1) ?s l1 = (l2, Inr ())" "agrees h l2" by blast
  have "read_payload k size_bytes r = Inr ?s" using read_payload_of [OF r(6,3)] by simp
  then have t: "take_record i r l = (l2, Inr (is_intended (lg_issued l2 ! ?s)))"
    using st(1,2) next_v r(2) credit l2(1) Cons.prems(3) by (simp add: take_record_def Let_def l1_def)
  have inv2: "ledger_inv n (past @ [Got i (ds @ [r])]) l2" using inv_take_record [OF Cons.prems(1) t] .
  have "lg_patch_size l2 = size_bytes" using records_params [of i "[r]" l] t Cons.prems(3) by simp
  have later: "\<forall>j < length rs. let v = start + length (seen past i @ ds @ [r]) + j in
             v < length (h k) \<and> wr_version (rs ! j) = v + 1 \<and> h k ! v \<le> u64_max \<and>
             h k ! v < length (issued_logs past) \<and> issued_logs past ! (h k ! v) = k \<and>
             payload (h k ! v) size_bytes = Some (wr_patch (rs ! j))"
  proof (intro allI impI)
    fix j assume "j < length rs"
    then show "let v = start + length (seen past i @ ds @ [r]) + j in
             v < length (h k) \<and> wr_version (rs ! j) = v + 1 \<and> h k ! v \<le> u64_max \<and>
             h k ! v < length (issued_logs past) \<and> issued_logs past ! (h k ! v) = k \<and>
             payload (h k ! v) size_bytes = Some (wr_patch (rs ! j))"
      using Cons.prems(5) [rule_format, of "Suc j"] by (simp add: Let_def)
  qed
  from Cons.IH [OF inv2 l2(2) \<open>lg_patch_size l2 = size_bytes\<close> _ later] Cons.prems(4) show ?case using t by auto
qed simp

lemma do_honest:
  assumes "honest_step n size_bytes d h past x" "ledger_inv n past l" "agrees h l" "\<forall>k < n. distinct (h k)"
    and "lg_patch_size l = size_bytes" "lg_durability l = d" "\<forall>k \<in> set (issued_logs past). k < n"
  shows "\<exists>l'. ledger_do x l = Inr l' \<and> agrees h l'"
proof (cases x)
  case (Issue k t)
  then show ?thesis using assms(3) by (auto simp: agrees_def ledger_issue_def canon_def nth_append)
next
  case (Sub i k start credit)
  have "stream_ok past l i" using assms(2) by (simp add: ledger_inv_def)
  then have "bt_get (lg_streams l) i = None" using assms(1) Sub by (auto simp: honest_step_def stream_ok_def split: option.splits)
  then show ?thesis using assms(3) Sub by (auto simp: ledger_subscribe_def intro: agrees_same)
next
  case (Grant i credit)
  have "stream_ok past l i" using assms(2) by (simp add: ledger_inv_def)
  then obtain st where "bt_get (lg_streams l) i = Some st" using assms(1) Grant by (auto simp: honest_step_def stream_ok_def split: option.splits)
  then show ?thesis using assms(3) Grant by (auto simp: ledger_grant_def intro: agrees_same)
next
  case (Acked s vs synced)
  let ?k = "issued_logs past ! s"
  obtain v where v: "s < length (issued_logs past)" "acks_of past s = []" "vs = [v]" "0 < v" "v \<le> length (h ?k)" "h ?k ! (v - 1) = s"
      "d = Durable \<longrightarrow> v \<le> synced" using assms(1) Acked by (auto simp: honest_step_def)
  note s = issued_log_of [OF assms(2), of s]
  have "ack_ok past l s" using assms(2) by (simp add: ledger_inv_def)
  then have "is_ack (lg_issued l ! s) = None" using v(1,2) s by (auto simp: ack_ok_def split: option.splits)
  moreover have "?k < n" using assms(7) v(1) by simp
  then have "\<exists>l'. ledger_bind ?k v s l = (l', Inr ()) \<and> agrees h l'"
    using assms(2,3,4) v s by (intro bind_honest) (auto simp: ledger_inv_def canon_ok_def)
  ultimately show ?thesis using v s assms(6) Acked
    by (auto simp: ledger_ack_def Let_def intro: agrees_ack)
next
  case (Got i rs)
  then obtain k start where sub: "subs_of past i = [(k, start)]" "length (seen past i @ rs) \<le> credit_of past i"
    and rs: "\<forall>j < length rs. let v = start + length (seen past i @ []) + j in
             v < length (h k) \<and> wr_version (rs ! j) = v + 1 \<and> h k ! v \<le> u64_max \<and>
             h k ! v < length (issued_logs past) \<and> issued_logs past ! (h k ! v) = k \<and>
             payload (h k ! v) size_bytes = Some (wr_patch (rs ! j))"
    using assms(1) by (auto simp: honest_step_def)
  have inv: "ledger_inv n (past @ [Got i []]) l"
    using assms(2) by (auto simp: ledger_inv_def ack_ok_def stream_ok_def cong: option.case_cong)
  have "\<exists>l' ts. ledger_records i rs l = (l', Inr ts) \<and> agrees h l'"
  proof (cases rs)
    case (Cons r rs')
    then obtain s where "s < length (issued_logs past)" "issued_logs past ! s = k"
      using rs [rule_format, of 0] by (auto simp: Let_def)
    then have "k < n" using assms(7) by (metis nth_mem)
    then show ?thesis using do_records [OF inv assms(3,5,4) sub(1) _ _ rs] sub(2) by simp
  qed (use assms(3) in simp)
  then show ?thesis using Got by auto
qed

lemma run_honest:
  assumes "honest_run n size_bytes d h past xs" "ledger_inv n past l" "agrees h l" "\<forall>k < n. distinct (h k)"
    and "lg_patch_size l = size_bytes" "lg_durability l = d" "\<forall>k \<in> set (issued_logs past). k < n"
  shows "\<exists>l'. ledger_run xs l = Inr l' \<and> agrees h l'"
  using assms
proof (induction xs arbitrary: past l)
  case (Cons x xs)
  obtain l1 where l1: "ledger_do x l = Inr l1" "agrees h l1" using do_honest [of n size_bytes d h past x l] Cons.prems by auto
  have "ledger_run [x] l = Inr l1" using l1(1) by simp
  from inv_run [OF this Cons.prems(2)] have inv: "ledger_inv n (past @ [x]) l1" .
  have "\<forall>k \<in> set (issued_logs (past @ [x])). k < n"
    using Cons.prems(1,7) by (cases x) (auto simp: honest_step_def)
  then show ?case using Cons.IH [OF _ inv l1(2)] Cons.prems l1(1) do_params [OF l1(1)] by simp
qed simp

text \<open>
  When the run is over: every append acknowledged, every subscriber at the end of its log, and
  nothing in the history that was not appended.
\<close>

definition run_done :: "nat \<Rightarrow> (nat \<Rightarrow> nat list) \<Rightarrow> ledger_op list \<Rightarrow> bool" where
  "run_done n h xs \<longleftrightarrow> (\<forall>s < length (issued_logs xs). acks_of xs s \<noteq> []) \<and>
     (\<forall>k < n. \<forall>s \<in> set (h k). s < length (issued_logs xs) \<and> issued_logs xs ! s = k) \<and>
     (\<forall>i. \<forall>(k, start) \<in> set (subs_of xs i). k < n \<and> start + length (seen xs i) = length (h k))"

lemma check_logs_all: "\<forall>m \<in> set ms. last_version m = length m \<Longrightarrow> check_logs k ms = Inr ()"
  by (induction k ms rule: check_logs.induct) auto

lemma check_streams_all:
  "\<forall>(i, st) \<in> set sts. log_end l (ls_log st) = Some (ls_next st - 1) \<Longrightarrow> check_streams l sts = Inr ()"
  by (induction l sts rule: check_streams.induct) auto

lemma full_versions:
  fixes m :: "(nat, nat) btree_map"
  assumes "bt_wf m" "fst ` set m = {1..<N + 1}"
  shows "length m = N \<and> last_version m = N"
proof -
  have ks: "sorted (map fst m)" "distinct (map fst m)" using assms(1) by (auto simp: bt_wf_def strict_sorted_iff)
  then have "map fst m = [1..<N + 1]" using assms(2) by (intro sorted_distinct_set_unique) (simp_all del: upt_Suc)
  from arg_cong [OF this, of length] arg_cong [OF this, of last] show ?thesis
    by (cases "m = []"; cases N) (auto simp: last_version_def last_map)
qed

lemma honest_log_full:
  assumes "ledger_inv n xs l" "agrees h l" "run_done n h xs" "distinct (h k)" "k < n"
  shows "length (lg_canonical l ! k) = length (h k) \<and> last_version (lg_canonical l ! k) = length (h k)"
proof (rule full_versions)
  let ?m = "lg_canonical l ! k"
  have core: "canon_ok n l" using assms(1) by (simp add: ledger_inv_def)
  then have c: "canon l k v = bt_get ?m v" for v using assms(5) by (simp add: canon_def canon_ok_def)
  show "bt_wf ?m" using core assms(5) by (simp add: canon_ok_def)
  have "v \<in> fst ` set ?m \<longleftrightarrow> v \<in> {1..<length (h k) + 1}" for v
  proof
    assume "v \<in> fst ` set ?m"
    then obtain s where "canon l k v = Some s" using c bt_get_eq_None_iff [of ?m v] by (metis not_None_eq)
    then have "0 < v" "v \<le> length (h k)" using core assms(2) unfolding canon_ok_def agrees_def by blast+
    then show "v \<in> {1..<length (h k) + 1}" by simp
  next
    assume v: "v \<in> {1..<length (h k) + 1}"
    let ?s = "h k ! (v - 1)"
    have s: "?s < length (issued_logs xs)" "issued_logs xs ! ?s = k" using assms(3,5) v by (auto simp: run_done_def)
    have "ack_ok xs l ?s" using assms(1) by (simp add: ledger_inv_def)
    moreover have "acks_of xs ?s \<noteq> []" using s(1) assms(3) by (simp add: run_done_def)
    ultimately obtain v' where v': "canon l k v' = Some ?s"
      using s issued_log_of [OF assms(1), of ?s] by (auto simp: ack_ok_def split: option.splits)
    have pos: "0 < v'" "v' \<le> length (h k)" and same: "h k ! (v' - 1) = ?s"
      using v' core assms(2) unfolding canon_ok_def agrees_def by blast+
    have "v' - 1 < length (h k)" "v - 1 < length (h k)" using pos v by auto
    then have "v' - 1 = v - 1" using nth_eq_iff_index_eq [OF assms(4)] same by blast
    then have "v' = v" using v pos(1) by auto
    then show "v \<in> fst ` set ?m" using v' c bt_get_eq_None_iff [of ?m v] by (metis option.distinct(1))
  qed
  then show "fst ` set ?m = {1..<length (h k) + 1}" by blast
qed

lemma honest_finish:
  assumes inv: "ledger_inv n xs l" and "agrees h l" "run_done n h xs" "\<forall>k < n. distinct (h k)"
  shows "ledger_finish l = Inr ()"
proof -
  have n: "length (lg_canonical l) = n" using inv by (simp add: ledger_inv_def canon_ok_def)
  have full: "length (lg_canonical l ! k) = length (h k) \<and> last_version (lg_canonical l ! k) = length (h k)" if "k < n" for k
    using honest_log_full [OF inv assms(2,3) _ that] assms(4) that by blast
  have "is_ack (lg_issued l ! s) \<noteq> None" if "s < length (lg_issued l)" for s
  proof -
    have "acks_of xs s \<noteq> []" using that assms(3) issued_log_of [OF inv] by (simp add: run_done_def)
    moreover have "ack_ok xs l s" using inv by (simp add: ledger_inv_def)
    ultimately show ?thesis using that by (cases "is_ack (lg_issued l ! s)") (simp_all add: ack_ok_def)
  qed
  then have "filter (\<lambda>e. is_ack e \<noteq> None) (lg_issued l) = lg_issued l" by (simp add: filter_id_conv all_set_conv_all_nth)
  then have "lg_acks l = length (lg_issued l)" using inv by (simp add: ledger_inv_def)
  moreover have "check_logs 0 (lg_canonical l) = Inr ()"
    using full n by (intro check_logs_all) (auto simp: in_set_conv_nth)
  moreover have "check_streams l (lg_streams l) = Inr ()"
  proof (rule check_streams_all, clarify)
    fix i st assume "(i, st) \<in> set (lg_streams l)"
    then have "bt_get (lg_streams l) i = Some st" using inv by (simp add: ledger_inv_def bt_get_Some_iff)
    moreover have "stream_ok xs l i" using inv by (simp add: ledger_inv_def)
    ultimately obtain start where st: "subs_of xs i = [(ls_log st, start)]" "start < ls_next st" "map wr_version (seen xs i) = [start + 1..<ls_next st]"
      unfolding stream_ok_def by (simp only: option.case) blast
    have "\<forall>(k, start) \<in> set (subs_of xs i). k < n \<and> start + length (seen xs i) = length (h k)"
      using assms(3) unfolding run_done_def by blast
    then have "ls_log st < n" "start + length (seen xs i) = length (h (ls_log st))" by (simp_all add: st(1))
    moreover have "ls_next st = start + length (seen xs i) + 1" using st(2) arg_cong [OF st(3), of length] by (simp del: upt_Suc)
    ultimately show "log_end l (ls_log st) = Some (ls_next st - 1)" using n full by (simp add: log_end_def)
  qed
  ultimately show ?thesis by (simp add: ledger_finish_def)
qed

text \<open>
  C16: An honest server is never accused. Fix what each log's history will be. However requests,
  acknowledgements and records interleave, if the server acknowledges an append once, with its
  place in the history, and sends a subscriber what the history has next, within its credit, then
  no step of the ledger fails, and when all is acknowledged and read the last check passes.
\<close>

theorem ledger_accepts_honest:
  assumes "honest_run n size_bytes d h [] xs" "\<forall>k < n. distinct (h k)"
  shows "\<exists>l. ledger_run xs (ledger_new n size_bytes d) = Inr l \<and> (run_done n h xs \<longrightarrow> ledger_finish l = Inr ())"
proof -
  have "agrees h (ledger_new n size_bytes d)" by (auto simp: agrees_def canon_def ledger_new_def bt_get_def)
  from run_honest [OF assms(1) inv_new this assms(2)] obtain l
    where l: "ledger_run xs (ledger_new n size_bytes d) = Inr l" "agrees h l" by (auto simp: ledger_new_def)
  moreover from inv_run [OF l(1) inv_new] have "ledger_inv n xs l" by simp
  ultimately show ?thesis using honest_finish assms(2) by blast
qed

lemma payload_01: "payload 0 17 = Some (JString ''0000000000000000x'')" "payload (Suc 0) 17 = Some (JString ''0000000000000001x'')"
  by code_simp+

theorem ledger_accepts_honest_witness:
  "\<exists>l. ledger_run passing_run (ledger_new 1 17 Durable) = Inr l \<and> ledger_finish l = Inr ()"
proof -
  let ?h = "\<lambda>_. [1, 0]"
  have "honest_run 1 17 Durable ?h [] passing_run"
    by (simp add: passing_run_def honest_step_def issued_logs_def subs_of_def seen_def acks_of_def credit_of_def Let_def payload_01)
  moreover have "run_done 1 ?h passing_run"
  proof -
    have "issued_logs passing_run = [0, 0]" "subs_of passing_run i = (if i = 1 then [(0, 0)] else [])"
      "length (seen passing_run i) = (if i = 1 then 2 else 0)"
      "acks_of passing_run s = (if s = 1 then [([1], 1)] else if s = 0 then [([2], 2)] else [])" for i s
      by (simp_all add: passing_run_def issued_logs_def subs_of_def seen_def acks_of_def)
    then show ?thesis by (simp add: run_done_def)
  qed
  ultimately show ?thesis using ledger_accepts_honest [of 1 17 Durable ?h passing_run] by simp
qed

end
