(* ===== verification/LoadConfig.thy ===== *)
theory LoadConfig
  imports LoadLedger
begin

text \<open>
  \<open>crates/lug-load/src/config.rs\<close> and the schedule of \<open>measure.rs\<close>: the arguments of a load run,
  what they have to satisfy, and when each append of the run is due. Durations are nanoseconds;
  \<open>read_f64\<close> parses a floating-point number, \<open>None\<close> inside for one that is not finite, and
  \<open>nanos\<close> is \<open>Duration::from_secs_f64\<close>.
\<close>

section \<open>Configuration\<close>

datatype load_transport = LoadUnix | LoadHttp

record load_config =
  ld_server :: string
  ld_connections :: nat
  ld_logs :: nat
  ld_appenders :: nat
  ld_subscribers :: nat
  ld_patch_size :: nat
  ld_durability :: durability
  ld_rate :: nat
  ld_duration :: nat
  ld_transport :: load_transport
  ld_accepts :: nat
  ld_parallel :: nat
  ld_max_inflight :: nat
  ld_timeout :: nat
  ld_smoke :: bool
  ld_soak :: bool
  ld_soak_cycles :: nat
  ld_fd_slack :: nat
  ld_json :: bool

datatype load_arg_error =
    UnexpectedPositional string
  | MissingValue string
  | InvalidValue string string
  | OutsideADay string string
  | BelowClock string string
  | InvalidTransport string
  | InvalidDurability string
  | UnknownOption string
  | SmokeIsOneOfEach
  | SmokeAndSoak
  | MustBePositive string
  | PatchSizeRange nat
  | WorkerOverflow
  | PlannedOverflow
  | IdsExhausted
  | NothingPlanned

definition load_default :: "string \<Rightarrow> load_config" where
  "load_default server =
     \<lparr>ld_server = server, ld_connections = 10000, ld_logs = 1, ld_appenders = 1, ld_subscribers = 1,
      ld_patch_size = 256, ld_durability = Durable, ld_rate = 1000, ld_duration = 10 * 1000000000,
      ld_transport = LoadUnix, ld_accepts = 1000, ld_parallel = 128, ld_max_inflight = 65536,
      ld_timeout = 30 * 1000000000, ld_smoke = False, ld_soak = False, ld_soak_cycles = 10, ld_fd_slack = 0,
      ld_json = False\<rparr>"

text \<open>An option with its value.\<close>

definition load_set ::
    "(string \<Rightarrow> rat option option) \<Rightarrow> (rat \<Rightarrow> nat) \<Rightarrow> string \<Rightarrow> string \<Rightarrow> load_config \<Rightarrow> load_arg_error + load_config" where
  "load_set read_f64 nanos flag v c =
     (let number = (\<lambda>k. rbind (ok_or (parse_unsigned u64_max v) (InvalidValue flag v)) (\<lambda>n. Inr (k n))) in
      if flag = ''--server'' then Inr (c\<lparr>ld_server := v\<rparr>)
      else if flag = ''--connections'' then number (\<lambda>n. c\<lparr>ld_connections := n\<rparr>)
      else if flag = ''--logs'' then number (\<lambda>n. c\<lparr>ld_logs := n\<rparr>)
      else if flag = ''--appenders-per-log'' then number (\<lambda>n. c\<lparr>ld_appenders := n\<rparr>)
      else if flag = ''--subscribers-per-log'' then number (\<lambda>n. c\<lparr>ld_subscribers := n\<rparr>)
      else if flag = ''--patch-size'' then number (\<lambda>n. c\<lparr>ld_patch_size := n\<rparr>)
      else if flag = ''--rate'' then number (\<lambda>n. c\<lparr>ld_rate := n\<rparr>)
      else if flag = ''--accepts'' then number (\<lambda>n. c\<lparr>ld_accepts := n\<rparr>)
      else if flag = ''--parallel'' then number (\<lambda>n. c\<lparr>ld_parallel := n\<rparr>)
      else if flag = ''--max-inflight'' then number (\<lambda>n. c\<lparr>ld_max_inflight := n\<rparr>)
      else if flag = ''--soak-cycles'' then number (\<lambda>n. c\<lparr>ld_soak_cycles := n\<rparr>)
      else if flag = ''--fd-slack'' then number (\<lambda>n. c\<lparr>ld_fd_slack := n\<rparr>)
      else if flag = ''--duration'' \<or> flag = ''--timeout''
      then (case read_f64 v of
          None \<Rightarrow> Inl (InvalidValue flag v)
        | Some n \<Rightarrow>
            (case n of
               None \<Rightarrow> Inl (OutsideADay flag v)
             | Some n \<Rightarrow>
                 if n \<le> 0 \<or> 86400 < n then Inl (OutsideADay flag v)
                 else if nanos n = 0 then Inl (BelowClock flag v)
                 else if flag = ''--duration'' then Inr (c\<lparr>ld_duration := nanos n\<rparr>)
                 else Inr (c\<lparr>ld_timeout := nanos n\<rparr>)))
      else if flag = ''--transport''
      then if v = ''unix'' then Inr (c\<lparr>ld_transport := LoadUnix\<rparr>)
        else if v = ''http'' then Inr (c\<lparr>ld_transport := LoadHttp\<rparr>)
        else Inl (InvalidTransport v)
      else if flag = ''--durability''
      then if v = ''memory'' then Inr (c\<lparr>ld_durability := Memory\<rparr>)
        else if v = ''written'' then Inr (c\<lparr>ld_durability := Written\<rparr>)
        else if v = ''durable'' then Inr (c\<lparr>ld_durability := Durable\<rparr>)
        else Inl (InvalidDurability v)
      else Inl (UnknownOption flag))"

text \<open>The loop over the arguments.\<close>

fun load_args ::
    "(string \<Rightarrow> rat option option) \<Rightarrow> (rat \<Rightarrow> nat) \<Rightarrow> string list \<Rightarrow> load_config \<Rightarrow> load_arg_error + load_config" where
  "load_args read_f64 nanos [] c = Inr c"
| "load_args read_f64 nanos (flag # args) c =
     (if flag = ''--smoke'' then load_args read_f64 nanos args (c\<lparr>ld_smoke := True\<rparr>)
      else if flag = ''--soak'' then load_args read_f64 nanos args (c\<lparr>ld_soak := True\<rparr>)
      else if flag = ''--json'' then load_args read_f64 nanos args (c\<lparr>ld_json := True\<rparr>)
      else if flag = ''--'' then (case args of [] \<Rightarrow> Inr c | arg # _ \<Rightarrow> Inl (UnexpectedPositional arg))
      else case args of
          [] \<Rightarrow> Inl (MissingValue flag)
        | v # rest \<Rightarrow> rbind (load_set read_f64 nanos flag v c) (load_args read_f64 nanos rest))"

text \<open>How many appends the window holds, in 128 bits; an error when the number needs more than 64.\<close>

definition planned :: "load_config \<Rightarrow> load_arg_error + nat" where
  "planned c =
     (let n = ld_duration c * ld_rate c div 1000000000 in if n \<le> u64_max then Inr n else Inl PlannedOverflow)"

fun first_zero :: "(string \<times> nat) list \<Rightarrow> string option" where
  "first_zero [] = None"
| "first_zero ((name, n) # rest) = (if n = 0 then Some name else first_zero rest)"

definition load_check :: "load_config \<Rightarrow> load_arg_error + load_config" where
  "load_check c =
     (if ld_smoke c \<and> (ld_connections c \<noteq> 1 \<or> ld_logs c \<noteq> 1 \<or> ld_appenders c \<noteq> 1 \<or> ld_subscribers c \<noteq> 1)
      then Inl SmokeIsOneOfEach
      else if ld_smoke c \<and> ld_soak c then Inl SmokeAndSoak
      else case first_zero
          [(''connections'', ld_connections c), (''logs'', ld_logs c), (''appenders-per-log'', ld_appenders c),
           (''subscribers-per-log'', ld_subscribers c), (''rate'', ld_rate c), (''parallel'', ld_parallel c),
           (''max-inflight'', ld_max_inflight c), (''soak-cycles'', ld_soak_cycles c)] of
          Some name \<Rightarrow> Inl (MustBePositive name)
        | None \<Rightarrow>
            if \<not> (16 \<le> ld_patch_size c \<and> ld_patch_size c \<le> 8 * 1024 * 1024) then Inl (PatchSizeRange (ld_patch_size c))
            else if u64_checked_mul (ld_logs c) (ld_appenders c) = None \<or> u64_checked_mul (ld_logs c) (ld_subscribers c) = None
            then Inl WorkerOverflow
            else rbind (planned c) (\<lambda>n.
              if u64_max - 2 ^ 32 - 16 < n then Inl IdsExhausted
              else if n = 0 then Inl NothingPlanned
              else Inr c))"

definition load_parse ::
    "(string \<Rightarrow> rat option option) \<Rightarrow> (rat \<Rightarrow> nat) \<Rightarrow> string \<Rightarrow> string list \<Rightarrow> load_arg_error + load_config" where
  "load_parse read_f64 nanos server args =
     rbind (load_args read_f64 nanos args
       (if ''--smoke'' \<in> set args
        then (load_default server)\<lparr>ld_smoke := True, ld_connections := 1, ld_rate := 20, ld_duration := 1000000000,
               ld_accepts := 4, ld_parallel := 1\<rparr>
        else load_default server)) load_check"

section \<open>The schedule\<close>

text \<open>\<open>offset\<close>: when an append is due, truncated to 64 bits; \<open>check_fd_growth\<close>; latencies in microseconds.\<close>

definition offset :: "nat \<Rightarrow> nat \<Rightarrow> nat" where
  "offset sequence rate = (sequence * 1000000000 div rate) mod 18446744073709551616"

definition latency_micros :: "nat \<Rightarrow> nat \<Rightarrow> nat option" where
  "latency_micros intended observed =
     (if observed < intended then None else Some (max ((observed - intended + 999) div 1000) 1))"

definition fds_leaked :: "nat \<Rightarrow> nat \<Rightarrow> nat \<Rightarrow> bool" where
  "fds_leaked baseline after slack \<longleftrightarrow> u64_saturating_add baseline slack < after"

lemma first_zero_None: "first_zero xs = None \<longleftrightarrow> (\<forall>(name, n) \<in> set xs. n \<noteq> 0)"
  by (induction xs rule: first_zero.induct) auto

lemma load_check_Inr:
  "load_check c = Inr c' \<longleftrightarrow> c' = c \<and>
    (ld_smoke c \<longrightarrow> ld_connections c = 1 \<and> ld_logs c = 1 \<and> ld_appenders c = 1 \<and> ld_subscribers c = 1 \<and> \<not> ld_soak c) \<and>
    0 < ld_connections c \<and> 0 < ld_logs c \<and> 0 < ld_appenders c \<and> 0 < ld_subscribers c \<and> 0 < ld_rate c \<and>
    0 < ld_parallel c \<and> 0 < ld_max_inflight c \<and> 0 < ld_soak_cycles c \<and>
    16 \<le> ld_patch_size c \<and> ld_patch_size c \<le> 8388608 \<and>
    ld_logs c * ld_appenders c \<le> u64_max \<and> ld_logs c * ld_subscribers c \<le> u64_max \<and>
    (\<exists>n. planned c = Inr n \<and> 0 < n \<and> n \<le> u64_max - 2 ^ 32 - 16)"
  by (cases "planned c") (auto simp: load_check_def first_zero_None u64_checked_mul_def simp del: power_numeral split: option.splits)

definition a_day :: nat where "a_day = 86400000000000"

lemma load_set_duration:
  "\<forall>x. x \<le> 86400 \<longrightarrow> nanos x \<le> a_day \<Longrightarrow> load_set read_f64 nanos flag v c = Inr c' \<Longrightarrow> ld_duration c \<le> a_day \<Longrightarrow>
    ld_duration c' \<le> a_day"
  by (auto simp: load_set_def Let_def rbind_def split: if_splits sum.splits option.splits)

lemma load_args_duration:
  "\<forall>x. x \<le> 86400 \<longrightarrow> nanos x \<le> a_day \<Longrightarrow> load_args read_f64 nanos args c = Inr c' \<Longrightarrow> ld_duration c \<le> a_day \<Longrightarrow>
    ld_duration c' \<le> a_day"
proof (induction read_f64 nanos args c rule: load_args.induct)
  case (2 read_f64 nanos flag args c)
  note set_day = load_set_duration [OF 2(5)]
  show ?case using 2
    by (auto split: if_splits list.splits simp: rbind_def split: sum.splits dest: set_day)
qed simp

lemma offset_below:
  assumes "0 < rate" "s < duration * rate div 1000000000" "duration \<le> u64_max"
  shows "offset s rate < duration \<and> offset s rate = s * 1000000000 div rate"
proof -
  have "(s + 1) * 1000000000 \<le> duration * rate" using assms(2) by (metis Suc_eq_plus1 Suc_leI less_eq_div_iff_mult_less_eq zero_less_numeral)
  then have "s * 1000000000 < duration * rate" by simp
  then have "s * 1000000000 div rate < duration" using assms(1) by (simp add: div_less_iff_less_mult)
  then show ?thesis using assms(3) by (simp add: offset_def u64_max_def)
qed

text \<open>
  C24: What \<open>parse\<close> accepts, the run can carry out. The configuration has at least one of everything
  and counts that do not overflow; every payload can be built; of the appends it plans, each is
  due inside the window, no earlier than the one before, at exactly its share of the rate; and the
  id of each fits 64 bits below the ids the run keeps for itself.
\<close>

theorem accepted_load_fits:
  assumes "load_parse read_f64 nanos server args = Inr c" "\<forall>x. x \<le> 86400 \<longrightarrow> nanos x \<le> a_day"
  shows "\<exists>n. planned c = Inr n \<and> 0 < n \<and> 0 < ld_connections c \<and> 0 < ld_parallel c \<and> 0 < ld_max_inflight c \<and>
    0 < ld_logs c * ld_appenders c \<and> ld_logs c * ld_appenders c \<le> u64_max \<and>
    0 < ld_logs c * ld_subscribers c \<and> ld_logs c * ld_subscribers c \<le> u64_max \<and>
    (\<forall>s < n. offset s (ld_rate c) < ld_duration c \<and> offset s (ld_rate c) = s * 1000000000 div ld_rate c \<and>
       (0 < s \<longrightarrow> offset (s - 1) (ld_rate c) \<le> offset s (ld_rate c)) \<and>
       2 ^ 32 + s < u64_max - 2 \<and> payload s (ld_patch_size c) \<noteq> None)"
proof -
  obtain c1 where c1: "load_args read_f64 nanos args
       (if ''--smoke'' \<in> set args
        then (load_default server)\<lparr>ld_smoke := True, ld_connections := 1, ld_rate := 20, ld_duration := 1000000000,
               ld_accepts := 4, ld_parallel := 1\<rparr>
        else load_default server) = Inr c1" "load_check c1 = Inr c"
    using assms(1) by (auto simp: load_parse_def rbind_def split: sum.splits)
  have ok: "load_check c = Inr c" using c1(2) by (simp add: load_check_Inr)
  have "ld_duration c1 \<le> a_day" by (rule load_args_duration [OF assms(2) c1(1)]) (simp add: load_default_def a_day_def)
  then have day: "ld_duration c \<le> u64_max" using c1(2) by (simp add: load_check_Inr a_day_def u64_max_def)
  obtain n where n: "planned c = Inr n" "0 < n" "n \<le> u64_max - 2 ^ 32 - 16" using ok by (auto simp: load_check_Inr)
  then have n_def: "n = ld_duration c * ld_rate c div 1000000000" by (simp add: planned_def Let_def split: if_splits)
  have rate: "0 < ld_rate c" using ok by (simp add: load_check_Inr)
  have "offset s (ld_rate c) < ld_duration c \<and> offset s (ld_rate c) = s * 1000000000 div ld_rate c" if "s < n" for s
    by (rule offset_below) (use rate day that n_def in simp_all)
  moreover from this have "offset (s - 1) (ld_rate c) \<le> offset s (ld_rate c)" if "s < n" for s
    using that by (simp add: div_le_mono)
  moreover have "2 ^ 32 + s < u64_max - 2" if "s < n" for s using that n(3) by (simp add: u64_max_def)
  moreover have "payload s (ld_patch_size c) \<noteq> None" for s using ok by (simp add: load_check_Inr payload_def)
  moreover have "0 < ld_connections c" "0 < ld_parallel c" "0 < ld_max_inflight c"
    "0 < ld_logs c * ld_appenders c" "ld_logs c * ld_appenders c \<le> u64_max"
    "0 < ld_logs c * ld_subscribers c" "ld_logs c * ld_subscribers c \<le> u64_max"
    using ok by (simp_all add: load_check_Inr)
  ultimately show ?thesis using n(1,2) by blast
qed

theorem accepted_load_fits_witness:
  "\<exists>c n. load_parse (\<lambda>v. Some (Some (1 / 4))) (\<lambda>x. if x \<le> 86400 then 250000000 else 0) ''lug-server'' [''--rate'', ''10'', ''--duration'', ''0.25''] = Inr c \<and>
    planned c = Inr n \<and> n = 2 \<and> offset 1 (ld_rate c) = 100000000 \<and> 2 ^ 32 + 1 < u64_max - 2"
proof -
  let ?nanos = "\<lambda>x :: rat. if x \<le> 86400 then 250000000 else 0 :: nat"
  let ?c = "(load_default ''lug-server'')\<lparr>ld_rate := 10, ld_duration := 250000000\<rparr>"
  have parsed: "load_parse (\<lambda>v. Some (Some (1 / 4))) ?nanos ''lug-server'' [''--rate'', ''10'', ''--duration'', ''0.25''] = Inr ?c"
    by (simp add: load_parse_def load_set_def parse_unsigned_def is_ascii_digit_def digits_value_def load_check_Inr
        load_default_def planned_def Let_def u64_max_def)
  have "planned ?c = Inr 2" by (simp add: planned_def load_default_def Let_def u64_max_def)
  moreover have "\<forall>x. x \<le> 86400 \<longrightarrow> ?nanos x \<le> a_day" by (simp add: a_day_def)
  from accepted_load_fits [OF parsed this] obtain n where n: "planned ?c = Inr n" "\<forall>s < n. offset s (ld_rate ?c) = s * 1000000000 div ld_rate ?c \<and> 2 ^ 32 + s < u64_max - 2"
    by blast
  ultimately have "n = 2" by simp
  with n(2) have "offset 1 (ld_rate ?c) = 1 * 1000000000 div ld_rate ?c" "2 ^ 32 + 1 < u64_max - 2" by (metis one_less_numeral_iff semiring_norm(76))+
  then have "offset 1 (ld_rate ?c) = 100000000" by (simp add: load_default_def)
  with \<open>2 ^ 32 + 1 < u64_max - 2\<close> have "offset 1 (ld_rate ?c) = 100000000 \<and> 2 ^ 32 + 1 < u64_max - 2" by blast
  then show ?thesis using parsed \<open>planned ?c = Inr 2\<close> by blast
qed

end
