(* ===== verification/LoadServer.thy ===== *)
theory LoadServer
  imports LoadConfig
begin

text \<open>
  \<open>crates/lug-load/src/server.rs\<close>: the server under test as a child process. What the system answers
  to each call is an argument, in the order of the calls; the log holds what was done to processes.
  A list of polls that runs out is a deadline.
\<close>

section \<open>Reading /proc\<close>

datatype exit_status = Exited nat | Signalled nat

datatype server_error =
    OsError string
  | NoVmRss
  | BadRss string
  | RssPanics
  | NoLiveChild
  | MissingChild
  | ExitedEarly exit_status
  | NotReady
  | NeverQuiesced
  | AbsentServer
  | ExpectedSigkill exit_status
  | PidRange nat
  | IgnoredSigterm

text \<open>\<open>str::lines\<close>.\<close>

definition strip_carriage :: "string \<Rightarrow> string" where
  "strip_carriage l = (if l \<noteq> [] \<and> last l = carriage then butlast l else l)"

fun str_lines :: "string \<Rightarrow> string \<Rightarrow> string list" where
  "str_lines acc [] = (if acc = [] then [] else [acc])"
| "str_lines acc (c # cs) = (if c = newline then strip_carriage acc # str_lines [] cs else str_lines (acc @ [c]) cs)"

definition rss_of :: "string \<Rightarrow> server_error + nat" where
  "rss_of status =
     (case filter (\<lambda>x. x \<noteq> None) (map (strip_prefix ''VmRSS:'') (str_lines [] status)) of
        Some rest # _ \<Rightarrow>
          (case words_of [] rest of
             [] \<Rightarrow> Inl NoVmRss
           | w # _ \<Rightarrow>
               rbind (ok_or (parse_unsigned u64_max w) (BadRss w)) (\<lambda>kib. ok_or (u64_checked_mul kib 1024) RssPanics))
      | _ \<Rightarrow> Inl NoVmRss)"

definition rss :: "string + string \<Rightarrow> server_error + nat" where
  "rss status = rbind (map_err OsError status) rss_of"

text \<open>\<open>quiescent\<close>: the descriptors counted at each tick, the status read if asked for, and whether the
  deadline is past; \<open>None\<close> is a loop still going.\<close>

record fd_sample =
  fs_count :: "string + nat"
  fs_status :: "string + string"
  fs_late :: bool

fun quiescent_loop :: "nat option \<Rightarrow> nat \<Rightarrow> fd_sample list \<Rightarrow> (server_error + nat \<times> nat) option" where
  "quiescent_loop previous same [] = None"
| "quiescent_loop previous same (x # xs) =
     (case fs_count x of
        Inl e \<Rightarrow> Some (Inl (OsError e))
      | Inr fds \<Rightarrow>
          let same = (if previous = Some fds then same + 1 else 0) in
          if 4 \<le> same then Some (rbind (rss (fs_status x)) (\<lambda>r. Inr (fds, r)))
          else if fs_late x then Some (Inl NeverQuiesced)
          else quiescent_loop (Some fds) same xs)"

section \<open>The child\<close>

record child =
  cd_pid :: nat
  cd_status :: "exit_status option"

datatype os_event = OsSpawn nat | OsKill nat nat | OsReap nat

record server_state =
  sv_child :: "child option"
  sv_log :: "os_event list"

definition sigkill :: nat where "sigkill = 9"
definition sigterm :: nat where "sigterm = 15"

text \<open>\<open>std::process::Child\<close>, which remembers the status once it has waited.\<close>

definition child_try_wait :: "string + exit_status option \<Rightarrow> child \<Rightarrow> child \<times> os_event list \<times> (string + exit_status option)" where
  "child_try_wait answer c =
     (case cd_status c of
        Some st \<Rightarrow> (c, [], Inr (Some st))
      | None \<Rightarrow>
          (case answer of
             Inr (Some st) \<Rightarrow> (c\<lparr>cd_status := Some st\<rparr>, [OsReap (cd_pid c)], Inr (Some st))
           | _ \<Rightarrow> (c, [], answer)))"

definition child_wait :: "string + exit_status \<Rightarrow> child \<Rightarrow> child \<times> os_event list \<times> (string + exit_status)" where
  "child_wait answer c =
     (case cd_status c of
        Some st \<Rightarrow> (c, [], Inr st)
      | None \<Rightarrow>
          (case answer of
             Inr st \<Rightarrow> (c\<lparr>cd_status := Some st\<rparr>, [OsReap (cd_pid c)], Inr st)
           | Inl e \<Rightarrow> (c, [], Inl e)))"

definition child_kill :: "string + unit \<Rightarrow> child \<Rightarrow> os_event list \<times> (string + unit)" where
  "child_kill answer c = (if cd_status c \<noteq> None then ([], Inr ()) else ([OsKill (cd_pid c) sigkill], answer))"

definition with_child :: "child \<Rightarrow> os_event list \<Rightarrow> server_state \<Rightarrow> server_state" where
  "with_child c evs s = s\<lparr>sv_child := Some c, sv_log := sv_log s @ evs\<rparr>"

definition send_signal :: "string + unit \<Rightarrow> nat \<Rightarrow> nat \<Rightarrow> os_event list \<times> (server_error + unit)" where
  "send_signal answer pid sig =
     (if 2 ^ 31 \<le> pid then ([], Inl (PidRange pid)) else ([OsKill pid sig], map_err OsError answer))"

section \<open>Starting\<close>

datatype spawn_answer = Spawned nat | SpawnNotFound | SpawnFails string

definition server_spawn :: "spawn_answer \<Rightarrow> server_state \<Rightarrow> server_state \<times> spawn_answer" where
  "server_spawn answer s =
     (case answer of
        Spawned pid \<Rightarrow> (s\<lparr>sv_child := Some \<lparr>cd_pid = pid, cd_status = None\<rparr>, sv_log := sv_log s @ [OsSpawn pid]\<rparr>, answer)
      | _ \<Rightarrow> (s, answer))"

definition server_pid :: "server_state \<Rightarrow> server_error + nat" where
  "server_pid s = (case sv_child s of None \<Rightarrow> Inl NoLiveChild | Some c \<Rightarrow> Inr (cd_pid c))"

record ready_poll =
  rp_wait :: "string + exit_status option"
  rp_socket :: bool
  rp_unix :: bool
  rp_tcp :: bool

fun ready_loop :: "bool \<Rightarrow> ready_poll list \<Rightarrow> server_state \<Rightarrow> server_state \<times> (server_error + unit)" where
  "ready_loop http [] s = (s, Inl NotReady)"
| "ready_loop http (p # ps) s =
     (case sv_child s of
        None \<Rightarrow> (s, Inl MissingChild)
      | Some c \<Rightarrow>
          (case child_try_wait (rp_wait p) c of
             (c, evs, Inl e) \<Rightarrow> (with_child c evs s, Inl (OsError e))
           | (c, evs, Inr (Some st)) \<Rightarrow> (with_child c evs s, Inl (ExitedEarly st))
           | (c, evs, Inr None) \<Rightarrow>
               let s = with_child c evs s in
               if rp_socket p \<and> rp_unix p \<and> (http \<longrightarrow> rp_tcp p) then (s, Inr ()) else ready_loop http ps s))"

datatype toml_value = TomlString string | TomlInt int

definition server_toml :: "string \<Rightarrow> string option \<Rightarrow> (string \<times> toml_value) list" where
  "server_toml dir http =
     [(''data'', TomlString (dir @ ''/data'')), (''run'', TomlString (dir @ ''/run'')), (''socket'', TomlString ''lug.sock''),
      (''ring'', TomlInt 4096), (''checkpoint_every'', TomlInt (2 ^ 63 - 1))] @
     (case http of None \<Rightarrow> [] | Some a \<Rightarrow> [(''http'', TomlString a), (''token'', TomlString (dir @ ''/bearer''))])"

definition hex_byte :: "nat \<Rightarrow> string" where
  "hex_byte b = [hex_digit (b div 16), hex_digit (b mod 16)]"

definition server_token :: "nat list \<Rightarrow> string" where
  "server_token random = concat (map hex_byte random)"

definition server_dir :: "string \<Rightarrow> nat \<Rightarrow> nat list \<Rightarrow> string" where
  "server_dir tmp pid random = tmp @ ''/lug-load-'' @ dec_digits pid @ ''-'' @ concat (map hex_byte (take 8 random))"

text \<open>Once the directory is there: \<open>None\<close> is a server that is not installed.\<close>

definition server_start :: "string + unit \<Rightarrow> bool \<Rightarrow> spawn_answer \<Rightarrow> ready_poll list \<Rightarrow> server_error + server_state option" where
  "server_start prepared http answer polls =
     rbind (map_err OsError prepared) (\<lambda>_.
     case server_spawn answer \<lparr>sv_child = None, sv_log = []\<rparr> of
       (s, Spawned _) \<Rightarrow> (case ready_loop http polls s of (s, Inl e) \<Rightarrow> Inl e | (s, Inr _) \<Rightarrow> Inr (Some s))
     | (s, SpawnNotFound) \<Rightarrow> Inr None
     | (s, SpawnFails e) \<Rightarrow> Inl (OsError e))"

section \<open>Crashing and stopping\<close>

datatype remove_answer = Removed | RemoveNotFound | RemoveFails string

record restart_answers =
  ra_kill :: "string + unit"
  ra_wait :: "string + exit_status"
  ra_remove :: remove_answer
  ra_spawn :: spawn_answer
  ra_polls :: "ready_poll list"

definition respawn :: "bool \<Rightarrow> restart_answers \<Rightarrow> server_state \<Rightarrow> server_state \<times> (server_error + unit)" where
  "respawn http a s =
     (case ra_remove a of
        RemoveFails e \<Rightarrow> (s, Inl (OsError e))
      | _ \<Rightarrow>
          (case server_spawn (ra_spawn a) s of
             (s, Spawned _) \<Rightarrow> ready_loop http (ra_polls a) s
           | (s, SpawnNotFound) \<Rightarrow> (s, Inl (OsError ''not found''))
           | (s, SpawnFails e) \<Rightarrow> (s, Inl (OsError e))))"

definition crash_restart :: "bool \<Rightarrow> restart_answers \<Rightarrow> server_state \<Rightarrow> server_state \<times> (server_error + unit)" where
  "crash_restart http a s =
     (case sv_child s of
        None \<Rightarrow> (s, Inl AbsentServer)
      | Some c \<Rightarrow>
          (case child_kill (ra_kill a) c of
             (evs, Inl e) \<Rightarrow> (with_child c evs s, Inl (OsError e))
           | (evs, Inr _) \<Rightarrow>
               let s = with_child c evs s in
               case child_wait (ra_wait a) c of
                 (c, evs, Inl e) \<Rightarrow> (with_child c evs s, Inl (OsError e))
               | (c, evs, Inr st) \<Rightarrow>
                   let s = (with_child c evs s)\<lparr>sv_child := None\<rparr> in
                   if st \<noteq> Signalled sigkill then (s, Inl (ExpectedSigkill st)) else respawn http a s))"

record stop_answers =
  sa_first :: "string + exit_status option"
  sa_term :: "string + unit"
  sa_polls :: "(string + exit_status option) list"
  sa_kill :: "string + unit"
  sa_wait :: "string + exit_status"

text \<open>The five seconds after SIGTERM, then SIGKILL.\<close>

fun stop_loop :: "stop_answers \<Rightarrow> (string + exit_status option) list \<Rightarrow> child \<Rightarrow> server_state \<Rightarrow> server_state \<times> (server_error + unit)" where
  "stop_loop a [] c s =
     (case child_kill (sa_kill a) c of
        (evs, Inl e) \<Rightarrow> (with_child c evs s, Inl (OsError e))
      | (evs, Inr _) \<Rightarrow>
          let s = with_child c evs s in
          case child_wait (sa_wait a) c of
            (c, evs, Inl e) \<Rightarrow> (with_child c evs s, Inl (OsError e))
          | (c, evs, Inr _) \<Rightarrow> (with_child c evs s, Inl IgnoredSigterm))"
| "stop_loop a (p # ps) c s =
     (case child_try_wait p c of
        (c, evs, Inl e) \<Rightarrow> (with_child c evs s, Inl (OsError e))
      | (c, evs, Inr (Some _)) \<Rightarrow> ((with_child c evs s)\<lparr>sv_child := None\<rparr>, Inr ())
      | (c, evs, Inr None) \<Rightarrow> stop_loop a ps c (with_child c evs s))"

definition server_shutdown :: "stop_answers \<Rightarrow> server_state \<Rightarrow> server_state \<times> (server_error + unit)" where
  "server_shutdown a s =
     (case sv_child s of
        None \<Rightarrow> (s, Inr ())
      | Some c \<Rightarrow>
          (case child_try_wait (sa_first a) c of
             (c, evs, Inl e) \<Rightarrow> (with_child c evs s, Inl (OsError e))
           | (c, evs, Inr (Some _)) \<Rightarrow> ((with_child c evs s)\<lparr>sv_child := None\<rparr>, Inr ())
           | (c, evs, Inr None) \<Rightarrow>
               let s = with_child c evs s in
               case send_signal (sa_term a) (cd_pid c) sigterm of
                 (evs, Inl e) \<Rightarrow> (with_child c evs s, Inl e)
               | (evs, Inr _) \<Rightarrow> stop_loop a (sa_polls a) c (with_child c evs s)))"

definition server_drop :: "string + unit \<Rightarrow> string + exit_status \<Rightarrow> server_state \<Rightarrow> server_state" where
  "server_drop kill wait s =
     (case sv_child s of
        None \<Rightarrow> s
      | Some c \<Rightarrow>
          (case child_kill kill c of (evs, _) \<Rightarrow>
             (case child_wait wait c of (c, evs', _) \<Rightarrow> s\<lparr>sv_child := None, sv_log := sv_log s @ evs @ evs'\<rparr>)))"


section \<open>Signals and orphans\<close>

text \<open>A run of the operations on one server, from its start.\<close>

datatype server_op =
    OpReady bool "ready_poll list"
  | OpRestart bool restart_answers
  | OpShutdown stop_answers

fun server_do :: "server_op \<Rightarrow> server_state \<Rightarrow> server_state" where
  "server_do (OpReady http polls) s = fst (ready_loop http polls s)"
| "server_do (OpRestart http a) s = fst (crash_restart http a s)"
| "server_do (OpShutdown a) s = fst (server_shutdown a s)"

definition server_run :: "nat \<Rightarrow> server_op list \<Rightarrow> server_state" where
  "server_run pid ops = fold server_do ops (fst (server_spawn (Spawned pid) \<lparr>sv_child = None, sv_log = []\<rparr>))"

text \<open>The processes started and not yet waited for, and whether signals went to those only.\<close>

fun unreaped :: "os_event list \<Rightarrow> nat set \<Rightarrow> nat set" where
  "unreaped [] alive = alive"
| "unreaped (OsSpawn p # evs) alive = unreaped evs (insert p alive)"
| "unreaped (OsKill p sig # evs) alive = unreaped evs alive"
| "unreaped (OsReap p # evs) alive = unreaped evs (alive - {p})"

fun signals_ok :: "os_event list \<Rightarrow> nat set \<Rightarrow> bool" where
  "signals_ok [] alive = True"
| "signals_ok (OsSpawn p # evs) alive = signals_ok evs (insert p alive)"
| "signals_ok (OsKill p sig # evs) alive \<longleftrightarrow> p \<in> alive \<and> signals_ok evs alive"
| "signals_ok (OsReap p # evs) alive = signals_ok evs (alive - {p})"

lemma unreaped_append: "unreaped (xs @ ys) alive = unreaped ys (unreaped xs alive)"
  by (induction xs alive rule: unreaped.induct) simp_all

lemma signals_append: "signals_ok (xs @ ys) alive \<longleftrightarrow> signals_ok xs alive \<and> signals_ok ys (unreaped xs alive)"
  by (induction xs alive rule: unreaped.induct) simp_all

definition held :: "child option \<Rightarrow> nat set" where
  "held c = (case c of None \<Rightarrow> {} | Some c \<Rightarrow> if cd_status c = None then {cd_pid c} else {})"

text \<open>The invariant: what is not reaped is the child held, and every signal so far was to such a process.\<close>

definition tidy :: "child option \<Rightarrow> os_event list \<Rightarrow> bool" where
  "tidy c evs \<longleftrightarrow> signals_ok evs {} \<and> unreaped evs {} = held c"

lemma tidy_try_wait: "child_try_wait answer c = (c', evs, r) \<Longrightarrow> tidy (Some c) past \<Longrightarrow>
    tidy (Some c') (past @ evs) \<and> (\<forall>st. r = Inr (Some st) \<longrightarrow> cd_status c' \<noteq> None) \<and> (r = Inr None \<longrightarrow> c' = c \<and> cd_status c = None)"
  by (auto simp: child_try_wait_def tidy_def held_def signals_append unreaped_append split: option.splits sum.splits)

lemma tidy_wait: "child_wait answer c = (c', evs, r) \<Longrightarrow> tidy (Some c) past \<Longrightarrow>
    tidy (Some c') (past @ evs) \<and> (\<forall>st. r = Inr st \<longrightarrow> cd_status c' \<noteq> None)"
  by (auto simp: child_wait_def tidy_def held_def signals_append unreaped_append split: option.splits sum.splits)

lemma tidy_to_held: "tidy (Some c) past \<Longrightarrow> cd_status c = None \<Longrightarrow> tidy (Some c) (past @ [OsKill (cd_pid c) sig])"
  unfolding tidy_def signals_append unreaped_append by (simp add: held_def)

lemma tidy_kill:
  assumes "child_kill answer c = (evs, r)" "tidy (Some c) past"
  shows "tidy (Some c) (past @ evs)"
proof (cases "cd_status c")
  case None
  then have "evs = [OsKill (cd_pid c) sigkill]" using assms(1) by (simp add: child_kill_def)
  then show ?thesis using tidy_to_held [OF assms(2) None] by simp
next
  case (Some st)
  then have "evs = []" using assms(1) by (simp add: child_kill_def)
  then show ?thesis using assms(2) by simp
qed

lemma tidy_signal:
  assumes "send_signal answer (cd_pid c) sig = (evs, r)" "cd_status c = None" "tidy (Some c) past"
  shows "tidy (Some c) (past @ evs)"
proof (cases "2 ^ 31 \<le> cd_pid c")
  case True
  then have "evs = []" using assms(1) unfolding send_signal_def if_P [OF True] by simp
  then show ?thesis using assms(3) by simp
next
  case False
  then have "evs = [OsKill (cd_pid c) sig]" using assms(1) unfolding send_signal_def if_not_P [OF False] by simp
  then show ?thesis using tidy_to_held [OF assms(3,2)] by simp
qed

lemma tidy_gone: "tidy (Some c) past \<Longrightarrow> cd_status c \<noteq> None \<Longrightarrow> tidy None past"
  by (simp add: tidy_def held_def)

definition server_tidy :: "server_state \<Rightarrow> bool" where
  "server_tidy s \<longleftrightarrow> tidy (sv_child s) (sv_log s)"

lemma tidy_with: "tidy (Some c) (sv_log s @ evs) \<Longrightarrow> server_tidy (with_child c evs s)"
  by (simp add: server_tidy_def with_child_def)

lemma with_child_simps [simp]: "sv_log (with_child c evs s) = sv_log s @ evs" "sv_child (with_child c evs s) = Some c"
  by (simp_all add: with_child_def)

lemma tidy_ready: "server_tidy s \<Longrightarrow> server_tidy (fst (ready_loop http polls s))"
proof (induction polls arbitrary: s)
  case (Cons p ps)
  show ?case
  proof (cases "sv_child s")
    case (Some c)
    obtain c' evs r where t: "child_try_wait (rp_wait p) c = (c', evs, r)" by (metis prod_cases3)
    have "server_tidy (with_child c' evs s)"
      using tidy_try_wait [OF t, of "sv_log s"] Cons.prems Some by (simp add: server_tidy_def)
    then show ?thesis using Cons.IH Some t by (auto simp: Let_def split: sum.splits option.splits)
  qed (use Cons.prems in simp)
qed simp

lemma tidy_spawn: "server_tidy s \<Longrightarrow> sv_child s = None \<Longrightarrow> server_spawn answer s = (s', r) \<Longrightarrow> server_tidy s'"
  by (auto simp: server_spawn_def server_tidy_def tidy_def held_def signals_append unreaped_append split: spawn_answer.splits)

lemma tidy_restart: "server_tidy s \<Longrightarrow> server_tidy (fst (crash_restart http a s))"
proof (cases "sv_child s")
  case (Some c)
  assume s: "server_tidy s"
  obtain evs r where k: "child_kill (ra_kill a) c = (evs, r)" by fastforce
  have killed: "tidy (Some c) (sv_log s @ evs)" using tidy_kill [OF k] s Some by (simp add: server_tidy_def)
  obtain c' evs' r' where w: "child_wait (ra_wait a) c = (c', evs', r')" by (metis prod_cases3)
  have waited: "tidy (Some c') ((sv_log s @ evs) @ evs')" "\<forall>st. r' = Inr st \<longrightarrow> cd_status c' \<noteq> None" using tidy_wait [OF w killed] by auto
  let ?s = "(with_child c' evs' (with_child c evs s))\<lparr>sv_child := None\<rparr>"
  have again: "server_tidy (fst (respawn http a ?s))" if "r' = Inr st" for st
  proof -
    have "server_tidy ?s" using waited that tidy_gone by (simp add: server_tidy_def)
    then have "server_tidy s'" if "server_spawn (ra_spawn a) ?s = (s', q)" for s' q using tidy_spawn [OF _ _ that] by simp
    then show ?thesis using \<open>server_tidy ?s\<close> tidy_ready
      by (auto simp: respawn_def split: remove_answer.splits prod.splits spawn_answer.splits)
  qed
  show ?thesis
  proof (cases r)
    case (Inl e)
    then show ?thesis using Some k killed tidy_with by (simp add: crash_restart_def)
  next
    case (Inr u)
    show ?thesis
    proof (cases r')
      case (Inl e)
      then show ?thesis using Some k w waited(1) Inr tidy_with [of c' "with_child c evs s" evs'] by (simp add: crash_restart_def)
    next
      case (Inr st)
      then have "server_tidy ?s" using waited tidy_gone by (simp add: server_tidy_def)
      then show ?thesis using Some k w \<open>r = Inr u\<close> Inr again [OF Inr] by (simp add: crash_restart_def Let_def)
    qed
  qed
qed (simp add: crash_restart_def)

lemma tidy_stop: "tidy (Some c) (sv_log s) \<Longrightarrow> server_tidy (fst (stop_loop a ps c s))"
proof (induction a ps c s rule: stop_loop.induct)
  case (1 a c s)
  obtain evs r where k: "child_kill (sa_kill a) c = (evs, r)" by fastforce
  have killed: "tidy (Some c) (sv_log s @ evs)" using tidy_kill [OF k "1.prems"] .
  obtain c' evs' r' where w: "child_wait (sa_wait a) c = (c', evs', r')" by (metis prod_cases3)
  have "tidy (Some c') ((sv_log s @ evs) @ evs')" using tidy_wait [OF w killed] by auto
  then show ?case using k w killed tidy_with [of c s evs] tidy_with [of c' "with_child c evs s" evs'] by (cases r; cases r') simp_all
next
  case (2 a p ps c s)
  obtain c' evs r where t: "child_try_wait p c = (c', evs, r)" by (metis prod_cases3)
  note tt = tidy_try_wait [OF t "2.prems"]
  show ?case
  proof (cases r)
    case (Inl e)
    then show ?thesis using t tt tidy_with by simp
  next
    case (Inr q)
    show ?thesis
    proof (cases q)
      case None
      have "tidy (Some c') (sv_log (with_child c' evs s))" using tt by simp
      from "2.IH" [OF t [symmetric] refl _ None this] show ?thesis using t Inr None by simp
    next
      case (Some st)
      have "tidy None (sv_log s @ evs)" by (rule tidy_gone) (use tt Inr Some in auto)
      then show ?thesis using t Inr Some by (simp add: server_tidy_def)
    qed
  qed
qed

lemma tidy_shutdown: "server_tidy s \<Longrightarrow> server_tidy (fst (server_shutdown a s))"
proof (cases "sv_child s")
  case (Some c)
  assume s: "server_tidy s"
  obtain c' evs r where t: "child_try_wait (sa_first a) c = (c', evs, r)" by (metis prod_cases3)
  have tt: "tidy (Some c') (sv_log s @ evs)" "\<forall>st. r = Inr (Some st) \<longrightarrow> cd_status c' \<noteq> None" "r = Inr None \<longrightarrow> cd_status c' = None"
    using tidy_try_wait [OF t, of "sv_log s"] s Some by (auto simp: server_tidy_def)
  obtain evs' q where g: "send_signal (sa_term a) (cd_pid c') sigterm = (evs', q)" by fastforce
  show ?thesis
  proof (cases r)
    case (Inl e)
    then show ?thesis using Some t tt(1) tidy_with by (simp add: server_shutdown_def)
  next
    case (Inr w)
    show ?thesis
    proof (cases w)
      case None
      have "tidy (Some c') ((sv_log s @ evs) @ evs')" using tidy_signal [OF g _ tt(1)] tt(3) Inr None by simp
      then show ?thesis using Some t Inr None g tidy_with [of c' "with_child c' evs s" evs'] tidy_stop [of c' "with_child c' evs' (with_child c' evs s)"]
        by (cases q) (simp_all add: server_shutdown_def)
    next
      case (Some st)
      have "tidy None (sv_log s @ evs)" by (rule tidy_gone [OF tt(1)]) (use tt(2) Inr Some in auto)
      then show ?thesis using \<open>sv_child s = Some c\<close> t Inr Some by (simp add: server_shutdown_def server_tidy_def)
    qed
  qed
qed (simp add: server_shutdown_def)

lemma tidy_run: "server_tidy (server_run pid ops)"
proof -
  have "server_tidy (fold server_do ops s)" if "server_tidy s" for s
    using that
  proof (induction ops arbitrary: s)
    case (Cons op ops)
    have "server_tidy (server_do op s)" using Cons.prems tidy_ready tidy_restart tidy_shutdown by (cases op) simp_all
    then show ?case using Cons.IH by simp
  qed simp
  moreover have "server_tidy (fst (server_spawn (Spawned pid) \<lparr>sv_child = None, sv_log = []\<rparr>))"
    by (simp add: server_spawn_def server_tidy_def tidy_def held_def)
  ultimately show ?thesis by (simp add: server_run_def)
qed

text \<open>
  C20: Signals reach nobody else, and nothing is left running. However the server under test is
  waited for, crashed, restarted and stopped, and whatever the system answers, every signal goes to
  a process that was started and has not been waited for, whose number no other process can have;
  and once the server is dropped, if the last wait does not fail, every process that was started has
  been waited for.
\<close>

theorem signals_go_to_our_child:
  assumes "s = server_drop kill wait (server_run pid ops)"
  shows "signals_ok (sv_log s) {} \<and> (wait = Inr st \<longrightarrow> unreaped (sv_log s) {} = {})"
proof (cases "sv_child (server_run pid ops)")
  case None
  then show ?thesis using tidy_run [of pid ops] assms by (simp add: server_drop_def server_tidy_def tidy_def held_def)
next
  case (Some c)
  let ?s = "server_run pid ops"
  obtain evs r where k: "child_kill kill c = (evs, r)" by fastforce
  have killed: "tidy (Some c) (sv_log ?s @ evs)" using tidy_kill [OF k] tidy_run [of pid ops] Some by (simp add: server_tidy_def)
  obtain c' evs' r' where w: "child_wait wait c = (c', evs', r')" by (metis prod_cases3)
  have waited: "tidy (Some c') ((sv_log ?s @ evs) @ evs')" "\<forall>st. r' = Inr st \<longrightarrow> cd_status c' \<noteq> None" using tidy_wait [OF w killed] by auto
  have "\<exists>st. r' = Inr st" if "wait = Inr st" using that w by (auto simp: child_wait_def split: option.splits)
  then have "unreaped (sv_log ?s @ evs @ evs') {} = {}" if "wait = Inr st" using that waited by (auto simp: tidy_def held_def)
  then show ?thesis using assms Some k w waited(1) by (simp add: server_drop_def tidy_def)
qed


text \<open>A server that is terminated in time, crashed and restarted before that.\<close>

theorem signals_go_to_our_child_witness:
  "signals_ok (sv_log (server_drop (Inr ()) (Inr (Exited 0)) (server_run 7
     [OpRestart False \<lparr>ra_kill = Inr (), ra_wait = Inr (Signalled 9), ra_remove = Removed, ra_spawn = Spawned 8, ra_polls = []\<rparr>]))) {} \<and>
   unreaped (sv_log (server_drop (Inr ()) (Inr (Exited 0)) (server_run 7
     [OpRestart False \<lparr>ra_kill = Inr (), ra_wait = Inr (Signalled 9), ra_remove = Removed, ra_spawn = Spawned 8, ra_polls = []\<rparr>]))) {} = {}"
  using signals_go_to_our_child [OF refl, of "Inr ()" "Inr (Exited 0)" 7
    "[OpRestart False \<lparr>ra_kill = Inr (), ra_wait = Inr (Signalled 9), ra_remove = Removed, ra_spawn = Spawned 8, ra_polls = []\<rparr>]" "Exited 0"]
  by simp

text \<open>A count of descriptors that is reported was read five times in a row.\<close>

lemma quiescent_steady:
  "quiescent_loop previous same xs = Some (Inr (n, r)) \<Longrightarrow> same < 4 \<Longrightarrow>
    \<exists>pre k. (case previous of None \<Rightarrow> [] | Some p \<Rightarrow> replicate (same + 1) (Inr p)) @ take k (map fs_count xs) = pre @ replicate 5 (Inr n)"
proof (induction xs arbitrary: previous same)
  case (Cons x xs)
  obtain fds where fds: "fs_count x = Inr fds" using Cons.prems(1) by (cases "fs_count x") auto
  let ?same = "if previous = Some fds then same + 1 else 0"
  have again: "quiescent_loop (Some fds) ?same xs = Some (Inr (n, r))" if "?same < 4"
    using Cons.prems(1) that fds by (auto simp: Let_def split: if_splits)
  show ?case
  proof (cases "previous = Some fds")
    case True
    have steps: "replicate (same + 1) (Inr fds) @ [Inr fds] = replicate (same + 2) (Inr fds :: string + nat)"
      by (simp add: replicate_append_same)
    show ?thesis
    proof (cases "same = 3")
      case True
      then have "n = fds" using Cons.prems(1) fds \<open>previous = Some fds\<close> by (auto simp: rbind_def split: sum.splits)
      then show ?thesis using True \<open>previous = Some fds\<close> fds
        by (intro exI [of _ "[]"] exI [of _ 1]) (simp add: numeral_eq_Suc)
    next
      case False
      then have "?same < 4" "?same = same + 1" using Cons.prems(2) True by auto
      from Cons.IH [OF again [OF this(1)] this(1)] this(2) obtain pre k where
          "replicate (same + 2) (Inr fds) @ take k (map fs_count xs) = pre @ replicate 5 (Inr n)" by auto
      then show ?thesis using True fds steps by (intro exI [of _ pre] exI [of _ "Suc k"]) (simp add: replicate_app_Cons_same)
    qed
  next
    case False
    then obtain pre k where "[Inr fds] @ take k (map fs_count xs) = pre @ replicate 5 (Inr n)"
      using Cons.IH [OF again] by auto
    then show ?thesis using fds
      by (intro exI [of _ "(case previous of None \<Rightarrow> [] | Some p \<Rightarrow> replicate (same + 1) (Inr p)) @ pre"] exI [of _ "Suc k"]) simp
  qed
qed simp

end
