(* ===== verification/LoadRun.thy ===== *)
theory LoadRun
  imports LoadServer "HOL-Library.Product_Lexorder"
begin

text \<open>
  \<open>crates/lug-load/src/run.rs\<close>: the pool's bookkeeping of acknowledgements, the setup of a load, the
  loop that issues appends when they are due and judges every frame that arrives, and its end.
  Events are given with the time they happen at; \<open>room\<close> says whether a connection's command queue
  had room. The theorem ties a load that passes to what the server sent, through the ledger.
\<close>

section \<open>The pool\<close>

definition load_credit :: nat where "load_credit = 256"
definition append_base :: nat where "append_base = 2 ^ 32"
definition control_id :: nat where "control_id = u64_max - 1"
definition stalled_id :: nat where "stalled_id = u64_max - 2"

datatype run_error =
    ConnectionFailed nat string
  | ServerRefused nat id code string
  | UnexpectedOk nat id
  | DuplicateOk nat id
  | PushedBeforeAck id
  | UnknownAck id
  | AckOnWrongConnection id nat nat
  | UnexpectedAck id
  | BackpressureFailure
  | StreamOnWrongConnection id nat
  | BeforeIntended
  | GapDespiteRetention id version version
  | UnexpectedResponse response
  | TooManyInFlight nat
  | QueueOverload nat
  | PayloadPanic
  | InLedger ledger_error
  | LoadStalled nat nat
  | ControlExceeded id
  | CancelExceeded
  | ReplayLost
  | PlannedTooMany
  | InServer server_error
  | FdLeak nat nat nat
  | EstablishTimeout nat
  | AcceptsTimeout

record pool =
  pl_peers :: nat
  pl_confirmations :: "(nat \<times> id, nat) btree_map"
  pl_unconfirmed :: "(nat \<times> id) list"
  pl_sent :: "(nat \<times> request) list"

definition pool_new :: "nat \<Rightarrow> pool" where
  "pool_new peers = \<lparr>pl_peers = peers, pl_confirmations = [], pl_unconfirmed = [], pl_sent = []\<rparr>"

definition expects_ok :: "request \<Rightarrow> bool" where
  "expects_ok req \<longleftrightarrow> (case req of Subscribe _ _ _ _ _ \<Rightarrow> True | Credit _ _ \<Rightarrow> True | _ \<Rightarrow> False)"

definition is_subscribe :: "request \<Rightarrow> bool" where
  "is_subscribe req \<longleftrightarrow> (case req of Subscribe _ _ _ _ _ \<Rightarrow> True | _ \<Rightarrow> False)"

definition pool_expect :: "nat \<Rightarrow> request \<Rightarrow> pool \<Rightarrow> pool" where
  "pool_expect peer req p =
     (let key = (peer, req_id req);
          p = (if expects_ok req
            then p\<lparr>pl_confirmations := bt_insert key (case bt_get (pl_confirmations p) key of None \<Rightarrow> 1 | Some n \<Rightarrow> n + 1) (pl_confirmations p)\<rparr>
            else p)
      in if is_subscribe req then p\<lparr>pl_unconfirmed := List.insert key (pl_unconfirmed p)\<rparr> else p)"

text \<open>\<open>try_send\<close> and \<open>send\<close>: what is expected is noted first.\<close>

definition pool_send :: "bool \<Rightarrow> nat \<Rightarrow> request \<Rightarrow> pool \<Rightarrow> pool \<times> (run_error + unit)" where
  "pool_send room peer req p =
     (let p = pool_expect peer req p in
      if room then (p\<lparr>pl_sent := pl_sent p @ [(peer, req)]\<rparr>, Inr ()) else (p, Inl (QueueOverload peer)))"

definition pool_next :: "nat \<Rightarrow> string + response \<Rightarrow> pool \<Rightarrow> pool \<times> (run_error + response)" where
  "pool_next peer frame p =
     (case frame of
        Inl e \<Rightarrow> (p, Inl (ConnectionFailed peer e))
      | Inr r \<Rightarrow>
          (case r of
             ErrorFrame i c m \<Rightarrow> (p, Inl (ServerRefused peer i c m))
           | OkFrame i \<Rightarrow>
               (case bt_get (pl_confirmations p) (peer, i) of
                  None \<Rightarrow> (p, Inl (UnexpectedOk peer i))
                | Some n \<Rightarrow>
                    if n = 0 then (p, Inl (DuplicateOk peer i))
                    else (p\<lparr>pl_confirmations := bt_insert (peer, i) (n - 1) (pl_confirmations p),
                        pl_unconfirmed := removeAll (peer, i) (pl_unconfirmed p)\<rparr>, Inr r))
           | RecordsFrame i rs \<Rightarrow>
               if (peer, i) \<in> set (pl_unconfirmed p) then (p, Inl (PushedBeforeAck i)) else (p, Inr r)
           | _ \<Rightarrow> (p, Inr r)))"

section \<open>The load\<close>

record load_state =
  rn_pool :: pool
  rn_ledger :: ledger
  rn_streams :: "(id \<times> nat) list"
  rn_sent :: nat
  rn_pending :: "nat list"
  rn_append_micros :: "nat list"
  rn_delivery_micros :: "nat list"
  rn_acknowledged :: nat
  rn_delivered :: nat
  rn_window_acks :: nat
  rn_window_deliveries :: nat

definition load_new :: "load_config \<Rightarrow> nat \<Rightarrow> pool \<Rightarrow> load_state" where
  "load_new c logs p =
     \<lparr>rn_pool = p, rn_ledger = ledger_new logs (ld_patch_size c) (ld_durability c), rn_streams = [],
      rn_sent = 0, rn_pending = [], rn_append_micros = [], rn_delivery_micros = [], rn_acknowledged = 0,
      rn_delivered = 0, rn_window_acks = 0, rn_window_deliveries = 0\<rparr>"

text \<open>The subscriptions of the setup: (log, subscriber) pairs in the order of the two loops.\<close>

definition subscriptions :: "load_config \<Rightarrow> nat \<Rightarrow> (nat \<times> nat) list" where
  "subscriptions c logs = concat (map (\<lambda>k. map (\<lambda>s. (k, s)) [0..<ld_subscribers c]) [0..<logs])"

definition subscribe_one :: "load_config \<Rightarrow> string list \<Rightarrow> nat \<times> nat \<Rightarrow> load_state \<Rightarrow> run_error + load_state" where
  "subscribe_one c names ks st =
     (let ordinal = fst ks * ld_subscribers c + snd ks; i = ordinal + 1;
          peer = (ld_logs c * ld_appenders c + ordinal) mod pl_peers (rn_pool st)
      in case ledger_subscribe i (fst ks) 0 load_credit (rn_ledger st) of
          (l, Inl e) \<Rightarrow> Inl (InLedger e)
        | (l, Inr _) \<Rightarrow>
            Inr (st\<lparr>rn_ledger := l, rn_pool := fst (pool_send True peer (Subscribe i (names ! fst ks) 0 Records load_credit) (rn_pool st)),
                rn_streams := rn_streams st @ [(i, peer)]\<rparr>))"

fun subscribe_all :: "load_config \<Rightarrow> string list \<Rightarrow> (nat \<times> nat) list \<Rightarrow> load_state \<Rightarrow> run_error + load_state" where
  "subscribe_all c names [] st = Inr st"
| "subscribe_all c names (ks # rest) st = rbind (subscribe_one c names ks st) (subscribe_all c names rest)"

fun latencies :: "nat list \<Rightarrow> nat \<Rightarrow> run_error + nat list" where
  "latencies [] arrived = Inr []"
| "latencies (t # ts) arrived =
     rbind (ok_or (latency_micros t arrived) BeforeIntended) (\<lambda>m. rbind (latencies ts arrived) (\<lambda>ms. Inr (m # ms)))"

text \<open>A frame from \<open>peer\<close> at the time \<open>arrived\<close>; the window ends at \<open>end_time\<close>.\<close>

definition on_ack :: "load_config \<Rightarrow> nat \<Rightarrow> nat \<Rightarrow> nat \<Rightarrow> id \<Rightarrow> version list \<Rightarrow> version \<Rightarrow> load_state \<Rightarrow> run_error + load_state" where
  "on_ack c end_time peer arrived i versions synced st =
     (let lanes = ld_logs c * ld_appenders c in
      case u64_checked_sub i append_base of
        None \<Rightarrow> Inl (UnknownAck i)
      | Some sequence \<Rightarrow>
          let expected = (sequence mod lanes) mod pl_peers (rn_pool st) in
          if peer \<noteq> expected then Inl (AckOnWrongConnection i peer expected)
          else if sequence \<notin> set (rn_pending st) then Inl (UnexpectedAck i)
          else case ledger_ack sequence versions synced (rn_ledger st) of
              (l, Inl e) \<Rightarrow> Inl (InLedger e)
            | (l, Inr intended) \<Rightarrow>
                rbind (ok_or (latency_micros intended arrived) BeforeIntended) (\<lambda>m.
                  Inr (st\<lparr>rn_ledger := l, rn_pending := removeAll sequence (rn_pending st),
                      rn_append_micros := rn_append_micros st @ [m], rn_acknowledged := rn_acknowledged st + 1,
                      rn_window_acks := rn_window_acks st + (if arrived < end_time then 1 else 0)\<rparr>)))"

definition on_records :: "nat \<Rightarrow> bool \<Rightarrow> nat \<Rightarrow> nat \<Rightarrow> id \<Rightarrow> wire_record list \<Rightarrow> load_state \<Rightarrow> run_error + load_state" where
  "on_records end_time room peer arrived i records st =
     (if i = stalled_id then Inl BackpressureFailure
      else if map_of (rn_streams st) i \<noteq> Some peer then Inl (StreamOnWrongConnection i peer)
      else case ledger_records i records (rn_ledger st) of
          (l, Inl e) \<Rightarrow> Inl (InLedger e)
        | (l, Inr intended) \<Rightarrow>
            rbind (latencies intended arrived) (\<lambda>ms.
              let n = length records in
              case pool_send room peer (Credit i n) (rn_pool st) of
                (p, Inl e) \<Rightarrow> Inl e
              | (p, Inr _) \<Rightarrow>
                  (case ledger_grant i n l of
                     (l, Inl e) \<Rightarrow> Inl (InLedger e)
                   | (l, Inr _) \<Rightarrow>
                       Inr (st\<lparr>rn_ledger := l, rn_pool := p, rn_delivery_micros := rn_delivery_micros st @ ms,
                           rn_delivered := rn_delivered st + n,
                           rn_window_deliveries := rn_window_deliveries st + (if arrived < end_time then n else 0)\<rparr>))))"

definition on_frame :: "load_config \<Rightarrow> nat \<Rightarrow> bool \<Rightarrow> nat \<Rightarrow> nat \<Rightarrow> string + response \<Rightarrow> load_state \<Rightarrow> run_error + load_state" where
  "on_frame c end_time room peer arrived frame st =
     (case pool_next peer frame (rn_pool st) of
        (p, Inl e) \<Rightarrow> Inl e
      | (p, Inr r) \<Rightarrow>
          let st = st\<lparr>rn_pool := p\<rparr> in
          (case r of
             Ack i versions synced \<Rightarrow> on_ack c end_time peer arrived i versions synced st
           | RecordsFrame i records \<Rightarrow> on_records end_time room peer arrived i records st
           | Pong _ \<Rightarrow> Inr st
           | OkFrame _ \<Rightarrow> Inr st
           | GapFrame i lo hi \<Rightarrow> Inl (GapDespiteRetention i lo hi)
           | _ \<Rightarrow> Inl (UnexpectedResponse r)))"

text \<open>An append that is due.\<close>

definition on_due :: "load_config \<Rightarrow> string list \<Rightarrow> nat \<Rightarrow> bool \<Rightarrow> load_state \<Rightarrow> run_error + load_state" where
  "on_due c names start room st =
     (if ld_max_inflight c \<le> length (rn_pending st) then Inl (TooManyInFlight (length (rn_pending st)))
      else
        let lane = rn_sent st mod (ld_logs c * ld_appenders c); log_ix = lane div ld_appenders c;
            peer = lane mod pl_peers (rn_pool st);
            (l, sequence) = ledger_issue log_ix (start + offset (rn_sent st) (ld_rate c)) (rn_ledger st)
        in case payload sequence (ld_patch_size c) of
            None \<Rightarrow> Inl PayloadPanic
          | Some patch \<Rightarrow>
              (case pool_send room peer (Append (append_base + sequence) (names ! log_ix) [patch] (ld_durability c)) (rn_pool st) of
                 (p, Inl e) \<Rightarrow> Inl e
               | (p, Inr _) \<Rightarrow>
                   Inr (st\<lparr>rn_ledger := l, rn_pool := p, rn_pending := List.insert sequence (rn_pending st),
                       rn_sent := rn_sent st + 1\<rparr>)))"

text \<open>
  The branches of the \<open>select!\<close>: a frame, an append that is due, the deadline. Sampling the memory of
  the server and waking up at the end of the window change nothing here.
\<close>

datatype load_event =
    Arrives nat nat "string + response" bool
  | Due bool
  | Deadline

fun load_step :: "load_config \<Rightarrow> string list \<Rightarrow> nat \<Rightarrow> nat \<Rightarrow> load_event \<Rightarrow> load_state \<Rightarrow> run_error + load_state" where
  "load_step c names n start (Arrives peer arrived frame room) st = on_frame c (start + ld_duration c) room peer arrived frame st"
| "load_step c names n start (Due room) st = (if rn_sent st < n then on_due c names start room st else Inr st)"
| "load_step c names n start Deadline st = Inl (LoadStalled (rn_sent st) n)"

fun load_loop :: "load_config \<Rightarrow> string list \<Rightarrow> nat \<Rightarrow> nat \<Rightarrow> load_event list \<Rightarrow> load_state \<Rightarrow> run_error + load_state" where
  "load_loop c names n start [] st = Inr st"
| "load_loop c names n start (e # es) st = rbind (load_step c names n start e st) (load_loop c names n start es)"

text \<open>
  The loop is left as soon as all is sent, the ledger is complete and the window over; then the
  ledger has the last word. The events are those that came before that.
\<close>

definition load_end :: "load_config \<Rightarrow> nat \<Rightarrow> nat \<Rightarrow> nat \<Rightarrow> load_state \<Rightarrow> run_error + load_state" where
  "load_end c n start now st =
     (if rn_sent st = n \<and> ledger_complete (rn_ledger st) = Some True \<and> start + ld_duration c \<le> now
      then map_err InLedger (rbind (ledger_finish (rn_ledger st)) (\<lambda>_. Inr st))
      else Inl (LoadStalled (rn_sent st) n))"

text \<open>
  \<open>heartbeat\<close>, as the setup ends: every connection is pinged, and only what answers the pings and
  the subscriptions may come until all of it has. What is left of the frames is returned.
\<close>

definition settled :: "nat list \<Rightarrow> pool \<Rightarrow> bool" where
  "settled waiting p \<longleftrightarrow> waiting = [] \<and> \<not> list_ex (\<lambda>(key, n). 0 < n) (pl_confirmations p)"

fun heartbeat_loop :: "nat list \<Rightarrow> (nat \<times> (string + response)) list \<Rightarrow> pool \<Rightarrow> run_error + pool \<times> (nat \<times> (string + response)) list" where
  "heartbeat_loop waiting [] p = (if settled waiting p then Inr (p, []) else Inl (ControlExceeded control_id))"
| "heartbeat_loop waiting ((peer, frame) # es) p =
     (if settled waiting p then Inr (p, (peer, frame) # es)
      else case pool_next peer frame p of
          (p, Inl e) \<Rightarrow> Inl e
        | (p, Inr r) \<Rightarrow>
            (case r of
               Pong i \<Rightarrow> heartbeat_loop (if i = control_id then removeAll peer waiting else waiting) es p
             | OkFrame _ \<Rightarrow> heartbeat_loop waiting es p
             | _ \<Rightarrow> Inl (UnexpectedResponse r)))"

definition heartbeat :: "(nat \<times> (string + response)) list \<Rightarrow> pool \<Rightarrow> run_error + pool \<times> (nat \<times> (string + response)) list" where
  "heartbeat frames p =
     heartbeat_loop [0..<pl_peers p] frames (fold (\<lambda>peer p. fst (pool_send True peer (Ping control_id) p)) [0..<pl_peers p] p)"

definition load_run ::
    "load_config \<Rightarrow> string list \<Rightarrow> pool \<Rightarrow> nat \<Rightarrow> nat \<Rightarrow> nat \<Rightarrow> (nat \<times> (string + response)) list \<Rightarrow> load_event list \<Rightarrow>
     run_error + load_state" where
  "load_run c names opened n start now greeting events =
     rbind (subscribe_all c names (subscriptions c (length names)) (load_new c (length names) opened)) (\<lambda>st.
       rbind (heartbeat greeting (rn_pool st)) (\<lambda>(p, _).
         rbind (load_loop c names n start events (st\<lparr>rn_pool := p\<rparr>)) (load_end c n start now)))"

section \<open>Control requests\<close>

text \<open>Frames with the connection they come from.\<close>

type_synonym incoming = "(nat \<times> (string + response)) list"

definition is_ok :: "response \<Rightarrow> bool" where
  "is_ok r \<longleftrightarrow> (case r of OkFrame _ \<Rightarrow> True | _ \<Rightarrow> False)"

definition is_pong :: "response \<Rightarrow> bool" where
  "is_pong r \<longleftrightarrow> (case r of Pong _ \<Rightarrow> True | _ \<Rightarrow> False)"

fun control_loop :: "id \<Rightarrow> bool \<Rightarrow> incoming \<Rightarrow> pool \<Rightarrow> run_error + response \<times> pool \<times> incoming" where
  "control_loop i ok [] p = Inl (ControlExceeded i)"
| "control_loop i ok ((peer, frame) # es) p =
     (case pool_next peer frame p of
        (p, Inl e) \<Rightarrow> Inl e
      | (p, Inr r) \<Rightarrow>
          if resp_id r = i \<and> (ok \<or> \<not> is_ok r) then Inr (r, p, es)
          else if is_pong r \<or> is_ok r then control_loop i ok es p
          else Inl (UnexpectedResponse r))"

definition pool_control :: "request \<Rightarrow> incoming \<Rightarrow> pool \<Rightarrow> run_error + response \<times> pool \<times> incoming" where
  "pool_control req es p = control_loop (req_id req) (expects_ok req) es (fst (pool_send True 0 req p))"

fun pool_create :: "string list \<Rightarrow> incoming \<Rightarrow> pool \<Rightarrow> run_error + pool \<times> incoming" where
  "pool_create [] es p = Inr (p, es)"
| "pool_create (name # names) es p =
     rbind (pool_control (Create control_id name False) es p) (\<lambda>(r, p, es).
       case r of
         Logs _ infos \<Rightarrow>
           if length infos = 1 \<and> li_name (infos ! 0) = name \<and> \<not> li_reducible (infos ! 0) then pool_create names es p
           else Inl (UnexpectedResponse r)
       | _ \<Rightarrow> Inl (UnexpectedResponse r))"

section \<open>Cancelling and replaying\<close>

text \<open>\<open>cancel\<close>: all streams are cancelled; records still on their way go through the ledger.\<close>

definition cancel_frame :: "nat \<times> (string + response) \<Rightarrow> id list \<times> pool \<times> ledger \<Rightarrow> run_error + id list \<times> pool \<times> ledger" where
  "cancel_frame frame wpl = (case wpl of (waiting, p, l) \<Rightarrow>
     (case pool_next (fst frame) (snd frame) p of
        (p, Inl e) \<Rightarrow> Inl e
      | (p, Inr r) \<Rightarrow>
          (case r of
             End i \<Rightarrow> if i \<in> set waiting then Inr (removeAll i waiting, p, l) else Inl (UnexpectedResponse r)
           | Pong _ \<Rightarrow> Inr (waiting, p, l)
           | OkFrame _ \<Rightarrow> Inr (waiting, p, l)
           | RecordsFrame i rs \<Rightarrow>
               (case ledger_records i rs l of (l, Inl e) \<Rightarrow> Inl (InLedger e) | (l, Inr _) \<Rightarrow> Inr (waiting, p, l))
           | _ \<Rightarrow> Inl (UnexpectedResponse r))))"

fun cancel_loop :: "incoming \<Rightarrow> id list \<times> pool \<times> ledger \<Rightarrow> run_error + pool \<times> ledger \<times> incoming" where
  "cancel_loop es (waiting, p, l) =
     (if waiting = [] then Inr (p, l, es)
      else case es of
          [] \<Rightarrow> Inl CancelExceeded
        | frame # es \<Rightarrow> rbind (cancel_frame frame (waiting, p, l)) (cancel_loop es))"

declare cancel_loop.simps [simp del]

definition load_cancel :: "incoming \<Rightarrow> load_state \<Rightarrow> run_error + load_state \<times> incoming" where
  "load_cancel frames st =
     rbind (cancel_loop frames (map fst (rn_streams st),
         fold (\<lambda>(i, peer) p. fst (pool_send True peer (Cancel i) p)) (rn_streams st) (rn_pool st), rn_ledger st)) (\<lambda>(p, l, rest).
       map_err InLedger (rbind (ledger_finish l) (\<lambda>_. Inr (st\<lparr>rn_pool := p, rn_ledger := l\<rparr>, rest))))"

text \<open>
  \<open>replay_inner\<close>: one connection reads every log again from its start, against the same ledger, until
  that is complete; then the streams are cancelled and the connection is pinged.
\<close>

fun replay_subscribe :: "nat \<Rightarrow> string list \<Rightarrow> pool \<times> ledger \<Rightarrow> run_error + pool \<times> ledger" where
  "replay_subscribe k [] pl = Inr pl"
| "replay_subscribe k (name # names) (p, l) =
     (case ledger_subscribe (k + 1) k 0 load_credit l of
        (l, Inl e) \<Rightarrow> Inl (InLedger e)
      | (l, Inr _) \<Rightarrow>
          replay_subscribe (k + 1) names (fst (pool_send True 0 (Subscribe (k + 1) name 0 Records load_credit) p), l))"

definition replay_frame :: "nat \<times> (string + response) \<Rightarrow> pool \<times> ledger \<Rightarrow> run_error + pool \<times> ledger" where
  "replay_frame frame pl =
     (case pool_next (fst frame) (snd frame) (fst pl) of
        (p, Inl e) \<Rightarrow> Inl e
      | (p, Inr r) \<Rightarrow>
          (case r of
             RecordsFrame i rs \<Rightarrow>
               (case ledger_records i rs (snd pl) of
                  (l, Inl e) \<Rightarrow> Inl (InLedger e)
                | (l, Inr _) \<Rightarrow>
                    (case ledger_grant i (length rs) l of
                       (l, Inl e) \<Rightarrow> Inl (InLedger e)
                     | (l, Inr _) \<Rightarrow> Inr (fst (pool_send True 0 (Credit i (length rs)) p), l)))
           | Pong _ \<Rightarrow> Inr (p, snd pl)
           | OkFrame _ \<Rightarrow> Inr (p, snd pl)
           | _ \<Rightarrow> Inl (UnexpectedResponse r)))"

definition replay_done :: "incoming \<Rightarrow> pool \<times> ledger \<Rightarrow> run_error + pool \<times> ledger \<times> incoming" where
  "replay_done rest pl = map_err InLedger (rbind (ledger_finish (snd pl)) (\<lambda>_. Inr (fst pl, snd pl, rest)))"

fun replay_loop :: "incoming \<Rightarrow> pool \<times> ledger \<Rightarrow> run_error + pool \<times> ledger \<times> incoming" where
  "replay_loop frames pl =
     (case ledger_complete (snd pl) of
        None \<Rightarrow> Inl (InLedger (IndexPanic (length (lg_canonical (snd pl)))))
      | Some finished \<Rightarrow>
          if finished then replay_done frames pl
          else case frames of
              [] \<Rightarrow> Inl ReplayLost
            | frame # frames \<Rightarrow> rbind (replay_frame frame pl) (replay_loop frames))"

declare replay_loop.simps [simp del]

fun replay_cancel :: "nat list \<Rightarrow> incoming \<Rightarrow> pool \<Rightarrow> run_error + pool \<times> incoming" where
  "replay_cancel [] es p = Inr (p, es)"
| "replay_cancel (k # ks) es p =
     rbind (pool_control (Cancel (k + 1)) es p) (\<lambda>(r, p, es).
       case r of End _ \<Rightarrow> replay_cancel ks es p | _ \<Rightarrow> Inl (UnexpectedResponse r))"

definition replay_run :: "string list \<Rightarrow> incoming \<Rightarrow> ledger \<Rightarrow> run_error + ledger" where
  "replay_run names frames l =
     rbind (rbind (replay_subscribe 0 names (pool_new 1, ledger_replay l)) (replay_loop frames)) (\<lambda>(p, l, rest).
     rbind (replay_cancel [0..<length names] rest p) (\<lambda>(p, rest).
     rbind (heartbeat rest p) (\<lambda>_. Inr l)))"

section \<open>What a load tells the ledger\<close>

definition acks_in :: "load_event list \<Rightarrow> nat \<Rightarrow> (version list \<times> version) list" where
  "acks_in es s = concat (map (\<lambda>e. case e of
     Arrives _ _ (Inr (Ack i vs synced)) _ \<Rightarrow> if i = append_base + s then [(vs, synced)] else [] | _ \<Rightarrow> []) es)"

definition frames_in :: "response list \<Rightarrow> id \<Rightarrow> wire_record list" where
  "frames_in fs i = concat (map (\<lambda>f. case f of RecordsFrame i' rs \<Rightarrow> if i' = i then rs else [] | _ \<Rightarrow> []) fs)"

fun arrivals :: "load_event list \<Rightarrow> response list" where
  "arrivals [] = []"
| "arrivals (Arrives _ _ (Inr r) _ # es) = r # arrivals es"
| "arrivals (_ # es) = arrivals es"

definition lane_log :: "load_config \<Rightarrow> nat \<Rightarrow> nat" where
  "lane_log c s = (s mod (ld_logs c * ld_appenders c)) div ld_appenders c"

lemma trace_append:
  "issued_logs (xs @ ys) = issued_logs xs @ issued_logs ys" "acks_of (xs @ ys) s = acks_of xs s @ acks_of ys s"
  "seen (xs @ ys) i = seen xs i @ seen ys i" "subs_of (xs @ ys) i = subs_of xs i @ subs_of ys i"
  by (simp_all add: issued_logs_def acks_of_def seen_def subs_of_def)

lemma ledger_run_append: "ledger_run (xs @ ys) l = rbind (ledger_run xs l) (ledger_run ys)"
  by (induction xs arbitrary: l) (auto simp: rbind_def split: sum.splits)

lemma frames_in_simps [simp]:
  "frames_in [] i = []" "frames_in (f # fs) i = (case f of RecordsFrame i' rs \<Rightarrow> if i' = i then rs else [] | _ \<Rightarrow> []) @ frames_in fs i"
  by (simp_all add: frames_in_def)

lemma acks_in_simps [simp]:
  "acks_in [] s = []"
  "acks_in (e # es) s = (case e of Arrives _ _ (Inr (Ack i vs synced)) _ \<Rightarrow> if i = append_base + s then [(vs, synced)] else [] | _ \<Rightarrow> []) @ acks_in es s"
  by (simp_all add: acks_in_def)

definition told :: "load_config \<Rightarrow> load_event list \<Rightarrow> load_state \<Rightarrow> load_state \<Rightarrow> ledger_op list \<Rightarrow> bool" where
  "told c es st st' xs \<longleftrightarrow> ledger_run xs (rn_ledger st) = Inr (rn_ledger st') \<and>
     (\<forall>i. seen xs i = frames_in (arrivals es) i \<and> subs_of xs i = []) \<and> (\<forall>s. acks_of xs s = acks_in es s) \<and>
     rn_sent st \<le> rn_sent st' \<and> issued_logs xs = map (lane_log c) [rn_sent st..<rn_sent st']"

lemmas trace_funs = issued_logs_def acks_of_def seen_def subs_of_def

lemma told_frame:
  assumes "on_frame c end_time room peer arrived frame st = Inr st'"
  shows "\<exists>xs. told c [Arrives peer arrived frame room] st st' xs"
proof -
  obtain p r where r: "frame = Inr r" "pool_next peer frame (rn_pool st) = (p, Inr r)"
    using assms by (auto simp: on_frame_def pool_next_def split: sum.splits response.splits option.splits if_splits)
  show ?thesis
  proof (cases r)
    case (Ack i vs synced)
    then have "on_ack c end_time peer arrived i vs synced (st\<lparr>rn_pool := p\<rparr>) = Inr st'"
      using assms r by (simp add: on_frame_def)
    then obtain s l t where "u64_checked_sub i append_base = Some s" "ledger_ack s vs synced (rn_ledger st) = (l, Inr t)"
        "rn_ledger st' = l" "rn_sent st' = rn_sent st"
      by (auto simp: on_ack_def Let_def rbind_def split: option.splits if_splits prod.splits sum.splits)
    then have "told c [Arrives peer arrived frame room] st st' [Acked s vs synced]"
      by (auto simp: told_def trace_funs r(1) Ack u64_checked_sub_def split: if_splits)
    then show ?thesis by blast
  next
    case (RecordsFrame i rs)
    then have "on_records end_time room peer arrived i rs (st\<lparr>rn_pool := p\<rparr>) = Inr st'"
      using assms r by (simp add: on_frame_def)
    then obtain l ts l2 where "ledger_records i rs (rn_ledger st) = (l, Inr ts)" "ledger_grant i (length rs) l = (l2, Inr ())"
        "rn_ledger st' = l2" "rn_sent st' = rn_sent st"
      by (auto simp: on_records_def Let_def rbind_def split: option.splits if_splits prod.splits sum.splits)
    then have "told c [Arrives peer arrived frame room] st st' [Got i rs, Grant i (length rs)]"
      by (auto simp: told_def trace_funs r(1) RecordsFrame)
    then show ?thesis by blast
  qed (use assms r in \<open>auto simp: on_frame_def told_def trace_funs intro!: exI [of _ "[]"]\<close>)
qed

lemma told_step:
  assumes "load_step c names n start e st = Inr st'"
  shows "\<exists>xs. told c [e] st st' xs"
proof (cases e)
  case (Arrives peer arrived frame room)
  then show ?thesis using assms told_frame by simp
next
  case (Due room)
  show ?thesis
  proof (cases "rn_sent st < n")
    case True
    then have "on_due c names start room st = Inr st'" using assms Due by simp
    then have "rn_ledger st' = fst (ledger_issue (lane_log c (rn_sent st)) (start + offset (rn_sent st) (ld_rate c)) (rn_ledger st))"
        "rn_sent st' = rn_sent st + 1"
      by (auto simp: on_due_def lane_log_def Let_def split: if_splits prod.splits option.splits sum.splits)
    then have "told c [e] st st' [Issue (lane_log c (rn_sent st)) (start + offset (rn_sent st) (ld_rate c))]"
      by (simp add: told_def trace_funs Due)
    then show ?thesis by blast
  next
    case False
    then have "told c [e] st st' []" using assms Due by (simp add: told_def trace_funs)
    then show ?thesis by blast
  qed
next
  case Deadline
  then show ?thesis using assms by simp
qed

lemma arrivals_append: "arrivals (xs @ ys) = arrivals xs @ arrivals ys"
  by (induction xs rule: arrivals.induct) auto

lemma told_append:
  assumes "told c es st st1 xs" "told c es' st1 st' ys"
  shows "told c (es @ es') st st' (xs @ ys)"
proof -
  have "[rn_sent st..<rn_sent st'] = [rn_sent st..<rn_sent st1] @ [rn_sent st1..<rn_sent st']"
    using assms unfolding told_def by (metis le_add_diff_inverse upt_add_eq_append)
  then show ?thesis using assms
    by (auto simp: told_def trace_append ledger_run_append arrivals_append frames_in_def acks_in_def)
qed

lemma told_loop: "load_loop c names n start es st = Inr st' \<Longrightarrow> \<exists>xs. told c es st st' xs"
proof (induction es arbitrary: st)
  case Nil
  then show ?case by (auto simp: told_def trace_funs intro!: exI [of _ "[]"])
next
  case (Cons e es)
  then obtain st1 where st1: "load_step c names n start e st = Inr st1" "load_loop c names n start es st1 = Inr st'"
    by (auto simp: rbind_def split: sum.splits)
  obtain xs ys where "told c [e] st st1 xs" "told c es st1 st' ys" using told_step [OF st1(1)] Cons.IH [OF st1(2)] by blast
  then show ?case using told_append by fastforce
qed

text \<open>The setup subscribes each stream once, from the start of its log.\<close>

lemma subscribe_told:
  "subscribe_all c names kss st = Inr st' \<Longrightarrow>
    ledger_run (map (\<lambda>(k, s). Sub (k * ld_subscribers c + s + 1) k 0 load_credit) kss) (rn_ledger st) = Inr (rn_ledger st') \<and>
    rn_sent st' = rn_sent st"
proof (induction kss arbitrary: st)
  case (Cons ks kss)
  obtain k s where ks: "ks = (k, s)" by (cases ks)
  obtain st1 where st1: "subscribe_one c names ks st = Inr st1" "subscribe_all c names kss st1 = Inr st'"
    using Cons.prems by (auto simp: rbind_def split: sum.splits)
  have "ledger_subscribe (k * ld_subscribers c + s + 1) k 0 load_credit (rn_ledger st) = (rn_ledger st1, Inr ())" "rn_sent st1 = rn_sent st"
    using st1(1) by (auto simp: subscribe_one_def ks Let_def split: prod.splits sum.splits)
  then show ?case using Cons.IH [OF st1(2)] by (simp add: ks)
qed simp

lemma subscribe_subs:
  "(k, 0) \<in> set (subs_of (map (\<lambda>(k, s). Sub (k * m + s + 1) k 0 load_credit) kss) (k * m + s + 1))"
  if "(k, s) \<in> set kss"
  using that by (force simp: subs_of_def)

lemma load_run_told:
  assumes "load_run c names opened n start now greeting events = Inr st"
  obtains xs where "ledger_inv (length names) xs (rn_ledger st)" "ledger_finish (rn_ledger st) = Inr ()"
    "lg_patch_size (rn_ledger st) = ld_patch_size c" "lg_durability (rn_ledger st) = ld_durability c"
    "\<And>i. seen xs i = frames_in (arrivals events) i" "\<And>s. acks_of xs s = acks_in events s"
    "issued_logs xs = map (lane_log c) [0..<n]"
    "\<And>k s. k < length names \<Longrightarrow> s < ld_subscribers c \<Longrightarrow> (k, 0) \<in> set (subs_of xs (k * ld_subscribers c + s + 1))"
proof -
  obtain st1 p g where st1: "subscribe_all c names (subscriptions c (length names)) (load_new c (length names) opened) = Inr st1"
      "load_loop c names n start events (st1\<lparr>rn_pool := p\<rparr>) = Inr st" "load_end c n start now st = Inr st" "heartbeat greeting (rn_pool st1) = Inr (p, g)"
    using assms by (auto simp: load_run_def load_end_def rbind_def split: sum.splits if_splits)
  let ?subs = "map (\<lambda>(k, s). Sub (k * ld_subscribers c + s + 1) k 0 load_credit) (subscriptions c (length names))"
  have subs: "ledger_run ?subs (ledger_new (length names) (ld_patch_size c) (ld_durability c)) = Inr (rn_ledger st1)" "rn_sent st1 = 0"
    using subscribe_told [OF st1(1)] by (simp_all add: load_new_def)
  obtain ys where ys: "told c events (st1\<lparr>rn_pool := p\<rparr>) st ys" using told_loop [OF st1(2)] by blast
  let ?xs = "?subs @ ys"
  have run: "ledger_run ?xs (ledger_new (length names) (ld_patch_size c) (ld_durability c)) = Inr (rn_ledger st)"
    using subs(1) ys by (simp add: ledger_run_append told_def)
  have "seen ?subs i = []" "acks_of ?subs s = []" "issued_logs ?subs = []" for i s
    by (simp_all add: seen_def acks_of_def issued_logs_def case_prod_beta comp_def)
  moreover have "rn_sent st = n" "ledger_finish (rn_ledger st) = Inr ()"
    using st1(3) by (auto simp: load_end_def rbind_def split: if_splits sum.splits)
  moreover have "(k, 0) \<in> set (subs_of ?xs (k * ld_subscribers c + s + 1))" if "k < length names" "s < ld_subscribers c" for k s
  proof -
    have "(k, s) \<in> set (subscriptions c (length names))" using that unfolding subscriptions_def by (force intro!: bexI [of _ k])
    from subscribe_subs [OF this, of "ld_subscribers c"] show ?thesis unfolding trace_append by simp
  qed
  ultimately show thesis
    using that [of ?xs] inv_run [OF run inv_new] run_params [OF run] ys subs(2)
    by (auto simp: trace_append told_def ledger_new_def)
qed

lemma load_exact:
  assumes "load_run c names opened n start now greeting events = Inr st"
  shows "\<exists>h. (\<forall>k < length names. distinct (h k) \<and> set (h k) = {s. s < n \<and> lane_log c s = k}) \<and>
    (\<forall>s < n. \<exists>v synced. acks_in events s = [([v], synced)] \<and> 0 < v \<and> v \<le> length (h (lane_log c s)) \<and>
       h (lane_log c s) ! (v - 1) = s \<and> (ld_durability c = Durable \<longrightarrow> v \<le> synced)) \<and>
    (\<forall>k < length names. \<forall>s < ld_subscribers c. let pushed = frames_in (arrivals events) (k * ld_subscribers c + s + 1) in
       map wr_version pushed = [1..<length (h k) + 1] \<and> map (read_payload k (ld_patch_size c)) pushed = map Inr (h k))"
proof -
  obtain xs where xs: "ledger_inv (length names) xs (rn_ledger st)" "ledger_finish (rn_ledger st) = Inr ()"
    and params: "lg_patch_size (rn_ledger st) = ld_patch_size c" "lg_durability (rn_ledger st) = ld_durability c"
    and trace: "\<And>i. seen xs i = frames_in (arrivals events) i" "\<And>s. acks_of xs s = acks_in events s" "issued_logs xs = map (lane_log c) [0..<n]"
      "\<And>k s. k < length names \<Longrightarrow> s < ld_subscribers c \<Longrightarrow> (k, 0) \<in> set (subs_of xs (k * ld_subscribers c + s + 1))"
    using load_run_told [OF assms] by blast
  let ?h = "history_of (rn_ledger st)"
  have "distinct (?h k) \<and> set (?h k) = {s. s < n \<and> lane_log c s = k}" if "k < length names" for k
  proof -
    have "{s. s < length (issued_logs xs) \<and> issued_logs xs ! s = k} = {s. s < n \<and> lane_log c s = k}"
      unfolding trace(3) by auto
    then show ?thesis using passed_history(2) [OF xs that] by simp
  qed
  moreover have "\<exists>v synced. acks_in events s = [([v], synced)] \<and> 0 < v \<and> v \<le> length (?h (lane_log c s)) \<and>
      ?h (lane_log c s) ! (v - 1) = s \<and> (ld_durability c = Durable \<longrightarrow> v \<le> synced)" if "s < n" for s
  proof -
    have s: "s < length (issued_logs xs)" "issued_logs xs ! s = lane_log c s" using that by (simp_all add: trace(3))
    then obtain v synced where v: "lane_log c s < length names" "canon (rn_ledger st) (lane_log c s) v = Some s"
        "acks_in events s = [([v], synced)]" "ld_durability c = Durable \<longrightarrow> v \<le> synced"
      using passed_ack [OF xs s(1)] unfolding s(2) params(2) trace(2) by blast
    then show ?thesis using passed_history(1) [OF xs v(1)] by blast
  qed
  moreover have "let pushed = frames_in (arrivals events) (k * ld_subscribers c + s + 1) in
       map wr_version pushed = [1..<length (?h k) + 1] \<and> map (read_payload k (ld_patch_size c)) pushed = map Inr (?h k)"
    if "k < length names" "s < ld_subscribers c" for k s
    using passed_subscriber [OF xs trace(4) [OF that]] params trace(1) by (simp add: Let_def del: upt_Suc)
  ultimately show ?thesis by (intro exI [of _ ?h]) blast
qed

text \<open>
  C14: A load that passes shows the server exact. When \<open>load\<close> comes to its end without an error,
  whatever order frames arrived in, then every log has a history that holds each append issued on
  its lanes once and nothing else; every append was acknowledged once, with its place in that
  history, synced where the run asked for durability; and each of the subscribers was pushed the
  whole history, payload by payload, from version 1 to the end.
\<close>

theorem passing_load_is_exact:
  assumes "load_run c names opened n start now greeting events = Inr st"
  shows "\<exists>h. (\<forall>k < length names. distinct (h k) \<and> set (h k) = {s. s < n \<and> lane_log c s = k}) \<and>
    (\<forall>s < n. \<exists>v synced. acks_in events s = [([v], synced)] \<and> 0 < v \<and> v \<le> length (h (lane_log c s)) \<and>
       h (lane_log c s) ! (v - 1) = s \<and> (ld_durability c = Durable \<longrightarrow> v \<le> synced)) \<and>
    (\<forall>k < length names. \<forall>s < ld_subscribers c. let pushed = frames_in (arrivals events) (k * ld_subscribers c + s + 1) in
       map wr_version pushed = [1..<length (h k) + 1] \<and> map (read_payload k (ld_patch_size c)) pushed = map Inr (h k))"
  using assms by (rule load_exact)

definition small_load :: load_config where
  "small_load = (load_default ''lug-server'')\<lparr>ld_patch_size := 17, ld_rate := 1, ld_duration := 1000000000\<rparr>"

definition small_record :: wire_record where
  "small_record = \<lparr>wr_version = 1, wr_patch = JString ''0000000000000000x''\<rparr>"

definition small_greeting :: "(nat \<times> (string + response)) list" where
  "small_greeting = [(0, Inr (OkFrame 1)), (0, Inr (Pong control_id))]"

text \<open>The record may overtake the acknowledgement.\<close>

definition small_events :: "load_event list" where
  "small_events = [Due True, Arrives 0 2000 (Inr (RecordsFrame 1 [small_record])) True, Arrives 0 2001 (Inr (Ack append_base [1] 1)) True]"

lemma small_read: "read_payload k 17 small_record = Inr 0"
  using zero_payloads(2) by (simp add: small_record_def)

lemma small_load_passes:
  "\<exists>st. load_run small_load [''a''] (pool_new 1) 1 0 1000000000 small_greeting small_events = Inr st \<and>
    rn_streams st = [(1, 0)] \<and> lg_canonical (rn_ledger st) = [[(1, 0)]] \<and>
    lg_issued (rn_ledger st) = [\<lparr>is_log = 0, is_intended = 0, is_ack = Some 1, is_observed = Some 1\<rparr>] \<and>
    lg_acks (rn_ledger st) = 1 \<and> lg_patch_size (rn_ledger st) = 17 \<and> lg_durability (rn_ledger st) = Durable"
  by (simp add: load_run_def small_load_def small_greeting_def small_events_def load_default_def load_new_def subscriptions_def
      subscribe_one_def ledger_subscribe_def ledger_new_def pool_new_def pool_send_def pool_expect_def expects_ok_def is_subscribe_def
      heartbeat_def pool_next_def settled_def on_frame_def on_ack_def on_records_def on_due_def ledger_issue_def ledger_ack_def
      ledger_grant_def take_record_def small_read ledger_bind_def load_end_def ledger_complete_def ledger_finish_def log_end_def
      last_version_def latency_micros_def offset_def payload_01 u64_checked_sub_def bt_get_def Let_def small_record_def
      zero_payloads stalled_id_def control_id_def u64_max_def append_base_def load_credit_def)

theorem passing_load_is_exact_witness:
  "\<exists>h. set (h (0 :: nat)) = {0 :: nat} \<and> map (read_payload 0 17) (frames_in (arrivals small_events) 1) = map Inr (h 0)"
proof -
  obtain st where "load_run small_load [''a''] (pool_new 1) 1 0 1000000000 small_greeting small_events = Inr st" using small_load_passes by blast
  from passing_load_is_exact [OF this] obtain h where h: "set (h (0 :: nat)) = {s. s < 1 \<and> lane_log small_load s = 0}"
      "let pushed = frames_in (arrivals small_events) (0 * ld_subscribers small_load + 0 + 1) in
       map wr_version pushed = [1..<length (h 0) + 1] \<and> map (read_payload 0 (ld_patch_size small_load)) pushed = map Inr (h 0)"
    by (force simp: small_load_def load_default_def)
  have "set (h 0) = {0}" unfolding h(1) by (auto simp: lane_log_def small_load_def load_default_def)
  moreover have "ld_patch_size small_load = 17" by (simp add: small_load_def)
  ultimately show ?thesis using h(2) by (intro exI [of _ h]) (simp add: Let_def)
qed

text \<open>A replay forgets the streams of the load, and nothing else.\<close>

definition forget_streams :: "ledger_op list \<Rightarrow> ledger_op list" where
  "forget_streams xs = filter (\<lambda>x. case x of Issue _ _ \<Rightarrow> True | Acked _ _ _ \<Rightarrow> True | _ \<Rightarrow> False) xs"

lemma forget_traces:
  "issued_logs (forget_streams xs) = issued_logs xs" "acks_of (forget_streams xs) s = acks_of xs s"
  "seen (forget_streams xs) i = []" "subs_of (forget_streams xs) i = []" "credit_of (forget_streams xs) i = 0"
  by (induction xs) (auto simp: forget_streams_def trace_funs credit_of_def split: ledger_op.splits)

lemma inv_replay: "ledger_inv n xs l \<Longrightarrow> ledger_inv n (forget_streams xs) (ledger_replay l)"
proof -
  assume inv: "ledger_inv n xs l"
  have same: "canon (ledger_replay l) = canon l" by (simp add: canon_def ledger_replay_def fun_eq_iff)
  have "ack_ok (forget_streams xs) (ledger_replay l) s" for s
  proof -
    have "ack_ok xs l s" using inv by (simp add: ledger_inv_def)
    then show ?thesis unfolding ack_ok_def same
      by (cases "s < length (lg_issued l)") (simp_all add: forget_traces ledger_replay_def cong: option.case_cong)
  qed
  moreover have "canon_ok n (ledger_replay l)" using inv unfolding ledger_inv_def canon_ok_def same by (simp add: ledger_replay_def)
  ultimately show ?thesis using inv
    by (simp add: ledger_inv_def ledger_replay_def stream_ok_def forget_traces bt_get_def)
qed

definition replayed :: "incoming \<Rightarrow> response list" where
  "replayed frames = concat (map (\<lambda>f. case snd f of Inl _ \<Rightarrow> [] | Inr r \<Rightarrow> [r]) frames)"

lemma replay_subscribe_told:
  "replay_subscribe k names (p, l) = Inr (p', l') \<Longrightarrow>
    ledger_run (map (\<lambda>j. Sub (j + 1) j 0 load_credit) [k..<k + length names]) l = Inr l'"
proof (induction k names "(p, l)" arbitrary: p l rule: replay_subscribe.induct)
  case (2 k name names p l)
  obtain l1 where l1: "ledger_subscribe (k + 1) k 0 load_credit l = (l1, Inr ())"
      "replay_subscribe (k + 1) names (fst (pool_send True 0 (Subscribe (k + 1) name 0 Records load_credit) p), l1) = Inr (p', l')"
    using 2(2) by (auto split: prod.splits sum.splits)
  have "ledger_run (map (\<lambda>j. Sub (j + 1) j 0 load_credit) [k + 1..<k + 1 + length names]) l1 = Inr l'"
    using 2(1) [OF l1(1) [symmetric] refl] l1(2) by blast
  moreover have "[k..<k + length (name # names)] = k # [k + 1..<k + 1 + length names]" by (simp add: upt_conv_Cons del: upt_Suc)
  ultimately show ?case using l1(1) by (simp del: upt_Suc)
qed simp

text \<open>Frames that only feed records to the ledger.\<close>

definition fed :: "incoming \<Rightarrow> ledger \<Rightarrow> ledger \<Rightarrow> bool" where
  "fed read l l' \<longleftrightarrow> (\<exists>xs. ledger_run xs l = Inr l' \<and> (\<forall>i. seen xs i = frames_in (replayed read) i \<and> subs_of xs i = []) \<and>
     (\<forall>s. acks_of xs s = []) \<and> issued_logs xs = [])"

lemma fed_Nil [simp]: "fed [] l l"
  by (auto simp: fed_def trace_funs replayed_def frames_in_def intro!: exI [of _ "[]"])

lemma fed_Cons: "fed [frame] l l1 \<Longrightarrow> fed read l1 l' \<Longrightarrow> fed (frame # read) l l'"
proof -
  assume "fed [frame] l l1" "fed read l1 l'"
  then obtain xs ys where xs: "ledger_run xs l = Inr l1" "\<forall>i. seen xs i = frames_in (replayed [frame]) i \<and> subs_of xs i = []"
      "\<forall>s. acks_of xs s = []" "issued_logs xs = []" and ys: "ledger_run ys l1 = Inr l'"
      "\<forall>i. seen ys i = frames_in (replayed read) i \<and> subs_of ys i = []" "\<forall>s. acks_of ys s = []" "issued_logs ys = []"
    unfolding fed_def by blast
  have "seen (xs @ ys) i = frames_in (replayed (frame # read)) i \<and> subs_of (xs @ ys) i = []" for i
    using xs(2) ys(2) by (simp add: trace_append frames_in_def replayed_def)
  then show ?thesis unfolding fed_def using xs ys
    by (intro exI [of _ "xs @ ys"]) (simp add: trace_append ledger_run_append)
qed

lemma fed_other: "snd frame = Inr r \<Longrightarrow> (\<And>i rs. r \<noteq> RecordsFrame i rs) \<Longrightarrow> fed [frame] l l"
  by (cases r) (auto simp: fed_def trace_funs replayed_def frames_in_def intro!: exI [of _ "[]"])

lemma pool_next_frame: "pool_next peer frame p = (q, Inr r) \<Longrightarrow> frame = Inr r"
  by (auto simp: pool_next_def split: sum.splits response.splits option.splits if_splits)

lemma replay_frame_fed: "replay_frame frame (p, l) = Inr (p', l') \<Longrightarrow> fed [frame] l l'"
proof -
  assume run: "replay_frame frame (p, l) = Inr (p', l')"
  then obtain q r where r: "pool_next (fst frame) (snd frame) p = (q, Inr r)"
    by (auto simp: replay_frame_def split: prod.splits sum.splits)
  note frame = pool_next_frame [OF r]
  show ?thesis
  proof (cases r)
    case (RecordsFrame i rs)
    then obtain l1 ts where "ledger_records i rs l = (l1, Inr ts)" "ledger_grant i (length rs) l1 = (l', Inr ())"
      using run r by (auto simp: replay_frame_def split: prod.splits sum.splits)
    then show ?thesis unfolding fed_def
      by (intro exI [of _ "[Got i rs, Grant i (length rs)]"]) (auto simp: trace_funs replayed_def frame RecordsFrame)
  qed (use run r fed_other [OF frame] in \<open>auto simp: replay_frame_def\<close>)
qed

lemma cancel_frame_fed: "cancel_frame frame (w, p, l) = Inr (w', p', l') \<Longrightarrow> fed [frame] l l'"
proof -
  assume run: "cancel_frame frame (w, p, l) = Inr (w', p', l')"
  then obtain q r where r: "pool_next (fst frame) (snd frame) p = (q, Inr r)"
    by (auto simp: cancel_frame_def split: prod.splits sum.splits)
  note frame = pool_next_frame [OF r]
  show ?thesis
  proof (cases r)
    case (RecordsFrame i rs)
    then obtain ts where "ledger_records i rs l = (l', Inr ts)"
      using run r by (auto simp: cancel_frame_def split: prod.splits sum.splits)
    then show ?thesis unfolding fed_def
      by (intro exI [of _ "[Got i rs]"]) (auto simp: trace_funs replayed_def frame RecordsFrame)
  qed (use run r fed_other [OF frame] in \<open>auto simp: cancel_frame_def split: if_splits\<close>)
qed

lemma replay_loop_fed:
  "replay_loop frames (p, l) = Inr (p', l', rest) \<Longrightarrow> ledger_finish l' = Inr () \<and> (\<exists>read. frames = read @ rest \<and> fed read l l')"
proof (induction frames arbitrary: p l)
  case Nil
  then have "ledger_finish l = Inr ()" "l' = l" "rest = []"
    by (auto simp: replay_loop.simps [of "[]"] replay_done_def rbind_def split: option.splits sum.splits if_splits)
  then show ?case by simp
next
  case (Cons frame frames)
  show ?case
  proof (cases "ledger_complete l = Some True")
    case True
    then have "ledger_finish l = Inr ()" "l' = l" "rest = frame # frames"
      using Cons.prems by (auto simp: replay_loop.simps [of "frame # frames"] replay_done_def rbind_def split: sum.splits)
    then show ?thesis by simp
  next
    case False
    obtain p1 l1 where l1: "replay_frame frame (p, l) = Inr (p1, l1)" "replay_loop frames (p1, l1) = Inr (p', l', rest)"
      using Cons.prems False by (auto simp: replay_loop.simps [of "frame # frames"] rbind_def split: option.splits sum.splits if_splits)
    from Cons.IH [OF l1(2)] obtain read where "ledger_finish l' = Inr ()" "frames = read @ rest" "fed read l1 l'" by blast
    then show ?thesis using fed_Cons [OF replay_frame_fed [OF l1(1)]] by (metis append_Cons)
  qed
qed

lemma cancel_loop_fed: "cancel_loop es (w, p, l) = Inr (p', l', rest) \<Longrightarrow> \<exists>read. es = read @ rest \<and> fed read l l'"
proof (induction es arbitrary: w p l)
  case Nil
  then show ?case by (simp add: cancel_loop.simps [of "[]"] split: if_splits)
next
  case (Cons frame es)
  show ?case
  proof (cases "w = []")
    case True
    then show ?thesis using Cons.prems by (simp add: cancel_loop.simps [of "frame # es"])
  next
    case False
    obtain w1 p1 l1 where l1: "cancel_frame frame (w, p, l) = Inr (w1, p1, l1)" "cancel_loop es (w1, p1, l1) = Inr (p', l', rest)"
      using Cons.prems False by (auto simp: cancel_loop.simps [of "frame # es"] rbind_def split: sum.splits)
    from Cons.IH [OF l1(2)] fed_Cons [OF cancel_frame_fed [OF l1(1)]] show ?thesis by (metis append_Cons)
  qed
qed

text \<open>What was acknowledged fixes the history.\<close>

lemma history_unique:
  assumes l: "ledger_inv n xs l" "ledger_finish l = Inr ()" and l': "ledger_inv n ys l'" "ledger_finish l' = Inr ()"
    and same: "issued_logs ys = issued_logs xs" "\<And>s. acks_of ys s = acks_of xs s" and k: "k < n"
  shows "history_of l' k = history_of l k"
proof -
  let ?h = "history_of l k" and ?h' = "history_of l' k"
  note hist = passed_history [OF l k] and hist' = passed_history [OF l' k]
  have "card (set ?h') = card (set ?h)" using hist(2) hist'(2) same(1) by simp
  then have len: "length ?h' = length ?h" using hist(2) hist'(2) distinct_card [of ?h] distinct_card [of ?h'] by simp
  have "?h' ! j = ?h ! j" if j: "j < length ?h" for j
  proof -
    let ?s = "?h ! j"
    have "?s \<in> set ?h" using j by simp
    then have s: "?s < length (issued_logs xs)" "issued_logs xs ! ?s = k" using hist(2) by auto
    obtain v where v: "canon l k v = Some ?s" "\<exists>synced. acks_of xs ?s = [([v], synced)]"
      using passed_ack [OF l s(1)] unfolding s(2) by blast
    obtain v' where v': "canon l' k v' = Some ?s" "\<exists>synced. acks_of ys ?s = [([v'], synced)]"
      using passed_ack [OF l', of ?s] s(1) unfolding same s(2) by blast
    have "v' = v" using v(2) v'(2) same(2) by auto
    have at_v: "0 < v" "v \<le> length ?h" "?h ! (v - 1) = ?s" "?h' ! (v - 1) = ?s"
      using v(1) v'(1) hist(1) hist'(1) \<open>v' = v\<close> by blast+
    then have "v - 1 = j" using hist(2) j nth_eq_iff_index_eq [of ?h "v - 1" j] by simp
    then show ?thesis using at_v(4) by simp
  qed
  then show ?thesis using len by (intro nth_equalityI) auto
qed

lemma cancel_told:
  assumes "load_cancel frames st = Inr (st', rest)" "ledger_inv n xs (rn_ledger st)"
  obtains read ys where "frames = read @ rest" "ledger_inv n ys (rn_ledger st')" "ledger_finish (rn_ledger st') = Inr ()"
    "issued_logs ys = issued_logs xs" "\<And>s. acks_of ys s = acks_of xs s" "\<And>i. seen ys i = seen xs i @ frames_in (replayed read) i"
    "\<And>i. subs_of ys i = subs_of xs i" "lg_patch_size (rn_ledger st') = lg_patch_size (rn_ledger st)"
proof -
  let ?start = "(map fst (rn_streams st), fold (\<lambda>(i, peer) p. fst (pool_send True peer (Cancel i) p)) (rn_streams st) (rn_pool st), rn_ledger st)"
  obtain p' where loop: "cancel_loop frames ?start = Inr (p', rn_ledger st', rest)" and fin: "ledger_finish (rn_ledger st') = Inr ()"
    using assms(1) by (auto simp: load_cancel_def rbind_def split: sum.splits prod.splits)
  obtain read where read: "frames = read @ rest" "fed read (rn_ledger st) (rn_ledger st')" using cancel_loop_fed [OF loop] by blast
  then obtain zs where zs: "ledger_run zs (rn_ledger st) = Inr (rn_ledger st')"
      "\<forall>i. seen zs i = frames_in (replayed read) i \<and> subs_of zs i = []" "\<forall>s. acks_of zs s = []" "issued_logs zs = []"
    unfolding fed_def by blast
  show thesis
    using that [of read "xs @ zs"] read(1) inv_run [OF zs(1) assms(2)] fin zs run_params [OF zs(1)] by (simp add: trace_append)
qed

lemma replay_told:
  assumes "replay_run names frames l = Inr l'" "ledger_inv n xs l"
  obtains read rest ys where "frames = read @ rest" "ledger_inv n ys l'" "ledger_finish l' = Inr ()" "issued_logs ys = issued_logs xs"
    "\<And>s. acks_of ys s = acks_of xs s" "\<And>i. seen ys i = frames_in (replayed read) i"
    "\<And>k. k < length names \<Longrightarrow> (k, 0) \<in> set (subs_of ys (k + 1))" "lg_patch_size l' = lg_patch_size l"
    "lg_durability l' = lg_durability l"
proof -
  obtain p1 l1 p' rest where steps: "replay_subscribe 0 names (pool_new 1, ledger_replay l) = Inr (p1, l1)"
      "replay_loop frames (p1, l1) = Inr (p', l', rest)"
    using assms(1) by (auto simp: replay_run_def rbind_def split: sum.splits prod.splits)
  let ?subs = "map (\<lambda>j. Sub (j + 1) j 0 load_credit) [0..<length names]"
  have subs: "ledger_run ?subs (ledger_replay l) = Inr l1" using replay_subscribe_told [OF steps(1)] by simp
  from replay_loop_fed [OF steps(2)] obtain read where read: "ledger_finish l' = Inr ()" "frames = read @ rest" "fed read l1 l'" by blast
  then obtain zs where zs: "ledger_run zs l1 = Inr l'"
      "\<forall>i. seen zs i = frames_in (replayed read) i \<and> subs_of zs i = []" "\<forall>s. acks_of zs s = []" "issued_logs zs = []"
    unfolding fed_def by blast
  have run: "ledger_run (?subs @ zs) (ledger_replay l) = Inr l'" using subs zs(1) by (simp add: ledger_run_append)
  let ?ys = "forget_streams xs @ ?subs @ zs"
  have "seen ?subs i = []" "acks_of ?subs s = []" "issued_logs ?subs = []" for i s
    by (simp_all add: seen_def acks_of_def issued_logs_def comp_def)
  moreover have "(k, 0) \<in> set (subs_of ?ys (k + 1))" if "k < length names" for k
    using that by (auto simp: trace_append subs_of_def)
  ultimately show thesis
    using that [of read rest ?ys] read inv_run [OF run inv_replay [OF assms(2)]] zs run_params [OF run]
    by (auto simp: trace_append forget_traces ledger_replay_def)
qed

lemma replay_exact:
  assumes "load_run c names opened n start now greeting events = Inr st" "load_cancel late st = Inr (st', unread)"
    and "replay_run names frames (rn_ledger st') = Inr l"
  shows "\<exists>cancelled read rest. late = cancelled @ unread \<and> frames = read @ rest \<and>
    (\<forall>k < length names. \<forall>s < ld_subscribers c.
      let pushed = frames_in (arrivals events @ replayed cancelled) (k * ld_subscribers c + s + 1); again = frames_in (replayed read) (k + 1) in
      map wr_version again = map wr_version pushed \<and>
      map (read_payload k (ld_patch_size c)) again = map (read_payload k (ld_patch_size c)) pushed)"
proof -
  obtain xs where xs: "ledger_inv (length names) xs (rn_ledger st)" "lg_patch_size (rn_ledger st) = ld_patch_size c"
      and seen_xs: "\<And>i. seen xs i = frames_in (arrivals events) i"
      and subs: "\<And>k s. k < length names \<Longrightarrow> s < ld_subscribers c \<Longrightarrow> (k, 0) \<in> set (subs_of xs (k * ld_subscribers c + s + 1))"
    using load_run_told [OF assms(1)] by metis
  obtain cancelled zs where late: "late = cancelled @ unread" and zs: "ledger_inv (length names) zs (rn_ledger st')" "ledger_finish (rn_ledger st') = Inr ()"
      and seen_zs: "\<And>i. seen zs i = seen xs i @ frames_in (replayed cancelled) i" and subs_zs: "\<And>i. subs_of zs i = subs_of xs i"
      and size_zs: "lg_patch_size (rn_ledger st') = lg_patch_size (rn_ledger st)"
    using cancel_told [OF assms(2) xs(1)] by metis
  obtain read rest ys where frames: "frames = read @ rest" and ys: "ledger_inv (length names) ys l" "ledger_finish l = Inr ()"
      and same: "issued_logs ys = issued_logs zs" "\<And>s. acks_of ys s = acks_of zs s" and seen_ys: "\<And>i. seen ys i = frames_in (replayed read) i"
      and subs': "\<And>k. k < length names \<Longrightarrow> (k, 0) \<in> set (subs_of ys (k + 1))" and size_ys: "lg_patch_size l = lg_patch_size (rn_ledger st')"
    using replay_told [OF assms(3) zs(1)] by metis
  have pushed: "seen zs i = frames_in (arrivals events @ replayed cancelled) i" for i by (simp add: seen_zs seen_xs frames_in_def)
  have "map wr_version (frames_in (replayed read) (k + 1)) = map wr_version (seen zs (k * ld_subscribers c + s + 1)) \<and>
      map (read_payload k (ld_patch_size c)) (frames_in (replayed read) (k + 1)) =
        map (read_payload k (ld_patch_size c)) (seen zs (k * ld_subscribers c + s + 1))"
    if k: "k < length names" "s < ld_subscribers c" for k s
  proof -
    have "history_of l k = history_of (rn_ledger st') k" using history_unique [OF zs ys same k(1)] .
    moreover note passed_subscriber [OF zs subs [OF k, folded subs_zs]] passed_subscriber [OF ys subs' [OF k(1)]]
    ultimately show ?thesis by (simp only: seen_ys size_ys size_zs xs(2))
  qed
  then show ?thesis using late frames unfolding pushed Let_def by blast
qed

text \<open>
  C15: A replay that passes read back what was pushed, as far as the check reads it. When a load
  passed, its streams were cancelled, and the replay after a crash passes against the same ledger,
  then reading a log again from its start gave the versions each subscriber had been pushed in the
  frames the load took until its cancels were answered, all of them and in order, and at each the same answer of \<open>read_payload\<close>: a payload of the right
  length and filling, with the number of the same append at its front. That is not byte for byte:
  the digits of the number may be written differently (\<open>changed_digits_pass\<close>).
\<close>

theorem replay_is_exact:
  assumes "load_run c names opened n start now greeting events = Inr st" "load_cancel late st = Inr (st', unread)"
    and "replay_run names frames (rn_ledger st') = Inr l"
  shows "\<exists>cancelled read rest. late = cancelled @ unread \<and> frames = read @ rest \<and>
    (\<forall>k < length names. \<forall>s < ld_subscribers c.
      let pushed = frames_in (arrivals events @ replayed cancelled) (k * ld_subscribers c + s + 1); again = frames_in (replayed read) (k + 1) in
      map wr_version again = map wr_version pushed \<and>
      map (read_payload k (ld_patch_size c)) again = map (read_payload k (ld_patch_size c)) pushed)"
  using assms by (rule replay_exact)

lemma small_load_cancels:
  assumes "rn_streams st = [(1, 0)]" "ledger_finish (rn_ledger st) = Inr ()"
  shows "\<exists>st'. load_cancel [(0, Inr (End 1))] st = Inr (st', []) \<and> rn_ledger st' = rn_ledger st"
  using assms by (simp add: load_cancel_def cancel_loop.simps cancel_frame_def pool_next_def)

definition small_replay :: incoming where
  "small_replay = [(0, Inr (OkFrame 1)), (0, Inr (RecordsFrame 1 [small_record])), (0, Inr (OkFrame 1)), (0, Inr (End 1)),
     (0, Inr (Pong control_id))]"

lemma small_load_replays:
  assumes "lg_canonical l = [[(1, 0)]]" "lg_issued l = [\<lparr>is_log = 0, is_intended = 0, is_ack = Some 1, is_observed = Some 1\<rparr>]"
    and "lg_acks l = 1" "lg_patch_size l = 17" "lg_durability l = Durable"
  shows "\<exists>l'. replay_run [''a''] small_replay l = Inr l'"
proof -
  note sizes = assms small_replay_def load_credit_def small_record_def zero_payloads
  note ops = ledger_replay_def pool_new_def ledger_subscribe_def pool_send_def pool_expect_def expects_ok_def is_subscribe_def
    replay_frame_def pool_next_def ledger_grant_def take_record_def ledger_bind_def ledger_complete_def ledger_finish_def
    log_end_def last_version_def bt_get_def Let_def
  show ?thesis
    by (simp add: replay_run_def replay_loop.simps replay_done_def pool_control_def heartbeat_def settled_def is_ok_def is_pong_def sizes ops)
qed

theorem replay_is_exact_witness:
  "\<exists>cancelled read rest. [(0, Inr (End 1))] = cancelled @ [] \<and> small_replay = read @ rest \<and>
    map (read_payload 0 17) (frames_in (replayed read) 1) =
      map (read_payload 0 17) (frames_in (arrivals small_events @ replayed cancelled) 1)"
proof -
  obtain st where st: "load_run small_load [''a''] (pool_new 1) 1 0 1000000000 small_greeting small_events = Inr st" "rn_streams st = [(1, 0)]"
      "lg_canonical (rn_ledger st) = [[(1, 0)]]"
      "lg_issued (rn_ledger st) = [\<lparr>is_log = 0, is_intended = 0, is_ack = Some 1, is_observed = Some 1\<rparr>]"
      "lg_acks (rn_ledger st) = 1" "lg_patch_size (rn_ledger st) = 17" "lg_durability (rn_ledger st) = Durable"
    using small_load_passes by blast
  have "ledger_finish (rn_ledger st) = Inr ()" using load_run_told [OF st(1)] by metis
  from small_load_cancels [OF st(2) this] obtain st' where st': "load_cancel [(0, Inr (End 1))] st = Inr (st', [])" "rn_ledger st' = rn_ledger st" by blast
  obtain l where l: "replay_run [''a''] small_replay (rn_ledger st') = Inr l" using small_load_replays [of "rn_ledger st'"] st(3-7) st'(2) by auto
  have "ld_subscribers small_load = 1" "ld_patch_size small_load = 17" by (simp_all add: small_load_def load_default_def)
  with replay_is_exact [OF st(1) st'(1) l] show ?thesis by (simp add: Let_def) blast
qed

end
