(* ===== verification/LoadProbe.thy ===== *)
theory LoadProbe
  imports LoadRun
begin

text \<open>
  The probes of \<open>crates/lug-load/src/run.rs\<close>: appends that are acknowledged as durable and read back
  after the server was killed, a stream that is given no credit beside a load, and subscriptions
  that come and go. Names and clocks are arguments; the frames are those the pool receives.
\<close>

section \<open>The crash probe\<close>

fun crash_appends ::
    "string \<Rightarrow> nat \<Rightarrow> (nat \<Rightarrow> nat) \<Rightarrow> nat list \<Rightarrow> incoming \<Rightarrow> pool \<Rightarrow> ledger \<Rightarrow> run_error + pool \<times> ledger \<times> incoming" where
  "crash_appends name size_bytes clock [] es p l = Inr (p, l, es)"
| "crash_appends name size_bytes clock (s # ss) es p l =
     (case payload s size_bytes of
        None \<Rightarrow> Inl PayloadPanic
      | Some patch \<Rightarrow>
          rbind (pool_control (Append (append_base + s) name [patch] Durable) es p) (\<lambda>(r, p, es).
            case r of
              Ack _ versions synced \<Rightarrow>
                (case ledger_ack s versions synced (fst (ledger_issue 0 (clock s) l)) of
                   (l, Inl e) \<Rightarrow> Inl (InLedger e)
                 | (l, Inr _) \<Rightarrow> crash_appends name size_bytes clock ss es p l)
            | _ \<Rightarrow> Inl (UnexpectedResponse r)))"

text \<open>\<open>restarted\<close> is how \<open>crash_restart\<close> of the server ended.\<close>

definition crash_probe ::
    "load_config \<Rightarrow> nat \<Rightarrow> (nat \<Rightarrow> nat) \<Rightarrow> incoming \<Rightarrow> server_error + unit \<Rightarrow> incoming \<Rightarrow> run_error + ledger" where
  "crash_probe c epoch clock frames restarted again =
     (let name = ''crash-'' @ dec_digits epoch in
      rbind (pool_create [name] frames (pool_new 1)) (\<lambda>(p, es).
      rbind (crash_appends name (ld_patch_size c) clock [0..<32] es p (ledger_new 1 (ld_patch_size c) Durable)) (\<lambda>(p, l, es).
      rbind (map_err InServer restarted) (\<lambda>_.
      replay_run [name] again l))))"

section \<open>The probe of credit\<close>

definition probe_config :: "load_config \<Rightarrow> load_config" where
  "probe_config c = c\<lparr>ld_connections := 1, ld_logs := 1, ld_appenders := 1, ld_subscribers := 1, ld_patch_size := 32768,
     ld_rate := 128, ld_duration := 1000000000, ld_durability := Written\<rparr>"

fun resume_loop :: "nat \<Rightarrow> incoming \<Rightarrow> pool \<Rightarrow> run_error + pool \<times> incoming" where
  "resume_loop size_bytes [] p = Inl (ControlExceeded stalled_id)"
| "resume_loop size_bytes ((peer, frame) # es) p =
     (case pool_next peer frame p of
        (p, Inl e) \<Rightarrow> Inl e
      | (p, Inr r) \<Rightarrow>
          (case r of
             RecordsFrame i records \<Rightarrow>
               if i = stalled_id \<and> length records = 1 \<and> wr_version (records ! 0) = 1 \<and>
                 Some (wr_patch (records ! 0)) = payload 0 size_bytes
               then Inr (p, es) else Inl (UnexpectedResponse r)
           | Pong _ \<Rightarrow> resume_loop size_bytes es p
           | OkFrame _ \<Rightarrow> resume_loop size_bytes es p
           | _ \<Rightarrow> Inl (UnexpectedResponse r)))"

text \<open>
  What comes within the 250 milliseconds after the grant was used up, and fails the probe.
\<close>

definition quiet :: "incoming \<Rightarrow> pool \<Rightarrow> run_error + pool" where
  "quiet extra p =
     (case extra of
        [] \<Rightarrow> Inr p
      | (peer, frame) # _ \<Rightarrow>
          (case pool_next peer frame p of
             (_, Inl e) \<Rightarrow> Inl e
           | (_, Inr r) \<Rightarrow> Inl (UnexpectedResponse r)))"

text \<open>
  What reaches the probe in each of its phases; frames that a phase leaves unread are the first of
  the next.
\<close>

record probe_input =
  pi_setup :: incoming
  pi_start :: nat
  pi_now :: nat
  pi_greeting :: incoming
  pi_events :: "load_event list"
  pi_cancelled :: incoming
  pi_resumed :: incoming
  pi_extra :: incoming
  pi_closing :: incoming

definition backpressure :: "load_config \<Rightarrow> probe_input \<Rightarrow> run_error + load_state" where
  "backpressure c i =
     (let probe = probe_config c; name = ''credit-isolation'' in
      rbind (pool_create [name] (pi_setup i) (pool_new 1)) (\<lambda>(p, es).
      rbind (map_err (\<lambda>_. PlannedTooMany) (planned probe)) (\<lambda>n.
      rbind (load_run probe [name] (fst (pool_send True 0 (Subscribe stalled_id name 0 Records 0) p)) n (pi_start i) (pi_now i)
          (es @ pi_greeting i) (pi_events i)) (\<lambda>st.
      rbind (load_cancel (pi_cancelled i) st) (\<lambda>(st, es).
      rbind (resume_loop (ld_patch_size probe) (es @ pi_resumed i) (fst (pool_send True 0 (Credit stalled_id 1) (rn_pool st)))) (\<lambda>(p, es).
      rbind (heartbeat es p) (\<lambda>(p, es).
      rbind (quiet (es @ pi_extra i) p) (\<lambda>p.
      rbind (pool_control (Cancel stalled_id) (pi_closing i) p) (\<lambda>(r, p, es).
        case r of
          End j \<Rightarrow> if j = stalled_id then rbind (heartbeat es p) (\<lambda>_. Inr st) else Inl (UnexpectedResponse r)
        | _ \<Rightarrow> Inl (UnexpectedResponse r))))))))))"

section \<open>Churn\<close>

definition churn_round :: "string list \<Rightarrow> nat \<Rightarrow> incoming \<Rightarrow> run_error + unit" where
  "churn_round names round_ix frames =
     rbind (pool_control (Cancel 123) frames
         (fst (pool_send True 0 (Subscribe 123 (names ! (round_ix mod length names)) 0 Records 0) (pool_new 1)))) (\<lambda>(r, p, es).
       case r of End _ \<Rightarrow> rbind (heartbeat es p) (\<lambda>_. Inr ()) | _ \<Rightarrow> Inl (UnexpectedResponse r))"

fun churn_rounds :: "string list \<Rightarrow> nat list \<Rightarrow> (nat \<Rightarrow> incoming) \<Rightarrow> run_error + unit" where
  "churn_rounds names [] frames = Inr ()"
| "churn_rounds names (k # ks) frames = rbind (churn_round names k (frames k)) (\<lambda>_. churn_rounds names ks frames)"

definition churn :: "string list \<Rightarrow> (nat \<Rightarrow> incoming) \<Rightarrow> run_error + unit" where
  "churn names frames = churn_rounds names [0..<32] frames"

section \<open>What the probes show\<close>

lemma control_loop_answer:
  "control_loop i ok es p = Inr (r, p', rest) \<Longrightarrow> resp_id r = i \<and> (\<exists>read. es = read @ rest \<and> r \<in> set (replayed read))"
proof (induction es arbitrary: p)
  case (Cons x es)
  obtain peer frame where x: "x = (peer, frame)" by (cases x)
  obtain q a where a: "pool_next peer frame p = (q, Inr a)" using Cons.prems by (auto simp: x split: prod.splits sum.splits)
  note frame = pool_next_frame [OF a]
  show ?case
  proof (cases "resp_id a = i \<and> (ok \<or> \<not> is_ok a)")
    case True
    then have "r = a" "rest = es" using Cons.prems a by (simp_all add: x)
    then show ?thesis using True by (intro conjI exI [of _ "[x]"]) (simp_all add: x frame replayed_def)
  next
    case False
    then have "control_loop i ok es q = Inr (r, p', rest)" using Cons.prems a by (auto simp: x split: if_splits)
    from Cons.IH [OF this] obtain read where "resp_id r = i" "es = read @ rest" "r \<in> set (replayed read)" by blast
    then show ?thesis by (intro conjI exI [of _ "x # read"]) (simp_all add: replayed_def)
  qed
qed simp

lemma replayed_append [simp]: "replayed (xs @ ys) = replayed xs @ replayed ys"
  by (simp add: replayed_def)

lemma pool_control_answer:
  "pool_control req es p = Inr (r, p', rest) \<Longrightarrow> resp_id r = req_id req \<and> (\<exists>read. es = read @ rest \<and> r \<in> set (replayed read))"
  unfolding pool_control_def by (rule control_loop_answer)

lemma pool_create_rest: "pool_create names es p = Inr (p', rest) \<Longrightarrow> \<exists>read. es = read @ rest"
proof (induction names arbitrary: es p)
  case (Cons name names)
  obtain r q es' where r: "pool_control (Create control_id name False) es p = Inr (r, q, es')" "pool_create names es' q = Inr (p', rest)"
    using Cons.prems by (auto simp: rbind_def split: sum.splits response.splits if_splits)
  from pool_control_answer [OF r(1)] Cons.IH [OF r(2)] show ?case by (metis append_assoc)
qed simp

text \<open>What the appends of the crash probe tell the ledger.\<close>

definition probe_told :: "incoming \<Rightarrow> nat list \<Rightarrow> ledger \<Rightarrow> ledger \<Rightarrow> bool" where
  "probe_told es ss l l' \<longleftrightarrow> (\<exists>xs. ledger_run xs l = Inr l' \<and> issued_logs xs = replicate (length ss) 0 \<and>
     (\<forall>i. seen xs i = [] \<and> subs_of xs i = []) \<and>
     (\<forall>s vs sy. (vs, sy) \<in> set (acks_of xs s) \<longrightarrow> s \<in> set ss \<and> Ack (append_base + s) vs sy \<in> set (replayed es)))"

lemma probe_told_Nil: "probe_told es [] l l"
  unfolding probe_told_def by (intro exI [of _ "[]"]) (simp add: trace_funs)

lemma probe_told_Cons:
  assumes "ledger_ack s vs sy (fst (ledger_issue 0 t l)) = (l1, Inr u)" "Ack (append_base + s) vs sy \<in> set (replayed read)"
    and "probe_told es ss l1 l'"
  shows "probe_told (read @ es) (s # ss) l l'"
proof -
  obtain xs where xs: "ledger_run xs l1 = Inr l'" "issued_logs xs = replicate (length ss) 0"
      "\<forall>i. seen xs i = [] \<and> subs_of xs i = []"
      "\<forall>s vs sy. (vs, sy) \<in> set (acks_of xs s) \<longrightarrow> s \<in> set ss \<and> Ack (append_base + s) vs sy \<in> set (replayed es)"
    using assms(3) unfolding probe_told_def by blast
  have acks: "acks_of (Issue 0 t # Acked s vs sy # xs) s' = (if s = s' then [(vs, sy)] else []) @ acks_of xs s'" for s'
    by (simp add: acks_of_def)
  show ?thesis unfolding probe_told_def
  proof (intro exI [of _ "Issue 0 t # Acked s vs sy # xs"] conjI)
    show "ledger_run (Issue 0 t # Acked s vs sy # xs) l = Inr l'" using assms(1) xs(1) by simp
    show "\<forall>i. seen (Issue 0 t # Acked s vs sy # xs) i = [] \<and> subs_of (Issue 0 t # Acked s vs sy # xs) i = []"
      using xs(3) by (simp add: seen_def subs_of_def)
    show "issued_logs (Issue 0 t # Acked s vs sy # xs) = replicate (length (s # ss)) 0" using xs(2) by (simp add: issued_logs_def)
    show "\<forall>s' vs' sy'. (vs', sy') \<in> set (acks_of (Issue 0 t # Acked s vs sy # xs) s') \<longrightarrow>
        s' \<in> set (s # ss) \<and> Ack (append_base + s') vs' sy' \<in> set (replayed (read @ es))"
      unfolding acks using xs(4) assms(2) by auto
  qed
qed

lemma crash_appends_told:
  "crash_appends name size_bytes clock ss es p l = Inr (p', l', rest) \<Longrightarrow> probe_told es ss l l'"
proof (induction name size_bytes clock ss es p l rule: crash_appends.induct)
  case (1 name size_bytes clock es p l)
  then show ?case using probe_told_Nil by simp
next
  case (2 name size_bytes clock s ss es p l)
  obtain patch where patch: "payload s size_bytes = Some patch" using "2.prems" by (auto split: option.splits)
  obtain r q es' where r: "pool_control (Append (append_base + s) name [patch] Durable) es p = Inr (r, q, es')"
    using "2.prems" by (auto simp: patch rbind_def split: sum.splits)
  from pool_control_answer [OF r] obtain read where read: "resp_id r = append_base + s" "es = read @ es'" "r \<in> set (replayed read)"
    by auto
  obtain i vs sy where ack: "r = Ack i vs sy" using "2.prems" by (auto simp: patch r rbind_def split: response.splits)
  obtain l1 u where l1: "ledger_ack s vs sy (fst (ledger_issue 0 (clock s) l)) = (l1, Inr u)"
      "crash_appends name size_bytes clock ss es' q l1 = Inr (p', l', rest)"
    using "2.prems" by (auto simp: patch r ack rbind_def split: prod.splits sum.splits)
  have "probe_told es' ss l1 l'" using "2.IH" [OF patch r refl refl ack l1(1) [symmetric] refl l1(2)] .
  then show ?case using probe_told_Cons [OF l1(1)] read ack by simp
qed

lemma crash_probe_sound:
  assumes "crash_probe c epoch clock frames restarted again = Inr l"
  shows "\<exists>h read rest. again = read @ rest \<and> distinct h \<and> set h = {..<32} \<and>
    map wr_version (frames_in (replayed read) 1) = [1..<33] \<and>
    map (read_payload 0 (ld_patch_size c)) (frames_in (replayed read) 1) = map Inr h \<and>
    (\<forall>s < 32. \<exists>v synced. Ack (append_base + s) [v] synced \<in> set (replayed frames) \<and> v \<le> synced \<and> 0 < v \<and> h ! (v - 1) = s)"
proof -
  let ?name = "''crash-'' @ dec_digits epoch" and ?new = "ledger_new 1 (ld_patch_size c) Durable"
  obtain p es p' l1 es' where steps: "pool_create [?name] frames (pool_new 1) = Inr (p, es)"
      "crash_appends ?name (ld_patch_size c) clock [0..<32] es p ?new = Inr (p', l1, es')"
      "replay_run [?name] again l1 = Inr l"
    using assms by (auto simp: crash_probe_def Let_def rbind_def simp del: pool_create.simps upt_Suc split: sum.splits prod.splits)
  obtain pre where pre: "frames = pre @ es" using pool_create_rest [OF steps(1)] by blast
  obtain xs where xs: "ledger_run xs ?new = Inr l1" "issued_logs xs = replicate 32 0" "\<forall>i. seen xs i = [] \<and> subs_of xs i = []"
      "\<forall>s vs sy. (vs, sy) \<in> set (acks_of xs s) \<longrightarrow> s \<in> set [0..<32] \<and> Ack (append_base + s) vs sy \<in> set (replayed es)"
    using crash_appends_told [OF steps(2)] unfolding probe_told_def by auto
  have inv: "ledger_inv 1 xs l1" using inv_run [OF xs(1) inv_new] by simp
  have params: "lg_patch_size l1 = ld_patch_size c" "lg_durability l1 = Durable"
    using run_params [OF xs(1)] by (simp_all add: ledger_new_def)
  obtain read rest ys where ys: "again = read @ rest" "ledger_inv 1 ys l" "ledger_finish l = Inr ()" "issued_logs ys = issued_logs xs"
      "\<And>s. acks_of ys s = acks_of xs s" "\<And>i. seen ys i = frames_in (replayed read) i" "(0, 0) \<in> set (subs_of ys 1)"
      "lg_patch_size l = lg_patch_size l1" "lg_durability l = lg_durability l1"
  proof (rule replay_told [OF steps(3) inv])
    fix read rest ys
    assume a: "again = read @ rest" "ledger_inv 1 ys l" "ledger_finish l = Inr ()" "issued_logs ys = issued_logs xs"
      "\<And>s. acks_of ys s = acks_of xs s" "\<And>i. seen ys i = frames_in (replayed read) i"
      "\<And>k. k < length [?name] \<Longrightarrow> (k, 0) \<in> set (subs_of ys (k + 1))" "lg_patch_size l = lg_patch_size l1" "lg_durability l = lg_durability l1"
    have "(0, 0) \<in> set (subs_of ys 1)" using a(7) [of 0] by simp
    then show thesis using that a(1-6,8,9) by blast
  qed
  let ?h = "history_of l 0"
  note hist = passed_history [OF ys(2,3) zero_less_one]
  have issued: "issued_logs ys = replicate 32 0" by (simp only: ys(4) xs(2))
  have "{s. s < length (replicate 32 (0 :: nat)) \<and> replicate 32 (0 :: nat) ! s = 0} = {..<32}" by auto
  then have h: "distinct ?h" "set ?h = {..<32}" using hist(2) unfolding issued by simp_all
  then have len: "length ?h = 32" using distinct_card [of ?h] by simp
  have "\<exists>v synced. Ack (append_base + s) [v] synced \<in> set (replayed frames) \<and> v \<le> synced \<and> 0 < v \<and> ?h ! (v - 1) = s" if s: "s < 32" for s
  proof -
    obtain v synced where v: "canon l 0 v = Some s" "acks_of ys s = [([v], synced)]" "lg_durability l = Durable \<longrightarrow> v \<le> synced"
      using passed_ack [OF ys(2,3), of s] s unfolding issued by auto
    have "([v], synced) \<in> set (acks_of xs s)" using v(2) ys(5) by simp
    then have "Ack (append_base + s) [v] synced \<in> set (replayed es)" using xs(4) by blast
    then have "Ack (append_base + s) [v] synced \<in> set (replayed frames)" using pre by simp
    moreover have "v \<le> synced" using v(3) ys(9) params(2) by simp
    moreover have "0 < v \<and> ?h ! (v - 1) = s" using hist(1) v(1) by blast
    ultimately show ?thesis by blast
  qed
  moreover have "map wr_version (frames_in (replayed read) 1) = [1..<33] \<and>
      map (read_payload 0 (ld_patch_size c)) (frames_in (replayed read) 1) = map Inr ?h"
    using passed_subscriber [OF ys(2,3,7)] unfolding ys(6,8) params(1) len by simp
  ultimately show ?thesis using h ys(1) by blast
qed

text \<open>
  C17: What was acknowledged as durable was there after the kill. When the crash probe passes, the log
  read again from its start by the restarted server held 32 records, at the versions 1 to 32, whose
  payloads are those of the 32 appends in some order; and each append had been acknowledged with the
  one version at which it came back, as flushed to it or beyond.
\<close>

theorem crash_probe_is_sound:
  assumes "crash_probe c epoch clock frames restarted again = Inr l"
  shows "\<exists>h read rest. again = read @ rest \<and> distinct h \<and> set h = {..<32} \<and>
    map wr_version (frames_in (replayed read) 1) = [1..<33] \<and>
    map (read_payload 0 (ld_patch_size c)) (frames_in (replayed read) 1) = map Inr h \<and>
    (\<forall>s < 32. \<exists>v synced. Ack (append_base + s) [v] synced \<in> set (replayed frames) \<and> v \<le> synced \<and> 0 < v \<and> h ! (v - 1) = s)"
  using assms by (rule crash_probe_sound)

text \<open>A server of one log that does what it should.\<close>

definition probe_frames :: incoming where
  "probe_frames = (0, Inr (Logs control_id [\<lparr>li_name = ''crash-0'', li_reducible = False, li_version = 0, li_oldest = 1, li_subscribers = 0\<rparr>])) #
     map (\<lambda>s. (0, Inr (Ack (append_base + s) [s + 1] (s + 1)))) [0..<32]"

definition probe_again :: incoming where
  "probe_again = [(0, Inr (OkFrame 1)),
     (0, Inr (RecordsFrame 1 (map (\<lambda>s. \<lparr>wr_version = s + 1, wr_patch = the (payload s 16)\<rparr>) [0..<32]))),
     (0, Inr (OkFrame 1)), (0, Inr (End 1)), (0, Inr (Pong control_id))]"

text \<open>The ledger of the probe after the first \<open>k\<close> acknowledgements, and after \<open>k\<close> records came back.\<close>

definition probe_ledger :: "nat \<Rightarrow> ledger" where
  "probe_ledger k = \<lparr>lg_issued = map (\<lambda>s. \<lparr>is_log = 0, is_intended = 0, is_ack = Some (s + 1), is_observed = Some (s + 1)\<rparr>) [0..<k],
     lg_canonical = [map (\<lambda>s. (s + 1, s)) [0..<k]], lg_streams = [], lg_patch_size = 16, lg_durability = Durable, lg_acks = k\<rparr>"

definition again_ledger :: "nat \<Rightarrow> ledger" where
  "again_ledger k = probe_ledger 32\<lparr>lg_streams := [(1, \<lparr>ls_log = 0, ls_next = k + 1, ls_credit = 256 - k\<rparr>)]\<rparr>"

lemma versions_wf: "bt_wf (map (\<lambda>s. (s + 1, s)) [0..<k])"
  by (simp add: bt_wf_def comp_def map_Suc_upt del: upt_Suc)

lemma versions_get: "bt_get (map (\<lambda>s. (s + 1, s)) [0..<k]) v = (if 0 < v \<and> v \<le> k then Some (v - 1) else None)"
proof (cases "0 < v \<and> v \<le> k")
  case True
  then have "(v, v - 1) \<in> set (map (\<lambda>s. (s + 1, s)) [0..<k])" by (auto simp: image_iff)
  then show ?thesis using True versions_wf bt_get_Some_iff by metis
next
  case False
  then show ?thesis by (auto simp: bt_get_eq_None_iff)
qed

lemma bt_insert_same: "bt_wf m \<Longrightarrow> (k, v) \<in> set m \<Longrightarrow> bt_insert k v m = m"
  by (induction k v m rule: bt_insert.induct) (auto simp: bt_wf_Cons)

lemma versions_insert: "bt_insert (k + 1) k (map (\<lambda>s. (s + 1, s)) [0..<k]) = map (\<lambda>s. (s + 1, s)) [0..<k + 1]"
  using bt_insert_append_geq [of "map (\<lambda>s. (s + 1, s)) [0..<k]" "k + 1" k "[]"] by simp

lemma probe_ack: "ledger_ack k [k + 1] (k + 1) (fst (ledger_issue 0 0 (probe_ledger k))) = (probe_ledger (k + 1), Inr 0)"
proof -
  have "bt_get (map (\<lambda>s. (Suc s, s)) [0..<k]) (Suc k) = None" using versions_get [of k "k + 1"] by simp
  then show ?thesis using versions_insert [of k]
    by (simp add: ledger_ack_def ledger_issue_def ledger_bind_def probe_ledger_def nth_append Let_def list_update_append)
qed

lemma probe_appends:
  "k \<le> n \<Longrightarrow> \<exists>p'. crash_appends name 16 (\<lambda>_. 0) [k..<n] (map (\<lambda>s. (0, Inr (Ack (append_base + s) [s + 1] (s + 1)))) [k..<n]) p (probe_ledger k) =
    Inr (p', probe_ledger n, [])"
proof (induction "n - k" arbitrary: k p)
  case (Suc m)
  then have range: "[k..<n] = k # [k + 1..<n]" by (simp add: upt_conv_Cons)
  have control: "pool_control (Append (append_base + k) name [patch] Durable) ((0, Inr (Ack (append_base + k) [k + 1] (k + 1))) # es) p =
      Inr (Ack (append_base + k) [k + 1] (k + 1), fst (pool_send True 0 (Append (append_base + k) name [patch] Durable) p), es)" for patch es
    by (simp add: pool_control_def pool_next_def is_ok_def)
  have patch: "payload k 16 = Some (JString (hex16 k))" by (simp add: payload_def)
  show ?case using Suc probe_ack [of k] by (simp add: range control [simplified] patch del: upt_Suc)
qed simp

lemma again_record:
  assumes "k < 32"
  shows "take_record 1 \<lparr>wr_version = k + 1, wr_patch = the (payload k 16)\<rparr> (again_ledger k) = (again_ledger (k + 1), Inr 0)"
proof -
  have read: "read_payload 0 16 \<lparr>wr_version = k + 1, wr_patch = the (payload k 16)\<rparr> = Inr k"
    using assms by (intro read_payload_of) (simp_all add: payload_def u64_max_def)
  have same: "bt_insert (k + 1) k (map (\<lambda>s. (s + 1, s)) [0..<32]) = map (\<lambda>s. (s + 1, s)) [0..<32]"
    using assms by (intro bt_insert_same [OF versions_wf]) (auto simp: image_iff simp del: upt_rec_numeral)
  have got: "bt_get (map (\<lambda>s. (s + 1, s)) [0..<32]) (k + 1) = Some k" using assms versions_get [of 32 "k + 1"] by simp
  have bind: "ledger_bind 0 (k + 1) k (probe_ledger 32\<lparr>lg_streams := m\<rparr>) = (probe_ledger 32\<lparr>lg_streams := m\<rparr>, Inr ())" for m
    using assms got same
    by (simp add: ledger_bind_def probe_ledger_def Let_def list_update_same_conv del: upt_rec_numeral)
  have one: "bt_get [(1, st)] (1 :: nat) = Some st" for st :: ledger_stream by (simp add: bt_get_def)
  have intended: "is_intended (lg_issued (probe_ledger 32) ! k) = 0" using assms by (simp add: probe_ledger_def del: upt_rec_numeral)
  show ?thesis using assms bind [of "[(1, \<lparr>ls_log = 0, ls_next = k + 2, ls_credit = 255 - k\<rparr>)]"] read intended one
    by (simp add: take_record_def again_ledger_def Let_def probe_ledger_def [of 32] del: upt_rec_numeral)
qed

lemma again_records:
  "k \<le> 32 \<Longrightarrow> ledger_records 1 (map (\<lambda>s. \<lparr>wr_version = s + 1, wr_patch = the (payload s 16)\<rparr>) [k..<32]) (again_ledger k) =
    (again_ledger 32, Inr (replicate (32 - k) 0))"
proof (induction "32 - k" arbitrary: k)
  case (Suc m)
  then have "[k..<32] = k # [k + 1..<32]" by (simp add: upt_conv_Cons del: upt_rec_numeral)
  moreover have "replicate (32 - k) 0 = 0 # replicate (32 - (k + 1)) (0 :: nat)" using Suc.hyps(2) by (metis Suc_diff_Suc Suc_eq_plus1 diff_Suc_1 replicate_Suc zero_less_Suc zero_less_diff)
  ultimately show ?case using Suc again_record [of k] by (simp del: upt_rec_numeral)
qed (simp add: again_ledger_def)

lemma probe_verdicts:
  "ledger_complete (again_ledger 0) = Some False" "ledger_complete (again_ledger 32) = Some True"
  "ledger_finish (again_ledger 32) = Inr ()"
  by (simp_all add: ledger_complete_def ledger_finish_def again_ledger_def probe_ledger_def log_end_def last_version_def last_map)

lemma probe_starts_again:
  "replay_subscribe 0 [name] (p, ledger_replay (probe_ledger 32)) =
    Inr (fst (pool_send True 0 (Subscribe 1 name 0 Records 256) p), again_ledger 0)"
  by (simp add: ledger_subscribe_def ledger_replay_def again_ledger_def probe_ledger_def load_credit_def bt_get_def)

lemma probe_granted: "\<exists>l. ledger_grant 1 32 (again_ledger 32) = (l, Inr ()) \<and> ledger_complete l = Some True \<and> ledger_finish l = Inr ()"
  by (simp add: ledger_grant_def again_ledger_def probe_ledger_def bt_get_def [of "[_]"] ledger_complete_def ledger_finish_def
      log_end_def last_version_def last_map)

lemma probe_replays: "\<exists>l. replay_run [name] probe_again (probe_ledger 32) = Inr l"
proof -
  have records: "ledger_records 1 (map (\<lambda>s. \<lparr>wr_version = s + 1, wr_patch = the (payload s 16)\<rparr>) [0..<32]) (again_ledger 0) =
      (again_ledger 32, Inr (replicate 32 0))" using again_records [of 0] by simp
  obtain l where grant: "ledger_grant 1 32 (again_ledger 32) = (l, Inr ())" "ledger_complete l = Some True" "ledger_finish l = Inr ()"
    using probe_granted by blast
  define sent where "sent = fst (pool_send True 0 (Subscribe 1 name 0 Records 256) (pool_new 1))"
  let ?rs = "map (\<lambda>s. \<lparr>wr_version = s + 1, wr_patch = the (payload s 16)\<rparr>) [0..<32]"
  obtain p where p: "replay_frame (0, Inr (OkFrame 1)) (sent, again_ledger 0) = Inr (p, again_ledger 0)"
      "(0, 1) \<notin> set (pl_unconfirmed p)" "pl_peers p = 1" "pl_confirmations p = [((0, 1), 0)]"
    by (simp add: sent_def replay_frame_def pool_next_def pool_send_def pool_expect_def expects_ok_def is_subscribe_def pool_new_def bt_get_def Let_def)
  have frame: "replay_frame (0, Inr (RecordsFrame 1 ?rs)) (p, again_ledger 0) = Inr (fst (pool_send True 0 (Credit 1 32) p), l)"
    using p(2) records grant(1) by (simp add: replay_frame_def pool_next_def del: upt_rec_numeral)
  have rest: "\<exists>q. replay_cancel [0] [(0, Inr (OkFrame 1)), (0, Inr (End 1)), (0, Inr (Pong control_id))] (fst (pool_send True 0 (Credit 1 32) p)) =
        Inr (q, [(0, Inr (Pong control_id))]) \<and> pl_peers q = 1 \<and> pl_confirmations q = [((0, 1), 0)]"
    using p(3,4) by (simp add: pool_control_def pool_next_def pool_send_def pool_expect_def expects_ok_def is_subscribe_def is_ok_def is_pong_def bt_get_def Let_def)
  then obtain q where q: "replay_cancel [0] [(0, Inr (OkFrame 1)), (0, Inr (End 1)), (0, Inr (Pong control_id))] (fst (pool_send True 0 (Credit 1 32) p)) =
        Inr (q, [(0, Inr (Pong control_id))])" "pl_peers q = 1" "pl_confirmations q = [((0, 1), 0)]" by blast
  have "\<exists>r. heartbeat [(0, Inr (Pong control_id))] q = Inr r"
    using q(2,3) by (simp add: heartbeat_def pool_send_def pool_expect_def expects_ok_def is_subscribe_def settled_def pool_next_def)
  moreover have "replay_loop probe_again (sent, again_ledger 0) =
      Inr (fst (pool_send True 0 (Credit 1 32) p), l, [(0, Inr (OkFrame 1)), (0, Inr (End 1)), (0, Inr (Pong control_id))])"
    unfolding probe_again_def
    by (simp add: replay_loop.simps [of "_ # _"] probe_verdicts(1) p(1) frame grant replay_done_def del: One_nat_def upt_rec_numeral)
  moreover have "replay_subscribe 0 [name] (pool_new 1, ledger_replay (probe_ledger 32)) = Inr (sent, again_ledger 0)"
    unfolding sent_def by (rule probe_starts_again)
  ultimately show ?thesis unfolding replay_run_def using q(1)
    by (auto simp del: replay_subscribe.simps replay_cancel.simps)
qed

theorem crash_probe_is_sound_witness:
  "\<exists>read rest. probe_again = read @ rest \<and> map wr_version (frames_in (replayed read) 1) = [1..<33]"
proof -
  let ?c = "small_load\<lparr>ld_patch_size := 16\<rparr>"
  have new: "ledger_new 1 16 Durable = probe_ledger 0" by (simp add: ledger_new_def probe_ledger_def)
  obtain p where p: "crash_appends ''crash-0'' 16 (\<lambda>_. 0) [0..<32] (map (\<lambda>s. (0, Inr (Ack (append_base + s) [s + 1] (s + 1)))) [0..<32])
      (fst (pool_send True 0 (Create control_id ''crash-0'' False) (pool_new 1))) (probe_ledger 0) = Inr (p, probe_ledger 32, [])"
    using probe_appends [of 0 32] by blast
  have "pool_create [''crash-0''] probe_frames (pool_new 1) =
      Inr (fst (pool_send True 0 (Create control_id ''crash-0'' False) (pool_new 1)), map (\<lambda>s. (0, Inr (Ack (append_base + s) [s + 1] (s + 1)))) [0..<32])"
    by (simp add: probe_frames_def pool_control_def pool_next_def is_ok_def del: upt_rec_numeral)
  moreover have "''crash-'' @ dec_digits 0 = ''crash-0''" by code_simp
  moreover obtain l where "replay_run [''crash-0''] probe_again (probe_ledger 32) = Inr l" using probe_replays by blast
  ultimately have "crash_probe ?c 0 (\<lambda>_. 0) probe_frames (Inr ()) probe_again = Inr l"
    using p unfolding new [symmetric] by (simp add: crash_probe_def Let_def del: crash_appends.simps pool_create.simps upt_rec_numeral)
  from crash_probe_is_sound [OF this] show ?thesis by blast
qed

section \<open>Credit isolation\<close>

text \<open>A load that gets to its end was never pushed a record for the stream without credit.\<close>

lemma on_frame_not_stalled: "on_frame c end_time room peer arrived frame st = Inr st' \<Longrightarrow> frame \<noteq> Inr (RecordsFrame stalled_id rs)"
  by (auto simp: on_frame_def pool_next_def on_records_def split: if_splits)

lemma stalled_stream_is_silent: "load_loop c names n start es st = Inr st' \<Longrightarrow> frames_in (arrivals es) stalled_id = []"
proof (induction es arbitrary: st)
  case (Cons e es)
  obtain st1 where st1: "load_step c names n start e st = Inr st1" "load_loop c names n start es st1 = Inr st'"
    using Cons.prems by (auto simp: rbind_def split: sum.splits)
  have "frames_in (arrivals [e]) stalled_id = []"
  proof (cases e)
    case (Arrives peer arrived frame room)
    then have "frame \<noteq> Inr (RecordsFrame stalled_id rs)" for rs using st1(1) on_frame_not_stalled by simp
    then show ?thesis by (cases frame) (auto simp: Arrives frames_in_def split: response.splits)
  qed (simp_all add: frames_in_def)
  moreover have "arrivals (e # es) = arrivals [e] @ arrivals es" using arrivals_append [of "[e]" es] by simp
  ultimately show ?case using Cons.IH [OF st1(2)] by (simp add: frames_in_def)
qed (simp add: frames_in_def)

text \<open>After the grant of one, the first record of the log came, whole.\<close>

lemma resume_gives_the_first:
  "resume_loop size_bytes es p = Inr (p', rest) \<Longrightarrow>
    \<exists>r. RecordsFrame stalled_id [r] \<in> set (replayed es) \<and> wr_version r = 1 \<and> payload 0 size_bytes = Some (wr_patch r)"
proof (induction size_bytes es p rule: resume_loop.induct)
  case (2 size_bytes peer frame es p)
  obtain q a where a: "pool_next peer frame p = (q, Inr a)" using "2.prems" by (auto split: prod.splits sum.splits)
  note frame = pool_next_frame [OF a]
  show ?case
  proof (cases a)
    case (RecordsFrame i records)
    then have r: "i = stalled_id" "length records = 1" "wr_version (records ! 0) = 1" "Some (wr_patch (records ! 0)) = payload 0 size_bytes"
      using "2.prems" by (auto simp: a split: if_splits)
    then obtain r where "records = [r]" by (cases records) auto
    then show ?thesis using r by (intro exI [of _ r]) (simp add: frame RecordsFrame replayed_def)
  next
    case (Pong i)
    then have "resume_loop size_bytes es q = Inr (p', rest)" using "2.prems" by (simp add: a)
    from "2.IH"(2) [OF a [symmetric] refl Pong this] show ?thesis by (auto simp: replayed_def)
  next
    case (OkFrame i)
    then have "resume_loop size_bytes es q = Inr (p', rest)" using "2.prems" by (simp add: a)
    from "2.IH"(1) [OF a [symmetric] refl OkFrame this] show ?thesis by (auto simp: replayed_def)
  qed (use "2.prems" in \<open>simp_all add: a\<close>)
qed simp

lemma isolation_shown:
  assumes "backpressure c i = Inr st"
  shows "frames_in (arrivals (pi_events i)) stalled_id = [] \<and>
    (\<exists>r. RecordsFrame stalled_id [r] \<in> set (replayed (pi_cancelled i @ pi_resumed i)) \<and> wr_version r = 1 \<and>
      payload 0 32768 = Some (wr_patch r))"
proof -
  obtain p es n st1 late p' es' where steps: "load_run (probe_config c) [''credit-isolation''] p n (pi_start i) (pi_now i) (es @ pi_greeting i) (pi_events i) = Inr st1"
      "load_cancel (pi_cancelled i) st1 = Inr (st, late)"
      "resume_loop 32768 (late @ pi_resumed i) (fst (pool_send True 0 (Credit stalled_id 1) (rn_pool st))) = Inr (p', es')"
    using assms by (auto simp: backpressure_def Let_def rbind_def probe_config_def
        simp del: pool_create.simps split: sum.splits prod.splits response.splits if_splits)
  have "frames_in (arrivals (pi_events i)) stalled_id = []"
    using steps(1) stalled_stream_is_silent by (fastforce simp: load_run_def rbind_def split: sum.splits prod.splits)
  moreover obtain read where "pi_cancelled i = read @ late"
    using steps(2) cancel_loop_fed by (fastforce simp: load_cancel_def rbind_def split: sum.splits prod.splits)
  ultimately show ?thesis using resume_gives_the_first [OF steps(3)] by auto
qed

end
