(* ===== verification/LoadBench.thy ===== *)
theory LoadBench
  imports LoadProbe
begin

text \<open>
  The benchmark of \<open>crates/lug-load/src/main.rs\<close> with the opening of connections of \<open>run.rs\<close>: its
  steps in order, what each epoch checks, and how the process exits. What the server's frames, its
  descriptors and its memory are by each step is an argument; the report keeps what is measured by
  the model, not its rates.
\<close>

section \<open>Opening connections\<close>

text \<open>Connections in the order they were established; one that fails ends the opening.\<close>

fun open_peers :: "(nat \<times> (string + 'p)) list \<Rightarrow> run_error + (nat \<times> 'p) list" where
  "open_peers [] = Inr []"
| "open_peers ((k, Inl e) # rest) = Inl (ConnectionFailed k e)"
| "open_peers ((k, Inr p) # rest) = rbind (open_peers rest) (\<lambda>ps. Inr ((k, p) # ps))"

definition pool_open :: "nat \<Rightarrow> (nat \<times> (string + 'p)) list \<Rightarrow> run_error + 'p list" where
  "pool_open wanted established =
     rbind (open_peers established) (\<lambda>ps.
       if length ps < wanted then Inl (EstablishTimeout wanted) else Inr (map snd (sort_key fst ps)))"

definition accepts :: "nat \<Rightarrow> (nat \<times> (string + unit)) list \<Rightarrow> run_error + nat" where
  "accepts wanted established =
     rbind (open_peers established) (\<lambda>ps. if length ps < wanted then Inl AcceptsTimeout else Inr wanted)"

lemma open_peers_all: "open_peers established = Inr ps \<Longrightarrow> established = map (\<lambda>(k, p). (k, Inr p)) ps"
  by (induction established arbitrary: ps rule: open_peers.induct) (auto simp: rbind_def split: sum.splits)

text \<open>The number a connection goes by is its place in the pool, in whatever order they came up.\<close>

lemma pool_open_places:
  assumes "pool_open n established = Inr peers" "distinct (map fst established)" "set (map fst established) = {..<n}" "(k, r) \<in> set established"
  shows "k < length peers \<and> r = Inr (peers ! k)"
proof -
  obtain ps where ps: "established = map (\<lambda>(k, p). (k, Inr p)) ps" "peers = map snd (sort_key fst ps)"
    using assms(1) open_peers_all by (auto simp: pool_open_def rbind_def split: sum.splits if_splits)
  have "map fst established = map fst ps" by (simp add: ps(1) comp_def split_beta)
  then have keys: "distinct (map fst ps)" "set (map fst ps) = {..<n}" using assms(2,3) by simp_all
  let ?s = "sort_key fst ps"
  have "sorted (map fst ?s)" "distinct (map fst ?s)" "set (map fst ?s) = {..<n}"
    using keys by (simp_all add: distinct_map)
  then have sorted: "map fst ?s = [0..<n]"
    by (intro sorted_distinct_set_unique) (simp_all add: atLeast0LessThan)
  obtain p where p: "r = Inr p" "(k, p) \<in> set ?s" using assms(4) ps(1) by auto
  then obtain j where j: "j < length ?s" "?s ! j = (k, p)" by (metis in_set_conv_nth)
  have "length ?s = n" using arg_cong [OF sorted, of length] by simp
  then have "fst (?s ! j) = j" using j(1) arg_cong [OF sorted, of "\<lambda>xs. xs ! j"] by simp
  then show ?thesis using j p(1) ps(2) by auto
qed

section \<open>An epoch\<close>

record epoch_input =
  ei_dialled :: "(nat \<times> (string + unit)) list"
  ei_setup :: incoming
  ei_warm :: "server_error + nat \<times> nat"
  ei_opened :: "(nat \<times> (string + unit)) list"
  ei_held :: "server_error + nat"
  ei_start :: nat
  ei_now :: nat
  ei_greeting :: incoming
  ei_events :: "load_event list"
  ei_cancelled :: incoming
  ei_closing :: incoming
  ei_baseline :: "server_error + nat \<times> nat"
  ei_churned :: "nat \<Rightarrow> (nat \<Rightarrow> incoming) \<times> (server_error + nat \<times> nat)"
  ei_clock :: "nat \<Rightarrow> nat"
  ei_crash :: incoming
  ei_restarted :: "server_error + unit"
  ei_again :: incoming
  ei_replayed :: incoming

record epoch_report =
  er_epoch :: nat
  er_held_sockets :: nat
  er_warm_rss :: nat
  er_held_rss :: nat
  er_loaded :: load_state
  er_replayed :: bool
  er_fd_baseline :: nat
  er_fd_after :: nat

definition epoch_names :: "load_config \<Rightarrow> nat \<Rightarrow> string list" where
  "epoch_names c epoch = map (\<lambda>k. ''load-'' @ dec_digits epoch @ ''-'' @ dec_digits k) [0..<ld_logs c]"

text \<open>Four rounds of churn, each held against the same baseline.\<close>

fun churn_checks ::
    "load_config \<Rightarrow> string list \<Rightarrow> nat \<Rightarrow> ((nat \<Rightarrow> incoming) \<times> (server_error + nat \<times> nat)) list \<Rightarrow> nat \<Rightarrow> run_error + nat" where
  "churn_checks c names baseline [] after = Inr after"
| "churn_checks c names baseline ((frames, quiet_fds) # rounds) after =
     rbind (churn names frames) (\<lambda>_.
     rbind (map_err InServer quiet_fds) (\<lambda>(fds, _).
       if fds_leaked baseline fds (ld_fd_slack c) then Inl (FdLeak baseline fds (ld_fd_slack c))
       else churn_checks c names baseline rounds fds))"

definition held_sockets :: "load_config \<Rightarrow> nat" where
  "held_sockets c = ld_connections c + (if ld_transport c = LoadHttp then ld_logs c * ld_subscribers c else 0)"

definition run_epoch :: "load_config \<Rightarrow> nat \<Rightarrow> epoch_input \<Rightarrow> run_error + epoch_report" where
  "run_epoch c epoch i =
     (let names = epoch_names c epoch in
      rbind (pool_open 1 (ei_dialled i)) (\<lambda>_.
      rbind (pool_create names (ei_setup i) (pool_new 1)) (\<lambda>_.
      rbind (map_err InServer (ei_warm i)) (\<lambda>(_, warm).
      rbind (pool_open (ld_connections c) (ei_opened i)) (\<lambda>peers.
      rbind (map_err InServer (ei_held i)) (\<lambda>held_rss.
      rbind (map_err (\<lambda>_. PlannedTooMany) (planned c)) (\<lambda>n.
      rbind (load_run c names (pool_new (length peers)) n (ei_start i) (ei_now i) (ei_greeting i) (ei_events i)) (\<lambda>st.
      rbind (load_cancel (ei_cancelled i) st) (\<lambda>(st, es).
      rbind (heartbeat (es @ ei_closing i) (rn_pool st)) (\<lambda>_.
      rbind (map_err InServer (ei_baseline i)) (\<lambda>(baseline, _).
      rbind (if ld_soak c then churn_checks c names baseline (map (ei_churned i) [0..<4]) baseline else Inr baseline) (\<lambda>after.
      rbind (crash_probe c epoch (ei_clock i) (ei_crash i) (ei_restarted i) (ei_again i)) (\<lambda>_.
      rbind (if ld_durability c = Durable then rbind (replay_run names (ei_replayed i) (rn_ledger st)) (\<lambda>_. Inr ()) else Inr ()) (\<lambda>_.
        Inr \<lparr>er_epoch = epoch, er_held_sockets = held_sockets c, er_warm_rss = warm, er_held_rss = held_rss, er_loaded = st,
          er_replayed = (ld_durability c = Durable), er_fd_baseline = baseline, er_fd_after = after\<rparr>))))))))))))))"

fun run_epochs :: "load_config \<Rightarrow> nat list \<Rightarrow> (nat \<Rightarrow> epoch_input) \<Rightarrow> run_error + epoch_report list" where
  "run_epochs c [] inputs = Inr []"
| "run_epochs c (k # ks) inputs = rbind (run_epoch c k (inputs k)) (\<lambda>r. rbind (run_epochs c ks inputs) (\<lambda>rs. Inr (r # rs)))"

section \<open>The benchmark\<close>

record bench_input =
  bi_cold :: "server_error + nat \<times> nat"
  bi_probe :: probe_input
  bi_accepted :: "(nat \<times> (string + unit)) list"
  bi_epochs :: "nat \<Rightarrow> epoch_input"

record bench_report =
  br_accepted :: nat
  br_cold_rss :: nat
  br_epochs :: "epoch_report list"

definition epoch_count :: "load_config \<Rightarrow> nat" where
  "epoch_count c = (if ld_soak c then ld_soak_cycles c else 1)"

definition benchmark :: "load_config \<Rightarrow> bench_input \<Rightarrow> run_error + bench_report" where
  "benchmark c i =
     rbind (map_err InServer (bi_cold i)) (\<lambda>(_, cold).
     rbind (backpressure c (bi_probe i)) (\<lambda>_.
     rbind (accepts (ld_accepts c) (bi_accepted i)) (\<lambda>accepted.
     rbind (run_epochs c [0..<epoch_count c] (bi_epochs i)) (\<lambda>reports.
       Inr \<lparr>br_accepted = accepted, br_cold_rss = cold, br_epochs = reports\<rparr>))))"

text \<open>The process: raising the limit, starting the server, the benchmark, and the shutdown in any case.\<close>

datatype bench_error = LimitFails string | BySignal nat | StartFails server_error | BenchFails run_error | CleanupFails server_error

datatype 'a or_signal = Completes 'a | SignalComes nat

definition execute ::
    "string + unit \<Rightarrow> (server_error + bool) or_signal \<Rightarrow> (run_error + bench_report) or_signal \<Rightarrow> server_error + unit \<Rightarrow>
     bench_error + bench_report option" where
  "execute limits started outcome cleanup =
     rbind (map_err LimitFails limits) (\<lambda>_.
     case started of
       SignalComes sig \<Rightarrow> Inl (BySignal sig)
     | Completes (Inl e) \<Rightarrow> Inl (StartFails e)
     | Completes (Inr False) \<Rightarrow> Inr None
     | Completes (Inr True) \<Rightarrow>
         (case outcome of
            SignalComes sig \<Rightarrow> Inl (BySignal sig)
          | Completes r \<Rightarrow> rbind (map_err BenchFails r) (\<lambda>report. rbind (map_err CleanupFails cleanup) (\<lambda>_. Inr (Some report)))))"

definition load_exit :: "string list \<Rightarrow> load_arg_error + load_config \<Rightarrow> (load_config \<Rightarrow> bench_error + bench_report option) \<Rightarrow> nat" where
  "load_exit args parsed run =
     (if ''--help'' \<in> set args \<or> ''-h'' \<in> set args \<or> ''--version'' \<in> set args then 0
      else case parsed of
          Inl _ \<Rightarrow> 2
        | Inr c \<Rightarrow>
            (case run c of
               Inr _ \<Rightarrow> 0
             | Inl e \<Rightarrow> if e = BySignal 2 then 130 else if e = BySignal 15 then 143 else 1))"

section \<open>What a report vouches for\<close>

text \<open>What a load that passed has shown, what a replay after it, and what the crash probe.\<close>

definition load_shown :: "load_config \<Rightarrow> string list \<Rightarrow> nat \<Rightarrow> load_event list \<Rightarrow> bool" where
  "load_shown c names n events \<longleftrightarrow> (\<exists>h.
     (\<forall>k < length names. distinct (h k) \<and> set (h k) = {s. s < n \<and> lane_log c s = k}) \<and>
     (\<forall>s < n. \<exists>v synced. acks_in events s = [([v], synced)] \<and> 0 < v \<and> v \<le> length (h (lane_log c s)) \<and>
        h (lane_log c s) ! (v - 1) = s \<and> (ld_durability c = Durable \<longrightarrow> v \<le> synced)) \<and>
     (\<forall>k < length names. \<forall>s < ld_subscribers c. let pushed = frames_in (arrivals events) (k * ld_subscribers c + s + 1) in
        map wr_version pushed = [1..<length (h k) + 1] \<and> map (read_payload k (ld_patch_size c)) pushed = map Inr (h k)))"

definition replay_shown :: "load_config \<Rightarrow> string list \<Rightarrow> load_event list \<Rightarrow> incoming \<Rightarrow> incoming \<Rightarrow> bool" where
  "replay_shown c names events late frames \<longleftrightarrow> (\<exists>cancelled unread read rest. late = cancelled @ unread \<and> frames = read @ rest \<and>
     (\<forall>k < length names. \<forall>s < ld_subscribers c.
       let pushed = frames_in (arrivals events @ replayed cancelled) (k * ld_subscribers c + s + 1); again = frames_in (replayed read) (k + 1) in
       map wr_version again = map wr_version pushed \<and>
       map (read_payload k (ld_patch_size c)) again = map (read_payload k (ld_patch_size c)) pushed))"

definition crash_shown :: "load_config \<Rightarrow> incoming \<Rightarrow> incoming \<Rightarrow> bool" where
  "crash_shown c frames again \<longleftrightarrow> (\<exists>h read rest. again = read @ rest \<and> distinct h \<and> set h = {..<32} \<and>
     map wr_version (frames_in (replayed read) 1) = [1..<33] \<and>
     map (read_payload 0 (ld_patch_size c)) (frames_in (replayed read) 1) = map Inr h \<and>
     (\<forall>s < 32. \<exists>v synced. Ack (append_base + s) [v] synced \<in> set (replayed frames) \<and> v \<le> synced \<and> 0 < v \<and> h ! (v - 1) = s))"

definition churn_shown :: "load_config \<Rightarrow> epoch_input \<Rightarrow> bool" where
  "churn_shown c i \<longleftrightarrow> (\<exists>baseline held. ei_baseline i = Inr (baseline, held) \<and>
     (\<forall>r < 4. \<exists>fds held. snd (ei_churned i r) = Inr (fds, held) \<and> fds \<le> u64_saturating_add baseline (ld_fd_slack c)))"

lemma churn_checks_all:
  "churn_checks c names baseline rounds after = Inr q \<Longrightarrow>
    \<forall>x \<in> set rounds. \<exists>fds held. snd x = Inr (fds, held) \<and> fds \<le> u64_saturating_add baseline (ld_fd_slack c)"
proof (induction c names baseline rounds after rule: churn_checks.induct)
  case (2 c names baseline frames quiet_fds rounds after)
  obtain u where "churn names frames = Inr u"
      "rbind (map_err InServer quiet_fds) (\<lambda>(fds, _). if fds_leaked baseline fds (ld_fd_slack c) then Inl (FdLeak baseline fds (ld_fd_slack c))
         else churn_checks c names baseline rounds fds) = Inr q"
    using "2.prems" by (auto simp: rbind_Inr_iff)
  then obtain fds held where fds: "quiet_fds = Inr (fds, held)" "\<not> fds_leaked baseline fds (ld_fd_slack c)"
      "churn_checks c names baseline rounds fds = Inr q"
    by (cases quiet_fds) (auto split: if_splits)
  have "\<forall>x \<in> set rounds. \<exists>fds held. snd x = Inr (fds, held) \<and> fds \<le> u64_saturating_add baseline (ld_fd_slack c)"
    using "2.IH" fds \<open>churn names frames = Inr u\<close> by fastforce
  then show ?case using fds(1,2) by (auto simp: fds_leaked_def)
qed simp

lemma rbind_InrE: "rbind r k = Inr b \<Longrightarrow> (\<And>a. r = Inr a \<Longrightarrow> k a = Inr b \<Longrightarrow> P) \<Longrightarrow> P"
  by (cases r) simp_all

lemma rbind_pairE: "rbind r (\<lambda>(x, y). k x y) = Inr b \<Longrightarrow> (\<And>x y. r = Inr (x, y) \<Longrightarrow> k x y = Inr b \<Longrightarrow> P) \<Longrightarrow> P"
  by (cases r) auto

lemma run_epoch_steps:
  assumes "run_epoch c k i = Inr r"
  shows "\<exists>n peers st st' es baseline held after l. planned c = Inr n \<and>
    load_run c (epoch_names c k) (pool_new (length (peers :: unit list))) n (ei_start i) (ei_now i) (ei_greeting i) (ei_events i) = Inr st \<and>
    load_cancel (ei_cancelled i) st = Inr (st', es) \<and> ei_baseline i = Inr (baseline, held) \<and>
    (if ld_soak c then churn_checks c (epoch_names c k) baseline (map (ei_churned i) [0..<4]) baseline else Inr baseline) = Inr after \<and>
    crash_probe c k (ei_clock i) (ei_crash i) (ei_restarted i) (ei_again i) = Inr l \<and>
    (if ld_durability c = Durable then rbind (replay_run (epoch_names c k) (ei_replayed i) (rn_ledger st')) (\<lambda>_. Inr ()) else Inr ()) = Inr () \<and>
    er_replayed r = (ld_durability c = Durable)"
  using assms unfolding run_epoch_def Let_def
  apply (elim rbind_pairE rbind_InrE)
  apply (unfold map_err_Inr_iff)
  apply (intro exI conjI, assumption+)
   apply auto
  done

lemma epoch_shown:
  assumes "run_epoch c k i = Inr r"
  shows "\<exists>n. planned c = Inr n \<and> load_shown c (epoch_names c k) n (ei_events i) \<and>
    (ld_durability c = Durable \<longrightarrow> replay_shown c (epoch_names c k) (ei_events i) (ei_cancelled i) (ei_replayed i)) \<and>
    crash_shown c (ei_crash i) (ei_again i) \<and> (ld_soak c \<longrightarrow> churn_shown c i) \<and> er_replayed r = (ld_durability c = Durable)"
proof -
  let ?names = "epoch_names c k"
  obtain n peers st st' es baseline held after l where steps: "planned c = Inr n"
      "load_run c ?names (pool_new (length (peers :: unit list))) n (ei_start i) (ei_now i) (ei_greeting i) (ei_events i) = Inr st"
      "load_cancel (ei_cancelled i) st = Inr (st', es)" "ei_baseline i = Inr (baseline, held)"
      "(if ld_soak c then churn_checks c ?names baseline (map (ei_churned i) [0..<4]) baseline else Inr baseline) = Inr after"
      "crash_probe c k (ei_clock i) (ei_crash i) (ei_restarted i) (ei_again i) = Inr l"
      "(if ld_durability c = Durable then rbind (replay_run ?names (ei_replayed i) (rn_ledger st')) (\<lambda>_. Inr ()) else Inr ()) = Inr ()"
      "er_replayed r = (ld_durability c = Durable)"
    using run_epoch_steps [OF assms] by blast
  have "load_shown c ?names n (ei_events i)" unfolding load_shown_def by (rule load_exact [OF steps(2)])
  moreover have "replay_shown c ?names (ei_events i) (ei_cancelled i) (ei_replayed i)" if durable: "ld_durability c = Durable"
  proof -
    obtain l' where "replay_run ?names (ei_replayed i) (rn_ledger st') = Inr l'" using steps(7) durable by (auto simp: rbind_Inr_iff)
    from replay_exact [OF steps(2,3) this] show ?thesis unfolding replay_shown_def by blast
  qed
  moreover have "crash_shown c (ei_crash i) (ei_again i)" unfolding crash_shown_def by (rule crash_probe_sound [OF steps(6)])
  moreover have "churn_shown c i" if "ld_soak c"
  proof -
    have "churn_checks c ?names baseline (map (ei_churned i) [0..<4]) baseline = Inr after" using steps(5) that by simp
    from churn_checks_all [OF this] show ?thesis using steps(4) unfolding churn_shown_def by (simp del: upt_rec_numeral)
  qed
  ultimately show ?thesis using steps(1,8) by blast
qed

lemma epochs_shown: "run_epochs c ks inputs = Inr rs \<Longrightarrow>
    length rs = length ks \<and> (\<forall>j < length ks. run_epoch c (ks ! j) (inputs (ks ! j)) = Inr (rs ! j))"
proof (induction ks arbitrary: rs)
  case (Cons k ks)
  then obtain r rs' where r: "run_epoch c k (inputs k) = Inr r" "run_epochs c ks inputs = Inr rs'" "rs = r # rs'"
    by (auto simp: rbind_Inr_iff)
  then show ?case using Cons.IH [OF r(2)] by (auto simp: nth_Cons split: nat.splits)
qed simp

text \<open>
  A report vouches for every epoch. When the benchmark ends with a report, each of its epochs has
  shown its load exact to every subscriber; where the load is durable, a replay after the kill has
  read every log back as its subscribers had been pushed it, and where it is not the report says so;
  the crash probe of each epoch read back what was acknowledged; in a soak the descriptors of each of
  the four rounds of churn were within the slack of one baseline; and the probe of credit had seen the
  stream without credit silent beside its load.
\<close>

lemma report_vouches:
  assumes "benchmark c i = Inr report"
  shows "length (br_epochs report) = epoch_count c \<and> frames_in (arrivals (pi_events (bi_probe i))) stalled_id = [] \<and>
    (\<forall>k < epoch_count c. \<exists>n. planned c = Inr n \<and>
       load_shown c (epoch_names c k) n (ei_events (bi_epochs i k)) \<and>
       (ld_durability c = Durable \<longrightarrow>
          replay_shown c (epoch_names c k) (ei_events (bi_epochs i k)) (ei_cancelled (bi_epochs i k)) (ei_replayed (bi_epochs i k))) \<and>
       crash_shown c (ei_crash (bi_epochs i k)) (ei_again (bi_epochs i k)) \<and>
       (ld_soak c \<longrightarrow> churn_shown c (bi_epochs i k)) \<and>
       er_replayed (br_epochs report ! k) = (ld_durability c = Durable))"
proof -
  obtain st where st: "backpressure c (bi_probe i) = Inr st" "run_epochs c [0..<epoch_count c] (bi_epochs i) = Inr (br_epochs report)"
    using assms by (auto simp: benchmark_def rbind_Inr_iff)
  have "\<forall>k < epoch_count c. run_epoch c k (bi_epochs i k) = Inr (br_epochs report ! k)" "length (br_epochs report) = epoch_count c"
    using epochs_shown [OF st(2)] by simp_all
  then show ?thesis using epoch_shown isolation_shown [OF st(1)] by blast
qed

end
