(* ===== verification/LoadWire.thy ===== *)
theory LoadWire
  imports LoadRun
begin

text \<open>
  \<open>crates/lug-load/src/wire.rs\<close>: frames over a socket, the handshake, and the two tasks of a
  connection. What a socket will deliver is a feed, one entry for each read that finds something:
  the bytes that came together, or the error of the read; at its end the peer has hung up. A sink
  holds what was written and how the next writes fail. Counters are kept by each connection.
\<close>

section \<open>Feeds and sinks\<close>

type_synonym 'a feed = "(string + 'a list) list"

record 'a sink =
  sk_faults :: "string option list"
  sk_out :: "'a list"
  sk_tx :: nat

datatype peer_error =
    PeerIo string
  | UnexpectedEof
  | FrameExceeds nat
  | PeerJson string
  | Unencodable "string codec_error"
  | InvalidWelcome response
  | NoAddress
  | EofInLine
  | LineExceeds nat
  | InvalidSession
  | NotUtf8
  | BadNumber
  | HttpStatus string string nat
  | HeadersExceed
  | BadTransferEncoding
  | TrailersExceed
  | TruncatedBody
  | BadTerminator
  | ResponseExceeds
  | StreamEnded
  | SseLineExceeds
  | WrongStreamId
  | SessionOmitted
  | ReceiverClosed

text \<open>One \<open>read\<close> into a buffer of \<open>n\<close> bytes; nothing is the end of the connection.\<close>

definition feed_read :: "nat \<Rightarrow> 'a feed \<Rightarrow> 'a feed \<times> (peer_error + 'a list)" where
  "feed_read n f =
     (case f of
        [] \<Rightarrow> ([], Inr [])
      | Inl e # fs \<Rightarrow> (f, Inl (PeerIo e))
      | Inr bs # fs \<Rightarrow> (if n < length bs then Inr (drop n bs) # fs else if bs = [] then f else fs, Inr (take n bs)))"

text \<open>\<open>read_exact\<close>: reads until there are \<open>n\<close> bytes.\<close>

fun feed_exact :: "nat \<Rightarrow> 'a feed \<Rightarrow> 'a feed \<times> (peer_error + 'a list)" where
  "feed_exact n [] = ([], if n = 0 then Inr [] else Inl UnexpectedEof)"
| "feed_exact n (Inl e # fs) = (Inl e # fs, if n = 0 then Inr [] else Inl (PeerIo e))"
| "feed_exact n (Inr bs # fs) =
     (if n < length bs then (Inr (drop n bs) # fs, Inr (take n bs))
      else if bs = [] then (Inr bs # fs, if n = 0 then Inr [] else Inl UnexpectedEof)
      else case feed_exact (n - length bs) fs of
          (f, Inl e) \<Rightarrow> (f, Inl e)
        | (f, Inr more_bytes) \<Rightarrow> (f, Inr (bs @ more_bytes)))"

text \<open>\<open>write_all\<close>.\<close>

definition sink_write :: "'a list \<Rightarrow> 'a sink \<Rightarrow> 'a sink \<times> (peer_error + unit)" where
  "sink_write bs s =
     (case sk_faults s of
        Some e # fs \<Rightarrow> (s\<lparr>sk_faults := fs\<rparr>, Inl (PeerIo e))
      | fs \<Rightarrow> (s\<lparr>sk_faults := tl fs, sk_out := sk_out s @ bs\<rparr>, Inr ()))"

section \<open>Frames\<close>

definition read_frame :: "8 word feed \<Rightarrow> 8 word feed \<times> (peer_error + bytes)" where
  "read_frame f =
     (case feed_exact 4 f of
        (f, Inl e) \<Rightarrow> (f, Inl e)
      | (f, Inr head) \<Rightarrow>
          let len = of_be_bytes head in
          if max_frame < len then (f, Inl (FrameExceeds len)) else feed_exact len f)"

definition read_response :: "(bytes \<Rightarrow> string + response) \<Rightarrow> 8 word feed \<times> nat \<Rightarrow> (8 word feed \<times> nat) \<times> (peer_error + response)" where
  "read_response from_slice f_rx =
     (case f_rx of (f, rx) \<Rightarrow>
       (case read_frame f of
          (f, Inl e) \<Rightarrow> ((f, rx), Inl e)
        | (f, Inr body) \<Rightarrow> ((f, rx + length body + 4), map_err PeerJson (from_slice body))))"

definition write_request :: "(request \<Rightarrow> string + bytes) \<Rightarrow> request \<Rightarrow> 8 word sink \<Rightarrow> 8 word sink \<times> (peer_error + unit)" where
  "write_request to_vec req s =
     (case encode_frame to_vec req of
        Inl e \<Rightarrow> (s, Inl (Unencodable e))
      | Inr frame \<Rightarrow>
          (case sink_write frame s of
             (s, Inl e) \<Rightarrow> (s, Inl e)
           | (s, Inr _) \<Rightarrow> (s\<lparr>sk_tx := sk_tx s + length frame\<rparr>, Inr ())))"

definition validate_welcome :: "response \<Rightarrow> peer_error + unit" where
  "validate_welcome welcome =
     (case welcome of
        Welcome _ v frame_limit _ \<Rightarrow> if v = proto_version \<and> 0 < frame_limit then Inr () else Inl (InvalidWelcome welcome)
      | _ \<Rightarrow> Inl (InvalidWelcome welcome))"

section \<open>The tasks of a connection\<close>

text \<open>
  The reader: \<open>heard\<close> counts the events that are taken from the channel before its receiver is
  dropped. A read that fails is its last event.
\<close>

fun reader_loop :: "(bytes \<Rightarrow> string + response) \<Rightarrow> nat \<Rightarrow> 8 word feed \<times> nat \<Rightarrow> (peer_error + response) list" where
  "reader_loop from_slice 0 f = []"
| "reader_loop from_slice (Suc heard) f =
     (case read_response from_slice f of
        (f, Inl e) \<Rightarrow> [Inl e]
      | (f, Inr r) \<Rightarrow> Inr r # reader_loop from_slice heard f)"

text \<open>The writer over the requests of its inbox; the error that ends it is an event too.\<close>

fun writer_loop :: "(request \<Rightarrow> string + bytes) \<Rightarrow> request list \<Rightarrow> 8 word sink \<Rightarrow> 8 word sink \<times> peer_error option" where
  "writer_loop to_vec [] s = (s, None)"
| "writer_loop to_vec (r # rs) s =
     (case write_request to_vec r s of
        (s, Inl e) \<Rightarrow> (s, Some e)
      | (s, Inr _) \<Rightarrow> writer_loop to_vec rs s)"

record wire_peer =
  wp_feed :: "8 word feed \<times> nat"
  wp_sink :: "8 word sink"
  wp_sockets :: nat

definition wire_connect ::
    "(request \<Rightarrow> string + bytes) \<Rightarrow> (bytes \<Rightarrow> string + response) \<Rightarrow> string + wire_peer \<Rightarrow> peer_error + wire_peer" where
  "wire_connect to_vec from_slice opened =
     rbind (map_err PeerIo opened) (\<lambda>p.
     case write_request to_vec (Hello 0 proto_version) (wp_sink p) of
       (s, Inl e) \<Rightarrow> Inl e
     | (s, Inr _) \<Rightarrow>
         (case read_response from_slice (wp_feed p) of
            (f, Inl e) \<Rightarrow> Inl e
          | (f, Inr welcome) \<Rightarrow>
              rbind (validate_welcome welcome) (\<lambda>_. Inr (p\<lparr>wp_feed := f, wp_sink := s, wp_sockets := wp_sockets p + 1\<rparr>))))"

section \<open>What was sent is what arrives\<close>

definition feed_ok :: "'a feed \<Rightarrow> bool" where
  "feed_ok f \<longleftrightarrow> (\<forall>x \<in> set f. \<exists>bs. x = Inr bs \<and> bs \<noteq> [])"

definition feed_bytes :: "'a feed \<Rightarrow> 'a list" where
  "feed_bytes f = concat (map (case_sum (\<lambda>_. []) (\<lambda>bs. bs)) f)"

lemma feed_ok_simps [simp]:
  "feed_ok []" "\<not> feed_ok (Inl e # f)" "feed_ok (Inr bs # f) \<longleftrightarrow> bs \<noteq> [] \<and> feed_ok f"
  by (simp_all add: feed_ok_def)

lemma feed_bytes_simps [simp]:
  "feed_bytes [] = []" "feed_bytes (Inl e # f) = feed_bytes f" "feed_bytes (Inr bs # f) = bs @ feed_bytes f"
  by (simp_all add: feed_bytes_def)

lemma feed_ok_Nil_iff: "feed_ok f \<Longrightarrow> feed_bytes f = [] \<longleftrightarrow> f = []"
  by (cases f) (auto simp: feed_ok_def feed_bytes_def)

lemma feed_ok_cases:
  assumes "feed_ok f"
  obtains "f = []" | bs fs where "f = Inr bs # fs" "bs \<noteq> []" "feed_ok fs"
  using assms by (cases f) (auto simp: feed_ok_def)

lemma feed_exact_enough:
  "feed_ok f \<Longrightarrow> n \<le> length (feed_bytes f) \<Longrightarrow>
    \<exists>f'. feed_exact n f = (f', Inr (take n (feed_bytes f))) \<and> feed_ok f' \<and> feed_bytes f' = drop n (feed_bytes f)"
proof (induction n f rule: feed_exact.induct)
  case (3 n bs fs)
  show ?case
  proof (cases "n < length bs")
    case False
    have "n - length bs \<le> length (feed_bytes fs)" "feed_ok fs" "bs \<noteq> []" using "3.prems" by auto
    then obtain f' where "feed_exact (n - length bs) fs = (f', Inr (take (n - length bs) (feed_bytes fs)))" "feed_ok f'"
        "feed_bytes f' = drop (n - length bs) (feed_bytes fs)"
      using "3.IH" [OF False] by blast
    then show ?thesis using False "3.prems"(1) by simp
  qed (use "3.prems" in simp)
qed simp_all

lemma feed_exact_short:
  "feed_ok f \<Longrightarrow> length (feed_bytes f) < n \<Longrightarrow> \<exists>f'. feed_exact n f = (f', Inl UnexpectedEof)"
proof (induction n f rule: feed_exact.induct)
  case (3 n bs fs)
  then obtain f' where "feed_exact (n - length bs) fs = (f', Inl UnexpectedEof)" by fastforce
  then show ?case using "3.prems" by simp
qed simp_all

text \<open>How a run of the codec of \<open>lug-proto\<close> ends, in the words of this reader.\<close>

definition codec_end :: "string codec_error option \<Rightarrow> peer_error" where
  "codec_end err = (case err of None \<Rightarrow> UnexpectedEof | Some (TooLarge n) \<Rightarrow> FrameExceeds n | Some (FrameJson e) \<Rightarrow> PeerJson e)"

text \<open>One frame, read and decoded.\<close>

lemma read_response_decodes:
  assumes "feed_ok f"
  shows "case codec_decode from_slice (feed_bytes f) of
      (rest, Inr (Some v)) \<Rightarrow> \<exists>f' rx'. read_response from_slice (f, rx) = ((f', rx'), Inr v) \<and> feed_ok f' \<and> feed_bytes f' = rest
    | (rest, Inr None) \<Rightarrow> \<exists>f'. read_response from_slice (f, rx) = (f', Inl UnexpectedEof)
    | (rest, Inl e) \<Rightarrow> \<exists>f'. read_response from_slice (f, rx) = (f', Inl (codec_end (Some e)))"
proof (cases "length (feed_bytes f) < 4")
  case True
  with feed_exact_short [OF assms this] show ?thesis
    by (auto simp: codec_decode_def frame_header_def read_response_def read_frame_def)
next
  case False
  then obtain f1 where f1: "feed_exact 4 f = (f1, Inr (take 4 (feed_bytes f)))" "feed_ok f1" "feed_bytes f1 = drop 4 (feed_bytes f)"
    using feed_exact_enough [OF assms, of 4] by auto
  let ?len = "of_be_bytes (take 4 (feed_bytes f))"
  show ?thesis
  proof (cases "max_frame < ?len")
    case True
    then show ?thesis using False f1(1)
      by (simp add: codec_decode_def frame_header_def read_response_def read_frame_def codec_end_def)
  next
    case small: False
    show ?thesis
    proof (cases "length (feed_bytes f) < 4 + ?len")
      case True
      then have "length (feed_bytes f1) < ?len" using f1(3) False by simp
      then obtain f2 where "feed_exact ?len f1 = (f2, Inl UnexpectedEof)" using feed_exact_short [OF f1(2)] by blast
      then show ?thesis using False small True f1(1)
        by (simp add: codec_decode_def frame_header_def read_response_def read_frame_def)
    next
      case whole: False
      then have "?len \<le> length (feed_bytes f1)" using f1(3) False by simp
      then obtain f2 where f2: "feed_exact ?len f1 = (f2, Inr (take ?len (feed_bytes f1)))" "feed_ok f2"
          "feed_bytes f2 = drop ?len (feed_bytes f1)"
        using feed_exact_enough [OF f1(2)] by blast
      then show ?thesis using False small whole f1
        by (cases "from_slice (take ?len (feed_bytes f1))")
          (simp_all add: codec_decode_def frame_header_def read_response_def read_frame_def codec_end_def Let_def)
    qed
  qed
qed

text \<open>
  C19: The load generator's own reader is the codec. Whatever bytes a server sends and however the
  socket cuts them into reads, the reader of a connection reports exactly the frames that the codec
  of lug-proto decodes from those bytes, in order, and then one error that says how the decoding
  ended: a frame beyond the limit, a body that is no frame, or the end of the connection.
\<close>

theorem reader_is_the_codec:
  assumes "feed_ok f" "drain_frames from_slice (feed_bytes f) = (vs, rest, err)" "length vs < heard"
  shows "reader_loop from_slice heard (f, rx) = map Inr vs @ [Inl (codec_end err)]"
  using assms
proof (induction from_slice "feed_bytes f" arbitrary: f vs rest err heard rx rule: drain_frames.induct)
  case (1 from_slice)
  obtain k where k: "heard = Suc k" using "1.prems"(3) by (cases heard) auto
  note one = read_response_decodes [OF "1.prems"(1), of from_slice rx]
  obtain src' d where d: "codec_decode from_slice (feed_bytes f) = (src', d)" by fastforce
  consider e where "d = Inl e" | "d = Inr None" | v where "d = Inr (Some v)" by (cases d) auto
  then show ?case
  proof cases
    case 1
    then have "vs = [] \<and> err = Some e" using "1.prems"(2) d by (simp add: drain_frames.simps [of _ "feed_bytes f"])
    then show ?thesis using one d 1 by (auto simp: k)
  next
    case 2
    then have "vs = [] \<and> err = None" using "1.prems"(2) d by (simp add: drain_frames.simps [of _ "feed_bytes f"])
    then show ?thesis using one d 2 by (auto simp: k codec_end_def)
  next
    case 3
    obtain ws where ws: "drain_frames from_slice src' = (ws, rest, err)" "vs = v # ws"
      using "1.prems"(2) d 3 by (auto simp: drain_frames.simps [of _ "feed_bytes f"] split: prod.splits)
    obtain f' rx' where f': "read_response from_slice (f, rx) = ((f', rx'), Inr v)" "feed_ok f'" "feed_bytes f' = src'"
      using one d 3 by auto
    have decoded: "(feed_bytes f', Inr (Some v)) = codec_decode from_slice (feed_bytes f)" using d 3 f'(3) by simp
    have "reader_loop from_slice k (f', rx') = map Inr ws @ [Inl (codec_end err)]"
      using "1.hyps" [OF decoded refl refl f'(2)] f'(3) ws "1.prems"(3) by (simp add: k)
    then show ?thesis using f'(1) ws(2) by (simp add: k)
  qed
qed

theorem reader_is_the_codec_witness:
  "reader_loop (\<lambda>_. Inr (Pong 7)) 3 ([Inr [0, 0], Inr [0, 1, 65, 0], Inr [0]], 0) = [Inr (Pong 7), Inl UnexpectedEof]"
proof -
  let ?parse = "\<lambda>_. Inr (Pong 7) :: string + response"
  have "drain_frames ?parse [0, 0] = ([], [0, 0], None)" by (subst drain_frames.simps) (simp add: codec_decode_def frame_header_def)
  then have "drain_frames ?parse [0, 0, 0, 1, 65, 0, 0] = ([Pong 7], [0, 0], None)"
    by (subst drain_frames.simps) (simp add: codec_decode_def frame_header_def of_be_bytes_def max_frame_def Let_def)
  then have "drain_frames ?parse (feed_bytes [Inr [0, 0], Inr [0, 1, 65, 0], Inr [0]]) = ([Pong 7], [0, 0], None)" by simp
  from reader_is_the_codec [OF _ this, of 3 0] show ?thesis by (simp add: codec_end_def)
qed

text \<open>The requests of the inbox go out as the frames the codec writes, up to the first that fails.\<close>

lemma writer_writes_frames:
  "list_all2 (\<lambda>r buf. encode_frame to_vec r = Inr buf) rs bufs \<Longrightarrow> sk_faults s = [] \<Longrightarrow>
    writer_loop to_vec rs s = (s\<lparr>sk_out := sk_out s @ concat bufs, sk_tx := sk_tx s + length (concat bufs)\<rparr>, None)"
proof (induction rs bufs arbitrary: s rule: list_all2_induct)
  case (Cons r rs buf bufs)
  let ?s = "s\<lparr>sk_out := sk_out s @ buf, sk_tx := sk_tx s + length buf\<rparr>"
  have "write_request to_vec r s = (?s, Inr ())" using Cons.hyps Cons.prems by (simp add: write_request_def sink_write_def)
  then show ?case using Cons.IH [of ?s] Cons.prems by simp
qed simp

text \<open>A connection is only used after a Welcome of this version.\<close>

lemma wire_connect_welcomed:
  "wire_connect to_vec from_slice opened = Inr p \<Longrightarrow>
    \<exists>q f i n session. opened = Inr q \<and> read_response from_slice (wp_feed q) = (f, Inr (Welcome i proto_version n session)) \<and> 0 < n \<and> wp_feed p = f"
  by (auto simp: wire_connect_def rbind_def validate_welcome_def split: sum.splits prod.splits response.splits if_splits)

end
