(* ===== verification/LoadHttp.thy ===== *)
theory LoadHttp
  imports LoadWire ClientHttp
begin

text \<open>
  \<open>crates/lug-load/src/http.rs\<close>: the load generator's own HTTP client. One connection, read through
  a buffer: lines, heads, the pieces of a body, responses and events; then the task of a peer, which
  calls over one connection and opens another for each stream. \<open>utf8\<close> says which bytes are text and
  \<open>of_json\<close> is serde_json; trimming knows ASCII blanks only.
\<close>

section \<open>A connection\<close>

record load_endpoint =
  le_socket :: string
  le_http :: "string option"
  le_token :: string

record http =
  ht_feed :: "char feed"
  ht_sink :: "char sink"
  ht_rx :: nat
  ht_chunked :: bool
  ht_left :: nat
  ht_remaining :: "nat option"
  ht_ended :: bool
  ht_pending :: string

definition http_open :: "load_endpoint \<Rightarrow> string + char feed \<times> char sink \<Rightarrow> peer_error + http" where
  "http_open e opened =
     (case le_http e of
        None \<Rightarrow> Inl NoAddress
      | Some address \<Rightarrow>
          rbind (map_err PeerIo opened) (\<lambda>(f, s).
            Inr \<lparr>ht_feed = f, ht_sink = s, ht_rx = 0, ht_chunked = False, ht_left = 0, ht_remaining = None, ht_ended = False,
              ht_pending = []\<rparr>))"

text \<open>\<open>line\<close>: what the buffer holds up to a newline, over as many fills as it takes.\<close>

fun line_loop :: "nat \<Rightarrow> string \<Rightarrow> nat \<Rightarrow> char feed \<Rightarrow> char feed \<times> nat \<times> (peer_error + string)" where
  "line_loop limit acc rx [] = ([], rx, Inl EofInLine)"
| "line_loop limit acc rx (Inl e # fs) = (Inl e # fs, rx, Inl (PeerIo e))"
| "line_loop limit acc rx (Inr bs # fs) =
     (if bs = [] then (Inr bs # fs, rx, Inl EofInLine)
      else case take_line bs of (part, rest) \<Rightarrow>
        if limit < length acc + length part then (Inr bs # fs, rx, Inl (LineExceeds limit))
        else if last part = newline then (if rest = [] then fs else Inr rest # fs, rx + length part, Inr (acc @ part))
        else line_loop limit (acc @ part) (rx + length part) fs)"

definition http_line :: "nat \<Rightarrow> http \<Rightarrow> http \<times> (peer_error + string)" where
  "http_line limit h =
     (case line_loop limit [] (ht_rx h) (ht_feed h) of (f, rx, r) \<Rightarrow> (h\<lparr>ht_feed := f, ht_rx := rx\<rparr>, r))"

lemma take_line_rest: "take_line s = (l, rest) \<Longrightarrow> last l \<noteq> newline \<Longrightarrow> rest = []"
proof (induction s arbitrary: l rest)
  case (Cons c s)
  obtain l1 r1 where p: "take_line s = (l1, r1)" by fastforce
  show ?case
  proof (cases "c = newline")
    case True
    then have "l = [newline]" using Cons.prems(1) by simp
    then show ?thesis using Cons.prems(2) by simp
  next
    case False
    then have l: "l = c # l1" "rest = r1" using Cons.prems p by simp_all
    show ?thesis
    proof (cases "l1 = []")
      case True
      then have "s = []" using take_line_length [OF p] by blast
      then show ?thesis using p l by simp
    next
      case False
      then have "last l1 \<noteq> newline" using Cons.prems(2) l by simp
      then show ?thesis using Cons.IH [OF p] l by simp
    qed
  qed
qed simp

lemma take_line_shorter: "take_line s = (l, rest) \<Longrightarrow> newline \<in> set s \<Longrightarrow> length rest < length s"
  using take_line_length [of s l rest] by (cases "s = []") auto

lemma line_loop_takes:
  "line_loop limit acc rx f = (f', rx', Inr l) \<Longrightarrow> \<exists>part. part \<noteq> [] \<and> l = acc @ part \<and> feed_bytes f = part @ feed_bytes f'"
proof (induction limit acc rx f rule: line_loop.induct)
  case (3 limit acc rx bs fs)
  obtain part rest where p: "take_line bs = (part, rest)" by fastforce
  have bs: "bs \<noteq> []" "\<not> limit < length acc + length part" using "3.prems" p by (auto split: if_splits)
  then have parts: "bs = part @ rest" "part \<noteq> []" using take_line_length [OF p] by blast+
  show ?case
  proof (cases "last part = newline")
    case True
    have "feed_bytes (if rest = [] then fs else Inr rest # fs) = rest @ feed_bytes fs" by simp
    moreover have "f' = (if rest = [] then fs else Inr rest # fs)" "l = acc @ part" using "3.prems" p bs True by simp_all
    ultimately show ?thesis using parts by (intro exI [of _ part]) (simp only: feed_bytes_simps append_assoc simp_thms)
  next
    case False
    then have "line_loop limit (acc @ part) (rx + length part) fs = (f', rx', Inr l)" using "3.prems" p bs by simp
    from "3.IH" [OF bs(1) p [symmetric] bs(2) False this] obtain more_part where
        m: "more_part \<noteq> []" "l = (acc @ part) @ more_part" "feed_bytes fs = more_part @ feed_bytes f'" by blast
    have "rest = []" using take_line_rest [OF p False] .
    then show ?thesis using parts m by (intro exI [of _ "part @ more_part"]) (simp only: feed_bytes_simps append_assoc append_Nil2 append_is_Nil_conv simp_thms)
  qed
qed simp_all

lemma http_line_takes: "http_line limit h = (h', Inr l) \<Longrightarrow> l \<noteq> [] \<and> feed_bytes (ht_feed h) = l @ feed_bytes (ht_feed h')"
  by (auto simp: http_line_def split: prod.splits dest!: line_loop_takes)

section \<open>Requests\<close>

definition is_graphic :: "char \<Rightarrow> bool" where
  "is_graphic c \<longleftrightarrow> (let n = (of_char c :: nat) in 33 \<le> n \<and> n \<le> 126)"

definition request_head :: "string \<Rightarrow> string \<Rightarrow> string \<Rightarrow> string \<Rightarrow> string option \<Rightarrow> nat \<Rightarrow> string" where
  "request_head address token verb path session len =
     verb @ '' '' @ path @ '' HTTP/1.1'' @ crlf @ ''Host: '' @ address @ crlf @ ''Authorization: Bearer '' @ token @ crlf @
     ''Content-Type: application/json'' @ crlf @ ''Content-Length: '' @ dec_digits len @ crlf @ ''Connection: keep-alive'' @ crlf @
     (case session of None \<Rightarrow> [] | Some s \<Rightarrow> ''x-lug-session: '' @ s @ crlf) @ crlf"

definition http_header :: "string \<Rightarrow> http \<Rightarrow> peer_error + http" where
  "http_header l h =
     (case split_once (CHR '':'') (trim l) of
        None \<Rightarrow> Inr h
      | Some (name, v) \<Rightarrow>
          rbind (if to_ascii_lowercase name = ''content-length''
                 then (case parse_unsigned u64_max (trim v) of None \<Rightarrow> Inl BadNumber | Some n \<Rightarrow> Inr (h\<lparr>ht_remaining := Some n\<rparr>))
                 else Inr h) (\<lambda>h.
          if to_ascii_lowercase name = ''transfer-encoding''
          then if to_ascii_lowercase (trim v) = ''chunked'' then Inr (h\<lparr>ht_chunked := True\<rparr>) else Inl BadTransferEncoding
          else Inr h))"

lemma http_header_feed: "http_header l h = Inr h' \<Longrightarrow> ht_feed h' = ht_feed h"
  by (auto simp: http_header_def rbind_def split: option.splits if_splits)

function headers_loop :: "(string \<Rightarrow> bool) \<Rightarrow> nat \<Rightarrow> http \<Rightarrow> http \<times> (peer_error + unit)" where
  "headers_loop utf8 seen_bytes h =
     (case http_line 8192 h of
        (h, Inl e) \<Rightarrow> (h, Inl e)
      | (h, Inr l) \<Rightarrow>
          let seen_bytes = seen_bytes + length l in
          if 65536 < seen_bytes then (h, Inl HeadersExceed)
          else if l = crlf then (h, Inr ())
          else if \<not> utf8 l then (h, Inl NotUtf8)
          else case http_header l h of
              Inl e \<Rightarrow> (h, Inl e)
            | Inr h \<Rightarrow> headers_loop utf8 seen_bytes h)"
  by pat_completeness auto

termination
  by (relation "measure (\<lambda>(utf8, n, h). length (feed_bytes (ht_feed h)))")
    (auto dest!: http_line_takes [OF sym] http_header_feed)

declare headers_loop.simps [simp del]

definition http_request ::
    "(string \<Rightarrow> bool) \<Rightarrow> load_endpoint \<Rightarrow> string \<Rightarrow> string \<Rightarrow> string option \<Rightarrow> string \<Rightarrow> http \<Rightarrow> http \<times> (peer_error + unit)" where
  "http_request utf8 e verb path session body h =
     (case le_http e of
        None \<Rightarrow> (h, Inl NoAddress)
      | Some address \<Rightarrow>
          if \<not> (case session of None \<Rightarrow> True | Some s \<Rightarrow> list_all is_graphic s) then (h, Inl InvalidSession)
          else let head = request_head address (le_token e) verb path session (length body) in
          case sink_write head (ht_sink h) of
            (s, Inl err) \<Rightarrow> (h\<lparr>ht_sink := s\<rparr>, Inl err)
          | (s, Inr _) \<Rightarrow>
              (case sink_write body s of
                 (s, Inl err) \<Rightarrow> (h\<lparr>ht_sink := s\<rparr>, Inl err)
               | (s, Inr _) \<Rightarrow>
                   (case http_line 8192 (h\<lparr>ht_sink := s\<lparr>sk_tx := sk_tx s + (length head + length body)\<rparr>\<rparr>) of
                      (h, Inl err) \<Rightarrow> (h, Inl err)
                    | (h, Inr l) \<Rightarrow>
                        if \<not> utf8 l then (h, Inl NotUtf8)
                        else case status_of l of
                            None \<Rightarrow> (h, Inl BadNumber)
                          | Some status \<Rightarrow>
                              if status < 200 \<or> 300 \<le> status then (h, Inl (HttpStatus verb path status))
                              else headers_loop utf8 0
                                (h\<lparr>ht_chunked := False, ht_left := 0, ht_remaining := None, ht_ended := False\<rparr>))))"

section \<open>Bodies\<close>

function trailers_loop :: "nat \<Rightarrow> http \<Rightarrow> http \<times> (peer_error + unit)" where
  "trailers_loop seen_bytes h =
     (case http_line 8192 h of
        (h, Inl e) \<Rightarrow> (h, Inl e)
      | (h, Inr l) \<Rightarrow>
          let seen_bytes = seen_bytes + length l in
          if 65536 < seen_bytes then (h, Inl TrailersExceed)
          else if l = crlf then (h, Inr ())
          else trailers_loop seen_bytes h)"
  by pat_completeness auto

termination
  by (relation "measure (\<lambda>(n, h). length (feed_bytes (ht_feed h)))") (auto dest!: http_line_takes [OF sym])

declare trailers_loop.simps [simp del]

text \<open>The head of a chunk: its length, 0 for the last one, which the trailers follow.\<close>

definition chunk_head :: "(string \<Rightarrow> bool) \<Rightarrow> http \<Rightarrow> http \<times> (peer_error + nat)" where
  "chunk_head utf8 h =
     (case http_line 8192 h of
        (h, Inl e) \<Rightarrow> (h, Inl e)
      | (h, Inr l) \<Rightarrow>
          if \<not> utf8 l then (h, Inl NotUtf8)
          else case parse_hex (split_first (CHR '';'') (trim l)) of
              None \<Rightarrow> (h, Inl BadNumber)
            | Some n \<Rightarrow>
                if n = 0 then
                  (case trailers_loop 0 (h\<lparr>ht_left := 0\<rparr>) of
                     (h, Inl e) \<Rightarrow> (h, Inl e)
                   | (h, Inr _) \<Rightarrow> (h\<lparr>ht_ended := True\<rparr>, Inr 0))
                else (h\<lparr>ht_left := n\<rparr>, Inr n))"

definition piece_read :: "http \<Rightarrow> http \<times> (peer_error + string)" where
  "piece_read h =
     (let available = if ht_chunked h then ht_left h else (case ht_remaining h of Some n \<Rightarrow> n | None \<Rightarrow> 8192) in
      if available = 0 then (h\<lparr>ht_ended := True\<rparr>, Inr [])
      else case feed_read (min available 8192) (ht_feed h) of
          (f, Inl e) \<Rightarrow> (h\<lparr>ht_feed := f\<rparr>, Inl e)
        | (f, Inr bs) \<Rightarrow>
            let h = h\<lparr>ht_feed := f, ht_rx := ht_rx h + length bs\<rparr> in
            if bs = [] then
              if ht_chunked h \<or> ht_remaining h \<noteq> None then (h, Inl TruncatedBody) else (h\<lparr>ht_ended := True\<rparr>, Inr [])
            else if ht_chunked h then
              let h = h\<lparr>ht_left := ht_left h - length bs\<rparr> in
              if ht_left h = 0 then
                (case feed_exact 2 (ht_feed h) of
                   (f, Inl e) \<Rightarrow> (h\<lparr>ht_feed := f\<rparr>, Inl e)
                 | (f, Inr ending) \<Rightarrow>
                     let h = h\<lparr>ht_feed := f, ht_rx := ht_rx h + 2\<rparr> in
                     if ending \<noteq> crlf then (h, Inl BadTerminator) else (h, Inr bs))
              else (h, Inr bs)
            else (h\<lparr>ht_remaining := map_option (\<lambda>n. n - length bs) (ht_remaining h)\<rparr>, Inr bs))"

definition http_piece :: "(string \<Rightarrow> bool) \<Rightarrow> http \<Rightarrow> http \<times> (peer_error + string)" where
  "http_piece utf8 h =
     (if ht_ended h then (h, Inr [])
      else if ht_chunked h \<and> ht_left h = 0 then
        (case chunk_head utf8 h of
           (h, Inl e) \<Rightarrow> (h, Inl e)
         | (h, Inr n) \<Rightarrow> if n = 0 then (h, Inr []) else piece_read h)
      else piece_read h)"

text \<open>A piece was taken off the connection, and nothing else of the reader's memory changed.\<close>

lemma http_line_keeps: "http_line limit h = (h', r) \<Longrightarrow> ht_pending h' = ht_pending h"
  by (auto simp: http_line_def split: prod.splits)

lemma trailers_keep: "trailers_loop n h = (h', r) \<Longrightarrow> ht_pending h' = ht_pending h"
proof (induction n h rule: trailers_loop.induct)
  case (1 n h)
  obtain h1 l where l: "http_line 8192 h = (h1, l)" by fastforce
  show ?case using "1.prems" "1.IH" [OF l [symmetric]] l http_line_keeps [OF l]
    by (auto simp: trailers_loop.simps [of n h] Let_def split: sum.splits if_splits)
qed

lemma feed_read_takes: "feed_read n f = (f', Inr bs) \<Longrightarrow> feed_bytes f = bs @ feed_bytes f' \<and> length bs \<le> n"
  by (auto simp: feed_read_def split: list.splits sum.splits if_splits)

lemma feed_exact_takes: "feed_exact n f = (f', Inr bs) \<Longrightarrow> feed_bytes f = bs @ feed_bytes f'"
  by (induction n f arbitrary: bs rule: feed_exact.induct) (auto split: if_splits prod.splits sum.splits)

lemma piece_read_takes:
  "piece_read h = (h', Inr bs) \<Longrightarrow> length bs \<le> 8192 \<and> length (feed_bytes (ht_feed h')) + length bs \<le> length (feed_bytes (ht_feed h))"
  by (auto simp: piece_read_def Let_def split: if_splits prod.splits sum.splits dest!: feed_read_takes feed_exact_takes)

lemma piece_read_keeps: "piece_read h = (h', r) \<Longrightarrow> ht_pending h' = ht_pending h"
  by (auto simp: piece_read_def Let_def split: if_splits prod.splits sum.splits)

lemma chunk_head_keeps:
  "chunk_head utf8 h = (h', r) \<Longrightarrow> ht_pending h' = ht_pending h"
  by (auto simp: chunk_head_def split: if_splits prod.splits sum.splits option.splits dest!: http_line_keeps trailers_keep)

lemma chunk_head_takes:
  "chunk_head utf8 h = (h', Inr n) \<Longrightarrow> n \<noteq> 0 \<Longrightarrow> length (feed_bytes (ht_feed h')) \<le> length (feed_bytes (ht_feed h))"
  by (auto simp: chunk_head_def split: if_splits prod.splits sum.splits option.splits dest!: http_line_takes)

lemma http_piece_keeps: "http_piece utf8 h = (h', r) \<Longrightarrow> ht_pending h' = ht_pending h"
  by (auto simp: http_piece_def split: if_splits prod.splits sum.splits dest!: chunk_head_keeps piece_read_keeps)

lemma http_piece_takes:
  assumes "http_piece utf8 h = (h', Inr bs)" "bs \<noteq> []"
  shows "length bs \<le> 8192 \<and> length (feed_bytes (ht_feed h')) < length (feed_bytes (ht_feed h))"
proof -
  have shorter: "length bs \<le> 8192 \<and> length (feed_bytes (ht_feed h')) < length (feed_bytes (ht_feed h1))"
    if "piece_read h1 = (h', Inr bs)" for h1
    using piece_read_takes [OF that] assms(2) by (cases bs) auto
  show ?thesis using assms shorter by (fastforce simp: http_piece_def split: if_splits prod.splits sum.splits dest!: chunk_head_takes)
qed

function response_body :: "(string \<Rightarrow> bool) \<Rightarrow> string \<Rightarrow> http \<Rightarrow> http \<times> (peer_error + string)" where
  "response_body utf8 body h =
     (case http_piece utf8 h of
        (h, Inl e) \<Rightarrow> (h, Inl e)
      | (h, Inr part) \<Rightarrow>
          if part = [] then (h, Inr body)
          else if max_frame < length body + length part then (h, Inl ResponseExceeds)
          else response_body utf8 (body @ part) h)"
  by pat_completeness auto

termination
  by (relation "measure (\<lambda>(utf8, body, h). length (feed_bytes (ht_feed h)))") (auto dest!: http_piece_takes [OF sym])

declare response_body.simps [simp del]

definition http_response :: "(string \<Rightarrow> bool) \<Rightarrow> (string \<Rightarrow> string + response) \<Rightarrow> http \<Rightarrow> http \<times> (peer_error + response)" where
  "http_response utf8 of_json h =
     (case response_body utf8 [] h of
        (h, Inl e) \<Rightarrow> (h, Inl e)
      | (h, Inr body) \<Rightarrow> (h, map_err PeerJson (of_json body)))"

section \<open>Events\<close>

function http_event :: "(string \<Rightarrow> bool) \<Rightarrow> (string \<Rightarrow> string + response) \<Rightarrow> http \<Rightarrow> http \<times> (peer_error + response)" where
  "http_event utf8 of_json h =
     (if newline \<in> set (ht_pending h) then
        (case take_line (ht_pending h) of (l, rest) \<Rightarrow>
           case strip_prefix ''data:'' l of
             Some data \<Rightarrow> (h\<lparr>ht_pending := rest\<rparr>, map_err PeerJson (of_json data))
           | None \<Rightarrow> http_event utf8 of_json (h\<lparr>ht_pending := rest\<rparr>))
      else
        case http_piece utf8 h of
          (h, Inl e) \<Rightarrow> (h, Inl e)
        | (h, Inr part) \<Rightarrow>
            if part = [] then (h, Inl StreamEnded)
            else if max_frame + 8192 < length (ht_pending h) + length part then (h, Inl SseLineExceeds)
            else http_event utf8 of_json (h\<lparr>ht_pending := ht_pending h @ part\<rparr>))"
  by pat_completeness auto

termination
  by (relation "measures [\<lambda>(utf8, j, h). length (feed_bytes (ht_feed h)), \<lambda>(utf8, j, h). length (ht_pending h)]")
    (auto dest!: http_piece_takes [OF sym] dest: take_line_shorter [OF sym])

declare http_event.simps [simp del]

definition http_call ::
    "(string \<Rightarrow> bool) \<Rightarrow> (string \<Rightarrow> string + response) \<Rightarrow> (request \<Rightarrow> string + string) \<Rightarrow> load_endpoint \<Rightarrow> string option \<Rightarrow> request \<Rightarrow> http \<Rightarrow>
     http \<times> (peer_error + response)" where
  "http_call utf8 of_json to_vec e session req h =
     (case to_vec req of
        Inl err \<Rightarrow> (h, Inl (PeerJson err))
      | Inr body \<Rightarrow>
          (case http_request utf8 e ''POST'' ''/v1/call'' session body h of
             (h, Inl err) \<Rightarrow> (h, Inl err)
           | (h, Inr _) \<Rightarrow> http_response utf8 of_json h))"


section \<open>The task of a peer\<close>

definition load_query :: "string \<Rightarrow> string" where
  "load_query s =
     concat (map (\<lambda>c. if is_ascii_alphanumeric c \<or> c \<in> set ''-._~'' then [c]
       else [CHR ''%'', upper_hex (of_char c div 16), upper_hex (of_char c mod 16)]) s)"

definition load_stream_path :: "id \<Rightarrow> string \<Rightarrow> version \<Rightarrow> mode \<Rightarrow> nat \<Rightarrow> string" where
  "load_stream_path i name from_version m credit =
     ''/v1/stream?id='' @ dec_digits i @ ''&log='' @ load_query name @ ''&from='' @ dec_digits from_version @ ''&mode='' @
     (case m of Records \<Rightarrow> ''records'' | Reducible \<Rightarrow> ''reducible'') @ ''&credit='' @ dec_digits credit"

text \<open>Opening a stream, up to the session in its Welcome.\<close>

definition open_stream ::
    "(string \<Rightarrow> bool) \<Rightarrow> (string \<Rightarrow> string + response) \<Rightarrow> load_endpoint \<Rightarrow> id \<Rightarrow> string \<Rightarrow> http \<Rightarrow> peer_error + http \<times> string" where
  "open_stream utf8 of_json e i path s =
     (case http_request utf8 e ''GET'' path None [] s of
        (s, Inl err) \<Rightarrow> Inl err
      | (s, Inr _) \<Rightarrow>
          (case http_event utf8 of_json s of
             (s, Inl err) \<Rightarrow> Inl err
           | (s, Inr welcome) \<Rightarrow>
               rbind (validate_welcome welcome) (\<lambda>_.
               if resp_id welcome \<noteq> i then Inl WrongStreamId
               else case welcome of
                   Welcome _ _ _ (Some session) \<Rightarrow> Inr (s, session)
                 | _ \<Rightarrow> Inl SessionOmitted)))"

text \<open>
  A peer: its connection for calls, the session and the stream of each subscription, the streams that
  run, what it put on the channel of events, and the sockets it opened. When its task ends the
  streams end with it. \<open>listening\<close> says whether the channel still has a receiver.
\<close>

record load_peer =
  lp_call :: http
  lp_sessions :: "(id, string \<times> nat) btree_map"
  lp_streams :: "http option list"
  lp_events :: "(peer_error + response) list"
  lp_sockets :: nat
  lp_over :: bool

definition peer_end :: "load_peer \<Rightarrow> load_peer" where
  "peer_end p = p\<lparr>lp_over := True, lp_sessions := [], lp_streams := map (\<lambda>_. None) (lp_streams p)\<rparr>"

definition peer_failed :: "bool \<Rightarrow> peer_error \<Rightarrow> load_peer \<Rightarrow> load_peer" where
  "peer_failed listening err p = peer_end (if listening then p\<lparr>lp_events := lp_events p @ [Inl err]\<rparr> else p)"

definition peer_subscribe ::
    "(string \<Rightarrow> bool) \<Rightarrow> (string \<Rightarrow> string + response) \<Rightarrow> load_endpoint \<Rightarrow> bool \<Rightarrow> string + char feed \<times> char sink \<Rightarrow>
     id \<Rightarrow> string \<Rightarrow> load_peer \<Rightarrow> load_peer" where
  "peer_subscribe utf8 of_json e listening opened i path p =
     (case http_open e opened of
        Inl err \<Rightarrow> peer_failed listening err p
      | Inr s \<Rightarrow>
          let p = p\<lparr>lp_sockets := lp_sockets p + 1\<rparr> in
          case open_stream utf8 of_json e i path s of
            Inl err \<Rightarrow> peer_failed listening err p
          | Inr (s, session) \<Rightarrow>
              if \<not> listening then peer_failed listening ReceiverClosed p
              else p\<lparr>lp_events := lp_events p @ [Inr (OkFrame i)], lp_streams := lp_streams p @ [Some s],
                lp_sessions := bt_insert i (session, length (lp_streams p)) (lp_sessions p)\<rparr>)"

text \<open>A call goes out under the session of its stream; Cancel gives the stream up first.\<close>

definition peer_release :: "request \<Rightarrow> load_peer \<Rightarrow> load_peer \<times> string option" where
  "peer_release req p =
     (case bt_get (lp_sessions p) (req_id req) of
        None \<Rightarrow> (p, None)
      | Some (session, k) \<Rightarrow>
          (case req of
             Cancel i \<Rightarrow> (p\<lparr>lp_sessions := bt_remove i (lp_sessions p), lp_streams := (lp_streams p)[k := None]\<rparr>, Some session)
           | _ \<Rightarrow> (p, Some session)))"

definition peer_call ::
    "(string \<Rightarrow> bool) \<Rightarrow> (string \<Rightarrow> string + response) \<Rightarrow> (request \<Rightarrow> string + string) \<Rightarrow> load_endpoint \<Rightarrow> bool \<Rightarrow> request \<Rightarrow>
     load_peer \<Rightarrow> load_peer" where
  "peer_call utf8 of_json to_vec e listening req p =
     (case peer_release req p of
        (p, session) \<Rightarrow>
          (case http_call utf8 of_json to_vec e session req (lp_call p) of
             (c, Inl err) \<Rightarrow> peer_failed listening err (p\<lparr>lp_call := c\<rparr>)
           | (c, Inr r) \<Rightarrow>
               if listening then p\<lparr>lp_call := c, lp_events := lp_events p @ [Inr r]\<rparr> else peer_end (p\<lparr>lp_call := c\<rparr>)))"

definition peer_request ::
    "(string \<Rightarrow> bool) \<Rightarrow> (string \<Rightarrow> string + response) \<Rightarrow> (request \<Rightarrow> string + string) \<Rightarrow> load_endpoint \<Rightarrow> bool \<Rightarrow>
     string + char feed \<times> char sink \<Rightarrow> request \<Rightarrow> load_peer \<Rightarrow> load_peer" where
  "peer_request utf8 of_json to_vec e listening opened req p =
     (case req of
        Subscribe i name from_version m credit \<Rightarrow>
          peer_subscribe utf8 of_json e listening opened i (load_stream_path i name from_version m credit) p
      | _ \<Rightarrow> peer_call utf8 of_json to_vec e listening req p)"

text \<open>A stream's task reads its next event and passes it on; a final one or an error is its last.\<close>

definition stream_event :: "(string \<Rightarrow> bool) \<Rightarrow> (string \<Rightarrow> string + response) \<Rightarrow> bool \<Rightarrow> nat \<Rightarrow> load_peer \<Rightarrow> load_peer" where
  "stream_event utf8 of_json listening k p =
     (case lp_streams p ! k of
        None \<Rightarrow> p
      | Some s \<Rightarrow>
          (case http_event utf8 of_json s of
             (s, r) \<Rightarrow>
               let over = (case r of Inl _ \<Rightarrow> True | Inr x \<Rightarrow> is_final x) in
               if listening then p\<lparr>lp_events := lp_events p @ [r], lp_streams := (lp_streams p)[k := if over then None else Some s]\<rparr>
               else p\<lparr>lp_streams := (lp_streams p)[k := None]\<rparr>))"

datatype peer_event =
    TakesRequest bool "string + char feed \<times> char sink" request
  | StreamReads bool nat
  | InboxCloses

fun peer_step ::
    "(string \<Rightarrow> bool) \<Rightarrow> (string \<Rightarrow> string + response) \<Rightarrow> (request \<Rightarrow> string + string) \<Rightarrow> load_endpoint \<Rightarrow> peer_event \<Rightarrow>
     load_peer \<Rightarrow> load_peer" where
  "peer_step utf8 of_json to_vec e (TakesRequest listening opened req) p =
     (if lp_over p then p else peer_request utf8 of_json to_vec e listening opened req p)"
| "peer_step utf8 of_json to_vec e (StreamReads listening k) p =
     (if k < length (lp_streams p) then stream_event utf8 of_json listening k p else p)"
| "peer_step utf8 of_json to_vec e InboxCloses p = peer_end p"

definition http_connect ::
    "(string \<Rightarrow> bool) \<Rightarrow> (string \<Rightarrow> string + response) \<Rightarrow> (request \<Rightarrow> string + string) \<Rightarrow> load_endpoint \<Rightarrow>
     string + char feed \<times> char sink \<Rightarrow> peer_error + load_peer" where
  "http_connect utf8 of_json to_vec e opened =
     rbind (http_open e opened) (\<lambda>h.
     case http_call utf8 of_json to_vec e None (Hello 0 proto_version) h of
       (h, Inl err) \<Rightarrow> Inl err
     | (h, Inr welcome) \<Rightarrow>
         rbind (validate_welcome welcome) (\<lambda>_.
           Inr \<lparr>lp_call = h, lp_sessions = [], lp_streams = [], lp_events = [], lp_sockets = 1, lp_over = False\<rparr>))"


section \<open>Lines, however they arrive\<close>

lemma take_line_none: "newline \<notin> set s \<Longrightarrow> take_line s = (s, [])"
  by (induction s) auto

lemma last_not_newline: "newline \<notin> set s \<Longrightarrow> s \<noteq> [] \<Longrightarrow> last s \<noteq> newline"
  using last_in_set by metis

text \<open>What \<open>line\<close> is, on the bytes of the connection: how the socket cuts them does not matter.\<close>

definition line_of :: "nat \<Rightarrow> string \<Rightarrow> peer_error + string" where
  "line_of limit s =
     (case take_line s of (l, _) \<Rightarrow>
       if limit < length l then Inl (LineExceeds limit) else if newline \<in> set l then Inr l else Inl EofInLine)"

lemma take_line_found: "newline \<in> set s \<Longrightarrow> \<exists>l rest. s = l @ newline # rest \<and> newline \<notin> set l"
  by (rule split_list_first)

lemma first_line_unique:
  "l1 @ newline # a = l2 @ newline # b \<Longrightarrow> newline \<notin> set l1 \<Longrightarrow> newline \<notin> set l2 \<Longrightarrow> l1 = l2 \<and> a = b"
  using take_line_split [of l1 a] take_line_split [of l2 b] by (metis Pair_inject append1_eq_conv)

lemma first_line_later:
  assumes "bs @ w = l @ newline # rest" "newline \<notin> set bs"
  shows "\<exists>l2. l = bs @ l2 \<and> w = l2 @ newline # rest"
proof -
  obtain us where "bs = l @ us \<and> us @ w = newline # rest \<or> bs @ us = l \<and> w = us @ newline # rest"
    using assms(1) by (auto simp: append_eq_append_conv2)
  then show ?thesis
  proof
    assume us: "bs = l @ us \<and> us @ w = newline # rest"
    then have "us = []" using assms(2) by (cases us) auto
    then show ?thesis using us by (intro exI [of _ "[]"]) simp
  qed auto
qed

lemma line_loop_split:
  assumes "feed_ok f" "newline \<notin> set l" "feed_bytes f = l @ newline # rest" "length acc + length l < limit"
  shows "\<exists>f' rx'. line_loop limit acc rx f = (f', rx', Inr (acc @ l @ [newline])) \<and> feed_ok f' \<and> feed_bytes f' = rest"
  using assms
proof (induction f arbitrary: acc rx l)
  case (Cons x fs)
  obtain bs where x: "x = Inr bs" "bs \<noteq> []" "feed_ok fs" using Cons.prems(1) by (cases x) auto
  have wire: "bs @ feed_bytes fs = l @ newline # rest" using Cons.prems(3) x by simp
  show ?case
  proof (cases "newline \<in> set bs")
    case True
    then obtain l1 r1 where bs: "bs = l1 @ newline # r1" "newline \<notin> set l1" using take_line_found by blast
    then have "l1 = l" "r1 @ feed_bytes fs = rest"
      using wire Cons.prems(2) first_line_unique [of l1 "r1 @ feed_bytes fs" l rest] by auto
    then show ?thesis using x(2,3) bs Cons.prems(4) by (cases "r1 = []") (simp_all add: x(1) take_line_split)
  next
    case False
    obtain l2 where l2: "l = bs @ l2" "feed_bytes fs = l2 @ newline # rest" using first_line_later [OF wire False] by blast
    have "line_loop limit acc rx (x # fs) = line_loop limit (acc @ bs) (rx + length bs) fs"
      using x(2) False last_not_newline [OF False] Cons.prems(4) l2(1) by (simp add: x(1) take_line_none)
    then show ?thesis using Cons.IH [OF x(3) _ l2(2), of "acc @ bs" "rx + length bs"] Cons.prems(2,4) l2(1) by auto
  qed
qed simp

lemma line_loop_none:
  assumes "feed_ok f" "newline \<notin> set (feed_bytes f)" "length acc \<le> limit"
  shows "\<exists>f' rx'. line_loop limit acc rx f = (f', rx', Inl (if limit < length acc + length (feed_bytes f) then LineExceeds limit else EofInLine))"
  using assms
proof (induction f arbitrary: acc rx)
  case (Cons x fs)
  obtain bs where x: "x = Inr bs" "bs \<noteq> []" "feed_ok fs" using Cons.prems(1) by (cases x) auto
  have no: "newline \<notin> set bs" "newline \<notin> set (feed_bytes fs)" using Cons.prems(2) x(1) by auto
  show ?case
  proof (cases "limit < length acc + length bs")
    case False
    then show ?thesis using Cons.IH [OF x(3) no(2), of "acc @ bs" "rx + length bs"] x(2) last_not_newline [OF no(1) x(2)]
      by (auto simp: x(1) take_line_none [OF no(1)] add.assoc)
  qed (use x(2) in \<open>simp add: x(1) take_line_none [OF no(1)]\<close>)
qed simp

lemma line_loop_long:
  assumes "feed_ok f" "newline \<notin> set l" "feed_bytes f = l @ newline # rest" "length acc \<le> limit" "limit \<le> length acc + length l"
  shows "\<exists>f' rx'. line_loop limit acc rx f = (f', rx', Inl (LineExceeds limit))"
  using assms
proof (induction f arbitrary: acc rx l)
  case (Cons x fs)
  obtain bs where x: "x = Inr bs" "bs \<noteq> []" "feed_ok fs" using Cons.prems(1) by (cases x) auto
  have wire: "bs @ feed_bytes fs = l @ newline # rest" using Cons.prems(3) x by simp
  show ?case
  proof (cases "newline \<in> set bs")
    case True
    then obtain l1 r1 where bs: "bs = l1 @ newline # r1" "newline \<notin> set l1" using take_line_found by blast
    then have "l1 = l" using wire Cons.prems(2) first_line_unique [of l1 "r1 @ feed_bytes fs" l rest] by auto
    then show ?thesis using x(2) bs Cons.prems(5) by (simp add: x(1) take_line_split)
  next
    case no: False
    then obtain l2 where l: "l = bs @ l2" "feed_bytes fs = l2 @ newline # rest" using first_line_later [OF wire] by blast
    show ?thesis
    proof (cases "limit < length acc + length bs")
      case False
      then show ?thesis
        using Cons.IH [OF x(3) _ l(2), of "acc @ bs" "rx + length bs"] x(2) Cons.prems(2,5) l(1) last_not_newline [OF no x(2)]
        by (simp add: x(1) take_line_none [OF no])
    qed (use x(2) in \<open>simp add: x(1) take_line_none [OF no]\<close>)
  qed
qed simp

lemma line_is_of_the_bytes:
  assumes "feed_ok f"
  shows "\<exists>f' rx'. line_loop limit [] rx f = (f', rx', line_of limit (feed_bytes f))"
proof (cases "newline \<in> set (feed_bytes f)")
  case True
  then obtain l rest where l: "feed_bytes f = l @ newline # rest" "newline \<notin> set l" using take_line_found by blast
  then show ?thesis using line_loop_split [OF assms l(2,1), of "[]" limit rx] line_loop_long [OF assms l(2,1), of "[]" limit rx]
    by (cases "length l < limit") (auto simp: line_of_def take_line_split)
next
  case False
  then show ?thesis using line_loop_none [OF assms False, of "[]" limit rx] by (auto simp: line_of_def take_line_none)
qed


section \<open>Bodies, however they are cut\<close>

text \<open>
  A connection at a place in a body that has still to show \<open>s\<close>, before the bytes of whatever comes
  \<open>later\<close>: in chunks, or up to its length.
\<close>

definition framed :: "http \<Rightarrow> string \<Rightarrow> string \<Rightarrow> bool" where
  "framed h s later \<longleftrightarrow> feed_ok (ht_feed h) \<and> \<not> ht_ended h \<and>
     (if ht_chunked h then
        \<exists>a cs. s = a @ concat cs \<and> length a = ht_left h \<and> [] \<notin> set cs \<and> (\<forall>c \<in> set cs. length c \<le> u64_max) \<and>
          feed_bytes (ht_feed h) = (if a = [] then [] else a @ crlf) @ chunked_text cs @ later
      else ht_remaining h = Some (length s) \<and> feed_bytes (ht_feed h) = s @ later)"

lemma http_line_reads:
  assumes "feed_ok (ht_feed h)" "newline \<notin> set l" "feed_bytes (ht_feed h) = l @ newline # rest" "length l < limit"
  shows "\<exists>f rx. http_line limit h = (h\<lparr>ht_feed := f, ht_rx := rx\<rparr>, Inr (l @ [newline])) \<and> feed_ok f \<and> feed_bytes f = rest"
proof -
  obtain f rx where "line_loop limit [] (ht_rx h) (ht_feed h) = (f, rx, Inr (l @ [newline]))" "feed_ok f" "feed_bytes f = rest"
    using line_loop_split [OF assms(1-3), of "[]" limit "ht_rx h"] assms(4) by auto
  then show ?thesis by (intro exI [of _ f] exI [of _ rx]) (simp add: http_line_def)
qed

lemma hex_line:
  assumes "n \<le> u64_max"
  shows "newline \<notin> set (hex_of n @ [carriage])" "length (hex_of n @ [carriage]) < 8192"
    "parse_hex (split_first (CHR '';'') (trim (hex_of n @ [carriage, newline]))) = Some n"
proof -
  show "newline \<notin> set (hex_of n @ [carriage])" using hex_of_chars [of newline n] by auto
  have "n < 16 ^ 16" using assms by (simp add: u64_max_def)
  from hex_of_length [OF this] show "length (hex_of n @ [carriage]) < 8192" by simp
  have "split_first (CHR '';'') (hex_of n) = hex_of n" using hex_of_chars by (intro split_first_absent) auto
  moreover have "trim (hex_of n @ crlf) = hex_of n" using hex_of_chars [of _ n] by (intro trim_line) auto
  ultimately show "parse_hex (split_first (CHR '';'') (trim (hex_of n @ [carriage, newline]))) = Some n"
    using parse_hex_of [OF assms] by (simp add: crlf_def)
qed

lemma chunk_line:
  assumes "feed_ok (ht_feed h)" "feed_bytes (ht_feed h) = hex_of n @ crlf @ rest" "n \<le> u64_max"
  shows "\<exists>f rx. http_line 8192 h = (h\<lparr>ht_feed := f, ht_rx := rx\<rparr>, Inr (hex_of n @ crlf)) \<and> feed_ok f \<and> feed_bytes f = rest"
  using http_line_reads [OF assms(1) hex_line(1) [OF assms(3)], of rest 8192] assms(2) hex_line(2) [OF assms(3)]
  by (auto simp: crlf_def)

lemma chunk_head_next:
  assumes "feed_ok (ht_feed h)" "feed_bytes (ht_feed h) = chunked_text (c # cs) @ later" "c \<noteq> []" "length c \<le> u64_max"
    and "\<forall>n. utf8 (hex_of n @ crlf)"
  shows "\<exists>f rx. chunk_head utf8 h = (h\<lparr>ht_feed := f, ht_rx := rx, ht_left := length c\<rparr>, Inr (length c)) \<and> feed_ok f \<and>
    feed_bytes f = c @ crlf @ chunked_text cs @ later"
proof -
  have "feed_bytes (ht_feed h) = hex_of (length c) @ crlf @ (c @ crlf @ chunked_text cs @ later)"
    using assms(2) by (simp add: chunked_text_def chunk_text_def)
  from chunk_line [OF assms(1) this assms(4)] obtain f rx where
      "http_line 8192 h = (h\<lparr>ht_feed := f, ht_rx := rx\<rparr>, Inr (hex_of (length c) @ crlf))" "feed_ok f" "feed_bytes f = c @ crlf @ chunked_text cs @ later"
    by blast
  then show ?thesis using assms(3,5) hex_line(3) [OF assms(4)]
    by (intro exI [of _ f] exI [of _ rx]) (simp add: chunk_head_def crlf_def)
qed

lemma hex_of_0: "hex_of 0 = ''0''"
  by (simp add: hex_of.simps) code_simp

lemma chunk_head_last:
  assumes "feed_ok (ht_feed h)" "feed_bytes (ht_feed h) = chunked_text [] @ later" "\<forall>n. utf8 (hex_of n @ crlf)"
  shows "\<exists>f rx. chunk_head utf8 h = (h\<lparr>ht_feed := f, ht_rx := rx, ht_left := 0, ht_ended := True\<rparr>, Inr 0) \<and> feed_ok f \<and> feed_bytes f = later"
proof -
  have "feed_bytes (ht_feed h) = hex_of 0 @ crlf @ (crlf @ later)" using assms(2) by (simp add: chunked_text_def hex_of_0)
  from chunk_line [OF assms(1) this] obtain f rx where f: "http_line 8192 h = (h\<lparr>ht_feed := f, ht_rx := rx\<rparr>, Inr (hex_of 0 @ crlf))"
      "feed_ok f" "feed_bytes f = [carriage] @ newline # later" by (auto simp: crlf_def)
  let ?h = "h\<lparr>ht_feed := f, ht_rx := rx, ht_left := 0\<rparr>"
  obtain f' rx' where f': "http_line 8192 ?h = (?h\<lparr>ht_feed := f', ht_rx := rx'\<rparr>, Inr [carriage, newline])" "feed_ok f'" "feed_bytes f' = later"
    using http_line_reads [of ?h "[carriage]" later 8192] f(2,3) by auto
  have "trailers_loop 0 ?h = (?h\<lparr>ht_feed := f', ht_rx := rx'\<rparr>, Inr ())"
    using f'(1) by (subst trailers_loop.simps) (simp add: crlf_def)
  then have "chunk_head utf8 h = (h\<lparr>ht_feed := f', ht_rx := rx', ht_left := 0, ht_ended := True\<rparr>, Inr 0)"
    using f(1) assms(3) hex_line(3) [of 0] by (simp add: chunk_head_def crlf_def)
  then show ?thesis using f'(2,3) by blast
qed

lemma feed_read_some:
  assumes "feed_ok f" "feed_bytes f \<noteq> []" "0 < n"
  shows "\<exists>f' bs. feed_read n f = (f', Inr bs) \<and> bs \<noteq> [] \<and> length bs \<le> n \<and> feed_ok f' \<and> feed_bytes f = bs @ feed_bytes f'"
  using assms(1)
proof (cases rule: feed_ok_cases)
  case (2 bs fs)
  then show ?thesis using assms(3) by (auto simp: feed_read_def)
qed (use assms in simp)

lemma append_longer:
  assumes "a @ x = b @ y" "length b \<le> length a"
  shows "a = b @ drop (length b) a" "y = drop (length b) a @ x"
proof -
  obtain us where "a = b @ us" "us @ x = y \<or> us = [] \<and> x = y"
    using assms by (auto simp: append_eq_append_conv2)
  then show "a = b @ drop (length b) a" "y = drop (length b) a @ x" by auto
qed

text \<open>The piece at a chunk that has bytes left, or at a body with a length.\<close>

lemma piece_read_chunk:
  assumes "feed_ok (ht_feed h)" "ht_chunked h" "length a = ht_left h" "a \<noteq> []"
    and "feed_bytes (ht_feed h) = a @ crlf @ rest"
  shows "\<exists>f rx bs a'. piece_read h = (h\<lparr>ht_feed := f, ht_rx := rx, ht_left := length a'\<rparr>, Inr bs) \<and> bs \<noteq> [] \<and> a = bs @ a' \<and> feed_ok f \<and>
    feed_bytes f = (if a' = [] then [] else a' @ crlf) @ rest"
proof -
  let ?n = "min (ht_left h) 8192"
  have left: "0 < ht_left h" using assms(3,4) by (cases a) auto
  then obtain f bs where f: "feed_read ?n (ht_feed h) = (f, Inr bs)" "bs \<noteq> []" "length bs \<le> ?n" "feed_ok f"
      "a @ crlf @ rest = bs @ feed_bytes f"
    using feed_read_some [OF assms(1), of ?n] assms(4,5) by auto
  define a' where "a' = drop (length bs) a"
  have "length bs \<le> length a" using f(3) assms(3) by simp
  then have a: "a = bs @ a'" "feed_bytes f = a' @ crlf @ rest"
    using append_longer [OF f(5)] by (simp_all add: a'_def)
  show ?thesis
  proof (cases "a' = []")
    case True
    then have two: "2 \<le> length (feed_bytes f)" "take 2 (feed_bytes f) = crlf" "drop 2 (feed_bytes f) = rest"
      using a(2) by (simp_all add: crlf_def)
    obtain f' where f': "feed_exact 2 f = (f', Inr crlf)" "feed_ok f'" "feed_bytes f' = rest"
      using feed_exact_enough [OF f(4) two(1)] two(2,3) by auto
    have "ht_left h - length bs = 0" using a(1) True assms(3) by simp
    then have "piece_read h = (h\<lparr>ht_feed := f', ht_rx := ht_rx h + length bs + 2, ht_left := 0\<rparr>, Inr bs)"
      using left f(1,2) f'(1) assms(2) by (simp add: piece_read_def)
    then show ?thesis using f'(2,3) f(2) a(1) True by (intro exI [of _ "[]"] exI) auto
  next
    case False
    have "ht_left h - length bs = length a'" using a(1) assms(3) by simp
    then have "piece_read h = (h\<lparr>ht_feed := f, ht_rx := ht_rx h + length bs, ht_left := length a'\<rparr>, Inr bs)"
      using left f(1,2) False assms(2) by (simp add: piece_read_def)
    then show ?thesis using f(2,4) a False by (intro exI [of _ a'] exI) auto
  qed
qed

lemma piece_of_text:
  assumes "framed h s later" "s \<noteq> []" "\<forall>n. utf8 (hex_of n @ crlf)"
  shows "\<exists>h' bs s'. http_piece utf8 h = (h', Inr bs) \<and> bs \<noteq> [] \<and> s = bs @ s' \<and> framed h' s' later"
proof (cases "ht_chunked h")
  case True
  obtain a cs where cs: "s = a @ concat cs" "length a = ht_left h" "[] \<notin> set cs" "\<forall>c \<in> set cs. length c \<le> u64_max"
      "feed_bytes (ht_feed h) = (if a = [] then [] else a @ crlf) @ chunked_text cs @ later" "feed_ok (ht_feed h)" "\<not> ht_ended h"
    using assms(1) True by (auto simp: framed_def)
  show ?thesis
  proof (cases "a = []")
    case False
    from piece_read_chunk [OF cs(6) True cs(2) False, of "chunked_text cs @ later"] cs(5) False
    obtain f rx bs a' where p: "piece_read h = (h\<lparr>ht_feed := f, ht_rx := rx, ht_left := length a'\<rparr>, Inr bs)" "bs \<noteq> []" "a = bs @ a'"
        "feed_ok f" "feed_bytes f = (if a' = [] then [] else a' @ crlf) @ chunked_text cs @ later" by auto
    have "ht_left h \<noteq> 0" using cs(2) False by (cases a) auto
    then have "http_piece utf8 h = piece_read h" using cs(7) by (simp add: http_piece_def)
    moreover have "framed (h\<lparr>ht_feed := f, ht_rx := rx, ht_left := length a'\<rparr>) (a' @ concat cs) later"
      using True cs(3,4,7) p(4,5) by (auto simp: framed_def)
    ultimately show ?thesis using p(1-3) cs(1) by auto
  next
    case none: True
    then obtain c cs' where c: "cs = c # cs'" "c \<noteq> []" "length c \<le> u64_max" using assms(2) cs(1,3,4) by (cases cs) auto
    obtain f rx where head: "chunk_head utf8 h = (h\<lparr>ht_feed := f, ht_rx := rx, ht_left := length c\<rparr>, Inr (length c))" "feed_ok f"
        "feed_bytes f = c @ crlf @ chunked_text cs' @ later"
      using chunk_head_next [OF cs(6) _ c(2,3) assms(3), of cs' later] cs(5) none c(1) by auto
    let ?h = "h\<lparr>ht_feed := f, ht_rx := rx, ht_left := length c\<rparr>"
    obtain f' rx' bs a' where p: "piece_read ?h = (?h\<lparr>ht_feed := f', ht_rx := rx', ht_left := length a'\<rparr>, Inr bs)" "bs \<noteq> []" "c = bs @ a'"
        "feed_ok f'" "feed_bytes f' = (if a' = [] then [] else a' @ crlf) @ chunked_text cs' @ later"
    proof -
      have "\<exists>f' rx' bs a'. piece_read ?h = (?h\<lparr>ht_feed := f', ht_rx := rx', ht_left := length a'\<rparr>, Inr bs) \<and> bs \<noteq> [] \<and> c = bs @ a' \<and>
          feed_ok f' \<and> feed_bytes f' = (if a' = [] then [] else a' @ crlf) @ chunked_text cs' @ later"
        by (rule piece_read_chunk) (use head(2,3) True c(2) in simp_all)
      then show thesis using that by blast
    qed
    have "http_piece utf8 h = piece_read ?h" using cs(2,7) none True head(1) c(2) by (simp add: http_piece_def)
    moreover have "framed (?h\<lparr>ht_feed := f', ht_rx := rx', ht_left := length a'\<rparr>) (a' @ concat cs') later"
      using True cs(3,4,7) p(4,5) c(1) by (auto simp: framed_def)
    ultimately show ?thesis using p(1-3) cs(1) none c(1) by auto
  qed
next
  case False
  then have h: "feed_ok (ht_feed h)" "\<not> ht_ended h" "ht_remaining h = Some (length s)" "feed_bytes (ht_feed h) = s @ later"
    using assms(1) by (simp_all add: framed_def)
  have room: "0 < min (length s) 8192" using assms(2) by (cases s) auto
  have "feed_bytes (ht_feed h) \<noteq> []" using h(4) assms(2) by simp
  from feed_read_some [OF h(1) this room] obtain f bs where f: "feed_read (min (length s) 8192) (ht_feed h) = (f, Inr bs)" "bs \<noteq> []" "length bs \<le> min (length s) 8192"
      "feed_ok f" "s @ later = bs @ feed_bytes f"
    using h(4) by auto
  have s: "s = bs @ drop (length bs) s" "feed_bytes f = drop (length bs) s @ later"
    using append_longer [OF f(5)] f(3) by simp_all
  let ?h = "h\<lparr>ht_feed := f, ht_rx := ht_rx h + length bs, ht_remaining := Some (length s - length bs)\<rparr>"
  have "http_piece utf8 h = (?h, Inr bs)" using False h f(1,2) assms(2) by (simp add: http_piece_def piece_read_def)
  moreover have "framed ?h (drop (length bs) s) later" using False h(2) f(4) s(2) by (simp add: framed_def)
  ultimately show ?thesis using f(2) s(1) by blast
qed

lemma piece_at_end:
  assumes "framed h [] later" "\<forall>n. utf8 (hex_of n @ crlf)"
  shows "\<exists>h'. http_piece utf8 h = (h', Inr []) \<and> feed_ok (ht_feed h') \<and> feed_bytes (ht_feed h') = later"
proof (cases "ht_chunked h")
  case True
  obtain cs where cs: "concat cs = []" "ht_left h = 0" "[] \<notin> set cs" "feed_bytes (ht_feed h) = chunked_text cs @ later" "feed_ok (ht_feed h)" "\<not> ht_ended h"
    using assms(1) True by (auto simp: framed_def)
  then have "cs = []" by (cases cs) auto
  then show ?thesis using chunk_head_last [OF cs(5) _ assms(2), of later] cs True by (auto simp: http_piece_def)
next
  case False
  then show ?thesis using assms(1) by (simp add: framed_def http_piece_def piece_read_def)
qed


section \<open>Events, however they are cut\<close>

lemma next_line_arrives:
  assumes "framed h s later" "ht_pending h @ s = l @ newline # rest" "newline \<notin> set l" "length l \<le> max_frame" "\<forall>n. utf8 (hex_of n @ crlf)"
  shows "\<exists>h' s'. http_event utf8 of_json h = http_event utf8 of_json h' \<and> ht_pending h' @ s' = l @ newline # rest \<and>
    newline \<in> set (ht_pending h') \<and> framed h' s' later"
  using assms(1,2)
proof (induction "length s" arbitrary: h s rule: less_induct)
  case less
  show ?case
  proof (cases "newline \<in> set (ht_pending h)")
    case no: False
    obtain l2 where l2: "l = ht_pending h @ l2" "s = l2 @ newline # rest" using first_line_later [OF less.prems(2) no] by blast
    then obtain h1 bs s1 where p: "http_piece utf8 h = (h1, Inr bs)" "bs \<noteq> []" "s = bs @ s1" "framed h1 s1 later"
      using piece_of_text [OF less.prems(1) _ assms(5)] by auto
    have keep: "ht_pending h1 = ht_pending h" using http_piece_keeps [OF p(1)] .
    have "length bs \<le> 8192" using http_piece_takes [OF p(1,2)] by simp
    moreover have "length (ht_pending h) \<le> max_frame" using l2(1) assms(4) by simp
    ultimately have "\<not> max_frame + 8192 < length (ht_pending h1) + length bs" using keep by simp
    let ?h = "h1\<lparr>ht_pending := ht_pending h1 @ bs\<rparr>"
    have step: "http_event utf8 of_json h = http_event utf8 of_json ?h"
      using no p(1,2) \<open>\<not> max_frame + 8192 < _\<close> by (subst http_event.simps) simp
    have "framed ?h s1 later" "ht_pending ?h @ s1 = l @ newline # rest" "length s1 < length s"
      using p(2,3,4) keep less.prems(2) by (simp_all add: framed_def)
    from less.hyps [OF this(3,1,2)] show ?thesis unfolding step .
  qed (use less.prems in blast)
qed

lemma event_takes_line:
  assumes "framed h s later" "ht_pending h @ s = l @ newline # rest" "newline \<notin> set l" "length l \<le> max_frame" "\<forall>n. utf8 (hex_of n @ crlf)"
  shows "\<exists>h' s'. ht_pending h' @ s' = rest \<and> framed h' s' later \<and>
    http_event utf8 of_json h =
      (case strip_prefix ''data:'' (l @ [newline]) of
         Some data \<Rightarrow> (h', map_err PeerJson (of_json data)) | None \<Rightarrow> http_event utf8 of_json h')"
proof -
  obtain h1 s1 where h1: "http_event utf8 of_json h = http_event utf8 of_json h1" "ht_pending h1 @ s1 = l @ newline # rest"
      "newline \<in> set (ht_pending h1)" "framed h1 s1 later"
    using next_line_arrives [OF assms, of of_json] by blast
  obtain l1 r1 where l1: "ht_pending h1 = l1 @ newline # r1" "newline \<notin> set l1" using take_line_found [OF h1(3)] by blast
  then have same: "l1 = l" "r1 @ s1 = rest" using first_line_unique [of l1 "r1 @ s1" l rest] h1(2) assms(3) by auto
  have "framed (h1\<lparr>ht_pending := r1\<rparr>) s1 later" using h1(4) by (simp add: framed_def)
  moreover have "http_event utf8 of_json h1 =
      (case strip_prefix ''data:'' (l @ [newline]) of
         Some data \<Rightarrow> (h1\<lparr>ht_pending := r1\<rparr>, map_err PeerJson (of_json data)) | None \<Rightarrow> http_event utf8 of_json (h1\<lparr>ht_pending := r1\<rparr>))"
    using l1 same(1) by (subst http_event.simps) (simp add: take_line_split)
  ultimately show ?thesis using same(2) h1(1) by (intro exI [of _ "h1\<lparr>ht_pending := r1\<rparr>"] exI [of _ s1]) simp
qed

text \<open>
  What serde_json and the server are relied on for: a frame is one line that is read back, with the
  blank before it and the newline behind it, and no line is longer than a frame may be.
\<close>

definition event_ok :: "(response \<Rightarrow> string) \<Rightarrow> (string \<Rightarrow> string + response) \<Rightarrow> response + string \<Rightarrow> bool" where
  "event_ok to_str of_json e \<longleftrightarrow>
     newline \<notin> set (event_line to_str e) \<and> length (event_line to_str e) \<le> max_frame \<and>
     (case e of Inl frame \<Rightarrow> of_json (CHR '' '' # to_str frame @ [newline]) = Inr frame | Inr comment \<Rightarrow> True)"

lemma event_read:
  assumes "framed h s later" "ht_pending h @ s = event_text to_str e @ rest" "event_ok to_str of_json e" "\<forall>n. utf8 (hex_of n @ crlf)"
  shows "\<exists>h' s'. ht_pending h' @ s' = rest \<and> framed h' s' later \<and>
    (case e of
       Inl frame \<Rightarrow> \<exists>h1 s1. http_event utf8 of_json h = (h1, Inr frame) \<and> framed h1 s1 later \<and> ht_pending h1 @ s1 = newline # rest
     | Inr comment \<Rightarrow> http_event utf8 of_json h = http_event utf8 of_json h')"
proof -
  have 1: "ht_pending h @ s = event_line to_str e @ newline # (newline # rest)" using assms(2) by (simp add: event_text_def)
  obtain h1 s1 where h1: "ht_pending h1 @ s1 = newline # rest" "framed h1 s1 later"
      "http_event utf8 of_json h =
        (case strip_prefix ''data:'' (event_line to_str e @ [newline]) of
           Some data \<Rightarrow> (h1, map_err PeerJson (of_json data)) | None \<Rightarrow> http_event utf8 of_json h1)"
    using event_takes_line [OF assms(1) 1 _ _ assms(4), of of_json] assms(3) by (auto simp: event_ok_def)
  have "ht_pending h1 @ s1 = [] @ newline # rest" using h1(1) by simp
  from event_takes_line [OF h1(2) this _ _ assms(4), of of_json] obtain h2 s2 where h2: "ht_pending h2 @ s2 = rest" "framed h2 s2 later"
      "http_event utf8 of_json h1 = http_event utf8 of_json h2" by auto
  show ?thesis
  proof (cases e)
    case (Inl frame)
    then have "http_event utf8 of_json h = (h1, Inr frame)" using h1(3) assms(3) by (simp add: event_line_def event_ok_def)
    then show ?thesis using h1(1,2) h2(1,2) Inl by auto
  next
    case (Inr comment)
    then have "http_event utf8 of_json h = http_event utf8 of_json h2" using h1(3) h2(3) by (simp add: event_line_def)
    then show ?thesis using h2(1,2) Inr by auto
  qed
qed

text \<open>The blank line behind a frame is skipped on the way to the next event.\<close>

lemma event_after_blank:
  assumes "framed h s later" "ht_pending h @ s = newline # rest" "\<forall>n. utf8 (hex_of n @ crlf)"
  shows "\<exists>h' s'. ht_pending h' @ s' = rest \<and> framed h' s' later \<and> http_event utf8 of_json h = http_event utf8 of_json h'"
proof -
  have "ht_pending h @ s = [] @ newline # rest" using assms(2) by simp
  from event_takes_line [OF assms(1) this _ _ assms(3), of of_json] show ?thesis by auto
qed

text \<open>What successive calls of \<open>event\<close> return, up to the first error, \<open>n\<close> of them at most.\<close>

fun events_of :: "(string \<Rightarrow> bool) \<Rightarrow> (string \<Rightarrow> string + response) \<Rightarrow> nat \<Rightarrow> http \<Rightarrow> (peer_error + response) list" where
  "events_of utf8 of_json 0 h = []"
| "events_of utf8 of_json (Suc n) h =
     (case http_event utf8 of_json h of
        (h, Inl err) \<Rightarrow> [Inl err]
      | (h, Inr r) \<Rightarrow> Inr r # events_of utf8 of_json n h)"

lemma events_of_same: "http_event utf8 of_json h = http_event utf8 of_json h' \<Longrightarrow> events_of utf8 of_json n h = events_of utf8 of_json n h'"
  by (cases n) simp_all

lemma events_of_all:
  assumes "\<forall>e \<in> set es. event_ok to_str of_json e" "\<forall>n. utf8 (hex_of n @ crlf)"
    and "framed h s later" "ht_pending h @ s = concat (map (event_text to_str) es)"
  shows "events_of utf8 of_json (Suc (length (event_frames es))) h = map Inr (event_frames es) @ [Inl StreamEnded]"
  using assms(1,3,4)
proof (induction es arbitrary: h s)
  case Nil
  have "framed h [] later" using Nil.prems by simp
  from piece_at_end [OF this assms(2)] obtain h' where "http_piece utf8 h = (h', Inr [])" by blast
  moreover have "ht_pending h = []" using Nil.prems by simp
  ultimately have "http_event utf8 of_json h = (h', Inl StreamEnded)" by (subst http_event.simps) simp
  then show ?case by simp
next
  case (Cons e es)
  have ok: "event_ok to_str of_json e" "\<forall>e \<in> set es. event_ok to_str of_json e" using Cons.prems(1) by simp_all
  have shown: "ht_pending h @ s = event_text to_str e @ concat (map (event_text to_str) es)" using Cons.prems(3) by simp
  from event_read [OF Cons.prems(2) shown ok(1) assms(2)] obtain h' s' where h': "ht_pending h' @ s' = concat (map (event_text to_str) es)"
      "framed h' s' later"
      "case e of
         Inl frame \<Rightarrow> \<exists>h1 s1. http_event utf8 of_json h = (h1, Inr frame) \<and> framed h1 s1 later \<and>
           ht_pending h1 @ s1 = newline # concat (map (event_text to_str) es)
       | Inr comment \<Rightarrow> http_event utf8 of_json h = http_event utf8 of_json h'" by blast
  show ?case
  proof (cases e)
    case (Inl frame)
    then obtain h1 s1 where h1: "http_event utf8 of_json h = (h1, Inr frame)" "framed h1 s1 later"
        "ht_pending h1 @ s1 = newline # concat (map (event_text to_str) es)" using h'(3) by auto
    from event_after_blank [OF h1(2,3) assms(2), of of_json] obtain h2 s2 where h2: "ht_pending h2 @ s2 = concat (map (event_text to_str) es)"
        "framed h2 s2 later" "http_event utf8 of_json h1 = http_event utf8 of_json h2" by blast
    have "events_of utf8 of_json (Suc (length (event_frames es))) h1 = map Inr (event_frames es) @ [Inl StreamEnded]"
      unfolding events_of_same [OF h2(3)] by (rule Cons.IH [OF ok(2) h2(2,1)])
    then show ?thesis unfolding Inl event_frames.simps list.size add_Suc_right add_0_right
      by (subst events_of.simps) (simp add: h1(1) del: events_of.simps)
  next
    case (Inr comment)
    then show ?thesis using Cons.IH [OF ok(2) h'(2,1)] events_of_same [of utf8 of_json h h'] h'(3) by simp
  qed
qed


section \<open>A stream from its head to its end\<close>

fun headers_read :: "string list \<Rightarrow> http \<Rightarrow> peer_error + http" where
  "headers_read [] h = Inr h"
| "headers_read (l # ls) h = rbind (http_header (l @ crlf) h) (headers_read ls)"

definition head_line_ok :: "(string \<Rightarrow> bool) \<Rightarrow> string \<Rightarrow> bool" where
  "head_line_ok utf8 l \<longleftrightarrow> l \<noteq> [] \<and> newline \<notin> set l \<and> length l + 2 \<le> 8192 \<and> utf8 (l @ crlf)"

lemma http_header_frame:
  "http_header l (h\<lparr>ht_feed := f, ht_rx := rx\<rparr>) =
    (case http_header l h of Inl err \<Rightarrow> Inl err | Inr h' \<Rightarrow> Inr (h'\<lparr>ht_feed := f, ht_rx := rx\<rparr>))"
  "http_header l (h\<lparr>ht_sink := s, ht_feed := f, ht_rx := rx\<rparr>) =
    (case http_header l h of Inl err \<Rightarrow> Inl err | Inr h' \<Rightarrow> Inr (h'\<lparr>ht_sink := s, ht_feed := f, ht_rx := rx\<rparr>))"
  by (simp_all add: http_header_def rbind_def split: option.splits)

lemma headers_read_frame:
  "headers_read ls h = Inr h' \<Longrightarrow> headers_read ls (h\<lparr>ht_feed := f, ht_rx := rx\<rparr>) = Inr (h'\<lparr>ht_feed := f, ht_rx := rx\<rparr>)"
  by (induction ls arbitrary: h) (auto simp: http_header_frame rbind_def split: sum.splits)

lemma headers_read_frame_sink:
  "headers_read ls h = Inr h' \<Longrightarrow>
    headers_read ls (h\<lparr>ht_sink := s, ht_feed := f, ht_rx := rx\<rparr>) = Inr (h'\<lparr>ht_sink := s, ht_feed := f, ht_rx := rx\<rparr>)"
  by (induction ls arbitrary: h) (auto simp: http_header_frame(2) rbind_def split: sum.splits)

lemma http_header_flags: "http_header l h = Inr h' \<Longrightarrow>
    ht_left h' = ht_left h \<and> ht_ended h' = ht_ended h \<and> ht_pending h' = ht_pending h \<and> ht_sink h' = ht_sink h"
  by (auto simp: http_header_def rbind_def split: option.splits if_splits)

lemma headers_read_flags: "headers_read ls h = Inr h' \<Longrightarrow>
    ht_left h' = ht_left h \<and> ht_ended h' = ht_ended h \<and> ht_pending h' = ht_pending h \<and> ht_sink h' = ht_sink h"
  by (induction ls arbitrary: h) (auto simp: rbind_def split: sum.splits dest!: http_header_flags)

lemma headers_loop_reads:
  assumes "\<forall>l \<in> set hs. head_line_ok utf8 l" "feed_ok (ht_feed h)"
    and "feed_bytes (ht_feed h) = concat (map (\<lambda>l. l @ crlf) hs) @ crlf @ rest"
    and "seen_bytes + length (concat (map (\<lambda>l. l @ crlf) hs)) + 2 \<le> 65536" "headers_read hs h = Inr h1"
  shows "\<exists>f rx. headers_loop utf8 seen_bytes h = (h1\<lparr>ht_feed := f, ht_rx := rx\<rparr>, Inr ()) \<and> feed_ok f \<and> feed_bytes f = rest"
  using assms
proof (induction hs arbitrary: h seen_bytes h1)
  case Nil
  then have "feed_bytes (ht_feed h) = [carriage] @ newline # rest" by (simp add: crlf_def)
  from http_line_reads [OF Nil.prems(2) _ this, of 8192] obtain f rx where
      "http_line 8192 h = (h\<lparr>ht_feed := f, ht_rx := rx\<rparr>, Inr [carriage, newline])" "feed_ok f" "feed_bytes f = rest" by auto
  then show ?case using Nil.prems(4,5)
    by (intro exI [of _ f] exI [of _ rx]) (subst headers_loop.simps, simp add: crlf_def)
next
  case (Cons l hs)
  have l: "l \<noteq> []" "newline \<notin> set (l @ [carriage])" "length (l @ [carriage]) < 8192" "utf8 (l @ crlf)" "l @ crlf \<noteq> crlf"
    using Cons.prems(1) by (auto simp: head_line_ok_def)
  have "feed_bytes (ht_feed h) = (l @ [carriage]) @ newline # (concat (map (\<lambda>l. l @ crlf) hs) @ crlf @ rest)"
    using Cons.prems(3) by (simp add: crlf_def)
  from http_line_reads [OF Cons.prems(2) l(2) this l(3)] obtain f rx where f:
      "http_line 8192 h = (h\<lparr>ht_feed := f, ht_rx := rx\<rparr>, Inr (l @ crlf))" "feed_ok f"
      "feed_bytes f = concat (map (\<lambda>l. l @ crlf) hs) @ crlf @ rest" by (auto simp: crlf_def)
  obtain h2 where h2: "http_header (l @ crlf) h = Inr h2" "headers_read hs h2 = Inr h1"
    using Cons.prems(5) by (auto simp: rbind_def split: sum.splits)
  let ?h = "h2\<lparr>ht_feed := f, ht_rx := rx\<rparr>"
  have small: "\<not> 65536 < seen_bytes + length (l @ crlf)" using Cons.prems(4) by simp
  have "headers_loop utf8 seen_bytes h = headers_loop utf8 (seen_bytes + length (l @ crlf)) ?h"
    using f(1) small l(4,5) h2(1) http_header_frame(1) [where l = "l @ crlf" and h = h and f = f and rx = rx]
    by (subst headers_loop.simps) (simp del: length_append append_is_Nil_conv)
  moreover have "headers_read hs ?h = Inr (h1\<lparr>ht_feed := f, ht_rx := rx\<rparr>)" using headers_read_frame [OF h2(2)] .
  moreover have "\<exists>f' rx'. headers_loop utf8 (seen_bytes + length (l @ crlf)) ?h = ((h1\<lparr>ht_feed := f, ht_rx := rx\<rparr>)\<lparr>ht_feed := f', ht_rx := rx'\<rparr>, Inr ()) \<and>
      feed_ok f' \<and> feed_bytes f' = rest"
    by (rule Cons.IH) (use headers_read_frame [OF h2(2)] Cons.prems(1,4) f(2,3) in simp_all)
  ultimately show ?case by auto
qed


lemma request_opens:
  assumes "le_http e = Some address" "sk_faults (ht_sink h) = []" "feed_ok (ht_feed h)"
    and "feed_bytes (ht_feed h) = status @ crlf @ concat (map (\<lambda>l. l @ crlf) hs) @ crlf @ rest"
    and "\<forall>l \<in> set (status # hs). head_line_ok utf8 l" "length (concat (map (\<lambda>l. l @ crlf) hs)) + 2 \<le> 65536"
    and "status_of (status @ crlf) = Some n" "200 \<le> n" "n < 300"
    and "headers_read hs (h\<lparr>ht_chunked := False, ht_left := 0, ht_remaining := None, ht_ended := False\<rparr>) = Inr h1"
  shows "\<exists>f rx s. http_request utf8 e verb path None body h = (h1\<lparr>ht_sink := s, ht_feed := f, ht_rx := rx\<rparr>, Inr ()) \<and> feed_ok f \<and> feed_bytes f = rest"
proof -
  let ?head = "request_head address (le_token e) verb path None (length body)"
  define s where "s = (ht_sink h)\<lparr>sk_faults := [], sk_out := sk_out (ht_sink h) @ ?head @ body,
    sk_tx := sk_tx (ht_sink h) + (length ?head + length body)\<rparr>"
  let ?h = "h\<lparr>ht_sink := s\<rparr>"
  have st: "newline \<notin> set (status @ [carriage])" "length (status @ [carriage]) < 8192" "utf8 (status @ crlf)"
    using assms(5) by (auto simp: head_line_ok_def)
  have "feed_bytes (ht_feed ?h) = (status @ [carriage]) @ newline # (concat (map (\<lambda>l. l @ crlf) hs) @ crlf @ rest)"
    using assms(4) by (simp add: crlf_def)
  from http_line_reads [OF _ st(1) this st(2)] obtain f rx where f:
      "http_line 8192 ?h = (?h\<lparr>ht_feed := f, ht_rx := rx\<rparr>, Inr (status @ crlf))" "feed_ok f"
      "feed_bytes f = concat (map (\<lambda>l. l @ crlf) hs) @ crlf @ rest" using assms(3) by (auto simp: crlf_def)
  let ?start = "h\<lparr>ht_chunked := False, ht_left := 0, ht_remaining := None, ht_ended := False\<rparr>"
  have reset: "(?h\<lparr>ht_feed := f, ht_rx := rx\<rparr>)\<lparr>ht_chunked := False, ht_left := 0, ht_remaining := None, ht_ended := False\<rparr> =
      ?start\<lparr>ht_sink := s, ht_feed := f, ht_rx := rx\<rparr>" by simp
  have "\<exists>f' rx'. headers_loop utf8 0 (?start\<lparr>ht_sink := s, ht_feed := f, ht_rx := rx\<rparr>) =
      ((h1\<lparr>ht_sink := s, ht_feed := f, ht_rx := rx\<rparr>)\<lparr>ht_feed := f', ht_rx := rx'\<rparr>, Inr ()) \<and> feed_ok f' \<and> feed_bytes f' = rest"
    by (rule headers_loop_reads [where hs = hs]) (use assms(5,6) f(2,3) headers_read_frame_sink [OF assms(10)] in simp_all)
  then obtain f' rx' where f': "headers_loop utf8 0 (?start\<lparr>ht_sink := s, ht_feed := f, ht_rx := rx\<rparr>) =
      (h1\<lparr>ht_sink := s, ht_feed := f', ht_rx := rx'\<rparr>, Inr ())" "feed_ok f'" "feed_bytes f' = rest" by auto
  have "http_request utf8 e verb path None body h = headers_loop utf8 0 (?start\<lparr>ht_sink := s, ht_feed := f, ht_rx := rx\<rparr>)"
    unfolding reset [symmetric] using assms(1,2,7-9) st(3) f(1)
    by (simp add: http_request_def sink_write_def Let_def s_def)
  then show ?thesis using f' by (intro exI [of _ f'] exI [of _ rx'] exI [of _ s]) simp
qed

definition peer_run ::
    "(string \<Rightarrow> bool) \<Rightarrow> (string \<Rightarrow> string + response) \<Rightarrow> (request \<Rightarrow> string + string) \<Rightarrow> load_endpoint \<Rightarrow> peer_event list \<Rightarrow>
     load_peer \<Rightarrow> load_peer" where
  "peer_run utf8 of_json to_vec e evs p = fold (peer_step utf8 of_json to_vec e) evs p"

text \<open>What a stream's task reports of the frames there are: those up to the first final one, or all and an error.\<close>

fun reported :: "response list \<Rightarrow> (peer_error + response) list" where
  "reported [] = [Inl StreamEnded]"
| "reported (r # rs) = Inr r # (if is_final r then [] else reported rs)"

lemma ended_task_reports_nothing:
  "lp_streams p ! k = None \<Longrightarrow> peer_run utf8 of_json to_vec e (replicate n (StreamReads True k)) p = p"
  by (induction n) (simp_all add: peer_run_def stream_event_def)

lemma task_reports:
  assumes "k < length (lp_streams p)" "lp_streams p ! k = Some h"
    and "events_of utf8 of_json (Suc (length rs)) h = map Inr rs @ [Inl StreamEnded]"
  shows "lp_events (peer_run utf8 of_json to_vec e (replicate n (StreamReads True k)) p) = lp_events p @ take n (reported rs)"
  using assms
proof (induction rs arbitrary: n p h)
  case Nil
  obtain h' where h': "http_event utf8 of_json h = (h', Inl StreamEnded)" using Nil.prems(3) by (auto split: prod.splits sum.splits)
  show ?case
  proof (cases n)
    case (Suc m)
    let ?q = "p\<lparr>lp_events := lp_events p @ [Inl StreamEnded], lp_streams := (lp_streams p)[k := None]\<rparr>"
    have "peer_step utf8 of_json to_vec e (StreamReads True k) p = ?q" using Nil.prems(1,2) h' by (simp add: stream_event_def)
    moreover have "peer_run utf8 of_json to_vec e (replicate m (StreamReads True k)) ?q = ?q"
      by (rule ended_task_reports_nothing) (simp add: Nil.prems(1))
    ultimately show ?thesis by (simp add: Suc peer_run_def)
  qed (simp add: peer_run_def)
next
  case (Cons r rs)
  obtain h' where h': "http_event utf8 of_json h = (h', Inr r)" "events_of utf8 of_json (Suc (length rs)) h' = map Inr rs @ [Inl StreamEnded]"
    using Cons.prems(3) by (auto simp del: events_of.simps simp: events_of.simps(2) [of _ _ "Suc (length rs)"] split: prod.splits sum.splits)
  show ?case
  proof (cases n)
    case (Suc m)
    let ?q = "p\<lparr>lp_events := lp_events p @ [Inr r], lp_streams := (lp_streams p)[k := if is_final r then None else Some h']\<rparr>"
    have step: "peer_step utf8 of_json to_vec e (StreamReads True k) p = ?q" using Cons.prems(1,2) h'(1) by (simp add: stream_event_def)
    have "lp_events (peer_run utf8 of_json to_vec e (replicate m (StreamReads True k)) ?q) =
        lp_events ?q @ (if is_final r then [] else take m (reported rs))"
    proof (cases "is_final r")
      case True
      then show ?thesis using ended_task_reports_nothing [of ?q k] Cons.prems(1) by simp
    next
      case False
      then show ?thesis using Cons.IH [of ?q h' m] Cons.prems(1) h'(2) by simp
    qed
    then show ?thesis using step by (simp add: Suc peer_run_def)
  qed (simp add: peer_run_def)
qed

text \<open>
  C18: A stream is read whole, from its head to its end, however the bytes come. Take a Subscribe from
  the inbox of a peer. Whatever the reads of the socket find at a time, whatever chunks the server
  cuts the body into, whatever other headers and comments it sends, when its frames begin with the
  Welcome of this stream the peer reports the stream as open, and the task of the stream then reports
  exactly the frames behind the Welcome, in order: up to the first End or Error, where it stops, or
  all of them and one error when the body ends without. \<open>to_str\<close> and \<open>of_json\<close> stand for serde_json.
\<close>

theorem stream_is_read_whole:
  assumes "le_http e = Some address" "sk_faults s = []" "feed_ok f" "\<not> lp_over p"
    and "feed_bytes f = status @ crlf @ concat (map (\<lambda>l. l @ crlf) hs) @ crlf @ chunked_text cs"
    and "\<forall>l \<in> set (status # hs). head_line_ok utf8 l" "length (concat (map (\<lambda>l. l @ crlf) hs)) + 2 \<le> 65536"
    and "status_of (status @ crlf) = Some n" "200 \<le> n" "n < 300"
    and "headers_read hs \<lparr>ht_feed = f, ht_sink = s, ht_rx = 0, ht_chunked = False, ht_left = 0, ht_remaining = None, ht_ended = False,
      ht_pending = []\<rparr> = Inr h1" "ht_chunked h1"
    and "\<forall>e \<in> set es. event_ok to_str of_json e" "\<forall>n. utf8 (hex_of n @ crlf)"
    and "[] \<notin> set cs" "length (concat cs) \<le> u64_max" "concat cs = concat (map (event_text to_str) es)"
    and "event_frames es = Welcome i proto_version frame_limit (Some session) # frames" "0 < frame_limit"
  shows "lp_events (peer_run utf8 of_json to_vec e (TakesRequest True (Inr (f, s)) (Subscribe i name from_version m credit) #
      replicate reads (StreamReads True (length (lp_streams p)))) p) = lp_events p @ Inr (OkFrame i) # take reads (reported frames)"
proof -
  let ?start = "\<lparr>ht_feed = f, ht_sink = s, ht_rx = 0, ht_chunked = False, ht_left = 0, ht_remaining = None, ht_ended = False, ht_pending = []\<rparr>"
  let ?path = "load_stream_path i name from_version m credit"
  have "sk_faults (ht_sink ?start) = []" "feed_ok (ht_feed ?start)" using assms(2,3) by simp_all
  moreover have "feed_bytes (ht_feed ?start) = status @ crlf @ concat (map (\<lambda>l. l @ crlf) hs) @ crlf @ chunked_text cs" using assms(5) by simp
  moreover have "headers_read hs (?start\<lparr>ht_chunked := False, ht_left := 0, ht_remaining := None, ht_ended := False\<rparr>) = Inr h1" using assms(11) by simp
  ultimately obtain f' rx' s' where r: "http_request utf8 e ''GET'' ?path None [] ?start = (h1\<lparr>ht_sink := s', ht_feed := f', ht_rx := rx'\<rparr>, Inr ())"
      "feed_ok f'" "feed_bytes f' = chunked_text cs"
    using request_opens [OF assms(1) _ _ _ assms(6-10)] by blast
  let ?h = "h1\<lparr>ht_sink := s', ht_feed := f', ht_rx := rx'\<rparr>"
  have flags: "ht_left h1 = 0" "\<not> ht_ended h1" "ht_pending h1 = []" using headers_read_flags [OF assms(11)] by simp_all
  have "\<forall>c \<in> set cs. length c \<le> u64_max"
  proof
    fix c assume "c \<in> set cs"
    then obtain xs ys where "cs = xs @ c # ys" by (meson split_list)
    then show "length c \<le> u64_max" using assms(16) by simp
  qed
  then have "framed ?h (concat cs) []" using r(2,3) flags assms(12,15)
    by (auto simp: framed_def intro!: exI [of _ "[]"] exI [of _ cs])
  then have "events_of utf8 of_json (Suc (length (event_frames es))) ?h = map Inr (event_frames es) @ [Inl StreamEnded]"
    using events_of_all [OF assms(13,14), of ?h "concat cs" "[]"] flags(3) assms(17) by simp
  then obtain h2 where h2: "http_event utf8 of_json ?h = (h2, Inr (Welcome i proto_version frame_limit (Some session)))"
      "events_of utf8 of_json (Suc (length frames)) h2 = map Inr frames @ [Inl StreamEnded]"
    unfolding assms(18) by (auto simp del: events_of.simps simp: events_of.simps(2) [of _ _ "Suc (length frames)"] split: prod.splits sum.splits)
  have "http_open e (Inr (f, s)) = Inr ?start" using assms(1) by (simp add: http_open_def)
  moreover have "open_stream utf8 of_json e i ?path ?start = Inr (h2, session)"
    using r(1) h2(1) assms(19) by (simp add: open_stream_def validate_welcome_def)
  ultimately have step: "peer_step utf8 of_json to_vec e (TakesRequest True (Inr (f, s)) (Subscribe i name from_version m credit)) p =
      p\<lparr>lp_sockets := lp_sockets p + 1, lp_events := lp_events p @ [Inr (OkFrame i)], lp_streams := lp_streams p @ [Some h2],
        lp_sessions := bt_insert i (session, length (lp_streams p)) (lp_sessions p)\<rparr>" (is "_ = ?q")
    using assms(4) by (simp add: peer_request_def peer_subscribe_def)
  have "lp_events (peer_run utf8 of_json to_vec e (replicate reads (StreamReads True (length (lp_streams p)))) ?q) =
      lp_events ?q @ take reads (reported frames)"
    by (rule task_reports [OF _ _ h2(2)]) simp_all
  then show ?thesis using step by (simp add: peer_run_def)
qed

lemma line_loop_bounded: "line_loop limit acc rx f = (f', rx', Inr l) \<Longrightarrow> length l \<le> limit"
  by (induction limit acc rx f rule: line_loop.induct) (auto split: if_splits prod.splits)

lemma response_body_bounded: "response_body utf8 body h = (h', Inr b) \<Longrightarrow> length body \<le> max_frame \<Longrightarrow> length b \<le> max_frame"
proof (induction utf8 body h rule: response_body.induct)
  case (1 utf8 body h)
  obtain h1 part where p: "http_piece utf8 h = (h1, Inr part)"
    using "1.prems"(1) by (auto simp: response_body.simps [of utf8 body h] split: prod.splits sum.splits)
  show ?case using "1.IH" [OF p [symmetric] refl] "1.prems" by (auto simp: response_body.simps [of utf8 body h] p split: if_splits)
qed

lemma http_event_bounded:
  "http_event utf8 of_json h = (h', r) \<Longrightarrow> length (ht_pending h) \<le> max_frame + 8192 \<Longrightarrow> length (ht_pending h') \<le> max_frame + 8192"
proof (induction utf8 of_json h rule: http_event.induct)
  case (1 utf8 of_json h)
  show ?case
  proof (cases "newline \<in> set (ht_pending h)")
    case True
    obtain l rest where l: "take_line (ht_pending h) = (l, rest)" by fastforce
    have "length rest \<le> max_frame + 8192" using take_line_shorter [OF l True] "1.prems"(2) by simp
    then show ?thesis using "1.IH"(1) [OF True l [symmetric]] "1.prems"(1) True l
      by (auto simp: http_event.simps [of utf8 of_json h] split: option.splits)
  next
    case False
    obtain h1 q where p: "http_piece utf8 h = (h1, q)" by fastforce
    note keep = http_piece_keeps [OF p]
    show ?thesis
    proof (cases q)
      case (Inr part)
      then show ?thesis using "1.IH"(2) [OF False p [symmetric] Inr] "1.prems" False p keep
        by (auto simp: http_event.simps [of utf8 of_json h] split: if_splits)
    qed (use "1.prems" False p keep in \<open>simp add: http_event.simps [of utf8 of_json h]\<close>)
  qed
qed

lemma http_piece_bounded: "http_piece utf8 h = (h', Inr part) \<Longrightarrow> length part \<le> 8192"
  using http_piece_takes [of utf8 h h' part] by (cases "part = []") auto

text \<open>A server that welcomes the stream, sends one frame, ends the stream, and sends another that nobody hears.\<close>

definition wit_frames :: "(string \<times> response) list" where
  "wit_frames = [('' 0'' @ [newline], Welcome 9 1 5 (Some ''s'')), ('' 1'' @ [newline], RecordsFrame 9 []), ('' 2'' @ [newline], End 9),
     ('' 3'' @ [newline], Pong 4)]"

definition wit_parse :: "string \<Rightarrow> string + response" where
  "wit_parse s = (case map_of wit_frames s of None \<Rightarrow> Inl ''no frame'' | Some r \<Rightarrow> Inr r)"

definition wit_text :: "response \<Rightarrow> string" where
  "wit_text r = (if r = Welcome 9 1 5 (Some ''s'') then ''0'' else if r = RecordsFrame 9 [] then ''1'' else if r = End 9 then ''2'' else ''3'')"

definition wit_feed :: "char feed" where
  "wit_feed = [Inr (''HTTP/1.1 200 OK'' @ crlf @ ''Transfer-Enco''),
     Inr (''ding: chunked'' @ crlf @ crlf @ ''b'' @ crlf @ ''data: 0'' @ [newline, newline] @ ''da''),
     Inr (crlf @ ''10'' @ crlf @ ''ta: 1'' @ [newline, newline] @ ''data: 2'' @ [newline, newline] @ crlf),
     Inr (''9'' @ crlf @ ''data: 3'' @ [newline]), Inr ([newline] @ crlf @ ''0'' @ crlf @ crlf)]"

definition wit_peer :: load_peer where
  "wit_peer = \<lparr>lp_call = \<lparr>ht_feed = [], ht_sink = \<lparr>sk_faults = [], sk_out = [], sk_tx = 0\<rparr>, ht_rx = 0, ht_chunked = False, ht_left = 0,
     ht_remaining = None, ht_ended = False, ht_pending = []\<rparr>, lp_sessions = [], lp_streams = [], lp_events = [], lp_sockets = 1, lp_over = False\<rparr>"

theorem stream_is_read_whole_witness:
  "lp_events (peer_run (\<lambda>_. True) wit_parse (\<lambda>_. Inl []) \<lparr>le_socket = [], le_http = Some ''lug:80'', le_token = ''t''\<rparr>
     (TakesRequest True (Inr (wit_feed, \<lparr>sk_faults = [], sk_out = [], sk_tx = 0\<rparr>)) (Subscribe 9 ''a'' 0 Records 8) #
        replicate 5 (StreamReads True 0)) wit_peer) =
   [Inr (OkFrame 9), Inr (RecordsFrame 9 []), Inr (End 9)]"
proof -
  let ?e = "\<lparr>le_socket = [], le_http = Some ''lug:80'', le_token = ''t''\<rparr>"
  let ?h = "\<lparr>ht_feed = wit_feed, ht_sink = \<lparr>sk_faults = [], sk_out = [], sk_tx = 0\<rparr>, ht_rx = 0, ht_chunked = False, ht_left = 0,
    ht_remaining = None, ht_ended = False, ht_pending = []\<rparr>"
  let ?cs = "[''data: 0'' @ [newline, newline] @ ''da'', ''ta: 1'' @ [newline, newline] @ ''data: 2'' @ [newline, newline],
    ''data: 3'' @ [newline] @ [newline]]"
  let ?es = "map (Inl \<circ> snd) wit_frames :: (response + string) list"
  have wire: "feed_bytes wit_feed = ''HTTP/1.1 200 OK'' @ crlf @ concat (map (\<lambda>l. l @ crlf) [''Transfer-Encoding: chunked'']) @ crlf @ chunked_text ?cs"
    by (simp add: wit_feed_def chunked_text_def chunk_text_def hex_of.simps [of 11] hex_of.simps [of 16] hex_of.simps [of 9] hex_of.simps [of 1] hex_of.simps [of 0]) code_simp
  have "words_of [] (''HTTP/1.1 200 OK'' @ crlf) = [''HTTP/1.1'', ''200'', ''OK'']" by code_simp
  then have head: "status_of (''HTTP/1.1 200 OK'' @ crlf) = Some 200"
    by (simp add: status_of_def parse_unsigned_def digits_value_def is_ascii_digit_def)
  have chunked: "headers_read [''Transfer-Encoding: chunked''] ?h = Inr (?h\<lparr>ht_chunked := True\<rparr>)"
  proof -
    have "split_once (CHR '':'') (trim (''Transfer-Encoding: chunked'' @ crlf)) = Some (''Transfer-Encoding'', '' chunked'')"
      "to_ascii_lowercase ''Transfer-Encoding'' = ''transfer-encoding''" "to_ascii_lowercase (trim '' chunked'') = ''chunked''"
      by code_simp+
    then show ?thesis by (simp add: http_header_def)
  qed
  have frames: "event_frames ?es = Welcome 9 proto_version 5 (Some ''s'') # [RecordsFrame 9 [], End 9, Pong 4]"
    by (simp add: wit_frames_def proto_version_def)
  have "lp_events (peer_run (\<lambda>_. True) wit_parse (\<lambda>_. Inl []) ?e
      (TakesRequest True (Inr (wit_feed, \<lparr>sk_faults = [], sk_out = [], sk_tx = 0\<rparr>)) (Subscribe 9 ''a'' 0 Records 8) #
        replicate 5 (StreamReads True (length (lp_streams wit_peer)))) wit_peer) =
      lp_events wit_peer @ Inr (OkFrame 9) # take 5 (reported [RecordsFrame 9 [], End 9, Pong 4])"
  proof (rule stream_is_read_whole [OF _ _ _ _ wire _ _ head _ _ chunked _ _ _ _ _ _ frames, where to_str = wit_text and address = "''lug:80''"])
    show "feed_ok wit_feed" by (simp add: wit_feed_def feed_ok_def crlf_def)
    show "\<forall>x \<in> set ?es. event_ok wit_text wit_parse x"
      by (simp add: wit_frames_def event_ok_def event_line_def wit_text_def wit_parse_def max_frame_def)
    show "concat ?cs = concat (map (event_text wit_text) ?es)"
      by (simp add: wit_frames_def event_text_def event_line_def wit_text_def)
  qed (simp_all add: head_line_ok_def crlf_def wit_peer_def u64_max_def)
  then show ?thesis by (simp add: wit_peer_def is_final_def)
qed

text \<open>
  No server makes the reader keep more than its limits. A line it takes is within the limit it
  was asked for, a piece of a body is at most 8192 bytes, the body of a response at most a frame, and
  the bytes kept between events never exceed a frame and a piece, whatever the server sends.
\<close>
theorem reader_memory_is_bounded:
  shows "(http_line limit h = (h', Inr l) \<longrightarrow> length l \<le> limit) \<and>
    (http_piece utf8 h = (h', Inr part) \<longrightarrow> length part \<le> 8192) \<and>
    (response_body utf8 [] h = (h', Inr body) \<longrightarrow> length body \<le> max_frame) \<and>
    (http_event utf8 of_json h = (h', r) \<longrightarrow> length (ht_pending h) \<le> max_frame + 8192 \<longrightarrow> length (ht_pending h') \<le> max_frame + 8192)"
proof (intro conjI impI)
  assume "http_line limit h = (h', Inr l)"
  then show "length l \<le> limit" by (auto simp: http_line_def split: prod.splits dest: line_loop_bounded)
next
  assume "response_body utf8 [] h = (h', Inr body)"
  then show "length body \<le> max_frame" by (rule response_body_bounded) simp
qed (erule http_piece_bounded, erule http_event_bounded)


theorem reader_memory_is_bounded_witness:
  "length (ht_pending (fst (http_event (\<lambda>_. True) (\<lambda>_. Inr (Pong 1))
     \<lparr>ht_feed = [Inr ''data: x''], ht_sink = \<lparr>sk_faults = [], sk_out = [], sk_tx = 0\<rparr>, ht_rx = 0, ht_chunked = False, ht_left = 0,
      ht_remaining = None, ht_ended = False, ht_pending = []\<rparr>))) \<le> max_frame + 8192"
  (is "length (ht_pending (fst ?r)) \<le> _")
proof -
  obtain h' r where r: "?r = (h', r)" by (cases ?r)
  have "length (ht_pending h') \<le> max_frame + 8192"
    by (rule reader_memory_is_bounded [THEN conjunct2, THEN conjunct2, THEN conjunct2, rule_format, OF r]) simp
  then show ?thesis using r by simp
qed

section \<open>Peers\<close>

lemma load_query_is_escape: "load_query s = escape s"
proof -
  have "set ''-._~'' = {CHR ''-'', CHR ''_'', CHR ''.'', CHR ''~''}" by auto
  then have "(if is_ascii_alphanumeric c \<or> c \<in> set ''-._~'' then [c]
      else [CHR ''%'', upper_hex (of_char c div 16), upper_hex (of_char c mod 16)]) = escape_char c" for c
    by (simp only: escape_char_def is_unreserved_def)
  then show ?thesis by (simp only: load_query_def escape_def)
qed

definition given_up :: "nat \<Rightarrow> load_peer \<Rightarrow> bool" where
  "given_up k p \<longleftrightarrow> k < length (lp_streams p) \<and> lp_streams p ! k = None"

lemma given_up_end: "k < length (lp_streams p) \<Longrightarrow> given_up k (peer_end p)"
  by (simp add: given_up_def peer_end_def)

lemma given_up_failed: "k < length (lp_streams p) \<Longrightarrow> given_up k (peer_failed listening err p)"
  by (simp add: peer_failed_def given_up_end)

lemma none_stays: "k < length xs \<Longrightarrow> xs ! k = None \<Longrightarrow> xs[j := None] ! k = None"
  by (cases "j = k") simp_all

lemma peer_release_streams:
  "peer_release req p = (q, session) \<Longrightarrow> length (lp_streams q) = length (lp_streams p) \<and> (given_up k p \<longrightarrow> given_up k q)"
  by (auto simp: peer_release_def given_up_def none_stays split: option.splits request.splits)

lemma given_up_call:
  assumes "given_up k p"
  shows "given_up k (peer_call utf8 of_json to_vec e listening req p)"
proof -
  obtain q session where q: "peer_release req p = (q, session)" by fastforce
  have "given_up k q" "k < length (lp_streams q)" using peer_release_streams [OF q, of k] assms by (auto simp: given_up_def)
  then show ?thesis
    by (auto simp: peer_call_def q intro!: given_up_failed given_up_end split: prod.splits sum.splits)
      (simp_all add: given_up_def)
qed

lemma given_up_step: "given_up k p \<Longrightarrow> given_up k (peer_step utf8 of_json to_vec e ev p)"
proof (induction utf8 of_json to_vec e ev p rule: peer_step.induct)
  case (1 utf8 of_json to_vec e listening opened req p)
  have sub: "given_up k (peer_subscribe utf8 of_json e listening opened i path p)" for i path
    using 1 by (auto simp: peer_subscribe_def Let_def given_up_def [of k p] intro!: given_up_failed split: sum.splits)
      (simp add: given_up_def nth_append)
  show ?case using sub given_up_call [OF 1] 1 by (cases req) (simp_all add: peer_request_def)
next
  case (2 utf8 of_json to_vec e listening j p)
  then show ?case by (auto simp: given_up_def stream_event_def Let_def nth_list_update split: option.splits prod.splits)
next
  case 3
  then show ?case by (simp add: given_up_def peer_end_def)
qed

lemma given_up_run: "given_up k p \<Longrightarrow> given_up k (peer_run utf8 of_json to_vec e evs p)"
  unfolding peer_run_def by (induction evs arbitrary: p) (simp_all add: given_up_step)

text \<open>
  A cancelled stream says nothing more. Once a peer has taken the Cancel of a subscription it
  holds, the task of that stream never puts another event on the channel, whatever requests follow,
  the same id subscribed again among them, and however the other streams run: the end of the
  connection, which is an error to a stream's task, is not reported, and the End that answers the
  Cancel is all that comes.
\<close>

theorem cancelled_stream_is_silent:
  assumes "bt_get (lp_sessions p) i = Some (session, k)" "k < length (lp_streams p)" "\<not> lp_over p"
  shows "peer_step utf8 of_json to_vec e (StreamReads listening k)
      (peer_run utf8 of_json to_vec e (TakesRequest heard opened (Cancel i) # evs) p) =
    peer_run utf8 of_json to_vec e (TakesRequest heard opened (Cancel i) # evs) p"
proof -
  let ?p = "p\<lparr>lp_sessions := bt_remove i (lp_sessions p), lp_streams := (lp_streams p)[k := None]\<rparr>"
  have released: "peer_release (Cancel i) p = (?p, Some session)" using assms(1) by (simp add: peer_release_def)
  have "given_up k ?p" using assms(2) by (simp add: given_up_def)
  then have "given_up k (peer_step utf8 of_json to_vec e (TakesRequest heard opened (Cancel i)) p)"
    using assms(3)
    by (auto simp: peer_request_def peer_call_def released intro!: given_up_failed given_up_end split: prod.splits sum.splits)
      (simp_all add: given_up_def)
  then have "given_up k (peer_run utf8 of_json to_vec e evs (peer_step utf8 of_json to_vec e (TakesRequest heard opened (Cancel i)) p))"
    by (rule given_up_run)
  then show ?thesis by (simp add: peer_run_def given_up_def stream_event_def)
qed

text \<open>A peer with one stream, whose server answers nothing any more.\<close>

definition quiet_http :: http where
  "quiet_http = \<lparr>ht_feed = [], ht_sink = \<lparr>sk_faults = [], sk_out = [], sk_tx = 0\<rparr>, ht_rx = 0, ht_chunked = False, ht_left = 0,
     ht_remaining = None, ht_ended = False, ht_pending = []\<rparr>"

definition quiet_peer :: load_peer where
  "quiet_peer = \<lparr>lp_call = quiet_http, lp_sessions = [(1, (''s'', 0))], lp_streams = [Some quiet_http], lp_events = [], lp_sockets = 2,
     lp_over = False\<rparr>"

theorem cancelled_stream_is_silent_witness:
  "peer_step (\<lambda>_. True) (\<lambda>_. Inr (Pong 1)) (\<lambda>_. Inr ''{}'') \<lparr>le_socket = [], le_http = Some ''lug:80'', le_token = []\<rparr> (StreamReads True 0)
     (peer_run (\<lambda>_. True) (\<lambda>_. Inr (Pong 1)) (\<lambda>_. Inr ''{}'') \<lparr>le_socket = [], le_http = Some ''lug:80'', le_token = []\<rparr>
       (TakesRequest True (Inl ''refused'') (Cancel 1) # []) quiet_peer) =
   peer_run (\<lambda>_. True) (\<lambda>_. Inr (Pong 1)) (\<lambda>_. Inr ''{}'') \<lparr>le_socket = [], le_http = Some ''lug:80'', le_token = []\<rparr>
     (TakesRequest True (Inl ''refused'') (Cancel 1) # []) quiet_peer"
  by (rule cancelled_stream_is_silent [where session = "''s''"]) (simp_all add: quiet_peer_def bt_get_def)

end
