(* ===== verification/LoadMock.thy ===== *)
theory LoadMock
  imports LoadProbe
begin

text \<open>
  \<open>crates/lug-load/src/mock.rs\<close>: the server of logs that the load generator is tested against, with
  the faults it can be given, and the run its tests exercise. A channel to a connection's writer is
  a number; \<open>room\<close> says how many responses each takes before the next request is handled.
\<close>

section \<open>The server\<close>

datatype mock_fault =
    NoFault
  | FaultGap
  | FaultDuplicate
  | FaultOrder
  | FaultAckLoss
  | StallOnZeroCredit
  | IgnoreCredit
  | MissingSubscribeAck
  | DuplicateSubscribeAck

record mock_sub =
  ms_id :: id
  ms_conn :: nat
  ms_log :: string
  ms_cursor :: nat
  ms_credit :: nat
  ms_out :: nat

record mock_chans =
  mc_room :: "nat \<Rightarrow> nat"
  mc_sent :: "(nat \<times> response) list"

record mock_state =
  mk_logs :: "string \<Rightarrow> wire_record list option"
  mk_subs :: "mock_sub list"

datatype mock_error = ChannelFull | AbsentLog | AbsentStream | NotImplemented | MockPanics

definition chan_send :: "nat \<Rightarrow> response \<Rightarrow> mock_chans \<Rightarrow> mock_chans \<times> (mock_error + unit)" where
  "chan_send ch r w =
     (if mc_room w ch = 0 then (w, Inl ChannelFull)
      else (w\<lparr>mc_room := (mc_room w)(ch := mc_room w ch - 1), mc_sent := mc_sent w @ [(ch, r)]\<rparr>, Inr ()))"

text \<open>Several sends, up to the first that fails.\<close>

fun chan_sends :: "nat \<Rightarrow> response list \<Rightarrow> mock_chans \<Rightarrow> mock_chans \<times> (mock_error + unit)" where
  "chan_sends ch [] w = (w, Inr ())"
| "chan_sends ch (r # rs) w = (case chan_send ch r w of (w, Inl e) \<Rightarrow> (w, Inl e) | (w, Inr _) \<Rightarrow> chan_sends ch rs w)"

text \<open>One round of the inner loop of \<open>fanout\<close>: the record at the cursor, as the fault has it.\<close>

definition push_one :: "mock_fault \<Rightarrow> wire_record list \<Rightarrow> mock_sub \<Rightarrow> response list" where
  "push_one fault records s =
     (let r = records ! ms_cursor s in
      if fault = FaultGap \<and> wr_version r = 1 then []
      else
        let r = (if fault = FaultOrder \<and> ms_id s = 2 \<and> wr_version r = 2 then r\<lparr>wr_patch := wr_patch (records ! 0)\<rparr> else r);
            response = RecordsFrame (ms_id s) [r]
        in if fault = FaultDuplicate then [response, response] else [response])"

function push_loop :: "mock_fault \<Rightarrow> wire_record list \<Rightarrow> mock_sub \<Rightarrow> mock_chans \<Rightarrow> mock_sub \<times> mock_chans \<times> (mock_error + unit)" where
  "push_loop fault records s w =
     (if ms_cursor s < length records \<and> (0 < ms_credit s \<or> fault = IgnoreCredit) then
        let pushed = push_one fault records s; s = s\<lparr>ms_cursor := ms_cursor s + 1, ms_credit := ms_credit s - 1\<rparr> in
        case chan_sends (ms_out s) pushed w of
          (w, Inl e) \<Rightarrow> (s, w, Inl e)
        | (w, Inr _) \<Rightarrow> push_loop fault records s w
      else (s, w, Inr ()))"
  by pat_completeness auto

termination by (relation "measure (\<lambda>(f, records, s, w). length records - ms_cursor s)") auto

declare push_loop.simps [simp del]

fun fanout_loop ::
    "mock_fault \<Rightarrow> (string \<Rightarrow> wire_record list option) \<Rightarrow> mock_sub list \<Rightarrow> mock_chans \<Rightarrow> mock_sub list \<times> mock_chans \<times> (mock_error + unit)" where
  "fanout_loop fault logs [] w = ([], w, Inr ())"
| "fanout_loop fault logs (s # ss) w =
     (case logs (ms_log s) of
        None \<Rightarrow> (s # ss, w, Inl AbsentLog)
      | Some records \<Rightarrow>
          (case push_loop fault records s w of
             (s, w, Inl e) \<Rightarrow> (s # ss, w, Inl e)
           | (s, w, Inr _) \<Rightarrow> (case fanout_loop fault logs ss w of (ss, w, r) \<Rightarrow> (s # ss, w, r))))"

definition fanout :: "mock_fault \<Rightarrow> mock_state \<Rightarrow> mock_chans \<Rightarrow> mock_state \<times> mock_chans \<times> (mock_error + unit)" where
  "fanout fault st w = (case fanout_loop fault (mk_logs st) (mk_subs st) w of (subs, w, r) \<Rightarrow> (st\<lparr>mk_subs := subs\<rparr>, w, r))"

text \<open>Credit for the first stream of the connection with the id.\<close>

fun grant_first :: "nat \<Rightarrow> id \<Rightarrow> nat \<Rightarrow> mock_sub list \<Rightarrow> mock_error + mock_sub list" where
  "grant_first conn i n [] = Inl AbsentStream"
| "grant_first conn i n (s # ss) =
     (if ms_conn s = conn \<and> ms_id s = i
      then if u32_max < ms_credit s + n then Inl MockPanics else Inr (s\<lparr>ms_credit := ms_credit s + n\<rparr> # ss)
      else rbind (grant_first conn i n ss) (\<lambda>ss. Inr (s # ss)))"

definition mock_append :: "mock_fault \<Rightarrow> id \<Rightarrow> string \<Rightarrow> json list \<Rightarrow> nat \<Rightarrow> mock_state \<Rightarrow> mock_chans \<Rightarrow> mock_state \<times> mock_chans \<times> (mock_error + unit)" where
  "mock_append fault i name patches out st w =
     (if fault = StallOnZeroCredit \<and> (\<exists>s \<in> set (mk_subs st). ms_credit s = 0) then (st, w, Inr ())
      else case mk_logs st name of
          None \<Rightarrow> (st, w, Inl AbsentLog)
        | Some records \<Rightarrow>
            if patches = [] then (st, w, Inl MockPanics)
            else
              let v = length records + 1;
                  st = st\<lparr>mk_logs := (mk_logs st)(name \<mapsto> records @ [\<lparr>wr_version = v, wr_patch = hd patches\<rparr>])\<rparr>
              in case fanout fault st w of
                  (st, w, Inl e) \<Rightarrow> (st, w, Inl e)
                | (st, w, Inr _) \<Rightarrow>
                    if fault = FaultAckLoss then (st, w, Inr ())
                    else (case chan_send out (Ack i [v] v) w of (w, r) \<Rightarrow> (st, w, r)))"

definition mock_subscribe ::
    "mock_fault \<Rightarrow> id \<Rightarrow> string \<Rightarrow> version \<Rightarrow> nat \<Rightarrow> nat \<Rightarrow> nat \<Rightarrow> mock_state \<Rightarrow> mock_chans \<Rightarrow> mock_state \<times> mock_chans \<times> (mock_error + unit)" where
  "mock_subscribe fault i name from_version credit conn out st w =
     (case chan_sends out ((if fault \<noteq> MissingSubscribeAck then [OkFrame i] else []) @ (if fault = DuplicateSubscribeAck then [OkFrame i] else [])) w of
        (w, Inl e) \<Rightarrow> (st, w, Inl e)
      | (w, Inr _) \<Rightarrow>
          fanout fault (st\<lparr>mk_subs := mk_subs st @ [\<lparr>ms_id = i, ms_conn = conn, ms_log = name, ms_cursor = from_version, ms_credit = credit,
            ms_out = out\<rparr>]\<rparr>) w)"

definition mock_handle :: "mock_fault \<Rightarrow> request \<Rightarrow> nat \<Rightarrow> nat \<Rightarrow> mock_state \<Rightarrow> mock_chans \<Rightarrow> mock_state \<times> mock_chans \<times> (mock_error + unit)" where
  "mock_handle fault req conn out st w =
     (case req of
        Hello i v \<Rightarrow> (case chan_send out (Welcome i v max_frame None) w of (w, r) \<Rightarrow> (st, w, r))
      | Create i name _ \<Rightarrow>
          let records = (case mk_logs st name of None \<Rightarrow> [] | Some rs \<Rightarrow> rs);
              info = \<lparr>li_name = name, li_reducible = False, li_version = length records, li_oldest = 1, li_subscribers = 0\<rparr>
          in (case chan_send out (Logs i [info]) w of (w, r) \<Rightarrow> (st\<lparr>mk_logs := (mk_logs st)(name \<mapsto> records)\<rparr>, w, r))
      | Append i name patches _ \<Rightarrow> mock_append fault i name patches out st w
      | Subscribe i name from_version _ credit \<Rightarrow> mock_subscribe fault i name from_version credit conn out st w
      | Credit i n \<Rightarrow>
          (case grant_first conn i n (mk_subs st) of
             Inl e \<Rightarrow> (st, w, Inl e)
           | Inr subs \<Rightarrow>
               let st = st\<lparr>mk_subs := subs\<rparr> in
               case chan_send out (OkFrame i) w of
                 (w, Inl e) \<Rightarrow> (st, w, Inl e)
               | (w, Inr _) \<Rightarrow> fanout fault st w)
      | Cancel i \<Rightarrow>
          let st = st\<lparr>mk_subs := filter (\<lambda>s. \<not> (ms_conn s = conn \<and> ms_id s = i)) (mk_subs st)\<rparr> in
          (case chan_send out (End i) w of (w, r) \<Rightarrow> (st, w, r))
      | Ping i \<Rightarrow> (case chan_send out (Pong i) w of (w, r) \<Rightarrow> (st, w, r))
      | _ \<Rightarrow> (st, w, Inl NotImplemented))"

text \<open>
  What happens at the server: a request of a connection, with the room of the channels by then, or
  the end of a connection. One whose request fails is at its end too, and one whose task panics, but
  that leaves its streams behind. A connection's writer is its channel.
\<close>

datatype mock_event = Handles nat "nat \<Rightarrow> nat" request | HangsUp nat

record mock =
  mo_state :: mock_state
  mo_gone :: "nat list"
  mo_sent :: "(nat \<times> response) list"

definition mock_new :: mock where
  "mock_new = \<lparr>mo_state = \<lparr>mk_logs = Map.empty, mk_subs = []\<rparr>, mo_gone = [], mo_sent = []\<rparr>"

definition mock_drop :: "nat \<Rightarrow> mock \<Rightarrow> mock" where
  "mock_drop conn m =
     m\<lparr>mo_state := (mo_state m)\<lparr>mk_subs := filter (\<lambda>s. ms_conn s \<noteq> conn) (mk_subs (mo_state m))\<rparr>, mo_gone := conn # mo_gone m\<rparr>"

fun mock_step :: "mock_fault \<Rightarrow> mock_event \<Rightarrow> mock \<Rightarrow> mock" where
  "mock_step fault (Handles conn room req) m =
     (if conn \<in> set (mo_gone m) then m
      else case mock_handle fault req conn conn (mo_state m) \<lparr>mc_room = room, mc_sent = mo_sent m\<rparr> of
          (st, w, r) \<Rightarrow>
            let m = m\<lparr>mo_state := st, mo_sent := mc_sent w\<rparr> in
            case r of
              Inl e \<Rightarrow> if e = MockPanics then m\<lparr>mo_gone := conn # mo_gone m\<rparr> else mock_drop conn m
            | Inr _ \<Rightarrow> m)"
| "mock_step fault (HangsUp conn) m = (if conn \<in> set (mo_gone m) then m else mock_drop conn m)"

definition mock_run :: "mock_fault \<Rightarrow> mock_event list \<Rightarrow> mock" where
  "mock_run fault evs = fold (mock_step fault) evs mock_new"

section \<open>The run of the tests\<close>

definition mock_config :: load_config where
  "mock_config = (load_default [])\<lparr>ld_connections := 1, ld_logs := 2, ld_appenders := 2, ld_subscribers := 3, ld_rate := 1000,
     ld_duration := 20 * 1000000, ld_timeout := 200 * 1000000, ld_patch_size := 32\<rparr>"

definition exercise :: "probe_input \<Rightarrow> run_error + load_state" where
  "exercise i =
     (let names = [''one'', ''two''] in
      rbind (pool_create names (pi_setup i) (pool_new 1)) (\<lambda>(p, es).
      rbind (map_err (\<lambda>_. PlannedTooMany) (planned mock_config)) (\<lambda>n.
      rbind (load_run mock_config names p n (pi_start i) (pi_now i) (es @ pi_greeting i) (pi_events i)) (\<lambda>st.
      rbind (load_cancel (pi_cancelled i) st) (\<lambda>(st, es).
      rbind (heartbeat (es @ pi_closing i) (rn_pool st)) (\<lambda>(p, _).
        Inr (st\<lparr>rn_pool := p\<rparr>)))))))"


section \<open>Faults are found out\<close>

definition logs_ok :: "(string \<Rightarrow> wire_record list option) \<Rightarrow> bool" where
  "logs_ok L \<longleftrightarrow> (\<forall>name rs. L name = Some rs \<longrightarrow> map wr_version rs = [1..<length rs + 1])"

definition logs_grow :: "(string \<Rightarrow> wire_record list option) \<Rightarrow> (string \<Rightarrow> wire_record list option) \<Rightarrow> bool" where
  "logs_grow L L' \<longleftrightarrow> (\<forall>name rs. L name = Some rs \<longrightarrow> (\<exists>ys. L' name = Some (rs @ ys)))"

lemma logs_grow_refl: "logs_grow L L"
  by (simp add: logs_grow_def)

lemma logs_grow_new: "L name = None \<Longrightarrow> logs_grow L (L(name \<mapsto> rs))"
  by (simp add: logs_grow_def)

lemma logs_grow_append: "L name = Some rs \<Longrightarrow> logs_grow L (L(name \<mapsto> rs @ ys))"
  by (simp add: logs_grow_def)

lemma logs_ok_append:
  "logs_ok L \<Longrightarrow> L name = Some rs \<Longrightarrow> logs_ok (L(name \<mapsto> rs @ [\<lparr>wr_version = Suc (length rs), wr_patch = p\<rparr>]))"
  by (simp add: logs_ok_def)

text \<open>
  What the faults leave in a frame: no acknowledgement, never the first record, and on stream 2 of
  the log \<open>name\<close> the payload of the first record under the second version too.
\<close>

definition marked :: "mock_fault \<Rightarrow> string \<Rightarrow> (string \<Rightarrow> wire_record list option) \<Rightarrow> response \<Rightarrow> bool" where
  "marked fault name L r \<longleftrightarrow>
     (case r of
        Ack _ _ _ \<Rightarrow> fault \<noteq> FaultAckLoss
      | RecordsFrame i rs \<Rightarrow> \<forall>x \<in> set rs.
          (fault = FaultGap \<longrightarrow> wr_version x \<noteq> 1) \<and>
          (fault = FaultOrder \<and> i = 2 \<and> (wr_version x = 1 \<or> wr_version x = 2) \<longrightarrow> (\<exists>y ys. L name = Some (y # ys) \<and> wr_patch x = wr_patch y))
      | _ \<Rightarrow> True)"

definition second_on :: "mock_fault \<Rightarrow> string \<Rightarrow> mock_sub list \<Rightarrow> bool" where
  "second_on fault name ss \<longleftrightarrow> (fault = FaultOrder \<longrightarrow> (\<forall>s \<in> set ss. ms_id s = 2 \<longrightarrow> ms_log s = name))"

definition all_marked :: "mock_fault \<Rightarrow> string \<Rightarrow> (string \<Rightarrow> wire_record list option) \<Rightarrow> (nat \<times> response) list \<Rightarrow> bool" where
  "all_marked fault name L sent \<longleftrightarrow> (\<forall>r \<in> snd ` set sent. marked fault name L r)"

lemma marked_grow: "marked fault name L r \<Longrightarrow> logs_grow L L' \<Longrightarrow> marked fault name L' r"
  by (fastforce simp: marked_def logs_grow_def split: response.splits)

lemma all_marked_grow: "all_marked fault name L sent \<Longrightarrow> logs_grow L L' \<Longrightarrow> all_marked fault name L' sent"
  unfolding all_marked_def using marked_grow by blast

lemma push_one_marked:
  assumes "logs_ok L" "L (ms_log s) = Some records" "ms_cursor s < length records" "second_on fault name [s]" "r \<in> set (push_one fault records s)"
  shows "marked fault name L r"
proof -
  have v: "wr_version (records ! ms_cursor s) = ms_cursor s + 1"
  proof -
    have "map wr_version records ! ms_cursor s = [1..<length records + 1] ! ms_cursor s" using assms(1,2) by (simp add: logs_ok_def del: upt_Suc)
    then show ?thesis using assms(3) by (simp del: upt_Suc)
  qed
  obtain y ys where y: "records = y # ys" using assms(3) by (cases records) auto
  show ?thesis using assms(2,4,5) v y
    by (auto simp: push_one_def marked_def second_on_def Let_def split: if_splits)
qed

lemma chan_send_marked:
  "chan_send ch r w = (w', q) \<Longrightarrow> all_marked fault name L (mc_sent w) \<Longrightarrow> marked fault name L r \<Longrightarrow> all_marked fault name L (mc_sent w')"
  by (auto simp: chan_send_def all_marked_def split: if_splits)

lemma chan_sends_marked:
  "chan_sends ch rs w = (w', q) \<Longrightarrow> all_marked fault name L (mc_sent w) \<Longrightarrow> \<forall>r \<in> set rs. marked fault name L r \<Longrightarrow>
    all_marked fault name L (mc_sent w')"
proof (induction rs arbitrary: w)
  case (Cons r rs)
  obtain w1 q1 where s: "chan_send ch r w = (w1, q1)" by fastforce
  have "all_marked fault name L (mc_sent w1)" using chan_send_marked [OF s] Cons.prems by simp
  then show ?case using Cons.IH [of w1] Cons.prems s by (auto split: sum.splits)
qed simp

lemma push_loop_marked:
  "push_loop fault records s w = (s', w', q) \<Longrightarrow> logs_ok L \<Longrightarrow> L (ms_log s) = Some records \<Longrightarrow> second_on fault name [s] \<Longrightarrow>
    all_marked fault name L (mc_sent w) \<Longrightarrow> all_marked fault name L (mc_sent w') \<and> ms_id s' = ms_id s \<and> ms_log s' = ms_log s"
proof (induction fault records s w rule: push_loop.induct)
  case (1 fault records s w)
  show ?case
  proof (cases "ms_cursor s < length records \<and> (0 < ms_credit s \<or> fault = IgnoreCredit)")
    case True
    let ?s = "s\<lparr>ms_cursor := ms_cursor s + 1, ms_credit := ms_credit s - 1\<rparr>"
    obtain w1 q1 where w1: "chan_sends (ms_out s) (push_one fault records s) w = (w1, q1)" by fastforce
    have ok: "all_marked fault name L (mc_sent w1)"
      using chan_sends_marked [OF w1 "1.prems"(5)] push_one_marked [OF "1.prems"(2,3) _ "1.prems"(4)] True by blast
    show ?thesis
    proof (cases q1)
      case (Inl e)
      then have "s' = ?s" "w' = w1" using "1.prems"(1) True w1 by (simp_all add: push_loop.simps [of fault records s w])
      then show ?thesis using ok by simp
    next
      case (Inr u)
      have step: "push_loop fault records ?s w1 = (s', w', q)"
        using "1.prems"(1) True w1 Inr by (simp add: push_loop.simps [of fault records s w])
      have "second_on fault name [?s]" using "1.prems"(4) by (simp add: second_on_def)
      then show ?thesis using "1.IH" [OF True refl refl _ Inr, of w1] step ok "1.prems"(2,3) w1 by simp
    qed
  next
    case False
    then have "s' = s" "w' = w" using "1.prems"(1) unfolding push_loop.simps [of fault records s w] if_not_P [OF False] by simp_all
    then show ?thesis using "1.prems"(5) by simp
  qed
qed

lemma second_on_Cons: "second_on fault name (s # ss) \<longleftrightarrow> second_on fault name [s] \<and> second_on fault name ss"
  by (auto simp: second_on_def)

lemma fanout_loop_marked:
  "fanout_loop fault L ss w = (ss', w', q) \<Longrightarrow> logs_ok L \<Longrightarrow> second_on fault name ss \<Longrightarrow> all_marked fault name L (mc_sent w) \<Longrightarrow>
    all_marked fault name L (mc_sent w') \<and> second_on fault name ss'"
proof (induction ss arbitrary: w ss' w' q)
  case (Cons s ss)
  show ?case
  proof (cases "L (ms_log s)")
    case (Some records)
    obtain s1 w1 q1 where p: "push_loop fault records s w = (s1, w1, q1)" by (metis prod_cases3)
    have two: "second_on fault name [s]" "second_on fault name ss" using Cons.prems(3) second_on_Cons by blast+
    have one: "all_marked fault name L (mc_sent w1)" "second_on fault name [s1]"
      using push_loop_marked [OF p Cons.prems(2) Some two(1) Cons.prems(4)] two(1) by (auto simp: second_on_def)
    obtain ss2 w2 q2 where f: "fanout_loop fault L ss w1 = (ss2, w2, q2)" by (metis prod_cases3)
    note rest = Cons.IH [OF f Cons.prems(2) two(2) one(1)]
    show ?thesis
    proof (cases q1)
      case (Inl e)
      then have "ss' = s1 # ss" "w' = w1" using Cons.prems(1) Some p by simp_all
      then show ?thesis using one two(2) second_on_Cons by blast
    next
      case (Inr u)
      then have "ss' = s1 # ss2" "w' = w2" using Cons.prems(1) Some p f by simp_all
      then show ?thesis using one rest second_on_Cons by blast
    qed
  qed (use Cons.prems in simp)
qed simp

text \<open>The invariant of a run: the logs are numbered and what was sent has the marks of the fault.\<close>

definition mock_inv :: "mock_fault \<Rightarrow> string \<Rightarrow> mock_state \<Rightarrow> (nat \<times> response) list \<Rightarrow> bool" where
  "mock_inv fault name st sent \<longleftrightarrow> logs_ok (mk_logs st) \<and> second_on fault name (mk_subs st) \<and> all_marked fault name (mk_logs st) sent"

lemma fanout_inv: "fanout fault st w = (st', w', q) \<Longrightarrow> mock_inv fault name st (mc_sent w) \<Longrightarrow> mock_inv fault name st' (mc_sent w')"
  using fanout_loop_marked [of fault "mk_logs st" "mk_subs st" w _ w' q name]
  by (auto simp: fanout_def mock_inv_def split: prod.splits)

lemma chan_send_inv: "chan_send ch r w = (w', q) \<Longrightarrow> mock_inv fault name st (mc_sent w) \<Longrightarrow> marked fault name (mk_logs st) r \<Longrightarrow>
    mock_inv fault name st (mc_sent w')"
  unfolding mock_inv_def using chan_send_marked by blast

lemma mock_append_inv:
  assumes "mock_append fault i log_name patches out st w = (st', w', q)" "mock_inv fault name st (mc_sent w)"
  shows "mock_inv fault name st' (mc_sent w')"
proof (cases "(fault = StallOnZeroCredit \<and> (\<exists>s \<in> set (mk_subs st). ms_credit s = 0)) \<or> mk_logs st log_name = None \<or> patches = []")
  case True
  then show ?thesis using assms by (auto simp: mock_append_def split: if_splits option.splits)
next
  case False
  then obtain records where r: "mk_logs st log_name = Some records" "patches \<noteq> []" by auto
  have busy: "\<not> (fault = StallOnZeroCredit \<and> (\<exists>s \<in> set (mk_subs st). ms_credit s = 0))" using False by blast
  let ?st = "st\<lparr>mk_logs := (mk_logs st)(log_name \<mapsto> records @ [\<lparr>wr_version = length records + 1, wr_patch = hd patches\<rparr>])\<rparr>"
  have "mock_inv fault name ?st (mc_sent w)"
  proof -
    have "logs_grow (mk_logs st) (mk_logs ?st)" using r(1) by (simp add: logs_grow_def)
    moreover have "logs_ok (mk_logs ?st)" using assms(2) r(1) by (simp add: mock_inv_def logs_ok_append)
    ultimately show ?thesis using assms(2) all_marked_grow by (auto simp: mock_inv_def)
  qed
  obtain st1 w1 q1 where f: "fanout fault ?st w = (st1, w1, q1)" by (metis prod_cases3)
  note inv = fanout_inv [OF f \<open>mock_inv fault name ?st (mc_sent w)\<close>]
  show ?thesis
  proof (cases "q1 = Inr () \<and> fault \<noteq> FaultAckLoss")
    case True
    obtain w2 q2 where c: "chan_send out (Ack i [length records + 1] (length records + 1)) w1 = (w2, q2)" by fastforce
    have "mock_inv fault name st1 (mc_sent w2)" using chan_send_inv [OF c inv] True by (simp add: marked_def)
    moreover have "st' = st1" "w' = w2" using assms(1) r f c True unfolding mock_append_def if_not_P [OF busy] by simp_all
    ultimately show ?thesis by simp
  next
    case no: False
    then have "st' = st1" "w' = w1" using assms(1) r f unfolding mock_append_def if_not_P [OF busy] by (cases q1; simp)+
    then show ?thesis using inv by simp
  qed
qed

lemma grant_first_second: "grant_first conn i n ss = Inr ss' \<Longrightarrow> second_on fault name ss \<Longrightarrow> second_on fault name ss'"
proof (induction ss arbitrary: ss')
  case (Cons s ss)
  show ?case using Cons.prems Cons.IH second_on_Cons
    by (auto simp: rbind_def second_on_def split: if_splits sum.splits)
qed simp

lemma mock_handle_inv:
  assumes "mock_handle fault req conn out st w = (st', w', q)" "mock_inv fault name st (mc_sent w)"
    and "\<forall>n f m c. req = Subscribe 2 n f m c \<longrightarrow> fault = FaultOrder \<longrightarrow> n = name"
  shows "mock_inv fault name st' (mc_sent w')"
proof -
  have plain: "mock_inv fault name st1 (mc_sent w')" if "chan_send out r w = (w', q)" "mock_inv fault name st1 (mc_sent w)" "marked fault name (mk_logs st1) r" for r st1
    using chan_send_inv that by blast
  show ?thesis
  proof (cases req)
    case (Hello i v)
    then show ?thesis using assms(1,2) plain by (auto simp: mock_handle_def marked_def split: prod.splits)
  next
    case (Append i n ps d)
    then show ?thesis using assms(1,2) mock_append_inv by (simp add: mock_handle_def)
  next
    case (Subscribe i n f m c)
    obtain w1 q1 where s: "chan_sends out ((if fault \<noteq> MissingSubscribeAck then [OkFrame i] else []) @ (if fault = DuplicateSubscribeAck then [OkFrame i] else [])) w = (w1, q1)"
      by fastforce
    have sent: "all_marked fault name (mk_logs st) (mc_sent w1)"
      by (rule chan_sends_marked [OF s]) (use assms(2) in \<open>auto simp: mock_inv_def marked_def\<close>)
    let ?st = "st\<lparr>mk_subs := mk_subs st @ [\<lparr>ms_id = i, ms_conn = conn, ms_log = n, ms_cursor = f, ms_credit = c, ms_out = out\<rparr>]\<rparr>"
    have "mock_inv fault name st (mc_sent w1)" "mock_inv fault name ?st (mc_sent w1)"
      using assms(2,3) sent Subscribe by (auto simp: mock_inv_def second_on_def)
    then show ?thesis using assms(1) s Subscribe fanout_inv [of fault ?st w1 st' w' q]
      by (cases q1) (auto simp: mock_handle_def mock_subscribe_def)
  next
    case (Credit i n)
    show ?thesis
    proof (cases "grant_first conn i n (mk_subs st)")
      case (Inr subs)
      have inv: "mock_inv fault name (st\<lparr>mk_subs := subs\<rparr>) (mc_sent w)" using assms(2) grant_first_second [OF Inr] by (simp add: mock_inv_def)
      obtain w1 q1 where s: "chan_send out (OkFrame i) w = (w1, q1)" by fastforce
      have "mock_inv fault name (st\<lparr>mk_subs := subs\<rparr>) (mc_sent w1)" using chan_send_inv [OF s inv] by (simp add: marked_def)
      then show ?thesis using assms(1) Credit Inr s fanout_inv by (cases q1) (auto simp: mock_handle_def)
    qed (use assms Credit in \<open>simp add: mock_handle_def\<close>)
  next
    case (Cancel i)
    have "mock_inv fault name (st\<lparr>mk_subs := filter (\<lambda>s. \<not> (ms_conn s = conn \<and> ms_id s = i)) (mk_subs st)\<rparr>) (mc_sent w)"
      using assms(2) by (simp add: mock_inv_def second_on_def)
    then show ?thesis using assms(1) Cancel plain [of "End i"] by (auto simp: mock_handle_def Let_def marked_def split: prod.splits)
  next
    case (Create i n b)
    let ?rs = "case mk_logs st n of None \<Rightarrow> [] | Some rs \<Rightarrow> rs"
    have "logs_ok ((mk_logs st)(n \<mapsto> ?rs))" using assms(2) by (auto simp: mock_inv_def logs_ok_def simp del: upt_Suc split: option.splits)
    moreover have "logs_grow (mk_logs st) ((mk_logs st)(n \<mapsto> ?rs))" by (auto simp: logs_grow_def split: option.splits)
    moreover have "all_marked fault name ((mk_logs st)(n \<mapsto> ?rs)) (mc_sent w)"
      using assms(2) all_marked_grow [OF _ calculation(2)] by (simp add: mock_inv_def)
    ultimately have "mock_inv fault name (st\<lparr>mk_logs := (mk_logs st)(n \<mapsto> ?rs)\<rparr>) (mc_sent w)"
      using assms(2) by (simp add: mock_inv_def)
    then show ?thesis using assms(1) Create plain [of "Logs i _"] by (auto simp: mock_handle_def Let_def marked_def split: prod.splits)
  next
    case (Ping i)
    then show ?thesis using assms(1,2) plain by (auto simp: mock_handle_def marked_def split: prod.splits)
  qed (use assms in \<open>simp_all add: mock_handle_def\<close>)
qed

definition second_stream_on :: "string \<Rightarrow> mock_event list \<Rightarrow> bool" where
  "second_stream_on name evs \<longleftrightarrow> (\<forall>conn room n f m c. Handles conn room (Subscribe 2 n f m c) \<in> set evs \<longrightarrow> n = name)"

lemma mock_drop_inv: "mock_inv fault name (mo_state m) (mo_sent m) \<Longrightarrow> mock_inv fault name (mo_state (mock_drop conn m)) (mo_sent (mock_drop conn m))"
  by (auto simp: mock_drop_def mock_inv_def second_on_def)

lemma mock_step_inv:
  assumes "mock_inv fault name (mo_state m) (mo_sent m)" "fault = FaultOrder \<longrightarrow> second_stream_on name [ev]"
  shows "mock_inv fault name (mo_state (mock_step fault ev m)) (mo_sent (mock_step fault ev m))"
proof (cases ev)
  case (Handles conn room req)
  show ?thesis
  proof (cases "conn \<in> set (mo_gone m)")
    case False
    obtain st w q where h: "mock_handle fault req conn conn (mo_state m) \<lparr>mc_room = room, mc_sent = mo_sent m\<rparr> = (st, w, q)"
      by (metis prod_cases3)
    have "mock_inv fault name st (mc_sent w)"
      by (rule mock_handle_inv [OF h]) (use assms in \<open>auto simp: Handles second_stream_on_def\<close>)
    then show ?thesis using False h mock_drop_inv [of fault name "m\<lparr>mo_state := st, mo_sent := mc_sent w\<rparr>" conn]
      by (cases q) (simp_all add: Handles Let_def)
  qed (use assms in \<open>simp add: Handles\<close>)
qed (use assms mock_drop_inv in simp)

lemma mock_run_inv:
  assumes "fault = FaultOrder \<longrightarrow> second_stream_on name evs"
  shows "mock_inv fault name (mo_state (mock_run fault evs)) (mo_sent (mock_run fault evs))"
proof -
  have "mock_inv fault name (mo_state (fold (mock_step fault) evs m)) (mo_sent (fold (mock_step fault) evs m))"
    if "mock_inv fault name (mo_state m) (mo_sent m)" "fault = FaultOrder \<longrightarrow> second_stream_on name evs" for m
    using that
  proof (induction evs arbitrary: m)
    case (Cons ev evs)
    have "fault = FaultOrder \<longrightarrow> second_stream_on name [ev] \<and> second_stream_on name evs"
      using Cons.prems(2) by (auto simp: second_stream_on_def)
    then show ?case using Cons.IH mock_step_inv [OF Cons.prems(1)] by simp
  qed simp
  moreover have "mock_inv fault name (mo_state mock_new) (mo_sent mock_new)"
    by (simp add: mock_inv_def mock_new_def logs_ok_def second_on_def all_marked_def)
  ultimately show ?thesis using assms by (simp add: mock_run_def)
qed


text \<open>What the frames of a faulty server are missing, a load that passes has seen.\<close>

lemma arrivals_acked: "acks_in events s \<noteq> [] \<Longrightarrow> \<exists>vs sy. Ack (append_base + s) vs sy \<in> set (arrivals events)"
proof (induction events rule: arrivals.induct)
  case (2 peer arrived r room es)
  then show ?case by (cases "acks_in es s = []") (auto simp: acks_in_def split: response.splits if_splits)
qed (auto simp: acks_in_def)

lemma frames_in_pushed: "x \<in> set (frames_in fs i) \<Longrightarrow> \<exists>rs. RecordsFrame i rs \<in> set fs \<and> x \<in> set rs"
  by (auto simp: frames_in_def split: response.splits if_splits)

lemma read_payload_patch:
  "read_payload k n x = Inr s \<Longrightarrow> wr_patch x = wr_patch y \<Longrightarrow> read_payload k n y = Inr s' \<Longrightarrow> s = s'"
  by (auto simp: read_payload_def ok_or_def split: json.splits if_splits option.splits)

lemma mock_config_simps:
  "ld_subscribers mock_config = 3" "ld_logs mock_config = 2" "ld_appenders mock_config = 2" "ld_patch_size mock_config = 32"
  "planned mock_config = Inr 20"
  by (simp_all add: mock_config_def load_default_def planned_def u64_max_def)

lemma lanes_of_one: "s < 20 \<Longrightarrow> lane_log mock_config s = (s mod 4) div 2"
  by (simp add: lane_log_def mock_config_simps)

lemma exercise_loads:
  assumes "exercise i = Inr st"
  shows "\<exists>p greeting st. load_run mock_config [''one'', ''two''] p 20 (pi_start i) (pi_now i) greeting (pi_events i) = Inr st"
  using assms by (auto simp: exercise_def Let_def rbind_def mock_config_simps simp del: pool_create.simps split: sum.splits prod.splits)

text \<open>
  What such a run has seen of the first log on its second stream: more than one record, numbered
  from 1, whose payloads differ.
\<close>

lemma exercise_sees:
  assumes "exercise i = Inr st"
  shows "\<exists>vs sy. Ack append_base vs sy \<in> set (arrivals (pi_events i))"
    "\<exists>r1 r2. r1 \<in> set (frames_in (arrivals (pi_events i)) 2) \<and> r2 \<in> set (frames_in (arrivals (pi_events i)) 2) \<and>
      wr_version r1 = 1 \<and> wr_version r2 = 2 \<and> wr_patch r1 \<noteq> wr_patch r2"
proof -
  let ?fs = "frames_in (arrivals (pi_events i)) 2"
  obtain p greeting st1 where run: "load_run mock_config [''one'', ''two''] p 20 (pi_start i) (pi_now i) greeting (pi_events i) = Inr st1"
    using exercise_loads [OF assms] by blast
  obtain h where exact: "\<forall>k < length [''one'', ''two'']. distinct (h k) \<and> set (h k) = {s. s < 20 \<and> lane_log mock_config s = k}"
      "\<forall>s < 20. \<exists>v synced. acks_in (pi_events i) s = [([v], synced)] \<and> 0 < v \<and> v \<le> length (h (lane_log mock_config s)) \<and>
        h (lane_log mock_config s) ! (v - 1) = s \<and> (ld_durability mock_config = Durable \<longrightarrow> v \<le> synced)"
      "\<forall>k < length [''one'', ''two'']. \<forall>s < 3. let pushed = frames_in (arrivals (pi_events i)) (k * 3 + s + 1) in
        map wr_version pushed = [1..<length (h k) + 1] \<and> map (read_payload k 32) pushed = map Inr (h k)"
    using load_exact [OF run] unfolding mock_config_simps by blast
  have h: "distinct (h 0)" "set (h 0) = {s. s < 20 \<and> lane_log mock_config s = 0}"
    using exact(1) by (simp_all del: upt_Suc)
  have "let pushed = frames_in (arrivals (pi_events i)) (0 * 3 + 1 + 1) in
        map wr_version pushed = [1..<length (h 0) + 1] \<and> map (read_payload 0 32) pushed = map Inr (h 0)"
    by (rule exact(3) [THEN spec, THEN mp, THEN spec, THEN mp]) simp_all
  then have pushed: "map wr_version ?fs = [1..<length (h 0) + 1]" "map (read_payload 0 32) ?fs = map Inr (h 0)"
    by (simp_all add: Let_def numeral_2_eq_2 del: upt_Suc)
  show "\<exists>vs sy. Ack append_base vs sy \<in> set (arrivals (pi_events i))"
  proof -
    obtain v synced where "acks_in (pi_events i) 0 = [([v], synced)]" using exact(2) by (metis zero_less_numeral)
    then show ?thesis using arrivals_acked [of "pi_events i" 0] by simp
  qed
  have "{0, 1} \<subseteq> set (h 0)" unfolding h(2) by (simp add: lanes_of_one)
  then have two: "2 \<le> length (h 0)"
    using card_mono [of "set (h 0)" "{0, 1}"] distinct_card [OF h(1)] by simp
  then have long: "2 \<le> length ?fs" using arg_cong [OF pushed(1), of length] by simp
  have v: "wr_version (?fs ! j) = j + 1" "read_payload 0 32 (?fs ! j) = Inr (h 0 ! j)" if "j < 2" for j
    using that long two arg_cong [OF pushed(1), of "\<lambda>xs. xs ! j"] arg_cong [OF pushed(2), of "\<lambda>xs. xs ! j"] by (simp_all del: upt_Suc)
  have "h 0 ! 0 \<noteq> h 0 ! 1" using h(1) two by (cases "h 0"; cases "tl (h 0)") auto
  then have "wr_patch (?fs ! 0) \<noteq> wr_patch (?fs ! 1)"
    using read_payload_patch [OF v(2) [of 0] _ v(2) [of 1]] by auto
  then show "\<exists>r1 r2. r1 \<in> set ?fs \<and> r2 \<in> set ?fs \<and> wr_version r1 = 1 \<and> wr_version r2 = 2 \<and> wr_patch r1 \<noteq> wr_patch r2"
  proof (intro exI conjI)
    show "?fs ! 0 \<in> set ?fs" "?fs ! 1 \<in> set ?fs" using long by (auto intro!: nth_mem)
    show "wr_version (?fs ! 0) = 1" "wr_version (?fs ! 1) = 2" using v(1) [of 0] v(1) [of 1] by simp_all
  qed
qed

text \<open>
  C21: A server with a fault does not pass. Whatever requests the mock server has handled with
  versions missing, records out of order or acknowledgements lost, if the frames a run of the tests
  loads with are frames it sent, however many and in whatever order they come, the run ends in an error.
\<close>

theorem faulty_mock_never_passes:
  assumes "fault = FaultGap \<or> fault = FaultAckLoss \<or> fault = FaultOrder \<and> second_stream_on name evs"
    and "set (arrivals (pi_events i)) \<subseteq> snd ` set (mo_sent (mock_run fault evs))"
  shows "exercise i \<noteq> Inr st"
proof
  assume passed: "exercise i = Inr st"
  obtain name' where "fault = FaultOrder \<longrightarrow> second_stream_on name' evs" using assms(1) by blast
  from mock_run_inv [OF this] obtain L where L: "\<And>r. r \<in> set (arrivals (pi_events i)) \<Longrightarrow> marked fault name' L r"
    using assms(2) unfolding mock_inv_def all_marked_def by blast
  obtain vs sy where "Ack append_base vs sy \<in> set (arrivals (pi_events i))" using exercise_sees(1) [OF passed] by blast
  then have no_loss: "fault \<noteq> FaultAckLoss" using L by (fastforce simp: marked_def)
  obtain r1 r2 where r: "r1 \<in> set (frames_in (arrivals (pi_events i)) 2)" "r2 \<in> set (frames_in (arrivals (pi_events i)) 2)"
      "wr_version r1 = 1" "wr_version r2 = 2" "wr_patch r1 \<noteq> wr_patch r2" using exercise_sees(2) [OF passed] by blast
  obtain rs1 rs2 where rs: "RecordsFrame 2 rs1 \<in> set (arrivals (pi_events i))" "r1 \<in> set rs1"
      "RecordsFrame 2 rs2 \<in> set (arrivals (pi_events i))" "r2 \<in> set rs2" using frames_in_pushed r(1,2) by blast
  have m: "marked fault name' L (RecordsFrame 2 rs1)" "marked fault name' L (RecordsFrame 2 rs2)" using L rs by blast+
  show False
  proof (cases "fault = FaultGap")
    case True
    then show False using m(1) rs(2) r(3) by (auto simp: marked_def)
  next
    case False
    then have "fault = FaultOrder" using assms(1) no_loss by blast
    then show False using m rs(2,4) r(3,4,5) by (fastforce simp: marked_def)
  qed
qed


theorem faulty_mock_never_passes_witness:
  "\<forall>st. exercise \<lparr>pi_setup = [], pi_start = 0, pi_now = 0, pi_greeting = [], pi_events = [Arrives 0 0 (Inr (RecordsFrame 7 [\<lparr>wr_version = 2, wr_patch = JNull\<rparr>])) True],
     pi_cancelled = [], pi_resumed = [], pi_extra = [], pi_closing = []\<rparr> \<noteq> Inr st"
proof
  fix st
  let ?evs = "[Handles 0 (\<lambda>_. 9) (Create 1 ''a'' False), Handles 0 (\<lambda>_. 9) (Subscribe 7 ''a'' 0 Records 5),
    Handles 0 (\<lambda>_. 9) (Append 2 ''a'' [JNull] Written), Handles 0 (\<lambda>_. 9) (Append 3 ''a'' [JNull] Written)]"
  have "RecordsFrame 7 [\<lparr>wr_version = 2, wr_patch = JNull\<rparr>] \<in> snd ` set (mo_sent (mock_run FaultGap ?evs))" by code_simp
  then show "exercise \<lparr>pi_setup = [], pi_start = 0, pi_now = 0, pi_greeting = [], pi_events = [Arrives 0 0 (Inr (RecordsFrame 7 [\<lparr>wr_version = 2, wr_patch = JNull\<rparr>])) True],
     pi_cancelled = [], pi_resumed = [], pi_extra = [], pi_closing = []\<rparr> \<noteq> Inr st"
    by (intro faulty_mock_never_passes [of FaultGap _ ?evs]) simp_all
qed

section \<open>Without a fault the log is pushed\<close>

text \<open>The records a stream was pushed: those under its id on the channel of its connection.\<close>

definition pushed_to :: "nat \<Rightarrow> id \<Rightarrow> (nat \<times> response) list \<Rightarrow> wire_record list" where
  "pushed_to c i sent = frames_in (map snd (filter (\<lambda>x. fst x = c) sent)) i"

definition is_push :: "response \<Rightarrow> bool" where
  "is_push r \<longleftrightarrow> (case r of RecordsFrame _ _ \<Rightarrow> True | _ \<Rightarrow> False)"

lemma pushed_to_append [simp]: "pushed_to c i (xs @ ys) = pushed_to c i xs @ pushed_to c i ys"
  by (simp add: pushed_to_def frames_in_def)

lemma pushed_Nil [simp]: "pushed_to c i [] = []"
  by (simp add: pushed_to_def frames_in_def)

lemma pushed_other [simp]: "\<not> is_push r \<Longrightarrow> pushed_to c i [(ch, r)] = []"
  by (simp add: pushed_to_def frames_in_def is_push_def split: response.splits)

lemma pushed_records:
  "pushed_to c i (map (\<lambda>j. (ch, RecordsFrame k [g j])) js) = (if ch = c \<and> k = i then map g js else [])"
  by (induction js) (auto simp: pushed_to_def frames_in_def)

lemma push_loop_honest:
  "push_loop NoFault records s w = (s', w', q) \<Longrightarrow> q \<noteq> Inl ChannelFull \<Longrightarrow>
    \<exists>k. k \<le> ms_credit s \<and> (0 < k \<longrightarrow> ms_cursor s + k \<le> length records) \<and>
      s' = s\<lparr>ms_cursor := ms_cursor s + k, ms_credit := ms_credit s - k\<rparr> \<and>
      mc_sent w' = mc_sent w @ map (\<lambda>j. (ms_out s, RecordsFrame (ms_id s) [records ! j])) [ms_cursor s..<ms_cursor s + k]"
proof (induction "NoFault" records s w rule: push_loop.induct)
  case (1 records s w)
  show ?case
  proof (cases "ms_cursor s < length records \<and> 0 < ms_credit s")
    case True
    let ?s = "s\<lparr>ms_cursor := ms_cursor s + 1, ms_credit := ms_credit s - 1\<rparr>"
    let ?r = "RecordsFrame (ms_id s) [records ! ms_cursor s]"
    have one: "push_one NoFault records s = [?r]" by (simp add: push_one_def Let_def)
    obtain w1 q1 where w1: "chan_send (ms_out s) ?r w = (w1, q1)" by fastforce
    have "q1 = Inr ()"
    proof (cases q1)
      case (Inl e)
      then have "e = ChannelFull" using w1 by (auto simp: chan_send_def split: if_splits)
      then have "q = Inl ChannelFull" using "1.prems"(1) True w1 Inl by (simp add: push_loop.simps [of NoFault records s w] one)
      then show ?thesis using "1.prems"(2) by simp
    qed simp
    then have sent: "mc_sent w1 = mc_sent w @ [(ms_out s, ?r)]" using w1 by (auto simp: chan_send_def split: if_splits)
    have sends: "chan_sends (ms_out ?s) (push_one NoFault records s) w = (w1, Inr ())" using w1 \<open>q1 = _\<close> one by simp
    have "push_loop NoFault records ?s w1 = (s', w', q)"
      using "1.prems"(1) True w1 \<open>q1 = _\<close> by (simp add: push_loop.simps [of NoFault records s w] one)
    then obtain k where k: "k \<le> ms_credit s - 1" "0 < k \<longrightarrow> ms_cursor s + 1 + k \<le> length records"
        "s' = s\<lparr>ms_cursor := ms_cursor s + 1 + k, ms_credit := ms_credit s - 1 - k\<rparr>"
        "mc_sent w' = mc_sent w1 @ map (\<lambda>j. (ms_out s, RecordsFrame (ms_id s) [records ! j])) [ms_cursor s + 1..<ms_cursor s + 1 + k]"
      using "1.hyps" [of "push_one NoFault records s" ?s w1 "Inr ()" "()"] True sends "1.prems"(2) by auto
    have "[ms_cursor s..<ms_cursor s + Suc k] = ms_cursor s # [ms_cursor s + 1..<ms_cursor s + 1 + k]" by (simp add: upt_conv_Cons del: upt_Suc)
    then show ?thesis using k sent True by (intro exI [of _ "Suc k"]) (auto simp del: upt_Suc)
  next
    case False
    then have "s' = s" "w' = w" using "1.prems"(1) by (auto simp: push_loop.simps [of NoFault records s w])
    then show ?thesis by (intro exI [of _ 0]) simp
  qed
qed

lemma chan_sends_full: "chan_sends ch rs w = (w', Inl e) \<Longrightarrow> e = ChannelFull"
  by (induction rs arbitrary: w) (auto simp: chan_send_def split: if_splits prod.splits sum.splits)

lemma push_loop_full: "push_loop fault records s w = (s', w', Inl e) \<Longrightarrow> e = ChannelFull"
proof (induction fault records s w rule: push_loop.induct)
  case (1 fault records s w)
  obtain w1 q1 where w1: "chan_sends (ms_out s) (push_one fault records s) w = (w1, q1)" by fastforce
  show ?case
  proof (cases "ms_cursor s < length records \<and> (0 < ms_credit s \<or> fault = IgnoreCredit)")
    case True
    then show ?thesis using "1.IH" [OF True refl refl _, of w1 q1] "1.prems" w1 chan_sends_full [of "ms_out s" "push_one fault records s" w w1 e]
      by (cases q1) (auto simp: push_loop.simps [of fault records s w])
  next
    case False
    then show ?thesis using "1.prems" unfolding push_loop.simps [of fault records s w] if_not_P [OF False] by simp
  qed
qed

definition tracked :: "nat \<Rightarrow> id \<Rightarrow> mock_sub \<Rightarrow> bool" where
  "tracked c i s \<longleftrightarrow> ms_out s = c \<and> ms_id s = i"

text \<open>
  What holds of one stream, from \<open>f\<close> on the log \<open>n\<close>, and its budget: it was pushed a part of the log,
  it stands at the end of that part, and it has no credit beyond the budget.
\<close>

definition told_so_far :: "string \<Rightarrow> nat \<Rightarrow> nat \<Rightarrow> (string \<Rightarrow> wire_record list option) \<Rightarrow> wire_record list \<Rightarrow> bool" where
  "told_so_far n f budget L ps \<longleftrightarrow>
     (ps = [] \<or> (\<exists>records. L n = Some records \<and> prefix ps (drop f records))) \<and> length ps \<le> budget"

definition stands :: "nat \<Rightarrow> id \<Rightarrow> string \<Rightarrow> nat \<Rightarrow> nat \<Rightarrow> wire_record list \<Rightarrow> mock_sub list \<Rightarrow> bool" where
  "stands c i n f budget ps ss \<longleftrightarrow>
     length (filter (tracked c i) ss) \<le> 1 \<and>
     (\<forall>s \<in> set ss. tracked c i s \<longrightarrow> ms_log s = n \<and> ms_cursor s = f + length ps \<and> ms_credit s + length ps \<le> budget)"

lemma prefix_next:
  assumes "prefix xs (drop f rs)" "f + length xs + k \<le> length rs"
  shows "prefix (xs @ map ((!) rs) [f + length xs..<f + length xs + k]) (drop f rs)"
proof -
  obtain ys where ys: "drop f rs = xs @ ys" using assms(1) by (auto simp: prefix_def)
  have "drop (f + length xs) rs = drop (length xs) (drop f rs)" by (simp add: add.commute)
  then have "drop (f + length xs) rs = ys" by (simp add: ys)
  moreover have "map ((!) rs) [f + length xs..<f + length xs + k] = take k (drop (f + length xs) rs)"
    using assms(2) by (intro nth_equalityI) simp_all
  ultimately show ?thesis by (simp add: ys take_is_prefix)
qed

lemma push_step:
  assumes "push_loop NoFault records s w = (s', w', q)" "q \<noteq> Inl ChannelFull" "L (ms_log s) = Some records"
    and "told_so_far n f budget L (pushed_to c i (mc_sent w))" "stands c i n f budget (pushed_to c i (mc_sent w)) [s]"
  shows "told_so_far n f budget L (pushed_to c i (mc_sent w'))" "stands c i n f budget (pushed_to c i (mc_sent w')) [s']"
    "tracked c i s' = tracked c i s" "ms_conn s' = ms_conn s" "ms_out s' = ms_out s"
    "\<not> tracked c i s \<Longrightarrow> pushed_to c i (mc_sent w') = pushed_to c i (mc_sent w)"
proof -
  obtain k where k: "k \<le> ms_credit s" "0 < k \<longrightarrow> ms_cursor s + k \<le> length records"
      "s' = s\<lparr>ms_cursor := ms_cursor s + k, ms_credit := ms_credit s - k\<rparr>"
      "mc_sent w' = mc_sent w @ map (\<lambda>j. (ms_out s, RecordsFrame (ms_id s) [records ! j])) [ms_cursor s..<ms_cursor s + k]"
    using push_loop_honest [OF assms(1,2)] by blast
  let ?p = "pushed_to c i (mc_sent w)"
  have p: "pushed_to c i (mc_sent w') = ?p @ (if tracked c i s then map ((!) records) [ms_cursor s..<ms_cursor s + k] else [])"
    by (simp add: k(4) pushed_records tracked_def)
  show same: "tracked c i s' = tracked c i s" "ms_conn s' = ms_conn s" "ms_out s' = ms_out s" using k(3) by (simp_all add: tracked_def)
  show "\<not> tracked c i s \<Longrightarrow> pushed_to c i (mc_sent w') = ?p" using p by simp
  show "told_so_far n f budget L (pushed_to c i (mc_sent w'))"
  proof (cases "tracked c i s \<and> 0 < k")
    case True
    then have at: "ms_log s = n" "ms_cursor s = f + length ?p" "ms_credit s + length ?p \<le> budget" using assms(5) by (simp_all add: stands_def)
    have "prefix ?p (drop f records)" using assms(3,4) at(1) by (auto simp: told_so_far_def)
    then have "prefix (?p @ map ((!) records) [ms_cursor s..<ms_cursor s + k]) (drop f records)"
      unfolding at(2) using k(2) True at(2) by (intro prefix_next) simp_all
    then show ?thesis using p True at k(1) assms(3) by (simp add: told_so_far_def)
  next
    case False
    then have "pushed_to c i (mc_sent w') = ?p" using p by auto
    then show ?thesis using assms(4) by simp
  qed
  show "stands c i n f budget (pushed_to c i (mc_sent w')) [s']"
    using assms(5) k(1,3) p same(1) by (auto simp: stands_def)
qed

lemma stands_Cons:
  "stands c i n f b p (s # ss) \<longleftrightarrow> stands c i n f b p [s] \<and> stands c i n f b p ss \<and> (tracked c i s \<longrightarrow> (\<forall>s \<in> set ss. \<not> tracked c i s))"
  by (auto simp: stands_def filter_empty_conv)

lemma stands_none: "\<forall>s \<in> set ss. \<not> tracked c i s \<Longrightarrow> stands c i n f b p ss"
  by (simp add: stands_def filter_empty_conv [THEN iffD2])

lemma fanout_honest:
  assumes "fanout_loop NoFault L ss w = (ss', w', q)" "q \<noteq> Inl ChannelFull"
    and "told_so_far n f budget L (pushed_to c i (mc_sent w))" "stands c i n f budget (pushed_to c i (mc_sent w)) ss"
  shows "told_so_far n f budget L (pushed_to c i (mc_sent w')) \<and> stands c i n f budget (pushed_to c i (mc_sent w')) ss' \<and>
    map ms_conn ss' = map ms_conn ss \<and> map ms_out ss' = map ms_out ss \<and> map (tracked c i) ss' = map (tracked c i) ss \<and>
    ((\<forall>s \<in> set ss. \<not> tracked c i s) \<longrightarrow> pushed_to c i (mc_sent w') = pushed_to c i (mc_sent w))"
  using assms
proof (induction ss arbitrary: w ss' w' q)
  case (Cons s ss)
  show ?case
  proof (cases "L (ms_log s)")
    case None
    then show ?thesis using Cons.prems by simp
  next
    case (Some records)
    obtain s1 w1 q1 where p: "push_loop NoFault records s w = (s1, w1, q1)" by (metis prod_cases3)
    have q1: "\<exists>u. q1 = Inr u"
    proof (cases q1)
      case (Inl e)
      then have "q = Inl ChannelFull" using push_loop_full [of NoFault records s w s1 w1 e] p Cons.prems(1) Some by auto
      then show ?thesis using Cons.prems(2) by simp
    qed simp
    then obtain ss2 w2 q2 where rec: "fanout_loop NoFault L ss w1 = (ss2, w2, q2)" and out: "ss' = s1 # ss2" "w' = w2" "q = q2"
      using Cons.prems(1) Some p by (auto split: prod.splits)
    have fine: "q1 \<noteq> Inl ChannelFull" using q1 by auto
    have st: "stands c i n f budget (pushed_to c i (mc_sent w)) [s]" "stands c i n f budget (pushed_to c i (mc_sent w)) ss"
        "tracked c i s \<longrightarrow> (\<forall>s \<in> set ss. \<not> tracked c i s)" using Cons.prems(4) stands_Cons by blast+
    note one = push_step [OF p fine Some Cons.prems(3) st(1)]
    have "stands c i n f budget (pushed_to c i (mc_sent w1)) ss"
    proof (cases "tracked c i s")
      case True
      then show ?thesis using st(3) stands_none by blast
    next
      case False
      then show ?thesis using one(6) st(2) by simp
    qed
    moreover have "q2 \<noteq> Inl ChannelFull" using Cons.prems(2) out(3) by simp
    ultimately have rest: "told_so_far n f budget L (pushed_to c i (mc_sent w2))" "stands c i n f budget (pushed_to c i (mc_sent w2)) ss2"
        "map ms_conn ss2 = map ms_conn ss" "map ms_out ss2 = map ms_out ss" "map (tracked c i) ss2 = map (tracked c i) ss"
        "(\<forall>s \<in> set ss. \<not> tracked c i s) \<longrightarrow> pushed_to c i (mc_sent w2) = pushed_to c i (mc_sent w1)"
      using Cons.IH [OF rec _ one(1)] by blast+
    have none: "(\<forall>s \<in> set ss2. \<not> tracked c i s) \<longleftrightarrow> (\<forall>s \<in> set ss. \<not> tracked c i s)"
      using arg_cong [OF rest(5), of "\<lambda>xs. True \<in> set xs"] by auto
    have "stands c i n f budget (pushed_to c i (mc_sent w2)) [s1]"
    proof (cases "tracked c i s")
      case True
      then show ?thesis using one(2) st(3) rest(6) by simp
    next
      case False
      then show ?thesis using one(3) by (simp add: stands_def)
    qed
    then have "stands c i n f budget (pushed_to c i (mc_sent w2)) (s1 # ss2)"
      using stands_Cons [of c i n f budget "pushed_to c i (mc_sent w2)" s1 ss2] rest(2) one(3) st(3) none by blast
    then show ?thesis using out(1,2) rest one(3-6) st(3) by auto
  qed
qed simp


definition mock_good :: "nat \<Rightarrow> id \<Rightarrow> string \<Rightarrow> nat \<Rightarrow> nat \<Rightarrow> mock_state \<Rightarrow> (nat \<times> response) list \<Rightarrow> bool" where
  "mock_good c i n f budget st sent \<longleftrightarrow>
     told_so_far n f budget (mk_logs st) (pushed_to c i sent) \<and> stands c i n f budget (pushed_to c i sent) (mk_subs st) \<and>
     (\<forall>s \<in> set (mk_subs st). ms_out s = ms_conn s)"

lemma told_grow: "told_so_far n f b L ps \<Longrightarrow> logs_grow L L' \<Longrightarrow> told_so_far n f b L' ps"
proof -
  assume told: "told_so_far n f b L ps" and grow: "logs_grow L L'"
  have "\<exists>records'. L' n = Some records' \<and> prefix ps (drop f records')" if records: "L n = Some records" "prefix ps (drop f records)" for records
  proof -
    obtain ys where "L' n = Some (records @ ys)" using grow records(1) by (auto simp: logs_grow_def)
    moreover have "prefix ps (drop f (records @ ys))" using records(2) by simp
    ultimately show ?thesis by blast
  qed
  then show ?thesis using told unfolding told_so_far_def by blast
qed

lemma good_fanout:
  assumes "fanout NoFault st w = (st', w', q)" "q \<noteq> Inl ChannelFull" "mock_good c i n f b st (mc_sent w)"
  shows "mock_good c i n f b st' (mc_sent w')"
proof -
  obtain ss' where f: "fanout_loop NoFault (mk_logs st) (mk_subs st) w = (ss', w', q)" "st' = st\<lparr>mk_subs := ss'\<rparr>"
    using assms(1) by (auto simp: fanout_def split: prod.splits)
  have "told_so_far n f b (mk_logs st) (pushed_to c i (mc_sent w'))" "stands c i n f b (pushed_to c i (mc_sent w')) ss'"
      "map ms_conn ss' = map ms_conn (mk_subs st)" "map ms_out ss' = map ms_out (mk_subs st)"
    using fanout_honest [OF f(1) assms(2)] assms(3) unfolding mock_good_def by blast+
  moreover have "\<forall>s \<in> set ss'. ms_out s = ms_conn s"
  proof -
    have "map ms_out (mk_subs st) = map ms_conn (mk_subs st)" using assms(3) by (simp add: mock_good_def)
    then have "map ms_out ss' = map ms_conn ss'" using calculation(3,4) by simp
    then show ?thesis by simp
  qed
  ultimately show ?thesis by (simp add: mock_good_def f(2))
qed

lemma good_send:
  "chan_send ch r w = (w', q) \<Longrightarrow> \<not> is_push r \<Longrightarrow> mock_good c i n f b st (mc_sent w) \<Longrightarrow> mock_good c i n f b st (mc_sent w')"
  by (auto simp: chan_send_def mock_good_def split: if_splits)

lemma good_sends:
  "chan_sends ch rs w = (w', q) \<Longrightarrow> \<forall>r \<in> set rs. \<not> is_push r \<Longrightarrow> mock_good c i n f b st (mc_sent w) \<Longrightarrow> mock_good c i n f b st (mc_sent w')"
proof (induction rs arbitrary: w)
  case (Cons r rs)
  obtain w1 q1 where s: "chan_send ch r w = (w1, q1)" by fastforce
  have "mock_good c i n f b st (mc_sent w1)" using good_send [OF s] Cons.prems by simp
  then show ?case using Cons.IH [of w1] Cons.prems s by (auto split: sum.splits)
qed simp

lemma good_logs: "mock_good c i n f b st sent \<Longrightarrow> logs_grow (mk_logs st) L \<Longrightarrow> mock_good c i n f b (st\<lparr>mk_logs := L\<rparr>) sent"
  using told_grow by (auto simp: mock_good_def)

lemma good_filter: "mock_good c i n f b st sent \<Longrightarrow> mock_good c i n f b (st\<lparr>mk_subs := filter P (mk_subs st)\<rparr>) sent"
proof -
  assume good: "mock_good c i n f b st sent"
  have "filter (tracked c i) (filter P (mk_subs st)) = filter P (filter (tracked c i) (mk_subs st))" by (simp add: conj_commute)
  then have "length (filter (tracked c i) (filter P (mk_subs st))) \<le> length (filter (tracked c i) (mk_subs st))"
    by (metis length_filter_le)
  then show ?thesis using good by (auto simp: mock_good_def stands_def)
qed

lemma stands_budget: "stands c i n f b ps ss \<Longrightarrow> b \<le> b' \<Longrightarrow> stands c i n f b' ps ss"
  unfolding stands_def by (meson order_trans)

lemma good_budget: "mock_good c i n f b st sent \<Longrightarrow> b \<le> b' \<Longrightarrow> mock_good c i n f b' st sent"
  unfolding mock_good_def told_so_far_def using stands_budget by (meson order_trans)

lemma stands_grant:
  "grant_first conn j k ss = Inr ss' \<Longrightarrow> stands c i n f b ps ss \<Longrightarrow> \<forall>s \<in> set ss. ms_out s = ms_conn s \<Longrightarrow>
    stands c i n f (b + (if conn = c \<and> j = i then k else 0)) ps ss' \<and> map (tracked c i) ss' = map (tracked c i) ss \<and> (\<forall>s \<in> set ss'. ms_out s = ms_conn s)"
proof (induction ss arbitrary: ss')
  case (Cons s ss)
  have st: "stands c i n f b ps [s]" "stands c i n f b ps ss" "tracked c i s \<longrightarrow> (\<forall>s \<in> set ss. \<not> tracked c i s)" "ms_out s = ms_conn s"
    using iffD1 [OF stands_Cons Cons.prems(2)] Cons.prems(3) by simp_all
  let ?b = "b + (if conn = c \<and> j = i then k else 0)"
  have wide: "stands c i n f ?b ps [s]" "stands c i n f ?b ps ss" using st(1,2) stands_budget [of c i n f b ps _ ?b] by simp_all
  show ?case
  proof (cases "ms_conn s = conn \<and> ms_id s = j")
    case True
    then have ss': "ss' = s\<lparr>ms_credit := ms_credit s + k\<rparr> # ss" using Cons.prems(1) by (auto split: if_splits)
    have "stands c i n f ?b ps [s\<lparr>ms_credit := ms_credit s + k\<rparr>]" using st(1,4) True by (auto simp: stands_def tracked_def)
    moreover have same: "tracked c i (s\<lparr>ms_credit := ms_credit s + k\<rparr>) = tracked c i s" by (simp add: tracked_def)
    ultimately have "stands c i n f ?b ps (s\<lparr>ms_credit := ms_credit s + k\<rparr> # ss)"
      using wide(2) st(3) by (subst stands_Cons) blast
    then show ?thesis using same Cons.prems(3) by (simp add: ss')
  next
    case False
    then obtain ss2 where ss2: "grant_first conn j k ss = Inr ss2" "ss' = s # ss2"
      using Cons.prems(1) by (auto simp: rbind_def split: if_splits sum.splits)
    have rest: "stands c i n f ?b ps ss2" "map (tracked c i) ss2 = map (tracked c i) ss" "\<forall>s \<in> set ss2. ms_out s = ms_conn s"
      using Cons.IH [OF ss2(1) st(2)] Cons.prems(3) by auto
    have none: "(\<forall>s \<in> set ss2. \<not> tracked c i s) \<longleftrightarrow> (\<forall>s \<in> set ss. \<not> tracked c i s)"
      using arg_cong [OF rest(2), of "\<lambda>xs. True \<in> set xs"] by auto
    have "stands c i n f ?b ps (s # ss2)" using wide(1) rest(1) none st(3) stands_Cons by blast
    then show ?thesis using rest(2,3) st(4) by (simp add: ss2(2))
  qed
qed simp

definition granted :: "nat \<Rightarrow> id \<Rightarrow> mock_event \<Rightarrow> nat" where
  "granted c i ev = (case ev of Handles conn _ (Credit j k) \<Rightarrow> if conn = c \<and> j = i then k else 0 | _ \<Rightarrow> 0)"

definition opens :: "nat \<Rightarrow> id \<Rightarrow> mock_event \<Rightarrow> bool" where
  "opens c i ev \<longleftrightarrow> (\<exists>room n f m k. ev = Handles c room (Subscribe i n f m k))"

lemma good_handle:
  assumes "mock_handle NoFault req conn conn st w = (st', w', q)" "q \<noteq> Inl ChannelFull" "mock_good c i n f b st (mc_sent w)"
    and "\<not> opens c i (Handles conn room req)"
  shows "mock_good c i n f (b + granted c i (Handles conn room req)) st' (mc_sent w')"
proof -
  have wider: "mock_good c i n f (b + k) st1 sent" if "mock_good c i n f b st1 sent" for k st1 sent
    using good_budget [OF that] by simp
  show ?thesis
  proof (cases req)
    case (Hello j v)
    then show ?thesis using assms(1,3) good_send [of conn "Welcome j v max_frame None" w w' q] wider
      by (auto simp: mock_handle_def is_push_def split: prod.splits)
  next
    case (Append j name ps d)
    then have app: "mock_append NoFault j name ps conn st w = (st', w', q)" using assms(1) by (simp add: mock_handle_def)
    show ?thesis
    proof (cases "mk_logs st name = None \<or> ps = []")
      case True
      then show ?thesis using app assms(3) wider by (auto simp: mock_append_def split: option.splits if_splits)
    next
      case False
      then obtain records where r: "mk_logs st name = Some records" "ps \<noteq> []" by auto
      let ?st = "st\<lparr>mk_logs := (mk_logs st)(name \<mapsto> records @ [\<lparr>wr_version = length records + 1, wr_patch = hd ps\<rparr>])\<rparr>"
      have good: "mock_good c i n f b ?st (mc_sent w)" by (rule good_logs [OF assms(3)]) (use r(1) in \<open>simp add: logs_grow_def\<close>)
      obtain st1 w1 q1 where f: "fanout NoFault ?st w = (st1, w1, q1)" by (metis prod_cases3)
      show ?thesis
      proof (cases q1)
        case (Inl e)
        then have out: "st' = st1" "w' = w1" "q = q1" using app r f by (simp_all add: mock_append_def)
        then show ?thesis using good_fanout [OF f _ good] assms(2) wider by simp
      next
        case (Inr u)
        obtain w2 q2 where s: "chan_send conn (Ack j [length records + 1] (length records + 1)) w1 = (w2, q2)" by fastforce
        have out: "st' = st1" "w' = w2" using app r f Inr s by (simp_all add: mock_append_def)
        have "mock_good c i n f b st1 (mc_sent w1)" using good_fanout [OF f _ good] Inr by simp
        then show ?thesis using good_send [OF s] wider out by (simp add: is_push_def)
      qed
    qed
  next
    case (Subscribe j name from_version m k)
    let ?s = "\<lparr>ms_id = j, ms_conn = conn, ms_log = name, ms_cursor = from_version, ms_credit = k, ms_out = conn\<rparr>"
    have other: "\<not> tracked c i ?s" using assms(4) Subscribe by (auto simp: tracked_def opens_def)
    obtain w1 q1 where s: "chan_sends conn [OkFrame j] w = (w1, q1)" by fastforce
    have good: "mock_good c i n f b st (mc_sent w1)" using good_sends [OF s _ assms(3)] by (simp add: is_push_def)
    then have more_good: "mock_good c i n f b (st\<lparr>mk_subs := mk_subs st @ [?s]\<rparr>) (mc_sent w1)"
      using other by (auto simp: mock_good_def stands_def)
    show ?thesis
    proof (cases q1)
      case (Inl e)
      then have "st' = st" "w' = w1" using assms(1) s Subscribe by (simp_all add: mock_handle_def mock_subscribe_def)
      then show ?thesis using good wider by simp
    next
      case (Inr u)
      then have "fanout NoFault (st\<lparr>mk_subs := mk_subs st @ [?s]\<rparr>) w1 = (st', w', q)"
        using assms(1) s Subscribe by (simp add: mock_handle_def mock_subscribe_def)
      from good_fanout [OF this assms(2) more_good] show ?thesis using wider by simp
    qed
  next
    case (Credit j k)
    show ?thesis
    proof (cases "grant_first conn j k (mk_subs st)")
      case (Inl e)
      then show ?thesis using assms(1,3) Credit wider by (simp add: mock_handle_def)
    next
      case (Inr subs)
      have good: "mock_good c i n f (b + granted c i (Handles conn room req)) (st\<lparr>mk_subs := subs\<rparr>) (mc_sent w)"
        using stands_grant [OF Inr, of c i n f b "pushed_to c i (mc_sent w)"] assms(3) wider
        by (auto simp: mock_good_def granted_def Credit told_so_far_def)
      obtain w1 q1 where s: "chan_send conn (OkFrame j) w = (w1, q1)" by fastforce
      note sent = good_send [OF s _ good]
      show ?thesis
      proof (cases q1)
        case (Inl e)
        then have "st' = st\<lparr>mk_subs := subs\<rparr>" "w' = w1" using assms(1) Credit Inr s by (simp_all add: mock_handle_def)
        then show ?thesis using sent by (simp add: is_push_def)
      next
        case (Inr u)
        then have "fanout NoFault (st\<lparr>mk_subs := subs\<rparr>) w1 = (st', w', q)"
          using assms(1) Credit \<open>grant_first conn j k (mk_subs st) = Inr subs\<close> s by (simp add: mock_handle_def)
        from good_fanout [OF this assms(2)] sent show ?thesis by (simp add: is_push_def)
      qed
    qed
  next
    case (Cancel j)
    obtain w1 q1 where s: "chan_send conn (End j) w = (w1, q1)" by fastforce
    have "st' = st\<lparr>mk_subs := filter (\<lambda>s. \<not> (ms_conn s = conn \<and> ms_id s = j)) (mk_subs st)\<rparr>" "w' = w1"
      using assms(1) Cancel s by (simp_all add: mock_handle_def)
    then show ?thesis using good_send [OF s _ good_filter [OF assms(3)]] wider by (simp add: is_push_def)
  next
    case (Create j name b')
    let ?rs = "case mk_logs st name of None \<Rightarrow> [] | Some rs \<Rightarrow> rs"
    have "logs_grow (mk_logs st) ((mk_logs st)(name \<mapsto> ?rs))" by (auto simp: logs_grow_def split: option.splits)
    note good = good_logs [OF assms(3) this]
    obtain w1 q1 where s: "chan_send conn (Logs j [\<lparr>li_name = name, li_reducible = False, li_version = length ?rs, li_oldest = 1, li_subscribers = 0\<rparr>]) w = (w1, q1)"
      by fastforce
    have "st' = st\<lparr>mk_logs := (mk_logs st)(name \<mapsto> ?rs)\<rparr>" "w' = w1" using assms(1) Create s by (simp_all add: mock_handle_def Let_def)
    then show ?thesis using good_send [OF s _ good] wider by (simp add: is_push_def)
  next
    case (Ping j)
    then show ?thesis using assms(1,3) good_send [of conn "Pong j" w w' q] wider
      by (auto simp: mock_handle_def is_push_def split: prod.splits)
  qed (use assms wider in \<open>simp_all add: mock_handle_def\<close>)
qed


text \<open>
  A channel that is full makes the request fail that is being handled, which may be of another
  connection; the stream stays, one record further on than it was told.
\<close>

lemma full_channel_skips_a_record:
  "map wr_version (pushed_to 0 7 (mo_sent (mock_run NoFault
     [Handles 0 (\<lambda>_. 9) (Create 1 ''a'' False), Handles 0 (\<lambda>_. 9) (Subscribe 7 ''a'' 0 Records 5),
      Handles 1 (\<lambda>ch. if ch = 0 then 0 else 9) (Append 2 ''a'' [JNull] Written), Handles 2 (\<lambda>_. 9) (Append 3 ''a'' [JNull] Written)]))) = [2]"
  by code_simp

text \<open>No channel was full while a request was handled.\<close>

fun never_full :: "mock_fault \<Rightarrow> mock_event list \<Rightarrow> mock \<Rightarrow> bool" where
  "never_full fault [] m = True"
| "never_full fault (ev # evs) m \<longleftrightarrow>
     (case ev of
        Handles conn room req \<Rightarrow>
          conn \<in> set (mo_gone m) \<or>
          snd (snd (mock_handle fault req conn conn (mo_state m) \<lparr>mc_room = room, mc_sent = mo_sent m\<rparr>)) \<noteq> Inl ChannelFull
      | HangsUp _ \<Rightarrow> True) \<and> never_full fault evs (mock_step fault ev m)"

lemma good_step:
  assumes "mock_good c i n f b (mo_state m) (mo_sent m)" "never_full NoFault [ev] m" "\<not> opens c i ev"
  shows "mock_good c i n f (b + granted c i ev) (mo_state (mock_step NoFault ev m)) (mo_sent (mock_step NoFault ev m))"
proof (cases ev)
  case (Handles conn room req)
  show ?thesis
  proof (cases "conn \<in> set (mo_gone m)")
    case True
    then show ?thesis using good_budget [OF assms(1), of "b + granted c i ev"] by (simp add: Handles)
  next
    case False
    obtain st w q where h: "mock_handle NoFault req conn conn (mo_state m) \<lparr>mc_room = room, mc_sent = mo_sent m\<rparr> = (st, w, q)"
      by (metis prod_cases3)
    have "q \<noteq> Inl ChannelFull" using assms(2) False h by (simp add: Handles)
    from good_handle [OF h this, of c i n f b room] have good: "mock_good c i n f (b + granted c i ev) st (mc_sent w)"
      using assms(1,3) by (simp add: Handles)
    then have dropped: "mock_good c i n f (b + granted c i ev) (mo_state (mock_drop conn (m\<lparr>mo_state := st, mo_sent := mc_sent w\<rparr>)))
        (mo_sent (mock_drop conn (m\<lparr>mo_state := st, mo_sent := mc_sent w\<rparr>)))" by (simp add: mock_drop_def good_filter)
    show ?thesis using False h good dropped by (cases q) (simp_all add: Handles Let_def)
  qed
next
  case (HangsUp conn)
  then show ?thesis using good_filter [OF assms(1)] assms(1) by (auto simp: mock_drop_def granted_def)
qed

lemma good_run:
  assumes "mock_good c i n f b (mo_state m) (mo_sent m)" "never_full NoFault evs m" "\<forall>ev \<in> set evs. \<not> opens c i ev"
  shows "mock_good c i n f (b + sum_list (map (granted c i) evs)) (mo_state (fold (mock_step NoFault) evs m)) (mo_sent (fold (mock_step NoFault) evs m))"
  using assms
proof (induction evs arbitrary: m b)
  case (Cons ev evs)
  have "mock_good c i n f (b + granted c i ev) (mo_state (mock_step NoFault ev m)) (mo_sent (mock_step NoFault ev m))"
    using Cons.prems by (intro good_step) auto
  from Cons.IH [OF this] show ?case using Cons.prems by (simp add: add.assoc)
qed simp

text \<open>
  Before its subscription a stream was pushed nothing: it would have been pushed a part of any log
  from anywhere.
\<close>

definition untold :: "nat \<Rightarrow> id \<Rightarrow> mock \<Rightarrow> bool" where
  "untold c i m \<longleftrightarrow> pushed_to c i (mo_sent m) = [] \<and> (\<forall>s \<in> set (mk_subs (mo_state m)). \<not> tracked c i s \<and> ms_out s = ms_conn s)"

lemma good_untold:
  assumes "\<And>n f. \<exists>b. mock_good c i n f b (mo_state m) (mo_sent m)"
  shows "untold c i m"
proof -
  have "pushed_to c i (mo_sent m) = []"
  proof (cases "mk_logs (mo_state m) []")
    case None
    then show ?thesis using assms [of "[]" 0] by (auto simp: mock_good_def told_so_far_def)
  next
    case (Some records)
    then show ?thesis using assms [of "[]" "length records"] by (auto simp: mock_good_def told_so_far_def)
  qed
  moreover have "\<not> tracked c i s" if "s \<in> set (mk_subs (mo_state m))" for s
    using that assms [of "CHR ''x'' # ms_log s" 0] by (auto simp: mock_good_def stands_def)
  ultimately show ?thesis using assms [of "[]" 0] by (auto simp: untold_def mock_good_def)
qed

lemma untold_run:
  assumes "never_full NoFault evs mock_new" "\<forall>ev \<in> set evs. \<not> opens c i ev"
  shows "untold c i (mock_run NoFault evs)"
proof (rule good_untold)
  fix n f
  have "mock_good c i n f 0 (mo_state mock_new) (mo_sent mock_new)"
    by (simp add: mock_good_def mock_new_def told_so_far_def stands_def)
  from good_run [OF this assms] show "\<exists>b. mock_good c i n f b (mo_state (mock_run NoFault evs)) (mo_sent (mock_run NoFault evs))"
    by (auto simp: mock_run_def)
qed

lemma good_subscribe:
  assumes "untold c i m" "never_full NoFault [Handles c room (Subscribe i n f md credit)] m"
  shows "mock_good c i n f credit (mo_state (mock_step NoFault (Handles c room (Subscribe i n f md credit)) m))
    (mo_sent (mock_step NoFault (Handles c room (Subscribe i n f md credit)) m))"
proof (cases "c \<in> set (mo_gone m)")
  case True
  then show ?thesis using assms(1) by (auto simp: untold_def mock_good_def told_so_far_def intro!: stands_none)
next
  case False
  let ?s = "\<lparr>ms_id = i, ms_conn = c, ms_log = n, ms_cursor = f, ms_credit = credit, ms_out = c\<rparr>"
  let ?st = "(mo_state m)\<lparr>mk_subs := mk_subs (mo_state m) @ [?s]\<rparr>"
  obtain st w q where h: "mock_handle NoFault (Subscribe i n f md credit) c c (mo_state m) \<lparr>mc_room = room, mc_sent = mo_sent m\<rparr> = (st, w, q)"
    by (metis prod_cases3)
  have q: "q \<noteq> Inl ChannelFull" using assms(2) False h by simp
  obtain w1 q1 where s: "chan_sends c [OkFrame i] \<lparr>mc_room = room, mc_sent = mo_sent m\<rparr> = (w1, q1)" by fastforce
  have none: "filter (tracked c i) (mk_subs (mo_state m)) = []" using assms(1) by (auto simp: untold_def filter_empty_conv)
  have start: "mock_good c i n f credit (mo_state m) (mo_sent m)"
    using assms(1) by (auto simp: untold_def mock_good_def told_so_far_def intro!: stands_none)
  have "pushed_to c i (mc_sent w1) = []"
    using s assms(1) by (auto simp: chan_send_def untold_def is_push_def split: if_splits)
  then have good: "mock_good c i n f credit (mo_state m) (mc_sent w1)" "mock_good c i n f credit ?st (mc_sent w1)"
    using assms(1) none by (auto simp: untold_def mock_good_def told_so_far_def stands_def)
  have final: "mock_good c i n f credit st (mc_sent w)"
  proof (cases q1)
    case (Inl e)
    then show ?thesis using h s good(1) by (simp add: mock_handle_def mock_subscribe_def)
  next
    case (Inr u)
    then have "fanout NoFault ?st w1 = (st, w, q)" using h s by (simp add: mock_handle_def mock_subscribe_def)
    from good_fanout [OF this q good(2)] show ?thesis .
  qed
  then have dropped: "mock_good c i n f credit (mo_state (mock_drop c (m\<lparr>mo_state := st, mo_sent := mc_sent w\<rparr>)))
      (mo_sent (mock_drop c (m\<lparr>mo_state := st, mo_sent := mc_sent w\<rparr>)))" by (simp add: mock_drop_def good_filter)
  show ?thesis using False h final dropped by (cases q) (simp_all add: Let_def)
qed

lemma never_full_append: "never_full fault (xs @ ys) m \<longleftrightarrow> never_full fault xs m \<and> never_full fault ys (fold (mock_step fault) xs m)"
  by (induction xs arbitrary: m) auto

text \<open>
  Without a fault the mock server pushes the log. As long as no channel is full when a request is
  handled, whatever other requests come before and after and however connections end, a stream is
  pushed the records of its log that follow the version it was opened at, in order and each once, and
  never more of them than its credit and the grants that came after.
\<close>

theorem mock_pushes_the_log:
  assumes "\<forall>ev \<in> set (before @ later). \<not> opens c i ev"
    and "never_full NoFault (before @ Handles c room (Subscribe i n f md credit) # later) mock_new"
    and "m = mock_run NoFault (before @ Handles c room (Subscribe i n f md credit) # later)" "ps = pushed_to c i (mo_sent m)"
  shows "(ps = [] \<or> (\<exists>records. mk_logs (mo_state m) n = Some records \<and> prefix ps (drop f records))) \<and>
    length ps \<le> credit + sum_list (map (granted c i) later)"
proof -
  let ?ev = "Handles c room (Subscribe i n f md credit)"
  have full: "never_full NoFault before mock_new" "never_full NoFault [?ev] (mock_run NoFault before)"
      "never_full NoFault later (mock_step NoFault ?ev (mock_run NoFault before))"
    using assms(2) unfolding never_full_append mock_run_def by simp_all
  have "untold c i (mock_run NoFault before)" using untold_run [OF full(1)] assms(1) by simp
  from good_run [OF good_subscribe [OF this full(2)] full(3)] have "mock_good c i n f (credit + sum_list (map (granted c i) later)) (mo_state m) (mo_sent m)"
    using assms(1,3) by (simp add: mock_run_def)
  then show ?thesis using assms(4) by (simp add: mock_good_def told_so_far_def)
qed


theorem mock_pushes_the_log_witness:
  "length (pushed_to 0 7 (mo_sent (mock_run NoFault
     ([Handles 0 (\<lambda>_. 9) (Create 1 ''a'' False), Handles 0 (\<lambda>_. 9) (Append 2 ''a'' [JNull] Written)] @
      Handles 0 (\<lambda>_. 9) (Subscribe 7 ''a'' 0 Records 1) # [Handles 0 (\<lambda>_. 9) (Append 3 ''a'' [JNull] Written)])))) \<le> 1"
proof -
  let ?before = "[Handles 0 (\<lambda>_. 9) (Create 1 ''a'' False), Handles 0 (\<lambda>_. 9) (Append 2 ''a'' [JNull] Written)]"
  let ?later = "[Handles 0 (\<lambda>_. 9) (Append 3 ''a'' [JNull] Written)]"
  have "never_full NoFault (?before @ Handles 0 (\<lambda>_. 9) (Subscribe 7 ''a'' 0 Records 1) # ?later) mock_new" by code_simp
  moreover have "\<forall>ev \<in> set (?before @ ?later). \<not> opens 0 7 ev" by (simp add: opens_def)
  moreover have "sum_list (map (granted 0 7) ?later) = 0" by (simp add: granted_def)
  ultimately show ?thesis using mock_pushes_the_log [of ?before ?later 0 7 "\<lambda>_. 9" "''a''" 0 Records 1 _ _] by (metis add_0_right)
qed

end
