(* ===== verification/ServerProcess.thy ===== *)
theory ServerProcess
  imports ServerSession
begin

text \<open>
  The daemon as a process: the published socket and the two tasks of a connection of
  \<open>crates/lug-server/src/unix.rs\<close>, the placement of logs of \<open>cores.rs\<close>, and the start and the
  shutdown of \<open>lib.rs\<close> and \<open>main.rs\<close>. What the system answers to a call is an argument.
\<close>

section \<open>The socket\<close>

text \<open>
  The run directory: its mode (448 is 0700 and 384 is 0600), once it is there, and
  what its names stand for. A socket is live as long as the process that bound it listens.
\<close>

datatype sock_node = Listening nat nat | DeadSocket

record run_dir =
  rd_mode :: "nat option"
  rd_nodes :: "string \<Rightarrow> sock_node option"

datatype mkdir_answer = DirMade nat | DirExists | DirFails string

record bind_answers =
  ba_mkdir :: mkdir_answer
  ba_chmod_run :: "string + unit"
  ba_unlink :: "string option"
  ba_bind :: "string + nat"
  ba_chmod :: "string + unit"
  ba_rename :: "string + unit"

definition join_path :: "string \<Rightarrow> string \<Rightarrow> string" where
  "join_path dir name = dir @ ''/'' @ name"

definition staging_path :: "string \<Rightarrow> nat \<Rightarrow> string" where
  "staging_path path pid = path @ ''.'' @ dec_digits pid"

definition set_node :: "string \<Rightarrow> sock_node option \<Rightarrow> run_dir \<Rightarrow> run_dir" where
  "set_node path found d = d\<lparr>rd_nodes := (rd_nodes d)(path := found)\<rparr>"

text \<open>Each call in turn; the states the directory went through come back with the result, the last one last.\<close>

definition bind_rename :: "bind_answers \<Rightarrow> string \<Rightarrow> string \<Rightarrow> run_dir \<Rightarrow> run_dir list \<times> (string + unit)" where
  "bind_rename a staging path d =
     (case ba_rename a of
        Inl e \<Rightarrow> ([], Inl e)
      | Inr _ \<Rightarrow> ([set_node staging None (set_node path (rd_nodes d staging) d)], Inr ()))"

definition bind_chmod :: "bind_answers \<Rightarrow> nat \<Rightarrow> string \<Rightarrow> string \<Rightarrow> run_dir \<Rightarrow> run_dir list \<times> (string + unit)" where
  "bind_chmod a pid staging path d =
     (case ba_chmod a of
        Inl e \<Rightarrow> ([], Inl e)
      | Inr _ \<Rightarrow>
          let d = set_node staging (Some (Listening pid 384)) d in
          case bind_rename a staging path d of (ds, r) \<Rightarrow> (d # ds, r))"

definition bind_listen :: "bind_answers \<Rightarrow> nat \<Rightarrow> string \<Rightarrow> string \<Rightarrow> run_dir \<Rightarrow> run_dir list \<times> (string + unit)" where
  "bind_listen a pid staging path d =
     (case ba_bind a of
        Inl e \<Rightarrow> ([], Inl e)
      | Inr mode \<Rightarrow>
          let d = set_node staging (Some (Listening pid mode)) d in
          case bind_chmod a pid staging path d of (ds, r) \<Rightarrow> (d # ds, r))"

definition bind_unlink :: "bind_answers \<Rightarrow> nat \<Rightarrow> string \<Rightarrow> string \<Rightarrow> run_dir \<Rightarrow> run_dir list \<times> (string + unit)" where
  "bind_unlink a pid staging path d =
     (case ba_unlink a of
        Some e \<Rightarrow> ([], Inl e)
      | None \<Rightarrow>
          let d = set_node staging None d in
          case bind_listen a pid staging path d of (ds, r) \<Rightarrow> (d # ds, r))"

definition unix_bind :: "bind_answers \<Rightarrow> nat \<Rightarrow> string \<Rightarrow> string \<Rightarrow> run_dir \<Rightarrow> run_dir list \<times> (string + string)" where
  "unix_bind a pid run socket d =
     (let path = join_path run socket;
          made = (\<lambda>d. case ba_chmod_run a of
             Inl e \<Rightarrow> ([d], Inl e)
           | Inr _ \<Rightarrow>
               let d' = d\<lparr>rd_mode := Some 448\<rparr> in
               case bind_unlink a pid (staging_path path pid) path d' of (ds, r) \<Rightarrow> (d # d' # ds, rbind r (\<lambda>_. Inr path)))
      in case ba_mkdir a of
          DirFails e \<Rightarrow> ([], Inl e)
        | DirExists \<Rightarrow> made d
        | DirMade mode \<Rightarrow> made (d\<lparr>rd_mode := (case rd_mode d of None \<Rightarrow> Some mode | m \<Rightarrow> m)\<rparr>))"

text \<open>A listener that is dropped, or whose process ends: the names of its socket stay.\<close>

definition listener_closed :: "nat \<Rightarrow> run_dir \<Rightarrow> run_dir" where
  "listener_closed pid d =
     d\<lparr>rd_nodes := (\<lambda>p. case rd_nodes d p of Some (Listening q m) \<Rightarrow> if q = pid then Some DeadSocket else Some (Listening q m) | n \<Rightarrow> n)\<rparr>"

section \<open>The accept loop\<close>

datatype accept_event = Connects nat "string + nat" | AcceptFails string | ConnectionEnds nat | Stopping

record acceptor =
  at_running :: bool
  at_served :: "(nat \<times> nat) list"
  at_refused :: "(nat \<times> response) list"
  at_dropped :: "nat list"

definition acceptor_new :: acceptor where
  "acceptor_new = \<lparr>at_running = True, at_served = [], at_refused = [], at_dropped = []\<rparr>"

text \<open>A connection holds its permit until its task is over, also after the loop.\<close>

fun accept_step :: "acl \<Rightarrow> limits \<Rightarrow> accept_event \<Rightarrow> acceptor \<Rightarrow> acceptor" where
  "accept_step a limits (Connects k cred) s =
     (if \<not> at_running s then s
      else case cred of
          Inl e \<Rightarrow> s\<lparr>at_dropped := at_dropped s @ [k]\<rparr>
        | Inr uid \<Rightarrow>
            (case admit a (lim_connections limits) (length (at_served s)) uid of
               Refused c message \<Rightarrow> s\<lparr>at_refused := at_refused s @ [(k, ErrorFrame 0 c message)]\<rparr>
             | Served \<Rightarrow> s\<lparr>at_served := at_served s @ [(k, uid)]\<rparr>))"
| "accept_step a limits (AcceptFails e) s = s"
| "accept_step a limits (ConnectionEnds k) s = s\<lparr>at_served := filter (\<lambda>p. fst p \<noteq> k) (at_served s)\<rparr>"
| "accept_step a limits Stopping s = s\<lparr>at_running := False\<rparr>"

definition accept_run :: "acl \<Rightarrow> limits \<Rightarrow> accept_event list \<Rightarrow> acceptor" where
  "accept_run a limits evs = fold (accept_step a limits) evs acceptor_new"

section \<open>A connection\<close>

text \<open>\<open>serve\<close>: what its reader yields, and what happens beside it.\<close>

datatype frame_fault = FaultIo string | FaultTooLarge nat | FaultJson string

datatype served_event =
    Frame "frame_fault + request"
  | PeerEnds
  | StreamStops nat
  | PumpStops
  | RegistryMoves registry

record connection =
  cn_open :: bool
  cn_logs :: registry
  cn_session :: session
  cn_effects :: "effect list"
  cn_streams :: "stream list"
  cn_calls :: nat

definition connection_new :: "nat \<Rightarrow> acl \<Rightarrow> registry \<Rightarrow> connection" where
  "connection_new uid a logs =
     \<lparr>cn_open = True, cn_logs = logs, cn_session = session_new uid a None, cn_effects = [], cn_streams = [], cn_calls = 0\<rparr>"

definition streams_started :: "effect list \<Rightarrow> stream list" where
  "streams_started es = List.map_filter (\<lambda>e. case e of Spawn st log_name \<Rightarrow> Some st | _ \<Rightarrow> None) es"

definition connection_close :: "connection \<Rightarrow> connection" where
  "connection_close c = c\<lparr>cn_open := False, cn_session := session_close (cn_session c)\<rparr>"

text \<open>\<open>show\<close> is the text of a fault.\<close>

fun connection_step ::
    "(registry \<Rightarrow> string \<Rightarrow> bool \<Rightarrow> registry \<times> (failure + log_handle)) \<Rightarrow> (frame_fault \<Rightarrow> string) \<Rightarrow> served_event \<Rightarrow> connection \<Rightarrow> connection" where
  "connection_step create fault_text (Frame frame) c =
     (if \<not> cn_open c then c
      else case frame of
          Inr req \<Rightarrow>
            (case dispatch create (cn_calls c) (cn_logs c) (cn_session c) req of
               (logs, s, es) \<Rightarrow> c\<lparr>cn_logs := logs, cn_session := s, cn_effects := cn_effects c @ es,
                 cn_streams := cn_streams c @ streams_started es, cn_calls := cn_calls c + 1\<rparr>)
        | Inl (FaultIo e) \<Rightarrow> connection_close c
        | Inl fault \<Rightarrow> connection_close (c\<lparr>cn_effects := cn_effects c @ [Reply (ErrorFrame 0 Malformed (fault_text fault))]\<rparr>))"
| "connection_step create fault_text PeerEnds c = (if cn_open c then connection_close c else c)"
| "connection_step create fault_text (StreamStops k) c =
     (if k < length (cn_streams c) then
        (case stream_finish (cn_streams c ! k) (Some (cn_session c)) of
           (s, es) \<Rightarrow> c\<lparr>cn_session := (case s of None \<Rightarrow> cn_session c | Some s \<Rightarrow> s), cn_effects := cn_effects c @ es,
             cn_streams := take k (cn_streams c) @ drop (Suc k) (cn_streams c)\<rparr>)
      else c)"
| "connection_step create fault_text PumpStops c = c\<lparr>cn_session := (cn_session c)\<lparr>ss_pending_open := False\<rparr>\<rparr>"
| "connection_step create fault_text (RegistryMoves logs) c = c\<lparr>cn_logs := logs\<rparr>"

definition connection_run ::
    "(registry \<Rightarrow> string \<Rightarrow> bool \<Rightarrow> registry \<times> (failure + log_handle)) \<Rightarrow> (frame_fault \<Rightarrow> string) \<Rightarrow> served_event list \<Rightarrow> connection \<Rightarrow> connection" where
  "connection_run create fault_text evs c = fold (connection_step create fault_text) evs c"

text \<open>
  \<open>write\<close>: each time it wakes it finds a first frame in the outbox and those that follow it. The
  operations of the framed sink are tokio-util's.
\<close>

record 's sink_ops =
  so_feed :: "response \<Rightarrow> 's \<Rightarrow> 's \<times> bool"
  so_flush :: "'s \<Rightarrow> 's \<times> bool"
  so_close :: "'s \<Rightarrow> 's"

fun feed_all :: "'s sink_ops \<Rightarrow> response list \<Rightarrow> 's \<Rightarrow> 's \<times> bool" where
  "feed_all ops [] s = (s, True)"
| "feed_all ops (r # rs) s = (case so_feed ops r s of (s, False) \<Rightarrow> (s, False) | (s, True) \<Rightarrow> feed_all ops rs s)"

fun write_loop :: "'s sink_ops \<Rightarrow> (response \<times> response list) list \<Rightarrow> 's \<Rightarrow> 's" where
  "write_loop ops [] s = so_close ops s"
| "write_loop ops ((first, queued) # wakes) s =
     (case so_feed ops first s of
        (s, False) \<Rightarrow> so_close ops s
      | (s, True) \<Rightarrow>
          (case feed_all ops queued s of
             (s, False) \<Rightarrow> s
           | (s, True) \<Rightarrow>
               (case so_flush ops s of
                  (s, False) \<Rightarrow> so_close ops s
                | (s, True) \<Rightarrow> write_loop ops wakes s)))"

section \<open>Cores\<close>

record core_lane =
  cl_queued :: nat
  cl_running :: bool

definition cores_new :: "nat \<Rightarrow> core_lane list" where
  "cores_new n = replicate (max n 1) \<lparr>cl_queued = 0, cl_running = True\<rparr>"

definition lane_of :: "(string \<Rightarrow> nat) \<Rightarrow> core_lane list \<Rightarrow> string \<Rightarrow> nat" where
  "lane_of hash lanes key = hash key mod length lanes"

definition cores_spawn :: "(string \<Rightarrow> nat) \<Rightarrow> string \<Rightarrow> core_lane list \<Rightarrow> core_lane list \<times> (string + unit)" where
  "cores_spawn hash key lanes =
     (let k = lane_of hash lanes key; l = lanes ! k; refused = (\<lambda>why. Inl (''core runtime for '' @ key @ '': '' @ why)) in
      if \<not> cl_running l then (lanes, refused ''channel closed'')
      else if 64 \<le> cl_queued l then (lanes, refused ''no available capacity'')
      else (lanes[k := l\<lparr>cl_queued := cl_queued l + 1\<rparr>], Inr ()))"

section \<open>Start and shutdown\<close>

datatype start_error =
    InvalidConfig config_error
  | BindFails string
  | DataDirFails string
  | DiscoverFails string
  | CoresFail string
  | ReopenFails string failure
  | TokenFails config_error
  | HttpBindFails string

fun reopen ::
    "(registry \<Rightarrow> string \<Rightarrow> bool \<Rightarrow> registry \<times> (failure + log_handle)) \<Rightarrow> (string \<times> bool) list \<Rightarrow> registry \<Rightarrow> start_error + registry" where
  "reopen create [] logs = Inr logs"
| "reopen create ((name, folds) # rest) logs =
     (case create logs name folds of
        (logs, Inl f) \<Rightarrow> Inl (ReopenFails name f)
      | (logs, Inr _) \<Rightarrow> reopen create rest logs)"

record start_answers =
  sn_bind :: bind_answers
  sn_data :: "string + unit"
  sn_discover :: "string + (string \<times> bool) list"
  sn_cores :: "string + unit"
  sn_listen :: "string + unit"

text \<open>What follows the bind; a listener that was bound is dropped with an error.\<close>

definition start_rest ::
    "(string \<Rightarrow> string option) \<Rightarrow> (registry \<Rightarrow> string \<Rightarrow> bool \<Rightarrow> registry \<times> (failure + log_handle)) \<Rightarrow>
     'addr config \<Rightarrow> start_answers \<Rightarrow> start_error + registry" where
  "start_rest read_file create c a =
     rbind (map_err DataDirFails (sn_data a)) (\<lambda>_.
     rbind (map_err DiscoverFails (sn_discover a)) (\<lambda>existing.
     rbind (map_err CoresFail (sn_cores a)) (\<lambda>_.
     rbind (reopen create existing []) (\<lambda>logs.
     if cf_http c = None then Inr logs
     else
       rbind (map_err TokenFails (read_token read_file (case cf_token c of None \<Rightarrow> ''/etc/lug/token'' | Some p \<Rightarrow> p))) (\<lambda>_.
       rbind (map_err HttpBindFails (sn_listen a)) (\<lambda>_. Inr logs))))))"

definition daemon_start ::
    "('addr \<Rightarrow> bool) \<Rightarrow> (string \<Rightarrow> string option) \<Rightarrow> (registry \<Rightarrow> string \<Rightarrow> bool \<Rightarrow> registry \<times> (failure + log_handle)) \<Rightarrow>
     nat \<Rightarrow> 'addr config \<Rightarrow> start_answers \<Rightarrow> run_dir \<Rightarrow> run_dir list \<times> (start_error + string \<times> registry)" where
  "daemon_start loopback read_file create pid c a d =
     (case validate_config loopback read_file c of
        Inl e \<Rightarrow> ([], Inl (InvalidConfig e))
      | Inr _ \<Rightarrow>
          (case unix_bind (sn_bind a) pid (cf_run c) (cf_socket c) d of
             (ds, Inl e) \<Rightarrow> (ds @ [listener_closed pid (if ds = [] then d else last ds)], Inl (BindFails e))
           | (ds, Inr path) \<Rightarrow>
               (case start_rest read_file create c a of
                  Inl e \<Rightarrow> (ds @ [listener_closed pid (last ds)], Inl e)
                | Inr logs \<Rightarrow> (ds, Inr (path, logs)))))"

text \<open>
  The shutdown: a checkpoint asked of each log that still runs, the socket unlinked whatever became
  of those, then the tasks aborted. An unlink that fails is only reported.
\<close>

definition shutdown_commands :: "registry \<Rightarrow> (string \<times> command) list" where
  "shutdown_commands logs =
     map (\<lambda>(k, h). (lh_name h, CmdCheckpoint k)) (filter (\<lambda>(k, h). lh_open h) (enumerate 0 (registry_list logs)))"

definition daemon_shutdown :: "nat \<Rightarrow> string \<Rightarrow> bool \<Rightarrow> run_dir \<Rightarrow> run_dir" where
  "daemon_shutdown pid path unlinked d = listener_closed pid (if unlinked then set_node path None d else d)"

text \<open>\<open>main\<close>: the exit code, before the daemon runs.\<close>

definition daemon_exit ::
    "config_error + 'addr config \<times> bool \<Rightarrow> ('addr config \<Rightarrow> config_error + unit) \<Rightarrow> nat option" where
  "daemon_exit parsed checked =
     (case parsed of
        Inl _ \<Rightarrow> Some 2
      | Inr (c, check) \<Rightarrow> (case checked c of Inl _ \<Rightarrow> Some 2 | Inr _ \<Rightarrow> if check then Some 0 else None))"

section \<open>Properties\<close>

lemma staging_differs [simp]: "staging_path path pid \<noteq> path" "path \<noteq> staging_path path pid"
  by (simp_all add: staging_path_def)

lemmas bind_steps = bind_rename_def bind_chmod_def bind_listen_def bind_unlink_def set_node_def Let_def

text \<open>
  C37: The published socket is live, and the listener behind it private. Whatever call fails while a
  daemon binds, at every moment the published name stands for what it stood for before or for a
  socket of this daemon that only its owner may open, in a directory only its owner may enter; when
  the bind succeeds it is the latter, when it fails the name was never touched, and no other name is
  touched but the daemon's own private one.
\<close>

theorem published_socket_is_live:
  assumes "unix_bind a pid run socket d = (ds, r)" "path = join_path run socket"
  shows "(\<forall>x \<in> set ds. (rd_nodes x path = rd_nodes d path \<or> rd_nodes x path = Some (Listening pid 384) \<and> rd_mode x = Some 448) \<and>
      (\<forall>p. p \<noteq> path \<and> p \<noteq> staging_path path pid \<longrightarrow> rd_nodes x p = rd_nodes d p)) \<and>
    (case r of
       Inr p \<Rightarrow> p = path \<and> ds \<noteq> [] \<and> rd_nodes (last ds) path = Some (Listening pid 384) \<and> rd_mode (last ds) = Some 448 \<and>
         rd_nodes (last ds) (staging_path path pid) = None
     | Inl e \<Rightarrow> \<forall>x \<in> set ds. rd_nodes x path = rd_nodes d path)"
  using assms(1) unfolding unix_bind_def assms(2) [symmetric]
  by (auto simp: bind_steps split: mkdir_answer.splits sum.splits option.splits prod.splits)

text \<open>A daemon that takes the name over from one that runs, on a machine that refuses nothing.\<close>

theorem published_socket_is_live_witness:
  "rd_nodes (last (fst (unix_bind \<lparr>ba_mkdir = DirExists, ba_chmod_run = Inr (), ba_unlink = None, ba_bind = Inr 511, ba_chmod = Inr (), ba_rename = Inr ()\<rparr>
      9 ''/run/lug'' ''lug.sock'' \<lparr>rd_mode = Some 448, rd_nodes = [''/run/lug/lug.sock'' \<mapsto> Listening 4 384]\<rparr>))) ''/run/lug/lug.sock'' =
    Some (Listening 9 384)"
  (is "rd_nodes (last (fst ?b)) _ = _")
proof -
  have "snd ?b = Inr ''/run/lug/lug.sock''"
    by (simp add: unix_bind_def bind_steps join_path_def)
  then have "?b = (fst ?b, Inr ''/run/lug/lug.sock'')" by (metis prod.collapse)
  from published_socket_is_live [OF this refl] show ?thesis by (simp add: join_path_def)
qed

text \<open>But a start that fails later has taken the name already, also from a daemon that runs.\<close>

lemma bind_publishes:
  assumes "unix_bind a pid run socket d = (ds, Inr path)"
  shows "path = join_path run socket \<and> rd_nodes (last ds) path = Some (Listening pid 384)"
proof -
  have "path = join_path run socket"
    using assms by (auto simp: unix_bind_def Let_def rbind_Inr_iff split: sum.splits prod.splits mkdir_answer.splits)
  then show ?thesis
    using assms by (auto simp: unix_bind_def bind_steps split: mkdir_answer.splits sum.splits option.splits prod.splits)
qed

lemma failed_start_leaves_a_dead_socket:
  assumes "daemon_start loopback read_file create pid c a d = (ds, Inl e)" "\<forall>f. e \<noteq> BindFails f" "\<forall>f. e \<noteq> InvalidConfig f"
  shows "rd_nodes (last ds) (join_path (cf_run c) (cf_socket c)) = Some DeadSocket"
proof -
  obtain bs path where b: "unix_bind (sn_bind a) pid (cf_run c) (cf_socket c) d = (bs, Inr path)"
      "ds = bs @ [listener_closed pid (last bs)]"
    using assms by (auto simp: daemon_start_def split: sum.splits prod.splits)
  then show ?thesis using bind_publishes [OF b(1)] by (auto simp: listener_closed_def)
qed

text \<open>And a daemon that is stopped after another took its name over unlinks the other's socket.\<close>

lemma shutdown_unlinks_the_successor:
  assumes "unix_bind a new run socket d = (ds, Inr path)"
  shows "rd_nodes (last ds) path = Some (Listening new 384) \<and> rd_nodes (daemon_shutdown old path True (last ds)) path = None"
  using bind_publishes [OF assms] by (auto simp: daemon_shutdown_def listener_closed_def set_node_def)

text \<open>
  The connections that arrived before the loop was stopped and whose credentials could be read;
  one whose credentials cannot be read is dropped without a word.
\<close>

fun arrived :: "accept_event list \<Rightarrow> nat list" where
  "arrived [] = []"
| "arrived (ev # evs) =
     (case ev of
        Connects k (Inr uid) \<Rightarrow> k # arrived evs
      | Stopping \<Rightarrow> []
      | _ \<Rightarrow> arrived evs)"

definition accounted :: "accept_event list \<Rightarrow> acceptor \<Rightarrow> nat \<Rightarrow> bool" where
  "accounted evs s k \<longleftrightarrow> k \<in> fst ` set (at_served s) \<or> k \<in> fst ` set (at_refused s) \<or> ConnectionEnds k \<in> set evs"

definition accept_inv :: "acl \<Rightarrow> limits \<Rightarrow> acceptor \<Rightarrow> bool" where
  "accept_inv a limits s \<longleftrightarrow> length (at_served s) \<le> lim_connections limits \<and> (\<forall>(k, uid) \<in> set (at_served s). acl_accepts a uid) \<and>
     (\<forall>(k, r) \<in> set (at_refused s). \<exists>c m. r = ErrorFrame 0 c m \<and> (c = Unauthorized \<or> c = Backpressure))"

lemma accept_inv_step: "accept_inv a limits s \<Longrightarrow> accept_inv a limits (accept_step a limits ev s)"
  by (cases "(a, limits, ev, s)" rule: accept_step.cases)
    (auto simp: accept_inv_def admit_def le_trans [OF length_filter_le] split: sum.splits admission.splits)

lemma accept_inv_fold: "accept_inv a limits s \<Longrightarrow> accept_inv a limits (fold (accept_step a limits) evs s)"
  by (induction evs arbitrary: s) (simp_all add: accept_inv_step)

lemma accounted_step:
  "accounted past s k \<Longrightarrow> accounted (past @ [ev]) (accept_step a limits ev s) k"
  by (cases "(a, limits, ev, s)" rule: accept_step.cases)
    (force simp: accounted_def split: sum.splits admission.splits)+

lemma accounted_arrival:
  "at_running s \<Longrightarrow> accounted past (accept_step a limits (Connects k (Inr uid)) s) k"
  by (force simp: accounted_def split: sum.splits admission.splits)

lemma accounted_fold:
  "\<forall>k \<in> K. accounted past s k \<Longrightarrow> \<forall>k \<in> K. accounted (past @ evs) (fold (accept_step a limits) evs s) k"
proof (induction evs arbitrary: past s)
  case (Cons ev evs)
  then show ?case using Cons.IH [of "past @ [ev]"] accounted_step by (metis append.assoc append_Cons append_Nil fold_simps(2))
qed simp

lemma arrived_accounted:
  "at_running s \<Longrightarrow> k \<in> set (arrived evs) \<Longrightarrow> accounted (past @ evs) (fold (accept_step a limits) evs s) k"
proof (induction evs arbitrary: past s)
  case (Cons ev evs)
  let ?s = "accept_step a limits ev s"
  show ?case
  proof (cases "ev \<noteq> Stopping \<and> k \<in> set (arrived evs)")
    case True
    then have "at_running ?s" using Cons.prems(1) by (cases ev) (simp_all split: sum.split admission.split)
    from Cons.IH [OF this _, of "past @ [ev]"] True show ?thesis by simp
  next
    case False
    then obtain uid where ev: "ev = Connects k (Inr uid)" using Cons.prems(2) by (auto split: accept_event.splits sum.splits)
    have "accounted (past @ [ev]) ?s k" unfolding ev by (rule accounted_arrival [OF Cons.prems(1)])
    then show ?thesis using accounted_fold [where K = "{k}" and past = "past @ [ev]" and evs = evs] by simp
  qed
qed simp

lemma dropped_fold:
  "k \<in> set (at_dropped (fold (accept_step a limits) evs s)) \<Longrightarrow> k \<in> set (at_dropped s) \<or> (\<exists>e. Connects k (Inl e) \<in> set evs)"
proof (induction evs arbitrary: s)
  case (Cons ev evs)
  have "k \<in> set (at_dropped (accept_step a limits ev s)) \<Longrightarrow> k \<in> set (at_dropped s) \<or> (\<exists>e. ev = Connects k (Inl e))"
    by (cases "(a, limits, ev, s)" rule: accept_step.cases) (auto split: sum.splits admission.splits if_splits)
  then show ?case using Cons by auto
qed simp

text \<open>
  C38: The listener keeps its limit and answers whom it can. However connections come, fail and end,
  no more of them are served at a time than the limit says, and only of uids the access list takes;
  one that is turned away is told why in a frame; and every connection that arrived before the
  shutdown, and whose credentials could be read, is served, has ended or was told why not. Of those
  whose credentials could not be read, all that is said is that only they are dropped unanswered.
\<close>

theorem listener_keeps_its_limit:
  assumes "s = accept_run a limits evs"
  shows "length (at_served s) \<le> lim_connections limits \<and> (\<forall>(k, uid) \<in> set (at_served s). acl_accepts a uid) \<and>
    (\<forall>(k, r) \<in> set (at_refused s). \<exists>c m. r = ErrorFrame 0 c m \<and> (c = Unauthorized \<or> c = Backpressure)) \<and>
    (\<forall>k \<in> set (arrived evs). accounted evs s k) \<and> (\<forall>k \<in> set (at_dropped s). \<exists>e. Connects k (Inl e) \<in> set evs)"
proof -
  have "\<forall>k \<in> set (at_dropped s). \<exists>e. Connects k (Inl e) \<in> set evs"
    using dropped_fold [of _ a limits evs acceptor_new] by (auto simp: assms accept_run_def acceptor_new_def)
  moreover have "accept_inv a limits acceptor_new" by (simp add: accept_inv_def acceptor_new_def)
  then have "accept_inv a limits s" unfolding assms accept_run_def by (rule accept_inv_fold)
  moreover have "accounted evs s k" if "k \<in> set (arrived evs)" for k
    using arrived_accounted [of acceptor_new k evs "[]"] that by (simp add: acceptor_new_def assms accept_run_def)
  ultimately show ?thesis by (simp add: accept_inv_def)
qed

text \<open>The second of two connections at a limit of one.\<close>

theorem listener_keeps_its_limit_witness:
  "length (at_served (accept_run (acl_new 1000 []) (limits_default\<lparr>lim_connections := 1\<rparr>) [Connects 0 (Inr 1000), Connects 1 (Inr 1000)])) \<le> 1"
  using listener_keeps_its_limit [OF refl, of "acl_new 1000 []" "limits_default\<lparr>lim_connections := 1\<rparr>" "[Connects 0 (Inr 1000), Connects 1 (Inr 1000)]"]
  by simp

text \<open>
  A client keeps to the protocol when it opens a stream under the id of none that is still running:
  the id of a stream may be used again after its End.
\<close>

fun keeps_ids ::
    "(registry \<Rightarrow> string \<Rightarrow> bool \<Rightarrow> registry \<times> (failure + log_handle)) \<Rightarrow> (frame_fault \<Rightarrow> string) \<Rightarrow> served_event list \<Rightarrow> connection \<Rightarrow> bool" where
  "keeps_ids create fault_text [] c = True"
| "keeps_ids create fault_text (ev # evs) c \<longleftrightarrow>
     (\<forall>i n f m credit. ev = Frame (Inr (Subscribe i n f m credit)) \<longrightarrow> i \<notin> st_id ` set (cn_streams c)) \<and>
     keeps_ids create fault_text evs (connection_step create fault_text ev c)"

definition stream_open :: "connection \<Rightarrow> id \<Rightarrow> bool" where
  "stream_open c i \<longleftrightarrow> bt_get (ss_streams (cn_session c)) i \<noteq> None"

definition connection_inv :: "connection \<Rightarrow> bool" where
  "connection_inv c \<longleftrightarrow> distinct (map st_id (cn_streams c)) \<and> bt_wf (ss_streams (cn_session c)) \<and>
     (\<forall>i. stream_open c i \<longrightarrow> i \<in> st_id ` set (cn_streams c)) \<and> (\<not> cn_open c \<longrightarrow> (\<forall>i. \<not> stream_open c i))"

lemma spawned_ids: "map st_id (streams_started es) = spawned es"
  by (induction es) (auto simp: streams_started_def spawned_def List.map_filter_def split: effect.splits)

lemma close_closes: "connection_inv c \<Longrightarrow> connection_inv (connection_close (c\<lparr>cn_effects := es\<rparr>)) \<and> \<not> stream_open (connection_close (c\<lparr>cn_effects := es\<rparr>)) i"
  by (simp add: connection_inv_def connection_close_def session_close_def stream_open_def bt_get_def)

lemma only_subscribe_spawns: "dispatch create ch logs s req = (logs', s', es) \<Longrightarrow> spawned es \<noteq> [] \<Longrightarrow> \<exists>i n f m credit. req = Subscribe i n f m credit"
  by (cases req) (auto split: if_splits sum.splits prod.splits dest: session_handle_answers)

text \<open>One step, for the streams: what it keeps, and why a stream's flow may go.\<close>

lemma step_keeps_streams:
  assumes "connection_inv c" "keeps_ids create fault_text [ev] c"
  shows "connection_inv (connection_step create fault_text ev c) \<and>
    (\<forall>i. stream_open c i \<longrightarrow> stream_open (connection_step create fault_text ev c) i \<or> ev = Frame (Inr (Cancel i)) \<or>
       \<not> cn_open (connection_step create fault_text ev c) \<or> i \<notin> st_id ` set (cn_streams (connection_step create fault_text ev c)))"
    (is "connection_inv ?c \<and> ?why")
proof (cases ev)
  case (Frame frame)
  show ?thesis
  proof (cases frame)
    case (Inl fault)
    then show ?thesis using assms(1) close_closes [OF assms(1)] close_closes [OF assms(1), of "cn_effects c"]
      by (cases fault) (auto simp: Frame connection_close_def)
  next
    case (Inr req)
    show ?thesis
    proof (cases "cn_open c")
      case True
      obtain logs s es where d: "dispatch create (cn_calls c) (cn_logs c) (cn_session c) req = (logs, s, es)" by (metis prod_cases3)
      have c': "?c = c\<lparr>cn_logs := logs, cn_session := s, cn_effects := cn_effects c @ es,
          cn_streams := cn_streams c @ streams_started es, cn_calls := cn_calls c + 1\<rparr>" using True d by (simp add: Frame Inr)
      have ids: "st_id ` set (streams_started es) = set (spawned es)" using arg_cong [OF spawned_ids, of set] by simp
      have fresh: "spawned es = [] \<or> spawned es = [req_id req] \<and> req_id req \<notin> st_id ` set (cn_streams c)"
      proof (cases "spawned es = []")
        case False
        then obtain i n f m credit where "req = Subscribe i n f m credit" using only_subscribe_spawns [OF d] by blast
        then show ?thesis using dispatch_effects [OF d] False assms(2) by (auto simp: Frame Inr)
      qed simp
      have "distinct (map st_id (cn_streams c) @ spawned es)"
        using assms(1) fresh by (elim disjE conjE) (simp_all add: connection_inv_def)
      then have "distinct (map st_id (cn_streams c @ streams_started es))" by (simp only: map_append spawned_ids)
      moreover have table: "bt_wf (ss_streams s)" "\<And>i. bt_get (ss_streams s) i \<noteq> None \<longleftrightarrow>
          (bt_get (ss_streams (cn_session c)) i \<noteq> None \<and> req \<noteq> Cancel i) \<or> i \<in> set (spawned es)"
        using dispatch_effects [OF d] assms(1) by (simp_all add: connection_inv_def)
      ultimately show ?thesis using assms(1) True unfolding c' connection_inv_def stream_open_def
        by (auto simp: Frame Inr ids image_Un)
    qed (use assms(1) in \<open>simp add: Frame Inr\<close>)
  qed
next
  case PeerEnds
  then show ?thesis using assms(1) close_closes [OF assms(1), of "cn_effects c"] by (auto simp: connection_close_def)
next
  case (StreamStops k)
  let ?xs = "cn_streams c"
  show ?thesis
  proof (cases "k < length ?xs")
    case True
    then have split: "?xs = take k ?xs @ ?xs ! k # drop (Suc k) ?xs" by (rule id_take_nth_drop)
    have "distinct (map st_id (take k ?xs @ ?xs ! k # drop (Suc k) ?xs))" using assms(1) split by (simp add: connection_inv_def)
    moreover have "st_id ` set ?xs = insert (st_id (?xs ! k)) (st_id ` set (take k ?xs @ drop (Suc k) ?xs))"
      by (subst split) auto
    ultimately show ?thesis using assms(1) True
      by (auto simp: StreamStops connection_inv_def stream_open_def stream_finish_def session_forget_def)
  qed (use assms(1) in \<open>simp add: StreamStops\<close>)
qed (use assms(1) in \<open>simp_all add: connection_inv_def stream_open_def\<close>)

lemma connection_new_inv: "connection_inv (connection_new uid a logs)"
  by (simp add: connection_inv_def connection_new_def session_new_def stream_open_def bt_get_def)

lemma run_keeps_inv: "connection_inv c \<Longrightarrow> keeps_ids create fault_text evs c \<Longrightarrow> connection_inv (connection_run create fault_text evs c)"
  unfolding connection_run_def by (induction evs arbitrary: c) (simp_all add: step_keeps_streams)

text \<open>
  C36: A connection stops its streams for a reason, and stops them all. As long as a client opens no
  stream under the id of one still running, streams running on a connection have different ids, only
  running ones hold credit, and whatever happens next, one of them is told to stop only by the Cancel
  of its own id or by the end of the connection, where all are.
\<close>

theorem streams_stop_for_a_reason:
  assumes "keeps_ids create fault_text (evs @ [ev]) (connection_new uid a logs)"
    and "c = connection_run create fault_text evs (connection_new uid a logs)" "c' = connection_step create fault_text ev c"
    and "stream_open c i" "\<not> stream_open c' i" "i \<in> st_id ` set (cn_streams c')"
  shows "distinct (map st_id (cn_streams c')) \<and> (\<forall>j. stream_open c' j \<longrightarrow> j \<in> st_id ` set (cn_streams c')) \<and>
    (ev = Frame (Inr (Cancel i)) \<or> \<not> cn_open c' \<and> (\<forall>j. \<not> stream_open c' j))"
proof -
  have split: "keeps_ids create fault_text (xs @ ys) s \<longleftrightarrow> keeps_ids create fault_text xs s \<and>
      keeps_ids create fault_text ys (connection_run create fault_text xs s)" for xs ys s
    by (induction xs arbitrary: s) (simp_all add: connection_run_def)
  have keeps: "keeps_ids create fault_text evs (connection_new uid a logs)" "keeps_ids create fault_text [ev] c"
    using assms(1,2) split by blast+
  have "connection_inv c" unfolding assms(2) by (rule run_keeps_inv [OF connection_new_inv keeps(1)])
  from step_keeps_streams [OF this keeps(2)] have "connection_inv c'" "ev = Frame (Inr (Cancel i)) \<or> \<not> cn_open c'"
    using assms(4-6) unfolding assms(3) [symmetric] by blast+
  then show ?thesis unfolding connection_inv_def by blast
qed

text \<open>Two streams, one cancelled: the other still holds its credit.\<close>

theorem streams_stop_for_a_reason_witness:
  "distinct (map st_id (cn_streams (connection_run (\<lambda>logs name folds. (logs, Inl (Internal, []))) (\<lambda>_. [])
     [Frame (Inr (Subscribe 9 ''orders'' 0 Records 8)), Frame (Inr (Subscribe 4 ''orders'' 0 Records 1)), Frame (Inr (Cancel 9))]
     (connection_new 1000 (acl_new 1000 []) [(''orders'', \<lparr>lh_name = ''orders'', lh_reducible = True, lh_watermark = 3, lh_oldest = 1,
        lh_subscribers = 0, lh_open = True\<rparr>)]))))"
proof -
  let ?create = "\<lambda>logs name folds. (logs, Inl (Internal, [])) :: registry \<times> (failure + log_handle)"
  let ?logs = "[(''orders'', \<lparr>lh_name = ''orders'', lh_reducible = True, lh_watermark = 3, lh_oldest = 1, lh_subscribers = 0, lh_open = True\<rparr>)] :: registry"
  let ?new = "connection_new 1000 (acl_new 1000 []) ?logs"
  let ?evs = "[Frame (Inr (Subscribe 9 ''orders'' 0 Records 8)), Frame (Inr (Subscribe 4 ''orders'' 0 Records 1))]"
  let ?c = "connection_run ?create (\<lambda>_. []) ?evs ?new"
  let ?c' = "connection_step ?create (\<lambda>_. []) (Frame (Inr (Cancel 9))) ?c"
  note run = connection_run_def connection_new_def session_new_def session_handle_def acl_allows_def acl_new_def registry_get_def
    bt_get_def streams_started_def List.map_filter_def stream_new_def stream_open_def session_cancel_def bt_remove_def
  have "keeps_ids ?create (\<lambda>_. []) (?evs @ [Frame (Inr (Cancel 9))]) ?new" by (simp add: run)
  moreover have "stream_open ?c 9" "\<not> stream_open ?c' 9" "9 \<in> st_id ` set (cn_streams ?c')" by (simp_all add: run)
  ultimately have "distinct (map st_id (cn_streams ?c'))" using streams_stop_for_a_reason [OF _ refl refl] by blast
  then show ?thesis by (simp add: connection_run_def)
qed

text \<open>
  The writer. What FramedWrite promises: frames go out in the order they are fed, those not yet sent
  are kept, and a flush that succeeds keeps none.
\<close>

definition sink_ok :: "'s sink_ops \<Rightarrow> ('s \<Rightarrow> response list) \<Rightarrow> ('s \<Rightarrow> response list) \<Rightarrow> bool" where
  "sink_ok ops sent kept \<longleftrightarrow>
     (\<forall>r s s' fed. so_feed ops r s = (s', fed) \<longrightarrow>
        prefix (sent s' @ kept s') (sent s @ kept s @ [r]) \<and> (fed \<longrightarrow> sent s' @ kept s' = sent s @ kept s @ [r])) \<and>
     (\<forall>s s' flushed. so_flush ops s = (s', flushed) \<longrightarrow>
        prefix (sent s' @ kept s') (sent s @ kept s) \<and> (flushed \<longrightarrow> sent s' = sent s @ kept s \<and> kept s' = [])) \<and>
     (\<forall>s. prefix (sent (so_close ops s)) (sent s @ kept s))"

lemma feed_all_order:
  "sink_ok ops sent kept \<Longrightarrow> feed_all ops rs s = (s', fed) \<Longrightarrow>
    prefix (sent s' @ kept s') (sent s @ kept s @ rs) \<and> (fed \<longrightarrow> sent s' @ kept s' = sent s @ kept s @ rs)"
proof (induction rs arbitrary: s)
  case (Cons r rs)
  obtain t ok where t: "so_feed ops r s = (t, ok)" by fastforce
  have one: "prefix (sent t @ kept t) (sent s @ kept s @ [r])" "ok \<Longrightarrow> sent t @ kept t = sent s @ kept s @ [r]"
    using Cons.prems(1) t unfolding sink_ok_def by blast+
  show ?case
  proof (cases ok)
    case True
    then have "feed_all ops rs t = (s', fed)" using Cons.prems(2) t by simp
    from Cons.IH [OF Cons.prems(1) this] one(2) [OF True] show ?thesis by (metis append.assoc append_Cons append_Nil)
  next
    case False
    then have "s' = t" "\<not> fed" using Cons.prems(2) t by simp_all
    moreover have "prefix (sent s @ kept s @ [r]) (sent s @ kept s @ r # rs)" by simp
    ultimately show ?thesis using one(1) prefix_order.trans by blast
  qed
qed simp

text \<open>What the peer is sent is a beginning of what was put into the outbox, in that order.\<close>

lemma writer_keeps_order:
  "sink_ok ops sent kept \<Longrightarrow> prefix (sent (write_loop ops wakes s)) (sent s @ kept s @ concat (map (\<lambda>(r, rs). r # rs) wakes))"
proof (induction wakes arbitrary: s)
  case Nil
  then show ?case by (simp add: sink_ok_def)
next
  case (Cons w wakes)
  obtain r rs where w: "w = (r, rs)" by (cases w)
  let ?all = "sent s @ kept s @ concat (map (\<lambda>(r, rs). r # rs) (w # wakes))"
  obtain t fed where t: "feed_all ops (r # rs) s = (t, fed)" by fastforce
  obtain u ok where u: "so_feed ops r s = (u, ok)" by fastforce
  have closes: "prefix (sent x @ kept x) ?all \<Longrightarrow> prefix (sent (so_close ops x)) ?all \<and> prefix (sent x) ?all" for x
    using Cons.prems append_prefixD prefix_order.trans unfolding sink_ok_def by blast
  have "prefix (sent s @ kept s @ r # rs) ?all" "prefix (sent s @ kept s @ [r]) ?all" by (simp_all add: w)
  then have fed_part: "prefix (sent t @ kept t) ?all" and one_part: "prefix (sent u @ kept u) ?all"
    using feed_all_order [OF Cons.prems t] feed_all_order [OF Cons.prems, of "[r]" s u ok] u prefix_order.trans
    by (blast, fastforce split: bool.splits)
  show ?case
  proof (cases "ok \<and> fed")
    case True
    then have rest: "feed_all ops rs u = (t, True)" using t u by simp
    obtain v flushed where v: "so_flush ops t = (v, flushed)" by fastforce
    have all_fed: "sent t @ kept t = sent s @ kept s @ r # rs" using feed_all_order [OF Cons.prems t] True by simp
    have flush: "prefix (sent v @ kept v) (sent t @ kept t)" "flushed \<Longrightarrow> sent v = sent t @ kept t \<and> kept v = []"
      using Cons.prems v unfolding sink_ok_def by blast+
    show ?thesis
    proof (cases flushed)
      case True
      have "prefix (sent (write_loop ops wakes v)) (sent v @ kept v @ concat (map (\<lambda>(r, rs). r # rs) wakes))" by (rule Cons.IH [OF Cons.prems])
      then show ?thesis using flush(2) [OF True] all_fed \<open>ok \<and> fed\<close> rest True u v by (simp add: w)
    next
      case False
      have "prefix (sent v @ kept v) ?all" using flush(1) fed_part prefix_order.trans by blast
      then show ?thesis using closes \<open>ok \<and> fed\<close> rest False u v by (simp add: w)
    qed
  next
    case False
    then show ?thesis using closes fed_part one_part t u by (cases ok) (simp_all add: w)
  qed
qed

text \<open>A start that succeeds has reopened every log it found, each in its kind.\<close>

lemma create_keeps:
  assumes "registry_create debug rem_kind spawn logs name folds = (logs', Inr h)"
  shows "bt_get logs' name = Some h \<and> (\<forall>n g. bt_get logs n = Some g \<longrightarrow> bt_get logs' n = Some g) \<and> lh_reducible h = folds \<and> check_name debug name = Inr ()"
  using assms by (auto simp: registry_create_def Let_def split: sum.splits option.splits if_splits)

lemma reopen_restores:
  "reopen (registry_create debug rem_kind spawn) existing logs = Inr logs' \<Longrightarrow>
    (\<forall>n g. bt_get logs n = Some g \<longrightarrow> bt_get logs' n = Some g) \<and>
    (\<forall>(name, folds) \<in> set existing. \<exists>h. registry_get logs' name = Some h \<and> lh_reducible h = folds \<and> check_name debug name = Inr ())"
proof (induction existing arbitrary: logs)
  case (Cons e existing)
  obtain name folds where e: "e = (name, folds)" by (cases e)
  obtain logs1 r where c: "registry_create debug rem_kind spawn logs name folds = (logs1, r)" by fastforce
  then obtain h where h: "r = Inr h" using Cons.prems by (cases r) (simp_all add: e)
  have rest: "reopen (registry_create debug rem_kind spawn) existing logs1 = Inr logs'" using Cons.prems c h by (simp add: e)
  show ?case using Cons.IH [OF rest] create_keeps [OF c [unfolded h]] by (auto simp: e registry_get_def)
qed simp

text \<open>So a directory beside the logs that is no log, of a name a log may not have, keeps the daemon from starting.\<close>

lemma foreign_directory_stops_the_start:
  assumes "(''lost+found'', False) \<in> set existing"
  shows "reopen (registry_create debug rem_kind spawn) existing logs \<noteq> Inr logs'"
proof
  assume "reopen (registry_create debug rem_kind spawn) existing logs = Inr logs'"
  from reopen_restores [OF this] assms have "check_name debug ''lost+found'' = Inr ()" by fastforce
  then show False by (simp add: check_name_def is_ascii_alphanumeric_def is_ascii_alphabetic_def is_ascii_digit_def Let_def)
qed

text \<open>A log stays on one of the lanes, whatever its name.\<close>

lemma lane_in_range: "lane_of hash (cores_new n) key < length (cores_new n)"
  by (simp add: lane_of_def cores_new_def)

text \<open>
  A lane takes 64 tasks that its thread has not picked up yet, and the thread is away while a log
  recovers: of more logs that are started meanwhile, the next is refused, and with it the start.
\<close>

fun spawn_each :: "(string \<Rightarrow> nat) \<Rightarrow> string list \<Rightarrow> core_lane list \<Rightarrow> core_lane list" where
  "spawn_each hash [] lanes = lanes"
| "spawn_each hash (key # keys) lanes = spawn_each hash keys (fst (cores_spawn hash key lanes))"

lemma crowded_lane_refuses:
  assumes "length keys = 64"
  shows "snd (cores_spawn hash key (spawn_each hash keys (cores_new 1))) =
    Inl (''core runtime for '' @ key @ '': no available capacity'')"
proof -
  have "q + length ks \<le> 64 \<Longrightarrow> spawn_each hash ks [\<lparr>cl_queued = q, cl_running = True\<rparr>] = [\<lparr>cl_queued = q + length ks, cl_running = True\<rparr>]" for ks q
    by (induction ks arbitrary: q) (simp_all add: cores_spawn_def lane_of_def Let_def)
  from this [of 0 keys] show ?thesis using assms by (simp add: cores_new_def cores_spawn_def lane_of_def)
qed

end
