(* ===== verification/TuiJson.thy ===== *)
theory TuiJson
  imports Proto
begin

text \<open>
  \<open>crates/lug-tui/src/json.rs\<close>: a value as coloured spans, spans wrapped to a width, spans cut to a
  width. Text is a list of code points. \<open>cols\<close> is the terminal width of a code point with
  \<open>unwrap_or(0)\<close>, of the crate \<open>unicode-width\<close>; \<open>num\<close> and \<open>quote\<close> are what serde_json prints for a
  number and for a string.
\<close>

section \<open>Spans\<close>

type_synonym utext = "nat list"

definition ascii :: "string \<Rightarrow> utext" where
  "ascii s = map of_char s"

datatype colour = Cyan | Green | Yellow | Magenta | DarkGray | Plain

record style =
  sty_fg :: colour
  sty_dim :: bool

record span =
  sp_content :: utext
  sp_style :: style

definition fg :: "colour \<Rightarrow> style" where
  "fg c = \<lparr>sty_fg = c, sty_dim = False\<rparr>"

definition dim :: "colour \<Rightarrow> style" where
  "dim c = \<lparr>sty_fg = c, sty_dim = True\<rparr>"

definition styled :: "utext \<Rightarrow> style \<Rightarrow> span" where
  "styled t s = \<lparr>sp_content = t, sp_style = s\<rparr>"

definition punct :: "string \<Rightarrow> span" where
  "punct t = styled (ascii t) (fg DarkGray)"

fun separated :: "span list list \<Rightarrow> span list" where
  "separated [] = []"
| "separated [x] = x"
| "separated (x # y # ys) = x @ punct '', '' # separated (y # ys)"

fun spans_of :: "(json \<Rightarrow> utext) \<Rightarrow> (string \<Rightarrow> utext) \<Rightarrow> json \<Rightarrow> span list" where
  "spans_of num quote JNull = [styled (ascii ''null'') (fg Magenta)]"
| "spans_of num quote (JBool b) = [styled (ascii (if b then ''true'' else ''false'')) (fg Magenta)]"
| "spans_of num quote (JInt n) = [styled (num (JInt n)) (fg Yellow)]"
| "spans_of num quote (JFloat r) = [styled (num (JFloat r)) (fg Yellow)]"
| "spans_of num quote (JString s) = [styled (quote s) (fg Green)]"
| "spans_of num quote (JArray items) = punct ''['' # separated (map (spans_of num quote) items) @ [punct '']'']"
| "spans_of num quote (JObject kvs) =
     punct ''{'' # separated (map (\<lambda>(key, item). styled (quote key) (fg Cyan) # punct '': '' # spans_of num quote item) kvs)
       @ [punct ''}'']"

definition display_width :: "(nat \<Rightarrow> nat) \<Rightarrow> utext \<Rightarrow> nat" where
  "display_width cols t = sum_list (map cols t)"

definition blanks :: "nat \<Rightarrow> utext" where
  "blanks n = replicate n 32"

section \<open>Wrapping\<close>

text \<open>
  The state of \<open>wrap\<close>: finished lines, the line being built, the columns used on it, and the chunk
  of the current span with its width.
\<close>

record wrapping =
  wp_lines :: "span list list"
  wp_current :: "span list"
  wp_used :: nat
  wp_chunk :: utext
  wp_chunk_width :: nat

definition wrap_char :: "(nat \<Rightarrow> nat) \<Rightarrow> nat \<Rightarrow> nat \<Rightarrow> style \<Rightarrow> nat \<Rightarrow> wrapping \<Rightarrow> wrapping" where
  "wrap_char cols indent body sty ch w =
     (let w = (if body < wp_used w + wp_chunk_width w + cols ch
            then let line = wp_current w @ (if wp_chunk w = [] then [] else [styled (wp_chunk w) sty])
              in w\<lparr>wp_lines := wp_lines w @ [line], wp_current := [styled (blanks indent) (fg Plain)], wp_used := 0,
                   wp_chunk := [], wp_chunk_width := 0\<rparr>
            else w)
      in w\<lparr>wp_chunk := wp_chunk w @ [ch], wp_chunk_width := wp_chunk_width w + cols ch\<rparr>)"

definition wrap_span :: "(nat \<Rightarrow> nat) \<Rightarrow> nat \<Rightarrow> nat \<Rightarrow> span \<Rightarrow> wrapping \<Rightarrow> wrapping" where
  "wrap_span cols indent body s w =
     (let w = fold (wrap_char cols indent body (sp_style s)) (sp_content s) (w\<lparr>wp_chunk := [], wp_chunk_width := 0\<rparr>) in
      if wp_chunk w = [] then w
      else w\<lparr>wp_current := wp_current w @ [styled (wp_chunk w) (sp_style s)], wp_used := wp_used w + wp_chunk_width w\<rparr>)"

definition wrap :: "(nat \<Rightarrow> nat) \<Rightarrow> span \<Rightarrow> span list \<Rightarrow> nat \<Rightarrow> span list list" where
  "wrap cols gutter spans width =
     (let indent = display_width cols (sp_content gutter); body = max (width - indent) 1;
          w = fold (wrap_span cols indent body) spans
            \<lparr>wp_lines = [], wp_current = [gutter], wp_used = 0, wp_chunk = [], wp_chunk_width = 0\<rparr>
      in wp_lines w @ [wp_current w])"

section \<open>Cutting\<close>

fun take_cols :: "(nat \<Rightarrow> nat) \<Rightarrow> nat \<Rightarrow> nat \<Rightarrow> utext \<Rightarrow> utext \<times> nat" where
  "take_cols cols budget used [] = ([], used)"
| "take_cols cols budget used (ch # t) =
     (if budget < used + cols ch then ([], used)
      else case take_cols cols budget (used + cols ch) t of (kept, n) \<Rightarrow> (ch # kept, n))"

fun cut_spans :: "(nat \<Rightarrow> nat) \<Rightarrow> nat \<Rightarrow> nat \<Rightarrow> span list \<Rightarrow> span list" where
  "cut_spans cols budget used [] = []"
| "cut_spans cols budget used (s # ss) =
     (if budget \<le> used then []
      else case take_cols cols budget used (sp_content s) of
          (kept, n) \<Rightarrow> (if kept = [] then [] else [styled kept (sp_style s)]) @ cut_spans cols budget n ss)"

definition ellipsis :: span where
  "ellipsis = styled [8230] (fg DarkGray)"

definition spans_width :: "(nat \<Rightarrow> nat) \<Rightarrow> span list \<Rightarrow> nat" where
  "spans_width cols ss = sum_list (map (\<lambda>s. display_width cols (sp_content s)) ss)"

definition truncate :: "(nat \<Rightarrow> nat) \<Rightarrow> span list \<Rightarrow> nat \<Rightarrow> span list" where
  "truncate cols ss width =
     (if spans_width cols ss \<le> width then ss else cut_spans cols (width - 1) 0 ss @ [ellipsis])"

section \<open>What the width promises\<close>

definition text_of :: "span list \<Rightarrow> utext" where
  "text_of ss = concat (map sp_content ss)"

lemma text_of_simps [simp]: "text_of [] = []" "text_of (s # ss) = sp_content s @ text_of ss" "text_of (xs @ ys) = text_of xs @ text_of ys"
  by (simp_all add: text_of_def)

lemma styled_simps [simp]: "sp_content (styled t s) = t" "sp_style (styled t s) = s"
  by (simp_all add: styled_def)

lemma display_width_simps [simp]:
  "display_width cols [] = 0" "display_width cols (c # t) = cols c + display_width cols t"
  "display_width cols (s @ t) = display_width cols s + display_width cols t"
  by (simp_all add: display_width_def)

lemma spans_width_text: "spans_width cols ss = display_width cols (text_of ss)"
  by (induction ss) (simp_all add: spans_width_def)

text \<open>
  A wrapping in progress: every line begins with the gutter or an indent, fits, and the lines say
  what has been read so far.
\<close>

definition wrap_heads :: "span \<Rightarrow> nat \<Rightarrow> span list list \<Rightarrow> utext \<Rightarrow> bool" where
  "wrap_heads gutter indent ls t \<longleftrightarrow> ls \<noteq> [] \<and> hd (hd ls) = gutter \<and> (\<forall>l \<in> set ls. l \<noteq> []) \<and>
     (\<forall>l \<in> set (tl ls). hd l = styled (blanks indent) (fg Plain)) \<and> concat (map (text_of \<circ> tl) ls) = t"

definition wrap_inv :: "(nat \<Rightarrow> nat) \<Rightarrow> span \<Rightarrow> nat \<Rightarrow> nat \<Rightarrow> utext \<Rightarrow> wrapping \<Rightarrow> bool" where
  "wrap_inv cols gutter indent body t w \<longleftrightarrow>
     wrap_heads gutter indent (wp_lines w @ [wp_current w @ (if wp_chunk w = [] then [] else [styled (wp_chunk w) (fg Plain)])]) t \<and>
     (\<forall>l \<in> set (wp_lines w). display_width cols (text_of (tl l)) \<le> body) \<and> wp_current w \<noteq> [] \<and>
     wp_used w = display_width cols (text_of (tl (wp_current w))) \<and> wp_chunk_width w = display_width cols (wp_chunk w) \<and>
     wp_used w + wp_chunk_width w \<le> body"

lemma wrap_heads_snoc:
  "wrap_heads gutter indent (ls @ [l]) t \<Longrightarrow> wrap_heads gutter indent (ls @ [l, [styled (blanks indent) (fg Plain)]]) t"
  by (cases ls) (auto simp: wrap_heads_def)

lemma wrap_heads_last:
  "wrap_heads gutter indent (ls @ [l]) t \<Longrightarrow> l' \<noteq> [] \<Longrightarrow> hd l' = hd l \<Longrightarrow> text_of (tl l') = text_of (tl l) @ u \<Longrightarrow>
    wrap_heads gutter indent (ls @ [l']) (t @ u)"
  by (cases ls) (auto simp: wrap_heads_def)

lemma wrap_char_inv:
  assumes w: "wrap_inv cols gutter indent body t w" and ch: "cols ch \<le> body"
  shows "wrap_inv cols gutter indent body (t @ [ch]) (wrap_char cols indent body sty ch w)"
proof -
  let ?chunk = "if wp_chunk w = [] then [] else [styled (wp_chunk w) (fg Plain)]"
  have heads: "wrap_heads gutter indent (wp_lines w @ [wp_current w @ ?chunk]) t" and cur: "wp_current w \<noteq> []"
    using w by (simp_all add: wrap_inv_def)
  show ?thesis
  proof (cases "body < wp_used w + wp_chunk_width w + cols ch")
    case True
    let ?line = "wp_current w @ (if wp_chunk w = [] then [] else [styled (wp_chunk w) sty])"
    have "text_of (tl ?line) = text_of (tl (wp_current w @ ?chunk))" "hd ?line = hd (wp_current w @ ?chunk)"
      using cur by (cases "wp_current w"; simp)+
    then have "wrap_heads gutter indent (wp_lines w @ [?line]) (t @ [])"
      using cur by (intro wrap_heads_last [OF heads]) simp_all
    then have "wrap_heads gutter indent ((wp_lines w @ [?line]) @ [[styled (blanks indent) (fg Plain)]]) t"
      using wrap_heads_snoc [of gutter indent "wp_lines w" ?line t] by simp
    from wrap_heads_last [OF this, of "[styled (blanks indent) (fg Plain), styled [ch] (fg Plain)]" "[ch]"]
    have "wrap_heads gutter indent ((wp_lines w @ [?line]) @ [[styled (blanks indent) (fg Plain), styled [ch] (fg Plain)]]) (t @ [ch])" by simp
    moreover have "display_width cols (text_of (tl ?line)) \<le> body"
      using w cur unfolding wrap_inv_def by (cases "wp_current w") auto
    ultimately show ?thesis using True w ch by (auto simp: wrap_char_def wrap_inv_def Let_def)
  next
    case False
    have "wrap_heads gutter indent (wp_lines w @ [wp_current w @ [styled (wp_chunk w @ [ch]) (fg Plain)]]) (t @ [ch])"
      using cur by (intro wrap_heads_last [OF heads]) (cases "wp_current w"; simp)+
    then show ?thesis using False w by (simp add: wrap_char_def wrap_inv_def Let_def)
  qed
qed

lemma wrap_chars_inv:
  "wrap_inv cols gutter indent body t w \<Longrightarrow> \<forall>ch \<in> set u. cols ch \<le> body \<Longrightarrow>
    wrap_inv cols gutter indent body (t @ u) (fold (wrap_char cols indent body sty) u w)"
proof (induction u arbitrary: t w)
  case (Cons ch u)
  from Cons.IH [OF wrap_char_inv [OF Cons.prems(1)], of ch] Cons.prems(2) show ?case by simp
qed simp

lemma wrap_span_inv:
  assumes w: "wrap_inv cols gutter indent body t w" "wp_chunk w = []" and s: "\<forall>ch \<in> set (sp_content s). cols ch \<le> body"
  shows "wrap_inv cols gutter indent body (t @ sp_content s) ((wrap_span cols indent body s w)\<lparr>wp_chunk := [], wp_chunk_width := 0\<rparr>)"
proof -
  have start: "w\<lparr>wp_chunk := [], wp_chunk_width := 0\<rparr> = w" using w by (simp add: wrap_inv_def)
  let ?w = "fold (wrap_char cols indent body (sp_style s)) (sp_content s) w"
  have inv: "wrap_inv cols gutter indent body (t @ sp_content s) ?w" using wrap_chars_inv [OF w(1) s] .
  show ?thesis
  proof (cases "wp_chunk ?w = []")
    case True
    then show ?thesis using inv by (simp add: wrap_span_def start wrap_inv_def)
  next
    case False
    have cur: "wp_current ?w \<noteq> []" using inv by (simp add: wrap_inv_def)
    have heads: "wrap_heads gutter indent (wp_lines ?w @ [wp_current ?w @ [styled (wp_chunk ?w) (fg Plain)]]) (t @ sp_content s)"
      using inv False by (simp add: wrap_inv_def)
    have "wrap_heads gutter indent (wp_lines ?w @ [wp_current ?w @ [styled (wp_chunk ?w) (sp_style s)]]) ((t @ sp_content s) @ [])"
      using cur by (intro wrap_heads_last [OF heads]) (cases "wp_current ?w"; simp)+
    moreover have "wrap_span cols indent body s w =
        ?w\<lparr>wp_current := wp_current ?w @ [styled (wp_chunk ?w) (sp_style s)], wp_used := wp_used ?w + wp_chunk_width ?w\<rparr>"
      using False by (simp add: wrap_span_def start Let_def)
    ultimately show ?thesis using inv cur by (simp add: wrap_inv_def)
  qed
qed

lemma wrap_span_forgets: "wrap_span cols indent body s (w\<lparr>wp_chunk := [], wp_chunk_width := 0\<rparr>) = wrap_span cols indent body s w"
  by (simp add: wrap_span_def)

lemma wrap_spans_inv:
  "wrap_inv cols gutter indent body t (w\<lparr>wp_chunk := [], wp_chunk_width := 0\<rparr>) \<Longrightarrow>
    \<forall>s \<in> set ss. \<forall>ch \<in> set (sp_content s). cols ch \<le> body \<Longrightarrow>
    wrap_inv cols gutter indent body (t @ text_of ss) ((fold (wrap_span cols indent body) ss w)\<lparr>wp_chunk := [], wp_chunk_width := 0\<rparr>)"
proof (induction ss arbitrary: t w)
  case (Cons s ss)
  have "wrap_inv cols gutter indent body (t @ sp_content s) ((wrap_span cols indent body s w)\<lparr>wp_chunk := [], wp_chunk_width := 0\<rparr>)"
    using wrap_span_inv [OF Cons.prems(1), of s] Cons.prems(2) by (simp add: wrap_span_forgets)
  from Cons.IH [OF this] Cons.prems(2) show ?case by simp
qed simp

lemma blanks_width: "cols 32 = 1 \<Longrightarrow> display_width cols (blanks n) = n"
  by (simp add: display_width_def blanks_def sum_list_replicate)

text \<open>
  Wrapping loses nothing and fits. When the gutter leaves room for the widest character, every
  line of a wrapped record is at most as wide as the terminal; the first starts with the gutter
  and the others with an indent as wide; and what follows, line after line, is the text of the
  record.
\<close>

theorem wrapped_lines_fit:
  assumes "cols 32 = 1" "display_width cols (sp_content gutter) < width"
    and "\<forall>s \<in> set spans. \<forall>ch \<in> set (sp_content s). cols ch \<le> width - display_width cols (sp_content gutter)"
  shows "let ls = wrap cols gutter spans width in
    (\<forall>l \<in> set ls. spans_width cols l \<le> width) \<and> hd (hd ls) = gutter \<and>
    (\<forall>l \<in> set (tl ls). sp_content (hd l) = blanks (display_width cols (sp_content gutter))) \<and>
    concat (map (\<lambda>l. text_of (tl l)) ls) = text_of spans"
proof -
  let ?indent = "display_width cols (sp_content gutter)"
  let ?body = "max (width - ?indent) 1"
  let ?start = "\<lparr>wp_lines = [], wp_current = [gutter], wp_used = 0, wp_chunk = [], wp_chunk_width = 0\<rparr>"
  let ?w = "fold (wrap_span cols ?indent ?body) spans ?start"
  have "wrap_inv cols gutter ?indent ?body [] ?start"
    by (simp add: wrap_inv_def wrap_heads_def)
  then have inv: "wrap_inv cols gutter ?indent ?body (text_of spans) (?w\<lparr>wp_chunk := [], wp_chunk_width := 0\<rparr>)"
    using wrap_spans_inv [of cols gutter ?indent ?body "[]" ?start spans] assms(3) by fastforce
  define ls where "ls = wp_lines ?w @ [wp_current ?w]"
  have heads: "wrap_heads gutter ?indent ls (text_of spans)" using inv by (simp add: wrap_inv_def ls_def)
  have fits: "display_width cols (text_of (tl l)) \<le> ?body" if "l \<in> set ls" for l
    using inv that by (auto simp: wrap_inv_def ls_def)
  have first: "display_width cols (sp_content (hd l)) = ?indent" if "l \<in> set ls" for l
    using heads that blanks_width [of cols, OF assms(1)] by (cases ls) (auto simp: wrap_heads_def)
  have "spans_width cols l \<le> width" if l: "l \<in> set ls" for l
  proof -
    have "l \<noteq> []" using heads l by (simp add: wrap_heads_def)
    then have "spans_width cols l = display_width cols (sp_content (hd l)) + display_width cols (text_of (tl l))"
      by (cases l) (simp_all add: spans_width_text)
    then show ?thesis using first [OF l] fits [OF l] assms(2) by simp
  qed
  moreover have "wrap cols gutter spans width = ls" by (simp add: wrap_def ls_def Let_def)
  ultimately show ?thesis using heads by (simp add: wrap_heads_def comp_def)
qed

theorem wrapped_lines_fit_witness:
  "let ls = wrap (\<lambda>_. 1) (styled (ascii ''1 '') (fg Plain)) [styled (ascii ''abcde'') (fg Green)] 5 in
    (\<forall>l \<in> set ls. spans_width (\<lambda>_. 1) l \<le> 5) \<and> concat (map (\<lambda>l. text_of (tl l)) ls) = ascii ''abcde''"
  using wrapped_lines_fit [of "\<lambda>_. 1" "styled (ascii ''1 '') (fg Plain)" 5 "[styled (ascii ''abcde'') (fg Green)]"]
  by (simp add: ascii_def Let_def)

section \<open>What cutting does\<close>

lemma take_cols_width: "used \<le> budget \<Longrightarrow> take_cols cols budget used t = (kept, n) \<Longrightarrow> n = used + display_width cols kept \<and> n \<le> budget"
proof (induction t arbitrary: used kept n)
  case (Cons ch t)
  show ?case
  proof (cases "budget < used + cols ch")
    case False
    obtain k m where k: "take_cols cols budget (used + cols ch) t = (k, m)" by fastforce
    from Cons.IH [OF _ k] Cons.prems(2) k False show ?thesis by auto
  qed (use Cons.prems in simp)
qed simp

lemma cut_spans_width: "used \<le> budget \<Longrightarrow> used + spans_width cols (cut_spans cols budget used ss) \<le> budget"
proof (induction ss arbitrary: used)
  case (Cons s ss)
  obtain kept n where k: "take_cols cols budget used (sp_content s) = (kept, n)" by (cases "take_cols cols budget used (sp_content s)")
  from take_cols_width [OF Cons.prems k] Cons.IH [of n] show ?case by (auto simp: spans_width_def k)
qed (simp add: spans_width_def)

lemma truncated_fits: "0 < width \<Longrightarrow> cols 8230 = 1 \<Longrightarrow> spans_width cols (truncate cols ss width) \<le> width"
  using cut_spans_width [of 0 "width - 1" cols ss] by (auto simp: truncate_def spans_width_text ellipsis_def)

text \<open>
  A character that no longer fits ends only its own span. Cut to 4 columns, a span \<open>ab\<close> and a wide
  character, then a span \<open>c\<close>, reads \<open>abc\<close> and the ellipsis: the wide character is left out in the
  middle, and what is shown is not a beginning of the text. A width of no columns gets one.
\<close>

lemma cutting_skips_wide_characters:
  "text_of (truncate (\<lambda>c. if c = 30028 then 2 else 1) [styled (ascii ''ab'' @ [30028]) (fg Cyan), styled (ascii ''c'') (fg DarkGray)] 4) =
     ascii ''abc'' @ [8230]"
  "spans_width (\<lambda>_. 1) (truncate (\<lambda>_. 1) [styled (ascii ''a'') (fg Plain)] 0) = 1"
  by (simp_all add: truncate_def ascii_def spans_width_def ellipsis_def)

end
