(* ===== verification/TuiTail.thy ===== *)
theory TuiTail
  imports TuiJson ServerConfig
begin

text \<open>
  \<open>crates/lug-tui/src/tail.rs\<close>: the records of a log as they arrive, newest at the bottom, with a
  bounded scrollback. The offset counts lines between the bottom of the content and the bottom of
  the viewport; nought is following.
\<close>

section \<open>Rendering an event\<close>

abbreviation bar_char :: nat where "bar_char \<equiv> 9472"

text \<open>\<open>{:>7} \<close>.\<close>

definition gutter_text :: "version \<Rightarrow> utext" where
  "gutter_text v = (let t = ascii (dec_digits v) in blanks (7 - length t) @ t @ blanks 1)"

definition gap_rule :: "(nat \<Rightarrow> nat) \<Rightarrow> version \<Rightarrow> version \<Rightarrow> nat \<Rightarrow> span list" where
  "gap_rule cols lo hi width =
     (let t = blanks 8 @ [bar_char, bar_char] @ ascii ('' records '' @ dec_digits lo @ '' through '' @ dec_digits hi @ '' are gone '')
      in [styled (take width (t @ replicate (width - display_width cols t) bar_char)) (dim DarkGray)])"

definition render_event :: "(nat \<Rightarrow> nat) \<Rightarrow> (json \<Rightarrow> utext) \<Rightarrow> (string \<Rightarrow> utext) \<Rightarrow> event \<Rightarrow> nat \<Rightarrow> span list list" where
  "render_event cols num quote e width =
     (case e of
        EvRecord r \<Rightarrow> wrap cols (styled (gutter_text (wr_version r)) (dim DarkGray)) (spans_of num quote (wr_patch r)) width
      | EvGap lo hi \<Rightarrow> [gap_rule cols (u64_wrapping_add lo 1) hi width])"

section \<open>The tail\<close>

definition keep_entries :: nat where "keep_entries = 4096"
definition trim_batch :: nat where "trim_batch = 256"

record tail =
  ta_entries :: "(event \<times> span list list) list"
  ta_width :: nat
  ta_offset :: nat
  ta_height :: nat

definition tail_new :: tail where
  "tail_new = \<lparr>ta_entries = [], ta_width = 0, ta_offset = 0, ta_height = 0\<rparr>"

definition following :: "tail \<Rightarrow> bool" where
  "following t \<longleftrightarrow> ta_offset t = 0"

definition tail_push :: "(event \<Rightarrow> nat \<Rightarrow> span list list) \<Rightarrow> event \<Rightarrow> tail \<Rightarrow> tail" where
  "tail_push render e t =
     (let es = (if keep_entries + trim_batch \<le> length (ta_entries t) then drop trim_batch (ta_entries t) else ta_entries t);
          ls = render e (ta_width t)
      in t\<lparr>ta_entries := es @ [(e, ls)], ta_offset := (if 0 < ta_offset t then ta_offset t + length ls else ta_offset t)\<rparr>)"

definition total_lines :: "tail \<Rightarrow> nat" where
  "total_lines t = sum_list (map (\<lambda>e. length (snd e)) (ta_entries t))"

definition clamp :: "int \<Rightarrow> int \<Rightarrow> int \<Rightarrow> int" where
  "clamp lo hi x = (if x < lo then lo else if hi < x then hi else x)"

definition tail_scroll :: "int \<Rightarrow> tail \<Rightarrow> tail" where
  "tail_scroll delta t = t\<lparr>ta_offset := nat (clamp 0 (int (total_lines t - ta_height t)) (int (ta_offset t) + delta))\<rparr>"

definition tail_page :: "tail \<Rightarrow> int" where
  "tail_page t = int (max (ta_height t) 1)"

definition tail_to_bottom :: "tail \<Rightarrow> tail" where
  "tail_to_bottom t = t\<lparr>ta_offset := 0\<rparr>"

definition tail_to_top :: "tail \<Rightarrow> tail" where
  "tail_to_top t = t\<lparr>ta_offset := total_lines t - ta_height t\<rparr>"

text \<open>The loop of \<open>render\<close> over the entries, \<open>at_line\<close> lines in.\<close>

fun window :: "nat \<Rightarrow> nat \<Rightarrow> nat \<Rightarrow> (event \<times> span list list) list \<Rightarrow> span list list" where
  "window start stop at_line [] = []"
| "window start stop at_line ((e, ls) # es) =
     (let next_line = at_line + length ls in
      (if start < next_line \<and> at_line < stop
       then take (min (stop - at_line) (length ls) - (start - at_line)) (drop (start - at_line) ls) else [])
      @ window start stop next_line es)"

definition tail_render :: "(event \<Rightarrow> nat \<Rightarrow> span list list) \<Rightarrow> nat \<Rightarrow> nat \<Rightarrow> tail \<Rightarrow> tail \<times> span list list" where
  "tail_render render width height t =
     (let t = (if width \<noteq> ta_width t
            then t\<lparr>ta_width := width, ta_entries := map (\<lambda>(e, _). (e, render e width)) (ta_entries t), ta_offset := 0\<rparr> else t);
          t = t\<lparr>ta_height := height\<rparr>;
          stop = total_lines t - ta_offset t; start = stop - ta_height t
      in (t, window start stop 0 (ta_entries t)))"

section \<open>What is on screen\<close>

definition content :: "(event \<times> span list list) list \<Rightarrow> span list list" where
  "content es = concat (map snd es)"

lemma content_length: "length (content es) = sum_list (map (\<lambda>e. length (snd e)) es)"
  by (simp add: content_def length_concat comp_def)

lemma window_eq: "start \<le> stop \<Longrightarrow> window start stop at_line es = take (stop - max start at_line) (drop (start - at_line) (content es))"
proof (induction start stop at_line es rule: window.induct)
  case (2 start stop at_line e ls es)
  let ?n = "at_line + length ls"
  have ih: "window start stop ?n es = take (stop - max start ?n) (drop (start - ?n) (content es))" using 2 by simp
  have c: "content ((e, ls) # es) = ls @ content es" by (simp add: content_def)
  consider "?n \<le> start" | "stop \<le> at_line" "start < ?n" | "start < ?n" "at_line < stop" by linarith
  then show ?case
  proof cases
    case 1
    then have "start - at_line = length ls + (start - ?n)" by simp
    then have "drop (start - at_line) (ls @ content es) = drop (start - ?n) (content es)" by simp
    moreover have "max start at_line = start" "max start ?n = start" using 1 by simp_all
    ultimately show ?thesis using 1 ih by (simp add: c Let_def)
  next
    case 2
    then show ?thesis using ih by (simp add: c Let_def)
  next
    case 3
    have left_part: "drop (start - at_line) (ls @ content es) = drop (start - at_line) ls @ content es" using 3 by simp
    have "take (stop - max start at_line) (drop (start - at_line) ls @ content es) =
        take (stop - max start at_line) (drop (start - at_line) ls) @ take (stop - max start at_line - (length ls - (start - at_line))) (content es)"
      by simp
    moreover have "stop - max start at_line - (length ls - (start - at_line)) = stop - max start ?n" using 3 by linarith
    moreover have "take (min (stop - at_line) (length ls) - (start - at_line)) (drop (start - at_line) ls) =
        take (stop - max start at_line) (drop (start - at_line) ls)"
      by (use 3 in \<open>auto simp: min_def max_def\<close>)
    ultimately show ?thesis using 3 ih by (simp add: c Let_def left_part)
  qed
qed (simp add: content_def)

lemma tail_shows:
  "snd (tail_render render (ta_width t) height t) =
    (let all = content (ta_entries t); stop = length all - ta_offset t; start = stop - height in take (stop - start) (drop start all))"
  by (simp add: tail_render_def Let_def window_eq total_lines_def content_length)

text \<open>The lines that fall off the top when the next event arrives.\<close>

definition trimmed_lines :: "tail \<Rightarrow> nat" where
  "trimmed_lines t =
     (if keep_entries + trim_batch \<le> length (ta_entries t) then length (content (take trim_batch (ta_entries t))) else 0)"

lemma push_content:
  "content (ta_entries (tail_push render e t)) = drop (trimmed_lines t) (content (ta_entries t)) @ render e (ta_width t)"
proof -
  have "content es = content (take n es) @ content (drop n es)" for n and es :: "(event \<times> span list list) list"
    by (simp add: content_def flip: concat_append map_append)
  then have "drop (length (content (take n es))) (content es) = content (drop n es)" for n and es :: "(event \<times> span list list) list"
    by (metis append_eq_conv_conj)
  then show ?thesis by (simp add: tail_push_def trimmed_lines_def Let_def content_def)
qed

lemma take_drop_front:
  "k \<le> start \<Longrightarrow> start \<le> stop \<Longrightarrow> stop \<le> length xs \<Longrightarrow>
    take (stop - start) (drop (start - k) (drop k xs @ ys)) = take (stop - start) (drop start xs)"
  by (simp add: le_add_diff_inverse2)

text \<open>
  Reading back, the screen stands still. While the reader is scrolled back, an arriving record
  changes no row of the viewport, unless what is on screen is itself what falls off the top of the
  scrollback; and while the reader follows, the viewport is the last rows of all there is, which
  end with the new record.
\<close>

theorem reading_back_stands_still:
  assumes "trimmed_lines t \<le> total_lines t - ta_offset t - height"
  shows "let t' = tail_push render e t; shown = snd (tail_render render (ta_width t) height t') in
    (\<not> following t \<longrightarrow> shown = snd (tail_render render (ta_width t) height t)) \<and>
    (following t \<longrightarrow> (let all = content (ta_entries t') in shown = drop (length all - height) all \<and>
        all = drop (trimmed_lines t) (content (ta_entries t)) @ render e (ta_width t)))"
proof -
  let ?t = "tail_push render e t" and ?c = "content (ta_entries t)" and ?k = "trimmed_lines t" and ?ls = "render e (ta_width t)"
  have width: "ta_width ?t = ta_width t" by (simp add: tail_push_def Let_def)
  have total: "total_lines t = length ?c" by (simp add: total_lines_def content_length)
  note shown = tail_shows [of render ?t height, unfolded width push_content Let_def]
  have "snd (tail_render render (ta_width t) height ?t) = snd (tail_render render (ta_width t) height t)" if scrolled: "\<not> following t"
  proof -
    define stop where "stop = length ?c - ta_offset t"
    have off: "ta_offset ?t = ta_offset t + length ?ls" using scrolled by (simp add: tail_push_def following_def Let_def)
    have k: "?k \<le> stop - height" using assms by (simp add: total stop_def)
    have "length (drop ?k ?c @ ?ls) - ta_offset ?t = stop - ?k" using k by (simp add: off stop_def)
    then have "snd (tail_render render (ta_width t) height ?t) =
        take (stop - ?k - (stop - ?k - height)) (drop (stop - ?k - height) (drop ?k ?c @ ?ls))" unfolding shown by simp
    moreover have "stop - ?k - height = stop - height - ?k" "stop - ?k - (stop - height - ?k) = stop - (stop - height)" using k by linarith+
    moreover have "stop \<le> length ?c" by (simp add: stop_def)
    ultimately have "snd (tail_render render (ta_width t) height ?t) = take (stop - (stop - height)) (drop (stop - height) ?c)"
      using take_drop_front [OF k, of stop ?c ?ls] by simp
    then show ?thesis by (simp add: tail_shows stop_def Let_def)
  qed
  moreover have "snd (tail_render render (ta_width t) height ?t) = drop (length (drop ?k ?c @ ?ls) - height) (drop ?k ?c @ ?ls)" if "following t"
  proof -
    have "ta_offset ?t = 0" using that by (simp add: tail_push_def following_def Let_def)
    then show ?thesis unfolding shown by simp
  qed
  ultimately show ?thesis by (simp add: Let_def push_content)
qed

theorem reading_back_stands_still_witness:
  "snd (tail_render (\<lambda>e w. [[]]) 4 1 (tail_push (\<lambda>e w. [[]]) (EvGap 1 2)
      \<lparr>ta_entries = [(EvGap 0 1, [[punct ''a'']]), (EvGap 0 1, [[punct ''b'']])], ta_width = 4, ta_offset = 1, ta_height = 1\<rparr>)) = [[punct ''a'']]"
proof -
  let ?t = "\<lparr>ta_entries = [(EvGap 0 1, [[punct ''a'']]), (EvGap 0 1, [[punct ''b'']])], ta_width = 4, ta_offset = 1, ta_height = 1\<rparr>"
  have "trimmed_lines ?t = 0" by (simp add: trimmed_lines_def keep_entries_def trim_batch_def)
  then have "snd (tail_render (\<lambda>e w. [[]]) (ta_width ?t) 1 (tail_push (\<lambda>e w. [[]]) (EvGap 1 2) ?t)) = snd (tail_render (\<lambda>e w. [[]]) (ta_width ?t) 1 ?t)"
    using reading_back_stands_still [of ?t 1 "\<lambda>e w. [[]]" "EvGap 1 2"] by (simp add: Let_def following_def)
  moreover have "snd (tail_render (\<lambda>e w. [[]]) 4 1 ?t) = [[punct ''a'']]"
    by (simp add: tail_render_def total_lines_def Let_def)
  ultimately show ?thesis by simp
qed

end
