(* ===== verification/TuiTree.thy ===== *)
theory TuiTree
  imports TuiTail
begin

text \<open>
  \<open>crates/lug-tui/src/tree.rs\<close>: the materialized view as indented rows, with the rows that just
  changed lit for a while. Time is a number of milliseconds; a call that reads the clock takes it
  as an argument.
\<close>

section \<open>Rows\<close>

text \<open>\<open>str::chars\<close>: the code points of valid UTF-8.\<close>

function str_chars :: "string \<Rightarrow> utext" where
  "str_chars [] = []"
| "str_chars (b # bs) =
     (let n = (if of_char b < (128 :: nat) then 0 else if of_char b < (224 :: nat) then 1 else if of_char b < (240 :: nat) then 2 else 3);
          lead = of_char b mod (if n = 0 then 128 else 2 ^ (6 - n))
      in foldl (\<lambda>a c. a * 64 + of_char c mod 64) lead (take n bs) # str_chars (drop n bs))"
  by pat_completeness auto
termination by (relation "measure length") auto

record tree_node =
  nd_depth :: nat
  nd_spans :: "span list"
  nd_changed :: bool

definition key_span :: "string \<Rightarrow> span" where
  "key_span k = styled (str_chars k) (fg Cyan)"

definition index_span :: "nat \<Rightarrow> span" where
  "index_span i = styled (ascii (dec_digits i)) (fg DarkGray)"

definition header :: "span option \<Rightarrow> string \<Rightarrow> nat \<Rightarrow> string \<Rightarrow> span list" where
  "header key opening n closing =
     (case key of Some s \<Rightarrow> [s, styled (ascii '' '') (fg Plain)] | None \<Rightarrow> []) @
     [styled (ascii (opening @ dec_digits n @ closing)) (dim DarkGray)]"

fun json_obj :: "json \<Rightarrow> (string \<times> json) list option" where
  "json_obj (JObject kvs) = Some kvs"
| "json_obj _ = None"

fun json_arr :: "json \<Rightarrow> json list option" where
  "json_arr (JArray js) = Some js"
| "json_arr _ = None"

definition nth_opt :: "'a list \<Rightarrow> nat \<Rightarrow> 'a option" where
  "nth_opt xs i = (if i < length xs then Some (xs ! i) else None)"

lemma enumerate_size [termination_simp]: "(i, j) \<in> set (enumerate n js) \<Longrightarrow> size j < Suc (size_list size js)"
proof -
  assume "(i, j) \<in> set (enumerate n js)"
  then have "j \<in> set js" by (metis in_set_enumerate_eq nth_mem prod.sel diff_less_mono add.commute add_diff_cancel_right')
  then show ?thesis by (simp add: size_list_estimation' less_Suc_eq_le)
qed

fun walk :: "(json \<Rightarrow> utext) \<Rightarrow> (string \<Rightarrow> utext) \<Rightarrow> span option \<Rightarrow> json \<Rightarrow> json option \<Rightarrow> nat \<Rightarrow> bool \<Rightarrow> tree_node list" where
  "walk num quote key (JObject kvs) old depth forced =
     (let prev = Option.bind old json_obj; changed = (forced \<or> prev = None) in
      \<lparr>nd_depth = depth, nd_spans = header key ''{'' (length kvs) ''}'', nd_changed = changed\<rparr> #
      concat (map (\<lambda>(k, child). walk num quote (Some (key_span k)) child (Option.bind prev (\<lambda>m. bt_get m k)) (depth + 1) changed) kvs))"
| "walk num quote key (JArray js) old depth forced =
     (let prev = Option.bind old json_arr; changed = (forced \<or> prev = None) in
      \<lparr>nd_depth = depth, nd_spans = header key ''['' (length js) '']'', nd_changed = changed\<rparr> #
      concat (map (\<lambda>(i, child). walk num quote (Some (index_span i)) child (Option.bind prev (\<lambda>a. nth_opt a i)) (depth + 1) changed)
        (enumerate 0 js)))"
| "walk num quote key v old depth forced =
     [\<lparr>nd_depth = depth, nd_spans = (case key of Some s \<Rightarrow> [s, punct '': ''] | None \<Rightarrow> []) @ spans_of num quote v,
       nd_changed = (forced \<or> old \<noteq> Some v)\<rparr>]"

fun flatten :: "(json \<Rightarrow> utext) \<Rightarrow> (string \<Rightarrow> utext) \<Rightarrow> json \<Rightarrow> json option \<Rightarrow> tree_node list" where
  "flatten num quote (JObject kvs) old =
     (let prev = Option.bind old json_obj in
      concat (map (\<lambda>(k, child). walk num quote (Some (key_span k)) child (Option.bind prev (\<lambda>m. bt_get m k)) 0 False) kvs))"
| "flatten num quote (JArray js) old =
     (let prev = Option.bind old json_arr in
      concat (map (\<lambda>(i, child). walk num quote (Some (index_span i)) child (Option.bind prev (\<lambda>a. nth_opt a i)) 0 False)
        (enumerate 0 js)))"
| "flatten num quote v old = walk num quote None v old 0 False"

section \<open>The tree\<close>

definition flash :: nat where "flash = 900"

record tree =
  tr_previous :: "json option"
  tr_lines :: "tree_node list"
  tr_flash_until :: "nat option"
  tr_resync :: bool
  tr_resynced :: bool
  tr_offset :: nat
  tr_height :: nat

type_synonym flattener = "json \<Rightarrow> json option \<Rightarrow> tree_node list"

definition tree_update :: "flattener \<Rightarrow> nat \<Rightarrow> json \<Rightarrow> tree \<Rightarrow> tree" where
  "tree_update fl now v t =
     (let baseline = (if tr_resync t then Some v else tr_previous t); ls = fl v baseline in
      t\<lparr>tr_resync := False, tr_lines := ls,
        tr_flash_until := (if \<exists>l \<in> set ls. nd_changed l then Some (now + flash) else tr_flash_until t),
        tr_previous := Some v, tr_offset := min (tr_offset t) (length ls - tr_height t)\<rparr>)"

definition tree_new :: "flattener \<Rightarrow> nat \<Rightarrow> json \<Rightarrow> tree" where
  "tree_new fl now v = tree_update fl now v
     \<lparr>tr_previous = None, tr_lines = [], tr_flash_until = None, tr_resync = True, tr_resynced = False, tr_offset = 0, tr_height = 0\<rparr>"

definition tree_gap :: "nat \<Rightarrow> tree \<Rightarrow> tree" where
  "tree_gap now t = t\<lparr>tr_resync := True, tr_resynced := True, tr_flash_until := Some (now + flash)\<rparr>"

definition expire_flash :: "tree \<Rightarrow> tree" where
  "expire_flash t = t\<lparr>tr_flash_until := None, tr_resynced := False\<rparr>"

definition tree_scroll :: "int \<Rightarrow> tree \<Rightarrow> tree" where
  "tree_scroll delta t =
     t\<lparr>tr_offset := nat (clamp 0 (max (int (length (tr_lines t) - tr_height t)) 0) (int (tr_offset t) - delta))\<rparr>"

definition tree_page :: "tree \<Rightarrow> int" where
  "tree_page t = int (max (tr_height t) 1)"

definition tree_to_top :: "tree \<Rightarrow> tree" where
  "tree_to_top t = t\<lparr>tr_offset := 0\<rparr>"

definition tree_to_bottom :: "tree \<Rightarrow> tree" where
  "tree_to_bottom t = t\<lparr>tr_offset := length (tr_lines t) - tr_height t\<rparr>"

text \<open>\<open>render\<close>; each row with whether it has the lit background.\<close>

definition tree_render :: "(nat \<Rightarrow> nat) \<Rightarrow> nat \<Rightarrow> nat \<Rightarrow> nat \<Rightarrow> tree \<Rightarrow> tree \<times> (span list \<times> bool) list" where
  "tree_render cols now width height t =
     (let t = t\<lparr>tr_height := height\<rparr>;
          t = (case tr_flash_until t of Some at_time \<Rightarrow> if at_time \<le> now then expire_flash t else t | None \<Rightarrow> t);
          lit = (tr_flash_until t \<noteq> None)
      in (t, map (\<lambda>n. let on = (lit \<and> nd_changed n); bar = (if on then [9612, 32] else [32, 32]);
                ss = styled (bar @ blanks (nd_depth n * 2)) (fg DarkGray) # nd_spans n
              in (TuiJson.truncate cols ss width, on))
           (take (tr_height t) (drop (tr_offset t) (tr_lines t)))))"

section \<open>Which rows are lit\<close>

datatype hop = Field string | Item nat

fun json_at :: "json \<Rightarrow> hop list \<Rightarrow> json option" where
  "json_at j [] = Some j"
| "json_at (JObject kvs) (Field k # p) = Option.bind (bt_get kvs k) (\<lambda>j. json_at j p)"
| "json_at (JArray js) (Item i # p) = Option.bind (nth_opt js i) (\<lambda>j. json_at j p)"
| "json_at _ _ = None"

text \<open>The places of a value, in the order they are shown.\<close>

fun places :: "json \<Rightarrow> hop list list" where
  "places (JObject kvs) = [] # concat (map (\<lambda>(k, child). map ((#) (Field k)) (places child)) kvs)"
| "places (JArray js) = [] # concat (map (\<lambda>(i, child). map ((#) (Item i)) (places child)) (enumerate 0 js))"
| "places _ = [[]]"

definition shown_places :: "json \<Rightarrow> hop list list" where
  "shown_places v = (if json_obj v = None \<and> json_arr v = None then [[]] else tl (places v))"

text \<open>The same kind of container, or the same scalar.\<close>

fun alike :: "json option \<Rightarrow> json \<Rightarrow> bool" where
  "alike old (JObject _) \<longleftrightarrow> Option.bind old json_obj \<noteq> None"
| "alike old (JArray _) \<longleftrightarrow> Option.bind old json_arr \<noteq> None"
| "alike old v \<longleftrightarrow> old = Some v"

definition moved :: "json \<Rightarrow> json option \<Rightarrow> hop list \<Rightarrow> bool" where
  "moved v old p \<longleftrightarrow> (\<exists>n \<in> set [0..<Suc (length p)].
     \<not> alike (Option.bind old (\<lambda>j. json_at j (take n p))) (the (json_at v (take n p))))"

fun hop_label :: "hop \<Rightarrow> span" where
  "hop_label (Field k) = key_span k"
| "hop_label (Item i) = index_span i"

fun row_text :: "(json \<Rightarrow> utext) \<Rightarrow> (string \<Rightarrow> utext) \<Rightarrow> span option \<Rightarrow> json \<Rightarrow> span list" where
  "row_text num quote key (JObject kvs) = header key ''{'' (length kvs) ''}''"
| "row_text num quote key (JArray js) = header key ''['' (length js) '']''"
| "row_text num quote key v = (case key of Some s \<Rightarrow> [s, punct '': ''] | None \<Rightarrow> []) @ spans_of num quote v"

definition place_row :: "(json \<Rightarrow> utext) \<Rightarrow> (string \<Rightarrow> utext) \<Rightarrow> span option \<Rightarrow> json \<Rightarrow> json option \<Rightarrow> nat \<Rightarrow> bool \<Rightarrow> hop list \<Rightarrow> tree_node" where
  "place_row num quote key v old depth forced p =
     \<lparr>nd_depth = depth + length p,
      nd_spans = row_text num quote (if p = [] then key else Some (hop_label (last p))) (the (json_at v p)),
      nd_changed = (forced \<or> moved v old p)\<rparr>"

lemma moved_Nil [simp]: "moved v old [] \<longleftrightarrow> \<not> alike old v"
  by (cases old) (simp_all add: moved_def)

lemma moved_Cons:
  assumes "\<And>p. json_at v (h # p) = json_at child p"
    and "\<And>p. Option.bind old (\<lambda>j. json_at j (h # p)) = Option.bind old' (\<lambda>j. json_at j p)"
  shows "moved v old (h # p) \<longleftrightarrow> \<not> alike old v \<or> moved child old' p"
proof -
  have "set [0..<Suc (length (h # p))] = insert 0 (Suc ` set [0..<Suc (length p)])" by (simp add: lessThan_Suc_eq_insert_0 atLeast0LessThan del: upt_Suc)
  then show ?thesis by (simp add: moved_def assms del: upt_Suc set_upt)
qed

lemma place_row_Cons:
  assumes "\<And>p. json_at v (h # p) = json_at child p"
    and "\<And>p. Option.bind old (\<lambda>j. json_at j (h # p)) = Option.bind old' (\<lambda>j. json_at j p)"
  shows "place_row num quote key v old depth forced (h # p) =
    place_row num quote (Some (hop_label h)) child old' (depth + 1) (forced \<or> \<not> alike old v) p"
  using moved_Cons [of v h child old old' p, OF assms] by (auto simp: place_row_def assms(1))

lemma bind_json_obj: "Option.bind old (\<lambda>j. json_at j (Field k # p)) = Option.bind (Option.bind (Option.bind old json_obj) (\<lambda>m. bt_get m k)) (\<lambda>j. json_at j p)"
  by (cases old; cases "the old") simp_all

lemma bind_json_arr: "Option.bind old (\<lambda>j. json_at j (Item i # p)) = Option.bind (Option.bind (Option.bind old json_arr) (\<lambda>a. nth_opt a i)) (\<lambda>j. json_at j p)"
  by (cases old; cases "the old") simp_all

lemma walk_rows:
  "json_wf v \<Longrightarrow> walk num quote key v old depth forced = map (place_row num quote key v old depth forced) (places v)"
proof (induction num quote key v old depth forced rule: walk.induct)
  case (1 num quote key kvs old depth forced)
  let ?prev = "Option.bind old json_obj" and ?v = "JObject kvs"
  have "walk num quote (Some (key_span k)) child (Option.bind ?prev (\<lambda>m. bt_get m k)) (depth + 1) (forced \<or> ?prev = None) =
      map (place_row num quote key ?v old depth forced) (map ((#) (Field k)) (places child))" if kv: "(k, child) \<in> set kvs" for k child
  proof -
    have "bt_get kvs k = Some child" using 1 kv by (simp add: bt_get_Some_iff)
    then have "json_at ?v (Field k # p) = json_at child p" for p by simp
    from place_row_Cons [of ?v "Field k" child old, OF this bind_json_obj] show ?thesis
      using 1 kv by (auto simp: comp_def)
  qed
  then have "concat (map (\<lambda>(k, child). walk num quote (Some (key_span k)) child (Option.bind ?prev (\<lambda>m. bt_get m k)) (depth + 1) (forced \<or> ?prev = None)) kvs) =
      concat (map (\<lambda>(k, child). map (place_row num quote key ?v old depth forced) (map ((#) (Field k)) (places child))) kvs)"
    by (intro arg_cong [where f = concat] map_cong) auto
  then show ?case by (simp add: Let_def map_concat comp_def split_def place_row_def [of _ _ _ _ _ _ _ "[]"])
next
  case (2 num quote key js old depth forced)
  let ?prev = "Option.bind old json_arr" and ?v = "JArray js"
  have "walk num quote (Some (index_span i)) child (Option.bind ?prev (\<lambda>a. nth_opt a i)) (depth + 1) (forced \<or> ?prev = None) =
      map (place_row num quote key ?v old depth forced) (map ((#) (Item i)) (places child))" if mem: "(i, child) \<in> set (enumerate 0 js)" for i child
  proof -
    have i: "nth_opt js i = Some child" "child \<in> set js" using mem by (auto simp: nth_opt_def in_set_enumerate_eq)
    then have "json_at ?v (Item i # p) = json_at child p" for p by simp
    from place_row_Cons [of ?v "Item i" child old, OF this bind_json_arr] show ?thesis
      using 2 mem i by (auto simp: comp_def)
  qed
  then have "concat (map (\<lambda>(i, child). walk num quote (Some (index_span i)) child (Option.bind ?prev (\<lambda>a. nth_opt a i)) (depth + 1) (forced \<or> ?prev = None)) (enumerate 0 js)) =
      concat (map (\<lambda>(i, child). map (place_row num quote key ?v old depth forced) (map ((#) (Item i)) (places child))) (enumerate 0 js))"
    by (intro arg_cong [where f = concat] map_cong) auto
  then show ?case by (simp add: Let_def map_concat comp_def split_def place_row_def [of _ _ _ _ _ _ _ "[]"])
qed (simp_all add: place_row_def)

definition view_row :: "(json \<Rightarrow> utext) \<Rightarrow> (string \<Rightarrow> utext) \<Rightarrow> json \<Rightarrow> json option \<Rightarrow> hop list \<Rightarrow> tree_node" where
  "view_row num quote v old p =
     \<lparr>nd_depth = length p - 1,
      nd_spans = row_text num quote (if p = [] then None else Some (hop_label (last p))) (the (json_at v p)),
      nd_changed = moved v old p\<rparr>"

lemma nothing_is_unlike [simp]: "\<not> alike None v"
  by (cases v) simp_all

lemma moved_from_nothing [simp]: "moved v None p"
  by (auto simp: moved_def intro: bexI [of _ 0])

lemma view_row_Cons:
  assumes "\<And>p. json_at v (h # p) = json_at child p"
    and "\<And>p. Option.bind old (\<lambda>j. json_at j (h # p)) = Option.bind old' (\<lambda>j. json_at j p)"
    and "\<not> alike old v \<Longrightarrow> old' = None"
  shows "view_row num quote v old (h # p) = place_row num quote (Some (hop_label h)) child old' 0 False p"
  using moved_Cons [of v h child old old' p, OF assms(1,2)] assms(3) by (auto simp: place_row_def view_row_def assms(1))

lemma flatten_rows:
  assumes "json_wf v"
  shows "flatten num quote v old = map (view_row num quote v old) (shown_places v)"
proof -
  consider kvs where "v = JObject kvs" | js where "v = JArray js" | "json_obj v = None" "json_arr v = None"
    by (cases v) simp_all
  then show ?thesis
  proof cases
    case (1 kvs)
    let ?prev = "Option.bind old json_obj"
    have "walk num quote (Some (key_span k)) child (Option.bind ?prev (\<lambda>m. bt_get m k)) 0 False =
        map (view_row num quote v old) (map ((#) (Field k)) (places child))" if kv: "(k, child) \<in> set kvs" for k child
    proof -
      have "json_at v (Field k # p) = json_at child p" for p
        using kv assms 1 bt_get_Some_iff [of kvs k child] by simp
      moreover have "\<not> alike old v \<Longrightarrow> Option.bind ?prev (\<lambda>m. bt_get m k) = None" by (simp add: 1)
      moreover have "json_wf child" using kv assms 1 by auto
      ultimately show ?thesis using view_row_Cons [of v "Field k" child old, OF _ bind_json_obj] by (simp add: walk_rows)
    qed
    then have "map (\<lambda>(k, child). walk num quote (Some (key_span k)) child (Option.bind ?prev (\<lambda>m. bt_get m k)) 0 False) kvs =
        map (\<lambda>(k, child). map (view_row num quote v old) (map ((#) (Field k)) (places child))) kvs" by auto
    from arg_cong [where f = concat, OF this] show ?thesis by (simp add: 1 shown_places_def Let_def map_concat comp_def split_def)
  next
    case (2 js)
    let ?prev = "Option.bind old json_arr"
    have "walk num quote (Some (index_span i)) child (Option.bind ?prev (\<lambda>a. nth_opt a i)) 0 False =
        map (view_row num quote v old) (map ((#) (Item i)) (places child))" if mem: "(i, child) \<in> set (enumerate 0 js)" for i child
    proof -
      have i: "nth_opt js i = Some child" "child \<in> set js" using mem by (auto simp: nth_opt_def in_set_enumerate_eq)
      then have "json_at v (Item i # p) = json_at child p" for p by (simp add: 2)
      moreover have "\<not> alike old v \<Longrightarrow> Option.bind ?prev (\<lambda>a. nth_opt a i) = None" by (simp add: 2)
      moreover have "json_wf child" using i assms 2 by auto
      ultimately show ?thesis using view_row_Cons [of v "Item i" child old, OF _ bind_json_arr] by (simp add: walk_rows)
    qed
    then have "map (\<lambda>(i, child). walk num quote (Some (index_span i)) child (Option.bind ?prev (\<lambda>a. nth_opt a i)) 0 False) (enumerate 0 js) =
        map (\<lambda>(i, child). map (view_row num quote v old) (map ((#) (Item i)) (places child))) (enumerate 0 js)" by auto
    from arg_cong [where f = concat, OF this] show ?thesis by (simp add: 2 shown_places_def Let_def map_concat comp_def split_def)
  next
    case 3
    then show ?thesis by (cases v) (simp_all add: shown_places_def view_row_def)
  qed
qed

text \<open>
  C23: The rows of a view, and which are lit. Against any earlier value, the view has one row for
  each place in it, in order, indented by its depth and saying what stands there; and a row is lit
  exactly when, at its place or at one above it, the earlier value does not have the same scalar or
  the same kind of container.
\<close>

theorem lit_rows_are_what_moved:
  "json_wf v \<Longrightarrow> flatten num quote v old = map (view_row num quote v old) (shown_places v)"
  by (rule flatten_rows)

theorem lit_rows_are_what_moved_witness:
  "map nd_changed (flatten (\<lambda>_. []) (\<lambda>_. []) (JObject [(''a'', JInt 1), (''b'', JObject [(''c'', JInt 2)])])
      (Some (JObject [(''a'', JInt 1), (''b'', JInt 3)]))) = [False, True, True]"
proof -
  let ?v = "JObject [(''a'', JInt 1), (''b'', JObject [(''c'', JInt 2)])]"
  have "json_wf ?v" by (simp add: bt_wf_def)
  from lit_rows_are_what_moved [OF this, of "\<lambda>_. []" "\<lambda>_. []" "Some (JObject [(''a'', JInt 1), (''b'', JInt 3)])"] show ?thesis
    by (simp add: shown_places_def view_row_def moved_def bt_get_def)
qed

text \<open>A value against itself lights nothing: it is how a first view and a refetched one are painted.\<close>

lemma alike_self [simp]: "alike (Some v) v"
  by (cases v) simp_all

lemma json_at_take: "json_at v p \<noteq> None \<Longrightarrow> json_at v (take n p) \<noteq> None"
proof (induction v p arbitrary: n rule: json_at.induct)
  case (2 kvs k p)
  then show ?case by (cases n; cases "bt_get kvs k") auto
next
  case (3 js i p)
  then show ?case by (cases n; cases "nth_opt js i") auto
qed simp_all

lemma places_exist: "json_wf v \<Longrightarrow> p \<in> set (places v) \<Longrightarrow> json_at v p \<noteq> None"
proof (induction v arbitrary: p rule: places.induct)
  case (1 kvs)
  show ?case
  proof (cases p)
    case (Cons h q)
    then obtain k child where c: "h = Field k" "(k, child) \<in> set kvs" "q \<in> set (places child)" using 1 by auto
    then have "json_at child q \<noteq> None" using 1 by auto
    then show ?thesis using Cons c 1(2) bt_get_Some_iff [of kvs k child] by simp
  qed simp
next
  case (2 js)
  show ?case
  proof (cases p)
    case (Cons h q)
    then obtain i child where c: "h = Item i" "(i, child) \<in> set (enumerate 0 js)" "q \<in> set (places child)" using 2 by auto
    then have i: "nth_opt js i = Some child" "child \<in> set js" by (auto simp: nth_opt_def in_set_enumerate_eq)
    then have "json_at child q \<noteq> None" using 2 c by auto
    then show ?thesis using Cons c i by simp
  qed simp
qed simp_all

lemma shown_places_subset: "set (shown_places v) \<subseteq> set (places v)"
  by (cases v) (auto simp: shown_places_def)

lemma alike_the: "j \<noteq> None \<Longrightarrow> alike j (the j)"
  by (cases j) simp_all

lemma repainted_dark: "json_wf v \<Longrightarrow> \<forall>l \<in> set (flatten num quote v (Some v)). \<not> nd_changed l"
proof -
  assume wf: "json_wf v"
  have "\<not> moved v (Some v) p" if "p \<in> set (shown_places v)" for p
  proof -
    have "json_at v p \<noteq> None" using places_exist [OF wf] shown_places_subset that by blast
    then have "json_at v (take n p) \<noteq> None" for n by (rule json_at_take)
    then have "alike (Option.bind (Some v) (\<lambda>j. json_at j (take n p))) (the (json_at v (take n p)))" for n using alike_the by simp
    then show ?thesis unfolding moved_def by blast
  qed
  then show ?thesis by (simp add: flatten_rows [OF wf] view_row_def)
qed

end
