(* ===== verification/TuiApp.thy ===== *)
theory TuiApp
  imports TuiTree
begin

text \<open>
  \<open>crates/lug-tui/src/app.rs\<close> and \<open>follow.rs\<close>: the viewer's state, how it answers arrivals, views and
  keys, and its loop. What the terminal and its libraries say is gathered in a painter: the columns
  of a character, how a number and a string are printed, and how many rows the layout leaves above
  the footer.
\<close>

section \<open>The viewer\<close>

record painter =
  pn_cols :: "nat \<Rightarrow> nat"
  pn_num :: "json \<Rightarrow> utext"
  pn_quote :: "string \<Rightarrow> utext"
  pn_body_height :: "nat \<Rightarrow> nat"

datatype tui_mode = LogMode | ReducibleMode

record source_view =
  scv_version :: version
  scv_value :: json

datatype app_body = TailBody tail | TreeBody tree

record app =
  ap_name :: string
  ap_version :: version
  ap_body :: app_body
  ap_quit :: bool

abbreviation flattening :: "painter \<Rightarrow> flattener" where
  "flattening P \<equiv> flatten (pn_num P) (pn_quote P)"

abbreviation rendering :: "painter \<Rightarrow> event \<Rightarrow> nat \<Rightarrow> span list list" where
  "rendering P \<equiv> render_event (pn_cols P) (pn_num P) (pn_quote P)"

text \<open>\<open>None\<close> is the panic of \<open>expect\<close>.\<close>

definition app_new :: "painter \<Rightarrow> nat \<Rightarrow> string \<Rightarrow> tui_mode \<Rightarrow> source_view option \<Rightarrow> app option" where
  "app_new P now name m view =
     (case m of
        LogMode \<Rightarrow> Some \<lparr>ap_name = name, ap_version = 0, ap_body = TailBody tail_new, ap_quit = False\<rparr>
      | ReducibleMode \<Rightarrow>
          (case view of
             None \<Rightarrow> None
           | Some v \<Rightarrow> Some \<lparr>ap_name = name, ap_version = scv_version v,
               ap_body = TreeBody (tree_new (flattening P) now (scv_value v)), ap_quit = False\<rparr>))"

fun is_gap :: "event \<Rightarrow> bool" where
  "is_gap (EvGap _ _) = True"
| "is_gap (EvRecord _) = False"

definition on_arrival :: "painter \<Rightarrow> nat \<Rightarrow> event \<Rightarrow> app \<Rightarrow> app" where
  "on_arrival P now e a =
     (let a = a\<lparr>ap_version := event_cursor e\<rparr> in
      case ap_body a of
        TailBody t \<Rightarrow> a\<lparr>ap_body := TailBody (tail_push (rendering P) e t)\<rparr>
      | TreeBody t \<Rightarrow> if is_gap e then a\<lparr>ap_body := TreeBody (tree_gap now t)\<rparr> else a)"

definition on_view :: "painter \<Rightarrow> nat \<Rightarrow> source_view option \<Rightarrow> app \<Rightarrow> app" where
  "on_view P now view a =
     (case view of
        None \<Rightarrow> a
      | Some v \<Rightarrow>
          (let a = a\<lparr>ap_version := scv_version v\<rparr> in
           case ap_body a of
             TreeBody t \<Rightarrow> a\<lparr>ap_body := TreeBody (tree_update (flattening P) now (scv_value v) t)\<rparr>
           | TailBody _ \<Rightarrow> a))"

definition flash_deadline :: "app \<Rightarrow> nat option" where
  "flash_deadline a = (case ap_body a of TreeBody t \<Rightarrow> tr_flash_until t | TailBody _ \<Rightarrow> None)"

definition app_expire_flash :: "app \<Rightarrow> app" where
  "app_expire_flash a = (case ap_body a of TreeBody t \<Rightarrow> a\<lparr>ap_body := TreeBody (expire_flash t)\<rparr> | TailBody _ \<Rightarrow> a)"

datatype key_code = KeyChar char | KeyEsc | KeyUp | KeyDown | KeyPageUp | KeyPageDown | KeyHome | KeyEnd | KeyOther

record key_event =
  ke_press :: bool
  ke_code :: key_code
  ke_control :: bool

datatype term_event = TermKey key_event | TermOther

definition app_scroll :: "int \<Rightarrow> app \<Rightarrow> app" where
  "app_scroll delta a =
     (case ap_body a of
        TailBody t \<Rightarrow> a\<lparr>ap_body := TailBody (tail_scroll delta t)\<rparr>
      | TreeBody t \<Rightarrow> a\<lparr>ap_body := TreeBody (tree_scroll delta t)\<rparr>)"

definition app_page :: "app \<Rightarrow> int" where
  "app_page a = (case ap_body a of TailBody t \<Rightarrow> tail_page t | TreeBody t \<Rightarrow> tree_page t)"

definition on_key :: "key_event \<Rightarrow> app \<Rightarrow> app" where
  "on_key k a =
     (if \<not> ke_press k then a
      else case ke_code k of
        KeyChar c \<Rightarrow> if c = CHR ''c'' \<and> ke_control k then a\<lparr>ap_quit := True\<rparr>
          else if c = CHR ''q'' then a\<lparr>ap_quit := True\<rparr> else a
      | KeyEsc \<Rightarrow> a\<lparr>ap_quit := True\<rparr>
      | KeyUp \<Rightarrow> app_scroll 1 a
      | KeyDown \<Rightarrow> app_scroll (-1) a
      | KeyPageUp \<Rightarrow> app_scroll (app_page a) a
      | KeyPageDown \<Rightarrow> app_scroll (- app_page a) a
      | KeyHome \<Rightarrow> (case ap_body a of
            TailBody t \<Rightarrow> a\<lparr>ap_body := TailBody (tail_to_top t)\<rparr> | TreeBody t \<Rightarrow> a\<lparr>ap_body := TreeBody (tree_to_top t)\<rparr>)
      | KeyEnd \<Rightarrow> (case ap_body a of
            TailBody t \<Rightarrow> a\<lparr>ap_body := TailBody (tail_to_bottom t)\<rparr> | TreeBody t \<Rightarrow> a\<lparr>ap_body := TreeBody (tree_to_bottom t)\<rparr>)
      | KeyOther \<Rightarrow> a)"

definition on_event :: "term_event \<Rightarrow> app \<Rightarrow> app" where
  "on_event e a = (case e of TermKey k \<Rightarrow> on_key k a | TermOther \<Rightarrow> a)"

definition footer :: "painter \<Rightarrow> nat \<Rightarrow> app \<Rightarrow> span list" where
  "footer P width a =
     (let state = (case ap_body a of
             TailBody t \<Rightarrow> if following t then ''tail'' else ''tail paused''
           | TreeBody t \<Rightarrow> if tr_resynced t then ''view resynced'' else ''view'');
          lhs = ascii '' '' @ str_chars (ap_name a) @ ascii (''  v'' @ dec_digits (ap_version a) @ ''  '' @ state);
          rhs = ascii ''q quit '';
          gap = width - (display_width (pn_cols P) lhs + display_width (pn_cols P) rhs)
      in [styled lhs (dim DarkGray), styled (blanks gap) (fg Plain), styled rhs (dim DarkGray)])"

definition app_render :: "painter \<Rightarrow> nat \<Rightarrow> nat \<Rightarrow> nat \<Rightarrow> app \<Rightarrow> app \<times> (span list \<times> bool) list \<times> span list" where
  "app_render P now width height a =
     (case ap_body a of
        TailBody t \<Rightarrow> (case tail_render (rendering P) width (pn_body_height P height) t of
            (t, rows) \<Rightarrow> let a = a\<lparr>ap_body := TailBody t\<rparr> in (a, map (\<lambda>r. (r, False)) rows, footer P width a))
      | TreeBody t \<Rightarrow> (case tree_render (pn_cols P) now width (pn_body_height P height) t of
            (t, rows) \<Rightarrow> let a = a\<lparr>ap_body := TreeBody t\<rparr> in (a, rows, footer P width a)))"

section \<open>The loop\<close>

text \<open>
  What a turn of the loop is woken by, with the arrivals that are queued by then, which it drains,
  and for a change with the view that the source holds when it is asked.
\<close>

datatype wake =
    Typed "term_event option"
  | Arrived event "event list"
  | Ticked "event list" "source_view option"
  | FlashDue

definition drain_arrivals :: "painter \<Rightarrow> nat \<Rightarrow> event list \<Rightarrow> app \<Rightarrow> app" where
  "drain_arrivals P now es a = fold (on_arrival P now) es a"

definition on_change :: "painter \<Rightarrow> nat \<Rightarrow> event list \<Rightarrow> source_view option \<Rightarrow> app \<Rightarrow> app" where
  "on_change P now es view a = on_view P now view (drain_arrivals P now es a)"

definition app_wake :: "painter \<Rightarrow> nat \<Rightarrow> wake \<Rightarrow> app \<Rightarrow> app" where
  "app_wake P now w a =
     (case w of
        Typed (Some e) \<Rightarrow> on_event e a
      | Typed None \<Rightarrow> a\<lparr>ap_quit := True\<rparr>
      | Arrived e es \<Rightarrow> drain_arrivals P now es (on_arrival P now e a)
      | Ticked es view \<Rightarrow> on_change P now es view a
      | FlashDue \<Rightarrow> if flash_deadline a = None then a else app_expire_flash a)"

record turn =
  tn_drawn :: nat
  tn_width :: nat
  tn_height :: nat
  tn_woken :: nat
  tn_wake :: wake

definition app_turn :: "painter \<Rightarrow> turn \<Rightarrow> app \<Rightarrow> app" where
  "app_turn P u a =
     (if ap_quit a then a
      else app_wake P (tn_woken u) (tn_wake u) (fst (app_render P (tn_drawn u) (tn_width u) (tn_height u) a)))"

definition app_run :: "painter \<Rightarrow> turn list \<Rightarrow> app \<Rightarrow> app" where
  "app_run P us a = fold (app_turn P) us a"

section \<open>What the screen compares\<close>

datatype notice = Came event | Viewed source_view

fun notices :: "wake \<Rightarrow> notice list" where
  "notices (Arrived e es) = map Came (e # es)"
| "notices (Ticked es view) = map Came es @ (case view of None \<Rightarrow> [] | Some v \<Rightarrow> [Viewed v])"
| "notices _ = []"

fun notice_version :: "notice \<Rightarrow> version" where
  "notice_version (Came e) = event_cursor e"
| "notice_version (Viewed v) = scv_version v"

text \<open>The views and gaps a viewer was told of, the last one first.\<close>

fun telling :: "notice \<Rightarrow> bool" where
  "telling (Came e) = is_gap e"
| "telling (Viewed v) = True"

definition told_back :: "notice list \<Rightarrow> notice list" where
  "told_back ns = rev (filter telling ns)"

fun gap_notice :: "notice \<Rightarrow> bool" where
  "gap_notice (Came _) = True"
| "gap_notice (Viewed _) = False"

text \<open>
  The view on screen and the value it is compared to: the latest view, against the one before it,
  or against itself where a gap came in between.
\<close>

definition on_screen :: "json \<Rightarrow> notice list \<Rightarrow> json \<times> json" where
  "on_screen v0 ns =
     (case dropWhile gap_notice (told_back ns) of
        Viewed v # earlier \<Rightarrow> (scv_value v,
          case earlier of [] \<Rightarrow> v0 | Viewed u # _ \<Rightarrow> scv_value u | Came _ # _ \<Rightarrow> scv_value v)
      | _ \<Rightarrow> (v0, v0))"

definition tree_sees :: "flattener \<Rightarrow> json \<Rightarrow> notice list \<Rightarrow> tree \<Rightarrow> bool" where
  "tree_sees fl v0 ns t \<longleftrightarrow>
     tr_previous t = Some (fst (on_screen v0 ns)) \<and> tr_lines t = fl (fst (on_screen v0 ns)) (Some (snd (on_screen v0 ns))) \<and>
     tr_resync t = (told_back ns \<noteq> [] \<and> gap_notice (hd (told_back ns)))"

lemma told_back_snoc [simp]: "told_back (ns @ [n]) = (if telling n then n # told_back ns else told_back ns)"
  by (simp add: told_back_def)

lemma on_screen_view:
  "on_screen v0 (ns @ [Viewed v]) = (scv_value v, if told_back ns \<noteq> [] \<and> gap_notice (hd (told_back ns)) then scv_value v else fst (on_screen v0 ns))"
  by (cases "told_back ns"; cases "hd (told_back ns)") (simp_all add: on_screen_def)

lemma on_screen_came [simp]: "on_screen v0 (ns @ [Came e]) = on_screen v0 ns"
  by (simp add: on_screen_def)

lemma tree_sees_new: "tree_sees fl v0 [] (tree_new fl now v0)"
  by (simp add: tree_sees_def tree_new_def tree_update_def on_screen_def told_back_def Let_def)

lemma tree_sees_view: "tree_sees fl v0 ns t \<Longrightarrow> tree_sees fl v0 (ns @ [Viewed v]) (tree_update fl now (scv_value v) t)"
  by (auto simp: tree_sees_def tree_update_def on_screen_view Let_def)

lemma tree_sees_gap: "tree_sees fl v0 ns t \<Longrightarrow> is_gap e \<Longrightarrow> tree_sees fl v0 (ns @ [Came e]) (tree_gap now t)"
  by (simp add: tree_sees_def tree_gap_def)

lemma tree_sees_record: "tree_sees fl v0 ns t \<Longrightarrow> \<not> is_gap e \<Longrightarrow> tree_sees fl v0 (ns @ [Came e]) t"
  by (simp add: tree_sees_def)

lemma tree_sees_kept [simp]:
  "tree_sees fl v0 ns (expire_flash t) = tree_sees fl v0 ns t"
  "tree_sees fl v0 ns (tree_scroll d t) = tree_sees fl v0 ns t"
  "tree_sees fl v0 ns (tree_to_top t) = tree_sees fl v0 ns t"
  "tree_sees fl v0 ns (tree_to_bottom t) = tree_sees fl v0 ns t"
  "tree_sees fl v0 ns (fst (tree_render cols now width height t)) = tree_sees fl v0 ns t"
  by (simp_all add: tree_sees_def expire_flash_def tree_scroll_def tree_to_top_def tree_to_bottom_def tree_render_def Let_def
      split: option.splits)

definition app_sees :: "painter \<Rightarrow> source_view \<Rightarrow> notice list \<Rightarrow> app \<Rightarrow> bool" where
  "app_sees P v0 ns a \<longleftrightarrow>
     (case ap_body a of TreeBody t \<Rightarrow> tree_sees (flattening P) (scv_value v0) ns t | TailBody _ \<Rightarrow> False) \<and>
     ap_version a = last (scv_version v0 # map notice_version ns)"

lemma app_sees_new: "app_new P now name ReducibleMode (Some v0) = Some a \<Longrightarrow> app_sees P v0 [] a"
  by (auto simp: app_new_def app_sees_def tree_sees_new)

lemma app_sees_quit [simp]: "app_sees P v0 ns (a\<lparr>ap_quit := q\<rparr>) = app_sees P v0 ns a"
  by (simp add: app_sees_def)

lemma app_sees_arrival: "app_sees P v0 ns a \<Longrightarrow> app_sees P v0 (ns @ [Came e]) (on_arrival P now e a)"
  by (auto simp: app_sees_def on_arrival_def Let_def tree_sees_gap tree_sees_record split: app_body.splits)

lemma app_sees_drained: "app_sees P v0 ns a \<Longrightarrow> app_sees P v0 (ns @ map Came es) (drain_arrivals P now es a)"
proof (induction es arbitrary: ns a)
  case (Cons e es)
  from Cons.IH [OF app_sees_arrival [OF Cons.prems]] show ?case by (simp add: drain_arrivals_def)
qed (simp add: drain_arrivals_def)

lemma app_sees_view: "app_sees P v0 ns a \<Longrightarrow> app_sees P v0 (ns @ [Viewed v]) (on_view P now (Some v) a)"
  by (auto simp: app_sees_def on_view_def Let_def tree_sees_view split: app_body.splits)

lemma app_sees_scroll [simp]: "app_sees P v0 ns (app_scroll d a) = app_sees P v0 ns a"
  by (simp add: app_sees_def app_scroll_def split: app_body.splits)

lemma app_sees_moved [simp]:
  "app_sees P v0 ns (case ap_body a of TailBody t \<Rightarrow> a\<lparr>ap_body := TailBody (f t)\<rparr> | TreeBody t \<Rightarrow> a\<lparr>ap_body := TreeBody (g t)\<rparr>) =
    app_sees P v0 ns a"
  if "\<And>t. tree_sees (flattening P) (scv_value v0) ns (g t) = tree_sees (flattening P) (scv_value v0) ns t"
proof (cases "ap_body a")
  case (TreeBody t)
  then show ?thesis using that [of t] by (simp add: app_sees_def del: last.simps)
qed (simp add: app_sees_def)

lemma app_sees_key [simp]: "app_sees P v0 ns (on_key k a) = app_sees P v0 ns a"
  by (simp add: on_key_def split: key_code.splits)

lemma app_sees_event: "app_sees P v0 ns a \<Longrightarrow> app_sees P v0 ns (on_event e a)"
  by (cases e) (simp_all add: on_event_def)

lemma app_sees_render: "app_sees P v0 ns a \<Longrightarrow> app_sees P v0 ns (fst (app_render P now width height a))"
proof -
  assume a: "app_sees P v0 ns a"
  then obtain t where t: "ap_body a = TreeBody t" by (auto simp: app_sees_def split: app_body.splits)
  let ?r = "tree_render (pn_cols P) now width (pn_body_height P height) t"
  have "fst (app_render P now width height a) = a\<lparr>ap_body := TreeBody (fst ?r)\<rparr>"
    by (cases ?r) (simp add: app_render_def t Let_def)
  then show ?thesis using a by (simp add: app_sees_def t)
qed

lemma app_sees_wake: "app_sees P v0 ns a \<Longrightarrow> app_sees P v0 (ns @ notices w) (app_wake P now w a)"
proof (cases w)
  case (Arrived e es)
  assume "app_sees P v0 ns a"
  from app_sees_drained [OF app_sees_arrival [OF this]] show ?thesis by (simp add: Arrived app_wake_def)
next
  case (Ticked es view)
  assume "app_sees P v0 ns a"
  from app_sees_drained [OF this] app_sees_view show ?thesis
    by (cases view) (force simp: Ticked app_wake_def on_change_def on_view_def simp flip: append_assoc)+
next
  case FlashDue
  assume "app_sees P v0 ns a"
  then show ?thesis by (auto simp: FlashDue app_wake_def app_expire_flash_def app_sees_def split: app_body.splits)
qed (auto simp: app_wake_def app_sees_event split: option.splits)

lemma quit_is_final: "ap_quit a \<Longrightarrow> app_run P us a = a"
  by (induction us) (simp_all add: app_run_def app_turn_def)

lemma app_run_Cons [simp]: "app_run P (u # us) a = app_run P us (app_turn P u a)"
  by (simp add: app_run_def)

lemma app_sees_run:
  "app_sees P v0 ns a \<Longrightarrow> \<not> ap_quit (app_run P us a) \<Longrightarrow> app_sees P v0 (ns @ concat (map (notices \<circ> tn_wake) us)) (app_run P us a)"
proof (induction us arbitrary: ns a)
  case (Cons u us)
  have "\<not> ap_quit a" using Cons.prems(2) quit_is_final by metis
  then have "app_sees P v0 (ns @ notices (tn_wake u)) (app_turn P u a)"
    using app_sees_wake [OF app_sees_render [OF Cons.prems(1)]] by (simp add: app_turn_def)
  from Cons.IH [OF this] Cons.prems(2) show ?case by simp
qed (simp add: app_run_def)

lemma on_screen_given: "fst (on_screen j ns) = j \<or> (\<exists>w. Viewed w \<in> set ns \<and> fst (on_screen j ns) = scv_value w)"
proof (cases "dropWhile gap_notice (told_back ns)")
  case (Cons n earlier)
  have "n \<in> set (told_back ns)" using set_dropWhileD [of n gap_notice "told_back ns"] Cons by simp
  then have n: "n \<in> set ns" by (simp add: told_back_def)
  show ?thesis
  proof (cases n)
    case (Viewed w)
    then have "fst (on_screen j ns) = scv_value w" using Cons by (simp add: on_screen_def)
    then show ?thesis using n Viewed by blast
  qed (use Cons in \<open>simp add: on_screen_def\<close>)
next
  case Nil
  then show ?thesis unfolding on_screen_def Nil by simp
qed

text \<open>
  A viewer lights only what it watched change. While it runs, woken by whatever arrivals, view
  changes, keys and timers in whatever order, the rows of a materialized view are those of the
  latest view it was given; each row is compared to the view given before that one, and where a gap
  was drained in between no row at all is lit. The version in the footer is that of the last
  thing it was told. In between is by the order things are drained in, not by that in which the source
  queued them: an older view can use a gap up (\<open>gap_used_up_by_an_older_view\<close>).
\<close>

theorem viewer_lights_what_it_watched:
  assumes "app_new P now name ReducibleMode (Some v0) = Some a" "\<not> ap_quit (app_run P us a)"
    and "json_wf (scv_value v0)" "\<forall>u \<in> set us. \<forall>es v. tn_wake u = Ticked es (Some v) \<longrightarrow> json_wf (scv_value v)"
  shows "\<exists>t. ap_body (app_run P us a) = TreeBody t \<and>
    (let ns = concat (map (notices \<circ> tn_wake) us); (v, before) = on_screen (scv_value v0) ns in
      tr_lines t = map (view_row (pn_num P) (pn_quote P) v (Some before)) (shown_places v) \<and>
      (v = before \<longrightarrow> (\<forall>l \<in> set (tr_lines t). \<not> nd_changed l)) \<and>
      ap_version (app_run P us a) = last (scv_version v0 # map notice_version ns))"
proof -
  let ?ns = "concat (map (notices \<circ> tn_wake) us)"
  have sees: "app_sees P v0 ?ns (app_run P us a)" using app_sees_run [OF app_sees_new [OF assms(1)] assms(2)] by simp
  then obtain t where t: "ap_body (app_run P us a) = TreeBody t" "tree_sees (flattening P) (scv_value v0) ?ns t"
    by (auto simp: app_sees_def split: app_body.splits)
  obtain v before where s: "on_screen (scv_value v0) ?ns = (v, before)" by fastforce
  have "v = scv_value v0 \<or> (\<exists>w. Viewed w \<in> set ?ns \<and> v = scv_value w)"
  proof -
    from on_screen_given [of "scv_value v0" ?ns] show ?thesis by (simp add: s)
  qed
  moreover have "json_wf (scv_value w)" if w: "Viewed w \<in> set ?ns" for w
  proof -
    obtain u where u: "u \<in> set us" "Viewed w \<in> set (notices (tn_wake u))"
      using w by (auto simp del: notices.simps)
    then obtain es where "tn_wake u = Ticked es (Some w)"
      by (cases "tn_wake u") (auto split: option.splits)
    then show ?thesis using assms(4) u by blast
  qed
  ultimately have wf: "json_wf v" using assms(3) by auto
  have ls: "tr_lines t = flattening P v (Some before)" using t(2) by (simp add: tree_sees_def s)
  have "v = before \<longrightarrow> (\<forall>l \<in> set (tr_lines t). \<not> nd_changed l)" using repainted_dark [OF wf] ls by simp
  moreover have "tr_lines t = map (view_row (pn_num P) (pn_quote P) v (Some before)) (shown_places v)"
    using ls flatten_rows [OF wf] by simp
  moreover have "ap_version (app_run P us a) = last (scv_version v0 # map notice_version ?ns)"
    using sees by (simp add: app_sees_def)
  ultimately show ?thesis using t(1) unfolding s Let_def by blast
qed

theorem viewer_lights_what_it_watched_witness:
  "\<exists>t. ap_body (app_run \<lparr>pn_cols = \<lambda>_. 1, pn_num = \<lambda>_. [], pn_quote = \<lambda>_. [], pn_body_height = \<lambda>h. h - 1\<rparr>
      [\<lparr>tn_drawn = 0, tn_width = 80, tn_height = 24, tn_woken = 5,
        tn_wake = Ticked [EvGap 1 4] (Some \<lparr>scv_version = 4, scv_value = JObject [(''a'', JInt 9)]\<rparr>)\<rparr>]
      \<lparr>ap_name = ''l'', ap_version = 1, ap_body = TreeBody (tree_new (flatten (\<lambda>_. []) (\<lambda>_. [])) 0 (JObject [(''a'', JInt 1)])), ap_quit = False\<rparr>) =
    TreeBody t \<and> map nd_changed (tr_lines t) = [False]"
proof -
  let ?P = "\<lparr>pn_cols = \<lambda>_. 1, pn_num = \<lambda>_. [], pn_quote = \<lambda>_. [], pn_body_height = \<lambda>h. h - 1\<rparr>"
  let ?before = "\<lparr>scv_version = 1, scv_value = JObject [(''a'', JInt 1)]\<rparr>"
  let ?after = "\<lparr>scv_version = 4, scv_value = JObject [(''a'', JInt 9)]\<rparr>"
  let ?us = "[\<lparr>tn_drawn = 0, tn_width = 80, tn_height = 24, tn_woken = 5, tn_wake = Ticked [EvGap 1 4] (Some ?after)\<rparr>]"
  let ?a = "\<lparr>ap_name = ''l'', ap_version = 1, ap_body = TreeBody (tree_new (flatten (\<lambda>_. []) (\<lambda>_. [])) 0 (JObject [(''a'', JInt 1)])), ap_quit = False\<rparr>"
  have new: "app_new ?P 0 ''l'' ReducibleMode (Some ?before) = Some ?a" by (simp add: app_new_def)
  have runs: "\<not> ap_quit (app_run ?P ?us ?a)"
    by (simp add: app_run_def app_turn_def app_wake_def app_render_def on_change_def drain_arrivals_def on_arrival_def on_view_def
        Let_def split: prod.splits)
  have wf: "json_wf (scv_value ?before)" "\<forall>u \<in> set ?us. \<forall>es v. tn_wake u = Ticked es (Some v) \<longrightarrow> json_wf (scv_value v)"
    by (simp_all add: bt_wf_def)
  from viewer_lights_what_it_watched [OF new runs wf] show ?thesis
    by (auto simp: on_screen_def told_back_def shown_places_def Let_def view_row_def moved_def bt_get_def)
qed

text \<open>
  A gap that is drained on the tick of an earlier record is used up by that record's view: the view
  fetched after the gap, which the source sets last, is then compared to a state it did not move
  from, although every gap was queued before its view was set.
\<close>

lemma gap_used_up_by_an_older_view:
  "on_screen (JObject [(''a'', JInt 0)])
     (notices (Ticked [EvRecord \<lparr>wr_version = 1, wr_patch = JNull\<rparr>, EvGap 1 4] (Some \<lparr>scv_version = 1, scv_value = JObject [(''a'', JInt 1)]\<rparr>)) @
      notices (Ticked [] (Some \<lparr>scv_version = 4, scv_value = JObject [(''a'', JInt 9)]\<rparr>))) =
     (JObject [(''a'', JInt 9)], JObject [(''a'', JInt 1)])"
  "map nd_changed (flatten num quote (JObject [(''a'', JInt 9)]) (Some (JObject [(''a'', JInt 1)]))) = [True]"
  by (simp_all add: on_screen_def told_back_def bt_get_def)

end
