(* ===== verification/TuiScript.thy ===== *)
theory TuiScript
  imports TuiApp
begin

text \<open>
  \<open>crates/lug-tui/src/script.rs\<close> and the arguments of \<open>main.rs\<close>: a source of events read from a file
  of JSON lines that grows while it is read. Text is bytes; \<open>entry_of\<close> and \<open>header_of\<close> are what
  serde reads from a line. Sending an event may wait for room in the channel; it is one step here.
\<close>

section \<open>The source\<close>

datatype script_entry =
    EntryRecord version json "json option"
  | EntryGap version version "json option"

record script_header =
  sh_reducible :: bool
  sh_view :: "json option"

record script =
  sc_reducible :: bool
  sc_view :: "source_view option"
  sc_version :: version
  sc_events :: "event list"
  sc_events_open :: bool
  sc_version_open :: bool

datatype script_error = EmptyScript | BadHeader | NoInitialView

definition first_line :: "string \<Rightarrow> string" where
  "first_line text =
     (let l = takeWhile (\<lambda>c. c \<noteq> CHR 0x0A) text in if length l < length text then l @ [CHR 0x0A] else l)"

definition script_open :: "(string \<Rightarrow> script_header option) \<Rightarrow> string \<Rightarrow> script_error + script \<times> nat" where
  "script_open header_of text =
     (let line = first_line text in
      if line = [] then Inl EmptyScript
      else case header_of line of
          None \<Rightarrow> Inl BadHeader
        | Some h \<Rightarrow>
            if sh_reducible h \<and> sh_view h = None then Inl NoInitialView
            else Inr (\<lparr>sc_reducible = sh_reducible h, sc_view = map_option (\<lambda>v. \<lparr>scv_version = 0, scv_value = v\<rparr>) (sh_view h),
                sc_version = 0, sc_events = [], sc_events_open = True, sc_version_open = True\<rparr>, length line))"

definition blank_line :: "string \<Rightarrow> bool" where
  "blank_line l \<longleftrightarrow> (\<forall>c \<in> set l. c \<in> {CHR '' '', CHR 0x09, CHR 0x0A, CHR 0x0C, CHR 0x0D})"

fun entry_event :: "script_entry \<Rightarrow> event" where
  "entry_event (EntryRecord v p _) = EvRecord \<lparr>wr_version = v, wr_patch = p\<rparr>"
| "entry_event (EntryGap lo hi _) = EvGap lo hi"

fun entry_view :: "script_entry \<Rightarrow> json option" where
  "entry_view (EntryRecord _ _ view) = view"
| "entry_view (EntryGap _ _ view) = view"

text \<open>\<open>emit\<close>: false once the viewer has hung up.\<close>

definition script_emit :: "(string \<Rightarrow> script_entry option) \<Rightarrow> string \<Rightarrow> script \<Rightarrow> script \<times> bool" where
  "script_emit entry_of line s =
     (if blank_line line then (s, True)
      else case entry_of line of
          None \<Rightarrow> (s, True)
        | Some e \<Rightarrow>
            (let version = event_cursor (entry_event e) in
             if \<not> sc_events_open s then (s, False)
             else let s = s\<lparr>sc_events := sc_events s @ [entry_event e]\<rparr>;
                    s = (case entry_view e of
                        Some v \<Rightarrow> if sc_reducible s then s\<lparr>sc_view := Some \<lparr>scv_version = version, scv_value = v\<rparr>\<rparr> else s
                      | None \<Rightarrow> s)
               in if sc_version_open s then (s\<lparr>sc_version := version\<rparr>, True) else (s, False)))"

text \<open>The loop over the lines of \<open>pending\<close>.\<close>

function script_drain :: "(string \<Rightarrow> script_entry option) \<Rightarrow> string \<Rightarrow> script \<Rightarrow> string \<times> script \<times> bool" where
  "script_drain entry_of pending s =
     (if CHR 0x0A \<in> set pending
      then let line = takeWhile (\<lambda>c. c \<noteq> CHR 0x0A) pending @ [CHR 0x0A]; pending = drop (length line) pending in
        case script_emit entry_of line s of
          (s, going) \<Rightarrow> if going then script_drain entry_of pending s else (pending, s, False)
      else (pending, s, True))"
  by pat_completeness auto
termination by (relation "measure (\<lambda>(_, pending, _). length pending)") (auto dest: length_pos_if_in_set intro: diff_less)

declare script_drain.simps [simp del]

text \<open>
  What a read gives, and a viewer that hangs up. A viewer that goes between two lines of one read is
  the same as one that goes between two reads.
\<close>

datatype tail_read = Bytes string | AtEnd | ReadFails | HangsUp bool bool

fun script_run :: "(string \<Rightarrow> script_entry option) \<Rightarrow> tail_read list \<Rightarrow> string \<Rightarrow> script \<Rightarrow> string \<times> script \<times> bool" where
  "script_run entry_of [] pending s = (pending, s, True)"
| "script_run entry_of (r # rs) pending s =
     (case r of
        Bytes chunk \<Rightarrow> (case script_drain entry_of (pending @ chunk) s of
            (pending, s, going) \<Rightarrow> if going then script_run entry_of rs pending s else (pending, s, False))
      | AtEnd \<Rightarrow> if sc_events_open s then script_run entry_of rs pending s else (pending, s, False)
      | ReadFails \<Rightarrow> (pending, s, False)
      | HangsUp e v \<Rightarrow> script_run entry_of rs pending
          (s\<lparr>sc_events_open := (sc_events_open s \<and> \<not> e), sc_version_open := (sc_version_open s \<and> \<not> v)\<rparr>))"

section \<open>The arguments\<close>

datatype tui_source = FromScript string | FromSocket string

record tui_args =
  tg_source :: tui_source
  tg_reducible :: bool
  tg_name :: string

datatype tui_error =
    WantsPath string
  | UnknownFlag string
  | TwoSources
  | NoSource
  | NotWired string
  | NotReducible string
  | NoViewYet string

fun scan_tui :: "string list \<Rightarrow> string option \<Rightarrow> string option \<Rightarrow> bool \<Rightarrow> string option \<Rightarrow>
    tui_error + (string option \<times> string option \<times> bool \<times> string option) option" where
  "scan_tui [] script socket as_tree name = Inr (Some (script, socket, as_tree, name))"
| "scan_tui (arg # args) script socket as_tree name =
     (if arg = ''-h'' \<or> arg = ''--help'' then Inr None
      else if arg = ''--as_tree'' then scan_tui args script socket True name
      else if arg = ''--script'' then (case args of [] \<Rightarrow> Inl (WantsPath arg) | p # args \<Rightarrow> scan_tui args (Some p) socket as_tree name)
      else if arg = ''--socket'' then (case args of [] \<Rightarrow> Inl (WantsPath arg) | p # args \<Rightarrow> scan_tui args script (Some p) as_tree name)
      else if take 1 arg = ''-'' then Inl (UnknownFlag arg)
      else scan_tui args script socket as_tree (Some arg))"

fun split_slash :: "string \<Rightarrow> string list" where
  "split_slash [] = [[]]"
| "split_slash (c # cs) =
     (if c = CHR ''/'' then [] # split_slash cs
      else case split_slash cs of w # ws \<Rightarrow> (c # w) # ws | [] \<Rightarrow> [[c]])"

text \<open>\<open>Path::file_stem\<close>.\<close>

definition file_stem :: "string \<Rightarrow> string option" where
  "file_stem path =
     (case rev (filter (\<lambda>w. w \<noteq> [] \<and> w \<noteq> ''.'') (split_slash path)) of
        [] \<Rightarrow> None
      | name # _ \<Rightarrow>
          if name = ''..'' then None
          else let tail = takeWhile (\<lambda>c. c \<noteq> CHR ''.'') (rev name); stem = take (length name - length tail - 1) name in
            Some (if CHR ''.'' \<in> set name \<and> stem \<noteq> [] then stem else name))"

definition parse_tui :: "string list \<Rightarrow> tui_error + tui_args option" where
  "parse_tui args =
     rbind (scan_tui args None None False None) (\<lambda>r.
       case r of
         None \<Rightarrow> Inr None
       | Some (script, socket, as_tree, name) \<Rightarrow>
           rbind (case (script, socket) of
               (Some _, Some _) \<Rightarrow> Inl TwoSources
             | (Some p, None) \<Rightarrow> Inr (FromScript p)
             | (None, Some p) \<Rightarrow> Inr (FromSocket p)
             | (None, None) \<Rightarrow> Inl NoSource) (\<lambda>source.
           Inr (Some \<lparr>tg_source = source, tg_reducible = as_tree,
             tg_name = (case name of Some n \<Rightarrow> n
               | None \<Rightarrow> (case source of
                     FromScript p \<Rightarrow> (case file_stem p of Some stem \<Rightarrow> stem | None \<Rightarrow> ''log'')
                   | FromSocket _ \<Rightarrow> ''log''))\<rparr>)))"

text \<open>The mode \<open>start\<close> runs in, once a script is open.\<close>

definition start_mode :: "tui_args \<Rightarrow> script \<Rightarrow> tui_error + tui_mode" where
  "start_mode args s =
     (if tg_reducible args
      then if \<not> sc_reducible s then Inl (NotReducible (tg_name args))
        else if sc_view s = None then Inl (NoViewYet (tg_name args)) else Inr ReducibleMode
      else Inr LogMode)"

section \<open>Lines survive any reads\<close>

text \<open>The whole lines of a text, and what is left of it.\<close>

fun cut_lines :: "string \<Rightarrow> string list \<times> string" where
  "cut_lines [] = ([], [])"
| "cut_lines (c # cs) =
     (case cut_lines cs of (ls, rest) \<Rightarrow>
        if c = CHR 0x0A then ([c] # ls, rest)
        else (case ls of [] \<Rightarrow> ([], c # rest) | l # ls \<Rightarrow> ((c # l) # ls, rest)))"

definition emit_all :: "(string \<Rightarrow> script_entry option) \<Rightarrow> string list \<Rightarrow> script \<Rightarrow> script" where
  "emit_all entry_of ls s = fold (\<lambda>l s. fst (script_emit entry_of l s)) ls s"

abbreviation listening :: "script \<Rightarrow> bool" where
  "listening s \<equiv> sc_events_open s \<and> sc_version_open s"

lemma emit_listening: "listening s \<Longrightarrow> snd (script_emit entry_of l s) \<and> listening (fst (script_emit entry_of l s))"
  by (auto simp: script_emit_def Let_def split: option.splits)

lemma cut_no_newline: "CHR 0x0A \<notin> set t \<Longrightarrow> cut_lines t = ([], t)"
  by (induction t) auto

lemma cut_line: "CHR 0x0A \<notin> set l \<Longrightarrow> cut_lines (l @ CHR 0x0A # t) = ((l @ [CHR 0x0A]) # fst (cut_lines t), snd (cut_lines t))"
  by (induction l) (auto split: prod.splits)

lemma cut_rest: "CHR 0x0A \<notin> set (snd (cut_lines t))"
  by (induction t) (auto split: prod.splits list.splits)

lemma cut_append: "cut_lines (xs @ ys) = (fst (cut_lines xs) @ fst (cut_lines (snd (cut_lines xs) @ ys)), snd (cut_lines (snd (cut_lines xs) @ ys)))"
proof (induction "length xs" arbitrary: xs rule: less_induct)
  case less
  show ?case
  proof (cases "CHR 0x0A \<in> set xs")
    case True
    then obtain l t where xs: "xs = l @ CHR 0x0A # t" "CHR 0x0A \<notin> set l" by (meson split_list_first)
    from less [of t] show ?thesis by (simp add: xs cut_line)
  qed (simp add: cut_no_newline)
qed

lemma emit_all_listening: "listening s \<Longrightarrow> listening (emit_all entry_of ls s)"
  by (induction ls arbitrary: s) (simp_all add: emit_all_def emit_listening)

lemma emit_all_append: "emit_all entry_of (ls @ ms) s = emit_all entry_of ms (emit_all entry_of ls s)"
  by (simp add: emit_all_def)

lemma drain_emits:
  "listening s \<Longrightarrow> script_drain entry_of t s = (snd (cut_lines t), emit_all entry_of (fst (cut_lines t)) s, True)"
proof (induction "length t" arbitrary: t s rule: less_induct)
  case less
  show ?case
  proof (cases "CHR 0x0A \<in> set t")
    case True
    then obtain l u where t: "t = l @ CHR 0x0A # u" "CHR 0x0A \<notin> set l" by (meson split_list_first)
    have l: "takeWhile (\<lambda>c. c \<noteq> CHR 0x0A) t = l" using t by (subst t(1), subst takeWhile_append2) auto
    obtain s' where s': "script_emit entry_of (l @ [CHR 0x0A]) s = (s', True)" "listening s'"
      using emit_listening [OF less.prems, of entry_of "l @ [CHR 0x0A]"] by (cases "script_emit entry_of (l @ [CHR 0x0A]) s") auto
    have "script_drain entry_of t s = script_drain entry_of u s'"
      by (subst script_drain.simps) (simp add: True l s' Let_def, simp add: t)
    also have "\<dots> = (snd (cut_lines u), emit_all entry_of (fst (cut_lines u)) s', True)" using less.hyps [of u s'] s' t by simp
    finally show ?thesis using t s' by (simp add: cut_line emit_all_def)
  qed (subst script_drain.simps, simp add: cut_no_newline emit_all_def)
qed

fun tail_bytes :: "tail_read \<Rightarrow> string" where
  "tail_bytes (Bytes b) = b"
| "tail_bytes _ = []"

fun plain_read :: "tail_read \<Rightarrow> bool" where
  "plain_read (Bytes _) = True"
| "plain_read AtEnd = True"
| "plain_read _ = False"

lemma run_emits:
  "listening s \<Longrightarrow> list_all plain_read rs \<Longrightarrow> cut_lines pending = ([], pending) \<Longrightarrow>
    script_run entry_of rs pending s =
      (snd (cut_lines (pending @ concat (map tail_bytes rs))),
       emit_all entry_of (fst (cut_lines (pending @ concat (map tail_bytes rs)))) s, True)"
proof (induction rs arbitrary: pending s)
  case (Cons r rs)
  show ?case
  proof (cases r)
    case (Bytes b)
    let ?c = "cut_lines (pending @ b)"
    have "script_run entry_of (r # rs) pending s = script_run entry_of rs (snd ?c) (emit_all entry_of (fst ?c) s)"
      using Cons.prems(1) by (simp add: Bytes drain_emits)
    also have "\<dots> = (snd (cut_lines (snd ?c @ concat (map tail_bytes rs))),
        emit_all entry_of (fst (cut_lines (snd ?c @ concat (map tail_bytes rs)))) (emit_all entry_of (fst ?c) s), True)"
      using Cons.prems emit_all_listening [OF Cons.prems(1)] cut_no_newline [OF cut_rest, of "pending @ b"] by (intro Cons.IH) simp_all
    finally show ?thesis
      using cut_append [of "pending @ b" "concat (map tail_bytes rs)"] by (simp add: Bytes emit_all_append)
  qed (use Cons in simp_all)
qed (simp add: emit_all_def)

definition line_entries :: "(string \<Rightarrow> script_entry option) \<Rightarrow> string list \<Rightarrow> script_entry list" where
  "line_entries entry_of ls = List.map_filter entry_of (filter (\<lambda>l. \<not> blank_line l) ls)"

definition entry_views :: "script_entry list \<Rightarrow> source_view list" where
  "entry_views es = List.map_filter (\<lambda>e. map_option (\<lambda>v. \<lparr>scv_version = event_cursor (entry_event e), scv_value = v\<rparr>) (entry_view e)) es"

text \<open>What a script holds after a run over the entries of its lines.\<close>

definition script_after :: "script_entry list \<Rightarrow> script \<Rightarrow> script" where
  "script_after es s = s\<lparr>sc_events := sc_events s @ map entry_event es,
     sc_version := last (sc_version s # map (event_cursor \<circ> entry_event) es),
     sc_view := (if sc_reducible s then last (sc_view s # map Some (entry_views es)) else sc_view s)\<rparr>"

lemma emit_all_entries: "listening s \<Longrightarrow> emit_all entry_of ls s = script_after (line_entries entry_of ls) s"
proof (induction ls arbitrary: s)
  case Nil
  show ?case by (simp add: emit_all_def script_after_def line_entries_def entry_views_def map_filter_simps)
next
  case (Cons l ls)
  have s: "listening (fst (script_emit entry_of l s))" using emit_listening [OF Cons.prems] by blast
  have "emit_all entry_of (l # ls) s = script_after (line_entries entry_of ls) (fst (script_emit entry_of l s))"
    using Cons.IH [OF s] by (simp add: emit_all_def)
  also have "\<dots> = script_after (line_entries entry_of (l # ls)) s"
    using Cons.prems
    by (cases "blank_line l"; cases "entry_of l"; cases "entry_view (the (entry_of l))")
      (simp_all add: script_emit_def Let_def line_entries_def map_filter_simps script_after_def entry_views_def)
  finally show ?case .
qed

lemma header_begins: "\<exists>t. text = first_line text @ t"
proof -
  let ?l = "takeWhile (\<lambda>c. c \<noteq> CHR 0x0A) text" and ?d = "dropWhile (\<lambda>c. c \<noteq> CHR 0x0A) text"
  show ?thesis
  proof (cases ?d)
    case Nil
    then have "?l = text" using takeWhile_dropWhile_id [of "\<lambda>c. c \<noteq> CHR 0x0A" "text"] by simp
    then have "first_line text = text" unfolding first_line_def by (simp only: Let_def) simp
    then show ?thesis by simp
  next
    case (Cons c t)
    then have c: "c = CHR 0x0A" using hd_dropWhile [of "\<lambda>c. c \<noteq> CHR 0x0A" "text"] by simp
    have whole: "?l @ c # t = text" using takeWhile_dropWhile_id [of "\<lambda>c. c \<noteq> CHR 0x0A" "text"] Cons by simp
    have "length ?l < length text" using arg_cong [OF whole, of length] unfolding length_append length_Cons by linarith
    then have "first_line text = ?l @ [c]" by (simp add: first_line_def c)
    then have "text = first_line text @ t" using whole by simp
    then show ?thesis ..
  qed
qed

text \<open>
  A script is read whole, however it is written. Opened on a file that grows afterwards, with its
  bytes arriving in any pieces and with any pauses, a script has sent the event of each complete
  line behind the header, once and in order, blank lines and lines it cannot read apart; it is at
  the version of the last of them and holds the last view they carried; and it keeps the unfinished
  line for later.
\<close>

theorem script_is_read_whole:
  assumes "script_open header_of text = Inr (s, n)"
    and "list_all plain_read rs" "concat (map tail_bytes rs) = drop n (text @ appended)"
  shows "let (ls, rest) = cut_lines (drop n (text @ appended)) in
    script_run entry_of rs [] s = (rest, script_after (line_entries entry_of ls) s, True) \<and>
    take n (text @ appended) = first_line text"
proof -
  have s: "listening s" "n = length (first_line text)"
    using assms(1) by (auto simp: script_open_def Let_def split: if_splits option.splits)
  obtain t where "text = first_line text @ t" using header_begins by blast
  then obtain u where "text @ appended = first_line text @ u" by (metis append_assoc)
  then have "take n (text @ appended) = first_line text" unfolding s(2) by simp
  then show ?thesis
    using run_emits [OF s(1) assms(2), of "[]" entry_of] emit_all_entries [OF s(1)] by (simp add: assms(3) split_def Let_def)
qed

text \<open>The reads of the test: a header, then a record whose line comes in two pieces.\<close>

theorem script_is_read_whole_witness:
  "snd (snd (script_run (\<lambda>_. Some (EntryRecord 1 JNull None)) [Bytes ''a'', AtEnd, Bytes ''b\<newline>c''] []
     \<lparr>sc_reducible = False, sc_view = None, sc_version = 0, sc_events = [], sc_events_open = True, sc_version_open = True\<rparr>))"
proof -
  let ?s = "\<lparr>sc_reducible = False, sc_view = None, sc_version = 0, sc_events = [], sc_events_open = True, sc_version_open = True\<rparr>"
  have "script_open (\<lambda>_. Some \<lparr>sh_reducible = False, sh_view = None\<rparr>) ''h\<newline>'' = Inr (?s, 2)"
    by (simp add: script_open_def first_line_def)
  from script_is_read_whole [OF this, of "[Bytes ''a'', AtEnd, Bytes ''b\<newline>c'']" "''ab\<newline>c''" "\<lambda>_. Some (EntryRecord 1 JNull None)"]
  show ?thesis by (simp add: split_def Let_def)
qed

end
