(* ===== verification/Spec2Isabelle.thy ===== *)
theory Spec2Isabelle
  imports CavlcMerge CavlcPatchJson CavlcStore WalProps ClientSub ClientFollower ClientHttp LugCli LoadBench LoadHttp LoadMock ServerProcess TuiScript
begin

text \<open>
  A verification library for lug, a server of append-only logs of patches, its clients and tools.

  \<^bold>\<open>The program.\<close> A log is a sequence of patches with versions counted from 1, and may keep the value they
  fold into (its view). The crates, from the bottom: \<open>cavlc\<close> holds JSON documents in persistent AVL
  maps, changes them by mergeable patches and keeps their history in a store; \<open>lug-core\<close> puts a
  reducible structure and a storage together into a log with a watermark and a policy of
  durability; \<open>lug-wal\<close> is the storage on disk, a directory of preallocated segments written with
  checksummed records; \<open>lug-proto\<close> has the messages and their framing; \<open>lug-server\<close> runs one actor per
  log (group commit, a ring of recent records, views, catch-up), streams with credit, sessions over
  unix sockets and HTTP, and a registry of logs; \<open>lug-client\<close> multiplexes calls over connections,
  reads subscriptions and follows a document; \<open>lug-load\<close> drives a server and judges what comes back;
  \<open>lug-tui\<close> shows a log or a view in a terminal.

  \<^bold>\<open>Where it is modelled\<close> (paths are under \<open>src/crates\<close>):

  \<^item> \<open>LugPrelude\<close>, \<open>Json\<close>: words as bounded naturals, byte strings, results as sums, BTreeMap as sorted
    association lists, \<open>serde_json::Value\<close>.
  \<^item> \<open>Avl\<close>, \<open>CavlcValue\<close>, \<open>CavlcPatch\<close>, \<open>CavlcMerge\<close>, \<open>CavlcPatchJson\<close>, \<open>CavlcStore\<close>: \<open>cavlc/src\<close> (\<open>avl.rs\<close>,
    \<open>value.rs\<close>, \<open>patch.rs\<close>, \<open>mvcc.rs\<close>). The map refines BTreeMap and is shallow; applying a patch is its
    meaning on JSON; merging is either order of applying; histories are serial under any
    interleaving of writers; replaying a log rebuilds its store.
  \<^item> \<open>LugCore\<close>, \<open>LugLog\<close>, \<open>ServerStorage\<close>: \<open>lug-core/src\<close> and the in-memory storage of
    \<open>lug-server/src/storage.rs\<close>. The traits Reducible and Storage are records of operations; their
    laws are locales, interpreted on the store of cavlc, on Noop and on each storage. A log shows
    what a cold start over its storage would show, whatever fails, as long as the storage is not
    tainted: poisoned, with a segment file its reclaim could not remove or, in memory, with a record
    dropped that no checkpoint covers.
  \<^item> \<open>WalFormat\<close>, \<open>WalSys\<close>, \<open>WalStore\<close>, \<open>WalContract\<close>, \<open>WalWrite\<close>, \<open>WalRefine\<close>, \<open>WalStorage\<close>, \<open>WalRuns\<close>,
    \<open>WalProps\<close>: \<open>lug-wal/src\<close>. Records and the scan of a segment (\<open>format.rs\<close>, \<open>segment.rs\<close>); files with
    the bytes a process sees and the bytes that outlive a power cut, every system call answering
    from a list of faults (\<open>sys.rs\<close>); the segment store over them (\<open>lib.rs\<close>); the abstract contract
    (a list of records) and its refinement; runs with failures.
  \<^item> \<open>Proto\<close>: \<open>lug-proto/src\<close>. \<open>ServerRing\<close>, \<open>ServerActor\<close>, \<open>ServerActorProps\<close>, \<open>ServerStream\<close>, \<open>ServerConfig\<close>,
    \<open>ServerSession\<close>: \<open>lug-server/src\<close> (\<open>ring.rs\<close>; \<open>actor.rs\<close>; \<open>stream.rs\<close>; \<open>config.rs\<close>, \<open>acl.rs\<close>; \<open>session.rs\<close>,
    \<open>registry.rs\<close>, \<open>http.rs\<close>). An actor is a function from its inbox to answers, commits and pushes; a
    stream is a step relation over answers of the actor. \<open>ServerProcess\<close> is the daemon around them
    (\<open>unix.rs\<close>, \<open>lib.rs\<close>, \<open>main.rs\<close>, \<open>cores.rs\<close>): the published socket, the listener and its limit, the
    tasks of a connection, the lanes logs are placed on, start and shutdown.
  \<^item> \<open>ClientConn\<close>, \<open>ClientSub\<close>, \<open>ClientFollower\<close>, \<open>ClientHttp\<close>: \<open>lug-client/src\<close> (\<open>conn.rs\<close>, \<open>pool.rs\<close>,
    \<open>transport.rs\<close>, \<open>config.rs\<close>, \<open>hub.rs\<close>; \<open>sub.rs\<close>; \<open>follower.rs\<close>; \<open>http.rs\<close>). Every accepted call is answered
    once; a consumer that reads is granted credit or told why not; a follower shows the document of the
    log, and announces what it skips when the log is served in order.
    \<open>LugCli\<close> is the command line client \<open>bin/lug.rs\<close>: its commands, their output and exit codes.
  \<^item> \<open>LoadLedger\<close>, \<open>LoadConfig\<close>, \<open>LoadRun\<close>, \<open>LoadProbe\<close>: \<open>lug-load/src\<close> (\<open>check.rs\<close>; \<open>config.rs\<close>, \<open>measure.rs\<close>; \<open>run.rs\<close>). The
    ledger accuses no honest server, and a run that passes proves order, completeness and, with a
    replay, durability of what it saw, as far as the check of a payload reads it; a crash probe that passes proves that what was acknowledged
    was kept. \<open>LoadWire\<close> and \<open>LoadHttp\<close> are its connections (\<open>wire.rs\<close>, \<open>http.rs\<close>): they report what was
    sent, within their limits. \<open>LoadServer\<close> is the server it starts, crashes and stops (\<open>server.rs\<close>),
    \<open>LoadBench\<close> the whole benchmark (\<open>main.rs\<close>) and what its report vouches for, \<open>LoadMock\<close> the
    server of its tests (\<open>mock.rs\<close>), which no run passes when it skips, reorders or loses
    acknowledgements.
  \<^item> \<open>TuiJson\<close>, \<open>TuiTail\<close>, \<open>TuiTree\<close>, \<open>TuiApp\<close>, \<open>TuiScript\<close>: \<open>lug-tui/src\<close> (\<open>json.rs\<close>, \<open>tail.rs\<close>, \<open>tree.rs\<close>, \<open>app.rs\<close>
    with \<open>follow.rs\<close>, \<open>script.rs\<close> with the arguments of \<open>main.rs\<close>). Lines fit and lose nothing, a reader who
    scrolled back is left in peace, a row is lit exactly where the value compared with differs.

  \<^bold>\<open>How state and operations correspond.\<close> A struct is a record with its fields, an enum a datatype with
  its constructors, \<open>&mut self\<close> is a state that is passed and returned, \<open>Result\<close> is a sum with the error
  on the left, and a panic is a value of its own wherever it can be reached (an index, \<open>expect\<close>, a
  slice). Tasks are functions of the events their \<open>select!\<close> can see, in whatever order those come: the
  theorems hold for every list of events, so for every schedule. Numbers are naturals with the
  wrapping, saturating and checked operations of the source written out; counters that would need
  \<open>2^64\<close> events to overflow are left unbounded.

  \<^bold>\<open>Loops.\<close> A loop over data is structural recursion; a loop with a measure is a \<open>function\<close> with its
  termination proof; the readers of \<open>ClientHttp\<close>, which may wait for ever on their input, are
  \<open>partial_function (option)\<close>, and that they end is proved apart. No model runs on fuel; the numbers
  given to \<open>reader_loop\<close> and \<open>events_of\<close> are how many results are looked at, and the theorems hold for
  any number that is more than the frames that come; the task of a stream makes any number of reads.

  \<^bold>\<open>Parameters.\<close> What is not under \<open>src\<close> is an argument: the checksum of crc32fast, the text serde_json
  reads and writes, the width of a character, parsing of socket addresses and floats, the kernel
  behind the system calls. What a theorem needs of one is an assumption of it, and its witness gives a
  concrete function that satisfies it.

  \<^bold>\<open>Where the promises end.\<close> A property states its conditions; where the program breaks the promise
  outside them, a lemma shows how. A flush that fails under group commit doubles a batch and tears the
  stream (\<open>failed_flush_doubles_and_skips\<close>), so the properties of actor and stream are over storage that
  cannot fail. A rotation that fails and is retried loses a flush (\<open>retried_rotation_loses_the_flush\<close>).
  Some documents are taken for views (\<open>documents_taken_for_views\<close>), and a cursor out of range makes a
  follower jump silently (\<open>out_of_range_jumps_silently\<close>). A batch open across a truncation may publish
  on a history it never saw (\<open>stale_batch_after_truncate\<close>). A gap can be used up by an older view
  (\<open>gap_used_up_by_an_older_view\<close>). Digits of a sequence number may change unseen (\<open>changed_digits_pass\<close>).

  \<^bold>\<open>Not modelled.\<close> Threads, sockets, signals, timers and the terminal as such, the tasks of
  \<open>lug-client/src/unix.rs\<close>, the limit of
  descriptors and the directories of \<open>lug-load\<close>, its histograms and printed report, the HTTP front of
  its mock server, which gives fixed answers, what clap and toml parse, the
  demonstration program, metrics and the text of error messages. Failing allocations are not
  considered. Trimming of header lines knows ASCII blanks only. Reference counts are not
  observable; where sharing is (\<open>ptr_eq\<close> in patches) the model carries it.
\<close>

end
